(* ===== verification/Topl_Prelude.thy ===== *)
theory Topl_Prelude
  imports Main "HOL-Library.Word" "HOL-Library.Multiset"
begin

text \<open>
  Shared vocabulary of the development: the machine types of the Windows sources, the exception
  codes of the topology library (\<^verbatim>\<open>ds/src/inc/w32topl.h\<close>, \<^verbatim>\<open>w32toplsched.h\<close>,
  \<^verbatim>\<open>w32toplspantree.h\<close>), results that carry a raised exception, the two C library routines the
  sources call with a comparison function (\<^verbatim>\<open>qsort\<close>, \<^verbatim>\<open>bsearch\<close>), and the interface of the NT
  runtime's generic table (\<^verbatim>\<open>RTL_GENERIC_TABLE\<close>), which is not part of the repository and is
  therefore a parameter of every definition that uses it.

  \<^verbatim>\<open>ASSERT\<close> expands to nothing in a free build. The definitions leave it out; the conditions the
  sources assert are stated as lemmas instead.
\<close>

section \<open>Machine types and collections of facts\<close>

unbundle bit_operations_syntax

type_synonym dword = "32 word"
type_synonym byte = "8 word"

named_theorems topl_defs \<open>definitions of the straight-line routines\<close>
named_theorems topl_frame \<open>what an operation leaves unchanged\<close>
named_theorems topl_inv \<open>an operation keeps a component's invariant\<close>

definition INFINITY_DW :: dword where
  "INFINITY_DW = 0xFFFFFFFF"

lemma INFINITY_DW_max: "INFINITY_DW = - 1"
  by (simp add: INFINITY_DW_def)

lemma le_INFINITY_DW [simp]: "x \<le> INFINITY_DW"
  by (simp add: INFINITY_DW_max)

lemma unat_dword_less: "unat (x :: dword) < 2 ^ 32"
  using unsigned_less [of x] by simp

lemma unat_INFINITY_DW: "unat INFINITY_DW = 2 ^ 32 - 1"
  by (simp add: INFINITY_DW_def)

section \<open>Exceptions\<close>

datatype topl_ex =
    TOPL_EX_OUT_OF_MEMORY
  | TOPL_EX_WRONG_OBJECT
  | TOPL_EX_INVALID_EDGE
  | TOPL_EX_INVALID_VERTEX
  | TOPL_EX_INVALID_INDEX
  | TOPL_EX_NULL_POINTER
  | TOPL_EX_SCHEDULE_ERROR
  | TOPL_EX_CACHE_ERROR
  | TOPL_EX_NEVER_SCHEDULE
  | TOPL_EX_GRAPH_STATE_ERROR
  | TOPL_EX_INVALID_EDGE_TYPE
  | TOPL_EX_INVALID_EDGE_SET
  | TOPL_EX_COLOR_VTX_ERROR
  | TOPL_EX_ADD_EDGE_AFTER_SET
  | TOPL_EX_TOO_FEW_VTX
  | TOPL_EX_TOO_FEW_EDGES
  | TOPL_EX_NONINTERSECTING_SCHEDULES

definition TOPL_EX_PREFIX :: dword where
  "TOPL_EX_PREFIX = push_bit 30 3 OR push_bit 29 1"

fun topl_ex_code :: "topl_ex \<Rightarrow> dword" where
  "topl_ex_code TOPL_EX_OUT_OF_MEMORY = TOPL_EX_PREFIX OR push_bit 1 1"
| "topl_ex_code TOPL_EX_WRONG_OBJECT = TOPL_EX_PREFIX OR push_bit 2 1"
| "topl_ex_code TOPL_EX_INVALID_EDGE = TOPL_EX_PREFIX OR push_bit 3 1"
| "topl_ex_code TOPL_EX_INVALID_VERTEX = TOPL_EX_PREFIX OR push_bit 4 1"
| "topl_ex_code TOPL_EX_INVALID_INDEX = TOPL_EX_PREFIX OR push_bit 5 1"
| "topl_ex_code TOPL_EX_NULL_POINTER = TOPL_EX_PREFIX OR 101"
| "topl_ex_code TOPL_EX_SCHEDULE_ERROR = TOPL_EX_PREFIX OR 102"
| "topl_ex_code TOPL_EX_CACHE_ERROR = TOPL_EX_PREFIX OR 103"
| "topl_ex_code TOPL_EX_NEVER_SCHEDULE = TOPL_EX_PREFIX OR 104"
| "topl_ex_code TOPL_EX_GRAPH_STATE_ERROR = TOPL_EX_PREFIX OR 201"
| "topl_ex_code TOPL_EX_INVALID_EDGE_TYPE = TOPL_EX_PREFIX OR 202"
| "topl_ex_code TOPL_EX_INVALID_EDGE_SET = TOPL_EX_PREFIX OR 203"
| "topl_ex_code TOPL_EX_COLOR_VTX_ERROR = TOPL_EX_PREFIX OR 204"
| "topl_ex_code TOPL_EX_ADD_EDGE_AFTER_SET = TOPL_EX_PREFIX OR 205"
| "topl_ex_code TOPL_EX_TOO_FEW_VTX = TOPL_EX_PREFIX OR 206"
| "topl_ex_code TOPL_EX_TOO_FEW_EDGES = TOPL_EX_PREFIX OR 207"
| "topl_ex_code TOPL_EX_NONINTERSECTING_SCHEDULES = TOPL_EX_PREFIX OR 208"

definition topl_ex_list :: "topl_ex list" where
  "topl_ex_list =
    [TOPL_EX_OUT_OF_MEMORY, TOPL_EX_WRONG_OBJECT, TOPL_EX_INVALID_EDGE, TOPL_EX_INVALID_VERTEX,
     TOPL_EX_INVALID_INDEX, TOPL_EX_NULL_POINTER, TOPL_EX_SCHEDULE_ERROR, TOPL_EX_CACHE_ERROR,
     TOPL_EX_NEVER_SCHEDULE, TOPL_EX_GRAPH_STATE_ERROR, TOPL_EX_INVALID_EDGE_TYPE,
     TOPL_EX_INVALID_EDGE_SET, TOPL_EX_COLOR_VTX_ERROR, TOPL_EX_ADD_EDGE_AFTER_SET,
     TOPL_EX_TOO_FEW_VTX, TOPL_EX_TOO_FEW_EDGES, TOPL_EX_NONINTERSECTING_SCHEDULES]"

datatype filter_result = EXCEPTION_EXECUTE_HANDLER | EXCEPTION_CONTINUE_SEARCH

definition ToplIsToplException :: "dword \<Rightarrow> filter_result" where
  "ToplIsToplException ErrorCode =
     (if ErrorCode \<in> set (map topl_ex_code topl_ex_list) then EXCEPTION_EXECUTE_HANDLER
      else EXCEPTION_CONTINUE_SEARCH)"

text \<open>A routine that may raise returns \<open>Inl\<close> of the exception or \<open>Inr\<close> of its result.\<close>

type_synonym 'a topl = "topl_ex + 'a"

definition bindE :: "'a topl \<Rightarrow> ('a \<Rightarrow> 'b topl) \<Rightarrow> 'b topl" where
  "bindE m f = (case m of Inl e \<Rightarrow> Inl e | Inr x \<Rightarrow> f x)"

lemma bindE_simps [simp]:
  "bindE (Inl e) f = Inl e"
  "bindE (Inr x) f = f x"
  by (simp_all add: bindE_def)

lemma bindE_eq_Inr: "bindE m f = Inr y \<longleftrightarrow> (\<exists>x. m = Inr x \<and> f x = Inr y)"
  by (cases m) auto

lemma bindE_eq_Inl: "bindE m f = Inl e \<longleftrightarrow> m = Inl e \<or> (\<exists>x. m = Inr x \<and> f x = Inl e)"
  by (cases m) auto

lemma bindE_cong [fundef_cong]:
  "m = m' \<Longrightarrow> (\<And>x. m' = Inr x \<Longrightarrow> f x = f' x) \<Longrightarrow> bindE m f = bindE m' f'"
  by (cases m') auto

definition raise_if :: "bool \<Rightarrow> topl_ex \<Rightarrow> unit topl" where
  "raise_if b e = (if b then Inl e else Inr ())"

lemma raise_if_simps [simp]:
  "raise_if True e = Inl e"
  "raise_if False e = Inr ()"
  "raise_if b e = Inr u \<longleftrightarrow> \<not> b"
  "raise_if b e = Inl e' \<longleftrightarrow> b \<and> e' = e"
  by (auto simp: raise_if_def)

fun foldE :: "('a \<Rightarrow> 's \<Rightarrow> 's topl) \<Rightarrow> 'a list \<Rightarrow> 's \<Rightarrow> 's topl" where
  "foldE f [] s = Inr s"
| "foldE f (x # xs) s = bindE (f x s) (foldE f xs)"

lemma foldE_append: "foldE f (xs @ ys) s = bindE (foldE f xs s) (foldE f ys)"
  by (induction xs arbitrary: s) (auto simp: bindE_def split: sum.splits)

lemma foldE_invariant:
  assumes "foldE f xs s = Inr s'" and "I s"
    and "\<And>x s s'. x \<in> set xs \<Longrightarrow> I s \<Longrightarrow> f x s = Inr s' \<Longrightarrow> I s'"
  shows "I s'"
  using assms
proof (induction xs arbitrary: s)
  case (Cons x xs)
  from Cons.prems(1) obtain s1 where 1: "f x s = Inr s1" "foldE f xs s1 = Inr s'"
    by (auto simp: bindE_eq_Inr)
  moreover have "I s1"
    using Cons.prems(3) [OF _ Cons.prems(2) 1(1)] by simp
  ultimately show ?case
    using Cons.IH Cons.prems(3) by (meson list.set_intros(2))
qed simp

section \<open>Lists\<close>

lemma strict_sorted_unique:
  assumes asym: "\<And>x y. R x y \<Longrightarrow> \<not> R y x"
    and "sorted_wrt R xs" and "sorted_wrt R ys" and "set xs = set ys"
  shows "xs = ys"
  using assms(2-)
proof (induction xs arbitrary: ys)
  case (Cons x xs)
  then obtain y ys' where ys: "ys = y # ys'"
    by (cases ys) auto
  have "x = y"
    using Cons.prems ys asym by (metis list.set_intros(1) set_ConsD sorted_wrt.simps(2))
  moreover have "x \<notin> set xs" "y \<notin> set ys'"
    using Cons.prems(1,2) ys asym by (metis sorted_wrt.simps(2))+
  moreover have "set xs = set ys'"
    using Cons.prems(3) ys calculation by auto
  ultimately show ?case
    using Cons.IH [of ys'] Cons.prems ys by auto
qed simp

section \<open>The C library: qsort and bsearch\<close>

text \<open>
  A comparison function returns a negative, zero or positive integer. \<^verbatim>\<open>qsort\<close> yields a
  permutation of the array in comparison order; the sources only sort arrays whose elements
  compare different, for which the result is determined (\<open>c_qsort_unique\<close>), so the algorithm
  chosen here is immaterial.
\<close>

fun c_insort :: "('a \<Rightarrow> 'a \<Rightarrow> int) \<Rightarrow> 'a \<Rightarrow> 'a list \<Rightarrow> 'a list" where
  "c_insort cmp x [] = [x]"
| "c_insort cmp x (y # ys) = (if cmp x y \<le> 0 then x # y # ys else y # c_insort cmp x ys)"

definition c_qsort :: "('a \<Rightarrow> 'a \<Rightarrow> int) \<Rightarrow> 'a list \<Rightarrow> 'a list" where
  "c_qsort cmp xs = foldr (c_insort cmp) xs []"

text \<open>The binary search of the C library over the index range \<open>lo..<hi\<close>.\<close>

function c_bsearch :: "('k \<Rightarrow> 'a \<Rightarrow> int) \<Rightarrow> 'k \<Rightarrow> 'a list \<Rightarrow> nat \<Rightarrow> nat \<Rightarrow> nat option" where
  "c_bsearch cmp k xs lo hi =
     (if hi \<le> lo then None
      else let mid = (lo + hi) div 2; c = cmp k (xs ! mid)
           in if c = 0 then Some mid
              else if c < 0 then c_bsearch cmp k xs lo mid
              else c_bsearch cmp k xs (Suc mid) hi)"
  by pat_completeness auto
termination
  by (relation "measure (\<lambda>(cmp, k, xs, lo, hi). hi - lo)") auto

declare c_bsearch.simps [simp del]

text \<open>What a caller of \<^verbatim>\<open>qsort\<close> promises of its comparison function: a total preorder.\<close>

locale c_compare =
  fixes cmp :: "'a \<Rightarrow> 'a \<Rightarrow> int"
  assumes cmp_sym: "cmp x y < 0 \<longleftrightarrow> cmp y x > 0"
    and cmp_trans: "cmp x y \<le> 0 \<Longrightarrow> cmp y z \<le> 0 \<Longrightarrow> cmp x z \<le> 0"
begin

lemma cmp_zero_sym: "cmp x y = 0 \<longleftrightarrow> cmp y x = 0"
  using cmp_sym [of x y] cmp_sym [of y x] by linarith

lemma cmp_refl: "cmp x x = 0"
  using cmp_sym [of x x] by linarith

lemma cmp_total: "cmp x y \<le> 0 \<or> cmp y x \<le> 0"
  using cmp_sym [of x y] by linarith

lemma cmp_less_le_trans: "cmp x y < 0 \<Longrightarrow> cmp y z \<le> 0 \<Longrightarrow> cmp x z < 0"
  using cmp_sym cmp_trans cmp_zero_sym by (metis linorder_not_le order_le_less)

lemma cmp_le_less_trans: "cmp x y \<le> 0 \<Longrightarrow> cmp y z < 0 \<Longrightarrow> cmp x z < 0"
  using cmp_sym cmp_trans cmp_zero_sym by (metis linorder_not_le order_le_less)

lemma mset_c_insort: "mset (c_insort cmp x xs) = {#x#} + mset xs"
  by (induction xs) auto

lemma set_c_insort [simp]: "set (c_insort cmp x xs) = insert x (set xs)"
  by (induction xs) auto

lemma sorted_c_insort:
  "sorted_wrt (\<lambda>x y. cmp x y \<le> 0) xs \<Longrightarrow> sorted_wrt (\<lambda>x y. cmp x y \<le> 0) (c_insort cmp x xs)"
proof (induction xs)
  case (Cons y ys)
  show ?case
  proof (cases "cmp x y \<le> 0")
    case True
    with Cons.prems show ?thesis
      by (auto intro: cmp_trans)
  next
    case False
    then have "cmp y x \<le> 0"
      using cmp_total by blast
    with Cons False show ?thesis
      by auto
  qed
qed simp

lemma mset_c_qsort: "mset (c_qsort cmp xs) = mset xs"
  by (induction xs) (auto simp: c_qsort_def mset_c_insort)

lemma set_c_qsort [simp]: "set (c_qsort cmp xs) = set xs"
  using mset_c_qsort by (metis set_mset_mset)

lemma length_c_qsort [simp]: "length (c_qsort cmp xs) = length xs"
  using mset_c_qsort by (metis size_mset)

lemma sorted_c_qsort: "sorted_wrt (\<lambda>x y. cmp x y \<le> 0) (c_qsort cmp xs)"
  by (induction xs) (auto simp: c_qsort_def intro: sorted_c_insort)

lemma sorted_strict:
  assumes "sorted_wrt (\<lambda>x y. cmp x y \<le> 0) xs" and "distinct xs"
    and "\<And>x y. x \<in> set xs \<Longrightarrow> y \<in> set xs \<Longrightarrow> cmp x y = 0 \<Longrightarrow> x = y"
  shows "sorted_wrt (\<lambda>x y. cmp x y < 0) xs"
  using assms
proof (induction xs)
  case (Cons x xs)
  have "sorted_wrt (\<lambda>x y. cmp x y < 0) xs"
    using Cons.IH Cons.prems by auto
  moreover have "cmp x y < 0" if "y \<in> set xs" for y
  proof -
    have "cmp x y \<le> 0" "x \<noteq> y"
      using Cons.prems(1,2) that by auto
    with Cons.prems(3) [of x y] that show ?thesis
      by (metis insert_iff list.simps(15) order_le_less)
  qed
  ultimately show ?case
    by simp
qed simp

text \<open>Any array a sort could return is the one of \<open>c_qsort\<close> when elements compare different.\<close>

lemma c_qsort_unique:
  assumes "mset ys = mset xs" and "sorted_wrt (\<lambda>x y. cmp x y \<le> 0) ys" and "distinct xs"
    and inj: "\<And>x y. x \<in> set xs \<Longrightarrow> y \<in> set xs \<Longrightarrow> cmp x y = 0 \<Longrightarrow> x = y"
  shows "ys = c_qsort cmp xs"
proof -
  have dys: "distinct ys" and sys: "set ys = set xs"
    using assms(1,3) by (metis mset_eq_imp_distinct_iff, metis mset_eq_setD)
  have dz: "distinct (c_qsort cmp xs)"
    using assms(3) mset_c_qsort by (metis mset_eq_imp_distinct_iff)
  have a: "sorted_wrt (\<lambda>x y. cmp x y < 0) ys"
    using sorted_strict [OF assms(2) dys] inj sys by simp
  have b: "sorted_wrt (\<lambda>x y. cmp x y < 0) (c_qsort cmp xs)"
    using sorted_strict [OF sorted_c_qsort dz] inj by simp
  have asym: "cmp x y < 0 \<Longrightarrow> \<not> cmp y x < 0" for x y
    using cmp_sym by (metis less_asym)
  show ?thesis
    using strict_sorted_unique [OF asym a b] sys by simp
qed

lemma c_bsearch_sound:
  "c_bsearch cmp k xs lo hi = Some i \<Longrightarrow> lo \<le> i \<and> i < hi \<and> cmp k (xs ! i) = 0"
proof (induction cmp k xs lo hi rule: c_bsearch.induct)
  case (1 cmp k xs lo hi)
  then show ?case
    by (subst (asm) (3) c_bsearch.simps) (force simp: Let_def split: if_splits)
qed

lemma c_bsearch_complete:
  assumes "sorted_wrt (\<lambda>x y. cmp x y \<le> 0) xs" and "hi \<le> length xs"
    and "lo \<le> j" and "j < hi" and "cmp k (xs ! j) = 0"
  shows "\<exists>i. c_bsearch cmp k xs lo hi = Some i"
  using assms(2-4)
proof (induction "hi - lo" arbitrary: lo hi rule: less_induct)
  case less
  define mid where "mid = (lo + hi) div 2"
  have mid: "lo \<le> mid" "mid < hi"
    using less.prems by (auto simp: mid_def)
  consider "cmp k (xs ! mid) = 0" | "cmp k (xs ! mid) < 0" | "cmp k (xs ! mid) > 0"
    by linarith
  then show ?case
  proof cases
    case 1
    with mid show ?thesis
      by (subst c_bsearch.simps) (simp add: Let_def flip: mid_def)
  next
    case 2
    have "j < mid"
    proof (rule ccontr)
      assume "\<not> j < mid"
      with mid less.prems have "cmp (xs ! mid) (xs ! j) \<le> 0"
        using assms(1) cmp_refl by (cases "mid = j") (auto simp: sorted_wrt_iff_nth_less)
      with 2 have "cmp k (xs ! j) < 0"
        by (rule cmp_less_le_trans)
      with assms(5) show False by simp
    qed
    then have "\<exists>i. c_bsearch cmp k xs lo mid = Some i"
      using less.hyps [of mid lo] less.prems mid by auto
    with 2 mid show ?thesis
      by (subst c_bsearch.simps) (simp add: Let_def flip: mid_def)
  next
    case 3
    have "mid < j"
    proof (rule ccontr)
      assume "\<not> mid < j"
      with mid less.prems have "cmp (xs ! j) (xs ! mid) \<le> 0"
        using assms(1) cmp_refl by (cases "mid = j") (auto simp: sorted_wrt_iff_nth_less)
      moreover have "cmp k (xs ! j) \<le> 0"
        using assms(5) by simp
      ultimately show False
        using cmp_trans 3 by fastforce
    qed
    then have "\<exists>i. c_bsearch cmp k xs (Suc mid) hi = Some i"
      using less.hyps [of hi "Suc mid"] less.prems mid by auto
    with 3 mid show ?thesis
      by (subst c_bsearch.simps) (simp add: Let_def flip: mid_def)
  qed
qed

end

section \<open>The NT runtime's generic table\<close>

text \<open>
  \<^verbatim>\<open>RTL_GENERIC_TABLE\<close> is an ordered dictionary of the NT runtime, outside the repository. The
  definitions that use one take its operations as a record. The comparison routine the sources
  register with \<^verbatim>\<open>RtlInitializeGenericTable\<close> is passed to the operations that search. Every
  operation but the emptiness test may reorganise the table, so it returns the table too.
\<close>

datatype rtl_cmp = GenericLessThan | GenericGreaterThan | GenericEqual

record ('e, 't) rtl_table_ops =
  RtlInitializeGenericTable :: 't
  RtlInsertElementGenericTable :: "('e \<Rightarrow> 'e \<Rightarrow> rtl_cmp) \<Rightarrow> 't \<Rightarrow> 'e \<Rightarrow> 't \<times> 'e \<times> bool"
  RtlIsGenericTableEmpty :: "'t \<Rightarrow> bool"
  RtlFirstElement :: "'t \<Rightarrow> 't \<times> 'e option"
  RtlDeleteElementGenericTable :: "('e \<Rightarrow> 'e \<Rightarrow> rtl_cmp) \<Rightarrow> 't \<Rightarrow> 'e \<Rightarrow> 't"

text \<open>
  \<open>RtlFirstElement\<close> stands for \<^verbatim>\<open>RtlEnumerateGenericTable(t, TRUE)\<close> and for
  \<^verbatim>\<open>RtlGetElementGenericTable(t, 0)\<close>, the only ways the sources enumerate.

  The documented behaviour: a table holds at most one of several elements that compare equal, an
  insertion that meets an equal element returns that element and leaves the contents alone, and
  enumeration is in comparison order. \<open>elems\<close> is the contents in that order and \<open>ok\<close> holds of
  the tables the operations produce.
\<close>

definition rtl_less :: "('e \<Rightarrow> 'e \<Rightarrow> rtl_cmp) \<Rightarrow> 'e \<Rightarrow> 'e \<Rightarrow> bool" where
  "rtl_less cmp x y \<longleftrightarrow> cmp x y = GenericLessThan"

fun rtl_insort :: "('e \<Rightarrow> 'e \<Rightarrow> rtl_cmp) \<Rightarrow> 'e \<Rightarrow> 'e list \<Rightarrow> 'e list" where
  "rtl_insort cmp e [] = [e]"
| "rtl_insort cmp e (x # xs) =
     (if cmp e x = GenericLessThan then e # x # xs else x # rtl_insort cmp e xs)"

locale rtl_compare =
  fixes cmp :: "'e \<Rightarrow> 'e \<Rightarrow> rtl_cmp"
  assumes rtl_flip: "cmp x y = GenericLessThan \<longleftrightarrow> cmp y x = GenericGreaterThan"
    and rtl_equal_sym: "cmp x y = GenericEqual \<Longrightarrow> cmp y x = GenericEqual"
    and rtl_less_trans:
      "cmp x y = GenericLessThan \<Longrightarrow> cmp y z = GenericLessThan \<Longrightarrow> cmp x z = GenericLessThan"
    and rtl_equal_less: "cmp x y = GenericEqual \<Longrightarrow> cmp y z = GenericLessThan \<Longrightarrow> cmp x z = GenericLessThan"
    and rtl_equal_trans: "cmp x y = GenericEqual \<Longrightarrow> cmp y z = GenericEqual \<Longrightarrow> cmp x z = GenericEqual"
begin

lemma rtl_not_less_self: "cmp x x \<noteq> GenericLessThan"
  using rtl_flip [of x x] by auto

lemma rtl_refl: "cmp x x = GenericEqual"
  using rtl_flip [of x x] by (cases "cmp x x") auto

lemma rtl_less_equal: "cmp x y = GenericLessThan \<Longrightarrow> cmp y z = GenericEqual \<Longrightarrow> cmp x z = GenericLessThan"
  using rtl_equal_less rtl_equal_sym rtl_equal_trans rtl_flip rtl_less_trans
  by (metis (full_types) rtl_cmp.exhaust)

lemma set_rtl_insort [simp]: "set (rtl_insort cmp e xs) = insert e (set xs)"
  by (induction xs) auto

lemma length_rtl_insort [simp]: "length (rtl_insort cmp e xs) = Suc (length xs)"
  by (induction xs) auto

lemma sorted_rtl_insort:
  assumes "sorted_wrt (rtl_less cmp) xs" and "\<forall>x\<in>set xs. cmp e x \<noteq> GenericEqual"
  shows "sorted_wrt (rtl_less cmp) (rtl_insort cmp e xs)"
  using assms
proof (induction xs)
  case (Cons x xs)
  show ?case
  proof (cases "cmp e x = GenericLessThan")
    case True
    with Cons.prems show ?thesis
      by (auto simp: rtl_less_def intro: rtl_less_trans)
  next
    case False
    with Cons.prems have "cmp x e = GenericLessThan"
      using rtl_flip by (cases "cmp e x") auto
    with Cons False show ?thesis
      by (auto simp: rtl_less_def)
  qed
qed simp

lemma sorted_rtl_distinct: "sorted_wrt (rtl_less cmp) xs \<Longrightarrow> distinct xs"
  by (induction xs) (auto simp: rtl_less_def rtl_not_less_self)

lemma sorted_rtl_equal_unique:
  assumes "sorted_wrt (rtl_less cmp) xs" and "x \<in> set xs" and "y \<in> set xs" and "cmp x y = GenericEqual"
  shows "x = y"
  using assms
proof (induction xs)
  case (Cons z zs)
  then show ?case
    using rtl_equal_sym by (auto simp: rtl_less_def)
qed simp

end

locale rtl_generic_table = rtl_compare cmp for cmp :: "'e \<Rightarrow> 'e \<Rightarrow> rtl_cmp" +
  fixes T :: "('e, 't) rtl_table_ops" and ok :: "'t \<Rightarrow> bool" and elems :: "'t \<Rightarrow> 'e list"
  assumes ok_init: "ok (RtlInitializeGenericTable T)"
    and elems_init: "elems (RtlInitializeGenericTable T) = []"
    and elems_sorted: "ok t \<Longrightarrow> sorted_wrt (rtl_less cmp) (elems t)"
    and insert_present:
      "ok t \<Longrightarrow> x \<in> set (elems t) \<Longrightarrow> cmp e x = GenericEqual \<Longrightarrow>
       \<exists>t'. RtlInsertElementGenericTable T cmp t e = (t', x, False) \<and> ok t' \<and> elems t' = elems t"
    and insert_absent:
      "ok t \<Longrightarrow> \<forall>x\<in>set (elems t). cmp e x \<noteq> GenericEqual \<Longrightarrow>
       \<exists>t'. RtlInsertElementGenericTable T cmp t e = (t', e, True) \<and> ok t' \<and>
            elems t' = rtl_insort cmp e (elems t)"
    and is_empty: "ok t \<Longrightarrow> RtlIsGenericTableEmpty T t \<longleftrightarrow> elems t = []"
    and first_empty: "ok t \<Longrightarrow> elems t = [] \<Longrightarrow> snd (RtlFirstElement T t) = None"
    and first_some:
      "ok t \<Longrightarrow> elems t = x # xs \<Longrightarrow>
       \<exists>t'. RtlFirstElement T t = (t', Some x) \<and> ok t' \<and> elems t' = elems t"
    and delete_first:
      "ok t \<Longrightarrow> elems t = x # xs \<Longrightarrow> cmp e x = GenericEqual \<Longrightarrow>
       ok (RtlDeleteElementGenericTable T cmp t e) \<and>
       elems (RtlDeleteElementGenericTable T cmp t e) = xs"
begin

lemma insert_cases:
  assumes "ok t"
  obtains (present) t' x where "x \<in> set (elems t)" "cmp e x = GenericEqual"
      "RtlInsertElementGenericTable T cmp t e = (t', x, False)" "ok t'" "elems t' = elems t"
    | (absent) t' where "\<forall>x\<in>set (elems t). cmp e x \<noteq> GenericEqual"
      "RtlInsertElementGenericTable T cmp t e = (t', e, True)" "ok t'"
      "elems t' = rtl_insort cmp e (elems t)"
  using insert_present insert_absent assms by metis

end

text \<open>A table kept as a sorted list, which shows that the documented behaviour can be met.\<close>

definition list_table :: "('e, 'e list) rtl_table_ops" where
  "list_table =
     \<lparr>RtlInitializeGenericTable = [],
      RtlInsertElementGenericTable =
        (\<lambda>cmp t e. case find (\<lambda>x. cmp e x = GenericEqual) t of
            Some x \<Rightarrow> (t, x, False)
          | None \<Rightarrow> (rtl_insort cmp e t, e, True)),
      RtlIsGenericTableEmpty = (\<lambda>t. t = []),
      RtlFirstElement = (\<lambda>t. (t, case t of [] \<Rightarrow> None | x # _ \<Rightarrow> Some x)),
      RtlDeleteElementGenericTable = (\<lambda>cmp t e. filter (\<lambda>x. cmp e x \<noteq> GenericEqual) t)\<rparr>"

lemma find_rtl_equal:
  assumes "rtl_compare cmp" and "sorted_wrt (rtl_less cmp) t" and "x \<in> set t" and "cmp e x = GenericEqual"
  shows "find (\<lambda>x. cmp e x = GenericEqual) t = Some x"
proof -
  obtain y where y: "find (\<lambda>x. cmp e x = GenericEqual) t = Some y"
    using assms(3,4) by (metis (mono_tags, lifting) find_None_iff not_Some_eq)
  then have "y \<in> set t" "cmp e y = GenericEqual"
    by (auto simp: find_Some_iff)
  moreover have "cmp x y = GenericEqual"
    using calculation(2) assms(1,4) by (meson rtl_compare.rtl_equal_sym rtl_compare.rtl_equal_trans)
  ultimately show ?thesis
    using y rtl_compare.sorted_rtl_equal_unique [OF assms(1,2)] assms(3) by blast
qed

lemma list_table_generic:
  assumes "rtl_compare cmp"
  shows "rtl_generic_table cmp list_table (sorted_wrt (rtl_less cmp)) (\<lambda>t. t)"
proof (intro rtl_generic_table.intro rtl_generic_table_axioms.intro assms)
  fix t and x e :: 'a
  assume "sorted_wrt (rtl_less cmp) t" "x \<in> set t" "cmp e x = GenericEqual"
  then show "\<exists>t'. RtlInsertElementGenericTable list_table cmp t e = (t', x, False) \<and>
      sorted_wrt (rtl_less cmp) t' \<and> t' = t"
    by (simp add: list_table_def find_rtl_equal [OF assms])
next
  fix t and x e :: 'a and xs
  assume t: "sorted_wrt (rtl_less cmp) t" "t = x # xs" and e: "cmp e x = GenericEqual"
  then have "filter (\<lambda>y. cmp e y \<noteq> GenericEqual) xs = xs"
    using rtl_compare.rtl_equal_less [OF assms] by (fastforce simp: filter_id_conv rtl_less_def)
  with t e show "sorted_wrt (rtl_less cmp) (RtlDeleteElementGenericTable list_table cmp t e) \<and>
      RtlDeleteElementGenericTable list_table cmp t e = xs"
    by (simp add: list_table_def)
qed (auto simp: list_table_def rtl_compare.sorted_rtl_insort [OF assms] find_None_iff
      split: option.splits list.splits)

end
