(* ===== verification/Topl_Util.thy ===== *)
theory Topl_Util
  imports Topl_Prelude
begin

text \<open>
  The allocator of the topology library, \<^verbatim>\<open>toplutil.c\<close>: every thread may set its own allocation routines, which are kept in a block
  in thread-local storage that is itself allocated with them. The routines of the callers and of Windows are parameters over a
  memory of any type; function pointers are numbers. The other theories take allocation as given.
\<close>

section \<open>The code\<close>

record TOPL_TLS =
  pfAlloc :: nat
  pfReAlloc :: nat
  pfFree :: nat

record 'm alloc_env =
  ae_alloc :: "nat \<Rightarrow> nat \<Rightarrow> 'm \<Rightarrow> nat option \<times> 'm"
  ae_realloc :: "nat \<Rightarrow> nat \<Rightarrow> nat \<Rightarrow> 'm \<Rightarrow> nat option \<times> 'm"
  ae_free :: "nat \<Rightarrow> nat \<Rightarrow> 'm \<Rightarrow> 'm"
  ae_RtlAllocateHeap :: "nat \<Rightarrow> 'm \<Rightarrow> nat option \<times> 'm"
  ae_RtlReAllocateHeap :: "nat \<Rightarrow> nat \<Rightarrow> 'm \<Rightarrow> nat option \<times> 'm"
  ae_RtlFreeHeap :: "nat \<Rightarrow> 'm \<Rightarrow> 'm"
  ae_TlsSetValue :: "nat \<Rightarrow> nat option \<Rightarrow> 'm \<Rightarrow> nat"

text \<open>\<open>ae_TlsSetValue\<close> is 0 on success and the last error otherwise. The slot of a thread holds the address of its block and its contents.\<close>

record 'm util_state =
  us_mem :: 'm
  us_tls :: "nat \<Rightarrow> (nat \<times> TOPL_TLS) option"

definition ERROR_INVALID_PARAMETER :: nat where
  "ERROR_INVALID_PARAMETER = 87"

definition ERROR_OUTOFMEMORY :: nat where
  "ERROR_OUTOFMEMORY = 14"

definition sizeof_TOPL_TLS :: nat where
  "sizeof_TOPL_TLS = 12"

definition reset_allocator :: "'m alloc_env \<Rightarrow> nat \<Rightarrow> 'm util_state \<Rightarrow> nat \<times> 'm util_state" where
  "reset_allocator env t st =
     (case us_tls st t of
        None \<Rightarrow> (0, st)
      | Some (pTLS, fs) \<Rightarrow>
          let st = st\<lparr>us_mem := ae_free env (pfFree fs) pTLS (us_mem st)\<rparr>; err = ae_TlsSetValue env t None (us_mem st)
          in if err \<noteq> 0 then (err, st) else (0, st\<lparr>us_tls := (us_tls st)(t := None)\<rparr>))"

definition save_allocator :: "'m alloc_env \<Rightarrow> nat \<Rightarrow> TOPL_TLS \<Rightarrow> 'm util_state \<Rightarrow> nat \<times> 'm util_state" where
  "save_allocator env t fs st =
     (case us_tls st t of
        Some (pTLS, old) \<Rightarrow> (0, st\<lparr>us_tls := (us_tls st)(t := Some (pTLS, fs))\<rparr>)
      | None \<Rightarrow>
          (case ae_alloc env (pfAlloc fs) sizeof_TOPL_TLS (us_mem st) of
             (None, m) \<Rightarrow> (ERROR_OUTOFMEMORY, st\<lparr>us_mem := m\<rparr>)
           | (Some pTLS, m) \<Rightarrow>
               let err = ae_TlsSetValue env t (Some pTLS) m
               in if err \<noteq> 0 then (err, st\<lparr>us_mem := ae_free env (pfFree fs) pTLS m\<rparr>)
                  else (0, st\<lparr>us_mem := m, us_tls := (us_tls st)(t := Some (pTLS, fs))\<rparr>)))"

definition ToplSetAllocator :: "'m alloc_env \<Rightarrow> nat \<Rightarrow> nat option \<Rightarrow> nat option \<Rightarrow> nat option \<Rightarrow> 'm util_state \<Rightarrow> nat \<times> 'm util_state" where
  "ToplSetAllocator env t a r f st =
     (if (a \<noteq> None) \<noteq> (f \<noteq> None) \<or> (a \<noteq> None) \<noteq> (r \<noteq> None) then (ERROR_INVALID_PARAMETER, st)
      else if a = None then reset_allocator env t st
      else save_allocator env t \<lparr>pfAlloc = the a, pfReAlloc = the r, pfFree = the f\<rparr> st)"

definition ToplAlloc :: "'m alloc_env \<Rightarrow> nat \<Rightarrow> nat \<Rightarrow> 'm util_state \<Rightarrow> nat topl \<times> 'm util_state" where
  "ToplAlloc env t n st =
     (let (ret, m) = (case us_tls st t of None \<Rightarrow> ae_RtlAllocateHeap env n (us_mem st)
                      | Some (pTLS, fs) \<Rightarrow> ae_alloc env (pfAlloc fs) n (us_mem st))
      in (case ret of None \<Rightarrow> Inl TOPL_EX_OUT_OF_MEMORY | Some p \<Rightarrow> Inr p, st\<lparr>us_mem := m\<rparr>))"

definition ToplReAlloc :: "'m alloc_env \<Rightarrow> nat \<Rightarrow> nat \<Rightarrow> nat \<Rightarrow> 'm util_state \<Rightarrow> nat topl \<times> 'm util_state" where
  "ToplReAlloc env t p n st =
     (let (ret, m) = (case us_tls st t of None \<Rightarrow> ae_RtlReAllocateHeap env p n (us_mem st)
                      | Some (pTLS, fs) \<Rightarrow> ae_realloc env (pfReAlloc fs) p n (us_mem st))
      in (case ret of None \<Rightarrow> Inl TOPL_EX_OUT_OF_MEMORY | Some q \<Rightarrow> Inr q, st\<lparr>us_mem := m\<rparr>))"

definition ToplFree :: "'m alloc_env \<Rightarrow> nat \<Rightarrow> nat \<Rightarrow> 'm util_state \<Rightarrow> 'm util_state" where
  "ToplFree env t p st =
     st\<lparr>us_mem := (case us_tls st t of None \<Rightarrow> ae_RtlFreeHeap env p (us_mem st) | Some (pTLS, fs) \<Rightarrow> ae_free env (pfFree fs) p (us_mem st))\<rparr>"

lemmas set_allocator_defs = ToplSetAllocator_def save_allocator_def reset_allocator_def

section \<open>Threads and routines\<close>

text \<open>Setting the routines of one thread does not touch the routines of another.\<close>

lemma set_allocator_other_thread:
  "u \<noteq> t \<Longrightarrow> us_tls (snd (ToplSetAllocator env t a r f st)) u = us_tls st u"
  by (simp add: set_allocator_defs Let_def split: option.split prod.split)

text \<open>After a success the thread uses the routines it asked for, and after a reset those of Windows.\<close>

lemma set_allocator_routines:
  assumes "ToplSetAllocator env t a r f st = (0, st')"
  shows "map_option snd (us_tls st' t) =
    (case a of None \<Rightarrow> None | Some a \<Rightarrow> Some \<lparr>pfAlloc = a, pfReAlloc = the r, pfFree = the f\<rparr>)"
  using assms
  by (cases a) (auto simp: set_allocator_defs ERROR_INVALID_PARAMETER_def ERROR_OUTOFMEMORY_def Let_def
      split: option.splits prod.splits if_splits)

text \<open>An error leaves the routines of every thread alone.\<close>

lemma set_allocator_error:
  assumes "ToplSetAllocator env t a r f st = (e, st')" and "e \<noteq> 0"
  shows "us_tls st' = us_tls st"
  using assms by (auto simp: set_allocator_defs Let_def split: option.splits prod.splits if_splits)

lemma set_allocator_mixed:
  "ToplSetAllocator env t a r f st = (ERROR_INVALID_PARAMETER, st)" if "(a \<noteq> None) \<noteq> (f \<noteq> None) \<or> (a \<noteq> None) \<noteq> (r \<noteq> None)"
  using that by (simp add: ToplSetAllocator_def)

text \<open>
  A heap that records which routine allocated each block, with one number for the routines of one allocator, and whether a block
  was freed by another one.
\<close>

type_synonym owned_heap = "nat \<times> (nat \<Rightarrow> nat option) \<times> bool"

definition owned_env :: "owned_heap alloc_env" where
  "owned_env = \<lparr>ae_alloc = (\<lambda>f n (k, own, bad). (Some k, (k + 1, own(k := Some f), bad))),
     ae_realloc = (\<lambda>f p n m. (Some p, m)),
     ae_free = (\<lambda>f p (k, own, bad). (k, own(p := None), bad \<or> own p \<noteq> Some f)),
     ae_RtlAllocateHeap = (\<lambda>n (k, own, bad). (Some k, (k + 1, own(k := Some 0), bad))),
     ae_RtlReAllocateHeap = (\<lambda>p n m. (Some p, m)),
     ae_RtlFreeHeap = (\<lambda>p (k, own, bad). (k, own(p := None), bad \<or> own p \<noteq> Some 0)),
     ae_TlsSetValue = (\<lambda>t v m. 0)\<rparr>"

definition set_routines :: "nat option \<Rightarrow> owned_heap util_state \<Rightarrow> owned_heap util_state" where
  "set_routines a st = snd (ToplSetAllocator owned_env 0 a a a st)"

definition fresh_state :: "owned_heap util_state" where
  "fresh_state = \<lparr>us_mem = (0, (\<lambda>_. None), False), us_tls = (\<lambda>_. None)\<rparr>"

text \<open>
  The block in thread-local storage is freed with the routine of the last allocator, although the first one allocated it: setting
  an allocator, then another one, then none frees a block with the wrong routine; setting one and resetting it does not.
\<close>

lemma block_freed_by_wrong_allocator: "snd (snd (us_mem (set_routines None (set_routines (Some 2) (set_routines (Some 1) fresh_state)))))"
  by (simp add: set_routines_def fresh_state_def set_allocator_defs owned_env_def)

lemma block_freed_by_its_allocator: "\<not> snd (snd (us_mem (set_routines None (set_routines (Some 1) fresh_state))))"
  by (simp add: set_routines_def fresh_state_def set_allocator_defs owned_env_def)

end
