(* ===== verification/Topl_DynArray.thy ===== *)
theory Topl_DynArray
  imports Topl_Prelude
begin

text \<open>
  The two growable arrays of the library: \<^verbatim>\<open>DYNAMIC_ARRAY\<close> of pointers
  (\<^verbatim>\<open>ds/src/common/w32topl/dynarray.c\<close>, used by the vertex and edge objects) and \<^verbatim>\<open>DynArray\<close> of
  values (\<^verbatim>\<open>stda.c\<close>, used by the spanning-tree code). Both are modelled down to the allocated
  block: a cell the program has never written is \<open>None\<close>. Both meet one interface, the locale
  \<open>growable_array\<close>. Counts are natural numbers: a count that reached \<open>2 ^ 32\<close> would need an array
  larger than the address space of the library's 32-bit sizes.
\<close>

section \<open>Interface\<close>

locale growable_array =
  fixes count :: "'ar \<Rightarrow> nat"
    and retrieve :: "'ar \<Rightarrow> nat \<Rightarrow> 'a option"
    and append :: "'ar \<Rightarrow> 'a \<Rightarrow> 'ar"
    and invar :: "'ar \<Rightarrow> bool"
    and contents :: "'ar \<Rightarrow> 'a list"
  assumes count_contents: "invar a \<Longrightarrow> count a = length (contents a)"
    and retrieve_contents: "invar a \<Longrightarrow> i < count a \<Longrightarrow> retrieve a i = Some (contents a ! i)"
    and contents_append: "invar a \<Longrightarrow> contents (append a x) = contents a @ [x]"
    and invar_append: "invar a \<Longrightarrow> invar (append a x)"
begin

text \<open>The loop idiom of the callers: visit the elements by index.\<close>

lemma retrieve_all: "invar a \<Longrightarrow> map (retrieve a) [0..<count a] = map Some (contents a)"
  by (rule nth_equalityI) (simp_all add: count_contents retrieve_contents)

lemma append_all: "invar a \<Longrightarrow> invar (foldl append a xs) \<and> contents (foldl append a xs) = contents a @ xs"
  by (induction xs arbitrary: a) (simp_all add: invar_append contents_append)

lemma retrieve_after_append:
  assumes "invar a" and "i < count a + length xs"
  shows "retrieve (foldl append a xs) i = Some ((contents a @ xs) ! i)"
  using append_all [OF assms(1), of xs] assms
  by (simp add: count_contents retrieve_contents)

end

section \<open>dynarray.c: arrays of pointers\<close>

type_synonym ptr = nat

abbreviation (input) NULL :: ptr where
  "NULL \<equiv> 0"

record DYNAMIC_ARRAY =
  da_Array :: "ptr option list option"
  da_Count :: nat
  da_ElementsAllocated :: nat

definition CHUNK_SIZE :: nat where
  "CHUNK_SIZE = 100"

definition DynamicArrayInit :: DYNAMIC_ARRAY where
  "DynamicArrayInit = \<lparr>da_Array = None, da_Count = 0, da_ElementsAllocated = 0\<rparr>"

definition DynamicArrayGetCount :: "DYNAMIC_ARRAY \<Rightarrow> nat" where
  "DynamicArrayGetCount a = da_Count a"

text \<open>\<^verbatim>\<open>ToplReAlloc\<close> keeps the old cells and leaves the new ones unwritten.\<close>

definition grow_cells :: "'a option list \<Rightarrow> nat \<Rightarrow> 'a option list" where
  "grow_cells xs n = take n xs @ replicate (n - length xs) None"

definition DynamicArrayAdd :: "DYNAMIC_ARRAY \<Rightarrow> ptr \<Rightarrow> DYNAMIC_ARRAY" where
  "DynamicArrayAdd a pElement =
     (let a = (if da_Count a \<ge> da_ElementsAllocated a
               then let n = da_ElementsAllocated a + CHUNK_SIZE
                    in a\<lparr>da_ElementsAllocated := n,
                         da_Array := Some (case da_Array a of
                             Some xs \<Rightarrow> grow_cells xs n
                           | None \<Rightarrow> replicate n None)\<rparr>
               else a)
      in a\<lparr>da_Array := map_option (\<lambda>xs. xs[da_Count a := Some pElement]) (da_Array a),
           da_Count := da_Count a + 1\<rparr>)"

text \<open>Reading outside the allocated block, or an unwritten cell, is \<open>None\<close>.\<close>

definition DynamicArrayRetrieve :: "DYNAMIC_ARRAY \<Rightarrow> nat \<Rightarrow> ptr option" where
  "DynamicArrayRetrieve a Index =
     (case da_Array a of
        Some xs \<Rightarrow> if Index < length xs then xs ! Index else None
      | None \<Rightarrow> None)"

text \<open>The body of the match: shift the tail down, clear the last cell, shorten the array.\<close>

definition remove_at :: "DYNAMIC_ARRAY \<Rightarrow> nat \<Rightarrow> DYNAMIC_ARRAY" where
  "remove_at a i =
     (let shift = (\<lambda>xs. if da_Count a > 1
                        then fold (\<lambda>j xs. xs[j := xs ! (j + 1)]) [i ..< da_Count a - 1] xs
                        else xs)
      in a\<lparr>da_Array := map_option (\<lambda>xs. (shift xs)[da_Count a - 1 := Some NULL]) (da_Array a),
           da_Count := da_Count a - 1\<rparr>)"

function remove_loop :: "DYNAMIC_ARRAY \<Rightarrow> ptr \<Rightarrow> nat \<Rightarrow> DYNAMIC_ARRAY" where
  "remove_loop a pElement i =
     (if i < da_Count a
      then remove_loop (if DynamicArrayRetrieve a i = Some pElement then remove_at a i else a)
             pElement (Suc i)
      else a)"
  by pat_completeness auto
termination
  by (relation "measure (\<lambda>(a, p, i). da_Count a - i)") (auto simp: remove_at_def Let_def)

declare remove_loop.simps [simp del]

definition DynamicArrayRemove :: "DYNAMIC_ARRAY \<Rightarrow> ptr \<Rightarrow> nat \<Rightarrow> DYNAMIC_ARRAY" where
  "DynamicArrayRemove a pElement Index = remove_loop a pElement 0"

text \<open>The invariant, and the list an array stands for.\<close>

definition dynamic_array_ok :: "DYNAMIC_ARRAY \<Rightarrow> bool" where
  "dynamic_array_ok a \<longleftrightarrow>
     (case da_Array a of
        None \<Rightarrow> da_Count a = 0 \<and> da_ElementsAllocated a = 0
      | Some xs \<Rightarrow> length xs = da_ElementsAllocated a \<and> da_Count a \<le> length xs \<and>
                   (\<forall>i<da_Count a. xs ! i \<noteq> None))"

definition dynamic_array_list :: "DYNAMIC_ARRAY \<Rightarrow> ptr list" where
  "dynamic_array_list a =
     (case da_Array a of None \<Rightarrow> [] | Some xs \<Rightarrow> map the (take (da_Count a) xs))"

lemma length_dynamic_array_list:
  "dynamic_array_ok a \<Longrightarrow> length (dynamic_array_list a) = da_Count a"
  by (auto simp: dynamic_array_ok_def dynamic_array_list_def split: option.splits)

lemma DynamicArrayInit_ok [topl_inv]: "dynamic_array_ok DynamicArrayInit"
  by (simp add: dynamic_array_ok_def DynamicArrayInit_def)

lemma DynamicArrayInit_list [simp]: "dynamic_array_list DynamicArrayInit = []"
  by (simp add: dynamic_array_list_def DynamicArrayInit_def)

lemma length_grow_cells [simp]: "length xs \<le> n \<Longrightarrow> length (grow_cells xs n) = n"
  by (simp add: grow_cells_def)

lemma nth_grow_cells [simp]: "length xs \<le> n \<Longrightarrow> i < length xs \<Longrightarrow> grow_cells xs n ! i = xs ! i"
  by (simp add: grow_cells_def nth_append)

lemma take_grow_cells [simp]: "k \<le> length xs \<Longrightarrow> length xs \<le> n \<Longrightarrow> take k (grow_cells xs n) = take k xs"
  by (simp add: grow_cells_def)

lemma DynamicArrayAdd_ok [topl_inv]: "dynamic_array_ok a \<Longrightarrow> dynamic_array_ok (DynamicArrayAdd a p)"
  by (auto simp: dynamic_array_ok_def DynamicArrayAdd_def CHUNK_SIZE_def Let_def nth_list_update
      less_Suc_eq split: option.splits)

lemma DynamicArrayAdd_list:
  "dynamic_array_ok a \<Longrightarrow> dynamic_array_list (DynamicArrayAdd a p) = dynamic_array_list a @ [p]"
  by (auto simp: dynamic_array_ok_def DynamicArrayAdd_def dynamic_array_list_def CHUNK_SIZE_def Let_def
      take_Suc_conv_app_nth split: option.splits)

lemma DynamicArrayRetrieve_list:
  "dynamic_array_ok a \<Longrightarrow> i < da_Count a \<Longrightarrow> DynamicArrayRetrieve a i = Some (dynamic_array_list a ! i)"
  by (auto simp: dynamic_array_ok_def DynamicArrayRetrieve_def dynamic_array_list_def split: option.splits)

interpretation ptr_array: growable_array DynamicArrayGetCount DynamicArrayRetrieve DynamicArrayAdd
  dynamic_array_ok dynamic_array_list
  by unfold_locales
    (simp_all add: DynamicArrayGetCount_def length_dynamic_array_list DynamicArrayRetrieve_list
      DynamicArrayAdd_list DynamicArrayAdd_ok)

subsection \<open>What removal does\<close>

lemma length_shift_cells [simp]:
  "length (fold (\<lambda>j xs. xs[j := xs ! (j + 1)]) is xs) = length xs"
  by (induction "is" arbitrary: xs) auto

lemma nth_shift_cells:
  assumes "i \<le> n" and "n < length xs" and "k < length xs"
  shows "fold (\<lambda>j xs. xs[j := xs ! (j + 1)]) [i ..< n] xs ! k =
    (if i \<le> k \<and> k < n then xs ! Suc k else xs ! k)"
  using assms
proof (induction n arbitrary: k)
  case (Suc n)
  show ?case
  proof (cases "i = Suc n")
    case False
    with Suc.prems Suc.IH [of k] Suc.IH [of "Suc n"] show ?thesis
      using length_shift_cells [of "[i..<n]" xs]
      by (auto simp: nth_list_update less_Suc_eq simp del: length_shift_cells)
  qed auto
qed simp

lemma remove_at_cells:
  assumes "da_Array a = Some xs" and "i < da_Count a" and "da_Count a \<le> length xs"
  obtains ys where "da_Array (remove_at a i) = Some ys" and "length ys = length xs"
    and "\<And>k. k < da_Count a - 1 \<Longrightarrow> ys ! k = (if k < i then xs ! k else xs ! Suc k)"
proof -
  define ys where "ys = (if da_Count a > 1
      then fold (\<lambda>j xs. xs[j := xs ! (j + 1)]) [i ..< da_Count a - 1] xs else xs)[da_Count a - 1 := Some NULL]"
  have "da_Array (remove_at a i) = Some ys"
    by (simp add: remove_at_def ys_def assms Let_def)
  moreover have "length ys = length xs"
    using length_shift_cells by (auto simp: ys_def simp del: length_shift_cells)
  moreover have "ys ! k = (if k < i then xs ! k else xs ! Suc k)" if "k < da_Count a - 1" for k
    using that assms nth_shift_cells [of i "da_Count a - 1" xs k]
    by (auto simp: ys_def)
  ultimately show thesis
    using that by blast
qed

lemma da_Count_remove_at [simp]: "da_Count (remove_at a i) = da_Count a - 1"
  by (simp add: remove_at_def Let_def)

lemma da_ElementsAllocated_remove_at [simp]:
  "da_ElementsAllocated (remove_at a i) = da_ElementsAllocated a"
  by (simp add: remove_at_def Let_def)

lemma remove_at_ok [topl_inv]:
  assumes "dynamic_array_ok a" and "i < da_Count a"
  shows "dynamic_array_ok (remove_at a i)"
proof -
  from assms obtain xs where xs: "da_Array a = Some xs" "da_Count a \<le> length xs"
      "length xs = da_ElementsAllocated a" "\<forall>i<da_Count a. xs ! i \<noteq> None"
    by (auto simp: dynamic_array_ok_def split: option.splits)
  from remove_at_cells [OF xs(1) assms(2) xs(2)] obtain ys where ys:
    "da_Array (remove_at a i) = Some ys" "length ys = length xs"
    "\<And>k. k < da_Count a - 1 \<Longrightarrow> ys ! k = (if k < i then xs ! k else xs ! Suc k)"
    by blast
  have "ys ! k \<noteq> None" if "k < da_Count a - 1" for k
    using that ys(3) [OF that] xs(4) by simp
  with xs(2,3) ys(1,2) show ?thesis
    by (simp add: dynamic_array_ok_def)
qed

lemma remove_at_list:
  assumes "dynamic_array_ok a" and "i < da_Count a"
  shows "dynamic_array_list (remove_at a i) =
    take i (dynamic_array_list a) @ drop (Suc i) (dynamic_array_list a)"
proof -
  from assms obtain xs where xs: "da_Array a = Some xs" "da_Count a \<le> length xs"
    by (auto simp: dynamic_array_ok_def split: option.splits)
  from remove_at_cells [OF xs(1) assms(2) xs(2)] obtain ys where ys:
    "da_Array (remove_at a i) = Some ys" "length ys = length xs"
    "\<And>k. k < da_Count a - 1 \<Longrightarrow> ys ! k = (if k < i then xs ! k else xs ! Suc k)"
    by blast
  show ?thesis
  proof (rule nth_equalityI)
    show "length (dynamic_array_list (remove_at a i)) =
        length (take i (dynamic_array_list a) @ drop (Suc i) (dynamic_array_list a))"
      using xs ys(1,2) assms(2) by (simp add: dynamic_array_list_def)
  next
    fix k assume "k < length (dynamic_array_list (remove_at a i))"
    then have k: "k < da_Count a - 1"
      by (auto simp: dynamic_array_list_def ys(1))
    with ys(3) [OF k] show "dynamic_array_list (remove_at a i) ! k =
        (take i (dynamic_array_list a) @ drop (Suc i) (dynamic_array_list a)) ! k"
      using xs ys(1,2) assms(2) by (simp add: dynamic_array_list_def nth_append)
  qed
qed

text \<open>
  The list the loop leaves: an element that matches is dropped, and the element that moves into
  its place is not examined, because the index still advances.
\<close>

fun remove_skipping :: "'a \<Rightarrow> 'a list \<Rightarrow> 'a list" where
  "remove_skipping p [] = []"
| "remove_skipping p [x] = (if x = p then [] else [x])"
| "remove_skipping p (x # y # ys) =
     (if x = p then y # remove_skipping p ys else x # remove_skipping p (y # ys))"

lemma remove_skipping_Cons_other: "x \<noteq> p \<Longrightarrow> remove_skipping p (x # xs) = x # remove_skipping p xs"
  by (cases xs) auto

lemma remove_skipping_Cons_same:
  "remove_skipping p (p # xs) = (case xs of [] \<Rightarrow> [] | y # ys \<Rightarrow> y # remove_skipping p ys)"
  by (cases xs) auto

lemma remove_loop_correct:
  assumes "dynamic_array_ok a"
  shows "dynamic_array_ok (remove_loop a p i) \<and>
    dynamic_array_list (remove_loop a p i) =
      take i (dynamic_array_list a) @ remove_skipping p (drop i (dynamic_array_list a))"
  using assms
proof (induction "da_Count a - i" arbitrary: a i rule: less_induct)
  case less
  let ?l = "dynamic_array_list a"
  have len: "length ?l = da_Count a"
    by (rule length_dynamic_array_list) fact
  show ?case
  proof (cases "i < da_Count a")
    case False
    with len show ?thesis
      using less.prems by (subst (1 2) remove_loop.simps) simp
  next
    case True
    have drop: "drop i ?l = ?l ! i # drop (Suc i) ?l"
      using True len by (simp add: Cons_nth_drop_Suc)
    have get: "DynamicArrayRetrieve a i = Some (?l ! i)"
      by (rule DynamicArrayRetrieve_list) fact+
    show ?thesis
    proof (cases "?l ! i = p")
      case False
      have "remove_loop a p i = remove_loop a p (Suc i)"
        using True get False by (subst remove_loop.simps) simp
      moreover have "take (Suc i) ?l = take i ?l @ [?l ! i]"
        using True len by (simp add: take_Suc_conv_app_nth)
      ultimately show ?thesis
        using less.hyps [of a "Suc i"] less.prems True False drop
        by (simp add: remove_skipping_Cons_other)
    next
      case same: True
      let ?b = "remove_at a i"
      have b: "dynamic_array_ok ?b" "dynamic_array_list ?b = take i ?l @ drop (Suc i) ?l"
        using less.prems True by (auto intro: remove_at_ok simp: remove_at_list)
      have "remove_loop a p i = remove_loop ?b p (Suc i)"
        using True get same by (subst remove_loop.simps) simp
      moreover have "take (Suc i) (take i ?l @ drop (Suc i) ?l) = take i ?l @ take 1 (drop (Suc i) ?l)"
        "drop (Suc i) (take i ?l @ drop (Suc i) ?l) = drop 1 (drop (Suc i) ?l)"
        using True len by auto
      ultimately show ?thesis
        using less.hyps [of ?b "Suc i"] b True same drop
        by (cases "drop (Suc i) ?l") (auto simp: remove_skipping_Cons_same)
    qed
  qed
qed

lemma remove_skipping_filter:
  assumes "\<forall>i. Suc i < length xs \<longrightarrow> \<not> (xs ! i = p \<and> xs ! Suc i = p)"
  shows "remove_skipping p xs = filter (\<lambda>x. x \<noteq> p) xs"
  using assms
proof (induction p xs rule: remove_skipping.induct)
  case (3 p x y ys)
  have tl: "\<forall>i. Suc i < length (y # ys) \<longrightarrow> \<not> ((y # ys) ! i = p \<and> (y # ys) ! Suc i = p)"
    using "3.prems" by force
  then have "\<forall>i. Suc i < length ys \<longrightarrow> \<not> (ys ! i = p \<and> ys ! Suc i = p)"
    by force
  with 3 tl show ?case
    by (cases "x = p") (auto dest: spec [of _ 0])
qed auto

lemma distinct_no_adjacent:
  "distinct xs \<Longrightarrow> \<forall>i. Suc i < length xs \<longrightarrow> \<not> (xs ! i = p \<and> xs ! Suc i = p)"
  by (metis Suc_lessD distinct_conv_nth n_not_Suc_n)

lemma DynamicArrayRemove_ok [topl_inv]:
  "dynamic_array_ok a \<Longrightarrow> dynamic_array_ok (DynamicArrayRemove a p i)"
  by (simp add: DynamicArrayRemove_def remove_loop_correct)

lemma DynamicArrayRemove_list:
  "dynamic_array_ok a \<Longrightarrow>
   dynamic_array_list (DynamicArrayRemove a p i) = remove_skipping p (dynamic_array_list a)"
  by (simp add: DynamicArrayRemove_def remove_loop_correct)

section \<open>stda.c: arrays of values\<close>

record 'a DynArray =
  dy_elementSize :: dword
  dy_logicalElements :: nat
  dy_physicalElements :: nat
  dy_data :: "'a option list option"
  dy_fSorted :: bool

definition MIN_CHUNK_GROW_SIZE :: nat where
  "MIN_CHUNK_GROW_SIZE = 10"

definition DynArrayInit :: "dword \<Rightarrow> 'a DynArray" where
  "DynArrayInit elementSize =
     \<lparr>dy_elementSize = elementSize, dy_logicalElements = 0, dy_physicalElements = 0,
      dy_data = None, dy_fSorted = False\<rparr>"

definition DynArrayClear :: "'a DynArray \<Rightarrow> 'a DynArray" where
  "DynArrayClear d = d\<lparr>dy_logicalElements := 0, dy_physicalElements := 0, dy_data := None\<rparr>"

definition DynArrayDestroy :: "'a DynArray \<Rightarrow> 'a DynArray" where
  "DynArrayDestroy d = DynArrayClear d"

definition DynArrayGetCount :: "'a DynArray \<Rightarrow> nat" where
  "DynArrayGetCount d = dy_logicalElements d"

definition DynArrayRetrieve :: "'a DynArray \<Rightarrow> nat \<Rightarrow> 'a option" where
  "DynArrayRetrieve d index =
     (case dy_data d of
        Some xs \<Rightarrow> if index < length xs then xs ! index else None
      | None \<Rightarrow> None)"

text \<open>
  \<open>newElementData = None\<close> is the call with a null pointer, which leaves the new cell unwritten.
\<close>

definition DynArrayAppend :: "'a DynArray \<Rightarrow> 'a option \<Rightarrow> 'a DynArray" where
  "DynArrayAppend d newElementData =
     (let newIndex = dy_logicalElements d;
          d = d\<lparr>dy_logicalElements := newIndex + 1\<rparr>;
          d = (if dy_logicalElements d > dy_physicalElements d
               then let n = 2 * (dy_physicalElements d + MIN_CHUNK_GROW_SIZE)
                    in d\<lparr>dy_physicalElements := n,
                         dy_data := Some (case dy_data d of
                             Some xs \<Rightarrow> grow_cells xs n
                           | None \<Rightarrow> replicate n None)\<rparr>
               else d);
          d = (case newElementData of
                 None \<Rightarrow> d
               | Some v \<Rightarrow> d\<lparr>dy_data := map_option (\<lambda>xs. xs[newIndex := Some v]) (dy_data d)\<rparr>)
      in d\<lparr>dy_fSorted := False\<rparr>)"

definition DynArraySort :: "'a DynArray \<Rightarrow> ('a \<Rightarrow> 'a \<Rightarrow> int) \<Rightarrow> 'a DynArray" where
  "DynArraySort d cmp =
     (let n = dy_logicalElements d;
          d = (if n > 1
               then d\<lparr>dy_data := map_option
                      (\<lambda>xs. map Some (c_qsort cmp (map the (take n xs))) @ drop n xs) (dy_data d)\<rparr>
               else d)
      in d\<lparr>dy_fSorted := True\<rparr>)"

text \<open>\<open>None\<close> is \<^verbatim>\<open>DYN_ARRAY_NOT_FOUND\<close>. The search reads the first \<open>logicalElements\<close> cells.\<close>

definition DynArraySearch :: "'a DynArray \<Rightarrow> 'k \<Rightarrow> ('k \<Rightarrow> 'a \<Rightarrow> int) \<Rightarrow> nat option" where
  "DynArraySearch d key cmp =
     (case dy_data d of
        None \<Rightarrow> None
      | Some xs \<Rightarrow> c_bsearch cmp key (map the (take (dy_logicalElements d) xs)) 0 (dy_logicalElements d))"

definition dyn_array_ok :: "'a DynArray \<Rightarrow> bool" where
  "dyn_array_ok d \<longleftrightarrow>
     (case dy_data d of
        None \<Rightarrow> dy_logicalElements d = 0 \<and> dy_physicalElements d = 0
      | Some xs \<Rightarrow> length xs = dy_physicalElements d \<and> dy_logicalElements d \<le> length xs \<and>
                   (\<forall>i<dy_logicalElements d. xs ! i \<noteq> None))"

definition dyn_list :: "'a DynArray \<Rightarrow> 'a list" where
  "dyn_list d = (case dy_data d of None \<Rightarrow> [] | Some xs \<Rightarrow> map the (take (dy_logicalElements d) xs))"

lemma length_dyn_list: "dyn_array_ok d \<Longrightarrow> length (dyn_list d) = dy_logicalElements d"
  by (auto simp: dyn_array_ok_def dyn_list_def split: option.splits)

lemma DynArrayInit_ok [simp, topl_inv]: "dyn_array_ok (DynArrayInit n)"
  by (simp add: dyn_array_ok_def DynArrayInit_def)

lemma DynArrayInit_list [simp]: "dyn_list (DynArrayInit n) = []"
  by (simp add: dyn_list_def DynArrayInit_def)

lemma DynArrayClear_ok [simp, topl_inv]: "dyn_array_ok (DynArrayClear d)"
  by (simp add: dyn_array_ok_def DynArrayClear_def)

lemma DynArrayClear_list [simp]: "dyn_list (DynArrayClear d) = []"
  by (simp add: dyn_list_def DynArrayClear_def)

lemma DynArrayAppend_ok [simp, topl_inv]: "dyn_array_ok d \<Longrightarrow> dyn_array_ok (DynArrayAppend d (Some v))"
  by (auto simp: dyn_array_ok_def DynArrayAppend_def MIN_CHUNK_GROW_SIZE_def Let_def nth_list_update
      less_Suc_eq split: option.splits)

lemma DynArrayAppend_list [simp]:
  "dyn_array_ok d \<Longrightarrow> dyn_list (DynArrayAppend d (Some v)) = dyn_list d @ [v]"
  by (auto simp: dyn_array_ok_def DynArrayAppend_def dyn_list_def MIN_CHUNK_GROW_SIZE_def Let_def
      take_Suc_conv_app_nth split: option.splits)

lemma DynArrayRetrieve_list:
  "dyn_array_ok d \<Longrightarrow> i < dy_logicalElements d \<Longrightarrow> DynArrayRetrieve d i = Some (dyn_list d ! i)"
  by (auto simp: dyn_array_ok_def DynArrayRetrieve_def dyn_list_def split: option.splits)

interpretation val_array: growable_array DynArrayGetCount DynArrayRetrieve
  "\<lambda>d v. DynArrayAppend d (Some v)" dyn_array_ok dyn_list
  by unfold_locales
    (simp_all add: DynArrayGetCount_def length_dyn_list DynArrayRetrieve_list)

lemma dyn_array_cases:
  assumes "dyn_array_ok d"
  obtains (none) "dy_data d = None" "dyn_list d = []" "dy_logicalElements d = 0"
    | (some) xs where "dy_data d = Some xs" "dyn_list d = map the (take (dy_logicalElements d) xs)"
        "dy_logicalElements d \<le> length xs"
  using assms by (auto simp: dyn_array_ok_def dyn_list_def split: option.splits)

context c_compare
begin

lemma DynArraySort_list:
  assumes "dyn_array_ok d"
  shows "dyn_list (DynArraySort d cmp) = c_qsort cmp (dyn_list d)"
  using assms
proof (cases rule: dyn_array_cases)
  case none
  then show ?thesis
    by (simp add: DynArraySort_def dyn_list_def c_qsort_def)
next
  case (some xs)
  show ?thesis
  proof (cases "dy_logicalElements d > 1")
    case True
    with some show ?thesis
      by (simp add: DynArraySort_def dyn_list_def Let_def o_def)
  next
    case False
    then have "dyn_list d = [] \<or> (\<exists>x. dyn_list d = [x])"
      using length_dyn_list [OF assms] by (cases "dyn_list d"; cases "tl (dyn_list d)") auto
    moreover have "dyn_list (DynArraySort d cmp) = dyn_list d"
      using False by (simp add: DynArraySort_def dyn_list_def Let_def split: option.split)
    ultimately show ?thesis
      by (auto simp: c_qsort_def)
  qed
qed

lemma DynArraySort_ok:
  assumes "dyn_array_ok d"
  shows "dyn_array_ok (DynArraySort d cmp)"
  using assms
  by (auto simp: dyn_array_ok_def DynArraySort_def Let_def nth_append split: option.splits)

lemma DynArraySearch_iff:
  assumes "dyn_array_ok d" and "sorted_wrt (\<lambda>x y. cmp x y \<le> 0) (dyn_list d)"
  shows "DynArraySearch d k cmp = None \<longleftrightarrow> (\<forall>x\<in>set (dyn_list d). cmp k x \<noteq> 0)"
  using assms(1)
proof (cases rule: dyn_array_cases)
  case none
  then show ?thesis
    by (simp add: DynArraySearch_def)
next
  case (some xs)
  have eq: "DynArraySearch d k cmp = c_bsearch cmp k (dyn_list d) 0 (length (dyn_list d))"
    using some by (simp add: DynArraySearch_def length_dyn_list [OF assms(1)])
  show ?thesis
  proof
    assume "DynArraySearch d k cmp = None"
    then show "\<forall>x\<in>set (dyn_list d). cmp k x \<noteq> 0"
      using c_bsearch_complete [OF assms(2) order_refl] eq
      by (metis in_set_conv_nth le0 option.distinct(1))
  next
    assume "\<forall>x\<in>set (dyn_list d). cmp k x \<noteq> 0"
    then show "DynArraySearch d k cmp = None"
      using c_bsearch_sound eq by (metis not_Some_eq nth_mem)
  qed
qed

lemma DynArraySearch_Some:
  assumes "dyn_array_ok d" and "DynArraySearch d k cmp = Some i"
  shows "i < dy_logicalElements d \<and> cmp k (dyn_list d ! i) = 0"
  using assms(1)
proof (cases rule: dyn_array_cases)
  case none
  with assms(2) show ?thesis
    by (simp add: DynArraySearch_def)
next
  case (some xs)
  with assms(2) show ?thesis
    using c_bsearch_sound by (fastforce simp: DynArraySearch_def)
qed

end

section \<open>Properties\<close>

text \<open>Removing a pointer from an array that holds it at most once, as the arrays of edges and
  vertices do, leaves exactly the other pointers in their order.\<close>

theorem DynamicArrayRemove_removes:
  assumes "dynamic_array_ok a" and "distinct (dynamic_array_list a)"
  shows "dynamic_array_ok (DynamicArrayRemove a p i) \<and>
    dynamic_array_list (DynamicArrayRemove a p i) = filter (\<lambda>x. x \<noteq> p) (dynamic_array_list a)"
  using assms
  by (simp add: DynamicArrayRemove_ok DynamicArrayRemove_list remove_skipping_filter distinct_no_adjacent)

theorem DynamicArrayRemove_removes_witness:
  "dynamic_array_list (DynamicArrayRemove (DynamicArrayAdd (DynamicArrayAdd DynamicArrayInit 1) 2) 1 0) = [2]"
  using DynamicArrayRemove_removes [of "DynamicArrayAdd (DynamicArrayAdd DynamicArrayInit 1) 2" 1 0]
  by (simp add: DynamicArrayAdd_list DynamicArrayAdd_ok DynamicArrayInit_ok)

text \<open>\<^verbatim>\<open>DynamicArrayRemove\<close> still advances its index after a removal, so of two adjacent copies of
  the pointer it removes only one.\<close>

theorem DynamicArrayRemove_keeps_adjacent:
  "dynamic_array_list (DynamicArrayRemove
     (DynamicArrayAdd (DynamicArrayAdd (DynamicArrayAdd DynamicArrayInit p) p) q) p i) =
   (if p = q then [p] else [p, q])"
  by (simp add: DynamicArrayRemove_list DynamicArrayAdd_list DynamicArrayAdd_ok DynamicArrayInit_ok)

text \<open>After \<^verbatim>\<open>DynArraySort\<close> with a comparison that is a total preorder, the array holds the same
  elements in order, and \<^verbatim>\<open>DynArraySearch\<close> finds an element that compares equal to the key exactly
  when there is one.\<close>

theorem DynArray_sort_search:
  assumes "c_compare cmp" and "dyn_array_ok d"
  shows "mset (dyn_list (DynArraySort d cmp)) = mset (dyn_list d) \<and>
    sorted_wrt (\<lambda>x y. cmp x y \<le> 0) (dyn_list (DynArraySort d cmp)) \<and>
    (case DynArraySearch (DynArraySort d cmp) k cmp of
       None \<Rightarrow> \<forall>x\<in>set (dyn_list d). cmp k x \<noteq> 0
     | Some i \<Rightarrow> i < length (dyn_list d) \<and> cmp k (dyn_list (DynArraySort d cmp) ! i) = 0)"
proof -
  note l = c_compare.DynArraySort_list [OF assms] and ok = c_compare.DynArraySort_ok [OF assms]
  have s: "sorted_wrt (\<lambda>x y. cmp x y \<le> 0) (dyn_list (DynArraySort d cmp))"
    unfolding l by (rule c_compare.sorted_c_qsort [OF assms(1)])
  have "dy_logicalElements (DynArraySort d cmp) = length (dyn_list d)"
    using length_dyn_list [OF ok] by (simp add: l c_compare.length_c_qsort [OF assms(1)])
  then show ?thesis
    using s c_compare.DynArraySearch_iff [OF assms(1) ok s] c_compare.DynArraySearch_Some [OF assms(1) ok, of k]
    by (auto simp: l c_compare.mset_c_qsort [OF assms(1)] c_compare.set_c_qsort [OF assms(1)] split: option.split)
qed

text \<open>Integers compared by subtraction: the \<^verbatim>\<open>int\<close> comparison the sources' callbacks imitate.\<close>

interpretation int_compare: c_compare "\<lambda>x y :: int. x - y"
  by unfold_locales auto

theorem DynArray_sort_search_witness:
  "mset (dyn_list (DynArraySort (DynArrayAppend (DynArrayAppend (DynArrayInit 8) (Some 5)) (Some 3)) (\<lambda>x y. x - y))) =
     {#3, 5::int#}"
  using DynArray_sort_search [OF int_compare.c_compare_axioms,
      of "DynArrayAppend (DynArrayAppend (DynArrayInit 8) (Some 5)) (Some 3)"]
  by (simp add: add_mset_commute)

end
