(* ===== verification/Topl_Schedule.thy ===== *)
theory Topl_Schedule
  imports Topl_Prelude
begin

text \<open>
  The schedule manager, \<^verbatim>\<open>ds/src/common/w32topl/schedman.c\<close>: weekly availability schedules of
  15-minute chunks, the cache that keeps one copy of every schedule, merging (intersection),
  durations, and the conversion of an availability schedule into a replication schedule.

  A \<^verbatim>\<open>SCHEDULE\<close> is its header fields and the bytes behind the header, one per hour of the week:
  the low four bits of a byte are the four quarters of the hour, the high four bits are reserved.
  \<^verbatim>\<open>SCHEDULE_DATA_ENTRIES\<close> (7 * 24), \<^verbatim>\<open>SCHEDULE_INTERVAL\<close> (0) and \<^verbatim>\<open>sizeof(SCHEDULE)\<close> (five
  32-bit fields) come from the SDK header \<^verbatim>\<open>schedule.h\<close>. A \<^verbatim>\<open>TOPL_SCHEDULE\<close> is a pointer
  to a cache entry, the null pointer being the `always' schedule; it is modelled by the entry it
  points to, which identifies it because a cache never holds two entries that compare equal.
\<close>

section \<open>Data\<close>

definition SCHEDULE_DATA_ENTRIES :: nat where
  "SCHEDULE_DATA_ENTRIES = 168"

definition SCHEDULE_INTERVAL :: dword where
  "SCHEDULE_INTERVAL = 0"

definition sizeof_SCHEDULE :: dword where
  "sizeof_SCHEDULE = 20"

definition SCHED_NUMBER_INTERVALS_WEEK :: nat where
  "SCHED_NUMBER_INTERVALS_WEEK = 7 * (4 * 24)"

definition DEFAULT_INTERVAL :: dword where
  "DEFAULT_INTERVAL = 12"

definition STARTING_INTERVAL :: nat where
  "STARTING_INTERVAL = 0"

definition TOPL_ALWAYS_DURATION :: nat where
  "TOPL_ALWAYS_DURATION = 15 * SCHED_NUMBER_INTERVALS_WEEK"

definition SCHED_MAGIC_START :: dword where
  "SCHED_MAGIC_START = 0xDEADBEEF"

definition SCHED_MAGIC_END :: dword where
  "SCHED_MAGIC_END = 0x5EAC1C9"

record SCHEDULE =
  sc_Size :: dword
  sc_Bandwidth :: dword
  sc_NumberOfSchedules :: dword
  sc_Type :: dword
  sc_Offset :: dword
  sc_data :: "byte list"

record ToplSched =
  ts_magicStart :: dword
  ts_s :: "SCHEDULE option"
  ts_duration :: nat
  ts_magicEnd :: dword

type_synonym TOPL_SCHEDULE = "ToplSched option"

abbreviation TOPL_ALWAYS_SCHEDULE :: TOPL_SCHEDULE where
  "TOPL_ALWAYS_SCHEDULE \<equiv> None"

record 't ToplSchedCache =
  tc_magicStart :: dword
  tc_table :: 't
  tc_numEntries :: dword
  tc_deletionPhase :: bool
  tc_pAlwaysSchedule :: "SCHEDULE option"
  tc_magicEnd :: dword

section \<open>Operations\<close>

definition BitCount :: "nat list" where
  "BitCount = [0, 1, 1, 2, 1, 2, 2, 3, 1, 2, 2, 3, 2, 3, 3, 4]"

text \<open>
  The sums below stay under \<open>2 ^ 32\<close> (\<open>CalculateDuration_bound\<close>), so natural numbers are exact.
\<close>

definition CalculateDuration :: "SCHEDULE \<Rightarrow> nat" where
  "CalculateDuration schedule =
     15 * foldl (\<lambda>count iByte. count + BitCount ! unat (sc_data schedule ! iByte AND 0xF))
            0 [0 ..< SCHEDULE_DATA_ENTRIES]"

definition CheckPSchedule :: "SCHEDULE option \<Rightarrow> SCHEDULE topl" where
  "CheckPSchedule ps =
     (case ps of
        None \<Rightarrow> Inl TOPL_EX_SCHEDULE_ERROR
      | Some s \<Rightarrow>
          if sc_Size s \<noteq> sizeof_SCHEDULE + of_nat SCHEDULE_DATA_ENTRIES
            \<or> sc_NumberOfSchedules s \<noteq> 1
            \<or> sc_Type s \<noteq> SCHEDULE_INTERVAL
            \<or> sc_Offset s \<noteq> sizeof_SCHEDULE
          then Inl TOPL_EX_SCHEDULE_ERROR
          else Inr s)"

text \<open>Returns the checked entry with its (non-null) schedule.\<close>

definition CheckSchedule :: "ToplSched \<Rightarrow> (ToplSched \<times> SCHEDULE) topl" where
  "CheckSchedule schedule =
     (if ts_magicStart schedule \<noteq> SCHED_MAGIC_START \<or> ts_magicEnd schedule \<noteq> SCHED_MAGIC_END
      then Inl TOPL_EX_SCHEDULE_ERROR
      else bindE (CheckPSchedule (ts_s schedule)) (\<lambda>s. Inr (schedule, s)))"

definition CheckScheduleCache :: "'t ToplSchedCache option \<Rightarrow> ('t ToplSchedCache \<times> SCHEDULE) topl" where
  "CheckScheduleCache ScheduleCache =
     (case ScheduleCache of
        None \<Rightarrow> Inl TOPL_EX_NULL_POINTER
      | Some c \<Rightarrow>
          if tc_magicStart c \<noteq> SCHED_MAGIC_START \<or> tc_magicEnd c \<noteq> SCHED_MAGIC_END
          then Inl TOPL_EX_CACHE_ERROR
          else bindE (CheckPSchedule (tc_pAlwaysSchedule c)) (\<lambda>s. Inr (c, s)))"

text \<open>Compares the low nibbles byte by byte. The entries in a cache have a schedule.\<close>

fun compare_nibbles :: "byte list \<Rightarrow> byte list \<Rightarrow> nat list \<Rightarrow> rtl_cmp" where
  "compare_nibbles pb1 pb2 [] = GenericEqual"
| "compare_nibbles pb1 pb2 (iByte # is) =
     (if pb1 ! iByte AND 0x0F < pb2 ! iByte AND 0x0F then GenericLessThan
      else if pb1 ! iByte AND 0x0F > pb2 ! iByte AND 0x0F then GenericGreaterThan
      else compare_nibbles pb1 pb2 is)"

definition TableCompare :: "ToplSched \<Rightarrow> ToplSched \<Rightarrow> rtl_cmp" where
  "TableCompare Schedule1 Schedule2 =
     compare_nibbles (sc_data (the (ts_s Schedule1))) (sc_data (the (ts_s Schedule2)))
       [0 ..< SCHEDULE_DATA_ENTRIES]"

text \<open>\<open>bw\<close> is the content of the field the routine leaves unset in the block it allocates.\<close>

definition CreateAlwaysSchedule :: "dword \<Rightarrow> SCHEDULE" where
  "CreateAlwaysSchedule bw =
     \<lparr>sc_Size = sizeof_SCHEDULE + of_nat SCHEDULE_DATA_ENTRIES, sc_Bandwidth = bw,
      sc_NumberOfSchedules = 1, sc_Type = SCHEDULE_INTERVAL, sc_Offset = sizeof_SCHEDULE,
      sc_data = replicate SCHEDULE_DATA_ENTRIES 0x0F\<rparr>"

definition ToplScheduleCacheCreate ::
  "(ToplSched, 't) rtl_table_ops \<Rightarrow> dword \<Rightarrow> 't ToplSchedCache topl" where
  "ToplScheduleCacheCreate T bw =
     (let c = \<lparr>tc_magicStart = SCHED_MAGIC_START, tc_table = RtlInitializeGenericTable T,
               tc_numEntries = 0, tc_deletionPhase = False,
               tc_pAlwaysSchedule = Some (CreateAlwaysSchedule bw),
               tc_magicEnd = SCHED_MAGIC_END\<rparr>
      in bindE (CheckScheduleCache (Some c)) (\<lambda>_. Inr c))"

text \<open>
  The loop that empties the table. The model spends one unit of fuel per round; \<open>None\<close> is a loop
  still running when the fuel is gone. The entry is passed to the deletion with its magic numbers
  already cleared, as in the source.
\<close>

fun destroy_loop :: "(ToplSched, 't) rtl_table_ops \<Rightarrow> nat \<Rightarrow> 't \<Rightarrow> 't topl option" where
  "destroy_loop T 0 t = None"
| "destroy_loop T (Suc fuel) t =
     (if RtlIsGenericTableEmpty T t then Some (Inr t)
      else case RtlFirstElement T t of
             (t, None) \<Rightarrow> Some (Inr t)
           | (t, Some schedule) \<Rightarrow>
               (case CheckSchedule schedule of
                  Inl e \<Rightarrow> Some (Inl e)
                | Inr _ \<Rightarrow>
                    destroy_loop T fuel
                      (RtlDeleteElementGenericTable T TableCompare t
                         (schedule\<lparr>ts_magicStart := 0, ts_magicEnd := 0\<rparr>))))"

definition ToplScheduleCacheDestroy ::
  "(ToplSched, 't) rtl_table_ops \<Rightarrow> nat \<Rightarrow> 't ToplSchedCache option \<Rightarrow> 't ToplSchedCache topl option" where
  "ToplScheduleCacheDestroy T fuel ScheduleCache =
     (case CheckScheduleCache ScheduleCache of
        Inl e \<Rightarrow> Some (Inl e)
      | Inr (c, _) \<Rightarrow>
          (case destroy_loop T fuel (tc_table c) of
             None \<Rightarrow> None
           | Some (Inl e) \<Rightarrow> Some (Inl e)
           | Some (Inr t) \<Rightarrow>
               Some (Inr (c\<lparr>tc_deletionPhase := True, tc_table := t, tc_pAlwaysSchedule := None,
                            tc_numEntries := 0, tc_magicStart := 0, tc_magicEnd := 0\<rparr>))))"

definition ToplScheduleImport ::
  "(ToplSched, 't) rtl_table_ops \<Rightarrow> 't ToplSchedCache option \<Rightarrow> SCHEDULE option \<Rightarrow>
   ('t ToplSchedCache \<times> TOPL_SCHEDULE) topl" where
  "ToplScheduleImport T ScheduleCache pExternalSchedule =
     bindE (CheckScheduleCache ScheduleCache) (\<lambda>(c, _).
       if pExternalSchedule = None then Inr (c, TOPL_ALWAYS_SCHEDULE)
       else bindE (CheckPSchedule pExternalSchedule) (\<lambda>ext.
         let duration = CalculateDuration ext
         in if duration = TOPL_ALWAYS_DURATION then Inr (c, TOPL_ALWAYS_SCHEDULE)
            else
              let searchKey = \<lparr>ts_magicStart = SCHED_MAGIC_START, ts_s = Some ext,
                               ts_duration = duration, ts_magicEnd = SCHED_MAGIC_END\<rparr>;
                  (t, cachedSched, newElement) =
                    RtlInsertElementGenericTable T TableCompare (tc_table c) searchKey;
                  c = c\<lparr>tc_table := t\<rparr>;
                  c = (if newElement then c\<lparr>tc_numEntries := tc_numEntries c + 1\<rparr> else c)
              in Inr (c, Some cachedSched)))"

definition ToplScheduleNumEntries :: "'t ToplSchedCache option \<Rightarrow> dword topl" where
  "ToplScheduleNumEntries ScheduleCache =
     bindE (CheckScheduleCache ScheduleCache) (\<lambda>(c, _). Inr (tc_numEntries c))"

definition ToplScheduleExportReadonly ::
  "'t ToplSchedCache option \<Rightarrow> TOPL_SCHEDULE \<Rightarrow> SCHEDULE topl" where
  "ToplScheduleExportReadonly ScheduleCache Schedule =
     bindE (CheckScheduleCache ScheduleCache) (\<lambda>(c, always).
       case Schedule of
         None \<Rightarrow> Inr always
       | Some sch \<Rightarrow> bindE (CheckSchedule sch) (\<lambda>(_, s). Inr s))"

definition merge_byte :: "byte \<Rightarrow> byte \<Rightarrow> byte" where
  "merge_byte b1 b2 = (b1 AND 0xF AND (b2 AND 0xF)) OR (b1 AND 0xF0)"

definition check_optional :: "TOPL_SCHEDULE \<Rightarrow> SCHEDULE option topl" where
  "check_optional Schedule =
     (case Schedule of
        None \<Rightarrow> Inr None
      | Some sch \<Rightarrow> bindE (CheckSchedule sch) (\<lambda>(_, s). Inr (Some s)))"

text \<open>The result carries the \<^verbatim>\<open>fIsNever\<close> flag; \<open>fIsNeverPtr\<close> says whether its pointer is non-null.\<close>

definition ToplScheduleMerge ::
  "(ToplSched, 't) rtl_table_ops \<Rightarrow> 't ToplSchedCache option \<Rightarrow> TOPL_SCHEDULE \<Rightarrow> TOPL_SCHEDULE \<Rightarrow> bool \<Rightarrow>
   ('t ToplSchedCache \<times> TOPL_SCHEDULE \<times> bool) topl" where
  "ToplScheduleMerge T ScheduleCache Schedule1 Schedule2 fIsNeverPtr =
     bindE (CheckScheduleCache ScheduleCache) (\<lambda>(c, _).
     bindE (check_optional Schedule1) (\<lambda>os1.
     bindE (check_optional Schedule2) (\<lambda>os2.
     bindE (raise_if (\<not> fIsNeverPtr) TOPL_EX_NULL_POINTER) (\<lambda>_.
       case (os1, os2) of
         (None, _) \<Rightarrow> Inr (c, Schedule2, False)
       | (Some _, None) \<Rightarrow> Inr (c, Schedule1, False)
       | (Some s1, Some s2) \<Rightarrow>
           let s3 = s1\<lparr>sc_data := map (\<lambda>iByte. merge_byte (sc_data s1 ! iByte) (sc_data s2 ! iByte))
                                    [0 ..< SCHEDULE_DATA_ENTRIES]\<rparr>;
               nonEmpty = foldl (\<lambda>ne iByte. ne OR (sc_data s1 ! iByte AND 0xF AND (sc_data s2 ! iByte AND 0xF)))
                            0 [0 ..< SCHEDULE_DATA_ENTRIES]
           in bindE (ToplScheduleImport T (Some c) (Some s3)) (\<lambda>(c, result).
                Inr (c, result, nonEmpty = 0))))))"

definition ToplScheduleIsEqual ::
  "'t ToplSchedCache option \<Rightarrow> TOPL_SCHEDULE \<Rightarrow> TOPL_SCHEDULE \<Rightarrow> bool topl" where
  "ToplScheduleIsEqual ScheduleCache Schedule1 Schedule2 =
     bindE (CheckScheduleCache ScheduleCache) (\<lambda>_.
     bindE (check_optional Schedule1) (\<lambda>_.
     bindE (check_optional Schedule2) (\<lambda>_.
       Inr (Schedule1 = Schedule2))))"

definition ToplScheduleDuration :: "TOPL_SCHEDULE \<Rightarrow> nat topl" where
  "ToplScheduleDuration Schedule =
     (case Schedule of
        None \<Rightarrow> Inr TOPL_ALWAYS_DURATION
      | Some sch \<Rightarrow> bindE (CheckSchedule sch) (\<lambda>(schedule, _). Inr (ts_duration schedule)))"

definition ToplGetAlwaysSchedule :: "'t ToplSchedCache option \<Rightarrow> TOPL_SCHEDULE" where
  "ToplGetAlwaysSchedule ScheduleCache = TOPL_ALWAYS_SCHEDULE"

definition ToplScheduleValid :: "TOPL_SCHEDULE \<Rightarrow> bool" where
  "ToplScheduleValid Schedule =
     (case Schedule of
        None \<Rightarrow> True
      | Some sch \<Rightarrow> (case CheckSchedule sch of Inl _ \<Rightarrow> False | Inr _ \<Rightarrow> True))"

definition ToplPScheduleValid :: "SCHEDULE option \<Rightarrow> bool" where
  "ToplPScheduleValid Schedule =
     (case CheckPSchedule Schedule of
        Inl _ \<Rightarrow> False
      | Inr s \<Rightarrow> CalculateDuration s \<noteq> 0)"

section \<open>Single chunks\<close>

text \<open>
  \<^verbatim>\<open>GetBit\<close> and \<^verbatim>\<open>SetBit\<close>. Within the 168 data bytes a read is defined; a chunk beyond them
  reads memory behind the schedule, which is \<open>None\<close> in \<open>GetBit\<close>. The loops below that stay in
  range use \<open>chunk_open\<close>, the value \<open>GetBit\<close> has there.
\<close>

definition chunk_open :: "byte list \<Rightarrow> nat \<Rightarrow> bool" where
  "chunk_open pb chunk =
     (let hour = drop_bit 2 chunk; subinterval = chunk AND 3; bitMask = push_bit subinterval 1
      in pb ! hour AND 0xF AND bitMask \<noteq> 0)"

definition GetBit :: "byte list \<Rightarrow> nat \<Rightarrow> bool option" where
  "GetBit pb chunk =
     (let hour = drop_bit 2 chunk
      in if hour < length pb then Some (chunk_open pb chunk) else None)"

definition SetBit :: "byte list \<Rightarrow> nat \<Rightarrow> byte list" where
  "SetBit pb chunk =
     (let hour = drop_bit 2 chunk; subinterval = chunk AND 3; mask = push_bit subinterval 1
      in pb[hour := pb ! hour OR mask])"

section \<open>Bits of a byte\<close>

lemma chunk_and_3 [simp]: "(chunk::nat) AND 3 = chunk mod 4"
  using take_bit_eq_mask [of 2 chunk] by (simp add: take_bit_eq_mod mask_eq_exp_minus_1)

lemma drop_bit_2 [simp]: "drop_bit 2 (chunk::nat) = chunk div 4"
  by (simp add: drop_bit_eq_div)

lemma byte_low_nibble: "(b::byte) AND 0xF = take_bit 4 b"
  by (simp add: take_bit_eq_mask mask_eq_exp_minus_1)

lemma byte_and_mask: "(w::byte) AND push_bit n 1 \<noteq> 0 \<longleftrightarrow> bit w n"
  by (metis bit_iff_and_push_bit_not_eq_0)

lemma chunk_open_bit: "chunk_open pb c \<longleftrightarrow> bit (pb ! (c div 4)) (c mod 4)"
proof -
  have "chunk_open pb c \<longleftrightarrow> take_bit 4 (pb ! (c div 4)) AND push_bit (c mod 4) 1 \<noteq> 0"
    by (simp add: chunk_open_def Let_def and.assoc flip: byte_low_nibble)
  then show ?thesis
    unfolding byte_and_mask by (simp add: bit_take_bit_iff)
qed

lemma nibble_expand_nat:
  "(n::nat) mod 16 =
     of_bool (odd n) + 2 * of_bool (odd (n div 2)) + 4 * of_bool (odd (n div 4)) + 8 * of_bool (odd (n div 8))"
  using mod_mult2_eq [of n 2 8] mod_mult2_eq [of "n div 2" 2 4] mod_mult2_eq [of "n div 4" 2 2]
  by (simp add: div_mult2_eq [symmetric] flip: mod_2_eq_odd)

lemma bit_unat_byte: "bit (unat (b::byte)) n = bit b n"
  by (simp add: bit_unsigned_iff)

lemma nibble_expand:
  "unat (take_bit 4 (b::byte)) =
     of_bool (bit b 0) + 2 * of_bool (bit b 1) + 4 * of_bool (bit b 2) + 8 * of_bool (bit b 3)"
proof -
  have "unat (take_bit 4 b) = unat b mod 16"
    by (simp only: unsigned_take_bit_eq) (simp add: take_bit_eq_mod)
  then show ?thesis
    unfolding nibble_expand_nat bit_unat_byte [symmetric] by (simp add: bit_iff_odd)
qed

lemma BitCount_nibble:
  "BitCount ! unat ((b::byte) AND 0xF) =
     of_bool (bit b 0) + of_bool (bit b 1) + of_bool (bit b 2) + of_bool (bit b 3)"
  unfolding byte_low_nibble nibble_expand
  by (cases "bit b 0"; cases "bit b 1"; cases "bit b 2"; cases "bit b 3")
    (simp_all add: BitCount_def)

section \<open>The chunks a schedule opens\<close>

definition open_chunks :: "byte list \<Rightarrow> nat set" where
  "open_chunks pb = {c. c < SCHED_NUMBER_INTERVALS_WEEK \<and> chunk_open pb c}"

lemma finite_open_chunks [simp]: "finite (open_chunks pb)"
  by (simp add: open_chunks_def)

lemma in_open_chunks:
  "c \<in> open_chunks pb \<longleftrightarrow> c < 672 \<and> bit (pb ! (c div 4)) (c mod 4)"
  by (simp add: open_chunks_def SCHED_NUMBER_INTERVALS_WEEK_def chunk_open_bit)

lemma open_chunks_byte:
  "h < 168 \<Longrightarrow> j < 4 \<Longrightarrow> 4 * h + j \<in> open_chunks pb \<longleftrightarrow> bit (pb ! h) j"
  by (simp add: in_open_chunks)

lemma open_chunks_eqI:
  assumes "\<And>h j. h < 168 \<Longrightarrow> j < 4 \<Longrightarrow> bit (pb ! h) j \<longleftrightarrow> bit (pb' ! h) j"
  shows "open_chunks pb = open_chunks pb'"
proof (rule set_eqI)
  fix c
  show "c \<in> open_chunks pb \<longleftrightarrow> c \<in> open_chunks pb'"
    using assms [of "c div 4" "c mod 4"] by (auto simp: in_open_chunks)
qed

lemma card_below: "card {c::nat. c < n \<and> P c} = (\<Sum>c<n. of_bool (P c))"
proof (induction n)
  case (Suc n)
  have "{c. c < Suc n \<and> P c} = (if P n then insert n {c. c < n \<and> P c} else {c. c < n \<and> P c})"
    by (auto simp: less_Suc_eq)
  with Suc show ?case by simp
qed simp

lemma sum_quarters:
  fixes f :: "nat \<Rightarrow> nat"
  shows "(\<Sum>c<4 * n. f c) = (\<Sum>h<n. (\<Sum>j\<in>{0, 1, 2, 3}. f (4 * h + j)))"
proof (induction n)
  case (Suc n)
  have "4 * Suc n = Suc (Suc (Suc (Suc (4 * n))))" by simp
  with Suc show ?case by (simp add: add.assoc eval_nat_numeral)
qed simp

lemma foldl_count: "foldl (\<lambda>n x. n + f x) (a::nat) xs = a + (\<Sum>x\<leftarrow>xs. f x)"
  by (induction xs arbitrary: a) auto

lemma CalculateDuration_card: "CalculateDuration s = 15 * card (open_chunks (sc_data s))"
proof -
  let ?b = "\<lambda>h j. of_bool (bit (sc_data s ! h) j) :: nat"
  have "card (open_chunks (sc_data s)) = (\<Sum>c<4 * 168. ?b (c div 4) (c mod 4))"
    by (simp add: open_chunks_def chunk_open_bit SCHED_NUMBER_INTERVALS_WEEK_def card_below)
  also have "\<dots> = (\<Sum>h<168. \<Sum>j\<in>{0, 1, 2, 3}. ?b h j)"
    unfolding sum_quarters by (intro sum.cong) auto
  also have "\<dots> = (\<Sum>h<168. ?b h 0 + ?b h 1 + ?b h 2 + ?b h 3)"
    by (simp add: add.assoc del: sum_of_bool_eq)
  also have "\<dots> = (\<Sum>h\<leftarrow>[0..<168]. ?b h 0 + ?b h 1 + ?b h 2 + ?b h 3)"
    by (simp only: interv_sum_list_conv_sum_set_nat atLeast0LessThan set_upt)
  finally show ?thesis
    by (simp only: CalculateDuration_def foldl_count BitCount_nibble SCHEDULE_DATA_ENTRIES_def add_0)
qed

lemma CalculateDuration_bound: "CalculateDuration s \<le> TOPL_ALWAYS_DURATION"
proof -
  have "card (open_chunks (sc_data s)) \<le> card {..<SCHED_NUMBER_INTERVALS_WEEK}"
    by (rule card_mono) (auto simp: open_chunks_def)
  then show ?thesis
    by (simp add: CalculateDuration_card TOPL_ALWAYS_DURATION_def)
qed

lemma CalculateDuration_always:
  "CalculateDuration s = TOPL_ALWAYS_DURATION \<longleftrightarrow> open_chunks (sc_data s) = {..<SCHED_NUMBER_INTERVALS_WEEK}"
proof
  assume "CalculateDuration s = TOPL_ALWAYS_DURATION"
  then show "open_chunks (sc_data s) = {..<SCHED_NUMBER_INTERVALS_WEEK}"
    by (intro card_subset_eq) (auto simp: CalculateDuration_card TOPL_ALWAYS_DURATION_def open_chunks_def)
qed (simp add: CalculateDuration_card TOPL_ALWAYS_DURATION_def)

section \<open>The table's order\<close>

lemma compare_nibbles_equal:
  "compare_nibbles p q is = GenericEqual \<longleftrightarrow> (\<forall>i\<in>set is. p ! i AND 0x0F = q ! i AND 0x0F)"
  by (induction "is") (auto simp: neq_iff)

lemma compare_nibbles_flip:
  "compare_nibbles p q is = GenericLessThan \<longleftrightarrow> compare_nibbles q p is = GenericGreaterThan"
  by (induction "is") auto

lemma compare_nibbles_trans:
  "compare_nibbles p q is = GenericLessThan \<Longrightarrow> compare_nibbles q r is = GenericLessThan \<Longrightarrow>
   compare_nibbles p r is = GenericLessThan"
  by (induction "is") (auto split: if_splits dest: less_trans)

lemma compare_nibbles_equal_less:
  "compare_nibbles p q is = GenericEqual \<Longrightarrow> compare_nibbles q r is = GenericLessThan \<Longrightarrow>
   compare_nibbles p r is = GenericLessThan"
  by (induction "is") (auto split: if_splits)

interpretation sched_compare: rtl_compare TableCompare
proof
  fix x y z
  show "TableCompare x y = GenericLessThan \<longleftrightarrow> TableCompare y x = GenericGreaterThan"
    unfolding TableCompare_def by (rule compare_nibbles_flip)
  show "TableCompare x y = GenericEqual \<Longrightarrow> TableCompare y x = GenericEqual"
    by (simp add: TableCompare_def compare_nibbles_equal)
  show "TableCompare x y = GenericEqual \<Longrightarrow> TableCompare y z = GenericEqual \<Longrightarrow>
      TableCompare x z = GenericEqual"
    by (simp add: TableCompare_def compare_nibbles_equal)
qed (unfold TableCompare_def, (fact compare_nibbles_trans compare_nibbles_equal_less)+)

lemma take_bit_4_eq_iff:
  "take_bit 4 (b::byte) = take_bit 4 b' \<longleftrightarrow> (\<forall>j<4. bit b j \<longleftrightarrow> bit b' j)"
proof
  assume "take_bit 4 b = take_bit 4 b'"
  then have "bit (take_bit 4 b) j = bit (take_bit 4 b') j" for j by simp
  then show "\<forall>j<4. bit b j \<longleftrightarrow> bit b' j" by (metis bit_take_bit_iff)
qed (auto simp: bit_eq_iff bit_take_bit_iff)

lemma TableCompare_equal:
  "TableCompare e1 e2 = GenericEqual \<longleftrightarrow>
     open_chunks (sc_data (the (ts_s e1))) = open_chunks (sc_data (the (ts_s e2)))"
proof
  assume "TableCompare e1 e2 = GenericEqual"
  then show "open_chunks (sc_data (the (ts_s e1))) = open_chunks (sc_data (the (ts_s e2)))"
    by (intro open_chunks_eqI)
      (auto simp: TableCompare_def compare_nibbles_equal byte_low_nibble take_bit_4_eq_iff SCHEDULE_DATA_ENTRIES_def)
next
  assume "open_chunks (sc_data (the (ts_s e1))) = open_chunks (sc_data (the (ts_s e2)))"
  then show "TableCompare e1 e2 = GenericEqual"
    using open_chunks_byte
    by (auto simp: TableCompare_def compare_nibbles_equal byte_low_nibble take_bit_4_eq_iff SCHEDULE_DATA_ENTRIES_def)
      (metis)+
qed

section \<open>Merging bytes\<close>

lemma bit_15_byte: "j < 4 \<Longrightarrow> bit (0xF :: byte) j"
proof -
  assume "j < 4"
  moreover have "(0xF :: byte) = mask 4"
    by (simp add: mask_eq_exp_minus_1)
  ultimately show ?thesis
    by (simp only: bit_mask_iff) simp
qed

lemma bit_merge_byte: "j < 4 \<Longrightarrow> bit (merge_byte b1 b2) j \<longleftrightarrow> bit b1 j \<and> bit b2 j"
proof -
  assume j: "j < 4"
  have "(0xF0 :: byte) = push_bit 4 15"
    by (simp add: push_bit_eq_mult)
  then have "\<not> bit (0xF0 :: byte) j"
    using j by (simp only: bit_push_bit_iff) simp
  then show ?thesis
    using bit_15_byte [OF j] by (auto simp: merge_byte_def bit_or_iff bit_and_iff)
qed

definition merge_data :: "byte list \<Rightarrow> byte list \<Rightarrow> byte list" where
  "merge_data p q = map (\<lambda>iByte. merge_byte (p ! iByte) (q ! iByte)) [0 ..< SCHEDULE_DATA_ENTRIES]"

lemma open_chunks_merge: "open_chunks (merge_data p q) = open_chunks p \<inter> open_chunks q"
  by (auto simp: in_open_chunks merge_data_def SCHEDULE_DATA_ENTRIES_def bit_merge_byte)

lemma foldl_or_zero:
  "foldl (\<lambda>ne i. ne OR f i) (a::byte) xs = 0 \<longleftrightarrow> a = 0 \<and> (\<forall>i\<in>set xs. f i = 0)"
  by (induction xs arbitrary: a) (auto simp: or_eq_0_iff)

lemma nibbles_disjoint:
  "(b1::byte) AND 0xF AND (b2 AND 0xF) = 0 \<longleftrightarrow> (\<forall>j<4. \<not> (bit b1 j \<and> bit b2 j))"
proof -
  have "b1 AND 0xF AND (b2 AND 0xF) = take_bit 4 (b1 AND b2)"
    by (simp add: byte_low_nibble [symmetric] and.assoc and.left_commute)
  also have "\<dots> = 0 \<longleftrightarrow> (\<forall>j<4. \<not> bit (b1 AND b2) j)"
    using take_bit_4_eq_iff [of "b1 AND b2" 0] by simp
  finally show ?thesis
    by (simp add: bit_and_iff)
qed

lemma merge_never:
  "foldl (\<lambda>ne iByte. ne OR (p ! iByte AND 0xF AND (q ! iByte AND 0xF))) (0::byte)
     [0 ..< SCHEDULE_DATA_ENTRIES] = 0 \<longleftrightarrow> open_chunks p \<inter> open_chunks q = {}"
proof -
  have "(\<forall>h<168. \<forall>j<4. \<not> (bit (p ! h) j \<and> bit (q ! h) j)) \<longleftrightarrow> open_chunks p \<inter> open_chunks q = {}"
  proof
    assume "open_chunks p \<inter> open_chunks q = {}"
    then show "\<forall>h<168. \<forall>j<4. \<not> (bit (p ! h) j \<and> bit (q ! h) j)"
      using open_chunks_byte by (metis disjoint_iff)
  qed (auto simp: in_open_chunks disjoint_iff)
  then show ?thesis
    unfolding foldl_or_zero nibbles_disjoint by (auto simp: SCHEDULE_DATA_ENTRIES_def)
qed

section \<open>The cache invariant\<close>

definition schedule_ok :: "SCHEDULE \<Rightarrow> bool" where
  "schedule_ok s \<longleftrightarrow> CheckPSchedule (Some s) = Inr s \<and> length (sc_data s) = SCHEDULE_DATA_ENTRIES"

definition entry_ok :: "ToplSched \<Rightarrow> bool" where
  "entry_ok e \<longleftrightarrow> ts_magicStart e = SCHED_MAGIC_START \<and> ts_magicEnd e = SCHED_MAGIC_END \<and>
     (\<exists>s. ts_s e = Some s \<and> schedule_ok s \<and> ts_duration e = CalculateDuration s \<and>
          CalculateDuration s \<noteq> TOPL_ALWAYS_DURATION)"

definition cache_ok :: "('t \<Rightarrow> bool) \<Rightarrow> ('t \<Rightarrow> ToplSched list) \<Rightarrow> 't ToplSchedCache \<Rightarrow> bool" where
  "cache_ok ok elems c \<longleftrightarrow>
     tc_magicStart c = SCHED_MAGIC_START \<and> tc_magicEnd c = SCHED_MAGIC_END \<and> \<not> tc_deletionPhase c \<and>
     (\<exists>bw. tc_pAlwaysSchedule c = Some (CreateAlwaysSchedule bw)) \<and>
     ok (tc_table c) \<and> (\<forall>e\<in>set (elems (tc_table c)). entry_ok e) \<and>
     tc_numEntries c = of_nat (length (elems (tc_table c)))"

definition search_key :: "SCHEDULE \<Rightarrow> ToplSched" where
  "search_key s = \<lparr>ts_magicStart = SCHED_MAGIC_START, ts_s = Some s,
     ts_duration = CalculateDuration s, ts_magicEnd = SCHED_MAGIC_END\<rparr>"

text \<open>The handles a cache has given out, and the chunks a handle stands for.\<close>

definition in_cache :: "('t \<Rightarrow> ToplSched list) \<Rightarrow> 't ToplSchedCache \<Rightarrow> TOPL_SCHEDULE \<Rightarrow> bool" where
  "in_cache elems c h = (case h of None \<Rightarrow> True | Some e \<Rightarrow> e \<in> set (elems (tc_table c)))"

definition avail :: "TOPL_SCHEDULE \<Rightarrow> nat set" where
  "avail h = (case h of None \<Rightarrow> {..<SCHED_NUMBER_INTERVALS_WEEK}
                      | Some e \<Rightarrow> open_chunks (sc_data (the (ts_s e))))"

lemma avail_simps [simp]:
  "avail None = {..<SCHED_NUMBER_INTERVALS_WEEK}"
  "avail (Some e) = open_chunks (sc_data (the (ts_s e)))"
  by (simp_all add: avail_def)

lemma avail_week: "avail h \<subseteq> {..<SCHED_NUMBER_INTERVALS_WEEK}"
  by (cases h) (auto simp: open_chunks_def)

lemma finite_avail [simp]: "finite (avail h)"
  using avail_week finite_subset by blast

lemma in_cache_None [simp]: "in_cache elems c None"
  by (simp add: in_cache_def)

lemma CheckPSchedule_always [simp]:
  "CheckPSchedule (Some (CreateAlwaysSchedule bw)) = Inr (CreateAlwaysSchedule bw)"
  by (simp add: CheckPSchedule_def CreateAlwaysSchedule_def)

lemma schedule_ok_always: "schedule_ok (CreateAlwaysSchedule bw)"
  unfolding schedule_ok_def CheckPSchedule_always by (simp add: CreateAlwaysSchedule_def)

lemma open_chunks_always: "open_chunks (sc_data (CreateAlwaysSchedule bw)) = {..<SCHED_NUMBER_INTERVALS_WEEK}"
  using bit_15_byte
  by (auto simp: in_open_chunks CreateAlwaysSchedule_def SCHEDULE_DATA_ENTRIES_def
      SCHED_NUMBER_INTERVALS_WEEK_def simp del: bit_numeral_simps)

lemma entry_okE:
  assumes "entry_ok e"
  obtains s where "ts_s e = Some s" "schedule_ok s" "ts_magicStart e = SCHED_MAGIC_START"
    "ts_magicEnd e = SCHED_MAGIC_END" "ts_duration e = CalculateDuration s"
    "CalculateDuration s \<noteq> TOPL_ALWAYS_DURATION"
  using assms unfolding entry_ok_def by blast

lemma CheckSchedule_ok: "entry_ok e \<Longrightarrow> CheckSchedule e = Inr (e, the (ts_s e))"
  by (erule entry_okE) (simp add: CheckSchedule_def schedule_ok_def)

lemma entry_schedule_ok: "entry_ok e \<Longrightarrow> schedule_ok (the (ts_s e))"
  by (erule entry_okE) simp

lemma entry_duration: "entry_ok e \<Longrightarrow> ts_duration e = 15 * card (open_chunks (sc_data (the (ts_s e))))"
  by (erule entry_okE) (simp add: CalculateDuration_card)

lemma entry_not_always: "entry_ok e \<Longrightarrow> open_chunks (sc_data (the (ts_s e))) \<noteq> {..<SCHED_NUMBER_INTERVALS_WEEK}"
  by (erule entry_okE) (simp add: CalculateDuration_always)

lemma CheckScheduleCache_ok:
  "cache_ok ok elems c \<Longrightarrow> \<exists>bw. CheckScheduleCache (Some c) = Inr (c, CreateAlwaysSchedule bw)"
  by (auto simp: cache_ok_def CheckScheduleCache_def)

lemma in_cache_entry: "cache_ok ok elems c \<Longrightarrow> in_cache elems c (Some e) \<Longrightarrow> entry_ok e"
  by (auto simp: cache_ok_def in_cache_def)

lemma check_optional_ok:
  "cache_ok ok elems c \<Longrightarrow> in_cache elems c h \<Longrightarrow>
   check_optional h = Inr (case h of None \<Rightarrow> None | Some e \<Rightarrow> ts_s e)"
proof (cases h)
  case (Some e)
  assume "cache_ok ok elems c" "in_cache elems c h"
  with Some have "entry_ok e" by (blast intro: in_cache_entry)
  then show ?thesis
    by (auto simp: Some check_optional_def CheckSchedule_ok) (auto simp: entry_ok_def)
qed (simp add: check_optional_def)

lemma ToplScheduleDuration_avail:
  "cache_ok ok elems c \<Longrightarrow> in_cache elems c h \<Longrightarrow> ToplScheduleDuration h = Inr (15 * card (avail h))"
  using in_cache_entry [of ok elems c]
  by (cases h) (auto simp: ToplScheduleDuration_def CheckSchedule_ok entry_duration TOPL_ALWAYS_DURATION_def)

section \<open>What the schedule manager promises\<close>

text \<open>
  The laws below hold for every generic table that behaves as documented. They are proved in the
  locale of such tables over \<open>TableCompare\<close>.
\<close>

locale schedule_cache = rtl_generic_table TableCompare T ok elems
  for T :: "(ToplSched, 't) rtl_table_ops" and ok elems
begin

abbreviation cok :: "'t ToplSchedCache \<Rightarrow> bool" where
  "cok \<equiv> cache_ok ok elems"

abbreviation inc :: "'t ToplSchedCache \<Rightarrow> TOPL_SCHEDULE \<Rightarrow> bool" where
  "inc \<equiv> in_cache elems"

lemma handle_eq_iff:
  assumes "cok c" "inc c h1" "inc c h2"
  shows "h1 = h2 \<longleftrightarrow> avail h1 = avail h2"
proof (cases h1; cases h2)
  fix e1 e2
  assume h: "h1 = Some e1" "h2 = Some e2"
  then have "e1 \<in> set (elems (tc_table c))" "e2 \<in> set (elems (tc_table c))" "ok (tc_table c)"
    using assms by (auto simp: in_cache_def cache_ok_def)
  then show ?thesis
    using sorted_rtl_equal_unique [OF elems_sorted] rtl_refl
    by (auto simp: h simp flip: TableCompare_equal)
qed (use assms in_cache_entry entry_not_always in \<open>fastforce\<close>)+

lemma Import_eq:
  assumes "cok c" and "schedule_ok s"
  shows "ToplScheduleImport T (Some c) (Some s) =
    (if CalculateDuration s = TOPL_ALWAYS_DURATION then Inr (c, None)
     else case RtlInsertElementGenericTable T TableCompare (tc_table c) (search_key s) of
        (t, e, new) \<Rightarrow>
          Inr (c\<lparr>tc_table := t, tc_numEntries := tc_numEntries c + (if new then 1 else 0)\<rparr>, Some e))"
proof -
  from CheckScheduleCache_ok [OF assms(1)] obtain bw
    where "CheckScheduleCache (Some c) = Inr (c, CreateAlwaysSchedule bw)" by blast
  moreover have "CheckPSchedule (Some s) = Inr s"
    using assms(2) by (simp add: schedule_ok_def)
  ultimately show ?thesis
    by (simp add: ToplScheduleImport_def search_key_def Let_def split: prod.split)
qed

lemma Import_spec:
  assumes c: "cok c" and s: "schedule_ok s"
  obtains c' h where "ToplScheduleImport T (Some c) (Some s) = Inr (c', h)" "cok c'" "inc c' h"
    "avail h = open_chunks (sc_data s)" "\<And>h'. inc c h' \<Longrightarrow> inc c' h'"
proof (cases "CalculateDuration s = TOPL_ALWAYS_DURATION")
  case True
  show ?thesis
    by (rule that [of c None]) (use True c s in \<open>simp_all add: Import_eq CalculateDuration_always\<close>)
next
  case False
  have key: "entry_ok (search_key s)" "the (ts_s (search_key s)) = s"
    using s False by (auto simp: search_key_def entry_ok_def)
  have okt: "ok (tc_table c)"
    using c by (simp add: cache_ok_def)
  from okt show ?thesis
  proof (cases rule: insert_cases [where e = "search_key s"])
    case (present t' x)
    show ?thesis
      by (rule that [of "c\<lparr>tc_table := t'\<rparr>" "Some x"])
        (use present c s False key(2) in
          \<open>auto simp: Import_eq cache_ok_def in_cache_def TableCompare_equal split: option.splits\<close>)
  next
    case (absent t')
    show ?thesis
      by (rule that [of "c\<lparr>tc_table := t', tc_numEntries := tc_numEntries c + 1\<rparr>" "Some (search_key s)"])
        (use absent c s False key in
          \<open>auto simp: Import_eq cache_ok_def in_cache_def split: option.splits\<close>)
  qed
qed

lemma Import_again:
  assumes c: "cok c" and h: "inc c h" and s: "schedule_ok s" "open_chunks (sc_data s) = avail h"
  obtains c' where "ToplScheduleImport T (Some c) (Some s) = Inr (c', h)" "tc_numEntries c' = tc_numEntries c"
    "cok c'"
proof (cases h)
  case None
  with c s show ?thesis
    by (intro that [of c]) (simp_all add: Import_eq CalculateDuration_always)
next
  case (Some e)
  then have e: "e \<in> set (elems (tc_table c))" "entry_ok e" "ok (tc_table c)"
    using c h in_cache_entry by (auto simp: in_cache_def cache_ok_def)
  have "TableCompare (search_key s) e = GenericEqual" "CalculateDuration s \<noteq> TOPL_ALWAYS_DURATION"
    using s Some entry_not_always [OF e(2)]
    by (auto simp: TableCompare_equal search_key_def CalculateDuration_always)
  with insert_present [OF e(3,1)] obtain t' where
    "RtlInsertElementGenericTable T TableCompare (tc_table c) (search_key s) = (t', e, False)"
    "ok t'" "elems t' = elems (tc_table c)" by blast
  with c s Some \<open>CalculateDuration s \<noteq> TOPL_ALWAYS_DURATION\<close> show ?thesis
    by (intro that [of "c\<lparr>tc_table := t'\<rparr>"]) (auto simp: Import_eq cache_ok_def)
qed

lemma Import_null: "cok c \<Longrightarrow> ToplScheduleImport T (Some c) None = Inr (c, None)"
  using CheckScheduleCache_ok [of ok elems c] by (auto simp: ToplScheduleImport_def)

lemma Merge_spec:
  assumes c: "cok c" "inc c h1" "inc c h2"
  obtains c' h where
    "ToplScheduleMerge T (Some c) h1 h2 True = Inr (c', h, h1 \<noteq> None \<and> h2 \<noteq> None \<and> avail h1 \<inter> avail h2 = {})"
    "cok c'" "inc c' h" "avail h = avail h1 \<inter> avail h2" "\<And>h'. inc c h' \<Longrightarrow> inc c' h'"
proof -
  from CheckScheduleCache_ok [OF c(1)] obtain bw
    where bw: "CheckScheduleCache (Some c) = Inr (c, CreateAlwaysSchedule bw)" by blast
  note eq = ToplScheduleMerge_def bw check_optional_ok [OF c(1)]
  consider "h1 = None" | e1 where "h1 = Some e1" "h2 = None" | e1 e2 where "h1 = Some e1" "h2 = Some e2"
    by (cases h1; cases h2) auto
  then show ?thesis
  proof cases
    case 1
    show ?thesis
      by (rule that [of c h2]) (use 1 c avail_week [of h2] in \<open>auto simp: eq split: option.split\<close>)
  next
    case (2 e1)
    then obtain s1 where s1: "ts_s e1 = Some s1"
      using c in_cache_entry by (metis entry_okE)
    show ?thesis
      by (rule that [of c h1])
        (use 2 c avail_week [of h1] s1 in \<open>auto simp: eq\<close>)
  next
    case (3 e1 e2)
    then obtain s1 s2 where s: "ts_s e1 = Some s1" "ts_s e2 = Some s2" "schedule_ok s1"
      using c in_cache_entry by (metis entry_okE)
    let ?s3 = "s1\<lparr>sc_data := merge_data (sc_data s1) (sc_data s2)\<rparr>"
    have "schedule_ok ?s3"
      using s(3) by (auto simp: schedule_ok_def CheckPSchedule_def merge_data_def split: if_splits)
    from Import_spec [OF c(1) this] obtain c' h where
      i: "ToplScheduleImport T (Some c) (Some ?s3) = Inr (c', h)" "cok c'" "inc c' h"
        "avail h = open_chunks (sc_data ?s3)" "\<And>h'. inc c h' \<Longrightarrow> inc c' h'" by blast
    show ?thesis
      by (rule that [of c' h])
        (use 3 s i c in \<open>simp_all add: eq merge_never open_chunks_merge merge_data_def [symmetric] Let_def\<close>)
  qed
qed

text \<open>Merging with a handle already in the cache needs no error path.\<close>

lemma IsEqual_spec:
  assumes "cok c" "inc c h1" "inc c h2"
  shows "ToplScheduleIsEqual (Some c) h1 h2 = Inr (avail h1 = avail h2)"
proof -
  from CheckScheduleCache_ok [OF assms(1)] obtain bw
    where "CheckScheduleCache (Some c) = Inr (c, CreateAlwaysSchedule bw)" by blast
  with assms show ?thesis
    by (simp add: ToplScheduleIsEqual_def check_optional_ok handle_eq_iff [symmetric])
qed

lemma Export_spec:
  assumes "cok c" "inc c h"
  obtains s where "ToplScheduleExportReadonly (Some c) h = Inr s" "schedule_ok s" "open_chunks (sc_data s) = avail h"
proof -
  from CheckScheduleCache_ok [OF assms(1)] obtain bw
    where bw: "CheckScheduleCache (Some c) = Inr (c, CreateAlwaysSchedule bw)" by blast
  show ?thesis
  proof (cases h)
    case None
    show ?thesis
      by (rule that [of "CreateAlwaysSchedule bw"])
        (simp_all add: None bw ToplScheduleExportReadonly_def schedule_ok_always open_chunks_always)
  next
    case (Some e)
    with assms have "entry_ok e" by (blast intro: in_cache_entry)
    then show ?thesis
      by (intro that [of "the (ts_s e)"])
        (simp_all add: Some bw ToplScheduleExportReadonly_def CheckSchedule_ok entry_schedule_ok)
  qed
qed

lemma Create_spec:
  obtains c where "ToplScheduleCacheCreate T bw = Inr c" "cok c" "elems (tc_table c) = []"
proof -
  let ?c = "\<lparr>tc_magicStart = SCHED_MAGIC_START, tc_table = RtlInitializeGenericTable T,
      tc_numEntries = 0, tc_deletionPhase = False, tc_pAlwaysSchedule = Some (CreateAlwaysSchedule bw),
      tc_magicEnd = SCHED_MAGIC_END\<rparr>"
  have "cok ?c"
    by (auto simp: cache_ok_def ok_init elems_init)
  moreover from CheckScheduleCache_ok [OF this] have "ToplScheduleCacheCreate T bw = Inr ?c"
    by (auto simp: ToplScheduleCacheCreate_def Let_def)
  ultimately show ?thesis
    using that elems_init by simp
qed

lemma destroy_loop_spec:
  assumes "ok t" and "\<forall>e\<in>set (elems t). entry_ok e" and "length (elems t) < fuel"
  obtains t' where "destroy_loop T fuel t = Some (Inr t')" "ok t'" "elems t' = []"
  using assms
proof (induction fuel arbitrary: t thesis)
  case (Suc fuel)
  show ?case
  proof (cases "elems t")
    case Nil
    with Suc.prems show ?thesis
      by (intro Suc.prems(1) [of t]) (auto simp: is_empty)
  next
    case (Cons e es)
    from first_some [OF Suc.prems(2) Cons] obtain t1 where
      t1: "RtlFirstElement T t = (t1, Some e)" "ok t1" "elems t1 = e # es"
      using Cons by auto
    let ?t2 = "RtlDeleteElementGenericTable T TableCompare t1 (e\<lparr>ts_magicStart := 0, ts_magicEnd := 0\<rparr>)"
    have "ok ?t2 \<and> elems ?t2 = es"
      by (rule delete_first [OF t1(2,3)]) (simp add: TableCompare_equal)
    moreover have "entry_ok e"
      using Suc.prems(3) Cons by simp
    then have "destroy_loop T (Suc fuel) t = destroy_loop T fuel ?t2"
      using Suc.prems(2) Cons by (simp add: is_empty t1(1) CheckSchedule_ok)
    moreover obtain t' where "destroy_loop T fuel ?t2 = Some (Inr t')" "ok t'" "elems t' = []"
      using calculation(1) Suc.prems(3,4) Cons by (elim conjE) (rule Suc.IH [of ?t2], auto)
    ultimately show ?thesis
      using Suc.prems(1) by simp
  qed
qed simp

end

text \<open>The interface is met by a table kept as a sorted list.\<close>

interpretation list_cache: schedule_cache list_table "sorted_wrt (rtl_less TableCompare)" "\<lambda>t. t"
  by (intro schedule_cache.intro list_table_generic sched_compare.rtl_compare_axioms)

section \<open>Properties\<close>

text \<open>C17. Importing two well-formed schedules into a valid cache succeeds and gives the same handle
  exactly when the schedules open the same quarters of an hour, whatever their reserved bits and
  bandwidth; \<^verbatim>\<open>ToplScheduleIsEqual\<close> then reports that, and the cache stays valid.\<close>

theorem ToplScheduleImport_canonical:
  assumes "schedule_cache T ok elems" and "cache_ok ok elems c" and "schedule_ok s1" and "schedule_ok s2"
  shows "\<exists>c1 h1 c2 h2.
    ToplScheduleImport T (Some c) (Some s1) = Inr (c1, h1) \<and>
    ToplScheduleImport T (Some c1) (Some s2) = Inr (c2, h2) \<and>
    cache_ok ok elems c1 \<and> cache_ok ok elems c2 \<and>
    (h1 = h2 \<longleftrightarrow> open_chunks (sc_data s1) = open_chunks (sc_data s2)) \<and>
    ToplScheduleIsEqual (Some c2) h1 h2 = Inr (open_chunks (sc_data s1) = open_chunks (sc_data s2))"
proof -
  note sc = schedule_cache.Import_spec [OF assms(1)]
  obtain c1 h1 where 1: "ToplScheduleImport T (Some c) (Some s1) = Inr (c1, h1)" "cache_ok ok elems c1"
      "in_cache elems c1 h1" "avail h1 = open_chunks (sc_data s1)"
    using sc [OF assms(2,3)] by metis
  obtain c2 h2 where 2: "ToplScheduleImport T (Some c1) (Some s2) = Inr (c2, h2)" "cache_ok ok elems c2"
      "in_cache elems c2 h2" "avail h2 = open_chunks (sc_data s2)" "in_cache elems c2 h1"
    using sc [OF 1(2) assms(4)] 1(3) by metis
  show ?thesis
    using 1 2 schedule_cache.handle_eq_iff [OF assms(1) 2(2,5,3)]
      schedule_cache.IsEqual_spec [OF assms(1) 2(2,5,3)] by auto
qed

text \<open>C18. Merging two handles of a valid cache gives a handle, in the same and still valid cache, that is
  open exactly in the chunks both are open in, with the duration of that intersection. The flag
  \<^verbatim>\<open>fIsNever\<close> says that the intersection is empty, but only when neither handle is the `always'
  schedule.\<close>

theorem ToplScheduleMerge_intersection:
  assumes "schedule_cache T ok elems" and "cache_ok ok elems c"
    and "in_cache elems c h1" and "in_cache elems c h2"
  shows "\<exists>c' h. ToplScheduleMerge T (Some c) h1 h2 True =
      Inr (c', h, h1 \<noteq> None \<and> h2 \<noteq> None \<and> avail h1 \<inter> avail h2 = {}) \<and>
    cache_ok ok elems c' \<and> in_cache elems c' h \<and> (\<forall>h'. in_cache elems c h' \<longrightarrow> in_cache elems c' h') \<and>
    avail h = avail h1 \<inter> avail h2 \<and>
    ToplScheduleDuration h = Inr (15 * card (avail h1 \<inter> avail h2))"
proof -
  obtain c' h where "ToplScheduleMerge T (Some c) h1 h2 True =
      Inr (c', h, h1 \<noteq> None \<and> h2 \<noteq> None \<and> avail h1 \<inter> avail h2 = {})"
      "cache_ok ok elems c'" "in_cache elems c' h" "avail h = avail h1 \<inter> avail h2"
      "\<And>h'. in_cache elems c h' \<Longrightarrow> in_cache elems c' h'"
    using schedule_cache.Merge_spec [OF assms] by metis
  with ToplScheduleDuration_avail [of ok elems c' h] show ?thesis
    by auto
qed

text \<open>Exporting a handle and importing the exported schedule again returns the handle and adds
  nothing to the cache.\<close>

theorem ToplSchedule_export_import:
  assumes "schedule_cache T ok elems" and "cache_ok ok elems c" and "in_cache elems c h"
  shows "\<exists>s c'. ToplScheduleExportReadonly (Some c) h = Inr s \<and>
    ToplScheduleImport T (Some c) (Some s) = Inr (c', h) \<and>
    ToplScheduleNumEntries (Some c') = ToplScheduleNumEntries (Some c)"
proof -
  obtain s where s: "ToplScheduleExportReadonly (Some c) h = Inr s" "schedule_ok s"
      "open_chunks (sc_data s) = avail h"
    using schedule_cache.Export_spec [OF assms] by metis
  obtain c' where "ToplScheduleImport T (Some c) (Some s) = Inr (c', h)" "tc_numEntries c' = tc_numEntries c"
      "cache_ok ok elems c'"
    using schedule_cache.Import_again [OF assms(1-3) s(2,3)] by metis
  then show ?thesis
    using s(1) CheckScheduleCache_ok [OF assms(2)] CheckScheduleCache_ok [of ok elems c']
    by (auto simp: ToplScheduleNumEntries_def)
qed

text \<open>C37. Destroying a valid cache of \<open>n\<close> entries ends after \<open>n\<close> rounds, raises nothing, empties the
  table and clears the cache, so that a later use of it is refused with \<^verbatim>\<open>TOPL_EX_CACHE_ERROR\<close>.\<close>

theorem ToplScheduleCacheDestroy_total:
  assumes "schedule_cache T ok elems" and "cache_ok ok elems c" and "length (elems (tc_table c)) < fuel"
  shows "\<exists>c'. ToplScheduleCacheDestroy T fuel (Some c) = Some (Inr c') \<and> elems (tc_table c') = [] \<and>
    tc_pAlwaysSchedule c' = None \<and> CheckScheduleCache (Some c') = Inl TOPL_EX_CACHE_ERROR"
proof -
  from CheckScheduleCache_ok [OF assms(2)] obtain bw
    where "CheckScheduleCache (Some c) = Inr (c, CreateAlwaysSchedule bw)" by blast
  moreover have "ok (tc_table c)" "\<forall>e\<in>set (elems (tc_table c)). entry_ok e"
    using assms(2) by (auto simp: cache_ok_def)
  then obtain t' where "destroy_loop T fuel (tc_table c) = Some (Inr t')" "elems t' = []"
    using schedule_cache.destroy_loop_spec [OF assms(1) _ _ assms(3)] by metis
  ultimately show ?thesis
    by (auto simp: ToplScheduleCacheDestroy_def CheckScheduleCache_def SCHED_MAGIC_START_def)
qed

text \<open>The states of a cache, with the handles given out so far.\<close>

inductive cache_reach ::
  "(ToplSched, 't) rtl_table_ops \<Rightarrow> dword \<Rightarrow> 't ToplSchedCache \<Rightarrow> TOPL_SCHEDULE set \<Rightarrow> bool" for T bw where
  created: "ToplScheduleCacheCreate T bw = Inr c \<Longrightarrow> cache_reach T bw c {None}"
| imported: "cache_reach T bw c H \<Longrightarrow> schedule_ok s \<Longrightarrow>
    ToplScheduleImport T (Some c) (Some s) = Inr (c', h) \<Longrightarrow> cache_reach T bw c' (insert h H)"
| merged: "cache_reach T bw c H \<Longrightarrow> h1 \<in> H \<Longrightarrow> h2 \<in> H \<Longrightarrow>
    ToplScheduleMerge T (Some c) h1 h2 True = Inr (c', h, never) \<Longrightarrow> cache_reach T bw c' (insert h H)"

lemma cache_reach_ok:
  assumes "schedule_cache T ok elems" and "cache_reach T bw c H"
  shows "cache_ok ok elems c \<and> (\<forall>h\<in>H. in_cache elems c h)"
  using assms(2)
proof induction
  case (created c)
  then show ?case
    by (metis Inr_inject in_cache_None schedule_cache.Create_spec [OF assms(1)] singletonD)
next
  case (imported c H s c' h)
  show ?case
    by (rule schedule_cache.Import_spec [OF assms(1), of c s]) (use imported in auto)
next
  case (merged c H h1 h2 c' h never)
  show ?case
    by (rule schedule_cache.Merge_spec [OF assms(1), of c h1 h2]) (use merged in auto)
qed

text \<open>C36. Whatever sequence of imports of well-formed schedules and merges of handed-out handles
  follows the creation of a cache, the cache is valid, every handed-out handle is still in it, no two
  of them that differ open the same chunks, the next import or merge succeeds, and
  \<^verbatim>\<open>ToplScheduleNumEntries\<close> is the number of its entries modulo \<open>2 ^ 32\<close>.\<close>

theorem schedule_cache_reachable:
  assumes "schedule_cache T ok elems" and "cache_reach T bw c H"
  shows "cache_ok ok elems c \<and>
    (\<forall>h1\<in>H. \<forall>h2\<in>H. avail h1 = avail h2 \<longrightarrow> h1 = h2) \<and>
    ToplScheduleNumEntries (Some c) = Inr (of_nat (length (elems (tc_table c)))) \<and>
    (\<forall>s. schedule_ok s \<longrightarrow> (\<exists>r. ToplScheduleImport T (Some c) (Some s) = Inr r)) \<and>
    (\<forall>h1\<in>H. \<forall>h2\<in>H. \<exists>r. ToplScheduleMerge T (Some c) h1 h2 True = Inr r)"
proof -
  note ok = cache_reach_ok [OF assms]
  have "ToplScheduleNumEntries (Some c) = Inr (of_nat (length (elems (tc_table c))))"
    using CheckScheduleCache_ok [of ok elems c] ok by (auto simp: ToplScheduleNumEntries_def cache_ok_def)
  moreover have "\<exists>r. ToplScheduleImport T (Some c) (Some s) = Inr r" if "schedule_ok s" for s
    using schedule_cache.Import_spec [OF assms(1) _ that] ok by metis
  moreover have "\<exists>r. ToplScheduleMerge T (Some c) h1 h2 True = Inr r" if "h1 \<in> H" "h2 \<in> H" for h1 h2
    using schedule_cache.Merge_spec [OF assms(1), of c h1 h2] ok that by metis
  moreover have "h1 = h2" if "h1 \<in> H" "h2 \<in> H" "avail h1 = avail h2" for h1 h2
    using schedule_cache.handle_eq_iff [OF assms(1), of c h1 h2] ok that by blast
  ultimately show ?thesis
    using ok by blast
qed

text \<open>\<^verbatim>\<open>ToplScheduleMerge\<close> documents \<^verbatim>\<open>fIsNever\<close> as set when the schedules do not intersect. Merging
  the `always' schedule with a schedule that is never open leaves it false.\<close>

theorem ToplScheduleMerge_misses_never:
  assumes "schedule_cache T ok elems" and "cache_ok ok elems c" and "in_cache elems c (Some e)"
    and "avail (Some e) = {}"
  shows "ToplScheduleMerge T (Some c) TOPL_ALWAYS_SCHEDULE (Some e) True = Inr (c, Some e, False) \<and>
    avail TOPL_ALWAYS_SCHEDULE \<inter> avail (Some e) = {}"
proof -
  from CheckScheduleCache_ok [OF assms(2)] obtain bw
    where "CheckScheduleCache (Some c) = Inr (c, CreateAlwaysSchedule bw)" by blast
  with check_optional_ok [OF assms(2)] assms(3,4) show ?thesis
    by (auto simp: ToplScheduleMerge_def split: option.split)
qed

text \<open>The error paths of the schedule manager, in the order the code tests them: no cache, a cache
  with wrong magic numbers, a malformed schedule, a missing \<^verbatim>\<open>fIsNever\<close> pointer.\<close>

theorem schedule_manager_errors:
  "ToplScheduleImport T None ps = Inl TOPL_EX_NULL_POINTER \<and>
   ToplScheduleNumEntries (None :: 't ToplSchedCache option) = Inl TOPL_EX_NULL_POINTER \<and>
   (tc_magicStart c \<noteq> SCHED_MAGIC_START \<longrightarrow>
      ToplScheduleImport T (Some c) ps = Inl TOPL_EX_CACHE_ERROR \<and>
      ToplScheduleMerge T (Some c) h1 h2 p = Inl TOPL_EX_CACHE_ERROR) \<and>
   (cache_ok ok elems c \<longrightarrow> CheckPSchedule (Some s) \<noteq> Inr s \<longrightarrow>
      ToplScheduleImport T (Some c) (Some s) = Inl TOPL_EX_SCHEDULE_ERROR) \<and>
   (cache_ok ok elems c \<longrightarrow> in_cache elems c h1 \<longrightarrow> in_cache elems c h2 \<longrightarrow>
      ToplScheduleMerge T (Some c) h1 h2 False = Inl TOPL_EX_NULL_POINTER)"
proof (intro conjI impI)
  assume "cache_ok ok elems c" and s: "CheckPSchedule (Some s) \<noteq> Inr s"
  from CheckScheduleCache_ok [OF this(1)] obtain bw
    where "CheckScheduleCache (Some c) = Inr (c, CreateAlwaysSchedule bw)" by blast
  moreover have "CheckPSchedule (Some s) = Inl TOPL_EX_SCHEDULE_ERROR"
    using s by (simp add: CheckPSchedule_def split: if_splits)
  ultimately show "ToplScheduleImport T (Some c) (Some s) = Inl TOPL_EX_SCHEDULE_ERROR"
    by (simp add: ToplScheduleImport_def)
next
  assume c: "cache_ok ok elems c" "in_cache elems c h1" "in_cache elems c h2"
  from CheckScheduleCache_ok [OF this(1)] obtain bw
    where "CheckScheduleCache (Some c) = Inr (c, CreateAlwaysSchedule bw)" by blast
  then show "ToplScheduleMerge T (Some c) h1 h2 False = Inl TOPL_EX_NULL_POINTER"
    by (simp add: ToplScheduleMerge_def check_optional_ok [OF c(1)] c(2,3))
qed (auto simp: ToplScheduleImport_def ToplScheduleNumEntries_def ToplScheduleMerge_def CheckScheduleCache_def)

section \<open>Concrete instances\<close>

text \<open>A schedule with the same byte in every hour, and the fresh cache over a sorted list.\<close>

definition week_of :: "byte \<Rightarrow> SCHEDULE" where
  "week_of b = (CreateAlwaysSchedule 0)\<lparr>sc_data := replicate SCHEDULE_DATA_ENTRIES b\<rparr>"

definition list_cache_init :: "ToplSched list ToplSchedCache" where
  "list_cache_init =
     \<lparr>tc_magicStart = SCHED_MAGIC_START, tc_table = [], tc_numEntries = 0, tc_deletionPhase = False,
      tc_pAlwaysSchedule = Some (CreateAlwaysSchedule 0), tc_magicEnd = SCHED_MAGIC_END\<rparr>"

definition list_cache_one :: "ToplSched \<Rightarrow> ToplSched list ToplSchedCache" where
  "list_cache_one e = list_cache_init\<lparr>tc_table := [e], tc_numEntries := 1\<rparr>"

lemma schedule_ok_week: "schedule_ok (week_of b)"
  by (simp add: schedule_ok_def week_of_def CheckPSchedule_def CreateAlwaysSchedule_def)

lemma open_chunks_week: "open_chunks (sc_data (week_of b)) = {c. c < 672 \<and> bit b (c mod 4)}"
  by (auto simp: in_open_chunks week_of_def SCHEDULE_DATA_ENTRIES_def)

lemma week_never: "open_chunks (sc_data (week_of 0)) = {}"
  by (simp add: open_chunks_week)

lemma list_cache_init_ok: "cache_ok (sorted_wrt (rtl_less TableCompare)) (\<lambda>t. t) list_cache_init"
  by (auto simp: cache_ok_def list_cache_init_def)

lemma list_cache_one_ok:
  assumes "CalculateDuration (week_of b) \<noteq> TOPL_ALWAYS_DURATION"
  shows "cache_ok (sorted_wrt (rtl_less TableCompare)) (\<lambda>t. t) (list_cache_one (search_key (week_of b)))"
    and "in_cache (\<lambda>t. t) (list_cache_one (search_key (week_of b))) (Some (search_key (week_of b)))"
  using assms
  by (auto simp: cache_ok_def list_cache_init_def list_cache_one_def in_cache_def entry_ok_def search_key_def schedule_ok_week)

lemma never_not_always: "CalculateDuration (week_of 0) \<noteq> TOPL_ALWAYS_DURATION"
  by (simp add: CalculateDuration_card week_never TOPL_ALWAYS_DURATION_def SCHED_NUMBER_INTERVALS_WEEK_def)

lemma list_cache_init_created: "ToplScheduleCacheCreate list_table 0 = Inr list_cache_init"
  by (simp add: ToplScheduleCacheCreate_def list_cache_init_def list_table_def CheckScheduleCache_def Let_def)

lemmas list_cache_axioms = list_cache.schedule_cache_axioms

theorem ToplScheduleImport_canonical_witness:
  "\<exists>c1 h1 c2 h2.
    ToplScheduleImport list_table (Some list_cache_init) (Some (week_of 0)) = Inr (c1, h1) \<and>
    ToplScheduleImport list_table (Some c1) (Some (week_of 0xF0)) = Inr (c2, h2) \<and> h1 = h2"
proof -
  have "bit (0xF0 :: byte) j \<longleftrightarrow> False" if "j < 4" for j
    using that bit_push_bit_iff [of 4 "15 :: byte" j] by (simp add: push_bit_eq_mult)
  then have "open_chunks (sc_data (week_of 0xF0)) = open_chunks (sc_data (week_of 0))"
    unfolding week_never by (auto simp: open_chunks_week)
  then show ?thesis
    using ToplScheduleImport_canonical [OF list_cache_axioms list_cache_init_ok
        schedule_ok_week [of 0] schedule_ok_week [of "0xF0"]]
    by metis
qed

theorem ToplScheduleMerge_intersection_witness:
  "\<exists>c' h. ToplScheduleMerge list_table (Some (list_cache_one (search_key (week_of 0))))
      (Some (search_key (week_of 0))) None True = Inr (c', h, False) \<and> avail h = {}"
  using ToplScheduleMerge_intersection [OF list_cache_axioms list_cache_one_ok [OF never_not_always] in_cache_None]
  by (auto simp: search_key_def week_never)

theorem ToplSchedule_export_import_witness:
  "\<exists>s c'. ToplScheduleExportReadonly (Some list_cache_init) None = Inr s \<and>
     ToplScheduleImport list_table (Some list_cache_init) (Some s) = Inr (c', None)"
  using ToplSchedule_export_import [OF list_cache_axioms list_cache_init_ok in_cache_None] by blast

theorem ToplScheduleCacheDestroy_total_witness:
  "\<exists>c'. ToplScheduleCacheDestroy list_table 2 (Some (list_cache_one (search_key (week_of 0)))) = Some (Inr c') \<and>
     CheckScheduleCache (Some c') = Inl TOPL_EX_CACHE_ERROR"
  using ToplScheduleCacheDestroy_total [where fuel = 2, OF list_cache_axioms list_cache_one_ok(1) [OF never_not_always]]
  by (auto simp: list_cache_one_def)

theorem schedule_cache_reachable_witness:
  "\<exists>c h. ToplScheduleImport list_table (Some list_cache_init) (Some (week_of 3)) = Inr (c, h) \<and> cache_reach list_table 0 c {h, None} \<and>
     cache_ok (sorted_wrt (rtl_less TableCompare)) (\<lambda>t. t) c \<and> ToplScheduleNumEntries (Some c) = Inr (of_nat (length (tc_table c))) \<and>
     (\<exists>r. ToplScheduleMerge list_table (Some c) h None True = Inr r)"
proof -
  note init = cache_reach.created [OF list_cache_init_created]
  from schedule_cache_reachable [OF list_cache_axioms init] obtain c h
    where imp: "ToplScheduleImport list_table (Some list_cache_init) (Some (week_of 3)) = Inr (c, h)"
    using schedule_ok_week by (metis old.prod.exhaust)
  note one = cache_reach.imported [OF init schedule_ok_week imp]
  from schedule_cache_reachable [OF list_cache_axioms one] imp one show ?thesis
    by blast
qed

theorem ToplScheduleMerge_misses_never_witness:
  "ToplScheduleMerge list_table (Some (list_cache_one (search_key (week_of 0)))) None
     (Some (search_key (week_of 0))) True =
   Inr (list_cache_one (search_key (week_of 0)), Some (search_key (week_of 0)), False)"
  using ToplScheduleMerge_misses_never [OF list_cache_axioms list_cache_one_ok [OF never_not_always]]
  by (simp add: search_key_def week_never)

theorem schedule_manager_errors_witness:
  "ToplScheduleImport list_table (Some list_cache_init) (Some ((week_of 0)\<lparr>sc_Type := 1\<rparr>)) =
     Inl TOPL_EX_SCHEDULE_ERROR"
proof -
  have "CheckPSchedule (Some ((week_of 0)\<lparr>sc_Type := 1\<rparr>)) \<noteq> Inr ((week_of 0)\<lparr>sc_Type := 1\<rparr>)"
    by (simp add: CheckPSchedule_def SCHEDULE_INTERVAL_def)
  then show ?thesis
    using schedule_manager_errors [where T = list_table and c = list_cache_init
        and ok = "sorted_wrt (rtl_less TableCompare)" and elems = "\<lambda>t. t"
        and s = "(week_of 0)\<lparr>sc_Type := 1\<rparr>"] list_cache_init_ok by blast
qed

end
