(* ===== verification/Topl_ReplSchedule.thy ===== *)
theory Topl_ReplSchedule
  imports Topl_Schedule
begin

text \<open>
  The second half of the schedule manager, \<^verbatim>\<open>ds/src/common/w32topl/schedman.c\<close>: turning an
  availability schedule into a replication schedule (\<^verbatim>\<open>ConvertAvailSchedToReplSched\<close>,
  \<^verbatim>\<open>ToplScheduleCreate\<close>), the older algorithm the checked build compares it with
  (\<^verbatim>\<open>CreateDefaultSchedule\<close>, \<^verbatim>\<open>OldScheduleCreate\<close>), and the longest period without replication
  (\<^verbatim>\<open>ToplScheduleMaxUnavailable\<close>). The lemmas describe the conversion by segmentations: the
  availability is cut greedily into segments, and each segment contributes one chunk.
\<close>

section \<open>Operations\<close>

text \<open>The inner loops of \<^verbatim>\<open>ConvertAvailSchedToReplSched\<close>.\<close>

function seek_open :: "byte list \<Rightarrow> nat \<Rightarrow> nat" where
  "seek_open pbAvail segStart =
     (if segStart < SCHED_NUMBER_INTERVALS_WEEK \<and> \<not> chunk_open pbAvail segStart
      then seek_open pbAvail (Suc segStart) else segStart)"
  by pat_completeness auto
termination
  by (relation "measure (\<lambda>(pb, i). SCHED_NUMBER_INTERVALS_WEEK - i)") auto

declare seek_open.simps [simp del]

definition count_open :: "byte list \<Rightarrow> nat list \<Rightarrow> nat" where
  "count_open pbAvail chunks =
     foldl (\<lambda>n iChunk. if chunk_open pbAvail iChunk then n + 1 else n) 0 chunks"

fun set_nth_open :: "byte list \<Rightarrow> byte list \<Rightarrow> nat list \<Rightarrow> nat \<Rightarrow> nat \<Rightarrow> byte list" where
  "set_nth_open pbAvail pbRepl [] iAvailChunk replChunk = pbRepl"
| "set_nth_open pbAvail pbRepl (iChunk # chunks) iAvailChunk replChunk =
     (if chunk_open pbAvail iChunk
      then if iAvailChunk = replChunk then SetBit pbRepl iChunk
           else set_nth_open pbAvail pbRepl chunks (iAvailChunk + 1) replChunk
      else set_nth_open pbAvail pbRepl chunks iAvailChunk replChunk)"

lemma seek_open_ge: "segStart \<le> seek_open pb segStart"
  by (induction pb segStart rule: seek_open.induct) (subst seek_open.simps, auto)

text \<open>
  A segment length of 0 never leaves the loop; the caller excludes it, and the model stops there.
\<close>

function convert_loop :: "byte list \<Rightarrow> byte list \<Rightarrow> nat \<Rightarrow> nat \<Rightarrow> nat \<Rightarrow> byte list" where
  "convert_loop pbAvail pbRepl maxSegLength StaggeringNumber segStart =
     (let segStart = seek_open pbAvail segStart
      in if segStart \<ge> SCHED_NUMBER_INTERVALS_WEEK \<or> maxSegLength = 0 then pbRepl
         else let segEnd = min (segStart + maxSegLength) SCHED_NUMBER_INTERVALS_WEEK;
                  chunks = [segStart ..< segEnd];
                  numAvailChunks = count_open pbAvail chunks;
                  replChunk = StaggeringNumber mod numAvailChunks
              in convert_loop pbAvail (set_nth_open pbAvail pbRepl chunks 0 replChunk)
                   maxSegLength StaggeringNumber (segStart + maxSegLength))"
  by pat_completeness auto
termination
proof (relation "measure (\<lambda>(pb, pr, m, st, i). SCHED_NUMBER_INTERVALS_WEEK - i)", goal_cases)
  case (2 pbAvail pbRepl m st segStart x)
  then show ?case
    using seek_open_ge [of segStart pbAvail] by auto
qed simp

declare convert_loop.simps [simp del]

definition ConvertAvailSchedToReplSched :: "byte list \<Rightarrow> byte list \<Rightarrow> nat \<Rightarrow> nat \<Rightarrow> byte list" where
  "ConvertAvailSchedToReplSched pbAvail pbRepl maxSegLength StaggeringNumber =
     convert_loop pbAvail pbRepl maxSegLength StaggeringNumber 0"

definition clear_low_nibbles :: "byte list \<Rightarrow> byte list" where
  "clear_low_nibbles pb = map (\<lambda>hour. pb ! hour AND 0xF0) [0 ..< SCHEDULE_DATA_ENTRIES]"

text \<open>\<^verbatim>\<open>(IntervalInMinutes + 14) / 15\<close> is computed in 32 bits and wraps.\<close>

definition chunks_to_skip :: "dword \<Rightarrow> dword" where
  "chunks_to_skip IntervalInMinutes = (IntervalInMinutes + 14) div 15"

definition ToplScheduleCreate ::
  "(ToplSched, 't) rtl_table_ops \<Rightarrow> 't ToplSchedCache option \<Rightarrow> dword \<Rightarrow> TOPL_SCHEDULE \<Rightarrow> dword \<Rightarrow>
   ('t ToplSchedCache \<times> TOPL_SCHEDULE) topl" where
  "ToplScheduleCreate T ScheduleCache IntervalInMinutes TemplateSchedule StaggeringNumber =
     bindE (CheckScheduleCache ScheduleCache) (\<lambda>(c, always).
       let n = (if IntervalInMinutes = 0 then DEFAULT_INTERVAL else chunks_to_skip IntervalInMinutes)
       in if n \<le> 1 then Inr (c, TemplateSchedule)
          else bindE (case TemplateSchedule of
                        None \<Rightarrow> Inr always
                      | Some sch \<Rightarrow> bindE (CheckSchedule sch) (\<lambda>(_, s). Inr s)) (\<lambda>temp.
            let pbNew = ConvertAvailSchedToReplSched (sc_data temp) (clear_low_nibbles (sc_data temp))
                          (unat n) (unat StaggeringNumber)
            in ToplScheduleImport T (Some c) (Some (temp\<lparr>sc_data := pbNew\<rparr>))))"

text \<open>The checked build's older algorithm, which \<^verbatim>\<open>ToplScheduleCreate\<close> compares itself with.\<close>

function default_loop :: "byte list \<Rightarrow> nat \<Rightarrow> nat \<Rightarrow> byte list" where
  "default_loop pb skip i =
     (if i < SCHED_NUMBER_INTERVALS_WEEK \<and> skip \<noteq> 0
      then default_loop (pb[i div 4 := pb ! (i div 4) OR push_bit (i mod 4) 1]) skip (i + skip)
      else pb)"
  by pat_completeness auto
termination
  by (relation "measure (\<lambda>(pb, k, i). SCHED_NUMBER_INTERVALS_WEEK - i)") auto

declare default_loop.simps [simp del]

definition CreateDefaultSchedule ::
  "(ToplSched, 't) rtl_table_ops \<Rightarrow> 't ToplSchedCache option \<Rightarrow> dword \<Rightarrow>
   ('t ToplSchedCache \<times> TOPL_SCHEDULE) topl" where
  "CreateDefaultSchedule T ScheduleCache IntervalInMinutes =
     (let n = chunks_to_skip IntervalInMinutes;
          n = (if n = 0 then DEFAULT_INTERVAL else n);
          schedule = \<lparr>sc_Size = sizeof_SCHEDULE + of_nat SCHEDULE_DATA_ENTRIES, sc_Bandwidth = 0,
                      sc_NumberOfSchedules = 1, sc_Type = SCHEDULE_INTERVAL, sc_Offset = sizeof_SCHEDULE,
                      sc_data = default_loop (replicate SCHEDULE_DATA_ENTRIES 0) (unat n) STARTING_INTERVAL\<rparr>
      in ToplScheduleImport T ScheduleCache (Some schedule))"

function old_loop :: "byte list \<Rightarrow> byte list \<Rightarrow> nat \<Rightarrow> nat \<Rightarrow> byte list" where
  "old_loop pbOld pbNew skip i =
     (if i < SCHED_NUMBER_INTERVALS_WEEK \<and> skip \<noteq> 0
      then if pbOld ! (i div 4) AND push_bit (i mod 4) 1 \<noteq> 0
           then old_loop pbOld (pbNew[i div 4 := pbNew ! (i div 4) OR push_bit (i mod 4) 1]) skip (i + skip)
           else old_loop pbOld pbNew skip (Suc i)
      else pbNew)"
  by pat_completeness auto
termination
  by (relation "measure (\<lambda>(po, pn, k, i). SCHED_NUMBER_INTERVALS_WEEK - i)") auto

declare old_loop.simps [simp del]

definition OldScheduleCreate ::
  "(ToplSched, 't) rtl_table_ops \<Rightarrow> 't ToplSchedCache option \<Rightarrow> dword \<Rightarrow> TOPL_SCHEDULE \<Rightarrow>
   ('t ToplSchedCache option \<times> TOPL_SCHEDULE) topl" where
  "OldScheduleCreate T ScheduleCache IntervalInMinutes TemplateSchedule =
     (case TemplateSchedule of
        None \<Rightarrow> bindE (CreateDefaultSchedule T ScheduleCache IntervalInMinutes) (\<lambda>(c, r). Inr (Some c, r))
      | Some sch \<Rightarrow>
          bindE (CheckSchedule sch) (\<lambda>(_, temp).
            let n = chunks_to_skip IntervalInMinutes;
                n = (if n = 0 then DEFAULT_INTERVAL else n)
            in if n \<le> 1 then Inr (ScheduleCache, TemplateSchedule)
               else bindE (ToplScheduleImport T ScheduleCache
                      (Some (temp\<lparr>sc_data :=
                         old_loop (sc_data temp) (clear_low_nibbles (sc_data temp)) (unat n) 0\<rparr>)))
                    (\<lambda>(c, r). Inr (Some c, r))))"


text \<open>
  The longest unavailable period. The walk over the week is a do-while loop; the checked build
  asserts that it makes fewer than \<open>3 * cBits\<close> rounds, which is the fuel of the model. A read
  behind the 168 data bytes is \<open>ReadPastEnd\<close>.
\<close>

datatype unavail_result = MaxLen nat | ReadPastEnd | StillRunning

fun unavail_loop :: "byte list \<Rightarrow> nat \<Rightarrow> nat \<Rightarrow> nat \<Rightarrow> bool \<Rightarrow> nat \<Rightarrow> nat \<Rightarrow> unavail_result" where
  "unavail_loop pb 0 endBit iBit inRun runStart maxLen = StillRunning"
| "unavail_loop pb (Suc fuel) endBit iBit inRun runStart maxLen =
     (case GetBit pb iBit of
        None \<Rightarrow> ReadPastEnd
      | Some bt \<Rightarrow>
          let cBits = SCHED_NUMBER_INTERVALS_WEEK;
              (inRun', runStart', maxLen') =
                (if inRun \<and> bt then
                   let runLen = (iBit + cBits - runStart) mod cBits
                   in (False, runStart, if runLen > maxLen then runLen else maxLen)
                 else if \<not> inRun \<and> \<not> bt then (True, iBit, maxLen)
                 else (inRun, runStart, maxLen))
          in if iBit = endBit then MaxLen maxLen'
             else unavail_loop pb fuel endBit ((iBit + 1) mod cBits) inRun' runStart' maxLen')"

definition max_unavailable :: "byte list \<Rightarrow> unavail_result" where
  "max_unavailable pb =
     (let iBit = seek_open pb 0
      in if iBit = SCHED_NUMBER_INTERVALS_WEEK then MaxLen TOPL_ALWAYS_DURATION
         else case unavail_loop pb (3 * SCHED_NUMBER_INTERVALS_WEEK) iBit (iBit + 1) False 0 0 of
                MaxLen maxLen \<Rightarrow> MaxLen (15 * maxLen)
              | r \<Rightarrow> r)"

definition ToplScheduleMaxUnavailable :: "TOPL_SCHEDULE \<Rightarrow> unavail_result topl" where
  "ToplScheduleMaxUnavailable Schedule =
     (case Schedule of
        None \<Rightarrow> Inr (MaxLen 0)
      | Some sch \<Rightarrow> bindE (CheckSchedule sch) (\<lambda>(_, s). Inr (max_unavailable (sc_data s))))"

section \<open>Segments\<close>

text \<open>A segmentation of an availability with segments of \<open>m\<close> chunks, given by the segment starts.\<close>

definition segmentation :: "nat \<Rightarrow> nat set \<Rightarrow> nat list \<Rightarrow> bool" where
  "segmentation m A ss \<longleftrightarrow>
     sorted_wrt (\<lambda>s s'. s + m \<le> s') ss \<and> set ss \<subseteq> A \<and> A \<subseteq> (\<Union>s\<in>set ss. {s..<s + m})"

lemma segmentation_Cons:
  assumes "segmentation m A (s # ss)"
  shows "s \<in> A" "\<forall>a\<in>A. s \<le> a" "segmentation m {a\<in>A. s + m \<le> a} ss"
proof -
  have later: "s + m \<le> s'" if "s' \<in> set ss" for s'
    using assms that by (auto simp: segmentation_def)
  have cover: "\<exists>s'\<in>set (s # ss). s' \<le> a \<and> a < s' + m" if "a \<in> A" for a
    using assms that unfolding segmentation_def by (auto simp: subset_iff)
  show "s \<in> A"
    using assms by (simp add: segmentation_def)
  show "\<forall>a\<in>A. s \<le> a"
    using later cover by fastforce
  have "{a\<in>A. s + m \<le> a} \<subseteq> (\<Union>s\<in>set ss. {s..<s + m})"
    using cover by fastforce
  then show "segmentation m {a\<in>A. s + m \<le> a} ss"
    using assms later by (auto simp: segmentation_def)
qed

lemma segmentation_unique:
  assumes "segmentation m A ss" and "segmentation m A ss'"
  shows "ss = ss'"
  using assms
proof (induction ss arbitrary: ss' A)
  case Nil
  then show ?case
    by (cases ss') (auto simp: segmentation_def)
next
  case (Cons s ss)
  obtain s' ts where ss': "ss' = s' # ts"
    using Cons.prems segmentation_Cons(1) [OF Cons.prems(1)] by (cases ss') (auto simp: segmentation_def)
  have "s = s'"
    using segmentation_Cons(1,2) Cons.prems ss' by (metis le_antisym)
  then show ?case
    using Cons.IH segmentation_Cons(3) Cons.prems ss' by blast
qed

lemma segmentation_step:
  assumes "segmentation m {a\<in>A. s + m \<le> a} ss" and "s \<in> A" and "\<forall>a\<in>A. s \<le> a" and "0 < m"
  shows "segmentation m A (s # ss)"
proof -
  have "A \<subseteq> (\<Union>s\<in>set (s # ss). {s..<s + m})"
  proof
    fix a
    assume "a \<in> A"
    with assms(1,3) show "a \<in> (\<Union>s\<in>set (s # ss). {s..<s + m})"
      by (cases "s + m \<le> a") (auto simp: segmentation_def subset_iff)
  qed
  then show ?thesis
    using assms by (auto simp: segmentation_def)
qed

lemma segmentation_empty: "segmentation m {} []"
  by (simp add: segmentation_def)

section \<open>The conversion\<close>

abbreviation (input) from_chunk :: "byte list \<Rightarrow> nat \<Rightarrow> nat set" where
  "from_chunk pb i \<equiv> {a \<in> open_chunks pb. i \<le> a}"

lemma seek_open_spec:
  "(\<forall>c. i \<le> c \<longrightarrow> c < seek_open pb i \<longrightarrow> c < SCHED_NUMBER_INTERVALS_WEEK \<and> \<not> chunk_open pb c) \<and>
   (seek_open pb i < SCHED_NUMBER_INTERVALS_WEEK \<longrightarrow> seek_open pb i \<in> open_chunks pb)"
proof (induction pb i rule: seek_open.induct)
  case (1 pb i)
  show ?case
  proof (cases "i < SCHED_NUMBER_INTERVALS_WEEK \<and> \<not> chunk_open pb i")
    case True
    then have "seek_open pb i = seek_open pb (Suc i)"
      by (subst seek_open.simps) simp
    with 1 True show ?thesis
      by (metis Suc_leI le_eq_less_or_eq)
  next
    case False
    then have "seek_open pb i = i"
      by (subst seek_open.simps) auto
    with False show ?thesis
      by (auto simp: open_chunks_def)
  qed
qed

lemma seek_open_le: "i \<le> SCHED_NUMBER_INTERVALS_WEEK \<Longrightarrow> seek_open pb i \<le> SCHED_NUMBER_INTERVALS_WEEK"
  by (induction pb i rule: seek_open.induct) (subst seek_open.simps, auto)

lemma from_chunk_seek: "from_chunk pb i = from_chunk pb (seek_open pb i)"
  using seek_open_spec [of i pb] seek_open_ge [of i pb] by (auto simp: open_chunks_def)

lemma from_chunk_week: "SCHED_NUMBER_INTERVALS_WEEK \<le> i \<Longrightarrow> from_chunk pb i = {}"
  by (auto simp: open_chunks_def)

lemma count_open_filter: "count_open pb cs = length (filter (chunk_open pb) cs)"
proof -
  have "foldl (\<lambda>n c. if chunk_open pb c then n + 1 else n) k cs = k + length (filter (chunk_open pb) cs)" for k
    by (induction cs arbitrary: k) auto
  then show ?thesis
    by (simp add: count_open_def)
qed

lemma set_nth_open_filter:
  "i \<le> k \<Longrightarrow> k - i < length (filter (chunk_open pb) cs) \<Longrightarrow>
   set_nth_open pb pr cs i k = SetBit pr (filter (chunk_open pb) cs ! (k - i))"
proof (induction cs arbitrary: i)
  case (Cons c cs)
  then show ?case
    by (cases "i = k") (auto simp: Suc_diff_le nth_Cons' le_Suc_eq not_less_eq_eq)
qed simp

text \<open>The chunk a segment contributes.\<close>

definition repl_choice :: "byte list \<Rightarrow> nat \<Rightarrow> nat \<Rightarrow> nat \<Rightarrow> nat" where
  "repl_choice pb m st s =
     (let cs = filter (chunk_open pb) [s ..< min (s + m) SCHED_NUMBER_INTERVALS_WEEK]
      in cs ! (st mod length cs))"

lemma repl_choice_mem:
  assumes "s \<in> open_chunks pb" and "0 < m"
  shows "repl_choice pb m st s \<in> open_chunks pb" "s \<le> repl_choice pb m st s" "repl_choice pb m st s < s + m"
proof -
  let ?cs = "filter (chunk_open pb) [s ..< min (s + m) SCHED_NUMBER_INTERVALS_WEEK]"
  have "s \<in> set ?cs"
    using assms by (auto simp: open_chunks_def)
  then have "st mod length ?cs < length ?cs"
    by (intro mod_less_divisor length_pos_if_in_set)
  then have "repl_choice pb m st s \<in> set ?cs"
    unfolding repl_choice_def Let_def by (rule nth_mem)
  then show "repl_choice pb m st s \<in> open_chunks pb" "s \<le> repl_choice pb m st s" "repl_choice pb m st s < s + m"
    by (auto simp: open_chunks_def)
qed

lemma repl_choice_0:
  assumes "s \<in> open_chunks pb" and "0 < m"
  shows "repl_choice pb m 0 s = s"
proof -
  have "[s ..< min (s + m) SCHED_NUMBER_INTERVALS_WEEK] = s # [Suc s ..< min (s + m) SCHED_NUMBER_INTERVALS_WEEK]"
    using assms by (intro upt_conv_Cons) (auto simp: open_chunks_def)
  then show ?thesis
    using assms by (simp add: repl_choice_def Let_def open_chunks_def)
qed

lemma SetBit_length [simp]: "length (SetBit pb c) = length pb"
  by (simp add: SetBit_def Let_def)

lemma bit_push_1: "bit (push_bit n (1::byte)) j \<longleftrightarrow> n = j \<and> j < 8"
  unfolding bit_push_bit_iff bit_1_iff by auto

lemma open_chunks_SetBit:
  assumes "c < SCHED_NUMBER_INTERVALS_WEEK" and "length pb = SCHEDULE_DATA_ENTRIES"
  shows "open_chunks (SetBit pb c) = insert c (open_chunks pb)"
proof (rule set_eqI)
  fix a
  have "bit (SetBit pb c ! (a div 4)) (a mod 4) \<longleftrightarrow> a = c \<or> bit (pb ! (a div 4)) (a mod 4)" if "a < 672"
  proof -
    have "a = c \<longleftrightarrow> c div 4 = a div 4 \<and> c mod 4 = a mod 4"
      by (metis mod_mult_div_eq)
    moreover have "SetBit pb c ! (a div 4) =
        (if c div 4 = a div 4 then pb ! (a div 4) OR push_bit (c mod 4) 1 else pb ! (a div 4))"
      using assms that by (simp add: SetBit_def Let_def nth_list_update SCHEDULE_DATA_ENTRIES_def)
    ultimately show ?thesis
      using mod_less_divisor [of 4 a] by (auto simp: bit_or_iff bit_push_1 simp del: push_bit_of_1)
  qed
  then show "a \<in> open_chunks (SetBit pb c) \<longleftrightarrow> a \<in> insert c (open_chunks pb)"
    using assms(1) by (auto simp: in_open_chunks SCHED_NUMBER_INTERVALS_WEEK_def)
qed

lemma convert_loop_spec:
  assumes "0 < m" and "length pr = SCHEDULE_DATA_ENTRIES"
  shows "\<exists>ss. segmentation m (from_chunk pb i) ss \<and>
    length (convert_loop pb pr m st i) = SCHEDULE_DATA_ENTRIES \<and>
    open_chunks (convert_loop pb pr m st i) = open_chunks pr \<union> repl_choice pb m st ` set ss"
  using assms
proof (induction pb pr m st i rule: convert_loop.induct)
  case (1 pb pr m st i)
  define s where "s = seek_open pb i"
  have from_s: "from_chunk pb i = from_chunk pb s"
    unfolding s_def by (rule from_chunk_seek)
  show ?case
  proof (cases "s < SCHED_NUMBER_INTERVALS_WEEK")
    case False
    then have "convert_loop pb pr m st i = pr"
      by (subst convert_loop.simps) (simp add: s_def Let_def)
    moreover have "from_chunk pb i = {}"
      using False from_s from_chunk_week by simp
    ultimately show ?thesis
      using 1(3) segmentation_empty [of m] by (intro exI [of _ "[]"]) (simp only: , simp)
  next
    case True
    let ?cs = "[s ..< min (s + m) SCHED_NUMBER_INTERVALS_WEEK]"
    let ?pr = "set_nth_open pb pr ?cs 0 (st mod count_open pb ?cs)"
    have sA: "s \<in> open_chunks pb"
      using True seek_open_spec s_def by blast
    have "s \<in> set (filter (chunk_open pb) ?cs)"
      using sA 1(2) by (auto simp: open_chunks_def)
    then have "st mod count_open pb ?cs < length (filter (chunk_open pb) ?cs)"
      unfolding count_open_filter by (intro mod_less_divisor length_pos_if_in_set)
    then have pr: "?pr = SetBit pr (repl_choice pb m st s)"
      by (simp add: set_nth_open_filter repl_choice_def count_open_filter Let_def)
    have step: "convert_loop pb pr m st i = convert_loop pb ?pr m st (s + m)"
      using True 1(2) by (subst convert_loop.simps) (simp add: s_def Let_def)
    have prA: "open_chunks ?pr = insert (repl_choice pb m st s) (open_chunks pr)"
      unfolding pr using repl_choice_mem(1) [OF sA 1(2)] 1(3)
      by (intro open_chunks_SetBit) (auto simp: open_chunks_def)
    have "\<exists>ss. segmentation m (from_chunk pb (s + m)) ss \<and>
        length (convert_loop pb ?pr m st (s + m)) = SCHEDULE_DATA_ENTRIES \<and>
        open_chunks (convert_loop pb ?pr m st (s + m)) = open_chunks ?pr \<union> repl_choice pb m st ` set ss"
      by (rule 1(1) [OF s_def _ refl refl refl refl, simplified]) (use True 1(2,3) pr in auto)
    then obtain ss where ss: "segmentation m (from_chunk pb (s + m)) ss"
        "length (convert_loop pb pr m st i) = SCHEDULE_DATA_ENTRIES"
        "open_chunks (convert_loop pb pr m st i) = open_chunks ?pr \<union> repl_choice pb m st ` set ss"
      unfolding step by blast
    have "{a \<in> from_chunk pb s. s + m \<le> a} = from_chunk pb (s + m)"
      by auto
    then have "segmentation m (from_chunk pb i) (s # ss)"
      unfolding from_s using ss(1) sA 1(2) by (intro segmentation_step) auto
    with ss prA show ?thesis
      by (intro exI [of _ "s # ss"]) auto
  qed
qed

lemma clear_low_nibbles_spec:
  "length (clear_low_nibbles pb) = SCHEDULE_DATA_ENTRIES" "open_chunks (clear_low_nibbles pb) = {}"
proof -
  have "\<not> bit ((b::byte) AND 0xF0) j" if "j < 4" for b j
    using bit_merge_byte [OF that, of b 0] by (simp add: merge_byte_def)
  then show "open_chunks (clear_low_nibbles pb) = {}"
    by (auto simp: in_open_chunks clear_low_nibbles_def SCHEDULE_DATA_ENTRIES_def)
qed (simp add: clear_low_nibbles_def)

lemma Convert_spec:
  assumes "0 < m"
  obtains ss where "segmentation m (open_chunks pb) ss"
    "length (ConvertAvailSchedToReplSched pb (clear_low_nibbles pb) m st) = SCHEDULE_DATA_ENTRIES"
    "open_chunks (ConvertAvailSchedToReplSched pb (clear_low_nibbles pb) m st) = repl_choice pb m st ` set ss"
  using convert_loop_spec [OF assms clear_low_nibbles_spec(1), of pb 0 pb st]
  by (auto simp: ConvertAvailSchedToReplSched_def clear_low_nibbles_spec)

section \<open>The older algorithm\<close>

lemma old_byte_SetBit: "pb[i div 4 := pb ! (i div 4) OR push_bit (i mod 4) 1] = SetBit pb i"
  unfolding SetBit_def Let_def chunk_and_3 drop_bit_2 ..

lemma old_byte_open:
  "pb ! (i div 4) AND push_bit (i mod 4) 1 \<noteq> 0 \<longleftrightarrow> chunk_open pb i"
  unfolding chunk_open_bit by (rule byte_and_mask)

lemma old_loop_spec:
  assumes "0 < m" and "length pr = SCHEDULE_DATA_ENTRIES"
  shows "\<exists>ss. segmentation m (from_chunk pb i) ss \<and>
    length (old_loop pb pr m i) = SCHEDULE_DATA_ENTRIES \<and>
    open_chunks (old_loop pb pr m i) = open_chunks pr \<union> set ss"
  using assms
proof (induction pb pr m i rule: old_loop.induct)
  case (1 pb pr m i)
  note unfold = old_loop.simps [of pb pr m i, unfolded old_byte_SetBit old_byte_open]
  note IH = 1(1,2) [unfolded old_byte_SetBit old_byte_open]
  show ?case
  proof (cases "i < SCHED_NUMBER_INTERVALS_WEEK")
    case False
    then have "old_loop pb pr m i = pr" "from_chunk pb i = {}"
      using unfold from_chunk_week by simp_all
    then show ?thesis
      using 1(4) segmentation_empty [of m] by (intro exI [of _ "[]"]) (simp only: , simp)
  next
    case week: True
    show ?thesis
    proof (cases "chunk_open pb i")
      case True
      then obtain ss where ss: "segmentation m (from_chunk pb (i + m)) ss"
          "length (old_loop pb pr m i) = SCHEDULE_DATA_ENTRIES"
          "open_chunks (old_loop pb pr m i) = open_chunks (SetBit pr i) \<union> set ss"
        using IH(1) week 1(3,4) unfold by auto
      have "{a \<in> from_chunk pb i. i + m \<le> a} = from_chunk pb (i + m)"
        by auto
      then have "segmentation m (from_chunk pb i) (i # ss)"
        using ss(1) week True 1(3) by (intro segmentation_step) (auto simp: open_chunks_def)
      with ss week 1(4) show ?thesis
        by (intro exI [of _ "i # ss"]) (auto simp: open_chunks_SetBit)
    next
      case False
      then have "from_chunk pb i = from_chunk pb (Suc i)"
        by (auto simp: open_chunks_def le_less Suc_le_eq)
      with IH(2) False week 1(3,4) unfold show ?thesis
        by auto
    qed
  qed
qed

lemma default_loop_spec:
  assumes "0 < m" and "length pr = SCHEDULE_DATA_ENTRIES"
  shows "\<exists>ss. segmentation m {i..<SCHED_NUMBER_INTERVALS_WEEK} ss \<and>
    length (default_loop pr m i) = SCHEDULE_DATA_ENTRIES \<and>
    open_chunks (default_loop pr m i) = open_chunks pr \<union> set ss"
  using assms
proof (induction pr m i rule: default_loop.induct)
  case (1 pr m i)
  note unfold = default_loop.simps [of pr m i, unfolded old_byte_SetBit]
  show ?case
  proof (cases "i < SCHED_NUMBER_INTERVALS_WEEK")
    case False
    then have "default_loop pr m i = pr" "{i..<SCHED_NUMBER_INTERVALS_WEEK} = {}"
      using unfold by auto
    then show ?thesis
      using 1(3) segmentation_empty [of m] by (intro exI [of _ "[]"]) (simp only: , simp)
  next
    case week: True
    then obtain ss where ss: "segmentation m {i + m..<SCHED_NUMBER_INTERVALS_WEEK} ss"
        "length (default_loop pr m i) = SCHEDULE_DATA_ENTRIES"
        "open_chunks (default_loop pr m i) = open_chunks (SetBit pr i) \<union> set ss"
      using 1(1) [unfolded old_byte_SetBit] 1(2,3) unfold by auto
    have "{a \<in> {i..<SCHED_NUMBER_INTERVALS_WEEK}. i + m \<le> a} = {i + m..<SCHED_NUMBER_INTERVALS_WEEK}"
      by auto
    then have "segmentation m {i..<SCHED_NUMBER_INTERVALS_WEEK} (i # ss)"
      using ss(1) week 1(2) by (intro segmentation_step) auto
    with ss week 1(3) show ?thesis
      by (intro exI [of _ "i # ss"]) (auto simp: open_chunks_SetBit)
  qed
qed

section \<open>Creating replication schedules\<close>

text \<open>The replication interval in 15-minute chunks, rounded up, without the 32-bit wrap-around.\<close>

definition interval_chunks :: "dword \<Rightarrow> nat" where
  "interval_chunks IntervalInMinutes =
     (if IntervalInMinutes = 0 then 12 else (unat IntervalInMinutes + 14) div 15)"

lemma interval_chunks_pos: "0 < interval_chunks i"
proof (cases "i = 0")
  case False
  then have "1 \<le> unat i"
    by (simp add: unat_gt_0 Suc_leI)
  then show ?thesis
    using False by (simp add: interval_chunks_def div_greater_zero_iff)
qed (simp add: interval_chunks_def)

lemma unat_chunks_to_skip:
  assumes "unat i + 14 < 2 ^ 32"
  shows "unat (chunks_to_skip i) = (unat i + 14) div 15"
proof -
  have "unat (i + 14) = unat i + 14"
    using assms by (subst unat_add_lem [THEN iffD1]) auto
  then show ?thesis
    by (simp add: chunks_to_skip_def unat_div)
qed

lemma interval_new:
  assumes "unat i + 14 < 2 ^ 32"
  shows "unat (if i = 0 then DEFAULT_INTERVAL else chunks_to_skip i) = interval_chunks i"
  using unat_chunks_to_skip [OF assms] by (simp add: interval_chunks_def DEFAULT_INTERVAL_def)

lemma interval_old:
  assumes "unat i + 14 < 2 ^ 32"
  shows "unat (if chunks_to_skip i = 0 then DEFAULT_INTERVAL else chunks_to_skip i) = interval_chunks i"
proof -
  have "chunks_to_skip i = 0 \<longleftrightarrow> i = 0"
    using unat_chunks_to_skip [OF assms] interval_chunks_pos [of i]
    by (auto simp: interval_chunks_def chunks_to_skip_def unat_eq_0 [symmetric])
  then show ?thesis
    using interval_new [OF assms] by simp
qed

lemma le_1_unat: "(n::dword) \<le> 1 \<longleftrightarrow> unat n \<le> 1"
  by (simp add: word_le_nat_alt)

text \<open>The replication chunks of an availability: per segment, the available chunk the staggering number picks.\<close>

definition repl_pick :: "nat set \<Rightarrow> nat \<Rightarrow> nat \<Rightarrow> nat \<Rightarrow> nat" where
  "repl_pick A m st s =
     sorted_list_of_set (A \<inter> {s..<s + m}) ! (st mod card (A \<inter> {s..<s + m}))"

lemma repl_choice_pick: "repl_choice pb m st s = repl_pick (open_chunks pb) m st s"
proof -
  let ?cs = "filter (chunk_open pb) [s ..< min (s + m) SCHED_NUMBER_INTERVALS_WEEK]"
  have set: "set ?cs = open_chunks pb \<inter> {s..<s + m}"
    by (auto simp: open_chunks_def)
  have "sorted_list_of_set (set ?cs) = ?cs"
    by (intro sorted_list_of_set.idem_if_sorted_distinct) (simp_all add: sorted_wrt_filter)
  moreover have "length ?cs = card (set ?cs)"
    by (rule distinct_card [symmetric]) simp
  ultimately show ?thesis
    unfolding repl_choice_def repl_pick_def Let_def set by simp
qed

lemma repl_pick_mem:
  assumes "s \<in> A" and "0 < m"
  shows "repl_pick A m st s \<in> A \<inter> {s..<s + m}"
proof -
  have fin: "finite (A \<inter> {s..<s + m})"
    by simp
  moreover have "s \<in> A \<inter> {s..<s + m}"
    using assms by simp
  ultimately have "st mod card (A \<inter> {s..<s + m}) < length (sorted_list_of_set (A \<inter> {s..<s + m}))"
    by (metis card_gt_0_iff empty_iff length_sorted_list_of_set mod_less_divisor)
  then have "repl_pick A m st s \<in> set (sorted_list_of_set (A \<inter> {s..<s + m}))"
    unfolding repl_pick_def by (rule nth_mem)
  then show ?thesis
    using fin by simp
qed

lemma repl_pick_0:
  assumes "s \<in> A" and "0 < m"
  shows "repl_pick A m 0 s = s"
proof -
  have "Min (A \<inter> {s..<s + m}) = s" and "A \<inter> {s..<s + m} \<noteq> {}"
    using assms by (auto intro: Min_eqI)
  then have "sorted_list_of_set (A \<inter> {s..<s + m}) = s # sorted_list_of_set (A \<inter> {s..<s + m} - {s})"
    using sorted_list_of_set_nonempty [of "A \<inter> {s..<s + m}"] by simp
  then show ?thesis
    by (simp add: repl_pick_def)
qed

lemma segmentation_disjoint:
  assumes "segmentation m A ss" and "s \<in> set ss" and "s' \<in> set ss"
  shows "s = s' \<or> s + m \<le> s' \<or> s' + m \<le> s"
  using assms by (auto simp: segmentation_def sorted_wrt_iff_nth_less in_set_conv_nth) (metis nat_neq_iff)

lemma repl_pick_singleton: "s \<in> A \<Longrightarrow> repl_pick A 1 st s = s"
proof -
  assume "s \<in> A"
  then have "A \<inter> {s..<s + 1} = {s}"
    by auto
  then show ?thesis
    by (simp add: repl_pick_def)
qed

lemma segmentation_1:
  assumes "finite A"
  shows "segmentation 1 A (sorted_list_of_set A)"
proof -
  have "sorted_wrt (<) (sorted_list_of_set A)"
    by (rule strict_sorted_list_of_set)
  then have "sorted_wrt (\<lambda>s s'. s + 1 \<le> s') (sorted_list_of_set A)"
    by (rule sorted_wrt_mono_rel [rotated]) simp
  with assms show ?thesis
    by (auto simp: segmentation_def)
qed

lemma schedule_ok_data:
  "schedule_ok s \<Longrightarrow> length pb = SCHEDULE_DATA_ENTRIES \<Longrightarrow> schedule_ok (s\<lparr>sc_data := pb\<rparr>)"
  by (auto simp: schedule_ok_def CheckPSchedule_def split: if_splits)

context schedule_cache
begin

lemma Create_eq:
  assumes "cok c" "inc c h" "unat i + 14 < 2 ^ 32"
  obtains temp where "schedule_ok temp" "open_chunks (sc_data temp) = avail h"
    "ToplScheduleCreate T (Some c) i h st =
      (if interval_chunks i = 1 then Inr (c, h)
       else ToplScheduleImport T (Some c) (Some (temp\<lparr>sc_data :=
              ConvertAvailSchedToReplSched (sc_data temp) (clear_low_nibbles (sc_data temp))
                (interval_chunks i) (unat st)\<rparr>)))"
proof -
  from CheckScheduleCache_ok [OF assms(1)] obtain bw
    where bw: "CheckScheduleCache (Some c) = Inr (c, CreateAlwaysSchedule bw)" by blast
  have le1: "(if i = 0 then DEFAULT_INTERVAL else chunks_to_skip i) \<le> 1 \<longleftrightarrow> interval_chunks i = 1"
    unfolding le_1_unat interval_new [OF assms(3)] using interval_chunks_pos [of i] by linarith
  show ?thesis
  proof (cases h)
    case None
    show ?thesis
      by (rule that [of "CreateAlwaysSchedule bw"])
        (simp_all only: None avail_simps schedule_ok_always open_chunks_always ToplScheduleCreate_def bw
          Let_def le1 interval_new [OF assms(3)] bindE_simps prod.case option.case)
  next
    case (Some e)
    then have e: "entry_ok e"
      using assms by (blast intro: in_cache_entry)
    show ?thesis
      by (rule that [of "the (ts_s e)"])
        (simp_all only: Some avail_simps entry_schedule_ok [OF e] ToplScheduleCreate_def bw CheckSchedule_ok [OF e]
          Let_def le1 interval_new [OF assms(3)] bindE_simps prod.case option.case)
  qed
qed

lemma Create_spec_repl:
  assumes c: "cok c" "inc c h" and i: "unat i + 14 < 2 ^ 32"
  obtains c' r ss where "ToplScheduleCreate T (Some c) i h st = Inr (c', r)" "cok c'" "inc c' r"
    "segmentation (interval_chunks i) (avail h) ss"
    "avail r = repl_pick (avail h) (interval_chunks i) (unat st) ` set ss"
    "\<And>h'. inc c h' \<Longrightarrow> inc c' h'"
proof -
  from Create_eq [OF assms] obtain temp where temp: "schedule_ok temp" "open_chunks (sc_data temp) = avail h"
    "ToplScheduleCreate T (Some c) i h st =
      (if interval_chunks i = 1 then Inr (c, h)
       else ToplScheduleImport T (Some c) (Some (temp\<lparr>sc_data :=
              ConvertAvailSchedToReplSched (sc_data temp) (clear_low_nibbles (sc_data temp))
                (interval_chunks i) (unat st)\<rparr>)))" by metis
  show ?thesis
  proof (cases "interval_chunks i = 1")
    case True
    have "avail h = repl_pick (avail h) 1 (unat st) ` avail h"
      using repl_pick_singleton by force
    then show ?thesis
      using c temp(3) True segmentation_1 [OF finite_avail, of h]
      by (intro that [of c h "sorted_list_of_set (avail h)"]) auto
  next
    case False
    obtain ss where ss: "segmentation (interval_chunks i) (avail h) ss"
      "length (ConvertAvailSchedToReplSched (sc_data temp) (clear_low_nibbles (sc_data temp)) (interval_chunks i) (unat st))
        = SCHEDULE_DATA_ENTRIES"
      "open_chunks (ConvertAvailSchedToReplSched (sc_data temp) (clear_low_nibbles (sc_data temp)) (interval_chunks i) (unat st))
        = repl_pick (avail h) (interval_chunks i) (unat st) ` set ss"
      using Convert_spec [OF interval_chunks_pos, of i "sc_data temp" "unat st"] temp(2)
      unfolding repl_choice_pick by metis
    show ?thesis
    proof (rule Import_spec [OF c(1) schedule_ok_data [OF temp(1) ss(2)]])
      fix c' r
      assume r: "ToplScheduleImport T (Some c) (Some (temp\<lparr>sc_data :=
            ConvertAvailSchedToReplSched (sc_data temp) (clear_low_nibbles (sc_data temp))
              (interval_chunks i) (unat st)\<rparr>)) = Inr (c', r)" "cok c'" "inc c' r"
        "avail r = open_chunks (sc_data (temp\<lparr>sc_data :=
            ConvertAvailSchedToReplSched (sc_data temp) (clear_low_nibbles (sc_data temp))
              (interval_chunks i) (unat st)\<rparr>))" "\<And>h'. inc c h' \<Longrightarrow> inc c' h'"
      show ?thesis
        by (rule that [of c' r ss]) (use temp(3) False ss r in auto)
    qed
  qed
qed

lemma Old_eq:
  assumes "cok c" "inc c h" "unat i + 14 < 2 ^ 32"
  obtains (template) "interval_chunks i = 1" "OldScheduleCreate T (Some c) i h = Inr (Some c, h)"
    | (built) s ss where "schedule_ok s" "segmentation (interval_chunks i) (avail h) ss"
      "open_chunks (sc_data s) = set ss"
      "OldScheduleCreate T (Some c) i h =
        bindE (ToplScheduleImport T (Some c) (Some s)) (\<lambda>(c, r). Inr (Some c, r))"
proof (cases h)
  case None
  define n where "n = (if chunks_to_skip i = 0 then DEFAULT_INTERVAL else chunks_to_skip i)"
  define s where "s = (CreateAlwaysSchedule 0)\<lparr>sc_data := default_loop (replicate SCHEDULE_DATA_ENTRIES 0) (unat n) 0\<rparr>"
  have n: "unat n = interval_chunks i"
    unfolding n_def by (rule interval_old [OF assms(3)])
  obtain ss where ss: "segmentation (interval_chunks i) {0..<SCHED_NUMBER_INTERVALS_WEEK} ss"
    "length (default_loop (replicate SCHEDULE_DATA_ENTRIES 0) (unat n) 0) = SCHEDULE_DATA_ENTRIES"
    "open_chunks (default_loop (replicate SCHEDULE_DATA_ENTRIES 0) (unat n) 0) =
      open_chunks (replicate SCHEDULE_DATA_ENTRIES 0) \<union> set ss"
    using default_loop_spec [OF interval_chunks_pos, of "replicate SCHEDULE_DATA_ENTRIES 0" i 0] n by auto
  have "open_chunks (replicate SCHEDULE_DATA_ENTRIES 0) = {}"
    by (auto simp: in_open_chunks SCHEDULE_DATA_ENTRIES_def)
  with ss have "open_chunks (sc_data s) = set ss"
    by (simp add: s_def)
  moreover have "schedule_ok s"
    unfolding s_def using ss(2) by (intro schedule_ok_data schedule_ok_always)
  moreover have "OldScheduleCreate T (Some c) i h =
      bindE (ToplScheduleImport T (Some c) (Some s)) (\<lambda>(c, r). Inr (Some c, r))"
    by (simp add: None OldScheduleCreate_def CreateDefaultSchedule_def Let_def n_def s_def
        CreateAlwaysSchedule_def STARTING_INTERVAL_def)
  ultimately show ?thesis
    using built ss(1) None by (simp add: atLeast0LessThan)
next
  case (Some e)
  then have e: "entry_ok e"
    using assms by (blast intro: in_cache_entry)
  define n where "n = (if chunks_to_skip i = 0 then DEFAULT_INTERVAL else chunks_to_skip i)"
  have n: "unat n = interval_chunks i"
    unfolding n_def by (rule interval_old [OF assms(3)])
  let ?t = "the (ts_s e)"
  let ?s = "?t\<lparr>sc_data := old_loop (sc_data ?t) (clear_low_nibbles (sc_data ?t)) (unat n) 0\<rparr>"
  have eq: "OldScheduleCreate T (Some c) i h =
      (if n \<le> 1 then Inr (Some c, h)
       else bindE (ToplScheduleImport T (Some c) (Some ?s)) (\<lambda>(c, r). Inr (Some c, r)))"
    by (simp add: Some OldScheduleCreate_def CheckSchedule_ok [OF e] Let_def n_def)
  obtain ss where ss: "segmentation (interval_chunks i) (open_chunks (sc_data ?t)) ss"
    "length (old_loop (sc_data ?t) (clear_low_nibbles (sc_data ?t)) (unat n) 0) = SCHEDULE_DATA_ENTRIES"
    "open_chunks (old_loop (sc_data ?t) (clear_low_nibbles (sc_data ?t)) (unat n) 0) = set ss"
    using old_loop_spec [where pb = "sc_data ?t" and i = 0, OF interval_chunks_pos [of i]
        clear_low_nibbles_spec(1) [of "sc_data ?t"]] n
    by (auto simp: clear_low_nibbles_spec)
  show ?thesis
  proof (cases "n \<le> 1")
    case True
    then show ?thesis
      using template eq n interval_chunks_pos [of i] by (simp add: le_1_unat)
  next
    case False
    then show ?thesis
      using ss eq Some schedule_ok_data [OF entry_schedule_ok [OF e] ss(2)] by (intro built [of ?s ss]) auto
  qed
qed

end

section \<open>Properties\<close>

text \<open>C34. Creating a replication schedule from a handle of a valid cache succeeds, keeps the cache valid
  and gives a handle with exactly one chunk in each segment. The segments cut the availability
  greedily: each starts at an available chunk, spans the replication interval rounded up to
  15-minute chunks (three hours if it is 0), the next starts no earlier than its end, and together
  they cover the availability. The chunk of a segment is the available chunk of it whose index is the
  staggering number modulo their count, so no replication is scheduled outside the availability.\<close>

theorem ToplScheduleCreate_segments:
  assumes "schedule_cache T ok elems" and "cache_ok ok elems c" and "in_cache elems c h"
    and "unat i + 14 < 2 ^ 32"
  shows "\<exists>c' r ss. ToplScheduleCreate T (Some c) i h st = Inr (c', r) \<and>
    cache_ok ok elems c' \<and> in_cache elems c' r \<and>
    segmentation (interval_chunks i) (avail h) ss \<and>
    avail r = repl_pick (avail h) (interval_chunks i) (unat st) ` set ss \<and>
    (\<forall>s\<in>set ss. avail r \<inter> {s..<s + interval_chunks i} =
       {repl_pick (avail h) (interval_chunks i) (unat st) s}) \<and>
    avail r \<subseteq> avail h"
proof -
  let ?m = "interval_chunks i" and ?p = "repl_pick (avail h) (interval_chunks i) (unat st)"
  obtain c' r ss where r: "ToplScheduleCreate T (Some c) i h st = Inr (c', r)" "cache_ok ok elems c'"
      "in_cache elems c' r" "segmentation ?m (avail h) ss" "avail r = ?p ` set ss"
    using schedule_cache.Create_spec_repl [OF assms] by metis
  have pick: "?p s \<in> avail h \<inter> {s..<s + ?m}" if "s \<in> set ss" for s
    using that r(4) interval_chunks_pos [of i] by (intro repl_pick_mem) (auto simp: segmentation_def)
  have "avail r \<inter> {s..<s + ?m} = {?p s}" if s: "s \<in> set ss" for s
  proof -
    have "s' = s" if "s' \<in> set ss" "?p s' \<in> {s..<s + ?m}" for s'
      using segmentation_disjoint [OF r(4) s that(1)] pick [OF that(1)] that(2) by auto
    then have "avail r \<inter> {s..<s + ?m} \<subseteq> {?p s}"
      unfolding r(5) by blast
    with pick [OF s] s show ?thesis
      unfolding r(5) by blast
  qed
  then have one: "\<forall>s\<in>set ss. avail r \<inter> {s..<s + ?m} = {?p s}" ..
  have sub: "avail r \<subseteq> avail h"
    unfolding r(5) using pick by blast
  show ?thesis
    using r one sub by (intro exI [of _ c'] exI [of _ r] exI [of _ ss] conjI)
qed

text \<open>C35. With staggering number 0, \<^verbatim>\<open>ToplScheduleCreate\<close> returns the very handle the older algorithm
  returns, as the checked build asserts, for every interval whose rounding does not wrap around.\<close>

theorem ToplScheduleCreate_agrees_old:
  assumes T: "schedule_cache T ok elems" and c: "cache_ok ok elems c" and h: "in_cache elems c h"
    and i: "unat i + 14 < 2 ^ 32"
  shows "\<exists>c' r c''. ToplScheduleCreate T (Some c) i h 0 = Inr (c', r) \<and>
    OldScheduleCreate T (Some c') i h = Inr (Some c'', r)"
proof -
  obtain c' r ss where r: "ToplScheduleCreate T (Some c) i h 0 = Inr (c', r)" "cache_ok ok elems c'"
      "in_cache elems c' r" "segmentation (interval_chunks i) (avail h) ss"
      "avail r = repl_pick (avail h) (interval_chunks i) (unat (0 :: dword)) ` set ss"
      and old: "\<And>h'. in_cache elems c h' \<Longrightarrow> in_cache elems c' h'"
    using schedule_cache.Create_spec_repl [OF T c h i, where st = 0] by blast
  note hc' = old [OF h]
  have avail_r: "avail r = set ss"
    unfolding r(5) using repl_pick_0 r(4) interval_chunks_pos [of i]
    by (force simp: segmentation_def subset_iff)
  have "\<exists>c''. OldScheduleCreate T (Some c') i h = Inr (Some c'', r)"
  proof (rule schedule_cache.Old_eq [OF T r(2) hc' i])
    assume template: "interval_chunks i = 1" "OldScheduleCreate T (Some c') i h = Inr (Some c', h)"
    have "segmentation 1 (avail h) (sorted_list_of_set (avail h))"
      by (rule segmentation_1 [OF finite_avail])
    then have "ss = sorted_list_of_set (avail h)"
      using r(4) template(1) segmentation_unique by simp
    then have "r = h"
      using schedule_cache.handle_eq_iff [OF T r(2,3) hc'] avail_r by simp
    then show ?thesis
      using template by simp
  next
    fix s ss'
    assume built: "schedule_ok s" "segmentation (interval_chunks i) (avail h) ss'"
      "open_chunks (sc_data s) = set ss'"
      "OldScheduleCreate T (Some c') i h =
        bindE (ToplScheduleImport T (Some c') (Some s)) (\<lambda>(c, r). Inr (Some c, r))"
    then have "open_chunks (sc_data s) = avail r"
      using segmentation_unique [OF r(4)] avail_r by simp
    then show ?thesis
      using schedule_cache.Import_again [OF T r(2,3) built(1)] built(4) by (metis bindE_simps(2) case_prod_conv)
  qed
  with r(1) show ?thesis
    by blast
qed

text \<open>The rounding \<^verbatim>\<open>(IntervalInMinutes + 14) / 15\<close> is done in 32 bits: for the fourteen largest
  intervals it gives 0 and the availability schedule is returned unchanged, although a longer interval
  should replicate less often.\<close>

theorem ToplScheduleCreate_wraps:
  assumes "cache_ok ok elems c" and "2 ^ 32 \<le> unat i + 14"
  shows "ToplScheduleCreate T (Some c) i h st = Inr (c, h)"
proof -
  from CheckScheduleCache_ok [OF assms(1)] obtain bw
    where bw: "CheckScheduleCache (Some c) = Inr (c, CreateAlwaysSchedule bw)" by blast
  have "unat (i + 14) = (unat i + 14) mod 2 ^ 32"
    by (simp add: unat_word_ariths)
  also have "\<dots> < 14"
  proof -
    have unat_lt: "unat i < 2 ^ 32"
      using unsigned_less [of i] by simp
    with assms(2) show ?thesis
      by (simp add: le_mod_geq)
  qed
  finally have "unat (chunks_to_skip i) = 0"
    by (simp add: chunks_to_skip_def unat_div)
  moreover have "i \<noteq> 0"
    using assms(2) by auto
  ultimately show ?thesis
    by (simp add: ToplScheduleCreate_def bw Let_def le_1_unat)
qed

section \<open>The longest unavailable period\<close>

text \<open>The chunk \<open>p\<close> places after chunk \<open>f\<close> in the cyclic week.\<close>

definition week_after :: "nat \<Rightarrow> nat \<Rightarrow> nat" where
  "week_after f p = (f + p) mod SCHED_NUMBER_INTERVALS_WEEK"

text \<open>\<open>L\<close> is the length of the longest cyclic run of chunks outside \<open>A\<close>.\<close>

definition longest_gap :: "nat set \<Rightarrow> nat \<Rightarrow> bool" where
  "longest_gap A L \<longleftrightarrow>
     (\<exists>s. \<forall>k<L. week_after s k \<notin> A) \<and> (\<forall>s n. (\<forall>k<n. week_after s k \<notin> A) \<longrightarrow> n \<le> L)"

text \<open>
  The state of the walk before it looks at the chunk \<open>p\<close> places after the open chunk \<open>f\<close>; \<open>Op q\<close>
  says that the chunk at distance \<open>q\<close> is open, and \<open>r\<close> is the distance at which the current run
  of closed chunks began, or \<open>p\<close> when there is none.
\<close>

definition walk_inv :: "(nat \<Rightarrow> bool) \<Rightarrow> nat \<Rightarrow> bool \<Rightarrow> nat \<Rightarrow> nat \<Rightarrow> bool" where
  "walk_inv Op p inRun r maxLen \<longleftrightarrow>
     0 < r \<and> (if inRun then r < p else r = p) \<and> (\<forall>q. r \<le> q \<and> q < p \<longrightarrow> \<not> Op q) \<and> Op (r - 1) \<and>
     (\<forall>a b. a \<le> b \<and> b \<le> r \<and> (\<forall>q. a \<le> q \<and> q < b \<longrightarrow> \<not> Op q) \<longrightarrow> b - a \<le> maxLen) \<and>
     (\<exists>a. \<forall>k<maxLen. \<not> Op (a + k))"

lemma walk_inv_open_run:
  assumes "walk_inv Op p True r maxLen" and "Op p"
  shows "walk_inv Op (Suc p) False (Suc p) (max maxLen (p - r))"
proof -
  have r: "0 < r" "r < p" "\<forall>q. r \<le> q \<and> q < p \<longrightarrow> \<not> Op q" "Op (r - 1)"
    and old: "\<And>a b. a \<le> b \<Longrightarrow> b \<le> r \<Longrightarrow> (\<forall>q. a \<le> q \<and> q < b \<longrightarrow> \<not> Op q) \<Longrightarrow> b - a \<le> maxLen"
    and ex: "\<exists>a. \<forall>k<maxLen. \<not> Op (a + k)"
    using assms(1) by (auto simp: walk_inv_def)
  have "b - a \<le> max maxLen (p - r)"
    if ab: "a \<le> b" "b \<le> Suc p" "\<forall>q. a \<le> q \<and> q < b \<longrightarrow> \<not> Op q" for a b
  proof (cases "b \<le> r")
    case True
    with old ab show ?thesis by (simp add: le_max_iff_disj)
  next
    case False
    have "r \<le> a"
    proof (rule ccontr)
      assume "\<not> r \<le> a"
      with False have "a \<le> r - 1 \<and> r - 1 < b" by linarith
      with ab(3) r(4) show False by blast
    qed
    moreover have "b \<le> p \<or> a = b"
      using ab assms(2) by (metis le_SucE le_eq_less_or_eq lessI less_Suc_eq_le)
    ultimately show ?thesis by auto
  qed
  moreover have "\<exists>a. \<forall>k<max maxLen (p - r). \<not> Op (a + k)"
    using ex r(3) by (cases "maxLen \<le> p - r") (auto simp: max_def intro!: exI [of _ r])
  ultimately show ?thesis
    using assms(2) by (auto simp: walk_inv_def)
qed

lemma walk_inv_open_norun:
  assumes "walk_inv Op p False r maxLen" and "Op p"
  shows "walk_inv Op (Suc p) False (Suc p) maxLen"
proof -
  have "b - a \<le> maxLen" if ab: "a \<le> b" "b \<le> Suc p" "\<forall>q. a \<le> q \<and> q < b \<longrightarrow> \<not> Op q" for a b
  proof (cases "b \<le> p")
    case True
    with assms(1) ab show ?thesis by (simp add: walk_inv_def)
  next
    case False
    with ab assms(2) have "a = b"
      by (metis le_SucE le_eq_less_or_eq lessI less_Suc_eq_le)
    then show ?thesis by simp
  qed
  with assms show ?thesis
    by (auto simp: walk_inv_def)
qed

lemma walk_inv_closed:
  assumes "walk_inv Op p inRun r maxLen" and "\<not> Op p"
  shows "walk_inv Op (Suc p) True r maxLen"
  using assms by (auto simp: walk_inv_def less_Suc_eq split: if_splits)

lemma week_after_if:
  "f < 672 \<Longrightarrow> p \<le> 672 \<Longrightarrow> week_after f p = (if f + p < 672 then f + p else f + p - 672)"
  by (simp add: week_after_def SCHED_NUMBER_INTERVALS_WEEK_def mod_if)

lemma run_length_mod:
  assumes "r < p" and "p \<le> 672" and "0 < r" and "f < 672"
  shows "(week_after f p + 672 - week_after f r) mod 672 = p - r"
proof -
  have "week_after f p + 672 - week_after f r = p - r \<or> week_after f p + 672 - week_after f r = (p - r) + 672"
    using assms by (auto simp: week_after_if)
  then have "(week_after f p + 672 - week_after f r) mod 672 = (p - r) mod 672"
    by (metis mod_add_self2)
  then show ?thesis
    using assms by simp
qed

lemma week_after_next: "(week_after f p + 1) mod SCHED_NUMBER_INTERVALS_WEEK = week_after f (Suc p)"
  by (simp add: week_after_def mod_Suc_eq)

lemma unavail_loop_spec:
  assumes pb: "length pb = SCHEDULE_DATA_ENTRIES" and f: "f < 672" "f \<in> open_chunks pb"
    and "walk_inv (\<lambda>q. week_after f q \<in> open_chunks pb) p inRun r maxLen" and "p \<le> 672"
    and "inRun \<longrightarrow> rs = week_after f r" and "672 - p < fuel"
  shows "\<exists>L. unavail_loop pb fuel f (week_after f p) inRun rs maxLen = MaxLen L \<and>
    walk_inv (\<lambda>q. week_after f q \<in> open_chunks pb) 673 False 673 L"
  using assms(4-)
proof (induction fuel arbitrary: p inRun r rs maxLen)
  case (Suc fuel)
  let ?Op = "\<lambda>q. week_after f q \<in> open_chunks pb"
  have bt: "GetBit pb (week_after f p) = Some (?Op p)"
    using pb by (simp add: GetBit_def SCHEDULE_DATA_ENTRIES_def open_chunks_def
        SCHED_NUMBER_INTERVALS_WEEK_def week_after_def)
  have len: "(week_after f p + SCHED_NUMBER_INTERVALS_WEEK - rs) mod SCHED_NUMBER_INTERVALS_WEEK = p - r" if inRun
    using run_length_mod [of r p f] that Suc.prems f(1) by (simp add: walk_inv_def SCHED_NUMBER_INTERVALS_WEEK_def)
  have eqf: "week_after f p = f \<longleftrightarrow> p = 672"
    using f(1) Suc.prems(1,2) by (auto simp: week_after_if walk_inv_def split: if_splits)
  have finish: "\<exists>L. (if week_after f p = f then MaxLen M
        else unavail_loop pb fuel f (week_after f (Suc p)) b rs' M) = MaxLen L \<and> walk_inv ?Op 673 False 673 L"
    if inv: "walk_inv ?Op (Suc p) b d M" "b \<longrightarrow> rs' = week_after f d" for b d M rs'
  proof (cases "p = 672")
    case True
    moreover have "?Op 672"
      using f by (simp add: week_after_if)
    then have "\<not> b"
      using inv(1) True by (auto simp: walk_inv_def)
    ultimately show ?thesis
      using inv(1) eqf by (auto simp: walk_inv_def)
  next
    case False
    then show ?thesis
      using Suc.IH [OF inv(1) _ inv(2)] Suc.prems(2,4) eqf by simp
  qed
  note step = unavail_loop.simps(2) bt option.case Let_def week_after_next
  show ?case
  proof (cases inRun)
    case run: True
    show ?thesis
    proof (cases "?Op p")
      case True
      have "max maxLen (p - r) = (if p - r > maxLen then p - r else maxLen)"
        by (simp add: max_def)
      then have "walk_inv ?Op (Suc p) False (Suc p) (if p - r > maxLen then p - r else maxLen)"
        using walk_inv_open_run [of ?Op p r maxLen] Suc.prems(1) run True by metis
      from finish [OF this] run True show ?thesis
        unfolding step len [OF run] by simp
    next
      case False
      then have "walk_inv ?Op (Suc p) True r maxLen"
        using walk_inv_closed Suc.prems(1) by blast
      from finish [OF this] run False Suc.prems(3) show ?thesis
        unfolding step by simp
    qed
  next
    case norun: False
    show ?thesis
    proof (cases "?Op p")
      case True
      then have "walk_inv ?Op (Suc p) False (Suc p) maxLen"
        using walk_inv_open_norun Suc.prems(1) norun by simp
      from finish [OF this] norun True show ?thesis
        unfolding step by simp
    next
      case False
      then have "walk_inv ?Op (Suc p) True p maxLen"
        using walk_inv_closed [OF Suc.prems(1)] Suc.prems(1) norun by (auto simp: walk_inv_def)
      from finish [OF this] norun False show ?thesis
        unfolding step by simp
    qed
  qed
qed simp

lemma walk_inv_longest_gap:
  assumes "walk_inv (\<lambda>q. week_after f q \<in> A) 673 False 673 L" and "f < 672" and "f \<in> A"
  shows "longest_gap A L"
  unfolding longest_gap_def
proof (intro conjI allI impI)
  from assms(1) obtain a where "\<forall>k<L. week_after f (a + k) \<notin> A"
    by (auto simp: walk_inv_def)
  then show "\<exists>s. \<forall>k<L. week_after s k \<notin> A"
    by (intro exI [of _ "f + a"]) (simp add: week_after_def add.assoc)
next
  fix s n
  assume run: "\<forall>k<n. week_after s k \<notin> A"
  define a where "a = (s mod 672 + 672 - f) mod 672"
  have "(f + a) mod 672 = (f + (s mod 672 + 672 - f)) mod 672"
    unfolding a_def by (simp add: mod_simps)
  also have "f + (s mod 672 + 672 - f) = s mod 672 + 672"
    using assms(2) by simp
  finally have "(f + a) mod 672 = s mod 672"
    by simp
  then have shift: "week_after f (a + k) = week_after s k" for k
    by (simp add: week_after_def SCHED_NUMBER_INTERVALS_WEEK_def) (metis add.assoc mod_add_left_eq)
  have "a < 672"
    by (simp add: a_def)
  have "a + n \<le> 672"
  proof (rule ccontr)
    assume "\<not> a + n \<le> 672"
    then have "week_after f (a + (672 - a)) \<notin> A"
      unfolding shift using run \<open>a < 672\<close> by simp
    with assms(2,3) \<open>a < 672\<close> show False
      by (simp add: week_after_if)
  qed
  moreover have "\<forall>q. a \<le> q \<and> q < a + n \<longrightarrow> week_after f q \<notin> A"
  proof (intro allI impI)
    fix q
    assume "a \<le> q \<and> q < a + n"
    then have "q - a < n" "a + (q - a) = q"
      by auto
    then show "week_after f q \<notin> A"
      using run shift [of "q - a"] by metis
  qed
  moreover have "\<And>a b. a \<le> b \<Longrightarrow> b \<le> 673 \<Longrightarrow> (\<forall>q. a \<le> q \<and> q < b \<longrightarrow> week_after f q \<notin> A) \<Longrightarrow> b - a \<le> L"
    using assms(1) by (simp add: walk_inv_def)
  from this [of a "a + n"] calculation show "n \<le> L"
    by simp
qed

lemma max_unavailable_spec:
  assumes pb: "length pb = SCHEDULE_DATA_ENTRIES"
  shows "open_chunks pb = {} \<Longrightarrow> max_unavailable pb = MaxLen TOPL_ALWAYS_DURATION"
    and "open_chunks pb = {671} \<Longrightarrow> max_unavailable pb = ReadPastEnd"
    and "open_chunks pb \<noteq> {} \<Longrightarrow> open_chunks pb \<noteq> {671} \<Longrightarrow>
      \<exists>L. max_unavailable pb = MaxLen (15 * L) \<and> longest_gap (open_chunks pb) L"
proof -
  define f where "f = seek_open pb 0"
  have least: "\<forall>a\<in>open_chunks pb. f \<le> a"
    using seek_open_spec [of 0 pb] unfolding f_def open_chunks_def by (metis (no_types, lifting) le0 mem_Collect_eq not_le)
  have "f \<le> 672" "f < 672 \<longrightarrow> f \<in> open_chunks pb"
    using seek_open_le [of 0 pb] seek_open_spec [of 0 pb] unfolding f_def SCHED_NUMBER_INTERVALS_WEEK_def by auto
  with least have f: "f = 672 \<and> open_chunks pb = {} \<or> f < 672 \<and> f \<in> open_chunks pb \<and> (\<forall>a\<in>open_chunks pb. f \<le> a)"
    by (auto simp: in_open_chunks)
  show "max_unavailable pb = MaxLen TOPL_ALWAYS_DURATION" if "open_chunks pb = {}"
    using that f by (auto simp: max_unavailable_def f_def SCHED_NUMBER_INTERVALS_WEEK_def)
  show "max_unavailable pb = ReadPastEnd" if "open_chunks pb = {671}"
  proof -
    have "f = 671"
      using f that by auto
    moreover have "GetBit pb 672 = None"
      using pb by (simp add: GetBit_def SCHEDULE_DATA_ENTRIES_def)
    then have "unavail_loop pb (Suc 2015) 671 672 False 0 0 = ReadPastEnd"
      by (simp only: unavail_loop.simps option.case)
    moreover have "3 * SCHED_NUMBER_INTERVALS_WEEK = Suc 2015"
      by (simp add: SCHED_NUMBER_INTERVALS_WEEK_def)
    ultimately show ?thesis
      unfolding max_unavailable_def f_def [symmetric] Let_def by (simp add: SCHED_NUMBER_INTERVALS_WEEK_def)
  qed
  show "\<exists>L. max_unavailable pb = MaxLen (15 * L) \<and> longest_gap (open_chunks pb) L"
    if "open_chunks pb \<noteq> {}" "open_chunks pb \<noteq> {671}"
  proof -
    have f2: "f < 672" "f \<in> open_chunks pb" "\<forall>a\<in>open_chunks pb. f \<le> a"
      using f that(1) by blast+
    have "f \<noteq> 671"
    proof
      assume "f = 671"
      moreover have "open_chunks pb \<subseteq> {..<672}"
        by (auto simp: in_open_chunks)
      ultimately have "open_chunks pb = {671}"
        using f2 by force
      with that(2) show False ..
    qed
    with f2 have f1: "f < 671" "f \<in> open_chunks pb"
      by simp_all
    have "walk_inv (\<lambda>q. week_after f q \<in> open_chunks pb) 1 False 1 0"
      using f1 by (auto simp: walk_inv_def week_after_if le_Suc_eq)
    with f1 obtain L where L: "unavail_loop pb (3 * 672) f (week_after f 1) False 0 0 = MaxLen L"
        "walk_inv (\<lambda>q. week_after f q \<in> open_chunks pb) 673 False 673 L"
      using unavail_loop_spec [OF pb, of f 1 False 1 0 0 "3 * 672"] by auto
    then show ?thesis
      using f1 walk_inv_longest_gap [OF L(2)]
      by (auto simp: max_unavailable_def f_def [symmetric] SCHED_NUMBER_INTERVALS_WEEK_def week_after_if
          simp del: unavail_loop.simps)
  qed
qed

lemma MaxUnavailable_eq:
  assumes "cache_ok ok elems c" and "in_cache elems c (Some e)"
  shows "ToplScheduleMaxUnavailable (Some e) = Inr (max_unavailable (sc_data (the (ts_s e))))"
    and "length (sc_data (the (ts_s e))) = SCHEDULE_DATA_ENTRIES"
  using entry_schedule_ok [OF in_cache_entry [OF assms]]
  by (simp_all add: ToplScheduleMaxUnavailable_def CheckSchedule_ok [OF in_cache_entry [OF assms]] schedule_ok_def)

lemma longest_gap_full: "longest_gap {..<SCHED_NUMBER_INTERVALS_WEEK} 0"
  by (auto simp: longest_gap_def week_after_def SCHED_NUMBER_INTERVALS_WEEK_def)

text \<open>\<^verbatim>\<open>ToplScheduleMaxUnavailable\<close> ends within the \<open>3 * 672\<close> rounds the checked build allows. For a
  handle that is ever open, other than in the last chunk of the week only, it returns 15 minutes times
  the length of the longest cyclic run of closed chunks, and for one that is never open the whole
  week.\<close>

theorem ToplScheduleMaxUnavailable_longest:
  assumes "cache_ok ok elems c" and "in_cache elems c h" and "avail h \<noteq> {671}"
  shows "if avail h = {} then ToplScheduleMaxUnavailable h = Inr (MaxLen (15 * 672))
    else \<exists>L. ToplScheduleMaxUnavailable h = Inr (MaxLen (15 * L)) \<and> longest_gap (avail h) L"
proof (cases h)
  case None
  have "(0::nat) \<in> {..<SCHED_NUMBER_INTERVALS_WEEK}"
    by (simp add: SCHED_NUMBER_INTERVALS_WEEK_def)
  then have "avail h \<noteq> {}"
    unfolding None avail_simps by blast
  then show ?thesis
    using longest_gap_full by (auto simp: None ToplScheduleMaxUnavailable_def)
next
  case (Some e)
  note eq = MaxUnavailable_eq [OF assms(1) assms(2) [unfolded Some]]
  show ?thesis
    using max_unavailable_spec(1,3) [OF eq(2)] assms(3) eq(1)
    by (simp add: Some TOPL_ALWAYS_DURATION_def SCHED_NUMBER_INTERVALS_WEEK_def)
qed

text \<open>C38. When the only open chunk of a handle is the last one of the week, \<^verbatim>\<open>ToplScheduleMaxUnavailable\<close>
  starts its walk at chunk 672 and reads one byte behind the schedule's data.\<close>

theorem ToplScheduleMaxUnavailable_overread:
  assumes "cache_ok ok elems c" and "in_cache elems c h" and "avail h = {671}"
  shows "ToplScheduleMaxUnavailable h = Inr ReadPastEnd"
proof (cases h)
  case None
  then have "{..<SCHED_NUMBER_INTERVALS_WEEK} = {671}"
    using assms(3) by simp
  moreover have "(0::nat) \<in> {..<SCHED_NUMBER_INTERVALS_WEEK}"
    by (simp add: SCHED_NUMBER_INTERVALS_WEEK_def)
  ultimately show ?thesis
    by (metis singletonD zero_neq_numeral)
next
  case (Some e)
  note eq = MaxUnavailable_eq [OF assms(1) assms(2) [unfolded Some]]
  show ?thesis
    using max_unavailable_spec(2) [OF eq(2)] assms(3) eq(1) by (simp add: Some)
qed

section \<open>Concrete instances\<close>

definition week_last :: SCHEDULE where
  "week_last = (week_of 0)\<lparr>sc_data := SetBit (replicate SCHEDULE_DATA_ENTRIES 0) 671\<rparr>"

lemma week_last_ok: "schedule_ok week_last" "open_chunks (sc_data week_last) = {671}"
proof -
  show "schedule_ok week_last"
    unfolding week_last_def by (rule schedule_ok_data [OF schedule_ok_week]) simp
  have "open_chunks (replicate SCHEDULE_DATA_ENTRIES 0) = {}"
    using week_never by (simp add: week_of_def)
  then show "open_chunks (sc_data week_last) = {671}"
    by (simp add: week_last_def open_chunks_SetBit SCHED_NUMBER_INTERVALS_WEEK_def)
qed

lemma week_last_cached:
  "cache_ok (sorted_wrt (rtl_less TableCompare)) (\<lambda>t. t) (list_cache_one (search_key week_last))"
  "in_cache (\<lambda>t. t) (list_cache_one (search_key week_last)) (Some (search_key week_last))"
proof -
  have "CalculateDuration week_last \<noteq> TOPL_ALWAYS_DURATION"
    by (simp add: CalculateDuration_card week_last_ok TOPL_ALWAYS_DURATION_def SCHED_NUMBER_INTERVALS_WEEK_def)
  then show "cache_ok (sorted_wrt (rtl_less TableCompare)) (\<lambda>t. t) (list_cache_one (search_key week_last))"
    by (auto simp: cache_ok_def list_cache_init_def list_cache_one_def entry_ok_def search_key_def week_last_ok)
qed (simp add: in_cache_def list_cache_one_def)

lemma hourly_segments: "segmentation 4 {..<672} (map (\<lambda>k. 4 * k) [0..<168])"
proof -
  have "a \<in> (\<Union>s\<in>set (map (\<lambda>k. 4 * k) [0..<168]). {s..<s + 4})" if "a < 672" for a :: nat
  proof
    show "4 * (a div 4) \<in> set (map (\<lambda>k. 4 * k) [0..<168])"
      using that by auto
    show "a \<in> {4 * (a div 4)..<4 * (a div 4) + 4}"
      by auto
  qed
  moreover have "sorted_wrt (\<lambda>s s'. s + 4 \<le> s') (map (\<lambda>k. 4 * k) [0..<168])"
    unfolding sorted_wrt_map by (rule sorted_wrt_mono_rel [OF _ sorted_wrt_upt]) auto
  ultimately show ?thesis
    unfolding segmentation_def by auto
qed

theorem ToplScheduleCreate_segments_witness:
  "\<exists>c' r. ToplScheduleCreate list_table (Some list_cache_init) 60 None 7 = Inr (c', r) \<and> avail r = {c. c < 672 \<and> c mod 4 = 3}"
proof -
  have m: "interval_chunks 60 = 4" "unat (7 :: dword) = 7"
    by (simp_all add: interval_chunks_def)
  have all: "avail None = {..<672}"
    by (simp add: SCHED_NUMBER_INTERVALS_WEEK_def)
  have pick: "repl_pick {..<672} 4 7 (4 * k) = 4 * k + 3" if "k < 168" for k
  proof -
    have "{..<672} \<inter> {4 * k..<4 * k + 4} = set [4 * k..<4 * k + 4]"
      using that by auto
    then show ?thesis
      unfolding repl_pick_def by (simp only: sorted_list_of_set_sort_remdups) (simp add: sort_key_id_if_sorted)
  qed
  obtain c' r ss where r: "ToplScheduleCreate list_table (Some list_cache_init) 60 None 7 = Inr (c', r)"
      "segmentation 4 {..<672} ss" "avail r = repl_pick {..<672} 4 7 ` set ss"
    using ToplScheduleCreate_segments [where i = 60 and st = 7, OF list_cache_axioms list_cache_init_ok in_cache_None] unfolding m all by auto
  have "ss = map (\<lambda>k. 4 * k) [0..<168]"
    using segmentation_unique [OF r(2) hourly_segments] .
  then have "avail r = (\<lambda>k. repl_pick {..<672} 4 7 (4 * k)) ` {..<168}"
    unfolding r(3) by (simp add: image_image lessThan_atLeast0)
  also have "\<dots> = (\<lambda>k. 4 * k + 3) ` {..<168}"
    by (rule image_cong [OF refl]) (simp add: pick)
  also have "\<dots> = {c. c < 672 \<and> c mod 4 = 3}"
  proof (intro set_eqI iffI)
    fix c :: nat
    assume "c \<in> {c. c < 672 \<and> c mod 4 = 3}"
    then have "c = 4 * (c div 4) + 3" "c div 4 < 168"
      by (auto, presburger)
    then show "c \<in> (\<lambda>k. 4 * k + 3) ` {..<168}"
      by blast
  qed auto
  finally show ?thesis
    using r(1) by blast
qed

theorem ToplScheduleCreate_agrees_old_witness:
  "\<exists>c' r c''. ToplScheduleCreate list_table (Some list_cache_init) 60 None 0 = Inr (c', r) \<and>
     OldScheduleCreate list_table (Some c') 60 None = Inr (Some c'', r)"
  using ToplScheduleCreate_agrees_old [where i = 60, OF list_cache_axioms list_cache_init_ok in_cache_None]
  by simp

theorem ToplScheduleCreate_wraps_witness:
  "ToplScheduleCreate list_table (Some list_cache_init) 0xFFFFFFFF None 0 = Inr (list_cache_init, None)"
  using ToplScheduleCreate_wraps [where i = "0xFFFFFFFF" and T = list_table and h = None and st = 0, OF list_cache_init_ok]
  by simp

theorem ToplScheduleMaxUnavailable_longest_witness:
  "ToplScheduleMaxUnavailable (Some (search_key (week_of 0))) = Inr (MaxLen (15 * 672))"
  using ToplScheduleMaxUnavailable_longest [OF list_cache_one_ok [OF never_not_always]]
  by (simp add: search_key_def week_never)

theorem ToplScheduleMaxUnavailable_overread_witness:
  "ToplScheduleMaxUnavailable (Some (search_key week_last)) = Inr ReadPastEnd"
  using ToplScheduleMaxUnavailable_overread [OF week_last_cached] week_last_ok(2)
  by (simp add: search_key_def)

end
