(* ===== verification/Topl_STHeap.thy ===== *)
theory Topl_STHeap
  imports Topl_Prelude
begin

text \<open>
  The binary heap of the spanning-tree code, \<^verbatim>\<open>ds/src/common/w32topl/stheap.c\<close>. The heap stores
  pointers in the cells \<open>1, \<dots>, nextFreeSpot - 1\<close> of its data block and keeps, through callbacks of
  its client, the cell number of every stored element in a field of the element, so that an element
  whose cost was reduced can be found. The callbacks are a record of functions over the client's
  state (the \<^verbatim>\<open>extra\<close> pointer and the elements behind the pointers), which the operations return
  updated. \<^verbatim>\<open>ASSERT\<close>ed conditions are consequences of the invariant \<open>heap_ok\<close>.
\<close>

section \<open>Data and operations\<close>

definition STHEAP_NOT_IN_HEAP :: int where
  "STHEAP_NOT_IN_HEAP = - 1"

record ('e, 'x) heap_ops =
  Comp :: "'e \<Rightarrow> 'e \<Rightarrow> 'x \<Rightarrow> int"
  GetLocn :: "'e \<Rightarrow> 'x \<Rightarrow> int"
  SetLocn :: "'e \<Rightarrow> int \<Rightarrow> 'x \<Rightarrow> 'x"

text \<open>\<open>None\<close> is a null cell. The data block has two cells more than the heap's maximal size.\<close>

record 'e STHEAP =
  nextFreeSpot :: nat
  maxSize :: nat
  hdata :: "'e option list"

definition ToplSTHeapInit :: "nat \<Rightarrow> 'e STHEAP" where
  "ToplSTHeapInit msize = \<lparr>nextFreeSpot = 1, maxSize = msize, hdata = replicate (msize + 2) None\<rparr>"

definition HeapNumEmptySpots :: "'e STHEAP \<Rightarrow> int" where
  "HeapNumEmptySpots heap = int (maxSize heap) - int (nextFreeSpot heap) + 1"

abbreviation cell :: "'e option list \<Rightarrow> nat \<Rightarrow> 'e" where
  "cell d i \<equiv> the (d ! i)"

definition ELEMENT_MOVED :: "('e, 'x) heap_ops \<Rightarrow> nat \<Rightarrow> 'e STHEAP \<Rightarrow> 'x \<Rightarrow> 'x" where
  "ELEMENT_MOVED ops i heap x = SetLocn ops (cell (hdata heap) i) (int i) x"

text \<open>The exchange of two cells that both loops perform, \<open>i\<close> being reported first.\<close>

definition swap_cells :: "'e option list \<Rightarrow> nat \<Rightarrow> nat \<Rightarrow> 'e option list" where
  "swap_cells d i j = (let temp = d ! i in (d[i := d ! j])[j := temp])"

definition heap_swap :: "('e, 'x) heap_ops \<Rightarrow> nat \<Rightarrow> nat \<Rightarrow> 'e STHEAP \<Rightarrow> 'x \<Rightarrow> 'e STHEAP \<times> 'x" where
  "heap_swap ops i j heap x =
     (let heap = heap\<lparr>hdata := swap_cells (hdata heap) i j\<rparr>
      in (heap, ELEMENT_MOVED ops j heap (ELEMENT_MOVED ops i heap x)))"

function HeapBubbleUp :: "('e, 'x) heap_ops \<Rightarrow> nat \<Rightarrow> 'e STHEAP \<Rightarrow> 'x \<Rightarrow> 'e STHEAP \<times> 'x" where
  "HeapBubbleUp ops currentSpot heap x =
     (if currentSpot > 1 then
        let parent = currentSpot div 2;
            cmp = Comp ops (cell (hdata heap) parent) (cell (hdata heap) currentSpot) x
        in if cmp \<le> 0 then (heap, x)
           else let (heap', x') = heap_swap ops parent currentSpot heap x
                in HeapBubbleUp ops parent heap' x'
      else (heap, x))"
  by pat_completeness auto
termination
  by (relation "measure (\<lambda>(ops, c, heap, x). c)") auto

declare HeapBubbleUp.simps [simp del]

text \<open>The child, if any, that \<^verbatim>\<open>HeapBubbleDown\<close> exchanges with the current cell.\<close>

definition down_spot :: "('e, 'x) heap_ops \<Rightarrow> nat \<Rightarrow> 'e STHEAP \<Rightarrow> 'x \<Rightarrow> nat" where
  "down_spot ops currentSpot heap x =
     (let d = hdata heap; newSpot = currentSpot; left = 2 * currentSpot; right = left + 1;
          newSpot = (if left < nextFreeSpot heap \<and> Comp ops (cell d left) (cell d currentSpot) x < 0
                     then left else newSpot)
      in if right < nextFreeSpot heap \<and> Comp ops (cell d right) (cell d newSpot) x < 0
         then right else newSpot)"

lemma down_spot_cases:
  "down_spot ops c heap x = c \<or> c < down_spot ops c heap x \<and> down_spot ops c heap x < nextFreeSpot heap"
  by (cases "c = 0") (auto simp: down_spot_def Let_def)

lemma nextFreeSpot_swap [simp]: "nextFreeSpot (fst (heap_swap ops i j heap x)) = nextFreeSpot heap"
  by (simp add: heap_swap_def Let_def)

function HeapBubbleDown :: "('e, 'x) heap_ops \<Rightarrow> nat \<Rightarrow> 'e STHEAP \<Rightarrow> 'x \<Rightarrow> 'e STHEAP \<times> 'x" where
  "HeapBubbleDown ops currentSpot heap x =
     (let newSpot = down_spot ops currentSpot heap x
      in if newSpot \<noteq> currentSpot
         then HeapBubbleDown ops newSpot (fst (heap_swap ops newSpot currentSpot heap x))
                (snd (heap_swap ops newSpot currentSpot heap x))
         else (heap, x))"
  by pat_completeness auto
termination
proof (relation "measure (\<lambda>(ops, c, heap, x). nextFreeSpot heap - c)", goal_cases)
  case (2 ops c heap x s)
  then show ?case
    using down_spot_cases [of ops c heap x] by (auto split: prod.split simp del: nextFreeSpot_swap simp: heap_swap_def Let_def)
qed simp

declare HeapBubbleDown.simps [simp del]

definition ToplSTHeapAdd :: "('e, 'x) heap_ops \<Rightarrow> 'e \<Rightarrow> 'e STHEAP \<Rightarrow> 'x \<Rightarrow> 'e STHEAP \<times> 'x" where
  "ToplSTHeapAdd ops element heap x =
     (let insertionPoint = nextFreeSpot heap;
          heap = heap\<lparr>hdata := (hdata heap)[insertionPoint := Some element]\<rparr>;
          x = ELEMENT_MOVED ops insertionPoint heap x;
          heap = heap\<lparr>nextFreeSpot := nextFreeSpot heap + 1\<rparr>
      in HeapBubbleUp ops insertionPoint heap x)"

definition ToplSTHeapExtractMin ::
  "('e, 'x) heap_ops \<Rightarrow> 'e STHEAP \<Rightarrow> 'x \<Rightarrow> 'e option \<times> 'e STHEAP \<times> 'x" where
  "ToplSTHeapExtractMin ops heap x =
     (if nextFreeSpot heap = 1 then (None, heap, x)
      else
        let result = cell (hdata heap) 1;
            x = SetLocn ops result STHEAP_NOT_IN_HEAP x;
            heap = heap\<lparr>nextFreeSpot := nextFreeSpot heap - 1\<rparr>
        in if nextFreeSpot heap = 1 then (Some result, heap, x)
           else
             let heap = heap\<lparr>hdata := (hdata heap)[1 := hdata heap ! nextFreeSpot heap]\<rparr>;
                 x = ELEMENT_MOVED ops 1 heap x;
                 (heap, x) = HeapBubbleDown ops 1 heap x
             in (Some result, heap, x))"

definition ToplSTHeapCostReduced :: "('e, 'x) heap_ops \<Rightarrow> 'e \<Rightarrow> 'e STHEAP \<Rightarrow> 'x \<Rightarrow> 'e STHEAP \<times> 'x" where
  "ToplSTHeapCostReduced ops element heap x =
     (let locn = GetLocn ops element x in HeapBubbleUp ops (nat locn) heap x)"

section \<open>Order in the data block\<close>

definition heap_order :: "('e \<Rightarrow> 'e \<Rightarrow> bool) \<Rightarrow> 'e option list \<Rightarrow> nat \<Rightarrow> bool" where
  "heap_order le d n \<longleftrightarrow> (\<forall>i. 2 \<le> i \<and> i < n \<longrightarrow> le (cell d (i div 2)) (cell d i))"

text \<open>Order except above, or below, the cell \<open>c\<close>, whose children still follow its parent.\<close>

definition order_but_up :: "('e \<Rightarrow> 'e \<Rightarrow> bool) \<Rightarrow> 'e option list \<Rightarrow> nat \<Rightarrow> nat \<Rightarrow> bool" where
  "order_but_up le d n c \<longleftrightarrow>
     (\<forall>i. 2 \<le> i \<and> i < n \<and> i \<noteq> c \<longrightarrow> le (cell d (i div 2)) (cell d i)) \<and>
     (2 \<le> c \<longrightarrow> (\<forall>i. 2 \<le> i \<and> i < n \<and> i div 2 = c \<longrightarrow> le (cell d (c div 2)) (cell d i)))"

definition order_but_down :: "('e \<Rightarrow> 'e \<Rightarrow> bool) \<Rightarrow> 'e option list \<Rightarrow> nat \<Rightarrow> nat \<Rightarrow> bool" where
  "order_but_down le d n c \<longleftrightarrow>
     (\<forall>i. 2 \<le> i \<and> i < n \<and> i div 2 \<noteq> c \<longrightarrow> le (cell d (i div 2)) (cell d i)) \<and>
     (2 \<le> c \<longrightarrow> (\<forall>i. 2 \<le> i \<and> i < n \<and> i div 2 = c \<longrightarrow> le (cell d (c div 2)) (cell d i)))"

lemma nth_swap_cells:
  "i < length d \<Longrightarrow> j < length d \<Longrightarrow> swap_cells d i j ! k = d ! (if k = i then j else if k = j then i else k)"
  by (simp add: swap_cells_def Let_def nth_list_update)

lemma length_swap_cells [simp]: "length (swap_cells d i j) = length d"
  by (simp add: swap_cells_def Let_def)

lemma order_up_stop:
  assumes "order_but_up le d n c" and "c \<le> 1 \<or> le (cell d (c div 2)) (cell d c)"
  shows "heap_order le d n"
  using assms unfolding order_but_up_def heap_order_def by (metis not_less_eq_eq numeral_2_eq_2 One_nat_def)

lemma order_up_step:
  assumes trans: "\<And>a b c. le a b \<Longrightarrow> le b c \<Longrightarrow> le a c"
    and up: "order_but_up le d n c" and c: "2 \<le> c" "c < n" "n \<le> length d"
    and lt: "le (cell d c) (cell d (c div 2))"
  shows "order_but_up le (swap_cells d (c div 2) c) n (c div 2)"
proof -
  let ?p = "c div 2" and ?d = "swap_cells d (c div 2) c"
  have p: "?p < c" "?p < length d" "c < length d" "1 \<le> ?p"
    using c by auto
  have pc: "c \<noteq> ?p"
    using p(1) by linarith
  have nth: "cell ?d k = cell d (if k = ?p then c else if k = c then ?p else k)" for k
    using p by (simp add: nth_swap_cells)
  have par: "le (cell d (i div 2)) (cell d i)" if "2 \<le> i" "i < n" "i \<noteq> c" for i
    using up that by (simp add: order_but_up_def)
  have child: "le (cell d ?p) (cell d i)" if "2 \<le> i" "i < n" "i div 2 = c" for i
    using up that c by (simp add: order_but_up_def)
  have "le (cell ?d (i div 2)) (cell ?d i)" if i: "2 \<le> i" "i < n" "i \<noteq> ?p" for i
  proof (cases "i = c")
    case True
    with lt pc show ?thesis by (simp add: nth)
  next
    case False
    consider "i div 2 = ?p" | "i div 2 = c" | "i div 2 \<noteq> ?p" "i div 2 \<noteq> c" by blast
    then show ?thesis
    proof cases
      case 1
      then have "le (cell d ?p) (cell d i)"
        using par [OF i(1,2) False] by simp
      then show ?thesis
        using 1 False i(3) trans [OF lt] by (simp add: nth)
    next
      case 2
      then show ?thesis
        using child [OF i(1,2)] False i(3) pc by (simp add: nth)
    next
      case 3
      then show ?thesis
        using par [OF i(1,2) False] False i(3) by (simp add: nth)
    qed
  qed
  moreover have "le (cell ?d (?p div 2)) (cell ?d i)" if p2: "2 \<le> ?p" and i: "2 \<le> i" "i < n" "i div 2 = ?p" for i
  proof -
    have pp: "le (cell d (?p div 2)) (cell d ?p)"
      using par [of ?p] p2 p c by simp
    have ne: "?p div 2 \<noteq> ?p" "?p div 2 \<noteq> c" "i \<noteq> ?p"
      using p2 p i by auto
    show ?thesis
    proof (cases "i = c")
      case True
      with pp ne show ?thesis by (simp add: nth)
    next
      case False
      then have "le (cell d ?p) (cell d i)"
        using par [OF i(1,2)] i(3) by simp
      with pp have "le (cell d (?p div 2)) (cell d i)"
        by (rule trans)
      then show ?thesis
        using ne False by (simp add: nth)
    qed
  qed
  ultimately show ?thesis
    unfolding order_but_up_def by blast
qed

lemma order_down_stop:
  assumes "order_but_down le d n c" and "2 * c < n \<longrightarrow> le (cell d c) (cell d (2 * c))"
    and "2 * c + 1 < n \<longrightarrow> le (cell d c) (cell d (2 * c + 1))"
  shows "heap_order le d n"
  unfolding heap_order_def
proof (intro allI impI)
  fix i
  assume i: "2 \<le> i \<and> i < n"
  show "le (cell d (i div 2)) (cell d i)"
  proof (cases "i div 2 = c")
    case True
    then have "i = 2 * c \<or> i = 2 * c + 1" by auto
    with i assms(2,3) True show ?thesis by auto
  next
    case False
    with i assms(1) show ?thesis by (simp add: order_but_down_def)
  qed
qed

lemma order_down_step:
  assumes trans: "\<And>a b c. le a b \<Longrightarrow> le b c \<Longrightarrow> le a c"
    and down: "order_but_down le d n c" and c: "1 \<le> c" and s: "s div 2 = c" "s < n" "n \<le> length d"
    and lt: "le (cell d s) (cell d c)"
    and min: "\<And>i. i div 2 = c \<Longrightarrow> i < n \<Longrightarrow> le (cell d s) (cell d i)"
  shows "order_but_down le (swap_cells d s c) n s"
proof -
  let ?d = "swap_cells d s c"
  have cs: "c < s" "2 \<le> s" "c < length d" "s < length d"
    using c s by auto
  have nth: "cell ?d k = cell d (if k = s then c else if k = c then s else k)" for k
    using cs by (simp add: nth_swap_cells)
  have par: "le (cell d (i div 2)) (cell d i)" if "2 \<le> i" "i < n" "i div 2 \<noteq> c" for i
    using down that by (simp add: order_but_down_def)
  have "le (cell ?d (i div 2)) (cell ?d i)" if i: "2 \<le> i" "i < n" "i div 2 \<noteq> s" for i
  proof (cases "i div 2 = c")
    case True
    then have "i \<noteq> c"
      using c by auto
    then show ?thesis
      using True lt min [OF True i(2)] cs by (auto simp: nth)
  next
    case False
    show ?thesis
    proof (cases "i = c")
      case True
      with i have "le (cell d (c div 2)) (cell d s)"
        using down s cs by (auto simp: order_but_down_def)
      moreover have "c div 2 \<noteq> c" "c div 2 \<noteq> s"
        using c cs by auto
      ultimately show ?thesis
        using True cs by (simp add: nth)
    next
      case ic: False
      moreover have "i \<noteq> s"
        using False s by auto
      ultimately show ?thesis
        using par [OF i(1,2) False] False i(3) by (simp add: nth)
    qed
  qed
  moreover have "le (cell ?d (s div 2)) (cell ?d i)" if i: "2 \<le> i" "i < n" "i div 2 = s" for i
  proof -
    have "i \<noteq> s" "i \<noteq> c"
      using i cs by auto
    moreover have "le (cell d s) (cell d i)"
      using par [OF i(1,2)] i(3) cs by auto
    ultimately show ?thesis
      using s(1) cs by (simp add: nth)
  qed
  ultimately show ?thesis
    unfolding order_but_down_def by blast
qed

lemma heap_order_root:
  assumes refl: "\<And>a. le a a" and trans: "\<And>a b c. le a b \<Longrightarrow> le b c \<Longrightarrow> le a c"
    and "heap_order le d n" and "1 \<le> i" and "i < n"
  shows "le (cell d 1) (cell d i)"
  using assms(4,5)
proof (induction i rule: less_induct)
  case (less i)
  show ?case
  proof (cases "i = 1")
    case False
    then have "le (cell d (i div 2)) (cell d i)" "le (cell d 1) (cell d (i div 2))"
      using less assms(3) by (auto simp: heap_order_def)
    then show ?thesis
      using trans by blast
  qed (simp add: refl)
qed

section \<open>The client\<close>

text \<open>
  What the heap relies on: a location that was set is read back, for elements that exist; setting
  one changes neither the other locations, nor which elements exist, nor the comparison; and the
  comparison is a total preorder in every client state.
\<close>

locale heap_client =
  fixes ops :: "('e, 'x) heap_ops" and valid :: "'e \<Rightarrow> 'x \<Rightarrow> bool"
  assumes GetLocn_SetLocn: "valid e x \<Longrightarrow> GetLocn ops e (SetLocn ops e l x) = l"
    and GetLocn_SetLocn_other: "e' \<noteq> e \<Longrightarrow> GetLocn ops e' (SetLocn ops e l x) = GetLocn ops e' x"
    and valid_SetLocn: "valid e' (SetLocn ops e l x) = valid e' x"
    and Comp_SetLocn: "Comp ops a b (SetLocn ops e l x) = Comp ops a b x"
    and Comp_compare: "c_compare (\<lambda>a b. Comp ops a b x)"

text \<open>The elements in a heap, and the invariant.\<close>

definition heap_elems :: "'e STHEAP \<Rightarrow> 'e set" where
  "heap_elems heap = cell (hdata heap) ` {1..<nextFreeSpot heap}"

definition heap_shape :: "'e STHEAP \<Rightarrow> bool" where
  "heap_shape heap \<longleftrightarrow> 1 \<le> nextFreeSpot heap \<and> nextFreeSpot heap \<le> maxSize heap + 1 \<and>
     length (hdata heap) = maxSize heap + 2"

definition heap_locs :: "('e, 'x) heap_ops \<Rightarrow> ('e \<Rightarrow> 'x \<Rightarrow> bool) \<Rightarrow> 'e STHEAP \<Rightarrow> 'x \<Rightarrow> bool" where
  "heap_locs ops valid heap x \<longleftrightarrow>
     (\<forall>i. 1 \<le> i \<and> i < nextFreeSpot heap \<longrightarrow>
        hdata heap ! i \<noteq> None \<and> valid (cell (hdata heap) i) x \<and> GetLocn ops (cell (hdata heap) i) x = int i) \<and>
     (\<forall>e. valid e x \<and> e \<notin> heap_elems heap \<longrightarrow> GetLocn ops e x = STHEAP_NOT_IN_HEAP)"

definition heap_ok :: "('e, 'x) heap_ops \<Rightarrow> ('e \<Rightarrow> 'x \<Rightarrow> bool) \<Rightarrow> 'e STHEAP \<Rightarrow> 'x \<Rightarrow> bool" where
  "heap_ok ops valid heap x \<longleftrightarrow>
     heap_shape heap \<and> heap_locs ops valid heap x \<and>
     heap_order (\<lambda>a b. Comp ops a b x \<le> 0) (hdata heap) (nextFreeSpot heap)"

text \<open>The client states that differ from \<open>x\<close> in locations only.\<close>

inductive relocated :: "('e, 'x) heap_ops \<Rightarrow> 'x \<Rightarrow> 'x \<Rightarrow> bool" for ops x where
  relocated_refl: "relocated ops x x"
| relocated_set: "relocated ops x y \<Longrightarrow> relocated ops x (SetLocn ops e l y)"

lemma relocated_trans: "relocated ops x y \<Longrightarrow> relocated ops y z \<Longrightarrow> relocated ops x z"
  by (rotate_tac 1, induction rule: relocated.induct) (auto intro: relocated.intros)

lemma relocated_frame:
  assumes "relocated ops x y" and "\<And>e l x. f (SetLocn ops e l x) = f x"
  shows "f y = f x"
  using assms by (induction rule: relocated.induct) auto

lemma relocated_swap: "relocated ops x (snd (heap_swap ops i j heap x))"
  by (simp add: heap_swap_def Let_def ELEMENT_MOVED_def relocated.intros)

lemma heap_elems_iff: "e \<in> heap_elems heap \<longleftrightarrow> (\<exists>i. 1 \<le> i \<and> i < nextFreeSpot heap \<and> e = cell (hdata heap) i)"
  by (auto simp: heap_elems_def)

lemma heap_elems_swap:
  assumes "heap_shape heap" and "1 \<le> i" "i < nextFreeSpot heap" "1 \<le> j" "j < nextFreeSpot heap"
  shows "heap_elems (fst (heap_swap ops i j heap x)) = heap_elems heap"
proof -
  have len: "i < length (hdata heap)" "j < length (hdata heap)"
    using assms by (auto simp: heap_shape_def)
  have "cell (swap_cells (hdata heap) i j) k \<in> heap_elems heap" if "1 \<le> k" "k < nextFreeSpot heap" for k
    using assms that by (auto simp: nth_swap_cells [OF len] heap_elems_iff)
  moreover have "cell (hdata heap) k \<in> cell (swap_cells (hdata heap) i j) ` {1..<nextFreeSpot heap}"
    if "1 \<le> k" "k < nextFreeSpot heap" for k
    using assms that
    by (intro image_eqI [of _ _ "if k = i then j else if k = j then i else k"]) (auto simp: nth_swap_cells [OF len])
  ultimately show ?thesis
    by (auto simp: heap_elems_def heap_swap_def Let_def)
qed

lemma maxSize_swap [simp]: "maxSize (fst (heap_swap ops i j heap x)) = maxSize heap"
  by (simp add: heap_swap_def Let_def)

lemma heap_shape_swap [simp]: "heap_shape (fst (heap_swap ops i j heap x)) = heap_shape heap"
  by (simp add: heap_shape_def heap_swap_def Let_def)

context heap_client
begin

abbreviation le :: "'x \<Rightarrow> 'e \<Rightarrow> 'e \<Rightarrow> bool" where
  "le x \<equiv> (\<lambda>a b. Comp ops a b x \<le> 0)"

lemma le_refl: "le x a a"
  using c_compare.cmp_refl [OF Comp_compare] by simp

lemma le_trans: "le x a b \<Longrightarrow> le x b c \<Longrightarrow> le x a c"
  by (rule c_compare.cmp_trans [OF Comp_compare])

lemma le_total: "\<not> le x a b \<Longrightarrow> le x b a"
  using c_compare.cmp_total [OF Comp_compare] by blast

lemma Comp_relocated: "relocated ops x y \<Longrightarrow> Comp ops a b y = Comp ops a b x"
  by (rule relocated_frame [where ops = ops]) (simp_all add: Comp_SetLocn)

lemma valid_relocated: "relocated ops x y \<Longrightarrow> valid e y = valid e x"
  by (rule relocated_frame [where ops = ops]) (simp_all add: valid_SetLocn)

lemma cells_distinct:
  assumes "heap_locs ops valid heap x" "1 \<le> i" "i < nextFreeSpot heap" "1 \<le> j" "j < nextFreeSpot heap"
    "cell (hdata heap) i = cell (hdata heap) j"
  shows "i = j"
  using assms unfolding heap_locs_def by (metis of_nat_eq_iff)

lemma heap_locs_swap:
  assumes shape: "heap_shape heap" and locs: "heap_locs ops valid heap x"
    and ij: "1 \<le> i" "i < nextFreeSpot heap" "1 \<le> j" "j < nextFreeSpot heap" "i \<noteq> j"
  shows "heap_locs ops valid (fst (heap_swap ops i j heap x)) (snd (heap_swap ops i j heap x))"
proof -
  let ?h = "fst (heap_swap ops i j heap x)" and ?x = "snd (heap_swap ops i j heap x)"
  have len: "i < length (hdata heap)" "j < length (hdata heap)"
    using shape ij by (auto simp: heap_shape_def)
  have nth: "hdata ?h ! k = hdata heap ! (if k = i then j else if k = j then i else k)" for k
    by (simp add: heap_swap_def Let_def nth_swap_cells [OF len])
  have x: "?x = SetLocn ops (cell (hdata heap) i) (int j) (SetLocn ops (cell (hdata heap) j) (int i) x)"
    using ij by (simp add: heap_swap_def Let_def ELEMENT_MOVED_def nth_swap_cells [OF len])
  have ok: "hdata heap ! k \<noteq> None" "valid (cell (hdata heap) k) x" "GetLocn ops (cell (hdata heap) k) x = int k"
    if "1 \<le> k" "k < nextFreeSpot heap" for k
    using locs that by (auto simp: heap_locs_def)
  have ne: "cell (hdata heap) k \<noteq> cell (hdata heap) l" if "1 \<le> k" "k < nextFreeSpot heap" "1 \<le> l"
    "l < nextFreeSpot heap" "k \<noteq> l" for k l
    using cells_distinct [OF locs] that by blast
  have "hdata ?h ! k \<noteq> None \<and> valid (cell (hdata ?h) k) ?x \<and> GetLocn ops (cell (hdata ?h) k) ?x = int k"
    if k: "1 \<le> k" "k < nextFreeSpot heap" for k
  proof -
    consider "k = i" | "k = j" | "k \<noteq> i" "k \<noteq> j" by blast
    then show ?thesis
    proof cases
      case 1
      then show ?thesis
        using ok ij ne [of i j] by (simp add: nth x GetLocn_SetLocn GetLocn_SetLocn_other valid_SetLocn)
    next
      case 2
      then show ?thesis
        using ok ij by (simp add: nth x GetLocn_SetLocn valid_SetLocn)
    next
      case 3
      then show ?thesis
        using ok [OF k] ne [OF k ij(1,2)] ne [OF k ij(3,4)] by (simp add: nth x GetLocn_SetLocn_other valid_SetLocn)
    qed
  qed
  moreover have "GetLocn ops e ?x = STHEAP_NOT_IN_HEAP" if "valid e ?x" "e \<notin> heap_elems heap" for e
  proof -
    have "e \<noteq> cell (hdata heap) i" "e \<noteq> cell (hdata heap) j"
      using that(2) ij by (auto simp: heap_elems_iff)
    then show ?thesis
      using locs that by (simp add: x GetLocn_SetLocn_other heap_locs_def valid_SetLocn)
  qed
  ultimately show ?thesis
    unfolding heap_locs_def heap_elems_swap [OF shape ij(1-4)] by simp
qed

lemma BubbleUp_spec:
  assumes "heap_shape heap" and "heap_locs ops valid heap x" and "1 \<le> c" and "c < nextFreeSpot heap"
    and "order_but_up (le x) (hdata heap) (nextFreeSpot heap) c"
    and "HeapBubbleUp ops c heap x = (heap', x')"
  shows "heap_ok ops valid heap' x' \<and> relocated ops x x' \<and> heap_elems heap' = heap_elems heap \<and>
    nextFreeSpot heap' = nextFreeSpot heap \<and> maxSize heap' = maxSize heap"
  using assms
proof (induction c arbitrary: heap x rule: less_induct)
  case (less c)
  let ?p = "c div 2"
  let ?h = "fst (heap_swap ops ?p c heap x)" and ?x = "snd (heap_swap ops ?p c heap x)"
  show ?case
  proof (cases "c \<le> 1 \<or> le x (cell (hdata heap) ?p) (cell (hdata heap) c)")
    case True
    then have "heap' = heap" "x' = x"
      using less.prems(6) by (subst (asm) HeapBubbleUp.simps, auto simp: Let_def split: if_splits)+
    with less.prems order_up_stop [OF less.prems(5) True] show ?thesis
      by (simp add: heap_ok_def relocated_refl)
  next
    case False
    then have c: "2 \<le> c" "le x (cell (hdata heap) c) (cell (hdata heap) ?p)"
      using le_total by auto
    have p: "1 \<le> ?p" "?p < nextFreeSpot heap" "?p < c" "?p \<noteq> c"
      using c(1) less.prems(4) by auto
    have rec: "HeapBubbleUp ops ?p ?h ?x = (heap', x')"
      using less.prems(6) False by (subst (asm) HeapBubbleUp.simps) (simp add: Let_def split: prod.splits)
    have len: "nextFreeSpot heap \<le> length (hdata heap)"
      using less.prems(1) by (simp add: heap_shape_def)
    have "order_but_up (le x) (swap_cells (hdata heap) ?p c) (nextFreeSpot heap) ?p"
      using order_up_step [OF le_trans less.prems(5) c(1) less.prems(4) len c(2)] .
    then have ord: "order_but_up (le ?x) (hdata ?h) (nextFreeSpot ?h) ?p"
      by (simp add: Comp_relocated [OF relocated_swap]) (simp add: heap_swap_def Let_def)
    have "heap_ok ops valid heap' x' \<and> relocated ops ?x x' \<and> heap_elems heap' = heap_elems ?h \<and>
        nextFreeSpot heap' = nextFreeSpot ?h \<and> maxSize heap' = maxSize ?h"
      by (rule less.IH [OF p(3) _ heap_locs_swap [OF less.prems(1,2) p(1,2) less.prems(3,4) p(4)] p(1) _ ord rec])
        (use less.prems(1) p(2) in simp_all)
    then show ?thesis
      using heap_elems_swap [OF less.prems(1) p(1,2) less.prems(3,4), of ops x]
      by (auto intro: relocated_trans [OF relocated_swap])
  qed
qed

lemma le_flip: "\<not> Comp ops a b x < 0 \<Longrightarrow> le x b a"
  using c_compare.cmp_sym [OF Comp_compare [of x], of a b] by auto

lemma down_spot_stop:
  assumes "1 \<le> c" and "down_spot ops c heap x = c"
  shows "2 * c < nextFreeSpot heap \<longrightarrow> le x (cell (hdata heap) c) (cell (hdata heap) (2 * c))"
    and "2 * c + 1 < nextFreeSpot heap \<longrightarrow> le x (cell (hdata heap) c) (cell (hdata heap) (2 * c + 1))"
  using assms by (auto simp: down_spot_def Let_def intro: le_flip split: if_splits)

lemma down_spot_step:
  assumes "1 \<le> c" and "down_spot ops c heap x \<noteq> c"
  shows "down_spot ops c heap x div 2 = c" "down_spot ops c heap x < nextFreeSpot heap"
    "le x (cell (hdata heap) (down_spot ops c heap x)) (cell (hdata heap) c)"
    "i div 2 = c \<Longrightarrow> i < nextFreeSpot heap \<Longrightarrow> le x (cell (hdata heap) (down_spot ops c heap x)) (cell (hdata heap) i)"
proof -
  let ?d = "hdata heap" and ?l = "2 * c" and ?r = "2 * c + 1" and ?n = "nextFreeSpot heap"
  consider (rl) "down_spot ops c heap x = ?r" "?r < ?n" "Comp ops (cell ?d ?r) (cell ?d ?l) x < 0" "Comp ops (cell ?d ?l) (cell ?d c) x < 0"
    | (rc) "down_spot ops c heap x = ?r" "?r < ?n" "Comp ops (cell ?d ?r) (cell ?d c) x < 0" "\<not> Comp ops (cell ?d ?l) (cell ?d c) x < 0"
    | (l) "down_spot ops c heap x = ?l" "?l < ?n" "Comp ops (cell ?d ?l) (cell ?d c) x < 0"
        "?r < ?n \<longrightarrow> \<not> Comp ops (cell ?d ?r) (cell ?d ?l) x < 0"
    using assms(2) by (auto simp: down_spot_def Let_def split: if_splits)
  note cs = this
  show "down_spot ops c heap x div 2 = c" "down_spot ops c heap x < nextFreeSpot heap"
    using cs by (cases; simp)+
  have rc: "le x (cell ?d (down_spot ops c heap x)) (cell ?d c) \<and>
      (?l < ?n \<longrightarrow> le x (cell ?d (down_spot ops c heap x)) (cell ?d ?l)) \<and>
      (?r < ?n \<longrightarrow> le x (cell ?d (down_spot ops c heap x)) (cell ?d ?r))"
    using cs
  proof cases
    case rl
    then show ?thesis
      using le_trans [of "cell ?d ?r" "cell ?d ?l" x "cell ?d c"] le_refl by simp
  next
    case rc
    then show ?thesis
      using le_flip [of "cell ?d ?l" "cell ?d c" x] le_trans [of "cell ?d ?r" "cell ?d c" x "cell ?d ?l"] le_refl by simp
  next
    case l
    then show ?thesis
      using le_flip [of "cell ?d ?r" "cell ?d ?l" x] le_refl by auto
  qed
  then show "le x (cell ?d (down_spot ops c heap x)) (cell ?d c)" by blast
  show "le x (cell ?d (down_spot ops c heap x)) (cell ?d i)" if "i div 2 = c" "i < ?n"
  proof -
    have "i = ?l \<or> i = ?r"
      using that(1) by auto
    with rc that(2) show ?thesis by blast
  qed
qed

lemma BubbleDown_spec:
  assumes "heap_shape heap" and "heap_locs ops valid heap x" and "1 \<le> c" and "c < nextFreeSpot heap"
    and "order_but_down (le x) (hdata heap) (nextFreeSpot heap) c"
    and "HeapBubbleDown ops c heap x = (heap', x')"
  shows "heap_ok ops valid heap' x' \<and> relocated ops x x' \<and> heap_elems heap' = heap_elems heap \<and>
    nextFreeSpot heap' = nextFreeSpot heap \<and> maxSize heap' = maxSize heap"
  using assms
proof (induction "nextFreeSpot heap - c" arbitrary: c heap x rule: less_induct)
  case less
  define s where "s = down_spot ops c heap x"
  let ?h = "fst (heap_swap ops s c heap x)" and ?x = "snd (heap_swap ops s c heap x)"
  show ?case
  proof (cases "s = c")
    case True
    then have "heap' = heap" "x' = x"
      using less.prems(6) by (subst (asm) HeapBubbleDown.simps, simp add: Let_def s_def)+
    moreover have "heap_order (le x) (hdata heap) (nextFreeSpot heap)"
      by (rule order_down_stop [OF less.prems(5) down_spot_stop [OF less.prems(3)]])
        (use True s_def in simp_all)
    ultimately show ?thesis
      using less.prems by (simp add: heap_ok_def relocated_refl)
  next
    case False
    note st = down_spot_step [OF less.prems(3), of heap x, folded s_def, OF False]
    have sc: "1 \<le> s" "s \<noteq> c" "c < s"
      using st(1) less.prems(3) False by auto
    have rec: "HeapBubbleDown ops s ?h ?x = (heap', x')"
      using less.prems(6) False by (subst (asm) HeapBubbleDown.simps) (simp add: Let_def flip: s_def)
    have len: "nextFreeSpot heap \<le> length (hdata heap)"
      using less.prems(1) by (simp add: heap_shape_def)
    have "order_but_down (le x) (swap_cells (hdata heap) s c) (nextFreeSpot heap) s"
      by (rule order_down_step [OF le_trans less.prems(5,3) st(1,2) len st(3,4)])
    then have ord: "order_but_down (le ?x) (hdata ?h) (nextFreeSpot ?h) s"
      by (simp add: Comp_relocated [OF relocated_swap]) (simp add: heap_swap_def Let_def)
    have "heap_ok ops valid heap' x' \<and> relocated ops ?x x' \<and> heap_elems heap' = heap_elems ?h \<and>
        nextFreeSpot heap' = nextFreeSpot ?h \<and> maxSize heap' = maxSize ?h"
      by (rule less.hyps [OF _ _ heap_locs_swap [OF less.prems(1,2) sc(1) st(2) less.prems(3,4) sc(2)] sc(1) _ ord rec])
        (use less.prems(1,4) st(2) sc(3) in simp_all)
    then show ?thesis
      using heap_elems_swap [OF less.prems(1) sc(1) st(2) less.prems(3,4), of ops x]
      by (auto intro: relocated_trans [OF relocated_swap])
  qed
qed

lemma heap_elems_Suc:
  "1 \<le> nextFreeSpot heap \<Longrightarrow> nextFreeSpot heap < length (hdata heap) \<Longrightarrow>
   heap_elems (heap\<lparr>hdata := (hdata heap)[nextFreeSpot heap := Some e], nextFreeSpot := Suc (nextFreeSpot heap)\<rparr>) =
   insert e (heap_elems heap)"
  unfolding heap_elems_def
  by (simp add: atLeastLessThanSuc)

lemma Add_spec:
  assumes ok: "heap_ok ops valid heap x" and e: "valid e x" "e \<notin> heap_elems heap"
    and room: "nextFreeSpot heap \<le> maxSize heap"
    and add: "ToplSTHeapAdd ops e heap x = (heap', x')"
  shows "heap_ok ops valid heap' x' \<and> relocated ops x x' \<and> heap_elems heap' = insert e (heap_elems heap) \<and>
    nextFreeSpot heap' = Suc (nextFreeSpot heap) \<and> maxSize heap' = maxSize heap"
proof -
  let ?n = "nextFreeSpot heap"
  let ?h = "heap\<lparr>hdata := (hdata heap)[?n := Some e], nextFreeSpot := Suc ?n\<rparr>"
  let ?x = "SetLocn ops e (int ?n) x"
  have n: "1 \<le> ?n" "?n < length (hdata heap)" "heap_shape heap" and locs: "heap_locs ops valid heap x"
    and ord: "heap_order (le x) (hdata heap) ?n"
    using ok room by (auto simp: heap_ok_def heap_shape_def)
  have shape: "heap_shape ?h"
    using n room by (simp add: heap_shape_def)
  have elems: "heap_elems ?h = insert e (heap_elems heap)"
    using heap_elems_Suc [OF n(1,2)] .
  have nth: "hdata ?h ! k = (if k = ?n then Some e else hdata heap ! k)" for k
    using n(2) by (simp add: nth_list_update)
  have old: "cell (hdata heap) k \<noteq> e" if "1 \<le> k" "k < ?n" for k
    using e(2) that by (auto simp: heap_elems_iff)
  have lx: "heap_locs ops valid ?h ?x"
    unfolding heap_locs_def elems
  proof (intro conjI allI impI)
    fix k
    assume "1 \<le> k \<and> k < nextFreeSpot ?h"
    then have k: "1 \<le> k" "k = ?n \<or> k < ?n" by auto
    have "hdata heap ! k \<noteq> None \<and> valid (cell (hdata heap) k) x \<and> GetLocn ops (cell (hdata heap) k) x = int k" if "k < ?n"
      using locs k(1) that by (simp add: heap_locs_def)
    with k old e(1) show "hdata ?h ! k \<noteq> None" "valid (cell (hdata ?h) k) ?x" "GetLocn ops (cell (hdata ?h) k) ?x = int k"
      unfolding nth by (auto simp: GetLocn_SetLocn GetLocn_SetLocn_other valid_SetLocn)
  next
    fix e'
    assume "valid e' ?x \<and> e' \<notin> insert e (heap_elems heap)"
    then show "GetLocn ops e' ?x = STHEAP_NOT_IN_HEAP"
      using locs by (simp add: heap_locs_def GetLocn_SetLocn_other valid_SetLocn)
  qed
  have ox: "order_but_up (le ?x) (hdata ?h) (nextFreeSpot ?h) ?n"
    using ord n(1) unfolding heap_order_def order_but_up_def nth by (auto simp: less_Suc_eq Comp_SetLocn)
  have bx: "HeapBubbleUp ops ?n ?h ?x = (heap', x')"
    using add n(2) by (simp add: ToplSTHeapAdd_def Let_def ELEMENT_MOVED_def)
  have "heap_ok ops valid heap' x' \<and> relocated ops ?x x' \<and> heap_elems heap' = heap_elems ?h \<and>
      nextFreeSpot heap' = nextFreeSpot ?h \<and> maxSize heap' = maxSize ?h"
    by (rule BubbleUp_spec [OF shape lx n(1) _ ox bx]) simp
  then show ?thesis
    using elems relocated_trans [of ops x ?x x'] relocated_set [OF relocated_refl, of ops x e "int ?n"] by simp
qed

lemma CostReduced_spec:
  assumes "heap_shape heap" and "heap_locs ops valid heap x" and e: "e \<in> heap_elems heap"
    and ord: "order_but_up (le x) (hdata heap) (nextFreeSpot heap) (nat (GetLocn ops e x))"
    and red: "ToplSTHeapCostReduced ops e heap x = (heap', x')"
  shows "heap_ok ops valid heap' x' \<and> relocated ops x x' \<and> heap_elems heap' = heap_elems heap \<and>
    nextFreeSpot heap' = nextFreeSpot heap \<and> maxSize heap' = maxSize heap"
proof -
  have "1 \<le> nat (GetLocn ops e x)" "nat (GetLocn ops e x) < nextFreeSpot heap"
    using assms(2) e by (auto simp: heap_elems_iff heap_locs_def)
  from BubbleUp_spec [OF assms(1,2) this ord] red show ?thesis
    unfolding ToplSTHeapCostReduced_def Let_def by blast
qed

lemma ExtractMin_empty:
  assumes "heap_ok ops valid heap x"
  shows "heap_elems heap = {} \<longleftrightarrow> nextFreeSpot heap = 1"
  using assms by (auto simp: heap_elems_def heap_ok_def heap_shape_def)

lemma heap_min:
  assumes "heap_ok ops valid heap x" and "e \<in> heap_elems heap"
  shows "le x (cell (hdata heap) 1) e"
  using assms heap_order_root [where le = "le x", OF le_refl le_trans] by (auto simp: heap_ok_def heap_elems_iff)

lemma ExtractMin_spec:
  assumes ok: "heap_ok ops valid heap x" and ne: "nextFreeSpot heap \<noteq> 1"
    and ext: "ToplSTHeapExtractMin ops heap x = (r, heap', x')"
  shows "r = Some (cell (hdata heap) 1) \<and> cell (hdata heap) 1 \<in> heap_elems heap \<and>
    heap_ok ops valid heap' x' \<and> relocated ops x x' \<and>
    heap_elems heap' = heap_elems heap - {cell (hdata heap) 1} \<and>
    nextFreeSpot heap' = nextFreeSpot heap - 1 \<and> maxSize heap' = maxSize heap"
proof -
  define m where "m = nextFreeSpot heap - 1"
  let ?e = "cell (hdata heap) 1"
  let ?x = "SetLocn ops ?e STHEAP_NOT_IN_HEAP x"
  have shape: "heap_shape heap" and locs: "heap_locs ops valid heap x"
    and ord: "heap_order (le x) (hdata heap) (nextFreeSpot heap)" and n: "nextFreeSpot heap = Suc m" "1 \<le> m"
    and len: "m < length (hdata heap)" "1 < length (hdata heap)"
    using ok ne by (auto simp: heap_ok_def heap_shape_def m_def)
  have e: "?e \<in> heap_elems heap" "valid ?e x"
    using n locs by (auto simp: heap_elems_iff heap_locs_def)
  have cell_ok: "hdata heap ! k \<noteq> None \<and> valid (cell (hdata heap) k) x \<and> GetLocn ops (cell (hdata heap) k) x = int k"
    if "1 \<le> k" "k \<le> m" for k
    using locs n that by (simp add: heap_locs_def)
  have ne_e: "cell (hdata heap) k \<noteq> ?e" if "2 \<le> k" "k \<le> m" for k
    using cells_distinct [OF locs, of k 1] n that by auto
  have out: "GetLocn ops e' x = STHEAP_NOT_IN_HEAP" if "valid e' x" "e' \<notin> heap_elems heap" for e'
    using locs that by (simp add: heap_locs_def)
  show ?thesis
  proof (cases "m = 1")
    case True
    let ?h = "heap\<lparr>nextFreeSpot := m\<rparr>"
    have res: "r = Some ?e" "heap' = ?h" "x' = ?x"
      using ext ne n True by (auto simp: ToplSTHeapExtractMin_def Let_def)
    have el: "heap_elems ?h = {}" "heap_elems heap = {?e}"
      using True n by (auto simp: heap_elems_iff less_Suc_eq)
    have "heap_locs ops valid ?h ?x"
      unfolding heap_locs_def el using True out e(2) el(2) by (auto simp: GetLocn_SetLocn_other GetLocn_SetLocn valid_SetLocn)
        (metis GetLocn_SetLocn GetLocn_SetLocn_other singletonD)
    moreover have "heap_shape ?h" "heap_order (le ?x) (hdata ?h) (nextFreeSpot ?h)"
      using shape True n by (auto simp: heap_shape_def heap_order_def)
    ultimately show ?thesis
      using res e el n by (simp add: heap_ok_def relocated.intros)
  next
    case False
    then have m2: "2 \<le> m" using n by simp
    let ?l = "cell (hdata heap) m"
    let ?h = "heap\<lparr>nextFreeSpot := m, hdata := (hdata heap)[1 := hdata heap ! m]\<rparr>"
    let ?y = "SetLocn ops ?l 1 ?x"
    have nth: "hdata ?h ! k = (if k = 1 then hdata heap ! m else hdata heap ! k)" for k
      using len by (simp add: nth_list_update)
    obtain h1 y1 where down: "HeapBubbleDown ops 1 ?h ?y = (h1, y1)"
      by (cases "HeapBubbleDown ops 1 ?h ?y")
    then have res: "r = Some ?e" "heap' = h1" "x' = y1"
      using ext ne n m2 len by (auto simp: ToplSTHeapExtractMin_def Let_def ELEMENT_MOVED_def)
    have el: "heap_elems ?h = heap_elems heap - {?e}"
    proof -
      have "heap_elems ?h = cell (hdata heap) ` {2..m}"
      proof -
        have "heap_elems ?h = (\<lambda>k. cell (hdata heap) (if k = 1 then m else k)) ` {1..<m}"
          unfolding heap_elems_def nth by (intro image_cong) auto
        also have "\<dots> = cell (hdata heap) ` ((\<lambda>k. if k = 1 then m else k) ` {1..<m})"
          by (simp only: image_image)
        also have "(\<lambda>k. if k = 1 then m else k) ` {1..<m} = {2..m}"
          using m2 by (auto simp: image_iff)
        finally show ?thesis .
      qed
      moreover have "heap_elems heap = insert ?e (cell (hdata heap) ` {2..m})"
      proof -
        have "{1..<nextFreeSpot heap} = insert 1 {2..m}"
          using n m2 by auto
        then show ?thesis by (simp add: heap_elems_def)
      qed
      moreover have "?e \<notin> cell (hdata heap) ` {2..m}"
      proof
        assume "?e \<in> cell (hdata heap) ` {2..m}"
        then obtain k where "2 \<le> k" "k \<le> m" "?e = cell (hdata heap) k" by auto
        with ne_e show False by metis
      qed
      ultimately show ?thesis by blast
    qed
    have "heap_locs ops valid ?h ?y"
      unfolding heap_locs_def el
    proof (intro conjI allI impI)
      fix k
      assume "1 \<le> k \<and> k < nextFreeSpot ?h"
      then have k: "1 \<le> k" "k < m" by auto
      have "cell (hdata heap) k \<noteq> ?l"
        using cells_distinct [OF locs, of k m] k n by auto
      with k cell_ok [of k] cell_ok [of m] m2 ne_e [of m] ne_e [of k]
      show "hdata ?h ! k \<noteq> None" "valid (cell (hdata ?h) k) ?y" "GetLocn ops (cell (hdata ?h) k) ?y = int k"
        unfolding nth by (cases "k = 1"; auto simp: GetLocn_SetLocn GetLocn_SetLocn_other valid_SetLocn)+
    next
      fix e'
      assume e': "valid e' ?y \<and> e' \<notin> heap_elems heap - {?e}"
      have "?l \<in> heap_elems heap - {?e}"
        using ne_e [of m] m2 n by (auto simp: heap_elems_iff intro!: exI [of _ m])
      then have "e' \<noteq> ?l" using e' by blast
      with e' out [of e'] e(2) show "GetLocn ops e' ?y = STHEAP_NOT_IN_HEAP"
        by (cases "e' = ?e") (auto simp: GetLocn_SetLocn GetLocn_SetLocn_other valid_SetLocn)
    qed
    moreover have "heap_shape ?h"
      using shape n m2 by (auto simp: heap_shape_def)
    moreover have "order_but_down (le ?y) (hdata ?h) (nextFreeSpot ?h) 1"
      using ord n unfolding heap_order_def order_but_down_def nth by (auto simp: Comp_SetLocn)
    ultimately have "heap_ok ops valid h1 y1 \<and> relocated ops ?y y1 \<and> heap_elems h1 = heap_elems ?h \<and>
        nextFreeSpot h1 = nextFreeSpot ?h \<and> maxSize h1 = maxSize ?h"
      using BubbleDown_spec [of ?h ?y 1 h1 y1] down m2 by simp
    moreover have "relocated ops x ?y"
      by (intro relocated.intros)
    ultimately show ?thesis
      using res e(1) el n relocated_trans [of ops x ?y y1] by simp
  qed
qed

text \<open>
  When the client has lowered the cost of \<open>e\<close> and nothing else, the heap is in order but above \<open>e\<close>.
\<close>

lemma reduced_order:
  assumes ok: "heap_ok ops valid heap x0" and e: "e \<in> heap_elems heap"
    and same: "\<And>e. valid e x = valid e x0" "\<And>e. GetLocn ops e x = GetLocn ops e x0"
    and others: "\<And>a b. a \<noteq> e \<Longrightarrow> b \<noteq> e \<Longrightarrow> Comp ops a b x = Comp ops a b x0"
    and reduced: "\<And>b. b \<noteq> e \<Longrightarrow> le x0 e b \<Longrightarrow> le x e b"
  shows "heap_locs ops valid heap x" "order_but_up (le x) (hdata heap) (nextFreeSpot heap) (nat (GetLocn ops e x))"
proof -
  have locs: "heap_locs ops valid heap x0" and ord: "heap_order (le x0) (hdata heap) (nextFreeSpot heap)"
    using ok by (auto simp: heap_ok_def)
  show "heap_locs ops valid heap x"
    using locs unfolding heap_locs_def same by blast
  let ?d = "hdata heap"
  from e obtain c where c: "1 \<le> c" "c < nextFreeSpot heap" "e = cell ?d c"
    by (auto simp: heap_elems_iff)
  then have cl: "nat (GetLocn ops e x) = c"
    using locs by (simp add: heap_locs_def same)
  have ne: "cell ?d k \<noteq> e" if "1 \<le> k" "k < nextFreeSpot heap" "k \<noteq> c" for k
    using cells_distinct [OF locs, of k c] c that by auto
  have par: "le x0 (cell ?d (i div 2)) (cell ?d i)" if "2 \<le> i" "i < nextFreeSpot heap" for i
    using ord that by (simp add: heap_order_def)
  have "le x (cell ?d (i div 2)) (cell ?d i)" if i: "2 \<le> i" "i < nextFreeSpot heap" "i \<noteq> c" for i
    using par [OF i(1,2)] reduced [OF ne [of i]] others ne [of i] ne [of "i div 2"] i c(3)
    by (cases "i div 2 = c") auto
  moreover have "le x (cell ?d (c div 2)) (cell ?d i)"
    if i: "2 \<le> c" "2 \<le> i" "i < nextFreeSpot heap" "i div 2 = c" for i
  proof -
    have "le x0 (cell ?d (c div 2)) (cell ?d i)"
      using par [of c] par [OF i(2,3)] i c by (auto intro: le_trans)
    moreover have "i \<noteq> c" "c div 2 \<noteq> c"
      using i by auto
    ultimately show ?thesis
      using others ne [of i] ne [of "c div 2"] i c by auto
  qed
  ultimately show "order_but_up (le x) ?d (nextFreeSpot heap) (nat (GetLocn ops e x))"
    unfolding order_but_up_def cl by blast
qed

end

section \<open>Properties\<close>

text \<open>Adding an element that is not yet in the heap, while there is room, keeps the invariant: the
  cells are in heap order and every element knows its cell. The elements are the old ones and the new
  one, and of the client's state only locations change.\<close>

theorem ToplSTHeapAdd_correct:
  assumes "heap_client ops valid" and "heap_ok ops valid heap x" and "valid e x"
    and "e \<notin> heap_elems heap" and "HeapNumEmptySpots heap \<ge> 1"
  shows "case ToplSTHeapAdd ops e heap x of (heap', x') \<Rightarrow>
    heap_ok ops valid heap' x' \<and> heap_elems heap' = insert e (heap_elems heap) \<and> relocated ops x x' \<and>
    HeapNumEmptySpots heap' = HeapNumEmptySpots heap - 1"
proof -
  obtain heap' x' where add: "ToplSTHeapAdd ops e heap x = (heap', x')"
    by (cases "ToplSTHeapAdd ops e heap x")
  have "nextFreeSpot heap \<le> maxSize heap"
    using assms(5) by (simp add: HeapNumEmptySpots_def)
  from heap_client.Add_spec [OF assms(1-4) this add] add show ?thesis
    by (simp add: HeapNumEmptySpots_def)
qed

text \<open>Extracting from a heap in order returns nothing exactly when it is empty, and otherwise an
  element that no other element of the heap precedes; that element leaves the heap, its location
  becomes \<^verbatim>\<open>STHEAP_NOT_IN_HEAP\<close>, and the invariant holds of the rest.\<close>

theorem ToplSTHeapExtractMin_correct:
  assumes "heap_client ops valid" and "heap_ok ops valid heap x"
  shows "case ToplSTHeapExtractMin ops heap x of
      (None, heap', x') \<Rightarrow> heap_elems heap = {} \<and> heap' = heap \<and> x' = x
    | (Some e, heap', x') \<Rightarrow>
        e \<in> heap_elems heap \<and> (\<forall>b\<in>heap_elems heap. Comp ops e b x \<le> 0) \<and>
        heap_elems heap' = heap_elems heap - {e} \<and> heap_ok ops valid heap' x' \<and>
        relocated ops x x' \<and> GetLocn ops e x' = STHEAP_NOT_IN_HEAP"
proof (cases "nextFreeSpot heap = 1")
  case True
  then show ?thesis
    using heap_client.ExtractMin_empty [OF assms] by (simp add: ToplSTHeapExtractMin_def)
next
  case False
  obtain r heap' x' where ext: "ToplSTHeapExtractMin ops heap x = (r, heap', x')"
    by (cases "ToplSTHeapExtractMin ops heap x")
  note spec = heap_client.ExtractMin_spec [OF assms False ext]
  let ?e = "cell (hdata heap) 1"
  have "valid ?e x"
    using assms(2) False by (auto simp: heap_ok_def heap_shape_def heap_locs_def)
  then have "GetLocn ops ?e x' = STHEAP_NOT_IN_HEAP"
    using spec heap_client.valid_relocated [OF assms(1), of x x' ?e] by (auto simp: heap_ok_def heap_locs_def)
  with spec ext heap_client.heap_min [OF assms] show ?thesis
    by simp
qed

text \<open>When the client has lowered the cost of one element of the heap and changed nothing else the
  heap looks at, \<^verbatim>\<open>ToplSTHeapCostReduced\<close> restores the invariant with the same elements.\<close>

theorem ToplSTHeapCostReduced_correct:
  assumes "heap_client ops valid" and "heap_ok ops valid heap x0" and "e \<in> heap_elems heap"
    and "\<forall>e. valid e x = valid e x0 \<and> GetLocn ops e x = GetLocn ops e x0"
    and "\<forall>a b. a \<noteq> e \<longrightarrow> b \<noteq> e \<longrightarrow> Comp ops a b x = Comp ops a b x0"
    and "\<forall>b. b \<noteq> e \<longrightarrow> Comp ops e b x0 \<le> 0 \<longrightarrow> Comp ops e b x \<le> 0"
  shows "case ToplSTHeapCostReduced ops e heap x of (heap', x') \<Rightarrow>
    heap_ok ops valid heap' x' \<and> heap_elems heap' = heap_elems heap \<and> relocated ops x x'"
proof -
  obtain heap' x' where red: "ToplSTHeapCostReduced ops e heap x = (heap', x')"
    by (cases "ToplSTHeapCostReduced ops e heap x")
  have shape: "heap_shape heap"
    using assms(2) by (simp add: heap_ok_def)
  note ro = heap_client.reduced_order [OF assms(1-3), of x]
  from heap_client.CostReduced_spec [OF assms(1) shape ro(1) assms(3) ro(2) red] assms(4-6) red
  show ?thesis
    by simp
qed

section \<open>A concrete client\<close>

text \<open>Elements are numbers ordered by size, and the client's state maps them to their locations.\<close>

definition number_ops :: "(nat, nat \<Rightarrow> int) heap_ops" where
  "number_ops = \<lparr>Comp = (\<lambda>a b x. int a - int b), GetLocn = (\<lambda>a x. x a), SetLocn = (\<lambda>a l x. x(a := l))\<rparr>"

interpretation number_client: heap_client number_ops "\<lambda>e x. True"
  by unfold_locales (auto simp: number_ops_def)

lemma number_heap_init: "heap_ok number_ops (\<lambda>e x. True) (ToplSTHeapInit n) (\<lambda>_. - 1)"
  by (simp add: heap_ok_def heap_shape_def heap_locs_def heap_order_def ToplSTHeapInit_def number_ops_def
      STHEAP_NOT_IN_HEAP_def)

lemma number_heap_empty: "heap_elems (ToplSTHeapInit n) = {}"
  by (simp add: heap_elems_def ToplSTHeapInit_def)

definition number_heap :: "nat STHEAP" where
  "number_heap = \<lparr>nextFreeSpot = 2, maxSize = 3, hdata = [None, Some 7, None, None, None]\<rparr>"

definition number_locs :: "nat \<Rightarrow> int" where
  "number_locs = (\<lambda>_. - 1)(7 := 1)"

lemma number_heap_ok: "heap_ok number_ops (\<lambda>e x. True) number_heap number_locs" "heap_elems number_heap = {7}"
proof -
  have i: "1 \<le> i \<and> i < (2::nat) \<longleftrightarrow> i = 1" for i
    by auto
  show el: "heap_elems number_heap = {7}"
    using i by (auto simp: heap_elems_def number_heap_def image_iff)
  show "heap_ok number_ops (\<lambda>e x. True) number_heap number_locs"
    unfolding heap_ok_def heap_locs_def el
    using i by (auto simp: number_heap_def number_ops_def number_locs_def heap_shape_def i heap_order_def STHEAP_NOT_IN_HEAP_def)
qed

lemma number_spots: "HeapNumEmptySpots number_heap = 2"
  by (simp add: HeapNumEmptySpots_def number_heap_def)

theorem ToplSTHeapAdd_correct_witness:
  "case ToplSTHeapAdd number_ops 4 number_heap number_locs of (heap', x') \<Rightarrow> heap_elems heap' = {4, 7}"
  using ToplSTHeapAdd_correct [OF number_client.heap_client_axioms number_heap_ok(1), of 4]
  unfolding number_heap_ok(2) number_spots by (auto split: prod.splits)

theorem ToplSTHeapExtractMin_correct_witness:
  "case ToplSTHeapExtractMin number_ops number_heap number_locs of (r, heap', x') \<Rightarrow> r = Some 7 \<and> heap_elems heap' = {}"
  using ToplSTHeapExtractMin_correct [OF number_client.heap_client_axioms number_heap_ok(1)]
  by (auto simp: number_heap_ok(2) split: prod.splits option.splits)

theorem ToplSTHeapCostReduced_correct_witness:
  "case ToplSTHeapCostReduced number_ops 7 number_heap number_locs of (heap', x') \<Rightarrow> heap_elems heap' = {7}"
  using ToplSTHeapCostReduced_correct [OF number_client.heap_client_axioms number_heap_ok(1), of 7 number_locs]
  by (auto simp: number_heap_ok(2) split: prod.splits)

end
