(* ===== verification/Topl_Graph.thy ===== *)
theory Topl_Graph
  imports Topl_DynArray Topl_Schedule Topl_STHeap
begin

text \<open>
  The graph of the spanning-tree code: the data structures of \<^verbatim>\<open>ds/src/common/w32topl/stalg.h\<close> and
  \<^verbatim>\<open>ds/src/inc/w32toplspantree.h\<close>, and the routines of \<^verbatim>\<open>stalg.c\<close> that build a graph, look up its
  vertices and edges, and color it.

  A pointer to a vertex is its index in the array \<^verbatim>\<open>vertices\<close>. A pointer to a multi-edge is an index
  into \<open>g_store\<close>, the list of all multi-edges created so far; \<open>addr\<close> gives the address of such an
  edge, which only \<^verbatim>\<open>EdgePtrCmp\<close> looks at. A null pointer is \<open>None\<close>. Vertex names are opaque
  pointers of the caller, compared by the caller's function. \<open>g_nonnull\<close> says that the pointers
  \<^verbatim>\<open>vertices\<close>, \<^verbatim>\<open>vertexNames\<close>, \<^verbatim>\<open>vnCompFunc\<close> and \<^verbatim>\<open>schedCache\<close> of the graph state are not null. A
  routine that raises returns the exception only, not the updates it had made before.
\<close>

section \<open>Data\<close>

datatype TOPL_VERTEX_COLOR = COLOR_WHITE | COLOR_RED | COLOR_BLACK

record TOPL_REPL_INFO =
  ri_cost :: dword
  ri_repIntvl :: dword
  ri_options :: dword
  ri_schedule :: TOPL_SCHEDULE

record 'n TOPL_NAME_STRUCT =
  nm_name :: "'n option"
  nm_reserved :: nat

record 'n TOPL_MULTI_EDGE =
  e_edgeType :: dword
  e_ri :: TOPL_REPL_INFO
  e_fDirectedEdge :: bool
  e_vertexNames :: "'n TOPL_NAME_STRUCT list"

type_synonym eref = nat
type_synonym vref = nat

text \<open>The array \<^verbatim>\<open>vertexNames\<close> of an edge has \<^verbatim>\<open>numVertices\<close> entries.\<close>

abbreviation e_numVertices :: "'n TOPL_MULTI_EDGE \<Rightarrow> nat" where
  "e_numVertices e \<equiv> length (e_vertexNames e)"

text \<open>An edge set is its list of edge pointers, \<open>None\<close> being a null \<^verbatim>\<open>multiEdgeList\<close>.\<close>

type_synonym TOPL_MULTI_EDGE_SET = "eref option list option"

record 'n TOPL_COLOR_VERTEX =
  cv_name :: "'n option"
  cv_color :: TOPL_VERTEX_COLOR
  cv_acceptRedRed :: dword
  cv_acceptBlack :: dword

record 'n ToplVertex =
  v_vtxId :: nat
  v_vertexName :: 'n
  v_edgeList :: "eref DynArray"
  v_color :: TOPL_VERTEX_COLOR
  v_acceptRedRed :: dword
  v_acceptBlack :: dword
  v_ri :: TOPL_REPL_INFO
  v_heapLocn :: int
  v_root :: "vref option"
  v_demoted :: bool
  v_componentId :: int
  v_componentIndex :: nat
  v_distToRed :: dword
  v_parent :: "vref option"
  v_nextChild :: nat

record ('n, 't) ToplGraphState =
  g_magicStart :: dword
  g_vertexNames :: "'n list"
  g_vertices :: "'n ToplVertex list"
  g_melSorted :: bool
  g_masterEdgeList :: "eref DynArray"
  g_edgeSets :: "TOPL_MULTI_EDGE_SET DynArray"
  g_vnCompFunc :: "'n \<Rightarrow> 'n \<Rightarrow> int"
  g_schedCache :: "'t ToplSchedCache"
  g_magicEnd :: dword
  g_nonnull :: bool
  g_store :: "'n TOPL_MULTI_EDGE list"

abbreviation g_numVertices :: "('n, 't) ToplGraphState \<Rightarrow> nat" where
  "g_numVertices g \<equiv> length (g_vertices g)"

abbreviation vtx :: "('n, 't) ToplGraphState \<Rightarrow> vref \<Rightarrow> 'n ToplVertex" where
  "vtx g v \<equiv> g_vertices g ! v"

abbreviation edge :: "('n, 't) ToplGraphState \<Rightarrow> eref \<Rightarrow> 'n TOPL_MULTI_EDGE" where
  "edge g e \<equiv> g_store g ! e"

definition upd_vtx :: "vref \<Rightarrow> ('n ToplVertex \<Rightarrow> 'n ToplVertex) \<Rightarrow> ('n, 't) ToplGraphState \<Rightarrow> ('n, 't) ToplGraphState" where
  "upd_vtx v f g = g\<lparr>g_vertices := (g_vertices g)[v := f (vtx g v)]\<rparr>"

definition upd_edge :: "eref \<Rightarrow> ('n TOPL_MULTI_EDGE \<Rightarrow> 'n TOPL_MULTI_EDGE) \<Rightarrow> ('n, 't) ToplGraphState \<Rightarrow> ('n, 't) ToplGraphState" where
  "upd_edge e f g = g\<lparr>g_store := (g_store g)[e := f (edge g e)]\<rparr>"

text \<open>The elements a loop over a dynamic array visits.\<close>

definition dyn_walk :: "'a DynArray \<Rightarrow> 'a list" where
  "dyn_walk d = map (\<lambda>i. the (DynArrayRetrieve d i)) [0..<DynArrayGetCount d]"

lemma dyn_walk_list [simp]: "dyn_array_ok d \<Longrightarrow> dyn_walk d = dyn_list d"
proof -
  assume "dyn_array_ok d"
  then have "map the (map (DynArrayRetrieve d) [0..<DynArrayGetCount d]) = map the (map Some (dyn_list d))"
    by (simp only: val_array.retrieve_all)
  then show ?thesis
    unfolding dyn_walk_def by (simp add: o_def)
qed

definition GRAPH_MAGIC_START :: dword where
  "GRAPH_MAGIC_START = 0x98052639"

definition GRAPH_MAGIC_END :: dword where
  "GRAPH_MAGIC_END = 0xADD15ABA"

definition VTX_DEFAULT_INTERVAL :: dword where
  "VTX_DEFAULT_INTERVAL = 0"

definition VTX_DEFAULT_OPTIONS :: dword where
  "VTX_DEFAULT_OPTIONS = 0xFFFFFFFF"

definition UNCONNECTED_COMPONENT :: int where
  "UNCONNECTED_COMPONENT = - 1"

definition MAX_EDGE_TYPE :: dword where
  "MAX_EDGE_TYPE = 31"

text \<open>\<^verbatim>\<open>sizeof(PTOPL_MULTI_EDGE)\<close> and \<^verbatim>\<open>sizeof(PTOPL_MULTI_EDGE_SET)\<close>.\<close>

definition sizeof_ptr :: dword where
  "sizeof_ptr = 4"

section \<open>Checks\<close>

definition CheckGraphState :: "('n, 't) ToplGraphState option \<Rightarrow> ('n, 't) ToplGraphState topl" where
  "CheckGraphState G =
     (case G of
        None \<Rightarrow> Inl TOPL_EX_NULL_POINTER
      | Some g \<Rightarrow>
          if g_magicStart g \<noteq> GRAPH_MAGIC_START \<or> g_magicEnd g \<noteq> GRAPH_MAGIC_END
          then Inl TOPL_EX_GRAPH_STATE_ERROR
          else if \<not> g_nonnull g then Inl TOPL_EX_GRAPH_STATE_ERROR
          else Inr g)"

text \<open>The array \<^verbatim>\<open>vertexNames\<close> is part of the edge and never null.\<close>

definition CheckMultiEdge :: "('n, 't) ToplGraphState \<Rightarrow> eref option \<Rightarrow> eref topl" where
  "CheckMultiEdge g ep =
     (case ep of
        None \<Rightarrow> Inl TOPL_EX_NULL_POINTER
      | Some e \<Rightarrow>
          if e_numVertices (edge g e) < 2 then Inl TOPL_EX_TOO_FEW_VTX
          else if e_edgeType (edge g e) > MAX_EDGE_TYPE then Inl TOPL_EX_INVALID_EDGE_TYPE
          else if ToplScheduleValid (ri_schedule (e_ri (edge g e))) = False then Inl TOPL_EX_SCHEDULE_ERROR
          else Inr e)"

definition CheckMultiEdgeSet :: "TOPL_MULTI_EDGE_SET option \<Rightarrow> eref option list topl" where
  "CheckMultiEdgeSet s =
     (case s of
        None \<Rightarrow> Inl TOPL_EX_NULL_POINTER
      | Some None \<Rightarrow> Inl TOPL_EX_NULL_POINTER
      | Some (Some multiEdgeList) \<Rightarrow> Inr multiEdgeList)"

section \<open>Building a graph\<close>

definition InitializeVertex :: "'n list \<Rightarrow> 't ToplSchedCache option \<Rightarrow> nat \<Rightarrow> 'n ToplVertex" where
  "InitializeVertex vertexNames schedCache i =
     \<lparr>v_vtxId = i, v_vertexName = vertexNames ! i,
      v_edgeList = DynArrayInit sizeof_ptr, v_color = COLOR_WHITE, v_acceptRedRed = 0, v_acceptBlack = 0,
      v_ri = \<lparr>ri_cost = INFINITY_DW, ri_repIntvl = VTX_DEFAULT_INTERVAL, ri_options = VTX_DEFAULT_OPTIONS,
              ri_schedule = ToplGetAlwaysSchedule schedCache\<rparr>,
      v_heapLocn = STHEAP_NOT_IN_HEAP, v_root = None, v_demoted = False,
      v_componentId = UNCONNECTED_COMPONENT, v_componentIndex = 0,
      v_distToRed = 0, v_parent = None, v_nextChild = 0\<rparr>"

text \<open>The list has \<^verbatim>\<open>numVertices\<close> entries. The sorted array is shared with the caller.\<close>

definition ToplMakeGraphState ::
  "'n option list option \<Rightarrow> ('n \<Rightarrow> 'n \<Rightarrow> int) option \<Rightarrow> 't ToplSchedCache option \<Rightarrow> ('n, 't) ToplGraphState topl" where
  "ToplMakeGraphState vertexNames vnCompFunc schedCache =
     (case (vertexNames, vnCompFunc, schedCache) of
        (Some names, Some cmp, Some cache) \<Rightarrow>
          if None \<in> set names then Inl TOPL_EX_NULL_POINTER
          else
            let sorted = c_qsort cmp (map the names)
            in Inr \<lparr>g_magicStart = GRAPH_MAGIC_START, g_vertexNames = sorted,
                    g_vertices = map (InitializeVertex sorted schedCache) [0..<length names],
                    g_melSorted = False, g_masterEdgeList = DynArrayInit sizeof_ptr,
                    g_edgeSets = DynArrayInit sizeof_ptr, g_vnCompFunc = cmp, g_schedCache = cache,
                    g_magicEnd = GRAPH_MAGIC_END, g_nonnull = True, g_store = []\<rparr>
      | _ \<Rightarrow> Inl TOPL_EX_NULL_POINTER)"

definition FindVertex :: "('n, 't) ToplGraphState \<Rightarrow> 'n option \<Rightarrow> vref option topl" where
  "FindVertex g vtxName =
     (case vtxName of
        None \<Rightarrow> Inl TOPL_EX_NULL_POINTER
      | Some name \<Rightarrow> Inr (c_bsearch (g_vnCompFunc g) name (g_vertexNames g) 0 (g_numVertices g)))"

text \<open>\<open>ri\<close> is what the allocated block holds in the field \<^verbatim>\<open>ri\<close>, which the routine leaves unset.\<close>

definition CreateMultiEdge :: "nat \<Rightarrow> TOPL_REPL_INFO \<Rightarrow> 'n TOPL_MULTI_EDGE" where
  "CreateMultiEdge numVtx ri =
     \<lparr>e_edgeType = 0, e_ri = ri, e_fDirectedEdge = False,
      e_vertexNames = replicate numVtx \<lparr>nm_name = None, nm_reserved = 0\<rparr>\<rparr>"

definition CopyReplInfo :: "TOPL_REPL_INFO \<Rightarrow> TOPL_REPL_INFO" where
  "CopyReplInfo ri1 = ri1"

definition ToplAddEdgeToGraph ::
  "('n, 't) ToplGraphState option \<Rightarrow> dword \<Rightarrow> dword \<Rightarrow> TOPL_REPL_INFO option \<Rightarrow>
   (('n, 't) ToplGraphState \<times> eref) topl" where
  "ToplAddEdgeToGraph G numVtx edgeType ri =
     bindE (CheckGraphState G) (\<lambda>g.
     bindE (raise_if (numVtx < 2) TOPL_EX_TOO_FEW_VTX) (\<lambda>_.
     bindE (raise_if (edgeType > MAX_EDGE_TYPE) TOPL_EX_INVALID_EDGE_TYPE) (\<lambda>_.
     case ri of
       None \<Rightarrow> Inl TOPL_EX_NULL_POINTER
     | Some r \<Rightarrow>
         bindE (raise_if (\<not> ToplScheduleValid (ri_schedule r)) TOPL_EX_SCHEDULE_ERROR) (\<lambda>_.
           let e = (CreateMultiEdge (unat numVtx) r)\<lparr>e_edgeType := edgeType, e_ri := CopyReplInfo r\<rparr>;
               ref = length (g_store g)
           in Inr (g\<lparr>g_melSorted := False, g_store := g_store g @ [e],
                     g_masterEdgeList := DynArrayAppend (g_masterEdgeList g) (Some ref)\<rparr>, ref)))))"

definition ToplEdgeSetVtx ::
  "('n, 't) ToplGraphState option \<Rightarrow> eref option \<Rightarrow> nat \<Rightarrow> 'n option \<Rightarrow> ('n, 't) ToplGraphState topl" where
  "ToplEdgeSetVtx G ep whichVtx vtxName =
     bindE (CheckGraphState G) (\<lambda>g.
     bindE (CheckMultiEdge g ep) (\<lambda>e.
     bindE (raise_if (whichVtx \<ge> e_numVertices (edge g e)) TOPL_EX_INVALID_VERTEX) (\<lambda>_.
     bindE (raise_if (vtxName = None) TOPL_EX_NULL_POINTER) (\<lambda>_.
     bindE (FindVertex g vtxName) (\<lambda>vp.
     case vp of
       None \<Rightarrow> Inl TOPL_EX_INVALID_VERTEX
     | Some v \<Rightarrow>
         Inr (upd_edge e (\<lambda>r. r\<lparr>e_vertexNames := (e_vertexNames r)
                [whichVtx := \<lparr>nm_name = vtxName, nm_reserved = v_vtxId (vtx g v)\<rparr>]\<rparr>) g))))))"

definition EdgePtrCmp :: "(eref \<Rightarrow> nat) \<Rightarrow> eref \<Rightarrow> eref \<Rightarrow> int" where
  "EdgePtrCmp addr a b = (if addr a < addr b then - 1 else if addr a > addr b then 1 else 0)"

text \<open>One round of the loop that checks the edges of a new edge set.\<close>

definition check_set_edge ::
  "(eref \<Rightarrow> nat) \<Rightarrow> ('n, 't) ToplGraphState \<Rightarrow> eref option list \<Rightarrow> nat \<Rightarrow> unit \<Rightarrow> unit topl" where
  "check_set_edge addr g multiEdgeList iEdge u =
     (case multiEdgeList ! iEdge of
        None \<Rightarrow> Inl TOPL_EX_NULL_POINTER
      | Some e \<Rightarrow>
          if iEdge > 0 \<and> e_edgeType (edge g (the (multiEdgeList ! (iEdge - 1)))) \<noteq> e_edgeType (edge g e)
          then Inl TOPL_EX_INVALID_EDGE_SET
          else if DynArraySearch (g_masterEdgeList g) e (EdgePtrCmp addr) = None
          then Inl TOPL_EX_INVALID_EDGE_SET
          else Inr ())"

definition ToplAddEdgeSetToGraph ::
  "(eref \<Rightarrow> nat) \<Rightarrow> ('n, 't) ToplGraphState option \<Rightarrow> TOPL_MULTI_EDGE_SET option \<Rightarrow>
   ('n, 't) ToplGraphState topl" where
  "ToplAddEdgeSetToGraph addr G s =
     bindE (CheckGraphState G) (\<lambda>g.
     bindE (CheckMultiEdgeSet s) (\<lambda>multiEdgeList.
       let g = (if g_melSorted g = False
                then g\<lparr>g_masterEdgeList := DynArraySort (g_masterEdgeList g) (EdgePtrCmp addr),
                       g_melSorted := True\<rparr>
                else g)
       in bindE (foldE (check_set_edge addr g multiEdgeList) [0..<length multiEdgeList] ()) (\<lambda>_.
            Inr (if length multiEdgeList > 1
                 then g\<lparr>g_edgeSets := DynArrayAppend (g_edgeSets g) s\<rparr>
                 else g))))"

section \<open>Vertices in the heap, colors, edge lists\<close>

text \<open>
  \<^verbatim>\<open>VertexComp\<close> checks the graph state again; its callers have, and nothing in between changes the
  magic numbers, so the check is left out here.
\<close>

definition VertexComp :: "vref \<Rightarrow> vref \<Rightarrow> ('n, 't) ToplGraphState \<Rightarrow> int" where
  "VertexComp v1 v2 g =
     (if ri_cost (v_ri (vtx g v1)) = ri_cost (v_ri (vtx g v2)) then
        (if v_vtxId (vtx g v1) < v_vtxId (vtx g v2) then - 1
         else if v_vtxId (vtx g v1) > v_vtxId (vtx g v2) then 1
         else 0)
      else if ri_cost (v_ri (vtx g v1)) > ri_cost (v_ri (vtx g v2)) then 1
      else if ri_cost (v_ri (vtx g v1)) < ri_cost (v_ri (vtx g v2)) then - 1
      else 0)"

definition VertexGetLocn :: "vref \<Rightarrow> ('n, 't) ToplGraphState \<Rightarrow> int" where
  "VertexGetLocn v g = v_heapLocn (vtx g v)"

definition VertexSetLocn :: "vref \<Rightarrow> int \<Rightarrow> ('n, 't) ToplGraphState \<Rightarrow> ('n, 't) ToplGraphState" where
  "VertexSetLocn v locn g = upd_vtx v (\<lambda>r. r\<lparr>v_heapLocn := locn\<rparr>) g"

definition color_vertex ::
  "'n TOPL_COLOR_VERTEX \<Rightarrow> ('n, 't) ToplGraphState \<Rightarrow> ('n, 't) ToplGraphState topl" where
  "color_vertex cv g =
     bindE (raise_if (cv_name cv = None) TOPL_EX_NULL_POINTER) (\<lambda>_.
     bindE (FindVertex g (cv_name cv)) (\<lambda>vp.
     case vp of
       None \<Rightarrow> Inl TOPL_EX_COLOR_VTX_ERROR
     | Some v \<Rightarrow>
         if v_color (vtx g v) \<noteq> COLOR_WHITE then Inl TOPL_EX_COLOR_VTX_ERROR
         else if cv_color cv \<noteq> COLOR_RED \<and> cv_color cv \<noteq> COLOR_BLACK then Inl TOPL_EX_COLOR_VTX_ERROR
         else Inr (upd_vtx v (\<lambda>r. r\<lparr>v_color := cv_color cv, v_acceptRedRed := cv_acceptRedRed cv,
                                    v_acceptBlack := cv_acceptBlack cv\<rparr>) g)))"

definition InitColoredVertices ::
  "('n, 't) ToplGraphState \<Rightarrow> 'n TOPL_COLOR_VERTEX list option \<Rightarrow> vref option \<Rightarrow> ('n, 't) ToplGraphState topl" where
  "InitColoredVertices g colorVtx whichVtx =
     (case colorVtx of
        None \<Rightarrow> Inl TOPL_EX_NULL_POINTER
      | Some cvs \<Rightarrow>
          let g = g\<lparr>g_vertices := map (\<lambda>r. r\<lparr>v_color := COLOR_WHITE\<rparr>) (g_vertices g)\<rparr>
          in bindE (foldE color_vertex cvs g) (\<lambda>g.
               case whichVtx of
                 None \<Rightarrow> Inr g
               | Some w \<Rightarrow> if v_color (vtx g w) = COLOR_WHITE then Inl TOPL_EX_INVALID_VERTEX else Inr g))"

definition EdgeGetVertex :: "('n, 't) ToplGraphState \<Rightarrow> eref \<Rightarrow> nat \<Rightarrow> vref" where
  "EdgeGetVertex g e iVtx = nm_reserved (e_vertexNames (edge g e) ! iVtx)"

text \<open>The vertices a loop over an edge visits.\<close>

definition edge_walk :: "('n, 't) ToplGraphState \<Rightarrow> eref \<Rightarrow> vref list" where
  "edge_walk g e = map (EdgeGetVertex g e) [0..<e_numVertices (edge g e)]"

definition ClearEdgeLists :: "('n, 't) ToplGraphState \<Rightarrow> ('n, 't) ToplGraphState" where
  "ClearEdgeLists g =
     g\<lparr>g_vertices := map (\<lambda>r. r\<lparr>v_edgeList := DynArrayClear (v_edgeList r)\<rparr>) (g_vertices g)\<rparr>"

definition add_to_edge_list :: "eref \<Rightarrow> vref \<Rightarrow> ('n, 't) ToplGraphState \<Rightarrow> ('n, 't) ToplGraphState" where
  "add_to_edge_list e v g = upd_vtx v (\<lambda>r. r\<lparr>v_edgeList := DynArrayAppend (v_edgeList r) (Some e)\<rparr>) g"

text \<open>The edge type of an edge set is returned with the graph.\<close>

definition setup_edge ::
  "eref option \<Rightarrow> ('n, 't) ToplGraphState \<times> dword \<Rightarrow> (('n, 't) ToplGraphState \<times> dword) topl" where
  "setup_edge ep = (\<lambda>(g, edgeType).
     bindE (CheckMultiEdge g ep) (\<lambda>e.
       Inr (fold (add_to_edge_list e) (edge_walk g e) g, e_edgeType (edge g e))))"

definition SetupEdges ::
  "('n, 't) ToplGraphState \<Rightarrow> nat \<Rightarrow> (('n, 't) ToplGraphState \<times> dword) topl" where
  "SetupEdges g whichEdgeSet =
     (let g = ClearEdgeLists g
      in bindE (CheckMultiEdgeSet (DynArrayRetrieve (g_edgeSets g) whichEdgeSet)) (\<lambda>multiEdgeList.
           foldE setup_edge multiEdgeList (g, 0)))"

definition setup_vertex :: "'t ToplSchedCache \<Rightarrow> vref \<Rightarrow> 'n ToplVertex \<Rightarrow> 'n ToplVertex" where
  "setup_vertex schedCache v r =
     (let r = (if v_color r = COLOR_RED \<or> v_color r = COLOR_BLACK
               then r\<lparr>v_ri := (v_ri r)\<lparr>ri_cost := 0\<rparr>, v_root := Some v, v_componentId := int (v_vtxId r)\<rparr>
               else r\<lparr>v_ri := (v_ri r)\<lparr>ri_cost := INFINITY_DW\<rparr>, v_root := None,
                      v_componentId := UNCONNECTED_COMPONENT\<rparr>)
      in r\<lparr>v_ri := (v_ri r)\<lparr>ri_repIntvl := VTX_DEFAULT_INTERVAL, ri_options := VTX_DEFAULT_OPTIONS,
                            ri_schedule := ToplGetAlwaysSchedule (Some schedCache)\<rparr>,
           v_heapLocn := STHEAP_NOT_IN_HEAP, v_demoted := False\<rparr>)"

definition SetupVertices :: "('n, 't) ToplGraphState \<Rightarrow> ('n, 't) ToplGraphState" where
  "SetupVertices g =
     g\<lparr>g_vertices := map (\<lambda>i. setup_vertex (g_schedCache g) i (vtx g i)) [0..<g_numVertices g]\<rparr>"

section \<open>Vertices as heap elements\<close>

definition vertex_ops :: "(vref, ('n, 't) ToplGraphState) heap_ops" where
  "vertex_ops = \<lparr>Comp = VertexComp, GetLocn = VertexGetLocn, SetLocn = VertexSetLocn\<rparr>"

definition vertex_valid :: "vref \<Rightarrow> ('n, 't) ToplGraphState \<Rightarrow> bool" where
  "vertex_valid v g \<longleftrightarrow> v < g_numVertices g"

lemma vertex_ops_simps [simp]:
  "Comp vertex_ops = VertexComp" "GetLocn vertex_ops = VertexGetLocn" "SetLocn vertex_ops = VertexSetLocn"
  by (simp_all add: vertex_ops_def)

lemma upd_vtx_simps [simp]:
  "g_numVertices (upd_vtx v f g) = g_numVertices g"
  "g_magicStart (upd_vtx v f g) = g_magicStart g" "g_magicEnd (upd_vtx v f g) = g_magicEnd g"
  "g_nonnull (upd_vtx v f g) = g_nonnull g" "g_vertexNames (upd_vtx v f g) = g_vertexNames g"
  "g_masterEdgeList (upd_vtx v f g) = g_masterEdgeList g" "g_edgeSets (upd_vtx v f g) = g_edgeSets g"
  "g_vnCompFunc (upd_vtx v f g) = g_vnCompFunc g" "g_schedCache (upd_vtx v f g) = g_schedCache g"
  "g_store (upd_vtx v f g) = g_store g" "g_melSorted (upd_vtx v f g) = g_melSorted g"
  by (simp_all add: upd_vtx_def)

lemma vtx_upd [simp]: "v < g_numVertices g \<Longrightarrow> vtx (upd_vtx v f g) v = f (vtx g v)"
  by (simp add: upd_vtx_def)

lemma vtx_upd_other [simp]: "w \<noteq> v \<Longrightarrow> vtx (upd_vtx v f g) w = vtx g w"
  by (simp add: upd_vtx_def)

lemma vtx_upd_if: "v < g_numVertices g \<Longrightarrow> vtx (upd_vtx v f g) w = (if w = v then f (vtx g v) else vtx g w)"
  by simp

lemma vtx_upd_field:
  assumes "\<And>r. fld (f r) = fld r"
  shows "fld (vtx (upd_vtx v f g) w) = fld (vtx g w)"
proof (cases "v < g_numVertices g")
  case True
  then show ?thesis
    by (simp add: vtx_upd_if assms)
next
  case False
  then show ?thesis
    by (simp add: upd_vtx_def list_update_beyond)
qed

text \<open>A comparison by two keys, as an integer.\<close>

definition two_keys :: "'a::linorder \<Rightarrow> nat \<Rightarrow> 'a \<Rightarrow> nat \<Rightarrow> int" where
  "two_keys c1 i1 c2 i2 =
     (if c1 = c2 then (if i1 < i2 then - 1 else if i1 > i2 then 1 else 0)
      else if c1 > c2 then 1 else if c1 < c2 then - 1 else 0)"

lemma two_keys_less: "two_keys c1 i1 c2 i2 < 0 \<longleftrightarrow> c1 < c2 \<or> c1 = c2 \<and> i1 < i2"
  by (auto simp: two_keys_def)

lemma two_keys_greater: "0 < two_keys c1 i1 c2 i2 \<longleftrightarrow> c2 < c1 \<or> c1 = c2 \<and> i2 < i1"
  by (auto simp: two_keys_def)

lemma two_keys_le: "two_keys c1 i1 c2 i2 \<le> 0 \<longleftrightarrow> c1 < c2 \<or> c1 = c2 \<and> i1 \<le> i2"
  by (auto simp: two_keys_def)

lemma VertexComp_keys:
  "VertexComp a b g = two_keys (ri_cost (v_ri (vtx g a))) (v_vtxId (vtx g a)) (ri_cost (v_ri (vtx g b))) (v_vtxId (vtx g b))"
  unfolding VertexComp_def two_keys_def ..

lemmas VertexComp_less = two_keys_less [of "ri_cost (v_ri (vtx g a))" "v_vtxId (vtx g a)"
    "ri_cost (v_ri (vtx g b))" "v_vtxId (vtx g b)", folded VertexComp_keys] for g a b
lemmas VertexComp_greater = two_keys_greater [of "ri_cost (v_ri (vtx g a))" "v_vtxId (vtx g a)"
    "ri_cost (v_ri (vtx g b))" "v_vtxId (vtx g b)", folded VertexComp_keys] for g a b
lemmas VertexComp_le = two_keys_le [of "ri_cost (v_ri (vtx g a))" "v_vtxId (vtx g a)"
    "ri_cost (v_ri (vtx g b))" "v_vtxId (vtx g b)", folded VertexComp_keys] for g a b

lemma VertexComp_compare: "c_compare (\<lambda>a b. VertexComp a b g)"
proof
  fix x y z
  show "VertexComp x y g < 0 \<longleftrightarrow> 0 < VertexComp y x g"
    unfolding VertexComp_less VertexComp_greater by auto
  assume "VertexComp x y g \<le> 0" "VertexComp y z g \<le> 0"
  then show "VertexComp x z g \<le> 0"
    unfolding VertexComp_le by (elim disjE) auto
qed

lemma VertexSetLocn_fields:
  "v_ri (vtx (VertexSetLocn e l g) v) = v_ri (vtx g v)" "v_vtxId (vtx (VertexSetLocn e l g) v) = v_vtxId (vtx g v)"
  by (simp_all add: VertexSetLocn_def vtx_upd_field [where fld = v_ri] vtx_upd_field [where fld = v_vtxId])

lemma VertexComp_SetLocn: "VertexComp a b (VertexSetLocn e l g) = VertexComp a b g"
  unfolding VertexComp_def VertexSetLocn_fields ..

interpretation vertex_heap: heap_client vertex_ops vertex_valid
proof (rule heap_client.intro, unfold vertex_ops_simps)
  fix e x l
  show "vertex_valid e x \<Longrightarrow> VertexGetLocn e (VertexSetLocn e l x) = l"
    by (simp add: vertex_valid_def VertexGetLocn_def VertexSetLocn_def)
qed (simp_all add: VertexGetLocn_def VertexSetLocn_def vertex_valid_def VertexComp_compare VertexComp_SetLocn [unfolded VertexSetLocn_def])

section \<open>The graph invariant\<close>

definition edge_ok :: "('n, 't) ToplGraphState \<Rightarrow> 'n TOPL_MULTI_EDGE \<Rightarrow> bool" where
  "edge_ok g e \<longleftrightarrow>
     2 \<le> e_numVertices e \<and> e_edgeType e \<le> MAX_EDGE_TYPE \<and> ToplScheduleValid (ri_schedule (e_ri e)) \<and>
     (\<forall>nm\<in>set (e_vertexNames e). \<forall>x. nm_name nm = Some x \<longrightarrow>
        nm_reserved nm < g_numVertices g \<and> g_vnCompFunc g x (g_vertexNames g ! nm_reserved nm) = 0)"

definition edge_set_ok :: "('n, 't) ToplGraphState \<Rightarrow> TOPL_MULTI_EDGE_SET \<Rightarrow> bool" where
  "edge_set_ok g s \<longleftrightarrow>
     (\<exists>es. s = Some (map Some es) \<and> 2 \<le> length es \<and> set es \<subseteq> set (dyn_list (g_masterEdgeList g)) \<and>
        (\<forall>e\<in>set es. e_edgeType (edge g e) = e_edgeType (edge g (hd es))))"

definition graph_ok :: "('n, 't) ToplGraphState \<Rightarrow> bool" where
  "graph_ok g \<longleftrightarrow>
     g_magicStart g = GRAPH_MAGIC_START \<and> g_magicEnd g = GRAPH_MAGIC_END \<and> g_nonnull g \<and>
     c_compare (g_vnCompFunc g) \<and> length (g_vertexNames g) = g_numVertices g \<and>
     sorted_wrt (\<lambda>x y. g_vnCompFunc g x y \<le> 0) (g_vertexNames g) \<and>
     (\<forall>i<g_numVertices g. v_vtxId (vtx g i) = i \<and> v_vertexName (vtx g i) = g_vertexNames g ! i \<and>
        dyn_array_ok (v_edgeList (vtx g i))) \<and>
     dyn_array_ok (g_masterEdgeList g) \<and> distinct (dyn_list (g_masterEdgeList g)) \<and>
     set (dyn_list (g_masterEdgeList g)) \<subseteq> {..<length (g_store g)} \<and>
     (\<forall>e<length (g_store g). edge_ok g (edge g e)) \<and>
     dyn_array_ok (g_edgeSets g) \<and> (\<forall>s\<in>set (dyn_list (g_edgeSets g)). edge_set_ok g s)"

lemma CheckGraphState_ok: "graph_ok g \<Longrightarrow> CheckGraphState (Some g) = Inr g"
  by (simp add: graph_ok_def CheckGraphState_def)

lemma CheckMultiEdge_ok: "graph_ok g \<Longrightarrow> e < length (g_store g) \<Longrightarrow> CheckMultiEdge g (Some e) = Inr e"
  by (auto simp: graph_ok_def edge_ok_def CheckMultiEdge_def not_less)

lemma EdgePtrCmp_compare: "c_compare (EdgePtrCmp addr)"
  by unfold_locales (auto simp: EdgePtrCmp_def split: if_splits)

lemma EdgePtrCmp_zero: "inj addr \<Longrightarrow> EdgePtrCmp addr a b = 0 \<longleftrightarrow> a = b"
  by (auto simp: EdgePtrCmp_def inj_eq)

interpretation edge_ptr: c_compare "EdgePtrCmp addr"
  by (rule EdgePtrCmp_compare)

lemma MakeGraphState_ok:
  assumes "ToplMakeGraphState names cmpf cache = Inr g" and "\<And>cmp. cmpf = Some cmp \<Longrightarrow> c_compare cmp"
  shows "graph_ok g"
proof -
  from assms(1) obtain ns cmp c where eq: "names = Some ns" "cmpf = Some cmp" "cache = Some c" "None \<notin> set ns"
    by (auto simp: ToplMakeGraphState_def split: option.splits if_splits)
  note cc = assms(2) [OF eq(2)]
  have "length (c_qsort cmp (map the ns)) = length ns" "sorted_wrt (\<lambda>x y. cmp x y \<le> 0) (c_qsort cmp (map the ns))"
    using c_compare.length_c_qsort [OF cc] c_compare.sorted_c_qsort [OF cc] by simp_all
  with assms(1) eq cc show ?thesis
    by (auto simp: ToplMakeGraphState_def graph_ok_def InitializeVertex_def Let_def)
qed

lemma edge_ok_cong:
  "g_numVertices g' = g_numVertices g \<Longrightarrow> g_vnCompFunc g' = g_vnCompFunc g \<Longrightarrow> g_vertexNames g' = g_vertexNames g \<Longrightarrow>
   edge_ok g' e = edge_ok g e"
  by (simp add: edge_ok_def)

lemma AddEdge_eq:
  assumes "ToplAddEdgeToGraph G numVtx edgeType ri = Inr (g', ref)"
  obtains g r where "G = Some g" "CheckGraphState G = Inr g" "ri = Some r" "2 \<le> numVtx" "edgeType \<le> MAX_EDGE_TYPE"
    "ToplScheduleValid (ri_schedule r)" "ref = length (g_store g)"
    "g' = g\<lparr>g_melSorted := False,
        g_store := g_store g @ [(CreateMultiEdge (unat numVtx) r)\<lparr>e_edgeType := edgeType, e_ri := r\<rparr>],
        g_masterEdgeList := DynArrayAppend (g_masterEdgeList g) (Some (length (g_store g)))\<rparr>"
  using assms
  by (auto simp: ToplAddEdgeToGraph_def bindE_eq_Inr CopyReplInfo_def Let_def not_less CheckGraphState_def
      split: option.splits if_splits)

lemma AddEdge_ok:
  assumes "graph_ok g" and add: "ToplAddEdgeToGraph (Some g) numVtx edgeType ri = Inr (g', ref)"
  shows "graph_ok g'"
  using add
proof (rule AddEdge_eq)
  fix g0 r
  assume a: "Some g = Some g0" "ri = Some r" "2 \<le> numVtx" "edgeType \<le> MAX_EDGE_TYPE"
    "ToplScheduleValid (ri_schedule r)"
    "g' = g0\<lparr>g_melSorted := False,
        g_store := g_store g0 @ [(CreateMultiEdge (unat numVtx) r)\<lparr>e_edgeType := edgeType, e_ri := r\<rparr>],
        g_masterEdgeList := DynArrayAppend (g_masterEdgeList g0) (Some (length (g_store g0)))\<rparr>"
  let ?e = "(CreateMultiEdge (unat numVtx) r)\<lparr>e_edgeType := edgeType, e_ri := r\<rparr>"
  have g0: "g0 = g" and ok: "graph_ok g"
    using a(1) assms(1) by auto
  have "2 \<le> unat numVtx"
    using a(3) by (simp add: word_le_nat_alt)
  then have new: "edge_ok g' ?e"
    using a by (simp add: edge_ok_def CreateMultiEdge_def)
  have old: "edge_ok g' x = edge_ok g x" for x
    by (rule edge_ok_cong) (simp_all add: a(6) g0)
  have es: "edge_set_ok g' s" if "edge_set_ok g s" for s
  proof -
    from that obtain es where s: "s = Some (map Some es)" "2 \<le> length es"
        "set es \<subseteq> set (dyn_list (g_masterEdgeList g))" "\<forall>e\<in>set es. e_edgeType (edge g e) = e_edgeType (edge g (hd es))"
      by (auto simp: edge_set_ok_def)
    have "set es \<subseteq> {..<length (g_store g)}"
      using s(3) ok by (auto simp: graph_ok_def)
    moreover have "hd es \<in> set es"
      using s(2) by (cases es) auto
    ultimately have "\<forall>e\<in>set es. edge g' e = edge g e" "edge g' (hd es) = edge g (hd es)"
      by (auto simp: a(6) g0 nth_append)
    with s show ?thesis
      using ok by (auto simp: edge_set_ok_def a(6) g0 graph_ok_def)
  qed
  show ?thesis
    using ok es new old unfolding graph_ok_def
    by (auto simp: a(6) g0 nth_append less_Suc_eq)
qed

lemma FindVertex_spec:
  assumes "graph_ok g"
  shows "FindVertex g (Some x) = Inr None \<Longrightarrow> \<forall>y\<in>set (g_vertexNames g). g_vnCompFunc g x y \<noteq> 0"
    and "FindVertex g (Some x) = Inr (Some v) \<Longrightarrow> v < g_numVertices g \<and> g_vnCompFunc g x (g_vertexNames g ! v) = 0"
proof -
  have cc: "c_compare (g_vnCompFunc g)" and len: "length (g_vertexNames g) = g_numVertices g"
    and s: "sorted_wrt (\<lambda>x y. g_vnCompFunc g x y \<le> 0) (g_vertexNames g)"
    using assms by (auto simp: graph_ok_def)
  show "\<forall>y\<in>set (g_vertexNames g). g_vnCompFunc g x y \<noteq> 0" if "FindVertex g (Some x) = Inr None"
  proof (rule ccontr)
    assume "\<not> (\<forall>y\<in>set (g_vertexNames g). g_vnCompFunc g x y \<noteq> 0)"
    then obtain j where "j < g_numVertices g" "g_vnCompFunc g x (g_vertexNames g ! j) = 0"
      by (auto simp: in_set_conv_nth len)
    then show False
      using c_compare.c_bsearch_complete [OF cc s, of "g_numVertices g" 0 j x] that len
      by (auto simp: FindVertex_def)
  qed
  show "v < g_numVertices g \<and> g_vnCompFunc g x (g_vertexNames g ! v) = 0" if "FindVertex g (Some x) = Inr (Some v)"
    using c_compare.c_bsearch_sound [OF cc, of x "g_vertexNames g" 0 "g_numVertices g" v] that
    by (auto simp: FindVertex_def)
qed

lemma upd_edge_simps [simp]:
  "g_magicStart (upd_edge e f g) = g_magicStart g" "g_magicEnd (upd_edge e f g) = g_magicEnd g"
  "g_nonnull (upd_edge e f g) = g_nonnull g" "g_vertexNames (upd_edge e f g) = g_vertexNames g"
  "g_masterEdgeList (upd_edge e f g) = g_masterEdgeList g" "g_edgeSets (upd_edge e f g) = g_edgeSets g"
  "g_vnCompFunc (upd_edge e f g) = g_vnCompFunc g" "g_schedCache (upd_edge e f g) = g_schedCache g"
  "g_vertices (upd_edge e f g) = g_vertices g" "length (g_store (upd_edge e f g)) = length (g_store g)"
  by (simp_all add: upd_edge_def)

lemma edge_upd: "e < length (g_store g) \<Longrightarrow> edge (upd_edge e f g) e' = (if e' = e then f (edge g e) else edge g e')"
  by (simp add: upd_edge_def nth_list_update)

lemma edge_upd_type:
  assumes "\<And>r. e_edgeType (f r) = e_edgeType r"
  shows "e_edgeType (edge (upd_edge e f g) e') = e_edgeType (edge g e')"
proof (cases "e < length (g_store g)")
  case False
  then show ?thesis
    by (simp add: upd_edge_def list_update_beyond)
qed (simp add: edge_upd assms)

lemma EdgeSetVtx_ok:
  assumes ok: "graph_ok g" and e: "e < length (g_store g)"
    and set: "ToplEdgeSetVtx (Some g) (Some e) i nm = Inr g'"
  shows "graph_ok g'"
proof -
  let ?f = "\<lambda>v r. r\<lparr>e_vertexNames := (e_vertexNames r)[i := \<lparr>nm_name = nm, nm_reserved = v_vtxId (vtx g v)\<rparr>]\<rparr>"
  obtain x v where x: "nm = Some x" "FindVertex g (Some x) = Inr (Some v)" and g': "g' = upd_edge e (?f v) g"
    using set by (auto simp: ToplEdgeSetVtx_def bindE_eq_Inr CheckGraphState_ok [OF ok] CheckMultiEdge_ok [OF ok e]
        split: option.splits)
  have v: "v < g_numVertices g" "g_vnCompFunc g x (g_vertexNames g ! v) = 0" "v_vtxId (vtx g v) = v"
    using FindVertex_spec(2) [OF ok x(2)] ok by (auto simp: graph_ok_def)
  have "edge_ok g (edge g e)"
    using ok e by (simp add: graph_ok_def)
  then have "edge_ok g (?f v (edge g e))"
    using v x(1) by (auto simp: edge_ok_def dest!: set_update_subset_insert [THEN subsetD])
  then have new: "\<forall>e'<length (g_store g). edge_ok g (edge g' e')"
    using ok e by (auto simp: g' edge_upd graph_ok_def)
  have "edge_ok g' r = edge_ok g r" for r
    by (rule edge_ok_cong) (simp_all add: g')
  moreover have "edge_set_ok g' s = edge_set_ok g s" for s
    by (simp add: edge_set_ok_def g' edge_upd_type)
  ultimately show ?thesis
    using ok new by (simp add: graph_ok_def g')
qed

text \<open>A state that differs in the order of the master edge list only.\<close>

lemma resort_ok:
  assumes "graph_ok g" and "inj addr"
  shows "graph_ok (g\<lparr>g_masterEdgeList := DynArraySort (g_masterEdgeList g) (EdgePtrCmp addr), g_melSorted := True\<rparr>)"
    (is "graph_ok ?g")
proof -
  have l: "dyn_list (g_masterEdgeList ?g) = c_qsort (EdgePtrCmp addr) (dyn_list (g_masterEdgeList g))"
    and d: "dyn_array_ok (g_masterEdgeList ?g)"
    using edge_ptr.DynArraySort_list edge_ptr.DynArraySort_ok assms(1) by (auto simp: graph_ok_def)
  have "distinct (dyn_list (g_masterEdgeList ?g))"
    using assms(1) edge_ptr.mset_c_qsort unfolding l graph_ok_def by (metis mset_eq_imp_distinct_iff)
  moreover have st: "set (dyn_list (g_masterEdgeList ?g)) = set (dyn_list (g_masterEdgeList g))"
    unfolding l by simp
  moreover have "edge_set_ok ?g s = edge_set_ok g s" for s
    unfolding edge_set_ok_def st by simp
  moreover have "edge_ok ?g e = edge_ok g e" for e
    by (rule edge_ok_cong) simp_all
  ultimately show ?thesis
    using assms(1) d by (simp add: graph_ok_def)
qed

lemma check_set_loop:
  assumes "\<And>x y. EdgePtrCmp addr x y = 0 \<longleftrightarrow> x = y" and "dyn_array_ok (g_masterEdgeList g)"
    and "sorted_wrt (\<lambda>x y. EdgePtrCmp addr x y \<le> 0) (dyn_list (g_masterEdgeList g))" and "n \<le> length l"
  shows "foldE (check_set_edge addr g l) [0..<n] () = Inr u \<longleftrightarrow>
    (\<forall>i<n. \<exists>e. l ! i = Some e \<and> e \<in> set (dyn_list (g_masterEdgeList g)) \<and>
       (0 < i \<longrightarrow> e_edgeType (edge g (the (l ! (i - 1)))) = e_edgeType (edge g e)))"
  using assms(4)
proof (induction n)
  case (Suc n)
  have "DynArraySearch (g_masterEdgeList g) e (EdgePtrCmp addr) = None \<longleftrightarrow> e \<notin> set (dyn_list (g_masterEdgeList g))" for e
    using edge_ptr.DynArraySearch_iff [OF assms(2,3)] assms(1) by auto
  then have step: "check_set_edge addr g l n () = Inr () \<longleftrightarrow> (\<exists>e. l ! n = Some e \<and> e \<in> set (dyn_list (g_masterEdgeList g)) \<and>
       (0 < n \<longrightarrow> e_edgeType (edge g (the (l ! (n - 1)))) = e_edgeType (edge g e)))"
    by (auto simp: check_set_edge_def split: option.splits)
  show ?case
    using Suc step by (simp add: foldE_append bindE_eq_Inr less_Suc_eq) blast
qed simp

text \<open>The flag \<^verbatim>\<open>melSorted\<close> tells the truth.\<close>

definition mel_ok :: "(eref \<Rightarrow> nat) \<Rightarrow> ('n, 't) ToplGraphState \<Rightarrow> bool" where
  "mel_ok addr g \<longleftrightarrow>
     (g_melSorted g \<longrightarrow> sorted_wrt (\<lambda>x y. EdgePtrCmp addr x y \<le> 0) (dyn_list (g_masterEdgeList g)))"

definition sort_mel :: "(eref \<Rightarrow> nat) \<Rightarrow> ('n, 't) ToplGraphState \<Rightarrow> ('n, 't) ToplGraphState" where
  "sort_mel addr g =
     (if g_melSorted g = False
      then g\<lparr>g_masterEdgeList := DynArraySort (g_masterEdgeList g) (EdgePtrCmp addr), g_melSorted := True\<rparr>
      else g)"

lemma sort_mel_ok:
  assumes "graph_ok g" and "mel_ok addr g" and "inj addr"
  shows "graph_ok (sort_mel addr g)" "mel_ok addr (sort_mel addr g)"
    "sorted_wrt (\<lambda>x y. EdgePtrCmp addr x y \<le> 0) (dyn_list (g_masterEdgeList (sort_mel addr g)))"
    "set (dyn_list (g_masterEdgeList (sort_mel addr g))) = set (dyn_list (g_masterEdgeList g))"
    "g_store (sort_mel addr g) = g_store g" "g_edgeSets (sort_mel addr g) = g_edgeSets g"
proof -
  have d: "dyn_array_ok (g_masterEdgeList g)"
    using assms(1) by (simp add: graph_ok_def)
  note l = edge_ptr.DynArraySort_list [OF d, of addr]
  show s: "sorted_wrt (\<lambda>x y. EdgePtrCmp addr x y \<le> 0) (dyn_list (g_masterEdgeList (sort_mel addr g)))"
    using assms(2) edge_ptr.sorted_c_qsort l by (simp add: sort_mel_def mel_ok_def)
  then show "mel_ok addr (sort_mel addr g)"
    by (simp add: mel_ok_def)
  show "graph_ok (sort_mel addr g)"
    using assms(1) resort_ok [OF assms(1,3)] by (simp add: sort_mel_def)
  show "set (dyn_list (g_masterEdgeList (sort_mel addr g))) = set (dyn_list (g_masterEdgeList g))"
    using l by (simp add: sort_mel_def)
qed (simp_all add: sort_mel_def)

lemma same_type_hd:
  assumes "\<forall>i<length es. 0 < i \<longrightarrow> f (es ! (i - 1)) = f (es ! i)" and "e \<in> set es"
  shows "f e = f (hd es)"
proof -
  have "f (es ! i) = f (es ! 0)" if "i < length es" for i
    using that
  proof (induction i)
    case (Suc i)
    then have "f (es ! i) = f (es ! Suc i)"
      using assms(1) [rule_format, of "Suc i"] by simp
    with Suc show ?case
      by simp
  qed simp
  note first = this
  from assms(2) obtain i where i: "i < length es" "e = es ! i"
    by (metis in_set_conv_nth)
  moreover have "hd es = es ! 0"
    using i(1) by (cases es) auto
  ultimately show ?thesis
    using first [OF i(1)] by simp
qed

lemma AddEdgeSet_eq:
  assumes "graph_ok g"
  shows "ToplAddEdgeSetToGraph addr (Some g) (Some (Some l)) =
    bindE (foldE (check_set_edge addr (sort_mel addr g) l) [0..<length l] ()) (\<lambda>_.
      Inr (if length l > 1
           then (sort_mel addr g)\<lparr>g_edgeSets := DynArrayAppend (g_edgeSets (sort_mel addr g)) (Some (Some l))\<rparr>
           else sort_mel addr g))"
  by (simp only: ToplAddEdgeSetToGraph_def CheckGraphState_ok [OF assms] CheckMultiEdgeSet_def option.case
      bindE_simps Let_def sort_mel_def)

text \<open>What an edge set must satisfy to be accepted.\<close>

definition edge_set_legal :: "('n, 't) ToplGraphState \<Rightarrow> eref option list \<Rightarrow> bool" where
  "edge_set_legal g l \<longleftrightarrow>
     (\<exists>es. l = map Some es \<and> set es \<subseteq> set (dyn_list (g_masterEdgeList g)) \<and>
        (\<forall>e\<in>set es. e_edgeType (edge g e) = e_edgeType (edge g (hd es))))"

lemma AddEdgeSet_legal:
  assumes ok: "graph_ok g" "mel_ok addr g" "inj addr"
  shows "(\<exists>u. foldE (check_set_edge addr (sort_mel addr g) l) [0..<length l] () = Inr u) \<longleftrightarrow> edge_set_legal g l"
proof -
  note sm = sort_mel_ok [OF ok]
  have d: "dyn_array_ok (g_masterEdgeList (sort_mel addr g))"
    using sm(1) by (simp add: graph_ok_def)
  have "(\<exists>u. foldE (check_set_edge addr (sort_mel addr g) l) [0..<length l] () = Inr u) \<longleftrightarrow>
    (\<forall>i<length l. \<exists>e. l ! i = Some e \<and> e \<in> set (dyn_list (g_masterEdgeList g)) \<and>
       (0 < i \<longrightarrow> e_edgeType (edge g (the (l ! (i - 1)))) = e_edgeType (edge g e)))" (is "_ \<longleftrightarrow> ?all")
    using check_set_loop [OF EdgePtrCmp_zero [OF ok(3)] d sm(3) order_refl, of l] unfolding sm(4,5) by auto
  also have "\<dots> \<longleftrightarrow> edge_set_legal g l"
  proof
    assume all: ?all
    define es where "es = map the l"
    have l: "l = map Some es"
      using all by (intro nth_equalityI) (auto simp: es_def)
    have "\<forall>i<length es. 0 < i \<longrightarrow> e_edgeType (edge g (es ! (i - 1))) = e_edgeType (edge g (es ! i))"
    proof (intro allI impI)
      fix i
      assume i: "i < length es" "0 < i"
      then obtain e where e: "l ! i = Some e" "e_edgeType (edge g (the (l ! (i - 1)))) = e_edgeType (edge g e)"
        using all l by auto
      then show "e_edgeType (edge g (es ! (i - 1))) = e_edgeType (edge g (es ! i))"
        using i l by simp
    qed
    then have "\<forall>e\<in>set es. e_edgeType (edge g e) = e_edgeType (edge g (hd es))"
      using same_type_hd [where f = "\<lambda>e. e_edgeType (edge g e)"] by blast
    moreover have "set es \<subseteq> set (dyn_list (g_masterEdgeList g))"
      using all l by (auto simp: in_set_conv_nth)
    ultimately show "edge_set_legal g l"
      using l unfolding edge_set_legal_def by blast
  next
    assume "edge_set_legal g l"
    then obtain es where l: "l = map Some es" and es: "set es \<subseteq> set (dyn_list (g_masterEdgeList g))"
        "\<forall>e\<in>set es. e_edgeType (edge g e) = e_edgeType (edge g (hd es))"
      by (auto simp: edge_set_legal_def)
    show ?all
    proof (intro allI impI)
      fix i
      assume i: "i < length l"
      then have "es ! i \<in> set es" "es ! (i - 1) \<in> set es"
        using l by auto
      then have "e_edgeType (edge g (es ! i)) = e_edgeType (edge g (es ! (i - 1)))"
        using es(2) by metis
      with i es(1) l \<open>es ! i \<in> set es\<close> show "\<exists>e. l ! i = Some e \<and> e \<in> set (dyn_list (g_masterEdgeList g)) \<and>
          (0 < i \<longrightarrow> e_edgeType (edge g (the (l ! (i - 1)))) = e_edgeType (edge g e))"
        by auto
    qed
  qed
  finally show ?thesis .
qed

lemma AddEdgeSet_ok:
  assumes ok: "graph_ok g" "mel_ok addr g" "inj addr"
    and add: "ToplAddEdgeSetToGraph addr (Some g) (Some (Some l)) = Inr g'"
  shows "graph_ok g'" "mel_ok addr g'"
    "dyn_list (g_edgeSets g') = (if length l > 1 then dyn_list (g_edgeSets g) @ [Some l] else dyn_list (g_edgeSets g))"
proof -
  note sm = sort_mel_ok [OF ok]
  from add obtain u where f: "foldE (check_set_edge addr (sort_mel addr g) l) [0..<length l] () = Inr u"
    and g': "g' = (if length l > 1
           then (sort_mel addr g)\<lparr>g_edgeSets := DynArrayAppend (g_edgeSets (sort_mel addr g)) (Some (Some l))\<rparr>
           else sort_mel addr g)"
    unfolding AddEdgeSet_eq [OF ok(1)] bindE_eq_Inr by auto
  obtain es where l: "l = map Some es" and es: "set es \<subseteq> set (dyn_list (g_masterEdgeList (sort_mel addr g)))"
      "\<forall>e\<in>set es. e_edgeType (edge g e) = e_edgeType (edge g (hd es))"
    using AddEdgeSet_legal [OF ok, of l] f sm(4) by (auto simp: edge_set_legal_def)
  have da: "dyn_array_ok (g_edgeSets (sort_mel addr g))"
    using sm(1) by (simp add: graph_ok_def)
  have "edge_set_ok (sort_mel addr g) (Some l)" if "1 < length l"
    using l es that sm(5) by (auto simp: edge_set_ok_def intro!: exI [of _ es])
  moreover have "edge_set_ok (g\<lparr>g_edgeSets := x\<rparr>) s = edge_set_ok g s" "edge_ok (g\<lparr>g_edgeSets := x\<rparr>) e = edge_ok g e"
    for g :: "('a, 'b) ToplGraphState" and x s e
    by (simp_all add: edge_set_ok_def edge_ok_def)
  ultimately show "graph_ok g'"
    using sm(1) da unfolding g' graph_ok_def by (cases "1 < length l") auto
  show "mel_ok addr g'"
    using sm(2) by (simp add: g' mel_ok_def)
  show "dyn_list (g_edgeSets g') = (if length l > 1 then dyn_list (g_edgeSets g) @ [Some l] else dyn_list (g_edgeSets g))"
    using da sm(6) by (simp add: g')
qed

text \<open>Updates of vertices that keep their identity.\<close>

lemma graph_ok_upd_vtx:
  assumes "graph_ok g" and "\<And>r. v_vtxId (f r) = v_vtxId r" and "\<And>r. v_vertexName (f r) = v_vertexName r"
    and "\<And>r. dyn_array_ok (v_edgeList r) \<Longrightarrow> dyn_array_ok (v_edgeList (f r))"
  shows "graph_ok (upd_vtx v f g)"
proof -
  have "dyn_array_ok (v_edgeList (vtx (upd_vtx v f g) i))" if "i < g_numVertices g" for i
    using assms(1,4) that by (cases "i = v") (auto simp: graph_ok_def)
  moreover have "edge_ok (upd_vtx v f g) e = edge_ok g e" "edge_set_ok (upd_vtx v f g) s = edge_set_ok g s" for e s
    by (simp_all add: edge_ok_def edge_set_ok_def)
  ultimately show ?thesis
    using assms(1) by (auto simp: graph_ok_def vtx_upd_field [where fld = v_vtxId, OF assms(2)]
        vtx_upd_field [where fld = v_vertexName, OF assms(3)])
qed

lemma graph_ok_map_vtx:
  assumes "graph_ok g" and "\<And>r. v_vtxId (f r) = v_vtxId r" and "\<And>r. v_vertexName (f r) = v_vertexName r"
    and "\<And>r. dyn_array_ok (v_edgeList r) \<Longrightarrow> dyn_array_ok (v_edgeList (f r))"
  shows "graph_ok (g\<lparr>g_vertices := map f (g_vertices g)\<rparr>)"
  using assms by (auto simp: graph_ok_def edge_ok_def edge_set_ok_def)

lemma color_vertex_ok:
  assumes "graph_ok g" and "color_vertex cv g = Inr g'"
  shows "graph_ok g'"
proof -
  obtain v where g': "g' = upd_vtx v (\<lambda>r. r\<lparr>v_color := cv_color cv, v_acceptRedRed := cv_acceptRedRed cv,
      v_acceptBlack := cv_acceptBlack cv\<rparr>) g"
    using assms(2) by (auto simp: color_vertex_def bindE_eq_Inr split: option.splits if_splits)
  show ?thesis
    unfolding g' by (rule graph_ok_upd_vtx [OF assms(1)]) simp_all
qed

lemma InitColoredVertices_ok:
  assumes "graph_ok g" and "InitColoredVertices g cvs w = Inr g'"
  shows "graph_ok g'"
proof -
  let ?w = "g\<lparr>g_vertices := map (\<lambda>r. r\<lparr>v_color := COLOR_WHITE\<rparr>) (g_vertices g)\<rparr>"
  from assms(2) obtain l where "foldE color_vertex l ?w = Inr g'"
    by (auto simp: InitColoredVertices_def Let_def bindE_eq_Inr split: option.splits if_splits)
  moreover have "graph_ok ?w"
    by (rule graph_ok_map_vtx [OF assms(1)]) simp_all
  ultimately show ?thesis
    by (rule foldE_invariant [where I = graph_ok]) (rule color_vertex_ok)
qed

lemma InitColored_frame:
  assumes "InitColoredVertices g cvs w = Inr g'"
  shows "g_melSorted g' = g_melSorted g \<and> g_masterEdgeList g' = g_masterEdgeList g"
proof -
  let ?I = "\<lambda>h. g_melSorted h = g_melSorted g \<and> g_masterEdgeList h = g_masterEdgeList g"
  let ?w = "g\<lparr>g_vertices := map (\<lambda>r. r\<lparr>v_color := COLOR_WHITE\<rparr>) (g_vertices g)\<rparr>"
  from assms obtain l where "foldE color_vertex l ?w = Inr g'"
    by (auto simp: InitColoredVertices_def Let_def bindE_eq_Inr split: option.splits if_splits)
  then show ?thesis
    by (rule foldE_invariant [where I = ?I])
      (auto simp: color_vertex_def bindE_eq_Inr split: option.splits if_splits)
qed

section \<open>Properties\<close>

text \<open>The graphs a caller can build.\<close>

inductive graph_reach :: "(eref \<Rightarrow> nat) \<Rightarrow> ('n, 't) ToplGraphState \<Rightarrow> bool" for addr where
  made: "ToplMakeGraphState names (Some cmp) cache = Inr g \<Longrightarrow> c_compare cmp \<Longrightarrow> graph_reach addr g"
| edge_added: "graph_reach addr g \<Longrightarrow> ToplAddEdgeToGraph (Some g) numVtx edgeType ri = Inr (g', ref) \<Longrightarrow> graph_reach addr g'"
| vertex_set: "graph_reach addr g \<Longrightarrow> e < length (g_store g) \<Longrightarrow>
    ToplEdgeSetVtx (Some g) (Some e) whichVtx vtxName = Inr g' \<Longrightarrow> graph_reach addr g'"
| set_added: "graph_reach addr g \<Longrightarrow> ToplAddEdgeSetToGraph addr (Some g) (Some (Some l)) = Inr g' \<Longrightarrow> graph_reach addr g'"
| colored: "graph_reach addr g \<Longrightarrow> InitColoredVertices g colorVtx whichVtx = Inr g' \<Longrightarrow> graph_reach addr g'"

text \<open>C40. Every graph built by the interface is well formed: vertices carry their index and name in the
  order of the sorted names, the master edge list holds distinct existing edges with at least two
  vertices, a legal type and a valid schedule, the vertex stored with a name of an edge is one whose
  name compares equal, and every edge set holds at least two edges of the graph, all of one type.\<close>

theorem graph_reach_ok:
  assumes "inj addr" and "graph_reach addr g"
  shows "graph_ok g \<and> mel_ok addr g"
  using assms(2)
proof induction
  case (made names cmp cache g)
  then have "graph_ok g"
    by (intro MakeGraphState_ok) auto
  moreover have "\<not> g_melSorted g"
    using made by (auto simp: ToplMakeGraphState_def Let_def split: option.splits if_splits)
  ultimately show ?case
    by (simp add: mel_ok_def)
next
  case (edge_added g numVtx edgeType ri g' ref)
  then have "\<not> g_melSorted g'"
    by (elim AddEdge_eq) simp
  with edge_added AddEdge_ok show ?case
    by (auto simp: mel_ok_def)
next
  case (vertex_set g e whichVtx vtxName g')
  then have "g_melSorted g' = g_melSorted g" "g_masterEdgeList g' = g_masterEdgeList g"
    by (auto simp: ToplEdgeSetVtx_def bindE_eq_Inr CheckGraphState_ok upd_edge_def split: option.splits)
  with vertex_set EdgeSetVtx_ok show ?case
    by (auto simp: mel_ok_def)
next
  case (set_added g l g')
  with AddEdgeSet_ok [OF _ _ assms(1)] show ?case
    by blast
next
  case (colored g colorVtx whichVtx g')
  then have "g_melSorted g' = g_melSorted g \<and> g_masterEdgeList g' = g_masterEdgeList g"
    using InitColored_frame by blast
  with colored InitColoredVertices_ok show ?case
    by (auto simp: mel_ok_def)
qed

text \<open>\<^verbatim>\<open>FindVertex\<close> finds a vertex exactly when the graph has a name that compares equal, and then
  returns the index of such a name.\<close>

theorem FindVertex_correct:
  assumes "graph_ok g"
  shows "case FindVertex g (Some x) of
      Inr (Some v) \<Rightarrow> v < g_numVertices g \<and> g_vnCompFunc g x (v_vertexName (vtx g v)) = 0
    | Inr None \<Rightarrow> \<forall>v<g_numVertices g. g_vnCompFunc g x (v_vertexName (vtx g v)) \<noteq> 0
    | Inl _ \<Rightarrow> False"
proof -
  have names: "\<forall>v<g_numVertices g. v_vertexName (vtx g v) = g_vertexNames g ! v" "length (g_vertexNames g) = g_numVertices g"
    using assms by (auto simp: graph_ok_def)
  obtain vp where vp: "FindVertex g (Some x) = Inr vp"
    by (simp add: FindVertex_def)
  then show ?thesis
    using FindVertex_spec [OF assms, of x] names by (cases vp) (auto simp: all_set_conv_all_nth)
qed

text \<open>\<^verbatim>\<open>ToplAddEdgeSetToGraph\<close> accepts a list of edge pointers exactly when none is null, all are edges
  of the graph and all have one edge type. It then records the set, unless it has fewer than two edges,
  and the graph stays well formed.\<close>

theorem ToplAddEdgeSetToGraph_correct:
  assumes "graph_ok g" and "mel_ok addr g" and "inj addr"
  shows "if edge_set_legal g l
    then \<exists>g'. ToplAddEdgeSetToGraph addr (Some g) (Some (Some l)) = Inr g' \<and> graph_ok g' \<and>
      dyn_list (g_edgeSets g') = (if length l > 1 then dyn_list (g_edgeSets g) @ [Some l] else dyn_list (g_edgeSets g))
    else \<exists>e. ToplAddEdgeSetToGraph addr (Some g) (Some (Some l)) = Inl e"
proof (cases "edge_set_legal g l")
  case True
  then obtain g' where "ToplAddEdgeSetToGraph addr (Some g) (Some (Some l)) = Inr g'"
    using AddEdgeSet_legal [OF assms, of l] AddEdgeSet_eq [OF assms(1), of addr l] by auto
  with True AddEdgeSet_ok [OF assms] show ?thesis
    by auto
next
  case False
  then have "\<not> (\<exists>u. foldE (check_set_edge addr (sort_mel addr g) l) [0..<length l] () = Inr u)"
    using AddEdgeSet_legal [OF assms, of l] by simp
  then obtain e where "foldE (check_set_edge addr (sort_mel addr g) l) [0..<length l] () = Inl e"
    by (metis sum.exhaust)
  with False AddEdgeSet_eq [OF assms(1), of addr l] show ?thesis
    by simp
qed

text \<open>\<^verbatim>\<open>ToplAddEdgeToGraph\<close> raises, in this order, for a bad graph, fewer than two vertices, an edge
  type above 31, missing replication data and an invalid schedule; otherwise it succeeds, also after
  edge sets were added, although its header file documents \<^verbatim>\<open>TOPL_EX_ADD_EDGE_AFTER_SET\<close> for that
  case.\<close>

theorem ToplAddEdgeToGraph_errors:
  "(case CheckGraphState G of
      Inl e \<Rightarrow> ToplAddEdgeToGraph G numVtx edgeType ri = Inl e
    | Inr g \<Rightarrow>
        (if numVtx < 2 then ToplAddEdgeToGraph G numVtx edgeType ri = Inl TOPL_EX_TOO_FEW_VTX
         else if edgeType > 31 then ToplAddEdgeToGraph G numVtx edgeType ri = Inl TOPL_EX_INVALID_EDGE_TYPE
         else case ri of
             None \<Rightarrow> ToplAddEdgeToGraph G numVtx edgeType ri = Inl TOPL_EX_NULL_POINTER
           | Some r \<Rightarrow>
               if ToplScheduleValid (ri_schedule r)
               then \<exists>g' e. ToplAddEdgeToGraph G numVtx edgeType ri = Inr (g', e) \<and> e = length (g_store g) \<and>
                 e_numVertices (edge g' e) = unat numVtx \<and> e_edgeType (edge g' e) = edgeType \<and> e_ri (edge g' e) = r
               else ToplAddEdgeToGraph G numVtx edgeType ri = Inl TOPL_EX_SCHEDULE_ERROR)) \<and>
   ToplAddEdgeToGraph G numVtx edgeType ri \<noteq> Inl TOPL_EX_ADD_EDGE_AFTER_SET"
  by (cases "CheckGraphState G"; cases ri)
    (auto simp: ToplAddEdgeToGraph_def MAX_EDGE_TYPE_def CreateMultiEdge_def CopyReplInfo_def Let_def
      CheckGraphState_def raise_if_def split: option.splits if_splits)

section \<open>Concrete instances\<close>

interpretation nat_names: c_compare "\<lambda>x y :: nat. int x - int y"
  by unfold_locales auto

definition sample_graph :: "(nat, ToplSched list) ToplGraphState" where
  "sample_graph =
     \<lparr>g_magicStart = GRAPH_MAGIC_START, g_vertexNames = [3, 5],
      g_vertices = map (InitializeVertex [3, 5] (Some list_cache_init)) [0, 1], g_melSorted = False,
      g_masterEdgeList = DynArrayInit sizeof_ptr, g_edgeSets = DynArrayInit sizeof_ptr,
      g_vnCompFunc = (\<lambda>x y. int x - int y), g_schedCache = list_cache_init,
      g_magicEnd = GRAPH_MAGIC_END, g_nonnull = True, g_store = []\<rparr>"

lemma sample_graph_made:
  "ToplMakeGraphState (Some [Some 5, Some 3]) (Some (\<lambda>x y. int x - int y)) (Some list_cache_init) = Inr sample_graph"
  by (simp add: sample_graph_def ToplMakeGraphState_def c_qsort_def Let_def)

lemma sample_graph_ok: "graph_ok sample_graph" "mel_ok addr sample_graph"
  "g_vertexNames sample_graph = [3, 5]" "g_numVertices sample_graph = 2" "dyn_list (g_masterEdgeList sample_graph) = []"
proof -
  show "graph_ok sample_graph"
    by (rule MakeGraphState_ok [OF sample_graph_made]) (auto intro: nat_names.c_compare_axioms)
qed (simp_all add: sample_graph_def mel_ok_def)

theorem graph_reach_ok_witness:
  "\<exists>g e. ToplAddEdgeToGraph (Some sample_graph) 2 7 (Some \<lparr>ri_cost = 4, ri_repIntvl = 60, ri_options = 0, ri_schedule = None\<rparr>) = Inr (g, e) \<and>
     dyn_list (g_masterEdgeList g) = [e] \<and> graph_ok g \<and> mel_ok id g"
proof -
  let ?ri = "\<lparr>ri_cost = 4, ri_repIntvl = 60, ri_options = 0, ri_schedule = None\<rparr>"
  obtain g e where add: "ToplAddEdgeToGraph (Some sample_graph) 2 7 (Some ?ri) = Inr (g, e)"
    by (simp add: ToplAddEdgeToGraph_def CheckGraphState_ok [OF sample_graph_ok(1)] MAX_EDGE_TYPE_def ToplScheduleValid_def Let_def)
  then have "dyn_list (g_masterEdgeList g) = [e]"
    using sample_graph_ok(1,5) by (elim AddEdge_eq) (simp add: graph_ok_def)
  moreover note graph_reach.edge_added [OF graph_reach.made [OF sample_graph_made nat_names.c_compare_axioms] add]
  ultimately show ?thesis
    using graph_reach_ok [OF inj_on_id] add by blast
qed

theorem FindVertex_correct_witness:
  "case FindVertex sample_graph (Some 4) of Inr (Some v) \<Rightarrow> v < 2 | Inr None \<Rightarrow> True | Inl _ \<Rightarrow> False"
  using FindVertex_correct [OF sample_graph_ok(1), of 4]
  by (auto simp: sample_graph_ok(4) split: sum.splits option.splits)

theorem ToplAddEdgeSetToGraph_correct_witness:
  "\<exists>e. ToplAddEdgeSetToGraph id (Some sample_graph) (Some (Some [None])) = Inl e"
proof -
  have "\<not> edge_set_legal sample_graph [None]"
    by (auto simp: edge_set_legal_def)
  then show ?thesis
    using ToplAddEdgeSetToGraph_correct [OF sample_graph_ok(1,2) inj_on_id, of "[None]"] by simp
qed

end
