(* ===== verification/Topl_Dijkstra.thy ===== *)
theory Topl_Dijkstra
  imports Topl_Graph
begin

text \<open>
  The first phase of the spanning-tree algorithm of \<^verbatim>\<open>ds/src/common/w32topl/stalg.c\<close>: the variant of
  Dijkstra's algorithm that grows a shortest-path forest from the colored vertices. The parameters
  of a run that are not under the control of the code form a record: the NT generic table behind the
  schedule cache, the contents \<open>env_junk\<close> of the uninitialised local \<^verbatim>\<open>newRI\<close> of \<^verbatim>\<open>TryNewPath\<close>, and
  whether the caller's exception handler resumes execution (\<open>env_resume\<close>) after
  \<^verbatim>\<open>RaiseNonIntersectingException\<close> has named the three vertices of a path.
\<close>

section \<open>Operations\<close>

record ('n, 't) topl_env =
  env_table :: "(ToplSched, 't) rtl_table_ops"
  env_junk :: "('n, 't) ToplGraphState \<Rightarrow> vref \<Rightarrow> eref \<Rightarrow> vref \<Rightarrow> TOPL_REPL_INFO"
  env_resume :: "'n \<Rightarrow> 'n \<Rightarrow> 'n \<Rightarrow> bool"

definition type_mask :: "dword \<Rightarrow> dword" where
  "type_mask edgeType = push_bit (unat edgeType) 1"

definition demote :: "'n ToplVertex \<Rightarrow> 'n ToplVertex" where
  "demote r = r\<lparr>v_ri := (v_ri r)\<lparr>ri_cost := INFINITY_DW\<rparr>, v_root := None, v_demoted := True\<rparr>"

text \<open>One round of the loop of \<^verbatim>\<open>SetupDijkstra\<close>.\<close>

definition setup_root ::
  "dword \<Rightarrow> bool \<Rightarrow> vref \<Rightarrow> vref STHEAP \<times> ('n, 't) ToplGraphState \<Rightarrow> vref STHEAP \<times> ('n, 't) ToplGraphState" where
  "setup_root edgeType fIncludeBlack v = (\<lambda>(heap, g).
     let r = vtx g v; mask = type_mask edgeType
     in if v_color r = COLOR_WHITE then (heap, g)
        else if (v_color r = COLOR_BLACK \<and> \<not> fIncludeBlack)
              \<or> (v_acceptBlack r AND mask = 0 \<and> v_acceptRedRed r AND mask = 0)
        then (heap, upd_vtx v demote g)
        else ToplSTHeapAdd vertex_ops v heap g)"

definition SetupDijkstra ::
  "('n, 't) ToplGraphState \<Rightarrow> dword \<Rightarrow> bool \<Rightarrow> vref STHEAP \<times> ('n, 't) ToplGraphState" where
  "SetupDijkstra g edgeType fIncludeBlack =
     (let g = SetupVertices g; heap = ToplSTHeapInit (g_numVertices g)
      in fold (setup_root edgeType fIncludeBlack) [0..<g_numVertices g] (heap, g))"

definition CheckDemoteOneVertex :: "vref \<Rightarrow> dword \<Rightarrow> ('n, 't) ToplGraphState \<Rightarrow> ('n, 't) ToplGraphState" where
  "CheckDemoteOneVertex v edgeType g =
     (let mask = type_mask edgeType; r = vtx g v
      in if v_color r = COLOR_WHITE then g
         else if v_acceptBlack r AND mask = 0 \<and> v_acceptRedRed r AND mask = 0 then upd_vtx v demote g
         else g)"

definition UndemoteOneVertex :: "vref \<Rightarrow> ('n, 't) ToplGraphState \<Rightarrow> ('n, 't) ToplGraphState" where
  "UndemoteOneVertex v g =
     (if v_color (vtx g v) = COLOR_WHITE then g
      else upd_vtx v (\<lambda>r. r\<lparr>v_ri := (v_ri r)\<lparr>ri_cost := 0\<rparr>, v_root := Some v, v_demoted := False\<rparr>) g)"

definition AddDWORDSat :: "dword \<Rightarrow> dword \<Rightarrow> dword" where
  "AddDWORDSat a b = (let c = a + b in if c < a \<or> c < b \<or> c > INFINITY_DW then INFINITY_DW else c)"

text \<open>\<open>None\<close> is \<^verbatim>\<open>NON_INTERSECTING\<close>; the schedule cache may gain an entry either way.\<close>

definition CombineReplInfo ::
  "('n, 't) topl_env \<Rightarrow> ('n, 't) ToplGraphState \<Rightarrow> TOPL_REPL_INFO \<Rightarrow> TOPL_REPL_INFO \<Rightarrow>
   (('n, 't) ToplGraphState \<times> TOPL_REPL_INFO option) topl" where
  "CombineReplInfo env g a b =
     bindE (ToplScheduleMerge (env_table env) (Some (g_schedCache g)) (ri_schedule a) (ri_schedule b) True)
       (\<lambda>(cache, s, fIsNever).
          let g = g\<lparr>g_schedCache := cache\<rparr>
          in if fIsNever then Inr (g, None)
             else Inr (g, Some \<lparr>ri_cost = AddDWORDSat (ri_cost a) (ri_cost b),
                                ri_repIntvl = (if ri_repIntvl a > ri_repIntvl b then ri_repIntvl a else ri_repIntvl b),
                                ri_options = ri_options a AND ri_options b,
                                ri_schedule = s\<rparr>))"

text \<open>Raised with \<^verbatim>\<open>RaiseException\<close>; returns when the handler resumes.\<close>

definition RaiseNonIntersectingException ::
  "('n, 't) topl_env \<Rightarrow> ('n, 't) ToplGraphState \<Rightarrow> vref \<Rightarrow> vref \<Rightarrow> vref \<Rightarrow> unit topl" where
  "RaiseNonIntersectingException env g a b c =
     (if env_resume env (v_vertexName (vtx g a)) (v_vertexName (vtx g b)) (v_vertexName (vtx g c))
      then Inr () else Inl TOPL_EX_NONINTERSECTING_SCHEDULES)"

definition TryNewPath ::
  "('n, 't) topl_env \<Rightarrow> vref \<Rightarrow> eref \<Rightarrow> vref \<Rightarrow> vref STHEAP \<times> ('n, 't) ToplGraphState \<Rightarrow>
   (vref STHEAP \<times> ('n, 't) ToplGraphState) topl" where
  "TryNewPath env u e v = (\<lambda>(heap, g0).
     bindE (CombineReplInfo env g0 (v_ri (vtx g0 u)) (e_ri (edge g0 e))) (\<lambda>(g, combined).
       let fIntersect = (combined \<noteq> None);
           newRI = (case combined of Some ri \<Rightarrow> ri | None \<Rightarrow> env_junk env g0 u e v)
       in if ri_cost newRI > ri_cost (v_ri (vtx g v)) then Inr (heap, g)
          else if ri_cost newRI < ri_cost (v_ri (vtx g v)) \<and> \<not> fIntersect
          then bindE (RaiseNonIntersectingException env g (the (v_root (vtx g u))) u v) (\<lambda>_. Inr (heap, g))
          else
            bindE (ToplScheduleDuration (ri_schedule newRI)) (\<lambda>newDuration.
            bindE (ToplScheduleDuration (ri_schedule (v_ri (vtx g v)))) (\<lambda>oldDuration.
              if ri_cost newRI < ri_cost (v_ri (vtx g v)) \<or> newDuration > oldDuration
              then
                let g = upd_vtx v (\<lambda>r. r\<lparr>v_root := v_root (vtx g u), v_componentId := v_componentId (vtx g u),
                                         v_ri := CopyReplInfo newRI\<rparr>) g
                in Inr (if v_heapLocn (vtx g v) = STHEAP_NOT_IN_HEAP
                        then ToplSTHeapAdd vertex_ops v heap g
                        else ToplSTHeapCostReduced vertex_ops v heap g)
              else Inr (heap, g)))))"

definition relax_edge ::
  "('n, 't) topl_env \<Rightarrow> vref \<Rightarrow> eref \<Rightarrow> vref STHEAP \<times> ('n, 't) ToplGraphState \<Rightarrow>
   (vref STHEAP \<times> ('n, 't) ToplGraphState) topl" where
  "relax_edge env u e = (\<lambda>(heap, g).
     bindE (CheckMultiEdge g (Some e)) (\<lambda>_. foldE (TryNewPath env u e) (edge_walk g e) (heap, g)))"

definition relax_vertex ::
  "('n, 't) topl_env \<Rightarrow> vref \<Rightarrow> vref STHEAP \<times> ('n, 't) ToplGraphState \<Rightarrow>
   (vref STHEAP \<times> ('n, 't) ToplGraphState) topl" where
  "relax_vertex env u = (\<lambda>(heap, g). foldE (relax_edge env u) (dyn_walk (v_edgeList (vtx g u))) (heap, g))"

text \<open>\<open>None\<close> is a loop that does not end.\<close>

partial_function (option) dijkstra_loop ::
  "('n, 't) topl_env \<Rightarrow> vref STHEAP \<Rightarrow> ('n, 't) ToplGraphState \<Rightarrow> ('n, 't) ToplGraphState topl option" where
  "dijkstra_loop env heap g =
     (case ToplSTHeapExtractMin vertex_ops heap g of
        (up, heap, g) \<Rightarrow>
          (case up of
             None \<Rightarrow> Some (Inr g)
           | Some u \<Rightarrow>
               (case relax_vertex env u (heap, g) of
                  Inl ex \<Rightarrow> Some (Inl ex)
                | Inr hg \<Rightarrow> dijkstra_loop env (fst hg) (snd hg))))"

declare dijkstra_loop.simps [code]

definition Dijkstra ::
  "('n, 't) topl_env \<Rightarrow> ('n, 't) ToplGraphState \<Rightarrow> dword \<Rightarrow> bool \<Rightarrow> ('n, 't) ToplGraphState topl option" where
  "Dijkstra env g edgeType fIncludeBlack =
     (case SetupDijkstra g edgeType fIncludeBlack of (heap, g) \<Rightarrow> dijkstra_loop env heap g)"

section \<open>Saturating addition\<close>

lemma unat_AddDWORDSat: "unat (AddDWORDSat a b) = min (unat a + unat b) (2 ^ 32 - 1)"
proof -
  have wrap: "unat (a + b) = (unat a + unat b) mod 2 ^ 32"
    by (simp add: unat_word_ariths)
  have bounds: "unat a < 2 ^ 32" "unat b < 2 ^ 32"
    by (rule unat_dword_less)+
  show ?thesis
  proof (cases "unat a + unat b < 2 ^ 32")
    case True
    then have "unat (a + b) = unat a + unat b"
      using wrap by simp
    moreover from this have "\<not> (a + b < a \<or> a + b < b \<or> a + b > INFINITY_DW)"
      using True unat_INFINITY_DW by (auto simp: word_less_nat_alt)
    ultimately show ?thesis
      using True by (simp add: AddDWORDSat_def Let_def)
  next
    case False
    then have "unat (a + b) = unat a + unat b - 2 ^ 32"
      using wrap bounds by (simp add: le_mod_geq)
    then have "a + b < a"
      using bounds False by (simp add: word_less_nat_alt)
    then show ?thesis
      using False unat_INFINITY_DW by (simp add: AddDWORDSat_def Let_def)
  qed
qed

lemma AddDWORDSat_ge: "a \<le> AddDWORDSat a b"
  using unat_dword_less [of a] by (simp add: word_le_nat_alt unat_AddDWORDSat)

section \<open>What the algorithm leaves alone\<close>

text \<open>The labels are the fields of a vertex the algorithm writes; the net is the rest of the graph.\<close>

definition unlabelled where
  "unlabelled r =
     (v_vtxId r, v_vertexName r, v_edgeList r, v_color r, v_acceptRedRed r, v_acceptBlack r,
      v_componentIndex r, v_distToRed r, v_parent r, v_nextChild r)"

definition net where
  "net g =
     (map unlabelled (g_vertices g), g_magicStart g, g_vertexNames g, g_melSorted g, g_masterEdgeList g,
      g_edgeSets g, g_vnCompFunc g, g_magicEnd g, g_nonnull g, g_store g)"

lemma net_upd_vtx:
  assumes "\<And>r. unlabelled (f r) = unlabelled r"
  shows "net (upd_vtx v f g) = net g"
proof -
  have "map unlabelled ((g_vertices g)[v := f (vtx g v)]) = map unlabelled (g_vertices g)"
    using vtx_upd_field [where fld = unlabelled and f = f, OF assms, unfolded upd_vtx_def]
    by (intro nth_equalityI) simp_all
  then show ?thesis
    by (simp add: net_def upd_vtx_def)
qed

lemma net_cache [simp]: "net (g\<lparr>g_schedCache := c\<rparr>) = net g"
  by (simp add: net_def)

lemma net_eqD:
  assumes "net g = net g'"
  shows "g_numVertices g = g_numVertices g'" "g_store g = g_store g'" "g_vertexNames g = g_vertexNames g'"
    "g_masterEdgeList g = g_masterEdgeList g'" "g_edgeSets g = g_edgeSets g'" "g_vnCompFunc g = g_vnCompFunc g'"
    "g_magicStart g = g_magicStart g'" "g_magicEnd g = g_magicEnd g'" "g_nonnull g = g_nonnull g'"
    "v < g_numVertices g \<Longrightarrow> unlabelled (vtx g v) = unlabelled (vtx g' v)"
proof -
  have "map unlabelled (g_vertices g) = map unlabelled (g_vertices g')"
    using assms by (simp add: net_def)
  then show n: "g_numVertices g = g_numVertices g'"
    by (metis length_map)
  show "v < g_numVertices g \<Longrightarrow> unlabelled (vtx g v) = unlabelled (vtx g' v)"
    using \<open>map unlabelled (g_vertices g) = map unlabelled (g_vertices g')\<close> n by (metis nth_map)
qed (use assms in \<open>simp_all add: net_def\<close>)

lemma unlabelled_fields:
  assumes "unlabelled r = unlabelled r'"
  shows "v_vtxId r = v_vtxId r'" "v_vertexName r = v_vertexName r'" "v_edgeList r = v_edgeList r'"
    "v_color r = v_color r'" "v_acceptRedRed r = v_acceptRedRed r'" "v_acceptBlack r = v_acceptBlack r'"
    "v_componentIndex r = v_componentIndex r'"
  using assms by (simp_all add: unlabelled_def)

lemma net_fields:
  assumes "net g = net g'" and "v < g_numVertices g"
  shows "v_vtxId (vtx g v) = v_vtxId (vtx g' v)" "v_vertexName (vtx g v) = v_vertexName (vtx g' v)"
    "v_edgeList (vtx g v) = v_edgeList (vtx g' v)" "v_color (vtx g v) = v_color (vtx g' v)"
    "v_acceptRedRed (vtx g v) = v_acceptRedRed (vtx g' v)" "v_acceptBlack (vtx g v) = v_acceptBlack (vtx g' v)"
  using unlabelled_fields [OF net_eqD(10) [OF assms]] by simp_all

lemma net_edge_walk: "net g = net g' \<Longrightarrow> edge_walk g e = edge_walk g' e"
  by (drule net_eqD(2)) (simp add: edge_walk_def EdgeGetVertex_def)

lemma graph_ok_net:
  assumes "net g = net g'" and "graph_ok g"
  shows "graph_ok g'"
proof -
  note eq = net_eqD(1-9) [OF assms(1)]
  have "\<forall>i<g_numVertices g'. v_vtxId (vtx g' i) = i \<and> v_vertexName (vtx g' i) = g_vertexNames g' ! i \<and>
      dyn_array_ok (v_edgeList (vtx g' i))"
  proof (intro allI impI)
    fix i
    assume i: "i < g_numVertices g'"
    then have "v_vtxId (vtx g i) = i \<and> v_vertexName (vtx g i) = g_vertexNames g ! i \<and> dyn_array_ok (v_edgeList (vtx g i))"
      using assms(2) eq(1) by (simp add: graph_ok_def)
    then show "v_vtxId (vtx g' i) = i \<and> v_vertexName (vtx g' i) = g_vertexNames g' ! i \<and> dyn_array_ok (v_edgeList (vtx g' i))"
      using net_fields(1-3) [OF assms(1), of i] i eq(1,3) by metis
  qed
  moreover have "edge_ok g' e = edge_ok g e" "edge_set_ok g' s = edge_set_ok g s" for e s
    by (simp_all add: edge_ok_def edge_set_ok_def eq)
  ultimately show ?thesis
    using assms(2) by (simp add: graph_ok_def eq)
qed

section \<open>The heap and vertices outside it\<close>

lemma heap_frame:
  assumes "heap_ok vertex_ops vertex_valid heap g" and "g_numVertices g' = g_numVertices g"
    and "\<And>w. w < g_numVertices g \<Longrightarrow> v_heapLocn (vtx g' w) = v_heapLocn (vtx g w)"
    and "\<And>w. w \<in> heap_elems heap \<Longrightarrow> ri_cost (v_ri (vtx g' w)) = ri_cost (v_ri (vtx g w)) \<and> v_vtxId (vtx g' w) = v_vtxId (vtx g w)"
  shows "heap_ok vertex_ops vertex_valid heap g'"
proof -
  have val: "vertex_valid v g' = vertex_valid v g" for v
    by (simp add: vertex_valid_def assms(2))
  have locn: "VertexGetLocn v g' = VertexGetLocn v g" if "vertex_valid v g" for v
    using assms(3) that by (simp add: VertexGetLocn_def vertex_valid_def)
  have cmp: "VertexComp a b g' = VertexComp a b g" if "a \<in> heap_elems heap" "b \<in> heap_elems heap" for a b
    unfolding VertexComp_keys using assms(4) [OF that(1)] assms(4) [OF that(2)] by simp
  have locs: "heap_locs vertex_ops vertex_valid heap g" and ord: "heap_order (\<lambda>a b. VertexComp a b g \<le> 0) (hdata heap) (nextFreeSpot heap)"
    and shape: "heap_shape heap"
    using assms(1) by (auto simp: heap_ok_def)
  have "heap_locs vertex_ops vertex_valid heap g'"
    using locs locn unfolding heap_locs_def val vertex_ops_simps by auto
  moreover have "heap_order (\<lambda>a b. VertexComp a b g' \<le> 0) (hdata heap) (nextFreeSpot heap)"
    unfolding heap_order_def
  proof (intro allI impI)
    fix i
    assume i: "2 \<le> i \<and> i < nextFreeSpot heap"
    then have "cell (hdata heap) (i div 2) \<in> heap_elems heap" "cell (hdata heap) i \<in> heap_elems heap"
      by (auto simp: heap_elems_iff intro: exI [of _ "i div 2"] exI [of _ i])
    with i ord show "VertexComp (cell (hdata heap) (i div 2)) (cell (hdata heap) i) g' \<le> 0"
      by (simp add: cmp heap_order_def)
  qed
  ultimately show ?thesis
    using shape by (simp add: heap_ok_def)
qed

lemma heap_elems_valid:
  "heap_ok vertex_ops vertex_valid heap g \<Longrightarrow> v \<in> heap_elems heap \<Longrightarrow> v < g_numVertices g"
  by (auto simp: heap_ok_def heap_locs_def heap_elems_iff vertex_valid_def)

lemma heap_locn:
  assumes "heap_ok vertex_ops vertex_valid heap g" and "v < g_numVertices g"
  shows "v_heapLocn (vtx g v) = STHEAP_NOT_IN_HEAP \<longleftrightarrow> v \<notin> heap_elems heap"
  using assms by (auto simp: heap_ok_def heap_locs_def heap_elems_iff vertex_valid_def VertexGetLocn_def STHEAP_NOT_IN_HEAP_def)

lemma card_heap_elems:
  assumes "heap_ok vertex_ops vertex_valid heap g"
  shows "card (heap_elems heap) = nextFreeSpot heap - 1"
proof -
  have "inj_on (cell (hdata heap)) {1..<nextFreeSpot heap}"
    using vertex_heap.cells_distinct assms by (auto simp: inj_on_def heap_ok_def)
  then show ?thesis
    by (simp add: heap_elems_def card_image)
qed

lemma heap_room:
  assumes ok: "heap_ok vertex_ops vertex_valid heap g" and "maxSize heap = g_numVertices g"
    and "v < g_numVertices g" and "v \<notin> heap_elems heap"
  shows "nextFreeSpot heap \<le> maxSize heap"
proof -
  have "insert v (heap_elems heap) \<subseteq> {..<g_numVertices g}"
    using heap_elems_valid [OF ok] assms(3) by auto
  then have "card (insert v (heap_elems heap)) \<le> g_numVertices g"
    using card_mono [of "{..<g_numVertices g}" "insert v (heap_elems heap)"] by simp
  moreover have "finite (heap_elems heap)"
    by (simp add: heap_elems_def)
  ultimately show ?thesis
    using assms(2,4) card_heap_elems [OF ok] by simp
qed

text \<open>The heap changes only locations.\<close>

lemma relocated_vtx:
  assumes "relocated vertex_ops g g'" and "\<And>r l. fld (r\<lparr>v_heapLocn := l\<rparr>) = fld r"
  shows "fld (vtx g' v) = fld (vtx g v)"
proof (rule relocated_frame [OF assms(1)])
  fix e l and x :: "('a, 'b) ToplGraphState"
  show "fld (vtx (SetLocn vertex_ops e l x) v) = fld (vtx x v)"
    unfolding vertex_ops_simps VertexSetLocn_def by (rule vtx_upd_field) (rule assms(2))
qed

lemma relocated_net: "relocated vertex_ops g g' \<Longrightarrow> net g' = net g"
  by (erule relocated_frame) (simp add: VertexSetLocn_def net_upd_vtx unlabelled_def)

lemma relocated_cache: "relocated vertex_ops g g' \<Longrightarrow> g_schedCache g' = g_schedCache g"
  by (erule relocated_frame) (simp add: VertexSetLocn_def)

lemmas relocated_labels =
  relocated_vtx [where fld = v_ri] relocated_vtx [where fld = v_root] relocated_vtx [where fld = v_componentId]
  relocated_vtx [where fld = v_demoted]

section \<open>Shortest paths\<close>

abbreviation vcost :: "('n, 't) ToplGraphState \<Rightarrow> vref \<Rightarrow> dword" where
  "vcost g v \<equiv> ri_cost (v_ri (vtx g v))"

abbreviation ecost :: "('n, 't) ToplGraphState \<Rightarrow> eref \<Rightarrow> dword" where
  "ecost g e \<equiv> ri_cost (e_ri (edge g e))"

text \<open>One hop: from a vertex over an edge of its edge list to a vertex of that edge.\<close>

definition arcs :: "('n, 't) ToplGraphState \<Rightarrow> vref \<Rightarrow> (eref \<times> vref) set" where
  "arcs g u = {(e, w). e \<in> set (dyn_list (v_edgeList (vtx g u))) \<and> w \<in> set (edge_walk g e)}"

text \<open>The exact cost of a path, as an unbounded number.\<close>

inductive path_cost :: "('n, 't) ToplGraphState \<Rightarrow> vref \<Rightarrow> vref \<Rightarrow> nat \<Rightarrow> bool" for g r where
  path_start: "path_cost g r r 0"
| path_step: "path_cost g r u c \<Longrightarrow> (e, w) \<in> arcs g u \<Longrightarrow> path_cost g r w (c + unat (ecost g e))"

definition arcs_ok :: "('n, 't) ToplGraphState \<Rightarrow> bool" where
  "arcs_ok g \<longleftrightarrow> graph_ok g \<and>
     (\<forall>u<g_numVertices g. \<forall>e\<in>set (dyn_list (v_edgeList (vtx g u))).
        e < length (g_store g) \<and> (\<forall>w\<in>set (edge_walk g e). w < g_numVertices g))"

text \<open>All schedules on the edges come from the graph's valid cache and share the open chunk \<open>k\<close>.\<close>

definition scheds_ok ::
  "('t \<Rightarrow> bool) \<Rightarrow> ('t \<Rightarrow> ToplSched list) \<Rightarrow> nat \<Rightarrow> ('n, 't) ToplGraphState \<Rightarrow> bool" where
  "scheds_ok ok elems k g \<longleftrightarrow> cache_ok ok elems (g_schedCache g) \<and> k < SCHED_NUMBER_INTERVALS_WEEK \<and>
     (\<forall>u<g_numVertices g. \<forall>e\<in>set (dyn_list (v_edgeList (vtx g u))).
        in_cache elems (g_schedCache g) (ri_schedule (e_ri (edge g e))) \<and> k \<in> avail (ri_schedule (e_ri (edge g e))))"

definition unreached :: "'n ToplVertex \<Rightarrow> bool" where
  "unreached r \<longleftrightarrow> v_root r = None \<and> ri_cost (v_ri r) = INFINITY_DW \<and> ri_schedule (v_ri r) = None"

definition reached ::
  "('t \<Rightarrow> ToplSched list) \<Rightarrow> nat \<Rightarrow> ('n, 't) ToplGraphState \<Rightarrow> vref set \<Rightarrow> ('n, 't) ToplGraphState \<Rightarrow> vref \<Rightarrow> bool" where
  "reached elems k G R g v \<longleftrightarrow>
     (\<exists>r\<in>R. v_root (vtx g v) = Some r \<and> path_cost G r v (unat (vcost g v)) \<and> vcost g v \<noteq> INFINITY_DW \<and>
        in_cache elems (g_schedCache g) (ri_schedule (v_ri (vtx g v))) \<and> k \<in> avail (ri_schedule (v_ri (vtx g v))) \<and>
        v_componentId (vtx g v) = int r)"

definition relaxed :: "('n, 't) ToplGraphState \<Rightarrow> ('n, 't) ToplGraphState \<Rightarrow> vref \<Rightarrow> bool" where
  "relaxed G g u \<longleftrightarrow> (\<forall>(e, w)\<in>arcs G u. vcost g w \<le> AddDWORDSat (vcost g u) (ecost G e))"

text \<open>
  The invariant of the loop. \<open>G\<close> is the graph before the run, \<open>R\<close> the roots, and \<open>X\<close> the vertex
  whose edges are being examined, if any. The first part is about the labels only.
\<close>

definition labels_inv ::
  "('t \<Rightarrow> bool) \<Rightarrow> ('t \<Rightarrow> ToplSched list) \<Rightarrow> nat \<Rightarrow> ('n, 't) ToplGraphState \<Rightarrow> vref set \<Rightarrow>
   ('n, 't) ToplGraphState \<Rightarrow> bool" where
  "labels_inv ok elems k G R g \<longleftrightarrow>
     net g = net G \<and> arcs_ok g \<and> scheds_ok ok elems k g \<and>
     (\<forall>h. in_cache elems (g_schedCache G) h \<longrightarrow> in_cache elems (g_schedCache g) h) \<and>
     (\<forall>v<g_numVertices g. unreached (vtx g v) \<or> reached elems k G R g v) \<and>
     (\<forall>r\<in>R. r < g_numVertices g \<and> vcost g r = 0 \<and> ri_schedule (v_ri (vtx g r)) = None \<and> v_root (vtx g r) = Some r) \<and>
     (\<forall>v<g_numVertices g. v_color (vtx g v) \<noteq> COLOR_WHITE \<longrightarrow> v_demoted (vtx g v) \<or> v_root (vtx g v) \<noteq> None)"

definition dij_inv ::
  "('t \<Rightarrow> bool) \<Rightarrow> ('t \<Rightarrow> ToplSched list) \<Rightarrow> nat \<Rightarrow> ('n, 't) ToplGraphState \<Rightarrow> vref set \<Rightarrow> vref set \<Rightarrow>
   vref STHEAP \<times> ('n, 't) ToplGraphState \<Rightarrow> bool" where
  "dij_inv ok elems k G R X = (\<lambda>(heap, g).
     labels_inv ok elems k G R g \<and>
     heap_ok vertex_ops vertex_valid heap g \<and> maxSize heap = g_numVertices g \<and>
     (\<forall>u\<in>heap_elems heap. v_root (vtx g u) \<noteq> None) \<and>
     (\<forall>u<g_numVertices g. v_root (vtx g u) \<noteq> None \<longrightarrow> u \<notin> heap_elems heap \<longrightarrow> u \<notin> X \<longrightarrow> relaxed G g u))"

text \<open>The potential that every improvement of a label lowers.\<close>

definition vrank :: "'n ToplVertex \<Rightarrow> nat" where
  "vrank r = unat (ri_cost (v_ri r)) * 10081 + (10080 - 15 * card (avail (ri_schedule (v_ri r))))"

definition potential :: "('n, 't) ToplGraphState \<Rightarrow> nat" where
  "potential g = (\<Sum>v<g_numVertices g. vrank (vtx g v))"

lemma card_avail_le: "card (avail h) \<le> 672"
  using card_mono [OF _ avail_week [of h]] by (simp add: SCHED_NUMBER_INTERVALS_WEEK_def)

lemma vrank_less:
  assumes "ri_cost (v_ri r') < ri_cost (v_ri r) \<or>
     ri_cost (v_ri r') = ri_cost (v_ri r) \<and> card (avail (ri_schedule (v_ri r))) < card (avail (ri_schedule (v_ri r')))"
  shows "vrank r' < vrank r"
  using assms
proof
  assume "ri_cost (v_ri r') < ri_cost (v_ri r)"
  then have "Suc (unat (ri_cost (v_ri r'))) \<le> unat (ri_cost (v_ri r))"
    by (simp add: word_less_nat_alt)
  then have "Suc (unat (ri_cost (v_ri r'))) * 10081 \<le> unat (ri_cost (v_ri r)) * 10081"
    by (rule mult_le_mono1)
  then show ?thesis
    by (simp add: vrank_def)
next
  assume "ri_cost (v_ri r') = ri_cost (v_ri r) \<and> card (avail (ri_schedule (v_ri r))) < card (avail (ri_schedule (v_ri r')))"
  moreover have "(c::nat) * 10081 + (10080 - 15 * b) < c * 10081 + (10080 - 15 * a)" if "a < b" "b \<le> 672" for a b c
    using that by linarith
  ultimately show ?thesis
    unfolding vrank_def using card_avail_le [of "ri_schedule (v_ri r')"] by metis
qed

lemma potential_upd:
  assumes "w < g_numVertices g" and "vrank (f (vtx g w)) < vrank (vtx g w)"
  shows "potential (upd_vtx w f g) < potential g"
proof -
  have "potential (upd_vtx w f g) = (\<Sum>v<g_numVertices g. if v = w then vrank (f (vtx g w)) else vrank (vtx g v))"
    unfolding potential_def using assms(1) by (intro sum.cong) (auto simp: vtx_upd_if)
  also have "\<dots> < potential g"
    unfolding potential_def using assms by (intro sum_strict_mono_ex1) auto
  finally show ?thesis .
qed

lemma potential_relocated: "relocated vertex_ops g g' \<Longrightarrow> potential g' = potential g"
  unfolding potential_def using net_eqD(1) [OF relocated_net, of g g']
  by (intro sum.cong) (auto simp: vrank_def relocated_labels(1))

lemma potential_cache [simp]: "potential (g\<lparr>g_schedCache := c\<rparr>) = potential g"
  by (simp add: potential_def)

section \<open>Congruence of the invariant\<close>

lemma arcs_net: "net g = net G \<Longrightarrow> u < g_numVertices g \<Longrightarrow> arcs g u = arcs G u"
  unfolding arcs_def using net_fields(3) [of g G u] net_edge_walk [of g G] by presburger

lemma ecost_net: "net g = net G \<Longrightarrow> ecost g e = ecost G e"
  by (drule net_eqD(2)) simp

lemma arcs_ok_net:
  assumes "net g = net g'" and "arcs_ok g"
  shows "arcs_ok g'"
  using assms(2) graph_ok_net [OF assms(1)] net_fields(3) [OF assms(1)] net_edge_walk [OF assms(1)]
    net_eqD(1,2) [OF assms(1)]
  unfolding arcs_ok_def by simp

lemma scheds_ok_net:
  assumes "net g = net g'" and "scheds_ok ok elems k g" and "cache_ok ok elems (g_schedCache g')"
    and "\<And>h. in_cache elems (g_schedCache g) h \<Longrightarrow> in_cache elems (g_schedCache g') h"
  shows "scheds_ok ok elems k g'"
  using assms(2-4) net_fields(3) [OF assms(1)] net_eqD(1,2) [OF assms(1)]
  unfolding scheds_ok_def by simp

lemma scheds_cache: "scheds_ok ok elems k g \<Longrightarrow> cache_ok ok elems (g_schedCache g)"
  by (simp add: scheds_ok_def)

lemma reached_cong:
  assumes "\<And>h. in_cache elems (g_schedCache g) h \<Longrightarrow> in_cache elems (g_schedCache g') h"
    and "v_ri (vtx g' v) = v_ri (vtx g v)" "v_root (vtx g' v) = v_root (vtx g v)"
    "v_componentId (vtx g' v) = v_componentId (vtx g v)"
  shows "reached elems k G R g v \<Longrightarrow> reached elems k G R g' v"
  using assms unfolding reached_def by auto

lemma unreached_cong:
  "v_ri r = v_ri r' \<Longrightarrow> v_root r = v_root r' \<Longrightarrow> unreached r = unreached r'"
  by (simp add: unreached_def)

lemma labels_inv_cong:
  assumes inv: "labels_inv ok elems k G R g" and net: "net g' = net g"
    and cache: "cache_ok ok elems (g_schedCache g')"
      "\<And>h. in_cache elems (g_schedCache g) h \<Longrightarrow> in_cache elems (g_schedCache g') h"
    and same: "\<And>v. v_ri (vtx g' v) = v_ri (vtx g v)" "\<And>v. v_root (vtx g' v) = v_root (vtx g v)"
      "\<And>v. v_componentId (vtx g' v) = v_componentId (vtx g v)" "\<And>v. v_demoted (vtx g' v) = v_demoted (vtx g v)"
  shows "labels_inv ok elems k G R g'"
proof -
  have n: "g_numVertices g' = g_numVertices g"
    by (rule net_eqD(1) [OF net])
  have color: "v_color (vtx g' v) = v_color (vtx g v)" if "v < g_numVertices g" for v
    using net_fields(4) [OF net, of v] that n by simp
  have "unreached (vtx g' v) \<or> reached elems k G R g' v" if "v < g_numVertices g'" for v
    using inv that reached_cong [OF cache(2) same(1-3), where v = v and k = k and G = G and R = R] unreached_cong [OF same(1,2), of v]
    unfolding labels_inv_def n by blast
  then show ?thesis
    using inv arcs_ok_net [OF net [symmetric]] scheds_ok_net [OF net [symmetric] _ cache] net color cache(2)
    unfolding labels_inv_def n same by auto
qed

lemma relaxed_cong: "(\<And>v. v_ri (vtx g' v) = v_ri (vtx g v)) \<Longrightarrow> relaxed G g' u = relaxed G g u"
  by (simp add: relaxed_def)

lemma labels_inv_relocated:
  assumes "labels_inv ok elems k G R g" and rel: "relocated vertex_ops g g'"
  shows "labels_inv ok elems k G R g'"
  using assms(1) relocated_net [OF rel]
proof (rule labels_inv_cong)
  show "cache_ok ok elems (g_schedCache g')"
    using assms(1) by (simp add: relocated_cache [OF rel] labels_inv_def scheds_ok_def)
qed (simp_all add: relocated_cache [OF rel] relocated_labels [OF rel])

lemma labels_inv_cache:
  assumes "labels_inv ok elems k G R g" and "cache_ok ok elems c"
    and "\<And>h. in_cache elems (g_schedCache g) h \<Longrightarrow> in_cache elems c h"
  shows "labels_inv ok elems k G R (g\<lparr>g_schedCache := c\<rparr>)"
  by (rule labels_inv_cong [OF assms(1)]) (use assms(2,3) in simp_all)

lemma dij_inv_cache:
  assumes "dij_inv ok elems k G R X (heap, g)" and "cache_ok ok elems c"
    and "\<And>h. in_cache elems (g_schedCache g) h \<Longrightarrow> in_cache elems c h"
  shows "dij_inv ok elems k G R X (heap, g\<lparr>g_schedCache := c\<rparr>)"
proof -
  have ok: "heap_ok vertex_ops vertex_valid heap g"
    using assms(1) by (simp add: dij_inv_def)
  have "heap_ok vertex_ops vertex_valid heap (g\<lparr>g_schedCache := c\<rparr>)"
    by (rule heap_frame [OF ok]) simp_all
  moreover have "relaxed G (g\<lparr>g_schedCache := c\<rparr>) u = relaxed G g u" for u
    by (rule relaxed_cong) simp
  ultimately show ?thesis
    using assms(1) labels_inv_cache [OF _ assms(2,3), where k = k and G = G and R = R] by (simp add: dij_inv_def)
qed

section \<open>One improvement\<close>

text \<open>The new label of a vertex.\<close>

abbreviation relabel :: "vref \<Rightarrow> TOPL_REPL_INFO \<Rightarrow> ('n, 't) ToplGraphState \<Rightarrow> vref \<Rightarrow> ('n, 't) ToplGraphState" where
  "relabel u ri g w \<equiv> upd_vtx w (\<lambda>r. r\<lparr>v_root := v_root (vtx g u), v_componentId := v_componentId (vtx g u),
                                      v_ri := CopyReplInfo ri\<rparr>) g"

text \<open>When a label may be replaced: the new one is cheaper, or as cheap and open for longer.\<close>

definition better :: "TOPL_REPL_INFO \<Rightarrow> TOPL_REPL_INFO \<Rightarrow> bool" where
  "better new old \<longleftrightarrow> ri_cost new < ri_cost old \<or>
     ri_cost new = ri_cost old \<and> card (avail (ri_schedule old)) < card (avail (ri_schedule new))"

lemma card_avail_None: "card (avail h) \<le> card (avail None)"
  unfolding avail_simps by (rule card_mono) (simp_all add: avail_week)

lemma relabel_labels:
  assumes inv: "labels_inv ok elems k G R g" and u: "u < g_numVertices g" "v_root (vtx g u) \<noteq> None"
    and arc: "(e, w) \<in> arcs G u" and w: "w < g_numVertices g"
    and ri: "ri_cost ri = AddDWORDSat (vcost g u) (ecost G e)" "in_cache elems (g_schedCache g) (ri_schedule ri)"
      "k \<in> avail (ri_schedule ri)" "ri_cost ri \<noteq> INFINITY_DW"
    and fresh: "w \<notin> R"
  shows "labels_inv ok elems k G R (relabel u ri g w)"
proof -
  define g' where "g' = relabel u ri g w"
  have net: "net g' = net g"
    unfolding g'_def by (rule net_upd_vtx) (simp add: unlabelled_def)
  have g': "g_schedCache g' = g_schedCache g" "g_numVertices g' = g_numVertices g"
    "v_root (vtx g' w) = v_root (vtx g u)" "v_componentId (vtx g' w) = v_componentId (vtx g u)" "v_ri (vtx g' w) = ri"
    "\<And>v. v \<noteq> w \<Longrightarrow> vtx g' v = vtx g v"
    using w by (simp_all add: g'_def CopyReplInfo_def)
  from inv u obtain r where r: "r \<in> R" "v_root (vtx g u) = Some r" "path_cost G r u (unat (vcost g u))"
      "v_componentId (vtx g u) = int r"
    by (auto simp: labels_inv_def unreached_def reached_def)
  have "unat (ri_cost ri) \<noteq> 2 ^ 32 - 1"
    using ri(4) unat_INFINITY_DW by (metis unsigned_word_eqI)
  then have "unat (ri_cost ri) = unat (vcost g u) + unat (ecost G e)"
    unfolding ri(1) unat_AddDWORDSat by linarith
  with path_step [OF r(3) arc] r ri(2-4) have "reached elems k G R g' w"
    unfolding reached_def g' by metis
  moreover have "unreached (vtx g' v) \<or> reached elems k G R g' v" if "v < g_numVertices g" "v \<noteq> w" for v
  proof -
    have "unreached (vtx g v) \<or> reached elems k G R g v"
      using inv that(1) by (simp add: labels_inv_def)
    then show ?thesis
      unfolding reached_def g'(1) g'(6) [OF that(2)] .
  qed
  moreover have "arcs_ok g'" "scheds_ok ok elems k g'"
    using inv arcs_ok_net [OF net [symmetric]] scheds_ok_net [OF net [symmetric], of ok elems k]
      scheds_cache [of ok elems k g] by (simp_all add: labels_inv_def g'(1))
  moreover have "\<forall>r\<in>R. r < g_numVertices g' \<and> vcost g' r = 0 \<and> ri_schedule (v_ri (vtx g' r)) = None \<and>
      v_root (vtx g' r) = Some r"
    using inv fresh g'(2,6) unfolding labels_inv_def by metis
  moreover have "v_demoted (vtx g' v) \<or> v_root (vtx g' v) \<noteq> None" if v: "v < g_numVertices g" "v_color (vtx g' v) \<noteq> COLOR_WHITE" for v
  proof (cases "v = w")
    case True
    then show ?thesis
      using u(2) g'(3) by simp
  next
    case False
    then show ?thesis
      using inv v g'(6) [OF False] by (simp add: labels_inv_def)
  qed
  ultimately show ?thesis
    using inv net unfolding labels_inv_def g'_def [symmetric] g'(1,2) by (metis (no_types))
qed

text \<open>What the heap does after a label has become better.\<close>

definition requeue :: "vref \<Rightarrow> vref STHEAP \<Rightarrow> ('n, 't) ToplGraphState \<Rightarrow> vref STHEAP \<times> ('n, 't) ToplGraphState" where
  "requeue w heap g =
     (if v_heapLocn (vtx g w) = STHEAP_NOT_IN_HEAP then ToplSTHeapAdd vertex_ops w heap g
      else ToplSTHeapCostReduced vertex_ops w heap g)"

lemma requeue_spec:
  fixes g g' :: "('n, 't) ToplGraphState"
  assumes ok: "heap_ok vertex_ops vertex_valid heap g" "maxSize heap = g_numVertices g" and w: "w < g_numVertices g"
    and same: "g_numVertices g' = g_numVertices g" "\<And>v. v_heapLocn (vtx g' v) = v_heapLocn (vtx g v)"
      "\<And>v. v_vtxId (vtx g' v) = v_vtxId (vtx g v)" "\<And>v. v \<noteq> w \<Longrightarrow> vcost g' v = vcost g v"
    and less: "vcost g' w \<le> vcost g w" and eq: "requeue w heap g' = (heap2, g2)"
  shows "heap_ok vertex_ops vertex_valid heap2 g2 \<and> maxSize heap2 = g_numVertices g2 \<and> relocated vertex_ops g' g2 \<and>
    heap_elems heap2 = insert w (heap_elems heap)"
proof -
  have valid: "vertex_valid w g'"
    using w same(1) by (simp add: vertex_valid_def)
  have inside: "v_heapLocn (vtx g' w) = STHEAP_NOT_IN_HEAP \<longleftrightarrow> w \<notin> heap_elems heap"
    using heap_locn [OF ok(1) w] same(2) by simp
  have "heap_ok vertex_ops vertex_valid heap2 g2 \<and> maxSize heap2 = maxSize heap \<and> relocated vertex_ops g' g2 \<and>
    heap_elems heap2 = insert w (heap_elems heap)"
  proof (cases "w \<in> heap_elems heap")
    case False
    have "heap_ok vertex_ops vertex_valid heap g'"
      by (rule heap_frame [OF ok(1)]) (use same False in \<open>auto, metis\<close>)
    from vertex_heap.Add_spec [OF this valid False heap_room [OF ok w False], of heap2 g2] eq inside False
    show ?thesis
      by (simp add: requeue_def)
  next
    case True
    have le: "VertexComp w b g' \<le> 0" if "b \<noteq> w" "VertexComp w b g \<le> 0" for b
      using that less unfolding VertexComp_le same(3) same(4) [OF that(1)] by auto
    have "VertexComp a b g' = VertexComp a b g" if "a \<noteq> w" "b \<noteq> w" for a b
      unfolding VertexComp_keys same(3) same(4) [OF that(1)] same(4) [OF that(2)] ..
    from vertex_heap.reduced_order [OF ok(1) True, of g', unfolded vertex_ops_simps, OF _ _ this le]
    have "heap_locs vertex_ops vertex_valid heap g'"
      "order_but_up (\<lambda>a b. VertexComp a b g' \<le> 0) (hdata heap) (nextFreeSpot heap) (nat (VertexGetLocn w g'))"
      by (simp_all add: vertex_valid_def same VertexGetLocn_def)
    from vertex_heap.CostReduced_spec [OF _ this(1) True, of heap2 g2, unfolded vertex_ops_simps, OF _ this(2)]
      eq inside True ok(1)
    show ?thesis
      by (auto simp: requeue_def heap_ok_def)
  qed
  moreover have "g_numVertices g2 = g_numVertices g" if "relocated vertex_ops g' g2"
    using net_eqD(1) [OF relocated_net [OF that]] same(1) by simp
  ultimately show ?thesis
    using ok(2) by simp
qed

text \<open>What examining the edges of \<open>u\<close> does to the state of the loop.\<close>

definition relax_step ::
  "('t \<Rightarrow> bool) \<Rightarrow> ('t \<Rightarrow> ToplSched list) \<Rightarrow> nat \<Rightarrow> ('n, 't) ToplGraphState \<Rightarrow> vref set \<Rightarrow> vref \<Rightarrow>
   vref STHEAP \<times> ('n, 't) ToplGraphState \<Rightarrow> vref STHEAP \<times> ('n, 't) ToplGraphState \<Rightarrow> bool" where
  "relax_step ok elems k G R u s s' \<longleftrightarrow>
     dij_inv ok elems k G R {u} s' \<and> u \<notin> heap_elems (fst s') \<and> v_root (vtx (snd s') u) \<noteq> None \<and>
     v_ri (vtx (snd s') u) = v_ri (vtx (snd s) u) \<and> (\<forall>v. vcost (snd s') v \<le> vcost (snd s) v) \<and>
     (potential (snd s') < potential (snd s) \<or> potential (snd s') = potential (snd s) \<and> fst s' = fst s)"

lemma relax_step_refl:
  "dij_inv ok elems k G R {u} s \<Longrightarrow> u \<notin> heap_elems (fst s) \<Longrightarrow> v_root (vtx (snd s) u) \<noteq> None \<Longrightarrow>
   relax_step ok elems k G R u s s"
  by (simp add: relax_step_def)

lemma relax_step_trans:
  "relax_step ok elems k G R u s s' \<Longrightarrow> relax_step ok elems k G R u s' s'' \<Longrightarrow> relax_step ok elems k G R u s s''"
  unfolding relax_step_def by (intro conjI allI) (auto intro: order_trans)

lemma better_spec:
  assumes inv: "labels_inv ok elems k G R g" and w: "w < g_numVertices g" and better: "better ri (v_ri (vtx g w))"
    and u: "avail (ri_schedule ri) \<subseteq> avail (ri_schedule (v_ri (vtx g u)))" "vcost g u \<le> ri_cost ri"
  shows "ri_cost ri \<noteq> INFINITY_DW" "w \<noteq> u" "w \<notin> R"
proof -
  have None: "\<not> better ri (v_ri (vtx g w))" if "vcost g w \<le> ri_cost ri" "ri_schedule (v_ri (vtx g w)) = None"
    using card_avail_None [of "ri_schedule ri"] that unfolding better_def that(2) by auto
  show "ri_cost ri \<noteq> INFINITY_DW"
  proof
    assume inf: "ri_cost ri = INFINITY_DW"
    have le: "vcost g w \<le> ri_cost ri"
      unfolding inf word_le_nat_alt unat_INFINITY_DW using unat_dword_less [of "vcost g w"] by simp
    with better have "vcost g w = INFINITY_DW"
      by (auto simp: better_def inf not_less [symmetric])
    then have "unreached (vtx g w)"
      using inv w by (auto simp: labels_inv_def reached_def)
    then show False
      using None [OF le] better by (simp add: unreached_def)
  qed
  show "w \<noteq> u"
  proof
    assume "w = u"
    then show False
      using better u card_mono [OF _ u(1)] by (auto simp: better_def)
  qed
  show "w \<notin> R"
  proof
    assume "w \<in> R"
    then have "vcost g w = 0" "ri_schedule (v_ri (vtx g w)) = None"
      using inv by (auto simp: labels_inv_def)
    then show False
      using None better by simp
  qed
qed

context schedule_cache
begin

lemma CombineReplInfo_spec:
  assumes "env_table env = T" and "cok (g_schedCache g)" and "inc (g_schedCache g) (ri_schedule a)"
    "inc (g_schedCache g) (ri_schedule b)" and "k \<in> avail (ri_schedule a)" "k \<in> avail (ri_schedule b)"
  obtains c ri where "CombineReplInfo env g a b = Inr (g\<lparr>g_schedCache := c\<rparr>, Some ri)" "cok c" "inc c (ri_schedule ri)"
    "ri_cost ri = AddDWORDSat (ri_cost a) (ri_cost b)"
    "avail (ri_schedule ri) = avail (ri_schedule a) \<inter> avail (ri_schedule b)"
    "\<And>h. inc (g_schedCache g) h \<Longrightarrow> inc c h"
proof -
  from Merge_spec [OF assms(2-4)] obtain c h where m:
    "ToplScheduleMerge T (Some (g_schedCache g)) (ri_schedule a) (ri_schedule b) True =
       Inr (c, h, ri_schedule a \<noteq> None \<and> ri_schedule b \<noteq> None \<and> avail (ri_schedule a) \<inter> avail (ri_schedule b) = {})"
    "cok c" "inc c h" "avail h = avail (ri_schedule a) \<inter> avail (ri_schedule b)"
    "\<And>h'. inc (g_schedCache g) h' \<Longrightarrow> inc c h'" by blast
  have "avail (ri_schedule a) \<inter> avail (ri_schedule b) \<noteq> {}"
    using assms(5,6) by blast
  with m(1) show ?thesis
    by (intro that [OF _ m(2), of "\<lparr>ri_cost = AddDWORDSat (ri_cost a) (ri_cost b),
        ri_repIntvl = (if ri_repIntvl a > ri_repIntvl b then ri_repIntvl a else ri_repIntvl b),
        ri_options = ri_options a AND ri_options b, ri_schedule = h\<rparr>"])
      (simp_all add: CombineReplInfo_def assms(1) m(3-5) Let_def)
qed

text \<open>\<^verbatim>\<open>TryNewPath\<close> when the schedules intersect: the vertex is relabelled exactly when that is better.\<close>

lemma TryNewPath_eq:
  assumes "CombineReplInfo env g (v_ri (vtx g u)) (e_ri (edge g e)) = Inr (g\<lparr>g_schedCache := c\<rparr>, Some ri)"
    and "cok c" "inc c (ri_schedule ri)" "inc c (ri_schedule (v_ri (vtx g w)))"
  shows "TryNewPath env u e w (heap, g) = Inr
    (if better ri (v_ri (vtx g w)) then requeue w heap (relabel u ri (g\<lparr>g_schedCache := c\<rparr>) w)
     else (heap, g\<lparr>g_schedCache := c\<rparr>))"
  using assms
  by (auto simp: TryNewPath_def requeue_def better_def ToplScheduleDuration_avail [OF assms(2)] Let_def)

lemma relabel_step:
  assumes inv: "dij_inv ok elems k G R {u} (heap, g)" and u: "u < g_numVertices g" "u \<notin> heap_elems heap" "v_root (vtx g u) \<noteq> None"
    and arc: "(e, w) \<in> arcs G u" and w: "w < g_numVertices g"
    and ri: "ri_cost ri = AddDWORDSat (vcost g u) (ecost G e)" "inc (g_schedCache g) (ri_schedule ri)"
      "k \<in> avail (ri_schedule ri)" "avail (ri_schedule ri) \<subseteq> avail (ri_schedule (v_ri (vtx g u)))"
    and better: "better ri (v_ri (vtx g w))"
  shows "relax_step ok elems k G R u (heap, g) (requeue w heap (relabel u ri g w)) \<and>
    vcost (snd (requeue w heap (relabel u ri g w))) w = ri_cost ri"
proof -
  have lab: "labels_inv ok elems k G R g" and heap: "heap_ok vertex_ops vertex_valid heap g" "maxSize heap = g_numVertices g"
    using inv by (simp_all add: dij_inv_def)
  note facts = better_spec [OF lab w better ri(4) AddDWORDSat_ge [of "vcost g u" "ecost G e", folded ri(1)]]
  define g1 where "g1 = relabel u ri g w"
  obtain heap2 g2 where g2: "requeue w heap g1 = (heap2, g2)" by fastforce
  have lab1: "labels_inv ok elems k G R g1"
    unfolding g1_def by (rule relabel_labels [OF lab u(1,3) arc w ri(1-3) facts(1,3)])
  have g1: "vtx g1 v = (if v = w then (vtx g w)\<lparr>v_root := v_root (vtx g u), v_componentId := v_componentId (vtx g u), v_ri := ri\<rparr>
      else vtx g v)" for v
    using w by (simp add: g1_def vtx_upd_if CopyReplInfo_def)
  have cheaper: "vcost g1 v \<le> vcost g v" for v
    using better by (auto simp: g1 better_def)
  have req: "heap_ok vertex_ops vertex_valid heap2 g2" "maxSize heap2 = g_numVertices g2" "relocated vertex_ops g1 g2"
      "heap_elems heap2 = insert w (heap_elems heap)"
    using requeue_spec [OF heap w _ _ _ _ cheaper [of w] g2] by (simp_all add: g1) (simp_all add: g1_def)
  note lab2 = labels_inv_relocated [OF lab1 req(3)]
  have labels: "v_ri (vtx g2 v) = v_ri (vtx g1 v)" "v_root (vtx g2 v) = v_root (vtx g1 v)" for v
    using relocated_labels [OF req(3)] by simp_all
  have relaxed: "relaxed G g2 x" if "x \<noteq> w" "relaxed G g x" for x
    unfolding relaxed_def
  proof (safe)
    fix e' v
    assume "(e', v) \<in> arcs G x"
    then have "vcost g v \<le> AddDWORDSat (vcost g x) (ecost G e')"
      using that(2) by (auto simp: relaxed_def)
    then show "vcost g2 v \<le> AddDWORDSat (vcost g2 x) (ecost G e')"
      using cheaper [of v] that(1) by (simp add: labels g1)
  qed
  have n: "g_numVertices g2 = g_numVertices g"
    using net_eqD(1) [OF relocated_net [OF req(3)]] by (simp add: g1_def)
  have dij: "dij_inv ok elems k G R {u} (heap2, g2)"
    using inv lab2 req(1,2,4) u(3) relaxed by (auto simp: dij_inv_def labels g1 n)
  have "vrank (vtx g1 w) < vrank (vtx g w)"
    using better by (intro vrank_less) (simp add: better_def g1)
  then have "potential g1 < potential g"
    unfolding g1_def using potential_upd [OF w] w by simp
  then have "potential g2 < potential g"
    by (simp add: potential_relocated [OF req(3)])
  with dij facts(2) u cheaper req(4) show ?thesis
    unfolding relax_step_def g1_def [symmetric] g2 by (auto simp: labels g1)
qed

lemma TryNewPath_spec:
  assumes env: "env_table env = T" and inv: "dij_inv ok elems k G R {u} s"
    and u: "u < g_numVertices G" "u \<notin> heap_elems (fst s)" "v_root (vtx (snd s) u) \<noteq> None"
    and arc: "(e, w) \<in> arcs G u"
  obtains s' where "TryNewPath env u e w s = Inr s'" "relax_step ok elems k G R u s s'"
    "vcost (snd s') w \<le> AddDWORDSat (vcost (snd s) u) (ecost G e)"
proof -
  obtain heap g where s: "s = (heap, g)" by fastforce
  have lab: "labels_inv ok elems k G R g"
    using inv by (simp add: dij_inv_def s)
  then have net: "net g = net G" and ok: "arcs_ok g" "scheds_ok ok elems k g"
    by (simp_all add: labels_inv_def)
  have ug: "u < g_numVertices g"
    using u(1) net_eqD(1) [OF net] by simp
  have arcg: "(e, w) \<in> arcs g u"
    using arc arcs_net [OF net ug] by simp
  then have w: "w < g_numVertices g" and e: "inc (g_schedCache g) (ri_schedule (e_ri (edge g e)))" "k \<in> avail (ri_schedule (e_ri (edge g e)))"
    using ok ug by (auto simp: arcs_def arcs_ok_def scheds_ok_def)
  have "unreached (vtx g u) \<or> reached elems k G R g u" "unreached (vtx g w) \<or> reached elems k G R g w"
    using lab ug w by (simp_all add: labels_inv_def)
  then have su: "inc (g_schedCache g) (ri_schedule (v_ri (vtx g u)))" "k \<in> avail (ri_schedule (v_ri (vtx g u)))"
    and sw: "inc (g_schedCache g) (ri_schedule (v_ri (vtx g w)))"
    using u(3) by (auto simp: s unreached_def reached_def)
  from CombineReplInfo_spec [OF env scheds_cache [OF ok(2)] su(1) e(1) su(2) e(2)]
  obtain c ri where c: "CombineReplInfo env g (v_ri (vtx g u)) (e_ri (edge g e)) = Inr (g\<lparr>g_schedCache := c\<rparr>, Some ri)"
      "cok c" "inc c (ri_schedule ri)" "ri_cost ri = AddDWORDSat (vcost g u) (ecost G e)"
      "avail (ri_schedule ri) = avail (ri_schedule (v_ri (vtx g u))) \<inter> avail (ri_schedule (e_ri (edge g e)))"
      "\<And>h. inc (g_schedCache g) h \<Longrightarrow> inc c h"
    unfolding ecost_net [OF net] by blast
  let ?g = "g\<lparr>g_schedCache := c\<rparr>"
  have inv': "dij_inv ok elems k G R {u} (heap, ?g)"
    using dij_inv_cache [OF _ c(2,6)] inv by (simp add: s)
  note eq = TryNewPath_eq [OF c(1-3) c(6) [OF sw], of heap, folded s]
  show ?thesis
  proof (cases "better ri (v_ri (vtx g w))")
    case False
    have "relax_step ok elems k G R u s (heap, ?g)"
      using inv' u by (simp add: relax_step_def s)
    moreover have "vcost g w \<le> AddDWORDSat (vcost g u) (ecost G e)"
      using False unfolding c(4) [symmetric] better_def by (simp add: not_less)
    ultimately show ?thesis
      using that [of "(heap, ?g)"] eq False by (simp add: s)
  next
    case True
    let ?s = "requeue w heap (relabel u ri ?g w)"
    have "relax_step ok elems k G R u (heap, ?g) ?s \<and> vcost (snd ?s) w = ri_cost ri"
      by (rule relabel_step [OF inv' _ _ _ arc]) (use ug u w c su(2) e(2) True in \<open>simp_all add: s\<close>)
    then show ?thesis
      using that [of ?s] eq True by (simp add: s c(4) relax_step_def)
  qed
qed

lemma foldE_relax:
  assumes step: "\<And>x s. x \<in> set xs \<Longrightarrow> relax_step ok elems k G R u s0 s \<Longrightarrow>
      \<exists>s'. f x s = Inr s' \<and> relax_step ok elems k G R u s s' \<and> D x s'"
    and stable: "\<And>x s s'. D x s \<Longrightarrow> relax_step ok elems k G R u s s' \<Longrightarrow> D x s'"
    and start: "relax_step ok elems k G R u s0 s"
  shows "\<exists>s'. foldE f xs s = Inr s' \<and> relax_step ok elems k G R u s s' \<and> (\<forall>x\<in>set xs. D x s')"
  using step start
proof (induction xs arbitrary: s)
  case Nil
  then show ?case
    by (auto simp: relax_step_def)
next
  case (Cons x xs)
  from Cons.prems obtain s1 where s1: "f x s = Inr s1" "relax_step ok elems k G R u s s1" "D x s1"
    by (meson list.set_intros(1))
  from Cons.IH [OF Cons.prems(1) relax_step_trans [OF Cons.prems(2) s1(2)]]
  obtain s' where s': "foldE f xs s1 = Inr s'" "relax_step ok elems k G R u s1 s'" "\<forall>x\<in>set xs. D x s'"
    by auto
  show ?case
    using s1 s' stable [OF s1(3) s'(2)] relax_step_trans [OF s1(2) s'(2)] by simp
qed

text \<open>After an arc has been tried, it offers no improvement any more.\<close>

abbreviation (input) tried :: "('n, 't) ToplGraphState \<Rightarrow> vref \<Rightarrow> eref \<Rightarrow> vref \<Rightarrow> vref STHEAP \<times> ('n, 't) ToplGraphState \<Rightarrow> bool" where
  "tried G u e w s \<equiv> vcost (snd s) w \<le> AddDWORDSat (vcost (snd s) u) (ecost G e)"

lemma tried_stable:
  assumes "tried G u e w s" and step: "relax_step ok elems k G R u s s'"
  shows "tried G u e w s'"
proof -
  have "v_ri (vtx (snd s') u) = v_ri (vtx (snd s) u)" "vcost (snd s') w \<le> vcost (snd s) w"
    using step by (simp_all add: relax_step_def)
  with assms(1) show ?thesis
    by (simp add: order_trans)
qed

lemma relax_edge_spec:
  assumes env: "env_table env = T" and start: "relax_step ok elems k G R u s0 s" and u: "u < g_numVertices G"
    and e: "e \<in> set (dyn_list (v_edgeList (vtx G u)))"
  shows "\<exists>s'. relax_edge env u e s = Inr s' \<and> relax_step ok elems k G R u s s' \<and> (\<forall>w\<in>set (edge_walk G e). tried G u e w s')"
proof -
  obtain heap g where s: "s = (heap, g)" by fastforce
  have inv: "labels_inv ok elems k G R g"
    using start by (simp add: relax_step_def dij_inv_def s)
  then have net: "net g = net G" and ok: "arcs_ok g"
    by (simp_all add: labels_inv_def)
  have "e < length (g_store g)"
    using ok e u net_fields(3) [OF net, of u] net_eqD(1) [OF net] by (auto simp: arcs_ok_def)
  then have check: "CheckMultiEdge g (Some e) = Inr e"
    using ok by (simp add: CheckMultiEdge_ok arcs_ok_def)
  have "\<exists>s'. TryNewPath env u e w x = Inr s' \<and> relax_step ok elems k G R u x s' \<and> tried G u e w s'"
    if "w \<in> set (edge_walk G e)" "relax_step ok elems k G R u s x" for w x
  proof -
    have x: "dij_inv ok elems k G R {u} x" "u \<notin> heap_elems (fst x)" "v_root (vtx (snd x) u) \<noteq> None"
      using that(2) by (simp_all add: relax_step_def)
    have arc: "(e, w) \<in> arcs G u"
      using that(1) e by (simp add: arcs_def)
    from TryNewPath_spec [OF env x(1) u x(2,3) arc] obtain s' where "TryNewPath env u e w x = Inr s'"
        "relax_step ok elems k G R u x s'" "vcost (snd s') w \<le> AddDWORDSat (vcost (snd x) u) (ecost G e)" by blast
    then show ?thesis
      by (auto simp: relax_step_def)
  qed
  moreover have "relax_step ok elems k G R u s s"
    using start by (simp add: relax_step_def)
  ultimately have "\<exists>s'. foldE (TryNewPath env u e) (edge_walk G e) s = Inr s' \<and> relax_step ok elems k G R u s s' \<and>
      (\<forall>w\<in>set (edge_walk G e). tried G u e w s')"
    by (intro foldE_relax [where D = "tried G u e"]) (auto intro: tried_stable)
  then show ?thesis
    by (simp add: relax_edge_def s check net_edge_walk [OF net])
qed

lemma relax_vertex_spec:
  assumes env: "env_table env = T" and inv: "dij_inv ok elems k G R {u} s" and u: "u < g_numVertices G"
    and out: "u \<notin> heap_elems (fst s)" "v_root (vtx (snd s) u) \<noteq> None"
  shows "\<exists>s'. relax_vertex env u s = Inr s' \<and> dij_inv ok elems k G R {} s' \<and> relax_step ok elems k G R u s s'"
proof -
  obtain heap g where s: "s = (heap, g)" by fastforce
  have net: "net g = net G" and ok: "graph_ok g"
    using inv by (simp_all add: s dij_inv_def labels_inv_def arcs_ok_def)
  have ug: "u < g_numVertices g"
    using u net_eqD(1) [OF net] by simp
  then have walk: "dyn_walk (v_edgeList (vtx g u)) = dyn_list (v_edgeList (vtx G u))"
    using ok net_fields(3) [OF net ug, symmetric] by (simp add: graph_ok_def)
  have "\<exists>s'. foldE (relax_edge env u) (dyn_list (v_edgeList (vtx G u))) s = Inr s' \<and> relax_step ok elems k G R u s s' \<and>
      (\<forall>e\<in>set (dyn_list (v_edgeList (vtx G u))). \<forall>w\<in>set (edge_walk G e). tried G u e w s')"
    using relax_edge_spec [OF env _ u] relax_step_refl [OF inv out]
    by (intro foldE_relax [where D = "\<lambda>e s'. \<forall>w\<in>set (edge_walk G e). tried G u e w s'"]) (blast intro: tried_stable)+
  then obtain s' where s': "relax_vertex env u s = Inr s'" "relax_step ok elems k G R u s s'"
      "\<forall>e\<in>set (dyn_list (v_edgeList (vtx G u))). \<forall>w\<in>set (edge_walk G e). tried G u e w s'"
    by (auto simp: relax_vertex_def s walk)
  have "relaxed G (snd s') u"
    using s'(3) by (auto simp: relaxed_def arcs_def)
  then have "dij_inv ok elems k G R {} s'"
    using s'(2) unfolding relax_step_def dij_inv_def by (cases s') auto
  with s' show ?thesis
    by blast
qed

section \<open>The loop\<close>

lemma dijkstra_loop_spec:
  assumes env: "env_table env = T" and inv: "dij_inv ok elems k G R {} (heap, g)"
  shows "\<exists>g' heap'. dijkstra_loop env heap g = Some (Inr g') \<and> dij_inv ok elems k G R {} (heap', g') \<and> heap_elems heap' = {}"
  using inv
proof (induction "(potential g, nextFreeSpot heap)" arbitrary: heap g rule: wf_induct_rule [OF wf_lex_prod [OF wf_less_than wf_less_than]])
  case 1
  have hok: "heap_ok vertex_ops vertex_valid heap g"
    using 1(2) by (simp add: dij_inv_def)
  show ?case
  proof (cases "nextFreeSpot heap = 1")
    case True
    then have "ToplSTHeapExtractMin vertex_ops heap g = (None, heap, g)" "heap_elems heap = {}"
      by (simp_all add: heap_elems_def ToplSTHeapExtractMin_def)
    with 1(2) show ?thesis
      by (subst dijkstra_loop.simps) auto
  next
    case False
    obtain r heap1 g1 where ext: "ToplSTHeapExtractMin vertex_ops heap g = (r, heap1, g1)"
      by (cases "ToplSTHeapExtractMin vertex_ops heap g") auto
    define u where "u = cell (hdata heap) 1"
    have ex: "r = Some u" "u \<in> heap_elems heap" "heap_ok vertex_ops vertex_valid heap1 g1" "relocated vertex_ops g g1"
        "heap_elems heap1 = heap_elems heap - {u}" "nextFreeSpot heap1 = nextFreeSpot heap - 1" "maxSize heap1 = maxSize heap"
      using vertex_heap.ExtractMin_spec [OF hok False ext] unfolding u_def by simp_all
    note labels = relocated_labels [OF ex(4)]
    have net: "net g1 = net g" "net g = net G"
      using relocated_net [OF ex(4)] 1(2) by (simp_all add: dij_inv_def labels_inv_def)
    have relaxed: "relaxed G g1 x = relaxed G g x" for x
      by (rule relaxed_cong) (simp add: labels)
    have inv1: "dij_inv ok elems k G R {u} (heap1, g1)"
      using 1(2) labels_inv_relocated [OF _ ex(4)] ex net_eqD(1) [OF net(1)] relaxed by (auto simp: dij_inv_def labels)
    have u: "u < g_numVertices G" "v_root (vtx g1 u) \<noteq> None"
      using heap_elems_valid [OF hok ex(2)] net_eqD(1) [OF net(2)] 1(2) ex(2) by (auto simp: dij_inv_def labels)
    from relax_vertex_spec [OF env inv1 u(1)] ex(5) u(2)
    obtain s' where s': "relax_vertex env u (heap1, g1) = Inr s'" "dij_inv ok elems k G R {} s'"
        "relax_step ok elems k G R u (heap1, g1) s'"
      by auto
    have pot: "potential g1 = potential g"
      by (rule potential_relocated [OF ex(4)])
    have "1 \<le> nextFreeSpot heap"
      using hok by (simp add: heap_ok_def heap_shape_def)
    then have "((potential (snd s'), nextFreeSpot (fst s')), potential g, nextFreeSpot heap) \<in> less_than <*lex*> less_than"
      using s'(3) ex(6) False pot unfolding relax_step_def by auto
    from 1(1) [OF this] s'(2) have "\<exists>g' heap'. dijkstra_loop env (fst s') (snd s') = Some (Inr g') \<and>
        dij_inv ok elems k G R {} (heap', g') \<and> heap_elems heap' = {}"
      by simp
    then show ?thesis
      by (subst dijkstra_loop.simps) (simp add: ext ex(1) s'(1))
  qed
qed

end

section \<open>The start\<close>

text \<open>The vertices from which \<^verbatim>\<open>Dijkstra\<close> starts: those that are colored and not demoted.\<close>

definition is_root :: "('n, 't) ToplGraphState \<Rightarrow> dword \<Rightarrow> bool \<Rightarrow> vref \<Rightarrow> bool" where
  "is_root g edgeType fIncludeBlack v \<longleftrightarrow> v < g_numVertices g \<and>
     (let r = vtx g v; mask = type_mask edgeType
      in v_color r \<noteq> COLOR_WHITE \<and> (v_color r = COLOR_BLACK \<longrightarrow> fIncludeBlack) \<and>
         (v_acceptBlack r AND mask \<noteq> 0 \<or> v_acceptRedRed r AND mask \<noteq> 0))"

definition root_label :: "vref \<Rightarrow> 'n ToplVertex \<Rightarrow> bool" where
  "root_label v r \<longleftrightarrow> v_root r = Some v \<and> v_componentId r = int v \<and> ri_cost (v_ri r) = 0 \<and> ri_schedule (v_ri r) = None"

lemma SetupVertices_simps [simp]:
  "g_numVertices (SetupVertices g) = g_numVertices g" "g_schedCache (SetupVertices g) = g_schedCache g"
  "v < g_numVertices g \<Longrightarrow> vtx (SetupVertices g) v = setup_vertex (g_schedCache g) v (vtx g v)"
  by (simp_all add: SetupVertices_def)

lemma SetupVertices_net: "net (SetupVertices g) = net g"
proof -
  have "map unlabelled (g_vertices (SetupVertices g)) = map unlabelled (g_vertices g)"
    by (intro nth_equalityI) (simp_all add: setup_vertex_def unlabelled_def Let_def)
  then show ?thesis
    by (simp add: net_def SetupVertices_def)
qed

text \<open>The state of \<^verbatim>\<open>SetupDijkstra\<close> after its first \<open>i\<close> rounds.\<close>

definition setup_inv ::
  "('n, 't) ToplGraphState \<Rightarrow> dword \<Rightarrow> bool \<Rightarrow> nat \<Rightarrow> vref STHEAP \<times> ('n, 't) ToplGraphState \<Rightarrow> bool" where
  "setup_inv G t b i = (\<lambda>(heap, g).
     net g = net G \<and> g_schedCache g = g_schedCache G \<and>
     heap_ok vertex_ops vertex_valid heap g \<and> maxSize heap = g_numVertices g \<and>
     heap_elems heap = {v. v < i \<and> is_root G t b v} \<and>
     (\<forall>v<g_numVertices g. (is_root G t b v \<longrightarrow> root_label v (vtx g v)) \<and>
        (\<not> is_root G t b v \<longrightarrow> v < i \<or> v_color (vtx G v) = COLOR_WHITE \<longrightarrow> unreached (vtx g v)) \<and>
        (i \<le> v \<longrightarrow> ri_schedule (v_ri (vtx g v)) = None) \<and>
        (v < i \<and> v_color (vtx G v) \<noteq> COLOR_WHITE \<and> \<not> is_root G t b v \<longrightarrow> v_demoted (vtx g v))))"

lemma setup_inv_start:
  assumes "graph_ok G"
  shows "setup_inv G t b 0 (ToplSTHeapInit (g_numVertices G), SetupVertices G)"
proof -
  let ?g = "SetupVertices G"
  have "v_heapLocn (vtx ?g v) = STHEAP_NOT_IN_HEAP" if "v < g_numVertices G" for v
    using that by (simp add: setup_vertex_def Let_def)
  then have "heap_ok vertex_ops vertex_valid (ToplSTHeapInit (g_numVertices G)) ?g"
    by (simp add: heap_ok_def heap_shape_def heap_locs_def heap_order_def ToplSTHeapInit_def vertex_valid_def VertexGetLocn_def)
  moreover have "root_label v (vtx ?g v)" if "is_root G t b v" for v
    using that assms by (cases "v_color (vtx G v)")
      (auto simp: is_root_def root_label_def setup_vertex_def Let_def graph_ok_def ToplGetAlwaysSchedule_def)
  moreover have "unreached (vtx ?g v)" if "v < g_numVertices G" "v_color (vtx G v) = COLOR_WHITE" for v
    using that by (simp add: unreached_def setup_vertex_def Let_def ToplGetAlwaysSchedule_def)
  moreover have "ri_schedule (v_ri (vtx ?g v)) = None" if "v < g_numVertices G" for v
    using that by (simp add: setup_vertex_def Let_def ToplGetAlwaysSchedule_def)
  ultimately show ?thesis
    by (auto simp: setup_inv_def SetupVertices_net heap_elems_def ToplSTHeapInit_def simp del: SetupVertices_simps(3))
qed

lemma setup_root_step:
  assumes inv: "setup_inv G t b i (heap, g)" and i: "i < g_numVertices G"
  shows "setup_inv G t b (Suc i) (setup_root t b i (heap, g))"
proof -
  have net: "net g = net G" and heap: "heap_ok vertex_ops vertex_valid heap g" "maxSize heap = g_numVertices g"
    and elems: "heap_elems heap = {v. v < i \<and> is_root G t b v}"
    using inv by (simp_all add: setup_inv_def)
  have ig: "i < g_numVertices g"
    using i net_eqD(1) [OF net] by simp
  note same = net_fields(4-6) [OF net ig]
  show ?thesis
  proof (cases "is_root G t b i")
    case True
    then have eq: "setup_root t b i (heap, g) = ToplSTHeapAdd vertex_ops i heap g"
      by (auto simp: setup_root_def is_root_def Let_def same)
    obtain heap' g' where add: "ToplSTHeapAdd vertex_ops i heap g = (heap', g')" by fastforce
    have out: "i \<notin> heap_elems heap" and valid: "vertex_valid i g"
      using ig by (simp_all add: elems vertex_valid_def)
    have ad: "heap_ok vertex_ops vertex_valid heap' g'" "relocated vertex_ops g g'"
        "heap_elems heap' = insert i (heap_elems heap)" "maxSize heap' = maxSize heap"
      using vertex_heap.Add_spec [OF heap(1) valid out heap_room [OF heap ig out] add] by simp_all
    note labels = relocated_labels [OF ad(2)]
    have "heap_elems heap' = {v. v < Suc i \<and> is_root G t b v}"
      using True by (auto simp: ad(3) elems less_Suc_eq)
    moreover have "root_label v (vtx g' v) = root_label v (vtx g v)" "unreached (vtx g' v) = unreached (vtx g v)" for v
      by (simp_all add: root_label_def unreached_def labels)
    ultimately show ?thesis
      using inv True ad relocated_net [OF ad(2)] relocated_cache [OF ad(2)] net_eqD(1) [OF relocated_net [OF ad(2)]]
      by (auto simp: setup_inv_def eq add labels less_Suc_eq)
  next
    case False
    have elems': "{v. v < Suc i \<and> is_root G t b v} = heap_elems heap"
      using False by (auto simp: elems less_Suc_eq)
    show ?thesis
    proof (cases "v_color (vtx G i) = COLOR_WHITE")
      case True
      then have "setup_root t b i (heap, g) = (heap, g)"
        by (simp add: setup_root_def same)
      then show ?thesis
        using inv False True elems' by (auto simp: setup_inv_def less_Suc_eq)
    next
      case color: False
      then have eq: "setup_root t b i (heap, g) = (heap, upd_vtx i demote g)"
        using False i by (auto simp: setup_root_def is_root_def same Let_def)
      define g' where "g' = upd_vtx i demote g"
      have net': "net g' = net g"
        unfolding g'_def by (rule net_upd_vtx) (simp add: unlabelled_def demote_def)
      have g': "g_numVertices g' = g_numVertices g" "g_schedCache g' = g_schedCache g" "\<And>v. v \<noteq> i \<Longrightarrow> vtx g' v = vtx g v"
        "vtx g' i = demote (vtx g i)"
        using ig by (simp_all add: g'_def)
      have "heap_ok vertex_ops vertex_valid heap g'"
        by (rule heap_frame [OF heap(1)]) (use elems in \<open>auto simp: g'_def ig vtx_upd_if demote_def\<close>)
      moreover have "unreached (vtx g' i)"
        using inv ig by (simp add: g'(4) demote_def unreached_def setup_inv_def)
      moreover have "(is_root G t b v \<longrightarrow> root_label v (vtx g v)) \<and>
          (\<not> is_root G t b v \<longrightarrow> v < i \<or> v_color (vtx G v) = COLOR_WHITE \<longrightarrow> unreached (vtx g v)) \<and>
          (i \<le> v \<longrightarrow> ri_schedule (v_ri (vtx g v)) = None) \<and>
          (v < i \<and> v_color (vtx G v) \<noteq> COLOR_WHITE \<and> \<not> is_root G t b v \<longrightarrow> v_demoted (vtx g v))" if "v < g_numVertices g" for v
        using inv that by (simp add: setup_inv_def)
      then have "(is_root G t b v \<longrightarrow> root_label v (vtx g' v)) \<and>
          (\<not> is_root G t b v \<longrightarrow> v < Suc i \<or> v_color (vtx G v) = COLOR_WHITE \<longrightarrow> unreached (vtx g' v)) \<and>
          (Suc i \<le> v \<longrightarrow> ri_schedule (v_ri (vtx g' v)) = None) \<and>
          (v < Suc i \<and> v_color (vtx G v) \<noteq> COLOR_WHITE \<and> \<not> is_root G t b v \<longrightarrow> v_demoted (vtx g' v))" if "v < g_numVertices g" for v
        using that False calculation(2) g'(4) by (cases "v = i") (auto simp: g'(3) less_Suc_eq demote_def)
      ultimately show ?thesis
        using net net' g'(1,2) heap(2) inv unfolding setup_inv_def eq g'_def [symmetric] prod.case elems' by simp
    qed
  qed
qed

lemma SetupDijkstra_inv:
  assumes "graph_ok G"
  shows "setup_inv G t b (g_numVertices G) (SetupDijkstra G t b)"
proof -
  have "setup_inv G t b i (fold (setup_root t b) [0..<i] (ToplSTHeapInit (g_numVertices G), SetupVertices G))"
    if "i \<le> g_numVertices G" for i
    using that
  proof (induction i)
    case 0
    then show ?case
      using setup_inv_start [OF assms] by simp
  next
    case (Suc i)
    then show ?case
      using setup_root_step [of G t b i "fst x" "snd x" for x] by simp
  qed
  then show ?thesis
    by (simp add: SetupDijkstra_def Let_def)
qed

lemma setup_dij_inv:
  assumes ok: "arcs_ok G" "scheds_ok ok elems k G" and inv: "setup_inv G t b (g_numVertices G) (heap, g)"
  shows "dij_inv ok elems k G {v. is_root G t b v} {} (heap, g)"
proof -
  have net: "net g = net G" and cache: "g_schedCache g = g_schedCache G" and heap: "heap_ok vertex_ops vertex_valid heap g"
      "maxSize heap = g_numVertices g" "heap_elems heap = {v. v < g_numVertices G \<and> is_root G t b v}"
    and root: "\<And>v. v < g_numVertices g \<Longrightarrow> is_root G t b v \<Longrightarrow> root_label v (vtx g v)"
    and other: "\<And>v. v < g_numVertices g \<Longrightarrow> \<not> is_root G t b v \<Longrightarrow> unreached (vtx g v)"
    and dem: "\<And>v. v < g_numVertices g \<Longrightarrow> v_color (vtx G v) \<noteq> COLOR_WHITE \<Longrightarrow> \<not> is_root G t b v \<Longrightarrow> v_demoted (vtx g v)"
    using inv net_eqD(1) [of g G] by (auto simp: setup_inv_def)
  have n: "g_numVertices g = g_numVertices G"
    by (rule net_eqD(1) [OF net])
  have k: "k \<in> avail None"
    using ok(2) by (simp add: scheds_ok_def)
  have "arcs_ok g" "scheds_ok ok elems k g"
    using arcs_ok_net [OF net [symmetric] ok(1)] scheds_ok_net [OF net [symmetric] ok(2)] scheds_cache [OF ok(2)] cache by simp_all
  moreover have "reached elems k G {v. is_root G t b v} g v" if "v < g_numVertices g" "is_root G t b v" for v
    using root [OF that] that(2) k path_start [of G v] unat_INFINITY_DW by (auto simp: reached_def root_label_def)
  moreover have "r < g_numVertices g \<and> vcost g r = 0 \<and> ri_schedule (v_ri (vtx g r)) = None \<and> v_root (vtx g r) = Some r"
    if "is_root G t b r" for r
    using root [of r] that n by (simp add: is_root_def root_label_def)
  moreover have "v_demoted (vtx g v) \<or> v_root (vtx g v) \<noteq> None" if "v < g_numVertices g" "v_color (vtx g v) \<noteq> COLOR_WHITE" for v
    using that dem [of v] root [of v] net_fields(4) [OF net that(1)] by (auto simp: root_label_def)
  ultimately have "labels_inv ok elems k G {v. is_root G t b v} g"
    using net other unfolding labels_inv_def cache by auto
  moreover have "v_root (vtx g u) = None" if "u < g_numVertices g" "\<not> is_root G t b u" for u
    using other [OF that] by (simp add: unreached_def)
  ultimately show ?thesis
    using heap root n by (auto simp: dij_inv_def root_label_def)
qed

lemma path_valid: "path_cost G r v c \<Longrightarrow> arcs_ok G \<Longrightarrow> r < g_numVertices G \<Longrightarrow> v < g_numVertices G"
  by (induction rule: path_cost.induct) (auto simp: arcs_def arcs_ok_def)

lemma relaxed_paths:
  assumes inv: "labels_inv ok elems k G R g" and ok: "arcs_ok G"
    and relaxed: "\<And>u. u < g_numVertices G \<Longrightarrow> v_root (vtx g u) \<noteq> None \<Longrightarrow> relaxed G g u"
    and r: "r \<in> R" and path: "path_cost G r v c"
  shows "unat (vcost g v) \<le> c"
  using path
proof induction
  case path_start
  then show ?case
    using inv r by (simp add: labels_inv_def)
next
  case (path_step u c e w)
  have n: "g_numVertices g = g_numVertices G" and rn: "r < g_numVertices G"
    using inv r net_eqD(1) [of g G] by (auto simp: labels_inv_def)
  have u: "u < g_numVertices G"
    by (rule path_valid [OF path_step.hyps(1) ok rn])
  show ?case
  proof (cases "v_root (vtx g u) = None")
    case True
    then have "vcost g u = INFINITY_DW"
      using inv u n by (auto simp: labels_inv_def unreached_def reached_def)
    then show ?thesis
      using path_step.IH unat_INFINITY_DW unat_dword_less [of "vcost g w"] by simp
  next
    case False
    then have "vcost g w \<le> AddDWORDSat (vcost g u) (ecost G e)"
      using relaxed [OF u] path_step.hyps(2) by (auto simp: relaxed_def)
    then show ?thesis
      using path_step.IH by (simp add: word_le_nat_alt unat_AddDWORDSat)
  qed
qed

lemma Dijkstra_spec:
  assumes "schedule_cache T ok elems" and "env_table env = T" and "arcs_ok G" and "scheds_ok ok elems k G"
  obtains g where "Dijkstra env G edgeType fIncludeBlack = Some (Inr g)"
    "labels_inv ok elems k G {v. is_root G edgeType fIncludeBlack v} g"
    "\<And>v r c. is_root G edgeType fIncludeBlack r \<Longrightarrow> path_cost G r v c \<Longrightarrow> unat (vcost g v) \<le> c"
proof -
  let ?R = "{v. is_root G edgeType fIncludeBlack v}"
  obtain heap0 g0 where init: "SetupDijkstra G edgeType fIncludeBlack = (heap0, g0)" by fastforce
  have "setup_inv G edgeType fIncludeBlack (g_numVertices G) (heap0, g0)"
    using SetupDijkstra_inv [of G edgeType fIncludeBlack] assms(3) by (simp add: init arcs_ok_def)
  from schedule_cache.dijkstra_loop_spec [OF assms(1,2) setup_dij_inv [OF assms(3,4) this]]
  obtain g heap where g: "Dijkstra env G edgeType fIncludeBlack = Some (Inr g)"
      "dij_inv ok elems k G ?R {} (heap, g)" "heap_elems heap = {}"
    by (auto simp: Dijkstra_def init)
  then have inv: "labels_inv ok elems k G ?R g"
    by (simp add: dij_inv_def)
  then have n: "g_numVertices g = g_numVertices G"
    using net_eqD(1) [of g G] by (auto simp: labels_inv_def)
  have relaxed: "relaxed G g u" if "u < g_numVertices G" "v_root (vtx g u) \<noteq> None" for u
    using g(2,3) that n by (simp add: dij_inv_def)
  show ?thesis
    using that [OF g(1) inv] relaxed_paths [OF inv assms(3) relaxed] by blast
qed

lemma labels_root:
  assumes inv: "labels_inv ok elems k G R g" and v: "v < g_numVertices G"
  shows "case v_root (vtx g v) of None \<Rightarrow> vcost g v = INFINITY_DW
    | Some r \<Rightarrow> r \<in> R \<and> path_cost G r v (unat (vcost g v)) \<and> vcost g v < INFINITY_DW \<and> v_componentId (vtx g v) = int r"
proof -
  have "vcost g v < INFINITY_DW \<longleftrightarrow> vcost g v \<noteq> INFINITY_DW"
    using unat_dword_less [of "vcost g v"] unat_INFINITY_DW by (auto simp: word_less_nat_alt word_unat_eq_iff)
  moreover have "unreached (vtx g v) \<or> reached elems k G R g v"
    using inv v net_eqD(1) [of g G] by (auto simp: labels_inv_def)
  ultimately show ?thesis
    by (auto simp: unreached_def reached_def)
qed

section \<open>Properties\<close>

text \<open>C6. On a well-formed graph whose schedules are cached and share an open quarter-hour,
  \<^verbatim>\<open>Dijkstra\<close> terminates without an exception and computes shortest paths from the colored vertices that
  are not demoted: it changes labels only; the cost of a vertex is at most the cost of every path to it
  from a starting vertex, computed without overflow; a vertex with a root is reached at exactly its
  cost by a path from that root, whose index is its component; and a vertex without a root has infinite
  cost.\<close>

theorem Dijkstra_shortest_paths:
  assumes "schedule_cache T ok elems" and "env_table env = T" and "arcs_ok G" and "scheds_ok ok elems k G"
  shows "\<exists>g. Dijkstra env G edgeType fIncludeBlack = Some (Inr g) \<and> net g = net G \<and>
    (\<forall>v<g_numVertices G.
       (\<forall>r c. is_root G edgeType fIncludeBlack r \<and> path_cost G r v c \<longrightarrow> unat (vcost g v) \<le> c) \<and>
       (case v_root (vtx g v) of
          None \<Rightarrow> vcost g v = INFINITY_DW
        | Some r \<Rightarrow> is_root G edgeType fIncludeBlack r \<and> path_cost G r v (unat (vcost g v)) \<and>
                    vcost g v < INFINITY_DW \<and> v_componentId (vtx g v) = int r))"
proof -
  obtain g where g: "Dijkstra env G edgeType fIncludeBlack = Some (Inr g)"
      "labels_inv ok elems k G {v. is_root G edgeType fIncludeBlack v} g"
      "\<And>v r c. is_root G edgeType fIncludeBlack r \<Longrightarrow> path_cost G r v c \<Longrightarrow> unat (vcost g v) \<le> c"
    using assms by (rule Dijkstra_spec) blast
  have "net g = net G"
    using g(2) by (simp add: labels_inv_def)
  with g(1,3) labels_root [OF g(2), unfolded mem_Collect_eq] show ?thesis
    by (intro exI [of _ g]) auto
qed

text \<open>Costs are added without wrap-around: the sum saturates at the largest 32-bit value.\<close>

theorem AddDWORDSat_saturates: "unat (AddDWORDSat a b) = min (unat a + unat b) (2 ^ 32 - 1)"
  by (rule unat_AddDWORDSat)

section \<open>A concrete instance\<close>

definition two_sites :: "(nat, ToplSched list) ToplGraphState" where
  "two_sites = sample_graph
     \<lparr>g_store := [\<lparr>e_edgeType = 0, e_ri = \<lparr>ri_cost = 7, ri_repIntvl = 15, ri_options = 0, ri_schedule = None\<rparr>,
                   e_fDirectedEdge = False,
                   e_vertexNames = [\<lparr>nm_name = Some 3, nm_reserved = 0\<rparr>, \<lparr>nm_name = Some 5, nm_reserved = 1\<rparr>]\<rparr>],
      g_masterEdgeList := DynArrayAppend (DynArrayInit sizeof_ptr) (Some 0),
      g_vertices := map (\<lambda>(c, r). r\<lparr>v_color := c, v_acceptRedRed := 1, v_acceptBlack := 1,
                                     v_edgeList := DynArrayAppend (DynArrayInit sizeof_ptr) (Some 0)\<rparr>)
                      (zip [COLOR_RED, COLOR_WHITE] (g_vertices sample_graph))\<rparr>"

definition list_env :: "(nat, ToplSched list) topl_env" where
  "list_env = \<lparr>env_table = list_table, env_junk = (\<lambda>g u e v. e_ri (edge g e)), env_resume = (\<lambda>a b c. False)\<rparr>"

lemma two_sites_walk: "edge_walk two_sites 0 = [0, 1]"
  by (simp add: edge_walk_def EdgeGetVertex_def two_sites_def)

lemma two_sites_ok: "arcs_ok two_sites" "scheds_ok (sorted_wrt (rtl_less TableCompare)) (\<lambda>t. t) 0 two_sites"
proof -
  have v: "g_vertices two_sites = map (\<lambda>(c, r). r\<lparr>v_color := c, v_acceptRedRed := 1, v_acceptBlack := 1,
      v_edgeList := DynArrayAppend (DynArrayInit sizeof_ptr) (Some 0)\<rparr>)
      (zip [COLOR_RED, COLOR_WHITE] (g_vertices sample_graph))"
    by (simp add: two_sites_def)
  have n: "g_numVertices two_sites = 2"
    by (simp add: v sample_graph_def)
  have "v_edgeList (vtx two_sites i) = DynArrayAppend (DynArrayInit sizeof_ptr) (Some 0)" if "i < 2" for i
    using that by (cases "i = 0") (simp_all add: v sample_graph_def less_2_cases_iff)
  then have el: "dyn_list (v_edgeList (vtx two_sites i)) = [0] \<and> dyn_array_ok (v_edgeList (vtx two_sites i))" if "i < 2" for i
    using that by simp
  have "graph_ok two_sites"
    using sample_graph_ok(1) el unfolding graph_ok_def n
    by (auto simp: two_sites_def sample_graph_def edge_ok_def InitializeVertex_def less_2_cases_iff MAX_EDGE_TYPE_def
        ToplScheduleValid_def)
  with el two_sites_walk show "arcs_ok two_sites"
    by (simp add: arcs_ok_def n) (simp add: two_sites_def)
  have "ri_schedule (e_ri (edge two_sites 0)) = None" "g_schedCache two_sites = list_cache_init"
    by (simp_all add: two_sites_def sample_graph_def)
  with el list_cache_init_ok show "scheds_ok (sorted_wrt (rtl_less TableCompare)) (\<lambda>t. t) 0 two_sites"
    by (simp add: scheds_ok_def n SCHED_NUMBER_INTERVALS_WEEK_def)
qed

lemma two_sites_path: "path_cost two_sites 0 1 7" "is_root two_sites 0 True 0"
proof -
  have "(0, 1) \<in> arcs two_sites 0" "unat (ecost two_sites 0) = 7"
    by (simp_all add: arcs_def two_sites_walk) (simp_all add: two_sites_def sample_graph_def)
  with path_step [OF path_start, of 0 1 two_sites 0] show "path_cost two_sites 0 1 7"
    by simp
  show "is_root two_sites 0 True 0"
    by (simp add: is_root_def two_sites_def sample_graph_def type_mask_def)
qed

theorem Dijkstra_shortest_paths_witness:
  "\<exists>g. Dijkstra list_env two_sites 0 True = Some (Inr g) \<and> net g = net two_sites \<and> unat (vcost g 1) \<le> 7"
proof -
  have "g_numVertices two_sites = 2"
    by (simp add: two_sites_def sample_graph_def)
  with Dijkstra_shortest_paths [OF list_cache_axioms _ two_sites_ok, of list_env 0 True] two_sites_path
  show ?thesis
    by (fastforce simp: list_env_def)
qed

end
