(* ===== verification/Topl_Kruskal.thy ===== *)
theory Topl_Kruskal
  imports Topl_Dijkstra
begin

text \<open>
  The second phase of the spanning-tree algorithm of \<^verbatim>\<open>ds/src/common/w32topl/stalg.c\<close>: the internal
  edges, which stand for shortest paths between colored vertices, are collected in a generic table
  ordered by \<^verbatim>\<open>EdgeCompare\<close>, and Kruskal's algorithm picks a spanning forest from them. Components are
  the up-trees of the vertices' \<^verbatim>\<open>componentId\<close> fields, with path compression. A loop that does not
  end is the value \<open>None\<close>.
\<close>

section \<open>Internal edges\<close>

record ToplInternalEdge =
  ie_v1 :: vref
  ie_v2 :: vref
  ie_redRed :: bool
  ie_ri :: TOPL_REPL_INFO
  ie_edgeType :: dword

text \<open>The \<^verbatim>\<open>vtxId\<close> behind a pointer to a vertex; pointers never leave the array.\<close>

definition vtx_id :: "('n, 't) ToplGraphState \<Rightarrow> vref \<Rightarrow> nat" where
  "vtx_id g v = (if v < g_numVertices g then v_vtxId (vtx g v) else v)"

text \<open>
  The table calls \<^verbatim>\<open>EdgeCompare\<close> on edges whose schedules come from \<^verbatim>\<open>CombineReplInfo\<close> and are valid, so
  that the exception of \<^verbatim>\<open>ToplScheduleDuration\<close> does not occur in it.
\<close>

definition ie_duration :: "ToplInternalEdge \<Rightarrow> nat" where
  "ie_duration e = (case ToplScheduleDuration (ri_schedule (ie_ri e)) of Inr d \<Rightarrow> d | Inl _ \<Rightarrow> 0)"

definition EdgeCompare :: "(vref \<Rightarrow> nat) \<Rightarrow> ToplInternalEdge \<Rightarrow> ToplInternalEdge \<Rightarrow> rtl_cmp" where
  "EdgeCompare vtxId e1 e2 =
     (if ie_redRed e1 \<and> \<not> ie_redRed e2 then GenericLessThan
      else if \<not> ie_redRed e1 \<and> ie_redRed e2 then GenericGreaterThan
      else if ri_cost (ie_ri e1) < ri_cost (ie_ri e2) then GenericLessThan
      else if ri_cost (ie_ri e1) > ri_cost (ie_ri e2) then GenericGreaterThan
      else if ie_duration e1 > ie_duration e2 then GenericLessThan
      else if ie_duration e1 < ie_duration e2 then GenericGreaterThan
      else if vtxId (ie_v1 e1) < vtxId (ie_v1 e2) then GenericLessThan
      else if vtxId (ie_v1 e1) > vtxId (ie_v1 e2) then GenericGreaterThan
      else if vtxId (ie_v2 e1) < vtxId (ie_v2 e2) then GenericLessThan
      else if vtxId (ie_v2 e1) > vtxId (ie_v2 e2) then GenericGreaterThan
      else if ie_edgeType e1 < ie_edgeType e2 then GenericLessThan
      else if ie_edgeType e1 > ie_edgeType e2 then GenericGreaterThan
      else GenericEqual)"

definition AddIntEdge ::
  "('n, 't) topl_env \<Rightarrow> (ToplInternalEdge, 'i) rtl_table_ops \<Rightarrow> eref \<Rightarrow> vref \<Rightarrow> vref \<Rightarrow>
   ('n, 't) ToplGraphState \<times> 'i \<Rightarrow> (('n, 't) ToplGraphState \<times> 'i) topl" where
  "AddIntEdge env TI e v1 v2 = (\<lambda>(g, internalEdges).
     let root1 = the (v_root (vtx g v1)); root2 = the (v_root (vtx g v2));
         redRed = (v_color (vtx g root1) = COLOR_RED \<and> v_color (vtx g root2) = COLOR_RED);
         mask = type_mask (e_edgeType (edge g e))
     in if redRed \<and> (v_acceptRedRed (vtx g root1) AND mask = 0 \<or> v_acceptRedRed (vtx g root2) AND mask = 0)
        then Inr (g, internalEdges)
        else if \<not> redRed \<and> (v_acceptBlack (vtx g root1) AND mask = 0 \<or> v_acceptBlack (vtx g root2) AND mask = 0)
        then Inr (g, internalEdges)
        else
          bindE (CombineReplInfo env g (v_ri (vtx g v1)) (v_ri (vtx g v2))) (\<lambda>(g, combined).
            case combined of
              None \<Rightarrow> bindE (RaiseNonIntersectingException env g root1 v1 v2) (\<lambda>_. Inr (g, internalEdges))
            | Some ri \<Rightarrow>
                bindE (CombineReplInfo env g ri (e_ri (edge g e))) (\<lambda>(g, combined).
                  case combined of
                    None \<Rightarrow> bindE (RaiseNonIntersectingException env g root1 v1 v2) (\<lambda>_. Inr (g, internalEdges))
                  | Some ri2 \<Rightarrow>
                      let newIntEdge = \<lparr>ie_v1 = root1, ie_v2 = root2, ie_redRed = redRed, ie_ri = CopyReplInfo ri2,
                                        ie_edgeType = e_edgeType (edge g e)\<rparr>;
                          newIntEdge = (if v_vtxId (vtx g (ie_v1 newIntEdge)) > v_vtxId (vtx g (ie_v2 newIntEdge))
                                        then newIntEdge\<lparr>ie_v1 := ie_v2 newIntEdge, ie_v2 := ie_v1 newIntEdge\<rparr>
                                        else newIntEdge);
                          (internalEdges, _, _) =
                            RtlInsertElementGenericTable TI (EdgeCompare (vtx_id g)) internalEdges newIntEdge
                      in Inr (g, internalEdges))))"

definition ColorComp :: "'n ToplVertex \<Rightarrow> 'n ToplVertex \<Rightarrow> int" where
  "ColorComp v1 v2 =
     (let color1 = (if v_demoted v1 then COLOR_WHITE else v_color v1);
          color2 = (if v_demoted v2 then COLOR_WHITE else v_color v2)
      in case color1 of
           COLOR_RED \<Rightarrow> (if COLOR_RED = color2 then 0 else - 1)
         | COLOR_BLACK \<Rightarrow> (case color2 of COLOR_RED \<Rightarrow> 1 | COLOR_BLACK \<Rightarrow> 0 | COLOR_WHITE \<Rightarrow> - 1)
         | COLOR_WHITE \<Rightarrow> (if COLOR_WHITE = color2 then 0 else 1))"

text \<open>The two loops of \<^verbatim>\<open>ProcessEdge\<close>.\<close>

definition better_vertex :: "('n, 't) ToplGraphState \<Rightarrow> vref \<Rightarrow> vref \<Rightarrow> vref" where
  "better_vertex g v bestV =
     (let cmp = ColorComp (vtx g v) (vtx g bestV)
      in if cmp < 0 \<or> (cmp = 0 \<and> VertexComp v bestV g < 0) then v else bestV)"

definition process_vertex ::
  "('n, 't) topl_env \<Rightarrow> (ToplInternalEdge, 'i) rtl_table_ops \<Rightarrow> eref \<Rightarrow> vref \<Rightarrow> vref \<Rightarrow>
   ('n, 't) ToplGraphState \<times> 'i \<Rightarrow> (('n, 't) ToplGraphState \<times> 'i) topl" where
  "process_vertex env TI e bestV v = (\<lambda>(g, internalEdges).
     if v_componentId (vtx g v) \<noteq> UNCONNECTED_COMPONENT \<and> v_root (vtx g v) = None then Inr (g, internalEdges)
     else if v_componentId (vtx g bestV) \<noteq> UNCONNECTED_COMPONENT \<and> v_root (vtx g bestV) \<noteq> None
           \<and> v_componentId (vtx g v) \<noteq> UNCONNECTED_COMPONENT \<and> v_root (vtx g v) \<noteq> None
           \<and> v_componentId (vtx g bestV) \<noteq> v_componentId (vtx g v)
     then AddIntEdge env TI e bestV v (g, internalEdges)
     else Inr (g, internalEdges))"

definition ProcessEdge ::
  "('n, 't) topl_env \<Rightarrow> (ToplInternalEdge, 'i) rtl_table_ops \<Rightarrow> eref \<Rightarrow>
   ('n, 't) ToplGraphState \<times> 'i \<Rightarrow> (('n, 't) ToplGraphState \<times> 'i) topl" where
  "ProcessEdge env TI e = (\<lambda>(g, internalEdges).
     bindE (CheckMultiEdge g (Some e)) (\<lambda>_.
       let bestV = fold (better_vertex g) (tl (edge_walk g e)) (EdgeGetVertex g e 0)
       in foldE (process_vertex env TI e bestV) (edge_walk g e) (g, internalEdges)))"

text \<open>One round for the implicit edge set without edges, where the vertices of an edge that do not
  accept its type are demoted while the edge is processed.\<close>

definition process_lone_edge ::
  "('n, 't) topl_env \<Rightarrow> (ToplInternalEdge, 'i) rtl_table_ops \<Rightarrow> eref \<Rightarrow>
   ('n, 't) ToplGraphState \<times> 'i \<Rightarrow> (('n, 't) ToplGraphState \<times> 'i) topl" where
  "process_lone_edge env TI e = (\<lambda>(g, internalEdges).
     bindE (CheckMultiEdge g (Some e)) (\<lambda>_.
       let g = fold (\<lambda>v. CheckDemoteOneVertex v (e_edgeType (edge g e))) (edge_walk g e) g
       in bindE (ProcessEdge env TI e (g, internalEdges)) (\<lambda>(g, internalEdges).
            Inr (fold UndemoteOneVertex (edge_walk g e) g, internalEdges))))"

definition process_set_edge ::
  "('n, 't) topl_env \<Rightarrow> (ToplInternalEdge, 'i) rtl_table_ops \<Rightarrow> eref option \<Rightarrow>
   ('n, 't) ToplGraphState \<times> 'i \<Rightarrow> (('n, 't) ToplGraphState \<times> 'i) topl" where
  "process_set_edge env TI ep = (\<lambda>(g, internalEdges).
     bindE (CheckMultiEdge g ep) (\<lambda>e. ProcessEdge env TI e (g, internalEdges)))"

text \<open>\<open>None\<close> is \<^verbatim>\<open>EMPTY_EDGE_SET\<close>.\<close>

definition ProcessEdgeSet ::
  "('n, 't) topl_env \<Rightarrow> (ToplInternalEdge, 'i) rtl_table_ops \<Rightarrow> nat option \<Rightarrow>
   ('n, 't) ToplGraphState \<times> 'i \<Rightarrow> (('n, 't) ToplGraphState \<times> 'i) topl" where
  "ProcessEdgeSet env TI whichEdgeSet = (\<lambda>(g, internalEdges).
     case whichEdgeSet of
       None \<Rightarrow> foldE (process_lone_edge env TI) (dyn_walk (g_masterEdgeList g)) (g, internalEdges)
     | Some i \<Rightarrow>
         bindE (CheckMultiEdgeSet (DynArrayRetrieve (g_edgeSets g) i)) (\<lambda>multiEdgeList.
           foldE (process_set_edge env TI) multiEdgeList (g, internalEdges)))"

section \<open>Components and the spanning forest\<close>

text \<open>The two loops of \<^verbatim>\<open>GetComponent\<close>. A component id that is followed is not negative.\<close>

partial_function (option) find_root :: "('n, 't) ToplGraphState \<Rightarrow> vref \<Rightarrow> nat option" where
  "find_root g u =
     (if v_componentId (vtx g u) \<noteq> int (v_vtxId (vtx g u)) then find_root g (nat (v_componentId (vtx g u)))
      else Some (v_vtxId (vtx g u)))"

declare find_root.simps [code]

partial_function (option) compress ::
  "nat \<Rightarrow> ('n, 't) ToplGraphState \<Rightarrow> vref \<Rightarrow> ('n, 't) ToplGraphState option" where
  "compress root g u =
     (if v_componentId (vtx g u) \<noteq> int (v_vtxId (vtx g u))
      then compress root (upd_vtx u (\<lambda>r. r\<lparr>v_componentId := int root\<rparr>) g) (nat (v_componentId (vtx g u)))
      else Some g)"

declare compress.simps [code]

definition GetComponent :: "('n, 't) ToplGraphState \<Rightarrow> vref \<Rightarrow> (nat \<times> ('n, 't) ToplGraphState) option" where
  "GetComponent g v =
     (case find_root g v of
        None \<Rightarrow> None
      | Some root \<Rightarrow> (case compress root g v of None \<Rightarrow> None | Some g \<Rightarrow> Some (root, g)))"

definition AddOutEdge ::
  "('n, 't) ToplGraphState \<Rightarrow> eref DynArray \<Rightarrow> ToplInternalEdge \<Rightarrow>
   (('n, 't) ToplGraphState \<times> eref DynArray) topl" where
  "AddOutEdge g outputEdges e =
     (let v1 = ie_v1 e; v2 = ie_v2 e;
          ee = (CreateMultiEdge 2 (ie_ri e))
                 \<lparr>e_vertexNames :=
                    [\<lparr>nm_name = Some (v_vertexName (vtx g v1)), nm_reserved = v_vtxId (vtx g v1)\<rparr>,
                     \<lparr>nm_name = Some (v_vertexName (vtx g v2)), nm_reserved = v_vtxId (vtx g v2)\<rparr>],
                  e_edgeType := ie_edgeType e, e_ri := CopyReplInfo (ie_ri e)\<rparr>;
          ref = length (g_store g);
          g = g\<lparr>g_store := g_store g @ [ee]\<rparr>;
          outputEdges = DynArrayAppend outputEdges (Some ref)
      in bindE (CheckMultiEdge g (Some ref)) (\<lambda>_.
           Inr (add_to_edge_list ref v2 (add_to_edge_list ref v1 g), outputEdges)))"

text \<open>The decision of one round of \<^verbatim>\<open>Kruskal\<close> on an edge.\<close>

definition kruskal_edge ::
  "('n, 't) ToplGraphState \<Rightarrow> dword \<Rightarrow> eref DynArray \<Rightarrow> ToplInternalEdge \<Rightarrow>
   (('n, 't) ToplGraphState \<times> eref DynArray \<times> dword) topl option" where
  "kruskal_edge g cSTEdges outputEdges e =
     Option.bind (GetComponent g (ie_v1 e)) (\<lambda>c1. let comp1 = fst c1; g = snd c1 in
     Option.bind (GetComponent g (ie_v2 e)) (\<lambda>c2. let comp2 = fst c2; g = snd c2 in
       Some (if comp1 \<noteq> comp2
             then bindE (AddOutEdge g outputEdges e) (\<lambda>(g, outputEdges).
                    Inr (upd_vtx comp1 (\<lambda>r. r\<lparr>v_componentId := int comp2\<rparr>) g, outputEdges, cSTEdges + 1))
             else Inr (g, outputEdges, cSTEdges))))"

text \<open>An empty table is the only one without a first element.\<close>

partial_function (option) kruskal_loop ::
  "(ToplInternalEdge, 'i) rtl_table_ops \<Rightarrow> dword \<Rightarrow> ('n, 't) ToplGraphState \<Rightarrow> 'i \<Rightarrow> dword \<Rightarrow> eref DynArray \<Rightarrow>
   (('n, 't) ToplGraphState \<times> 'i \<times> eref DynArray) topl option" where
  "kruskal_loop TI numExpectedTreeEdges g internalEdges cSTEdges outputEdges =
     (if RtlIsGenericTableEmpty TI internalEdges then Some (Inr (g, internalEdges, outputEdges))
      else
        let first = RtlFirstElement TI internalEdges; internalEdges = fst first; e = the (snd first)
        in Option.bind (kruskal_edge g cSTEdges outputEdges e) (\<lambda>r.
             case r of
               Inl ex \<Rightarrow> Some (Inl ex)
             | Inr s \<Rightarrow>
                 let g = fst s; outputEdges = fst (snd s); cSTEdges = snd (snd s);
                     internalEdges = RtlDeleteElementGenericTable TI (EdgeCompare (vtx_id g)) internalEdges e
                 in if cSTEdges = numExpectedTreeEdges then Some (Inr (g, internalEdges, outputEdges))
                    else kruskal_loop TI numExpectedTreeEdges g internalEdges cSTEdges outputEdges))"

declare kruskal_loop.simps [code]

definition Kruskal ::
  "(ToplInternalEdge, 'i) rtl_table_ops \<Rightarrow> ('n, 't) ToplGraphState \<Rightarrow> 'i \<Rightarrow> dword \<Rightarrow> eref DynArray \<Rightarrow>
   (('n, 't) ToplGraphState \<times> 'i \<times> eref DynArray) topl option" where
  "Kruskal TI g internalEdges numExpectedTreeEdges outputEdges =
     kruskal_loop TI numExpectedTreeEdges (ClearEdgeLists g) internalEdges 0 outputEdges"

section \<open>Up-trees\<close>

text \<open>\<open>up_tree g v r n\<close>: following component ids from \<open>v\<close> leads to the root \<open>r\<close> in \<open>n\<close> steps.\<close>

inductive up_tree :: "('n, 't) ToplGraphState \<Rightarrow> vref \<Rightarrow> vref \<Rightarrow> nat \<Rightarrow> bool" for g where
  up_root: "v < g_numVertices g \<Longrightarrow> v_componentId (vtx g v) = int v \<Longrightarrow> up_tree g v v 0"
| up_step: "v < g_numVertices g \<Longrightarrow> v_componentId (vtx g v) = int u \<Longrightarrow> u \<noteq> v \<Longrightarrow> up_tree g u r n \<Longrightarrow>
    up_tree g v r (Suc n)"

inductive_cases up_zeroE: "up_tree g v r 0"
inductive_cases up_SucE: "up_tree g v r (Suc n)"

definition comp_of :: "('n, 't) ToplGraphState \<Rightarrow> vref \<Rightarrow> vref \<Rightarrow> bool" where
  "comp_of g v r \<longleftrightarrow> (\<exists>n. up_tree g v r n)"

definition ids_ok :: "('n, 't) ToplGraphState \<Rightarrow> bool" where
  "ids_ok g \<longleftrightarrow> (\<forall>v<g_numVertices g. v_vtxId (vtx g v) = v)"

lemma up_tree_valid: "up_tree g v r n \<Longrightarrow> v < g_numVertices g \<and> r < g_numVertices g \<and> v_componentId (vtx g r) = int r"
  by (induction rule: up_tree.induct) auto

lemma up_tree_unique: "up_tree g v r n \<Longrightarrow> up_tree g v r' n' \<Longrightarrow> r' = r \<and> n' = n"
proof (induction arbitrary: n' rule: up_tree.induct)
  case (up_root v)
  from up_root.prems up_root.hyps show ?case
    by cases auto
next
  case (up_step v u r n)
  from up_step.prems show ?case
  proof cases
    case up_root
    with up_step.hyps show ?thesis by simp
  next
    case (up_step u' m)
    with \<open>v_componentId (vtx g v) = int u\<close> have "u' = u" by simp
    with up_step up_step.IH show ?thesis by blast
  qed
qed

lemma comp_of_unique: "comp_of g v r \<Longrightarrow> comp_of g v r' \<Longrightarrow> r' = r"
  unfolding comp_of_def using up_tree_unique by blast

lemma comp_of_root: "comp_of g v r \<Longrightarrow> comp_of g r r"
  unfolding comp_of_def using up_tree_valid up_root by blast

lemma up_tree_not_root:
  assumes "up_tree g v r n" and "v \<noteq> r"
  shows "v_componentId (vtx g v) \<noteq> int v"
  using assms by cases auto

text \<open>Pointing a vertex at the root of its tree shortens paths and moves no vertex to another tree.\<close>

abbreviation set_comp :: "vref \<Rightarrow> nat \<Rightarrow> ('n, 't) ToplGraphState \<Rightarrow> ('n, 't) ToplGraphState" where
  "set_comp u c g \<equiv> upd_vtx u (\<lambda>r. r\<lparr>v_componentId := int c\<rparr>) g"

lemma set_comp_id: "u < g_numVertices g \<Longrightarrow>
    v_componentId (vtx (set_comp u c g) w) = (if w = u then int c else v_componentId (vtx g w))"
  by (simp add: vtx_upd_if)

lemma shortcut:
  assumes u: "up_tree g u r n" "u \<noteq> r" and w: "up_tree g w s m"
  shows "\<exists>m'\<le>m. up_tree (set_comp u r g) w s m'"
  using w
proof induction
  case (up_root w)
  have "w \<noteq> u"
    using up_root u up_tree_not_root by blast
  then show ?case
    using up_root up_tree.up_root [of w "set_comp u r g"] by (auto simp: set_comp_id)
next
  case (up_step w x s m)
  have un: "u < g_numVertices g" and rn: "r < g_numVertices g" "v_componentId (vtx g r) = int r"
    using up_tree_valid [OF u(1)] by auto
  show ?case
  proof (cases "w = u")
    case True
    have "up_tree g w s (Suc m)"
      using up_step.hyps by (rule up_tree.up_step)
    then have "s = r"
      using up_tree_unique [OF u(1)] True by blast
    moreover have "up_tree (set_comp u r g) r r 0"
      using rn u(2) un by (intro up_tree.up_root) (simp_all add: set_comp_id)
    then have "up_tree (set_comp u r g) u r (Suc 0)"
      using un u(2) by (intro up_tree.up_step [where u = r]) (simp_all add: set_comp_id)
    ultimately show ?thesis
      using True by (intro exI [of _ "Suc 0"]) simp
  next
    case False
    from up_step.IH obtain m' where "m' \<le> m" "up_tree (set_comp u r g) x s m'" by blast
    then have "up_tree (set_comp u r g) w s (Suc m')"
      using up_step.hyps False un by (intro up_tree.up_step [where u = x]) (simp_all add: set_comp_id)
    with \<open>m' \<le> m\<close> show ?thesis by auto
  qed
qed

text \<open>Linking one root below another joins the two trees.\<close>

lemma link_roots:
  assumes "comp_of g a a" "comp_of g b b" "a \<noteq> b" and w: "up_tree g w s m"
  shows "comp_of (set_comp a b g) w (if s = a then b else s)"
  using w
proof induction
  case (up_root w)
  have an: "a < g_numVertices g" and bn: "b < g_numVertices g" "v_componentId (vtx g b) = int b"
    using assms(1,2) up_tree_valid by (auto simp: comp_of_def)
  have b: "up_tree (set_comp a b g) b b 0"
    using bn an assms(3) by (intro up_tree.up_root) (simp_all add: set_comp_id)
  show ?case
  proof (cases "w = a")
    case True
    have "up_tree (set_comp a b g) a b (Suc 0)"
      using b an assms(3) by (intro up_tree.up_step [where u = b]) (simp_all add: set_comp_id)
    with True show ?thesis
      by (auto simp: comp_of_def)
  next
    case False
    have "up_tree (set_comp a b g) w w 0"
      using up_root False an by (intro up_tree.up_root) (simp_all add: set_comp_id)
    with False show ?thesis
      by (auto simp: comp_of_def)
  qed
next
  case (up_step w x s m)
  have an: "a < g_numVertices g" and aa: "v_componentId (vtx g a) = int a"
    using assms(1) up_tree_valid by (auto simp: comp_of_def)
  have "w \<noteq> a"
    using up_step.hyps(2,3) aa by auto
  from up_step.IH obtain k where "up_tree (set_comp a b g) x (if s = a then b else s) k"
    by (auto simp: comp_of_def)
  then have "up_tree (set_comp a b g) w (if s = a then b else s) (Suc k)"
    using up_step.hyps \<open>w \<noteq> a\<close> an by (intro up_tree.up_step [where u = x]) (simp_all add: set_comp_id)
  then show ?case
    by (auto simp: comp_of_def)
qed

lemma find_root_spec:
  assumes "ids_ok g" and "up_tree g v r n"
  shows "find_root g v = Some r"
  using assms(2)
proof induction
  case (up_root v)
  then show ?case
    using assms(1) by (subst find_root.simps) (simp add: ids_ok_def)
next
  case (up_step v u r n)
  then show ?case
    using assms(1) by (subst find_root.simps) (simp add: ids_ok_def)
qed

text \<open>\<open>g'\<close> differs from \<open>g\<close> in component ids only, and has the same components.\<close>

inductive recomp :: "('n, 't) ToplGraphState \<Rightarrow> ('n, 't) ToplGraphState \<Rightarrow> bool" for g where
  recomp_refl: "recomp g g"
| recomp_step: "recomp g g' \<Longrightarrow> up_tree g' u r n \<Longrightarrow> u \<noteq> r \<Longrightarrow> recomp g (set_comp u r g')"

lemma recomp_trans: "recomp g' g'' \<Longrightarrow> recomp g g' \<Longrightarrow> recomp g g''"
  by (induction rule: recomp.induct) (auto intro: recomp_step)

lemma recomp_comp_of: "recomp g g' \<Longrightarrow> comp_of g w s \<Longrightarrow> comp_of g' w s"
  by (induction rule: recomp.induct) (auto simp: comp_of_def dest: shortcut)

lemma recomp_frame:
  assumes "recomp g g'" and "\<And>x u r. P x \<Longrightarrow> P (set_comp u r x)" and "P g"
  shows "P g'"
  using assms by (induction rule: recomp.induct) auto

lemma set_comp_ids: "ids_ok g \<Longrightarrow> ids_ok (set_comp u c g)"
  by (simp add: ids_ok_def vtx_upd_field [where fld = v_vtxId])

lemma compress_spec:
  assumes "ids_ok g" and "up_tree g v r n"
  shows "\<exists>g'. compress r g v = Some g' \<and> recomp g g'"
  using assms
proof (induction n arbitrary: g v rule: less_induct)
  case (less n)
  from less.prems(2) show ?case
  proof cases
    case up_root
    then show ?thesis
      using less.prems(1) by (subst compress.simps) (auto simp: ids_ok_def intro: recomp_refl)
  next
    case (up_step u m)
    have "v \<noteq> r"
      using up_step less.prems(2) up_tree_valid by fastforce
    obtain m' where m': "m' \<le> m" "up_tree (set_comp v r g) u r m'"
      using shortcut [OF less.prems(2) \<open>v \<noteq> r\<close> up_step(5)] by blast
    from less.IH [OF _ set_comp_ids [OF less.prems(1)] m'(2)] m'(1) up_step(1)
    obtain g' where g': "compress r (set_comp v r g) u = Some g'" "recomp (set_comp v r g) g'"
      by auto
    have "recomp g g'"
      by (rule recomp_trans [OF g'(2) recomp_step [OF recomp_refl less.prems(2) \<open>v \<noteq> r\<close>]])
    with g'(1) up_step show ?thesis
      using less.prems(1) by (subst compress.simps) (simp add: ids_ok_def)
  qed
qed

lemma GetComponent_spec:
  assumes "ids_ok g" and "comp_of g v r"
  obtains g' where "GetComponent g v = Some (r, g')" "recomp g g'"
proof -
  from assms(2) obtain n where n: "up_tree g v r n" by (auto simp: comp_of_def)
  from compress_spec [OF assms(1) n] find_root_spec [OF assms(1) n] that show ?thesis
    by (auto simp: GetComponent_def)
qed

lemma recomp_direct:
  assumes "recomp g g'" and "comp_of g v r" and "v_componentId (vtx g v) = int r"
  shows "v_componentId (vtx g' v) = int r"
  using assms
proof induction
  case (recomp_step g' u s n)
  have "comp_of g' v r"
    using recomp_comp_of recomp_step by blast
  moreover have "comp_of g' u s"
    using recomp_step by (auto simp: comp_of_def)
  ultimately show ?case
    using recomp_step comp_of_unique [of g' v r s] up_tree_valid [of g' u s n] by (auto simp: set_comp_id)
qed

lemma GetComponent_compressed:
  assumes "ids_ok g" and "comp_of g v r" and "GetComponent g v = Some (r, g')"
  shows "v_componentId (vtx g' v) = int r"
proof -
  obtain n where n: "up_tree g v r n"
    using assms(2) by (auto simp: comp_of_def)
  have c: "compress r g v = Some g'"
    using assms(3) find_root_spec [OF assms(1) n] by (auto simp: GetComponent_def split: option.splits)
  from n show ?thesis
  proof cases
    case up_root
    then show ?thesis
      using c assms(1) by (subst (asm) compress.simps) (auto simp: ids_ok_def)
  next
    case (up_step u m)
    have vr: "v \<noteq> r"
      using n up_step up_tree_valid by fastforce
    have c': "compress r (set_comp v r g) u = Some g'"
      using c up_step assms(1) by (subst (asm) compress.simps) (simp add: ids_ok_def)
    obtain m' where m': "up_tree (set_comp v r g) u r m'"
      using shortcut [OF n vr up_step(5)] by blast
    have "recomp (set_comp v r g) g'"
      using compress_spec [OF set_comp_ids [OF assms(1)] m'] c' by auto
    moreover have "comp_of (set_comp v r g) v r"
      using shortcut [OF n vr n] by (auto simp: comp_of_def)
    ultimately show ?thesis
      by (rule recomp_direct) (use up_step(2) in \<open>simp add: set_comp_id\<close>)
  qed
qed

section \<open>The greedy forest\<close>

text \<open>Two vertices are connected by a list of internal edges.\<close>

definition connected :: "ToplInternalEdge list \<Rightarrow> vref \<Rightarrow> vref \<Rightarrow> bool" where
  "connected es = equivclp (\<lambda>a b. \<exists>e\<in>set es. a = ie_v1 e \<and> b = ie_v2 e)"

text \<open>The forest that Kruskal's algorithm is to find: an edge is taken when its ends are not connected yet.\<close>

fun greedy :: "ToplInternalEdge list \<Rightarrow> ToplInternalEdge list \<Rightarrow> ToplInternalEdge list" where
  "greedy cs [] = cs"
| "greedy cs (e # es) = greedy (if connected cs (ie_v1 e) (ie_v2 e) then cs else cs @ [e]) es"

lemma connected_refl [simp]: "connected es a a"
  by (simp add: connected_def)

lemma connected_sym: "connected es a b \<Longrightarrow> connected es b a"
  unfolding connected_def by (rule equivclp_sym)

lemma connected_trans: "connected es a b \<Longrightarrow> connected es b c \<Longrightarrow> connected es a c"
  unfolding connected_def by (rule equivclp_trans)

lemma connected_edge: "e \<in> set es \<Longrightarrow> connected es (ie_v1 e) (ie_v2 e)"
  unfolding connected_def by (rule r_into_equivclp) blast

lemma connected_least:
  assumes "connected es a b" and "\<And>x. Q x x" and "\<And>x y. Q x y \<Longrightarrow> Q y x" and "\<And>x y z. Q x y \<Longrightarrow> Q y z \<Longrightarrow> Q x z"
    and "\<And>e. e \<in> set es \<Longrightarrow> Q (ie_v1 e) (ie_v2 e)"
  shows "Q a b"
  using assms(1) unfolding connected_def
proof (induction rule: equivclp_induct)
  case base
  show ?case
    by (rule assms(2))
next
  case (step y z)
  then have "Q y z"
    using assms(3,5) by blast
  with step.IH show ?case
    using assms(4) by blast
qed

lemma connected_mono:
  assumes "connected es a b" and "set es \<subseteq> set es'"
  shows "connected es' a b"
  using assms(1) by (rule connected_least) (use assms(2) in \<open>blast intro: connected_sym connected_trans connected_edge connected_refl\<close>)+

lemma connected_snoc:
  "connected (es @ [e]) a b \<longleftrightarrow> connected es a b \<or>
     connected es a (ie_v1 e) \<and> connected es b (ie_v2 e) \<or> connected es a (ie_v2 e) \<and> connected es b (ie_v1 e)"
  (is "?L \<longleftrightarrow> ?Q a b")
proof
  assume ?L
  then show "?Q a b"
  proof (rule connected_least [where Q = ?Q])
    fix x y z
    assume "?Q x y" "?Q y z"
    then show "?Q x z"
      by (meson connected_sym connected_trans)
  next
    fix e'
    assume "e' \<in> set (es @ [e])"
    then show "?Q (ie_v1 e') (ie_v2 e')"
      using connected_edge by auto
  qed (auto intro: connected_sym)
next
  have e: "connected (es @ [e]) (ie_v1 e) (ie_v2 e)"
    by (rule connected_edge) simp
  have m: "connected (es @ [e]) x y" if "connected es x y" for x y
    using that by (rule connected_mono) auto
  assume "?Q a b"
  then show ?L
    using e m by (meson connected_sym connected_trans)
qed

section \<open>Disjoint sets\<close>

text \<open>
  What Kruskal's algorithm needs of the components: a representative of each member, a search that
  returns it and keeps all representatives, and a link that puts one class under another.
\<close>

locale disjoint_classes =
  fixes find :: "'s \<Rightarrow> nat \<Rightarrow> (nat \<times> 's) option" and link :: "nat \<Rightarrow> nat \<Rightarrow> 's \<Rightarrow> 's"
    and inv :: "'s \<Rightarrow> bool" and rep :: "'s \<Rightarrow> nat \<Rightarrow> nat \<Rightarrow> bool"
  assumes rep_unique: "rep s v r \<Longrightarrow> rep s v r' \<Longrightarrow> r' = r"
    and rep_root: "rep s v r \<Longrightarrow> rep s r r"
    and find_law: "inv s \<Longrightarrow> rep s v r \<Longrightarrow>
      \<exists>s'. find s v = Some (r, s') \<and> inv s' \<and> (\<forall>w x. rep s w x \<longrightarrow> rep s' w x)"
    and link_law: "inv s \<Longrightarrow> rep s a a \<Longrightarrow> rep s b b \<Longrightarrow> a \<noteq> b \<Longrightarrow>
      inv (link a b s) \<and> (\<forall>w x. rep s w x \<longrightarrow> rep (link a b s) w (if x = a then b else x))"
begin

text \<open>On the members \<open>C\<close>, the classes are those connected by the edges \<open>cs\<close>, and each edge has joined two.\<close>

definition classes :: "nat set \<Rightarrow> ToplInternalEdge list \<Rightarrow> 's \<Rightarrow> bool" where
  "classes C cs s \<longleftrightarrow> inv s \<and> finite C \<and> (\<forall>a\<in>C. \<exists>r\<in>C. rep s a r) \<and>
     (\<forall>a\<in>C. \<forall>b\<in>C. (\<exists>r. rep s a r \<and> rep s b r) \<longleftrightarrow> connected cs a b) \<and>
     card {a \<in> C. rep s a a} + length cs = card C"

lemma rep_iff:
  assumes "\<forall>w x. rep s w x \<longrightarrow> rep s' w (f x)" and "rep s a r"
  shows "rep s' a x \<longleftrightarrow> x = f r"
  using assms rep_unique by blast

lemma find_classes:
  assumes "classes C cs s" and "a \<in> C"
  shows "\<exists>r s'. find s a = Some (r, s') \<and> r \<in> C \<and> rep s a r \<and> rep s' a r \<and> classes C cs s' \<and> (\<forall>w x. rep s w x \<longrightarrow> rep s' w x)"
proof -
  obtain r where r: "r \<in> C" "rep s a r"
    using assms by (auto simp: classes_def)
  have "inv s"
    using assms(1) by (simp add: classes_def)
  from find_law [OF this r(2)] obtain s' where s': "find s a = Some (r, s')" "inv s'" "\<forall>w x. rep s w x \<longrightarrow> rep s' w x"
    by blast
  have same: "rep s' w x \<longleftrightarrow> rep s w x" if "w \<in> C" for w x
  proof -
    obtain p where "rep s w p"
      using assms(1) \<open>w \<in> C\<close> by (auto simp: classes_def)
    then show ?thesis
      using s'(3) rep_unique by blast
  qed
  have "{a \<in> C. rep s' a a} = {a \<in> C. rep s a a}"
    using same by blast
  moreover have "\<forall>a\<in>C. \<exists>r\<in>C. rep s' a r" "\<forall>a\<in>C. \<forall>b\<in>C. (\<exists>r. rep s' a r \<and> rep s' b r) \<longleftrightarrow> connected cs a b"
    using assms(1) same by (simp_all add: classes_def)
  ultimately have "classes C cs s'"
    using assms(1) s'(2) by (simp add: classes_def)
  then show ?thesis
    using r s' by blast
qed

lemma link_classes:
  assumes cl: "classes C cs s" and a: "a \<in> C" "rep s (ie_v1 e) a" and b: "b \<in> C" "rep s (ie_v2 e) b"
    and e: "ie_v1 e \<in> C" "ie_v2 e \<in> C" and ab: "a \<noteq> b"
  shows "classes C (cs @ [e]) (link a b s)"
proof -
  let ?s = "link a b s" and ?f = "\<lambda>x. if x = a then b else x"
  have inv: "inv s" and conn: "\<And>x y. x \<in> C \<Longrightarrow> y \<in> C \<Longrightarrow> (\<exists>r. rep s x r \<and> rep s y r) \<longleftrightarrow> connected cs x y"
    and reps: "\<And>x. x \<in> C \<Longrightarrow> \<exists>r\<in>C. rep s x r" and fin: "finite C"
    and count: "card {a \<in> C. rep s a a} + length cs = card C"
    using cl by (auto simp: classes_def)
  have link: "inv ?s" "\<forall>w x. rep s w x \<longrightarrow> rep ?s w (?f x)"
    using link_law [OF inv rep_root [OF a(2)] rep_root [OF b(2)] ab] by auto
  note new = rep_iff [OF link(2)]
  have member: "connected cs x (ie_v1 e) \<longleftrightarrow> rep s x a" "connected cs x (ie_v2 e) \<longleftrightarrow> rep s x b" if "x \<in> C" for x
    using conn [OF that e(1)] conn [OF that e(2)] a(2) b(2) rep_unique by blast+
  have conn': "(\<exists>r. rep ?s x r \<and> rep ?s y r) \<longleftrightarrow> connected (cs @ [e]) x y" if xy: "x \<in> C" "y \<in> C" for x y
  proof -
    obtain p q where p: "rep s x p" and q: "rep s y q"
      using reps [OF xy(1)] reps [OF xy(2)] by blast
    have "rep s x z \<longleftrightarrow> z = p" "rep s y z \<longleftrightarrow> z = q" for z
      using p q rep_unique by blast+
    then show ?thesis
      unfolding connected_snoc member [OF xy(1)] member [OF xy(2)] conn [OF xy, symmetric] new [OF p] new [OF q]
      using ab by auto
  qed
  have "{x \<in> C. rep ?s x x} = {x \<in> C. rep s x x} - {a}"
  proof -
    have "rep ?s x x \<longleftrightarrow> rep s x x \<and> x \<noteq> a" if x: "x \<in> C" for x
    proof -
      obtain p where p: "rep s x p"
        using reps [OF x] by blast
      have "rep s x x \<longleftrightarrow> x = p"
        using p rep_unique by blast
      moreover have "x = b \<Longrightarrow> p = b"
        using p rep_root [OF b(2)] rep_unique by blast
      ultimately show ?thesis
        unfolding new [OF p] using ab by auto
    qed
    then show ?thesis by blast
  qed
  moreover have "card ({x \<in> C. rep s x x} - {a}) = card {x \<in> C. rep s x x} - 1" "0 < card {x \<in> C. rep s x x}"
    using fin a(1) rep_root [OF a(2)] by (auto simp: card_gt_0_iff)
  ultimately have "card {x \<in> C. rep ?s x x} + length (cs @ [e]) = card C"
    using count by simp
  moreover have "\<exists>r\<in>C. rep ?s x r" if x: "x \<in> C" for x
  proof -
    obtain r where r: "r \<in> C" "rep s x r"
      using reps [OF x] by blast
    then have "rep ?s x (?f r)" "?f r \<in> C"
      using link(2) b(1) by auto
    then show ?thesis by blast
  qed
  ultimately show ?thesis
    using link(1) fin conn' unfolding classes_def by simp
qed

text \<open>With one edge less than members, all are connected.\<close>

lemma all_connected:
  assumes cl: "classes C cs s" and "Suc (length cs) = card C" and "a \<in> C" "b \<in> C"
  shows "connected cs a b"
proof -
  have "card {a \<in> C. rep s a a} = 1"
    using assms(1,2) by (simp add: classes_def)
  then obtain z where z: "{a \<in> C. rep s a a} = {z}"
    by (auto simp: card_1_singleton_iff)
  have "rep s x z" if x: "x \<in> C" for x
  proof -
    obtain r where r: "r \<in> C" "rep s x r"
      using cl x by (auto simp: classes_def)
    then have "r \<in> {a \<in> C. rep s a a}"
      using rep_root by blast
    with z r(2) show ?thesis by simp
  qed
  then show ?thesis
    using cl assms(3,4) unfolding classes_def by blast
qed

lemma count_bound:
  assumes "classes C cs s" and "C \<noteq> {}"
  shows "length cs < card C"
proof -
  from assms(2) obtain a where "a \<in> C" by blast
  then obtain r where "r \<in> C" "rep s a r"
    using assms(1) unfolding classes_def by blast
  then have "r \<in> {a \<in> C. rep s a a}"
    using rep_root by blast
  then have "card {a \<in> C. rep s a a} > 0"
    using assms(1) by (auto simp: classes_def card_gt_0_iff)
  then show ?thesis
    using assms(1) by (simp add: classes_def)
qed

end

interpretation components: disjoint_classes GetComponent "\<lambda>a b. set_comp a b" ids_ok comp_of
proof
  fix g :: "('n, 't) ToplGraphState" and v r
  assume "ids_ok g" "comp_of g v r"
  then obtain g' where g': "GetComponent g v = Some (r, g')" "recomp g g'"
    by (rule GetComponent_spec)
  then have "ids_ok g'" "\<forall>w x. comp_of g w x \<longrightarrow> comp_of g' w x"
    using recomp_frame [OF g'(2), of ids_ok] set_comp_ids \<open>ids_ok g\<close> recomp_comp_of by blast+
  with g' show "\<exists>g'. GetComponent g v = Some (r, g') \<and> ids_ok g' \<and> (\<forall>w x. comp_of g w x \<longrightarrow> comp_of g' w x)"
    by blast
next
  fix g :: "('n, 't) ToplGraphState" and a b
  assume ok: "ids_ok g" and ab: "comp_of g a a" "comp_of g b b" "a \<noteq> b"
  have "comp_of (set_comp a b g) w (if x = a then b else x)" if "comp_of g w x" for w x
    using that link_roots [OF ab] unfolding comp_of_def [of g w x] by blast
  then show "ids_ok (set_comp a b g) \<and> (\<forall>w x. comp_of g w x \<longrightarrow> comp_of (set_comp a b g) w (if x = a then b else x))"
    using set_comp_ids [OF ok] by blast
qed (auto intro: comp_of_unique comp_of_root)

section \<open>The order of internal edges\<close>

definition cmp_key :: "('e \<Rightarrow> 'k::linorder) \<Rightarrow> 'e \<Rightarrow> 'e \<Rightarrow> rtl_cmp" where
  "cmp_key k x y = (if k x < k y then GenericLessThan else if k x > k y then GenericGreaterThan else GenericEqual)"

definition cmp_then :: "('e \<Rightarrow> 'e \<Rightarrow> rtl_cmp) \<Rightarrow> ('e \<Rightarrow> 'e \<Rightarrow> rtl_cmp) \<Rightarrow> 'e \<Rightarrow> 'e \<Rightarrow> rtl_cmp" where
  "cmp_then c d x y = (case c x y of GenericEqual \<Rightarrow> d x y | r \<Rightarrow> r)"

lemma cmp_key_compare: "rtl_compare (cmp_key k)"
  by unfold_locales (auto simp: cmp_key_def split: if_splits)

lemma cmp_then_less: "cmp_then c d x y = GenericLessThan \<longleftrightarrow> c x y = GenericLessThan \<or> c x y = GenericEqual \<and> d x y = GenericLessThan"
  and cmp_then_equal: "cmp_then c d x y = GenericEqual \<longleftrightarrow> c x y = GenericEqual \<and> d x y = GenericEqual"
  and cmp_then_greater: "cmp_then c d x y = GenericGreaterThan \<longleftrightarrow>
    c x y = GenericGreaterThan \<or> c x y = GenericEqual \<and> d x y = GenericGreaterThan"
  by (auto simp: cmp_then_def split: rtl_cmp.splits)

lemma cmp_then_compare:
  assumes "rtl_compare c" and "rtl_compare d"
  shows "rtl_compare (cmp_then c d)"
proof
  fix x y z
  note c = rtl_compare.rtl_flip [OF assms(1)] rtl_compare.rtl_equal_sym [OF assms(1)]
  note d = rtl_compare.rtl_flip [OF assms(2)] rtl_compare.rtl_equal_sym [OF assms(2)]
  show "cmp_then c d x y = GenericLessThan \<longleftrightarrow> cmp_then c d y x = GenericGreaterThan"
    unfolding cmp_then_less cmp_then_greater using c d by metis
  show "cmp_then c d y x = GenericEqual" if "cmp_then c d x y = GenericEqual"
    using that c d unfolding cmp_then_equal by blast
  show "cmp_then c d x z = GenericLessThan" if "cmp_then c d x y = GenericLessThan" "cmp_then c d y z = GenericLessThan"
    using that rtl_compare.rtl_less_trans [OF assms(1), of x y z] rtl_compare.rtl_less_trans [OF assms(2), of x y z]
      rtl_compare.rtl_equal_less [OF assms(1), of x y z] rtl_compare.rtl_less_equal [OF assms(1), of x y z]
      rtl_compare.rtl_equal_trans [OF assms(1), of x y z]
    unfolding cmp_then_less by blast
  show "cmp_then c d x z = GenericLessThan" if "cmp_then c d x y = GenericEqual" "cmp_then c d y z = GenericLessThan"
    using that rtl_compare.rtl_equal_less [OF assms(1), of x y z] rtl_compare.rtl_equal_less [OF assms(2), of x y z]
      rtl_compare.rtl_equal_trans [OF assms(1), of x y z]
    unfolding cmp_then_less cmp_then_equal by blast
  show "cmp_then c d x z = GenericEqual" if "cmp_then c d x y = GenericEqual" "cmp_then c d y z = GenericEqual"
    using that rtl_compare.rtl_equal_trans [OF assms(1)] rtl_compare.rtl_equal_trans [OF assms(2)]
    unfolding cmp_then_equal by blast
qed

lemma cmp_then_key:
  "cmp_then (cmp_key k) d =
     (\<lambda>x y. if k x < k y then GenericLessThan else if k x > k y then GenericGreaterThan else d x y)"
  by (auto simp: cmp_then_def cmp_key_def fun_eq_iff)

lemma cmp_then_flag:
  "cmp_then (cmp_key (\<lambda>x. \<not> p x)) d =
     (\<lambda>x y. if p x \<and> \<not> p y then GenericLessThan else if \<not> p x \<and> p y then GenericGreaterThan else d x y)"
  by (auto simp: cmp_then_def cmp_key_def fun_eq_iff)

lemma EdgeCompare_keys:
  "EdgeCompare vtxId =
     cmp_then (cmp_key (\<lambda>e. \<not> ie_redRed e)) (cmp_then (cmp_key (\<lambda>e. ri_cost (ie_ri e)))
      (cmp_then (cmp_key (\<lambda>e. - int (ie_duration e))) (cmp_then (cmp_key (\<lambda>e. vtxId (ie_v1 e)))
        (cmp_then (cmp_key (\<lambda>e. vtxId (ie_v2 e))) (cmp_key ie_edgeType)))))"
  unfolding cmp_then_flag cmp_then_key unfolding cmp_key_def neg_less_iff_less of_nat_less_iff
  by (intro ext) (rule EdgeCompare_def)

interpretation edge_order: rtl_compare "EdgeCompare vtxId"
  unfolding EdgeCompare_keys by (intro cmp_then_compare cmp_key_compare)

section \<open>The loop\<close>

definition out_edge :: "('n, 't) ToplGraphState \<Rightarrow> ToplInternalEdge \<Rightarrow> 'n TOPL_MULTI_EDGE" where
  "out_edge g e =
     \<lparr>e_edgeType = ie_edgeType e, e_ri = ie_ri e, e_fDirectedEdge = False,
      e_vertexNames = [\<lparr>nm_name = Some (v_vertexName (vtx g (ie_v1 e))), nm_reserved = ie_v1 e\<rparr>,
                       \<lparr>nm_name = Some (v_vertexName (vtx g (ie_v2 e))), nm_reserved = ie_v2 e\<rparr>]\<rparr>"

text \<open>The output edges at a vertex.\<close>

definition incident :: "vref \<Rightarrow> eref list \<Rightarrow> ToplInternalEdge list \<Rightarrow> eref list" where
  "incident v refs cs = map fst (filter (\<lambda>(ref, e). ie_v1 e = v \<or> ie_v2 e = v) (zip refs cs))"

text \<open>An internal edge that can become an output edge.\<close>

definition ie_valid :: "ToplInternalEdge \<Rightarrow> bool" where
  "ie_valid e \<longleftrightarrow> ie_edgeType e \<le> MAX_EDGE_TYPE \<and> ToplScheduleValid (ri_schedule (ie_ri e))"

text \<open>The fields of a vertex this phase leaves alone.\<close>

definition site where
  "site r = (v_vtxId r, v_vertexName r, v_color r, v_acceptRedRed r, v_acceptBlack r)"

text \<open>The members \<open>C\<close> and the edges \<open>cs\<close> found so far; \<open>G\<close> is the graph before the phase.\<close>

definition forest_inv ::
  "('n, 't) ToplGraphState \<Rightarrow> vref set \<Rightarrow> ToplInternalEdge list \<Rightarrow> eref DynArray \<Rightarrow> ('n, 't) ToplGraphState \<Rightarrow> bool" where
  "forest_inv G C cs out g \<longleftrightarrow>
     components.classes C cs g \<and> C \<subseteq> {..<g_numVertices g} \<and> g_numVertices g = g_numVertices G \<and>
     (\<forall>v<g_numVertices g. site (vtx g v) = site (vtx G v)) \<and>
     dyn_array_ok out \<and> length (dyn_list out) = length cs \<and> distinct (dyn_list out) \<and>
     (\<forall>ref\<in>set (dyn_list out). ref < length (g_store g)) \<and> map (edge g) (dyn_list out) = map (out_edge G) cs \<and>
     (\<forall>v<g_numVertices g. dyn_array_ok (v_edgeList (vtx g v)) \<and> dyn_list (v_edgeList (vtx g v)) = incident v (dyn_list out) cs)"

lemma recomp_vtx:
  fixes g g' :: "('n, 't) ToplGraphState"
  assumes "recomp g g'" and "\<And>r c. fld (r\<lparr>v_componentId := c\<rparr>) = fld r"
  shows "fld (vtx g' v) = fld (vtx g v)"
proof -
  have "fld (vtx (set_comp u r x) v) = fld (vtx x v)" for u r and x :: "('n, 't) ToplGraphState"
    by (rule vtx_upd_field) (rule assms(2))
  then show ?thesis
    by (intro recomp_frame [OF assms(1), of "\<lambda>x. fld (vtx x v) = fld (vtx g v)"]) simp_all
qed

lemma recomp_graph:
  assumes "recomp g g'"
  shows "g_store g' = g_store g \<and> g_numVertices g' = g_numVertices g"
  by (rule recomp_frame [OF assms]) simp_all

lemma forest_inv_recomp:
  assumes "forest_inv G C cs out g" and rec: "recomp g g'" and "components.classes C cs g'"
  shows "forest_inv G C cs out g'"
proof -
  have "site (vtx g' v) = site (vtx g v)" "v_edgeList (vtx g' v) = v_edgeList (vtx g v)" for v
    using recomp_vtx [OF rec, of site] recomp_vtx [OF rec, of v_edgeList] by (simp_all add: site_def)
  then show ?thesis
    using assms(1,3) recomp_graph [OF rec] unfolding forest_inv_def by auto
qed

lemma GetComponent_forest:
  assumes inv: "forest_inv G C cs out g" and v: "v \<in> C"
  obtains r g' where "GetComponent g v = Some (r, g')" "r \<in> C" "comp_of g' v r" "forest_inv G C cs out g'"
    "\<forall>w x. comp_of g w x \<longrightarrow> comp_of g' w x"
proof -
  have cl: "components.classes C cs g"
    using inv by (simp add: forest_inv_def)
  from components.find_classes [OF cl v] obtain r g' where g': "GetComponent g v = Some (r, g')" "r \<in> C"
      "comp_of g v r" "comp_of g' v r" "components.classes C cs g'" "\<forall>w x. comp_of g w x \<longrightarrow> comp_of g' w x"
    by blast
  have "ids_ok g"
    using cl by (simp add: components.classes_def)
  from GetComponent_spec [OF this g'(3)] g'(1) have "recomp g g'"
    by auto
  from that [OF g'(1,2,4) forest_inv_recomp [OF inv this g'(5)]] g'(6) show ?thesis
    by simp
qed

lemma comp_of_cong:
  fixes g g' :: "('n, 't) ToplGraphState"
  assumes n: "g_numVertices g' = g_numVertices g"
    and id: "\<And>v. v < g_numVertices g \<Longrightarrow> v_componentId (vtx g' v) = v_componentId (vtx g v)"
  shows "comp_of g' = comp_of g"
proof -
  have mono: "up_tree x v r n \<Longrightarrow> up_tree y v r n"
    if "g_numVertices y = g_numVertices x" "\<And>v. v < g_numVertices x \<Longrightarrow> v_componentId (vtx y v) = v_componentId (vtx x v)"
    for x y :: "('n, 't) ToplGraphState" and v r n
    by (induction rule: up_tree.induct) (use that in \<open>auto intro: up_tree.intros\<close>)
  have "up_tree g' v r k \<longleftrightarrow> up_tree g v r k" for v r k
    using mono [of g' g v r k] mono [of g g' v r k] n id by auto
  then show ?thesis
    by (simp add: comp_of_def fun_eq_iff)
qed

lemma classes_cong:
  assumes "ids_ok g' = ids_ok g" and "comp_of g' = comp_of g"
  shows "components.classes C cs g' = components.classes C cs g"
  unfolding components.classes_def assms ..

text \<open>Adding an output edge keeps components and records the edge at both ends.\<close>

lemma add_to_edge_list_simps:
  "g_numVertices (add_to_edge_list e v g) = g_numVertices g" "g_store (add_to_edge_list e v g) = g_store g"
  "site (vtx (add_to_edge_list e v g) w) = site (vtx g w)"
  "v_componentId (vtx (add_to_edge_list e v g) w) = v_componentId (vtx g w)"
proof -
  show "site (vtx (add_to_edge_list e v g) w) = site (vtx g w)"
    unfolding add_to_edge_list_def by (rule vtx_upd_field) (simp add: site_def)
qed (simp_all add: add_to_edge_list_def vtx_upd_field [where fld = v_componentId])

lemma add_to_edge_list_edges:
  assumes "w < g_numVertices g" "v < g_numVertices g" "dyn_array_ok (v_edgeList (vtx g w))"
  shows "dyn_array_ok (v_edgeList (vtx (add_to_edge_list e v g) w))"
    "dyn_list (v_edgeList (vtx (add_to_edge_list e v g) w)) = dyn_list (v_edgeList (vtx g w)) @ (if w = v then [e] else [])"
  using assms by (auto simp: add_to_edge_list_def vtx_upd_if)

lemma incident_snoc:
  "length refs = length cs \<Longrightarrow>
   incident v (refs @ [ref]) (cs @ [e]) = incident v refs cs @ (if ie_v1 e = v \<or> ie_v2 e = v then [ref] else [])"
  by (simp add: incident_def)

lemma AddOutEdge_forest:
  assumes inv: "forest_inv G C cs out g" and e: "ie_v1 e \<in> C" "ie_v2 e \<in> C" "ie_valid e"
    and r: "r1 \<in> C" "comp_of g (ie_v1 e) r1" "r2 \<in> C" "comp_of g (ie_v2 e) r2" "r1 \<noteq> r2"
  shows "\<exists>g'. AddOutEdge g out e = Inr (g', DynArrayAppend out (Some (length (g_store g)))) \<and>
    forest_inv G C (cs @ [e]) (DynArrayAppend out (Some (length (g_store g)))) (set_comp r1 r2 g')"
proof -
  let ?ref = "length (g_store g)" and ?v = "ie_v1 e" and ?w = "ie_v2 e"
  have cl: "components.classes C cs g" and n: "g_numVertices g = g_numVertices G" and sub: "C \<subseteq> {..<g_numVertices g}"
    and site: "\<And>v. v < g_numVertices g \<Longrightarrow> site (vtx g v) = site (vtx G v)"
    and dist: "distinct (dyn_list out)"
    and out: "dyn_array_ok out" "length (dyn_list out) = length cs" "\<forall>ref\<in>set (dyn_list out). ref < ?ref"
      "map (edge g) (dyn_list out) = map (out_edge G) cs"
    and el: "\<And>v. v < g_numVertices g \<Longrightarrow> dyn_array_ok (v_edgeList (vtx g v)) \<and> dyn_list (v_edgeList (vtx g v)) = incident v (dyn_list out) cs"
    using inv by (auto simp: forest_inv_def)
  have ids: "ids_ok g"
    using cl by (simp add: components.classes_def)
  have vw: "?v < g_numVertices g" "?w < g_numVertices g" "?v \<noteq> ?w"
    using e(1,2) sub r comp_of_unique [of g ?w r1 r2] by auto
  define g0 where "g0 = g\<lparr>g_store := g_store g @ [out_edge G e]\<rparr>"
  define g1 where "g1 = add_to_edge_list ?ref ?w (add_to_edge_list ?ref ?v g0)"
  have "v_vertexName (vtx g ?v) = v_vertexName (vtx G ?v)" "v_vertexName (vtx g ?w) = v_vertexName (vtx G ?w)"
    using site vw by (simp_all add: site_def)
  then have ee: "(CreateMultiEdge 2 (ie_ri e))
      \<lparr>e_vertexNames := [\<lparr>nm_name = Some (v_vertexName (vtx g ?v)), nm_reserved = v_vtxId (vtx g ?v)\<rparr>,
                        \<lparr>nm_name = Some (v_vertexName (vtx g ?w)), nm_reserved = v_vtxId (vtx g ?w)\<rparr>],
       e_edgeType := ie_edgeType e, e_ri := CopyReplInfo (ie_ri e)\<rparr> = out_edge G e"
    using ids vw by (simp add: CreateMultiEdge_def CopyReplInfo_def out_edge_def ids_ok_def)
  have "CheckMultiEdge g0 (Some ?ref) = Inr ?ref"
    using e(3) by (simp add: CheckMultiEdge_def g0_def out_edge_def ie_valid_def not_less)
  then have add: "AddOutEdge g out e = Inr (g1, DynArrayAppend out (Some ?ref))"
    by (simp add: AddOutEdge_def Let_def ee g0_def [symmetric] g1_def)
  have g1: "g_numVertices g1 = g_numVertices g" "g_store g1 = g_store g @ [out_edge G e]"
    "site (vtx g1 v) = site (vtx g v)" "v_componentId (vtx g1 v) = v_componentId (vtx g v)" for v
    by (simp_all add: g1_def add_to_edge_list_simps) (simp_all add: g0_def)
  have "dyn_array_ok (v_edgeList (vtx g1 v)) \<and> dyn_list (v_edgeList (vtx g1 v)) = incident v (dyn_list out @ [?ref]) (cs @ [e])"
    if "v < g_numVertices g" for v
    unfolding g1_def incident_snoc [OF out(2)] using el [OF that] that vw
    by (auto simp: add_to_edge_list_edges add_to_edge_list_simps) (auto simp: g0_def add_to_edge_list_edges add_to_edge_list_simps)
  moreover have "components.classes C (cs @ [e]) (set_comp r1 r2 g1)"
  proof (rule components.link_classes [OF _ r(1) _ r(3) _ e(1,2) r(5)])
    have comp: "comp_of g1 = comp_of g"
      by (rule comp_of_cong) (simp_all add: g1)
    moreover have "ids_ok g1 = ids_ok g"
      using g1(1,3) by (auto simp: ids_ok_def site_def)
    ultimately show "components.classes C cs g1"
      using classes_cong cl by blast
    show "comp_of g1 ?v r1" "comp_of g1 ?w r2"
      using r by (simp_all add: comp)
  qed
  moreover have "map ((!) (g_store g @ [out_edge G e])) (dyn_list out) = map (out_edge G) cs"
    using out(3,4) by (auto simp: nth_append intro!: trans [OF map_cong [OF refl] out(4)])
  moreover have "site (vtx (set_comp r1 r2 g1) v) = site (vtx g1 v)" "v_edgeList (vtx (set_comp r1 r2 g1) v) = v_edgeList (vtx g1 v)" for v
    by (rule vtx_upd_field, simp add: site_def)+
  ultimately have "forest_inv G C (cs @ [e]) (DynArrayAppend out (Some ?ref)) (set_comp r1 r2 g1)"
    unfolding forest_inv_def using out(1-3) dist sub n site by (auto simp: g1 less_Suc_eq)
  with add show ?thesis
    by blast
qed

lemma vtx_id_ok: "ids_ok g \<Longrightarrow> vtx_id g = (\<lambda>v. v)"
  by (auto simp: vtx_id_def ids_ok_def)

lemma greedy_done: "(\<And>e. e \<in> set es \<Longrightarrow> connected cs (ie_v1 e) (ie_v2 e)) \<Longrightarrow> greedy cs es = cs"
  by (induction es) auto

lemma forest_ids: "forest_inv G C cs out g \<Longrightarrow> ids_ok g"
  by (simp add: forest_inv_def components.classes_def)

lemma kruskal_edge_spec:
  assumes inv: "forest_inv G C cs out g" and e: "ie_v1 e \<in> C" "ie_v2 e \<in> C" "ie_valid e"
  shows "\<exists>g' out'. kruskal_edge g (of_nat (length cs)) out e = Some (Inr (g', out', of_nat (length (greedy cs [e])))) \<and>
    forest_inv G C (greedy cs [e]) out' g'"
proof -
  obtain r1 g1 where g1: "GetComponent g (ie_v1 e) = Some (r1, g1)" "r1 \<in> C"
      "comp_of g1 (ie_v1 e) r1" "forest_inv G C cs out g1"
    using inv e(1) by (rule GetComponent_forest)
  obtain r2 g2 where g2: "GetComponent g1 (ie_v2 e) = Some (r2, g2)" "r2 \<in> C"
      "comp_of g2 (ie_v2 e) r2" "forest_inv G C cs out g2" "\<forall>w x. comp_of g1 w x \<longrightarrow> comp_of g2 w x"
    using g1(4) e(2) by (rule GetComponent_forest)
  have r1: "comp_of g2 (ie_v1 e) r1"
    by (rule g2(5) [rule_format, OF g1(3)])
  have conn: "connected cs (ie_v1 e) (ie_v2 e) \<longleftrightarrow> r1 = r2"
  proof -
    have "(\<exists>r. comp_of g2 (ie_v1 e) r \<and> comp_of g2 (ie_v2 e) r) \<longleftrightarrow> connected cs (ie_v1 e) (ie_v2 e)"
      using g2(4) e(1,2) by (simp add: forest_inv_def components.classes_def)
    moreover have "comp_of g2 (ie_v1 e) x \<longleftrightarrow> x = r1" "comp_of g2 (ie_v2 e) x \<longleftrightarrow> x = r2" for x
      using comp_of_unique [OF r1] comp_of_unique [OF g2(3)] r1 g2(3) by blast+
    ultimately show ?thesis by simp
  qed
  show ?thesis
  proof (cases "r1 = r2")
    case True
    then show ?thesis
      using conn g1(1) g2(1,4) by (simp add: kruskal_edge_def)
  next
    case False
    from AddOutEdge_forest [OF g2(4) e g1(2) r1 g2(2,3) False] obtain g3 where
      "AddOutEdge g2 out e = Inr (g3, DynArrayAppend out (Some (length (g_store g2))))"
      "forest_inv G C (cs @ [e]) (DynArrayAppend out (Some (length (g_store g2)))) (set_comp r1 r2 g3)"
      by blast
    then show ?thesis
      using False conn g1(1) g2(1) by (simp add: kruskal_edge_def add.commute)
  qed
qed

lemma kruskal_loop_spec:
  assumes table: "rtl_generic_table (EdgeCompare (\<lambda>v. v)) TI ok elems" and "ok t" and "elems t = es"
    and inv: "forest_inv G C cs out g" and ne: "C \<noteq> {}" and n: "unat n = card C - 1"
    and "\<forall>e\<in>set es. ie_v1 e \<in> C \<and> ie_v2 e \<in> C \<and> ie_valid e"
  shows "\<exists>g' t' out'. kruskal_loop TI n g t (of_nat (length cs)) out = Some (Inr (g', t', out')) \<and> ok t' \<and>
    forest_inv G C (greedy cs es) out' g'"
  using assms(2-4,7)
proof (induction es arbitrary: t cs out g)
  case Nil
  then have "RtlIsGenericTableEmpty TI t"
    by (simp add: rtl_generic_table.is_empty [OF table])
  with Nil show ?case
    by (subst kruskal_loop.simps) simp
next
  case (Cons e es)
  obtain t1 where t1: "RtlFirstElement TI t = (t1, Some e)" "ok t1" "elems t1 = e # es"
    using rtl_generic_table.first_some [OF table Cons.prems(1,2)] Cons.prems(2) by auto
  have e: "ie_v1 e \<in> C" "ie_v2 e \<in> C" "ie_valid e"
    using Cons.prems(4) by simp_all
  from kruskal_edge_spec [OF Cons.prems(3) e] obtain g' out' where
    g': "kruskal_edge g (of_nat (length cs)) out e = Some (Inr (g', out', of_nat (length (greedy cs [e]))))"
      "forest_inv G C (greedy cs [e]) out' g'"
    by blast
  let ?cs = "greedy cs [e]" and ?t = "RtlDeleteElementGenericTable TI (EdgeCompare (vtx_id g')) t1 e"
  have t: "ok ?t" "elems ?t = es"
    using rtl_generic_table.delete_first [OF table t1(2,3) edge_order.rtl_refl]
    by (simp_all add: vtx_id_ok [OF forest_ids [OF g'(2)]])
  have nonempty: "\<not> RtlIsGenericTableEmpty TI t"
    by (simp add: rtl_generic_table.is_empty [OF table Cons.prems(1)] Cons.prems(2))
  have greedy: "greedy cs (e # es) = greedy ?cs es"
    by simp
  have cl: "components.classes C ?cs g'"
    using g'(2) by (simp add: forest_inv_def)
  show ?case
  proof (cases "of_nat (length ?cs) = n")
    case True
    have "length ?cs < card C"
      using components.count_bound [OF cl ne] .
    moreover have "length ?cs < 2 ^ 32"
      using calculation n unat_dword_less [of n] by linarith
    then have "unat (of_nat (length ?cs) :: dword) = length ?cs"
      by (simp add: unat_of_nat)
    ultimately have "Suc (length ?cs) = card C"
      using True n by auto
    from components.all_connected [OF cl this] have "greedy ?cs es = ?cs"
      using Cons.prems(4) by (intro greedy_done) auto
    with g' t True show ?thesis
      unfolding greedy by (subst kruskal_loop.simps) (simp add: nonempty t1(1) Let_def del: greedy.simps)
  next
    case False
    from Cons.IH [OF t g'(2)] Cons.prems(4) obtain g'' t'' out'' where
      "kruskal_loop TI n g' ?t (of_nat (length ?cs)) out' = Some (Inr (g'', t'', out''))" "ok t''"
      "forest_inv G C (greedy ?cs es) out'' g''"
      by auto
    with g'(1) False show ?thesis
      unfolding greedy by (subst kruskal_loop.simps) (simp add: nonempty t1(1) Let_def del: greedy.simps)
  qed
qed

section \<open>The greedy forest spans and is minimal\<close>

text \<open>No edge of a forest closes a cycle with those before it.\<close>

definition acyclic_edges :: "ToplInternalEdge list \<Rightarrow> bool" where
  "acyclic_edges cs \<longleftrightarrow> (\<forall>i<length cs. \<not> connected (take i cs) (ie_v1 (cs ! i)) (ie_v2 (cs ! i)))"

lemma acyclic_snoc: "acyclic_edges (cs @ [e]) \<longleftrightarrow> acyclic_edges cs \<and> \<not> connected cs (ie_v1 e) (ie_v2 e)"
  by (auto simp: acyclic_edges_def less_Suc_eq nth_append)

lemma greedy_acyclic: "acyclic_edges cs \<Longrightarrow> acyclic_edges (greedy cs es)"
  by (induction cs es rule: greedy.induct) (auto simp: acyclic_snoc)

lemma greedy_subset: "set cs \<subseteq> set (greedy cs es) \<and> set (greedy cs es) \<subseteq> set cs \<union> set es"
  by (induction cs es rule: greedy.induct) auto

text \<open>Every edge is spanned by edges that were taken before or are not greater.\<close>

lemma greedy_spans:
  assumes "sorted_wrt R es" and "e \<in> set es"
  shows "connected (filter (\<lambda>c. c \<in> set cs \<or> R c e \<or> c = e) (greedy cs es)) (ie_v1 e) (ie_v2 e)"
  using assms
proof (induction cs es rule: greedy.induct)
  case (2 cs x es)
  let ?cs = "if connected cs (ie_v1 x) (ie_v2 x) then cs else cs @ [x]"
  show ?case
  proof (cases "e = x")
    case True
    have sub: "set ?cs \<subseteq> set (greedy ?cs es)"
      using greedy_subset by blast
    have "connected ?cs (ie_v1 x) (ie_v2 x)"
      using connected_edge [of x "cs @ [x]"] by simp
    then show ?thesis
      unfolding True by (rule connected_mono) (use sub in \<open>auto split: if_splits\<close>)
  next
    case False
    then have e: "e \<in> set es"
      using 2 by simp
    have "connected (filter (\<lambda>c. c \<in> set ?cs \<or> R c e \<or> c = e) (greedy ?cs es)) (ie_v1 e) (ie_v2 e)"
      using 2 e by (cases "connected cs (ie_v1 x) (ie_v2 x)") simp_all
    then show ?thesis
      by (rule connected_mono) (use 2 e in \<open>auto split: if_splits\<close>)
  qed
qed simp

lemma greedy_connected: "connected (greedy [] es) a b \<longleftrightarrow> connected es a b"
proof
  show "connected es a b" if "connected (greedy [] es) a b"
    using that by (rule connected_mono) (use greedy_subset [of "[]" es] in simp)
  have edge: "connected (greedy [] es) (ie_v1 e) (ie_v2 e)" if "e \<in> set es" for e
    by (rule connected_mono [OF greedy_spans [where R = "\<lambda>_ _. True" and cs = "[]"]]) (use that in \<open>auto simp: sorted_wrt_iff_nth_less\<close>)
  show "connected (greedy [] es) a b" if "connected es a b"
    using that by (rule connected_least) (use edge in \<open>blast intro: connected_sym connected_trans connected_refl\<close>)+
qed

section \<open>The start of the phase\<close>

lemma connected_Nil: "connected [] a b \<longleftrightarrow> a = b"
proof
  show "a = b" if "connected [] a b"
    using that by (rule connected_least) auto
qed auto

definition colored :: "('n, 't) ToplGraphState \<Rightarrow> vref set" where
  "colored g = {v. v < g_numVertices g \<and> v_color (vtx g v) \<noteq> COLOR_WHITE}"

lemma ClearEdgeLists_vtx: "v < g_numVertices g \<Longrightarrow>
    vtx (ClearEdgeLists g) v = (vtx g v)\<lparr>v_edgeList := DynArrayClear (v_edgeList (vtx g v))\<rparr>"
  by (simp add: ClearEdgeLists_def)

lemma classes_start:
  assumes "ids_ok g" and "C \<subseteq> {..<g_numVertices g}" and "\<forall>v\<in>C. v_componentId (vtx g v) = int v"
  shows "components.classes C [] g"
proof -
  have "comp_of g v v" if "v \<in> C" for v
    using assms(2,3) that up_root [of v g] by (auto simp: comp_of_def)
  then have rep: "comp_of g v r \<longleftrightarrow> r = v" if "v \<in> C" for v r
    using that comp_of_unique by blast
  have "{a \<in> C. comp_of g a a} = C" "finite C"
    using rep assms(2) finite_subset [of C] by auto
  then show ?thesis
    unfolding components.classes_def using assms(1) by (auto simp: rep connected_Nil)
qed

lemma forest_start:
  assumes ok: "graph_ok g" and C: "C \<subseteq> {..<g_numVertices g}" "\<forall>v\<in>C. v_componentId (vtx g v) = int v"
  shows "forest_inv g C [] (DynArrayInit sizeof_ptr) (ClearEdgeLists g)"
proof -
  have n: "g_numVertices (ClearEdgeLists g) = g_numVertices g"
    by (simp add: ClearEdgeLists_def)
  have "components.classes C [] (ClearEdgeLists g)"
    by (rule classes_start) (use ok C in \<open>auto simp: n ids_ok_def ClearEdgeLists_vtx graph_ok_def\<close>)
  then show ?thesis
    using ok C(1) by (auto simp: forest_inv_def n ClearEdgeLists_vtx site_def incident_def graph_ok_def)
qed

section \<open>Properties\<close>

text \<open>C4. \<^verbatim>\<open>Kruskal\<close> terminates and refines the greedy construction: on a well-formed graph whose
  colored vertices are their own components, a table of internal edges between colored vertices and one
  edge less expected than there are colored vertices, the output edges are, in order, those of the greedy
  forest over the sorted internal edges, although the loop stops as soon as it has counted enough of
  them; two colored vertices are in one component exactly when the internal edges connect them; and the
  edge list of every vertex holds its output edges.\<close>

theorem Kruskal_refines_greedy:
  assumes "rtl_generic_table (EdgeCompare (\<lambda>v. v)) TI ok elems" and "ok t" and "graph_ok g" and "colored g \<noteq> {}"
    and "\<forall>v\<in>colored g. v_componentId (vtx g v) = int v" and "unat numExpectedTreeEdges = card (colored g) - 1"
    and "\<forall>e\<in>set (elems t). ie_v1 e \<in> colored g \<and> ie_v2 e \<in> colored g \<and> ie_valid e"
  shows "\<exists>g' t' out. Kruskal TI g t numExpectedTreeEdges (DynArrayInit sizeof_ptr) = Some (Inr (g', t', out)) \<and>
    map (edge g') (dyn_list out) = map (out_edge g) (greedy [] (elems t)) \<and>
    (\<forall>v\<in>colored g. \<forall>w\<in>colored g. (\<exists>r. comp_of g' v r \<and> comp_of g' w r) \<longleftrightarrow> connected (elems t) v w) \<and>
    (\<forall>v<g_numVertices g. dyn_list (v_edgeList (vtx g' v)) = incident v (dyn_list out) (greedy [] (elems t)))"
proof -
  have "colored g \<subseteq> {..<g_numVertices g}"
    by (auto simp: colored_def)
  from forest_start [OF assms(3) this assms(5)]
  have "forest_inv g (colored g) [] (DynArrayInit sizeof_ptr) (ClearEdgeLists g)" .
  from kruskal_loop_spec [OF assms(1,2) refl this assms(4,6,7)]
  obtain g' t' out where k: "kruskal_loop TI numExpectedTreeEdges (ClearEdgeLists g) t 0 (DynArrayInit sizeof_ptr) = Some (Inr (g', t', out))"
      "forest_inv g (colored g) (greedy [] (elems t)) out g'"
    by auto
  then show ?thesis
    by (auto simp: Kruskal_def forest_inv_def components.classes_def greedy_connected)
qed

text \<open>C5. The edges \<^verbatim>\<open>Kruskal\<close> puts out form a minimum spanning forest for the order \<^verbatim>\<open>EdgeCompare\<close> (edges
  between red vertices first, then by cost, then by schedule duration): no output edge closes a cycle
  with those before it, and the ends of every internal edge are connected by output edges that are less
  than it, or by the edge itself.\<close>

theorem Kruskal_minimum_forest:
  assumes "rtl_generic_table (EdgeCompare (\<lambda>v. v)) TI ok elems" and "ok t" and "graph_ok g" and "colored g \<noteq> {}"
    and "\<forall>v\<in>colored g. v_componentId (vtx g v) = int v" and "unat numExpectedTreeEdges = card (colored g) - 1"
    and "\<forall>e\<in>set (elems t). ie_v1 e \<in> colored g \<and> ie_v2 e \<in> colored g \<and> ie_valid e"
  shows "\<exists>g' t' out cs. Kruskal TI g t numExpectedTreeEdges (DynArrayInit sizeof_ptr) = Some (Inr (g', t', out)) \<and>
    map (edge g') (dyn_list out) = map (out_edge g) cs \<and> set cs \<subseteq> set (elems t) \<and> length cs < card (colored g) \<and>
    acyclic_edges cs \<and>
    (\<forall>e\<in>set (elems t). connected (filter (\<lambda>c. EdgeCompare (\<lambda>v. v) c e = GenericLessThan \<or> c = e) cs) (ie_v1 e) (ie_v2 e))"
proof -
  let ?cs = "greedy [] (elems t)"
  have C: "colored g \<subseteq> {..<g_numVertices g}"
    by (auto simp: colored_def)
  from kruskal_loop_spec [OF assms(1,2) refl forest_start [OF assms(3) C assms(5)] assms(4,6,7)]
  obtain g' t' out where k: "kruskal_loop TI numExpectedTreeEdges (ClearEdgeLists g) t 0 (DynArrayInit sizeof_ptr) = Some (Inr (g', t', out))"
      "forest_inv g (colored g) ?cs out g'"
    by auto
  have "length ?cs < card (colored g)"
    using k(2) components.count_bound [OF _ assms(4)] by (auto simp: forest_inv_def)
  moreover have "acyclic_edges ?cs" "set ?cs \<subseteq> set (elems t)"
    using greedy_acyclic [of "[]"] greedy_subset [of "[]"] by (auto simp: acyclic_edges_def)
  moreover have "connected (filter (\<lambda>c. EdgeCompare (\<lambda>v. v) c e = GenericLessThan \<or> c = e) ?cs) (ie_v1 e) (ie_v2 e)"
    if "e \<in> set (elems t)" for e
    using greedy_spans [OF rtl_generic_table.elems_sorted [OF assms(1,2)] that, of "[]"] by (simp add: rtl_less_def)
  ultimately show ?thesis
    using k by (auto simp: Kruskal_def forest_inv_def intro!: exI [of _ ?cs])
qed

text \<open>\<^verbatim>\<open>GetComponent\<close> terminates on a vertex whose component ids lead to a root, returns that root, and
  its path compression points the vertex at the root, moves no vertex to another component and changes
  no field but component ids.\<close>

theorem GetComponent_correct:
  assumes "ids_ok g" and "comp_of g v r"
  shows "\<exists>g'. GetComponent g v = Some (r, g') \<and> v_componentId (vtx g' v) = int r \<and>
    (\<forall>w s. comp_of g w s \<longrightarrow> comp_of g' w s) \<and> g_numVertices g' = g_numVertices g \<and> g_store g' = g_store g \<and>
    (\<forall>w. (vtx g' w)\<lparr>v_componentId := 0\<rparr> = (vtx g w)\<lparr>v_componentId := 0\<rparr>)"
proof -
  obtain g' where g': "GetComponent g v = Some (r, g')" "recomp g g'"
    using assms by (rule GetComponent_spec)
  have "v_componentId (vtx g' v) = int r"
    using assms g'(1) by (rule GetComponent_compressed)
  then show ?thesis
    using g' recomp_graph [OF g'(2)] recomp_comp_of [OF g'(2)]
      recomp_vtx [OF g'(2), of "\<lambda>r. r\<lparr>v_componentId := 0\<rparr>"] by auto
qed

section \<open>A concrete instance\<close>

interpretation list_edges: rtl_generic_table "EdgeCompare (\<lambda>v. v)" list_table
  "sorted_wrt (rtl_less (EdgeCompare (\<lambda>v. v)))" "\<lambda>t. t"
  by (rule list_table_generic) (rule edge_order.rtl_compare_axioms)

abbreviation red_root :: "vref \<Rightarrow> 'n ToplVertex \<Rightarrow> 'n ToplVertex" where
  "red_root v r \<equiv> r\<lparr>v_color := COLOR_RED, v_componentId := int v\<rparr>"

definition two_red :: "(nat, ToplSched list) ToplGraphState" where
  "two_red = upd_vtx 1 (red_root 1) (upd_vtx 0 (red_root 0) two_sites)"

definition red_edge :: ToplInternalEdge where
  "red_edge = \<lparr>ie_v1 = 0, ie_v2 = 1, ie_redRed = True,
     ie_ri = \<lparr>ri_cost = 7, ri_repIntvl = 15, ri_options = 0, ri_schedule = None\<rparr>, ie_edgeType = 0\<rparr>"

lemma two_red_facts:
  "graph_ok two_red" "g_numVertices two_red = 2" "colored two_red = {0, 1}"
  "\<forall>v\<in>colored two_red. v_componentId (vtx two_red v) = int v" "ids_ok two_red"
proof -
  have n: "g_numVertices two_sites = 2"
    by (simp add: two_sites_def sample_graph_def)
  show "g_numVertices two_red = 2"
    by (simp add: two_red_def n)
  show ok: "graph_ok two_red"
    unfolding two_red_def using two_sites_ok(1) by (intro graph_ok_upd_vtx) (simp_all add: arcs_ok_def)
  show "ids_ok two_red"
    using ok by (simp add: graph_ok_def ids_ok_def)
  have v: "vtx two_red 0 = red_root 0 (vtx two_sites 0)" "vtx two_red 1 = red_root 1 (vtx two_sites 1)"
    by (simp_all add: two_red_def n)
  show c: "colored two_red = {0, 1}"
    using v by (auto simp: colored_def \<open>g_numVertices two_red = 2\<close> less_2_cases_iff)
  show "\<forall>v\<in>colored two_red. v_componentId (vtx two_red v) = int v"
    unfolding c using v by simp
qed

lemma red_edge_ok:
  "\<forall>e\<in>set [red_edge]. ie_v1 e \<in> colored two_red \<and> ie_v2 e \<in> colored two_red \<and> ie_valid e"
  by (simp add: two_red_facts(3) red_edge_def ie_valid_def MAX_EDGE_TYPE_def ToplScheduleValid_def)

theorem Kruskal_refines_greedy_witness:
  "\<exists>g' t' out. Kruskal list_table two_red [red_edge] 1 (DynArrayInit sizeof_ptr) = Some (Inr (g', t', out)) \<and>
     map (edge g') (dyn_list out) = [out_edge two_red red_edge]"
proof -
  have "\<not> connected [] (ie_v1 red_edge) (ie_v2 red_edge)"
    by (simp add: connected_Nil red_edge_def)
  then show ?thesis
    using Kruskal_refines_greedy [OF list_edges.rtl_generic_table_axioms _ two_red_facts(1) _ two_red_facts(4) _ red_edge_ok, of 1]
    by (auto simp: two_red_facts(3))
qed

theorem Kruskal_minimum_forest_witness:
  "\<exists>g' t' out. Kruskal list_table two_red [red_edge] 1 (DynArrayInit sizeof_ptr) = Some (Inr (g', t', out)) \<and>
     length (dyn_list out) < 2"
  using Kruskal_minimum_forest [OF list_edges.rtl_generic_table_axioms _ two_red_facts(1) _ two_red_facts(4) _ red_edge_ok, of 1]
  by (auto simp: two_red_facts(3) dest: map_eq_imp_length_eq)

theorem GetComponent_correct_witness: "\<exists>g'. GetComponent two_red 0 = Some (0, g') \<and> v_componentId (vtx g' 0) = int 0"
proof -
  have "comp_of two_red 0 0"
    using up_root [of 0 two_red] two_red_facts(2-4) by (auto simp: comp_of_def)
  from GetComponent_correct [OF two_red_facts(5) this] show ?thesis
    by blast
qed

end
