(* ===== verification/Topl_Output.thy ===== *)
theory Topl_Output
  imports Topl_Kruskal
begin

text \<open>
  The third phase of the spanning-tree algorithm of \<^verbatim>\<open>ds/src/common/w32topl/stalg.c\<close>: the distance of
  every vertex of the forest to a red vertex, the components, the edges handed to the caller, and the
  entry point that runs the three phases. A loop that does not end is the value \<open>None\<close>; an exception
  is \<open>Some (Inl _)\<close>.
\<close>

section \<open>Sequencing\<close>

definition bindO :: "'a topl option \<Rightarrow> ('a \<Rightarrow> 'b topl option) \<Rightarrow> 'b topl option" where
  "bindO m f = (case m of None \<Rightarrow> None | Some (Inl ex) \<Rightarrow> Some (Inl ex) | Some (Inr x) \<Rightarrow> f x)"

lemma bindO_simps [simp]:
  "bindO None f = None" "bindO (Some (Inl ex)) f = Some (Inl ex)" "bindO (Some (Inr x)) f = f x"
  by (simp_all add: bindO_def)

fun foldO :: "('a \<Rightarrow> 's \<Rightarrow> 's topl option) \<Rightarrow> 'a list \<Rightarrow> 's \<Rightarrow> 's topl option" where
  "foldO f [] s = Some (Inr s)"
| "foldO f (x # xs) s = bindO (f x s) (foldO f xs)"

lemma foldO_snoc: "foldO f (xs @ [x]) s = bindO (foldO f xs s) (f x)"
proof (induction xs arbitrary: s)
  case Nil
  then show ?case
    by (cases "f x s") (auto simp: bindO_def split: sum.splits)
next
  case (Cons y ys)
  then show ?case
    by (cases "f y s") (auto simp: bindO_def split: sum.splits)
qed

section \<open>Distance to a red vertex\<close>

partial_function (option) dfs_loop ::
  "('n, 't) ToplGraphState \<Rightarrow> vref option \<Rightarrow> ('n, 't) ToplGraphState topl option" where
  "dfs_loop g vp =
     (case vp of
        None \<Rightarrow> Some (Inr g)
      | Some v \<Rightarrow>
          if v_nextChild (vtx g v) \<ge> DynArrayGetCount (v_edgeList (vtx g v)) then dfs_loop g (v_parent (vtx g v))
          else
            (case CheckMultiEdge g (DynArrayRetrieve (v_edgeList (vtx g v)) (v_nextChild (vtx g v))) of
               Inl ex \<Rightarrow> Some (Inl ex)
             | Inr e \<Rightarrow>
                 let g = upd_vtx v (\<lambda>r. r\<lparr>v_nextChild := v_nextChild r + 1\<rparr>) g;
                     w = EdgeGetVertex g e 0;
                     w = (if v = w then EdgeGetVertex g e 1 else w)
                 in if v_distToRed (vtx g w) \<noteq> INFINITY_DW then dfs_loop g (Some v)
                    else
                      dfs_loop
                        (upd_vtx w (\<lambda>r. r\<lparr>v_parent := Some v,
                           v_distToRed := (if v_color r = COLOR_RED then 0 else v_distToRed (vtx g v) + 1)\<rparr>) g)
                        (Some w)))"

declare dfs_loop.simps [code]

definition DepthFirstSearch :: "('n, 't) ToplGraphState \<Rightarrow> vref \<Rightarrow> ('n, 't) ToplGraphState topl option" where
  "DepthFirstSearch g rootVtx = dfs_loop (upd_vtx rootVtx (\<lambda>r. r\<lparr>v_distToRed := 0\<rparr>) g) (Some rootVtx)"

definition search_from :: "vref \<Rightarrow> ('n, 't) ToplGraphState \<Rightarrow> ('n, 't) ToplGraphState topl option" where
  "search_from v g =
     (if v_color (vtx g v) \<noteq> COLOR_RED \<or> v_distToRed (vtx g v) \<noteq> INFINITY_DW then Some (Inr g)
      else DepthFirstSearch g v)"

definition CalculateDistToRed :: "('n, 't) ToplGraphState \<Rightarrow> ('n, 't) ToplGraphState topl option" where
  "CalculateDistToRed g =
     foldO search_from [0..<g_numVertices g]
       (g\<lparr>g_vertices := map (\<lambda>r. r\<lparr>v_nextChild := 0, v_parent := None, v_distToRed := INFINITY_DW\<rparr>) (g_vertices g)\<rparr>)"

section \<open>Components\<close>

text \<open>The names are an array with one cell per vertex, \<open>None\<close> when not allocated.\<close>

record 'n TOPL_COMPONENT =
  tc_numVertices :: nat
  tc_vertexNames :: "'n option list option"

text \<open>The array \<^verbatim>\<open>pComponent\<close>, of length \<^verbatim>\<open>numComponents\<close>, or a null pointer.\<close>

type_synonym 'n TOPL_COMPONENTS = "'n TOPL_COMPONENT list option"

definition count_component :: "vref \<Rightarrow> ('n, 't) ToplGraphState \<times> nat \<Rightarrow> (('n, 't) ToplGraphState \<times> nat) topl option" where
  "count_component iVtx = (\<lambda>(g, numComponents).
     if v_color (vtx g iVtx) = COLOR_WHITE then Some (Inr (g, numComponents))
     else
       (case GetComponent g iVtx of
          None \<Rightarrow> None
        | Some (compId, g) \<Rightarrow>
            if compId = iVtx
            then Some (Inr (upd_vtx iVtx (\<lambda>r. r\<lparr>v_componentIndex := numComponents\<rparr>) g, numComponents + 1))
            else Some (Inr (g, numComponents))))"

definition CountComponents :: "('n, 't) ToplGraphState \<Rightarrow> (('n, 't) ToplGraphState \<times> nat) topl option" where
  "CountComponents g = foldO count_component [0..<g_numVertices g] (g, 0)"

definition scan_vertex ::
  "bool \<Rightarrow> vref \<Rightarrow> ('n, 't) ToplGraphState \<times> 'n TOPL_COMPONENT list \<Rightarrow>
   (('n, 't) ToplGraphState \<times> 'n TOPL_COMPONENT list) topl option" where
  "scan_vertex fWriteToList iVtx = (\<lambda>(g, pComponent).
     if v_color (vtx g iVtx) = COLOR_WHITE then Some (Inr (g, pComponent))
     else
       (case GetComponent g iVtx of
          None \<Rightarrow> None
        | Some (compId, g) \<Rightarrow>
            let compIndex = v_componentIndex (vtx g compId);
                pComp = pComponent ! compIndex;
                pComp = (if fWriteToList
                         then pComp\<lparr>tc_vertexNames :=
                                map_option (\<lambda>a. a[tc_numVertices pComp := Some (v_vertexName (vtx g iVtx))]) (tc_vertexNames pComp)\<rparr>
                         else pComp)
            in Some (Inr (g, pComponent[compIndex := pComp\<lparr>tc_numVertices := tc_numVertices pComp + 1\<rparr>]))))"

definition ScanVertices ::
  "('n, 't) ToplGraphState \<Rightarrow> bool \<Rightarrow> 'n TOPL_COMPONENT list \<Rightarrow>
   (('n, 't) ToplGraphState \<times> 'n TOPL_COMPONENT list) topl option" where
  "ScanVertices g fWriteToList pComponent =
     foldO (scan_vertex fWriteToList) [0..<g_numVertices g] (g, map (\<lambda>c. c\<lparr>tc_numVertices := 0\<rparr>) pComponent)"

definition SwapFilterVertexToFront ::
  "('n, 't) ToplGraphState \<Rightarrow> vref option \<Rightarrow> 'n TOPL_COMPONENT list \<Rightarrow>
   (('n, 't) ToplGraphState \<times> 'n TOPL_COMPONENT list) topl option" where
  "SwapFilterVertexToFront g whichVertex pComponent =
     (case whichVertex of
        None \<Rightarrow> Some (Inr (g, pComponent))
      | Some w \<Rightarrow>
          (case GetComponent g w of
             None \<Rightarrow> None
           | Some (whichCompId, g) \<Rightarrow>
               let whichCompIndex = v_componentIndex (vtx g whichCompId)
               in Some (Inr (g\<lparr>g_vertices := map (\<lambda>r. r\<lparr>v_componentIndex := 0\<rparr>) (g_vertices g)\<rparr>,
                    pComponent[0 := pComponent ! whichCompIndex, whichCompIndex := pComponent ! 0]))))"

text \<open>\<open>fWanted\<close> says that the caller passed a structure for the components.\<close>

definition ConstructComponents ::
  "('n, 't) ToplGraphState \<Rightarrow> vref option \<Rightarrow> bool \<Rightarrow> (('n, 't) ToplGraphState \<times> 'n TOPL_COMPONENTS) topl option" where
  "ConstructComponents g whichVertex fWanted =
     (if \<not> fWanted then Some (Inr (g, None))
      else
        bindO (CountComponents g) (\<lambda>(g, numComponents).
        bindO (ScanVertices g False (replicate numComponents \<lparr>tc_numVertices = 0, tc_vertexNames = None\<rparr>)) (\<lambda>(g, pComponent).
          let pComponent = map (\<lambda>c. c\<lparr>tc_vertexNames := Some (replicate (tc_numVertices c) None)\<rparr>) pComponent
          in bindO (ScanVertices g True pComponent) (\<lambda>(g, pComponent).
             bindO (SwapFilterVertexToFront g whichVertex pComponent) (\<lambda>(g, pComponent).
               Some (Inr (g, Some pComponent)))))))"

section \<open>Output edges\<close>

definition count_out_edge ::
  "('n, 't) ToplGraphState \<Rightarrow> vref option \<Rightarrow> eref \<Rightarrow> nat \<Rightarrow> nat topl" where
  "count_out_edge g whichVtx ref cOutputEdge =
     bindE (CheckMultiEdge g (Some ref)) (\<lambda>e.
       case whichVtx of
         None \<Rightarrow> Inr (cOutputEdge + 1)
       | Some x \<Rightarrow>
           if EdgeGetVertex g e 0 = v_vtxId (vtx g x) \<or> EdgeGetVertex g e 1 = v_vtxId (vtx g x)
           then Inr (cOutputEdge + 1) else Inr cOutputEdge)"

text \<open>The direction of an edge: away from the red vertices.\<close>

definition direct_edge :: "('n, 't) ToplGraphState \<Rightarrow> vref \<Rightarrow> vref \<Rightarrow> 'n TOPL_MULTI_EDGE \<Rightarrow> 'n TOPL_MULTI_EDGE" where
  "direct_edge g v w r =
     (if (v_color (vtx g v) = COLOR_BLACK \<or> v_color (vtx g w) = COLOR_BLACK) \<and> v_distToRed (vtx g v) \<noteq> INFINITY_DW
      then
        let r = r\<lparr>e_fDirectedEdge := True\<rparr>
        in if v_distToRed (vtx g w) < v_distToRed (vtx g v)
           then r\<lparr>e_vertexNames := (e_vertexNames r)[0 := e_vertexNames r ! 1, 1 := e_vertexNames r ! 0]\<rparr>
           else r
      else r)"

definition copy_out_edge ::
  "vref option \<Rightarrow> eref \<Rightarrow> ('n, 't) ToplGraphState \<times> eref list \<Rightarrow> (('n, 't) ToplGraphState \<times> eref list) topl" where
  "copy_out_edge whichVtx ref = (\<lambda>(g, list).
     bindE (CheckMultiEdge g (Some ref)) (\<lambda>e.
       let v = EdgeGetVertex g e 0; w = EdgeGetVertex g e 1
       in if whichVtx = None \<or> whichVtx = Some v \<or> whichVtx = Some w
          then Inr (upd_edge e (direct_edge g v w) g, list @ [e])
          else Inr (g, list)))"

definition CopyOutputEdges ::
  "('n, 't) ToplGraphState \<Rightarrow> eref DynArray \<Rightarrow> vref option \<Rightarrow> (('n, 't) ToplGraphState \<times> eref list \<times> nat) topl" where
  "CopyOutputEdges g outputEdges whichVtx =
     bindE (foldE (count_out_edge g whichVtx) (dyn_walk outputEdges) 0) (\<lambda>cOutputEdge.
     bindE (foldE (copy_out_edge whichVtx) (dyn_walk outputEdges) (g, [])) (\<lambda>(g, list).
       Inr (g, list, cOutputEdge)))"

partial_function (option) ClearInternalEdges ::
  "(ToplInternalEdge, 'i) rtl_table_ops \<Rightarrow> (vref \<Rightarrow> nat) \<Rightarrow> 'i \<Rightarrow> 'i topl option" where
  "ClearInternalEdges TI vtxId internalEdges =
     (if RtlIsGenericTableEmpty TI internalEdges then Some (Inr internalEdges)
      else
        let first = RtlFirstElement TI internalEdges
        in ClearInternalEdges TI vtxId
             (RtlDeleteElementGenericTable TI (EdgeCompare vtxId) (fst first) (the (snd first))))"

declare ClearInternalEdges.simps [code]

definition check_names :: "('n, 't) ToplGraphState \<Rightarrow> eref \<Rightarrow> unit \<Rightarrow> unit topl" where
  "check_names g e u =
     bindE (CheckMultiEdge g (Some e)) (\<lambda>_.
       raise_if (\<exists>nm\<in>set (e_vertexNames (edge g e)). nm_name nm = None) TOPL_EX_INVALID_VERTEX)"

definition CheckAllMultiEdges :: "('n, 't) ToplGraphState \<Rightarrow> unit topl" where
  "CheckAllMultiEdges g = foldE (check_names g) (dyn_walk (g_masterEdgeList g)) ()"

section \<open>The entry points\<close>

text \<open>One round over the edge sets.\<close>

definition process_edge_set ::
  "('n, 't) topl_env \<Rightarrow> (ToplInternalEdge, 'i) rtl_table_ops \<Rightarrow> nat \<Rightarrow> ('n, 't) ToplGraphState \<times> 'i \<Rightarrow>
   (('n, 't) ToplGraphState \<times> 'i) topl option" where
  "process_edge_set env TI iEdgeSet = (\<lambda>(g, internalEdges).
     bindO (Some (SetupEdges g iEdgeSet)) (\<lambda>(g, edgeType).
     bindO (Dijkstra env g edgeType False) (\<lambda>g.
     bindO (Some (ProcessEdgeSet env TI (Some iEdgeSet) (g, internalEdges))) (\<lambda>(g, internalEdges).
     bindO (Dijkstra env g edgeType True) (\<lambda>g.
       Some (ProcessEdgeSet env TI (Some iEdgeSet) (g, internalEdges)))))))"

text \<open>
  \<open>fNumStEdges\<close> says that the caller passed a place for the number of edges, \<open>fComponents\<close> that it
  passed a structure for the components. The array of colored vertices has \<^verbatim>\<open>numColorVtx\<close> entries.
\<close>

definition ToplGetSpanningTreeEdgesForVtx ::
  "('n, 't) topl_env \<Rightarrow> (ToplInternalEdge, 'i) rtl_table_ops \<Rightarrow> ('n, 't) ToplGraphState option \<Rightarrow> 'n option \<Rightarrow>
   'n TOPL_COLOR_VERTEX list option \<Rightarrow> dword \<Rightarrow> bool \<Rightarrow> bool \<Rightarrow>
   (('n, 't) ToplGraphState \<times> eref list \<times> nat \<times> 'n TOPL_COMPONENTS) topl option" where
  "ToplGetSpanningTreeEdgesForVtx env TI G whichVtxName colorVtx numColorVtx fNumStEdges fComponents =
     bindO (Some (CheckGraphState G)) (\<lambda>g.
     bindO (Some (raise_if (\<not> fNumStEdges) TOPL_EX_NULL_POINTER)) (\<lambda>_.
     bindO (Some (case whichVtxName of
                    None \<Rightarrow> Inr None
                  | Some name \<Rightarrow>
                      bindE (FindVertex g (Some name)) (\<lambda>vp.
                        bindE (raise_if (vp = None) TOPL_EX_INVALID_VERTEX) (\<lambda>_. Inr vp)))) (\<lambda>whichVtx.
     bindO (Some (raise_if (numColorVtx < 2) TOPL_EX_COLOR_VTX_ERROR)) (\<lambda>_.
     bindO (Some (CheckAllMultiEdges g)) (\<lambda>_.
     bindO (Some (InitColoredVertices g (map_option (take (unat numColorVtx)) colorVtx) whichVtx)) (\<lambda>g.
     bindO (foldO (process_edge_set env TI) [0..<DynArrayGetCount (g_edgeSets g)] (g, RtlInitializeGenericTable TI)) (\<lambda>(g, internalEdges).
     bindO (Some (ProcessEdgeSet env TI None (SetupVertices g, internalEdges))) (\<lambda>(g, internalEdges).
     bindO (Kruskal TI g internalEdges (numColorVtx - 1) (DynArrayInit sizeof_ptr)) (\<lambda>(g, internalEdges, outputEdges).
     bindO (CalculateDistToRed g) (\<lambda>g.
     bindO (ConstructComponents g whichVtx fComponents) (\<lambda>(g, components).
     bindO (Some (CopyOutputEdges g outputEdges whichVtx)) (\<lambda>(g, stEdgeList, numStEdges).
     bindO (ClearInternalEdges TI (vtx_id g) internalEdges) (\<lambda>_.
       Some (Inr (g, stEdgeList, numStEdges, components)))))))))))))))"

text \<open>The deletion routines check their arguments and free memory.\<close>

definition ToplDeleteSpanningTreeEdges :: "eref option list option \<Rightarrow> nat \<Rightarrow> unit topl" where
  "ToplDeleteSpanningTreeEdges stEdgeList numStEdges =
     (case stEdgeList of
        None \<Rightarrow> Inl TOPL_EX_NULL_POINTER
      | Some l \<Rightarrow> raise_if (None \<in> set (take numStEdges l)) TOPL_EX_NULL_POINTER)"

definition ToplDeleteComponents :: "'n TOPL_COMPONENTS option \<Rightarrow> 'n TOPL_COMPONENTS topl" where
  "ToplDeleteComponents pComponents =
     (case pComponents of
        Some (Some _) \<Rightarrow> Inr None
      | _ \<Rightarrow> Inl TOPL_EX_NULL_POINTER)"

definition ToplDeleteGraphState :: "('n, 't) ToplGraphState option \<Rightarrow> unit topl" where
  "ToplDeleteGraphState G =
     bindE (CheckGraphState G) (\<lambda>g.
     bindE (foldE (\<lambda>e u. bindE (CheckMultiEdge g (Some e)) (\<lambda>_. Inr u)) (dyn_walk (g_masterEdgeList g)) ()) (\<lambda>_.
       Inr ()))"

end
