(* ===== verification/Topl_DistToRed.thy ===== *)
theory Topl_DistToRed
  imports Topl_Output
begin

text \<open>
  What \<^verbatim>\<open>CalculateDistToRed\<close> and its depth-first search compute: the search ends, reaches exactly the
  vertices connected to a red one, and gives every black vertex a neighbour that is one step closer.
\<close>

section \<open>The searched graph\<close>

text \<open>The other end of an edge, as the search computes it.\<close>

definition far :: "('n, 't) ToplGraphState \<Rightarrow> vref \<Rightarrow> eref \<Rightarrow> vref" where
  "far g v e = (if v = EdgeGetVertex g e 0 then EdgeGetVertex g e 1 else EdgeGetVertex g e 0)"

abbreviation refs :: "('n, 't) ToplGraphState \<Rightarrow> vref \<Rightarrow> eref list" where
  "refs g v \<equiv> dyn_list (v_edgeList (vtx g v))"

definition adj :: "('n, 't) ToplGraphState \<Rightarrow> (vref \<times> vref) set" where
  "adj g = {(v, w). v < g_numVertices g \<and> w \<in> far g v ` set (refs g v)}"

definition search_ok :: "('n, 't) ToplGraphState \<Rightarrow> bool" where
  "search_ok g \<longleftrightarrow> g_numVertices g < 2 ^ 32 \<and>
     (\<forall>v<g_numVertices g. dyn_array_ok (v_edgeList (vtx g v)) \<and>
        (\<forall>e\<in>set (refs g v). CheckMultiEdge g (Some e) = Inr e \<and> far g v e < g_numVertices g))"

text \<open>What the search does not touch.\<close>

definition skel :: "'n ToplVertex \<Rightarrow> 'n ToplVertex" where
  "skel r = r\<lparr>v_nextChild := 0, v_parent := None, v_distToRed := 0\<rparr>"

definition same_skel :: "('n, 't) ToplGraphState \<Rightarrow> ('n, 't) ToplGraphState \<Rightarrow> bool" where
  "same_skel G g \<longleftrightarrow> g_numVertices g = g_numVertices G \<and> g_store g = g_store G \<and>
     (\<forall>v<g_numVertices G. skel (vtx g v) = skel (vtx G v))"

lemma skel_fields:
  assumes "skel r = skel r'"
  shows "v_edgeList r = v_edgeList r'" "v_color r = v_color r'" "v_vtxId r = v_vtxId r'" "v_vertexName r = v_vertexName r'"
    "v_componentId r = v_componentId r'"
proof -
  have "v_edgeList (skel r) = v_edgeList (skel r')" "v_color (skel r) = v_color (skel r')" "v_vtxId (skel r) = v_vtxId (skel r')"
    "v_vertexName (skel r) = v_vertexName (skel r')" "v_componentId (skel r) = v_componentId (skel r')"
    using assms by simp_all
  then show "v_edgeList r = v_edgeList r'" "v_color r = v_color r'" "v_vtxId r = v_vtxId r'" "v_vertexName r = v_vertexName r'"
    "v_componentId r = v_componentId r'"
    by (simp_all add: skel_def)
qed

lemma same_skel_upd:
  assumes "same_skel G g" and "\<And>r. skel (f r) = skel r"
  shows "same_skel G (upd_vtx v f g)"
proof -
  have "skel (vtx (upd_vtx v f g) w) = skel (vtx g w)" for w
    by (rule vtx_upd_field) (rule assms(2))
  then show ?thesis
    using assms(1) by (simp add: same_skel_def)
qed

lemma same_skel_edge: "same_skel G g \<Longrightarrow> CheckMultiEdge g ep = CheckMultiEdge G ep" "same_skel G g \<Longrightarrow> far g v e = far G v e"
  "same_skel G g \<Longrightarrow> EdgeGetVertex g e i = EdgeGetVertex G e i"
  by (auto simp: same_skel_def CheckMultiEdge_def far_def EdgeGetVertex_def split: option.split)

lemma same_skel_vtx:
  assumes "same_skel G g" and "v < g_numVertices G"
  shows "v_edgeList (vtx g v) = v_edgeList (vtx G v)" "v_color (vtx g v) = v_color (vtx G v)"
  using skel_fields [of "vtx g v" "vtx G v"] assms by (simp_all add: same_skel_def)

section \<open>The invariant of the search\<close>

definition seen :: "('n, 't) ToplGraphState \<Rightarrow> vref set" where
  "seen g = {v. v < g_numVertices g \<and> v_distToRed (vtx g v) \<noteq> INFINITY_DW}"

text \<open>The path back to the root of the search.\<close>

inductive back_path :: "('n, 't) ToplGraphState \<Rightarrow> vref option \<Rightarrow> vref list \<Rightarrow> bool" for g where
  back_none: "back_path g None []"
| back_some: "back_path g (v_parent (vtx g v)) st \<Longrightarrow> back_path g (Some v) (v # st)"

inductive_cases back_noneE: "back_path g None st"
inductive_cases back_someE: "back_path g (Some v) st"

lemma back_path_cong:
  assumes "back_path g vp st" and "\<And>v. v \<in> set st \<Longrightarrow> v_parent (vtx g' v) = v_parent (vtx g v)"
  shows "back_path g' vp st"
  using assms
proof induction
  case (back_some v st)
  then have "back_path g' (v_parent (vtx g' v)) st"
    by simp
  then show ?case
    by (rule back_path.back_some)
qed (rule back_path.back_none)

text \<open>A vertex that has been reached: it is red, or one step further than the vertex it was reached from.\<close>

definition placed :: "('n, 't) ToplGraphState \<Rightarrow> ('n, 't) ToplGraphState \<Rightarrow> vref \<Rightarrow> bool" where
  "placed G g x \<longleftrightarrow>
     (if v_color (vtx G x) = COLOR_RED then v_distToRed (vtx g x) = 0
      else \<exists>p\<in>seen g. (p, x) \<in> adj G \<and> unat (v_distToRed (vtx g x)) = Suc (unat (v_distToRed (vtx g p))))"

definition searched :: "('n, 't) ToplGraphState \<Rightarrow> vref list \<Rightarrow> ('n, 't) ToplGraphState \<Rightarrow> vref \<Rightarrow> bool" where
  "searched G st g x \<longleftrightarrow>
     v_nextChild (vtx g x) \<le> length (refs G x) \<and>
     (\<forall>i<v_nextChild (vtx g x). far G x (refs G x ! i) \<in> seen g) \<and>
     (x \<notin> set st \<longrightarrow> v_nextChild (vtx g x) = length (refs G x)) \<and>
     (\<exists>r<g_numVertices G. v_color (vtx G r) = COLOR_RED \<and> (r, x) \<in> (adj G)\<^sup>*) \<and>
     unat (v_distToRed (vtx g x)) < card (seen g) \<and> placed G g x"

definition dfs_inv :: "('n, 't) ToplGraphState \<Rightarrow> vref list \<Rightarrow> ('n, 't) ToplGraphState \<Rightarrow> bool" where
  "dfs_inv G st g \<longleftrightarrow> same_skel G g \<and> set st \<subseteq> seen g \<and> (\<forall>x\<in>seen g. searched G st g x) \<and>
     (\<forall>x<g_numVertices G. x \<notin> seen g \<longrightarrow> v_nextChild (vtx g x) = 0 \<and> v_parent (vtx g x) = None)"

text \<open>The edges that remain to be looked at.\<close>

definition remaining :: "('n, 't) ToplGraphState \<Rightarrow> ('n, 't) ToplGraphState \<Rightarrow> nat" where
  "remaining G g = (\<Sum>x<g_numVertices G. length (refs G x) - v_nextChild (vtx g x))"

lemma seen_n: "same_skel G g \<Longrightarrow> x \<in> seen g \<Longrightarrow> x < g_numVertices G"
  by (auto simp: seen_def same_skel_def)

lemma finite_seen [simp]: "finite (seen g)"
  by (simp add: seen_def)

lemma card_seen: "same_skel G g \<Longrightarrow> card (seen g) \<le> g_numVertices G"
  using card_mono [of "{..<g_numVertices G}" "seen g"] seen_n by fastforce

section \<open>The steps of the search\<close>

abbreviation next_child :: "vref \<Rightarrow> ('n, 't) ToplGraphState \<Rightarrow> ('n, 't) ToplGraphState" where
  "next_child v g \<equiv> upd_vtx v (\<lambda>r. r\<lparr>v_nextChild := v_nextChild r + 1\<rparr>) g"

abbreviation visit :: "vref \<Rightarrow> vref \<Rightarrow> ('n, 't) ToplGraphState \<Rightarrow> ('n, 't) ToplGraphState" where
  "visit v w g \<equiv> upd_vtx w (\<lambda>r. r\<lparr>v_parent := Some v,
     v_distToRed := (if v_color r = COLOR_RED then 0 else v_distToRed (vtx g v) + 1)\<rparr>) g"

lemma dfs_pop:
  assumes inv: "dfs_inv G (v # st) g" and "length (refs G v) \<le> v_nextChild (vtx g v)"
  shows "dfs_inv G st g"
proof -
  have "v_nextChild (vtx g v) = length (refs G v)"
    using assms unfolding dfs_inv_def searched_def by fastforce
  with inv show ?thesis
    unfolding dfs_inv_def searched_def by auto
qed

lemma next_child_facts:
  assumes "v < g_numVertices g"
  shows "seen (next_child v g) = seen g" "v_distToRed (vtx (next_child v g) x) = v_distToRed (vtx g x)"
    "v_parent (vtx (next_child v g) x) = v_parent (vtx g x)"
    "v_nextChild (vtx (next_child v g) x) = (if x = v then Suc (v_nextChild (vtx g v)) else v_nextChild (vtx g x))"
  using assms by (auto simp: seen_def vtx_upd_if)

lemma dfs_skip:
  assumes inv: "dfs_inv G st g" and v: "v \<in> set st" "v_nextChild (vtx g v) < length (refs G v)"
    and w: "far G v (refs G v ! v_nextChild (vtx g v)) \<in> seen g"
  shows "dfs_inv G st (next_child v g)"
proof -
  have n: "v < g_numVertices g"
    using inv v by (auto simp: dfs_inv_def seen_def)
  note nc = next_child_facts [OF n]
  have "same_skel G (next_child v g)"
    using inv by (intro same_skel_upd) (auto simp: dfs_inv_def skel_def)
  moreover have "placed G (next_child v g) x = placed G g x" for x
    unfolding placed_def nc ..
  ultimately show ?thesis
    using inv v w unfolding dfs_inv_def searched_def nc by (auto simp: less_Suc_eq)
qed

lemma remaining_next:
  assumes "same_skel G g" and v: "v < g_numVertices G" "v_nextChild (vtx g v) < length (refs G v)"
  shows "remaining G (next_child v g) < remaining G g"
proof -
  have n: "v < g_numVertices g"
    using assms by (simp add: same_skel_def)
  show ?thesis
    unfolding remaining_def next_child_facts(4) [OF n] using v by (intro sum_strict_mono_ex1) auto
qed

lemma visit_facts:
  assumes "w < g_numVertices g"
  shows "v_nextChild (vtx (visit v w g) x) = v_nextChild (vtx g x)"
    "v_parent (vtx (visit v w g) x) = (if x = w then Some v else v_parent (vtx g x))"
    "v_distToRed (vtx (visit v w g) x) =
      (if x = w then if v_color (vtx g w) = COLOR_RED then 0 else v_distToRed (vtx g v) + 1 else v_distToRed (vtx g x))"
  using assms by (auto simp: vtx_upd_if)

lemma remaining_visit: "remaining G (visit v w g) = remaining G g"
  unfolding remaining_def by (rule sum.cong) (simp_all add: vtx_upd_field [where fld = v_nextChild])

lemma dfs_visit:
  assumes inv: "dfs_inv G st g" and ok: "search_ok G" and v: "v \<in> set st"
    and arc: "(v, w) \<in> adj G" and w: "w < g_numVertices G" "w \<notin> seen g"
  shows "dfs_inv G (w # st) (visit v w g)" "seen (visit v w g) = insert w (seen g)"
proof -
  define g' where "g' = visit v w g"
  have skel: "same_skel G g" and seen: "set st \<subseteq> seen g"
    using inv by (auto simp: dfs_inv_def)
  have wn: "w < g_numVertices g" "v \<in> seen g" "v < g_numVertices G"
    using skel w v seen seen_n by (auto simp: same_skel_def)
  have vf: "v_nextChild (vtx g' x) = v_nextChild (vtx g x)"
    "v_parent (vtx g' x) = (if x = w then Some v else v_parent (vtx g x))"
    "v_distToRed (vtx g' x) =
      (if x = w then if v_color (vtx G w) = COLOR_RED then 0 else v_distToRed (vtx g v) + 1 else v_distToRed (vtx g x))" for x
    unfolding g'_def visit_facts [OF wn(1)] same_skel_vtx(2) [OF skel w(1)] by (rule refl)+
  have less: "unat (v_distToRed (vtx g v)) < card (seen g)"
    using inv wn(2) by (simp add: dfs_inv_def searched_def)
  have "card (insert w (seen g)) \<le> g_numVertices G"
    using card_mono [of "{..<g_numVertices G}" "insert w (seen g)"] seen_n [OF skel] w(1) by auto
  then have bound: "Suc (unat (v_distToRed (vtx g v))) < 2 ^ 32 - 1"
    using less w(2) ok by (simp add: search_ok_def)
  then have dist: "unat (v_distToRed (vtx g v) + 1) = Suc (unat (v_distToRed (vtx g v)))"
    by (simp add: unat_word_ariths)
  have fin: "v_distToRed (vtx g v) + 1 \<noteq> INFINITY_DW"
  proof
    assume "v_distToRed (vtx g v) + 1 = INFINITY_DW"
    then show False
      using dist bound unat_INFINITY_DW by simp
  qed
  have new: "seen g' = insert w (seen g)"
  proof -
    have "INFINITY_DW \<noteq> 0"
      using unat_INFINITY_DW by auto
    then show ?thesis
      using wn(1) fin by (auto simp: seen_def vf) (auto simp: g'_def)
  qed
  have skel': "same_skel G g'"
    unfolding g'_def by (rule same_skel_upd [OF skel]) (simp add: skel_def)
  have same: "v_distToRed (vtx g' x) = v_distToRed (vtx g x)" if "x \<in> seen g" for x
    using that w(2) by (auto simp: vf)
  have old: "placed G g' x" if x: "x \<in> seen g" "placed G g x" for x
  proof (cases "v_color (vtx G x) = COLOR_RED")
    case False
    with x(2) obtain p where "p \<in> seen g" "(p, x) \<in> adj G"
        "unat (v_distToRed (vtx g x)) = Suc (unat (v_distToRed (vtx g p)))"
      by (auto simp: placed_def)
    with False x(1) show ?thesis
      by (auto simp: placed_def same new intro!: bexI [of _ p])
  qed (use x in \<open>simp add: placed_def same\<close>)
  have "placed G g' w"
  proof (cases "v_color (vtx G w) = COLOR_RED")
    case False
    then have "v \<in> seen g'" "unat (v_distToRed (vtx g' w)) = Suc (unat (v_distToRed (vtx g' v)))"
      using wn(2) w(2) dist by (auto simp: vf new)
    with False arc show ?thesis
      by (auto simp: placed_def)
  qed (simp add: placed_def vf)
  moreover have "\<exists>r<g_numVertices G. v_color (vtx G r) = COLOR_RED \<and> (r, w) \<in> (adj G)\<^sup>*"
    using inv wn(2) arc unfolding dfs_inv_def searched_def by (meson rtrancl.rtrancl_into_rtrancl)
  moreover have "v_nextChild (vtx g w) = 0"
    using inv w by (simp add: dfs_inv_def)
  moreover have "unat (v_distToRed (vtx g' w)) < card (seen g')"
    using less dist w(2) by (simp add: vf new)
  moreover have "card (seen g) \<le> card (seen g')"
    by (rule card_mono) (auto simp: new)
  moreover note facts = calculation
  have "searched G (w # st) g' x" if "x \<in> seen g'" for x
  proof (cases "x = w")
    case True
    then show ?thesis
      using facts by (simp add: searched_def vf)
  next
    case False
    then have x: "x \<in> seen g" "searched G st g x"
      using that inv by (auto simp: new dfs_inv_def)
    then show ?thesis
      using old [OF x(1)] same [OF x(1)] facts False
      unfolding searched_def new vf(1) by (auto intro: order.strict_trans2)
  qed
  then have "dfs_inv G (w # st) g'"
    using inv skel' seen unfolding dfs_inv_def new by (auto simp: vf)
  then show "dfs_inv G (w # st) (visit v w g)" "seen (visit v w g) = insert w (seen g)"
    using new by (simp_all add: g'_def)
qed

section \<open>The loops\<close>

lemma adj_far:
  assumes "search_ok G" and "v < g_numVertices G" and "i < length (refs G v)"
  shows "(v, far G v (refs G v ! i)) \<in> adj G" "far G v (refs G v ! i) < g_numVertices G"
    "CheckMultiEdge G (Some (refs G v ! i)) = Inr (refs G v ! i)"
  using assms by (auto simp: adj_def search_ok_def)

lemma dfs_loop_spec:
  assumes ok: "search_ok G" and "dfs_inv G st g" and "back_path g vp st"
  shows "\<exists>g'. dfs_loop g vp = Some (Inr g') \<and> dfs_inv G [] g' \<and> seen g \<subseteq> seen g'"
  using assms(2,3)
proof (induction "(remaining G g, length st)" arbitrary: g vp st rule: wf_induct_rule [OF wf_lex_prod [OF wf_less_than wf_less_than]])
  case 1
  have skel: "same_skel G g"
    using 1(2) by (simp add: dfs_inv_def)
  show ?case
  proof (cases vp)
    case None
    with 1(3) have "st = []"
      by (auto elim: back_noneE)
    with None 1(2) show ?thesis
      by (subst dfs_loop.simps) auto
  next
    case (Some v)
    with 1(3) obtain st' where st: "st = v # st'" "back_path g (v_parent (vtx g v)) st'"
      by (auto elim: back_someE)
    have v: "v \<in> set st" "v \<in> seen g" "v < g_numVertices G" "v < g_numVertices g"
      using 1(2) st(1) seen_n [OF skel] skel by (auto simp: dfs_inv_def same_skel_def)
    have el: "v_edgeList (vtx g v) = v_edgeList (vtx G v)" "dyn_array_ok (v_edgeList (vtx G v))"
      using same_skel_vtx(1) [OF skel v(3)] ok v(3) by (simp_all add: search_ok_def)
    have count: "DynArrayGetCount (v_edgeList (vtx g v)) = length (refs G v)"
      using el by (simp add: val_array.count_contents)
    show ?thesis
    proof (cases "length (refs G v) \<le> v_nextChild (vtx g v)")
      case True
      have "dfs_inv G st' g"
        using dfs_pop [of G v st' g] 1(2) st(1) True by simp
      from 1(1) [OF _ this st(2)] st(1)
      obtain g' where "dfs_loop g (v_parent (vtx g v)) = Some (Inr g')" "dfs_inv G [] g'" "seen g \<subseteq> seen g'"
        by auto
      then show ?thesis
        using True count Some by (subst dfs_loop.simps) simp
    next
      case False
      define i where "i = v_nextChild (vtx g v)"
      define e where "e = refs G v ! i"
      define w where "w = far G v e"
      define g1 where "g1 = next_child v g"
      have i: "i < length (refs G v)"
        using False by (simp add: i_def)
      note arc = adj_far [OF ok v(3) i, folded e_def w_def]
      have retr: "DynArrayRetrieve (v_edgeList (vtx g v)) i = Some e"
        using el i by (simp add: val_array.retrieve_contents val_array.count_contents e_def)
      have less: "remaining G g1 < remaining G g"
        unfolding g1_def using remaining_next [OF skel v(3)] i by (simp add: i_def)
      have skel1: "same_skel G g1"
        unfolding g1_def by (rule same_skel_upd [OF skel]) (simp add: skel_def)
      have w': "(if v = EdgeGetVertex g1 e 0 then EdgeGetVertex g1 e 1 else EdgeGetVertex g1 e 0) = w"
        by (simp add: same_skel_edge(3) [OF skel1] w_def far_def)
      note nc = next_child_facts [OF v(4), folded g1_def]
      have step: "dfs_loop g vp = (if v_distToRed (vtx g1 w) \<noteq> INFINITY_DW then dfs_loop g1 (Some v)
          else dfs_loop (visit v w g1) (Some w))"
        unfolding Some dfs_loop.simps [of g "Some v"] option.case count i_def [symmetric] retr
          same_skel_edge(1) [OF skel, of "Some e"] arc(3) sum.case Let_def g1_def [symmetric] w'
        using i by (simp only: not_le if_not_P)
      have bp: "back_path g1 (Some v) st"
        by (rule back_path_cong [of g]) (use 1(3) Some nc(3) in auto)
      have wn: "w < g_numVertices g1"
        using arc(2) skel1 by (simp add: same_skel_def)
      show ?thesis
      proof (cases "w \<in> seen g")
        case True
        then have "v_distToRed (vtx g1 w) \<noteq> INFINITY_DW" "dfs_inv G st g1"
          using nc(2) dfs_skip [OF 1(2) v(1)] i by (simp_all add: seen_def g1_def w_def e_def i_def)
        with 1(1) [OF _ _ bp] less nc(1) show ?thesis
          by (simp add: step)
      next
        case new: False
        then have inf: "v_distToRed (vtx g1 w) = INFINITY_DW"
          using nc(2) arc(2) skel by (simp add: seen_def same_skel_def)
        have vw: "v \<noteq> w"
          using new v(2) by blast
        note vis = dfs_visit [OF 1(2) ok v(1) arc(1,2) new]
        define g2 where "g2 = visit v w g1"
        have g2: "g2 = next_child v (visit v w g)"
          using vw v(4) by (simp add: g2_def g1_def upd_vtx_def list_update_swap)
        have "dfs_inv G (w # st) g2"
          unfolding g2 by (rule dfs_skip [OF vis(1)])
            (use v(1) i vw vis(2) in \<open>simp_all add: i_def w_def e_def\<close>)
        moreover have "back_path g2 (Some w) (w # st)"
        proof (rule back_path.back_some)
          have "v_parent (vtx g2 w) = Some v"
            unfolding g2_def visit_facts(2) [OF wn] by simp
          moreover have "back_path g2 (Some v) st"
            by (rule back_path_cong [OF bp]) (use 1(2) new in \<open>auto simp: g2_def visit_facts(2) [OF wn] dfs_inv_def\<close>)
          ultimately show "back_path g2 (v_parent (vtx g2 w)) st"
            by simp
        qed
        moreover have "remaining G g2 < remaining G g"
          using less by (simp add: g2_def remaining_visit)
        moreover have "seen g \<subseteq> seen g2"
          using vis(2) next_child_facts(1) [of v "visit v w g"] v(4) by (auto simp: g2)
        ultimately show ?thesis
          using 1(1) [of g2 "w # st" "Some w"] inf by (auto simp: step g2_def)
      qed
    qed
  qed
qed

text \<open>A search from a red vertex that has not been reached.\<close>

lemma DepthFirstSearch_spec:
  assumes ok: "search_ok G" and inv: "dfs_inv G [] g" and r: "r < g_numVertices G" "v_color (vtx G r) = COLOR_RED" "r \<notin> seen g"
  shows "\<exists>g'. DepthFirstSearch g r = Some (Inr g') \<and> dfs_inv G [] g' \<and> insert r (seen g) \<subseteq> seen g'"
proof -
  define g1 where "g1 = upd_vtx r (\<lambda>x. x\<lparr>v_distToRed := 0\<rparr>) g"
  have skel: "same_skel G g"
    using inv by (simp add: dfs_inv_def)
  have rn: "r < g_numVertices g"
    using r(1) skel by (simp add: same_skel_def)
  have f: "v_distToRed (vtx g1 x) = (if x = r then 0 else v_distToRed (vtx g x))" "v_nextChild (vtx g1 x) = v_nextChild (vtx g x)"
    "v_parent (vtx g1 x) = v_parent (vtx g x)" for x
    using rn by (auto simp: g1_def vtx_upd_if)
  have "INFINITY_DW \<noteq> 0"
    using unat_INFINITY_DW by auto
  then have new: "seen g1 = insert r (seen g)"
    using rn by (auto simp: seen_def f) (auto simp: g1_def)
  have zero: "v_nextChild (vtx g r) = 0" "v_parent (vtx g r) = None"
    using inv r by (simp_all add: dfs_inv_def)
  have card: "card (seen g) \<le> card (seen g1)"
    by (rule card_mono) (auto simp: new)
  have old: "placed G g1 x" if x: "x \<in> seen g" "placed G g x" for x
  proof (cases "v_color (vtx G x) = COLOR_RED")
    case False
    with x(2) obtain p where p: "p \<in> seen g" "(p, x) \<in> adj G"
        "unat (v_distToRed (vtx g x)) = Suc (unat (v_distToRed (vtx g p)))"
      by (auto simp: placed_def)
    then have "p \<noteq> r" "x \<noteq> r"
      using r(3) x(1) by auto
    with False p show ?thesis
      by (auto simp: placed_def f new intro!: bexI [of _ p])
  qed (use x in \<open>simp add: placed_def f\<close>)
  have "searched G [r] g1 x" if "x \<in> seen g1" for x
  proof (cases "x = r")
    case True
    have "0 < card (seen g1)"
      by (simp add: new card_gt_0_iff)
    with True r(1,2) zero show ?thesis
      by (auto simp: searched_def f placed_def)
  next
    case False
    then have x: "x \<in> seen g" "searched G [] g x"
      using that inv by (auto simp: new dfs_inv_def)
    with False old [OF x(1)] card show ?thesis
      unfolding searched_def new f(2) by (auto simp: f intro: order.strict_trans2)
  qed
  moreover have "same_skel G g1"
    unfolding g1_def by (rule same_skel_upd [OF skel]) (simp add: skel_def)
  ultimately have "dfs_inv G [r] g1"
    using inv unfolding dfs_inv_def new by (auto simp: f)
  moreover have "back_path g1 (Some r) [r]"
    using zero(2) by (intro back_path.back_some) (simp add: f back_path.back_none)
  ultimately have "\<exists>g'. dfs_loop g1 (Some r) = Some (Inr g') \<and> dfs_inv G [] g' \<and> seen g1 \<subseteq> seen g'"
    by (rule dfs_loop_spec [OF ok])
  then show ?thesis
    unfolding new by (simp add: DepthFirstSearch_def g1_def)
qed

lemma search_from_spec:
  assumes "search_ok G" and "dfs_inv G [] g" and "v < g_numVertices G"
  shows "\<exists>g'. search_from v g = Some (Inr g') \<and> dfs_inv G [] g' \<and> seen g \<subseteq> seen g' \<and> (v_color (vtx G v) = COLOR_RED \<longrightarrow> v \<in> seen g')"
proof -
  have skel: "same_skel G g"
    using assms(2) by (simp add: dfs_inv_def)
  then have "v < g_numVertices g" "v_color (vtx g v) = v_color (vtx G v)"
    using assms(3) same_skel_vtx(2) [OF skel assms(3)] by (simp_all add: same_skel_def)
  then show ?thesis
    using DepthFirstSearch_spec [OF assms] assms(2) by (auto simp: search_from_def seen_def)
qed

lemma search_all_spec:
  assumes "search_ok G" and "dfs_inv G [] g" and "set vs \<subseteq> {..<g_numVertices G}"
  shows "\<exists>g'. foldO search_from vs g = Some (Inr g') \<and> dfs_inv G [] g' \<and> seen g \<subseteq> seen g' \<and>
    (\<forall>v\<in>set vs. v_color (vtx G v) = COLOR_RED \<longrightarrow> v \<in> seen g')"
  using assms(2,3)
proof (induction vs arbitrary: g)
  case (Cons v vs)
  obtain g1 where g1: "search_from v g = Some (Inr g1)" "dfs_inv G [] g1" "seen g \<subseteq> seen g1"
      "v_color (vtx G v) = COLOR_RED \<longrightarrow> v \<in> seen g1"
    using search_from_spec [OF assms(1) Cons.prems(1), of v] Cons.prems(2) by auto
  obtain g' where "foldO search_from vs g1 = Some (Inr g')" "dfs_inv G [] g'" "seen g1 \<subseteq> seen g'"
      "\<forall>v\<in>set vs. v_color (vtx G v) = COLOR_RED \<longrightarrow> v \<in> seen g'"
    using Cons.IH [OF g1(2)] Cons.prems(2) by auto
  with g1 show ?case
    by auto
qed auto

lemma closed_reach: "(r, x) \<in> (adj G)\<^sup>* \<Longrightarrow> r \<in> S \<Longrightarrow> (\<And>v w. v \<in> S \<Longrightarrow> (v, w) \<in> adj G \<Longrightarrow> w \<in> S) \<Longrightarrow> x \<in> S"
  by (induction rule: rtrancl_induct) auto

lemma CalculateDistToRed_spec:
  assumes ok: "search_ok G"
  shows "\<exists>g. CalculateDistToRed G = Some (Inr g) \<and> dfs_inv G [] g \<and>
    seen g = {x. \<exists>r<g_numVertices G. v_color (vtx G r) = COLOR_RED \<and> (r, x) \<in> (adj G)\<^sup>*}"
proof -
  define g0 where "g0 = G\<lparr>g_vertices := map (\<lambda>r. r\<lparr>v_nextChild := 0, v_parent := None, v_distToRed := INFINITY_DW\<rparr>) (g_vertices G)\<rparr>"
  have "dfs_inv G [] g0" "set [0..<g_numVertices G] \<subseteq> {..<g_numVertices G}"
    by (auto simp: dfs_inv_def g0_def same_skel_def seen_def skel_def)
  from search_all_spec [OF ok this]
  obtain g where g: "CalculateDistToRed G = Some (Inr g)" "dfs_inv G [] g"
      "\<forall>v<g_numVertices G. v_color (vtx G v) = COLOR_RED \<longrightarrow> v \<in> seen g"
    by (auto simp: CalculateDistToRed_def g0_def)
  have "w \<in> seen g" if "v \<in> seen g" "(v, w) \<in> adj G" for v w
    using g(2) that by (auto simp: dfs_inv_def searched_def adj_def in_set_conv_nth)
  then have "x \<in> seen g" if "(r, x) \<in> (adj G)\<^sup>*" "r < g_numVertices G" "v_color (vtx G r) = COLOR_RED" for r x
    using closed_reach [OF that(1), of "seen g"] g(3) that(2,3) by blast
  moreover have "\<exists>r<g_numVertices G. v_color (vtx G r) = COLOR_RED \<and> (r, x) \<in> (adj G)\<^sup>*" if "x \<in> seen g" for x
    using g(2) that by (auto simp: dfs_inv_def searched_def)
  ultimately show ?thesis
    using g(1,2) by blast
qed

section \<open>Properties\<close>

lemma path_down:
  assumes step: "\<And>x. x \<in> S \<Longrightarrow> d x = 0 \<and> R x \<or> (\<exists>p\<in>S. (p, x) \<in> E \<and> d x = Suc (d p))"
  shows "x \<in> S \<Longrightarrow> \<exists>r\<in>S. R r \<and> (r, x) \<in> E ^^ d x"
proof (induction "d x" arbitrary: x)
  case 0
  then show ?case
    using step [of x] by auto
next
  case (Suc n)
  then obtain p where p: "p \<in> S" "(p, x) \<in> E" "d x = Suc (d p)"
    using step [of x] by auto
  with Suc.hyps(1) [of p] Suc.hyps(2) obtain r where "r \<in> S" "R r" "(r, p) \<in> E ^^ d p"
    by auto
  then show ?case
    using p by (intro bexI [of _ r]) auto
qed

text \<open>C15. \<^verbatim>\<open>CalculateDistToRed\<close> terminates without an exception on a graph whose edge lists hold valid
  two-vertex edges, and changes only its own three fields. A vertex gets a finite distance exactly when
  a path leads to it from a red vertex; a red vertex gets distance 0; and any other vertex with a finite
  distance has a neighbour whose distance is exactly one less. So a finite distance is the length of a path from some red vertex, and
  never smaller than the distance to the nearest one; it may be larger (\<open>distToRed_not_nearest\<close> below). Distances do not wrap
  around.\<close>

theorem CalculateDistToRed_correct:
  assumes "search_ok G"
  shows "\<exists>g. CalculateDistToRed G = Some (Inr g) \<and> same_skel G g \<and>
    (\<forall>x<g_numVertices G. v_distToRed (vtx g x) \<noteq> INFINITY_DW \<longleftrightarrow>
       (\<exists>r<g_numVertices G. v_color (vtx G r) = COLOR_RED \<and> (r, x) \<in> (adj G)\<^sup>*)) \<and>
    (\<forall>x<g_numVertices G. v_color (vtx G x) = COLOR_RED \<longrightarrow> v_distToRed (vtx g x) = 0) \<and>
    (\<forall>x<g_numVertices G. v_color (vtx G x) \<noteq> COLOR_RED \<and> v_distToRed (vtx g x) \<noteq> INFINITY_DW \<longrightarrow>
       (\<exists>p<g_numVertices G. (p, x) \<in> adj G \<and> unat (v_distToRed (vtx g x)) = Suc (unat (v_distToRed (vtx g p))))) \<and>
    (\<forall>x<g_numVertices G. v_distToRed (vtx g x) \<noteq> INFINITY_DW \<longrightarrow>
       (\<exists>r<g_numVertices G. v_color (vtx G r) = COLOR_RED \<and> (r, x) \<in> adj G ^^ unat (v_distToRed (vtx g x))))"
proof -
  obtain g where g: "CalculateDistToRed G = Some (Inr g)" "dfs_inv G [] g"
      "seen g = {x. \<exists>r<g_numVertices G. v_color (vtx G r) = COLOR_RED \<and> (r, x) \<in> (adj G)\<^sup>*}"
    using CalculateDistToRed_spec [OF assms] by blast
  have skel: "same_skel G g" and placed: "\<And>x. x \<in> seen g \<Longrightarrow> placed G g x"
    using g(2) by (auto simp: dfs_inv_def searched_def)
  have iff: "x \<in> seen g \<longleftrightarrow> v_distToRed (vtx g x) \<noteq> INFINITY_DW" if "x < g_numVertices G" for x
    using that skel by (simp add: seen_def same_skel_def)
  have red: "v_distToRed (vtx g x) = 0" if "x < g_numVertices G" "v_color (vtx G x) = COLOR_RED" for x
    using placed [of x] that g(3) by (auto simp: placed_def)
  have step: "x \<in> seen g \<Longrightarrow> unat (v_distToRed (vtx g x)) = 0 \<and> v_color (vtx G x) = COLOR_RED \<or>
      (\<exists>p\<in>seen g. (p, x) \<in> adj G \<and> unat (v_distToRed (vtx g x)) = Suc (unat (v_distToRed (vtx g p))))" for x
    using placed [of x] by (cases "v_color (vtx G x) = COLOR_RED") (auto simp: placed_def)
  have path: "\<exists>r<g_numVertices G. v_color (vtx G r) = COLOR_RED \<and> (r, x) \<in> adj G ^^ unat (v_distToRed (vtx g x))"
    if "x < g_numVertices G" "v_distToRed (vtx g x) \<noteq> INFINITY_DW" for x
    using path_down [OF step, of x] iff [OF that(1)] that(2) seen_n [OF skel] by blast
  have near: "\<exists>p<g_numVertices G. (p, x) \<in> adj G \<and> unat (v_distToRed (vtx g x)) = Suc (unat (v_distToRed (vtx g p)))"
    if "x < g_numVertices G" "v_color (vtx G x) \<noteq> COLOR_RED" "v_distToRed (vtx g x) \<noteq> INFINITY_DW" for x
    using placed [of x] that iff [OF that(1)] seen_n [OF skel] by (auto simp: placed_def)
  show ?thesis
    using g(1,3) skel iff red near path by blast
qed

text \<open>Four sites in a line, the outer ones red, joined by three edges.\<close>

definition line_edge :: "nat \<Rightarrow> nat TOPL_MULTI_EDGE" where
  "line_edge i =
     \<lparr>e_edgeType = 0, e_ri = \<lparr>ri_cost = 1, ri_repIntvl = 15, ri_options = 0, ri_schedule = None\<rparr>, e_fDirectedEdge = False,
      e_vertexNames = [\<lparr>nm_name = Some i, nm_reserved = i\<rparr>, \<lparr>nm_name = Some (i + 1), nm_reserved = i + 1\<rparr>]\<rparr>"

definition line_vertex :: "nat \<Rightarrow> TOPL_VERTEX_COLOR \<Rightarrow> eref list \<Rightarrow> nat ToplVertex" where
  "line_vertex i c es = (InitializeVertex [0, 1, 2, 3] (Some list_cache_init) i)
     \<lparr>v_color := c, v_edgeList := foldl (\<lambda>d e. DynArrayAppend d (Some e)) (DynArrayInit sizeof_ptr) es\<rparr>"

definition line_of_sites :: "(nat, ToplSched list) ToplGraphState" where
  "line_of_sites = sample_graph
     \<lparr>g_vertexNames := [0, 1, 2, 3],
      g_vertices := [line_vertex 0 COLOR_RED [0], line_vertex 1 COLOR_BLACK [0, 1], line_vertex 2 COLOR_BLACK [1, 2],
                     line_vertex 3 COLOR_RED [2]],
      g_store := map line_edge [0, 1, 2]\<rparr>"

text \<open>The field \<^verbatim>\<open>distToRed\<close> is not always the distance to the nearest red vertex, as its declaration says: when
  two red vertices of a component are joined through black ones, the search counts from the red vertex it
  came from. In a line of four sites whose ends are red, the third site gets distance 2 although its
  neighbour is red.\<close>

theorem distToRed_not_nearest:
  "map_option (map_sum id (\<lambda>g. map v_distToRed (g_vertices g))) (CalculateDistToRed line_of_sites) = Some (Inr [0, 1, 2, 0]) \<and>
   map v_color (g_vertices line_of_sites) = [COLOR_RED, COLOR_BLACK, COLOR_BLACK, COLOR_RED] \<and> (3, 2) \<in> adj line_of_sites"
proof (intro conjI)
  show "map_option (map_sum id (\<lambda>g. map v_distToRed (g_vertices g))) (CalculateDistToRed line_of_sites) = Some (Inr [0, 1, 2, 0])"
    by code_simp
  show "map v_color (g_vertices line_of_sites) = [COLOR_RED, COLOR_BLACK, COLOR_BLACK, COLOR_RED]"
    by code_simp
  show "(3, 2) \<in> adj line_of_sites"
    by (simp add: adj_def far_def EdgeGetVertex_def line_of_sites_def line_vertex_def line_edge_def)
qed

section \<open>A concrete instance\<close>

lemma two_red_search: "search_ok two_red"
proof -
  have n: "g_numVertices two_sites = 2" "length (g_store two_red) = 1" "g_store two_red = g_store two_sites"
    by (simp_all add: two_red_def two_sites_def sample_graph_def)
  have el: "v_edgeList (vtx two_red v) = v_edgeList (vtx two_sites v)" for v
    by (simp add: two_red_def vtx_upd_field [where fld = v_edgeList])
  have "v_edgeList (vtx two_sites v) = DynArrayAppend (DynArrayInit sizeof_ptr) (Some 0)" if "v < 2" for v
    using that by (auto simp: less_2_cases_iff two_sites_def sample_graph_def)
  then have refs: "dyn_array_ok (v_edgeList (vtx two_red v)) \<and> refs two_red v = [0]" if "v < 2" for v
    using that el by simp
  have "EdgeGetVertex two_red 0 0 = 0" "EdgeGetVertex two_red 0 1 = 1"
    unfolding EdgeGetVertex_def n(3) by (simp_all add: two_sites_def)
  then have "far two_red v 0 < 2" for v
    by (simp add: far_def)
  then show ?thesis
    using refs CheckMultiEdge_ok [OF two_red_facts(1), of 0] n(2) by (simp add: search_ok_def two_red_facts(2))
qed

theorem CalculateDistToRed_correct_witness:
  "\<exists>g. CalculateDistToRed two_red = Some (Inr g) \<and> v_distToRed (vtx g 1) = 0"
proof -
  have "v_color (vtx two_red 1) = COLOR_RED"
    using two_sites_ok by (simp add: two_red_def) (simp add: two_sites_def sample_graph_def)
  then show ?thesis
    using CalculateDistToRed_correct [OF two_red_search] by (auto simp: two_red_facts(2))
qed

end
