(* ===== verification/Topl_Components.thy ===== *)
theory Topl_Components
  imports Topl_Output
begin

text \<open>
  What \<^verbatim>\<open>ConstructComponents\<close> hands to the caller: one entry per component of the forest, listing the
  names of its colored vertices, the filter vertex's component first.
\<close>

section \<open>The components of a graph\<close>

text \<open>Every colored vertex has a component, whose root is colored.\<close>

definition comps_ok :: "('n, 't) ToplGraphState \<Rightarrow> bool" where
  "comps_ok g \<longleftrightarrow> ids_ok g \<and> (\<forall>v\<in>colored g. \<exists>r\<in>colored g. comp_of g v r)"

definition comp_roots :: "('n, 't) ToplGraphState \<Rightarrow> nat \<Rightarrow> vref list" where
  "comp_roots g i = filter (\<lambda>v. v \<in> colored g \<and> comp_of g v v) [0..<i]"

definition members :: "('n, 't) ToplGraphState \<Rightarrow> vref \<Rightarrow> nat \<Rightarrow> vref list" where
  "members g r i = filter (\<lambda>v. v \<in> colored g \<and> comp_of g v r) [0..<i]"

text \<open>The entry of a component.\<close>

definition component :: "('n, 't) ToplGraphState \<Rightarrow> vref \<Rightarrow> 'n TOPL_COMPONENT" where
  "component g r =
     \<lparr>tc_numVertices = length (members g r (g_numVertices g)),
      tc_vertexNames = Some (map (\<lambda>v. Some (v_vertexName (vtx g v))) (members g r (g_numVertices g)))\<rparr>"

section \<open>Searching components keeps everything else\<close>

definition tag where
  "tag r = (v_vtxId r, v_vertexName r, v_color r)"

definition comp_frame :: "('n, 't) ToplGraphState \<Rightarrow> ('n, 't) ToplGraphState \<Rightarrow> bool" where
  "comp_frame G g \<longleftrightarrow> ids_ok g \<and> g_numVertices g = g_numVertices G \<and> g_store g = g_store G \<and>
     (\<forall>v<g_numVertices G. tag (vtx g v) = tag (vtx G v) \<and> v_distToRed (vtx g v) = v_distToRed (vtx G v)) \<and>
     (\<forall>w s. comp_of G w s \<longrightarrow> comp_of g w s)"

lemma comp_frame_refl: "comps_ok g \<Longrightarrow> comp_frame g g"
  by (simp add: comp_frame_def comps_ok_def)

lemma comp_frame_colored:
  assumes "comp_frame G g"
  shows "colored g = colored G"
proof -
  have "v_color (vtx g v) = v_color (vtx G v)" if "v < g_numVertices G" for v
    using assms that by (simp add: comp_frame_def tag_def)
  then show ?thesis
    using assms by (auto simp: colored_def comp_frame_def)
qed

lemma GetComponent_frame:
  assumes ok: "comps_ok G" and fr: "comp_frame G g" and v: "v \<in> colored G"
  obtains r g' where "GetComponent g v = Some (r, g')" "comp_of G v r" "r \<in> colored G" "comp_frame G g'"
    "\<forall>w. v_componentIndex (vtx g' w) = v_componentIndex (vtx g w)"
proof -
  obtain r where r: "r \<in> colored G" "comp_of G v r"
    using ok v by (auto simp: comps_ok_def)
  have "ids_ok g" "comp_of g v r"
    using fr r(2) by (auto simp: comp_frame_def)
  then obtain g' where g': "GetComponent g v = Some (r, g')" "recomp g g'"
    by (rule GetComponent_spec)
  have "ids_ok g'"
    using recomp_frame [OF g'(2), of ids_ok] set_comp_ids \<open>ids_ok g\<close> by blast
  moreover have same: "tag (vtx g' w) = tag (vtx g w)" "v_componentIndex (vtx g' w) = v_componentIndex (vtx g w)"
    "v_distToRed (vtx g' w) = v_distToRed (vtx g w)" for w
    using recomp_vtx [OF g'(2), of tag] recomp_vtx [OF g'(2), of v_componentIndex] recomp_vtx [OF g'(2), of v_distToRed]
    by (simp_all add: tag_def)
  moreover have "comp_of g' w s" if "comp_of G w s" for w s
    using fr that recomp_comp_of [OF g'(2)] by (auto simp: comp_frame_def)
  ultimately have "comp_frame G g'"
    using fr recomp_graph [OF g'(2)] by (simp add: comp_frame_def)
  with g'(1) r show ?thesis
    using same(2) by (intro that) auto
qed

lemma comp_frame_upd:
  assumes "comp_frame G g" and "\<And>r. tag (f r) = tag r" and "\<And>r. v_distToRed (f r) = v_distToRed r" "\<And>r. v_componentId (f r) = v_componentId r"
  shows "comp_frame G (upd_vtx v f g)"
proof -
  have t: "tag (vtx (upd_vtx v f g) w) = tag (vtx g w)" "v_distToRed (vtx (upd_vtx v f g) w) = v_distToRed (vtx g w)"
    "v_componentId (vtx (upd_vtx v f g) w) = v_componentId (vtx g w)" for w
    by (rule vtx_upd_field, rule assms)+
  have "comp_of (upd_vtx v f g) = comp_of g"
    by (rule comp_of_cong) (simp_all add: t)
  moreover have "ids_ok (upd_vtx v f g) = ids_ok g"
    using t(1) by (simp add: ids_ok_def tag_def)
  ultimately show ?thesis
    using assms(1) by (simp add: comp_frame_def t)
qed

section \<open>Counting\<close>

definition indexed :: "('n, 't) ToplGraphState \<Rightarrow> vref list \<Rightarrow> bool" where
  "indexed g rs \<longleftrightarrow> (\<forall>j<length rs. v_componentIndex (vtx g (rs ! j)) = j)"

lemma count_step:
  assumes ok: "comps_ok G" and fr: "comp_frame G g" and i: "i < g_numVertices G" and ind: "indexed g (comp_roots G i)"
  shows "\<exists>g'. count_component i (g, length (comp_roots G i)) = Some (Inr (g', length (comp_roots G (Suc i)))) \<and>
    comp_frame G g' \<and> indexed g' (comp_roots G (Suc i))"
proof (cases "i \<in> colored G")
  case False
  then have "v_color (vtx g i) = COLOR_WHITE" "comp_roots G (Suc i) = comp_roots G i"
    using fr i by (auto simp: colored_def comp_frame_def tag_def comp_roots_def)
  with fr ind show ?thesis
    by (simp add: count_component_def)
next
  case True
  then have color: "v_color (vtx g i) \<noteq> COLOR_WHITE"
    using fr i by (auto simp: colored_def comp_frame_def tag_def)
  obtain r g' where g': "GetComponent g i = Some (r, g')" "comp_of G i r" "comp_frame G g'"
      "\<forall>w. v_componentIndex (vtx g' w) = v_componentIndex (vtx g w)"
    using ok fr True by (rule GetComponent_frame)
  have root: "comp_of G i i \<longleftrightarrow> r = i"
    using g'(2) comp_of_unique by blast
  have ind': "indexed g' (comp_roots G i)"
    using ind g'(4) by (simp add: indexed_def)
  show ?thesis
  proof (cases "r = i")
    case False
    then have "comp_roots G (Suc i) = comp_roots G i"
      using root by (simp add: comp_roots_def)
    with g' color False ind' show ?thesis
      by (simp add: count_component_def)
  next
    case root_i: True
    let ?n = "length (comp_roots G i)"
    let ?g = "upd_vtx i (\<lambda>r. r\<lparr>v_componentIndex := ?n\<rparr>) g'"
    have rs: "comp_roots G (Suc i) = comp_roots G i @ [i]"
      using root root_i True by (simp add: comp_roots_def)
    have "comp_frame G ?g"
      by (rule comp_frame_upd [OF g'(3)]) (simp_all add: tag_def)
    moreover have n: "i < g_numVertices g'"
      using g'(3) i by (simp add: comp_frame_def)
    have "i \<notin> set (comp_roots G i)"
      by (simp add: comp_roots_def)
    then have "indexed ?g (comp_roots G (Suc i))"
      unfolding rs indexed_def using ind' n by (auto simp: nth_append less_Suc_eq vtx_upd_if indexed_def dest: nth_mem)
    ultimately show ?thesis
      using g'(1) color root_i by (simp add: count_component_def rs)
  qed
qed

lemma CountComponents_spec:
  assumes ok: "comps_ok G"
  shows "\<exists>g. CountComponents G = Some (Inr (g, length (comp_roots G (g_numVertices G)))) \<and> comp_frame G g \<and>
    indexed g (comp_roots G (g_numVertices G))"
proof -
  have "\<exists>g. foldO count_component [0..<i] (G, 0) = Some (Inr (g, length (comp_roots G i))) \<and> comp_frame G g \<and> indexed g (comp_roots G i)"
    if "i \<le> g_numVertices G" for i
    using that
  proof (induction i)
    case 0
    then show ?case
      using comp_frame_refl [OF ok] by (simp add: comp_roots_def indexed_def)
  next
    case (Suc i)
    then obtain g where "foldO count_component [0..<i] (G, 0) = Some (Inr (g, length (comp_roots G i)))" "comp_frame G g"
        "indexed g (comp_roots G i)"
      by auto
    with count_step [OF ok, of g i] Suc.prems show ?case
      by (simp add: foldO_snoc)
  qed
  then show ?thesis
    by (simp add: CountComponents_def)
qed

section \<open>Listing\<close>

text \<open>The entry of a component after the first \<open>i\<close> vertices have been scanned.\<close>

definition partial :: "('n, 't) ToplGraphState \<Rightarrow> bool \<Rightarrow> nat \<Rightarrow> vref \<Rightarrow> 'n TOPL_COMPONENT" where
  "partial G fWriteToList i r =
     \<lparr>tc_numVertices = length (members G r i),
      tc_vertexNames =
        (if fWriteToList
         then Some (map (\<lambda>v. Some (v_vertexName (vtx G v))) (members G r i) @
                    replicate (length (members G r (g_numVertices G)) - length (members G r i)) None)
         else None)\<rparr>"

lemma members_Suc: "members G r (Suc i) = members G r i @ (if i \<in> colored G \<and> comp_of G i r then [i] else [])"
  by (simp add: members_def)

lemma members_mono: "i \<le> n \<Longrightarrow> length (members G r i) \<le> length (members G r n)"
  by (induction n) (auto simp: members_Suc le_Suc_eq)

lemma map_update_distinct:
  assumes "distinct xs" and "j < length xs" and "\<And>x. x \<in> set xs \<Longrightarrow> x \<noteq> xs ! j \<Longrightarrow> f x = h x"
  shows "(map f xs)[j := h (xs ! j)] = map h xs"
proof (rule nth_equalityI)
  fix i
  assume "i < length ((map f xs)[j := h (xs ! j)])"
  then have i: "i < length xs" by simp
  then have "xs ! i \<noteq> xs ! j" if "i \<noteq> j"
    using assms(1,2) that by (simp add: nth_eq_iff_index_eq)
  with i assms(3) [of "xs ! i"] show "(map f xs)[j := h (xs ! j)] ! i = map h xs ! i"
    by (cases "i = j") simp_all
qed simp

lemma roots_distinct: "distinct (comp_roots G i)"
  by (simp add: comp_roots_def)

lemma scan_step:
  assumes ok: "comps_ok G" and fr: "comp_frame G g" and i: "i < g_numVertices G"
    and ind: "indexed g rs" and rs: "rs = comp_roots G (g_numVertices G)"
  shows "\<exists>g'. scan_vertex fW i (g, map (partial G fW i) rs) = Some (Inr (g', map (partial G fW (Suc i)) rs)) \<and>
    comp_frame G g' \<and> indexed g' rs"
proof (cases "i \<in> colored G")
  case False
  then have "v_color (vtx g i) = COLOR_WHITE" "partial G fW (Suc i) = partial G fW i"
    using fr i by (auto simp: colored_def comp_frame_def tag_def partial_def members_Suc fun_eq_iff)
  with fr ind show ?thesis
    by (simp add: scan_vertex_def)
next
  case True
  then have color: "v_color (vtx g i) \<noteq> COLOR_WHITE"
    using fr i by (auto simp: colored_def comp_frame_def tag_def)
  obtain r g' where g': "GetComponent g i = Some (r, g')" "comp_of G i r" "r \<in> colored G" "comp_frame G g'"
      "\<forall>w. v_componentIndex (vtx g' w) = v_componentIndex (vtx g w)"
    using ok fr True by (rule GetComponent_frame)
  have "r \<in> set rs"
    unfolding rs comp_roots_def using g'(3) comp_of_root [OF g'(2)] by (auto simp: colored_def)
  then obtain j where j: "j < length rs" "rs ! j = r"
    by (auto simp: in_set_conv_nth)
  have ind': "indexed g' rs"
    using ind g'(5) by (simp add: indexed_def)
  have index: "v_componentIndex (vtx g' r) = j"
    using ind' j by (auto simp: indexed_def)
  have name: "v_vertexName (vtx g' i) = v_vertexName (vtx G i)"
    using g'(4) i by (simp add: comp_frame_def tag_def)
  have other: "partial G fW i x = partial G fW (Suc i) x" if "x \<noteq> r" for x
    using that g'(2) comp_of_unique [of G i r x] by (auto simp: partial_def members_Suc)
  have ms: "members G r (Suc i) = members G r i @ [i]"
    using True g'(2) by (simp add: members_Suc)
  have "length (members G r (Suc i)) \<le> length (members G r (g_numVertices G))"
    using i by (intro members_mono) simp
  then have "replicate (length (members G r (g_numVertices G)) - length (members G r i)) (None :: 'a option) =
      None # replicate (length (members G r (g_numVertices G)) - Suc (length (members G r i))) None"
    by (simp add: ms Suc_diff_le flip: replicate_Suc)
  then have step: "(if fW
      then (partial G fW i r)\<lparr>tc_vertexNames := map_option (\<lambda>a. a[tc_numVertices (partial G fW i r) := Some (v_vertexName (vtx g' i))])
             (tc_vertexNames (partial G fW i r))\<rparr>
      else partial G fW i r)\<lparr>tc_numVertices := tc_numVertices (partial G fW i r) + 1\<rparr> = partial G fW (Suc i) r"
    by (simp add: partial_def ms name list_update_append)
  have "(map (partial G fW i) rs)[j := partial G fW (Suc i) (rs ! j)] = map (partial G fW (Suc i)) rs"
  proof (rule map_update_distinct)
    show "distinct rs"
      unfolding rs by (rule roots_distinct)
  qed (use other j in auto)
  then show ?thesis
    using g'(1,4) color ind' index j step by (auto simp: scan_vertex_def Let_def)
qed

lemma ScanVertices_spec:
  assumes ok: "comps_ok G" and fr: "comp_frame G g" and ind: "indexed g rs" and rs: "rs = comp_roots G (g_numVertices G)"
    and start: "map (\<lambda>c. c\<lparr>tc_numVertices := 0\<rparr>) cs = map (partial G fW 0) rs"
  shows "\<exists>g'. ScanVertices g fW cs = Some (Inr (g', map (partial G fW (g_numVertices G)) rs)) \<and> comp_frame G g' \<and> indexed g' rs"
proof -
  have "\<exists>g'. foldO (scan_vertex fW) [0..<i] (g, map (partial G fW 0) rs) = Some (Inr (g', map (partial G fW i) rs)) \<and>
      comp_frame G g' \<and> indexed g' rs" if "i \<le> g_numVertices G" for i
    using that
  proof (induction i)
    case 0
    then show ?case
      using fr ind by simp
  next
    case (Suc i)
    then obtain g' where "foldO (scan_vertex fW) [0..<i] (g, map (partial G fW 0) rs) = Some (Inr (g', map (partial G fW i) rs))"
        "comp_frame G g'" "indexed g' rs"
      by auto
    with scan_step [OF ok _ _ _ rs, of g' i fW] Suc.prems show ?case
      by (simp add: foldO_snoc)
  qed
  moreover have "g_numVertices g = g_numVertices G"
    using fr by (simp add: comp_frame_def)
  ultimately show ?thesis
    by (simp add: ScanVertices_def start)
qed

section \<open>The filter vertex first\<close>

lemma map_swap:
  "i < length xs \<Longrightarrow> j < length xs \<Longrightarrow> (map f xs)[i := map f xs ! j, j := map f xs ! i] = map f (xs[i := xs ! j, j := xs ! i])"
  by (simp add: map_update)

lemma comp_frame_map:
  assumes "comp_frame G g" and "\<And>r. tag (f r) = tag r" and "\<And>r. v_distToRed (f r) = v_distToRed r" "\<And>r. v_componentId (f r) = v_componentId r"
  shows "comp_frame G (g\<lparr>g_vertices := map f (g_vertices g)\<rparr>)"
proof -
  let ?g = "g\<lparr>g_vertices := map f (g_vertices g)\<rparr>"
  have "comp_of ?g = comp_of g"
    by (rule comp_of_cong) (simp_all add: assms)
  moreover have "ids_ok ?g = ids_ok g"
    using assms(2) by (simp add: ids_ok_def tag_def)
  ultimately show ?thesis
    using assms by (simp add: comp_frame_def)
qed

lemma Swap_spec:
  assumes ok: "comps_ok G" and fr: "comp_frame G g" and ind: "indexed g rs" and rs: "rs = comp_roots G (g_numVertices G)"
    and w: "\<And>w. which = Some w \<Longrightarrow> w \<in> colored G"
  shows "\<exists>g' rs'. SwapFilterVertexToFront g which (map f rs) = Some (Inr (g', map f rs')) \<and> comp_frame G g' \<and>
    distinct rs' \<and> set rs' = set rs \<and> (\<forall>w. which = Some w \<longrightarrow> comp_of G w (hd rs'))"
proof (cases which)
  case None
  then show ?thesis
    using fr roots_distinct rs by (auto simp: SwapFilterVertexToFront_def)
next
  case (Some w)
  have wc: "w \<in> colored G"
    using w Some by blast
  obtain r g' where g': "GetComponent g w = Some (r, g')" "comp_of G w r" "r \<in> colored G" "comp_frame G g'"
      "\<forall>w. v_componentIndex (vtx g' w) = v_componentIndex (vtx g w)"
    using ok fr wc by (rule GetComponent_frame)
  have "r \<in> set rs"
    unfolding rs comp_roots_def using g'(3) comp_of_root [OF g'(2)] by (auto simp: colored_def)
  then obtain j where j: "j < length rs" "rs ! j = r"
    by (auto simp: in_set_conv_nth)
  have index: "v_componentIndex (vtx g' r) = j"
    using ind g'(5) j by (auto simp: indexed_def)
  let ?rs = "rs[0 := rs ! j, j := rs ! 0]"
  have "0 < length rs"
    using j(1) by auto
  then have "distinct ?rs" "set ?rs = set rs" "hd ?rs = r"
    using j roots_distinct [of G] rs by (auto simp: distinct_swap hd_conv_nth nth_list_update)
  moreover have "comp_frame G (g'\<lparr>g_vertices := map (\<lambda>r. r\<lparr>v_componentIndex := 0\<rparr>) (g_vertices g')\<rparr>)"
    by (rule comp_frame_map [OF g'(4)]) (simp_all add: tag_def)
  moreover have "(map f rs)[0 := map f rs ! j, j := map f rs ! 0] = map f ?rs"
    using \<open>0 < length rs\<close> j(1) by (intro map_swap)
  ultimately show ?thesis
    using g'(1,2) index Some by (auto simp: SwapFilterVertexToFront_def Let_def intro!: exI [of _ ?rs])
qed

lemma partial_full: "partial G True (g_numVertices G) = component G"
  by (simp add: partial_def component_def fun_eq_iff)

lemma ConstructComponents_spec:
  assumes ok: "comps_ok G" and w: "\<And>w. which = Some w \<Longrightarrow> w \<in> colored G"
  shows "\<exists>g rs. ConstructComponents G which True = Some (Inr (g, Some (map (component G) rs))) \<and> comp_frame G g \<and>
    distinct rs \<and> set rs = {r \<in> colored G. comp_of G r r} \<and> (\<forall>w. which = Some w \<longrightarrow> comp_of G w (hd rs))"
proof -
  let ?n = "g_numVertices G" and ?rs = "comp_roots G (g_numVertices G)"
  obtain g1 where g1: "CountComponents G = Some (Inr (g1, length ?rs))" "comp_frame G g1" "indexed g1 ?rs"
    using CountComponents_spec [OF ok] by blast
  obtain g2 where g2: "ScanVertices g1 False (replicate (length ?rs) \<lparr>tc_numVertices = 0, tc_vertexNames = None\<rparr>) =
      Some (Inr (g2, map (partial G False ?n) ?rs))" "comp_frame G g2" "indexed g2 ?rs"
  proof -
    have "map (\<lambda>c. c\<lparr>tc_numVertices := 0\<rparr>) (replicate (length ?rs) \<lparr>tc_numVertices = 0, tc_vertexNames = None\<rparr>) =
        map (partial G False 0) ?rs"
      by (rule nth_equalityI) (simp_all add: partial_def members_def)
    from ScanVertices_spec [OF ok g1(2,3) refl this] that show ?thesis
      by blast
  qed
  let ?cs = "map (\<lambda>c. c\<lparr>tc_vertexNames := Some (replicate (tc_numVertices c) None)\<rparr>) (map (partial G False ?n) ?rs)"
  have "map (\<lambda>c. c\<lparr>tc_numVertices := 0\<rparr>) ?cs = map (partial G True 0) ?rs"
    by (simp add: partial_def members_def)
  from ScanVertices_spec [OF ok g2(2,3) refl this]
  obtain g3 where g3: "ScanVertices g2 True ?cs = Some (Inr (g3, map (component G) ?rs))" "comp_frame G g3" "indexed g3 ?rs"
    unfolding partial_full by blast
  obtain g4 rs where g4: "SwapFilterVertexToFront g3 which (map (component G) ?rs) = Some (Inr (g4, map (component G) rs))"
      "comp_frame G g4" "distinct rs" "set rs = set ?rs" "\<forall>w. which = Some w \<longrightarrow> comp_of G w (hd rs)"
    using Swap_spec [OF ok g3(2,3) refl w, where f = "component G"] by blast
  have "set ?rs = {r \<in> colored G. comp_of G r r}"
    by (auto simp: comp_roots_def colored_def)
  with g4 g1(1) g2(1) g3(1) show ?thesis
    by (intro exI [of _ g4] exI [of _ rs]) (simp add: ConstructComponents_def Let_def)
qed

section \<open>Properties\<close>

text \<open>C16. \<^verbatim>\<open>ConstructComponents\<close> terminates and describes the components of the spanning forest: there is
  one entry per component root, each entry lists the names of the colored vertices of that component in
  the order of the vertices together with their number, every colored vertex is in exactly one entry,
  and the entry of the filter vertex, if any, comes first. Only component ids and indices change.\<close>

theorem ConstructComponents_correct:
  assumes "comps_ok G" and "whichVertex = None \<or> the whichVertex \<in> colored G"
  shows "\<exists>g rs. ConstructComponents G whichVertex True = Some (Inr (g, Some (map (component G) rs))) \<and> comp_frame G g \<and>
    distinct rs \<and> set rs = {r \<in> colored G. comp_of G r r} \<and>
    (\<forall>v\<in>colored G. \<exists>!r. r \<in> set rs \<and> v \<in> set (members G r (g_numVertices G))) \<and>
    (whichVertex = None \<or> comp_of G (the whichVertex) (hd rs))"
proof -
  obtain g rs where *: "ConstructComponents G whichVertex True = Some (Inr (g, Some (map (component G) rs)))" "comp_frame G g"
      "distinct rs" "set rs = {r \<in> colored G. comp_of G r r}" "\<forall>w. whichVertex = Some w \<longrightarrow> comp_of G w (hd rs)"
  proof -
    have "\<And>w. whichVertex = Some w \<Longrightarrow> w \<in> colored G"
      using assms(2) by auto
    from ConstructComponents_spec [OF assms(1) this] that show ?thesis
      by blast
  qed
  have "\<exists>!r. r \<in> set rs \<and> v \<in> set (members G r (g_numVertices G))" if v: "v \<in> colored G" for v
  proof -
    obtain r where r: "r \<in> colored G" "comp_of G v r"
      using assms(1) v by (auto simp: comps_ok_def)
    have "v \<in> set (members G s (g_numVertices G)) \<longleftrightarrow> s = r" for s
      using v r(2) comp_of_unique [of G v r s] by (auto simp: members_def colored_def)
    moreover have "r \<in> set rs"
      using r comp_of_root [OF r(2)] by (simp add: *(4))
    ultimately show ?thesis by auto
  qed
  then show ?thesis
    using * by (intro exI [of _ g] exI [of _ rs]) (cases whichVertex; simp)
qed

section \<open>A concrete instance\<close>

theorem ConstructComponents_correct_witness:
  "\<exists>g rs. ConstructComponents two_red (Some 1) True = Some (Inr (g, Some (map (component two_red) rs))) \<and>
     comp_of two_red 1 (hd rs)"
proof -
  have "comp_of two_red v v" if "v \<in> colored two_red" for v
    using that up_root [of v two_red] two_red_facts(2,4) by (auto simp: comp_of_def colored_def)
  then have "comps_ok two_red"
    using two_red_facts(5) by (auto simp: comps_ok_def)
  from ConstructComponents_correct [OF this, of "Some 1"] show ?thesis
    by (auto simp: two_red_facts(3))
qed

end
