(* ===== verification/Topl_IntEdges.thy ===== *)
theory Topl_IntEdges
  imports Topl_Output
begin

text \<open>
  The first phase of \<^verbatim>\<open>ToplGetSpanningTreeEdgesForVtx\<close> as a whole: the edge lists of an edge set, the
  shortest-path forests over it, and the internal edges collected from them. An internal edge stands for
  a path over the edges of one edge set, or over a single edge; and, when all colored vertices accept
  all edge types, the internal edges connect all colored vertices that such paths connect.
\<close>

section \<open>Edge lists of an edge set\<close>

text \<open>All vertices of the edges of the graph have been named.\<close>

definition names_set :: "('n, 't) ToplGraphState \<Rightarrow> bool" where
  "names_set g \<longleftrightarrow> (\<forall>e\<in>set (dyn_list (g_masterEdgeList g)). \<forall>nm\<in>set (e_vertexNames (edge g e)). nm_name nm \<noteq> None)"

lemma foldE_check:
  assumes "\<And>x. x \<in> set xs \<Longrightarrow> f x () = Inr () \<or> (\<exists>ex. f x () = Inl ex)"
  shows "foldE f xs () = Inr () \<longleftrightarrow> (\<forall>x\<in>set xs. f x () = Inr ())"
  using assms by (induction xs) (auto simp: bindE_def split: sum.splits)

lemma CheckAllMultiEdges_iff:
  assumes "graph_ok g"
  shows "CheckAllMultiEdges g = Inr () \<longleftrightarrow> names_set g"
proof -
  have mel: "dyn_array_ok (g_masterEdgeList g)" "\<And>e. e \<in> set (dyn_list (g_masterEdgeList g)) \<Longrightarrow> CheckMultiEdge g (Some e) = Inr e"
    using assms CheckMultiEdge_ok [OF assms] by (auto simp: graph_ok_def)
  show ?thesis
    unfolding CheckAllMultiEdges_def dyn_walk_list [OF mel(1)] names_set_def
    by (subst foldE_check) (auto simp: check_names_def mel(2) raise_if_def)
qed

lemma master_walk:
  assumes "graph_ok g" and "names_set g" and "e \<in> set (dyn_list (g_masterEdgeList g))" and "w \<in> set (edge_walk g e)"
  shows "w < g_numVertices g" "e < length (g_store g)"
proof -
  show e: "e < length (g_store g)"
    using assms(1,3) by (auto simp: graph_ok_def)
  obtain nm where nm: "nm \<in> set (e_vertexNames (edge g e))" "w = nm_reserved nm"
    using assms(4) nth_mem by (fastforce simp: edge_walk_def EdgeGetVertex_def)
  then have "nm_name nm \<noteq> None"
    using assms(2,3) by (auto simp: names_set_def)
  then show "w < g_numVertices g"
    using assms(1) e nm by (auto simp: graph_ok_def edge_ok_def)
qed

text \<open>Two graphs that differ in edge lists only.\<close>

definition relisted :: "('n, 't) ToplGraphState \<Rightarrow> ('n, 't) ToplGraphState \<Rightarrow> bool" where
  "relisted g g' \<longleftrightarrow> g' = g\<lparr>g_vertices := g_vertices g'\<rparr> \<and> g_numVertices g' = g_numVertices g \<and>
     (\<forall>v<g_numVertices g. vtx g' v = (vtx g v)\<lparr>v_edgeList := v_edgeList (vtx g' v)\<rparr> \<and> dyn_array_ok (v_edgeList (vtx g' v)))"

abbreviation refs_at :: "('n, 't) ToplGraphState \<Rightarrow> vref \<Rightarrow> eref set" where
  "refs_at g v \<equiv> set (dyn_list (v_edgeList (vtx g v)))"

lemma relisted_trans: "relisted g g' \<Longrightarrow> relisted g' g'' \<Longrightarrow> relisted g g''"
  unfolding relisted_def
proof (elim conjE, intro conjI)
  assume a: "g' = g\<lparr>g_vertices := g_vertices g'\<rparr>" "g'' = g'\<lparr>g_vertices := g_vertices g''\<rparr>"
  show "g'' = g\<lparr>g_vertices := g_vertices g''\<rparr>"
    by (subst a(2), subst a(1)) simp
next
  assume a: "\<forall>v<g_numVertices g. vtx g' v = (vtx g v)\<lparr>v_edgeList := v_edgeList (vtx g' v)\<rparr> \<and> dyn_array_ok (v_edgeList (vtx g' v))"
    "\<forall>v<g_numVertices g'. vtx g'' v = (vtx g' v)\<lparr>v_edgeList := v_edgeList (vtx g'' v)\<rparr> \<and> dyn_array_ok (v_edgeList (vtx g'' v))"
    "g_numVertices g' = g_numVertices g"
  show "\<forall>v<g_numVertices g. vtx g'' v = (vtx g v)\<lparr>v_edgeList := v_edgeList (vtx g'' v)\<rparr> \<and> dyn_array_ok (v_edgeList (vtx g'' v))"
  proof (intro allI impI conjI)
    fix v
    assume v: "v < g_numVertices g"
    have "vtx g'' v = ((vtx g v)\<lparr>v_edgeList := v_edgeList (vtx g' v)\<rparr>)\<lparr>v_edgeList := v_edgeList (vtx g'' v)\<rparr>"
      using a v by metis
    then show "vtx g'' v = (vtx g v)\<lparr>v_edgeList := v_edgeList (vtx g'' v)\<rparr>"
      by simp
  qed (use a in simp)
qed simp

lemma relisted_fields:
  assumes "relisted g g'"
  shows "g_numVertices g' = g_numVertices g" "g_store g' = g_store g" "g_masterEdgeList g' = g_masterEdgeList g"
    "g_edgeSets g' = g_edgeSets g" "g_schedCache g' = g_schedCache g" "edge_walk g' e = edge_walk g e"
    "g_magicStart g' = g_magicStart g" "g_magicEnd g' = g_magicEnd g" "g_nonnull g' = g_nonnull g"
    "g_vnCompFunc g' = g_vnCompFunc g" "g_vertexNames g' = g_vertexNames g"
proof -
  have eq: "g' = g\<lparr>g_vertices := g_vertices g'\<rparr>"
    using assms by (simp add: relisted_def)
  show "g_numVertices g' = g_numVertices g"
    using assms by (simp add: relisted_def)
  show st: "g_store g' = g_store g" "g_masterEdgeList g' = g_masterEdgeList g"
    "g_edgeSets g' = g_edgeSets g" "g_schedCache g' = g_schedCache g" "g_magicStart g' = g_magicStart g"
    "g_magicEnd g' = g_magicEnd g" "g_nonnull g' = g_nonnull g"
    "g_vnCompFunc g' = g_vnCompFunc g" "g_vertexNames g' = g_vertexNames g"
    by (subst eq, simp)+
  show "edge_walk g' e = edge_walk g e"
    by (simp add: edge_walk_def EdgeGetVertex_def st(1))
qed

lemma relisted_vtx:
  assumes "relisted g g'" and "v < g_numVertices g" and "\<And>r l. fld (r\<lparr>v_edgeList := l\<rparr>) = fld r"
  shows "fld (vtx g' v) = fld (vtx g v)"
proof -
  have "vtx g' v = (vtx g v)\<lparr>v_edgeList := v_edgeList (vtx g' v)\<rparr>"
    using assms(1,2) by (simp add: relisted_def)
  then show ?thesis
    using assms(3) by metis
qed

lemma relisted_graph_ok:
  assumes "relisted g g'" and "graph_ok g"
  shows "graph_ok g'"
proof -
  note f = relisted_fields [OF assms(1)]
  have v: "v_vtxId (vtx g' i) = v_vtxId (vtx g i)" "v_vertexName (vtx g' i) = v_vertexName (vtx g i)" "dyn_array_ok (v_edgeList (vtx g' i))"
    if "i < g_numVertices g" for i
    using relisted_vtx [OF assms(1) that, of v_vtxId] relisted_vtx [OF assms(1) that, of v_vertexName] assms(1) that
    by (simp_all add: relisted_def)
  have "edge_ok g' e = edge_ok g e" "edge_set_ok g' s = edge_set_ok g s" for e s
    by (simp_all add: edge_ok_def edge_set_ok_def f)
  then show ?thesis
    using assms(2) v by (simp add: graph_ok_def f)
qed

lemma ClearEdgeLists_relisted: "relisted g (ClearEdgeLists g)" "v < g_numVertices g \<Longrightarrow> refs_at (ClearEdgeLists g) v = {}"
  by (simp_all add: relisted_def ClearEdgeLists_def)

lemma add_list_relisted:
  assumes "relisted g h" and "v < g_numVertices g"
  shows "relisted g (add_to_edge_list e v h)"
    "w < g_numVertices g \<Longrightarrow> refs_at (add_to_edge_list e v h) w = refs_at h w \<union> (if w = v then {e} else {})"
proof -
  have n: "g_numVertices h = g_numVertices g" and h: "h = g\<lparr>g_vertices := g_vertices h\<rparr>"
    and vt: "\<And>x. x < g_numVertices g \<Longrightarrow> vtx h x = (vtx g x)\<lparr>v_edgeList := v_edgeList (vtx h x)\<rparr>"
      "\<And>x. x < g_numVertices g \<Longrightarrow> dyn_array_ok (v_edgeList (vtx h x))"
    using assms(1) by (auto simp: relisted_def)
  let ?h = "add_to_edge_list e v h"
  have "?h = g\<lparr>g_vertices := g_vertices ?h\<rparr>"
    by (subst h) (simp add: add_to_edge_list_def upd_vtx_def)
  moreover have "vtx ?h x = (vtx g x)\<lparr>v_edgeList := v_edgeList (vtx ?h x)\<rparr> \<and> dyn_array_ok (v_edgeList (vtx ?h x))"
    if x: "x < g_numVertices g" for x
  proof (cases "x = v")
    case True
    have "vtx ?h v = (vtx h v)\<lparr>v_edgeList := DynArrayAppend (v_edgeList (vtx h v)) (Some e)\<rparr>"
      using assms(2) n by (simp add: add_to_edge_list_def)
    moreover have "\<dots> = (vtx g v)\<lparr>v_edgeList := DynArrayAppend (v_edgeList (vtx h v)) (Some e)\<rparr>"
      by (subst vt(1) [OF assms(2)]) simp
    ultimately show ?thesis
      using vt(2) [OF assms(2)] True by simp
  next
    case False
    then have "vtx ?h x = vtx h x"
      by (simp add: add_to_edge_list_def)
    with vt [OF x] show ?thesis by simp
  qed
  ultimately show "relisted g ?h"
    using n by (simp add: relisted_def add_to_edge_list_def)
  show "refs_at ?h w = refs_at h w \<union> (if w = v then {e} else {})" if "w < g_numVertices g"
    using add_to_edge_list_edges(2) [of w h v e] assms(2) that vt(2) n by auto
qed

lemma add_walk_relisted:
  assumes "relisted g h" and "set ws \<subseteq> {..<g_numVertices g}"
  shows "relisted g (fold (add_to_edge_list e) ws h) \<and>
    (\<forall>w<g_numVertices g. refs_at (fold (add_to_edge_list e) ws h) w = refs_at h w \<union> (if w \<in> set ws then {e} else {}))"
  using assms
proof (induction ws arbitrary: h)
  case (Cons v ws)
  then have "v < g_numVertices g" by simp
  note ad = add_list_relisted [OF Cons.prems(1) this, where e = e]
  from Cons.IH [OF ad(1)] Cons.prems(2) ad(2) show ?case
    by auto
qed simp

text \<open>The edges of a list are entered at all their vertices.\<close>

lemma setup_fold:
  assumes ok: "graph_ok g" "names_set g" and "set es \<subseteq> set (dyn_list (g_masterEdgeList g))" and "relisted g h"
  shows "\<exists>h'. foldE setup_edge (map Some es) (h, t) = Inr (h', if es = [] then t else e_edgeType (edge g (last es))) \<and> relisted g h' \<and>
    (\<forall>v<g_numVertices g. refs_at h' v = refs_at h v \<union> {e \<in> set es. v \<in> set (edge_walk g e)})"
  using assms(3,4)
proof (induction es arbitrary: h t)
  case (Cons e es)
  have e: "e \<in> set (dyn_list (g_masterEdgeList g))"
    using Cons.prems(1) by simp
  note f = relisted_fields [OF Cons.prems(2)]
  have "e < length (g_store h)" "graph_ok h"
    using ok e relisted_graph_ok [OF Cons.prems(2) ok(1)] by (auto simp: graph_ok_def f(2))
  then have check: "CheckMultiEdge h (Some e) = Inr e"
    by (simp add: CheckMultiEdge_ok)
  have "set (edge_walk g e) \<subseteq> {..<g_numVertices g}"
    using master_walk(1) [OF ok e] by auto
  note h1 = add_walk_relisted [OF Cons.prems(2) this, of e]
  let ?h = "fold (add_to_edge_list e) (edge_walk g e) h"
  have step: "setup_edge (Some e) (h, t) = Inr (?h, e_edgeType (edge g e))"
    by (simp add: setup_edge_def check f(2,6))
  from Cons.IH [of ?h "e_edgeType (edge g e)"] Cons.prems(1) h1
  obtain h' where "foldE setup_edge (map Some es) (?h, e_edgeType (edge g e)) =
      Inr (h', if es = [] then e_edgeType (edge g e) else e_edgeType (edge g (last es)))" "relisted g h'"
      "\<forall>v<g_numVertices g. refs_at h' v = refs_at ?h v \<union> {e \<in> set es. v \<in> set (edge_walk g e)}"
    by auto
  with step h1 show ?case
    by auto
qed auto

text \<open>Edge set \<open>i\<close> of a graph.\<close>

definition edge_set :: "('n, 't) ToplGraphState \<Rightarrow> nat \<Rightarrow> eref list" where
  "edge_set g i = map the (the (dyn_list (g_edgeSets g) ! i))"

lemma edge_set_facts:
  assumes "graph_ok g" and "i < DynArrayGetCount (g_edgeSets g)"
  shows "DynArrayRetrieve (g_edgeSets g) i = Some (Some (map Some (edge_set g i)))" "edge_set g i \<noteq> []"
    "set (edge_set g i) \<subseteq> set (dyn_list (g_masterEdgeList g))"
    "\<forall>e\<in>set (edge_set g i). e_edgeType (edge g e) = e_edgeType (edge g (last (edge_set g i)))"
proof -
  have da: "dyn_array_ok (g_edgeSets g)" and i: "i < length (dyn_list (g_edgeSets g))"
    using assms by (auto simp: graph_ok_def val_array.count_contents)
  then have "edge_set_ok g (dyn_list (g_edgeSets g) ! i)"
    using assms(1) by (auto simp: graph_ok_def)
  then obtain es where es: "dyn_list (g_edgeSets g) ! i = Some (map Some es)" "2 \<le> length es"
      "set es \<subseteq> set (dyn_list (g_masterEdgeList g))" "\<forall>e\<in>set es. e_edgeType (edge g e) = e_edgeType (edge g (hd es))"
    by (auto simp: edge_set_ok_def)
  have eq: "edge_set g i = es"
    by (simp add: edge_set_def es(1) o_def)
  show "DynArrayRetrieve (g_edgeSets g) i = Some (Some (map Some (edge_set g i)))"
    using val_array.retrieve_contents [OF da assms(2)] es(1) eq by simp
  show "edge_set g i \<noteq> []" "set (edge_set g i) \<subseteq> set (dyn_list (g_masterEdgeList g))"
    using es(2,3) by (auto simp: eq)
  have "last es \<in> set es"
    using es(2) by (intro last_in_set) auto
  then show "\<forall>e\<in>set (edge_set g i). e_edgeType (edge g e) = e_edgeType (edge g (last (edge_set g i)))"
    using es(4) by (simp add: eq)
qed

lemma SetupEdges_spec:
  assumes ok: "graph_ok g" "names_set g" and i: "i < DynArrayGetCount (g_edgeSets g)"
  obtains h where "SetupEdges g i = Inr (h, e_edgeType (edge g (last (edge_set g i))))" "relisted g h" "arcs_ok h"
    "\<And>u. u < g_numVertices g \<Longrightarrow> arcs h u =
      {(e, w). e \<in> set (edge_set g i) \<and> u \<in> set (edge_walk g e) \<and> w \<in> set (edge_walk g e)}"
    "\<And>u. u < g_numVertices g \<Longrightarrow> refs_at h u = {e \<in> set (edge_set g i). u \<in> set (edge_walk g e)}"
proof -
  note es = edge_set_facts [OF ok(1) i]
  obtain h where h: "foldE setup_edge (map Some (edge_set g i)) (ClearEdgeLists g, 0) =
      Inr (h, e_edgeType (edge g (last (edge_set g i))))" "relisted g h"
      "\<forall>v<g_numVertices g. refs_at h v = {e \<in> set (edge_set g i). v \<in> set (edge_walk g e)}"
  proof -
    have "refs_at (ClearEdgeLists g) v = {}" if "v < g_numVertices g" for v
      using that by (rule ClearEdgeLists_relisted(2))
    then show ?thesis
      using setup_fold [OF ok es(3) ClearEdgeLists_relisted(1), of 0] es(2) that by auto
  qed
  note f = relisted_fields [OF h(2)]
  have "SetupEdges g i = Inr (h, e_edgeType (edge g (last (edge_set g i))))"
    using h(1) es(1) relisted_fields(4) [OF ClearEdgeLists_relisted(1), of g] by (simp add: SetupEdges_def CheckMultiEdgeSet_def)
  moreover have "arcs_ok h"
    using relisted_graph_ok [OF h(2) ok(1)] h(3) master_walk [OF ok] es(3) by (auto simp: arcs_ok_def f)
  moreover have "arcs h u = {(e, w). e \<in> set (edge_set g i) \<and> u \<in> set (edge_walk g e) \<and> w \<in> set (edge_walk g e)}"
    if "u < g_numVertices g" for u
    using h(3) that by (auto simp: arcs_def f(6))
  ultimately show ?thesis
    using that [OF _ h(2)] h(3) by blast
qed

section \<open>Paths over a set of edges\<close>

inductive set_path :: "('n, 't) ToplGraphState \<Rightarrow> eref set \<Rightarrow> vref \<Rightarrow> vref \<Rightarrow> nat \<Rightarrow> bool" for g es r where
  set_start: "set_path g es r r 0"
| set_step: "set_path g es r u c \<Longrightarrow> e \<in> es \<Longrightarrow> u \<in> set (edge_walk g e) \<Longrightarrow> w \<in> set (edge_walk g e) \<Longrightarrow>
    set_path g es r w (c + unat (ecost g e))"

lemma set_path_trans: "set_path g es v w d \<Longrightarrow> set_path g es u v c \<Longrightarrow> set_path g es u w (c + d)"
proof (induction rule: set_path.induct)
  case (set_step x d e w)
  from set_path.set_step [OF set_step.IH [OF set_step.prems] set_step.hyps(2-4)] show ?case
    by (simp add: add.assoc)
qed simp

lemma set_path_sym: "set_path g es u v c \<Longrightarrow> set_path g es v u c"
proof (induction rule: set_path.induct)
  case (set_step v c e w)
  have "set_path g es w v (0 + unat (ecost g e))"
    by (rule set_path.set_step [OF set_path.set_start]) (use set_step.hyps in auto)
  from set_path_trans [OF set_step.IH this] show ?case
    by (simp add: add.commute)
qed (rule set_path.set_start)

lemma set_path_cong:
  assumes "set_path g es u v c" and "g_store g' = g_store g"
  shows "set_path g' es u v c"
  using assms(1)
proof induction
  case (set_step v c e w)
  have "edge_walk g' e = edge_walk g e" "ecost g' e = ecost g e"
    by (simp_all add: edge_walk_def EdgeGetVertex_def assms(2))
  with set_path.set_step [OF set_step.IH, of e w] set_step.hyps show ?case
    by simp
qed (rule set_path.set_start)

lemma path_cost_set_path:
  assumes "path_cost h r v c" and "r < g_numVertices h" and "arcs_ok h"
    and "\<And>u. u < g_numVertices h \<Longrightarrow> arcs h u = {(e, w). e \<in> es \<and> u \<in> set (edge_walk h e) \<and> w \<in> set (edge_walk h e)}"
  shows "set_path h es r v c"
  using assms(1)
proof induction
  case (path_step u c e w)
  have "u < g_numVertices h"
    by (rule path_valid [OF path_step.hyps(1) assms(3,2)])
  with path_step assms(4) show ?case
    by (auto intro: set_path.set_step)
qed (rule set_path.set_start)

lemma set_path_path_cost:
  assumes "set_path h es r v c" and "r < g_numVertices h" and "arcs_ok h"
    and "\<And>u. u < g_numVertices h \<Longrightarrow> arcs h u = {(e, w). e \<in> es \<and> u \<in> set (edge_walk h e) \<and> w \<in> set (edge_walk h e)}"
  shows "path_cost h r v c"
  using assms(1)
proof induction
  case (set_step u c e w)
  have "u < g_numVertices h"
    by (rule path_valid [OF set_step.IH assms(3,2)])
  with set_step assms(4) show ?case
    by (intro path_cost.path_step) auto
qed (rule path_cost.path_start)

section \<open>Labelled graphs and internal edges\<close>

text \<open>
  The state in which edges are turned into internal edges: every vertex that has a root is reached from
  it over the edges \<open>es\<close> at its cost, every colored vertex without a root is demoted, and all schedules
  are cached and open at \<open>k\<close>.
\<close>

definition labelled ::
  "('t \<Rightarrow> bool) \<Rightarrow> ('t \<Rightarrow> ToplSched list) \<Rightarrow> nat \<Rightarrow> eref set \<Rightarrow> ('n, 't) ToplGraphState \<Rightarrow> bool" where
  "labelled ok elems k es g \<longleftrightarrow> graph_ok g \<and> names_set g \<and> cache_ok ok elems (g_schedCache g) \<and>
     (\<forall>e\<in>set (dyn_list (g_masterEdgeList g)).
        in_cache elems (g_schedCache g) (ri_schedule (e_ri (edge g e))) \<and> k \<in> avail (ri_schedule (e_ri (edge g e)))) \<and>
     (\<forall>v<g_numVertices g.
        in_cache elems (g_schedCache g) (ri_schedule (v_ri (vtx g v))) \<and> k \<in> avail (ri_schedule (v_ri (vtx g v))) \<and>
        (case v_root (vtx g v) of
           None \<Rightarrow> vcost g v = INFINITY_DW
         | Some r \<Rightarrow> r \<in> colored g \<and> v_componentId (vtx g v) = int r \<and> set_path g es r v (unat (vcost g v)) \<and>
                     vcost g v < INFINITY_DW) \<and>
        (v \<in> colored g \<longrightarrow> v_demoted (vtx g v) \<or> v_root (vtx g v) \<noteq> None))"

text \<open>The vertices accept an edge of this type between them.\<close>

definition accepts :: "('n, 't) ToplGraphState \<Rightarrow> dword \<Rightarrow> vref \<Rightarrow> vref \<Rightarrow> bool" where
  "accepts g edgeType a b \<longleftrightarrow>
     (if v_color (vtx g a) = COLOR_RED \<and> v_color (vtx g b) = COLOR_RED
      then v_acceptRedRed (vtx g a) AND type_mask edgeType \<noteq> 0 \<and> v_acceptRedRed (vtx g b) AND type_mask edgeType \<noteq> 0
      else v_acceptBlack (vtx g a) AND type_mask edgeType \<noteq> 0 \<and> v_acceptBlack (vtx g b) AND type_mask edgeType \<noteq> 0)"

text \<open>What an internal edge promises: it joins two colored vertices that accept it, and its cost is that
  of a path over one of the sets \<open>fam\<close> of edges.\<close>

definition int_edge :: "('n, 't) ToplGraphState \<Rightarrow> eref set set \<Rightarrow> ToplInternalEdge \<Rightarrow> bool" where
  "int_edge g fam e \<longleftrightarrow> ie_v1 e \<in> colored g \<and> ie_v2 e \<in> colored g \<and> ie_v1 e < ie_v2 e \<and> ie_valid e \<and>
     (ie_redRed e \<longleftrightarrow> v_color (vtx g (ie_v1 e)) = COLOR_RED \<and> v_color (vtx g (ie_v2 e)) = COLOR_RED) \<and>
     accepts g (ie_edgeType e) (ie_v1 e) (ie_v2 e) \<and>
     (\<exists>es\<in>fam. \<exists>c. set_path g es (ie_v1 e) (ie_v2 e) c \<and> unat (ri_cost (ie_ri e)) = min c (2 ^ 32 - 1))"

lemma accepts_sym: "accepts g t a b \<Longrightarrow> accepts g t b a"
  by (auto simp: accepts_def split: if_splits)

lemma in_cache_valid: "cache_ok ok elems c \<Longrightarrow> in_cache elems c h \<Longrightarrow> ToplScheduleValid h"
  using in_cache_entry [of ok elems c] by (cases h) (auto simp: ToplScheduleValid_def CheckSchedule_ok)

lemma EdgeCompare_equal:
  assumes "EdgeCompare (\<lambda>v. v) a b = GenericEqual"
  shows "ie_v1 a = ie_v1 b" "ie_v2 a = ie_v2 b"
  using assms unfolding EdgeCompare_keys cmp_then_equal by (auto simp: cmp_key_def split: if_splits)

lemma graph_ids: "graph_ok g \<Longrightarrow> ids_ok g"
  by (simp add: graph_ok_def ids_ok_def)

text \<open>Only the schedule cache has changed, and it has only grown.\<close>

definition recached ::
  "('t \<Rightarrow> bool) \<Rightarrow> ('t \<Rightarrow> ToplSched list) \<Rightarrow> ('n, 't) ToplGraphState \<Rightarrow> ('n, 't) ToplGraphState \<Rightarrow> bool" where
  "recached ok elems g g' \<longleftrightarrow> (\<exists>c. g' = g\<lparr>g_schedCache := c\<rparr> \<and> cache_ok ok elems c \<and>
     (\<forall>h. in_cache elems (g_schedCache g) h \<longrightarrow> in_cache elems c h))"

lemma recached_trans: "recached ok elems g g' \<Longrightarrow> recached ok elems g' g'' \<Longrightarrow> recached ok elems g g''"
  unfolding recached_def by auto

lemma recached_fields:
  assumes "recached ok elems g g'"
  shows "g_vertices g' = g_vertices g" "g_store g' = g_store g" "g_masterEdgeList g' = g_masterEdgeList g" "g_edgeSets g' = g_edgeSets g"
    "colored g' = colored g" "edge_walk g' e = edge_walk g e" "accepts g' t a b = accepts g t a b"
  using assms by (auto simp: recached_def colored_def edge_walk_def EdgeGetVertex_def accepts_def)

lemma recached_graph_ok: "recached ok elems g g' \<Longrightarrow> graph_ok g' = graph_ok g"
  by (auto simp: recached_def graph_ok_def edge_ok_def edge_set_ok_def)

lemma recached_labelled:
  assumes "recached ok elems g g'" and "labelled ok elems k es g"
  shows "labelled ok elems k es g'"
proof -
  obtain c where g': "g' = g\<lparr>g_schedCache := c\<rparr>" "cache_ok ok elems c" "\<And>h. in_cache elems (g_schedCache g) h \<Longrightarrow> in_cache elems c h"
    using assms(1) by (auto simp: recached_def)
  have "graph_ok g'" "names_set g'" "cache_ok ok elems (g_schedCache g')"
    using assms recached_graph_ok by (auto simp: labelled_def names_set_def g')
  moreover have "set_path g' es r v d" if "set_path g es r v d" for r v d
    using that by (rule set_path_cong) (simp add: g')
  ultimately show ?thesis
    using assms(2) g'(3) recached_fields(5) [OF assms(1)] unfolding labelled_def by (auto simp: g'(1) split: option.splits)
qed

lemma recached_int_edge:
  assumes "recached ok elems g g'"
  shows "int_edge g' fam e \<longleftrightarrow> int_edge g fam e"
proof -
  have "set_path g' es a b c \<longleftrightarrow> set_path g es a b c" for es a b c
    using set_path_cong [of g es a b c g'] set_path_cong [of g' es a b c g] recached_fields(2) [OF assms] by auto
  then show ?thesis
    unfolding int_edge_def recached_fields [OF assms] by simp
qed

text \<open>The pairs of roots met on an edge.\<close>

definition edge_roots :: "('n, 't) ToplGraphState \<Rightarrow> eref \<Rightarrow> (vref \<times> vref) set" where
  "edge_roots g e = {(a, b). \<exists>v\<in>set (edge_walk g e). \<exists>w\<in>set (edge_walk g e).
     v_root (vtx g v) = Some a \<and> v_root (vtx g w) = Some b}"

definition all_accept :: "('n, 't) ToplGraphState \<Rightarrow> dword \<Rightarrow> bool" where
  "all_accept g edgeType \<longleftrightarrow> (\<forall>a\<in>colored g. \<forall>b\<in>colored g. accepts g edgeType a b)"

section \<open>Collecting internal edges\<close>

text \<open>The two generic tables of a run: that of the schedule cache and that of the internal edges.\<close>

locale edge_tables = schedule_cache T ok elems + edges: rtl_generic_table "EdgeCompare (\<lambda>v. v)" TI iok ielems
  for T :: "(ToplSched, 't) rtl_table_ops" and ok elems and TI :: "(ToplInternalEdge, 'i) rtl_table_ops" and iok ielems
begin

definition collects :: "eref set set \<Rightarrow> ('n, 't) ToplGraphState \<times> 'i \<Rightarrow> ('n, 't) ToplGraphState \<times> 'i \<Rightarrow> bool" where
  "collects fam s s' \<longleftrightarrow> recached ok elems (fst s) (fst s') \<and> iok (snd s') \<and>
     set (ielems (snd s)) \<subseteq> set (ielems (snd s')) \<and> (\<forall>x\<in>set (ielems (snd s')). int_edge (fst s) fam x)"

lemma collects_trans: "collects fam s s' \<Longrightarrow> collects fam s' s'' \<Longrightarrow> collects fam s s''"
  unfolding collects_def using recached_trans recached_int_edge by blast

lemma collects_refl:
  assumes "labelled ok elems k es g" and "iok t" and "\<forall>x\<in>set (ielems t). int_edge g fam x"
  shows "collects fam (g, t) (g, t)"
proof -
  have "recached ok elems g g"
    using assms(1) by (auto simp: recached_def labelled_def intro!: exI [of _ "g_schedCache g"])
  with assms(2,3) show ?thesis
    by (simp add: collects_def)
qed

lemma collects_next:
  assumes "collects fam s s'"
  shows "recached ok elems (fst s) (fst s')" "iok (snd s')" "\<forall>y\<in>set (ielems (snd s')). int_edge (fst s') fam y"
proof -
  show rec: "recached ok elems (fst s) (fst s')" and "iok (snd s')"
    using assms by (auto simp: collects_def)
  show "\<forall>y\<in>set (ielems (snd s')). int_edge (fst s') fam y"
    using assms unfolding recached_int_edge [OF rec] by (auto simp: collects_def)
qed

lemma collects_connected: "collects fam s s' \<Longrightarrow> connected (ielems (snd s)) a b \<Longrightarrow> connected (ielems (snd s')) a b"
  by (auto simp: collects_def elim: connected_mono)

text \<open>The path behind an internal edge, through two vertices of an edge.\<close>

lemma root_path:
  assumes "labelled ok elems k es g" and "v_root (vtx g v) = Some r" and "v < g_numVertices g"
  shows "set_path g es r v (unat (vcost g v))" "r \<in> colored g" "v_componentId (vtx g v) = int r"
    "vcost g v < INFINITY_DW"
  using assms by (auto simp: labelled_def split: option.splits)

lemma joined_path:
  assumes lab: "labelled ok elems k es g" and e: "e \<in> es" "v1 \<in> set (edge_walk g e)" "v2 \<in> set (edge_walk g e)"
    and n: "v1 < g_numVertices g" "v2 < g_numVertices g" and r: "v_root (vtx g v1) = Some r1" "v_root (vtx g v2) = Some r2"
  shows "set_path g es r1 r2 (unat (vcost g v1) + unat (vcost g v2) + unat (ecost g e))"
proof -
  have "set_path g es r1 v2 (unat (vcost g v1) + unat (ecost g e))"
    by (rule set_path.set_step [OF root_path(1) [OF lab r(1) n(1)] e])
  from set_path_trans [OF set_path_sym [OF root_path(1) [OF lab r(2) n(2)]] this] show ?thesis
    by (simp add: ac_simps)
qed

lemma insert_edge:
  assumes "iok t"
  obtains t' x b where "RtlInsertElementGenericTable TI (EdgeCompare (\<lambda>v. v)) t e = (t', x, b)" "iok t'"
    "set (ielems t) \<subseteq> set (ielems t')" "set (ielems t') \<subseteq> insert e (set (ielems t))"
    "connected (ielems t') (ie_v1 e) (ie_v2 e)"
  using assms
proof (cases rule: edges.insert_cases [of t e])
  case (present t' x)
  have "connected (ielems t') (ie_v1 x) (ie_v2 x)"
    using present(1,5) by (simp add: connected_edge)
  then have "connected (ielems t') (ie_v1 e) (ie_v2 e)"
    using EdgeCompare_equal [OF present(2)] by simp
  with present show ?thesis
    by (intro that [of t' x False]) auto
next
  case (absent t')
  then have "set (ielems t') = insert e (set (ielems t))"
    by simp
  with absent show ?thesis
    by (intro that [of t' e True]) (auto intro: connected_edge)
qed

lemma AddIntEdge_spec:
  assumes env: "env_table env = T" and lab: "labelled ok elems k es g" and fam: "es \<in> fam"
    and t: "iok t" "\<forall>x\<in>set (ielems t). int_edge g fam x"
    and e: "e \<in> es" "e \<in> set (dyn_list (g_masterEdgeList g))" "v1 \<in> set (edge_walk g e)" "v2 \<in> set (edge_walk g e)"
    and r: "v_root (vtx g v1) = Some r1" "v_root (vtx g v2) = Some r2" "r1 \<noteq> r2"
  obtains s where "AddIntEdge env TI e v1 v2 (g, t) = Inr s" "collects fam (g, t) s"
    "accepts g (e_edgeType (edge g e)) r1 r2 \<Longrightarrow> connected (ielems (snd s)) r1 r2"
proof (cases "accepts g (e_edgeType (edge g e)) r1 r2")
  case False
  then have "AddIntEdge env TI e v1 v2 (g, t) = Inr (g, t)"
    using r by (auto simp: AddIntEdge_def accepts_def Let_def split: if_splits)
  with False collects_refl [OF lab t] show ?thesis
    by (intro that) auto
next
  case True
  have gok: "graph_ok g" "names_set g" and cok: "cok (g_schedCache g)"
    using lab by (auto simp: labelled_def)
  have v: "v1 < g_numVertices g" "v2 < g_numVertices g" "e < length (g_store g)"
    using master_walk [OF gok e(2)] e(3,4) by auto
  have sch: "inc (g_schedCache g) (ri_schedule (v_ri (vtx g v1)))" "inc (g_schedCache g) (ri_schedule (v_ri (vtx g v2)))"
    "inc (g_schedCache g) (ri_schedule (e_ri (edge g e)))"
    "k \<in> avail (ri_schedule (v_ri (vtx g v1)))" "k \<in> avail (ri_schedule (v_ri (vtx g v2)))" "k \<in> avail (ri_schedule (e_ri (edge g e)))"
    using lab v e(2) by (auto simp: labelled_def)
  obtain c1 ri1 where c1: "CombineReplInfo env g (v_ri (vtx g v1)) (v_ri (vtx g v2)) = Inr (g\<lparr>g_schedCache := c1\<rparr>, Some ri1)"
      "cok c1" "inc c1 (ri_schedule ri1)" "ri_cost ri1 = AddDWORDSat (vcost g v1) (vcost g v2)"
      "k \<in> avail (ri_schedule ri1)" "\<And>h. inc (g_schedCache g) h \<Longrightarrow> inc c1 h"
    by (rule CombineReplInfo_spec [OF env cok sch(1,2,4,5)]) (use sch in auto)
  let ?g1 = "g\<lparr>g_schedCache := c1\<rparr>"
  obtain c2 ri2 where c2: "CombineReplInfo env ?g1 ri1 (e_ri (edge g e)) = Inr (?g1\<lparr>g_schedCache := c2\<rparr>, Some ri2)"
      "cok c2" "inc c2 (ri_schedule ri2)" "ri_cost ri2 = AddDWORDSat (ri_cost ri1) (ecost g e)"
      "\<And>h. inc c1 h \<Longrightarrow> inc c2 h"
    by (rule CombineReplInfo_spec [OF env, of ?g1 ri1 "e_ri (edge g e)" k]) (use c1 sch in auto)
  let ?g2 = "g\<lparr>g_schedCache := c2\<rparr>" and ?red = "v_color (vtx g r1) = COLOR_RED \<and> v_color (vtx g r2) = COLOR_RED"
  let ?ie = "\<lambda>a b. \<lparr>ie_v1 = a, ie_v2 = b, ie_redRed = ?red, ie_ri = ri2, ie_edgeType = e_edgeType (edge g e)\<rparr>"
  let ?e = "if r1 > r2 then ?ie r2 r1 else ?ie r1 r2"
  have col: "r1 \<in> colored g" "r2 \<in> colored g"
    using root_path(2) [OF lab r(1) v(1)] root_path(2) [OF lab r(2) v(2)] by auto
  then have ids: "v_vtxId (vtx g r1) = r1" "v_vtxId (vtx g r2) = r2"
    using gok(1) by (auto simp: graph_ok_def colored_def)
  have rec: "recached ok elems g ?g2"
    using c1(6) c2(2,5) by (auto simp: recached_def)
  then have vid: "vtx_id ?g2 = (\<lambda>v. v)"
    using recached_graph_ok [OF rec] gok(1) by (intro vtx_id_ok graph_ids) simp
  obtain t' x b where t': "RtlInsertElementGenericTable TI (EdgeCompare (\<lambda>v. v)) t ?e = (t', x, b)" "iok t'"
      "set (ielems t) \<subseteq> set (ielems t')" "set (ielems t') \<subseteq> insert ?e (set (ielems t))"
      "connected (ielems t') (ie_v1 ?e) (ie_v2 ?e)"
    using insert_edge [OF t(1)] .
  have add: "AddIntEdge env TI e v1 v2 (g, t) = Inr (?g2, t')"
    using True c1(1) c2(1) t'(1) unfolding AddIntEdge_def
    by (auto simp: accepts_def Let_def r ids vid CopyReplInfo_def split: if_splits)
  have cost: "unat (ri_cost ri2) = min (unat (vcost g v1) + unat (vcost g v2) + unat (ecost g e)) (2 ^ 32 - 1)"
    by (simp add: c2(4) c1(4) unat_AddDWORDSat)
  note path = joined_path [OF lab e(1,3,4) v(1,2) r(1,2)]
  have valid: "ie_valid (?ie a b)" for a b
    using gok(1) v(3) in_cache_valid [OF c2(2,3)] by (auto simp: ie_valid_def graph_ok_def edge_ok_def)
  have "int_edge g fam ?e"
    using col valid True accepts_sym [OF True] path set_path_sym [OF path] fam r(3) cost
    by (auto simp: int_edge_def)
  then have "collects fam (g, t) (?g2, t')"
    using rec t' t(2) by (auto simp: collects_def)
  moreover have "connected (ielems t') r1 r2"
    using t'(5) connected_sym by (auto split: if_splits)
  ultimately show ?thesis
    using add by (intro that) auto
qed

text \<open>A loop that collects edges; \<open>J x\<close> are the pairs of vertices that round \<open>x\<close> has to connect.\<close>

lemma foldE_collects:
  assumes step: "\<And>x h u. x \<in> set xs \<Longrightarrow> recached ok elems g h \<Longrightarrow> iok u \<Longrightarrow> \<forall>y\<in>set (ielems u). int_edge h fam y \<Longrightarrow>
      \<exists>s. f x (h, u) = Inr s \<and> collects fam (h, u) s \<and> (\<forall>(a, b)\<in>J x. connected (ielems (snd s)) a b)"
    and "recached ok elems g h" and "iok t" "\<forall>y\<in>set (ielems t). int_edge h fam y"
  shows "\<exists>s. foldE f xs (h, t) = Inr s \<and> collects fam (h, t) s \<and> (\<forall>x\<in>set xs. \<forall>(a, b)\<in>J x. connected (ielems (snd s)) a b)"
  using assms
proof (induction xs arbitrary: h t)
  case Nil
  then have "recached ok elems h h"
    by (auto simp: recached_def)
  with Nil show ?case
    by (auto simp: collects_def)
next
  case (Cons x xs)
  obtain h1 t1 where s1: "f x (h, t) = Inr (h1, t1)" "collects fam (h, t) (h1, t1)" "\<forall>(a, b)\<in>J x. connected (ielems t1) a b"
    using Cons.prems(1) [OF _ Cons.prems(2-4), of x] by auto
  have rec: "recached ok elems h h1" and t1: "iok t1" "\<forall>y\<in>set (ielems t1). int_edge h1 fam y"
    using collects_next [OF s1(2)] by auto
  have "\<exists>s. foldE f xs (h1, t1) = Inr s \<and> collects fam (h1, t1) s \<and> (\<forall>x\<in>set xs. \<forall>(a, b)\<in>J x. connected (ielems (snd s)) a b)"
    by (rule Cons.IH [OF Cons.prems(1) recached_trans [OF Cons.prems(2) rec] t1]) auto
  then obtain s where s: "foldE f xs (h1, t1) = Inr s" "collects fam (h1, t1) s"
      "\<forall>x\<in>set xs. \<forall>(a, b)\<in>J x. connected (ielems (snd s)) a b"
    by blast
  have "connected (ielems (snd s)) a b" if "(a, b) \<in> J x" for a b
    using collects_connected [OF s(2)] s1(3) that by auto
  with s1(1) s collects_trans [OF s1(2) s(2)] show ?case
    by auto
qed

text \<open>The vertex \<^verbatim>\<open>bestV\<close> has a root if any vertex of the edge has one.\<close>

lemma better_vertex_root:
  assumes lab: "labelled ok elems k es g" and n: "v < g_numVertices g" "b < g_numVertices g"
    and none: "v_root (vtx g (better_vertex g v b)) = None"
  shows "v_root (vtx g v) = None \<and> v_root (vtx g b) = None"
proof -
  have cost: "v_root (vtx g x) = None \<longleftrightarrow> vcost g x = INFINITY_DW" "\<not> INFINITY_DW < vcost g x" if "x < g_numVertices g" for x
    using lab that unat_dword_less [of "vcost g x"] unat_INFINITY_DW
    by (auto simp: labelled_def word_less_nat_alt split: option.splits)
  have plain: "v_color (vtx g x) = COLOR_WHITE \<or> v_demoted (vtx g x)" if "x < g_numVertices g" "v_root (vtx g x) = None" for x
    using lab that by (auto simp: labelled_def colored_def)
  show ?thesis
  proof (cases "better_vertex g v b = v")
    case True
    then have "ColorComp (vtx g v) (vtx g b) < 0 \<or> ColorComp (vtx g v) (vtx g b) = 0 \<and> VertexComp v b g < 0 \<or> v = b"
      by (auto simp: better_vertex_def Let_def split: if_splits)
    with plain [OF n(1)] none True cost [OF n(1)] cost [OF n(2)] show ?thesis
      by (auto simp: ColorComp_def VertexComp_keys two_keys_less split: if_splits TOPL_VERTEX_COLOR.splits)
  next
    case False
    then have eq: "better_vertex g v b = b"
      and "\<not> ColorComp (vtx g v) (vtx g b) < 0 \<and> \<not> (ColorComp (vtx g v) (vtx g b) = 0 \<and> VertexComp v b g < 0)"
      by (auto simp: better_vertex_def Let_def split: if_splits)
    with plain [OF n(2)] none cost [OF n(1)] cost [OF n(2)] show ?thesis
      by (auto simp: ColorComp_def VertexComp_keys two_keys_less split: if_splits TOPL_VERTEX_COLOR.splits)
  qed
qed

lemma best_vertex:
  assumes lab: "labelled ok elems k es g" and "b < g_numVertices g" and "set ws \<subseteq> {..<g_numVertices g}"
  shows "fold (better_vertex g) ws b \<in> insert b (set ws) \<and>
    (v_root (vtx g (fold (better_vertex g) ws b)) = None \<longrightarrow> (\<forall>v\<in>insert b (set ws). v_root (vtx g v) = None))"
  using assms(2,3)
proof (induction ws arbitrary: b)
  case (Cons w ws)
  have mem: "better_vertex g w b \<in> {w, b}"
    by (simp add: better_vertex_def Let_def)
  then have "better_vertex g w b < g_numVertices g"
    using Cons.prems by auto
  from Cons.IH [OF this] mem better_vertex_root [OF lab _ Cons.prems(1), of w] Cons.prems(2) show ?case
    by auto
qed simp

lemma process_vertex_spec:
  assumes env: "env_table env = T" and lab: "labelled ok elems k es g" and fam: "es \<in> fam"
    and t: "iok t" "\<forall>x\<in>set (ielems t). int_edge g fam x"
    and e: "e \<in> es" "e \<in> set (dyn_list (g_masterEdgeList g))" "b \<in> set (edge_walk g e)" "v \<in> set (edge_walk g e)"
  shows "\<exists>s. process_vertex env TI e b v (g, t) = Inr s \<and> collects fam (g, t) s \<and>
    (\<forall>r1 r2. v_root (vtx g b) = Some r1 \<longrightarrow> v_root (vtx g v) = Some r2 \<longrightarrow> all_accept g (e_edgeType (edge g e)) \<longrightarrow>
       connected (ielems (snd s)) r1 r2)"
proof (cases "\<exists>r1 r2. v_root (vtx g b) = Some r1 \<and> v_root (vtx g v) = Some r2 \<and> r1 \<noteq> r2")
  case True
  then obtain r1 r2 where r: "v_root (vtx g b) = Some r1" "v_root (vtx g v) = Some r2" "r1 \<noteq> r2" by blast
  have gok: "graph_ok g" "names_set g"
    using lab by (auto simp: labelled_def)
  have n: "b < g_numVertices g" "v < g_numVertices g"
    using master_walk(1) [OF gok e(2)] e(3,4) by auto
  have "process_vertex env TI e b v (g, t) = AddIntEdge env TI e b v (g, t)"
    using r root_path(3) [OF lab r(1) n(1)] root_path(3) [OF lab r(2) n(2)]
    by (simp add: process_vertex_def UNCONNECTED_COMPONENT_def)
  moreover have "r1 \<in> colored g" "r2 \<in> colored g"
    using root_path(2) [OF lab r(1) n(1)] root_path(2) [OF lab r(2) n(2)] .
  moreover obtain s where "AddIntEdge env TI e b v (g, t) = Inr s" "collects fam (g, t) s"
    "accepts g (e_edgeType (edge g e)) r1 r2 \<Longrightarrow> connected (ielems (snd s)) r1 r2"
    using AddIntEdge_spec [OF env lab fam t e r] by blast
  ultimately show ?thesis
    using r by (auto simp: all_accept_def)
next
  case False
  have gok: "graph_ok g" "names_set g"
    using lab by (auto simp: labelled_def)
  have n: "b < g_numVertices g" "v < g_numVertices g"
    using master_walk(1) [OF gok e(2)] e(3,4) by auto
  have "v_componentId (vtx g b) = v_componentId (vtx g v)" if "v_root (vtx g b) \<noteq> None" "v_root (vtx g v) \<noteq> None"
    using that False root_path(3) [OF lab _ n(1)] root_path(3) [OF lab _ n(2)] by fastforce
  then have "process_vertex env TI e b v (g, t) = Inr (g, t)"
    by (auto simp: process_vertex_def)
  with False collects_refl [OF lab t] show ?thesis
    by auto
qed

lemma ProcessEdge_spec:
  assumes env: "env_table env = T" and lab: "labelled ok elems k es g" and fam: "es \<in> fam"
    and t: "iok t" "\<forall>x\<in>set (ielems t). int_edge g fam x"
    and e: "e \<in> es" "e \<in> set (dyn_list (g_masterEdgeList g))"
  shows "\<exists>s. ProcessEdge env TI e (g, t) = Inr s \<and> collects fam (g, t) s \<and>
    (all_accept g (e_edgeType (edge g e)) \<longrightarrow> (\<forall>(a, b)\<in>edge_roots g e. connected (ielems (snd s)) a b))"
proof -
  let ?ty = "e_edgeType (edge g e)" and ?ws = "edge_walk g e"
  let ?b = "fold (better_vertex g) (tl ?ws) (EdgeGetVertex g e 0)"
  let ?J = "\<lambda>v. {(r1, r2). v_root (vtx g ?b) = Some r1 \<and> v_root (vtx g v) = Some r2 \<and> all_accept g ?ty}"
  have gok: "graph_ok g" "names_set g"
    using lab by (auto simp: labelled_def)
  have el: "e < length (g_store g)"
    using gok(1) e(2) by (auto simp: graph_ok_def)
  then have "edge_ok g (edge g e)"
    using gok(1) by (simp add: graph_ok_def)
  then have "0 < e_numVertices (edge g e)"
    by (auto simp: edge_ok_def)
  then have walk: "?ws = EdgeGetVertex g e 0 # tl ?ws"
    by (simp add: edge_walk_def upt_rec [of 0])
  have "set ?ws \<subseteq> {..<g_numVertices g}"
    using master_walk(1) [OF gok e(2)] by auto
  then have "EdgeGetVertex g e 0 < g_numVertices g" "set (tl ?ws) \<subseteq> {..<g_numVertices g}"
    by (subst (asm) walk, simp)+
  from best_vertex [OF lab this] have b: "?b \<in> insert (EdgeGetVertex g e 0) (set (tl ?ws))"
      "v_root (vtx g ?b) = None \<longrightarrow> (\<forall>v\<in>insert (EdgeGetVertex g e 0) (set (tl ?ws)). v_root (vtx g v) = None)"
    by auto
  have set_ws: "insert (EdgeGetVertex g e 0) (set (tl ?ws)) = set ?ws"
    by (subst (2) walk) simp
  have "\<exists>s. process_vertex env TI e ?b v (h, u) = Inr s \<and> collects fam (h, u) s \<and> (\<forall>(a, b)\<in>?J v. connected (ielems (snd s)) a b)"
    if v: "v \<in> set ?ws" and rec: "recached ok elems g h" and u: "iok u" "\<forall>y\<in>set (ielems u). int_edge h fam y" for v h u
  proof -
    note f = recached_fields [OF rec]
    have ac: "all_accept h ?ty = all_accept g ?ty"
      by (simp add: all_accept_def f)
    show ?thesis
      using process_vertex_spec [OF env recached_labelled [OF rec lab] fam u e(1), of ?b v] b(1) e(2) v
      unfolding f ac set_ws by auto
  qed
  moreover have "recached ok elems g g"
    using lab by (auto simp: recached_def labelled_def intro!: exI [of _ "g_schedCache g"])
  ultimately have "\<exists>s. foldE (process_vertex env TI e ?b) ?ws (g, t) = Inr s \<and> collects fam (g, t) s \<and>
      (\<forall>v\<in>set ?ws. \<forall>(a, b)\<in>?J v. connected (ielems (snd s)) a b)"
    by (rule foldE_collects) (use t in auto)
  then obtain s where s: "foldE (process_vertex env TI e ?b) ?ws (g, t) = Inr s" "collects fam (g, t) s"
      "\<forall>v\<in>set ?ws. \<forall>(a, b)\<in>?J v. connected (ielems (snd s)) a b"
    by blast
  have "connected (ielems (snd s)) a c"
    if ac: "all_accept g ?ty" and v: "v \<in> set ?ws" "w \<in> set ?ws" and r: "v_root (vtx g v) = Some a" "v_root (vtx g w) = Some c" for a c v w
  proof -
    obtain r0 where "v_root (vtx g ?b) = Some r0"
      using b(2) r v unfolding set_ws by fastforce
    then have "connected (ielems (snd s)) r0 a" "connected (ielems (snd s)) r0 c"
      using s(3) ac v r by auto
    then show ?thesis
      by (blast intro: connected_trans connected_sym)
  qed
  then have "all_accept g ?ty \<longrightarrow> (\<forall>(a, b)\<in>edge_roots g e. connected (ielems (snd s)) a b)"
    by (auto simp: edge_roots_def)
  with s(1,2) show ?thesis
    by (auto simp: ProcessEdge_def CheckMultiEdge_ok [OF gok(1) el] Let_def)
qed

lemma ProcessEdgeSet_spec:
  assumes env: "env_table env = T" and lab: "labelled ok elems k es g" and fam: "es \<in> fam"
    and t: "iok t" "\<forall>x\<in>set (ielems t). int_edge g fam x"
    and i: "i < DynArrayGetCount (g_edgeSets g)" "es = set (edge_set g i)"
  shows "\<exists>s. ProcessEdgeSet env TI (Some i) (g, t) = Inr s \<and> collects fam (g, t) s \<and>
    (\<forall>e\<in>es. all_accept g (e_edgeType (edge g e)) \<longrightarrow> (\<forall>(a, b)\<in>edge_roots g e. connected (ielems (snd s)) a b))"
proof -
  have gok: "graph_ok g" "names_set g"
    using lab by (auto simp: labelled_def)
  note es = edge_set_facts [OF gok(1) i(1)]
  let ?J = "\<lambda>ep. {(a, b). all_accept g (e_edgeType (edge g (the ep))) \<and> (a, b) \<in> edge_roots g (the ep)}"
  have "\<exists>s. process_set_edge env TI ep (h, u) = Inr s \<and> collects fam (h, u) s \<and> (\<forall>(a, b)\<in>?J ep. connected (ielems (snd s)) a b)"
    if ep: "ep \<in> set (map Some (edge_set g i))" and rec: "recached ok elems g h" and u: "iok u" "\<forall>y\<in>set (ielems u). int_edge h fam y" for ep h u
  proof -
    obtain e where e: "ep = Some e" "e \<in> es" "e \<in> set (dyn_list (g_masterEdgeList g))"
      using ep es(3) i(2) by auto
    note f = recached_fields [OF rec]
    have "e < length (g_store h)" "graph_ok h"
      using gok(1) e(3) recached_graph_ok [OF rec] by (auto simp: graph_ok_def f)
    then have "process_set_edge env TI ep (h, u) = ProcessEdge env TI e (h, u)"
      by (simp add: process_set_edge_def e(1) CheckMultiEdge_ok)
    moreover have "all_accept h ty = all_accept g ty" "edge_roots h e = edge_roots g e" for ty
      by (simp_all add: all_accept_def edge_roots_def f)
    ultimately show ?thesis
      using ProcessEdge_spec [OF env recached_labelled [OF rec lab] fam u e(2)] e(3) by (auto simp: e(1) f)
  qed
  moreover have "recached ok elems g g"
    using lab by (auto simp: recached_def labelled_def intro!: exI [of _ "g_schedCache g"])
  ultimately have "\<exists>s. foldE (process_set_edge env TI) (map Some (edge_set g i)) (g, t) = Inr s \<and> collects fam (g, t) s \<and>
      (\<forall>ep\<in>set (map Some (edge_set g i)). \<forall>(a, b)\<in>?J ep. connected (ielems (snd s)) a b)"
    by (rule foldE_collects) (use t in auto)
  then show ?thesis
    using es(1) i(2) by (auto simp: ProcessEdgeSet_def CheckMultiEdgeSet_def)
qed

end

section \<open>One edge set\<close>

text \<open>Graphs with the same vertices and edges, as far as the result of the algorithm depends on them.\<close>

definition same_sites :: "('n, 't) ToplGraphState \<Rightarrow> ('n, 't) ToplGraphState \<Rightarrow> bool" where
  "same_sites g g' \<longleftrightarrow> g_numVertices g' = g_numVertices g \<and> g_store g' = g_store g \<and>
     g_masterEdgeList g' = g_masterEdgeList g \<and> g_edgeSets g' = g_edgeSets g \<and>
     (\<forall>v<g_numVertices g. site (vtx g' v) = site (vtx g v))"

lemma same_sites_trans: "same_sites g g' \<Longrightarrow> same_sites g' g'' \<Longrightarrow> same_sites g g''"
  by (simp add: same_sites_def)

lemma same_sites_relisted:
  assumes "relisted g g'"
  shows "same_sites g g'"
  using relisted_fields [OF assms] relisted_vtx [OF assms, of _ site] by (simp add: same_sites_def site_def)

lemma same_sites_net:
  assumes "net g' = net g"
  shows "same_sites g g'"
  using net_eqD(1-9) [OF assms] net_fields [OF assms] by (simp add: same_sites_def site_def)

lemma same_sites_recached: "recached ok elems g g' \<Longrightarrow> same_sites g g'"
  by (auto simp: recached_def same_sites_def)

lemma same_sites_facts:
  assumes "same_sites g g'"
  shows "colored g' = colored g" "edge_walk g' e = edge_walk g e" "edge_set g' i = edge_set g i"
    "names_set g' = names_set g" "set_path g' es a b c = set_path g es a b c"
    "a \<in> colored g \<Longrightarrow> b \<in> colored g \<Longrightarrow> accepts g' ty a b = accepts g ty a b" "int_edge g' fam x = int_edge g fam x"
    "all_accept g' ty = all_accept g ty"
proof -
  have st: "g_store g' = g_store g" "g_masterEdgeList g' = g_masterEdgeList g" "g_edgeSets g' = g_edgeSets g"
      "g_numVertices g' = g_numVertices g"
    and v: "\<And>v. v < g_numVertices g \<Longrightarrow> v_color (vtx g' v) = v_color (vtx g v) \<and>
      v_acceptRedRed (vtx g' v) = v_acceptRedRed (vtx g v) \<and> v_acceptBlack (vtx g' v) = v_acceptBlack (vtx g v)"
    using assms by (simp_all add: same_sites_def site_def)
  show col: "colored g' = colored g"
    using v by (auto simp: colored_def st)
  show "edge_walk g' e = edge_walk g e" "edge_set g' i = edge_set g i" "names_set g' = names_set g"
    by (simp_all add: edge_walk_def EdgeGetVertex_def st edge_set_def names_set_def)
  show path: "set_path g' es a b c = set_path g es a b c" for es a b c
    using set_path_cong [of g es a b c g'] set_path_cong [of g' es a b c g] by (auto simp: st)
  show acc: "accepts g' ty a b = accepts g ty a b" if "a \<in> colored g" "b \<in> colored g" for a b ty
    using v that by (simp add: accepts_def colored_def)
  then show "all_accept g' ty = all_accept g ty"
    by (auto simp: all_accept_def col)
  show "int_edge g' fam x = int_edge g fam x"
  proof (cases "ie_v1 x \<in> colored g \<and> ie_v2 x \<in> colored g")
    case True
    then have "v_color (vtx g' (ie_v1 x)) = v_color (vtx g (ie_v1 x))" "v_color (vtx g' (ie_v2 x)) = v_color (vtx g (ie_v2 x))"
      using v by (simp_all add: colored_def)
    with True acc [of "ie_v1 x" "ie_v2 x"] show ?thesis
      by (simp add: int_edge_def col path)
  qed (auto simp: int_edge_def col)
qed

text \<open>The graphs on which a round over the edge sets can start.\<close>

definition ready :: "('t \<Rightarrow> bool) \<Rightarrow> ('t \<Rightarrow> ToplSched list) \<Rightarrow> nat \<Rightarrow> ('n, 't) ToplGraphState \<Rightarrow> bool" where
  "ready ok elems k g \<longleftrightarrow> graph_ok g \<and> names_set g \<and> cache_ok ok elems (g_schedCache g) \<and> k < SCHED_NUMBER_INTERVALS_WEEK \<and>
     (\<forall>e\<in>set (dyn_list (g_masterEdgeList g)).
        in_cache elems (g_schedCache g) (ri_schedule (e_ri (edge g e))) \<and> k \<in> avail (ri_schedule (e_ri (edge g e))))"

lemma ready_cong:
  assumes "ready ok elems k g" and "same_sites g g'" and "graph_ok g'" and "cache_ok ok elems (g_schedCache g')"
    and "\<And>h. in_cache elems (g_schedCache g) h \<Longrightarrow> in_cache elems (g_schedCache g') h"
  shows "ready ok elems k g'"
  using assms same_sites_facts(4) [OF assms(2)] by (simp add: ready_def same_sites_def)

text \<open>\<^verbatim>\<open>Dijkstra\<close> on the edge lists of an edge set leaves a labelled graph.\<close>

lemma Dijkstra_labelled:
  assumes sc: "schedule_cache T ok elems" and env: "env_table env = T" and rdy: "ready ok elems k h" and ok: "arcs_ok h"
    and arcs: "\<And>u. u < g_numVertices h \<Longrightarrow> arcs h u = {(e, w). e \<in> es \<and> u \<in> set (edge_walk h e) \<and> w \<in> set (edge_walk h e)}"
    and lists: "\<And>u. u < g_numVertices h \<Longrightarrow> refs_at h u \<subseteq> set (dyn_list (g_masterEdgeList h))"
  obtains g where "Dijkstra env h edgeType fIncludeBlack = Some (Inr g)" "net g = net h" "labelled ok elems k es g" "ready ok elems k g"
    "\<And>r. is_root h edgeType fIncludeBlack r \<Longrightarrow> v_root (vtx g r) = Some r"
    "\<And>r v c. is_root h edgeType fIncludeBlack r \<Longrightarrow> set_path h es r v c \<Longrightarrow> c < 2 ^ 32 - 1 \<Longrightarrow> v_root (vtx g v) \<noteq> None"
    "\<And>x. in_cache elems (g_schedCache h) x \<Longrightarrow> in_cache elems (g_schedCache g) x"
proof -
  have "scheds_ok ok elems k h"
    using rdy lists unfolding ready_def scheds_ok_def by blast
  from Dijkstra_spec [OF sc env ok this] obtain g where g: "Dijkstra env h edgeType fIncludeBlack = Some (Inr g)"
      "labels_inv ok elems k h {v. is_root h edgeType fIncludeBlack v} g"
      "\<And>v r c. is_root h edgeType fIncludeBlack r \<Longrightarrow> path_cost h r v c \<Longrightarrow> unat (vcost g v) \<le> c"
    by blast
  let ?R = "{v. is_root h edgeType fIncludeBlack v}"
  have net: "net g = net h" and aok: "arcs_ok g" and cok: "cache_ok ok elems (g_schedCache g)"
      and grow: "\<And>x. in_cache elems (g_schedCache h) x \<Longrightarrow> in_cache elems (g_schedCache g) x"
    using g(2) scheds_cache by (auto simp: labels_inv_def)
  have n: "g_numVertices g = g_numVertices h"
    using net_eqD(1) [OF net] .
  note same = same_sites_net [OF net] 
  have rdy': "ready ok elems k g"
    using rdy same aok cok grow by (intro ready_cong [OF rdy same]) (auto simp: arcs_ok_def)
  have root_col: "r \<in> colored g" if "is_root h edgeType fIncludeBlack r" for r
    using that unfolding same_sites_facts(1) [OF same] by (auto simp: is_root_def Let_def colored_def)
  have lab: "case v_root (vtx g v) of None \<Rightarrow> vcost g v = INFINITY_DW
      | Some r \<Rightarrow> r \<in> colored g \<and> v_componentId (vtx g v) = int r \<and> set_path g es r v (unat (vcost g v)) \<and> vcost g v < INFINITY_DW"
    if "v < g_numVertices g" for v
    using labels_root [OF g(2), of v] that n root_col path_cost_set_path [OF _ _ ok arcs] same_sites_facts(5) [OF same]
    by (auto simp: is_root_def split: option.splits)
  have sched: "in_cache elems (g_schedCache g) (ri_schedule (v_ri (vtx g v))) \<and> k \<in> avail (ri_schedule (v_ri (vtx g v)))"
    if "v < g_numVertices g" for v
  proof -
    have "unreached (vtx g v) \<or> reached elems k h ?R g v"
      using g(2) that by (simp add: labels_inv_def)
    then show ?thesis
      using rdy by (auto simp: unreached_def reached_def ready_def)
  qed
  have dem: "v_demoted (vtx g v) \<or> v_root (vtx g v) \<noteq> None" if "v < g_numVertices g" "v \<in> colored g" for v
    using g(2) that by (auto simp: labels_inv_def colored_def)
  have "labelled ok elems k es g"
    using rdy' lab sched dem unfolding labelled_def ready_def by blast
  moreover have "v_root (vtx g r) = Some r" if "is_root h edgeType fIncludeBlack r" for r
    using g(2) that by (simp add: labels_inv_def)
  moreover have "v_root (vtx g v) \<noteq> None"
    if r: "is_root h edgeType fIncludeBlack r" and p: "set_path h es r v c" "c < 2 ^ 32 - 1" for r v c
  proof
    assume none: "v_root (vtx g v) = None"
    have rn: "r < g_numVertices h"
      using r by (simp add: is_root_def)
    note path = set_path_path_cost [OF p(1) rn ok arcs]
    have "v < g_numVertices g"
      using path_valid [OF path ok rn] n by simp
    then have "vcost g v = INFINITY_DW"
      using lab none by fastforce
    then show False
      using g(3) [OF r path] p(2) unat_INFINITY_DW by simp
  qed
  ultimately show ?thesis
    using that g(1) net rdy' grow by blast
qed

end
