(* ===== verification/Topl_Phases.thy ===== *)
theory Topl_Phases
  imports Topl_IntEdges
begin

text \<open>
  The first phase of \<^verbatim>\<open>ToplGetSpanningTreeEdgesForVtx\<close> as a whole: the rounds over the edge sets, each with
  two runs of \<^verbatim>\<open>Dijkstra\<close>, and the round over the single edges. Every internal edge of the table stands for a
  path over the edges of one edge set or over a single edge; and the internal edges connect all colored
  vertices that are joined by such a path, when the colored vertices accept the types of its edges.
\<close>

section \<open>One edge set\<close>

text \<open>Every vertex on a path that is cheap enough has a root, and the roots along it are connected.\<close>

lemma roots_connected:
  assumes path: "set_path g es a b c" and "c < 2 ^ 32 - 1" and start: "v_root (vtx g a) = Some a"
    and reach: "\<And>v d. set_path g es a v d \<Longrightarrow> d < 2 ^ 32 - 1 \<Longrightarrow> v_root (vtx g v) \<noteq> None"
    and edges: "\<And>e x y. e \<in> es \<Longrightarrow> (x, y) \<in> edge_roots g e \<Longrightarrow> connected ies x y"
  shows "\<exists>r. v_root (vtx g b) = Some r \<and> connected ies a r"
  using path assms(2)
proof induction
  case set_start
  then show ?case
    using start by simp
next
  case (set_step u c e w)
  then obtain r where r: "v_root (vtx g u) = Some r" "connected ies a r"
    by auto
  obtain r' where r': "v_root (vtx g w) = Some r'"
    using reach [OF set_path.set_step [OF set_step.hyps]] set_step.prems by auto
  have "(r, r') \<in> edge_roots g e"
    using set_step.hyps r(1) r' by (auto simp: edge_roots_def)
  from connected_trans [OF r(2) edges [OF set_step.hyps(2) this]] r' show ?case
    by simp
qed

context edge_tables
begin

definition phase ::
  "nat \<Rightarrow> eref set set \<Rightarrow> ('n, 't) ToplGraphState \<times> 'i \<Rightarrow> ('n, 't) ToplGraphState \<times> 'i \<Rightarrow> bool" where
  "phase k fam s s' \<longleftrightarrow> same_sites (fst s) (fst s') \<and> ready ok elems k (fst s') \<and> iok (snd s') \<and>
     set (ielems (snd s)) \<subseteq> set (ielems (snd s')) \<and> (\<forall>x\<in>set (ielems (snd s')). int_edge (fst s) fam x)"

lemma phase_trans:
  assumes "phase k fam s s'" and "phase k fam s' s''"
  shows "phase k fam s s''"
  using assms same_sites_trans same_sites_facts(7) [of "fst s" "fst s'" fam] unfolding phase_def by blast

lemma phase_connected: "phase k fam s s' \<Longrightarrow> connected (ielems (snd s)) a b \<Longrightarrow> connected (ielems (snd s')) a b"
  by (auto simp: phase_def elim: connected_mono)

lemma phase_next: "phase k fam s s' \<Longrightarrow> \<forall>x\<in>set (ielems (snd s')). int_edge (fst s') fam x"
  using same_sites_facts(7) [of "fst s" "fst s'" fam] by (auto simp: phase_def)

text \<open>One run of \<^verbatim>\<open>Dijkstra\<close> and \<^verbatim>\<open>ProcessEdgeSet\<close>; \<open>h\<close> has the edge lists of the edge set.\<close>

lemma edge_set_run:
  assumes env: "env_table env = T" and rdy: "ready ok elems k h" and ok: "arcs_ok h"
    and i: "i < DynArrayGetCount (g_edgeSets h)"
    and arcs: "\<And>u. u < g_numVertices h \<Longrightarrow> arcs h u =
      {(e, w). e \<in> set (edge_set h i) \<and> u \<in> set (edge_walk h e) \<and> w \<in> set (edge_walk h e)}"
    and lists: "\<And>u. u < g_numVertices h \<Longrightarrow> refs_at h u \<subseteq> set (dyn_list (g_masterEdgeList h))"
    and fam: "set (edge_set h i) \<in> fam" and t: "iok t" "\<forall>x\<in>set (ielems t). int_edge h fam x"
  obtains g s where "Dijkstra env h edgeType b = Some (Inr g)" "ProcessEdgeSet env TI (Some i) (g, t) = Inr s"
    "phase k fam (h, t) s" "net (fst s) = net h" "\<And>x. inc (g_schedCache h) x \<Longrightarrow> inc (g_schedCache (fst s)) x"
    "\<And>x y c. \<forall>v\<in>colored h. is_root h edgeType b v \<Longrightarrow> \<forall>e\<in>set (edge_set h i). all_accept h (e_edgeType (edge h e)) \<Longrightarrow>
      x \<in> colored h \<Longrightarrow> y \<in> colored h \<Longrightarrow> set_path h (set (edge_set h i)) x y c \<Longrightarrow> c < 2 ^ 32 - 1 \<Longrightarrow> connected (ielems (snd s)) x y"
proof -
  let ?es = "set (edge_set h i)"
  have sc: "schedule_cache T ok elems" by unfold_locales
  obtain g where g: "Dijkstra env h edgeType b = Some (Inr g)" "net g = net h" "labelled ok elems k ?es g" "ready ok elems k g"
      "\<And>r. is_root h edgeType b r \<Longrightarrow> v_root (vtx g r) = Some r"
      "\<And>r v c. is_root h edgeType b r \<Longrightarrow> set_path h ?es r v c \<Longrightarrow> c < 2 ^ 32 - 1 \<Longrightarrow> v_root (vtx g v) \<noteq> None"
      "\<And>x. inc (g_schedCache h) x \<Longrightarrow> inc (g_schedCache g) x"
    by (rule Dijkstra_labelled [OF sc env rdy ok arcs lists]) blast+
  note same = same_sites_net [OF g(2)] and sf = same_sites_facts [OF same_sites_net [OF g(2)]]
  have i': "i < DynArrayGetCount (g_edgeSets g)" "?es = set (edge_set g i)"
    using i sf(3) net_eqD(5) [OF g(2)] by simp_all
  have t': "\<forall>x\<in>set (ielems t). int_edge g fam x"
    using t(2) sf(7) by simp
  obtain s where s: "ProcessEdgeSet env TI (Some i) (g, t) = Inr s" "collects fam (g, t) s"
      "\<forall>e\<in>?es. all_accept g (e_edgeType (edge g e)) \<longrightarrow> (\<forall>(a, b)\<in>edge_roots g e. connected (ielems (snd s)) a b)"
    using ProcessEdgeSet_spec [OF env g(3) fam t(1) t' i'] by blast
  note nx = collects_next [OF s(2), simplified]
  have net: "net (fst s) = net h"
    using nx(1) g(2) by (auto simp: recached_def)
  have "ready ok elems k (fst s)"
    by (rule ready_cong [OF g(4) same_sites_recached [OF nx(1)]])
      (use nx(1) g(4) recached_graph_ok [OF nx(1)] in \<open>auto simp: recached_def ready_def\<close>)
  then have ph: "phase k fam (h, t) s"
    using same_sites_net [OF net] s(2) sf(7) by (auto simp: phase_def collects_def)
  have grow: "inc (g_schedCache (fst s)) x" if "inc (g_schedCache h) x" for x
    using g(7) [OF that] nx(1) by (auto simp: recached_def)
  have conn: "connected (ielems (snd s)) x y"
    if all: "\<forall>v\<in>colored h. is_root h edgeType b v" "\<forall>e\<in>?es. all_accept h (e_edgeType (edge h e))"
      and xy: "x \<in> colored h" "y \<in> colored h" "set_path h ?es x y c" "c < 2 ^ 32 - 1" for x y c
  proof -
    have st: "g_store g = g_store h"
      by (rule net_eqD(2) [OF g(2)])
    have "\<exists>r. v_root (vtx g y) = Some r \<and> connected (ielems (snd s)) x r"
    proof (rule roots_connected)
      show "set_path g ?es x y c"
        using xy(3) by (simp add: sf(5))
      show "v_root (vtx g v) \<noteq> None" if "set_path g ?es x v d" "d < 2 ^ 32 - 1" for v d
        using g(6) [of x v d] all(1) xy(1) that by (simp add: sf(5))
      show "connected (ielems (snd s)) p q" if "e \<in> ?es" "(p, q) \<in> edge_roots g e" for e p q
        using s(3) all(2) that by (auto simp: sf(8) st)
    qed (use all(1) xy g(5) in auto)
    then show ?thesis
      using g(5) all(1) xy(2) by auto
  qed
  show ?thesis
    by (rule that [OF g(1) s(1) ph net grow conn])
qed

lemma process_edge_set_spec:
  assumes env: "env_table env = T" and rdy: "ready ok elems k g" and i: "i < DynArrayGetCount (g_edgeSets g)"
    and fam: "set (edge_set g i) \<in> fam" and t: "iok t" "\<forall>x\<in>set (ielems t). int_edge g fam x"
  shows "\<exists>s. process_edge_set env TI i (g, t) = Some (Inr s) \<and> phase k fam (g, t) s \<and>
    (\<forall>x\<in>colored g. \<forall>y\<in>colored g. \<forall>c<2 ^ 32 - 1. (\<forall>e\<in>set (edge_set g i). all_accept g (e_edgeType (edge g e))) \<longrightarrow>
       set_path g (set (edge_set g i)) x y c \<longrightarrow> connected (ielems (snd s)) x y)"
proof -
  let ?es = "set (edge_set g i)" and ?ty = "e_edgeType (edge g (last (edge_set g i)))"
  have gok: "graph_ok g" "names_set g"
    using rdy by (auto simp: ready_def)
  obtain h where h: "SetupEdges g i = Inr (h, ?ty)" "relisted g h" "arcs_ok h"
    "\<And>u. u < g_numVertices g \<Longrightarrow> arcs h u = {(e, w). e \<in> ?es \<and> u \<in> set (edge_walk g e) \<and> w \<in> set (edge_walk g e)}"
    "\<And>u. u < g_numVertices g \<Longrightarrow> refs_at h u = {e \<in> ?es. u \<in> set (edge_walk g e)}"
    using SetupEdges_spec [OF gok i] by blast
  note f = relisted_fields [OF h(2)] and sh = same_sites_facts [OF same_sites_relisted [OF h(2)]]
  have rdy_h: "ready ok elems k h"
    by (rule ready_cong [OF rdy same_sites_relisted [OF h(2)] relisted_graph_ok [OF h(2) gok(1)]]) (use rdy in \<open>simp_all add: f ready_def\<close>)
  have arcs: "arcs h u = {(e, w). e \<in> set (edge_set h i) \<and> u \<in> set (edge_walk h e) \<and> w \<in> set (edge_walk h e)}"
    "refs_at h u \<subseteq> set (dyn_list (g_masterEdgeList h))" if "u < g_numVertices h" for u
    using that h(4,5) edge_set_facts(3) [OF gok(1) i] by (auto simp: f sh(3))
  have t_h: "\<forall>x\<in>set (ielems t). int_edge h fam x"
    using t(2) by (simp add: sh(7))
  obtain g1 g2 t2 where r1: "Dijkstra env h ?ty False = Some (Inr g1)" "ProcessEdgeSet env TI (Some i) (g1, t) = Inr (g2, t2)"
      "phase k fam (h, t) (g2, t2)" "net g2 = net h"
    by (rule edge_set_run [OF env rdy_h h(3) _ arcs _ t(1) t_h, where edgeType = ?ty and b = False]) (use i fam in \<open>auto simp: f sh(3)\<close>)
  have rdy2: "ready ok elems k g2" and t2: "iok t2" "\<forall>x\<in>set (ielems t2). int_edge g2 fam x"
    using r1(3) phase_next [OF r1(3)] by (auto simp: phase_def)
  note s2 = same_sites_facts [OF same_sites_net [OF r1(4)]] and n2 = net_eqD(1-9) [OF r1(4)]
  have arcs2: "arcs g2 u = {(e, w). e \<in> set (edge_set g2 i) \<and> u \<in> set (edge_walk g2 e) \<and> w \<in> set (edge_walk g2 e)}"
    "refs_at g2 u \<subseteq> set (dyn_list (g_masterEdgeList g2))" if "u < g_numVertices g2" for u
    using that arcs arcs_net [OF r1(4)] net_fields(3) [OF r1(4)] by (simp_all add: s2 n2)
  obtain g3 s where r2: "Dijkstra env g2 ?ty True = Some (Inr g3)" "ProcessEdgeSet env TI (Some i) (g3, t2) = Inr s"
      "phase k fam (g2, t2) s"
      "\<And>x y c. \<forall>v\<in>colored g2. is_root g2 ?ty True v \<Longrightarrow> \<forall>e\<in>set (edge_set g2 i). all_accept g2 (e_edgeType (edge g2 e)) \<Longrightarrow>
        x \<in> colored g2 \<Longrightarrow> y \<in> colored g2 \<Longrightarrow> set_path g2 (set (edge_set g2 i)) x y c \<Longrightarrow> c < 2 ^ 32 - 1 \<Longrightarrow> connected (ielems (snd s)) x y"
    by (rule edge_set_run [OF env rdy2 arcs_ok_net [OF r1(4) [symmetric] h(3)] _ arcs2 _ t2, where edgeType = ?ty and b = True])
      (use i fam in \<open>auto simp: f sh(3) s2 n2\<close>)
  have "process_edge_set env TI i (g, t) = Some (Inr s)"
    by (simp add: process_edge_set_def h(1) r1(1,2) r2(1,2))
  moreover have "phase k fam (g, t) s"
  proof -
    have "phase k fam (g, t) (h, t)"
      using same_sites_relisted [OF h(2)] rdy_h t by (simp add: phase_def)
    then show ?thesis
      using phase_trans r1(3) r2(3) by blast
  qed
  moreover have "connected (ielems (snd s)) x y"
    if xy: "x \<in> colored g" "y \<in> colored g" "c < 2 ^ 32 - 1" "set_path g ?es x y c"
      and acc: "\<forall>e\<in>?es. all_accept g (e_edgeType (edge g e))" for x y c
  proof (rule r2(4))
    have "last (edge_set g i) \<in> ?es"
      using edge_set_facts(2) [OF gok(1) i] by simp
    then have "all_accept g2 ?ty"
      using acc by (simp add: s2 sh)
    then show "\<forall>v\<in>colored g2. is_root g2 ?ty True v"
      by (auto simp: all_accept_def accepts_def is_root_def colored_def Let_def split: if_splits)
  qed (use xy acc in \<open>simp_all add: s2 sh n2 f\<close>)
  ultimately show ?thesis
    by blast
qed

text \<open>All edge sets, one after the other.\<close>

definition set_conn :: "('n, 't) ToplGraphState \<Rightarrow> eref set \<Rightarrow> 'i \<Rightarrow> bool" where
  "set_conn g es t \<longleftrightarrow> (\<forall>e\<in>es. all_accept g (e_edgeType (edge g e))) \<longrightarrow>
     (\<forall>x\<in>colored g. \<forall>y\<in>colored g. \<forall>c<2 ^ 32 - 1. set_path g es x y c \<longrightarrow> connected (ielems t) x y)"

lemma set_conn_phase:
  assumes "set_conn g es (snd s)" and "phase k fam s s'"
  shows "set_conn g es (snd s')"
  using assms(1) phase_connected [OF assms(2)] unfolding set_conn_def by blast

lemma set_conn_sites:
  assumes "same_sites g g'"
  shows "set_conn g' es t = set_conn g es t"
proof -
  have "g_store g' = g_store g"
    using assms by (simp add: same_sites_def)
  then show ?thesis
    unfolding set_conn_def same_sites_facts [OF assms] by simp
qed

lemma edge_set_rounds:
  assumes env: "env_table env = T" and rdy: "ready ok elems k g"
    and fam: "\<And>i. i < DynArrayGetCount (g_edgeSets g) \<Longrightarrow> set (edge_set g i) \<in> fam"
    and t: "iok t" "\<forall>x\<in>set (ielems t). int_edge g fam x" and "n \<le> DynArrayGetCount (g_edgeSets g)"
  shows "\<exists>s. foldO (process_edge_set env TI) [0..<n] (g, t) = Some (Inr s) \<and> phase k fam (g, t) s \<and>
    (\<forall>i<n. set_conn g (set (edge_set g i)) (snd s))"
  using assms(6)
proof (induction n)
  case 0
  then show ?case
    using rdy t by (simp add: phase_def same_sites_def)
next
  case (Suc n)
  then obtain g1 t1 where s1: "foldO (process_edge_set env TI) [0..<n] (g, t) = Some (Inr (g1, t1))" "phase k fam (g, t) (g1, t1)"
      "\<forall>i<n. set_conn g (set (edge_set g i)) t1"
    by auto
  have same: "same_sites g g1" and rdy1: "ready ok elems k g1" and t1: "iok t1"
    using s1(2) by (simp_all add: phase_def)
  note f = same_sites_facts [OF same] and nx = phase_next [OF s1(2), simplified]
  have n: "n < DynArrayGetCount (g_edgeSets g1)" "set (edge_set g1 n) \<in> fam" "g_store g1 = g_store g"
    using Suc.prems same fam [of n] f(3) by (simp_all add: same_sites_def)
  obtain s where s: "process_edge_set env TI n (g1, t1) = Some (Inr s)" "phase k fam (g1, t1) s"
      "set_conn g1 (set (edge_set g1 n)) (snd s)"
    using process_edge_set_spec [OF env rdy1 n(1,2) t1 nx] unfolding set_conn_def by blast
  have "foldO (process_edge_set env TI) [0..<Suc n] (g, t) = Some (Inr s)"
    using s1(1) s(1) by (simp add: foldO_snoc)
  moreover have "set_conn g (set (edge_set g i)) (snd s)" if "i < Suc n" for i
  proof (cases "i = n")
    case True
    then show ?thesis
      using s(3) set_conn_sites [OF same] f(3) by simp
  next
    case False
    then have "set_conn g (set (edge_set g i)) (snd (g1, t1))"
      using s1(3) that by simp
    then show ?thesis
      using s(2) by (rule set_conn_phase)
  qed
  ultimately show ?case
    using phase_trans [OF s1(2) s(2)] by blast
qed

end

section \<open>Single edges\<close>

text \<open>The labels \<^verbatim>\<open>SetupVertices\<close> writes.\<close>

definition fresh :: "('n, 't) ToplGraphState \<Rightarrow> bool" where
  "fresh g \<longleftrightarrow> (\<forall>v<g_numVertices g. ri_schedule (v_ri (vtx g v)) = None \<and>
     (if v \<in> colored g
      then v_root (vtx g v) = Some v \<and> vcost g v = 0 \<and> v_componentId (vtx g v) = int v \<and> \<not> v_demoted (vtx g v)
      else v_root (vtx g v) = None \<and> vcost g v = INFINITY_DW))"

lemma fresh_component: "fresh g \<Longrightarrow> v \<in> colored g \<Longrightarrow> v_componentId (vtx g v) = int v"
  by (auto simp: fresh_def colored_def)

lemma fresh_SetupVertices:
  assumes "graph_ok g"
  shows "fresh (SetupVertices g)"
proof -
  have col: "colored (SetupVertices g) = colored g"
    by (rule same_sites_facts(1) [OF same_sites_net [OF SetupVertices_net]])
  have "v_vtxId (vtx g v) = v" if "v < g_numVertices g" for v
    using assms that by (simp add: graph_ok_def)
  then show ?thesis
    unfolding fresh_def col by (auto simp: setup_vertex_def Let_def ToplGetAlwaysSchedule_def colored_def split: TOPL_VERTEX_COLOR.splits)
      (metis TOPL_VERTEX_COLOR.exhaust)+
qed

definition refuses :: "('n, 't) ToplGraphState \<Rightarrow> dword \<Rightarrow> vref \<Rightarrow> bool" where
  "refuses g ty v \<longleftrightarrow> v_color (vtx g v) \<noteq> COLOR_WHITE \<and> v_acceptBlack (vtx g v) AND type_mask ty = 0 \<and>
     v_acceptRedRed (vtx g v) AND type_mask ty = 0"

lemma demote_walk:
  fixes g :: "('n, 't) ToplGraphState" and ty :: dword
  assumes "set ws \<subseteq> {..<g_numVertices g}"
  defines "h \<equiv> fold (\<lambda>v. CheckDemoteOneVertex v ty) ws g"
  shows "net h = net g \<and> h = g\<lparr>g_vertices := g_vertices h\<rparr> \<and>
    (\<forall>v<g_numVertices g. vtx h v = (if v \<in> set ws \<and> refuses g ty v then demote (vtx g v) else vtx g v))"
  using assms(1) unfolding h_def
proof (induction ws rule: rev_induct)
  case (snoc w ws)
  let ?h = "fold (\<lambda>v. CheckDemoteOneVertex v ty) ws g"
  have ih: "net ?h = net g" "?h = g\<lparr>g_vertices := g_vertices ?h\<rparr>"
    "\<And>v. v < g_numVertices g \<Longrightarrow> vtx ?h v = (if v \<in> set ws \<and> refuses g ty v then demote (vtx g v) else vtx g v)"
    using snoc by auto
  have w: "w < g_numVertices g" "g_numVertices ?h = g_numVertices g"
    using snoc.prems net_eqD(1) [OF ih(1)] by auto
  have "CheckDemoteOneVertex w ty ?h = (if refuses g ty w then upd_vtx w demote ?h else ?h)"
    using net_fields [OF ih(1), of w] w by (auto simp: CheckDemoteOneVertex_def refuses_def Let_def)
  moreover have "net (upd_vtx w demote ?h) = net ?h"
    by (rule net_upd_vtx) (simp add: demote_def unlabelled_def)
  moreover have "upd_vtx w demote ?h = g\<lparr>g_vertices := g_vertices (upd_vtx w demote ?h)\<rparr>"
    by (subst ih(2)) (simp add: upd_vtx_def)
  moreover have "demote (demote r) = demote r" for r :: "'n ToplVertex"
    by (simp add: demote_def)
  ultimately show ?case
    using ih w by (auto simp: vtx_upd_if)
qed simp

definition undemote :: "vref \<Rightarrow> 'n ToplVertex \<Rightarrow> 'n ToplVertex" where
  "undemote v r = r\<lparr>v_ri := (v_ri r)\<lparr>ri_cost := 0\<rparr>, v_root := Some v, v_demoted := False\<rparr>"

lemma undemote_walk:
  fixes g :: "('n, 't) ToplGraphState"
  assumes "set ws \<subseteq> {..<g_numVertices g}"
  defines "h \<equiv> fold UndemoteOneVertex ws g"
  shows "g_numVertices h = g_numVertices g \<and> h = g\<lparr>g_vertices := g_vertices h\<rparr> \<and>
    (\<forall>v<g_numVertices g. vtx h v = (if v \<in> set ws \<and> v_color (vtx g v) \<noteq> COLOR_WHITE then undemote v (vtx g v) else vtx g v))"
  using assms(1) unfolding h_def
proof (induction ws rule: rev_induct)
  case (snoc w ws)
  let ?h = "fold UndemoteOneVertex ws g"
  have ih: "g_numVertices ?h = g_numVertices g" "?h = g\<lparr>g_vertices := g_vertices ?h\<rparr>"
    "\<And>v. v < g_numVertices g \<Longrightarrow> vtx ?h v = (if v \<in> set ws \<and> v_color (vtx g v) \<noteq> COLOR_WHITE then undemote v (vtx g v) else vtx g v)"
    using snoc by auto
  have w: "w < g_numVertices g"
    using snoc.prems by auto
  have undem: "undemote v (undemote v r) = undemote v r" "v_color (undemote v r) = v_color r" for v and r :: "'n ToplVertex"
    by (simp_all add: undemote_def)
  have "UndemoteOneVertex w ?h = (if v_color (vtx g w) \<noteq> COLOR_WHITE then upd_vtx w (undemote w) ?h else ?h)"
    using ih(3) [OF w] undem(2) by (auto simp: UndemoteOneVertex_def undemote_def [abs_def])
  moreover have "upd_vtx w (undemote w) ?h = g\<lparr>g_vertices := g_vertices (upd_vtx w (undemote w) ?h)\<rparr>"
    by (subst ih(2)) (simp add: upd_vtx_def)
  ultimately show ?case
    using ih w undem by (auto simp: vtx_upd_if)
qed simp

text \<open>A fresh graph with some vertices demoted is labelled by the paths of length 0.\<close>

lemma demoted_labelled:
  assumes rdy: "ready ok elems k g" and fr: "fresh g" and net: "net h = net g" and h: "h = g\<lparr>g_vertices := g_vertices h\<rparr>"
    and vtx: "\<forall>v<g_numVertices g. vtx h v = (if D v then demote (vtx g v) else vtx g v)"
  shows "labelled ok elems k es h"
proof -
  note same = same_sites_net [OF net]
  have cache: "g_schedCache h = g_schedCache g" and n: "g_numVertices h = g_numVertices g"
    and st: "g_masterEdgeList h = g_masterEdgeList g" "g_store h = g_store g"
    using net_eqD(1,2,4) [OF net] arg_cong [OF h, of g_schedCache] by simp_all
  have "graph_ok h" "names_set h"
    using graph_ok_net [OF net [symmetric]] rdy same_sites_facts(4) [OF same] by (simp_all add: ready_def)
  moreover have "in_cache elems (g_schedCache h) (ri_schedule (v_ri (vtx h v))) \<and> k \<in> avail (ri_schedule (v_ri (vtx h v)))"
    if "v < g_numVertices g" for v
    using vtx fr rdy that by (auto simp: fresh_def demote_def ready_def)
  moreover have "case v_root (vtx h v) of None \<Rightarrow> vcost h v = INFINITY_DW
      | Some r \<Rightarrow> r \<in> colored h \<and> v_componentId (vtx h v) = int r \<and> set_path h es r v (unat (vcost h v)) \<and> vcost h v < INFINITY_DW"
    if v: "v < g_numVertices g" for v
  proof (cases "D v \<or> v \<notin> colored g")
    case True
    then show ?thesis
      using vtx fr v by (auto simp: fresh_def demote_def)
  next
    case False
    have "0 < INFINITY_DW"
      using unat_INFINITY_DW by (simp add: word_less_nat_alt)
    with False vtx fr v set_path.set_start [of h es v] show ?thesis
      by (simp add: fresh_def same_sites_facts(1) [OF same])
  qed
  moreover have "v_demoted (vtx h v) \<or> v_root (vtx h v) \<noteq> None" if "v < g_numVertices g" "v \<in> colored h" for v
    using vtx fr that by (auto simp: fresh_def demote_def same_sites_facts(1) [OF same])
  ultimately show ?thesis
    using rdy unfolding labelled_def n st by (simp add: ready_def cache)
qed

lemma lone_path: "set_path g {e} x y c \<Longrightarrow> y = x \<or> x \<in> set (edge_walk g e) \<and> y \<in> set (edge_walk g e)"
  by (induction rule: set_path.induct) auto

text \<open>Undoing the demotions of a round restores a fresh graph, up to its cache.\<close>

lemma undemoted_recached:
  assumes fr: "fresh g" and ws: "set ws \<subseteq> {..<g_numVertices g}" and net: "net h = net g" and h: "h = g\<lparr>g_vertices := g_vertices h\<rparr>"
    and vtx: "\<forall>v<g_numVertices g. vtx h v = (if v \<in> set ws \<and> refuses g ty v then demote (vtx g v) else vtx g v)"
    and rec: "recached ok elems h h'"
  shows "recached ok elems g (fold UndemoteOneVertex ws h')"
proof -
  obtain c where c: "h' = h\<lparr>g_schedCache := c\<rparr>" "cache_ok ok elems c" "\<forall>x. in_cache elems (g_schedCache h) x \<longrightarrow> in_cache elems c x"
    using rec by (auto simp: recached_def)
  have n: "g_numVertices h = g_numVertices g" "g_schedCache h = g_schedCache g"
    using net_eqD(1) [OF net] by (simp, subst h) simp
  let ?u = "fold UndemoteOneVertex ws h'"
  have "set ws \<subseteq> {..<g_numVertices h'}"
    using ws n by (simp add: c(1))
  from undemote_walk [OF this] have u: "g_numVertices ?u = g_numVertices g" "?u = h'\<lparr>g_vertices := g_vertices ?u\<rparr>"
    "\<And>v. v < g_numVertices g \<Longrightarrow> vtx ?u v = (if v \<in> set ws \<and> v_color (vtx h v) \<noteq> COLOR_WHITE then undemote v (vtx h v) else vtx h v)"
    by (simp_all add: c(1) n)
  have "vtx ?u v = vtx g v" if v: "v < g_numVertices g" for v
  proof (cases "v \<in> set ws \<and> v \<in> colored g")
    case True
    then have r: "v_root (vtx g v) = Some v" "ri_cost (v_ri (vtx g v)) = 0" "\<not> v_demoted (vtx g v)"
      using fr v by (auto simp: fresh_def)
    have "v_color (vtx h v) \<noteq> COLOR_WHITE"
      using True net_fields(4) [OF net, of v] v n by (simp add: colored_def)
    moreover have "undemote v (vtx g v) = vtx g v" "undemote v (demote (vtx g v)) = vtx g v"
      using r by (cases "vtx g v"; cases "v_ri (vtx g v)"; simp add: undemote_def demote_def)+
    ultimately show ?thesis
      using u(3) [OF v] vtx v True by simp
  next
    case False
    then have "vtx h v = vtx g v" "\<not> (v \<in> set ws \<and> v_color (vtx h v) \<noteq> COLOR_WHITE)"
      using vtx v net_fields(4) [OF net, of v] n by (auto simp: refuses_def colored_def)
    with u(3) [OF v] show ?thesis
      by presburger
  qed
  then have "g_vertices ?u = g_vertices g"
    using u(1) by (intro nth_equalityI) simp_all
  with u(2) have "?u = h'\<lparr>g_vertices := g_vertices g\<rparr>" by simp
  also have "\<dots> = g\<lparr>g_schedCache := c\<rparr>"
    by (subst c(1), subst h) simp
  finally show ?thesis
    using c(2,3) n(2) by (auto simp: recached_def)
qed

context edge_tables
begin

lemma process_lone_edge_spec:
  assumes env: "env_table env = T" and rdy: "ready ok elems k g" and fr: "fresh g"
    and fam: "{e} \<in> fam" and t: "iok t" "\<forall>x\<in>set (ielems t). int_edge g fam x"
    and e: "e \<in> set (dyn_list (g_masterEdgeList g))"
  shows "\<exists>s. process_lone_edge env TI e (g, t) = Inr s \<and> collects fam (g, t) s \<and>
    (\<forall>(a, b)\<in>{(a, b). all_accept g (e_edgeType (edge g e)) \<and> a \<in> colored g \<inter> set (edge_walk g e) \<and> b \<in> colored g \<inter> set (edge_walk g e)}.
       connected (ielems (snd s)) a b)"
proof -
  let ?ty = "e_edgeType (edge g e)" and ?ws = "edge_walk g e"
  let ?h = "fold (\<lambda>v. CheckDemoteOneVertex v ?ty) ?ws g"
  have gok: "graph_ok g" "names_set g"
    using rdy by (auto simp: ready_def)
  have ws: "set ?ws \<subseteq> {..<g_numVertices g}" and el: "e < length (g_store g)"
    using master_walk [OF gok e] gok(1) e by (auto simp: graph_ok_def)
  from demote_walk [OF ws, of ?ty] have h: "net ?h = net g" "?h = g\<lparr>g_vertices := g_vertices ?h\<rparr>"
    "\<forall>v<g_numVertices g. vtx ?h v = (if v \<in> set ?ws \<and> refuses g ?ty v then demote (vtx g v) else vtx g v)"
    by auto
  note sh = same_sites_facts [OF same_sites_net [OF h(1)]] and nh = net_eqD(1-9) [OF h(1)]
  have lab: "labelled ok elems k {e} ?h"
    by (rule demoted_labelled [OF rdy fr h])
  have th: "\<forall>x\<in>set (ielems t). int_edge ?h fam x"
    using t(2) by (simp add: sh(7))
  obtain h' t' where p: "ProcessEdge env TI e (?h, t) = Inr (h', t')" "collects fam (?h, t) (h', t')"
      "all_accept ?h (e_edgeType (edge ?h e)) \<longrightarrow> (\<forall>(a, b)\<in>edge_roots ?h e. connected (ielems t') a b)"
    using ProcessEdge_spec [OF env lab fam t(1) th, of e] e nh(4) by auto
  note nx = collects_next [OF p(2), simplified]
  have st: "edge_walk h' e = ?ws"
    using recached_fields(6) [OF nx(1)] sh(2) by simp
  let ?u = "fold UndemoteOneVertex ?ws h'"
  have eq: "process_lone_edge env TI e (g, t) = Inr (?u, t')"
    by (simp add: process_lone_edge_def CheckMultiEdge_ok [OF gok(1) el] p(1) Let_def st)
  have rec: "recached ok elems g ?u"
    by (rule undemoted_recached [OF fr ws h nx(1)])
  have col: "collects fam (g, t) (?u, t')"
    using rec p(2) sh(7) by (auto simp: collects_def)
  have conn: "connected (ielems t') a b"
    if acc: "all_accept g ?ty" and a: "a \<in> colored g" "a \<in> set ?ws" and b: "b \<in> colored g" "b \<in> set ?ws" for a b
  proof -
    have "\<not> refuses g ?ty v" if "v \<in> colored g" for v
      using acc that by (auto simp: all_accept_def accepts_def refuses_def split: if_splits)
    then have "v_root (vtx ?h v) = Some v" if "v \<in> colored g" for v
      using h(3) fr that by (auto simp: fresh_def colored_def)
    then have "(a, b) \<in> edge_roots ?h e"
      using a b by (auto simp: edge_roots_def sh(2))
    then show ?thesis
      using p(3) acc by (auto simp: sh(8) nh(2))
  qed
  show ?thesis
    using eq col conn by auto
qed

lemma lone_edges_spec:
  assumes env: "env_table env = T" and rdy: "ready ok elems k g" and fr: "fresh g"
    and fam: "\<And>e. e \<in> set (dyn_list (g_masterEdgeList g)) \<Longrightarrow> {e} \<in> fam" and t: "iok t" "\<forall>x\<in>set (ielems t). int_edge g fam x"
  obtains g' t' where "ProcessEdgeSet env TI None (g, t) = Inr (g', t')" "recached ok elems g g'" "phase k fam (g, t) (g', t')"
    "\<And>e. e \<in> set (dyn_list (g_masterEdgeList g)) \<Longrightarrow> set_conn g {e} t'"
proof -
  let ?mel = "dyn_list (g_masterEdgeList g)"
  let ?J = "\<lambda>e. {(a, b). all_accept g (e_edgeType (edge g e)) \<and> a \<in> colored g \<inter> set (edge_walk g e) \<and> b \<in> colored g \<inter> set (edge_walk g e)}"
  have mel: "dyn_walk (g_masterEdgeList g) = ?mel"
    using rdy by (simp add: ready_def graph_ok_def)
  have rec: "recached ok elems g g"
    using rdy by (auto simp: recached_def ready_def intro!: exI [of _ "g_schedCache g"])
  have "\<exists>s. process_lone_edge env TI e (h, u) = Inr s \<and> collects fam (h, u) s \<and> (\<forall>(a, b)\<in>?J e. connected (ielems (snd s)) a b)"
    if e: "e \<in> set ?mel" and rec: "recached ok elems g h" and u: "iok u" "\<forall>y\<in>set (ielems u). int_edge h fam y" for e h u
  proof -
    note f = recached_fields [OF rec]
    have "ready ok elems k h"
      by (rule ready_cong [OF rdy same_sites_recached [OF rec]]) (use rdy rec recached_graph_ok [OF rec] in \<open>auto simp: recached_def ready_def\<close>)
    moreover have "fresh h"
      using fr by (simp add: fresh_def f)
    moreover have "all_accept h ty = all_accept g ty" for ty
      by (simp add: all_accept_def f)
    ultimately show ?thesis
      using process_lone_edge_spec [OF env _ _ fam [OF e] u, of k] e unfolding f by simp
  qed
  then have "\<exists>s. foldE (process_lone_edge env TI) ?mel (g, t) = Inr s \<and> collects fam (g, t) s \<and>
      (\<forall>e\<in>set ?mel. \<forall>(a, b)\<in>?J e. connected (ielems (snd s)) a b)"
    using rec t by (rule foldE_collects)
  then obtain g' t' where s: "foldE (process_lone_edge env TI) ?mel (g, t) = Inr (g', t')" "collects fam (g, t) (g', t')"
      "\<forall>e\<in>set ?mel. \<forall>(a, b)\<in>?J e. connected (ielems t') a b"
    by auto
  note nx = collects_next [OF s(2), simplified]
  have "ready ok elems k g'"
    by (rule ready_cong [OF rdy same_sites_recached [OF nx(1)]]) (use rdy nx(1) recached_graph_ok [OF nx(1)] in \<open>auto simp: recached_def ready_def\<close>)
  then have "phase k fam (g, t) (g', t')"
    using same_sites_recached [OF nx(1)] s(2) by (simp add: phase_def collects_def)
  moreover have "set_conn g {e} t'" if "e \<in> set ?mel" for e
    using s(3) that lone_path [of g e] by (fastforce simp: set_conn_def)
  ultimately show ?thesis
    using that [OF _ nx(1)] s(1) by (simp add: ProcessEdgeSet_def mel)
qed

end

section \<open>The whole phase\<close>

text \<open>The sets of edges over which internal edges are built.\<close>

definition families :: "('n, 't) ToplGraphState \<Rightarrow> eref set set" where
  "families g = (\<lambda>i. set (edge_set g i)) ` {..<DynArrayGetCount (g_edgeSets g)} \<union> (\<lambda>e. {e}) ` set (dyn_list (g_masterEdgeList g))"

lemma families_sites: "same_sites g g' \<Longrightarrow> families g' = families g"
  using same_sites_facts(3) [of g g'] by (simp add: families_def same_sites_def)

context edge_tables
begin

lemma phases_spec:
  assumes env: "env_table env = T" and rdy: "ready ok elems k g"
  obtains h t g' t' where
    "foldO (process_edge_set env TI) [0..<DynArrayGetCount (g_edgeSets g)] (g, RtlInitializeGenericTable TI) = Some (Inr (h, t))"
    "ProcessEdgeSet env TI None (SetupVertices h, t) = Inr (g', t')" "same_sites g g'" "ready ok elems k g'" "fresh g'" "iok t'"
    "\<forall>x\<in>set (ielems t'). int_edge g (families g) x" "\<forall>es\<in>families g. set_conn g es t'"
proof -
  let ?t0 = "RtlInitializeGenericTable TI"
  have t0: "iok ?t0" "\<forall>x\<in>set (ielems ?t0). int_edge g (families g) x"
    by (simp_all add: edges.ok_init edges.elems_init)
  obtain h t where s: "foldO (process_edge_set env TI) [0..<DynArrayGetCount (g_edgeSets g)] (g, ?t0) = Some (Inr (h, t))"
      "phase k (families g) (g, ?t0) (h, t)" "\<forall>i<DynArrayGetCount (g_edgeSets g). set_conn g (set (edge_set g i)) t"
    using edge_set_rounds [OF env rdy _ t0 order_refl] by (auto simp: families_def)
  let ?h = "SetupVertices h"
  have same: "same_sites g h" and rdy1: "ready ok elems k h" and t: "iok t"
    using s(2) by (simp_all add: phase_def)
  note same2 = same_sites_net [OF SetupVertices_net, of h]
  note same3 = same_sites_trans [OF same same2]
  have gok: "graph_ok h"
    using rdy1 by (simp add: ready_def)
  have rdy2: "ready ok elems k ?h"
    by (rule ready_cong [OF rdy1 same2 graph_ok_net [OF SetupVertices_net [symmetric] gok]]) (use rdy1 in \<open>simp_all add: ready_def\<close>)
  have int: "\<forall>x\<in>set (ielems t). int_edge ?h (families g) x"
    using s(2) same_sites_facts(7) [OF same3] by (simp add: phase_def)
  have mel: "g_masterEdgeList ?h = g_masterEdgeList g"
    using same3 by (simp add: same_sites_def)
  obtain g' t' where l: "ProcessEdgeSet env TI None (?h, t) = Inr (g', t')" "recached ok elems ?h g'"
      "phase k (families g) (?h, t) (g', t')" "\<And>e. e \<in> set (dyn_list (g_masterEdgeList ?h)) \<Longrightarrow> set_conn ?h {e} t'"
    by (rule lone_edges_spec [OF env rdy2 fresh_SetupVertices [OF gok] _ t int]) (auto simp: families_def mel)
  have "fresh g'"
    using fresh_SetupVertices [OF gok] unfolding fresh_def recached_fields [OF l(2)] .
  moreover have "set_conn g es t'" if "es \<in> families g" for es
    using that unfolding families_def
  proof (elim UnE imageE)
    fix i
    assume "es = set (edge_set g i)" "i \<in> {..<DynArrayGetCount (g_edgeSets g)}"
    then have "set_conn g es (snd (?h, t))"
      using s(3) by simp
    from set_conn_phase [OF this l(3)] show ?thesis
      by simp
  next
    fix e
    assume "es = {e}" "e \<in> set (dyn_list (g_masterEdgeList g))"
    then show ?thesis
      using l(4) [of e] set_conn_sites [OF same3] by (simp add: mel)
  qed
  moreover have "\<forall>x\<in>set (ielems t'). int_edge g (families g) x" "iok t'" "ready ok elems k g'" "same_sites g g'"
    using l(3) same_sites_facts(7) [OF same3] same_sites_trans [OF same3] by (simp_all add: phase_def)
  ultimately show ?thesis
    using that s(1) l(1) by blast
qed

end

interpretation list_tables: edge_tables list_table "sorted_wrt (rtl_less TableCompare)" "\<lambda>t. t"
  list_table "sorted_wrt (rtl_less (EdgeCompare (\<lambda>v. v)))" "\<lambda>t. t"
  by unfold_locales

section \<open>Properties\<close>

text \<open>\<^verbatim>\<open>SetupEdges\<close> on a well-formed graph gives the type of the edge set and builds its adjacency lists: it
  changes edge lists only, and the list of a vertex holds exactly the edges of the set that have the
  vertex.\<close>

theorem SetupEdges_correct:
  assumes "graph_ok g" and "names_set g" and "i < DynArrayGetCount (g_edgeSets g)"
  shows "\<exists>h ty. SetupEdges g i = Inr (h, ty) \<and> relisted g h \<and> arcs_ok h \<and>
    (\<forall>e\<in>set (edge_set g i). e_edgeType (edge g e) = ty) \<and>
    (\<forall>v<g_numVertices g. refs_at h v = {e \<in> set (edge_set g i). v \<in> set (edge_walk g e)})"
proof -
  obtain h where h: "SetupEdges g i = Inr (h, e_edgeType (edge g (last (edge_set g i))))" "relisted g h" "arcs_ok h"
    "\<forall>u<g_numVertices g. refs_at h u = {e \<in> set (edge_set g i). u \<in> set (edge_walk g e)}"
    by (rule SetupEdges_spec [OF assms]) auto
  show ?thesis
    by (intro exI conjI, rule h(1), rule h(2), rule h(3), rule edge_set_facts(4) [OF assms(1,3)], rule h(4))
qed

text \<open>C8. The collection of internal edges is sound: on a well-formed graph whose edges are all named and whose
  cached schedules share an open quarter-hour, the rounds over the edge sets and the single edges end
  without an exception, leave names, colors, edges and edge sets of the graph alone, make every colored
  vertex its own component again, and every edge in the table joins two different colored vertices that
  both accept it, at the cost, saturated, of a path between them over the edges of one edge set or over
  one single edge.\<close>

theorem internal_edges_sound:
  assumes "edge_tables T ok elems TI iok ielems" and "env_table env = T" and "ready ok elems k g"
  shows "\<exists>h t g' t'.
    foldO (process_edge_set env TI) [0..<DynArrayGetCount (g_edgeSets g)] (g, RtlInitializeGenericTable TI) = Some (Inr (h, t)) \<and>
    ProcessEdgeSet env TI None (SetupVertices h, t) = Inr (g', t') \<and> same_sites g g' \<and>
    (\<forall>v\<in>colored g. v_componentId (vtx g' v) = int v) \<and> iok t' \<and> (\<forall>x\<in>set (ielems t'). int_edge g (families g) x)"
proof -
  obtain h t g' t' where *:
    "foldO (process_edge_set env TI) [0..<DynArrayGetCount (g_edgeSets g)] (g, RtlInitializeGenericTable TI) = Some (Inr (h, t))"
    "ProcessEdgeSet env TI None (SetupVertices h, t) = Inr (g', t')" "same_sites g g'" "ready ok elems k g'" "fresh g'" "iok t'"
    "\<forall>x\<in>set (ielems t'). int_edge g (families g) x" "\<forall>es\<in>families g. edge_tables.set_conn ielems g es t'"
    by (rule edge_tables.phases_spec [OF assms(1-3)])
  have "v_componentId (vtx g' v) = int v" if "v \<in> colored g" for v
    using fresh_component [OF *(5)] that same_sites_facts(1) [OF *(3)] by blast
  with *(1-3,6,7) show ?thesis
    by (intro exI conjI) auto
qed

text \<open>C2. The collection of internal edges is complete: under the same conditions, two colored vertices joined by
  a path over the edges of one edge set, or over one single edge, are connected by internal edges,
  provided the path costs less than the largest 32-bit value and all colored vertices accept the types
  of those edges.\<close>

theorem internal_edges_complete:
  assumes "edge_tables T ok elems TI iok ielems" and "env_table env = T" and "ready ok elems k g"
    and "es \<in> families g" and "\<forall>e\<in>es. all_accept g (e_edgeType (edge g e))"
    and "a \<in> colored g" and "b \<in> colored g" and "set_path g es a b c" and "c < 2 ^ 32 - 1"
  shows "\<exists>h t g' t'.
    foldO (process_edge_set env TI) [0..<DynArrayGetCount (g_edgeSets g)] (g, RtlInitializeGenericTable TI) = Some (Inr (h, t)) \<and>
    ProcessEdgeSet env TI None (SetupVertices h, t) = Inr (g', t') \<and> connected (ielems t') a b"
proof -
  obtain h t g' t' where *:
    "foldO (process_edge_set env TI) [0..<DynArrayGetCount (g_edgeSets g)] (g, RtlInitializeGenericTable TI) = Some (Inr (h, t))"
    "ProcessEdgeSet env TI None (SetupVertices h, t) = Inr (g', t')" "same_sites g g'" "ready ok elems k g'" "fresh g'" "iok t'"
    "\<forall>x\<in>set (ielems t'). int_edge g (families g) x" "\<forall>es\<in>families g. edge_tables.set_conn ielems g es t'"
    by (rule edge_tables.phases_spec [OF assms(1-3)])
  have "connected (ielems t') a b"
    using *(8) assms(4-9) by (auto simp: edge_tables.set_conn_def [OF assms(1)])
  with *(1,2) show ?thesis
    by blast
qed

section \<open>Concrete instances\<close>

text \<open>Two red sites joined by one edge.\<close>

lemma two_red_edges: "edge_walk two_red 0 = [0, 1]" "dyn_list (g_masterEdgeList two_red) = [0]" "ecost two_red 0 = 7"
  "e_edgeType (edge two_red 0) = 0"
proof -
  have "g_store two_red = g_store two_sites" "g_masterEdgeList two_red = g_masterEdgeList two_sites"
    by (simp_all add: two_red_def)
  then show "edge_walk two_red 0 = [0, 1]" "dyn_list (g_masterEdgeList two_red) = [0]" "ecost two_red 0 = 7"
    "e_edgeType (edge two_red 0) = 0"
    by (simp_all add: edge_walk_def EdgeGetVertex_def two_sites_def)
qed

lemma two_red_ready: "ready (sorted_wrt (rtl_less TableCompare)) (\<lambda>t. t) 0 two_red"
proof -
  have "ri_schedule (e_ri (edge two_red 0)) = None" "g_schedCache two_red = list_cache_init"
    "\<forall>nm\<in>set (e_vertexNames (edge two_red 0)). nm_name nm \<noteq> None"
    by (simp_all add: two_red_def) (simp_all add: two_sites_def sample_graph_def)
  then show ?thesis
    using two_red_facts(1) list_cache_init_ok two_red_edges(2)
    by (simp add: ready_def names_set_def SCHED_NUMBER_INTERVALS_WEEK_def)
qed

lemma two_red_accept: "all_accept two_red 0"
proof -
  have "v_acceptRedRed (vtx two_red v) = 1" "v_acceptBlack (vtx two_red v) = 1" if "v \<in> {0, 1}" for v
    using that by (auto simp: two_red_def vtx_upd_field [where fld = v_acceptRedRed] vtx_upd_field [where fld = v_acceptBlack])
      (auto simp: two_sites_def sample_graph_def)
  then show ?thesis
    unfolding all_accept_def two_red_facts(3) accepts_def by (simp add: type_mask_def)
qed

lemma two_red_family: "{0} \<in> families two_red" "set_path two_red {0} 0 1 7"
proof -
  show "{0} \<in> families two_red"
    by (simp add: families_def two_red_edges)
  have "set_path two_red {0} 0 1 (0 + unat (ecost two_red 0))"
    by (rule set_path.set_step [OF set_path.set_start]) (simp_all add: two_red_edges)
  then show "set_path two_red {0} 0 1 7"
    by (simp add: two_red_edges)
qed

theorem internal_edges_sound_witness:
  "\<exists>h t g' t'.
     foldO (process_edge_set list_env list_table) [0..<DynArrayGetCount (g_edgeSets two_red)] (two_red, []) = Some (Inr (h, t)) \<and>
     ProcessEdgeSet list_env list_table None (SetupVertices h, t) = Inr (g', t') \<and>
     (\<forall>x\<in>set t'. int_edge two_red (families two_red) x)"
  using internal_edges_sound [OF list_tables.edge_tables_axioms _ two_red_ready, of list_env]
  by (auto simp: list_env_def list_table_def)

theorem internal_edges_complete_witness:
  "\<exists>h t g' t'.
     foldO (process_edge_set list_env list_table) [0..<DynArrayGetCount (g_edgeSets two_red)] (two_red, []) = Some (Inr (h, t)) \<and>
     ProcessEdgeSet list_env list_table None (SetupVertices h, t) = Inr (g', t') \<and> connected t' 0 1"
  using internal_edges_complete [OF list_tables.edge_tables_axioms _ two_red_ready two_red_family(1) _ _ _ two_red_family(2), of list_env]
    two_red_accept two_red_facts(3) two_red_edges(4)
  by (auto simp: list_env_def list_table_def)

text \<open>The same sites with a second edge, and an edge set of the two edges.\<close>

definition two_links :: "(nat, ToplSched list) ToplGraphState" where
  "two_links = two_red\<lparr>g_store := g_store two_red @ g_store two_red,
     g_masterEdgeList := DynArrayAppend (g_masterEdgeList two_red) (Some 1),
     g_edgeSets := DynArrayAppend (g_edgeSets two_red) (Some (Some [Some 0, Some 1]))\<rparr>"

lemma two_links_ok: "graph_ok two_links" "names_set two_links" "DynArrayGetCount (g_edgeSets two_links) = 1"
proof -
  have "edge two_red 0 = edge two_sites 0" "length (g_store two_red) = 1"
    by (simp_all add: two_red_def) (simp_all add: two_sites_def)
  then have st: "g_store two_links = [edge two_sites 0, edge two_sites 0]"
    by (simp add: two_links_def two_red_def) (simp add: two_sites_def)
  have es: "dyn_array_ok (g_edgeSets two_red)" "dyn_list (g_edgeSets two_red) = []" "dyn_array_ok (g_masterEdgeList two_red)"
    by (simp_all add: two_red_def two_sites_def sample_graph_def)
  have "edge_ok two_red (edge two_sites 0)"
    using two_red_facts(1) \<open>edge two_red 0 = edge two_sites 0\<close> \<open>length (g_store two_red) = 1\<close> by (auto simp: graph_ok_def)
  then have "edge_ok two_links (edge two_sites 0)"
    by (simp add: edge_ok_def two_links_def)
  then have "\<forall>e<length (g_store two_links). edge_ok two_links (edge two_links e)"
    by (auto simp: st less_Suc_eq)
  then show "graph_ok two_links"
    using two_red_facts(1) es two_red_edges(2)
    by (auto simp: graph_ok_def two_links_def edge_set_ok_def st [unfolded two_links_def, simplified] less_Suc_eq
        intro!: exI [of _ "[0, 1]"])
  have "\<forall>nm\<in>set (e_vertexNames (edge two_sites 0)). nm_name nm \<noteq> None"
    by (simp add: two_sites_def)
  then show "names_set two_links"
    using es two_red_edges(2) by (auto simp: names_set_def st) (auto simp: two_links_def)
  show "DynArrayGetCount (g_edgeSets two_links) = 1"
    using es by (simp add: two_links_def val_array.count_contents)
qed

theorem SetupEdges_correct_witness: "\<exists>h ty. SetupEdges two_links 0 = Inr (h, ty) \<and> relisted two_links h"
  using SetupEdges_correct [OF two_links_ok(1,2), of 0] two_links_ok(3) by auto

end
