(* ===== verification/Topl_SpanTree.thy ===== *)
theory Topl_SpanTree
  imports Topl_Phases Topl_DistToRed Topl_Components
begin

text \<open>
  \<^verbatim>\<open>ToplGetSpanningTreeEdgesForVtx\<close> from end to end: the colors, the output edges handed to the caller, the
  emptying of the table of internal edges, and the composition of the three phases. The result is a
  forest of internal edges that connects what paths connect, with its components, and every error
  path of the entry point.
\<close>

section \<open>Colors\<close>

lemma color_vertex_colored:
  assumes "graph_ok g" and "color_vertex cv g = Inr g'"
  shows "g' = g\<lparr>g_vertices := g_vertices g'\<rparr> \<and> g_numVertices g' = g_numVertices g \<and> (\<exists>v. v \<notin> colored g \<and> colored g' = insert v (colored g))"
proof -
  obtain x v where v: "cv_name cv = Some x" "FindVertex g (Some x) = Inr (Some v)" "v_color (vtx g v) = COLOR_WHITE"
      "cv_color cv \<noteq> COLOR_WHITE"
      and g': "g' = upd_vtx v (\<lambda>r. r\<lparr>v_color := cv_color cv, v_acceptRedRed := cv_acceptRedRed cv, v_acceptBlack := cv_acceptBlack cv\<rparr>) g"
    using assms(2) by (auto simp: color_vertex_def bindE_eq_Inr raise_if_def split: option.splits if_splits)
  have "v < g_numVertices g"
    using FindVertex_spec(2) [OF assms(1) v(2)] by simp
  then have "v \<notin> colored g \<and> colored g' = insert v (colored g)"
    using v(3,4) by (auto simp: colored_def g' vtx_upd_if)
  moreover have "g' = g\<lparr>g_vertices := g_vertices g'\<rparr>"
    by (simp add: g' upd_vtx_def)
  moreover have "g_numVertices g' = g_numVertices g"
    by (simp add: g')
  ultimately show ?thesis by blast
qed

lemma finite_colored [simp]: "finite (colored g)"
  by (simp add: colored_def)

lemma color_fold:
  assumes "foldE color_vertex cvs g = Inr g'" and "graph_ok g"
  shows "g' = g\<lparr>g_vertices := g_vertices g'\<rparr> \<and> g_numVertices g' = g_numVertices g \<and> card (colored g') = card (colored g) + length cvs"
  using assms
proof (induction cvs arbitrary: g)
  case (Cons cv cvs)
  then obtain g1 where g1: "color_vertex cv g = Inr g1" "foldE color_vertex cvs g1 = Inr g'"
    by (auto simp: bindE_eq_Inr)
  note c = color_vertex_colored [OF Cons.prems(2) g1(1)]
  note ih = Cons.IH [OF g1(2) color_vertex_ok [OF Cons.prems(2) g1(1)]]
  have "g' = g1\<lparr>g_vertices := g_vertices g'\<rparr>"
    using ih by simp
  also have "\<dots> = g\<lparr>g_vertices := g_vertices g'\<rparr>"
    by (subst conjunct1 [OF c]) simp
  finally show ?case
    using c ih by auto
qed simp

lemma InitColoredVertices_spec:
  assumes ok: "graph_ok g" and init: "InitColoredVertices g (Some cvs) which = Inr g'"
  shows "graph_ok g'" "g' = g\<lparr>g_vertices := g_vertices g'\<rparr>" "g_numVertices g' = g_numVertices g" "card (colored g') = length cvs"
    "w < g_numVertices g \<Longrightarrow> which = Some w \<Longrightarrow> w \<in> colored g'"
proof -
  let ?w = "g\<lparr>g_vertices := map (\<lambda>r. r\<lparr>v_color := COLOR_WHITE\<rparr>) (g_vertices g)\<rparr>"
  have fold: "foldE color_vertex cvs ?w = Inr g'" and wh: "\<And>w. which = Some w \<Longrightarrow> v_color (vtx g' w) \<noteq> COLOR_WHITE"
    using init by (auto simp: InitColoredVertices_def Let_def bindE_eq_Inr split: option.splits if_splits)
  have "graph_ok ?w"
    by (rule graph_ok_map_vtx [OF ok]) simp_all
  note c = color_fold [OF fold this]
  have "colored ?w = {}"
    by (auto simp: colored_def)
  with c show "g_numVertices g' = g_numVertices g" "card (colored g') = length cvs"
    by simp_all
  then show "w < g_numVertices g \<Longrightarrow> which = Some w \<Longrightarrow> w \<in> colored g'"
    using wh by (simp add: colored_def)
  have "g' = ?w\<lparr>g_vertices := g_vertices g'\<rparr>"
    using c by blast
  then show "g' = g\<lparr>g_vertices := g_vertices g'\<rparr>"
    by simp
  show "graph_ok g'"
    by (rule InitColoredVertices_ok [OF ok init])
qed

lemma ready_colors:
  assumes "ready ok elems k g" and "graph_ok g'" and "g' = g\<lparr>g_vertices := g_vertices g'\<rparr>"
  shows "ready ok elems k g'" "g_edgeSets g' = g_edgeSets g"
proof -
  have eq: "g_store g' = g_store g" "g_masterEdgeList g' = g_masterEdgeList g" "g_schedCache g' = g_schedCache g"
    "g_edgeSets g' = g_edgeSets g"
    using arg_cong [OF assms(3), of g_store] arg_cong [OF assms(3), of g_masterEdgeList] arg_cong [OF assms(3), of g_schedCache]
      arg_cong [OF assms(3), of g_edgeSets] by simp_all
  then show "ready ok elems k g'" "g_edgeSets g' = g_edgeSets g"
    using assms(1,2) by (simp_all add: ready_def names_set_def)
qed

section \<open>Output edges\<close>

text \<open>The state in which edges are copied: distinct output edges between two vertices each.\<close>

definition outputs_ok :: "('n, 't) ToplGraphState \<Rightarrow> eref DynArray \<Rightarrow> bool" where
  "outputs_ok g out \<longleftrightarrow> ids_ok g \<and> dyn_array_ok out \<and> distinct (dyn_list out) \<and>
     (\<forall>ref\<in>set (dyn_list out). ref < length (g_store g) \<and> CheckMultiEdge g (Some ref) = Inr ref \<and> e_numVertices (edge g ref) = 2)"

definition touches :: "('n, 't) ToplGraphState \<Rightarrow> vref option \<Rightarrow> eref \<Rightarrow> bool" where
  "touches g whichVtx ref \<longleftrightarrow> whichVtx = None \<or> whichVtx = Some (EdgeGetVertex g ref 0) \<or> whichVtx = Some (EdgeGetVertex g ref 1)"

abbreviation directed_edge :: "('n, 't) ToplGraphState \<Rightarrow> eref \<Rightarrow> 'n TOPL_MULTI_EDGE" where
  "directed_edge g ref \<equiv> direct_edge g (EdgeGetVertex g ref 0) (EdgeGetVertex g ref 1) (edge g ref)"

lemma count_out_spec:
  assumes "\<forall>ref\<in>set rs. CheckMultiEdge g (Some ref) = Inr ref" and "ids_ok g" and "\<And>w. whichVtx = Some w \<Longrightarrow> w < g_numVertices g"
  shows "foldE (count_out_edge g whichVtx) rs n = Inr (n + length (filter (touches g whichVtx) rs))"
  using assms(1)
proof (induction rs arbitrary: n)
  case (Cons ref rs)
  have "count_out_edge g whichVtx ref n = Inr (if touches g whichVtx ref then n + 1 else n)"
    using Cons.prems assms(2,3) by (cases whichVtx) (auto simp: count_out_edge_def touches_def ids_ok_def)
  then show ?case
    using Cons by simp
qed simp

lemma EdgeGetVertex_other: "ref' \<noteq> ref \<Longrightarrow> ref < length (g_store g) \<Longrightarrow> EdgeGetVertex (upd_edge ref f g) ref' i = EdgeGetVertex g ref' i"
  by (simp add: EdgeGetVertex_def edge_upd)

lemma CheckMultiEdge_other:
  "ref' \<noteq> ref \<Longrightarrow> ref < length (g_store g) \<Longrightarrow> CheckMultiEdge (upd_edge ref f g) (Some ref') = CheckMultiEdge g (Some ref')"
  by (simp add: CheckMultiEdge_def edge_upd)

lemma direct_edge_cong: "g_vertices g' = g_vertices g \<Longrightarrow> direct_edge g' v w r = direct_edge g v w r"
  by (simp add: direct_edge_def)

lemma copy_out_spec:
  assumes "distinct rs" and "\<forall>ref\<in>set rs. ref < length (g_store g) \<and> CheckMultiEdge g (Some ref) = Inr ref"
  shows "\<exists>g'. foldE (copy_out_edge whichVtx) rs (g, l) = Inr (g', l @ filter (touches g whichVtx) rs) \<and>
    g' = g\<lparr>g_store := g_store g'\<rparr> \<and> length (g_store g') = length (g_store g) \<and>
    (\<forall>ref<length (g_store g). edge g' ref = (if ref \<in> set rs \<and> touches g whichVtx ref then directed_edge g ref else edge g ref))"
  using assms
proof (induction rs arbitrary: g l)
  case (Cons ref rs)
  have ref: "ref < length (g_store g)" "CheckMultiEdge g (Some ref) = Inr ref" "ref \<notin> set rs"
    using Cons.prems by auto
  define h where "h = (if touches g whichVtx ref then upd_edge ref (direct_edge g (EdgeGetVertex g ref 0) (EdgeGetVertex g ref 1)) g else g)"
  have step: "copy_out_edge whichVtx ref (g, l) = Inr (h, l @ (if touches g whichVtx ref then [ref] else []))"
    using ref(2) by (auto simp: copy_out_edge_def touches_def h_def Let_def)
  have h: "g_vertices h = g_vertices g" "length (g_store h) = length (g_store g)" "h = g\<lparr>g_store := g_store h\<rparr>"
    by (simp_all add: h_def upd_edge_def)
  have e: "edge h r = (if r = ref \<and> touches g whichVtx ref then directed_edge g ref else edge g r)" for r
    using ref(1) by (simp add: h_def edge_upd)
  have other: "EdgeGetVertex h r i = EdgeGetVertex g r i" "CheckMultiEdge h (Some r) = CheckMultiEdge g (Some r)"
    "touches h whichVtx r = touches g whichVtx r" "directed_edge h r = directed_edge g r" if "r \<noteq> ref" for r i
    using that ref(1) e [of r] EdgeGetVertex_other [of r ref g] CheckMultiEdge_other [of r ref g] direct_edge_cong [OF h(1)]
    by (simp_all add: h_def touches_def)
  have pre: "distinct rs" "\<forall>r\<in>set rs. r < length (g_store h) \<and> CheckMultiEdge h (Some r) = Inr r"
    using Cons.prems ref(3) other(2) unfolding h(2) by (simp, metis list.set_intros(2))
  have filt: "filter (touches h whichVtx) rs = filter (touches g whichVtx) rs"
    using ref(3) other(3) by (intro filter_cong) (simp, metis)
  obtain g' where g': "foldE (copy_out_edge whichVtx) rs (h, l @ (if touches g whichVtx ref then [ref] else [])) =
        Inr (g', (l @ (if touches g whichVtx ref then [ref] else [])) @ filter (touches g whichVtx) rs)"
      "g' = h\<lparr>g_store := g_store g'\<rparr>" "length (g_store g') = length (g_store g)"
      "\<forall>r<length (g_store g). edge g' r = (if r \<in> set rs \<and> touches h whichVtx r then directed_edge h r else edge h r)"
    using Cons.IH [OF pre, of "l @ (if touches g whichVtx ref then [ref] else [])"] unfolding filt h(2) by blast
  have "g' = g\<lparr>g_store := g_store g'\<rparr>"
    by (subst g'(2), subst h(3)) simp
  moreover have "edge g' r = (if r \<in> set (ref # rs) \<and> touches g whichVtx r then directed_edge g r else edge g r)"
    if "r < length (g_store g)" for r
    using g'(4) that e [of r] other(3,4) [of r] ref(3) by (cases "r = ref") auto
  ultimately show ?case
    using g'(1,3) step by (intro exI [of _ g']) simp
qed simp

lemma CopyOutputEdges_spec:
  assumes "outputs_ok g out" and "\<And>w. whichVtx = Some w \<Longrightarrow> w < g_numVertices g"
  obtains g' where "CopyOutputEdges g out whichVtx = Inr (g', filter (touches g whichVtx) (dyn_list out), length (filter (touches g whichVtx) (dyn_list out)))"
    "g' = g\<lparr>g_store := g_store g'\<rparr>" "length (g_store g') = length (g_store g)"
    "\<forall>ref<length (g_store g). edge g' ref = (if ref \<in> set (dyn_list out) \<and> touches g whichVtx ref then directed_edge g ref else edge g ref)"
proof -
  have o: "dyn_walk out = dyn_list out" "distinct (dyn_list out)" "ids_ok g"
    "\<forall>ref\<in>set (dyn_list out). ref < length (g_store g) \<and> CheckMultiEdge g (Some ref) = Inr ref"
    using assms(1) by (auto simp: outputs_ok_def)
  then have "\<forall>ref\<in>set (dyn_list out). CheckMultiEdge g (Some ref) = Inr ref"
    by blast
  note count = count_out_spec [OF this o(3) assms(2), where n = 0]
  obtain g' where g': "foldE (copy_out_edge whichVtx) (dyn_list out) (g, []) = Inr (g', [] @ filter (touches g whichVtx) (dyn_list out))"
    "g' = g\<lparr>g_store := g_store g'\<rparr>" "length (g_store g') = length (g_store g)"
    "\<forall>ref<length (g_store g). edge g' ref = (if ref \<in> set (dyn_list out) \<and> touches g whichVtx ref then directed_edge g ref else edge g ref)"
    using copy_out_spec [OF o(2,4), of whichVtx "[]"] by blast
  show ?thesis
    by (rule that [OF _ g'(2-4)]) (use count g'(1) in \<open>simp add: CopyOutputEdges_def o(1)\<close>)
qed

section \<open>Emptying the table\<close>

lemma ClearInternalEdges_spec:
  assumes "rtl_generic_table (EdgeCompare (\<lambda>v. v)) TI iok ielems" and "iok t"
  shows "\<exists>t'. ClearInternalEdges TI (\<lambda>v. v) t = Some (Inr t') \<and> iok t' \<and> ielems t' = []"
  using assms(2)
proof (induction "ielems t" arbitrary: t)
  case Nil
  then show ?case
    using rtl_generic_table.is_empty [OF assms(1)] by (subst ClearInternalEdges.simps) simp
next
  case (Cons e es)
  obtain t1 where t1: "RtlFirstElement TI t = (t1, Some e)" "iok t1" "ielems t1 = e # es"
    using rtl_generic_table.first_some [OF assms(1) Cons.prems Cons.hyps(2) [symmetric]] Cons.hyps(2) by auto
  have "iok (RtlDeleteElementGenericTable TI (EdgeCompare (\<lambda>v. v)) t1 e)"
    "ielems (RtlDeleteElementGenericTable TI (EdgeCompare (\<lambda>v. v)) t1 e) = es"
    using rtl_generic_table.delete_first [OF assms(1) t1(2,3) edge_order.rtl_refl] by simp_all
  from Cons.hyps(1) [OF this(2) [symmetric] this(1)] show ?case
    using rtl_generic_table.is_empty [OF assms(1) Cons.prems] Cons.hyps(2) [symmetric] t1(1)
    by (subst ClearInternalEdges.simps) (simp add: Let_def)
qed

section \<open>From the forest to the output\<close>

text \<open>What the caller reads off an edge, whatever its direction.\<close>

definition out_view :: "'n TOPL_MULTI_EDGE \<Rightarrow> TOPL_REPL_INFO \<times> dword \<times> 'n TOPL_NAME_STRUCT set" where
  "out_view e = (e_ri e, e_edgeType e, set (e_vertexNames e))"

lemma two_names:
  assumes "length xs = 2"
  obtains a b where "xs = [a, b]"
  using assms by (auto simp: numeral_2_eq_2 length_Suc_conv)

lemma direct_edge_view:
  assumes "e_numVertices r = 2"
  shows "out_view (direct_edge g v w r) = out_view r"
proof -
  obtain a b where "e_vertexNames r = [a, b]"
    using two_names [OF assms] .
  then show ?thesis
    by (auto simp: out_view_def direct_edge_def Let_def)
qed

definition at_vertex :: "vref option \<Rightarrow> ToplInternalEdge \<Rightarrow> bool" where
  "at_vertex whichVtx e \<longleftrightarrow> whichVtx = None \<or> whichVtx = Some (ie_v1 e) \<or> whichVtx = Some (ie_v2 e)"

lemma map_filter_all2:
  assumes "list_all2 R xs ys" and "\<And>x y. R x y \<Longrightarrow> P x = Q y \<and> (P x \<longrightarrow> f x = h y)"
  shows "map f (filter P xs) = map h (filter Q ys)"
  using assms by (induction rule: list_all2_induct) auto

lemma forest_edges:
  assumes inv: "forest_inv G C cs out g" and cs: "\<forall>e\<in>set cs. ie_v1 e \<in> C \<and> ie_v2 e \<in> C \<and> ie_valid e"
    and st: "g_store h = g_store g"
  shows "list_all2 (\<lambda>ref e. ref \<in> set (dyn_list out) \<and> edge h ref = out_edge G e) (dyn_list out) cs"
    "\<And>ref. ref \<in> set (dyn_list out) \<Longrightarrow> ref < length (g_store h) \<and> CheckMultiEdge h (Some ref) = Inr ref \<and>
       e_numVertices (edge h ref) = 2 \<and> EdgeGetVertex h ref 0 < g_numVertices g \<and> EdgeGetVertex h ref 1 < g_numVertices g"
proof -
  have f: "length (dyn_list out) = length cs" "map (edge g) (dyn_list out) = map (out_edge G) cs" "C \<subseteq> {..<g_numVertices g}"
      "\<forall>ref\<in>set (dyn_list out). ref < length (g_store g)"
    using inv unfolding forest_inv_def by blast+
  have nth: "edge h (dyn_list out ! j) = out_edge G (cs ! j)" if "j < length cs" for j
    using arg_cong [OF f(2), of "\<lambda>l. l ! j"] that f(1) st by simp
  then show "list_all2 (\<lambda>ref e. ref \<in> set (dyn_list out) \<and> edge h ref = out_edge G e) (dyn_list out) cs"
    using f(1) by (simp add: list_all2_conv_all_nth)
  show "ref < length (g_store h) \<and> CheckMultiEdge h (Some ref) = Inr ref \<and> e_numVertices (edge h ref) = 2 \<and>
      EdgeGetVertex h ref 0 < g_numVertices g \<and> EdgeGetVertex h ref 1 < g_numVertices g" if mem: "ref \<in> set (dyn_list out)" for ref
  proof -
    obtain j where j: "j < length cs" "ref = dyn_list out ! j"
      using mem f(1) by (auto simp: in_set_conv_nth)
    have e: "edge h ref = out_edge G (cs ! j)" and c: "ie_v1 (cs ! j) \<in> C" "ie_v2 (cs ! j) \<in> C" "ie_valid (cs ! j)"
      using nth [OF j(1)] j cs by simp_all
    have "CheckMultiEdge h (Some ref) = Inr ref"
      using c(3) by (simp add: CheckMultiEdge_def e out_edge_def ie_valid_def not_less)
    moreover have "EdgeGetVertex h ref 0 = ie_v1 (cs ! j)" "EdgeGetVertex h ref 1 = ie_v2 (cs ! j)" "e_numVertices (edge h ref) = 2"
      by (simp_all add: EdgeGetVertex_def e out_edge_def)
    moreover have "ref < length (g_store h)" "ie_v1 (cs ! j) < g_numVertices g" "ie_v2 (cs ! j) < g_numVertices g"
      using c(1,2) f(3,4) mem st by auto
    ultimately show ?thesis by simp
  qed
qed

lemma incident_subset: "set (incident v rs cs) \<subseteq> set rs"
  by (auto simp: incident_def dest: set_zip_leftD)

lemma forest_search:
  assumes inv: "forest_inv G C cs out g" and cs: "\<forall>e\<in>set cs. ie_v1 e \<in> C \<and> ie_v2 e \<in> C \<and> ie_valid e"
    and n: "g_numVertices g < 2 ^ 32"
  shows "search_ok g"
proof -
  have l: "dyn_array_ok (v_edgeList (vtx g v)) \<and> set (refs g v) \<subseteq> set (dyn_list out)" if "v < g_numVertices g" for v
    using inv that incident_subset by (auto simp: forest_inv_def)
  show ?thesis
    unfolding search_ok_def
  proof (intro conjI allI impI ballI)
    fix v e
    assume "v < g_numVertices g" "e \<in> set (refs g v)"
    then have "e \<in> set (dyn_list out)"
      using l by blast
    from forest_edges(2) [OF inv cs refl this] show "CheckMultiEdge g (Some e) = Inr e" "far g v e < g_numVertices g"
      by (simp_all add: far_def)
  qed (use n l in auto)
qed

text \<open>The components of the forest, by the vertices that represent them.\<close>

definition conn_class :: "('n, 't) ToplGraphState \<Rightarrow> ToplInternalEdge list \<Rightarrow> vref \<Rightarrow> vref list" where
  "conn_class g cs r = filter (\<lambda>v. v \<in> colored g \<and> connected cs v r) [0..<g_numVertices g]"

definition class_entry :: "('n, 't) ToplGraphState \<Rightarrow> ToplInternalEdge list \<Rightarrow> vref \<Rightarrow> 'n TOPL_COMPONENT" where
  "class_entry g cs r =
     \<lparr>tc_numVertices = length (conn_class g cs r),
      tc_vertexNames = Some (map (\<lambda>v. Some (v_vertexName (vtx g v))) (conn_class g cs r))\<rparr>"

lemma classes_comp:
  assumes cl: "components.classes C cs g" and r: "r \<in> C" "comp_of g r r" and v: "v \<in> C"
  shows "comp_of g v r \<longleftrightarrow> connected cs v r"
proof -
  have "(\<exists>x. comp_of g v x \<and> comp_of g r x) \<longleftrightarrow> connected cs v r"
    using cl r v unfolding components.classes_def by blast
  moreover have "comp_of g v x \<and> comp_of g r x \<longrightarrow> x = r" for x
    using comp_of_unique [OF r(2)] by blast
  ultimately show ?thesis
    using r(2) by blast
qed

lemma forest_frame:
  assumes inv: "forest_inv G (colored G) cs out g" and skel: "same_skel g g2"
  shows "colored g2 = colored G" "g_numVertices g2 = g_numVertices G" "g_store g2 = g_store g" "ids_ok g2"
    "components.classes (colored G) cs g2" "comps_ok g2"
    "v < g_numVertices G \<Longrightarrow> v_vertexName (vtx g2 v) = v_vertexName (vtx G v)"
proof -
  have n: "g_numVertices g = g_numVertices G" "g_numVertices g2 = g_numVertices g"
    and site: "\<And>v. v < g_numVertices G \<Longrightarrow> site (vtx g v) = site (vtx G v)"
    and cl: "components.classes (colored G) cs g"
    using inv skel by (simp_all add: forest_inv_def same_skel_def)
  have sk: "skel (vtx g2 v) = skel (vtx g v)" if "v < g_numVertices G" for v
    using skel that n by (simp add: same_skel_def)
  note f = skel_fields [OF sk]
  show "g_numVertices g2 = g_numVertices G" "g_store g2 = g_store g"
    using n skel by (simp_all add: same_skel_def)
  show col: "colored g2 = colored G"
    using f(2) site n by (auto simp: colored_def site_def)
  show "v < g_numVertices G \<Longrightarrow> v_vertexName (vtx g2 v) = v_vertexName (vtx G v)"
    using f(4) site by (simp add: site_def)
  have "ids_ok g"
    by (rule forest_ids [OF inv])
  then show ids: "ids_ok g2"
    using f(3) n by (simp add: ids_ok_def)
  have "comp_of g2 = comp_of g"
    by (rule comp_of_cong) (use n f(5) in simp_all)
  with ids \<open>ids_ok g\<close> cl show cl2: "components.classes (colored G) cs g2"
    using classes_cong [of g2 g] by simp
  show "comps_ok g2"
    using cl2 ids by (auto simp: comps_ok_def components.classes_def col)
qed

lemma component_class:
  assumes inv: "forest_inv G (colored G) cs out g" and skel: "same_skel g g2" and r: "r \<in> colored G" "comp_of g2 r r"
  shows "component g2 r = class_entry G cs r"
proof -
  note f = forest_frame [OF inv skel]
  have mem: "members g2 r (g_numVertices g2) = conn_class G cs r"
    unfolding members_def conn_class_def f(1,2) using classes_comp [OF f(5) r] by (intro filter_cong) auto
  have "map (\<lambda>v. Some (v_vertexName (vtx g2 v))) (conn_class G cs r) = map (\<lambda>v. Some (v_vertexName (vtx G v))) (conn_class G cs r)"
    using f(7) by (simp add: conn_class_def)
  then show ?thesis
    by (simp add: component_def class_entry_def mem)
qed

text \<open>The components the caller asked for.\<close>

definition reports :: "('n, 't) ToplGraphState \<Rightarrow> ToplInternalEdge list \<Rightarrow> vref option \<Rightarrow> bool \<Rightarrow> 'n TOPL_COMPONENTS \<Rightarrow> bool" where
  "reports g cs whichVtx fComponents components \<longleftrightarrow>
     (if fComponents
      then \<exists>rs. components = Some (map (class_entry g cs) rs) \<and> distinct rs \<and> set rs \<subseteq> colored g \<and>
             (\<forall>v\<in>colored g. \<exists>!r. r \<in> set rs \<and> connected cs v r) \<and> (\<forall>w. whichVtx = Some w \<longrightarrow> connected cs w (hd rs))
      else components = None)"

lemma ConstructComponents_reports:
  assumes inv: "forest_inv G (colored G) cs out g" and skel: "same_skel g g2"
    and w: "\<And>w. whichVtx = Some w \<Longrightarrow> w \<in> colored G"
  shows "\<exists>g3 comps. ConstructComponents g2 whichVtx fComponents = Some (Inr (g3, comps)) \<and> comp_frame g2 g3 \<and>
    reports G cs whichVtx fComponents comps"
proof (cases fComponents)
  case False
  then show ?thesis
    using comp_frame_refl [OF forest_frame(6) [OF inv skel]] by (auto simp: ConstructComponents_def reports_def)
next
  case True
  note f = forest_frame [OF inv skel]
  obtain g3 rs where g3: "ConstructComponents g2 whichVtx True = Some (Inr (g3, Some (map (component g2) rs)))" "comp_frame g2 g3"
      "distinct rs" "set rs = {r \<in> colored G. comp_of g2 r r}" "\<forall>w. whichVtx = Some w \<longrightarrow> comp_of g2 w (hd rs)"
    using ConstructComponents_spec [OF f(6), of whichVtx] w unfolding f(1) by blast
  have root: "r \<in> colored G" "comp_of g2 r r" if "r \<in> set rs" for r
    using that g3(4) by auto
  have iff: "comp_of g2 v r \<longleftrightarrow> connected cs v r" if "r \<in> set rs" "v \<in> colored G" for v r
    by (rule classes_comp [OF f(5) root [OF that(1)] that(2)])
  have entries: "map (component g2) rs = map (class_entry G cs) rs"
    using component_class [OF inv skel root] by simp
  have uniq: "\<exists>!r. r \<in> set rs \<and> connected cs v r" if v: "v \<in> colored G" for v
  proof -
    obtain r where r: "r \<in> colored G" "comp_of g2 v r"
      using f(6) v unfolding comps_ok_def f(1) by blast
    then have "r \<in> set rs"
      using comp_of_root [OF r(2)] by (simp add: g3(4))
    with r(2) iff [OF _ v] comp_of_unique [OF r(2)] show ?thesis
      by blast
  qed
  have "connected cs w (hd rs)" if "whichVtx = Some w" for w
  proof -
    have "rs \<noteq> []"
      using uniq [OF w [OF that]] by auto
    with iff [of "hd rs" w] w [OF that] g3(5) that show ?thesis
      by simp
  qed
  then have "reports G cs whichVtx True (Some (map (class_entry G cs) rs))"
    unfolding reports_def using g3(3) root(1) uniq by (simp only: if_True, intro exI [of _ rs]) blast
  with g3(1,2) True show ?thesis
    unfolding entries by auto
qed

lemma output_phase:
  assumes inv: "forest_inv G (colored G) cs out g" and cs: "\<forall>e\<in>set cs. ie_v1 e \<in> colored G \<and> ie_v2 e \<in> colored G \<and> ie_valid e"
    and n: "g_numVertices G < 2 ^ 32" and w: "\<And>w. whichVtx = Some w \<Longrightarrow> w \<in> colored G"
  obtains g2 g3 comps g' l where "CalculateDistToRed g = Some (Inr g2)"
    "ConstructComponents g2 whichVtx fComponents = Some (Inr (g3, comps))" "CopyOutputEdges g3 out whichVtx = Inr (g', l, length l)"
    "ids_ok g'" "map (\<lambda>ref. out_view (edge g' ref)) l = map (\<lambda>e. out_view (out_edge G e)) (filter (at_vertex whichVtx) cs)"
    "reports G cs whichVtx fComponents comps"
proof -
  have ng: "g_numVertices g = g_numVertices G"
    using inv by (simp add: forest_inv_def)
  have "search_ok g"
    using forest_search [OF inv cs] n ng by simp
  from CalculateDistToRed_spec [OF this] obtain g2 where g2: "CalculateDistToRed g = Some (Inr g2)" "same_skel g g2"
    by (auto simp: dfs_inv_def)
  note f = forest_frame [OF inv g2(2)]
  obtain g3 comps where g3: "ConstructComponents g2 whichVtx fComponents = Some (Inr (g3, comps))" "comp_frame g2 g3"
      "reports G cs whichVtx fComponents comps"
    using ConstructComponents_reports [OF inv g2(2) w] by blast
  have st: "g_store g3 = g_store g" "g_numVertices g3 = g_numVertices G" "ids_ok g3"
    using g3(2) f(2,3) by (simp_all add: comp_frame_def)
  note e = forest_edges [OF inv cs st(1)]
  have "outputs_ok g3 out"
    using inv e(2) st(3) by (simp add: outputs_ok_def forest_inv_def)
  moreover have "\<And>w. whichVtx = Some w \<Longrightarrow> w < g_numVertices g3"
    using w st(2) by (auto simp: colored_def)
  ultimately obtain g' where g': "CopyOutputEdges g3 out whichVtx =
        Inr (g', filter (touches g3 whichVtx) (dyn_list out), length (filter (touches g3 whichVtx) (dyn_list out)))"
      "g' = g3\<lparr>g_store := g_store g'\<rparr>" "length (g_store g') = length (g_store g3)"
      "\<forall>ref<length (g_store g3). edge g' ref = (if ref \<in> set (dyn_list out) \<and> touches g3 whichVtx ref then directed_edge g3 ref else edge g3 ref)"
    by (rule CopyOutputEdges_spec)
  have "g_vertices g' = g_vertices g3"
    using arg_cong [OF g'(2), of g_vertices] by simp
  then have "ids_ok g'"
    using st(3) by (simp add: ids_ok_def)
  moreover have "map (\<lambda>ref. out_view (edge g' ref)) (filter (touches g3 whichVtx) (dyn_list out)) =
      map (\<lambda>e. out_view (out_edge G e)) (filter (at_vertex whichVtx) cs)"
  proof (rule map_filter_all2 [OF e(1)], elim conjE)
    fix ref x
    assume ref: "ref \<in> set (dyn_list out)" "edge g3 ref = out_edge G x"
    then have "EdgeGetVertex g3 ref 0 = ie_v1 x" "EdgeGetVertex g3 ref 1 = ie_v2 x"
      by (simp_all add: EdgeGetVertex_def out_edge_def)
    then have "touches g3 whichVtx ref = at_vertex whichVtx x"
      by (simp add: touches_def at_vertex_def)
    moreover have "out_view (edge g' ref) = out_view (out_edge G x)" if "touches g3 whichVtx ref"
      using g'(4) e(2) [OF ref(1)] ref that by (simp add: direct_edge_view)
    ultimately show "touches g3 whichVtx ref = at_vertex whichVtx x \<and>
        (touches g3 whichVtx ref \<longrightarrow> out_view (edge g' ref) = out_view (out_edge G x))"
      by blast
  qed
  ultimately show ?thesis
    using that [OF g2(1) g3(1) g'(1)] g3(3) by blast
qed

section \<open>The entry point\<close>

text \<open>The vertex a call is about: the one found for the name, if there is a name.\<close>

definition which_vertex :: "('n, 't) ToplGraphState \<Rightarrow> 'n option \<Rightarrow> vref option \<Rightarrow> bool" where
  "which_vertex g whichVtxName whichVtx \<longleftrightarrow>
     (case whichVtxName of None \<Rightarrow> whichVtx = None | Some x \<Rightarrow> whichVtx \<noteq> None \<and> FindVertex g (Some x) = Inr whichVtx)"

text \<open>The forest behind the output: internal edges that form no cycle and connect what paths connect.\<close>

definition spans :: "('n, 't) ToplGraphState \<Rightarrow> ToplInternalEdge list \<Rightarrow> bool" where
  "spans g cs \<longleftrightarrow> acyclic_edges cs \<and> (\<forall>x\<in>set cs. int_edge g (families g) x) \<and>
     (\<forall>es\<in>families g. (\<forall>e\<in>es. all_accept g (e_edgeType (edge g e))) \<longrightarrow>
        (\<forall>a\<in>colored g. \<forall>b\<in>colored g. \<forall>c<2 ^ 32 - 1. set_path g es a b c \<longrightarrow> connected cs a b))"

lemma spanning_tree_spec:
  assumes tab: "edge_tables T ok elems TI iok ielems" and env: "env_table env = T" and rdy: "ready ok elems k G"
    and n: "g_numVertices G < 2 ^ 32" and which: "which_vertex G whichVtxName whichVtx"
    and num: "2 \<le> numColorVtx" "length cvs = unat numColorVtx"
    and init: "InitColoredVertices G (Some cvs) whichVtx = Inr g"
  obtains g' l comps cs where
    "ToplGetSpanningTreeEdgesForVtx env TI (Some G) whichVtxName (Some cvs) numColorVtx True fComponents =
       Some (Inr (g', l, length l, comps))"
    "spans g cs" "map (\<lambda>ref. out_view (edge g' ref)) l = map (\<lambda>e. out_view (out_edge g e)) (filter (at_vertex whichVtx) cs)"
    "reports g cs whichVtx fComponents comps"
proof -
  have table: "rtl_generic_table (EdgeCompare (\<lambda>v. v)) TI iok ielems"
    using tab by (simp add: edge_tables_def)
  have gok: "graph_ok G" and nm: "names_set G"
    using rdy by (simp_all add: ready_def)
  note ic = InitColoredVertices_spec [OF gok init]
  have rdy_g: "ready ok elems k g" and es: "g_edgeSets g = g_edgeSets G"
    using ready_colors [OF rdy ic(1,2)] by simp_all
  have wcol: "w \<in> colored g" if "whichVtx = Some w" for w
    using ic(5) [of w] that which FindVertex_spec(2) [OF gok] by (auto simp: which_vertex_def split: option.splits)
  obtain h t g1 t1 where ph:
    "foldO (process_edge_set env TI) [0..<DynArrayGetCount (g_edgeSets g)] (g, RtlInitializeGenericTable TI) = Some (Inr (h, t))"
    "ProcessEdgeSet env TI None (SetupVertices h, t) = Inr (g1, t1)" "same_sites g g1" "ready ok elems k g1" "fresh g1" "iok t1"
    "\<forall>x\<in>set (ielems t1). int_edge g (families g) x" "\<forall>es\<in>families g. edge_tables.set_conn ielems g es t1"
    by (rule edge_tables.phases_spec [OF tab env rdy_g])
  let ?cs = "greedy [] (ielems t1)"
  have col: "colored g1 = colored g"
    by (rule same_sites_facts(1) [OF ph(3)])
  have card: "card (colored g) = unat numColorVtx"
    using ic(4) num(2) by simp
  have two: "2 \<le> unat numColorVtx"
    using num(1) by (simp add: word_le_nat_alt)
  then have cnt: "unat (numColorVtx - 1) = card (colored g1) - 1"
    unfolding col card by (subst unat_sub) (simp_all add: word_le_nat_alt)
  have ne: "colored g1 \<noteq> {}"
    using card two by (auto simp: col)
  have ie: "\<forall>e\<in>set (ielems t1). ie_v1 e \<in> colored g1 \<and> ie_v2 e \<in> colored g1 \<and> ie_valid e"
    using ph(7) by (simp add: int_edge_def col)
  have start: "forest_inv g1 (colored g1) [] (DynArrayInit sizeof_ptr) (ClearEdgeLists g1)"
    by (rule forest_start) (use ph(4,5) fresh_component in \<open>auto simp: ready_def colored_def\<close>)
  from kruskal_loop_spec [OF table ph(6) refl start ne cnt ie] obtain g2 t2 out where kr: "Kruskal TI g1 t1 (numColorVtx - 1) (DynArrayInit sizeof_ptr) = Some (Inr (g2, t2, out))"
      "iok t2" "forest_inv g1 (colored g1) ?cs out g2"
    by (auto simp: Kruskal_def)
  have sub: "set ?cs \<subseteq> set (ielems t1)"
    using greedy_subset [of "[]" "ielems t1"] by simp
  have ics: "\<forall>e\<in>set ?cs. ie_v1 e \<in> colored g1 \<and> ie_v2 e \<in> colored g1 \<and> ie_valid e"
    using ie sub by blast
  have n1: "g_numVertices g1 < 2 ^ 32"
    using ph(3) n ic(3) by (simp add: same_sites_def)
  obtain g3 g4 comps g' l where op: "CalculateDistToRed g2 = Some (Inr g3)"
      "ConstructComponents g3 whichVtx fComponents = Some (Inr (g4, comps))" "CopyOutputEdges g4 out whichVtx = Inr (g', l, length l)"
      "ids_ok g'" "map (\<lambda>ref. out_view (edge g' ref)) l = map (\<lambda>e. out_view (out_edge g1 e)) (filter (at_vertex whichVtx) ?cs)"
      "reports g1 ?cs whichVtx fComponents comps"
    by (rule output_phase [OF kr(3) ics n1, where whichVtx = whichVtx and fComponents = fComponents]) (use wcol col in auto)
  obtain t3 where cl: "ClearInternalEdges TI (vtx_id g') t2 = Some (Inr t3)"
    using ClearInternalEdges_spec [OF table kr(2)] vtx_id_ok [OF op(4)] by auto
  have entry: "(case whichVtxName of None \<Rightarrow> Inr None | Some name \<Rightarrow> bindE (FindVertex G (Some name)) (\<lambda>vp.
      bindE (raise_if (vp = None) TOPL_EX_INVALID_VERTEX) (\<lambda>_. Inr vp))) = Inr whichVtx"
    using which by (auto simp: which_vertex_def raise_if_def split: option.splits)
  have take: "map_option (take (unat numColorVtx)) (Some cvs) = Some cvs"
    by (simp add: num(2) [symmetric])
  have chk: "CheckAllMultiEdges G = Inr ()"
    using nm by (simp add: CheckAllMultiEdges_iff [OF gok])
  have low: "(numColorVtx < 2) = False"
    using num(1) by (simp add: not_less)
  have call: "ToplGetSpanningTreeEdgesForVtx env TI (Some G) whichVtxName (Some cvs) numColorVtx True fComponents =
      Some (Inr (g', l, length l, comps))"
    unfolding ToplGetSpanningTreeEdgesForVtx_def CheckGraphState_ok [OF gok] bindO_simps entry low chk take init
    by (simp add: raise_if_def chk init ph(1,2) kr(1) op(1-3) cl)
  have names: "v_vertexName (vtx g1 v) = v_vertexName (vtx g v)" if "v < g_numVertices g" for v
    using ph(3) that by (simp add: same_sites_def site_def)
  have lt: "v < g_numVertices g" if "v \<in> colored g" for v
    using that by (simp add: colored_def)
  have spans: "spans g ?cs"
    unfolding spans_def
  proof (intro conjI)
    show "\<forall>x\<in>set ?cs. int_edge g (families g) x"
      using ph(7) sub by blast
    show "acyclic_edges ?cs"
      using greedy_acyclic [of "[]"] by (simp add: acyclic_edges_def)
  qed (use ph(8) in \<open>simp add: edge_tables.set_conn_def [OF tab] greedy_connected\<close>)
  have view: "map (\<lambda>e. out_view (out_edge g1 e)) (filter (at_vertex whichVtx) ?cs) = map (\<lambda>e. out_view (out_edge g e)) (filter (at_vertex whichVtx) ?cs)"
    using ics names lt by (simp add: out_edge_def col)
  have ce: "class_entry g1 ?cs = class_entry g ?cs"
  proof
    fix r
    have "conn_class g1 ?cs r = conn_class g ?cs r"
      using ph(3) by (simp add: conn_class_def col same_sites_def)
    then show "class_entry g1 ?cs r = class_entry g ?cs r"
      using names by (simp add: class_entry_def conn_class_def)
  qed
  have "reports g ?cs whichVtx fComponents comps"
    using op(6) unfolding reports_def col ce .
  with call spans op(5) view show ?thesis
    by (intro that) simp_all
qed

lemma CheckAllMultiEdges_error:
  assumes "graph_ok g" and "\<not> names_set g"
  shows "CheckAllMultiEdges g = Inl TOPL_EX_INVALID_VERTEX"
proof -
  have "foldE (check_names g) es () = Inr () \<or> foldE (check_names g) es () = Inl TOPL_EX_INVALID_VERTEX"
    if "\<forall>e\<in>set es. e < length (g_store g)" for es
    using that
  proof (induction es)
    case (Cons e es)
    then have "check_names g e () = Inr () \<or> check_names g e () = Inl TOPL_EX_INVALID_VERTEX"
      by (simp add: check_names_def CheckMultiEdge_ok [OF assms(1)] raise_if_def)
    with Cons show ?case
      by auto
  qed simp
  moreover have "dyn_walk (g_masterEdgeList g) = dyn_list (g_masterEdgeList g)" "\<forall>e\<in>set (dyn_list (g_masterEdgeList g)). e < length (g_store g)"
    using assms(1) by (auto simp: graph_ok_def)
  ultimately have "CheckAllMultiEdges g = Inr () \<or> CheckAllMultiEdges g = Inl TOPL_EX_INVALID_VERTEX"
    by (simp add: CheckAllMultiEdges_def)
  then show ?thesis
    using assms by (simp add: CheckAllMultiEdges_iff)
qed

text \<open>The start of a call, when the first checks pass.\<close>

lemma entry_start:
  assumes "graph_ok g" and "which_vertex g whichVtxName whichVtx"
  shows "ToplGetSpanningTreeEdgesForVtx env TI (Some g) whichVtxName colorVtx numColorVtx True fComponents =
    bindO (Some (raise_if (numColorVtx < 2) TOPL_EX_COLOR_VTX_ERROR)) (\<lambda>_.
    bindO (Some (CheckAllMultiEdges g)) (\<lambda>_.
    bindO (Some (InitColoredVertices g (map_option (take (unat numColorVtx)) colorVtx) whichVtx)) (\<lambda>g.
    bindO (foldO (process_edge_set env TI) [0..<DynArrayGetCount (g_edgeSets g)] (g, RtlInitializeGenericTable TI)) (\<lambda>(g, internalEdges).
    bindO (Some (ProcessEdgeSet env TI None (SetupVertices g, internalEdges))) (\<lambda>(g, internalEdges).
    bindO (Kruskal TI g internalEdges (numColorVtx - 1) (DynArrayInit sizeof_ptr)) (\<lambda>(g, internalEdges, outputEdges).
    bindO (CalculateDistToRed g) (\<lambda>g.
    bindO (ConstructComponents g whichVtx fComponents) (\<lambda>(g, components).
    bindO (Some (CopyOutputEdges g outputEdges whichVtx)) (\<lambda>(g, stEdgeList, numStEdges).
    bindO (ClearInternalEdges TI (vtx_id g) internalEdges) (\<lambda>_.
      Some (Inr (g, stEdgeList, numStEdges, components))))))))))))"
proof -
  have entry: "(case whichVtxName of None \<Rightarrow> Inr None | Some name \<Rightarrow> bindE (FindVertex g (Some name)) (\<lambda>vp.
      bindE (raise_if (vp = None) TOPL_EX_INVALID_VERTEX) (\<lambda>_. Inr vp))) = Inr whichVtx"
    using assms(2) by (auto simp: which_vertex_def raise_if_def split: option.splits)
  show ?thesis
    unfolding ToplGetSpanningTreeEdgesForVtx_def CheckGraphState_ok [OF assms(1)] bindO_simps entry
    by (simp add: raise_if_def)
qed

section \<open>Properties\<close>

text \<open>C1. \<^verbatim>\<open>ToplGetSpanningTreeEdgesForVtx\<close> is correct from end to end. On a well-formed graph with fewer than \<open>2 ^ 32\<close>
  vertices whose edges are all named and whose cached schedules share an open quarter-hour, with at least two
  acceptable colored vertices, the call ends without an exception. There is a forest of internal edges,
  each the cost of a path between two colored vertices that accept it, without a cycle, which connects all
  colored vertices joined by a cheap enough path over edges all colored vertices accept. The caller gets,
  in order, exactly the edges of the forest (those at its vertex, when it named one) with their
  replication data, type and ends, and their number; and, when asked for, the components of the forest:
  every colored vertex is in exactly one, its entries are the names of its vertices in order, and the
  first one is that of the named vertex.\<close>

theorem spanning_tree_correct:
  assumes "edge_tables T ok elems TI iok ielems" and "env_table env = T" and "ready ok elems k G"
    and "g_numVertices G < 2 ^ 32" and "which_vertex G whichVtxName whichVtx"
    and "2 \<le> numColorVtx" and "length cvs = unat numColorVtx" and "InitColoredVertices G (Some cvs) whichVtx = Inr g"
  shows "\<exists>g' stEdgeList components cs.
    ToplGetSpanningTreeEdgesForVtx env TI (Some G) whichVtxName (Some cvs) numColorVtx True fComponents =
      Some (Inr (g', stEdgeList, length stEdgeList, components)) \<and>
    spans g cs \<and>
    map (\<lambda>ref. out_view (edge g' ref)) stEdgeList = map (\<lambda>e. out_view (out_edge g e)) (filter (at_vertex whichVtx) cs) \<and>
    reports g cs whichVtx fComponents components"
proof -
  obtain g' l comps cs where
    "ToplGetSpanningTreeEdgesForVtx env TI (Some G) whichVtxName (Some cvs) numColorVtx True fComponents =
       Some (Inr (g', l, length l, comps))"
    "spans g cs" "map (\<lambda>ref. out_view (edge g' ref)) l = map (\<lambda>e. out_view (out_edge g e)) (filter (at_vertex whichVtx) cs)"
    "reports g cs whichVtx fComponents comps"
    using assms by (rule spanning_tree_spec)
  then show ?thesis
    by (intro exI conjI)
qed

text \<open>C39. The error paths of \<^verbatim>\<open>ToplGetSpanningTreeEdgesForVtx\<close>, in the order of the checks: a null graph, no place
  for the number of edges, a name that is not in the graph, fewer than two colored vertices, an edge
  with an unnamed vertex, a null array of colored vertices, and every error of the colored vertices.\<close>

theorem spanning_tree_errors:
  assumes "graph_ok g"
  shows "ToplGetSpanningTreeEdgesForVtx env TI None whichVtxName colorVtx numColorVtx fNumStEdges fComponents =
      Some (Inl TOPL_EX_NULL_POINTER) \<and>
    ToplGetSpanningTreeEdgesForVtx env TI (Some g) whichVtxName colorVtx numColorVtx False fComponents =
      Some (Inl TOPL_EX_NULL_POINTER) \<and>
    (FindVertex g (Some name) = Inr None \<longrightarrow>
       ToplGetSpanningTreeEdgesForVtx env TI (Some g) (Some name) colorVtx numColorVtx True fComponents =
         Some (Inl TOPL_EX_INVALID_VERTEX)) \<and>
    (which_vertex g whichVtxName whichVtx \<and> numColorVtx < 2 \<longrightarrow>
       ToplGetSpanningTreeEdgesForVtx env TI (Some g) whichVtxName colorVtx numColorVtx True fComponents =
         Some (Inl TOPL_EX_COLOR_VTX_ERROR)) \<and>
    (which_vertex g whichVtxName whichVtx \<and> 2 \<le> numColorVtx \<and> \<not> names_set g \<longrightarrow>
       ToplGetSpanningTreeEdgesForVtx env TI (Some g) whichVtxName colorVtx numColorVtx True fComponents =
         Some (Inl TOPL_EX_INVALID_VERTEX)) \<and>
    (which_vertex g whichVtxName whichVtx \<and> 2 \<le> numColorVtx \<and> names_set g \<longrightarrow>
       ToplGetSpanningTreeEdgesForVtx env TI (Some g) whichVtxName None numColorVtx True fComponents =
         Some (Inl TOPL_EX_NULL_POINTER)) \<and>
    (which_vertex g whichVtxName whichVtx \<and> 2 \<le> numColorVtx \<and> names_set g \<and>
     InitColoredVertices g (Some (take (unat numColorVtx) cvs)) whichVtx = Inl ex \<longrightarrow>
       ToplGetSpanningTreeEdgesForVtx env TI (Some g) whichVtxName (Some cvs) numColorVtx True fComponents =
         Some (Inl ex))"
proof (intro conjI impI)
  show "ToplGetSpanningTreeEdgesForVtx env TI None whichVtxName colorVtx numColorVtx fNumStEdges fComponents =
      Some (Inl TOPL_EX_NULL_POINTER)"
    by (simp add: ToplGetSpanningTreeEdgesForVtx_def CheckGraphState_def)
  show "ToplGetSpanningTreeEdgesForVtx env TI (Some g) whichVtxName colorVtx numColorVtx False fComponents =
      Some (Inl TOPL_EX_NULL_POINTER)"
    unfolding ToplGetSpanningTreeEdgesForVtx_def CheckGraphState_ok [OF assms] bindO_simps by (simp add: raise_if_def)
  show "ToplGetSpanningTreeEdgesForVtx env TI (Some g) (Some name) colorVtx numColorVtx True fComponents =
      Some (Inl TOPL_EX_INVALID_VERTEX)" if "FindVertex g (Some name) = Inr None"
    unfolding ToplGetSpanningTreeEdgesForVtx_def CheckGraphState_ok [OF assms] bindO_simps by (simp add: raise_if_def that)
qed (auto simp: entry_start [OF assms] raise_if_def not_less [symmetric] CheckAllMultiEdges_error [OF assms]
    CheckAllMultiEdges_iff [OF assms, THEN iffD2] InitColoredVertices_def [of _ None])

text \<open>\<^verbatim>\<open>CopyOutputEdges\<close> hands out, in order, the output edges at the given vertex, or all of them, and counts
  them. It changes no other edge; an edge it hands out keeps its ends and replication data, is directed
  when one of its ends is black and its component has a red vertex, and then leads away from the red
  vertices: the first end is not further from them than the second.\<close>

theorem CopyOutputEdges_correct:
  assumes "outputs_ok g out" and "\<forall>w. whichVtx = Some w \<longrightarrow> w < g_numVertices g"
  shows "\<exists>g'. let l = filter (touches g whichVtx) (dyn_list out) in
    CopyOutputEdges g out whichVtx = Inr (g', l, length l) \<and>
    (\<forall>ref<length (g_store g). ref \<notin> set l \<longrightarrow> edge g' ref = edge g ref) \<and>
    (\<forall>ref\<in>set l. out_view (edge g' ref) = out_view (edge g ref) \<and>
       (let v = vtx g (EdgeGetVertex g ref 0); w = vtx g (EdgeGetVertex g ref 1);
            directed = ((v_color v = COLOR_BLACK \<or> v_color w = COLOR_BLACK) \<and> v_distToRed v \<noteq> INFINITY_DW)
        in (e_fDirectedEdge (edge g' ref) \<longleftrightarrow> e_fDirectedEdge (edge g ref) \<or> directed) \<and>
           (directed \<longrightarrow> v_distToRed (vtx g (EdgeGetVertex g' ref 0)) \<le> v_distToRed (vtx g (EdgeGetVertex g' ref 1)))))"
proof -
  obtain g' where g': "CopyOutputEdges g out whichVtx = Inr (g', filter (touches g whichVtx) (dyn_list out), length (filter (touches g whichVtx) (dyn_list out)))"
    "\<forall>ref<length (g_store g). edge g' ref = (if ref \<in> set (dyn_list out) \<and> touches g whichVtx ref then directed_edge g ref else edge g ref)"
    by (rule CopyOutputEdges_spec [OF assms(1), where whichVtx = whichVtx]) (use assms(2) in auto)
  have edge: "edge g' ref = directed_edge g ref \<and> e_numVertices (edge g ref) = 2" if "ref \<in> set (filter (touches g whichVtx) (dyn_list out))" for ref
    using g'(2) that assms(1) by (auto simp: outputs_ok_def)
  have dir: "out_view (edge g' ref) = out_view (edge g ref) \<and>
       (let v = vtx g (EdgeGetVertex g ref 0); w = vtx g (EdgeGetVertex g ref 1);
            directed = ((v_color v = COLOR_BLACK \<or> v_color w = COLOR_BLACK) \<and> v_distToRed v \<noteq> INFINITY_DW)
        in (e_fDirectedEdge (edge g' ref) \<longleftrightarrow> e_fDirectedEdge (edge g ref) \<or> directed) \<and>
           (directed \<longrightarrow> v_distToRed (vtx g (EdgeGetVertex g' ref 0)) \<le> v_distToRed (vtx g (EdgeGetVertex g' ref 1))))"
    if "ref \<in> set (filter (touches g whichVtx) (dyn_list out))" for ref
  proof -
    note e = edge [OF that]
    obtain a b where ab: "e_vertexNames (edge g ref) = [a, b]"
      using two_names e by blast
    show ?thesis
      using e ab by (auto simp: Let_def EdgeGetVertex_def direct_edge_def out_view_def)
  qed
  show ?thesis
    unfolding Let_def [of "filter (touches g whichVtx) (dyn_list out)"]
    using g' dir by (intro exI [of _ g']) auto
qed

section \<open>Concrete instances\<close>

definition site_colors :: "nat TOPL_COLOR_VERTEX list" where
  "site_colors = map (\<lambda>x. \<lparr>cv_name = Some x, cv_color = COLOR_RED, cv_acceptRedRed = 1, cv_acceptBlack = 1\<rparr>) [3, 5]"

lemma two_red_names: "g_vnCompFunc two_red = (\<lambda>x y. int x - int y)" "g_vertexNames two_red = [3, 5]"
  by (simp_all add: two_red_def two_sites_def sample_graph_def)

lemma find_sites:
  assumes "g_vnCompFunc g = (\<lambda>x y. int x - int y)" and "g_vertexNames g = [3, 5]" and "g_numVertices g = 2"
  shows "FindVertex g (Some 3) = Inr (Some 0)" "FindVertex g (Some 5) = Inr (Some 1)" "FindVertex g (Some 4) = Inr None"
  by (simp_all add: FindVertex_def assms c_bsearch.simps [of _ _ _ _ "Suc _"] c_bsearch.simps [of _ _ _ _ 2] c_bsearch.simps [of _ _ _ _ 1]
      c_bsearch.simps [of _ _ _ _ 0] Let_def)

lemma two_red_colors: "\<exists>g. InitColoredVertices two_red (Some site_colors) None = Inr g"
proof -
  let ?w = "two_red\<lparr>g_vertices := map (\<lambda>r. r\<lparr>v_color := COLOR_WHITE\<rparr>) (g_vertices two_red)\<rparr>"
  let ?f = "\<lambda>r. r\<lparr>v_color := COLOR_RED, v_acceptRedRed := 1, v_acceptBlack := 1\<rparr>"
  have n: "g_numVertices ?w = 2"
    by (simp add: two_red_facts(2))
  have w: "v_color (vtx ?w 0) = COLOR_WHITE" "v_color (vtx ?w 1) = COLOR_WHITE"
    by (simp_all add: two_red_facts(2))
  have "color_vertex \<lparr>cv_name = Some 3, cv_color = COLOR_RED, cv_acceptRedRed = 1, cv_acceptBlack = 1\<rparr> ?w = Inr (upd_vtx 0 ?f ?w)"
    using w(1) n two_red_names find_sites(1) [of ?w] by (simp add: color_vertex_def raise_if_def)
  moreover have "color_vertex \<lparr>cv_name = Some 5, cv_color = COLOR_RED, cv_acceptRedRed = 1, cv_acceptBlack = 1\<rparr> (upd_vtx 0 ?f ?w) =
      Inr (upd_vtx 1 ?f (upd_vtx 0 ?f ?w))"
    using w(2) n two_red_names find_sites(2) [of "upd_vtx 0 ?f ?w"] by (simp add: color_vertex_def raise_if_def)
  ultimately show ?thesis
    by (simp add: InitColoredVertices_def site_colors_def)
qed

theorem spanning_tree_correct_witness:
  "\<exists>g' l components. ToplGetSpanningTreeEdgesForVtx list_env list_table (Some two_red) None (Some site_colors) 2 True True =
     Some (Inr (g', l, length l, components)) \<and> components \<noteq> None"
proof -
  obtain g where g: "InitColoredVertices two_red (Some site_colors) None = Inr g"
    using two_red_colors by blast
  have "which_vertex two_red None None"
    by (simp add: which_vertex_def)
  from spanning_tree_correct [OF list_tables.edge_tables_axioms _ two_red_ready _ this _ _ g, of list_env 2 True]
  show ?thesis
    by (auto simp: list_env_def two_red_facts(2) site_colors_def reports_def)
qed

theorem spanning_tree_errors_witness:
  "ToplGetSpanningTreeEdgesForVtx list_env (list_table :: (ToplInternalEdge, ToplInternalEdge list) rtl_table_ops)
     (Some two_red) (Some 4) None 2 True True = Some (Inl TOPL_EX_INVALID_VERTEX)"
  using spanning_tree_errors [OF two_red_facts(1), of list_env "list_table :: (ToplInternalEdge, ToplInternalEdge list) rtl_table_ops"]
    find_sites(3) [of two_red] two_red_names two_red_facts(2) by metis

theorem CopyOutputEdges_correct_witness:
  "\<exists>g' l. CopyOutputEdges two_red (DynArrayAppend (DynArrayInit sizeof_ptr) (Some 0)) None = Inr (g', l, length l) \<and> l = [0]"
proof -
  have "length (g_store two_red) = 1" "e_numVertices (edge two_red 0) = 2"
    by (simp_all add: two_red_def) (simp_all add: two_sites_def)
  then have "outputs_ok two_red (DynArrayAppend (DynArrayInit sizeof_ptr) (Some 0))"
    using two_red_facts(5) CheckMultiEdge_ok [OF two_red_facts(1), of 0] by (simp add: outputs_ok_def)
  from CopyOutputEdges_correct [OF this, of None] show ?thesis
    by (auto simp: Let_def touches_def)
qed

end
