(* ===== verification/Topl_Heap.thy ===== *)
theory Topl_Heap
  imports Topl_DynArray Topl_STHeap
begin

text \<open>
  The heap of the older interface, \<^verbatim>\<open>ds/src/common/w32topl/toplheap.c\<close>, used by Prim's algorithm. Cells
  count from 0 and the parent of cell \<open>i\<close> is \<open>i div 2\<close>, so that cell 0 has the single child 1. The
  key of an element is read through the callback \<^verbatim>\<open>pfnKey\<close> from the memory \<open>m\<close> behind the pointers,
  which the client may change between two operations: \<^verbatim>\<open>ToplHeapExtractMin\<close> therefore rebuilds the heap
  before it takes the minimum. A null \<^verbatim>\<open>Array\<close> is the block without cells, and a cell that was never
  written is \<open>None\<close>. Counts and cell numbers are natural numbers: the block of an index that wrapped
  around would not fit into memory.
\<close>

section \<open>Data and operations\<close>

record 'm TOPL_HEAP_INFO =
  hp_Array :: "ptr option list"
  hp_cArray :: nat
  hp_pfnKey :: "('m \<Rightarrow> ptr \<Rightarrow> dword) option"
  hp_MaxElements :: nat

definition PARENT :: "nat \<Rightarrow> nat" where
  "PARENT i = i div 2"

definition LEFT :: "nat \<Rightarrow> nat" where
  "LEFT i = i * 2"

definition RIGHT :: "nat \<Rightarrow> nat" where
  "RIGHT i = i * 2 + 1"

definition heap_key :: "'m \<Rightarrow> 'm TOPL_HEAP_INFO \<Rightarrow> ptr \<Rightarrow> dword" where
  "heap_key m Heap p = the (hp_pfnKey Heap) m p"

definition KEY_VALUE :: "'m \<Rightarrow> 'm TOPL_HEAP_INFO \<Rightarrow> nat \<Rightarrow> dword" where
  "KEY_VALUE m Heap x = heap_key m Heap (cell (hp_Array Heap) x)"

definition ToplHeapIsValid :: "'m \<Rightarrow> 'm TOPL_HEAP_INFO option \<Rightarrow> bool" where
  "ToplHeapIsValid m H =
     (case H of
        None \<Rightarrow> False
      | Some Heap \<Rightarrow>
          list_all (\<lambda>i. KEY_VALUE m Heap (PARENT i) \<le> KEY_VALUE m Heap i) [0..<hp_cArray Heap])"

text \<open>The cell \<^verbatim>\<open>Smallest\<close> of \<^verbatim>\<open>Heapify\<close>.\<close>

definition heapify_smallest :: "'m \<Rightarrow> 'm TOPL_HEAP_INFO \<Rightarrow> nat \<Rightarrow> nat" where
  "heapify_smallest m Heap Index =
     (let Left = LEFT Index; Right = RIGHT Index;
          Smallest = (if Left < hp_cArray Heap \<and> KEY_VALUE m Heap Left < KEY_VALUE m Heap Index
                      then Left else Index)
      in if Right < hp_cArray Heap \<and> KEY_VALUE m Heap Right < KEY_VALUE m Heap Smallest
         then Right else Smallest)"

lemma heapify_smallest_cases:
  "heapify_smallest m Heap i = i \<or> i < heapify_smallest m Heap i \<and> heapify_smallest m Heap i < hp_cArray Heap"
  by (cases "i = 0") (auto simp: heapify_smallest_def LEFT_def RIGHT_def Let_def)

function Heapify :: "'m \<Rightarrow> 'm TOPL_HEAP_INFO \<Rightarrow> nat \<Rightarrow> 'm TOPL_HEAP_INFO" where
  "Heapify m Heap Index =
     (let Smallest = heapify_smallest m Heap Index
      in if Smallest \<noteq> Index
         then Heapify m (Heap\<lparr>hp_Array := swap_cells (hp_Array Heap) Smallest Index\<rparr>) Smallest
         else Heap)"
  by pat_completeness auto
termination
proof (relation "measure (\<lambda>(m, Heap, i). hp_cArray Heap - i)", goal_cases)
  case (2 m Heap i s)
  then show ?case
    using heapify_smallest_cases [of m Heap i] by auto
qed simp

declare Heapify.simps [simp del]

definition ToplHeapCreate :: "nat \<Rightarrow> ('m \<Rightarrow> ptr \<Rightarrow> dword) \<Rightarrow> 'm TOPL_HEAP_INFO \<times> bool" where
  "ToplHeapCreate MaxElements pfnKey =
     (\<lparr>hp_Array = (if MaxElements > 0 then replicate MaxElements None else []),
       hp_cArray = 0, hp_pfnKey = Some pfnKey, hp_MaxElements = MaxElements\<rparr>, True)"

text \<open>
  The loop counts down from \<open>(cArray - 1) / 2\<close>. On an empty heap the unsigned difference would wrap
  around, but then no \<^verbatim>\<open>Heapify\<close> finds a child, as in the model.
\<close>

definition Build_Heap :: "'m \<Rightarrow> 'm TOPL_HEAP_INFO \<Rightarrow> 'm TOPL_HEAP_INFO" where
  "Build_Heap m Heap =
     fold (\<lambda>i Heap. Heapify m Heap i) (rev [0..<Suc ((hp_cArray Heap - 1) div 2)]) Heap"

definition ToplHeapExtractMin :: "'m \<Rightarrow> 'm TOPL_HEAP_INFO \<Rightarrow> ptr \<times> 'm TOPL_HEAP_INFO" where
  "ToplHeapExtractMin m Heap =
     (if hp_cArray Heap < 1 then (NULL, Heap)
      else
        let Heap = Build_Heap m Heap;
            Smallest = cell (hp_Array Heap) 0;
            Heap = Heap\<lparr>hp_Array := (hp_Array Heap)[0 := hp_Array Heap ! (hp_cArray Heap - 1)]\<rparr>;
            Heap = Heap\<lparr>hp_cArray := hp_cArray Heap - 1\<rparr>
        in (Smallest, Heapify m Heap 0))"

text \<open>The loop of \<^verbatim>\<open>ToplHeapInsert\<close>, with the store that follows it.\<close>

function insert_loop :: "'m \<Rightarrow> 'm TOPL_HEAP_INFO \<Rightarrow> ptr \<Rightarrow> nat \<Rightarrow> 'm TOPL_HEAP_INFO" where
  "insert_loop m Heap Element i =
     (if i > 0 \<and> KEY_VALUE m Heap (PARENT i) > heap_key m Heap Element
      then insert_loop m (Heap\<lparr>hp_Array := (hp_Array Heap)[i := hp_Array Heap ! PARENT i]\<rparr>)
             Element (PARENT i)
      else Heap\<lparr>hp_Array := (hp_Array Heap)[i := Some Element]\<rparr>)"
  by pat_completeness auto
termination
  by (relation "measure (\<lambda>(m, Heap, e, i). i)") (auto simp: PARENT_def)

declare insert_loop.simps [simp del]

definition ToplHeapInsert :: "'m \<Rightarrow> 'm TOPL_HEAP_INFO \<Rightarrow> ptr \<Rightarrow> 'm TOPL_HEAP_INFO" where
  "ToplHeapInsert m Heap Element =
     (let Heap = Heap\<lparr>hp_cArray := hp_cArray Heap + 1\<rparr>
      in if hp_cArray Heap > hp_MaxElements Heap then Heap
         else insert_loop m Heap Element (hp_cArray Heap - 1))"

definition ToplHeapIsEmpty :: "'m TOPL_HEAP_INFO \<Rightarrow> bool" where
  "ToplHeapIsEmpty Heap \<longleftrightarrow> hp_cArray Heap = 0"

definition ToplHeapIsElementOf :: "'m TOPL_HEAP_INFO \<Rightarrow> ptr \<Rightarrow> bool" where
  "ToplHeapIsElementOf Heap Element \<longleftrightarrow>
     list_ex (\<lambda>i. hp_Array Heap ! i = Some Element) [0..<hp_cArray Heap]"

definition ToplHeapDestroy :: "'m TOPL_HEAP_INFO option \<Rightarrow> 'm TOPL_HEAP_INFO option" where
  "ToplHeapDestroy H =
     map_option (\<lambda>Heap. \<lparr>hp_Array = [], hp_cArray = 0, hp_pfnKey = None, hp_MaxElements = 0\<rparr>) H"

section \<open>Invariant and order\<close>

text \<open>
  \<open>prim_heap_ok\<close> is what every operation keeps, whatever happens to the keys; \<open>prim_heap_elems\<close> are
  the elements in the order of their cells.
\<close>

definition prim_heap_ok :: "'m TOPL_HEAP_INFO \<Rightarrow> bool" where
  "prim_heap_ok Heap \<longleftrightarrow>
     hp_cArray Heap \<le> hp_MaxElements Heap \<and> length (hp_Array Heap) = hp_MaxElements Heap \<and>
     (\<forall>i<hp_cArray Heap. hp_Array Heap ! i \<noteq> None) \<and> hp_pfnKey Heap \<noteq> None"

definition prim_heap_elems :: "'m TOPL_HEAP_INFO \<Rightarrow> ptr list" where
  "prim_heap_elems Heap = map the (take (hp_cArray Heap) (hp_Array Heap))"

lemma length_prim_heap_elems [simp]:
  "prim_heap_ok Heap \<Longrightarrow> length (prim_heap_elems Heap) = hp_cArray Heap"
  by (simp add: prim_heap_ok_def prim_heap_elems_def)

lemma nth_prim_heap_elems:
  "prim_heap_ok Heap \<Longrightarrow> i < hp_cArray Heap \<Longrightarrow> prim_heap_elems Heap ! i = cell (hp_Array Heap) i"
  by (simp add: prim_heap_ok_def prim_heap_elems_def)

text \<open>Parents from \<open>lo\<close> on precede their children, except \<open>c\<close>, whose children follow its parent.\<close>

definition sunk_below :: "(ptr \<Rightarrow> dword) \<Rightarrow> ptr option list \<Rightarrow> nat \<Rightarrow> nat \<Rightarrow> nat \<Rightarrow> bool" where
  "sunk_below k d n lo c \<longleftrightarrow> lo \<le> c \<and>
     (\<forall>i<n. lo \<le> i div 2 \<and> i div 2 \<noteq> c \<longrightarrow> k (cell d (i div 2)) \<le> k (cell d i)) \<and>
     (0 < c \<and> lo \<le> c div 2 \<longrightarrow> (\<forall>i<n. i div 2 = c \<longrightarrow> k (cell d (c div 2)) \<le> k (cell d i)))"

definition ordered_from :: "(ptr \<Rightarrow> dword) \<Rightarrow> ptr option list \<Rightarrow> nat \<Rightarrow> nat \<Rightarrow> bool" where
  "ordered_from k d n lo \<longleftrightarrow> (\<forall>i<n. lo \<le> i div 2 \<longrightarrow> k (cell d (i div 2)) \<le> k (cell d i))"

lemma sunk_below_start: "ordered_from k d n (Suc lo) \<Longrightarrow> sunk_below k d n lo lo"
  by (auto simp: sunk_below_def ordered_from_def Suc_le_eq)

lemma child_cases:
  assumes "i div 2 = (c::nat)"
  obtains "i = c" "c = 0" | "i = LEFT c" "0 < c" | "i = RIGHT c"
proof -
  have "i = LEFT c \<or> i = RIGHT c"
    using assms by (simp add: LEFT_def RIGHT_def) presburger
  then show thesis
    using that by (cases "c = 0") (auto simp: LEFT_def)
qed

lemma heapify_smallest_least:
  assumes "i < hp_cArray Heap" and "i div 2 = c"
  shows "KEY_VALUE m Heap (heapify_smallest m Heap c) \<le> KEY_VALUE m Heap i \<and>
    KEY_VALUE m Heap (heapify_smallest m Heap c) \<le> KEY_VALUE m Heap c"
  using assms(2)
  by (rule child_cases) (use assms(1) in \<open>auto simp: heapify_smallest_def Let_def\<close>)

lemma heapify_smallest_child:
  "heapify_smallest m Heap c \<noteq> c \<Longrightarrow>
   heapify_smallest m Heap c div 2 = c \<and>
   KEY_VALUE m Heap (heapify_smallest m Heap c) < KEY_VALUE m Heap c"
  by (auto simp: heapify_smallest_def LEFT_def RIGHT_def Let_def split: if_splits)

lemma sunk_below_stop:
  assumes "sunk_below k d n lo c" and "\<And>i. i < n \<Longrightarrow> i div 2 = c \<Longrightarrow> k (cell d c) \<le> k (cell d i)"
  shows "ordered_from k d n lo"
  using assms unfolding sunk_below_def ordered_from_def by blast

lemma sunk_below_step:
  assumes sunk: "sunk_below k d n lo c" and s: "s div 2 = c" "c < s" "s < n" "n \<le> length d"
    and lt: "k (cell d s) < k (cell d c)"
    and least: "\<And>i. i < n \<Longrightarrow> i div 2 = c \<Longrightarrow> k (cell d s) \<le> k (cell d i)"
  shows "sunk_below k (swap_cells d s c) n lo s"
proof -
  let ?d = "swap_cells d s c"
  have nth: "cell ?d i = cell d (if i = s then c else if i = c then s else i)" for i
    using s by (simp add: nth_swap_cells)
  have lo: "lo \<le> c"
    and par: "\<And>i. i < n \<Longrightarrow> lo \<le> i div 2 \<Longrightarrow> i div 2 \<noteq> c \<Longrightarrow> k (cell d (i div 2)) \<le> k (cell d i)"
    and up: "0 < c \<Longrightarrow> lo \<le> c div 2 \<Longrightarrow> k (cell d (c div 2)) \<le> k (cell d s)"
    using sunk s by (auto simp: sunk_below_def)
  have "k (cell ?d (i div 2)) \<le> k (cell ?d i)" if i: "i < n" "lo \<le> i div 2" "i div 2 \<noteq> s" for i
  proof (cases "i div 2 = c")
    case True
    then show ?thesis
      using least [OF i(1) True] lt s by (cases "i = c") (auto simp: nth)
  next
    case other: False
    then have is_s: "i \<noteq> s"
      using s by auto
    show ?thesis
    proof (cases "i = c")
      case True
      then have "0 < c"
        using other by (cases c) auto
      then show ?thesis
        using up True i s other by (simp add: nth)
    next
      case False
      then show ?thesis
        using par [OF i(1,2) other] other is_s i(3) by (simp add: nth)
    qed
  qed
  moreover have "k (cell ?d (s div 2)) \<le> k (cell ?d i)" if "i < n" "i div 2 = s" for i
    using par [of i] that s lo by (auto simp: nth)
  ultimately show ?thesis
    using lo s by (simp add: sunk_below_def)
qed

lemma mset_swap_cells:
  assumes "i < n" and "j < n" and "n \<le> length d"
  shows "mset (take n (swap_cells d i j)) = mset (take n d)"
proof -
  have "take n (swap_cells d i j) = (take n d)[i := take n d ! j, j := take n d ! i]"
    using assms by (simp add: swap_cells_def Let_def take_update_swap)
  then show ?thesis
    using assms mset_swap [of j "take n d" i] by (simp del: nth_take)
qed

section \<open>Heapify and Build_Heap\<close>

text \<open>What a reordering of the cells leaves alone.\<close>

definition same_heap :: "'m TOPL_HEAP_INFO \<Rightarrow> 'm TOPL_HEAP_INFO \<Rightarrow> bool" where
  "same_heap H H' \<longleftrightarrow>
     hp_cArray H' = hp_cArray H \<and> hp_pfnKey H' = hp_pfnKey H \<and> hp_MaxElements H' = hp_MaxElements H \<and>
     length (hp_Array H') = length (hp_Array H) \<and>
     mset (take (hp_cArray H) (hp_Array H')) = mset (take (hp_cArray H) (hp_Array H))"

lemma same_heap_refl [simp]: "same_heap H H"
  by (simp add: same_heap_def)

lemma same_heap_trans: "same_heap H H' \<Longrightarrow> same_heap H' H'' \<Longrightarrow> same_heap H H''"
  by (simp add: same_heap_def)

lemma same_heap_key: "same_heap H H' \<Longrightarrow> heap_key m H' = heap_key m H"
  by (simp add: same_heap_def heap_key_def fun_eq_iff)

lemma heap_key_update [simp]:
  "heap_key m (H\<lparr>hp_Array := d\<rparr>) = heap_key m H"
  "heap_key m (H\<lparr>hp_cArray := n\<rparr>) = heap_key m H"
  by (simp_all add: heap_key_def fun_eq_iff)

lemma cells_written_mset: "(\<forall>i<n. d ! i \<noteq> None) \<longleftrightarrow> None \<notin># mset (take n d)" if "n \<le> length d"
  using that by (force simp: in_set_conv_nth)

lemma same_heap_ok: "same_heap H H' \<Longrightarrow> prim_heap_ok H \<Longrightarrow> prim_heap_ok H'"
  using cells_written_mset [of "hp_cArray H" "hp_Array H"] cells_written_mset [of "hp_cArray H" "hp_Array H'"]
  by (simp add: prim_heap_ok_def same_heap_def del: not_None_eq)

lemma same_heap_elems: "same_heap H H' \<Longrightarrow> mset (prim_heap_elems H') = mset (prim_heap_elems H)"
  by (simp add: same_heap_def prim_heap_elems_def)

lemma same_heap_swap:
  "i < hp_cArray H \<Longrightarrow> j < hp_cArray H \<Longrightarrow> prim_heap_ok H \<Longrightarrow>
   same_heap H (H\<lparr>hp_Array := swap_cells (hp_Array H) i j\<rparr>)"
  by (simp add: same_heap_def prim_heap_ok_def mset_swap_cells)

abbreviation sunk :: "'m \<Rightarrow> 'm TOPL_HEAP_INFO \<Rightarrow> nat \<Rightarrow> nat \<Rightarrow> bool" where
  "sunk m H \<equiv> sunk_below (heap_key m H) (hp_Array H) (hp_cArray H)"

abbreviation ordered :: "'m \<Rightarrow> 'm TOPL_HEAP_INFO \<Rightarrow> nat \<Rightarrow> bool" where
  "ordered m H \<equiv> ordered_from (heap_key m H) (hp_Array H) (hp_cArray H)"

lemma Heapify_spec:
  assumes "prim_heap_ok H" and "sunk m H lo c"
  shows "same_heap H (Heapify m H c) \<and> ordered m (Heapify m H c) lo"
  using assms
proof (induction m H c rule: Heapify.induct)
  case (1 m H c)
  let ?s = "heapify_smallest m H c"
  show ?case
  proof (cases "?s = c")
    case True
    then have "ordered m H lo"
      using sunk_below_stop [OF 1(3)] heapify_smallest_least [of _ H c m] by (simp add: KEY_VALUE_def)
    with True show ?thesis
      by (simp add: Heapify.simps [of m H c])
  next
    case False
    let ?H = "H\<lparr>hp_Array := swap_cells (hp_Array H) ?s c\<rparr>"
    have s: "?s div 2 = c" "c < ?s" "?s < hp_cArray H"
      using False heapify_smallest_child [OF False] heapify_smallest_cases [of m H c] by auto
    have same: "same_heap H ?H"
      using s 1(2) by (intro same_heap_swap) auto
    have "sunk m ?H lo ?s"
      using sunk_below_step [OF 1(3) s] heapify_smallest_child [OF False] heapify_smallest_least [of _ H c m]
        1(2) by (simp add: KEY_VALUE_def prim_heap_ok_def)
    then have "same_heap ?H (Heapify m ?H ?s) \<and> ordered m (Heapify m ?H ?s) lo"
      using 1(1) [OF refl False same_heap_ok [OF same 1(2)]] by blast
    moreover have "Heapify m H c = Heapify m ?H ?s"
      using False by (simp add: Heapify.simps [of m H c] Let_def)
    ultimately show ?thesis
      using same_heap_trans [OF same] by simp
  qed
qed

lemma Build_Heap_loop:
  assumes "prim_heap_ok H" and "ordered m H n"
  shows "same_heap H (fold (\<lambda>i H. Heapify m H i) (rev [0..<n]) H) \<and>
    ordered m (fold (\<lambda>i H. Heapify m H i) (rev [0..<n]) H) 0"
  using assms
proof (induction n arbitrary: H)
  case (Suc n)
  have "same_heap H (Heapify m H n) \<and> ordered m (Heapify m H n) n"
    by (intro Heapify_spec Suc.prems sunk_below_start)
  then show ?case
    using Suc.IH [of "Heapify m H n"] Suc.prems(1) by (auto intro: same_heap_ok same_heap_trans)
qed simp

lemma Build_Heap_spec:
  assumes "prim_heap_ok H"
  shows "same_heap H (Build_Heap m H)" and "ordered m (Build_Heap m H) 0"
proof -
  have "ordered m H (Suc ((hp_cArray H - 1) div 2))"
    by (auto simp: ordered_from_def)
  then show "same_heap H (Build_Heap m H)" and "ordered m (Build_Heap m H) 0"
    using Build_Heap_loop [OF assms] by (simp_all only: Build_Heap_def)
qed

lemma ordered_root:
  assumes "ordered_from k d n 0" and "i < n"
  shows "k (cell d 0) \<le> k (cell d i)"
  using assms(2)
proof (induction i rule: less_induct)
  case (less i)
  show ?case
  proof (cases "i = 0")
    case False
    then have "k (cell d 0) \<le> k (cell d (i div 2))"
      using less by simp
    also have "\<dots> \<le> k (cell d i)"
      using assms(1) less.prems by (simp add: ordered_from_def)
    finally show ?thesis .
  qed simp
qed

lemma ToplHeapIsValid_ordered: "ToplHeapIsValid m (Some H) \<longleftrightarrow> ordered m H 0"
  by (auto simp: ToplHeapIsValid_def KEY_VALUE_def PARENT_def ordered_from_def list_all_iff)

section \<open>Extraction and insertion\<close>

lemma take_butlast_head:
  assumes "n \<noteq> 0" and "n \<le> length d"
  shows "mset (take (n - 1) (d[0 := d ! (n - 1)])) + {#d ! 0#} = mset (take n d)"
proof -
  obtain x xs where "take n d = x # xs"
    using assms by (cases "take n d") auto
  then have t: "take n d = x # xs" "d ! 0 = x" "n = Suc (length xs)"
    using assms by (auto simp: nth_take [of 0 n d, symmetric] simp del: nth_take dest: arg_cong [of _ _ length])
  show ?thesis
  proof (cases "xs = []")
    case True
    with t show ?thesis by simp
  next
    case False
    have "take (n - 1) (d[0 := d ! (n - 1)]) = (take (n - 1) (take n d))[0 := take n d ! (n - 1)]"
      using t(3) by (simp add: take_update_swap)
    also have "\<dots> = last xs # butlast xs"
      using t False by (simp add: last_conv_nth butlast_conv_take take_Cons' nth_Cons')
    finally show ?thesis
      using t False by (metis add_mset_add_single append_butlast_last_id mset.simps(2) mset_append mset_single_iff_right
          add_mset_commute union_commute)
  qed
qed

lemma ToplHeapExtractMin_spec:
  assumes ok: "prim_heap_ok H" and ne: "hp_cArray H \<noteq> 0"
  obtains H' where "ToplHeapExtractMin m H = (cell (hp_Array (Build_Heap m H)) 0, H')"
    and "prim_heap_ok H'" and "ordered m H' 0"
    and "hp_pfnKey H' = hp_pfnKey H" and "hp_MaxElements H' = hp_MaxElements H"
    and "mset (prim_heap_elems H) = add_mset (cell (hp_Array (Build_Heap m H)) 0) (mset (prim_heap_elems H'))"
    and "\<forall>p\<in>set (prim_heap_elems H). heap_key m H (cell (hp_Array (Build_Heap m H)) 0) \<le> heap_key m H p"
proof -
  define B where "B = Build_Heap m H"
  have B: "same_heap H B" "ordered m B 0"
    using Build_Heap_spec [OF ok] by (simp_all add: B_def)
  have okB: "prim_heap_ok B"
    by (rule same_heap_ok [OF B(1) ok])
  have n: "hp_cArray B = hp_cArray H"
    using B(1) by (simp add: same_heap_def)
  define C where "C = B\<lparr>hp_Array := (hp_Array B)[0 := hp_Array B ! (hp_cArray B - 1)], hp_cArray := hp_cArray B - 1\<rparr>"
  have elC: "mset (prim_heap_elems B) = add_mset (cell (hp_Array B) 0) (mset (prim_heap_elems C))"
    using take_butlast_head [of "hp_cArray B" "hp_Array B"] okB ne n
    by (simp add: prim_heap_elems_def C_def prim_heap_ok_def flip: mset_map)
       (metis image_mset_add_mset mset_map)
  have okC: "prim_heap_ok C"
    using okB ne n by (auto simp: prim_heap_ok_def C_def nth_list_update)
  have "sunk m C 0 0"
    using B(2) by (intro sunk_below_start) (auto simp: C_def ordered_from_def nth_list_update)
  then have H': "same_heap C (Heapify m C 0)" "ordered m (Heapify m C 0) 0"
    using Heapify_spec [OF okC] by blast+
  have key: "heap_key m B = heap_key m H"
    by (rule same_heap_key [OF B(1)])
  have min: "heap_key m H (cell (hp_Array B) 0) \<le> heap_key m H p" if "p \<in> set (prim_heap_elems B)" for p
    using that okB ordered_root [OF B(2)] key by (auto simp: in_set_conv_nth nth_prim_heap_elems)
  have sets: "set (prim_heap_elems B) = set (prim_heap_elems H)"
    by (rule mset_eq_setD [OF same_heap_elems [OF B(1)]])
  show thesis
  proof (rule that [of "Heapify m C 0"])
    show "ToplHeapExtractMin m H = (cell (hp_Array (Build_Heap m H)) 0, Heapify m C 0)"
      using ne by (simp add: ToplHeapExtractMin_def Let_def C_def B_def)
    show "prim_heap_ok (Heapify m C 0)"
      by (rule same_heap_ok [OF H'(1) okC])
    show "hp_pfnKey (Heapify m C 0) = hp_pfnKey H" "hp_MaxElements (Heapify m C 0) = hp_MaxElements H"
      using H'(1) B(1) by (simp_all add: same_heap_def C_def)
    show "mset (prim_heap_elems H) =
        add_mset (cell (hp_Array (Build_Heap m H)) 0) (mset (prim_heap_elems (Heapify m C 0)))"
      using elC same_heap_elems [OF H'(1)] same_heap_elems [OF B(1)] by (simp flip: B_def)
  qed (use H'(2) min sets in \<open>simp_all flip: B_def\<close>)
qed

text \<open>The mirror image of \<open>sunk_below\<close> for insertion: only \<open>c\<close> may precede its parent.\<close>

definition lifted_above :: "(ptr \<Rightarrow> dword) \<Rightarrow> ptr option list \<Rightarrow> nat \<Rightarrow> nat \<Rightarrow> bool" where
  "lifted_above k d n c \<longleftrightarrow>
     (\<forall>i<n. i \<noteq> c \<longrightarrow> k (cell d (i div 2)) \<le> k (cell d i)) \<and>
     (0 < c \<longrightarrow> (\<forall>i<n. i div 2 = c \<longrightarrow> k (cell d (c div 2)) \<le> k (cell d i)))"

lemma lifted_above_stop:
  "lifted_above k d n c \<Longrightarrow> c = 0 \<or> k (cell d (c div 2)) \<le> k (cell d c) \<Longrightarrow> ordered_from k d n 0"
  unfolding lifted_above_def ordered_from_def by (metis div_0 order_refl)

lemma lifted_above_step:
  assumes up: "lifted_above k d n c" and c: "0 < c" "c < n" "n \<le> length d"
    and lt: "k (cell d c) < k (cell d (c div 2))"
  shows "lifted_above k (swap_cells d (c div 2) c) n (c div 2)"
proof -
  let ?p = "c div 2" and ?d = "swap_cells d (c div 2) c"
  have p: "?p < c" "?p < length d" "c < length d"
    using c by auto
  have nth: "cell ?d i = cell d (if i = ?p then c else if i = c then ?p else i)" for i
    using p by (simp add: nth_swap_cells)
  have par: "k (cell d (i div 2)) \<le> k (cell d i)" if "i < n" "i \<noteq> c" for i
    using up that by (simp add: lifted_above_def)
  have child: "k (cell d ?p) \<le> k (cell d i)" if "i < n" "i div 2 = c" for i
    using up that c by (simp add: lifted_above_def)
  have gp: "k (cell d (?p div 2)) \<le> k (cell d ?p)"
    using par [of ?p] p c by simp
  have "k (cell ?d (i div 2)) \<le> k (cell ?d i)" if i: "i < n" "i \<noteq> ?p" for i
  proof (cases "i = c")
    case True
    with lt p show ?thesis by (simp add: nth)
  next
    case False
    then show ?thesis
      using par [OF i(1) False] child [OF i(1)] lt i(2) p by (auto simp: nth)
  qed
  moreover have "k (cell ?d (?p div 2)) \<le> k (cell ?d i)" if "0 < ?p" "i < n" "i div 2 = ?p" for i
  proof -
    have ne: "?p div 2 \<noteq> ?p" "?p div 2 \<noteq> c" "i \<noteq> ?p"
      using that p by auto
    then show ?thesis
      using gp par [of i] that by (cases "i = c") (auto simp: nth)
  qed
  ultimately show ?thesis
    by (simp add: lifted_above_def)
qed

lemma insert_loop_spec:
  assumes "prim_heap_ok (H\<lparr>hp_Array := (hp_Array H)[i := Some e]\<rparr>)" and "i < hp_cArray H"
  shows "same_heap (H\<lparr>hp_Array := (hp_Array H)[i := Some e]\<rparr>) (insert_loop m H e i) \<and>
    (lifted_above (heap_key m H) ((hp_Array H)[i := Some e]) (hp_cArray H) i \<longrightarrow> ordered m (insert_loop m H e i) 0)"
  using assms
proof (induction m H e i rule: insert_loop.induct)
  case (1 m H e i)
  let ?d = "(hp_Array H)[i := Some e]" and ?p = "i div 2"
  have len: "i < length (hp_Array H)" "hp_cArray H \<le> length (hp_Array H)"
    using 1(2,3) by (auto simp: prim_heap_ok_def)
  show ?case
  proof (cases "i > 0 \<and> KEY_VALUE m H (PARENT i) > heap_key m H e")
    case False
    then have "lifted_above (heap_key m H) ?d (hp_cArray H) i \<longrightarrow> ordered_from (heap_key m H) ?d (hp_cArray H) 0"
      using len lifted_above_stop [of "heap_key m H" ?d "hp_cArray H" i]
      by (auto simp: KEY_VALUE_def PARENT_def nth_list_update not_less split: if_splits)
    moreover have "insert_loop m H e i = H\<lparr>hp_Array := ?d\<rparr>"
      using False by (subst insert_loop.simps) (simp only: if_False)
    ultimately show ?thesis
      by simp
  next
    case True
    define H2 where "H2 = H\<lparr>hp_Array := (hp_Array H)[i := hp_Array H ! ?p]\<rparr>"
    have p: "?p < i" "?p < hp_cArray H"
      using True 1(3) by auto
    have d2: "(hp_Array H2)[?p := Some e] = swap_cells ?d ?p i"
      using p len by (simp add: H2_def swap_cells_def Let_def list_update_swap [of i ?p])
    have same: "same_heap (H\<lparr>hp_Array := ?d\<rparr>) (H2\<lparr>hp_Array := (hp_Array H2)[?p := Some e]\<rparr>)"
      using same_heap_swap [OF _ _ 1(2), of ?p i] p 1(3) by (simp add: d2) (simp add: H2_def)
    have IH: "same_heap (H2\<lparr>hp_Array := (hp_Array H2)[?p := Some e]\<rparr>) (insert_loop m H2 e ?p) \<and>
        (lifted_above (heap_key m H2) ((hp_Array H2)[?p := Some e]) (hp_cArray H2) ?p \<longrightarrow>
         ordered m (insert_loop m H2 e ?p) 0)"
      using 1(1) [OF True] same_heap_ok [OF same 1(2)] p by (simp add: H2_def PARENT_def)
    have "lifted_above (heap_key m H) ?d (hp_cArray H) i \<longrightarrow>
        lifted_above (heap_key m H2) ((hp_Array H2)[?p := Some e]) (hp_cArray H2) ?p"
      unfolding d2 using lifted_above_step [of "heap_key m H" ?d "hp_cArray H" i] True len 1(3) p
      by (simp add: H2_def KEY_VALUE_def PARENT_def nth_list_update)
    moreover have "insert_loop m H e i = insert_loop m H2 e ?p"
      using True by (simp add: insert_loop.simps [of m H e i] H2_def PARENT_def)
    ultimately show ?thesis
      using IH same_heap_trans [OF same] by simp
  qed
qed

lemma ToplHeapInsert_spec:
  assumes ok: "prim_heap_ok H" and room: "hp_cArray H < hp_MaxElements H"
  shows "prim_heap_ok (ToplHeapInsert m H e)"
    and "mset (prim_heap_elems (ToplHeapInsert m H e)) = add_mset e (mset (prim_heap_elems H))"
    and "hp_pfnKey (ToplHeapInsert m H e) = hp_pfnKey H"
    and "hp_MaxElements (ToplHeapInsert m H e) = hp_MaxElements H"
    and "hp_cArray (ToplHeapInsert m H e) = Suc (hp_cArray H)"
    and "ordered m H 0 \<Longrightarrow> ordered m (ToplHeapInsert m H e) 0"
proof -
  define H1 where "H1 = H\<lparr>hp_cArray := hp_cArray H + 1\<rparr>"
  let ?n = "hp_cArray H" and ?d = "(hp_Array H)[hp_cArray H := Some e]"
  have H1: "hp_Array H1 = hp_Array H" "hp_cArray H1 = Suc ?n" "heap_key m H1 = heap_key m H"
    by (simp_all add: H1_def)
  have "prim_heap_ok (H1\<lparr>hp_Array := ?d\<rparr>)"
    using ok room by (auto simp: prim_heap_ok_def H1_def nth_list_update less_Suc_eq)
  then have loop: "same_heap (H1\<lparr>hp_Array := ?d\<rparr>) (insert_loop m H1 e ?n)"
      "lifted_above (heap_key m H) ?d (Suc ?n) ?n \<longrightarrow> ordered m (insert_loop m H1 e ?n) 0"
      "prim_heap_ok (insert_loop m H1 e ?n)"
    using insert_loop_spec [of H1 ?n e m] H1 same_heap_ok by (simp_all only: H1 lessI simp_thms) blast+
  have eq: "ToplHeapInsert m H e = insert_loop m H1 e ?n"
    using room by (simp add: ToplHeapInsert_def H1_def)
  show "prim_heap_ok (ToplHeapInsert m H e)"
    using loop(3) eq by simp
  show "hp_pfnKey (ToplHeapInsert m H e) = hp_pfnKey H"
    "hp_MaxElements (ToplHeapInsert m H e) = hp_MaxElements H"
    "hp_cArray (ToplHeapInsert m H e) = Suc (hp_cArray H)"
    using loop(1) by (simp_all add: eq same_heap_def H1_def)
  have "prim_heap_elems (H1\<lparr>hp_Array := ?d\<rparr>) = prim_heap_elems H @ [e]"
    using ok room by (simp add: prim_heap_elems_def H1_def prim_heap_ok_def take_Suc_conv_app_nth)
  then show "mset (prim_heap_elems (ToplHeapInsert m H e)) = add_mset e (mset (prim_heap_elems H))"
    using same_heap_elems [OF loop(1)] eq by simp
  show "ordered m (ToplHeapInsert m H e) 0" if "ordered m H 0"
  proof -
    have "lifted_above (heap_key m H) ?d (Suc ?n) ?n"
      using that by (auto simp: lifted_above_def ordered_from_def nth_list_update less_Suc_eq)
    then show ?thesis
      using loop(2) eq by simp
  qed
qed

lemma ToplHeapIsElementOf_elems: "prim_heap_ok H \<Longrightarrow> ToplHeapIsElementOf H p \<longleftrightarrow> p \<in> set (prim_heap_elems H)"
  by (fastforce simp: ToplHeapIsElementOf_def list_ex_iff in_set_conv_nth nth_prim_heap_elems prim_heap_ok_def)

lemma ToplHeapIsEmpty_elems: "prim_heap_ok H \<Longrightarrow> ToplHeapIsEmpty H \<longleftrightarrow> prim_heap_elems H = []"
  by (metis ToplHeapIsEmpty_def length_prim_heap_elems length_0_conv)

section \<open>The interface to Prim's algorithm\<close>

text \<open>
  A queue of pointers whose keys live in a memory that changes between the operations. The laws
  hold for every memory: nothing is assumed about the order in which elements were stored.
\<close>

locale memory_queue =
  fixes ok :: "nat \<Rightarrow> 'q \<Rightarrow> bool" and elems :: "'q \<Rightarrow> ptr multiset" and key :: "'m \<Rightarrow> ptr \<Rightarrow> dword"
    and empty :: "nat \<Rightarrow> 'q" and insert :: "'m \<Rightarrow> 'q \<Rightarrow> ptr \<Rightarrow> 'q"
    and extract_min :: "'m \<Rightarrow> 'q \<Rightarrow> ptr \<times> 'q"
    and is_empty :: "'q \<Rightarrow> bool" and member :: "'q \<Rightarrow> ptr \<Rightarrow> bool"
  assumes ok_empty: "ok n (empty n)"
    and elems_empty: "elems (empty n) = {#}"
    and ok_insert: "ok n q \<Longrightarrow> size (elems q) < n \<Longrightarrow> ok n (insert m q p)"
    and elems_insert: "ok n q \<Longrightarrow> size (elems q) < n \<Longrightarrow> elems (insert m q p) = add_mset p (elems q)"
    and ok_extract: "ok n q \<Longrightarrow> elems q \<noteq> {#} \<Longrightarrow> ok n (snd (extract_min m q))"
    and elems_extract: "ok n q \<Longrightarrow> elems q \<noteq> {#} \<Longrightarrow>
      add_mset (fst (extract_min m q)) (elems (snd (extract_min m q))) = elems q"
    and extract_least: "ok n q \<Longrightarrow> p \<in># elems q \<Longrightarrow> key m (fst (extract_min m q)) \<le> key m p"
    and is_empty_iff: "ok n q \<Longrightarrow> is_empty q \<longleftrightarrow> elems q = {#}"
    and member_iff: "ok n q \<Longrightarrow> member q p \<longleftrightarrow> p \<in># elems q"
begin

text \<open>Filling a new queue, with a memory that changes as the elements go in.\<close>

lemma fill:
  assumes "ok n q" and "size (elems q) + length mps \<le> n"
  shows "ok n (fold (\<lambda>(m, p) q. insert m q p) mps q) \<and>
    elems (fold (\<lambda>(m, p) q. insert m q p) mps q) = elems q + mset (map snd mps)"
  using assms
proof (induction mps arbitrary: q)
  case (Cons mp mps)
  obtain m p where mp: "mp = (m, p)"
    by fastforce
  show ?case
    using Cons.IH [of "insert m q p"] Cons.prems ok_insert [of n q m p] elems_insert [of n q m p]
    by (simp add: mp)
qed simp

lemma extract_removes:
  assumes "ok n q" and "elems q \<noteq> {#}"
  shows "fst (extract_min m q) \<in># elems q"
    and "elems (snd (extract_min m q)) = elems q - {#fst (extract_min m q)#}"
    and "size (elems (snd (extract_min m q))) < size (elems q)"
  using elems_extract [OF assms, of m]
  by (metis union_single_eq_member, metis add_mset_remove_trivial, metis lessI size_add_mset)

end

definition prim_heap_for :: "('m \<Rightarrow> ptr \<Rightarrow> dword) \<Rightarrow> nat \<Rightarrow> 'm TOPL_HEAP_INFO \<Rightarrow> bool" where
  "prim_heap_for key n H \<longleftrightarrow> prim_heap_ok H \<and> hp_pfnKey H = Some key \<and> hp_MaxElements H = n"

interpretation prim_heap: memory_queue "prim_heap_for key" "\<lambda>H. mset (prim_heap_elems H)" key
  "\<lambda>n. fst (ToplHeapCreate n key)" ToplHeapInsert ToplHeapExtractMin ToplHeapIsEmpty ToplHeapIsElementOf
  for key
proof (unfold_locales, goal_cases)
  case (1 n)
  then show ?case by (simp add: prim_heap_for_def prim_heap_ok_def ToplHeapCreate_def)
next
  case (2 n)
  then show ?case by (simp add: prim_heap_elems_def ToplHeapCreate_def)
next
  case (3 n q m p)
  then show ?case by (simp add: prim_heap_for_def ToplHeapInsert_spec)
next
  case (4 n q m p)
  then show ?case by (simp add: prim_heap_for_def ToplHeapInsert_spec)
next
  case (5 n q m)
  then have "prim_heap_ok q" "hp_cArray q \<noteq> 0"
    by (auto simp: prim_heap_for_def prim_heap_elems_def)
  then show ?case
    by (rule ToplHeapExtractMin_spec [of q m]) (use 5 in \<open>simp add: prim_heap_for_def\<close>)
next
  case (6 n q m)
  then have "prim_heap_ok q" "hp_cArray q \<noteq> 0"
    by (auto simp: prim_heap_for_def prim_heap_elems_def)
  then show ?case
    by (rule ToplHeapExtractMin_spec [of q m]) simp
next
  case (7 n q p m)
  then have "prim_heap_ok q" "hp_cArray q \<noteq> 0"
    by (simp add: prim_heap_for_def) (use 7 in \<open>cases "hp_cArray q", auto simp: prim_heap_elems_def\<close>)
  then show ?case
    by (rule ToplHeapExtractMin_spec [of q m])
      (use 7 in \<open>auto simp: prim_heap_for_def heap_key_def simp del: set_mset_mset simp flip: set_mset_mset\<close>)
qed (simp_all add: prim_heap_for_def ToplHeapIsEmpty_elems ToplHeapIsElementOf_elems)

section \<open>Properties\<close>

text \<open>C33. \<^verbatim>\<open>ToplHeapExtractMin\<close> of the older heap returns a null pointer exactly for an empty heap, and otherwise
  an element whose key, in the memory at the time of the call, is least, although the client may have
  changed any key since the elements were inserted. The other elements stay, and what is left is a
  valid heap for that memory.\<close>

theorem ToplHeapExtractMin_correct:
  assumes "prim_heap_ok Heap" and "NULL \<notin> set (prim_heap_elems Heap)"
  shows "\<exists>p Heap'. ToplHeapExtractMin m Heap = (p, Heap') \<and> prim_heap_ok Heap' \<and>
    (p = NULL \<longleftrightarrow> ToplHeapIsEmpty Heap) \<and>
    (if ToplHeapIsEmpty Heap then Heap' = Heap
     else mset (prim_heap_elems Heap) = add_mset p (mset (prim_heap_elems Heap')) \<and>
       (\<forall>x\<in>set (prim_heap_elems Heap). heap_key m Heap p \<le> heap_key m Heap x) \<and>
       ToplHeapIsValid m (Some Heap'))"
proof (cases "hp_cArray Heap = 0")
  case True
  with assms(1) show ?thesis
    by (simp add: ToplHeapExtractMin_def ToplHeapIsEmpty_def)
next
  case False
  with assms(1) show ?thesis
  proof (rule ToplHeapExtractMin_spec [of Heap m], goal_cases)
    case (1 H')
    then have "cell (hp_Array (Build_Heap m Heap)) 0 \<in> set (prim_heap_elems Heap)"
      by (metis set_mset_mset union_single_eq_member)
    moreover from this assms(2) have "cell (hp_Array (Build_Heap m Heap)) 0 \<noteq> NULL"
      by metis
    ultimately show ?case
      using 1 False by (auto simp: ToplHeapIsEmpty_def ToplHeapIsValid_ordered)
  qed
qed

definition swap_keys :: "bool \<Rightarrow> ptr \<Rightarrow> dword" where
  "swap_keys b p = (if b then 10 - of_nat p else of_nat p)"

definition three_pointers :: "bool TOPL_HEAP_INFO" where
  "three_pointers = fold (\<lambda>p H. ToplHeapInsert False H p) [3, 1, 2] (fst (ToplHeapCreate 4 swap_keys))"

lemma hp_pfnKey_insert_loop [simp]: "hp_pfnKey (insert_loop m H e i) = hp_pfnKey H"
  by (induction m H e i rule: insert_loop.induct) (subst insert_loop.simps, simp)

lemma three_pointers_cells:
  "hp_Array three_pointers = [Some 1, Some 2, Some 3, None]" "hp_cArray three_pointers = 3"
  "hp_MaxElements three_pointers = 4"
  by code_simp+

lemma three_pointers_key: "hp_pfnKey three_pointers = Some swap_keys"
  by (simp add: three_pointers_def ToplHeapCreate_def ToplHeapInsert_def Let_def)

theorem ToplHeapExtractMin_correct_witness:
  "prim_heap_ok three_pointers \<and> \<not> ToplHeapIsEmpty three_pointers \<and>
   (\<exists>p Heap'. ToplHeapExtractMin True three_pointers = (p, Heap') \<and> prim_heap_ok Heap' \<and>
      (\<forall>x\<in>set (prim_heap_elems three_pointers). swap_keys True p \<le> swap_keys True x))"
  using ToplHeapExtractMin_correct [of three_pointers True]
  by (auto simp: three_pointers_cells three_pointers_key prim_heap_ok_def prim_heap_elems_def ToplHeapIsEmpty_def heap_key_def
      less_Suc_eq numeral_eq_Suc)

text \<open>\<^verbatim>\<open>ToplHeapInsert\<close> into a heap with room adds the element and keeps a valid heap valid. Into a full heap
  it stores nothing, but the count has been incremented already: the heap then counts a cell behind its
  block.\<close>

theorem ToplHeapInsert_correct:
  assumes "prim_heap_ok Heap"
  shows "if hp_cArray Heap < hp_MaxElements Heap
    then prim_heap_ok (ToplHeapInsert m Heap e) \<and>
      mset (prim_heap_elems (ToplHeapInsert m Heap e)) = add_mset e (mset (prim_heap_elems Heap)) \<and>
      (ToplHeapIsValid m (Some Heap) \<longrightarrow> ToplHeapIsValid m (Some (ToplHeapInsert m Heap e)))
    else hp_Array (ToplHeapInsert m Heap e) = hp_Array Heap \<and>
      hp_cArray (ToplHeapInsert m Heap e) = Suc (length (hp_Array Heap))"
proof (cases "hp_cArray Heap < hp_MaxElements Heap")
  case True
  with assms show ?thesis
    using ToplHeapInsert_spec(6) [OF assms True, of m e] by (simp add: ToplHeapInsert_spec ToplHeapIsValid_ordered)
next
  case False
  with assms show ?thesis
    by (simp add: ToplHeapInsert_def prim_heap_ok_def)
qed

theorem ToplHeapInsert_correct_witness:
  "mset (prim_heap_elems (ToplHeapInsert False three_pointers 7)) = {#1, 2, 3, 7#}"
  using ToplHeapInsert_correct [of three_pointers False 7]
  by (auto simp: three_pointers_cells three_pointers_key prim_heap_ok_def prim_heap_elems_def less_Suc_eq numeral_eq_Suc)

end
