(* ===== verification/Topl_Lists.thy ===== *)
theory Topl_Lists
  imports Topl_DynArray
begin

text \<open>
  The objects of the older interface (\<^verbatim>\<open>ds/src/inc/w32topl.h\<close>) and its linked lists and iterators,
  \<^verbatim>\<open>ds/src/common/w32topl/topllist.c\<close>. Vertices and edges are list elements on a heap: a memory maps
  addresses to elements, and a freed element is gone from it. The list entry inside an element is
  identified with the element, so \<^verbatim>\<open>CAST_TO_LIST_ELEMENT\<close> is the identity. The two members of the
  union are separate fields, since an object keeps its type until it is initialised again. Lists and
  iterators are records that the operations return updated. The type of a freed object, and the
  link in it, read as invalid and null; no result about a well-formed list depends on that.
\<close>

section \<open>Objects\<close>

datatype TOPL_OBJECT_TYPE = eEdge | eVertex | eGraph | eList | eIterator | eInvalidObject

record EDGE_DATA =
  ed_To :: ptr
  ed_From :: ptr
  ed_Weight :: dword

record VERTEX_DATA =
  vd_Id :: dword
  vd_VertexName :: ptr
  vd_InEdges :: DYNAMIC_ARRAY
  vd_OutEdges :: DYNAMIC_ARRAY
  vd_Parent :: ptr

record LIST_ELEMENT =
  el_ObjectType :: TOPL_OBJECT_TYPE
  el_Link :: ptr
  el_VertexData :: VERTEX_DATA
  el_EdgeData :: EDGE_DATA

record LIST =
  ls_ObjectType :: TOPL_OBJECT_TYPE
  ls_Head :: ptr
  ls_NumberOfElements :: dword

record ITERATOR =
  it_ObjectType :: TOPL_OBJECT_TYPE
  it_pLink :: ptr

text \<open>The memory: the elements, and the address the allocator hands out next.\<close>

record topl_mem =
  mem_elem :: "ptr \<Rightarrow> LIST_ELEMENT option"
  mem_next :: ptr

definition empty_mem :: topl_mem where
  "empty_mem = \<lparr>mem_elem = (\<lambda>_. None), mem_next = 1\<rparr>"

definition elem_type :: "topl_mem \<Rightarrow> ptr \<Rightarrow> TOPL_OBJECT_TYPE" where
  "elem_type h p = (case mem_elem h p of Some e \<Rightarrow> el_ObjectType e | None \<Rightarrow> eInvalidObject)"

definition upd_elem :: "ptr \<Rightarrow> (LIST_ELEMENT \<Rightarrow> LIST_ELEMENT) \<Rightarrow> topl_mem \<Rightarrow> topl_mem" where
  "upd_elem p f h = h\<lparr>mem_elem := (mem_elem h)(p := map_option f (mem_elem h p))\<rparr>"

definition Next :: "topl_mem \<Rightarrow> ptr \<Rightarrow> ptr" where
  "Next h p = (case mem_elem h p of Some e \<Rightarrow> el_Link e | None \<Rightarrow> NULL)"

definition set_Next :: "ptr \<Rightarrow> ptr \<Rightarrow> topl_mem \<Rightarrow> topl_mem" where
  "set_Next p q = upd_elem p (\<lambda>e. e\<lparr>el_Link := q\<rparr>)"

text \<open>An element whose bytes were all set to 0, but for its type.\<close>

definition zero_elem :: "TOPL_OBJECT_TYPE \<Rightarrow> LIST_ELEMENT" where
  "zero_elem t =
     \<lparr>el_ObjectType = t, el_Link = NULL,
      el_VertexData = \<lparr>vd_Id = 0, vd_VertexName = NULL, vd_InEdges = DynamicArrayInit,
        vd_OutEdges = DynamicArrayInit, vd_Parent = NULL\<rparr>,
      el_EdgeData = \<lparr>ed_To = NULL, ed_From = NULL, ed_Weight = 0\<rparr>\<rparr>"

text \<open>\<^verbatim>\<open>ToplAlloc\<close> followed by initialisation, and \<^verbatim>\<open>ToplFree\<close>.\<close>

definition alloc_elem :: "LIST_ELEMENT \<Rightarrow> topl_mem \<Rightarrow> ptr \<times> topl_mem" where
  "alloc_elem e h = (mem_next h, \<lparr>mem_elem = (mem_elem h)(mem_next h \<mapsto> e), mem_next = mem_next h + 1\<rparr>)"

definition free_elem :: "ptr \<Rightarrow> topl_mem \<Rightarrow> topl_mem" where
  "free_elem p h = h\<lparr>mem_elem := (mem_elem h)(p := None)\<rparr>"

definition ToplpIsListElement :: "topl_mem \<Rightarrow> ptr \<Rightarrow> bool" where
  "ToplpIsListElement h p \<longleftrightarrow> p \<noteq> NULL \<and> (elem_type h p = eEdge \<or> elem_type h p = eVertex)"

definition ToplpIsEdge :: "topl_mem \<Rightarrow> ptr \<Rightarrow> bool" where
  "ToplpIsEdge h p \<longleftrightarrow> p \<noteq> NULL \<and> elem_type h p = eEdge"

definition ToplpIsVertex :: "topl_mem \<Rightarrow> ptr \<Rightarrow> bool" where
  "ToplpIsVertex h p \<longleftrightarrow> p \<noteq> NULL \<and> elem_type h p = eVertex"

definition ToplpIsList :: "LIST option \<Rightarrow> bool" where
  "ToplpIsList pList = (case pList of Some l \<Rightarrow> ls_ObjectType l = eList | None \<Rightarrow> False)"

definition ToplpIsIterator :: "ITERATOR option \<Rightarrow> bool" where
  "ToplpIsIterator pIter = (case pIter of Some i \<Rightarrow> it_ObjectType i = eIterator | None \<Rightarrow> False)"

section \<open>Lists\<close>

definition ToplpListCreate :: LIST where
  "ToplpListCreate = \<lparr>ls_ObjectType = eList, ls_Head = NULL, ls_NumberOfElements = 0\<rparr>"

definition ToplpListSetIter :: "LIST \<Rightarrow> ITERATOR \<Rightarrow> ITERATOR" where
  "ToplpListSetIter pList pIter = pIter\<lparr>it_pLink := ls_Head pList\<rparr>"

text \<open>
  The search of \<^verbatim>\<open>ToplpListRemoveElem\<close>, with \<^verbatim>\<open>NULL\<close> for the address of the list's head in \<^verbatim>\<open>Prev\<close>. On
  a cyclic list the loop need not end.
\<close>

partial_function (option) find_link :: "topl_mem \<Rightarrow> ptr \<Rightarrow> ptr \<Rightarrow> ptr \<Rightarrow> (ptr \<times> ptr) option" where
  "find_link h pElem Prev Curr =
     (if Curr \<noteq> NULL \<and> Curr \<noteq> pElem then find_link h pElem Curr (Next h Curr) else Some (Prev, Curr))"

declare find_link.simps [code]

definition ToplpListRemoveElem :: "LIST \<Rightarrow> ptr \<Rightarrow> topl_mem \<Rightarrow> (ptr \<times> LIST \<times> topl_mem) option" where
  "ToplpListRemoveElem pList pElem h =
     map_option
       (\<lambda>(ReturnedObject, pList, h).
          (ReturnedObject,
           if ReturnedObject \<noteq> NULL
           then pList\<lparr>ls_NumberOfElements := ls_NumberOfElements pList - 1\<rparr> else pList, h))
       (if pElem \<noteq> NULL then
          map_option
            (\<lambda>(Prev, Curr).
               if Curr \<noteq> NULL then
                 (Curr,
                  if Prev = NULL then pList\<lparr>ls_Head := Next h Curr\<rparr> else pList,
                  set_Next Curr NULL (if Prev = NULL then h else set_Next Prev (Next h Curr) h))
               else (Curr, pList, h))
            (find_link h pElem NULL (ls_Head pList))
        else
          (let Curr = ls_Head pList
           in Some (if Curr \<noteq> NULL
                    then (Curr, pList\<lparr>ls_Head := Next h Curr\<rparr>, set_Next Curr NULL h)
                    else (Curr, pList, h))))"

definition ToplpListAddElem :: "LIST \<Rightarrow> ptr \<Rightarrow> topl_mem \<Rightarrow> LIST \<times> topl_mem" where
  "ToplpListAddElem pList pElem h =
     (pList\<lparr>ls_Head := pElem, ls_NumberOfElements := ls_NumberOfElements pList + 1\<rparr>,
      set_Next pElem (ls_Head pList) h)"

definition ToplpListNumberOfElements :: "LIST \<Rightarrow> dword" where
  "ToplpListNumberOfElements pList = ls_NumberOfElements pList"

definition ToplpIterCreate :: ITERATOR where
  "ToplpIterCreate = \<lparr>it_ObjectType = eIterator, it_pLink = NULL\<rparr>"

definition ToplpIterGetObject :: "ITERATOR \<Rightarrow> ptr" where
  "ToplpIterGetObject pIter = it_pLink pIter"

definition ToplpIterAdvance :: "ITERATOR \<Rightarrow> topl_mem \<Rightarrow> ITERATOR" where
  "ToplpIterAdvance pIter h =
     (if it_pLink pIter \<noteq> NULL then pIter\<lparr>it_pLink := Next h (it_pLink pIter)\<rparr> else pIter)"

text \<open>
  The loops \<^verbatim>\<open>while (p = ToplpListRemoveElem(pList, NULL)) f(p)\<close> of \<^verbatim>\<open>ToplpListFree\<close>,
  \<^verbatim>\<open>ToplpGraphDestroy\<close> and \<^verbatim>\<open>ToplpGraphMakeRing\<close>.
\<close>

partial_function (option) drain_list ::
  "(ptr \<Rightarrow> topl_mem \<Rightarrow> topl_mem) \<Rightarrow> LIST \<Rightarrow> topl_mem \<Rightarrow> (LIST \<times> topl_mem) option" where
  "drain_list f pList h =
     Option.bind (ToplpListRemoveElem pList NULL h) (\<lambda>r.
       let p = fst r; pList = fst (snd r); h = snd (snd r)
       in if p \<noteq> NULL then drain_list f pList (f p h) else Some (pList, h))"

declare drain_list.simps [code]

text \<open>
  The loops \<^verbatim>\<open>for (SetIter(it); v = IterGetObject(it); IterAdvance(it)) f(v)\<close> of the clients, which
  do not change the links.
\<close>

partial_function (option) iter_loop ::
  "(ptr \<Rightarrow> topl_mem \<times> 's \<Rightarrow> (topl_mem \<times> 's) topl) \<Rightarrow> ITERATOR \<Rightarrow> topl_mem \<times> 's \<Rightarrow> (topl_mem \<times> 's) topl option" where
  "iter_loop f it hs =
     (let p = ToplpIterGetObject it
      in if p \<noteq> NULL
         then case f p hs of
                Inl ex \<Rightarrow> Some (Inl ex)
              | Inr hs \<Rightarrow> iter_loop f (ToplpIterAdvance it (fst hs)) hs
         else Some (Inr hs))"

declare iter_loop.simps [code]

section \<open>Well-formed lists\<close>

lemma mem_elem_upd_elem [simp]:
  "mem_elem (upd_elem p f h) q = (if q = p then map_option f (mem_elem h p) else mem_elem h q)"
  by (simp add: upd_elem_def)

lemma mem_next_upd_elem [simp]: "mem_next (upd_elem p f h) = mem_next h"
  by (simp add: upd_elem_def)

lemma mem_elem_free_elem [simp]: "mem_elem (free_elem p h) q = (if q = p then None else mem_elem h q)"
  by (simp add: free_elem_def)

lemma Next_set_Next: "Next (set_Next p q h) r = (if r = p \<and> mem_elem h p \<noteq> None then q else Next h r)"
  by (auto simp: Next_def set_Next_def split: option.splits)

lemma mem_elem_set_Next:
  "mem_elem (set_Next p q h) r = (if r = p then map_option (\<lambda>e. e\<lparr>el_Link := q\<rparr>) (mem_elem h p) else mem_elem h r)"
  by (simp add: set_Next_def)

text \<open>The elements a chain of links leads through.\<close>

fun chain :: "topl_mem \<Rightarrow> ptr \<Rightarrow> ptr list \<Rightarrow> bool" where
  "chain h p [] \<longleftrightarrow> p = NULL"
| "chain h p (x # xs) \<longleftrightarrow> p = x \<and> x \<noteq> NULL \<and> mem_elem h x \<noteq> None \<and> chain h (Next h x) xs"

text \<open>\<open>links p xs q\<close>: the links lead from \<open>p\<close> through \<open>xs\<close> to \<open>q\<close>.\<close>

fun links :: "topl_mem \<Rightarrow> ptr \<Rightarrow> ptr list \<Rightarrow> ptr \<Rightarrow> bool" where
  "links h p [] q \<longleftrightarrow> p = q"
| "links h p (x # xs) q \<longleftrightarrow> p = x \<and> x \<noteq> NULL \<and> mem_elem h x \<noteq> None \<and> links h (Next h x) xs q"

lemma chain_append: "chain h p (xs @ ys) \<longleftrightarrow> (\<exists>q. links h p xs q \<and> chain h q ys)"
  by (induction xs arbitrary: p) auto

lemma chain_unique: "chain h p xs \<Longrightarrow> chain h p ys \<Longrightarrow> xs = ys"
proof (induction xs arbitrary: p ys)
  case Nil
  then show ?case by (cases ys) auto
next
  case (Cons x xs)
  then show ?case by (cases ys) auto
qed

lemma chain_distinct: "chain h p xs \<Longrightarrow> distinct xs"
proof (induction xs arbitrary: p)
  case (Cons x xs)
  have "x \<notin> set xs"
  proof
    assume "x \<in> set xs"
    then obtain ys zs where xs: "xs = ys @ x # zs"
      by (meson split_list)
    with Cons.prems have "chain h (Next h x) zs" "chain h (Next h x) xs"
      by (auto simp: chain_append)
    then have "xs = zs"
      by (rule chain_unique [symmetric])
    with xs show False by simp
  qed
  with Cons show ?case by auto
qed simp

lemma chain_valid: "chain h p xs \<Longrightarrow> x \<in> set xs \<Longrightarrow> x \<noteq> NULL \<and> mem_elem h x \<noteq> None"
  by (induction xs arbitrary: p) auto

lemma chain_cong:
  assumes "chain h p xs" and "\<And>x. x \<in> set xs \<Longrightarrow> Next h' x = Next h x \<and> (mem_elem h' x = None \<longleftrightarrow> mem_elem h x = None)"
  shows "chain h' p xs"
  using assms by (induction xs arbitrary: p) auto

lemma chain_set_Next [simp]: "p \<notin> set xs \<Longrightarrow> chain (set_Next p q h) c xs = chain h c xs"
  by (induction xs arbitrary: c) (auto simp: Next_set_Next mem_elem_set_Next)

lemma links_set_Next [simp]: "p \<notin> set xs \<Longrightarrow> links (set_Next p q h) c xs r = links h c xs r"
  by (induction xs arbitrary: c) (auto simp: Next_set_Next mem_elem_set_Next)

text \<open>\<open>list_ok l h xs\<close>: the list object \<open>l\<close> holds the elements \<open>xs\<close>.\<close>

definition list_ok :: "LIST \<Rightarrow> topl_mem \<Rightarrow> ptr list \<Rightarrow> bool" where
  "list_ok l h xs \<longleftrightarrow> ls_ObjectType l = eList \<and> chain h (ls_Head l) xs \<and>
     ls_NumberOfElements l = of_nat (length xs)"

lemma list_ok_unique: "list_ok l h xs \<Longrightarrow> list_ok l h ys \<Longrightarrow> xs = ys"
  by (auto simp: list_ok_def intro: chain_unique)

lemma list_ok_distinct: "list_ok l h xs \<Longrightarrow> distinct xs"
  by (auto simp: list_ok_def intro: chain_distinct)

lemma list_ok_cells:
  assumes "list_ok l h xs" and "\<And>x. x \<in> set xs \<Longrightarrow> mem_elem h' x = mem_elem h x"
  shows "list_ok l h' xs"
  using assms chain_cong [of h "ls_Head l" xs h'] by (simp add: list_ok_def Next_def)

lemma ToplpListCreate_ok: "list_ok ToplpListCreate h []"
  by (simp add: list_ok_def ToplpListCreate_def)

text \<open>Two memories that agree but for the links of some elements.\<close>

definition same_but_links :: "ptr set \<Rightarrow> topl_mem \<Rightarrow> topl_mem \<Rightarrow> bool" where
  "same_but_links S h h' \<longleftrightarrow> mem_next h' = mem_next h \<and>
     (\<forall>p. map_option (\<lambda>e. e\<lparr>el_Link := NULL\<rparr>) (mem_elem h' p) = map_option (\<lambda>e. e\<lparr>el_Link := NULL\<rparr>) (mem_elem h p)) \<and>
     (\<forall>p. p \<notin> S \<longrightarrow> mem_elem h' p = mem_elem h p)"

lemma same_but_links_refl [simp]: "same_but_links S h h"
  by (simp add: same_but_links_def)

lemma same_but_links_set_Next: "same_but_links S h h' \<Longrightarrow> p \<in> S \<Longrightarrow> same_but_links S h (set_Next p q h')"
  by (auto simp: same_but_links_def mem_elem_set_Next set_Next_def option.map_comp o_def)

section \<open>What the list operations do\<close>

lemma ToplpListAddElem_ok:
  assumes "list_ok l h xs" and "p \<noteq> NULL" and "mem_elem h p \<noteq> None" and "p \<notin> set xs"
  shows "list_ok (fst (ToplpListAddElem l p h)) (snd (ToplpListAddElem l p h)) (p # xs)"
  using assms by (simp add: list_ok_def ToplpListAddElem_def Next_set_Next mem_elem_set_Next add.commute)

lemma find_link_absent: "chain h c xs \<Longrightarrow> p \<notin> set xs \<Longrightarrow> \<exists>q. find_link h p q0 c = Some (q, NULL)"
proof (induction xs arbitrary: c q0)
  case (Cons x xs)
  then show ?case
    by (subst find_link.simps) auto
qed (subst find_link.simps, simp)

lemma find_link_present:
  "links h c xs p \<Longrightarrow> p \<notin> set xs \<Longrightarrow> p \<noteq> NULL \<Longrightarrow> find_link h p q c = Some (last (q # xs), p)"
proof (induction xs arbitrary: c q)
  case (Cons x xs)
  then show ?case
    by (subst find_link.simps) auto
qed (subst find_link.simps, simp)

lemma ToplpListRemoveElem_first:
  assumes "list_ok l h (x # xs)"
  obtains l' h' where "ToplpListRemoveElem l NULL h = Some (x, l', h')" and "list_ok l' h' xs"
    and "same_but_links {x} h h'"
proof -
  have x: "ls_Head l = x" "x \<noteq> NULL" "chain h (Next h x) xs" "x \<notin> set xs" "ls_ObjectType l = eList"
      "ls_NumberOfElements l = 1 + of_nat (length xs)"
    using assms list_ok_distinct [OF assms] by (auto simp: list_ok_def)
  then show thesis
    using x by (intro that) (auto simp: ToplpListRemoveElem_def list_ok_def same_but_links_set_Next)
qed

lemma ToplpListRemoveElem_empty:
  "list_ok l h [] \<Longrightarrow> ToplpListRemoveElem l NULL h = Some (NULL, l, h)"
  by (simp add: ToplpListRemoveElem_def list_ok_def)

lemma ToplpListRemoveElem_absent:
  assumes "list_ok l h xs" and "p \<noteq> NULL" and "p \<notin> set xs"
  shows "ToplpListRemoveElem l p h = Some (NULL, l, h)"
  using find_link_absent [of h "ls_Head l" xs p NULL] assms
  by (auto simp: ToplpListRemoveElem_def list_ok_def)

lemma ToplpListRemoveElem_present:
  assumes "list_ok l h (ys @ p # zs)"
  obtains l' h' where "ToplpListRemoveElem l p h = Some (p, l', h')" and "list_ok l' h' (ys @ zs)"
    and "same_but_links (set (ys @ p # zs)) h h'"
proof -
  let ?q = "last (NULL # ys)"
  have d: "distinct (ys @ p # zs)"
    by (rule list_ok_distinct [OF assms])
  have c: "links h (ls_Head l) ys p" "chain h (Next h p) zs" "p \<noteq> NULL" "mem_elem h p \<noteq> None"
    using assms by (auto simp: list_ok_def chain_append)
  have find: "find_link h p NULL (ls_Head l) = Some (?q, p)"
    using c d by (intro find_link_present) auto
  show thesis
  proof (cases ys rule: rev_cases)
    case Nil
    then show thesis
      using c d find assms
      by (intro that) (auto simp: ToplpListRemoveElem_def list_ok_def same_but_links_set_Next)
  next
    case (snoc ws w)
    let ?h = "set_Next p NULL (set_Next w (Next h p) h)"
    have w: "w \<noteq> NULL" "mem_elem h w \<noteq> None" "links h (ls_Head l) ws w" "w \<noteq> p"
      using assms snoc d by (auto simp: list_ok_def chain_append)
    have "chain ?h (ls_Head l) (ys @ zs)"
      using w c d by (auto simp: snoc chain_append Next_set_Next mem_elem_set_Next)
    then show thesis
      using snoc c w find assms
      by (intro that [of "l\<lparr>ls_NumberOfElements := ls_NumberOfElements l - 1\<rparr>" ?h])
        (auto simp: ToplpListRemoveElem_def list_ok_def intro!: same_but_links_set_Next)
  qed
qed

section \<open>Draining and walking a list\<close>

text \<open>
  A routine that is called for every element taken off a list works on that element only:
  \<open>effect\<close> is what it makes of the element's cell.
\<close>

locale cell_routine =
  fixes f :: "ptr \<Rightarrow> topl_mem \<Rightarrow> topl_mem" and effect :: "LIST_ELEMENT option \<Rightarrow> LIST_ELEMENT option"
  assumes f_cell: "mem_elem (f p h) q = (if q = p then effect (mem_elem h p) else mem_elem h q)"
    and f_next: "mem_next (f p h) = mem_next h"
begin

lemma chain_f: "chain h c xs \<Longrightarrow> p \<notin> set xs \<Longrightarrow> chain (f p h) c xs"
  by (rule chain_cong) (auto simp: f_cell Next_def)

lemma drain_list_total:
  assumes "list_ok l h xs"
  shows "\<exists>l' h'. drain_list f l h = Some (l', h') \<and> list_ok l' h' [] \<and> mem_next h' = mem_next h \<and>
    (\<forall>q. mem_elem h' q =
       (if q \<in> set xs then effect (map_option (\<lambda>e. e\<lparr>el_Link := NULL\<rparr>) (mem_elem h q)) else mem_elem h q))"
  using assms
proof (induction xs arbitrary: l h)
  case Nil
  then show ?case
    by (subst drain_list.simps) (simp add: ToplpListRemoveElem_empty)
next
  case (Cons x xs)
  obtain l1 h1 where r: "ToplpListRemoveElem l NULL h = Some (x, l1, h1)" "list_ok l1 h1 xs"
      "h1 = set_Next x NULL h" "x \<noteq> NULL" "x \<notin> set xs"
    using Cons.prems list_ok_distinct [OF Cons.prems]
    by (rule_tac ToplpListRemoveElem_first [OF Cons.prems])
       (auto simp: ToplpListRemoveElem_def list_ok_def)
  have "list_ok l1 (f x h1) xs"
    using r by (auto simp: list_ok_def intro: chain_f)
  from Cons.IH [OF this] obtain l2 h2 where d: "drain_list f l1 (f x h1) = Some (l2, h2)" "list_ok l2 h2 []"
      "mem_next h2 = mem_next (f x h1)"
      "\<And>q. mem_elem h2 q = (if q \<in> set xs
         then effect (map_option (\<lambda>e. e\<lparr>el_Link := NULL\<rparr>) (mem_elem (f x h1) q)) else mem_elem (f x h1) q)"
    by blast
  have "drain_list f l h = Some (l2, h2)"
    using r d(1) by (subst drain_list.simps) simp
  moreover have "mem_next h2 = mem_next h"
    using d(3) r(3) by (simp add: f_next set_Next_def)
  moreover have "mem_elem h2 q = (if q \<in> set (x # xs)
      then effect (map_option (\<lambda>e. e\<lparr>el_Link := NULL\<rparr>) (mem_elem h q)) else mem_elem h q)" for q
    using d(4) [of q] r(3,5) by (auto simp: f_cell mem_elem_set_Next)
  ultimately show ?case
    using d(2) by blast
qed

end

text \<open>The body of a loop over the elements, when it neither moves nor frees an element.\<close>

locale walk_body =
  fixes f :: "ptr \<Rightarrow> topl_mem \<times> 's \<Rightarrow> (topl_mem \<times> 's) topl"
  assumes f_links: "f p hs = Inr hs' \<Longrightarrow> Next (fst hs') q = Next (fst hs) q"
    and f_alive: "f p hs = Inr hs' \<Longrightarrow> mem_elem (fst hs') q = None \<longleftrightarrow> mem_elem (fst hs) q = None"
begin

lemma iter_loop_chain: "chain (fst hs) (it_pLink it) xs \<Longrightarrow> iter_loop f it hs = Some (foldE f xs hs)"
proof (induction xs arbitrary: hs it)
  case Nil
  then show ?case
    by (subst iter_loop.simps) (simp add: ToplpIterGetObject_def)
next
  case (Cons x xs)
  show ?case
  proof (cases "f x hs")
    case (Inl ex)
    with Cons.prems show ?thesis
      by (subst iter_loop.simps) (simp add: ToplpIterGetObject_def)
  next
    case (Inr hs')
    have "chain (fst hs') (it_pLink (ToplpIterAdvance it (fst hs'))) xs"
      using Cons.prems f_links [OF Inr] f_alive [OF Inr]
      by (auto simp: ToplpIterAdvance_def intro: chain_cong)
    then show ?thesis
      using Cons.IH [of hs'] Cons.prems Inr by (subst iter_loop.simps) (simp add: ToplpIterGetObject_def)
  qed
qed

lemma iter_loop_list:
  "list_ok l (fst hs) xs \<Longrightarrow> iter_loop f (ToplpListSetIter l it) hs = Some (foldE f xs hs)"
  by (rule iter_loop_chain) (simp add: list_ok_def ToplpListSetIter_def)

end

section \<open>Sequences of operations\<close>

text \<open>A list object and the list it stands for, under a sequence of additions and removals.\<close>

datatype list_op = AddElem ptr | RemoveElem ptr

fun run_ops :: "list_op list \<Rightarrow> LIST \<Rightarrow> topl_mem \<Rightarrow> (ptr list \<times> LIST \<times> topl_mem) option" where
  "run_ops [] l h = Some ([], l, h)"
| "run_ops (AddElem p # ops) l h = run_ops ops (fst (ToplpListAddElem l p h)) (snd (ToplpListAddElem l p h))"
| "run_ops (RemoveElem p # ops) l h =
     Option.bind (ToplpListRemoveElem l p h) (\<lambda>(q, l, h).
       map_option (\<lambda>(qs, r). (q # qs, r)) (run_ops ops l h))"

definition abs_remove :: "ptr \<Rightarrow> ptr list \<Rightarrow> ptr \<times> ptr list" where
  "abs_remove p xs =
     (if p = NULL then (case xs of [] \<Rightarrow> (NULL, []) | x # ys \<Rightarrow> (x, ys))
      else if p \<in> set xs then (p, remove1 p xs) else (NULL, xs))"

fun abs_ops :: "list_op list \<Rightarrow> ptr list \<Rightarrow> ptr list \<times> ptr list" where
  "abs_ops [] xs = ([], xs)"
| "abs_ops (AddElem p # ops) xs = abs_ops ops (p # xs)"
| "abs_ops (RemoveElem p # ops) xs =
     (let (q, ys) = abs_remove p xs; (qs, zs) = abs_ops ops ys in (q # qs, zs))"

text \<open>Only live elements that are not in the list yet may be added.\<close>

fun ops_legal :: "topl_mem \<Rightarrow> list_op list \<Rightarrow> ptr list \<Rightarrow> bool" where
  "ops_legal h [] xs \<longleftrightarrow> True"
| "ops_legal h (AddElem p # ops) xs \<longleftrightarrow>
     p \<noteq> NULL \<and> mem_elem h p \<noteq> None \<and> p \<notin> set xs \<and> ops_legal h ops (p # xs)"
| "ops_legal h (RemoveElem p # ops) xs \<longleftrightarrow> ops_legal h ops (snd (abs_remove p xs))"

lemma ops_legal_cong:
  "(\<And>p. mem_elem h' p = None \<longleftrightarrow> mem_elem h p = None) \<Longrightarrow> ops_legal h' ops xs = ops_legal h ops xs"
  by (induction h ops xs rule: ops_legal.induct) auto

lemma same_but_links_alive: "same_but_links S h h' \<Longrightarrow> mem_elem h' p = None \<longleftrightarrow> mem_elem h p = None"
  unfolding same_but_links_def by (metis map_option_is_None)

lemma same_but_links_trans:
  "same_but_links S h h' \<Longrightarrow> same_but_links T h' h'' \<Longrightarrow> same_but_links (S \<union> T) h h''"
  by (simp add: same_but_links_def)

lemma same_but_links_mono: "same_but_links S h h' \<Longrightarrow> S \<subseteq> T \<Longrightarrow> same_but_links T h h'"
  by (auto simp: same_but_links_def)

lemma ToplpListRemoveElem_abs:
  assumes "list_ok l h xs"
  shows "\<exists>l' h'. ToplpListRemoveElem l p h = Some (fst (abs_remove p xs), l', h') \<and>
    list_ok l' h' (snd (abs_remove p xs)) \<and> same_but_links (set xs) h h'"
proof (cases "p = NULL")
  case True
  show ?thesis
  proof (cases xs)
    case Nil
    with True assms show ?thesis
      by (simp add: abs_remove_def ToplpListRemoveElem_empty)
  next
    case (Cons x ys)
    show ?thesis
      by (rule ToplpListRemoveElem_first [of l h x ys])
        (use assms Cons True in \<open>auto simp: abs_remove_def intro: same_but_links_mono\<close>)
  qed
next
  case False
  show ?thesis
  proof (cases "p \<in> set xs")
    case True
    then obtain ys zs where xs: "xs = ys @ p # zs" "p \<notin> set ys"
      by (meson split_list_first)
    then have "remove1 p xs = ys @ zs"
      by (simp add: remove1_append)
    with xs False True show ?thesis
      using ToplpListRemoveElem_present [of l h ys p zs] assms by (simp add: abs_remove_def) blast
  next
    case absent: False
    with False assms show ?thesis
      by (simp add: abs_remove_def ToplpListRemoveElem_absent)
  qed
qed

lemma run_ops_refines:
  assumes "list_ok l h xs" and "ops_legal h ops xs"
  shows "\<exists>l' h'. run_ops ops l h = Some (fst (abs_ops ops xs), l', h') \<and>
    list_ok l' h' (snd (abs_ops ops xs)) \<and> same_but_links UNIV h h'"
  using assms
proof (induction ops arbitrary: l h xs)
  case (Cons op ops)
  show ?case
  proof (cases op)
    case (AddElem p)
    let ?l = "fst (ToplpListAddElem l p h)" and ?h = "snd (ToplpListAddElem l p h)"
    have same: "same_but_links UNIV h ?h"
      by (simp add: ToplpListAddElem_def same_but_links_set_Next)
    have "list_ok ?l ?h (p # xs)"
      using Cons.prems AddElem by (intro ToplpListAddElem_ok) auto
    moreover have "ops_legal ?h ops (p # xs)"
      using Cons.prems(2) AddElem ops_legal_cong [OF same_but_links_alive [OF same]] by simp
    ultimately show ?thesis
      using Cons.IH AddElem same_but_links_trans [OF same] by fastforce
  next
    case (RemoveElem p)
    obtain l1 h1 where r: "ToplpListRemoveElem l p h = Some (fst (abs_remove p xs), l1, h1)"
        "list_ok l1 h1 (snd (abs_remove p xs))" "same_but_links UNIV h h1"
      using ToplpListRemoveElem_abs [OF Cons.prems(1), of p] same_but_links_mono by blast
    have "ops_legal h1 ops (snd (abs_remove p xs))"
      using Cons.prems(2) RemoveElem ops_legal_cong [OF same_but_links_alive [OF r(3)]] by simp
    from Cons.IH [OF r(2) this] show ?thesis
      using r(1) RemoveElem same_but_links_trans [OF r(3)] by (fastforce simp: split_beta)
  qed
qed simp

section \<open>Properties\<close>

text \<open>C32. The linked lists refine plain lists: every sequence of additions of live elements that are not in
  the list, and of removals of given or first elements, returns on a new list object the pointers the
  sequence returns on a plain list, ends, and leaves a well-formed object that holds the elements of the
  plain list in order and counts them. No field of an element but its link changes.\<close>

theorem linked_list_refines:
  assumes "ops_legal h ops []"
  shows "\<exists>l h'. run_ops ops ToplpListCreate h = Some (fst (abs_ops ops []), l, h') \<and>
    list_ok l h' (snd (abs_ops ops [])) \<and>
    ToplpListNumberOfElements l = of_nat (length (snd (abs_ops ops []))) \<and> same_but_links UNIV h h'"
  using run_ops_refines [OF ToplpListCreate_ok assms] by (auto simp: ToplpListNumberOfElements_def list_ok_def)

definition three_elems :: topl_mem where
  "three_elems = snd (alloc_elem (zero_elem eVertex) (snd (alloc_elem (zero_elem eVertex)
     (snd (alloc_elem (zero_elem eVertex) empty_mem)))))"

theorem linked_list_refines_witness:
  "\<exists>l h'. run_ops [AddElem 1, AddElem 2, AddElem 3, RemoveElem 2, RemoveElem 2, RemoveElem NULL]
      ToplpListCreate three_elems = Some ([2, NULL, 3], l, h') \<and> list_ok l h' [1]"
proof -
  let ?ops = "[AddElem 1, AddElem 2, AddElem 3, RemoveElem 2, RemoveElem 2, RemoveElem NULL]"
  have "ops_legal three_elems ?ops []" and "abs_ops ?ops [] = ([2, NULL, 3], [1])"
    by code_simp+
  with linked_list_refines [of three_elems ?ops] show ?thesis
    by auto
qed

end
