(* ===== verification/Topl_Objects.thy ===== *)
theory Topl_Objects
  imports Topl_Lists
begin

text \<open>
  Edges, vertices and graphs of the older interface, \<^verbatim>\<open>ds/src/common/w32topl/toplgrph.c\<close>, with the
  release of lists in \<^verbatim>\<open>topllist.c\<close>. A graph is a record with its list of vertices.
\<close>

section \<open>Edges\<close>

abbreviation vdata :: "topl_mem \<Rightarrow> ptr \<Rightarrow> VERTEX_DATA" where
  "vdata h p \<equiv> el_VertexData (the (mem_elem h p))"

abbreviation edata :: "topl_mem \<Rightarrow> ptr \<Rightarrow> EDGE_DATA" where
  "edata h p \<equiv> el_EdgeData (the (mem_elem h p))"

definition upd_vdata :: "ptr \<Rightarrow> (VERTEX_DATA \<Rightarrow> VERTEX_DATA) \<Rightarrow> topl_mem \<Rightarrow> topl_mem" where
  "upd_vdata p f = upd_elem p (\<lambda>e. e\<lparr>el_VertexData := f (el_VertexData e)\<rparr>)"

definition upd_edata :: "ptr \<Rightarrow> (EDGE_DATA \<Rightarrow> EDGE_DATA) \<Rightarrow> topl_mem \<Rightarrow> topl_mem" where
  "upd_edata p f = upd_elem p (\<lambda>e. e\<lparr>el_EdgeData := f (el_EdgeData e)\<rparr>)"

text \<open>Creation in new memory, or in memory the caller owns.\<close>

definition ToplpEdgeCreate :: "ptr \<Rightarrow> topl_mem \<Rightarrow> ptr \<times> topl_mem" where
  "ToplpEdgeCreate Edge h =
     (if Edge = NULL then alloc_elem (zero_elem eEdge) h
      else (Edge, h\<lparr>mem_elem := (mem_elem h)(Edge \<mapsto> zero_elem eEdge)\<rparr>))"

definition ToplpEdgeDestroy :: "ptr \<Rightarrow> bool \<Rightarrow> topl_mem \<Rightarrow> topl_mem" where
  "ToplpEdgeDestroy pEdge fFree h =
     (let h = upd_elem pEdge (\<lambda>e. e\<lparr>el_ObjectType := eInvalidObject\<rparr>) h
      in if fFree then free_elem pEdge h else h)"

definition ToplpEdgeSetToVertex :: "ptr \<Rightarrow> ptr \<Rightarrow> topl_mem \<Rightarrow> topl_mem" where
  "ToplpEdgeSetToVertex pEdge ToVertex = upd_edata pEdge (\<lambda>d. d\<lparr>ed_To := ToVertex\<rparr>)"

definition ToplpEdgeGetToVertex :: "topl_mem \<Rightarrow> ptr \<Rightarrow> ptr" where
  "ToplpEdgeGetToVertex h pEdge = ed_To (edata h pEdge)"

definition ToplpEdgeSetFromVertex :: "ptr \<Rightarrow> ptr \<Rightarrow> topl_mem \<Rightarrow> topl_mem" where
  "ToplpEdgeSetFromVertex pEdge FromVertex = upd_edata pEdge (\<lambda>d. d\<lparr>ed_From := FromVertex\<rparr>)"

definition ToplpEdgeGetFromVertex :: "topl_mem \<Rightarrow> ptr \<Rightarrow> ptr" where
  "ToplpEdgeGetFromVertex h pEdge = ed_From (edata h pEdge)"

definition ToplpEdgeGetWeight :: "topl_mem \<Rightarrow> ptr \<Rightarrow> dword" where
  "ToplpEdgeGetWeight h pEdge = ed_Weight (edata h pEdge)"

definition ToplpEdgeSetWeight :: "ptr \<Rightarrow> dword \<Rightarrow> topl_mem \<Rightarrow> topl_mem" where
  "ToplpEdgeSetWeight pEdge Weight = upd_edata pEdge (\<lambda>d. d\<lparr>ed_Weight := Weight\<rparr>)"

section \<open>Vertices\<close>

definition ToplpVertexCreate :: "ptr \<Rightarrow> topl_mem \<Rightarrow> ptr \<times> topl_mem" where
  "ToplpVertexCreate Vertex h =
     (let (pVertex, h) =
        (if Vertex = NULL then alloc_elem (zero_elem eVertex) h
         else (Vertex, h\<lparr>mem_elem := (mem_elem h)(Vertex \<mapsto> zero_elem eVertex)\<rparr>))
      in (pVertex, upd_vdata pVertex
            (\<lambda>d. d\<lparr>vd_InEdges := DynamicArrayInit, vd_OutEdges := DynamicArrayInit\<rparr>) h))"

text \<open>The block of a destroyed array is gone; its count stays.\<close>

definition DynamicArrayDestroy :: "DYNAMIC_ARRAY \<Rightarrow> DYNAMIC_ARRAY" where
  "DynamicArrayDestroy a = a\<lparr>da_Array := None\<rparr>"

definition ToplpVertexDestroy :: "ptr \<Rightarrow> bool \<Rightarrow> topl_mem \<Rightarrow> topl_mem" where
  "ToplpVertexDestroy pVertex fFree h =
     (let h = upd_vdata pVertex (\<lambda>d. d\<lparr>vd_InEdges := DynamicArrayDestroy (vd_InEdges d)\<rparr>) h;
          h = upd_vdata pVertex (\<lambda>d. d\<lparr>vd_OutEdges := DynamicArrayDestroy (vd_OutEdges d)\<rparr>) h;
          h = upd_elem pVertex (\<lambda>e. e\<lparr>el_ObjectType := eInvalidObject\<rparr>) h
      in if fFree then free_elem pVertex h else h)"

definition ToplpVertexSetId :: "ptr \<Rightarrow> dword \<Rightarrow> topl_mem \<Rightarrow> topl_mem" where
  "ToplpVertexSetId pVertex NewId = upd_vdata pVertex (\<lambda>d. d\<lparr>vd_Id := NewId\<rparr>)"

definition ToplpVertexGetId :: "topl_mem \<Rightarrow> ptr \<Rightarrow> dword" where
  "ToplpVertexGetId h pVertex = vd_Id (vdata h pVertex)"

definition ToplpVertexSetParent :: "ptr \<Rightarrow> ptr \<Rightarrow> topl_mem \<Rightarrow> topl_mem" where
  "ToplpVertexSetParent pVertex pParent = upd_vdata pVertex (\<lambda>d. d\<lparr>vd_Parent := pParent\<rparr>)"

definition ToplpVertexGetParent :: "topl_mem \<Rightarrow> ptr \<Rightarrow> ptr" where
  "ToplpVertexGetParent h pVertex = vd_Parent (vdata h pVertex)"

definition ToplpVertexNumberOfInEdges :: "topl_mem \<Rightarrow> ptr \<Rightarrow> nat" where
  "ToplpVertexNumberOfInEdges h pVertex = DynamicArrayGetCount (vd_InEdges (vdata h pVertex))"

definition ToplpVertexNumberOfOutEdges :: "topl_mem \<Rightarrow> ptr \<Rightarrow> nat" where
  "ToplpVertexNumberOfOutEdges h pVertex = DynamicArrayGetCount (vd_OutEdges (vdata h pVertex))"

text \<open>The index test of both accessors: \<^verbatim>\<open>(signed)Index < 0 || Index >= count\<close>.\<close>

definition bad_index :: "dword \<Rightarrow> nat \<Rightarrow> bool" where
  "bad_index Index n \<longleftrightarrow> sint Index < 0 \<or> unat Index \<ge> n"

definition ToplpVertexGetInEdge :: "topl_mem \<Rightarrow> ptr \<Rightarrow> dword \<Rightarrow> ptr topl" where
  "ToplpVertexGetInEdge h pVertex Index =
     (if bad_index Index (DynamicArrayGetCount (vd_InEdges (vdata h pVertex)))
      then Inl TOPL_EX_INVALID_INDEX
      else Inr (the (DynamicArrayRetrieve (vd_InEdges (vdata h pVertex)) (unat Index))))"

definition ToplpVertexGetOutEdge :: "topl_mem \<Rightarrow> ptr \<Rightarrow> dword \<Rightarrow> ptr topl" where
  "ToplpVertexGetOutEdge h pVertex Index =
     (if bad_index Index (DynamicArrayGetCount (vd_OutEdges (vdata h pVertex)))
      then Inl TOPL_EX_INVALID_INDEX
      else Inr (the (DynamicArrayRetrieve (vd_OutEdges (vdata h pVertex)) (unat Index))))"

definition ToplpVertexAddEdge :: "ptr \<Rightarrow> ptr \<Rightarrow> topl_mem \<Rightarrow> topl_mem topl" where
  "ToplpVertexAddEdge pVertex pEdge h =
     (if ToplpEdgeGetFromVertex h pEdge = pVertex
      then Inr (upd_vdata pVertex (\<lambda>d. d\<lparr>vd_OutEdges := DynamicArrayAdd (vd_OutEdges d) pEdge\<rparr>) h)
      else if ToplpEdgeGetToVertex h pEdge = pVertex
      then Inr (upd_vdata pVertex (\<lambda>d. d\<lparr>vd_InEdges := DynamicArrayAdd (vd_InEdges d) pEdge\<rparr>) h)
      else Inl TOPL_EX_INVALID_EDGE)"

definition ToplpVertexRemoveEdge :: "ptr \<Rightarrow> ptr \<Rightarrow> topl_mem \<Rightarrow> topl_mem topl" where
  "ToplpVertexRemoveEdge pVertex pEdge h =
     (if ToplpEdgeGetFromVertex h pEdge = pVertex
      then Inr (upd_vdata pVertex (\<lambda>d. d\<lparr>vd_OutEdges := DynamicArrayRemove (vd_OutEdges d) pEdge 0\<rparr>) h)
      else if ToplpEdgeGetToVertex h pEdge = pVertex
      then Inr (upd_vdata pVertex (\<lambda>d. d\<lparr>vd_InEdges := DynamicArrayRemove (vd_InEdges d) pEdge 0\<rparr>) h)
      else Inl TOPL_EX_INVALID_EDGE)"

definition ToplpEdgeAssociate :: "ptr \<Rightarrow> topl_mem \<Rightarrow> topl_mem topl" where
  "ToplpEdgeAssociate pEdge h =
     bindE (raise_if (\<not> ToplpIsVertex h (ed_To (edata h pEdge))) TOPL_EX_INVALID_VERTEX) (\<lambda>_.
     bindE (raise_if (\<not> ToplpIsVertex h (ed_From (edata h pEdge))) TOPL_EX_INVALID_VERTEX) (\<lambda>_.
     bindE (ToplpVertexAddEdge (ed_To (edata h pEdge)) pEdge h) (\<lambda>h.
     ToplpVertexAddEdge (ed_From (edata h pEdge)) pEdge h)))"

definition ToplpEdgeDisassociate :: "ptr \<Rightarrow> topl_mem \<Rightarrow> topl_mem topl" where
  "ToplpEdgeDisassociate pEdge h =
     bindE (raise_if (\<not> ToplpIsVertex h (ed_To (edata h pEdge))) TOPL_EX_INVALID_VERTEX) (\<lambda>_.
     bindE (raise_if (\<not> ToplpIsVertex h (ed_From (edata h pEdge))) TOPL_EX_INVALID_VERTEX) (\<lambda>_.
     bindE (ToplpVertexRemoveEdge (ed_To (edata h pEdge)) pEdge h) (\<lambda>h.
     ToplpVertexRemoveEdge (ed_From (edata h pEdge)) pEdge h)))"

section \<open>Graphs\<close>

record GRAPH =
  gr_ObjectType :: TOPL_OBJECT_TYPE
  gr_VertexList :: LIST

definition ToplpIsGraph :: "GRAPH option \<Rightarrow> bool" where
  "ToplpIsGraph pGraph = (case pGraph of Some g \<Rightarrow> gr_ObjectType g = eGraph | None \<Rightarrow> False)"

definition ToplpGraphCreate :: GRAPH where
  "ToplpGraphCreate =
     \<lparr>gr_ObjectType = eGraph,
      gr_VertexList = \<lparr>ls_ObjectType = eList, ls_Head = NULL, ls_NumberOfElements = 0\<rparr>\<rparr>"

text \<open>The graph object that is left, if the call does not free it.\<close>

definition ToplpGraphDestroy :: "GRAPH \<Rightarrow> bool \<Rightarrow> bool \<Rightarrow> topl_mem \<Rightarrow> (GRAPH option \<times> topl_mem) option" where
  "ToplpGraphDestroy pGraph fFree fRecursive h =
     map_option
       (\<lambda>(l, h). (if fFree then None else Some (pGraph\<lparr>gr_VertexList := l, gr_ObjectType := eInvalidObject\<rparr>), h))
       (if fRecursive
        then drain_list (\<lambda>pVertex. ToplpVertexDestroy pVertex fFree) (gr_VertexList pGraph) h
        else Some (gr_VertexList pGraph, h))"

definition ToplpGraphAddVertex :: "GRAPH \<Rightarrow> ptr \<Rightarrow> topl_mem \<Rightarrow> GRAPH \<times> topl_mem" where
  "ToplpGraphAddVertex pGraph pVertex h =
     (let (l, h) = ToplpListAddElem (gr_VertexList pGraph) pVertex h
      in (pGraph\<lparr>gr_VertexList := l\<rparr>, h))"

definition ToplpGraphRemoveVertex :: "GRAPH \<Rightarrow> ptr \<Rightarrow> topl_mem \<Rightarrow> (ptr \<times> GRAPH \<times> topl_mem) option" where
  "ToplpGraphRemoveVertex pGraph pVertex h =
     map_option (\<lambda>(p, l, h). (p, pGraph\<lparr>gr_VertexList := l\<rparr>, h))
       (ToplpListRemoveElem (gr_VertexList pGraph) pVertex h)"

definition ToplpGraphSetVertexIter :: "GRAPH \<Rightarrow> ITERATOR \<Rightarrow> ITERATOR" where
  "ToplpGraphSetVertexIter pGraph pIter = ToplpListSetIter (gr_VertexList pGraph) pIter"

definition ToplpGraphNumberOfVertices :: "GRAPH \<Rightarrow> dword" where
  "ToplpGraphNumberOfVertices pGraph = ToplpListNumberOfElements (gr_VertexList pGraph)"

section \<open>Releasing lists\<close>

definition ToplpListFreeElem :: "ptr \<Rightarrow> topl_mem \<Rightarrow> topl_mem" where
  "ToplpListFreeElem pElem h =
     (case elem_type h pElem of
        eVertex \<Rightarrow> ToplpVertexDestroy pElem True h
      | eEdge \<Rightarrow> ToplpEdgeDestroy pElem True h
      | _ \<Rightarrow> h)"

definition ToplpListFree :: "LIST \<Rightarrow> bool \<Rightarrow> topl_mem \<Rightarrow> topl_mem option" where
  "ToplpListFree pList fRecursive h =
     (if fRecursive then map_option snd (drain_list ToplpListFreeElem pList h) else Some h)"

section \<open>Frame lemmas\<close>

lemma mem_elem_upd_vdata:
  "mem_elem (upd_vdata p f h) q =
     (if q = p then map_option (\<lambda>e. e\<lparr>el_VertexData := f (el_VertexData e)\<rparr>) (mem_elem h p) else mem_elem h q)"
  by (simp add: upd_vdata_def)

lemma mem_elem_upd_edata:
  "mem_elem (upd_edata p f h) q =
     (if q = p then map_option (\<lambda>e. e\<lparr>el_EdgeData := f (el_EdgeData e)\<rparr>) (mem_elem h p) else mem_elem h q)"
  by (simp add: upd_edata_def)

lemma upd_data_Next [simp]:
  "Next (upd_vdata p f h) q = Next h q" "Next (upd_edata p g h) q = Next h q"
  by (auto simp: Next_def mem_elem_upd_vdata mem_elem_upd_edata split: option.splits)

lemma upd_data_alive [simp]:
  "mem_elem (upd_vdata p f h) q = None \<longleftrightarrow> mem_elem h q = None"
  "mem_elem (upd_edata p g h) q = None \<longleftrightarrow> mem_elem h q = None"
  by (auto simp: mem_elem_upd_vdata mem_elem_upd_edata)

lemma upd_data_type [simp]:
  "elem_type (upd_vdata p f h) q = elem_type h q" "elem_type (upd_edata p g h) q = elem_type h q"
  by (auto simp: elem_type_def mem_elem_upd_vdata mem_elem_upd_edata split: option.splits)

lemma upd_data_is [simp]:
  "ToplpIsVertex (upd_vdata p f h) q = ToplpIsVertex h q" "ToplpIsEdge (upd_vdata p f h) q = ToplpIsEdge h q"
  "ToplpIsVertex (upd_edata p g h) q = ToplpIsVertex h q" "ToplpIsEdge (upd_edata p g h) q = ToplpIsEdge h q"
  by (simp_all add: ToplpIsVertex_def ToplpIsEdge_def)

lemma upd_data_next [simp]: "mem_next (upd_vdata p f h) = mem_next h" "mem_next (upd_edata p g h) = mem_next h"
  by (simp_all add: upd_vdata_def upd_edata_def)

lemma alive_type: "elem_type h p \<noteq> eInvalidObject \<Longrightarrow> mem_elem h p \<noteq> None"
  by (auto simp: elem_type_def split: option.splits)

lemma ToplpIsVertex_alive: "ToplpIsVertex h p \<Longrightarrow> \<exists>e. mem_elem h p = Some e"
  using alive_type [of h p] by (auto simp: ToplpIsVertex_def)

lemma vdata_upd_vdata: "mem_elem h p \<noteq> None \<Longrightarrow> vdata (upd_vdata p f h) q = (if q = p then f (vdata h p) else vdata h q)"
  by (auto simp: mem_elem_upd_vdata)

lemma vdata_upd_edata [simp]: "mem_elem h p \<noteq> None \<Longrightarrow> vdata (upd_edata p g h) q = vdata h q"
  by (auto simp: mem_elem_upd_edata)

lemma edata_upd_vdata [simp]: "mem_elem h p \<noteq> None \<Longrightarrow> edata (upd_vdata p f h) q = edata h q"
  by (auto simp: mem_elem_upd_vdata)

lemma edata_upd_edata: "mem_elem h p \<noteq> None \<Longrightarrow> edata (upd_edata p g h) q = (if q = p then g (edata h p) else edata h q)"
  by (auto simp: mem_elem_upd_edata)

interpretation list_free: cell_routine ToplpListFreeElem
  "\<lambda>c. if \<exists>e. c = Some e \<and> el_ObjectType e \<in> {eVertex, eEdge} then None else c"
  by unfold_locales
    (auto simp: ToplpListFreeElem_def ToplpVertexDestroy_def ToplpEdgeDestroy_def elem_type_def Let_def free_elem_def
      mem_elem_upd_vdata split: option.splits TOPL_OBJECT_TYPE.splits)

interpretation vertex_free: cell_routine "\<lambda>p. ToplpVertexDestroy p True" "\<lambda>c. None"
  by unfold_locales (auto simp: ToplpVertexDestroy_def Let_def free_elem_def mem_elem_upd_vdata)

interpretation edge_free: cell_routine "\<lambda>p. ToplpEdgeDestroy p True" "\<lambda>c. None"
  by unfold_locales (auto simp: ToplpEdgeDestroy_def Let_def free_elem_def)

section \<open>Edges in the arrays of their vertices\<close>

abbreviation in_list :: "topl_mem \<Rightarrow> ptr \<Rightarrow> ptr list" where
  "in_list h v \<equiv> dynamic_array_list (vd_InEdges (vdata h v))"

abbreviation out_list :: "topl_mem \<Rightarrow> ptr \<Rightarrow> ptr list" where
  "out_list h v \<equiv> dynamic_array_list (vd_OutEdges (vdata h v))"

definition vertex_ok :: "topl_mem \<Rightarrow> ptr \<Rightarrow> bool" where
  "vertex_ok h v \<longleftrightarrow> ToplpIsVertex h v \<and> dynamic_array_ok (vd_InEdges (vdata h v)) \<and>
     dynamic_array_ok (vd_OutEdges (vdata h v))"

text \<open>Two memories that agree but for the arrays of edges of some vertices.\<close>

definition forget_arrays :: "LIST_ELEMENT \<Rightarrow> LIST_ELEMENT" where
  "forget_arrays e = e\<lparr>el_VertexData := (el_VertexData e)
     \<lparr>vd_InEdges := DynamicArrayInit, vd_OutEdges := DynamicArrayInit\<rparr>\<rparr>"

definition same_but_arrays :: "ptr set \<Rightarrow> topl_mem \<Rightarrow> topl_mem \<Rightarrow> bool" where
  "same_but_arrays S h h' \<longleftrightarrow> mem_next h' = mem_next h \<and>
     (\<forall>p. map_option forget_arrays (mem_elem h' p) = map_option forget_arrays (mem_elem h p)) \<and>
     (\<forall>p. p \<notin> S \<longrightarrow> mem_elem h' p = mem_elem h p)"

lemma same_but_arrays_upd:
  assumes "p \<in> S" and "\<And>d. (f d)\<lparr>vd_InEdges := DynamicArrayInit, vd_OutEdges := DynamicArrayInit\<rparr> =
      d\<lparr>vd_InEdges := DynamicArrayInit, vd_OutEdges := DynamicArrayInit\<rparr>"
  shows "same_but_arrays S h (upd_vdata p f h)"
  using assms
  by (cases "mem_elem h p") (auto simp: same_but_arrays_def mem_elem_upd_vdata forget_arrays_def)

lemma same_but_arrays_trans:
  "same_but_arrays S h h' \<Longrightarrow> same_but_arrays S h' h'' \<Longrightarrow> same_but_arrays S h h''"
  by (simp add: same_but_arrays_def)

lemma same_but_arrays_forget:
  "same_but_arrays S h h' \<Longrightarrow> mem_elem h p = Some e \<Longrightarrow> \<exists>e'. mem_elem h' p = Some e' \<and> forget_arrays e' = forget_arrays e"
  unfolding same_but_arrays_def by (metis map_option_eq_Some)

lemma forget_arrays_eq:
  assumes "forget_arrays e' = forget_arrays e"
  shows "el_EdgeData e' = el_EdgeData e" "el_ObjectType e' = el_ObjectType e" "el_Link e' = el_Link e"
    "vd_Id (el_VertexData e') = vd_Id (el_VertexData e)"
  using arg_cong [OF assms, of el_EdgeData] arg_cong [OF assms, of el_ObjectType]
    arg_cong [OF assms, of el_Link] arg_cong [OF assms, of "\<lambda>e. vd_Id (el_VertexData e)"]
  by (simp_all add: forget_arrays_def)

lemma same_but_arrays_keeps:
  assumes "same_but_arrays S h h'"
  shows "ToplpIsVertex h' p = ToplpIsVertex h p" "ToplpIsEdge h' p = ToplpIsEdge h p"
    and "mem_elem h p \<noteq> None \<Longrightarrow> edata h' p = edata h p"
proof -
  have "elem_type h' p = elem_type h p"
  proof (cases "mem_elem h p")
    case None
    with assms show ?thesis
      unfolding same_but_arrays_def elem_type_def by (metis map_option_is_None)
  next
    case (Some e)
    with same_but_arrays_forget [OF assms Some] show ?thesis
      by (auto simp: elem_type_def dest: forget_arrays_eq(2))
  qed
  then show "ToplpIsVertex h' p = ToplpIsVertex h p" "ToplpIsEdge h' p = ToplpIsEdge h p"
    by (simp_all add: ToplpIsVertex_def ToplpIsEdge_def)
  show "edata h' p = edata h p" if alive: "mem_elem h p \<noteq> None"
  proof -
    obtain e where e: "mem_elem h p = Some e"
      using alive by blast
    then obtain e' where "mem_elem h' p = Some e'" "forget_arrays e' = forget_arrays e"
      using same_but_arrays_forget [OF assms] by blast
    with e forget_arrays_eq(1) [of e' e] show ?thesis
      by simp
  qed
qed

lemma vertex_ok_alive: "vertex_ok h v \<Longrightarrow> mem_elem h v \<noteq> None"
  using ToplpIsVertex_alive [of h v] by (auto simp: vertex_ok_def)

text \<open>
  The arrays of an edge's vertices before and after it joins them. An edge that leads from a vertex to
  itself counts twice among the outgoing edges and never among the incoming ones.
\<close>

definition joined :: "ptr \<Rightarrow> topl_mem \<Rightarrow> topl_mem \<Rightarrow> bool" where
  "joined e h h' \<longleftrightarrow>
     (let t = ed_To (edata h e); f = ed_From (edata h e)
      in (\<forall>v. in_list h' v = (if v = t \<and> t \<noteq> f then in_list h v @ [e] else in_list h v)) \<and>
         (\<forall>v. out_list h' v = (if v = f then out_list h v @ (if t = f then [e, e] else [e]) else out_list h v)))"

lemma add_array_ok:
  assumes "vertex_ok h v"
  shows "vertex_ok (upd_vdata v (\<lambda>d. d\<lparr>vd_OutEdges := DynamicArrayAdd (vd_OutEdges d) e\<rparr>) h) w = vertex_ok h w"
    and "vertex_ok (upd_vdata v (\<lambda>d. d\<lparr>vd_InEdges := DynamicArrayAdd (vd_InEdges d) e\<rparr>) h) w = vertex_ok h w"
  using assms vertex_ok_alive [OF assms]
  by (auto simp: vertex_ok_def vdata_upd_vdata DynamicArrayAdd_ok)

lemma remove_array_ok:
  assumes "vertex_ok h v"
  shows "vertex_ok (upd_vdata v (\<lambda>d. d\<lparr>vd_OutEdges := DynamicArrayRemove (vd_OutEdges d) e 0\<rparr>) h) w = vertex_ok h w"
    and "vertex_ok (upd_vdata v (\<lambda>d. d\<lparr>vd_InEdges := DynamicArrayRemove (vd_InEdges d) e 0\<rparr>) h) w = vertex_ok h w"
  using assms vertex_ok_alive [OF assms]
  by (auto simp: vertex_ok_def vdata_upd_vdata DynamicArrayRemove_def remove_loop_correct)

lemma ToplpEdgeAssociate_spec:
  assumes e: "mem_elem h e \<noteq> None" and t: "vertex_ok h (ed_To (edata h e))" and f: "vertex_ok h (ed_From (edata h e))"
  obtains h' where "ToplpEdgeAssociate e h = Inr h'" and "joined e h h'"
    and "\<forall>v. vertex_ok h' v = vertex_ok h v"
    and "same_but_arrays {ed_To (edata h e), ed_From (edata h e)} h h'"
proof -
  let ?t = "ed_To (edata h e)" and ?f = "ed_From (edata h e)"
  define out where "out = (\<lambda>d :: VERTEX_DATA. d\<lparr>vd_OutEdges := DynamicArrayAdd (vd_OutEdges d) e\<rparr>)"
  define inn where "inn = (\<lambda>d :: VERTEX_DATA. d\<lparr>vd_InEdges := DynamicArrayAdd (vd_InEdges d) e\<rparr>)"
  define h1 where "h1 = upd_vdata ?t (if ?f = ?t then out else inn) h"
  have isv: "ToplpIsVertex h ?t" "ToplpIsVertex h ?f"
    using t f by (auto simp: vertex_ok_def)
  have alive: "mem_elem h ?t \<noteq> None" "mem_elem h1 ?f \<noteq> None"
    using vertex_ok_alive [OF t] vertex_ok_alive [OF f] by (simp_all add: h1_def)
  have ok1: "vertex_ok h1 v = vertex_ok h v" for v
    using add_array_ok [OF t, of e v] by (simp add: h1_def out_def inn_def)
  have ed1: "edata h1 e = edata h e"
    using alive(1) by (simp add: h1_def)
  have eq: "ToplpEdgeAssociate e h = Inr (upd_vdata ?f out h1)"
    using isv alive ed1
    by (simp add: ToplpEdgeAssociate_def raise_if_def ToplpVertexAddEdge_def ToplpEdgeGetFromVertex_def
        ToplpEdgeGetToVertex_def h1_def out_def inn_def)
  show thesis
  proof (rule that [OF eq])
    show "\<forall>v. vertex_ok (upd_vdata ?f out h1) v = vertex_ok h v"
      using add_array_ok(1) [of h1 ?f e] f ok1 by (simp add: out_def)
    show "same_but_arrays {?t, ?f} h (upd_vdata ?f out h1)"
      by (rule same_but_arrays_trans [of _ h h1]; (unfold h1_def)?; rule same_but_arrays_upd)
        (auto simp: out_def inn_def)
    show "joined e h (upd_vdata ?f out h1)"
      unfolding joined_def Let_def
      using t f alive by (auto simp: vdata_upd_vdata h1_def out_def inn_def DynamicArrayAdd_list vertex_ok_def
          DynamicArrayAdd_ok)
  qed
qed

lemma remove_skipping_last:
  "e \<notin> set xs \<Longrightarrow> remove_skipping e (xs @ [e]) = xs" "e \<notin> set xs \<Longrightarrow> remove_skipping e (xs @ [e, e]) = xs @ [e]"
  by (induction xs) (auto simp: remove_skipping_Cons_other)

lemma ToplpEdgeDisassociate_spec:
  assumes e: "mem_elem h e \<noteq> None" and t: "vertex_ok h (ed_To (edata h e))" and f: "vertex_ok h (ed_From (edata h e))"
    and join: "joined e h0 h" and ed: "edata h0 e = edata h e"
    and new: "e \<notin> set (in_list h0 (ed_To (edata h e)))" "e \<notin> set (out_list h0 (ed_From (edata h e)))"
  obtains h' where "ToplpEdgeDisassociate e h = Inr h'"
    and "\<forall>v. in_list h' v = in_list h0 v \<and> out_list h' v = out_list h0 v"
    and "\<forall>v. vertex_ok h' v = vertex_ok h v"
    and "same_but_arrays {ed_To (edata h e), ed_From (edata h e)} h h'"
proof -
  let ?t = "ed_To (edata h e)" and ?f = "ed_From (edata h e)"
  define out where "out = (\<lambda>d :: VERTEX_DATA. d\<lparr>vd_OutEdges := DynamicArrayRemove (vd_OutEdges d) e 0\<rparr>)"
  define inn where "inn = (\<lambda>d :: VERTEX_DATA. d\<lparr>vd_InEdges := DynamicArrayRemove (vd_InEdges d) e 0\<rparr>)"
  define h1 where "h1 = upd_vdata ?t (if ?f = ?t then out else inn) h"
  have isv: "ToplpIsVertex h ?t" "ToplpIsVertex h ?f"
    using t f by (auto simp: vertex_ok_def)
  have alive: "mem_elem h ?t \<noteq> None" "mem_elem h1 ?f \<noteq> None"
    using vertex_ok_alive [OF t] vertex_ok_alive [OF f] by (simp_all add: h1_def)
  have ok1: "vertex_ok h1 v = vertex_ok h v" for v
    using remove_array_ok [OF t, of e v] by (simp add: h1_def out_def inn_def)
  have ed1: "edata h1 e = edata h e"
    using alive(1) by (simp add: h1_def)
  have eq: "ToplpEdgeDisassociate e h = Inr (upd_vdata ?f out h1)"
    using isv alive ed1
    by (simp add: ToplpEdgeDisassociate_def raise_if_def ToplpVertexRemoveEdge_def ToplpEdgeGetFromVertex_def
        ToplpEdgeGetToVertex_def h1_def out_def inn_def)
  show thesis
  proof (rule that [OF eq])
    show "\<forall>v. vertex_ok (upd_vdata ?f out h1) v = vertex_ok h v"
      using remove_array_ok(1) [of h1 ?f e] f ok1 by (simp add: out_def)
    show "same_but_arrays {?t, ?f} h (upd_vdata ?f out h1)"
      by (rule same_but_arrays_trans [of _ h h1]; (unfold h1_def)?; rule same_but_arrays_upd)
        (auto simp: out_def inn_def)
    have oks: "dynamic_array_ok (vd_InEdges (vdata h ?t))" "dynamic_array_ok (vd_OutEdges (vdata h ?f))"
      using t f by (simp_all add: vertex_ok_def)
    have lists: "in_list h v = (if v = ?t \<and> ?t \<noteq> ?f then in_list h0 v @ [e] else in_list h0 v)"
        "out_list h v = (if v = ?f then out_list h0 v @ (if ?t = ?f then [e, e] else [e]) else out_list h0 v)" for v
      using join by (simp_all add: joined_def ed Let_def)
    have ok2: "dynamic_array_ok (DynamicArrayRemove (vd_OutEdges (vdata h ?f)) e 0)"
      using oks(2) remove_loop_correct by (simp add: DynamicArrayRemove_def)
    show "\<forall>v. in_list (upd_vdata ?f out h1) v = in_list h0 v \<and> out_list (upd_vdata ?f out h1) v = out_list h0 v"
    proof (cases "?t = ?f")
      case True
      then show ?thesis
        using alive oks ok2 new lists
        by (auto simp: vdata_upd_vdata h1_def out_def inn_def DynamicArrayRemove_list remove_skipping_last)
    next
      case False
      then show ?thesis
        using alive oks new lists
        by (auto simp: vdata_upd_vdata h1_def out_def inn_def DynamicArrayRemove_list remove_skipping_last)
    qed
  qed
qed

section \<open>Properties\<close>

text \<open>\<^verbatim>\<open>ToplpEdgeAssociate\<close> followed by \<^verbatim>\<open>ToplpEdgeDisassociate\<close> is a round trip for an edge whose ends are
  vertices that do not hold it yet. Neither call raises. In between, the vertex the edge leaves has it as
  its last outgoing edge and the vertex it enters has it as its last incoming edge; an edge from a vertex
  to itself is put twice among the outgoing edges and not among the incoming ones. Afterwards every
  array holds the edges it held before, and nothing else has changed.\<close>

theorem edge_associate_roundtrip:
  assumes "mem_elem h e \<noteq> None" and "t = ed_To (edata h e)" and "f = ed_From (edata h e)"
    and "vertex_ok h t" and "vertex_ok h f" and "e \<notin> set (in_list h t)" and "e \<notin> set (out_list h f)"
  shows "\<exists>h1 h2. ToplpEdgeAssociate e h = Inr h1 \<and> ToplpEdgeDisassociate e h1 = Inr h2 \<and>
    in_list h1 t = in_list h t @ (if t = f then [] else [e]) \<and>
    out_list h1 f = out_list h f @ (if t = f then [e, e] else [e]) \<and>
    (\<forall>v. in_list h2 v = in_list h v \<and> out_list h2 v = out_list h v \<and> vertex_ok h2 v = vertex_ok h v) \<and>
    same_but_arrays {t, f} h h2"
proof -
  obtain h1 where one: "ToplpEdgeAssociate e h = Inr h1" "joined e h h1" "\<forall>v. vertex_ok h1 v = vertex_ok h v"
      "same_but_arrays {t, f} h h1"
    using assms ToplpEdgeAssociate_spec [of h e] by metis
  have alive: "mem_elem h1 e \<noteq> None"
    using one(4) assms(1) unfolding same_but_arrays_def by (metis map_option_is_None)
  have ed: "edata h1 e = edata h e"
    by (rule same_but_arrays_keeps(3) [OF one(4) assms(1)])
  obtain h2 where "ToplpEdgeDisassociate e h1 = Inr h2"
      "\<forall>v. in_list h2 v = in_list h v \<and> out_list h2 v = out_list h v" "\<forall>v. vertex_ok h2 v = vertex_ok h1 v"
      "same_but_arrays {t, f} h1 h2"
    using ToplpEdgeDisassociate_spec [OF alive _ _ one(2) ed [symmetric]] one(3) assms(2-7) ed by metis
  then show ?thesis
    using one same_but_arrays_trans [OF one(4)] assms(2,3) by (auto simp: joined_def Let_def)
qed

definition one_loop :: topl_mem where
  "one_loop = \<lparr>mem_elem = [1 \<mapsto> zero_elem eVertex,
     2 \<mapsto> (zero_elem eEdge)\<lparr>el_EdgeData := \<lparr>ed_To = 1, ed_From = 1, ed_Weight = 0\<rparr>\<rparr>], mem_next = 3\<rparr>"

theorem edge_associate_roundtrip_witness:
  "\<exists>h1 h2. ToplpEdgeAssociate 2 one_loop = Inr h1 \<and> ToplpEdgeDisassociate 2 h1 = Inr h2 \<and>
     out_list h1 1 = [2, 2] \<and> in_list h1 1 = [] \<and> out_list h2 1 = []"
proof -
  have "vertex_ok one_loop 1" "in_list one_loop 1 = []" "out_list one_loop 1 = []"
      "ed_To (edata one_loop 2) = 1" "ed_From (edata one_loop 2) = 1" "mem_elem one_loop 2 \<noteq> None"
    by (simp_all add: vertex_ok_def one_loop_def zero_elem_def ToplpIsVertex_def elem_type_def DynamicArrayInit_ok)
  with edge_associate_roundtrip [of one_loop 2 1 1] show ?thesis
    by fastforce
qed

end
