(* ===== verification/Topl_Wrappers.thy ===== *)
theory Topl_Wrappers
  imports Topl_Objects
begin

text \<open>
  The public object interface, \<^verbatim>\<open>ds/src/common/w32topl/w32topl.c\<close>: every routine checks the types of its
  arguments, raises \<^verbatim>\<open>TOPL_EX_WRONG_OBJECT\<close> if one is wrong, and calls the private routine. A
  routine that may loop on a damaged list returns an option, \<open>None\<close> being the endless loop. The
  routines that make a ring or a spanning tree are in their own theories.
\<close>

section \<open>Lists and iterators\<close>

definition wrong_object_if :: "bool \<Rightarrow> unit topl" where
  "wrong_object_if b = raise_if b TOPL_EX_WRONG_OBJECT"

definition ToplListCreate :: LIST where
  "ToplListCreate = ToplpListCreate"

definition ToplListFree :: "LIST option \<Rightarrow> bool \<Rightarrow> topl_mem \<Rightarrow> topl_mem topl option" where
  "ToplListFree List fRecursive h =
     (if \<not> ToplpIsList List then Some (Inl TOPL_EX_WRONG_OBJECT)
      else map_option Inr (ToplpListFree (the List) fRecursive h))"

definition ToplListSetIter :: "LIST option \<Rightarrow> ITERATOR option \<Rightarrow> ITERATOR topl" where
  "ToplListSetIter List Iterator =
     bindE (wrong_object_if (\<not> ToplpIsList List \<or> \<not> ToplpIsIterator Iterator)) (\<lambda>_.
     Inr (ToplpListSetIter (the List) (the Iterator)))"

definition ToplListRemoveElem :: "LIST option \<Rightarrow> ptr \<Rightarrow> topl_mem \<Rightarrow> (ptr \<times> LIST \<times> topl_mem) topl option" where
  "ToplListRemoveElem List Elem h =
     (if \<not> ToplpIsList List then Some (Inl TOPL_EX_WRONG_OBJECT)
      else if Elem \<noteq> NULL \<and> \<not> ToplpIsListElement h Elem then Some (Inl TOPL_EX_WRONG_OBJECT)
      else map_option Inr (ToplpListRemoveElem (the List) Elem h))"

definition ToplListAddElem :: "LIST option \<Rightarrow> ptr \<Rightarrow> topl_mem \<Rightarrow> (LIST \<times> topl_mem) topl" where
  "ToplListAddElem List Elem h =
     bindE (wrong_object_if (\<not> ToplpIsList List \<or> \<not> ToplpIsListElement h Elem)) (\<lambda>_.
     Inr (ToplpListAddElem (the List) Elem h))"

definition ToplListNumberOfElements :: "LIST option \<Rightarrow> dword topl" where
  "ToplListNumberOfElements List =
     bindE (wrong_object_if (\<not> ToplpIsList List)) (\<lambda>_. Inr (ToplpListNumberOfElements (the List)))"

definition ToplIterCreate :: ITERATOR where
  "ToplIterCreate = ToplpIterCreate"

definition ToplIterFree :: "ITERATOR option \<Rightarrow> unit topl" where
  "ToplIterFree Iterator = wrong_object_if (\<not> ToplpIsIterator Iterator)"

definition ToplIterGetObject :: "ITERATOR option \<Rightarrow> ptr topl" where
  "ToplIterGetObject Iterator =
     bindE (wrong_object_if (\<not> ToplpIsIterator Iterator)) (\<lambda>_. Inr (ToplpIterGetObject (the Iterator)))"

definition ToplIterAdvance :: "ITERATOR option \<Rightarrow> topl_mem \<Rightarrow> ITERATOR topl" where
  "ToplIterAdvance Iterator h =
     bindE (wrong_object_if (\<not> ToplpIsIterator Iterator)) (\<lambda>_. Inr (ToplpIterAdvance (the Iterator) h))"

section \<open>Edges\<close>

definition ToplEdgeCreate :: "topl_mem \<Rightarrow> ptr \<times> topl_mem" where
  "ToplEdgeCreate h = ToplpEdgeCreate NULL h"

definition ToplEdgeFree :: "ptr \<Rightarrow> topl_mem \<Rightarrow> topl_mem topl" where
  "ToplEdgeFree Edge h =
     bindE (wrong_object_if (\<not> ToplpIsEdge h Edge)) (\<lambda>_. Inr (ToplpEdgeDestroy Edge True h))"

definition ToplEdgeInit :: "ptr \<Rightarrow> topl_mem \<Rightarrow> topl_mem topl" where
  "ToplEdgeInit E h = bindE (wrong_object_if (E = NULL)) (\<lambda>_. Inr (snd (ToplpEdgeCreate E h)))"

definition ToplEdgeDestroy :: "ptr \<Rightarrow> topl_mem \<Rightarrow> topl_mem topl" where
  "ToplEdgeDestroy E h =
     bindE (wrong_object_if (\<not> ToplpIsEdge h E)) (\<lambda>_. Inr (ToplpEdgeDestroy E False h))"

definition ToplEdgeSetToVertex :: "ptr \<Rightarrow> ptr \<Rightarrow> topl_mem \<Rightarrow> topl_mem topl" where
  "ToplEdgeSetToVertex Edge ToVertex h =
     bindE (wrong_object_if (\<not> ToplpIsEdge h Edge)) (\<lambda>_.
     bindE (wrong_object_if (ToVertex \<noteq> NULL \<and> \<not> ToplpIsVertex h ToVertex)) (\<lambda>_.
     Inr (ToplpEdgeSetToVertex Edge ToVertex h)))"

definition ToplEdgeGetToVertex :: "ptr \<Rightarrow> topl_mem \<Rightarrow> ptr topl" where
  "ToplEdgeGetToVertex Edge h =
     bindE (wrong_object_if (\<not> ToplpIsEdge h Edge)) (\<lambda>_. Inr (ToplpEdgeGetToVertex h Edge))"

definition ToplEdgeSetFromVertex :: "ptr \<Rightarrow> ptr \<Rightarrow> topl_mem \<Rightarrow> topl_mem topl" where
  "ToplEdgeSetFromVertex Edge FromVertex h =
     bindE (wrong_object_if (\<not> ToplpIsEdge h Edge)) (\<lambda>_.
     bindE (wrong_object_if (FromVertex \<noteq> NULL \<and> \<not> ToplpIsVertex h FromVertex)) (\<lambda>_.
     Inr (ToplpEdgeSetFromVertex Edge FromVertex h)))"

definition ToplEdgeGetFromVertex :: "ptr \<Rightarrow> topl_mem \<Rightarrow> ptr topl" where
  "ToplEdgeGetFromVertex Edge h =
     bindE (wrong_object_if (\<not> ToplpIsEdge h Edge)) (\<lambda>_. Inr (ToplpEdgeGetFromVertex h Edge))"

definition ToplEdgeAssociate :: "ptr \<Rightarrow> topl_mem \<Rightarrow> topl_mem topl" where
  "ToplEdgeAssociate Edge h =
     bindE (wrong_object_if (\<not> ToplpIsEdge h Edge)) (\<lambda>_. ToplpEdgeAssociate Edge h)"

definition ToplEdgeDisassociate :: "ptr \<Rightarrow> topl_mem \<Rightarrow> topl_mem topl" where
  "ToplEdgeDisassociate Edge h =
     bindE (wrong_object_if (\<not> ToplpIsEdge h Edge)) (\<lambda>_. ToplpEdgeDisassociate Edge h)"

text \<open>The largest value is the sentinel of the spanning-tree algorithm and is lowered by one.\<close>

definition DWORD_INFINITY :: dword where
  "DWORD_INFINITY = NOT 0"

definition ToplEdgeSetWeight :: "ptr \<Rightarrow> dword \<Rightarrow> topl_mem \<Rightarrow> topl_mem topl" where
  "ToplEdgeSetWeight Edge Weight h =
     bindE (wrong_object_if (\<not> ToplpIsEdge h Edge)) (\<lambda>_.
     let ValidWeight = (if Weight = DWORD_INFINITY then Weight - 1 else Weight)
     in Inr (ToplpEdgeSetWeight Edge ValidWeight h))"

definition ToplEdgeGetWeight :: "ptr \<Rightarrow> topl_mem \<Rightarrow> dword topl" where
  "ToplEdgeGetWeight Edge h =
     bindE (wrong_object_if (\<not> ToplpIsEdge h Edge)) (\<lambda>_. Inr (ToplpEdgeGetWeight h Edge))"

section \<open>Vertices\<close>

definition ToplVertexCreate :: "topl_mem \<Rightarrow> ptr \<times> topl_mem" where
  "ToplVertexCreate h = ToplpVertexCreate NULL h"

definition ToplVertexFree :: "ptr \<Rightarrow> topl_mem \<Rightarrow> topl_mem topl" where
  "ToplVertexFree Vertex h =
     bindE (wrong_object_if (\<not> ToplpIsVertex h Vertex)) (\<lambda>_. Inr (ToplpVertexDestroy Vertex True h))"

definition ToplVertexInit :: "ptr \<Rightarrow> topl_mem \<Rightarrow> topl_mem topl" where
  "ToplVertexInit V h = bindE (wrong_object_if (V = NULL)) (\<lambda>_. Inr (snd (ToplpVertexCreate V h)))"

definition ToplVertexDestroy :: "ptr \<Rightarrow> topl_mem \<Rightarrow> topl_mem topl" where
  "ToplVertexDestroy V h =
     bindE (wrong_object_if (\<not> ToplpIsVertex h V)) (\<lambda>_. Inr (ToplpVertexDestroy V False h))"

definition ToplVertexSetId :: "ptr \<Rightarrow> dword \<Rightarrow> topl_mem \<Rightarrow> topl_mem topl" where
  "ToplVertexSetId Vertex NewId h =
     bindE (wrong_object_if (\<not> ToplpIsVertex h Vertex)) (\<lambda>_. Inr (ToplpVertexSetId Vertex NewId h))"

definition ToplVertexGetId :: "ptr \<Rightarrow> topl_mem \<Rightarrow> dword topl" where
  "ToplVertexGetId Vertex h =
     bindE (wrong_object_if (\<not> ToplpIsVertex h Vertex)) (\<lambda>_. Inr (ToplpVertexGetId h Vertex))"

definition ToplVertexNumberOfInEdges :: "ptr \<Rightarrow> topl_mem \<Rightarrow> nat topl" where
  "ToplVertexNumberOfInEdges Vertex h =
     bindE (wrong_object_if (\<not> ToplpIsVertex h Vertex)) (\<lambda>_. Inr (ToplpVertexNumberOfInEdges h Vertex))"

definition ToplVertexGetInEdge :: "ptr \<Rightarrow> dword \<Rightarrow> topl_mem \<Rightarrow> ptr topl" where
  "ToplVertexGetInEdge Vertex Index h =
     bindE (wrong_object_if (\<not> ToplpIsVertex h Vertex)) (\<lambda>_. ToplpVertexGetInEdge h Vertex Index)"

definition ToplVertexNumberOfOutEdges :: "ptr \<Rightarrow> topl_mem \<Rightarrow> nat topl" where
  "ToplVertexNumberOfOutEdges Vertex h =
     bindE (wrong_object_if (\<not> ToplpIsVertex h Vertex)) (\<lambda>_. Inr (ToplpVertexNumberOfOutEdges h Vertex))"

definition ToplVertexGetOutEdge :: "ptr \<Rightarrow> dword \<Rightarrow> topl_mem \<Rightarrow> ptr topl" where
  "ToplVertexGetOutEdge Vertex Index h =
     bindE (wrong_object_if (\<not> ToplpIsVertex h Vertex)) (\<lambda>_. ToplpVertexGetOutEdge h Vertex Index)"

text \<open>The second test of \<^verbatim>\<open>ToplVertexSetParent\<close> looks at the vertex again, not at the parent.\<close>

definition ToplVertexSetParent :: "ptr \<Rightarrow> ptr \<Rightarrow> topl_mem \<Rightarrow> topl_mem topl" where
  "ToplVertexSetParent Vertex Parent h =
     bindE (wrong_object_if (\<not> ToplpIsVertex h Vertex)) (\<lambda>_.
     bindE (wrong_object_if (Parent \<noteq> NULL \<and> \<not> ToplpIsVertex h Vertex)) (\<lambda>_.
     Inr (ToplpVertexSetParent Vertex Parent h)))"

definition ToplVertexGetParent :: "ptr \<Rightarrow> topl_mem \<Rightarrow> ptr topl" where
  "ToplVertexGetParent Vertex h =
     bindE (wrong_object_if (\<not> ToplpIsVertex h Vertex)) (\<lambda>_. Inr (ToplpVertexGetParent h Vertex))"

section \<open>Graphs\<close>

definition ToplGraphCreate :: GRAPH where
  "ToplGraphCreate = ToplpGraphCreate"

definition ToplGraphFree :: "GRAPH option \<Rightarrow> bool \<Rightarrow> topl_mem \<Rightarrow> (GRAPH option \<times> topl_mem) topl option" where
  "ToplGraphFree Graph fRecursive h =
     (if \<not> ToplpIsGraph Graph then Some (Inl TOPL_EX_WRONG_OBJECT)
      else map_option Inr (ToplpGraphDestroy (the Graph) True fRecursive h))"

definition ToplGraphInit :: "GRAPH option \<Rightarrow> GRAPH topl" where
  "ToplGraphInit G = bindE (wrong_object_if (G = None)) (\<lambda>_. Inr ToplpGraphCreate)"

definition ToplGraphDestroy :: "GRAPH option \<Rightarrow> topl_mem \<Rightarrow> (GRAPH option \<times> topl_mem) topl option" where
  "ToplGraphDestroy G h =
     (if \<not> ToplpIsGraph G then Some (Inl TOPL_EX_WRONG_OBJECT)
      else map_option Inr (ToplpGraphDestroy (the G) False False h))"

definition ToplGraphAddVertex :: "GRAPH option \<Rightarrow> ptr \<Rightarrow> ptr \<Rightarrow> topl_mem \<Rightarrow> (GRAPH \<times> topl_mem) topl" where
  "ToplGraphAddVertex Graph VertexToAdd VertexName h =
     bindE (wrong_object_if (\<not> ToplpIsGraph Graph \<or> \<not> ToplpIsVertex h VertexToAdd)) (\<lambda>_.
     let h = upd_vdata VertexToAdd (\<lambda>d. d\<lparr>vd_VertexName := VertexName\<rparr>) h
     in Inr (ToplpGraphAddVertex (the Graph) VertexToAdd h))"

definition ToplGraphRemoveVertex :: "GRAPH option \<Rightarrow> ptr \<Rightarrow> topl_mem \<Rightarrow> (ptr \<times> GRAPH \<times> topl_mem) topl option" where
  "ToplGraphRemoveVertex Graph VertexToRemove h =
     (if \<not> ToplpIsGraph Graph then Some (Inl TOPL_EX_WRONG_OBJECT)
      else if VertexToRemove \<noteq> NULL \<and> \<not> ToplpIsVertex h VertexToRemove then Some (Inl TOPL_EX_WRONG_OBJECT)
      else map_option Inr (ToplpGraphRemoveVertex (the Graph) VertexToRemove h))"

definition ToplGraphSetVertexIter :: "GRAPH option \<Rightarrow> ITERATOR option \<Rightarrow> ITERATOR topl" where
  "ToplGraphSetVertexIter Graph Iter =
     bindE (wrong_object_if (\<not> ToplpIsGraph Graph \<or> \<not> ToplpIsIterator Iter)) (\<lambda>_.
     Inr (ToplpGraphSetVertexIter (the Graph) (the Iter)))"

definition ToplGraphNumberOfVertices :: "GRAPH option \<Rightarrow> dword topl" where
  "ToplGraphNumberOfVertices Graph =
     bindE (wrong_object_if (\<not> ToplpIsGraph Graph)) (\<lambda>_. Inr (ToplpGraphNumberOfVertices (the Graph)))"

section \<open>Well-formed objects\<close>

text \<open>
  What holds of the elements in memory when clients keep to the interface: arrays hold edges that
  lead from, or to, their vertex, and no edge has the sentinel as its weight.
\<close>

definition edge_leaves :: "topl_mem \<Rightarrow> ptr \<Rightarrow> ptr \<Rightarrow> bool" where
  "edge_leaves h v e \<longleftrightarrow> ToplpIsEdge h e \<and> ToplpEdgeGetFromVertex h e = v \<and> ToplpIsVertex h (ToplpEdgeGetToVertex h e)"

definition edge_enters :: "topl_mem \<Rightarrow> ptr \<Rightarrow> ptr \<Rightarrow> bool" where
  "edge_enters h v e \<longleftrightarrow> ToplpIsEdge h e \<and> ToplpEdgeGetToVertex h e = v \<and> ToplpIsVertex h (ToplpEdgeGetFromVertex h e)"

definition objects_ok :: "topl_mem \<Rightarrow> bool" where
  "objects_ok h \<longleftrightarrow>
     (0 < mem_next h \<and> mem_elem h NULL = None \<and> (\<forall>p\<ge>mem_next h. mem_elem h p = None)) \<and>
     (\<forall>v. ToplpIsVertex h v \<longrightarrow>
        vertex_ok h v \<and> (\<forall>e\<in>set (out_list h v). edge_leaves h v e) \<and> (\<forall>e\<in>set (in_list h v). edge_enters h v e)) \<and>
     (\<forall>e. ToplpIsEdge h e \<longrightarrow> ToplpEdgeGetWeight h e \<noteq> DWORD_INFINITY)"

text \<open>
  \<open>graph_holds h g xs\<close>: the graph object has the vertices \<open>xs\<close>. The accessors of edges treat their
  index as a signed number, so the loops need fewer than \<open>2 ^ 31\<close> edges at a vertex.
\<close>

definition graph_holds :: "topl_mem \<Rightarrow> GRAPH \<Rightarrow> ptr list \<Rightarrow> bool" where
  "graph_holds h g xs \<longleftrightarrow> gr_ObjectType g = eGraph \<and> list_ok (gr_VertexList g) h xs \<and>
     (\<forall>v\<in>set xs. ToplpIsVertex h v)"

definition few_edges :: "topl_mem \<Rightarrow> ptr list \<Rightarrow> bool" where
  "few_edges h xs \<longleftrightarrow> (\<forall>v\<in>set xs. length (out_list h v) < 2 ^ 31 \<and> length (in_list h v) < 2 ^ 31)"

lemma objects_ok_vertex: "objects_ok h \<Longrightarrow> ToplpIsVertex h v \<Longrightarrow> vertex_ok h v"
  by (simp add: objects_ok_def)

lemma objects_ok_out: "objects_ok h \<Longrightarrow> ToplpIsVertex h v \<Longrightarrow> e \<in> set (out_list h v) \<Longrightarrow> edge_leaves h v e"
  by (simp add: objects_ok_def)

lemma objects_ok_in: "objects_ok h \<Longrightarrow> ToplpIsVertex h v \<Longrightarrow> e \<in> set (in_list h v) \<Longrightarrow> edge_enters h v e"
  by (simp add: objects_ok_def)

lemma objects_ok_below: "objects_ok h \<Longrightarrow> mem_elem h p \<noteq> None \<Longrightarrow> p < mem_next h \<and> p \<noteq> NULL"
  unfolding objects_ok_def by (metis not_le)

lemma ToplpIsEdge_alive: "ToplpIsEdge h p \<Longrightarrow> mem_elem h p \<noteq> None"
  using alive_type [of h p] by (auto simp: ToplpIsEdge_def)

lemma not_bad_index: "i < n \<Longrightarrow> n < 2 ^ 31 \<Longrightarrow> \<not> bad_index (of_nat i) n \<and> unat (of_nat i :: dword) = i"
proof -
  assume i: "i < n" "n < 2 ^ 31"
  then have u: "unat (of_nat i :: dword) = i"
    by (simp add: unsigned_of_nat take_bit_nat_eq_self)
  have "sint (of_nat i :: dword) = signed_take_bit 31 (int i)"
    by (simp add: signed_of_nat)
  also have "\<dots> = int i"
    using i by (intro signed_take_bit_int_eq_self) auto
  finally have "sint (of_nat i :: dword) = int i" .
  with i u show ?thesis
    by (simp add: bad_index_def)
qed

section \<open>Clients of the interface\<close>

definition unassociated :: "topl_mem \<Rightarrow> ptr \<Rightarrow> bool" where
  "unassociated h e \<longleftrightarrow> (\<forall>v. ToplpIsVertex h v \<longrightarrow> e \<notin> set (out_list h v) \<and> e \<notin> set (in_list h v))"

definition isolated :: "topl_mem \<Rightarrow> ptr \<Rightarrow> bool" where
  "isolated h v \<longleftrightarrow>
     (\<forall>w. ToplpIsVertex h w \<longrightarrow>
        (\<forall>e\<in>set (out_list h w). ToplpEdgeGetToVertex h e \<noteq> v) \<and> (\<forall>e\<in>set (in_list h w). ToplpEdgeGetFromVertex h e \<noteq> v))"

text \<open>
  What a client can reach that builds a graph, starting from no objects, and that changes the ends of an
  edge, or frees it, only while no vertex holds it, adds a vertex once, and frees a vertex only when the
  graph does not hold it and no edge leads to or from it.
\<close>

inductive object_reach :: "topl_mem \<Rightarrow> GRAPH \<Rightarrow> ptr list \<Rightarrow> bool" where
  start: "object_reach empty_mem ToplGraphCreate []"
| new_vertex: "object_reach h g xs \<Longrightarrow> ToplVertexCreate h = (v, h') \<Longrightarrow> object_reach h' g xs"
| new_edge: "object_reach h g xs \<Longrightarrow> ToplEdgeCreate h = (e, h') \<Longrightarrow> object_reach h' g xs"
| set_to: "object_reach h g xs \<Longrightarrow> unassociated h e \<Longrightarrow> ToplEdgeSetToVertex e v h = Inr h' \<Longrightarrow> object_reach h' g xs"
| set_from: "object_reach h g xs \<Longrightarrow> unassociated h e \<Longrightarrow> ToplEdgeSetFromVertex e v h = Inr h' \<Longrightarrow> object_reach h' g xs"
| set_weight: "object_reach h g xs \<Longrightarrow> ToplEdgeSetWeight e w h = Inr h' \<Longrightarrow> object_reach h' g xs"
| set_id: "object_reach h g xs \<Longrightarrow> ToplVertexSetId v i h = Inr h' \<Longrightarrow> object_reach h' g xs"
| set_parent: "object_reach h g xs \<Longrightarrow> ToplVertexSetParent v p h = Inr h' \<Longrightarrow> object_reach h' g xs"
| associate: "object_reach h g xs \<Longrightarrow> ToplEdgeAssociate e h = Inr h' \<Longrightarrow> object_reach h' g xs"
| disassociate: "object_reach h g xs \<Longrightarrow> ToplEdgeDisassociate e h = Inr h' \<Longrightarrow> object_reach h' g xs"
| add_vertex: "object_reach h g xs \<Longrightarrow> v \<notin> set xs \<Longrightarrow> ToplGraphAddVertex (Some g) v name h = Inr (g', h') \<Longrightarrow>
    object_reach h' g' (v # xs)"
| remove_vertex: "object_reach h g xs \<Longrightarrow> ToplGraphRemoveVertex (Some g) v h = Some (Inr (p, g', h')) \<Longrightarrow>
    object_reach h' g' (snd (abs_remove v xs))"
| free_edge: "object_reach h g xs \<Longrightarrow> unassociated h e \<Longrightarrow> ToplEdgeFree e h = Inr h' \<Longrightarrow> object_reach h' g xs"
| free_vertex: "object_reach h g xs \<Longrightarrow> v \<notin> set xs \<Longrightarrow> isolated h v \<Longrightarrow> ToplVertexFree v h = Inr h' \<Longrightarrow>
    object_reach h' g xs"

text \<open>Memories that differ in links, ids, parents, names and in edges added to or removed from arrays.\<close>

lemma objects_ok_arrays:
  assumes ok: "objects_ok h" and nxt: "mem_next h' = mem_next h"
    and alive: "\<And>p. mem_elem h' p = None \<longleftrightarrow> mem_elem h p = None"
    and ty: "\<And>p. elem_type h' p = elem_type h p"
    and ed: "\<And>e. ToplpIsEdge h e \<Longrightarrow> ToplpEdgeGetFromVertex h' e = ToplpEdgeGetFromVertex h e \<and>
      ToplpEdgeGetToVertex h' e = ToplpEdgeGetToVertex h e \<and> ToplpEdgeGetWeight h' e \<noteq> DWORD_INFINITY"
    and arr: "\<And>v. ToplpIsVertex h v \<Longrightarrow> vertex_ok h' v \<and>
      set (out_list h' v) \<subseteq> set (out_list h v) \<union> {e. edge_leaves h v e} \<and>
      set (in_list h' v) \<subseteq> set (in_list h v) \<union> {e. edge_enters h v e}"
  shows "objects_ok h'"
proof -
  have isv: "ToplpIsVertex h' p = ToplpIsVertex h p" and ise: "ToplpIsEdge h' p = ToplpIsEdge h p" for p
    by (simp_all add: ToplpIsVertex_def ToplpIsEdge_def ty)
  have lv: "edge_leaves h' v e = edge_leaves h v e" and en: "edge_enters h' v e = edge_enters h v e" for v e
    using ed [of e] by (auto simp: edge_leaves_def edge_enters_def isv ise)
  have "edge_leaves h v e" if "ToplpIsVertex h v" "e \<in> set (out_list h' v)" for v e
    using arr [OF that(1)] objects_ok_out [OF ok that(1), of e] that(2) by auto
  moreover have "edge_enters h v e" if "ToplpIsVertex h v" "e \<in> set (in_list h' v)" for v e
    using arr [OF that(1)] objects_ok_in [OF ok that(1), of e] that(2) by auto
  moreover have "vertex_ok h' v" if "ToplpIsVertex h v" for v
    using arr [OF that] by simp
  ultimately show ?thesis
    using ok ed by (simp add: objects_ok_def nxt alive isv ise lv en)
qed

lemma edge_fields_same:
  assumes "objects_ok h" and "ToplpIsEdge h e" and "edata h' e = edata h e"
  shows "ToplpEdgeGetFromVertex h' e = ToplpEdgeGetFromVertex h e \<and>
    ToplpEdgeGetToVertex h' e = ToplpEdgeGetToVertex h e \<and> ToplpEdgeGetWeight h' e \<noteq> DWORD_INFINITY"
  using assms by (simp add: objects_ok_def ToplpEdgeGetFromVertex_def ToplpEdgeGetToVertex_def ToplpEdgeGetWeight_def)

lemma objects_ok_upd_vdata:
  assumes ok: "objects_ok h" and v: "mem_elem h v \<noteq> None"
    and f: "\<And>d. vd_InEdges (f d) = vd_InEdges d" "\<And>d. vd_OutEdges (f d) = vd_OutEdges d"
  shows "objects_ok (upd_vdata v f h)"
proof (rule objects_ok_arrays [OF ok])
  fix w assume w: "ToplpIsVertex h w"
  have "vd_InEdges (vdata (upd_vdata v f h) w) = vd_InEdges (vdata h w)"
    "vd_OutEdges (vdata (upd_vdata v f h) w) = vd_OutEdges (vdata h w)"
    using v by (auto simp: vdata_upd_vdata f)
  then show "vertex_ok (upd_vdata v f h) w \<and>
      set (out_list (upd_vdata v f h) w) \<subseteq> set (out_list h w) \<union> {e. edge_leaves h w e} \<and>
      set (in_list (upd_vdata v f h) w) \<subseteq> set (in_list h w) \<union> {e. edge_enters h w e}"
    using objects_ok_vertex [OF ok w] by (auto simp: vertex_ok_def)
next
  show "ToplpIsEdge h e \<Longrightarrow> ToplpEdgeGetFromVertex (upd_vdata v f h) e = ToplpEdgeGetFromVertex h e \<and>
      ToplpEdgeGetToVertex (upd_vdata v f h) e = ToplpEdgeGetToVertex h e \<and>
      ToplpEdgeGetWeight (upd_vdata v f h) e \<noteq> DWORD_INFINITY" for e
    using v by (intro edge_fields_same [OF ok]) simp_all
qed (use v in simp_all)

lemma set_Next_frame:
  "mem_next (set_Next p q h) = mem_next h" "mem_elem (set_Next p q h) r = None \<longleftrightarrow> mem_elem h r = None"
  "elem_type (set_Next p q h) r = elem_type h r"
  "mem_elem h r \<noteq> None \<Longrightarrow> edata (set_Next p q h) r = edata h r \<and> vdata (set_Next p q h) r = vdata h r"
  by (auto simp: set_Next_def elem_type_def split: option.splits)

lemma objects_ok_set_Next: "objects_ok h \<Longrightarrow> objects_ok (set_Next p q h)"
proof (rule objects_ok_arrays)
  fix v assume ok: "objects_ok h" and v: "ToplpIsVertex h v"
  then show "vertex_ok (set_Next p q h) v \<and>
      set (out_list (set_Next p q h) v) \<subseteq> set (out_list h v) \<union> {e. edge_leaves h v e} \<and>
      set (in_list (set_Next p q h) v) \<subseteq> set (in_list h v) \<union> {e. edge_enters h v e}"
    using objects_ok_vertex [OF ok v] ToplpIsVertex_alive [OF v] set_Next_frame(3,4)
    by (auto simp: vertex_ok_def ToplpIsVertex_def)
next
  fix e assume ok: "objects_ok h" and e: "ToplpIsEdge h e"
  show "ToplpEdgeGetFromVertex (set_Next p q h) e = ToplpEdgeGetFromVertex h e \<and>
      ToplpEdgeGetToVertex (set_Next p q h) e = ToplpEdgeGetToVertex h e \<and>
      ToplpEdgeGetWeight (set_Next p q h) e \<noteq> DWORD_INFINITY"
    using set_Next_frame(4) [OF ToplpIsEdge_alive [OF e]] by (intro edge_fields_same [OF ok e]) simp
qed (simp_all add: set_Next_frame)

text \<open>A change at one address that nothing in the arrays refers to.\<close>

lemma objects_ok_change:
  assumes ok: "objects_ok h" and nxt: "0 < mem_next h'" "mem_elem h' NULL = None" "\<And>p. mem_next h' \<le> p \<Longrightarrow> mem_elem h' p = None"
    and same: "\<And>p. p \<noteq> t \<Longrightarrow> mem_elem h' p = mem_elem h p"
    and out: "\<And>w e. ToplpIsVertex h w \<Longrightarrow> w \<noteq> t \<Longrightarrow> e \<in> set (out_list h w) \<Longrightarrow> e \<noteq> t \<and> ToplpEdgeGetToVertex h e \<noteq> t"
    and inn: "\<And>w e. ToplpIsVertex h w \<Longrightarrow> w \<noteq> t \<Longrightarrow> e \<in> set (in_list h w) \<Longrightarrow> e \<noteq> t \<and> ToplpEdgeGetFromVertex h e \<noteq> t"
    and vt: "ToplpIsVertex h' t \<Longrightarrow> vertex_ok h' t \<and> out_list h' t = [] \<and> in_list h' t = []"
    and et: "ToplpIsEdge h' t \<Longrightarrow> ToplpEdgeGetWeight h' t \<noteq> DWORD_INFINITY"
  shows "objects_ok h'"
proof -
  have cell: "ToplpIsVertex h' p = ToplpIsVertex h p" "ToplpIsEdge h' p = ToplpIsEdge h p" "edata h' p = edata h p"
    "vdata h' p = vdata h p" if "p \<noteq> t" for p
    using same [OF that] by (simp_all add: ToplpIsVertex_def ToplpIsEdge_def elem_type_def)
  have v: "vertex_ok h' w \<and> (\<forall>e\<in>set (out_list h' w). edge_leaves h' w e) \<and> (\<forall>e\<in>set (in_list h' w). edge_enters h' w e)"
    if w: "ToplpIsVertex h' w" for w
  proof (cases "w = t")
    case True
    with w vt show ?thesis by simp
  next
    case False
    with w cell have w: "ToplpIsVertex h w" by simp
    have "edge_leaves h' w e" if "e \<in> set (out_list h w)" for e
      using objects_ok_out [OF ok w that] out [OF w False that] cell
      by (simp add: edge_leaves_def ToplpEdgeGetFromVertex_def ToplpEdgeGetToVertex_def)
    moreover have "edge_enters h' w e" if "e \<in> set (in_list h w)" for e
      using objects_ok_in [OF ok w that] inn [OF w False that] cell
      by (simp add: edge_enters_def ToplpEdgeGetFromVertex_def ToplpEdgeGetToVertex_def)
    ultimately show ?thesis
      using objects_ok_vertex [OF ok w] cell [OF False] by (simp add: vertex_ok_def)
  qed
  have "ToplpEdgeGetWeight h' e \<noteq> DWORD_INFINITY" if "ToplpIsEdge h' e" for e
    using that et cell [of e] ok by (cases "e = t") (auto simp: objects_ok_def ToplpEdgeGetWeight_def)
  with v nxt show ?thesis
    by (simp add: objects_ok_def)
qed

lemma objects_ok_alloc:
  assumes ok: "objects_ok h"
  shows "objects_ok (snd (ToplVertexCreate h))" and "objects_ok (snd (ToplEdgeCreate h))"
proof -
  have dead: "mem_elem h (mem_next h) = None" "mem_next h \<noteq> NULL"
    using ok by (auto simp: objects_ok_def)
  have not_v: "\<not> ToplpIsVertex h (mem_next h)" and not_e: "\<not> ToplpIsEdge h (mem_next h)"
    using dead by (auto simp: ToplpIsVertex_def ToplpIsEdge_def elem_type_def)
  have out: "e \<noteq> mem_next h \<and> ToplpEdgeGetToVertex h e \<noteq> mem_next h" if "ToplpIsVertex h w" "e \<in> set (out_list h w)" for w e
    using objects_ok_out [OF ok that] not_v not_e by (auto simp: edge_leaves_def)
  have inn: "e \<noteq> mem_next h \<and> ToplpEdgeGetFromVertex h e \<noteq> mem_next h" if "ToplpIsVertex h w" "e \<in> set (in_list h w)" for w e
    using objects_ok_in [OF ok that] not_v not_e by (auto simp: edge_enters_def)
  show "objects_ok (snd (ToplVertexCreate h))"
    by (rule objects_ok_change [OF ok, where t = "mem_next h"])
      (use ok out inn dead in \<open>auto simp: objects_ok_def ToplVertexCreate_def ToplpVertexCreate_def alloc_elem_def mem_elem_upd_vdata
        zero_elem_def vertex_ok_def ToplpIsVertex_def ToplpIsEdge_def elem_type_def DynamicArrayInit_ok\<close>)
  show "objects_ok (snd (ToplEdgeCreate h))"
    by (rule objects_ok_change [OF ok, where t = "mem_next h"])
      (use ok out inn dead in \<open>auto simp: objects_ok_def ToplEdgeCreate_def ToplpEdgeCreate_def alloc_elem_def zero_elem_def
        ToplpIsVertex_def ToplpIsEdge_def elem_type_def ToplpEdgeGetWeight_def DWORD_INFINITY_def\<close>)
qed

lemma not_both: "ToplpIsVertex h p \<Longrightarrow> \<not> ToplpIsEdge h p"
  by (simp add: ToplpIsVertex_def ToplpIsEdge_def)

lemma objects_ok_unassociated:
  assumes ok: "objects_ok h" and e: "ToplpIsEdge h e" and free: "unassociated h e"
    and same: "mem_next h' = mem_next h" "\<And>p. p \<noteq> e \<Longrightarrow> mem_elem h' p = mem_elem h p"
    and new: "\<not> ToplpIsVertex h' e" "ToplpIsEdge h' e \<Longrightarrow> ToplpEdgeGetWeight h' e \<noteq> DWORD_INFINITY"
  shows "objects_ok h'"
proof (rule objects_ok_change [OF ok, where t = e])
  have e': "e < mem_next h" "e \<noteq> NULL"
    using objects_ok_below [OF ok ToplpIsEdge_alive [OF e]] by auto
  show "0 < mem_next h'" "mem_elem h' NULL = None" "\<And>p. mem_next h' \<le> p \<Longrightarrow> mem_elem h' p = None"
    using ok same e' by (auto simp: objects_ok_def)
  show "d \<noteq> e \<and> ToplpEdgeGetToVertex h d \<noteq> e" if "ToplpIsVertex h w" "d \<in> set (out_list h w)" for w d
    using objects_ok_out [OF ok that] that free e not_both by (auto simp: unassociated_def edge_leaves_def)
  show "d \<noteq> e \<and> ToplpEdgeGetFromVertex h d \<noteq> e" if "ToplpIsVertex h w" "d \<in> set (in_list h w)" for w d
    using objects_ok_in [OF ok that] that free e not_both by (auto simp: unassociated_def edge_enters_def)
qed (use same new in auto)

lemma objects_ok_free_vertex:
  assumes ok: "objects_ok h" and v: "ToplpIsVertex h v" and iso: "isolated h v"
  shows "objects_ok (ToplpVertexDestroy v True h)"
proof (rule objects_ok_change [OF ok, where t = v])
  let ?h = "ToplpVertexDestroy v True h"
  have same: "mem_elem ?h p = (if p = v then None else mem_elem h p)" "mem_next ?h = mem_next h" for p
    using vertex_free.f_cell [of v h p] vertex_free.f_next [of v h] by simp_all
  show "0 < mem_next ?h" "mem_elem ?h NULL = None" "\<And>p. mem_next ?h \<le> p \<Longrightarrow> mem_elem ?h p = None"
      "\<And>p. p \<noteq> v \<Longrightarrow> mem_elem ?h p = mem_elem h p"
    using ok same by (auto simp: objects_ok_def)
  show "d \<noteq> v \<and> ToplpEdgeGetToVertex h d \<noteq> v" if "ToplpIsVertex h w" "d \<in> set (out_list h w)" for w d
    using objects_ok_out [OF ok that] that iso v not_both by (auto simp: isolated_def edge_leaves_def)
  show "d \<noteq> v \<and> ToplpEdgeGetFromVertex h d \<noteq> v" if "ToplpIsVertex h w" "d \<in> set (in_list h w)" for w d
    using objects_ok_in [OF ok that] that iso v not_both by (auto simp: isolated_def edge_enters_def)
  show "ToplpIsVertex ?h v \<Longrightarrow> vertex_ok ?h v \<and> out_list ?h v = [] \<and> in_list ?h v = []"
      "ToplpIsEdge ?h v \<Longrightarrow> ToplpEdgeGetWeight ?h v \<noteq> DWORD_INFINITY"
    using same(1) [of v] by (simp_all add: ToplpIsVertex_def ToplpIsEdge_def elem_type_def)
qed

text \<open>Adding an edge to, or removing it from, an array of one of its ends.\<close>

lemma objects_ok_array_op:
  assumes ok: "objects_ok h" and v: "ToplpIsVertex h v"
    and f: "dynamic_array_ok (vd_InEdges (f (vdata h v)))" "dynamic_array_ok (vd_OutEdges (f (vdata h v)))"
      "set (dynamic_array_list (vd_OutEdges (f (vdata h v)))) \<subseteq> set (out_list h v) \<union> {e. edge_leaves h v e}"
      "set (dynamic_array_list (vd_InEdges (f (vdata h v)))) \<subseteq> set (in_list h v) \<union> {e. edge_enters h v e}"
  shows "objects_ok (upd_vdata v f h)"
proof -
  have alive: "mem_elem h v \<noteq> None"
    using ToplpIsVertex_alive [OF v] by simp
  show ?thesis
  proof (rule objects_ok_arrays [OF ok])
    fix w assume w: "ToplpIsVertex h w"
    show "vertex_ok (upd_vdata v f h) w \<and>
        set (out_list (upd_vdata v f h) w) \<subseteq> set (out_list h w) \<union> {e. edge_leaves h w e} \<and>
        set (in_list (upd_vdata v f h) w) \<subseteq> set (in_list h w) \<union> {e. edge_enters h w e}"
      using objects_ok_vertex [OF ok w] f alive v
      by (cases "w = v") (simp_all add: vertex_ok_def vdata_upd_vdata)
  next
    show "ToplpIsEdge h e \<Longrightarrow> ToplpEdgeGetFromVertex (upd_vdata v f h) e = ToplpEdgeGetFromVertex h e \<and>
        ToplpEdgeGetToVertex (upd_vdata v f h) e = ToplpEdgeGetToVertex h e \<and>
        ToplpEdgeGetWeight (upd_vdata v f h) e \<noteq> DWORD_INFINITY" for e
      using alive by (intro edge_fields_same [OF ok]) simp_all
  qed (use alive in simp_all)
qed

text \<open>What the two operations leave alone, and that they keep the objects well formed.\<close>

definition same_shape :: "topl_mem \<Rightarrow> topl_mem \<Rightarrow> bool" where
  "same_shape h h' \<longleftrightarrow> (\<forall>p. Next h' p = Next h p \<and> (mem_elem h' p = None \<longleftrightarrow> mem_elem h p = None) \<and>
     elem_type h' p = elem_type h p \<and> (mem_elem h p \<noteq> None \<longrightarrow> edata h' p = edata h p))"

lemma same_shape_upd_vdata: "mem_elem h v \<noteq> None \<Longrightarrow> same_shape h (upd_vdata v f h)"
  by (simp add: same_shape_def)

lemma set_remove_skipping: "set (remove_skipping p xs) \<subseteq> set xs"
  by (induction p xs rule: remove_skipping.induct) auto

lemma objects_ok_AddEdge:
  assumes ok: "objects_ok h" and v: "ToplpIsVertex h v" and e: "ToplpIsEdge h e"
    and ends: "ToplpIsVertex h (ToplpEdgeGetFromVertex h e)" "ToplpIsVertex h (ToplpEdgeGetToVertex h e)"
    and r: "ToplpVertexAddEdge v e h = Inr h'"
  shows "objects_ok h' \<and> same_shape h h'"
proof -
  have vok: "vertex_ok h v" and alive: "mem_elem h v \<noteq> None"
    using objects_ok_vertex [OF ok v] ToplpIsVertex_alive [OF v] by auto
  show ?thesis
  proof (cases "ToplpEdgeGetFromVertex h e = v")
    case True
    have "objects_ok (upd_vdata v (\<lambda>d. d\<lparr>vd_OutEdges := DynamicArrayAdd (vd_OutEdges d) e\<rparr>) h)"
      by (rule objects_ok_array_op [OF ok v])
        (use vok e ends True in \<open>auto simp: vertex_ok_def DynamicArrayAdd_ok DynamicArrayAdd_list edge_leaves_def\<close>)
    then show ?thesis
      using r True same_shape_upd_vdata [OF alive] by (auto simp: ToplpVertexAddEdge_def)
  next
    case False
    have "objects_ok (upd_vdata v (\<lambda>d. d\<lparr>vd_InEdges := DynamicArrayAdd (vd_InEdges d) e\<rparr>) h)"
      if "ToplpEdgeGetToVertex h e = v"
      by (rule objects_ok_array_op [OF ok v])
        (use vok e ends that in \<open>auto simp: vertex_ok_def DynamicArrayAdd_ok DynamicArrayAdd_list edge_enters_def\<close>)
    then show ?thesis
      using r False same_shape_upd_vdata [OF alive] by (auto simp: ToplpVertexAddEdge_def split: if_splits)
  qed
qed

lemma objects_ok_RemoveEdge:
  assumes ok: "objects_ok h" and v: "ToplpIsVertex h v" and r: "ToplpVertexRemoveEdge v e h = Inr h'"
  shows "objects_ok h' \<and> same_shape h h'"
proof -
  have vok: "vertex_ok h v" and alive: "mem_elem h v \<noteq> None"
    using objects_ok_vertex [OF ok v] ToplpIsVertex_alive [OF v] by auto
  have arr: "dynamic_array_ok (DynamicArrayRemove a e 0)"
    "set (dynamic_array_list (DynamicArrayRemove a e 0)) \<subseteq> set (dynamic_array_list a)" if "dynamic_array_ok a" for a
    using remove_loop_correct [OF that, of e 0] set_remove_skipping [of e "dynamic_array_list a"]
    by (simp_all add: DynamicArrayRemove_def)
  have "objects_ok (upd_vdata v (\<lambda>d. d\<lparr>vd_OutEdges := DynamicArrayRemove (vd_OutEdges d) e 0\<rparr>) h)"
    "objects_ok (upd_vdata v (\<lambda>d. d\<lparr>vd_InEdges := DynamicArrayRemove (vd_InEdges d) e 0\<rparr>) h)"
    by (rule objects_ok_array_op [OF ok v]; use vok arr in \<open>auto simp: vertex_ok_def\<close>)+
  then show ?thesis
    using r same_shape_upd_vdata [OF alive] by (auto simp: ToplpVertexRemoveEdge_def split: if_splits)
qed

lemma same_shape_is:
  assumes "same_shape h h'"
  shows "ToplpIsVertex h' p = ToplpIsVertex h p" "ToplpIsEdge h' p = ToplpIsEdge h p"
    and "mem_elem h p \<noteq> None \<Longrightarrow> ToplpEdgeGetFromVertex h' p = ToplpEdgeGetFromVertex h p \<and>
      ToplpEdgeGetToVertex h' p = ToplpEdgeGetToVertex h p"
  using assms by (simp_all add: same_shape_def ToplpIsVertex_def ToplpIsEdge_def ToplpEdgeGetFromVertex_def
      ToplpEdgeGetToVertex_def)

lemma same_shape_trans: "same_shape h h' \<Longrightarrow> same_shape h' h'' \<Longrightarrow> same_shape h h''"
  by (simp add: same_shape_def)

lemma same_shape_holds: "same_shape h h' \<Longrightarrow> graph_holds h g xs \<Longrightarrow> graph_holds h' g xs"
  using same_shape_is(1) [of h h'] chain_cong [of h "ls_Head (gr_VertexList g)" xs h']
  by (simp add: graph_holds_def list_ok_def same_shape_def)

lemma ToplEdgeAssociate_ok:
  assumes ok: "objects_ok h" and r: "ToplEdgeAssociate e h = Inr h'"
  shows "objects_ok h' \<and> same_shape h h'"
proof -
  let ?t = "ed_To (edata h e)" and ?f = "\<lambda>h. ed_From (edata h e)"
  obtain h1 where r: "ToplpIsEdge h e" "ToplpIsVertex h ?t" "ToplpIsVertex h (?f h)"
      "ToplpVertexAddEdge ?t e h = Inr h1" "ToplpVertexAddEdge (?f h1) e h1 = Inr h'"
    using r by (auto simp: ToplEdgeAssociate_def ToplpEdgeAssociate_def wrong_object_if_def bindE_eq_Inr)
  have one: "objects_ok h1 \<and> same_shape h h1"
    using r by (intro objects_ok_AddEdge [OF ok r(2,1) _ _ r(4)])
      (simp_all add: ToplpEdgeGetFromVertex_def ToplpEdgeGetToVertex_def)
  then have "objects_ok h' \<and> same_shape h1 h'"
    using r same_shape_is [of h h1] ToplpIsEdge_alive [OF r(1)]
    by (intro objects_ok_AddEdge [OF _ _ _ _ _ r(5)])
      (auto simp: ToplpEdgeGetFromVertex_def ToplpEdgeGetToVertex_def)
  with one show ?thesis
    using same_shape_trans by blast
qed

lemma ToplEdgeDisassociate_ok:
  assumes ok: "objects_ok h" and r: "ToplEdgeDisassociate e h = Inr h'"
  shows "objects_ok h' \<and> same_shape h h'"
proof -
  let ?t = "ed_To (edata h e)" and ?f = "\<lambda>h. ed_From (edata h e)"
  obtain h1 where r: "ToplpIsEdge h e" "ToplpIsVertex h ?t" "ToplpIsVertex h (?f h)"
      "ToplpVertexRemoveEdge ?t e h = Inr h1" "ToplpVertexRemoveEdge (?f h1) e h1 = Inr h'"
    using r by (auto simp: ToplEdgeDisassociate_def ToplpEdgeDisassociate_def wrong_object_if_def bindE_eq_Inr)
  have one: "objects_ok h1 \<and> same_shape h h1"
    by (rule objects_ok_RemoveEdge [OF ok r(2,4)])
  then have "objects_ok h' \<and> same_shape h1 h'"
    using r same_shape_is [of h h1] ToplpIsEdge_alive [OF r(1)]
    by (intro objects_ok_RemoveEdge [OF _ _ r(5)]) (auto simp: ToplpEdgeGetFromVertex_def)
  with one show ?thesis
    using same_shape_trans by blast
qed

lemma graph_holds_cells:
  assumes "graph_holds h g xs" and "\<And>x. x \<in> set xs \<Longrightarrow> mem_elem h' x = mem_elem h x"
  shows "graph_holds h' g xs"
  using assms list_ok_cells [of "gr_VertexList g" h xs h']
  by (simp add: graph_holds_def ToplpIsVertex_def elem_type_def)

lemma graph_holds_alive: "graph_holds h g xs \<Longrightarrow> x \<in> set xs \<Longrightarrow> mem_elem h x \<noteq> None"
  using ToplpIsVertex_alive [of h x] by (auto simp: graph_holds_def)

lemma alloc_holds:
  assumes ok: "objects_ok h" and g: "graph_holds h g xs"
  shows "graph_holds (snd (ToplVertexCreate h)) g xs" and "graph_holds (snd (ToplEdgeCreate h)) g xs"
proof -
  have "x \<noteq> mem_next h" if "x \<in> set xs" for x
    using objects_ok_below [OF ok graph_holds_alive [OF g that]] by simp
  then show "graph_holds (snd (ToplVertexCreate h)) g xs" and "graph_holds (snd (ToplEdgeCreate h)) g xs"
    by (intro graph_holds_cells [OF g]; simp add: ToplVertexCreate_def ToplpVertexCreate_def ToplEdgeCreate_def
        ToplpEdgeCreate_def alloc_elem_def mem_elem_upd_vdata)+
qed

lemma upd_vdata_holds: "graph_holds h g xs \<Longrightarrow> graph_holds (upd_vdata v f h) g xs"
  using chain_cong [of h "ls_Head (gr_VertexList g)" xs "upd_vdata v f h"] by (simp add: graph_holds_def list_ok_def)

lemma upd_edata_holds: "graph_holds h g xs \<Longrightarrow> graph_holds (upd_edata v f h) g xs"
  using chain_cong [of h "ls_Head (gr_VertexList g)" xs "upd_edata v f h"] by (simp add: graph_holds_def list_ok_def)

lemma objects_ok_ends:
  assumes "objects_ok h" and "ToplpIsEdge h e" and "unassociated h e" and "\<And>d. ed_Weight (f d) = ed_Weight d"
  shows "objects_ok (upd_edata e f h)"
  using assms(1,2) ToplpIsEdge_alive [OF assms(2)] not_both [of h e]
  by (intro objects_ok_unassociated [OF assms(1,2,3)])
    (auto simp: mem_elem_upd_edata ToplpEdgeGetWeight_def assms(4) objects_ok_def)

lemma objects_ok_weight:
  assumes ok: "objects_ok h" and e: "ToplpIsEdge h e" and w: "w \<noteq> DWORD_INFINITY"
  shows "objects_ok (ToplpEdgeSetWeight e w h)"
proof (rule objects_ok_arrays [OF ok])
  have alive: "mem_elem h e \<noteq> None"
    by (rule ToplpIsEdge_alive [OF e])
  show "ToplpEdgeGetFromVertex (ToplpEdgeSetWeight e w h) d = ToplpEdgeGetFromVertex h d \<and>
      ToplpEdgeGetToVertex (ToplpEdgeSetWeight e w h) d = ToplpEdgeGetToVertex h d \<and>
      ToplpEdgeGetWeight (ToplpEdgeSetWeight e w h) d \<noteq> DWORD_INFINITY" if "ToplpIsEdge h d" for d
    using alive w ok that by (simp add: ToplpEdgeSetWeight_def ToplpEdgeGetFromVertex_def ToplpEdgeGetToVertex_def
        ToplpEdgeGetWeight_def edata_upd_edata objects_ok_def)
  show "vertex_ok (ToplpEdgeSetWeight e w h) v \<and>
      set (out_list (ToplpEdgeSetWeight e w h) v) \<subseteq> set (out_list h v) \<union> {e. edge_leaves h v e} \<and>
      set (in_list (ToplpEdgeSetWeight e w h) v) \<subseteq> set (in_list h v) \<union> {e. edge_enters h v e}" if "ToplpIsVertex h v" for v
    using alive objects_ok_vertex [OF ok that] by (simp add: ToplpEdgeSetWeight_def vertex_ok_def)
qed (simp_all add: ToplpEdgeSetWeight_def)

lemma objects_ok_same_but_links:
  assumes ok: "objects_ok h" and same: "same_but_links S h h'"
  shows "objects_ok h' \<and> (\<forall>p. ToplpIsVertex h' p = ToplpIsVertex h p)"
proof -
  have cell: "map_option (\<lambda>e. e\<lparr>el_Link := NULL\<rparr>) (mem_elem h' p) = map_option (\<lambda>e. e\<lparr>el_Link := NULL\<rparr>) (mem_elem h p)" for p
    using same by (simp add: same_but_links_def)
  have dead: "mem_elem h' p = None \<longleftrightarrow> mem_elem h p = None" for p
    by (rule same_but_links_alive [OF same])
  have field: "f (the (mem_elem h' p)) = f (the (mem_elem h p))"
    if "\<And>e. f (e\<lparr>el_Link := NULL\<rparr>) = f e" "mem_elem h p \<noteq> None" for f :: "LIST_ELEMENT \<Rightarrow> 'z" and p
    using that dead [of p] cell [of p] by (metis option.collapse option.map_sel)
  have ty: "elem_type h' p = elem_type h p" for p
    using field [of el_ObjectType p] dead [of p] by (cases "mem_elem h p") (auto simp: elem_type_def)
  have "objects_ok h'"
  proof (rule objects_ok_arrays [OF ok])
    show "mem_next h' = mem_next h"
      using same by (simp add: same_but_links_def)
    show "ToplpEdgeGetFromVertex h' e = ToplpEdgeGetFromVertex h e \<and>
        ToplpEdgeGetToVertex h' e = ToplpEdgeGetToVertex h e \<and> ToplpEdgeGetWeight h' e \<noteq> DWORD_INFINITY"
      if "ToplpIsEdge h e" for e
      using field [of el_EdgeData e] ToplpIsEdge_alive [OF that] by (intro edge_fields_same [OF ok that]) simp
    show "vertex_ok h' v \<and> set (out_list h' v) \<subseteq> set (out_list h v) \<union> {e. edge_leaves h v e} \<and>
        set (in_list h' v) \<subseteq> set (in_list h v) \<union> {e. edge_enters h v e}" if "ToplpIsVertex h v" for v
      using field [of el_VertexData v] ToplpIsVertex_alive [OF that] objects_ok_vertex [OF ok that] ty
      by (auto simp: vertex_ok_def ToplpIsVertex_def)
  qed (simp_all add: dead ty)
  then show ?thesis
    by (simp add: ToplpIsVertex_def ty)
qed

lemma add_vertex_ok:
  assumes ok: "objects_ok h" and g: "graph_holds h g xs" and v: "v \<notin> set xs"
    and r: "ToplGraphAddVertex (Some g) v name h = Inr (g', h')"
  shows "objects_ok h' \<and> graph_holds h' g' (v # xs)"
proof -
  let ?h = "upd_vdata v (\<lambda>d. d\<lparr>vd_VertexName := name\<rparr>) h"
  have isv: "ToplpIsVertex h v" and eq: "g' = g\<lparr>gr_VertexList := fst (ToplpListAddElem (gr_VertexList g) v ?h)\<rparr>"
      "h' = snd (ToplpListAddElem (gr_VertexList g) v ?h)"
    using r by (auto simp: ToplGraphAddVertex_def ToplpGraphAddVertex_def wrong_object_if_def bindE_eq_Inr split_beta Let_def)
  have g1: "graph_holds ?h g xs"
    by (rule upd_vdata_holds [OF g])
  have list: "list_ok (gr_VertexList g') h' (v # xs)"
    using ToplpListAddElem_ok [of "gr_VertexList g" ?h xs v] g1 v isv ToplpIsVertex_alive [OF isv]
    by (simp add: eq graph_holds_def ToplpIsVertex_def)
  have "objects_ok ?h"
    using ToplpIsVertex_alive [OF isv] by (intro objects_ok_upd_vdata [OF ok]) simp_all
  then have "objects_ok h'" and "ToplpIsVertex h' p = ToplpIsVertex h p" for p
    by (simp_all add: eq ToplpListAddElem_def objects_ok_set_Next ToplpIsVertex_def set_Next_frame)
  with list isv g show ?thesis
    by (simp add: graph_holds_def eq)
qed

lemma remove_vertex_ok:
  assumes ok: "objects_ok h" and g: "graph_holds h g xs"
    and r: "ToplGraphRemoveVertex (Some g) v h = Some (Inr (p, g', h'))"
  shows "objects_ok h' \<and> graph_holds h' g' (snd (abs_remove v xs))"
proof -
  have "list_ok (gr_VertexList g) h xs"
    using g by (simp add: graph_holds_def)
  from ToplpListRemoveElem_abs [OF this, of v] obtain l' h1 where
    rm: "ToplpListRemoveElem (gr_VertexList g) v h = Some (fst (abs_remove v xs), l', h1)"
      "list_ok l' h1 (snd (abs_remove v xs))" "same_but_links (set xs) h h1"
    by blast
  have eq: "g' = g\<lparr>gr_VertexList := l'\<rparr>" "h' = h1"
    using r rm(1) by (auto simp: ToplGraphRemoveVertex_def ToplpGraphRemoveVertex_def split: if_splits)
  have sub: "set (snd (abs_remove v xs)) \<subseteq> set xs"
    using set_remove1_subset [of v xs] by (auto simp: abs_remove_def split: list.splits if_splits)
  show ?thesis
    using objects_ok_same_but_links [OF ok rm(3)] rm(2) g sub by (auto simp: graph_holds_def eq)
qed

lemma object_reach_invariant: "object_reach h g xs \<Longrightarrow> objects_ok h \<and> graph_holds h g xs"
proof (induction rule: object_reach.induct)
  case start
  show ?case
    by (simp add: objects_ok_def empty_mem_def graph_holds_def list_ok_def ToplGraphCreate_def ToplpGraphCreate_def
        ToplpIsVertex_def ToplpIsEdge_def elem_type_def)
next
  case (new_vertex h g xs v h')
  then show ?case
    using objects_ok_alloc(1) [of h] alloc_holds(1) [of h g xs] by simp
next
  case (new_edge h g xs e h')
  then show ?case
    using objects_ok_alloc(2) [of h] alloc_holds(2) [of h g xs] by simp
next
  case (set_to h g xs e v h')
  then show ?case
    using objects_ok_ends [of h e "\<lambda>d. d\<lparr>ed_To := v\<rparr>"] upd_edata_holds
    by (auto simp: ToplEdgeSetToVertex_def ToplpEdgeSetToVertex_def wrong_object_if_def bindE_eq_Inr)
next
  case (set_from h g xs e v h')
  then show ?case
    using objects_ok_ends [of h e "\<lambda>d. d\<lparr>ed_From := v\<rparr>"] upd_edata_holds
    by (auto simp: ToplEdgeSetFromVertex_def ToplpEdgeSetFromVertex_def wrong_object_if_def bindE_eq_Inr)
next
  case (set_weight h g xs e w h')
  let ?w = "if w = DWORD_INFINITY then w - 1 else w"
  have "ToplpIsEdge h e" "h' = ToplpEdgeSetWeight e ?w h" "?w \<noteq> DWORD_INFINITY"
    using set_weight.hyps(2)
    by (auto simp: ToplEdgeSetWeight_def wrong_object_if_def bindE_eq_Inr Let_def DWORD_INFINITY_def)
  then show ?case
    using objects_ok_weight [of h e ?w] set_weight.IH upd_edata_holds by (auto simp: ToplpEdgeSetWeight_def)
next
  case (set_id h g xs v i h')
  then show ?case
    using ToplpIsVertex_alive [of h v] upd_vdata_holds
    by (auto simp: ToplVertexSetId_def ToplpVertexSetId_def wrong_object_if_def bindE_eq_Inr intro!: objects_ok_upd_vdata)
next
  case (set_parent h g xs v p h')
  then show ?case
    using ToplpIsVertex_alive [of h v] upd_vdata_holds
    by (auto simp: ToplVertexSetParent_def ToplpVertexSetParent_def wrong_object_if_def bindE_eq_Inr
        intro!: objects_ok_upd_vdata)
next
  case (associate h g xs e h')
  then show ?case
    using ToplEdgeAssociate_ok same_shape_holds by blast
next
  case (disassociate h g xs e h')
  then show ?case
    using ToplEdgeDisassociate_ok same_shape_holds by blast
next
  case (add_vertex h g xs v name g' h')
  then show ?case
    using add_vertex_ok by blast
next
  case (remove_vertex h g xs v p g' h')
  then show ?case
    using remove_vertex_ok by blast
next
  case (free_edge h g xs e h')
  have e: "ToplpIsEdge h e" and h': "h' = ToplpEdgeDestroy e True h"
    using free_edge.hyps by (auto simp: ToplEdgeFree_def wrong_object_if_def bindE_eq_Inr)
  have cell: "mem_elem h' p = (if p = e then None else mem_elem h p)" "mem_next h' = mem_next h" for p
    using edge_free.f_cell [of e h p] edge_free.f_next [of e h] by (simp_all add: h')
  have "objects_ok h'"
    by (rule objects_ok_unassociated [of h e])
      (use free_edge.IH free_edge.hyps(2) e cell in \<open>auto simp: ToplpIsVertex_def ToplpIsEdge_def elem_type_def\<close>)
  moreover have not_e: "x \<noteq> e" if "x \<in> set xs" for x
    using that free_edge.IH e not_both by (auto simp: graph_holds_def)
  have "graph_holds h' g xs"
    by (rule graph_holds_cells [of h g xs]) (use free_edge.IH cell not_e in auto)
  ultimately show ?case
    by simp
next
  case (free_vertex h g xs v h')
  then have v: "ToplpIsVertex h v" and h': "h' = ToplpVertexDestroy v True h"
    by (auto simp: ToplVertexFree_def wrong_object_if_def bindE_eq_Inr)
  have "graph_holds h' g xs"
    by (rule graph_holds_cells [of h g xs]) (use free_vertex vertex_free.f_cell [of v h] in \<open>auto simp: h'\<close>)
  then show ?case
    using objects_ok_free_vertex [of h v] free_vertex v h' by simp
qed

section \<open>Building a graph\<close>

text \<open>Two client routines over the interface: a vertex with id and name, and an edge with a weight.\<close>

type_synonym client = "topl_mem \<times> GRAPH \<times> ptr list"

definition add_site :: "dword \<Rightarrow> ptr \<Rightarrow> client \<Rightarrow> client" where
  "add_site i name = (\<lambda>(h, g, xs).
     let (v, h) = ToplVertexCreate h;
         h = projr (ToplVertexSetId v i h);
         (g, h) = projr (ToplGraphAddVertex (Some g) v name h)
     in (h, g, v # xs))"

definition add_link :: "ptr \<Rightarrow> ptr \<Rightarrow> dword \<Rightarrow> client \<Rightarrow> client" where
  "add_link u v w = (\<lambda>(h, g, xs).
     let (e, h) = ToplEdgeCreate h;
         h = projr (ToplEdgeSetFromVertex e u h);
         h = projr (ToplEdgeSetToVertex e v h);
         h = projr (ToplEdgeSetWeight e w h);
         h = projr (ToplEdgeAssociate e h)
     in (h, g, xs))"

definition client_ok :: "client \<Rightarrow> bool" where
  "client_ok = (\<lambda>(h, g, xs). object_reach h g xs)"

lemma client_start: "client_ok (empty_mem, ToplGraphCreate, [])"
  by (simp add: client_ok_def object_reach.start)

lemma client_add_site:
  assumes "client_ok c"
  shows "client_ok (add_site i name c)"
proof -
  obtain h g xs where c: "c = (h, g, xs)"
    by (cases c)
  have reach: "object_reach h g xs"
    using assms by (simp add: c client_ok_def)
  define v where "v = mem_next h"
  define h1 where "h1 = snd (ToplVertexCreate h)"
  have inv: "objects_ok h" "graph_holds h g xs"
    using object_reach_invariant [OF reach] by auto
  have new: "ToplVertexCreate h = (v, h1)"
    by (simp add: h1_def v_def ToplVertexCreate_def ToplpVertexCreate_def alloc_elem_def)
  have isv: "ToplpIsVertex h1 v" and nv: "v \<notin> set xs"
    using inv(1) graph_holds_alive [OF inv(2), of v]
    by (auto simp: h1_def v_def ToplVertexCreate_def ToplpVertexCreate_def alloc_elem_def ToplpIsVertex_def elem_type_def
        mem_elem_upd_vdata zero_elem_def objects_ok_def)
  have r1: "object_reach h1 g xs"
    by (rule object_reach.new_vertex [OF reach new])
  have s2: "ToplVertexSetId v i h1 = Inr (ToplpVertexSetId v i h1)"
    using isv by (simp add: ToplVertexSetId_def wrong_object_if_def)
  let ?h2 = "ToplpVertexSetId v i h1"
  have r2: "object_reach ?h2 g xs"
    by (rule object_reach.set_id [OF r1 s2])
  obtain g' h' where s3: "ToplGraphAddVertex (Some g) v name ?h2 = Inr (g', h')"
    using isv inv(2) by (simp add: ToplGraphAddVertex_def wrong_object_if_def ToplpVertexSetId_def ToplpIsGraph_def
        graph_holds_def Let_def split_beta ToplpGraphAddVertex_def)
  show ?thesis
    using object_reach.add_vertex [OF r2 nv s3] by (simp add: c add_site_def client_ok_def new s2 s3)
qed

lemma client_add_link:
  assumes "client_ok c" and "ToplpIsVertex (fst c) u" and "ToplpIsVertex (fst c) v"
  shows "client_ok (add_link u v w c)"
proof -
  obtain h g xs where c: "c = (h, g, xs)"
    by (cases c)
  have reach: "object_reach h g xs" and uv: "ToplpIsVertex h u" "ToplpIsVertex h v"
    using assms by (simp_all add: c client_ok_def)
  define e where "e = mem_next h"
  define h1 where "h1 = snd (ToplEdgeCreate h)"
  have ok: "objects_ok h"
    using object_reach_invariant [OF reach] by auto
  have new: "ToplEdgeCreate h = (e, h1)"
    by (simp add: h1_def e_def ToplEdgeCreate_def ToplpEdgeCreate_def alloc_elem_def)
  have cell: "mem_elem h1 p = (if p = e then Some (zero_elem eEdge) else mem_elem h p)" for p
    by (simp add: h1_def e_def ToplEdgeCreate_def ToplpEdgeCreate_def alloc_elem_def)
  have dead: "mem_elem h e = None" "e \<noteq> NULL"
    using ok by (auto simp: e_def objects_ok_def)
  have ise: "ToplpIsEdge h1 e" and isv: "\<And>x. ToplpIsVertex h1 x = ToplpIsVertex h x"
    using dead by (auto simp: ToplpIsEdge_def ToplpIsVertex_def elem_type_def cell zero_elem_def)
  have arrays: "vdata h1 x = vdata h x" if "ToplpIsVertex h x" for x
    using that dead by (auto simp: cell ToplpIsVertex_def elem_type_def)
  have free: "unassociated h1 e"
    using objects_ok_out [OF ok] objects_ok_in [OF ok] dead ToplpIsEdge_alive
    by (fastforce simp: unassociated_def isv arrays edge_leaves_def edge_enters_def)
  have r1: "object_reach h1 g xs"
    by (rule object_reach.new_edge [OF reach new])
  let ?h2 = "ToplpEdgeSetFromVertex e u h1"
  have s2: "ToplEdgeSetFromVertex e u h1 = Inr ?h2"
    using ise isv uv by (simp add: ToplEdgeSetFromVertex_def wrong_object_if_def)
  have r2: "object_reach ?h2 g xs"
    by (rule object_reach.set_from [OF r1 free s2])
  have alive: "mem_elem h1 e \<noteq> None"
    by (simp add: cell)
  have free2: "unassociated ?h2 e"
    using free alive by (simp add: unassociated_def ToplpEdgeSetFromVertex_def)
  let ?h3 = "ToplpEdgeSetToVertex e v ?h2"
  have s3: "ToplEdgeSetToVertex e v ?h2 = Inr ?h3"
    using ise isv uv by (simp add: ToplEdgeSetToVertex_def wrong_object_if_def ToplpEdgeSetFromVertex_def)
  have r3: "object_reach ?h3 g xs"
    by (rule object_reach.set_to [OF r2 free2 s3])
  obtain h4 where s4: "ToplEdgeSetWeight e w ?h3 = Inr h4"
      and h4: "ToplpIsEdge h4 e" "ed_To (edata h4 e) = v" "ed_From (edata h4 e) = u" "ToplpIsVertex h4 = ToplpIsVertex h"
    using ise alive isv
    by (simp add: ToplEdgeSetWeight_def wrong_object_if_def ToplpEdgeSetFromVertex_def ToplpEdgeSetToVertex_def
        ToplpEdgeSetWeight_def edata_upd_edata fun_eq_iff)
  have r4: "object_reach h4 g xs"
    by (rule object_reach.set_weight [OF r3 s4])
  have ok4: "objects_ok h4"
    using object_reach_invariant [OF r4] by auto
  obtain h5 where s5: "ToplEdgeAssociate e h4 = Inr h5"
    using ToplpEdgeAssociate_spec [of h4 e] h4 uv ToplpIsEdge_alive [OF h4(1)] objects_ok_vertex [OF ok4]
    by (metis ToplEdgeAssociate_def bindE_simps(2) raise_if_def wrong_object_if_def)
  show ?thesis
    using object_reach.associate [OF r4 s5] by (simp add: c add_link_def client_ok_def new s2 s3 s4 s5)
qed

text \<open>The effect of the two routines on the memory, cell by cell.\<close>

definition site_elem :: "dword \<Rightarrow> ptr \<Rightarrow> ptr \<Rightarrow> LIST_ELEMENT" where
  "site_elem i name link =
     (zero_elem eVertex)\<lparr>el_Link := link, el_VertexData := \<lparr>vd_Id = i, vd_VertexName = name,
        vd_InEdges = DynamicArrayInit, vd_OutEdges = DynamicArrayInit, vd_Parent = NULL\<rparr>\<rparr>"

definition link_elem :: "ptr \<Rightarrow> ptr \<Rightarrow> dword \<Rightarrow> LIST_ELEMENT" where
  "link_elem u v w = (zero_elem eEdge)\<lparr>el_EdgeData := \<lparr>ed_To = v, ed_From = u, ed_Weight = w\<rparr>\<rparr>"

definition with_out_edge :: "ptr \<Rightarrow> LIST_ELEMENT \<Rightarrow> LIST_ELEMENT" where
  "with_out_edge e x = x\<lparr>el_VertexData := (el_VertexData x)\<lparr>vd_OutEdges := DynamicArrayAdd (vd_OutEdges (el_VertexData x)) e\<rparr>\<rparr>"

definition with_in_edge :: "ptr \<Rightarrow> LIST_ELEMENT \<Rightarrow> LIST_ELEMENT" where
  "with_in_edge e x = x\<lparr>el_VertexData := (el_VertexData x)\<lparr>vd_InEdges := DynamicArrayAdd (vd_InEdges (el_VertexData x)) e\<rparr>\<rparr>"

lemma add_site_eq:
  assumes "gr_ObjectType g = eGraph" and "mem_next h \<noteq> NULL"
  shows "add_site i name (h, g, xs) =
    (\<lparr>mem_elem = (mem_elem h)(mem_next h \<mapsto> site_elem i name (ls_Head (gr_VertexList g))), mem_next = Suc (mem_next h)\<rparr>,
     g\<lparr>gr_VertexList := (gr_VertexList g)\<lparr>ls_Head := mem_next h,
       ls_NumberOfElements := ls_NumberOfElements (gr_VertexList g) + 1\<rparr>\<rparr>, mem_next h # xs)"
  using assms
  by (simp add: add_site_def ToplVertexCreate_def ToplpVertexCreate_def alloc_elem_def ToplVertexSetId_def
      wrong_object_if_def ToplpIsVertex_def elem_type_def ToplpVertexSetId_def ToplGraphAddVertex_def ToplpIsGraph_def
      ToplpGraphAddVertex_def ToplpListAddElem_def set_Next_def upd_vdata_def upd_elem_def site_elem_def zero_elem_def)

lemma add_link_eq:
  assumes "mem_elem h u = Some eu" and "mem_elem h v = Some ev" and "el_ObjectType eu = eVertex"
    and "el_ObjectType ev = eVertex" and "u \<noteq> v" and "u < mem_next h" and "v < mem_next h" and "u \<noteq> NULL" and "v \<noteq> NULL"
    and "w \<noteq> DWORD_INFINITY"
  shows "add_link u v w (h, g, xs) =
    (\<lparr>mem_elem = (mem_elem h)(mem_next h \<mapsto> link_elem u v w, v \<mapsto> with_in_edge (mem_next h) ev,
       u \<mapsto> with_out_edge (mem_next h) eu), mem_next = Suc (mem_next h)\<rparr>, g, xs)"
  using assms
  by (simp add: add_link_def ToplEdgeCreate_def ToplpEdgeCreate_def alloc_elem_def ToplEdgeSetFromVertex_def
      ToplEdgeSetToVertex_def ToplEdgeSetWeight_def ToplEdgeAssociate_def ToplpEdgeAssociate_def raise_if_def
      ToplpVertexAddEdge_def ToplpEdgeGetFromVertex_def ToplpEdgeGetToVertex_def
      wrong_object_if_def ToplpIsVertex_def ToplpIsEdge_def elem_type_def ToplpEdgeSetFromVertex_def
      ToplpEdgeSetToVertex_def ToplpEdgeSetWeight_def upd_vdata_def upd_edata_def upd_elem_def link_elem_def zero_elem_def
      with_in_edge_def with_out_edge_def)

text \<open>Three sites, the one with the largest id first, and an edge of weight 7 from id 10 to id 20.\<close>

definition three_sites :: client where
  "three_sites = add_link 2 3 7 (add_site 20 102 (add_site 10 101 (add_site 30 100 (empty_mem, ToplGraphCreate, []))))"

lemma three_sites_eq:
  "three_sites =
    (\<lparr>mem_elem = [1 \<mapsto> site_elem 30 100 NULL, 2 \<mapsto> with_out_edge 4 (site_elem 10 101 1),
        3 \<mapsto> with_in_edge 4 (site_elem 20 102 2), 4 \<mapsto> link_elem 2 3 7], mem_next = 5\<rparr>,
     \<lparr>gr_ObjectType = eGraph, gr_VertexList = \<lparr>ls_ObjectType = eList, ls_Head = 3, ls_NumberOfElements = 3\<rparr>\<rparr>,
     [3, 2, 1])"
proof -
  let ?c = "add_site 20 102 (add_site 10 101 (add_site 30 100 (empty_mem, ToplGraphCreate, [])))"
  have c: "?c = (\<lparr>mem_elem = [1 \<mapsto> site_elem 30 100 NULL, 2 \<mapsto> site_elem 10 101 1, 3 \<mapsto> site_elem 20 102 2],
        mem_next = 4\<rparr>,
     \<lparr>gr_ObjectType = eGraph, gr_VertexList = \<lparr>ls_ObjectType = eList, ls_Head = 3, ls_NumberOfElements = 3\<rparr>\<rparr>,
     [3, 2, 1])"
    by (simp add: add_site_eq empty_mem_def ToplGraphCreate_def ToplpGraphCreate_def numeral_3_eq_3 eval_nat_numeral)
  show ?thesis
    unfolding three_sites_def c
    by (subst add_link_eq) (auto simp: site_elem_def zero_elem_def DWORD_INFINITY_def fun_eq_iff)
qed

lemma three_sites_arrays:
  "out_list (fst three_sites) (Suc 0) = []" "out_list (fst three_sites) 2 = [4]" "out_list (fst three_sites) 3 = []"
  "in_list (fst three_sites) (Suc 0) = []" "in_list (fst three_sites) 2 = []" "in_list (fst three_sites) 3 = [4]"
  by (simp_all add: three_sites_eq with_out_edge_def with_in_edge_def site_elem_def DynamicArrayAdd_list DynamicArrayInit_ok)

lemma three_sites_few: "few_edges (fst three_sites) [3, 2, 1]"
  by (simp add: few_edges_def three_sites_arrays)

lemma three_sites_ok: "client_ok three_sites"
  unfolding three_sites_def
proof (rule client_add_link)
  let ?c = "add_site 20 102 (add_site 10 101 (add_site 30 100 (empty_mem, ToplGraphCreate, [])))"
  show "client_ok ?c"
    by (intro client_add_site client_start)
  show "ToplpIsVertex (fst ?c) 2" "ToplpIsVertex (fst ?c) 3"
    by (simp_all add: add_site_eq empty_mem_def ToplGraphCreate_def ToplpGraphCreate_def ToplpIsVertex_def elem_type_def
        site_elem_def zero_elem_def)
qed

lemma three_sites_holds:
  "objects_ok (fst three_sites)" "graph_holds (fst three_sites) (fst (snd three_sites)) [3, 2, 1]"
  using object_reach_invariant [of "fst three_sites" "fst (snd three_sites)" "[3, 2, 1]"] three_sites_ok
  by (auto simp: client_ok_def three_sites_eq)

section \<open>Properties\<close>

text \<open>C26. A client that starts without objects and fills one graph, with the routines that create, free, set, associate and disassociate
  vertices and edges and the two that add a vertex to the graph and remove one (the calls listed in \<open>object_reach\<close>; the routines
  \<^verbatim>\<open>Init\<close> and \<^verbatim>\<open>Destroy\<close>, those for lists, and freeing the graph are not among them), and that keeps the following rules: it
  changes the ends of an edge and frees it only while no vertex holds it, adds a vertex once and frees only isolated vertices that are not in
  the graph. After every sequence of such calls the objects are
  well formed: the vertex list of the graph is a proper list of vertices; every array of a vertex holds
  edges that leave it, or enter it, and whose other end is a vertex; and no edge has the weight
  \<^verbatim>\<open>DWORD_INFINITY\<close>, the sentinel of the spanning-tree algorithm.\<close>

theorem object_interface_invariant:
  assumes "object_reach h g xs"
  shows "graph_holds h g xs \<and> ToplGraphNumberOfVertices (Some g) = Inr (of_nat (length xs)) \<and>
    (\<forall>v e. ToplpIsVertex h v \<and> e \<in> set (out_list h v) \<longrightarrow>
      ToplEdgeGetFromVertex e h = Inr v \<and> (\<exists>t. ToplEdgeGetToVertex e h = Inr t \<and> ToplpIsVertex h t)) \<and>
    (\<forall>v e. ToplpIsVertex h v \<and> e \<in> set (in_list h v) \<longrightarrow>
      ToplEdgeGetToVertex e h = Inr v \<and> (\<exists>f. ToplEdgeGetFromVertex e h = Inr f \<and> ToplpIsVertex h f)) \<and>
    (\<forall>e. ToplEdgeGetWeight e h \<noteq> Inr DWORD_INFINITY)"
proof (intro conjI allI impI; (elim conjE)?)
  have inv: "objects_ok h" "graph_holds h g xs"
    using object_reach_invariant [OF assms] by auto
  then show "graph_holds h g xs" and "ToplGraphNumberOfVertices (Some g) = Inr (of_nat (length xs))"
    by (simp_all add: ToplGraphNumberOfVertices_def ToplpGraphNumberOfVertices_def ToplpListNumberOfElements_def
        graph_holds_def list_ok_def ToplpIsGraph_def wrong_object_if_def)
  fix v e
  show "ToplEdgeGetFromVertex e h = Inr v" "\<exists>t. ToplEdgeGetToVertex e h = Inr t \<and> ToplpIsVertex h t"
    if "ToplpIsVertex h v" "e \<in> set (out_list h v)"
    using objects_ok_out [OF inv(1) that]
    by (simp_all add: ToplEdgeGetFromVertex_def ToplEdgeGetToVertex_def wrong_object_if_def edge_leaves_def)
  show "ToplEdgeGetToVertex e h = Inr v" "\<exists>f. ToplEdgeGetFromVertex e h = Inr f \<and> ToplpIsVertex h f"
    if "ToplpIsVertex h v" "e \<in> set (in_list h v)"
    using objects_ok_in [OF inv(1) that]
    by (simp_all add: ToplEdgeGetFromVertex_def ToplEdgeGetToVertex_def wrong_object_if_def edge_enters_def)
  show "ToplEdgeGetWeight e h \<noteq> Inr DWORD_INFINITY"
    using inv(1) by (auto simp: ToplEdgeGetWeight_def wrong_object_if_def bindE_eq_Inr objects_ok_def)
qed

theorem object_interface_invariant_witness:
  "ToplGraphNumberOfVertices (Some (fst (snd three_sites))) = Inr 3 \<and>
   ToplEdgeGetWeight 4 (fst three_sites) \<noteq> Inr DWORD_INFINITY"
  using object_interface_invariant [of "fst three_sites" "fst (snd three_sites)" "snd (snd three_sites)"] three_sites_ok
  by (simp add: client_ok_def three_sites_eq)

text \<open>
  \<^verbatim>\<open>ToplVertexSetParent\<close> accepts any pointer as the parent of a vertex, also one that is not a vertex, as
  its second test looks at the vertex again; \<^verbatim>\<open>ToplEdgeSetToVertex\<close> refuses such a pointer.
\<close>

lemma ToplVertexSetParent_unchecked:
  "ToplpIsVertex h v \<Longrightarrow> ToplVertexSetParent v p h = Inr (ToplpVertexSetParent v p h)"
  "ToplpIsEdge h e \<Longrightarrow> p \<noteq> NULL \<Longrightarrow> \<not> ToplpIsVertex h p \<Longrightarrow> ToplEdgeSetToVertex e p h = Inl TOPL_EX_WRONG_OBJECT"
  by (simp_all add: ToplVertexSetParent_def ToplEdgeSetToVertex_def wrong_object_if_def)

end
