(* ===== verification/Topl_Ring.thy ===== *)
theory Topl_Ring
  imports Topl_Wrappers
begin

text \<open>
  Rings, \<^verbatim>\<open>ds/src/common/w32topl/toplring.c\<close>: which edges a graph needs so that its vertices, in the order
  of their ids, form a one-way or two-way ring. The growing array of edges of that file, which the
  spanning-tree code uses too, is a record of the block, the count and the allocated size, which the
  source keeps in a static variable.
\<close>

section \<open>Growing arrays of edges\<close>

record EDGE_ARRAY =
  ea_array :: "ptr option list option"
  ea_count :: nat
  ea_ElementsAllocated :: nat

definition EdgeArrayInit :: EDGE_ARRAY where
  "EdgeArrayInit = \<lparr>ea_array = None, ea_count = 0, ea_ElementsAllocated = 0\<rparr>"

definition EdgeArrayAdd :: "EDGE_ARRAY \<Rightarrow> ptr \<Rightarrow> EDGE_ARRAY" where
  "EdgeArrayAdd a edge =
     (let a = (if ea_count a \<ge> ea_ElementsAllocated a
               then let n = ea_ElementsAllocated a + CHUNK_SIZE
                    in a\<lparr>ea_ElementsAllocated := n,
                         ea_array := Some (case ea_array a of
                             Some xs \<Rightarrow> grow_cells xs n
                           | None \<Rightarrow> replicate n None)\<rparr>
               else a)
      in a\<lparr>ea_array := map_option (\<lambda>xs. xs[ea_count a := Some edge]) (ea_array a),
           ea_count := ea_count a + 1\<rparr>)"

definition edge_array_ok :: "EDGE_ARRAY \<Rightarrow> bool" where
  "edge_array_ok a \<longleftrightarrow>
     (case ea_array a of
        None \<Rightarrow> ea_count a = 0 \<and> ea_ElementsAllocated a = 0
      | Some xs \<Rightarrow> length xs = ea_ElementsAllocated a \<and> ea_count a \<le> length xs \<and>
                   (\<forall>i<ea_count a. xs ! i \<noteq> None))"

definition edge_array_list :: "EDGE_ARRAY \<Rightarrow> ptr list" where
  "edge_array_list a = (case ea_array a of None \<Rightarrow> [] | Some xs \<Rightarrow> map the (take (ea_count a) xs))"

definition edge_array_get :: "EDGE_ARRAY \<Rightarrow> nat \<Rightarrow> ptr option" where
  "edge_array_get a i = (case ea_array a of Some xs \<Rightarrow> if i < length xs then xs ! i else None | None \<Rightarrow> None)"

lemma EdgeArrayInit_ok: "edge_array_ok EdgeArrayInit" and EdgeArrayInit_list [simp]: "edge_array_list EdgeArrayInit = []"
  by (simp_all add: edge_array_ok_def edge_array_list_def EdgeArrayInit_def)

interpretation edge_array: growable_array ea_count edge_array_get EdgeArrayAdd edge_array_ok edge_array_list
proof (unfold_locales, goal_cases)
  case (1 a)
  then show ?case
    by (auto simp: edge_array_ok_def edge_array_list_def split: option.splits)
next
  case (2 a i)
  then show ?case
    by (auto simp: edge_array_ok_def edge_array_list_def edge_array_get_def split: option.splits)
next
  case (3 a x)
  then show ?case
    by (auto simp: edge_array_ok_def EdgeArrayAdd_def edge_array_list_def CHUNK_SIZE_def Let_def
        take_Suc_conv_app_nth split: option.splits)
next
  case (4 a x)
  then show ?case
    by (auto simp: edge_array_ok_def EdgeArrayAdd_def CHUNK_SIZE_def Let_def nth_list_update
        less_Suc_eq split: option.splits)
qed

section \<open>Making a ring\<close>

definition compareVertices :: "topl_mem \<Rightarrow> ptr \<Rightarrow> ptr \<Rightarrow> int" where
  "compareVertices h pV1 pV2 =
     (if ToplpVertexGetId h pV1 < ToplpVertexGetId h pV2 then - 1
      else if ToplpVertexGetId h pV1 > ToplpVertexGetId h pV2 then 1 else 0)"

definition TOPL_RING_TWO_WAY :: dword where
  "TOPL_RING_TWO_WAY = push_bit 2 1"

definition ring_forward :: "nat \<Rightarrow> nat \<Rightarrow> nat" where
  "ring_forward VertexCount Index = (if Index = VertexCount - 1 then 0 else Index + 1)"

definition ring_backward :: "nat \<Rightarrow> nat \<Rightarrow> nat" where
  "ring_backward VertexCount Index = (if Index = 0 then VertexCount - 1 else Index - 1)"

text \<open>The optional array of edges to keep: \<open>None\<close> when the caller passed a null pointer.\<close>

definition keep_edge :: "ptr \<Rightarrow> EDGE_ARRAY option \<Rightarrow> EDGE_ARRAY option" where
  "keep_edge Edge EdgesToKeep = map_option (\<lambda>a. EdgeArrayAdd a Edge) EdgesToKeep"

text \<open>One edge that leaves the vertex: is it needed for the ring?\<close>

definition ring_scan_edge ::
  "topl_mem \<Rightarrow> bool \<Rightarrow> ptr \<Rightarrow> ptr \<Rightarrow> ptr \<Rightarrow> nat \<Rightarrow>
   EDGE_ARRAY option \<times> bool \<times> bool \<Rightarrow> (EDGE_ARRAY option \<times> bool \<times> bool) topl" where
  "ring_scan_edge h fMakeTwoWay v Forward Backward EdgeIndex = (\<lambda>(keep, fFoundForward, fFoundBackward).
     bindE (ToplVertexGetOutEdge v (of_nat EdgeIndex) h) (\<lambda>Edge.
       Inr (if ToplpEdgeGetToVertex h Edge = Forward then (keep_edge Edge keep, True, fFoundBackward)
            else if ToplpEdgeGetToVertex h Edge = Backward \<and> fMakeTwoWay
            then (keep_edge Edge keep, fFoundForward, True)
            else (keep, fFoundForward, fFoundBackward))))"

definition ring_new_edge :: "ptr \<Rightarrow> ptr \<Rightarrow> LIST \<times> topl_mem \<Rightarrow> LIST \<times> topl_mem" where
  "ring_new_edge From To = (\<lambda>(l, h).
     let (Edge, h) = ToplpEdgeCreate NULL h;
         h = ToplpEdgeSetFromVertex Edge From h;
         h = ToplpEdgeSetToVertex Edge To h
     in ToplpListAddElem l Edge h)"

definition ring_vertex ::
  "bool \<Rightarrow> ptr list \<Rightarrow> nat \<Rightarrow> EDGE_ARRAY option \<times> LIST \<times> topl_mem \<Rightarrow>
   (EDGE_ARRAY option \<times> LIST \<times> topl_mem) topl" where
  "ring_vertex fMakeTwoWay VertexArray Index = (\<lambda>(keep, EdgesToAdd, h).
     let v = VertexArray ! Index; VertexCount = length VertexArray;
         ForwardVertexIndex = ring_forward VertexCount Index;
         BackwardVertexIndex = ring_backward VertexCount Index;
         Forward = VertexArray ! ForwardVertexIndex; Backward = VertexArray ! BackwardVertexIndex
     in bindE (ToplVertexNumberOfOutEdges v h) (\<lambda>n.
        bindE (foldE (ring_scan_edge h fMakeTwoWay v Forward Backward) [0..<n] (keep, False, False))
          (\<lambda>(keep, fFoundForwardEdge, fFoundBackwardEdge).
        Inr (if Index = ForwardVertexIndex then (keep, EdgesToAdd, h)
             else
               let (EdgesToAdd, h) = (if \<not> fFoundForwardEdge then ring_new_edge v Forward (EdgesToAdd, h)
                                      else (EdgesToAdd, h));
                   (EdgesToAdd, h) = (if fMakeTwoWay \<and> Backward \<noteq> Forward \<and> \<not> fFoundBackwardEdge
                                      then ring_new_edge v Backward (EdgesToAdd, h) else (EdgesToAdd, h))
               in (keep, EdgesToAdd, h)))))"

text \<open>
  The loop that leaves early does so at the only vertex of a graph with one vertex. The clean-up of
  \<^verbatim>\<open>__finally\<close> after an exception is not modelled, as the exception is all that is returned.
\<close>

definition ToplpGraphMakeRing ::
  "GRAPH \<Rightarrow> dword \<Rightarrow> LIST \<Rightarrow> bool \<Rightarrow> topl_mem \<Rightarrow> (EDGE_ARRAY option \<times> LIST \<times> topl_mem) topl option" where
  "ToplpGraphMakeRing Graph Flags EdgesToAdd fKeep h =
     (let fMakeTwoWay = (Flags AND TOPL_RING_TWO_WAY \<noteq> 0);
          EdgesToKeep = (if fKeep then Some EdgeArrayInit else None)
      in case ToplGraphNumberOfVertices (Some Graph) of
           Inl ex \<Rightarrow> Some (Inl ex)
         | Inr _ \<Rightarrow>
             map_option
               (\<lambda>r. bindE r (\<lambda>(h, VertexArray).
                  let VertexArray = c_qsort (compareVertices h) VertexArray
                  in foldE (ring_vertex fMakeTwoWay VertexArray) [0..<length VertexArray]
                       (EdgesToKeep, EdgesToAdd, h)))
               (iter_loop (\<lambda>Vertex (h, VertexArray). Inr (h, VertexArray @ [Vertex]))
                  (ToplpGraphSetVertexIter Graph ToplpIterCreate) (h, [])))"

definition ToplGraphMakeRing ::
  "GRAPH option \<Rightarrow> dword \<Rightarrow> LIST option \<Rightarrow> bool \<Rightarrow> topl_mem \<Rightarrow>
   (EDGE_ARRAY option \<times> LIST \<times> topl_mem) topl option" where
  "ToplGraphMakeRing Graph Flags EdgesToAdd fKeep h =
     (if \<not> ToplpIsGraph Graph \<or> \<not> ToplpIsList EdgesToAdd then Some (Inl TOPL_EX_WRONG_OBJECT)
      else ToplpGraphMakeRing (the Graph) Flags (the EdgesToAdd) fKeep h)"

section \<open>The edges that leave a vertex\<close>

lemma ToplVertexGetOutEdge_nth:
  assumes "vertex_ok h v" and "i < length (out_list h v)" and "length (out_list h v) < 2 ^ 31"
  shows "ToplVertexGetOutEdge v (of_nat i) h = Inr (out_list h v ! i)"
  using assms not_bad_index [OF assms(2,3)]
  by (simp add: ToplVertexGetOutEdge_def wrong_object_if_def vertex_ok_def ToplpVertexGetOutEdge_def
      ptr_array.count_contents ptr_array.retrieve_contents)

lemma ToplVertexNumberOfOutEdges_length:
  "vertex_ok h v \<Longrightarrow> ToplVertexNumberOfOutEdges v h = Inr (length (out_list h v))"
  by (simp add: ToplVertexNumberOfOutEdges_def wrong_object_if_def vertex_ok_def ToplpVertexNumberOfOutEdges_def
      ptr_array.count_contents)

abbreviation To :: "topl_mem \<Rightarrow> ptr \<Rightarrow> ptr" where
  "To \<equiv> ToplpEdgeGetToVertex"

abbreviation From :: "topl_mem \<Rightarrow> ptr \<Rightarrow> ptr" where
  "From \<equiv> ToplpEdgeGetFromVertex"

definition needed :: "topl_mem \<Rightarrow> bool \<Rightarrow> ptr \<Rightarrow> ptr \<Rightarrow> ptr \<Rightarrow> bool" where
  "needed h two F B e \<longleftrightarrow> To h e = F \<or> two \<and> To h e = B"

lemma keep_edge_fold:
  "keep_edge e (map_option (\<lambda>a. foldl EdgeArrayAdd a es) keep) = map_option (\<lambda>a. foldl EdgeArrayAdd a (es @ [e])) keep"
  by (cases keep) (simp_all add: keep_edge_def)

lemma ring_scan_edges:
  assumes "vertex_ok h v" and "length (out_list h v) < 2 ^ 31" and "n \<le> length (out_list h v)"
  shows "foldE (ring_scan_edge h two v F B) [0..<n] (keep, False, False) =
    Inr (map_option (\<lambda>a. foldl EdgeArrayAdd a (filter (needed h two F B) (take n (out_list h v)))) keep,
         (\<exists>e\<in>set (take n (out_list h v)). To h e = F),
         two \<and> (\<exists>e\<in>set (take n (out_list h v)). To h e \<noteq> F \<and> To h e = B))"
  using assms(3)
proof (induction n)
  case 0
  then show ?case by (cases keep) auto
next
  case (Suc n)
  have "ToplVertexGetOutEdge v (of_nat n) h = Inr (out_list h v ! n)"
    using Suc.prems assms by (intro ToplVertexGetOutEdge_nth) auto
  with Suc show ?case
    by (auto simp: foldE_append ring_scan_edge_def take_Suc_conv_app_nth keep_edge_fold needed_def)
qed

section \<open>New edges\<close>

lemma ring_new_edge_spec:
  assumes "list_ok l h ys" and "mem_elem h (mem_next h) = None" and "0 < mem_next h"
  obtains l' h' where "ring_new_edge f t (l, h) = (l', h')" and "list_ok l' h' (mem_next h # ys)"
    and "mem_next h' = Suc (mem_next h)" and "\<And>p. p \<noteq> mem_next h \<Longrightarrow> mem_elem h' p = mem_elem h p"
    and "ToplpIsEdge h' (mem_next h)" and "From h' (mem_next h) = f" and "To h' (mem_next h) = t"
proof -
  define e where "e = mem_next h"
  define h1 where "h1 = ToplpEdgeSetToVertex e t (ToplpEdgeSetFromVertex e f (snd (ToplpEdgeCreate NULL h)))"
  have e: "e \<noteq> NULL" "e \<notin> set ys"
    using assms chain_valid [of h "ls_Head l" ys e] by (auto simp: list_ok_def e_def)
  have h1: "mem_elem h1 e = Some ((zero_elem eEdge)\<lparr>el_EdgeData := \<lparr>ed_To = t, ed_From = f, ed_Weight = 0\<rparr>\<rparr>)"
      "\<And>p. p \<noteq> e \<Longrightarrow> mem_elem h1 p = mem_elem h p" "mem_next h1 = Suc e"
    by (auto simp: h1_def ToplpEdgeSetToVertex_def ToplpEdgeSetFromVertex_def mem_elem_upd_edata ToplpEdgeCreate_def
        alloc_elem_def e_def zero_elem_def)
  have ok: "list_ok l h1 ys"
    using e(2) h1(2) by (intro list_ok_cells [OF assms(1)]) metis
  have eq: "ring_new_edge f t (l, h) = ToplpListAddElem l e h1"
    by (simp add: ring_new_edge_def ToplpEdgeCreate_def alloc_elem_def h1_def e_def split_beta Let_def)
  show thesis
  proof (rule that [of "fst (ToplpListAddElem l e h1)" "snd (ToplpListAddElem l e h1)"])
    show "list_ok (fst (ToplpListAddElem l e h1)) (snd (ToplpListAddElem l e h1)) (mem_next h # ys)"
      using ToplpListAddElem_ok [OF ok e(1) _ e(2)] h1(1) by (simp add: e_def)
  qed (use eq e h1 in \<open>auto simp: ToplpListAddElem_def mem_elem_set_Next set_Next_def ToplpIsEdge_def elem_type_def
        zero_elem_def ToplpEdgeGetFromVertex_def ToplpEdgeGetToVertex_def simp flip: e_def\<close>)
qed

section \<open>One vertex of the ring\<close>

text \<open>The pairs of vertices the loop joins by new edges at position \<open>i\<close> of the sorted vertices \<open>V\<close>.\<close>

definition ring_pairs :: "topl_mem \<Rightarrow> bool \<Rightarrow> ptr list \<Rightarrow> nat \<Rightarrow> (ptr \<times> ptr) list" where
  "ring_pairs h two V i =
     (let F = V ! ring_forward (length V) i; B = V ! ring_backward (length V) i; es = set (out_list h (V ! i))
      in if i = ring_forward (length V) i then []
         else (if \<exists>e\<in>es. To h e = F then [] else [(V ! i, F)]) @
              (if two \<and> B \<noteq> F \<and> \<not> (\<exists>e\<in>es. To h e \<noteq> F \<and> To h e = B) then [(V ! i, B)] else []))"

definition ring_kept :: "topl_mem \<Rightarrow> bool \<Rightarrow> ptr list \<Rightarrow> nat \<Rightarrow> ptr list" where
  "ring_kept h two V i =
     filter (needed h two (V ! ring_forward (length V) i) (V ! ring_backward (length V) i)) (out_list h (V ! i))"

text \<open>The memory and the list of new edges after some rounds of the loop, which joined \<open>pairs\<close>.\<close>

definition ring_state :: "topl_mem \<Rightarrow> ptr list \<Rightarrow> (ptr \<times> ptr) list \<Rightarrow> LIST \<Rightarrow> topl_mem \<Rightarrow> bool" where
  "ring_state h0 ys pairs l h \<longleftrightarrow>
     mem_next h = mem_next h0 + length pairs \<and> list_ok l h (rev [mem_next h0..<mem_next h] @ ys) \<and>
     (\<forall>p. p < mem_next h0 \<or> mem_next h \<le> p \<longrightarrow> mem_elem h p = mem_elem h0 p) \<and>
     (\<forall>i<length pairs. ToplpIsEdge h (mem_next h0 + i) \<and>
        (From h (mem_next h0 + i), To h (mem_next h0 + i)) = pairs ! i)"

lemma edge_cell_cong:
  assumes "mem_elem h' p = mem_elem h p"
  shows "ToplpIsEdge h' p = ToplpIsEdge h p" "ToplpIsVertex h' p = ToplpIsVertex h p"
    "From h' p = From h p" "To h' p = To h p" "ToplpEdgeGetWeight h' p = ToplpEdgeGetWeight h p"
  using assms by (simp_all add: ToplpIsEdge_def ToplpIsVertex_def elem_type_def ToplpEdgeGetFromVertex_def
      ToplpEdgeGetToVertex_def ToplpEdgeGetWeight_def)

lemma ring_state_new:
  assumes h0: "objects_ok h0" and st: "ring_state h0 ys pairs l h"
  obtains l' h' where "ring_new_edge f t (l, h) = (l', h')" and "ring_state h0 ys (pairs @ [(f, t)]) l' h'"
proof -
  have next_h: "mem_next h = mem_next h0 + length pairs"
    using st by (simp add: ring_state_def)
  have fresh: "mem_elem h (mem_next h) = None" "0 < mem_next h"
    using h0 st by (auto simp: ring_state_def objects_ok_def)
  have ok: "list_ok l h (rev [mem_next h0..<mem_next h] @ ys)"
    using st unfolding ring_state_def by blast
  show thesis
  proof (rule ring_new_edge_spec [OF ok fresh, of f t])
    fix l' h'
    assume new: "ring_new_edge f t (l, h) = (l', h')" "list_ok l' h' (mem_next h # rev [mem_next h0..<mem_next h] @ ys)"
      "mem_next h' = Suc (mem_next h)" "\<And>p. p \<noteq> mem_next h \<Longrightarrow> mem_elem h' p = mem_elem h p"
      "ToplpIsEdge h' (mem_next h)" "From h' (mem_next h) = f" "To h' (mem_next h) = t"
    have "ring_state h0 ys (pairs @ [(f, t)]) l' h'"
      unfolding ring_state_def
    proof (intro conjI allI impI)
      show "list_ok l' h' (rev [mem_next h0..<mem_next h'] @ ys)"
        using new(2,3) next_h by simp
      show "mem_elem h' p = mem_elem h0 p" if "p < mem_next h0 \<or> mem_next h' \<le> p" for p
        using that new(3) new(4) [of p] st next_h by (auto simp: ring_state_def)
    next
      fix i assume i: "i < length (pairs @ [(f, t)])"
      have cells: "mem_elem h' (mem_next h0 + i) = mem_elem h (mem_next h0 + i)" if "i < length pairs"
        using that next_h by (intro new(4)) simp
      show "ToplpIsEdge h' (mem_next h0 + i)"
        using i new(5) next_h st edge_cell_cong(1) [OF cells]
        by (cases "i = length pairs") (auto simp: ring_state_def)
      show "(From h' (mem_next h0 + i), To h' (mem_next h0 + i)) = (pairs @ [(f, t)]) ! i"
        using i new(6,7) next_h st edge_cell_cong(3,4) [OF cells]
        by (cases "i = length pairs") (auto simp: ring_state_def nth_append)
    qed (use new(3) next_h in simp)
    with new(1) show thesis
      by (rule that)
  qed
qed

lemma ring_state_new_if:
  assumes h0: "objects_ok h0" and st: "ring_state h0 ys pairs l h"
  obtains l' h' where "(if b then ring_new_edge f t (l, h) else (l, h)) = (l', h')"
    and "ring_state h0 ys (pairs @ (if b then [(f, t)] else [])) l' h'"
proof (cases b)
  case True
  show thesis
    by (rule ring_state_new [OF h0 st, of f t], rule that) (use True in simp_all)
next
  case False
  then show thesis
    using st by (intro that [of l h]) simp_all
qed

lemma ring_state_old:
  assumes h0: "objects_ok h0" and st: "ring_state h0 ys pairs l h" and v: "ToplpIsVertex h0 v"
  shows "vertex_ok h v" and "out_list h v = out_list h0 v"
    and "\<And>e. e \<in> set (out_list h0 v) \<Longrightarrow> To h e = To h0 e"
proof -
  have old: "mem_elem h p = mem_elem h0 p" if "mem_elem h0 p \<noteq> None" for p
    using st objects_ok_below [OF h0 that] by (simp add: ring_state_def)
  have cell: "mem_elem h v = mem_elem h0 v"
    using old ToplpIsVertex_alive [OF v] by simp
  show "vertex_ok h v" and "out_list h v = out_list h0 v"
    using objects_ok_vertex [OF h0 v] cell edge_cell_cong(2) [OF cell] by (simp_all add: vertex_ok_def)
  show "To h e = To h0 e" if "e \<in> set (out_list h0 v)" for e
    using objects_ok_out [OF h0 v that] old [of e] ToplpIsEdge_alive
    by (intro edge_cell_cong) (auto simp: edge_leaves_def)
qed

lemma ring_vertex_spec:
  assumes h0: "objects_ok h0" and st: "ring_state h0 ys pairs l h"
    and v: "ToplpIsVertex h0 (V ! i)" "length (out_list h0 (V ! i)) < 2 ^ 31"
  obtains l' h' where
    "ring_vertex two V i (keep, l, h) =
       Inr (map_option (\<lambda>a. foldl EdgeArrayAdd a (ring_kept h0 two V i)) keep, l', h')"
    and "ring_state h0 ys (pairs @ ring_pairs h0 two V i) l' h'"
proof -
  let ?v = "V ! i" and ?F = "V ! ring_forward (length V) i" and ?B = "V ! ring_backward (length V) i"
  note old = ring_state_old [OF h0 st v(1)]
  let ?fwd = "\<exists>e\<in>set (out_list h0 ?v). To h0 e = ?F"
  let ?bwd = "two \<and> (\<exists>e\<in>set (out_list h0 ?v). To h0 e \<noteq> ?F \<and> To h0 e = ?B)"
  have kept: "filter (needed h two ?F ?B) (out_list h0 ?v) = ring_kept h0 two V i"
    using old(3) by (auto simp: ring_kept_def needed_def intro: filter_cong)
  have scan: "foldE (ring_scan_edge h two ?v ?F ?B) [0..<length (out_list h ?v)] (keep, False, False) =
      Inr (map_option (\<lambda>a. foldl EdgeArrayAdd a (ring_kept h0 two V i)) keep, ?fwd, ?bwd)"
    using ring_scan_edges [OF old(1), of "length (out_list h ?v)" two ?F ?B keep] old(2,3) v(2) kept by simp
  obtain l1 h1 where one: "(if \<not> ?fwd then ring_new_edge ?v ?F (l, h) else (l, h)) = (l1, h1)"
      "ring_state h0 ys (pairs @ (if \<not> ?fwd then [(?v, ?F)] else [])) l1 h1"
    by (rule ring_state_new_if [OF h0 st])
  let ?new = "two \<and> ?B \<noteq> ?F \<and> \<not> ?bwd"
  obtain l2 h2 where snd_edge: "(if ?new then ring_new_edge ?v ?B (l1, h1) else (l1, h1)) = (l2, h2)"
      "ring_state h0 ys ((pairs @ (if \<not> ?fwd then [(?v, ?F)] else [])) @ (if ?new then [(?v, ?B)] else [])) l2 h2"
    by (rule ring_state_new_if [OF h0 one(2)])
  have eq: "ring_vertex two V i (keep, l, h) =
      Inr (map_option (\<lambda>a. foldl EdgeArrayAdd a (ring_kept h0 two V i)) keep,
           if i = ring_forward (length V) i then (l, h) else (l2, h2))"
    by (simp only: ring_vertex_def ToplVertexNumberOfOutEdges_length old(1) Let_def bindE_simps prod.case scan
        one(1) snd_edge(1)) simp
  show thesis
  proof (cases "i = ring_forward (length V) i")
    case True
    then have "ring_pairs h0 two V i = []"
      by (simp add: ring_pairs_def)
    with True eq st show thesis
      by (intro that [of l h]) simp_all
  next
    case False
    then have "ring_pairs h0 two V i = (if \<not> ?fwd then [(?v, ?F)] else []) @ (if ?new then [(?v, ?B)] else [])"
      unfolding ring_pairs_def Let_def by (cases two) simp_all
    with False eq snd_edge(2) show thesis
      by (intro that [of l2 h2]) (simp_all only: if_False append_assoc)
  qed
qed

lemma ring_loop_spec:
  assumes h0: "objects_ok h0" and l: "list_ok l0 h0 ys"
    and V: "\<And>v. v \<in> set V \<Longrightarrow> ToplpIsVertex h0 v \<and> length (out_list h0 v) < 2 ^ 31" and n: "n \<le> length V"
  shows "\<exists>l h. foldE (ring_vertex two V) [0..<n] (keep, l0, h0) =
      Inr (map_option (\<lambda>a. foldl EdgeArrayAdd a (concat (map (ring_kept h0 two V) [0..<n]))) keep, l, h) \<and>
    ring_state h0 ys (concat (map (ring_pairs h0 two V) [0..<n])) l h"
  using n
proof (induction n)
  case 0
  then show ?case
    using l by (cases keep) (auto simp: ring_state_def)
next
  case (Suc n)
  then obtain l h where IH: "foldE (ring_vertex two V) [0..<n] (keep, l0, h0) =
      Inr (map_option (\<lambda>a. foldl EdgeArrayAdd a (concat (map (ring_kept h0 two V) [0..<n]))) keep, l, h)"
    "ring_state h0 ys (concat (map (ring_pairs h0 two V) [0..<n])) l h"
    by auto
  let ?keep = "map_option (\<lambda>a. foldl EdgeArrayAdd a (concat (map (ring_kept h0 two V) [0..<n]))) keep"
  have v: "ToplpIsVertex h0 (V ! n)" "length (out_list h0 (V ! n)) < 2 ^ 31"
    using V [of "V ! n"] Suc.prems by auto
  obtain l' h' where step: "ring_vertex two V n (?keep, l, h) =
      Inr (map_option (\<lambda>a. foldl EdgeArrayAdd a (ring_kept h0 two V n)) ?keep, l', h')"
    "ring_state h0 ys (concat (map (ring_pairs h0 two V) [0..<n]) @ ring_pairs h0 two V n) l' h'"
    by (rule ring_vertex_spec [OF h0 IH(2) v])
  then show ?case
    by (simp add: foldE_append IH(1) option.map_comp o_def)
qed

interpretation vertex_compare: c_compare "compareVertices h" for h
  by unfold_locales (auto simp: compareVertices_def split: if_splits)

interpretation collect_vertices: walk_body "\<lambda>Vertex (h, VertexArray). Inr (h, VertexArray @ [Vertex])"
  by unfold_locales auto

lemma collect_vertices_list:
  "foldE (\<lambda>Vertex (h, VertexArray). Inr (h, VertexArray @ [Vertex])) xs (h, vs) = Inr (h, vs @ xs)"
  by (induction xs arbitrary: vs) auto

lemma ToplGraphMakeRing_spec:
  fixes Flags :: dword
  assumes h: "objects_ok h" and g: "graph_holds h g xs" and few: "few_edges h xs" and l: "list_ok l h ys"
  defines "V \<equiv> c_qsort (compareVertices h) xs" and "two \<equiv> Flags AND TOPL_RING_TWO_WAY \<noteq> 0"
  shows "\<exists>l' h'. ToplGraphMakeRing (Some g) Flags (Some l) fKeep h =
      Some (Inr (if fKeep then Some (foldl EdgeArrayAdd EdgeArrayInit (concat (map (ring_kept h two V) [0..<length V]))) else None,
        l', h')) \<and>
    ring_state h ys (concat (map (ring_pairs h two V) [0..<length V])) l' h'"
proof -
  have lists: "list_ok (gr_VertexList g) h xs" and gt: "gr_ObjectType g = eGraph"
    using g by (simp_all add: graph_holds_def)
  have walk: "iter_loop (\<lambda>Vertex (h, VertexArray). Inr (h, VertexArray @ [Vertex]))
      (ToplpGraphSetVertexIter g ToplpIterCreate) (h, []) = Some (Inr (h, xs))"
    using collect_vertices.iter_loop_list [of "gr_VertexList g" "(h, [])" xs ToplpIterCreate] lists
    by (simp add: ToplpGraphSetVertexIter_def collect_vertices_list)
  have V: "ToplpIsVertex h v \<and> length (out_list h v) < 2 ^ 31" if "v \<in> set V" for v
    using that g few by (auto simp: V_def graph_holds_def few_edges_def)
  have isl: "ToplpIsList (Some l)" "ToplpIsGraph (Some g)"
    using l gt by (simp_all add: ToplpIsList_def ToplpIsGraph_def list_ok_def)
  show ?thesis
    using ring_loop_spec [where V = V, OF h l V order.refl, where two = two and keep = "if fKeep then Some EdgeArrayInit else None"]
      isl walk
    by (auto simp: ToplGraphMakeRing_def ToplpGraphMakeRing_def ToplGraphNumberOfVertices_def wrong_object_if_def
        Let_def V_def two_def)
qed

section \<open>The ring\<close>

lemma ring_forward_mod: "i < n \<Longrightarrow> ring_forward n i = Suc i mod n"
  by (auto simp: ring_forward_def mod_if)

lemma ring_backward_mod: "i < n \<Longrightarrow> ring_backward n i = (i + n - 1) mod n"
  by (auto simp: ring_backward_def mod_if)

lemma ring_indices:
  assumes "i < n" and "2 \<le> n"
  shows "ring_forward n i < n" "ring_backward n i < n" "ring_forward n i \<noteq> i"
  using assms by (auto simp: ring_forward_def ring_backward_def)

lemma ring_pairs_from: "(a, b) \<in> set (ring_pairs h two V i) \<Longrightarrow> a = V ! i"
  by (auto simp: ring_pairs_def Let_def split: if_splits)

lemma distinct_ring_pairs: "distinct (ring_pairs h two V i)"
  by (auto simp: ring_pairs_def Let_def)

lemma distinct_all_ring_pairs:
  assumes "distinct V" and "n \<le> length V"
  shows "distinct (concat (map (ring_pairs h two V) [0..<n]))"
  using assms(2)
proof (induction n)
  case (Suc n)
  have "V ! i \<noteq> V ! n" if "i < n" for i
    using that Suc.prems assms(1) by (simp add: nth_eq_iff_index_eq)
  then have "set (ring_pairs h two V i) \<inter> set (ring_pairs h two V n) = {}" if "i < n" for i
    using that ring_pairs_from by fastforce
  with Suc show ?case
    by (fastforce simp: distinct_ring_pairs)
qed simp

lemma ring_pairs_sound:
  assumes "p \<in> set (ring_pairs h two V i)" and "i < length V"
  shows "fst p = V ! i" and "\<forall>d\<in>set (out_list h (V ! i)). To h d \<noteq> snd p"
    and "snd p = V ! (Suc i mod length V) \<or> two \<and> snd p = V ! ((i + length V - 1) mod length V)"
  using assms by (auto simp: ring_pairs_def Let_def ring_forward_mod ring_backward_mod split: if_splits)

lemma ring_pairs_complete:
  assumes "i < length V" and "2 \<le> length V" and "distinct V"
  shows "(\<exists>d\<in>set (out_list h (V ! i)). To h d = V ! (Suc i mod length V)) \<or>
      (V ! i, V ! (Suc i mod length V)) \<in> set (ring_pairs h two V i)"
    and "two \<Longrightarrow> (\<exists>d\<in>set (out_list h (V ! i)). To h d = V ! ((i + length V - 1) mod length V)) \<or>
      (V ! i, V ! ((i + length V - 1) mod length V)) \<in> set (ring_pairs h two V i)"
proof -
  note idx = ring_indices [OF assms(1,2)] ring_forward_mod [OF assms(1), symmetric]
    ring_backward_mod [OF assms(1), symmetric]
  show "(\<exists>d\<in>set (out_list h (V ! i)). To h d = V ! (Suc i mod length V)) \<or>
      (V ! i, V ! (Suc i mod length V)) \<in> set (ring_pairs h two V i)"
    using idx(3) unfolding idx(4) by (auto simp: ring_pairs_def Let_def)
  show "(\<exists>d\<in>set (out_list h (V ! i)). To h d = V ! ((i + length V - 1) mod length V)) \<or>
      (V ! i, V ! ((i + length V - 1) mod length V)) \<in> set (ring_pairs h two V i)" if two
    using that idx(3) unfolding idx(5) by (auto simp: ring_pairs_def Let_def)
qed

lemma ring_state_pairs:
  assumes "ring_state h ys pairs l h'" and "objects_ok h"
  shows "p \<in> set pairs \<Longrightarrow> \<exists>e\<in>set (rev [mem_next h..<mem_next h']). (From h' e, To h' e) = p"
    and "map (\<lambda>e. (From h' e, To h' e)) (rev [mem_next h..<mem_next h']) = rev pairs"
    and "e \<in> set (rev [mem_next h..<mem_next h']) \<Longrightarrow>
      mem_elem h e = None \<and> ToplpIsEdge h' e \<and> (From h' e, To h' e) \<in> set pairs"
proof -
  have n: "mem_next h' = mem_next h + length pairs"
    and nth: "\<And>i. i < length pairs \<Longrightarrow> ToplpIsEdge h' (mem_next h + i) \<and>
        (From h' (mem_next h + i), To h' (mem_next h + i)) = pairs ! i"
    using assms(1) by (simp_all add: ring_state_def)
  have "map (\<lambda>e. (From h' e, To h' e)) [mem_next h..<mem_next h'] = pairs"
    using n nth by (intro nth_equalityI) auto
  then show eq: "map (\<lambda>e. (From h' e, To h' e)) (rev [mem_next h..<mem_next h']) = rev pairs"
    by (simp add: rev_map [symmetric])
  show "\<exists>e\<in>set (rev [mem_next h..<mem_next h']). (From h' e, To h' e) = p" if "p \<in> set pairs"
    using that eq by (metis (no_types, lifting) imageE list.set_map set_rev)
  show "mem_elem h e = None \<and> ToplpIsEdge h' e \<and> (From h' e, To h' e) \<in> set pairs"
    if e: "e \<in> set (rev [mem_next h..<mem_next h'])"
  proof -
    define i where "i = e - mem_next h"
    have "e = mem_next h + i" "i < length pairs"
      using e n by (auto simp: i_def)
    with nth [of i] assms(2) show ?thesis
      by (auto simp: objects_ok_def)
  qed
qed

lemma ring_kept_mod:
  assumes "i < length V"
  shows "ring_kept h two V i = filter (\<lambda>e. To h e = V ! (Suc i mod length V) \<or> two \<and> To h e = V ! ((i + length V - 1) mod length V))
    (out_list h (V ! i))"
  using assms by (auto simp: ring_kept_def needed_def ring_forward_mod ring_backward_mod intro!: filter_cong)

lemma ring_closed:
  assumes st: "ring_state h ys (concat (map (ring_pairs h two V) [0..<length V])) l h'" and h: "objects_ok h"
    and V: "\<forall>v\<in>set V. ToplpIsVertex h v" "distinct V" and i: "i < length V" "2 \<le> length V"
  defines "E \<equiv> set (out_list h (V ! i)) \<union> set (rev [mem_next h..<mem_next h'])"
  shows "\<exists>e\<in>E. From h' e = V ! i \<and> To h' e = V ! (Suc i mod length V)"
    and "two \<Longrightarrow> \<exists>e\<in>E. From h' e = V ! i \<and> To h' e = V ! ((i + length V - 1) mod length V)"
proof -
  have isv: "ToplpIsVertex h (V ! i)"
    using V(1) i(1) by simp
  have old: "mem_elem h' p = mem_elem h p" if "mem_elem h p \<noteq> None" for p
    using st objects_ok_below [OF h that] by (simp add: ring_state_def)
  have oldE: "From h' e = V ! i \<and> To h' e = To h e" if "e \<in> set (out_list h (V ! i))" for e
    using objects_ok_out [OF h isv that] edge_cell_cong(3,4) [OF old [of e]] ToplpIsEdge_alive
    by (auto simp: edge_leaves_def)
  have newE: "\<exists>e\<in>set (rev [mem_next h..<mem_next h']). From h' e = a \<and> To h' e = b"
    if "(a, b) \<in> set (ring_pairs h two V i)" for a b
    using ring_state_pairs(1) [OF st h, of "(a, b)"] that i(1) by fastforce
  show "\<exists>e\<in>E. From h' e = V ! i \<and> To h' e = V ! (Suc i mod length V)"
    using ring_pairs_complete(1) [OF i V(2)] oldE newE unfolding E_def by fastforce
  show "\<exists>e\<in>E. From h' e = V ! i \<and> To h' e = V ! ((i + length V - 1) mod length V)" if two
    using ring_pairs_complete(2) [OF i V(2) that] oldE newE unfolding E_def by fastforce
qed

lemma ring_needed:
  assumes st: "ring_state h ys (concat (map (ring_pairs h two V) [0..<length V])) l h'" and h: "objects_ok h"
    and e: "e \<in> set (rev [mem_next h..<mem_next h'])"
  shows "mem_elem h e = None \<and> ToplpIsEdge h' e \<and>
      (\<exists>i<length V. From h' e = V ! i \<and>
        (To h' e = V ! (Suc i mod length V) \<or> two \<and> To h' e = V ! ((i + length V - 1) mod length V)) \<and>
        (\<forall>d\<in>set (out_list h (V ! i)). To h d \<noteq> To h' e))"
proof -
  from ring_state_pairs(3) [OF st h e] obtain i where i: "i < length V" "(From h' e, To h' e) \<in> set (ring_pairs h two V i)"
      "mem_elem h e = None" "ToplpIsEdge h' e"
    by auto
  with ring_pairs_sound [OF i(2,1)] show ?thesis
    by auto
qed

section \<open>Properties\<close>

text \<open>C14. \<^verbatim>\<open>ToplGraphMakeRing\<close> on well-formed objects ends without an exception. With the vertices sorted by id, it
  records exactly the existing edges from a vertex to the next one, and to the previous one if a two-way
  ring is asked for. It adds new edges to the caller's list so that, if there are two vertices or more,
  existing and new edges together lead from every vertex to the next, and in a two-way ring to the
  previous one. Every new edge is such an edge, it is missing in the graph, and no two new edges join
  the same vertices. The objects that existed before do not change.\<close>

theorem ToplGraphMakeRing_correct:
  assumes h: "objects_ok h" and g: "graph_holds h g xs" and few: "few_edges h xs" and l: "list_ok l h ys"
    and V: "V = c_qsort (compareVertices h) xs" and n: "n = length V"
    and two: "two \<longleftrightarrow> Flags AND TOPL_RING_TWO_WAY \<noteq> 0"
  shows "\<exists>keep l' h' new.
    ToplGraphMakeRing (Some g) Flags (Some l) fKeep h = Some (Inr (keep, l', h')) \<and>
    list_ok l' h' (new @ ys) \<and>
    (\<forall>p. mem_elem h p \<noteq> None \<longrightarrow> mem_elem h' p = mem_elem h p) \<and>
    map_option edge_array_list keep =
      (if fKeep
       then Some (concat (map (\<lambda>i. filter (\<lambda>e. To h e = V ! (Suc i mod n) \<or> two \<and> To h e = V ! ((i + n - 1) mod n))
         (out_list h (V ! i))) [0..<n]))
       else None) \<and>
    (\<forall>i<n. 2 \<le> n \<longrightarrow>
      (\<exists>e\<in>set (out_list h (V ! i)) \<union> set new. From h' e = V ! i \<and> To h' e = V ! (Suc i mod n)) \<and>
      (two \<longrightarrow> (\<exists>e\<in>set (out_list h (V ! i)) \<union> set new. From h' e = V ! i \<and> To h' e = V ! ((i + n - 1) mod n)))) \<and>
    (\<forall>e\<in>set new. mem_elem h e = None \<and> ToplpIsEdge h' e \<and>
      (\<exists>i<n. From h' e = V ! i \<and> (To h' e = V ! (Suc i mod n) \<or> two \<and> To h' e = V ! ((i + n - 1) mod n)) \<and>
        (\<forall>d\<in>set (out_list h (V ! i)). To h d \<noteq> To h' e))) \<and>
    distinct (map (\<lambda>e. (From h' e, To h' e)) new)"
proof -
  let ?pairs = "concat (map (ring_pairs h two V) [0..<length V])" and ?kept = "concat (map (ring_kept h two V) [0..<length V])"
  obtain l' h' where run: "ToplGraphMakeRing (Some g) Flags (Some l) fKeep h =
        Some (Inr (if fKeep then Some (foldl EdgeArrayAdd EdgeArrayInit ?kept) else None, l', h'))"
      and st: "ring_state h ys ?pairs l' h'"
    using ToplGraphMakeRing_spec [OF h g few l, of Flags fKeep] unfolding V two by blast
  have old: "mem_elem h' p = mem_elem h p" if "mem_elem h p \<noteq> None" for p
    using st objects_ok_below [OF h that] by (simp add: ring_state_def)
  have list: "list_ok l' h' (rev [mem_next h..<mem_next h'] @ ys)"
    using st unfolding ring_state_def by blast
  have dist: "distinct V" and isv: "\<forall>v\<in>set V. ToplpIsVertex h v"
    using g vertex_compare.mset_c_qsort list_ok_distinct mset_eq_imp_distinct_iff
    unfolding V graph_holds_def by (blast, simp)
  have kept: "?kept = concat (map (\<lambda>i. filter (\<lambda>e. To h e = V ! (Suc i mod n) \<or> two \<and> To h e = V ! ((i + n - 1) mod n))
      (out_list h (V ! i))) [0..<n])"
    unfolding n by (intro arg_cong [of _ _ concat] map_cong refl) (simp add: ring_kept_mod)
  have "edge_array_list (foldl EdgeArrayAdd EdgeArrayInit ?kept) = ?kept"
    using edge_array.append_all [OF EdgeArrayInit_ok] by simp
  moreover have "distinct (map (\<lambda>e. (From h' e, To h' e)) (rev [mem_next h..<mem_next h']))"
    using ring_state_pairs(2) [OF st h] distinct_all_ring_pairs [OF dist order.refl] by simp
  ultimately show ?thesis
    using run old list kept ring_closed [OF st h isv dist] ring_needed [OF st h] unfolding n [symmetric]
    by (intro exI [of _ "if fKeep then Some (foldl EdgeArrayAdd EdgeArrayInit ?kept) else None"] exI [of _ l'] exI [of _ h']
        exI [of _ "rev [mem_next h..<mem_next h']"]) (simp add: n)
qed

lemma three_sites_sorted: "c_qsort (compareVertices (fst three_sites)) [3, 2, 1] = [2, 3, 1]"
  by (simp add: c_qsort_def compareVertices_def ToplpVertexGetId_def three_sites_eq with_out_edge_def with_in_edge_def
      site_elem_def)

theorem ToplGraphMakeRing_correct_witness:
  "\<exists>keep l' h' new.
     ToplGraphMakeRing (Some (fst (snd three_sites))) TOPL_RING_TWO_WAY (Some ToplpListCreate) True (fst three_sites) =
       Some (Inr (keep, l', h')) \<and>
     list_ok l' h' new \<and> map_option edge_array_list keep = Some [4] \<and>
     (\<exists>e\<in>set new. From h' e = 1 \<and> To h' e = 2)"
proof -
  have to: "To (fst three_sites) 4 = 3"
    by (simp add: ToplpEdgeGetToVertex_def three_sites_eq link_elem_def)
  have two: "True \<longleftrightarrow> TOPL_RING_TWO_WAY AND TOPL_RING_TWO_WAY \<noteq> 0"
    by (simp add: TOPL_RING_TWO_WAY_def)
  have len: "3 = length [2, 3, 1 :: nat]"
    by simp
  from ToplGraphMakeRing_correct [OF three_sites_holds three_sites_few ToplpListCreate_ok three_sites_sorted [symmetric] len two, of True]
  obtain keep l' h' new where
    run: "ToplGraphMakeRing (Some (fst (snd three_sites))) TOPL_RING_TWO_WAY (Some ToplpListCreate) True (fst three_sites) =
       Some (Inr (keep, l', h'))" "list_ok l' h' new"
    and keep: "map_option edge_array_list keep = Some (concat (map (\<lambda>i. filter (\<lambda>e. To (fst three_sites) e = [2, 3, 1] ! (Suc i mod 3) \<or>
         To (fst three_sites) e = [2, 3, 1] ! ((i + 3 - 1) mod 3)) (out_list (fst three_sites) ([2, 3, 1] ! i))) [0..<3]))"
    and ring: "\<forall>i<3. \<exists>e\<in>set (out_list (fst three_sites) ([2, 3, 1] ! i)) \<union> set new.
         From h' e = [2, 3, 1] ! i \<and> To h' e = [2, 3, 1] ! (Suc i mod 3)"
    by auto
  have "map_option edge_array_list keep = Some [4]"
    using keep by (simp add: upt_rec three_sites_arrays to)
  moreover have "\<exists>e\<in>set new. From h' e = 1 \<and> To h' e = 2"
    using ring [rule_format, of 2] by (simp add: three_sites_arrays)
  ultimately show ?thesis
    using run by blast
qed

end
