(* ===== verification/Topl_Prim.thy ===== *)
theory Topl_Prim
  imports Topl_Ring Topl_Heap Topl_Output
begin

text \<open>
  Spanning trees of the older interface, \<^verbatim>\<open>ds/src/common/w32topl/toplmst.c\<close>: Prim's algorithm over the
  vertices of a graph object, with the heap of \<^verbatim>\<open>toplheap.c\<close>, the ids of the vertices as keys and their
  parents as the tree, one tree after the other when the graph is not connected; and the edges of the
  tree at a given vertex. The array of components is a list, and a pointer into it an index.
\<close>

section \<open>Components\<close>

definition InitComponents :: "ptr TOPL_COMPONENT list" where
  "InitComponents = []"

definition AddNewComponent :: "ptr TOPL_COMPONENT list \<Rightarrow> nat \<times> ptr TOPL_COMPONENT list" where
  "AddNewComponent pComponents =
     (length pComponents, pComponents @ [\<lparr>tc_numVertices = 0, tc_vertexNames = None\<rparr>])"

definition AddVertexToComponent :: "topl_mem \<Rightarrow> ptr TOPL_COMPONENT \<Rightarrow> ptr \<Rightarrow> ptr TOPL_COMPONENT" where
  "AddVertexToComponent h pComponent u =
     (let newVtxID = tc_numVertices pComponent; n = newVtxID + 1;
          names = (case tc_vertexNames pComponent of
                     Some xs \<Rightarrow> grow_cells xs n
                   | None \<Rightarrow> replicate n None)
      in \<lparr>tc_numVertices = n, tc_vertexNames = Some (names[newVtxID := Some (vd_VertexName (vdata h u))])\<rparr>)"

text \<open>The search stops at the first component that has the name, or keeps component 0.\<close>

definition has_name :: "ptr \<Rightarrow> ptr TOPL_COMPONENT \<Rightarrow> bool" where
  "has_name name pComponent \<longleftrightarrow>
     list_ex (\<lambda>j. the (tc_vertexNames pComponent) ! j = Some name) [0..<tc_numVertices pComponent]"

definition MoveInterestingComponentToFront ::
  "topl_mem \<Rightarrow> ptr TOPL_COMPONENT list \<Rightarrow> ptr \<Rightarrow> ptr TOPL_COMPONENT list" where
  "MoveInterestingComponentToFront h pComponents VertexOfInterest =
     (let name = vd_VertexName (vdata h VertexOfInterest);
          ComponentOfInterest =
            (case find (\<lambda>i. has_name name (pComponents ! i)) [0..<length pComponents] of Some i \<Rightarrow> i | None \<Rightarrow> 0)
      in if ComponentOfInterest > 0
         then let temp = pComponents ! 0
              in (pComponents[0 := pComponents ! ComponentOfInterest])[ComponentOfInterest := temp]
         else pComponents)"

section \<open>Prim's algorithm\<close>

definition GetVertexKey :: "topl_mem \<Rightarrow> ptr \<Rightarrow> dword" where
  "GetVertexKey h p = ToplpVertexGetId h p"

type_synonym prim_queue = "topl_mem TOPL_HEAP_INFO"

definition prim_init_vertex ::
  "ptr \<Rightarrow> ptr \<Rightarrow> topl_mem \<times> prim_queue \<Rightarrow> (topl_mem \<times> prim_queue) topl" where
  "prim_init_vertex RootVertex Vertex = (\<lambda>(h, Q).
     let h = (if Vertex = RootVertex then ToplpVertexSetId RootVertex 0 h
              else ToplpVertexSetId Vertex DWORD_INFINITY h);
         h = ToplpVertexSetParent Vertex NULL h
     in Inr (h, ToplHeapInsert h Q Vertex))"

text \<open>One edge that leaves the vertex \<open>u\<close> taken off the queue.\<close>

definition prim_relax :: "prim_queue \<Rightarrow> ptr \<Rightarrow> nat \<Rightarrow> topl_mem \<Rightarrow> topl_mem topl" where
  "prim_relax Q u iEdge h =
     bindE (ToplpVertexGetOutEdge h u (of_nat iEdge)) (\<lambda>e.
       let v = ToplpEdgeGetToVertex h e; w = ToplpEdgeGetWeight h e
       in Inr (if ToplHeapIsElementOf Q v \<and> w < ToplpVertexGetId h v
               then ToplpVertexSetId v w (ToplpVertexSetParent v u h)
               else h))"

partial_function (option) prim_loop ::
  "topl_mem \<Rightarrow> prim_queue \<Rightarrow> ptr TOPL_COMPONENT list \<Rightarrow> nat \<Rightarrow> (topl_mem \<times> ptr TOPL_COMPONENT list) topl option" where
  "prim_loop h Q pComponents curComponent =
     (if ToplHeapIsEmpty Q then Some (Inr (h, pComponents))
      else
        let (u, Q) = ToplHeapExtractMin h Q;
            (curComponent, pComponents) =
              (if ToplpVertexGetId h u = DWORD_INFINITY then AddNewComponent pComponents
               else (curComponent, pComponents));
            pComponents = pComponents[curComponent := AddVertexToComponent h (pComponents ! curComponent) u]
        in case foldE (prim_relax Q u) [0..<ToplpVertexNumberOfOutEdges h u] h of
             Inl ex \<Rightarrow> Some (Inl ex)
           | Inr h \<Rightarrow> prim_loop h Q pComponents curComponent)"

declare prim_loop.simps [code]

definition ToplMST_Prim ::
  "GRAPH \<Rightarrow> ptr \<Rightarrow> topl_mem \<Rightarrow> (topl_mem \<times> ptr TOPL_COMPONENT list) topl option" where
  "ToplMST_Prim Graph RootVertex h =
     (let cVertices = unat (ToplpGraphNumberOfVertices Graph);
          Q = fst (ToplHeapCreate cVertices GetVertexKey)
      in bindO (iter_loop (prim_init_vertex RootVertex) (ToplpGraphSetVertexIter Graph ToplIterCreate) (h, Q))
           (\<lambda>(h, Q).
              let pComponents = InitComponents;
                  (curComponent, pComponents) = AddNewComponent pComponents
              in prim_loop h Q pComponents curComponent))"

text \<open>The edges of the tree at \<^verbatim>\<open>VertexOfInterest\<close> that enter it: from its parent, and from its children.\<close>

definition mst_in_edge :: "ptr \<Rightarrow> ptr \<Rightarrow> topl_mem \<Rightarrow> nat \<Rightarrow> EDGE_ARRAY \<Rightarrow> EDGE_ARRAY topl" where
  "mst_in_edge Vertex Source h iEdge a =
     bindE (ToplpVertexGetInEdge h Vertex (of_nat iEdge)) (\<lambda>e.
       Inr (if ToplpEdgeGetFromVertex h e = Source then EdgeArrayAdd a e else a))"

definition mst_vertex ::
  "ptr \<Rightarrow> ptr \<Rightarrow> topl_mem \<times> EDGE_ARRAY \<Rightarrow> (topl_mem \<times> EDGE_ARRAY) topl" where
  "mst_vertex VertexOfInterest Vertex = (\<lambda>(h, a).
     let Parent = ToplpVertexGetParent h Vertex
     in bindE (if Vertex = VertexOfInterest
               then foldE (mst_in_edge Vertex Parent h) [0..<ToplpVertexNumberOfInEdges h Vertex] a
               else Inr a) (\<lambda>a.
        bindE (if Parent = VertexOfInterest
               then foldE (mst_in_edge VertexOfInterest Vertex h)
                      [0..<ToplpVertexNumberOfInEdges h VertexOfInterest] a
               else Inr a) (\<lambda>a. Inr (h, a))))"

definition ToplpGraphFindEdgesForMST ::
  "GRAPH \<Rightarrow> ptr \<Rightarrow> ptr \<Rightarrow> topl_mem \<Rightarrow>
   (ptr TOPL_COMPONENT list \<times> EDGE_ARRAY \<times> topl_mem) topl option" where
  "ToplpGraphFindEdgesForMST Graph RootVertex VertexOfInterest h =
     bindO (ToplMST_Prim Graph RootVertex h) (\<lambda>(h, pComponents).
       let pComponents = MoveInterestingComponentToFront h pComponents VertexOfInterest
       in bindO (iter_loop (mst_vertex VertexOfInterest) (ToplpGraphSetVertexIter Graph ToplpIterCreate)
                   (h, EdgeArrayInit))
            (\<lambda>(h, pEdges). Some (Inr (pComponents, pEdges, h))))"

definition ToplGraphFindEdgesForMST ::
  "GRAPH option \<Rightarrow> ptr \<Rightarrow> ptr \<Rightarrow> topl_mem \<Rightarrow>
   (ptr TOPL_COMPONENT list \<times> EDGE_ARRAY \<times> topl_mem) topl option" where
  "ToplGraphFindEdgesForMST Graph RootVertex VertexOfInterest h =
     (if \<not> ToplpIsGraph Graph \<or> \<not> ToplpIsVertex h RootVertex \<or> \<not> ToplpIsVertex h VertexOfInterest
      then Some (Inl TOPL_EX_WRONG_OBJECT)
      else ToplpGraphFindEdgesForMST (the Graph) RootVertex VertexOfInterest h)"

section \<open>Memories that differ in ids and parents\<close>

definition forget_labels :: "LIST_ELEMENT \<Rightarrow> LIST_ELEMENT" where
  "forget_labels e = e\<lparr>el_VertexData := (el_VertexData e)\<lparr>vd_Id := 0, vd_Parent := NULL\<rparr>\<rparr>"

definition same_but_labels :: "ptr set \<Rightarrow> topl_mem \<Rightarrow> topl_mem \<Rightarrow> bool" where
  "same_but_labels S h h' \<longleftrightarrow> mem_next h' = mem_next h \<and>
     (\<forall>p. map_option forget_labels (mem_elem h' p) = map_option forget_labels (mem_elem h p)) \<and>
     (\<forall>p. p \<notin> S \<longrightarrow> mem_elem h' p = mem_elem h p)"

lemma same_but_labels_refl [simp]: "same_but_labels S h h"
  by (simp add: same_but_labels_def)

lemma same_but_labels_trans: "same_but_labels S h h' \<Longrightarrow> same_but_labels S h' h'' \<Longrightarrow> same_but_labels S h h''"
  by (simp add: same_but_labels_def)

lemma same_but_labels_upd:
  assumes "v \<in> S" and "\<And>d. (f d)\<lparr>vd_Id := 0, vd_Parent := NULL\<rparr> = d\<lparr>vd_Id := 0, vd_Parent := NULL\<rparr>"
  shows "same_but_labels S h (upd_vdata v f h)"
  using assms by (cases "mem_elem h v") (auto simp: same_but_labels_def mem_elem_upd_vdata forget_labels_def)

lemma same_but_labels_alive: "same_but_labels S h h' \<Longrightarrow> mem_elem h' p = None \<longleftrightarrow> mem_elem h p = None"
  unfolding same_but_labels_def by (metis map_option_is_None)

lemma same_but_labels_field:
  assumes same: "same_but_labels S h h'" and f: "\<And>e. f (forget_labels e) = f e" and p: "mem_elem h p \<noteq> None"
  shows "f (the (mem_elem h' p)) = f (the (mem_elem h p))"
proof -
  have "map_option forget_labels (mem_elem h' p) = map_option forget_labels (mem_elem h p)"
    using same by (simp add: same_but_labels_def)
  moreover have "mem_elem h' p \<noteq> None"
    using same_but_labels_alive [OF same] p by simp
  ultimately show ?thesis
    using p f by (metis option.collapse option.map_sel)
qed

lemma same_but_labels_type: "same_but_labels S h h' \<Longrightarrow> elem_type h' p = elem_type h p"
  using same_but_labels_field [of S h h' el_ObjectType p] same_but_labels_alive [of S h h' p]
  by (cases "mem_elem h p") (auto simp: elem_type_def forget_labels_def)

lemma same_but_labels_is:
  assumes "same_but_labels S h h'"
  shows "ToplpIsVertex h' p = ToplpIsVertex h p" "ToplpIsEdge h' p = ToplpIsEdge h p"
  using same_but_labels_type [OF assms] by (simp_all add: ToplpIsVertex_def ToplpIsEdge_def)

lemma same_but_labels_vertex:
  assumes same: "same_but_labels S h h'" and v: "ToplpIsVertex h v"
  shows "vd_OutEdges (vdata h' v) = vd_OutEdges (vdata h v)" "vd_InEdges (vdata h' v) = vd_InEdges (vdata h v)"
    "vd_VertexName (vdata h' v) = vd_VertexName (vdata h v)" "vertex_ok h' v = vertex_ok h v"
proof -
  have alive: "mem_elem h v \<noteq> None"
    using ToplpIsVertex_alive [OF v] by simp
  show eqs: "vd_OutEdges (vdata h' v) = vd_OutEdges (vdata h v)" "vd_InEdges (vdata h' v) = vd_InEdges (vdata h v)"
    "vd_VertexName (vdata h' v) = vd_VertexName (vdata h v)"
    by (rule same_but_labels_field [OF same _ alive]; simp add: forget_labels_def)+
  show "vertex_ok h' v = vertex_ok h v"
    by (simp add: vertex_ok_def eqs same_but_labels_is [OF same])
qed

lemma same_but_labels_edge:
  assumes same: "same_but_labels S h h'" and e: "ToplpIsEdge h e"
  shows "From h' e = From h e" "To h' e = To h e" "ToplpEdgeGetWeight h' e = ToplpEdgeGetWeight h e"
proof -
  have "edata h' e = edata h e"
    by (rule same_but_labels_field [OF same _ ToplpIsEdge_alive [OF e]]) (simp add: forget_labels_def)
  then show "From h' e = From h e" "To h' e = To h e" "ToplpEdgeGetWeight h' e = ToplpEdgeGetWeight h e"
    by (simp_all add: ToplpEdgeGetFromVertex_def ToplpEdgeGetToVertex_def ToplpEdgeGetWeight_def)
qed

lemma same_but_labels_Next: "same_but_labels S h h' \<Longrightarrow> Next h' p = Next h p"
  using same_but_labels_field [of S h h' el_Link p] same_but_labels_alive [of S h h' p]
  by (cases "mem_elem h p") (auto simp: Next_def forget_labels_def)

lemma same_but_labels_holds:
  assumes same: "same_but_labels S h h'" and g: "graph_holds h g xs"
  shows "graph_holds h' g xs"
  using g chain_cong [of h "ls_Head (gr_VertexList g)" xs h'] same_but_labels_Next [OF same]
    same_but_labels_alive [OF same] same_but_labels_is [OF same]
  by (simp add: graph_holds_def list_ok_def)

abbreviation Key :: "topl_mem \<Rightarrow> ptr \<Rightarrow> dword" where
  "Key \<equiv> ToplpVertexGetId"

abbreviation Par :: "topl_mem \<Rightarrow> ptr \<Rightarrow> ptr" where
  "Par \<equiv> ToplpVertexGetParent"

abbreviation Wt :: "topl_mem \<Rightarrow> ptr \<Rightarrow> dword" where
  "Wt \<equiv> ToplpEdgeGetWeight"

lemma labels_set:
  assumes "mem_elem h v \<noteq> None"
  shows "Key (ToplpVertexSetId v k h) x = (if x = v then k else Key h x)"
    "Par (ToplpVertexSetId v k h) x = Par h x"
    "Key (ToplpVertexSetParent v p h) x = Key h x"
    "Par (ToplpVertexSetParent v p h) x = (if x = v then p else Par h x)"
    "mem_elem (ToplpVertexSetParent v p h) v \<noteq> None" "mem_elem (ToplpVertexSetId v k h) v \<noteq> None"
  using assms by (auto simp: ToplpVertexGetId_def ToplpVertexGetParent_def ToplpVertexSetId_def ToplpVertexSetParent_def
      vdata_upd_vdata)

lemma same_but_labels_set:
  assumes "v \<in> S"
  shows "same_but_labels S h (ToplpVertexSetId v k h)" "same_but_labels S h (ToplpVertexSetParent v p h)"
  unfolding ToplpVertexSetId_def ToplpVertexSetParent_def by (rule same_but_labels_upd [OF assms]; simp)+

section \<open>Initialisation\<close>

interpretation prim_init: walk_body "prim_init_vertex root" for root
  by unfold_locales
    (auto simp: prim_init_vertex_def Let_def ToplpVertexSetId_def ToplpVertexSetParent_def split: if_splits)

lemma prim_init_fold:
  assumes "\<forall>x\<in>set xs. ToplpIsVertex h x" and "prim_heap_for GetVertexKey n Q"
    and "length (prim_heap_elems Q) + length xs \<le> n"
  shows "\<exists>h' Q'. foldE (prim_init_vertex root) xs (h, Q) = Inr (h', Q') \<and> same_but_labels (set xs) h h' \<and>
    prim_heap_for GetVertexKey n Q' \<and> mset (prim_heap_elems Q') = mset (prim_heap_elems Q) + mset xs \<and>
    (\<forall>x\<in>set xs. Key h' x = (if x = root then 0 else DWORD_INFINITY) \<and> Par h' x = NULL)"
  using assms
proof (induction xs rule: rev_induct)
  case Nil
  then show ?case by simp
next
  case (snoc x xs)
  then obtain h1 Q1 where IH: "foldE (prim_init_vertex root) xs (h, Q) = Inr (h1, Q1)" "same_but_labels (set xs) h h1"
      "prim_heap_for GetVertexKey n Q1" "mset (prim_heap_elems Q1) = mset (prim_heap_elems Q) + mset xs"
      "\<forall>x\<in>set xs. Key h1 x = (if x = root then 0 else DWORD_INFINITY) \<and> Par h1 x = NULL"
    by auto
  define h2 where "h2 = ToplpVertexSetParent x NULL (ToplpVertexSetId x (if x = root then 0 else DWORD_INFINITY) h1)"
  have run: "prim_init_vertex root x (h1, Q1) = Inr (h2, ToplHeapInsert h2 Q1 x)"
    by (simp add: prim_init_vertex_def h2_def Let_def)
  have x: "mem_elem h1 x \<noteq> None"
    using snoc.prems(1) ToplpIsVertex_alive [of h x] same_but_labels_alive [OF IH(2), of x] by auto
  have sz: "size (mset (prim_heap_elems Q1)) < n"
    using IH(4) snoc.prems(3) by simp
  have "same_but_labels (set (xs @ [x])) h1 h2"
    unfolding h2_def by (rule same_but_labels_trans; rule same_but_labels_set) simp_all
  moreover have "same_but_labels (set (xs @ [x])) h h1"
    using IH(2) by (auto simp: same_but_labels_def)
  ultimately have same: "same_but_labels (set (xs @ [x])) h h2"
    using same_but_labels_trans by blast
  have labels: "Key h2 y = (if y = x then (if x = root then 0 else DWORD_INFINITY) else Key h1 y)"
      "Par h2 y = (if y = x then NULL else Par h1 y)" for y
    using x by (simp_all add: h2_def labels_set)
  have lab: "\<forall>y\<in>set (xs @ [x]). Key h2 y = (if y = root then 0 else DWORD_INFINITY) \<and> Par h2 y = NULL"
    using labels IH(5) by auto
  show ?case
    using same lab prim_heap.ok_insert [OF IH(3) sz, of h2 x] prim_heap.elems_insert [OF IH(3) sz, of h2 x] IH(1,4) run
    by (intro exI [of _ h2] exI [of _ "ToplHeapInsert h2 Q1 x"]) (simp add: foldE_append)
qed

section \<open>Relaxation\<close>

text \<open>Labels after the first edges \<open>es\<close> that leave \<open>u\<close>, for the vertices \<open>R\<close> still queued.\<close>

definition relaxed :: "topl_mem \<Rightarrow> ptr \<Rightarrow> ptr set \<Rightarrow> ptr list \<Rightarrow> topl_mem \<Rightarrow> topl_mem \<Rightarrow> bool" where
  "relaxed h0 u R es h h' \<longleftrightarrow>
     (\<forall>v. v \<notin> R \<longrightarrow> Key h' v = Key h v \<and> Par h' v = Par h v) \<and>
     (\<forall>v\<in>R. Key h' v \<le> Key h v \<and> (\<forall>e\<in>set es. To h0 e = v \<longrightarrow> Key h' v \<le> Wt h0 e) \<and>
        (Key h' v = Key h v \<and> Par h' v = Par h v \<or>
         Par h' v = u \<and> (\<exists>e\<in>set es. To h0 e = v \<and> Wt h0 e = Key h' v)))"

lemma relaxed_step:
  assumes rel: "relaxed h0 u R es h h1"
    and h2: "h2 = (if To h0 e \<in> R \<and> Wt h0 e < Key h1 (To h0 e)
      then ToplpVertexSetId (To h0 e) (Wt h0 e) (ToplpVertexSetParent (To h0 e) u h1) else h1)"
    and alive: "mem_elem h1 (To h0 e) \<noteq> None"
  shows "relaxed h0 u R (es @ [e]) h h2"
proof (cases "To h0 e \<in> R \<and> Wt h0 e < Key h1 (To h0 e)")
  case True
  let ?v = "To h0 e"
  have lab: "Key h2 x = (if x = ?v then Wt h0 e else Key h1 x)" "Par h2 x = (if x = ?v then u else Par h1 x)" for x
    using True alive by (simp_all add: h2 labels_set)
  show ?thesis
    unfolding relaxed_def
  proof (intro conjI allI ballI impI)
    fix v assume "v \<notin> R"
    then show "Key h2 v = Key h v" "Par h2 v = Par h v"
      using rel True by (auto simp: relaxed_def lab)
  next
    fix v assume v: "v \<in> R"
    show "Key h2 v \<le> Key h v"
      using rel v True by (auto simp: relaxed_def lab intro: order.trans [OF less_imp_le])
    show "Key h2 v \<le> Wt h0 d" if "d \<in> set (es @ [e])" "To h0 d = v" for d
      using rel v True that by (auto simp: relaxed_def lab intro: order.trans [OF less_imp_le])
    show "Key h2 v = Key h v \<and> Par h2 v = Par h v \<or>
        Par h2 v = u \<and> (\<exists>e\<in>set (es @ [e]). To h0 e = v \<and> Wt h0 e = Key h2 v)"
      using rel v by (auto simp: relaxed_def lab)
  qed
next
  case False
  then have "h2 = h1"
    by (auto simp: h2)
  with rel False show ?thesis
    by (auto simp: relaxed_def not_less)
qed

lemma prim_relax_fold:
  assumes ok: "objects_ok h0" and same: "same_but_labels S h0 h" and u: "ToplpIsVertex h0 u"
    and few: "length (out_list h0 u) < 2 ^ 31" and Q: "prim_heap_ok Q" and R: "set (prim_heap_elems Q) \<subseteq> S"
    and k: "k \<le> length (out_list h0 u)"
  shows "\<exists>h'. foldE (prim_relax Q u) [0..<k] h = Inr h' \<and> same_but_labels S h0 h' \<and>
    relaxed h0 u (set (prim_heap_elems Q)) (take k (out_list h0 u)) h h'"
  using k
proof (induction k)
  case 0
  then show ?case
    using same by (simp add: relaxed_def)
next
  case (Suc k)
  then obtain h1 where IH: "foldE (prim_relax Q u) [0..<k] h = Inr h1" "same_but_labels S h0 h1"
      "relaxed h0 u (set (prim_heap_elems Q)) (take k (out_list h0 u)) h h1"
    by auto
  define e where "e = out_list h0 u ! k"
  have mem: "e \<in> set (out_list h0 u)" and takes: "take (Suc k) (out_list h0 u) = take k (out_list h0 u) @ [e]"
    using Suc.prems by (simp_all add: e_def take_Suc_conv_app_nth)
  have leaves: "edge_leaves h0 u e"
    by (rule objects_ok_out [OF ok u mem])
  then have e: "ToplpIsEdge h0 e" "ToplpIsVertex h0 (To h0 e)"
    by (simp_all add: edge_leaves_def)
  have out: "out_list h1 u = out_list h0 u" and vok: "vertex_ok h1 u"
    using same_but_labels_vertex [OF IH(2) u] objects_ok_vertex [OF ok u] by simp_all
  have get: "ToplpVertexGetOutEdge h1 u (of_nat k) = Inr e"
    using ToplVertexGetOutEdge_nth [OF vok, of k] Suc.prems few out vok
    by (simp add: ToplVertexGetOutEdge_def wrong_object_if_def vertex_ok_def e_def)
  define h2 where "h2 = (if To h0 e \<in> set (prim_heap_elems Q) \<and> Wt h0 e < Key h1 (To h0 e)
      then ToplpVertexSetId (To h0 e) (Wt h0 e) (ToplpVertexSetParent (To h0 e) u h1) else h1)"
  have step: "prim_relax Q u k h1 = Inr h2"
    using get same_but_labels_edge [OF IH(2) e(1)] ToplHeapIsElementOf_elems [OF Q]
    by (simp add: prim_relax_def h2_def Let_def)
  have alive: "mem_elem h1 (To h0 e) \<noteq> None"
    using ToplpIsVertex_alive [OF e(2)] same_but_labels_alive [OF IH(2)] by auto
  have "same_but_labels S h0 h2"
    using R same_but_labels_trans [OF IH(2) same_but_labels_trans [OF same_but_labels_set(2) same_but_labels_set(1)]] IH(2)
    by (auto simp: h2_def)
  with relaxed_step [OF IH(3) h2_def alive] show ?case
    by (simp add: foldE_append IH(1) step takes)
qed

section \<open>Growing the forest\<close>

text \<open>
  The vertex \<open>v\<close> joins the vertices \<open>D\<close> taken before: either as the root of a new tree, when no edge leads
  from \<open>D\<close> to a vertex of \<open>xs\<close> that is not in \<open>D\<close>, or over an edge from its parent, in \<open>D\<close>, that is as light
  as any edge from \<open>D\<close> to such a vertex.
\<close>

definition crosses :: "topl_mem \<Rightarrow> ptr list \<Rightarrow> ptr list \<Rightarrow> ptr \<Rightarrow> bool" where
  "crosses h0 xs D e \<longleftrightarrow> (\<exists>p\<in>set D. e \<in> set (out_list h0 p)) \<and> To h0 e \<in> set xs - set D"

definition grown :: "topl_mem \<Rightarrow> ptr list \<Rightarrow> topl_mem \<Rightarrow> ptr list \<Rightarrow> ptr \<Rightarrow> bool" where
  "grown h0 xs h D v \<longleftrightarrow>
     (if Par h v = NULL then \<forall>e. \<not> crosses h0 xs D e
      else Par h v \<in> set D \<and>
        (\<exists>e\<in>set (out_list h0 (Par h v)). To h0 e = v \<and> Wt h0 e = Key h v \<and>
          (\<forall>d. crosses h0 xs D d \<longrightarrow> Wt h0 e \<le> Wt h0 d)))"

text \<open>What is known of a queued vertex.\<close>

definition queued :: "topl_mem \<Rightarrow> ptr \<Rightarrow> topl_mem \<Rightarrow> ptr list \<Rightarrow> ptr \<Rightarrow> bool" where
  "queued h0 root h D v \<longleftrightarrow>
     (\<forall>p\<in>set D. \<forall>e\<in>set (out_list h0 p). To h0 e = v \<longrightarrow> Key h v \<le> Wt h0 e) \<and>
     (if Par h v = NULL then Key h v = (if v = root then 0 else DWORD_INFINITY)
      else Par h v \<in> set D \<and> (\<exists>e\<in>set (out_list h0 (Par h v)). To h0 e = v \<and> Wt h0 e = Key h v)) \<and>
     (v = root \<longrightarrow> D = [] \<and> Par h v = NULL)"

lemma queued_grown:
  assumes u: "u \<in> set xs - set D" and q: "\<And>v. v \<in> set xs - set D \<Longrightarrow> queued h0 root h D v"
    and least: "\<And>v. v \<in> set xs - set D \<Longrightarrow> Key h u \<le> Key h v"
    and wt: "\<And>e. crosses h0 xs D e \<Longrightarrow> Wt h0 e \<noteq> DWORD_INFINITY"
  shows "grown h0 xs h D u"
proof -
  have bound: "Key h u \<le> Wt h0 e" if "crosses h0 xs D e" for e
  proof -
    have "To h0 e \<in> set xs - set D" and "Key h (To h0 e) \<le> Wt h0 e"
      using that q [of "To h0 e"] by (auto simp: crosses_def queued_def)
    then show ?thesis
      using least [of "To h0 e"] by (meson order.trans)
  qed
  show ?thesis
  proof (cases "Par h u = NULL")
    case True
    have "\<not> crosses h0 xs D e" for e
    proof
      assume e: "crosses h0 xs D e"
      then have "D \<noteq> []"
        by (auto simp: crosses_def)
      then have "Key h u = DWORD_INFINITY"
        using q [OF u] True by (auto simp: queued_def split: if_splits)
      with bound [OF e] have "Wt h0 e = DWORD_INFINITY"
        by (simp add: DWORD_INFINITY_def word_order.extremum_unique)
      with wt [OF e] show False ..
    qed
    with True show ?thesis
      by (simp add: grown_def)
  next
    case False
    with q [OF u] bound show ?thesis
      by (auto simp: grown_def queued_def)
  qed
qed

lemma queued_first:
  assumes "u \<in> set xs" and "root \<in> set xs" and q: "\<And>v. v \<in> set xs \<Longrightarrow> queued h0 root h [] v"
    and least: "\<And>v. v \<in> set xs \<Longrightarrow> Key h u \<le> Key h v"
  shows "u = root" and "Key h u = 0" and "Par h u = NULL"
proof -
  have root: "Key h root = 0" "Par h root = NULL"
    using q [OF assms(2)] by (auto simp: queued_def)
  then have "Key h u = 0"
    using least [OF assms(2)] by simp
  with q [OF assms(1)] root show "u = root" "Key h u = 0" "Par h u = NULL"
    by (auto simp: queued_def DWORD_INFINITY_def split: if_splits)
qed

lemma queued_relaxed:
  assumes q: "queued h0 root h D v" and rel: "relaxed h0 u R (out_list h0 u) h h'" and v: "v \<in> R" "v \<noteq> root"
    and u: "u \<noteq> NULL"
  shows "queued h0 root h' (D @ [u]) v"
proof -
  have r: "Key h' v \<le> Key h v" "\<And>e. e \<in> set (out_list h0 u) \<Longrightarrow> To h0 e = v \<Longrightarrow> Key h' v \<le> Wt h0 e"
    and lab: "Key h' v = Key h v \<and> Par h' v = Par h v \<or>
      Par h' v = u \<and> (\<exists>e\<in>set (out_list h0 u). To h0 e = v \<and> Wt h0 e = Key h' v)"
    using rel v(1) by (auto simp: relaxed_def)
  have "Key h' v \<le> Wt h0 e" if "p \<in> set (D @ [u])" "e \<in> set (out_list h0 p)" "To h0 e = v" for p e
    using that r q by (auto simp: queued_def intro: order.trans)
  with lab q v(2) u show ?thesis
    by (auto simp: queued_def split: if_splits)
qed

lemma grown_cong: "Key h' v = Key h v \<Longrightarrow> Par h' v = Par h v \<Longrightarrow> grown h0 xs h' D v = grown h0 xs h D v"
  by (simp add: grown_def)

section \<open>The main loop\<close>

definition tree_comp :: "topl_mem \<Rightarrow> ptr list \<Rightarrow> ptr TOPL_COMPONENT" where
  "tree_comp h0 vs =
     \<lparr>tc_numVertices = length vs,
      tc_vertexNames = (if vs = [] then None else Some (map (\<lambda>v. Some (vd_VertexName (vdata h0 v))) vs))\<rparr>"

lemma AddVertexToComponent_comp:
  assumes "vd_VertexName (vdata h u) = vd_VertexName (vdata h0 u)"
  shows "AddVertexToComponent h (tree_comp h0 vs) u = tree_comp h0 (vs @ [u])"
  using assms by (auto simp: AddVertexToComponent_def tree_comp_def Let_def grow_cells_def list_update_append)

definition add_to_forest :: "bool \<Rightarrow> ptr \<Rightarrow> ptr list list \<Rightarrow> ptr list list" where
  "add_to_forest new u vss = (if new then vss @ [[u]] else butlast vss @ [last vss @ [u]])"

lemma concat_add_to_forest [simp]: "vss \<noteq> [] \<Longrightarrow> concat (add_to_forest b u vss) = concat vss @ [u]"
  by (cases vss rule: rev_cases) (auto simp: add_to_forest_def)

definition prim_inv :: "topl_mem \<Rightarrow> ptr list \<Rightarrow> ptr \<Rightarrow> nat \<Rightarrow> topl_mem \<Rightarrow> prim_queue \<Rightarrow> ptr list list \<Rightarrow> bool" where
  "prim_inv h0 xs root n h Q vss \<longleftrightarrow>
     same_but_labels (set xs) h0 h \<and> prim_heap_for GetVertexKey n Q \<and>
     mset (prim_heap_elems Q) + mset (concat vss) = mset xs \<and>
     (\<forall>v\<in>set (prim_heap_elems Q). queued h0 root h (concat vss) v) \<and>
     (\<forall>k<length (concat vss). grown h0 xs h (take k (concat vss)) (concat vss ! k)) \<and>
     (if concat vss = [] then vss = [[]] else [] \<notin> set vss \<and> hd (concat vss) = root) \<and>
     (\<forall>vs\<in>set vss. vs \<noteq> [] \<longrightarrow> Par h (hd vs) = NULL \<and> (\<forall>v\<in>set (tl vs). Par h v \<noteq> NULL))"

lemma prim_inv_nonempty: "prim_inv h0 xs root n h Q vss \<Longrightarrow> vss \<noteq> []"
  by (auto simp: prim_inv_def split: if_splits)

lemma prim_inv_queue:
  assumes inv: "prim_inv h0 xs root n h Q vss" and d: "distinct xs"
  shows "set (prim_heap_elems Q) = set xs - set (concat vss)" and "distinct (concat vss)" and "distinct (prim_heap_elems Q)"
proof -
  have m: "mset (prim_heap_elems Q @ concat vss) = mset xs"
    using inv by (simp add: prim_inv_def)
  then have "distinct (prim_heap_elems Q @ concat vss)" and "set (prim_heap_elems Q @ concat vss) = set xs"
    using d by (metis mset_eq_imp_distinct_iff, metis mset_eq_setD)
  then show "set (prim_heap_elems Q) = set xs - set (concat vss)" and "distinct (concat vss)"
    and "distinct (prim_heap_elems Q)"
    by auto
qed

text \<open>The vertex taken off the queue, and what it is to the forest.\<close>

lemma prim_extract:
  assumes ok: "objects_ok h0" and xs: "\<forall>x\<in>set xs. ToplpIsVertex h0 x" "distinct xs" "root \<in> set xs"
    and inv: "prim_inv h0 xs root n h Q vss" and ne: "\<not> ToplHeapIsEmpty Q"
    and ex: "ToplHeapExtractMin h Q = (u, Q')"
  shows "u \<in> set xs - set (concat vss)" and "prim_heap_for GetVertexKey n Q'"
    and "mset (prim_heap_elems Q) = add_mset u (mset (prim_heap_elems Q'))"
    and "grown h0 xs h (concat vss) u"
    and "concat vss = [] \<Longrightarrow> u = root"
    and "Key h u = DWORD_INFINITY \<longleftrightarrow> concat vss \<noteq> [] \<and> Par h u = NULL"
    and "concat vss = [] \<Longrightarrow> Par h u = NULL"
proof -
  let ?D = "concat vss"
  have Q: "prim_heap_for GetVertexKey n Q"
    and q: "\<And>v. v \<in> set (prim_heap_elems Q) \<Longrightarrow> queued h0 root h ?D v"
    using inv by (auto simp: prim_inv_def)
  have elems: "set (prim_heap_elems Q) = set xs - set ?D"
    by (rule prim_inv_queue [OF inv xs(2)])
  have nonempty: "mset (prim_heap_elems Q) \<noteq> {#}"
    using ne prim_heap.is_empty_iff [OF Q] by simp
  show Q': "prim_heap_for GetVertexKey n Q'"
    using prim_heap.ok_extract [OF Q nonempty, of h] ex by simp
  show m: "mset (prim_heap_elems Q) = add_mset u (mset (prim_heap_elems Q'))"
    using prim_heap.elems_extract [OF Q nonempty, of h] ex by simp
  show u: "u \<in> set xs - set ?D"
    using prim_heap.extract_removes(1) [OF Q nonempty, of h] ex elems by simp
  have least: "Key h u \<le> Key h v" if "v \<in> set xs - set ?D" for v
    using prim_heap.extract_least [OF Q, of v h] ex that elems by (simp add: GetVertexKey_def)
  have weight: "Wt h0 e \<noteq> DWORD_INFINITY" if "p \<in> set xs" "e \<in> set (out_list h0 p)" for p e
    using objects_ok_out [OF ok _ that(2)] xs(1) that(1) ok by (auto simp: edge_leaves_def objects_ok_def)
  have sub: "set ?D \<subseteq> set xs"
    using inv unfolding prim_inv_def by (metis mset_eq_setD mset_append set_append Un_upper2)
  show "grown h0 xs h ?D u"
  proof (rule queued_grown [OF u _ least])
    show "queued h0 root h ?D v" if "v \<in> set xs - set ?D" for v
      using q that elems by simp
    show "Wt h0 e \<noteq> DWORD_INFINITY" if "crosses h0 xs ?D e" for e
      using that weight sub by (auto simp: crosses_def)
  qed
  have first: "u = root \<and> Key h u = 0 \<and> Par h u = NULL" if "?D = []"
    using queued_first [of u xs root h0 h] q u elems xs(3) least that by simp
  then show "?D = [] \<Longrightarrow> u = root" "?D = [] \<Longrightarrow> Par h u = NULL"
    by blast+
  have "Key h u = DWORD_INFINITY \<longleftrightarrow> Par h u = NULL" if "?D \<noteq> []"
    using q [of u] u elems that weight sub by (auto simp: queued_def split: if_splits)
  then show "Key h u = DWORD_INFINITY \<longleftrightarrow> ?D \<noteq> [] \<and> Par h u = NULL"
    using first by (cases "?D = []") (auto simp: DWORD_INFINITY_def)
qed

lemma forest_trees_add:
  assumes trees: "\<forall>vs\<in>set vss. vs \<noteq> [] \<longrightarrow> Par h (hd vs) = NULL \<and> (\<forall>v\<in>set (tl vs). Par h v \<noteq> NULL)"
    and shape: "if concat vss = [] then vss = [[]] else [] \<notin> set vss"
    and same: "\<And>v. v \<in> set (concat vss) \<or> v = u \<Longrightarrow> Par h' v = Par h v"
    and new: "b \<longleftrightarrow> concat vss \<noteq> [] \<and> Par h u = NULL" and first: "concat vss = [] \<Longrightarrow> Par h u = NULL"
  shows "[] \<notin> set (add_to_forest b u vss)"
    and "\<forall>vs\<in>set (add_to_forest b u vss). vs \<noteq> [] \<longrightarrow> Par h' (hd vs) = NULL \<and> (\<forall>v\<in>set (tl vs). Par h' v \<noteq> NULL)"
proof -
  show "[] \<notin> set (add_to_forest b u vss)"
    using shape new by (cases vss rule: rev_cases) (auto simp: add_to_forest_def split: if_splits)
  have old: "Par h' (hd vs) = NULL \<and> (\<forall>v\<in>set (tl vs). Par h' v \<noteq> NULL)" if "vs \<in> set vss" "vs \<noteq> []" for vs
  proof -
    have "Par h' v = Par h v" if "v \<in> set vs" for v
      using same that \<open>vs \<in> set vss\<close> by auto
    then show ?thesis
      using trees that by (metis hd_in_set list.set_sel(2))
  qed
  have u: "Par h' u = Par h u"
    using same by simp
  show "\<forall>vs\<in>set (add_to_forest b u vss). vs \<noteq> [] \<longrightarrow> Par h' (hd vs) = NULL \<and> (\<forall>v\<in>set (tl vs). Par h' v \<noteq> NULL)"
  proof (cases b)
    case True
    with old u new show ?thesis
      by (auto simp: add_to_forest_def)
  next
    case False
    show ?thesis
    proof (cases "concat vss = []")
      case True
      with shape first u False show ?thesis
        by (simp add: add_to_forest_def)
    next
      case ne: False
      then have vss: "vss \<noteq> []" "[] \<notin> set vss"
        using shape by auto
      then have vss: "last vss \<in> set vss" "last vss \<noteq> []"
        by (metis last_in_set)+
      have "Par h' u \<noteq> NULL"
        using False new ne u by metis
      then have "Par h' (hd (last vss @ [u])) = NULL \<and> (\<forall>v\<in>set (tl (last vss @ [u])). Par h' v \<noteq> NULL)"
        using old [OF vss] vss(2) by simp
      then show ?thesis
        using old False by (auto simp: add_to_forest_def dest: in_set_butlastD)
    qed
  qed
qed

lemma prim_inv_step:
  assumes ok: "objects_ok h0" and xs: "\<forall>x\<in>set xs. ToplpIsVertex h0 x" "distinct xs" "root \<in> set xs"
    and few: "few_edges h0 xs" and inv: "prim_inv h0 xs root n h Q vss" and ne: "\<not> ToplHeapIsEmpty Q"
    and ex: "ToplHeapExtractMin h Q = (u, Q')"
  obtains h' where "foldE (prim_relax Q' u) [0..<ToplpVertexNumberOfOutEdges h u] h = Inr h'"
    and "prim_inv h0 xs root n h' Q' (add_to_forest (Key h u = DWORD_INFINITY) u vss)"
proof -
  let ?D = "concat vss" and ?R = "set (prim_heap_elems Q')"
  note ext = prim_extract [OF ok xs inv ne ex]
  have vss: "vss \<noteq> []"
    by (rule prim_inv_nonempty [OF inv])
  have same: "same_but_labels (set xs) h0 h"
    and shape: "if ?D = [] then vss = [[]] else [] \<notin> set vss \<and> hd ?D = root"
    and trees: "\<forall>vs\<in>set vss. vs \<noteq> [] \<longrightarrow> Par h (hd vs) = NULL \<and> (\<forall>v\<in>set (tl vs). Par h v \<noteq> NULL)"
    and grown: "\<And>k. k < length ?D \<Longrightarrow> grown h0 xs h (take k ?D) (?D ! k)"
    and q: "\<And>v. v \<in> set (prim_heap_elems Q) \<Longrightarrow> queued h0 root h ?D v"
    using inv by (auto simp: prim_inv_def)
  note queue = prim_inv_queue [OF inv xs(2)]
  have u: "ToplpIsVertex h0 u" "u \<in> set xs" "u \<notin> set ?D"
    using ext(1) xs(1) by auto
  have R: "?R = set xs - set ?D - {u}"
  proof -
    have "distinct (u # prim_heap_elems Q')"
      using ext(3) queue(3) by (metis mset.simps(2) mset_eq_imp_distinct_iff)
    moreover have "insert u ?R = set (prim_heap_elems Q)"
      using ext(3) by (metis list.simps(15) mset.simps(2) mset_eq_setD)
    ultimately show ?thesis
      using queue(1) by auto
  qed
  have cnt: "ToplpVertexNumberOfOutEdges h u = length (out_list h0 u)"
    using same_but_labels_vertex(1) [OF same u(1)] objects_ok_vertex [OF ok u(1)]
    by (simp add: ToplpVertexNumberOfOutEdges_def ptr_array.count_contents vertex_ok_def)
  have heap: "prim_heap_ok Q'" and Rxs: "?R \<subseteq> set xs" and out: "length (out_list h0 u) < 2 ^ 31"
    using ext(2) R few u(2) by (auto simp: prim_heap_for_def few_edges_def)
  obtain h' where run: "foldE (prim_relax Q' u) [0..<length (out_list h0 u)] h = Inr h'"
      and same': "same_but_labels (set xs) h0 h'" and rel: "relaxed h0 u ?R (out_list h0 u) h h'"
    using prim_relax_fold [OF ok same u(1) out heap Rxs order.refl] by auto
  have labels: "Key h' v = Key h v" "Par h' v = Par h v" if "v \<in> set ?D \<or> v = u" for v
    using rel that R by (auto simp: relaxed_def)
  have root: "hd (?D @ [u]) = root"
    using shape ext(5) by (cases "?D = []") auto
  then have not_root: "v \<noteq> root" if "v \<in> ?R" for v
    using that R u(3) by (cases ?D) auto
  have unull: "u \<noteq> NULL"
    using u(1) by (simp add: ToplpIsVertex_def)
  let ?vss = "add_to_forest (Key h u = DWORD_INFINITY) u vss"
  have shape1: "if ?D = [] then vss = [[]] else [] \<notin> set vss"
    using shape by auto
  note forest = forest_trees_add [OF trees shape1 labels(2) ext(6) ext(7)]
  have "prim_inv h0 xs root n h' Q' ?vss"
    unfolding prim_inv_def concat_add_to_forest [OF vss]
  proof (intro conjI)
    show "mset (prim_heap_elems Q') + mset (?D @ [u]) = mset xs"
      using inv ext(3) by (simp add: prim_inv_def)
    show "\<forall>v\<in>?R. queued h0 root h' (?D @ [u]) v"
    proof
      fix v assume v: "v \<in> ?R"
      then show "queued h0 root h' (?D @ [u]) v"
        using R queue(1) q [of v] not_root [OF v] unull by (intro queued_relaxed [OF _ rel]) auto
    qed
    show "\<forall>k<length (?D @ [u]). grown h0 xs h' (take k (?D @ [u])) ((?D @ [u]) ! k)"
    proof (intro allI impI)
      fix k assume k: "k < length (?D @ [u])"
      show "grown h0 xs h' (take k (?D @ [u])) ((?D @ [u]) ! k)"
      proof (cases "k < length ?D")
        case True
        then have "?D ! k \<in> set ?D"
          by (rule nth_mem)
        with True grown [OF True] labels show ?thesis
          by (simp add: nth_append grown_cong [of h' "?D ! k" h])
      next
        case False
        with k have "k = length ?D"
          by simp
        with ext(4) labels show ?thesis
          by (simp add: nth_append grown_cong [of h' u h])
      qed
    qed
  qed (use same' ext(2) forest root in auto)
  with run cnt show thesis
    by (intro that) simp_all
qed

lemma prim_components_step:
  fixes b :: bool
  assumes vss: "vss \<noteq> []" and name: "vd_VertexName (vdata h u) = vd_VertexName (vdata h0 u)"
  defines "r \<equiv> (if b then AddNewComponent (map (tree_comp h0) vss) else (length vss - 1, map (tree_comp h0) vss))"
  shows "(snd r)[fst r := AddVertexToComponent h (snd r ! fst r) u] = map (tree_comp h0) (add_to_forest b u vss)"
    and "fst r = length (add_to_forest b u vss) - 1"
proof -
  have empty: "\<lparr>tc_numVertices = 0, tc_vertexNames = None\<rparr> = tree_comp h0 []"
    by (simp add: tree_comp_def)
  obtain ws w where "vss = ws @ [w]"
    using vss by (cases vss rule: rev_cases) auto
  then show "(snd r)[fst r := AddVertexToComponent h (snd r ! fst r) u] = map (tree_comp h0) (add_to_forest b u vss)"
    and "fst r = length (add_to_forest b u vss) - 1"
    using AddVertexToComponent_comp [OF name, of "[]"] AddVertexToComponent_comp [OF name, of w]
    by (auto simp: r_def AddNewComponent_def add_to_forest_def empty nth_append list_update_append)
qed

lemma prim_loop_spec:
  assumes ok: "objects_ok h0" and xs: "\<forall>x\<in>set xs. ToplpIsVertex h0 x" "distinct xs" "root \<in> set xs"
    and few: "few_edges h0 xs" and inv: "prim_inv h0 xs root n h Q vss"
  shows "\<exists>h' Q' vss'. prim_loop h Q (map (tree_comp h0) vss) (length vss - 1) = Some (Inr (h', map (tree_comp h0) vss')) \<and>
    prim_inv h0 xs root n h' Q' vss' \<and> ToplHeapIsEmpty Q'"
  using inv
proof (induction "length (prim_heap_elems Q)" arbitrary: h Q vss rule: less_induct)
  case less
  show ?case
  proof (cases "ToplHeapIsEmpty Q")
    case True
    with less.prems show ?thesis
      by (subst prim_loop.simps) auto
  next
    case False
    obtain u Q' where ex: "ToplHeapExtractMin h Q = (u, Q')"
      by fastforce
    note ext = prim_extract [OF ok xs less.prems False ex]
    obtain h' where run: "foldE (prim_relax Q' u) [0..<ToplpVertexNumberOfOutEdges h u] h = Inr h'"
        and inv': "prim_inv h0 xs root n h' Q' (add_to_forest (Key h u = DWORD_INFINITY) u vss)"
      by (rule prim_inv_step [OF ok xs few less.prems False ex])
    have u: "ToplpIsVertex h0 u" and same: "same_but_labels (set xs) h0 h"
      using ext(1) xs(1) less.prems by (auto simp: prim_inv_def)
    note comps = prim_components_step [OF prim_inv_nonempty [OF less.prems] same_but_labels_vertex(3) [OF same u],
        of "Key h u = DWORD_INFINITY"]
    have "prim_loop h Q (map (tree_comp h0) vss) (length vss - 1) =
        prim_loop h' Q' (map (tree_comp h0) (add_to_forest (Key h u = DWORD_INFINITY) u vss))
          (length (add_to_forest (Key h u = DWORD_INFINITY) u vss) - 1)"
      using False comps
      by (subst prim_loop.simps) (simp add: ex run split_beta Let_def split del: if_split)
    moreover have "length (prim_heap_elems Q') < length (prim_heap_elems Q)"
      using ext(3) by (metis lessI size_add_mset size_mset)
    ultimately show ?thesis
      using less.hyps [OF _ inv'] by simp
  qed
qed

section \<open>The spanning forest\<close>

text \<open>
  The result of Prim's algorithm: trees \<open>vss\<close>, each with its vertices in the order they were taken,
  that together hold the vertices of the graph. The first vertex of a tree has no parent.
\<close>

definition prim_forest :: "topl_mem \<Rightarrow> ptr list \<Rightarrow> ptr \<Rightarrow> topl_mem \<Rightarrow> ptr list list \<Rightarrow> bool" where
  "prim_forest h0 xs root h vss \<longleftrightarrow>
     same_but_labels (set xs) h0 h \<and> mset (concat vss) = mset xs \<and> [] \<notin> set vss \<and> hd (concat vss) = root \<and>
     (\<forall>vs\<in>set vss. Par h (hd vs) = NULL \<and> (\<forall>v\<in>set (tl vs). Par h v \<noteq> NULL)) \<and>
     (\<forall>k<length xs. grown h0 xs h (take k (concat vss)) (concat vss ! k))"

lemma ToplMST_Prim_spec:
  assumes ok: "objects_ok h" and g: "graph_holds h g xs" and few: "few_edges h xs" and root: "root \<in> set xs"
    and len: "length xs < 2 ^ 32"
  shows "\<exists>h' vss. ToplMST_Prim g root h = Some (Inr (h', map (tree_comp h) vss)) \<and> prim_forest h xs root h' vss"
proof -
  let ?n = "length xs" and ?Q = "fst (ToplHeapCreate (length xs) GetVertexKey)"
  have xs: "\<forall>x\<in>set xs. ToplpIsVertex h x" "distinct xs" and list: "list_ok (gr_VertexList g) h xs"
    using g list_ok_distinct by (auto simp: graph_holds_def)
  have cnt: "unat (ToplpGraphNumberOfVertices g) = ?n"
    using list len by (simp add: ToplpGraphNumberOfVertices_def ToplpListNumberOfElements_def list_ok_def
        unsigned_of_nat take_bit_nat_eq_self)
  have empty: "prim_heap_elems ?Q = []"
    using prim_heap.elems_empty [of ?n GetVertexKey] by simp
  obtain h1 Q1 where init: "foldE (prim_init_vertex root) xs (h, ?Q) = Inr (h1, Q1)" "same_but_labels (set xs) h h1"
      "prim_heap_for GetVertexKey ?n Q1" "mset (prim_heap_elems Q1) = mset xs"
      "\<forall>x\<in>set xs. Key h1 x = (if x = root then 0 else DWORD_INFINITY) \<and> Par h1 x = NULL"
    using prim_init_fold [OF xs(1) prim_heap.ok_empty, of ?n root] empty by auto
  have walk: "iter_loop (prim_init_vertex root) (ToplpGraphSetVertexIter g ToplIterCreate) (h, ?Q) = Some (Inr (h1, Q1))"
    using prim_init.iter_loop_list [of "gr_VertexList g" "(h, ?Q)" xs root ToplIterCreate] list init(1)
    by (simp add: ToplpGraphSetVertexIter_def)
  have "set (prim_heap_elems Q1) = set xs"
    using init(4) by (metis mset_eq_setD)
  then have inv: "prim_inv h xs root ?n h1 Q1 [[]]"
    using init by (auto simp: prim_inv_def queued_def)
  obtain h' Q' vss where loop: "prim_loop h1 Q1 (map (tree_comp h) [[]]) (length [[] :: ptr list] - 1) =
      Some (Inr (h', map (tree_comp h) vss))" "prim_inv h xs root ?n h' Q' vss" "ToplHeapIsEmpty Q'"
    using prim_loop_spec [OF ok xs root few inv] by blast
  have "AddNewComponent InitComponents = (0, map (tree_comp h) [[]])"
    by (simp add: AddNewComponent_def InitComponents_def tree_comp_def)
  then have run: "ToplMST_Prim g root h = Some (Inr (h', map (tree_comp h) vss))"
    using loop(1) by (simp add: ToplMST_Prim_def cnt walk)
  have emptied: "prim_heap_elems Q' = []"
    using loop(2,3) ToplHeapIsEmpty_elems [of Q'] by (simp add: prim_inv_def prim_heap_for_def)
  then have m: "mset (concat vss) = mset xs"
    using loop(2) by (simp add: prim_inv_def)
  then have ne: "concat vss \<noteq> []" and l: "length (concat vss) = length xs"
    using root by (metis list.set_sel(1) mset_zero_iff_right empty_iff list.set(1), metis size_mset)
  have "if concat vss = [] then vss = [[]] else [] \<notin> set vss \<and> hd (concat vss) = root"
    using loop(2) unfolding prim_inv_def by blast
  then have shape: "[] \<notin> set vss" "hd (concat vss) = root"
    using ne by metis+
  have "Par h' (hd vs) = NULL \<and> (\<forall>v\<in>set (tl vs). Par h' v \<noteq> NULL)" if "vs \<in> set vss" for vs
    using loop(2) shape(1) that unfolding prim_inv_def by metis
  moreover have "\<forall>k<length xs. grown h xs h' (take k (concat vss)) (concat vss ! k)"
      and "same_but_labels (set xs) h h'"
    using loop(2) l by (simp_all add: prim_inv_def)
  ultimately have "prim_forest h xs root h' vss"
    using shape m by (simp add: prim_forest_def)
  with run show ?thesis
    by blast
qed

text \<open>No edge leads from a tree to a later one, and the parents of a tree's vertices are in the tree.\<close>

lemma prim_forest_trees:
  assumes forest: "prim_forest h0 xs root h vss" and d: "distinct xs" and vss: "vss = as @ vs # bs"
  shows "\<And>p e. p \<in> set (concat as) \<Longrightarrow> e \<in> set (out_list h0 p) \<Longrightarrow> To h0 e \<notin> set (concat (vs # bs))"
    and "\<And>v. v \<in> set (tl vs) \<Longrightarrow> Par h v \<in> set vs"
proof -
  define A B where "A = concat as" and "B = concat bs"
  let ?P = "concat vss" and ?k = "length A"
  have m: "mset ?P = mset xs" and ne: "vs \<noteq> []" and roots: "Par h (hd vs) = NULL" "\<And>v. v \<in> set (tl vs) \<Longrightarrow> Par h v \<noteq> NULL"
    and grown: "\<And>k. k < length xs \<Longrightarrow> grown h0 xs h (take k ?P) (?P ! k)"
    using forest vss unfolding prim_forest_def by auto
  have len: "length ?P = length xs" and sets: "set ?P = set xs" and dist: "distinct ?P"
    using m d by (metis size_mset, metis mset_eq_setD, metis mset_eq_imp_distinct_iff)
  have P: "?P = A @ vs @ B"
    by (simp add: vss A_def B_def)
  have lens: "length xs = length A + (length vs + length B)"
    using len unfolding P by simp
  have "?k < length xs" "?P ! ?k = hd vs" "take ?k ?P = A"
    using ne unfolding lens P by (auto simp: nth_append hd_conv_nth)
  with grown [of ?k] roots(1) have no: "\<not> crosses h0 xs A e" for e
    by (simp add: grown_def)
  have later: "x \<in> set xs - set A" if "x \<in> set (concat (vs # bs))" for x
    using that dist sets by (auto simp: P A_def B_def)
  show cut: "To h0 e \<notin> set (concat (vs # bs))" if "p \<in> set (concat as)" "e \<in> set (out_list h0 p)" for p e
  proof
    assume "To h0 e \<in> set (concat (vs # bs))"
    from later [OF this] that have "crosses h0 xs A e"
      unfolding crosses_def A_def by blast
    with no show False
      by blast
  qed
  show "Par h v \<in> set vs" if v: "v \<in> set (tl vs)" for v
  proof -
    obtain i where i: "i < length vs" "vs ! i = v"
      using v ne by (metis in_set_conv_nth list.set_sel(2))
    have "?k + i < length xs" "?P ! (?k + i) = v" "take (?k + i) ?P = A @ take i vs"
      using i unfolding lens P by (auto simp: nth_append)
    with grown [of "?k + i"] roots(2) [OF v] have par: "Par h v \<in> set (A @ take i vs)"
        "\<exists>e\<in>set (out_list h0 (Par h v)). To h0 e = v"
      by (auto simp: grown_def)
    have "v \<in> set (concat (vs # bs))"
      using i by auto
    then have "Par h v \<notin> set A"
      using cut par(2) unfolding A_def by blast
    with par(1) show ?thesis
      using in_set_takeD by fastforce
  qed
qed

section \<open>The edges of the tree at a vertex\<close>

interpretation mst_walk: walk_body "mst_vertex voi" for voi
  by unfold_locales (auto simp: mst_vertex_def Let_def bindE_eq_Inr split: if_splits)

lemma mst_in_edges:
  assumes ok: "vertex_ok h v" and few: "length (in_list h v) < 2 ^ 31" and k: "k \<le> length (in_list h v)"
  shows "foldE (mst_in_edge v p h) [0..<k] a = Inr (foldl EdgeArrayAdd a (filter (\<lambda>e. From h e = p) (take k (in_list h v))))"
  using k
proof (induction k)
  case (Suc k)
  have "ToplpVertexGetInEdge h v (of_nat k) = Inr (in_list h v ! k)"
    using Suc.prems not_bad_index [of k "length (in_list h v)"] few ok
    by (simp add: ToplpVertexGetInEdge_def vertex_ok_def ptr_array.count_contents ptr_array.retrieve_contents)
  with Suc show ?case
    by (simp add: foldE_append mst_in_edge_def take_Suc_conv_app_nth)
qed simp

definition tree_edges_at :: "topl_mem \<Rightarrow> ptr \<Rightarrow> ptr \<Rightarrow> ptr list" where
  "tree_edges_at h voi x =
     (if x = voi then filter (\<lambda>e. From h e = Par h voi) (in_list h voi) else []) @
     (if Par h x = voi then filter (\<lambda>e. From h e = x) (in_list h voi) else [])"

lemma mst_vertex_spec:
  assumes "vertex_ok h voi" and "length (in_list h voi) < 2 ^ 31"
  shows "mst_vertex voi x (h, a) = Inr (h, foldl EdgeArrayAdd a (tree_edges_at h voi x))"
proof -
  have cnt: "ToplpVertexNumberOfInEdges h voi = length (in_list h voi)"
    using assms(1) by (simp add: ToplpVertexNumberOfInEdges_def vertex_ok_def ptr_array.count_contents)
  note fold = mst_in_edges [OF assms order.refl]
  show ?thesis
    using fold by (cases "x = voi"; cases "Par h x = voi") (simp_all add: mst_vertex_def Let_def cnt tree_edges_at_def)
qed

lemma mst_vertex_fold:
  assumes "vertex_ok h voi" and "length (in_list h voi) < 2 ^ 31"
  shows "foldE (mst_vertex voi) xs (h, a) = Inr (h, foldl EdgeArrayAdd a (concat (map (tree_edges_at h voi) xs)))"
  by (induction xs arbitrary: a) (simp_all add: mst_vertex_spec [OF assms])

section \<open>The component of a vertex\<close>

lemma has_name_comp: "has_name name (tree_comp h vs) \<longleftrightarrow> name \<in> (\<lambda>v. vd_VertexName (vdata h v)) ` set vs"
  by (force simp: has_name_def tree_comp_def list_ex_iff in_set_conv_nth [of name] in_set_conv_nth [of _ vs])

lemma MoveInteresting_spec:
  assumes name: "vd_VertexName (vdata h' voi) = vd_VertexName (vdata h voi)" and voi: "voi \<in> set (concat vss)"
  defines "cs \<equiv> MoveInterestingComponentToFront h' (map (tree_comp h) vss) voi"
  shows "mset cs = mset (map (tree_comp h) vss)"
    and "\<exists>vs\<in>set vss. hd cs = tree_comp h vs \<and> vd_VertexName (vdata h voi) \<in> (\<lambda>v. vd_VertexName (vdata h v)) ` set vs"
proof -
  let ?name = "vd_VertexName (vdata h voi)" and ?cs = "map (tree_comp h) vss"
  obtain vs where "vs \<in> set vss" "voi \<in> set vs"
    using voi by auto
  then obtain j where "j < length vss" "has_name ?name (?cs ! j)"
    by (metis (no_types, lifting) has_name_comp image_eqI in_set_conv_nth nth_map)
  then have "find (\<lambda>i. has_name ?name (?cs ! i)) [0..<length ?cs] \<noteq> None"
    by (auto simp: find_None_iff)
  then obtain i where i: "find (\<lambda>i. has_name ?name (?cs ! i)) [0..<length ?cs] = Some i"
    by blast
  then have ilt: "i < length vss" and inm: "has_name ?name (?cs ! i)"
    by (auto simp: find_Some_iff)
  have cs: "cs = (if i > 0 then (?cs[0 := ?cs ! i])[i := ?cs ! 0] else ?cs)"
    using i by (simp add: cs_def MoveInterestingComponentToFront_def name Let_def)
  have hd_cs: "hd cs = ?cs ! i"
    using ilt by (cases vss; cases i) (auto simp: cs)
  have "mset ((?cs[0 := ?cs ! i])[i := ?cs ! 0]) = mset ?cs"
    using ilt by (intro mset_swap) (cases vss; simp)+
  then show "mset cs = mset ?cs"
    by (simp add: cs)
  show "\<exists>vs\<in>set vss. hd cs = tree_comp h vs \<and> ?name \<in> (\<lambda>v. vd_VertexName (vdata h v)) ` set vs"
    using ilt inm hd_cs by (intro bexI [of _ "vss ! i"]) (simp_all add: has_name_comp)
qed

lemma tree_edges_set:
  assumes "voi \<in> set xs"
  shows "set (concat (map (tree_edges_at h voi) xs)) =
    {e \<in> set (in_list h voi). From h e = Par h voi \<or> From h e \<in> set xs \<and> Par h (From h e) = voi}"
  using assms by (auto simp: tree_edges_at_def split: if_splits)

lemma ToplGraphFindEdgesForMST_spec:
  assumes ok: "objects_ok h" and g: "graph_holds h g xs" and few: "few_edges h xs"
    and root: "root \<in> set xs" and voi: "voi \<in> set xs" and len: "length xs < 2 ^ 32"
  shows "\<exists>h' vss. ToplMST_Prim g root h = Some (Inr (h', map (tree_comp h) vss)) \<and> prim_forest h xs root h' vss \<and>
    ToplGraphFindEdgesForMST (Some g) root voi h =
      Some (Inr (MoveInterestingComponentToFront h' (map (tree_comp h) vss) voi,
        foldl EdgeArrayAdd EdgeArrayInit (concat (map (tree_edges_at h' voi) xs)), h'))"
proof -
  obtain h' vss where prim: "ToplMST_Prim g root h = Some (Inr (h', map (tree_comp h) vss))" "prim_forest h xs root h' vss"
    using ToplMST_Prim_spec [OF ok g few root len] by blast
  have same: "same_but_labels (set xs) h h'"
    using prim(2) by (simp add: prim_forest_def)
  have isv: "ToplpIsVertex h root" "ToplpIsVertex h voi" "ToplpIsGraph (Some g)"
    using g root voi by (auto simp: graph_holds_def ToplpIsGraph_def)
  note v = same_but_labels_vertex [OF same isv(2)]
  have vok: "vertex_ok h' voi" "length (in_list h' voi) < 2 ^ 31"
    using v objects_ok_vertex [OF ok isv(2)] few voi by (auto simp: few_edges_def)
  have "list_ok (gr_VertexList g) h' xs"
    using same_but_labels_holds [OF same g] by (simp add: graph_holds_def)
  then have "iter_loop (mst_vertex voi) (ToplpGraphSetVertexIter g ToplpIterCreate) (h', EdgeArrayInit) =
      Some (Inr (h', foldl EdgeArrayAdd EdgeArrayInit (concat (map (tree_edges_at h' voi) xs))))"
    using mst_walk.iter_loop_list [of "gr_VertexList g" "(h', EdgeArrayInit)" xs voi ToplpIterCreate]
    by (simp add: ToplpGraphSetVertexIter_def mst_vertex_fold [OF vok])
  then have "ToplGraphFindEdgesForMST (Some g) root voi h =
      Some (Inr (MoveInterestingComponentToFront h' (map (tree_comp h) vss) voi,
        foldl EdgeArrayAdd EdgeArrayInit (concat (map (tree_edges_at h' voi) xs)), h'))"
    using isv prim(1) by (simp add: ToplGraphFindEdgesForMST_def ToplpGraphFindEdgesForMST_def Let_def)
  with prim show ?thesis
    by blast
qed

lemma three_sites_names: "inj_on (\<lambda>v. vd_VertexName (vdata (fst three_sites) v)) {1, 2, 3}"
  by (simp add: inj_on_def three_sites_eq with_out_edge_def with_in_edge_def site_elem_def)

section \<open>Properties\<close>

text \<open>C9. \<^verbatim>\<open>ToplMST_Prim\<close> ends without an exception on well-formed objects and computes a spanning forest the way
  Prim's algorithm does. It changes ids and parents only. The components it reports list the names of
  the vertices of the trees; the trees partition the vertices, the first one starts at the given root. A
  vertex that starts a tree has no parent. Every other vertex has its parent in the same tree, among the
  vertices taken before it, and is joined by an edge from its parent, of the weight kept in its id, that
  is as light as any edge from the vertices taken before to the others. No edge leads from a tree to a
  later one.\<close>

theorem ToplMST_Prim_correct:
  assumes ok: "objects_ok h" and g: "graph_holds h g xs" and few: "few_edges h xs" and root: "root \<in> set xs"
    and len: "length xs < 2 ^ 32"
  shows "\<exists>h' vss P. ToplMST_Prim g root h = Some (Inr (h', map (tree_comp h) vss)) \<and> same_but_labels (set xs) h h' \<and>
    P = concat vss \<and> mset P = mset xs \<and> [] \<notin> set vss \<and> hd P = root \<and>
    (\<forall>vs\<in>set vss. Par h' (hd vs) = NULL \<and> (\<forall>v\<in>set (tl vs). Par h' v \<in> set vs)) \<and>
    (\<forall>k<length P. Par h' (P ! k) \<noteq> NULL \<longrightarrow>
       (\<exists>e\<in>set (out_list h (Par h' (P ! k))). To h e = P ! k \<and> Wt h e = Key h' (P ! k) \<and> Par h' (P ! k) \<in> set (take k P) \<and>
         (\<forall>p\<in>set (take k P). \<forall>d\<in>set (out_list h p). To h d \<in> set xs - set (take k P) \<longrightarrow> Wt h e \<le> Wt h d))) \<and>
    (\<forall>as bs. vss = as @ bs \<longrightarrow> (\<forall>p\<in>set (concat as). \<forall>e\<in>set (out_list h p). To h e \<notin> set (concat bs)))"
proof -
  obtain h' vss where prim: "ToplMST_Prim g root h = Some (Inr (h', map (tree_comp h) vss))"
      and forest: "prim_forest h xs root h' vss"
    using ToplMST_Prim_spec [OF ok g few root len] by blast
  have d: "distinct xs"
    using g list_ok_distinct by (auto simp: graph_holds_def)
  have m: "mset (concat vss) = mset xs" and ne: "[] \<notin> set vss"
    using forest by (simp_all add: prim_forest_def)
  have tree: "Par h' (hd vs) = NULL \<and> (\<forall>v\<in>set (tl vs). Par h' v \<in> set vs)" if vs: "vs \<in> set vss" for vs
  proof -
    obtain as bs where "vss = as @ vs # bs"
      using vs by (meson split_list)
    then show ?thesis
      using prim_forest_trees(2) [OF forest d] forest vs by (auto simp: prim_forest_def)
  qed
  have light: "\<exists>e\<in>set (out_list h (Par h' (concat vss ! k))). To h e = concat vss ! k \<and> Wt h e = Key h' (concat vss ! k) \<and>
      Par h' (concat vss ! k) \<in> set (take k (concat vss)) \<and>
      (\<forall>p\<in>set (take k (concat vss)). \<forall>d\<in>set (out_list h p). To h d \<in> set xs - set (take k (concat vss)) \<longrightarrow> Wt h e \<le> Wt h d)"
    if k: "k < length (concat vss)" and par: "Par h' (concat vss ! k) \<noteq> NULL" for k
  proof -
    have "length (concat vss) = length xs"
      using m by (metis size_mset)
    with k forest have "grown h xs h' (take k (concat vss)) (concat vss ! k)"
      by (simp add: prim_forest_def)
    with par show ?thesis
      unfolding grown_def crosses_def by (metis (no_types, lifting))
  qed
  have cut: "To h e \<notin> set (concat bs)" if "vss = as @ bs" "p \<in> set (concat as)" "e \<in> set (out_list h p)" for as bs p e
    using that prim_forest_trees(1) [OF forest d] by (cases bs) auto
  show ?thesis
    using prim forest m ne tree light cut
    by (intro exI [of _ h'] exI [of _ vss] exI [of _ "concat vss"]) (simp add: prim_forest_def)
qed

theorem ToplMST_Prim_correct_witness:
  "\<exists>h' vss. ToplMST_Prim (fst (snd three_sites)) 2 (fst three_sites) =
       Some (Inr (h', map (tree_comp (fst three_sites)) vss)) \<and>
     mset (concat vss) = {#1, 2, 3#} \<and> hd (concat vss) = 2"
proof -
  from ToplMST_Prim_correct [OF three_sites_holds three_sites_few, of 2]
  obtain h' vss where "ToplMST_Prim (fst (snd three_sites)) 2 (fst three_sites) =
      Some (Inr (h', map (tree_comp (fst three_sites)) vss))" "mset (concat vss) = mset [3, 2, 1]" "hd (concat vss) = 2"
    by auto
  then show ?thesis
    by (intro exI [of _ h'] exI [of _ vss]) simp
qed

text \<open>C31. \<^verbatim>\<open>ToplGraphFindEdgesForMST\<close> ends without an exception on well-formed objects. With the parents
  \<^verbatim>\<open>ToplMST_Prim\<close> computes, it returns exactly the edges that enter the vertex of interest and come from its
  parent or from a vertex of the graph whose parent it is. It reports the components of
  \<^verbatim>\<open>ToplMST_Prim\<close>, reordered; when names are unique, the first is the one with the vertex of interest.\<close>

theorem ToplGraphFindEdgesForMST_correct:
  assumes ok: "objects_ok h" and g: "graph_holds h g xs" and few: "few_edges h xs"
    and root: "root \<in> set xs" and voi: "voi \<in> set xs" and len: "length xs < 2 ^ 32"
  shows "\<exists>h' vss cs a. ToplMST_Prim g root h = Some (Inr (h', map (tree_comp h) vss)) \<and>
    ToplGraphFindEdgesForMST (Some g) root voi h = Some (Inr (cs, a, h')) \<and>
    set (edge_array_list a) =
      {e \<in> set (in_list h voi). From h e = Par h' voi \<or> From h e \<in> set xs \<and> Par h' (From h e) = voi} \<and>
    mset cs = mset (map (tree_comp h) vss) \<and>
    (inj_on (\<lambda>v. vd_VertexName (vdata h v)) (set xs) \<longrightarrow> (\<exists>vs\<in>set vss. voi \<in> set vs \<and> hd cs = tree_comp h vs))"
proof -
  obtain h' vss where prim: "ToplMST_Prim g root h = Some (Inr (h', map (tree_comp h) vss))"
      and forest: "prim_forest h xs root h' vss"
      and run: "ToplGraphFindEdgesForMST (Some g) root voi h =
        Some (Inr (MoveInterestingComponentToFront h' (map (tree_comp h) vss) voi,
          foldl EdgeArrayAdd EdgeArrayInit (concat (map (tree_edges_at h' voi) xs)), h'))"
    using ToplGraphFindEdgesForMST_spec [OF assms] by blast
  let ?cs = "MoveInterestingComponentToFront h' (map (tree_comp h) vss) voi"
  have same: "same_but_labels (set xs) h h'" and sets: "set (concat vss) = set xs"
    using forest unfolding prim_forest_def by (blast, metis mset_eq_setD)
  have isv: "ToplpIsVertex h voi"
    using g voi by (simp add: graph_holds_def)
  note v = same_but_labels_vertex [OF same isv]
  have "voi \<in> set (concat vss)"
    using voi sets by simp
  note front = MoveInteresting_spec [OF v(3) this]
  have src: "From h' e = From h e" if "e \<in> set (in_list h voi)" for e
    using same_but_labels_edge(1) [OF same] objects_ok_in [OF ok isv that] by (simp add: edge_enters_def)
  have "edge_array_list (foldl EdgeArrayAdd EdgeArrayInit (concat (map (tree_edges_at h' voi) xs))) =
      concat (map (tree_edges_at h' voi) xs)"
    using edge_array.append_all [OF EdgeArrayInit_ok] by simp
  then have edges: "set (edge_array_list (foldl EdgeArrayAdd EdgeArrayInit (concat (map (tree_edges_at h' voi) xs)))) =
      {e \<in> set (in_list h voi). From h e = Par h' voi \<or> From h e \<in> set xs \<and> Par h' (From h e) = voi}"
    using tree_edges_set [OF voi, of h'] v(2) src by (simp cong: conj_cong)
  have comp: "\<exists>vs\<in>set vss. voi \<in> set vs \<and> hd ?cs = tree_comp h vs" if inj: "inj_on (\<lambda>v. vd_VertexName (vdata h v)) (set xs)"
  proof -
    obtain vs x where vs: "vs \<in> set vss" "hd ?cs = tree_comp h vs" "x \<in> set vs"
        "vd_VertexName (vdata h voi) = vd_VertexName (vdata h x)"
      using front(2) by auto
    have "x \<in> set xs"
      using vs(1,3) sets by auto
    then have "x = voi"
      using inj_onD [OF inj vs(4)] voi by simp
    with vs show ?thesis
      by blast
  qed
  show ?thesis
    using prim run edges front(1) comp by blast
qed

theorem ToplGraphFindEdgesForMST_correct_witness:
  "\<exists>h' vss cs a. ToplGraphFindEdgesForMST (Some (fst (snd three_sites))) 2 3 (fst three_sites) = Some (Inr (cs, a, h')) \<and>
     set (edge_array_list a) \<subseteq> {4} \<and> mset cs = mset (map (tree_comp (fst three_sites)) vss) \<and>
     (\<exists>vs\<in>set vss. 3 \<in> set vs \<and> hd cs = tree_comp (fst three_sites) vs)"
proof -
  have inj: "inj_on (\<lambda>v. vd_VertexName (vdata (fst three_sites) v)) (set [3, 2, 1])"
    using three_sites_names by (simp add: insert_commute)
  have "\<exists>h' vss cs a. ToplMST_Prim (fst (snd three_sites)) 2 (fst three_sites) =
        Some (Inr (h', map (tree_comp (fst three_sites)) vss)) \<and>
      ToplGraphFindEdgesForMST (Some (fst (snd three_sites))) 2 3 (fst three_sites) = Some (Inr (cs, a, h')) \<and>
      set (edge_array_list a) = {e \<in> set (in_list (fst three_sites) 3).
        From (fst three_sites) e = Par h' 3 \<or> From (fst three_sites) e \<in> set [3, 2, 1] \<and> Par h' (From (fst three_sites) e) = 3} \<and>
      mset cs = mset (map (tree_comp (fst three_sites)) vss) \<and>
      (inj_on (\<lambda>v. vd_VertexName (vdata (fst three_sites) v)) (set [3, 2, 1]) \<longrightarrow>
        (\<exists>vs\<in>set vss. 3 \<in> set vs \<and> hd cs = tree_comp (fst three_sites) vs))"
    by (rule ToplGraphFindEdgesForMST_correct [OF three_sites_holds three_sites_few]) simp_all
  then obtain h' vss cs a where
    "ToplGraphFindEdgesForMST (Some (fst (snd three_sites))) 2 3 (fst three_sites) = Some (Inr (cs, a, h'))"
    "set (edge_array_list a) \<subseteq> set (in_list (fst three_sites) 3)" "mset cs = mset (map (tree_comp (fst three_sites)) vss)"
    "\<exists>vs\<in>set vss. 3 \<in> set vs \<and> hd cs = tree_comp (fst three_sites) vs"
    using inj by blast
  then show ?thesis
    unfolding three_sites_arrays by auto
qed

end
