(* ===== verification/LH_Optimal.thy ===== *)
theory LH_Optimal
  imports Topl_Prelude
begin

text \<open>
  The specification of the library \<^verbatim>\<open>lhmatch\<close> (the comment at the top of \<^verbatim>\<open>inc/lhmatch.h\<close>): an assignment gives every
  left-hand vertex one of its neighbours; the load of a right-hand vertex is the number of vertices
  assigned to it; an LH matching is an assignment whose loads are as even as possible. This theory has no
  code. It states what the algorithms promise, and that a family of sets of right-hand vertices, one for every level
  \<open>k\<close>, certifies that an assignment is optimal: the set for \<open>k\<close> has the vertices of load above \<open>k\<close>, none of load below
  \<open>k\<close>, and no vertex assigned to it has a neighbour outside.
\<close>

section \<open>Assignments, loads and cost\<close>

definition assigns :: "'u set \<Rightarrow> ('u \<Rightarrow> 'v set) \<Rightarrow> ('u \<Rightarrow> 'v) \<Rightarrow> bool" where
  "assigns U adj f \<longleftrightarrow> (\<forall>u\<in>U. f u \<in> adj u)"

definition load_of :: "'u set \<Rightarrow> ('u \<Rightarrow> 'v) \<Rightarrow> 'v \<Rightarrow> nat" where
  "load_of U f v = card {u \<in> U. f u = v}"

definition excess :: "'u set \<Rightarrow> 'v set \<Rightarrow> ('u \<Rightarrow> 'v) \<Rightarrow> nat \<Rightarrow> nat" where
  "excess U V f k = (\<Sum>v\<in>V. load_of U f v - k)"

definition cost_of :: "'u set \<Rightarrow> 'v set \<Rightarrow> ('u \<Rightarrow> 'v) \<Rightarrow> nat" where
  "cost_of U V f = (\<Sum>v\<in>V. load_of U f v * (load_of U f v + 1) div 2)"

definition used_of :: "'u set \<Rightarrow> 'v set \<Rightarrow> ('u \<Rightarrow> 'v) \<Rightarrow> nat" where
  "used_of U V f = card {v \<in> V. 0 < load_of U f v}"

definition level_set :: "'u set \<Rightarrow> 'v set \<Rightarrow> ('u \<Rightarrow> 'v set) \<Rightarrow> ('u \<Rightarrow> 'v) \<Rightarrow> nat \<Rightarrow> 'v set \<Rightarrow> bool" where
  "level_set U V adj f k S \<longleftrightarrow> S \<subseteq> V \<and> (\<forall>u\<in>U. f u \<in> S \<longrightarrow> adj u \<subseteq> S) \<and>
     (\<forall>v\<in>S. k \<le> load_of U f v) \<and> (\<forall>v\<in>V - S. load_of U f v \<le> k)"

definition balanced :: "'u set \<Rightarrow> 'v set \<Rightarrow> ('u \<Rightarrow> 'v set) \<Rightarrow> ('u \<Rightarrow> 'v) \<Rightarrow> bool" where
  "balanced U V adj f \<longleftrightarrow> (\<forall>k. \<exists>S. level_set U V adj f k S)"

lemma load_of_le: "finite U \<Longrightarrow> load_of U f v \<le> card U"
  unfolding load_of_def by (rule card_mono) auto

lemma load_of_cong: "(\<And>u. u \<in> U \<Longrightarrow> f u = g u) \<Longrightarrow> load_of U f v = load_of U g v"
  unfolding load_of_def by (metis (mono_tags, lifting))

text \<open>What one reassignment does to the loads.\<close>

lemma load_of_move:
  assumes "finite U" and "u \<in> U" and "f u \<noteq> w"
  shows "load_of U (f(u := w)) v =
    (if v = w then load_of U f v + 1 else if v = f u then load_of U f v - 1 else load_of U f v)"
proof -
  have w: "{x \<in> U. (f(u := w)) x = w} = insert u {x \<in> U. f x = w}"
    using assms by auto
  have fu: "{x \<in> U. (f(u := w)) x = f u} = {x \<in> U. f x = f u} - {u}"
    using assms by auto
  have other: "{x \<in> U. (f(u := w)) x = v} = {x \<in> U. f x = v}" if "v \<noteq> w" "v \<noteq> f u"
    using that by auto
  show ?thesis
    using w fu other assms by (auto simp: load_of_def)
qed

lemma load_of_new:
  assumes "finite U" and "u \<notin> U"
  shows "load_of (insert u U) (f(u := w)) v = (if v = w then load_of U f v + 1 else load_of U f v)"
proof -
  have "{x \<in> insert u U. (f(u := w)) x = v} = (if v = w then insert u {x \<in> U. f x = v} else {x \<in> U. f x = v})"
    using assms by auto
  with assms show ?thesis
    by (simp add: load_of_def)
qed

lemma load_of_pos: "finite U \<Longrightarrow> u \<in> U \<Longrightarrow> 0 < load_of U f (f u)"
  by (auto simp: load_of_def card_gt_0_iff)

section \<open>Cost as a sum of excesses\<close>

lemma triangle_sum: "c \<le> n \<Longrightarrow> (\<Sum>k<n. c - k) = c * (c + 1) div (2::nat)"
proof (induction n arbitrary: c)
  case (Suc n)
  show ?case
  proof (cases c)
    case (Suc c')
    have "(\<Sum>k<Suc n. c - k) = c + (\<Sum>k<n. c' - k)"
      unfolding sum.lessThan_Suc_shift by (simp add: Suc)
    also have "(\<Sum>k<n. c' - k) = c' * (c' + 1) div 2"
      using Suc.IH [of c'] Suc.prems Suc by simp
    finally show ?thesis
      by (simp add: Suc)
  qed simp
qed simp

lemma cost_excess:
  assumes "finite U" and "card U \<le> n"
  shows "cost_of U V f = (\<Sum>k<n. excess U V f k)"
proof -
  have "(\<Sum>k<n. excess U V f k) = (\<Sum>v\<in>V. \<Sum>k<n. load_of U f v - k)"
    unfolding excess_def by (rule sum.swap)
  also have "\<dots> = cost_of U V f"
    unfolding cost_of_def
    by (intro sum.cong refl triangle_sum le_trans [OF load_of_le [OF assms(1)] assms(2)])
  finally show ?thesis ..
qed

text \<open>A unit of load moves from \<open>m\<close> to \<open>u\<close>.\<close>

lemma triangle_Suc: "(c + 1) * (c + 1 + 1) div 2 = c * (c + 1) div 2 + c + (1::nat)"
  by simp

lemma cost_shift:
  assumes V: "finite V" "u \<in> V" "m \<in> V" "u \<noteq> m"
    and u: "load_of U f' u = load_of U f u + 1" and m: "load_of U f m = load_of U f' m + 1"
    and other: "\<And>v. v \<noteq> u \<Longrightarrow> v \<noteq> m \<Longrightarrow> load_of U f' v = load_of U f v"
  shows "cost_of U V f' + load_of U f m = cost_of U V f + load_of U f u + 1"
proof -
  let ?t = "\<lambda>c. c * (c + 1) div 2 :: nat"
  have split: "(\<Sum>v\<in>V. h v) = (\<Sum>v\<in>V - {u, m}. h v) + h u + h m" for h :: "'a \<Rightarrow> nat"
  proof -
    have "(\<Sum>v\<in>V. h v) = h u + (h m + (\<Sum>v\<in>V - {u} - {m}. h v))"
      using V by (simp add: sum.remove [of V u] sum.remove [of "V - {u}" m])
    then show ?thesis
      by (simp add: Diff_insert2 [symmetric] insert_commute)
  qed
  have "(\<Sum>v\<in>V - {u, m}. ?t (load_of U f' v)) = (\<Sum>v\<in>V - {u, m}. ?t (load_of U f v))"
    using other by (intro sum.cong) auto
  then show ?thesis
    unfolding cost_of_def split [of "\<lambda>v. ?t (load_of U _ v)"] u m by (simp only: triangle_Suc)
qed

locale assignment_problem =
  fixes U :: "'u set" and V :: "'v set" and adj :: "'u \<Rightarrow> 'v set"
  assumes finite_U: "finite U" and finite_V: "finite V" and adj_V: "u \<in> U \<Longrightarrow> adj u \<subseteq> V"
begin

lemma load_sum:
  assumes "S \<subseteq> V"
  shows "(\<Sum>v\<in>S. load_of U f v) = card {u \<in> U. f u \<in> S}"
proof -
  have "{u \<in> U. f u \<in> S} = (\<Union>v\<in>S. {u \<in> U. f u = v})"
    by auto
  moreover have "finite S"
    using assms finite_V by (rule finite_subset)
  ultimately show ?thesis
    unfolding load_of_def using finite_U by (subst card_UN_disjoint [symmetric]) auto
qed

lemma load_total: "assigns U adj f \<Longrightarrow> (\<Sum>v\<in>V. load_of U f v) = card U"
proof -
  assume "assigns U adj f"
  then have "{u \<in> U. f u \<in> V} = U"
    using adj_V by (auto simp: assigns_def)
  then show ?thesis
    by (simp add: load_sum)
qed

lemma level_excess:
  assumes level: "level_set U V adj f k S" and g: "assigns U adj g"
  shows "excess U V f k \<le> excess U V g k"
proof -
  have S: "S \<subseteq> V" and closed: "\<And>u. u \<in> U \<Longrightarrow> f u \<in> S \<Longrightarrow> adj u \<subseteq> S"
    and above: "\<And>v. v \<in> S \<Longrightarrow> k \<le> load_of U f v" and below: "\<And>v. v \<in> V - S \<Longrightarrow> load_of U f v \<le> k"
    using level by (auto simp: level_set_def)
  have "card {u \<in> U. f u \<in> S} \<le> card {u \<in> U. g u \<in> S}"
    using closed g finite_U by (intro card_mono) (auto simp: assigns_def)
  then have sums: "(\<Sum>v\<in>S. load_of U f v) \<le> (\<Sum>v\<in>S. load_of U g v)"
    using load_sum [OF S] by simp
  have "excess U V f k = (\<Sum>v\<in>S. load_of U f v - k)"
    unfolding excess_def using below by (intro sum.mono_neutral_right finite_V S) auto
  also have "\<dots> = (\<Sum>v\<in>S. load_of U f v) - (\<Sum>v\<in>S. k)"
    using above by (intro sum_subtractf_nat)
  also have "\<dots> \<le> (\<Sum>v\<in>S. load_of U g v) - (\<Sum>v\<in>S. k)"
    using sums by simp
  also have "\<dots> \<le> (\<Sum>v\<in>S. load_of U g v - k)"
    by (induction S rule: infinite_finite_induct) auto
  also have "\<dots> \<le> excess U V g k"
    unfolding excess_def by (intro sum_mono2 finite_V S) auto
  finally show ?thesis .
qed

lemma balanced_excess: "balanced U V adj f \<Longrightarrow> assigns U adj g \<Longrightarrow> excess U V f k \<le> excess U V g k"
  using level_excess unfolding balanced_def by blast

lemma balanced_cost:
  assumes "balanced U V adj f" and "assigns U adj g"
  shows "cost_of U V f \<le> cost_of U V g"
  unfolding cost_excess [OF finite_U order.refl] by (rule sum_mono) (rule balanced_excess [OF assms])

lemma used_excess: "used_of U V f + excess U V f 1 = (\<Sum>v\<in>V. load_of U f v)"
proof -
  have "used_of U V f = (\<Sum>v\<in>V. if 0 < load_of U f v then 1 else 0)"
    unfolding used_of_def using finite_V by (simp add: sum.If_cases Int_def)
  then have "used_of U V f + excess U V f 1 = (\<Sum>v\<in>V. (if 0 < load_of U f v then 1 else 0) + (load_of U f v - 1))"
    unfolding excess_def by (simp only: sum.distrib)
  also have "\<dots> = (\<Sum>v\<in>V. load_of U f v)"
    by (rule sum.cong) auto
  finally show ?thesis .
qed

text \<open>A balanced assignment uses as many right-hand vertices as any: it contains a maximum matching.\<close>

lemma balanced_used:
  assumes "balanced U V adj f" and "assigns U adj f" and "assigns U adj g"
  shows "used_of U V g \<le> used_of U V f"
  using balanced_excess [OF assms(1,3), of 1] used_excess [of f] used_excess [of g] load_total assms(2,3) by simp

text \<open>And its largest load is as small as that of any assignment.\<close>

lemma balanced_max_load:
  assumes "balanced U V adj f" and "assigns U adj g" and "v \<in> V" and g: "\<forall>w\<in>V. load_of U g w \<le> k"
  shows "load_of U f v \<le> k"
proof -
  have "excess U V g k = 0"
    using g by (simp add: excess_def)
  then have "excess U V f k = 0"
    using balanced_excess [OF assms(1,2), of k] by simp
  with \<open>v \<in> V\<close> finite_V show ?thesis
    by (simp add: excess_def)
qed

end

section \<open>Adding a vertex along an alternating path\<close>

text \<open>
  The path starts at the new vertex \<open>x\<close> and ends at \<open>w\<close>; it is given as the list of the vertices on it that change their
  partner, from \<open>w\<close> back to \<open>x\<close>. Every vertex on it takes the next right-hand vertex of the path.
\<close>

fun apath :: "'u set \<Rightarrow> ('u \<Rightarrow> 'v set) \<Rightarrow> ('u \<Rightarrow> 'v) \<Rightarrow> 'u \<Rightarrow> 'v \<Rightarrow> 'u list \<Rightarrow> bool" where
  "apath U adj f x w [] \<longleftrightarrow> w \<in> adj x"
| "apath U adj f x w (n # ns) \<longleftrightarrow> n \<in> U \<and> w \<in> adj n \<and> apath U adj f x (f n) ns"

primrec shift :: "('u \<Rightarrow> 'v) \<Rightarrow> 'u \<Rightarrow> 'v \<Rightarrow> 'u list \<Rightarrow> 'u \<Rightarrow> 'v" where
  "shift f x w [] = f(x := w)"
| "shift f x w (n # ns) = (shift f x (f n) ns)(n := w)"

lemma shift_other: "u \<noteq> x \<Longrightarrow> u \<notin> set ns \<Longrightarrow> shift f x w ns u = f u"
  by (induction ns arbitrary: w) auto

lemma shift_upd: "n \<noteq> x \<Longrightarrow> n \<notin> set ns \<Longrightarrow> shift (f(n := v)) x w ns = (shift f x w ns)(n := v)"
  by (induction ns arbitrary: w) (auto simp: fun_upd_twist)

lemma load_shift:
  assumes "finite U" and "x \<notin> U" and "apath U adj f x w ns" and "distinct ns"
  shows "load_of (insert x U) (shift f x w ns) v = (if v = w then load_of U f v + 1 else load_of U f v)"
  using assms(3,4)
proof (induction ns arbitrary: w v)
  case Nil
  then show ?case
    using load_of_new [OF assms(1,2), of f w v] by (simp add: fun_upd_def)
next
  case (Cons n ns)
  let ?h = "shift f x (f n) ns"
  have n: "n \<in> U"
    using Cons.prems by simp
  moreover have "?h n = f n"
    using n Cons.prems assms(2) by (intro shift_other) auto
  ultimately have n: "n \<in> U" "?h n = f n"
    by simp_all
  have IH: "load_of (insert x U) ?h v = (if v = f n then load_of U f v + 1 else load_of U f v)" for v
    using Cons by simp
  show ?case
  proof (cases "f n = w")
    case True
    then have "shift f x w (n # ns) = ?h"
      using n by auto
    then show ?thesis
      using IH [of v] True by simp
  next
    case False
    have "load_of (insert x U) (?h(n := w)) v = (if v = w then load_of (insert x U) ?h v + 1
        else if v = ?h n then load_of (insert x U) ?h v - 1 else load_of (insert x U) ?h v)"
      using assms(1) n False by (intro load_of_move) auto
    moreover have "shift f x w (n # ns) = ?h(n := w)"
      by simp
    ultimately show ?thesis
      using IH [of v] n(2) False by (simp only:) (simp split: if_splits)
  qed
qed

lemma shift_closed:
  assumes "apath U adj f x w ns" and "\<forall>u\<in>U. f u \<in> S \<longrightarrow> adj u \<subseteq> S" and "w \<notin> S" and "u = x \<or> u \<in> set ns"
  shows "shift f x w ns u \<notin> S"
  using assms(1,3,4)
proof (induction ns arbitrary: w)
  case (Cons n ns)
  then have "f n \<notin> S"
    using assms(2) by auto
  with Cons show ?case
    by auto
qed auto

lemma shift_assigns:
  assumes "apath U adj f x w ns" and "assigns U adj f"
  shows "assigns (insert x U) adj (shift f x w ns)"
  using assms(1)
proof (induction ns arbitrary: w)
  case Nil
  then show ?case
    using assms(2) by (auto simp: assigns_def)
next
  case (Cons n ns)
  then show ?case
    by (auto simp: assigns_def)
qed

text \<open>
  The assignment stays balanced when the path ends at a vertex of least load in a set that is closed: the vertices
  assigned to it, and \<open>x\<close>, have all their neighbours in it.
\<close>

lemma augment_balanced:
  assumes U: "finite U" "x \<notin> U" and bal: "balanced U V adj f" and path: "apath U adj f x w ns" "distinct ns"
    and R: "R \<subseteq> V" "\<forall>u\<in>U. f u \<in> R \<longrightarrow> adj u \<subseteq> R" "adj x \<subseteq> R" "w \<in> R" "\<forall>v\<in>R. load_of U f w \<le> load_of U f v"
    and ns: "\<forall>n\<in>set ns. f n \<in> R"
  shows "balanced (insert x U) V adj (shift f x w ns)"
  unfolding balanced_def
proof
  fix k
  let ?f = "shift f x w ns"
  note load = load_shift [OF U path]
  obtain S where S: "level_set U V adj f k S"
    using bal by (auto simp: balanced_def)
  then have SV: "S \<subseteq> V" and closed: "\<forall>u\<in>U. f u \<in> S \<longrightarrow> adj u \<subseteq> S" and above: "\<And>v. v \<in> S \<Longrightarrow> k \<le> load_of U f v"
    and below: "\<And>v. v \<in> V - S \<Longrightarrow> load_of U f v \<le> k"
    by (auto simp: level_set_def)
  have same: "?f u = f u" if "u \<in> U" "u \<notin> set ns" for u
    using that U(2) by (intro shift_other) auto
  show "\<exists>S. level_set (insert x U) V adj ?f k S"
  proof (cases "k \<le> load_of U f w")
    case True
    have "adj u \<subseteq> S \<union> R" if "u \<in> insert x U" "?f u \<in> S \<union> R" for u
    proof (cases "u = x \<or> u \<in> set ns")
      case True
      then show ?thesis
        using that(1) R(2,3) ns by auto
    next
      case False
      then show ?thesis
        using that same closed R(2) by auto
    qed
    moreover have "k \<le> load_of (insert x U) ?f v" if "v \<in> S \<union> R" for v
      using that above [of v] R(5) True by (auto simp: load intro: le_SucI order.trans)
    moreover have "load_of (insert x U) ?f v \<le> k" if "v \<in> V - (S \<union> R)" for v
      using that below [of v] R(4) by (auto simp: load)
    ultimately show ?thesis
      using SV R(1) by (intro exI [of _ "S \<union> R"]) (auto simp: level_set_def)
  next
    case False
    then have w: "w \<notin> S"
      using above by auto
    have "adj u \<subseteq> S" if "u \<in> insert x U" "?f u \<in> S" for u
      using that shift_closed [OF path(1) closed w, of u] same [of u] closed by (metis insertE)
    moreover have "k \<le> load_of (insert x U) ?f v" if "v \<in> S" for v
      using above [OF that] by (cases "v = w") (simp_all add: load)
    moreover have "load_of (insert x U) ?f v \<le> k" if "v \<in> V - S" for v
      using below [OF that] False by (simp add: load)
    ultimately show ?thesis
      using SV by (intro exI [of _ S]) (auto simp: level_set_def)
  qed
qed

end
