(* ===== verification/LH_Graph.thy ===== *)
theory LH_Graph
  imports LH_Optimal
begin

text \<open>
  Data and interface of the library \<^verbatim>\<open>lhmatch\<close>, \<^verbatim>\<open>lhmatchint.h\<close> and \<^verbatim>\<open>lhmain.c\<close>: a bipartite graph of left-hand and
  right-hand vertices with adjacency lists, built edge by edge, a matching stored in the vertices, and
  queries. A pointer to a vertex names an element of one of the two vertex arrays; a null pointer is \<open>None\<close>, or the
  empty list where the pointer is to an array. The arrays are a store from such pointers to
  vertices.
\<close>

section \<open>Types and constants\<close>

datatype vref = LV nat | RV nat

record Vertex =
  vx_degree :: nat
  vx_adjList :: "vref option list"
  vx_adjListSize :: nat
  vx_id :: nat
  vx_matchedWith :: "vref option"
  vx_numMatched :: nat
  vx_parent :: "vref option"
  vx_fLink :: "vref option"
  vx_bLink :: "vref option"

record Graph =
  g_magic1 :: int
  g_numLHSVtx :: nat
  g_numRHSVtx :: nat
  g_Vtx :: "vref \<Rightarrow> Vertex"
  g_maxRHSLoad :: nat
  g_minRHSLoad :: nat
  g_Buckets :: "vref option list"
  g_Queue :: "vref option list"
  g_Qsize :: nat
  g_magic2 :: int

definition MAGIC1 :: int where
  "MAGIC1 = 0x50165315"

definition MAGIC2 :: int where
  "MAGIC2 = 0x50165315"

definition MIN_ADJ_LIST :: nat where
  "MIN_ADJ_LIST = 4"

definition LH_SUCCESS :: int where
  "LH_SUCCESS = 0"

definition LH_PARAM_ERR :: int where
  "LH_PARAM_ERR = - 2"

definition LH_MATCHING_ERR :: int where
  "LH_MATCHING_ERR = - 4"

definition LH_EDGE_EXISTS :: int where
  "LH_EDGE_EXISTS = - 5"

lemmas LH_codes = LH_SUCCESS_def LH_PARAM_ERR_def LH_MATCHING_ERR_def LH_EDGE_EXISTS_def

record LHSTATS =
  st_numEdges :: int
  st_numMatchingEdges :: int
  st_matchingCost :: int
  st_bipMatchingSize :: int

text \<open>Reading and writing a vertex through a pointer; the vertices are cleared when the arrays are allocated.\<close>

abbreviation deref :: "Graph \<Rightarrow> vref \<Rightarrow> Vertex" where
  "deref \<equiv> g_Vtx"

definition store :: "vref \<Rightarrow> (Vertex \<Rightarrow> Vertex) \<Rightarrow> Graph \<Rightarrow> Graph" where
  "store p f g = g\<lparr>g_Vtx := (g_Vtx g)(p := f (g_Vtx g p))\<rparr>"

definition zero_Vertex :: Vertex where
  "zero_Vertex = \<lparr>vx_degree = 0, vx_adjList = [], vx_adjListSize = 0, vx_id = 0, vx_matchedWith = None,
     vx_numMatched = 0, vx_parent = None, vx_fLink = None, vx_bLink = None\<rparr>"

definition IS_LHS_VTX :: "Graph \<Rightarrow> vref \<Rightarrow> bool" where
  "IS_LHS_VTX g v \<longleftrightarrow> vx_id (deref g v) < g_numLHSVtx g"

definition CheckGraph :: "Graph option \<Rightarrow> Graph option" where
  "CheckGraph graph =
     (case graph of
        None \<Rightarrow> None
      | Some g \<Rightarrow> if g_magic1 g \<noteq> MAGIC1 \<or> g_magic2 g \<noteq> MAGIC2 then None else Some g)"

section \<open>Building the graph\<close>

definition LHCreateGraph :: "int \<Rightarrow> int \<Rightarrow> bool \<Rightarrow> int \<times> Graph option" where
  "LHCreateGraph numLHSVtx numRHSVtx has_pGraph =
     (if numLHSVtx \<le> 0 \<or> numRHSVtx \<le> 0 \<or> \<not> has_pGraph then (LH_PARAM_ERR, None)
      else (LH_SUCCESS,
        Some \<lparr>g_magic1 = MAGIC1, g_numLHSVtx = nat numLHSVtx, g_numRHSVtx = nat numRHSVtx,
              g_Vtx = (\<lambda>p. zero_Vertex\<lparr>vx_id := (case p of LV i \<Rightarrow> i | RV i \<Rightarrow> i + nat numLHSVtx)\<rparr>),
              g_maxRHSLoad = 0, g_minRHSLoad = 0, g_Buckets = [], g_Queue = [], g_Qsize = 0, g_magic2 = MAGIC2\<rparr>))"

text \<open>The loop is entered with an allocated list, so that doubling the size ends.\<close>

function grow_loop :: "nat \<Rightarrow> Vertex \<Rightarrow> Vertex" where
  "grow_loop newSize v =
     (if newSize \<le> vx_adjListSize v \<or> vx_adjListSize v = 0 then v
      else grow_loop newSize
        (v\<lparr>vx_adjList := vx_adjList v @ replicate (vx_adjListSize v) None, vx_adjListSize := vx_adjListSize v * 2\<rparr>))"
  by pat_completeness auto

termination
  by (relation "measure (\<lambda>(n, v). n - vx_adjListSize v)") auto

declare grow_loop.simps [simp del]

definition GrowAdjList :: "nat \<Rightarrow> Vertex \<Rightarrow> Vertex" where
  "GrowAdjList newSize v =
     (let v = (if vx_adjListSize v = 0
               then v\<lparr>vx_adjList := replicate MIN_ADJ_LIST None, vx_adjListSize := MIN_ADJ_LIST\<rparr> else v)
      in grow_loop newSize v)"

definition append_nbr :: "vref \<Rightarrow> Vertex \<Rightarrow> Vertex" where
  "append_nbr p v = v\<lparr>vx_adjList := (vx_adjList v)[vx_degree v := Some p], vx_degree := vx_degree v + 1\<rparr>"

definition has_edge :: "Graph \<Rightarrow> vref \<Rightarrow> vref \<Rightarrow> bool" where
  "has_edge g lv rv \<longleftrightarrow> list_ex (\<lambda>i. vx_adjList (deref g lv) ! i = Some rv) [0..<vx_degree (deref g lv)]"

definition LHAddEdge :: "Graph option \<Rightarrow> int \<Rightarrow> int \<Rightarrow> int \<times> Graph option" where
  "LHAddEdge graph lhsVtx rhsVtx =
     (case CheckGraph graph of
        None \<Rightarrow> (LH_PARAM_ERR, graph)
      | Some g \<Rightarrow>
          if lhsVtx < 0 \<or> lhsVtx \<ge> int (g_numLHSVtx g) then (LH_PARAM_ERR, graph)
          else if rhsVtx < 0 \<or> rhsVtx \<ge> int (g_numRHSVtx g) then (LH_PARAM_ERR, graph)
          else
            let lv = LV (nat lhsVtx); rv = RV (nat rhsVtx)
            in if has_edge g lv rv then (LH_EDGE_EXISTS, graph)
               else
                 let g = store lv (\<lambda>x. GrowAdjList (vx_degree x + 1) x) g;
                     g = store rv (\<lambda>x. GrowAdjList (vx_degree x + 1) x) g;
                     g = store lv (append_nbr rv) g;
                     g = store rv (append_nbr lv) g
                 in (LH_SUCCESS, Some g))"

definition LHSetMatchingEdge :: "Graph option \<Rightarrow> int \<Rightarrow> int \<Rightarrow> int \<times> Graph option" where
  "LHSetMatchingEdge graph lhsVtx rhsVtx =
     (case CheckGraph graph of
        None \<Rightarrow> (LH_PARAM_ERR, graph)
      | Some g \<Rightarrow>
          if lhsVtx < 0 \<or> lhsVtx \<ge> int (g_numLHSVtx g) then (LH_PARAM_ERR, graph)
          else if rhsVtx < 0 \<or> rhsVtx \<ge> int (g_numRHSVtx g) then (LH_PARAM_ERR, graph)
          else
            let lv = LV (nat lhsVtx); rv = RV (nat rhsVtx)
            in if \<not> has_edge g lv rv then (LH_PARAM_ERR, graph)
               else if vx_matchedWith (deref g lv) = Some rv then (LH_SUCCESS, graph)
               else
                 let g = (case vx_matchedWith (deref g lv) of
                            None \<Rightarrow> g
                          | Some w \<Rightarrow> store w (\<lambda>x. x\<lparr>vx_numMatched := vx_numMatched x - 1\<rparr>) g);
                     g = store lv (\<lambda>x. x\<lparr>vx_matchedWith := Some rv\<rparr>) g;
                     g = store rv (\<lambda>x. x\<lparr>vx_numMatched := vx_numMatched x + 1\<rparr>) g
                 in (LH_SUCCESS, Some g))"

definition LHClearMatching :: "Graph option \<Rightarrow> int \<times> Graph option" where
  "LHClearMatching graph =
     (case CheckGraph graph of
        None \<Rightarrow> (LH_PARAM_ERR, graph)
      | Some g \<Rightarrow>
          let g = foldl (\<lambda>g i. store (LV i) (\<lambda>x. x\<lparr>vx_matchedWith := None\<rparr>) g) g [0..<g_numLHSVtx g];
              g = foldl (\<lambda>g i. store (RV i) (\<lambda>x. x\<lparr>vx_numMatched := 0\<rparr>) g) g [0..<g_numRHSVtx g]
          in (LH_SUCCESS, Some g))"

text \<open>A destroyed graph is gone, so that only the code is left.\<close>

definition LHDestroyGraph :: "Graph option \<Rightarrow> int \<times> Graph option" where
  "LHDestroyGraph graph =
     (case CheckGraph graph of None \<Rightarrow> (LH_PARAM_ERR, graph) | Some g \<Rightarrow> (LH_SUCCESS, None))"

section \<open>Queries\<close>

definition LHGetDegree :: "Graph option \<Rightarrow> int \<Rightarrow> bool \<Rightarrow> int" where
  "LHGetDegree graph vtxID left =
     (case CheckGraph graph of
        None \<Rightarrow> LH_PARAM_ERR
      | Some g \<Rightarrow>
          if vtxID < 0 then LH_PARAM_ERR
          else if left \<and> vtxID \<ge> int (g_numLHSVtx g) then LH_PARAM_ERR
          else if \<not> left \<and> vtxID \<ge> int (g_numRHSVtx g) then LH_PARAM_ERR
          else int (vx_degree (deref g (if left then LV (nat vtxID) else RV (nat vtxID)))))"

definition LHGetMatchedDegree :: "Graph option \<Rightarrow> int \<Rightarrow> int" where
  "LHGetMatchedDegree graph vtxID =
     (case CheckGraph graph of
        None \<Rightarrow> LH_PARAM_ERR
      | Some g \<Rightarrow>
          if vtxID < 0 then LH_PARAM_ERR
          else if vtxID \<ge> int (g_numRHSVtx g) then LH_PARAM_ERR
          else int (vx_numMatched (deref g (RV (nat vtxID)))))"

definition LHGetNeighbour :: "Graph option \<Rightarrow> int \<Rightarrow> bool \<Rightarrow> int \<Rightarrow> int" where
  "LHGetNeighbour graph vtxID left n =
     (let degree = LHGetDegree graph vtxID left
      in if degree < 0 then degree
         else if n < 0 \<or> n \<ge> degree then LH_PARAM_ERR
         else
           let g = the (CheckGraph graph)
           in if left
              then let v = the (vx_adjList (deref g (LV (nat vtxID))) ! nat n)
                   in int (vx_id (deref g v)) - int (g_numLHSVtx g)
              else let v = the (vx_adjList (deref g (RV (nat vtxID))) ! nat n)
                   in int (vx_id (deref g v)))"

definition LHGetMatchedVtx :: "Graph option \<Rightarrow> int \<Rightarrow> int" where
  "LHGetMatchedVtx graph lhsVtx =
     (case CheckGraph graph of
        None \<Rightarrow> LH_PARAM_ERR
      | Some g \<Rightarrow>
          if lhsVtx < 0 \<or> lhsVtx \<ge> int (g_numLHSVtx g) then LH_PARAM_ERR
          else case vx_matchedWith (deref g (LV (nat lhsVtx))) of
                 None \<Rightarrow> LH_MATCHING_ERR
               | Some rv \<Rightarrow> int (vx_id (deref g rv)) - int (g_numLHSVtx g))"

text \<open>The statistics are sums in the type \<^verbatim>\<open>int\<close>, which wraps around at 32 bits.\<close>

definition int32 :: "int \<Rightarrow> int" where
  "int32 x = signed_take_bit 31 x"

definition stat_step :: "Graph \<Rightarrow> int \<times> int \<times> int \<times> int \<Rightarrow> nat \<Rightarrow> int \<times> int \<times> int \<times> int" where
  "stat_step g = (\<lambda>(m, mrv, trmd, cost) i.
     let d = int (vx_degree (deref g (RV i))); n = int (vx_numMatched (deref g (RV i)))
     in (int32 (m + d), if n > 0 then mrv + 1 else mrv, int32 (trmd + n), int32 (cost + int32 (n * int32 (n + 1)) div 2)))"

definition LHGetStatistics :: "Graph option \<Rightarrow> LHSTATS option \<Rightarrow> int \<times> LHSTATS option" where
  "LHGetStatistics graph stats =
     (case CheckGraph graph of
        None \<Rightarrow> (LH_PARAM_ERR, stats)
      | Some g \<Rightarrow>
          (case stats of
             None \<Rightarrow> (LH_PARAM_ERR, None)
           | Some _ \<Rightarrow>
               let (m, mrv, trmd, cost) = foldl (stat_step g) (0, 0, 0, 0) [0..<g_numRHSVtx g]
               in (LH_SUCCESS,
                   Some \<lparr>st_numEdges = m, st_numMatchingEdges = trmd, st_matchingCost = cost,
                         st_bipMatchingSize = mrv\<rparr>)))"

section \<open>Well-formed graphs\<close>

definition vnbrs :: "Vertex \<Rightarrow> vref list" where
  "vnbrs v = map the (take (vx_degree v) (vx_adjList v))"

abbreviation nbrs :: "Graph \<Rightarrow> vref \<Rightarrow> vref list" where
  "nbrs g p \<equiv> vnbrs (deref g p)"

definition adj_ok :: "Vertex \<Rightarrow> bool" where
  "adj_ok v \<longleftrightarrow> vx_degree v \<le> length (vx_adjList v) \<and> length (vx_adjList v) = vx_adjListSize v \<and>
     None \<notin> set (take (vx_degree v) (vx_adjList v)) \<and> distinct (vnbrs v)"

definition vref_ok :: "Graph \<Rightarrow> vref \<Rightarrow> bool" where
  "vref_ok g p \<longleftrightarrow> (case p of LV i \<Rightarrow> i < g_numLHSVtx g | RV j \<Rightarrow> j < g_numRHSVtx g)"

definition graph_wf :: "Graph \<Rightarrow> bool" where
  "graph_wf g \<longleftrightarrow> g_magic1 g = MAGIC1 \<and> g_magic2 g = MAGIC2 \<and> 0 < g_numLHSVtx g \<and> 0 < g_numRHSVtx g \<and>
     (\<forall>i<g_numLHSVtx g. vx_id (deref g (LV i)) = i) \<and>
     (\<forall>j<g_numRHSVtx g. vx_id (deref g (RV j)) = j + g_numLHSVtx g) \<and>
     (\<forall>p. vref_ok g p \<longrightarrow> adj_ok (deref g p)) \<and>
     (\<forall>i<g_numLHSVtx g. set (nbrs g (LV i)) \<subseteq> RV ` {..<g_numRHSVtx g}) \<and>
     (\<forall>j<g_numRHSVtx g. set (nbrs g (RV j)) \<subseteq> LV ` {..<g_numLHSVtx g}) \<and>
     (\<forall>i<g_numLHSVtx g. \<forall>j<g_numRHSVtx g. RV j \<in> set (nbrs g (LV i)) \<longleftrightarrow> LV i \<in> set (nbrs g (RV j)))"

definition match_wf :: "Graph \<Rightarrow> bool" where
  "match_wf g \<longleftrightarrow>
     (\<forall>i<g_numLHSVtx g. \<forall>p. vx_matchedWith (deref g (LV i)) = Some p \<longrightarrow> p \<in> set (nbrs g (LV i)))"

definition matched_set :: "Graph \<Rightarrow> nat set" where
  "matched_set g = {i. i < g_numLHSVtx g \<and> vx_matchedWith (deref g (LV i)) \<noteq> None}"

fun rhs_index :: "vref \<Rightarrow> nat" where
  "rhs_index (RV j) = j"
| "rhs_index (LV i) = 0"

definition match_of :: "Graph \<Rightarrow> nat \<Rightarrow> nat" where
  "match_of g i = rhs_index (the (vx_matchedWith (deref g (LV i))))"

definition loads_exact :: "Graph \<Rightarrow> bool" where
  "loads_exact g \<longleftrightarrow>
     (\<forall>j<g_numRHSVtx g. vx_numMatched (deref g (RV j)) = load_of (matched_set g) (match_of g) j)"

definition lh_ok :: "Graph \<Rightarrow> bool" where
  "lh_ok g \<longleftrightarrow> graph_wf g \<and> match_wf g \<and> loads_exact g"

text \<open>The assignment problem of a graph: its left-hand vertices that have neighbours, and its right-hand vertices.\<close>

definition clients :: "Graph \<Rightarrow> nat set" where
  "clients g = {i. i < g_numLHSVtx g \<and> 0 < vx_degree (deref g (LV i))}"

definition servers :: "Graph \<Rightarrow> nat set" where
  "servers g = {..<g_numRHSVtx g}"

definition adj_of :: "Graph \<Rightarrow> nat \<Rightarrow> nat set" where
  "adj_of g i = {j. j < g_numRHSVtx g \<and> RV j \<in> set (nbrs g (LV i))}"

interpretation lh: assignment_problem "clients g" "servers g" "adj_of g" for g
  by unfold_locales (auto simp: clients_def servers_def adj_of_def)

lemma deref_store [simp]: "deref (store p f g) q = (if q = p then f (deref g p) else deref g q)"
  by (simp add: store_def)

lemma store_fields [simp]:
  "g_magic1 (store p f g) = g_magic1 g" "g_magic2 (store p f g) = g_magic2 g"
  "g_numLHSVtx (store p f g) = g_numLHSVtx g" "g_numRHSVtx (store p f g) = g_numRHSVtx g"
  "g_maxRHSLoad (store p f g) = g_maxRHSLoad g" "g_minRHSLoad (store p f g) = g_minRHSLoad g"
  "g_Buckets (store p f g) = g_Buckets g" "g_Queue (store p f g) = g_Queue g" "g_Qsize (store p f g) = g_Qsize g"
  by (simp_all add: store_def)

lemma vref_ok_simps [simp]:
  "vref_ok g (LV i) \<longleftrightarrow> i < g_numLHSVtx g" "vref_ok g (RV j) \<longleftrightarrow> j < g_numRHSVtx g"
  by (simp_all add: vref_ok_def)

lemma CheckGraph_wf: "graph_wf g \<Longrightarrow> CheckGraph (Some g) = Some g"
  by (simp add: CheckGraph_def graph_wf_def)

lemma IS_LHS_VTX_iff: "graph_wf g \<Longrightarrow> vref_ok g p \<Longrightarrow> IS_LHS_VTX g p \<longleftrightarrow> (\<exists>i. p = LV i)"
  by (cases p) (auto simp: IS_LHS_VTX_def graph_wf_def)

lemma has_edge_iff:
  assumes "adj_ok (deref g lv)"
  shows "has_edge g lv rv \<longleftrightarrow> rv \<in> set (nbrs g lv)"
proof -
  let ?xs = "take (vx_degree (deref g lv)) (vx_adjList (deref g lv))"
  have "has_edge g lv rv \<longleftrightarrow> Some rv \<in> set ?xs"
    using assms by (auto simp: has_edge_def list_ex_iff in_set_conv_nth adj_ok_def)
  also have "\<dots> \<longleftrightarrow> rv \<in> the ` set ?xs"
    using assms unfolding adj_ok_def by (metis (no_types, lifting) image_iff option.collapse option.sel)
  finally show ?thesis
    by (simp add: vnbrs_def)
qed

text \<open>Two states of the same graph: nothing but the matching and the algorithms' own fields differ.\<close>

definition same_edges :: "Graph \<Rightarrow> Graph \<Rightarrow> bool" where
  "same_edges g g' \<longleftrightarrow> g_magic1 g' = g_magic1 g \<and> g_magic2 g' = g_magic2 g \<and> g_numLHSVtx g' = g_numLHSVtx g \<and>
     g_numRHSVtx g' = g_numRHSVtx g \<and>
     (\<forall>p. vx_degree (deref g' p) = vx_degree (deref g p) \<and> vx_adjList (deref g' p) = vx_adjList (deref g p) \<and>
        vx_adjListSize (deref g' p) = vx_adjListSize (deref g p) \<and> vx_id (deref g' p) = vx_id (deref g p))"

lemma same_edges_refl [simp]: "same_edges g g"
  by (simp add: same_edges_def)

lemma same_edges_trans: "same_edges g g' \<Longrightarrow> same_edges g' g'' \<Longrightarrow> same_edges g g''"
  by (simp add: same_edges_def)

lemma same_edges_nums: "same_edges g g' \<Longrightarrow> g_numLHSVtx g' = g_numLHSVtx g \<and> g_numRHSVtx g' = g_numRHSVtx g"
  by (simp add: same_edges_def)

lemma same_edges_vref_ok: "same_edges g g' \<Longrightarrow> vref_ok g' p = vref_ok g p"
  by (cases p) (simp_all add: same_edges_def)

lemma same_edges_nbrs: "same_edges g g' \<Longrightarrow> nbrs g' p = nbrs g p"
  by (simp add: same_edges_def vnbrs_def)

lemma same_edges_wf: "same_edges g g' \<Longrightarrow> graph_wf g' = graph_wf g"
  using same_edges_vref_ok [of g g'] same_edges_nbrs [of g g']
  by (simp add: graph_wf_def adj_ok_def same_edges_def)

lemma same_edges_problem:
  assumes "same_edges g g'"
  shows "clients g' = clients g" "servers g' = servers g" "adj_of g' = adj_of g"
  using assms same_edges_nbrs [OF assms] by (auto simp: clients_def servers_def adj_of_def same_edges_def fun_eq_iff)

lemma matched_mem: "match_wf g \<Longrightarrow> graph_wf g \<Longrightarrow> i \<in> matched_set g \<Longrightarrow>
    vx_matchedWith (deref g (LV i)) = Some (RV (match_of g i)) \<and> match_of g i \<in> adj_of g i"
  unfolding match_wf_def graph_wf_def matched_set_def match_of_def adj_of_def by force

lemma vnbrs_degree: "p \<in> set (vnbrs v) \<Longrightarrow> 0 < vx_degree v"
  by (cases "vx_degree v = 0") (auto simp: vnbrs_def)

lemma same_matching:
  assumes same: "same_edges g g'" and m: "\<And>i. vx_matchedWith (deref g' (LV i)) = vx_matchedWith (deref g (LV i))"
    and n: "\<And>j. vx_numMatched (deref g' (RV j)) = vx_numMatched (deref g (RV j))"
  shows "lh_ok g' = lh_ok g" "matched_set g' = matched_set g" "match_of g' = match_of g"
proof -
  show eq: "matched_set g' = matched_set g" "match_of g' = match_of g"
    using same_edges_nums [OF same] by (simp_all add: matched_set_def match_of_def fun_eq_iff m)
  show "lh_ok g' = lh_ok g"
    using same_edges_nbrs [OF same] same_edges_wf [OF same] same_edges_nums [OF same]
    by (simp add: lh_ok_def match_wf_def loads_exact_def eq m n)
qed

lemma length_vnbrs: "adj_ok v \<Longrightarrow> length (vnbrs v) = vx_degree v"
  by (simp add: adj_ok_def vnbrs_def)

lemma graph_wf_adj: "graph_wf g \<Longrightarrow> vref_ok g p \<Longrightarrow> adj_ok (deref g p)"
  by (simp add: graph_wf_def)

lemma lhs_nbr:
  assumes "graph_wf g" and "i < g_numLHSVtx g" and "p \<in> set (nbrs g (LV i))"
  obtains j where "p = RV j" and "j < g_numRHSVtx g" and "LV i \<in> set (nbrs g (RV j))"
proof -
  have "set (nbrs g (LV i)) \<subseteq> RV ` {..<g_numRHSVtx g}"
    using assms(1,2) by (simp add: graph_wf_def)
  with assms(3) obtain j where "p = RV j" "j < g_numRHSVtx g"
    by auto
  with assms that show thesis
    by (simp add: graph_wf_def)
qed

lemma rhs_nbr:
  assumes "graph_wf g" and "j < g_numRHSVtx g" and "p \<in> set (nbrs g (RV j))"
  obtains i where "p = LV i" and "i < g_numLHSVtx g" and "RV j \<in> set (nbrs g (LV i))"
proof -
  have "set (nbrs g (RV j)) \<subseteq> LV ` {..<g_numLHSVtx g}"
    using assms(1,2) by (simp add: graph_wf_def)
  with assms(3) obtain i where "p = LV i" "i < g_numLHSVtx g"
    by auto
  with assms that show thesis
    by (simp add: graph_wf_def)
qed

lemma degree_pos_iff: "graph_wf g \<Longrightarrow> vref_ok g p \<Longrightarrow> 0 < vx_degree (deref g p) \<longleftrightarrow> nbrs g p \<noteq> []"
  using length_vnbrs [OF graph_wf_adj] by (metis length_greater_0_conv)

lemma matched_set_clients: "match_wf g \<Longrightarrow> matched_set g \<subseteq> clients g"
  unfolding match_wf_def matched_set_def clients_def using vnbrs_degree by blast

lemma finite_matched_set [simp]: "finite (matched_set g)"
  by (simp add: matched_set_def)

section \<open>Adding edges\<close>

lemma grow_loop_spec:
  assumes "0 < vx_adjListSize v" and "length (vx_adjList v) = vx_adjListSize v"
  shows "\<exists>k. grow_loop n v = v\<lparr>vx_adjList := vx_adjList v @ replicate k None, vx_adjListSize := vx_adjListSize v + k\<rparr> \<and>
    n \<le> vx_adjListSize v + k"
  using assms
proof (induction n v rule: grow_loop.induct)
  case (1 n v)
  show ?case
  proof (cases "n \<le> vx_adjListSize v")
    case True
    then show ?thesis
      by (intro exI [of _ 0]) (simp add: grow_loop.simps)
  next
    case False
    let ?v = "v\<lparr>vx_adjList := vx_adjList v @ replicate (vx_adjListSize v) None, vx_adjListSize := vx_adjListSize v * 2\<rparr>"
    obtain k where "grow_loop n ?v = ?v\<lparr>vx_adjList := vx_adjList ?v @ replicate k None, vx_adjListSize := vx_adjListSize ?v + k\<rparr>"
        "n \<le> vx_adjListSize ?v + k"
      using 1 False by auto
    then show ?thesis
      using 1(2) False
      by (intro exI [of _ "vx_adjListSize v + k"]) (simp add: grow_loop.simps [of n v] replicate_add mult_2_right)
  qed
qed

lemma GrowAdjList_spec:
  assumes "adj_ok v"
  shows "\<exists>k. GrowAdjList n v = v\<lparr>vx_adjList := vx_adjList v @ replicate k None, vx_adjListSize := vx_adjListSize v + k\<rparr> \<and>
    n \<le> vx_adjListSize v + k"
proof (cases "vx_adjListSize v = 0")
  case True
  let ?v = "v\<lparr>vx_adjList := replicate MIN_ADJ_LIST None, vx_adjListSize := MIN_ADJ_LIST\<rparr>"
  have "vx_adjList v = []"
    using assms True by (simp add: adj_ok_def)
  moreover obtain k where "grow_loop n ?v = ?v\<lparr>vx_adjList := vx_adjList ?v @ replicate k None, vx_adjListSize := vx_adjListSize ?v + k\<rparr>"
      "n \<le> vx_adjListSize ?v + k"
    using grow_loop_spec [of ?v n] by (auto simp: MIN_ADJ_LIST_def)
  ultimately show ?thesis
    using True by (intro exI [of _ "MIN_ADJ_LIST + k"]) (simp add: GrowAdjList_def replicate_add)
next
  case False
  then show ?thesis
    using grow_loop_spec [of v n] assms by (simp add: GrowAdjList_def adj_ok_def)
qed

text \<open>Both stores into a vertex that \<^verbatim>\<open>LHAddEdge\<close> does.\<close>

definition with_nbr :: "vref \<Rightarrow> Vertex \<Rightarrow> Vertex" where
  "with_nbr p v = append_nbr p (GrowAdjList (vx_degree v + 1) v)"

lemma with_nbr_spec:
  assumes "adj_ok v" and "p \<notin> set (vnbrs v)"
  shows "adj_ok (with_nbr p v)" "vnbrs (with_nbr p v) = vnbrs v @ [p]" "vx_id (with_nbr p v) = vx_id v"
    "vx_matchedWith (with_nbr p v) = vx_matchedWith v" "vx_numMatched (with_nbr p v) = vx_numMatched v"
    "vx_degree (with_nbr p v) = vx_degree v + 1"
proof -
  obtain k where k: "GrowAdjList (vx_degree v + 1) v =
      v\<lparr>vx_adjList := vx_adjList v @ replicate k None, vx_adjListSize := vx_adjListSize v + k\<rparr>"
      "vx_degree v + 1 \<le> vx_adjListSize v + k"
    using GrowAdjList_spec [OF assms(1)] by blast
  let ?xs = "(vx_adjList v @ replicate k None)[vx_degree v := Some p]"
  have len: "vx_degree v < length (vx_adjList v @ replicate k None)" "vx_degree v \<le> length (vx_adjList v)"
    using k(2) assms(1) by (auto simp: adj_ok_def)
  then have "take (vx_degree v + 1) ?xs = take (vx_degree v) (vx_adjList v) @ [Some p]"
    by (simp add: take_Suc_conv_app_nth)
  with k assms len show "adj_ok (with_nbr p v)" "vnbrs (with_nbr p v) = vnbrs v @ [p]"
    by (auto simp: with_nbr_def append_nbr_def adj_ok_def vnbrs_def)
  show "vx_id (with_nbr p v) = vx_id v" "vx_matchedWith (with_nbr p v) = vx_matchedWith v"
    "vx_numMatched (with_nbr p v) = vx_numMatched v" "vx_degree (with_nbr p v) = vx_degree v + 1"
    using k(1) by (simp_all add: with_nbr_def append_nbr_def)
qed

lemma LHAddEdge_eq:
  assumes "graph_wf g" and "i < g_numLHSVtx g" and "j < g_numRHSVtx g"
  shows "LHAddEdge (Some g) (int i) (int j) =
    (if RV j \<in> set (nbrs g (LV i)) then (LH_EDGE_EXISTS, Some g)
     else (LH_SUCCESS, Some (store (RV j) (with_nbr (LV i)) (store (LV i) (with_nbr (RV j)) g))))"
proof -
  have "adj_ok (deref g (LV i))"
    using assms by (simp add: graph_wf_def)
  then show ?thesis
    using assms by (auto simp: LHAddEdge_def CheckGraph_wf has_edge_iff Let_def store_def with_nbr_def fun_eq_iff
        intro!: arg_cong [of _ _ "\<lambda>v. g\<lparr>g_Vtx := v\<rparr>"])
qed

lemma add_edge_nbrs:
  assumes wf: "graph_wf g" and i: "i < g_numLHSVtx g" and j: "j < g_numRHSVtx g" and new: "RV j \<notin> set (nbrs g (LV i))"
  defines "g' \<equiv> store (RV j) (with_nbr (LV i)) (store (LV i) (with_nbr (RV j)) g)"
  shows "nbrs g' p = (if p = LV i then nbrs g p @ [RV j] else if p = RV j then nbrs g p @ [LV i] else nbrs g p)"
    "vref_ok g p \<Longrightarrow> adj_ok (deref g' p)"
    "vx_id (deref g' p) = vx_id (deref g p)" "vx_matchedWith (deref g' p) = vx_matchedWith (deref g p)"
    "vx_numMatched (deref g' p) = vx_numMatched (deref g p)"
proof -
  have new': "LV i \<notin> set (nbrs g (RV j))" and ok: "adj_ok (deref g (LV i))" "adj_ok (deref g (RV j))"
    using wf i j new by (auto simp: graph_wf_def)
  note l = with_nbr_spec [OF ok(1) new] and r = with_nbr_spec [OF ok(2) new']
  show "nbrs g' p = (if p = LV i then nbrs g p @ [RV j] else if p = RV j then nbrs g p @ [LV i] else nbrs g p)"
    "vx_id (deref g' p) = vx_id (deref g p)" "vx_matchedWith (deref g' p) = vx_matchedWith (deref g p)"
    "vx_numMatched (deref g' p) = vx_numMatched (deref g p)"
    by (simp_all add: g'_def l r)
  show "adj_ok (deref g' p)" if "vref_ok g p"
    using that wf by (simp add: g'_def l r graph_wf_def)
qed

lemma add_edge_ok:
  assumes ok: "lh_ok g" and i: "i < g_numLHSVtx g" and j: "j < g_numRHSVtx g" and new: "RV j \<notin> set (nbrs g (LV i))"
  defines "g' \<equiv> store (RV j) (with_nbr (LV i)) (store (LV i) (with_nbr (RV j)) g)"
  shows "lh_ok g'" and "adj_of g' = (adj_of g)(i := insert j (adj_of g i))"
    and "clients g' = insert i (clients g)" and "servers g' = servers g"
proof -
  have wf: "graph_wf g" and m: "match_wf g" and l: "loads_exact g"
    using ok by (simp_all add: lh_ok_def)
  note f = add_edge_nbrs [OF wf i j new, folded g'_def]
  have nums: "g_numLHSVtx g' = g_numLHSVtx g" "g_numRHSVtx g' = g_numRHSVtx g" "g_magic1 g' = g_magic1 g" "g_magic2 g' = g_magic2 g"
    by (simp_all add: g'_def)
  have vr: "vref_ok g' p = vref_ok g p" for p
    by (cases p) (simp_all add: nums)
  have "graph_wf g'"
    using wf i j unfolding graph_wf_def vr nums f(1,3) by (auto simp: f(2))
  moreover have "match_wf g'"
    using m unfolding match_wf_def nums f(1,4) by auto
  moreover have "loads_exact g'"
    using l unfolding loads_exact_def matched_set_def match_of_def nums f(4,5) .
  ultimately show "lh_ok g'"
    by (simp add: lh_ok_def)
  show "adj_of g' = (adj_of g)(i := insert j (adj_of g i))"
    using j unfolding adj_of_def nums f(1) by (auto simp: fun_eq_iff)
  show "clients g' = insert i (clients g)"
    using i unfolding clients_def nums degree_pos_iff [OF wf] degree_pos_iff [OF \<open>graph_wf g'\<close>]
    by (auto simp: nums f(1) degree_pos_iff [OF wf] degree_pos_iff [OF \<open>graph_wf g'\<close>])
  show "servers g' = servers g"
    by (simp add: servers_def nums)
qed

section \<open>The matching\<close>

text \<open>One vertex gets another partner, and the counts of both partners change.\<close>

lemma match_change_ok:
  assumes ok: "lh_ok g" and same: "same_edges g g'" and i: "i < g_numLHSVtx g" and j: "RV j \<in> set (nbrs g (LV i))"
    and new: "vx_matchedWith (deref g (LV i)) \<noteq> Some (RV j)"
    and mw: "\<And>k. vx_matchedWith (deref g' (LV k)) = (if k = i then Some (RV j) else vx_matchedWith (deref g (LV k)))"
    and nm: "\<And>k. vx_numMatched (deref g' (RV k)) =
      (if k = j then vx_numMatched (deref g (RV k)) + 1
       else if vx_matchedWith (deref g (LV i)) = Some (RV k) then vx_numMatched (deref g (RV k)) - 1
       else vx_numMatched (deref g (RV k)))"
  shows "lh_ok g'" and "matched_set g' = insert i (matched_set g)" and "match_of g' = (match_of g)(i := j)"
proof -
  have wf: "graph_wf g" and m: "match_wf g" and l: "loads_exact g"
    using ok by (simp_all add: lh_ok_def)
  note nb = same_edges_nbrs [OF same] and nums = same_edges_nums [OF same]
  show ms: "matched_set g' = insert i (matched_set g)"
    using i nums by (auto simp: matched_set_def mw)
  show mo: "match_of g' = (match_of g)(i := j)"
    by (auto simp: match_of_def mw fun_eq_iff)
  have "loads_exact g'"
  proof (cases "vx_matchedWith (deref g (LV i))")
    case None
    then have "i \<notin> matched_set g"
      by (simp add: matched_set_def)
    then show ?thesis
      using l None nums by (simp add: loads_exact_def ms mo nm load_of_new)
  next
    case (Some v)
    then have "i \<in> matched_set g"
      using i by (simp add: matched_set_def)
    moreover from matched_mem [OF m wf this] have "v = RV (match_of g i)" "match_of g i \<noteq> j"
      using Some new by auto
    ultimately show ?thesis
      using l Some nums by (simp add: loads_exact_def ms mo nm load_of_move insert_absorb)
  qed
  moreover have "match_wf g'"
    using m j nums by (simp add: match_wf_def mw nb)
  ultimately show "lh_ok g'"
    using same_edges_wf [OF same] wf by (simp add: lh_ok_def)
qed

lemma set_match_ok:
  assumes ok: "lh_ok g" and i: "i < g_numLHSVtx g" and j: "RV j \<in> set (nbrs g (LV i))"
    and new: "vx_matchedWith (deref g (LV i)) \<noteq> Some (RV j)"
  defines "g1 \<equiv> (case vx_matchedWith (deref g (LV i)) of None \<Rightarrow> g
      | Some w \<Rightarrow> store w (\<lambda>x. x\<lparr>vx_numMatched := vx_numMatched x - 1\<rparr>) g)"
  defines "g' \<equiv> store (RV j) (\<lambda>x. x\<lparr>vx_numMatched := vx_numMatched x + 1\<rparr>)
      (store (LV i) (\<lambda>x. x\<lparr>vx_matchedWith := Some (RV j)\<rparr>) g1)"
  shows "lh_ok g'" and "same_edges g g'"
proof -
  have w: "w = RV (match_of g i)" if "vx_matchedWith (deref g (LV i)) = Some w" for w
    using matched_mem [of g i] ok i that by (auto simp: lh_ok_def matched_set_def)
  show same: "same_edges g g'"
    by (auto simp: same_edges_def g'_def g1_def split: option.split)
  show "lh_ok g'"
  proof (rule match_change_ok [OF ok same i j new])
    show "vx_matchedWith (deref g' (LV k)) = (if k = i then Some (RV j) else vx_matchedWith (deref g (LV k)))" for k
      by (auto simp: g'_def g1_def split: option.split)
    show "vx_numMatched (deref g' (RV k)) =
      (if k = j then vx_numMatched (deref g (RV k)) + 1
       else if vx_matchedWith (deref g (LV i)) = Some (RV k) then vx_numMatched (deref g (RV k)) - 1
       else vx_numMatched (deref g (RV k)))" for k
      using w new by (cases "vx_matchedWith (deref g (LV i))") (fastforce simp: g'_def g1_def)+
  qed
qed

lemma LHSetMatchingEdge_ok:
  assumes ok: "lh_ok g" and run: "LHSetMatchingEdge (Some g) l r = (LH_SUCCESS, Some g')"
  shows "lh_ok g'" and "same_edges g g'" and "0 \<le> l" and "nat l < g_numLHSVtx g"
    and "vx_matchedWith (deref g' (LV (nat l))) = Some (RV (nat r))"
proof -
  have wf: "graph_wf g"
    using ok by (simp add: lh_ok_def)
  have l: "0 \<le> l" "nat l < g_numLHSVtx g" and edge: "has_edge g (LV (nat l)) (RV (nat r))"
    using run by (auto simp: LHSetMatchingEdge_def CheckGraph_wf [OF wf] LH_codes Let_def split: if_splits)
  show "0 \<le> l" "nat l < g_numLHSVtx g"
    by (fact l)+
  have adj: "adj_ok (deref g (LV (nat l)))"
    using wf l(2) by (simp add: graph_wf_def)
  have j: "RV (nat r) \<in> set (nbrs g (LV (nat l)))"
    using edge by (simp add: has_edge_iff [OF adj])
  have "lh_ok g' \<and> same_edges g g' \<and> vx_matchedWith (deref g' (LV (nat l))) = Some (RV (nat r))"
  proof (cases "vx_matchedWith (deref g (LV (nat l))) = Some (RV (nat r))")
    case True
    then show ?thesis
      using run ok edge by (auto simp: LHSetMatchingEdge_def CheckGraph_wf [OF wf] LH_codes Let_def split: if_splits)
  next
    case False
    note m = set_match_ok [OF ok l(2) j False]
    show ?thesis
      using run edge m(1,2) False
      by (auto simp: LHSetMatchingEdge_def CheckGraph_wf [OF wf] LH_codes Let_def split: if_splits)
  qed
  then show "lh_ok g'" "same_edges g g'" "vx_matchedWith (deref g' (LV (nat l))) = Some (RV (nat r))"
    by auto
qed

text \<open>A loop over one of the vertex arrays that stores the same change into every vertex.\<close>

lemma foldl_store:
  assumes "inj c"
  shows "deref (foldl (\<lambda>g i. store (c i) f g) g [0..<n]) p = (if p \<in> c ` {..<n} then f (deref g p) else deref g p)"
proof (induction n)
  case (Suc n)
  have "c n \<notin> c ` {..<n}"
    using assms by (auto dest: injD)
  with Suc show ?case
    by (auto simp: lessThan_Suc)
qed simp

lemma foldl_store_fields [simp]:
  "g_magic1 (foldl (\<lambda>g i. store (c i) f g) g is) = g_magic1 g"
  "g_magic2 (foldl (\<lambda>g i. store (c i) f g) g is) = g_magic2 g"
  "g_numLHSVtx (foldl (\<lambda>g i. store (c i) f g) g is) = g_numLHSVtx g"
  "g_numRHSVtx (foldl (\<lambda>g i. store (c i) f g) g is) = g_numRHSVtx g"
  "g_maxRHSLoad (foldl (\<lambda>g i. store (c i) f g) g is) = g_maxRHSLoad g"
  "g_minRHSLoad (foldl (\<lambda>g i. store (c i) f g) g is) = g_minRHSLoad g"
  "g_Buckets (foldl (\<lambda>g i. store (c i) f g) g is) = g_Buckets g"
  "g_Queue (foldl (\<lambda>g i. store (c i) f g) g is) = g_Queue g"
  "g_Qsize (foldl (\<lambda>g i. store (c i) f g) g is) = g_Qsize g"
  by (induction "is" rule: rev_induct) simp_all

lemma inj_vref [simp]: "inj LV" "inj RV"
  by (auto intro: injI)

lemma in_vref_image [simp]:
  "LV i \<in> LV ` S \<longleftrightarrow> i \<in> S" "RV i \<in> RV ` S \<longleftrightarrow> i \<in> S" "LV i \<notin> RV ` S" "RV i \<notin> LV ` S"
  by auto

definition cleared :: "Graph \<Rightarrow> bool" where
  "cleared g \<longleftrightarrow> matched_set g = {} \<and> (\<forall>j<g_numRHSVtx g. vx_numMatched (deref g (RV j)) = 0)"

lemma LHClearMatching_ok:
  assumes wf: "graph_wf g"
  shows "\<exists>g'. LHClearMatching (Some g) = (LH_SUCCESS, Some g') \<and> same_edges g g' \<and> lh_ok g' \<and> cleared g'"
proof -
  define g' where "g' = foldl (\<lambda>g i. store (RV i) (\<lambda>x. x\<lparr>vx_numMatched := 0\<rparr>) g)
    (foldl (\<lambda>g i. store (LV i) (\<lambda>x. x\<lparr>vx_matchedWith := None\<rparr>) g) g [0..<g_numLHSVtx g]) [0..<g_numRHSVtx g]"
  have same: "same_edges g g'"
    by (auto simp: same_edges_def g'_def foldl_store)
  have clear: "cleared g'"
    by (auto simp: cleared_def matched_set_def g'_def foldl_store)
  then have "match_wf g'" "loads_exact g'"
    by (auto simp: cleared_def match_wf_def loads_exact_def matched_set_def load_of_def)
  then have "lh_ok g'"
    using same_edges_wf [OF same] wf by (simp add: lh_ok_def)
  then show ?thesis
    using same clear by (auto simp: LHClearMatching_def CheckGraph_wf [OF wf] g'_def Let_def)
qed

lemma LHCreateGraph_ok:
  assumes "0 < m" and "0 < n"
  shows "\<exists>g. LHCreateGraph m n True = (LH_SUCCESS, Some g) \<and> lh_ok g \<and> cleared g \<and>
    g_numLHSVtx g = nat m \<and> g_numRHSVtx g = nat n \<and> adj_of g = (\<lambda>_. {})"
  using assms
  by (auto simp: LHCreateGraph_def lh_ok_def graph_wf_def match_wf_def loads_exact_def cleared_def adj_ok_def vnbrs_def
      zero_Vertex_def matched_set_def adj_of_def load_of_def)

end
