(* ===== verification/LH_Buckets.thy ===== *)
theory LH_Buckets
  imports LH_Graph
begin

text \<open>
  The buckets of \<^verbatim>\<open>lhmain.c\<close> and the greedy assignment that both use them: an array of doubly linked lists threaded
  through the vertices, left-hand vertices by degree for the greedy assignment, right-hand vertices by
  load for the search.
\<close>

section \<open>Buckets\<close>

definition set_bucket :: "nat \<Rightarrow> vref option \<Rightarrow> Graph \<Rightarrow> Graph" where
  "set_bucket b v g = g\<lparr>g_Buckets := (g_Buckets g)[b := v]\<rparr>"

definition AddVtxToBucket :: "Graph \<Rightarrow> vref \<Rightarrow> nat \<Rightarrow> Graph" where
  "AddVtxToBucket g v b =
     (let g = store v (\<lambda>x. x\<lparr>vx_fLink := g_Buckets g ! b\<rparr>) g;
          g = store v (\<lambda>x. x\<lparr>vx_bLink := None\<rparr>) g;
          g = (case g_Buckets g ! b of Some w \<Rightarrow> store w (\<lambda>x. x\<lparr>vx_bLink := Some v\<rparr>) g | None \<Rightarrow> g)
      in set_bucket b (Some v) g)"

definition RemoveVtxFromBucket :: "Graph \<Rightarrow> vref \<Rightarrow> nat \<Rightarrow> Graph" where
  "RemoveVtxFromBucket g v b =
     (let g = (case vx_fLink (deref g v) of
                 Some w \<Rightarrow> store w (\<lambda>x. x\<lparr>vx_bLink := vx_bLink (deref g v)\<rparr>) g
               | None \<Rightarrow> g)
      in case vx_bLink (deref g v) of
           Some w \<Rightarrow> store w (\<lambda>x. x\<lparr>vx_fLink := vx_fLink (deref g v)\<rparr>) g
         | None \<Rightarrow> set_bucket b (vx_fLink (deref g v)) g)"

definition DestroyBuckets :: "Graph \<Rightarrow> Graph" where
  "DestroyBuckets g = g\<lparr>g_Buckets := []\<rparr>"

definition InitializeLHSBuckets :: "Graph \<Rightarrow> nat \<times> Graph" where
  "InitializeLHSBuckets g =
     (let maxLHSDegree = foldl (\<lambda>m i. max m (vx_degree (deref g (LV i)))) 0 [0..<g_numLHSVtx g];
          g = g\<lparr>g_Buckets := replicate (maxLHSDegree + 1) None\<rparr>;
          g = foldl (\<lambda>g i. if vx_degree (deref g (LV i)) > 0 then AddVtxToBucket g (LV i) (vx_degree (deref g (LV i))) else g)
                g [0..<g_numLHSVtx g]
      in (maxLHSDegree, g))"

definition InitializeRHSBuckets :: "Graph \<Rightarrow> Graph" where
  "InitializeRHSBuckets g =
     (let maxRHSLoad = foldl (\<lambda>m i. max m (vx_numMatched (deref g (RV i)))) 0 [0..<g_numRHSVtx g];
          g = g\<lparr>g_maxRHSLoad := maxRHSLoad\<rparr>;
          g = g\<lparr>g_Buckets := replicate (maxRHSLoad + 1) None\<rparr>
      in foldl (\<lambda>g i. if vx_degree (deref g (RV i)) > 0 then AddVtxToBucket g (RV i) (vx_numMatched (deref g (RV i))) else g)
           g [0..<g_numRHSVtx g])"

section \<open>Greedy assignment\<close>

text \<open>The neighbour with the lowest load, the first of them if there are several.\<close>

definition best_nbr :: "Graph \<Rightarrow> vref \<Rightarrow> vref" where
  "best_nbr g u =
     foldl (\<lambda>bestR j. let r = the (vx_adjList (deref g u) ! j)
              in if vx_numMatched (deref g r) < vx_numMatched (deref g bestR) then r else bestR)
       (the (vx_adjList (deref g u) ! 0)) [1..<vx_degree (deref g u)]"

definition assign_to :: "vref \<Rightarrow> vref \<Rightarrow> Graph \<Rightarrow> Graph" where
  "assign_to u bestR g =
     (let g = store u (\<lambda>x. x\<lparr>vx_matchedWith := Some bestR\<rparr>) g;
          g = store u (\<lambda>x. x\<lparr>vx_numMatched := 1\<rparr>) g
      in store bestR (\<lambda>x. x\<lparr>vx_numMatched := vx_numMatched x + 1\<rparr>) g)"

partial_function (option) greedy_bucket :: "Graph \<Rightarrow> vref option \<Rightarrow> Graph option" where
  "greedy_bucket g u =
     (case u of
        None \<Rightarrow> Some g
      | Some u \<Rightarrow>
          let g = (if vx_matchedWith (deref g u) \<noteq> None then g else assign_to u (best_nbr g u) g)
          in greedy_bucket g (vx_fLink (deref g u)))"

declare greedy_bucket.simps [code]

primrec fold_opt :: "('b \<Rightarrow> 's \<Rightarrow> 's option) \<Rightarrow> 'b list \<Rightarrow> 's \<Rightarrow> 's option" where
  "fold_opt f [] s = Some s"
| "fold_opt f (x # xs) s = Option.bind (f x s) (fold_opt f xs)"

definition OrderedGreedyAssignment :: "Graph \<Rightarrow> Graph option" where
  "OrderedGreedyAssignment g =
     (let (maxLHSDegree, g) = InitializeLHSBuckets g
      in map_option DestroyBuckets
           (fold_opt (\<lambda>b g. greedy_bucket g (g_Buckets g ! b)) [1..<maxLHSDegree + 1] g))"

section \<open>Doubly linked lists\<close>

lemma set_bucket_fields [simp]:
  "deref (set_bucket b v g) = deref g" "g_magic1 (set_bucket b v g) = g_magic1 g"
  "g_magic2 (set_bucket b v g) = g_magic2 g" "g_numLHSVtx (set_bucket b v g) = g_numLHSVtx g"
  "g_numRHSVtx (set_bucket b v g) = g_numRHSVtx g" "g_maxRHSLoad (set_bucket b v g) = g_maxRHSLoad g"
  "g_minRHSLoad (set_bucket b v g) = g_minRHSLoad g" "g_Queue (set_bucket b v g) = g_Queue g"
  "g_Qsize (set_bucket b v g) = g_Qsize g" "g_Buckets (set_bucket b v g) = (g_Buckets g)[b := v]"
  by (simp_all add: set_bucket_def)

text \<open>What the bucket operations leave alone.\<close>

definition bucket_links_only :: "Graph \<Rightarrow> Graph \<Rightarrow> bool" where
  "bucket_links_only g g' \<longleftrightarrow>
     (\<forall>p. (deref g' p)\<lparr>vx_fLink := None, vx_bLink := None\<rparr> = (deref g p)\<lparr>vx_fLink := None, vx_bLink := None\<rparr>) \<and>
     g'\<lparr>g_Vtx := deref g, g_Buckets := g_Buckets g\<rparr> = g \<and> length (g_Buckets g') = length (g_Buckets g)"

lemma bucket_links_only_refl [simp]: "bucket_links_only g g"
  by (simp add: bucket_links_only_def)

lemma bucket_links_only_trans: "bucket_links_only g g' \<Longrightarrow> bucket_links_only g' g'' \<Longrightarrow> bucket_links_only g g''"
  unfolding bucket_links_only_def by (cases g; cases g'; cases g'') simp

lemma bucket_links_only_vertex:
  assumes "bucket_links_only g g'"
  shows "vx_degree (deref g' p) = vx_degree (deref g p)" "vx_adjList (deref g' p) = vx_adjList (deref g p)"
    "vx_adjListSize (deref g' p) = vx_adjListSize (deref g p)" "vx_id (deref g' p) = vx_id (deref g p)"
    "vx_matchedWith (deref g' p) = vx_matchedWith (deref g p)" "vx_numMatched (deref g' p) = vx_numMatched (deref g p)"
    "vx_parent (deref g' p) = vx_parent (deref g p)"
proof -
  have "(deref g' p)\<lparr>vx_fLink := None, vx_bLink := None\<rparr> = (deref g p)\<lparr>vx_fLink := None, vx_bLink := None\<rparr>"
    using assms by (simp add: bucket_links_only_def)
  then show "vx_degree (deref g' p) = vx_degree (deref g p)" "vx_adjList (deref g' p) = vx_adjList (deref g p)"
    "vx_adjListSize (deref g' p) = vx_adjListSize (deref g p)" "vx_id (deref g' p) = vx_id (deref g p)"
    "vx_matchedWith (deref g' p) = vx_matchedWith (deref g p)" "vx_numMatched (deref g' p) = vx_numMatched (deref g p)"
    "vx_parent (deref g' p) = vx_parent (deref g p)"
    by (cases "deref g' p"; cases "deref g p"; simp)+
qed

lemma bucket_links_only_fields:
  assumes "bucket_links_only g g'"
  shows "g_magic1 g' = g_magic1 g" "g_magic2 g' = g_magic2 g" "g_numLHSVtx g' = g_numLHSVtx g"
    "g_numRHSVtx g' = g_numRHSVtx g" "g_maxRHSLoad g' = g_maxRHSLoad g" "g_minRHSLoad g' = g_minRHSLoad g"
    "g_Queue g' = g_Queue g" "g_Qsize g' = g_Qsize g" "length (g_Buckets g') = length (g_Buckets g)"
  using assms unfolding bucket_links_only_def by (cases g; cases g'; simp)+

lemma bucket_links_only_edges: "bucket_links_only g g' \<Longrightarrow> same_edges g g'"
  using bucket_links_only_vertex [of g g'] bucket_links_only_fields [of g g'] by (simp add: same_edges_def)

lemma bucket_links_only_ok:
  assumes "bucket_links_only g g'"
  shows "lh_ok g' = lh_ok g" "matched_set g' = matched_set g" "match_of g' = match_of g"
  using same_matching [OF bucket_links_only_edges [OF assms] bucket_links_only_vertex(5,6) [OF assms]] by auto

fun dll :: "Graph \<Rightarrow> vref option \<Rightarrow> vref option \<Rightarrow> vref list \<Rightarrow> bool" where
  "dll g prev p [] \<longleftrightarrow> p = None"
| "dll g prev p (v # vs) \<longleftrightarrow> p = Some v \<and> vx_bLink (deref g v) = prev \<and> dll g (Some v) (vx_fLink (deref g v)) vs"

lemma dll_cong:
  assumes "\<And>v. v \<in> set vs \<Longrightarrow> vx_fLink (deref g' v) = vx_fLink (deref g v) \<and> vx_bLink (deref g' v) = vx_bLink (deref g v)"
  shows "dll g' prev p vs = dll g prev p vs"
  using assms by (induction vs arbitrary: prev p) auto

lemma dll_at:
  assumes "dll g prev p (as @ v # bs)"
  shows "vx_bLink (deref g v) = (if as = [] then prev else Some (last as))"
    "vx_fLink (deref g v) = (if bs = [] then None else Some (hd bs))"
  using assms by (induction as arbitrary: prev p) (auto split: list.splits, (cases bs; simp)+)

lemma dll_remove:
  assumes "dll g prev p (as @ v # bs)" and "distinct (as @ v # bs)" and "\<And>x. prev = Some x \<Longrightarrow> x \<notin> set (as @ v # bs)"
    and "\<And>x. x \<in> set (as @ bs) \<Longrightarrow> vx_fLink (deref g' x) =
      (if vx_bLink (deref g v) = Some x then vx_fLink (deref g v) else vx_fLink (deref g x))"
    and "\<And>x. x \<in> set (as @ bs) \<Longrightarrow> vx_bLink (deref g' x) =
      (if vx_fLink (deref g v) = Some x then vx_bLink (deref g v) else vx_bLink (deref g x))"
  shows "dll g' prev (if as = [] then vx_fLink (deref g v) else p) (as @ bs)"
  using assms
proof (induction as arbitrary: prev p)
  case Nil
  show ?case
  proof (cases bs)
    case (Cons w ws)
    have "dll g' (Some w) (vx_fLink (deref g w)) ws = dll g (Some w) (vx_fLink (deref g w)) ws"
      by (rule dll_cong) (use Nil Cons in auto)
    then show ?thesis
      using Nil Cons by auto
  qed (use Nil in auto)
next
  case (Cons a as)
  note at = dll_at [OF Cons.prems(1)]
  have f: "vx_fLink (deref g' a) = (if as = [] then vx_fLink (deref g v) else vx_fLink (deref g a))"
    using Cons.prems(2,4) at(1) by (auto split: if_splits)
  have b: "vx_bLink (deref g' a) = prev"
    using Cons.prems(1,2,5) at(2) by (cases bs) auto
  have "dll g' (Some a) (if as = [] then vx_fLink (deref g v) else vx_fLink (deref g a)) (as @ bs)"
    by (rule Cons.IH) (use Cons.prems in auto)
  then show ?case
    using Cons.prems(1) f b by simp
qed

definition buckets_hold :: "Graph \<Rightarrow> (nat \<Rightarrow> vref list) \<Rightarrow> bool" where
  "buckets_hold g B \<longleftrightarrow> (\<forall>b<length (g_Buckets g). dll g None (g_Buckets g ! b) (B b) \<and> distinct (B b) \<and>
     (\<forall>c<length (g_Buckets g). b \<noteq> c \<longrightarrow> set (B b) \<inter> set (B c) = {}))"

lemma AddVtxToBucket_links:
  "vx_fLink (deref (AddVtxToBucket g v b) x) = (if x = v then g_Buckets g ! b else vx_fLink (deref g x))"
  "x \<noteq> v \<Longrightarrow> vx_bLink (deref (AddVtxToBucket g v b) x) = (if g_Buckets g ! b = Some x then Some v else vx_bLink (deref g x))"
  "g_Buckets g ! b \<noteq> Some v \<Longrightarrow> vx_bLink (deref (AddVtxToBucket g v b) v) = None"
  "g_Buckets (AddVtxToBucket g v b) = (g_Buckets g)[b := Some v]"
  by (auto simp: AddVtxToBucket_def Let_def split: option.splits)

lemma AddVtxToBucket_same: "bucket_links_only g (AddVtxToBucket g v b)"
  by (auto simp: bucket_links_only_def AddVtxToBucket_def Let_def store_def set_bucket_def fun_eq_iff split: option.splits)

lemma AddVtxToBucket_hold:
  assumes hold: "buckets_hold g B" and b: "b < length (g_Buckets g)"
    and new: "\<And>c. c < length (g_Buckets g) \<Longrightarrow> v \<notin> set (B c)"
  shows "buckets_hold (AddVtxToBucket g v b) (B(b := v # B b))"
proof -
  let ?g = "AddVtxToBucket g v b"
  have list: "dll g None (g_Buckets g ! c) (B c)" "distinct (B c)" if "c < length (g_Buckets g)" for c
    using hold that by (auto simp: buckets_hold_def)
  have disj: "set (B c) \<inter> set (B d) = {}" if "c < length (g_Buckets g)" "d < length (g_Buckets g)" "c \<noteq> d" for c d
    using hold that by (auto simp: buckets_hold_def)
  have head: "g_Buckets g ! b \<noteq> Some v" and hd_in: "\<And>x. g_Buckets g ! b = Some x \<Longrightarrow> x \<in> set (B b)"
    using list [OF b] new [OF b] by (cases "B b"; auto)+
  have other: "dll ?g None (g_Buckets g ! c) (B c)" if c: "c < length (g_Buckets g)" "c \<noteq> b" for c
  proof -
    have "dll ?g None (g_Buckets g ! c) (B c) = dll g None (g_Buckets g ! c) (B c)"
      using new [OF c(1)] hd_in disj [OF c(1) b c(2)]
      by (intro dll_cong) (auto simp: AddVtxToBucket_links)
    with list c show ?thesis by simp
  qed
  have this_bucket: "dll ?g None (Some v) (v # B b)"
  proof (cases "B b")
    case Nil
    then show ?thesis
      using list [OF b] head by (simp add: AddVtxToBucket_links)
  next
    case (Cons w ws)
    have "dll ?g (Some w) (vx_fLink (deref g w)) ws = dll g (Some w) (vx_fLink (deref g w)) ws"
      using new [OF b] list [OF b] Cons by (intro dll_cong) (auto simp: AddVtxToBucket_links)
    then show ?thesis
      using list [OF b] new [OF b] Cons by (auto simp: AddVtxToBucket_links)
  qed
  show ?thesis
    unfolding buckets_hold_def
    using list disj new b other this_bucket by (auto simp: AddVtxToBucket_links nth_list_update)
qed

lemma RemoveVtxFromBucket_links:
  assumes "vx_fLink (deref g v) \<noteq> Some v" and "vx_bLink (deref g v) \<noteq> Some v"
  shows "vx_fLink (deref (RemoveVtxFromBucket g v b) x) =
      (if vx_bLink (deref g v) = Some x then vx_fLink (deref g v) else vx_fLink (deref g x))"
    "vx_bLink (deref (RemoveVtxFromBucket g v b) x) =
      (if vx_fLink (deref g v) = Some x then vx_bLink (deref g v) else vx_bLink (deref g x))"
    "g_Buckets (RemoveVtxFromBucket g v b) =
      (if vx_bLink (deref g v) = None then (g_Buckets g)[b := vx_fLink (deref g v)] else g_Buckets g)"
  using assms by (auto simp: RemoveVtxFromBucket_def Let_def split: option.splits)

lemma RemoveVtxFromBucket_same: "bucket_links_only g (RemoveVtxFromBucket g v b)"
  by (auto simp: bucket_links_only_def RemoveVtxFromBucket_def Let_def store_def set_bucket_def fun_eq_iff split: option.splits)

lemma RemoveVtxFromBucket_hold:
  assumes hold: "buckets_hold g B" and b: "b < length (g_Buckets g)" and B: "B b = as @ v # bs"
  shows "buckets_hold (RemoveVtxFromBucket g v b) (B(b := as @ bs))"
proof -
  let ?g = "RemoveVtxFromBucket g v b"
  have list: "dll g None (g_Buckets g ! c) (B c)" "distinct (B c)" if "c < length (g_Buckets g)" for c
    using hold that by (auto simp: buckets_hold_def)
  have disj: "set (B c) \<inter> set (B d) = {}" if "c < length (g_Buckets g)" "d < length (g_Buckets g)" "c \<noteq> d" for c d
    using hold that by (auto simp: buckets_hold_def)
  have d: "distinct (as @ v # bs)" and l: "dll g None (g_Buckets g ! b) (as @ v # bs)"
    using list [OF b] by (simp_all add: B)
  note at = dll_at [OF l]
  have nv: "vx_fLink (deref g v) \<noteq> Some v" "vx_bLink (deref g v) \<noteq> Some v"
    using d at by (auto split: if_splits)
  have nb: "x \<in> set (B b)" if "vx_fLink (deref g v) = Some x \<or> vx_bLink (deref g v) = Some x" for x
    using that at unfolding B by (auto split: if_splits)
  note links = RemoveVtxFromBucket_links [OF nv]
  have other: "dll ?g None (g_Buckets g ! c) (B c)" if c: "c < length (g_Buckets g)" "c \<noteq> b" for c
  proof -
    have "dll ?g None (g_Buckets g ! c) (B c) = dll g None (g_Buckets g ! c) (B c)"
      using nb disj [OF c(1) b c(2)] by (intro dll_cong) (auto simp: links)
    with list c show ?thesis by simp
  qed
  have "dll ?g None (if as = [] then vx_fLink (deref g v) else g_Buckets g ! b) (as @ bs)"
    using l d by (rule dll_remove) (auto simp: links)
  then have this_bucket: "dll ?g None (g_Buckets ?g ! b) (as @ bs)"
    using at(1) b by (auto simp: links split: if_splits)
  have "distinct (as @ bs)" and sub: "set (as @ bs) \<subseteq> set (B b)"
    using d by (auto simp: B)
  moreover have "g_Buckets ?g ! c = g_Buckets g ! c" if "c \<noteq> b" for c
    using that by (simp add: links)
  moreover have "length (g_Buckets ?g) = length (g_Buckets g)"
    by (simp add: links)
  ultimately show ?thesis
    unfolding buckets_hold_def using list disj b other this_bucket
    by (auto split: if_splits) (blast+)?
qed

text \<open>A loop that adds vertices to empty buckets.\<close>

definition filled :: "Graph \<Rightarrow> vref set \<Rightarrow> (vref \<Rightarrow> nat) \<Rightarrow> (nat \<Rightarrow> vref list) \<Rightarrow> bool" where
  "filled g S key B \<longleftrightarrow> buckets_hold g B \<and> (\<forall>b<length (g_Buckets g). set (B b) = {v \<in> S. key v = b})"

lemma filled_empty: "filled (g\<lparr>g_Buckets := replicate n None\<rparr>) {} key (\<lambda>_. [])"
  by (simp add: filled_def buckets_hold_def)

lemma fill_bucket:
  assumes fill: "filled g S key B" and v: "v \<notin> S" "key v < length (g_Buckets g)"
  shows "filled (AddVtxToBucket g v (key v)) (insert v S) key (B(key v := v # B (key v)))"
  using AddVtxToBucket_hold [of g B "key v" v] fill v
  by (auto simp: filled_def AddVtxToBucket_links)

lemma fill_loop:
  assumes c: "inj c" and key: "\<And>i. i < n \<Longrightarrow> key (c i) < length (g_Buckets g)"
    and fill: "filled g {} key (\<lambda>_. [])"
    and val: "\<And>h i. bucket_links_only g h \<Longrightarrow> val h (c i) = key (c i)"
    and deg: "\<And>h i. bucket_links_only g h \<Longrightarrow> deg h (c i) \<longleftrightarrow> D (c i)"
  shows "\<exists>B. filled (foldl (\<lambda>g i. if deg g (c i) then AddVtxToBucket g (c i) (val g (c i)) else g) g [0..<n])
      (c ` {i. i < n \<and> D (c i)}) key B \<and>
    bucket_links_only g (foldl (\<lambda>g i. if deg g (c i) then AddVtxToBucket g (c i) (val g (c i)) else g) g [0..<n])"
  using key
proof (induction n)
  case 0
  then show ?case
    using fill by auto
next
  case (Suc n)
  let ?h = "foldl (\<lambda>g i. if deg g (c i) then AddVtxToBucket g (c i) (val g (c i)) else g) g [0..<n]"
  obtain B where IH: "filled ?h (c ` {i. i < n \<and> D (c i)}) key B" "bucket_links_only g ?h"
    using Suc by auto
  show ?case
  proof (cases "D (c n)")
    case True
    have "c n \<notin> c ` {i. i < n \<and> D (c i)}"
      using c by (auto dest: injD)
    moreover have "key (c n) < length (g_Buckets ?h)"
      using Suc.prems [of n] bucket_links_only_fields(9) [OF IH(2)] by simp
    moreover have "insert (c n) (c ` {i. i < n \<and> D (c i)}) = c ` {i. i < Suc n \<and> D (c i)}"
      using True by (auto simp: less_Suc_eq)
    ultimately have "filled (AddVtxToBucket ?h (c n) (key (c n))) (c ` {i. i < Suc n \<and> D (c i)}) key
        (B(key (c n) := c n # B (key (c n))))"
      using fill_bucket [OF IH(1), of "c n"] by simp
    then show ?thesis
      using True deg [OF IH(2)] val [OF IH(2)] bucket_links_only_trans [OF IH(2) AddVtxToBucket_same] by auto
  next
    case False
    then have "{i. i < Suc n \<and> D (c i)} = {i. i < n \<and> D (c i)}"
      by (auto simp: less_Suc_eq)
    with False IH deg [OF IH(2)] show ?thesis
      by auto
  qed
qed

lemma foldl_max: "(\<forall>x\<in>set xs. f x \<le> foldl (\<lambda>m i. max m (f i)) (a::nat) xs) \<and> a \<le> foldl (\<lambda>m i. max m (f i)) a xs"
  by (induction xs rule: rev_induct) (auto simp: le_max_iff_disj)

lemma buckets_update:
  fixes bs :: "vref option list"
  shows "same_edges g (g\<lparr>g_Buckets := bs\<rparr>)" "lh_ok (g\<lparr>g_Buckets := bs\<rparr>) = lh_ok g"
    "matched_set (g\<lparr>g_Buckets := bs\<rparr>) = matched_set g" "match_of (g\<lparr>g_Buckets := bs\<rparr>) = match_of g"
proof -
  show same: "same_edges g (g\<lparr>g_Buckets := bs\<rparr>)"
    by (simp add: same_edges_def)
  show "lh_ok (g\<lparr>g_Buckets := bs\<rparr>) = lh_ok g" "matched_set (g\<lparr>g_Buckets := bs\<rparr>) = matched_set g"
    "match_of (g\<lparr>g_Buckets := bs\<rparr>) = match_of g"
    by (rule same_matching [OF same]; simp)+
qed

lemma InitializeLHSBuckets_spec:
  assumes "InitializeLHSBuckets g = (n, g')"
  shows "\<exists>B. filled g' (LV ` clients g) (\<lambda>v. vx_degree (deref g v)) B" and "length (g_Buckets g') = n + 1"
    and "bucket_links_only (g\<lparr>g_Buckets := replicate (n + 1) None\<rparr>) g'"
    and "i \<in> clients g \<Longrightarrow> vx_degree (deref g (LV i)) \<le> n"
proof -
  let ?g = "g\<lparr>g_Buckets := replicate (n + 1) None\<rparr>"
  have n: "n = foldl (\<lambda>m i. max m (vx_degree (deref g (LV i)))) 0 [0..<g_numLHSVtx g]"
    and g': "g' = foldl (\<lambda>g i. if vx_degree (deref g (LV i)) > 0 then AddVtxToBucket g (LV i) (vx_degree (deref g (LV i))) else g)
      ?g [0..<g_numLHSVtx g]"
    using assms by (auto simp: InitializeLHSBuckets_def Let_def)
  have le: "vx_degree (deref g (LV i)) \<le> n" if "i < g_numLHSVtx g" for i
    using foldl_max [of "[0..<g_numLHSVtx g]" "\<lambda>i. vx_degree (deref g (LV i))" 0] that unfolding n by simp
  have clients: "LV ` clients g = LV ` {i. i < g_numLHSVtx g \<and> 0 < vx_degree (deref g (LV i))}"
    by (simp add: clients_def)
  have loop: "\<exists>B. filled g' (LV ` clients g) (\<lambda>v. vx_degree (deref g v)) B \<and> bucket_links_only ?g g'"
    unfolding g' clients
    using fill_loop [where c = LV and n = "g_numLHSVtx g" and g = ?g and key = "\<lambda>v. vx_degree (deref g v)"
        and val = "\<lambda>h v. vx_degree (deref h v)" and deg = "\<lambda>h v. 0 < vx_degree (deref h v)"
        and D = "\<lambda>v. 0 < vx_degree (deref g v)"]
    by (simp add: filled_empty le less_Suc_eq_le bucket_links_only_vertex(1) del: replicate_Suc)
  then show "\<exists>B. filled g' (LV ` clients g) (\<lambda>v. vx_degree (deref g v)) B" and same: "bucket_links_only ?g g'"
    by blast+
  show "length (g_Buckets g') = n + 1"
    using bucket_links_only_fields(9) [OF same] by simp
  show "vx_degree (deref g (LV i)) \<le> n" if "i \<in> clients g"
    using that le by (simp add: clients_def)
qed

section \<open>The greedy assignment matches every vertex that has a neighbour\<close>

lemma best_nbr_mem:
  assumes "adj_ok (deref g u)" and "0 < vx_degree (deref g u)"
  shows "best_nbr g u \<in> set (nbrs g u)"
proof -
  have nth: "the (vx_adjList (deref g u) ! j) \<in> set (nbrs g u)" if "j < vx_degree (deref g u)" for j
    using that assms(1) by (force simp: vnbrs_def in_set_conv_nth adj_ok_def)
  have "foldl (\<lambda>bestR j. let r = the (vx_adjList (deref g u) ! j)
      in if vx_numMatched (deref g r) < vx_numMatched (deref g bestR) then r else bestR) a js \<in> set (nbrs g u)"
    if "a \<in> set (nbrs g u)" "\<forall>j\<in>set js. j < vx_degree (deref g u)" for a js
    using that nth by (induction js arbitrary: a) (auto simp: Let_def)
  then show ?thesis
    unfolding best_nbr_def using nth assms(2) by simp
qed

definition greedy_step :: "Graph \<Rightarrow> vref \<Rightarrow> Graph" where
  "greedy_step g u = (if vx_matchedWith (deref g u) \<noteq> None then g else assign_to u (best_nbr g u) g)"

definition same_links :: "Graph \<Rightarrow> Graph \<Rightarrow> bool" where
  "same_links g g' \<longleftrightarrow> g_Buckets g' = g_Buckets g \<and>
     (\<forall>p. vx_fLink (deref g' p) = vx_fLink (deref g p) \<and> vx_bLink (deref g' p) = vx_bLink (deref g p))"

lemma same_links_hold: "same_links g g' \<Longrightarrow> buckets_hold g' B = buckets_hold g B"
  using dll_cong [of _ g' g] by (simp add: same_links_def buckets_hold_def)

lemma greedy_step_links: "same_links g (greedy_step g u)"
  by (simp add: same_links_def greedy_step_def assign_to_def Let_def)

lemma greedy_step_ok:
  assumes ok: "lh_ok g" and i: "i \<in> clients g"
  shows "lh_ok (greedy_step g (LV i))" "same_edges g (greedy_step g (LV i))"
    "matched_set (greedy_step g (LV i)) = insert i (matched_set g)"
proof -
  let ?g = "greedy_step g (LV i)"
  have wf: "graph_wf g" and iL: "i < g_numLHSVtx g" "0 < vx_degree (deref g (LV i))"
    using ok i by (simp_all add: lh_ok_def clients_def)
  have "lh_ok ?g \<and> same_edges g ?g \<and> matched_set ?g = insert i (matched_set g)"
  proof (cases "vx_matchedWith (deref g (LV i))")
    case None
    have "adj_ok (deref g (LV i))"
      using graph_wf_adj [OF wf] iL by simp
    from best_nbr_mem [OF this iL(2)] have mem: "best_nbr g (LV i) \<in> set (nbrs g (LV i))" .
    then obtain j where j: "best_nbr g (LV i) = RV j"
      using lhs_nbr [OF wf iL(1)] by metis
    have same: "same_edges g ?g"
      by (auto simp: same_edges_def greedy_step_def assign_to_def Let_def)
    have g: "?g = assign_to (LV i) (RV j) g"
      using None by (simp add: greedy_step_def j)
    have "RV j \<in> set (nbrs g (LV i))" "vx_matchedWith (deref g (LV i)) \<noteq> Some (RV j)"
      using mem j None by simp_all
    note change = match_change_ok [OF ok same iL(1) this]
    have "lh_ok ?g"
      by (rule change(1)) (simp_all add: g assign_to_def None)
    moreover have "matched_set ?g = insert i (matched_set g)"
      by (rule change(2)) (simp_all add: g assign_to_def None)
    ultimately show ?thesis
      using same by simp
  next
    case (Some w)
    then show ?thesis
      using ok iL by (auto simp: greedy_step_def matched_set_def)
  qed
  then show "lh_ok ?g" "same_edges g ?g" "matched_set ?g = insert i (matched_set g)"
    by auto
qed

lemma greedy_bucket_steps:
  "dll g prev p vs \<Longrightarrow> greedy_bucket g p = Some (foldl greedy_step g vs)"
proof (induction vs arbitrary: g prev p)
  case Nil
  then show ?case
    by (simp add: greedy_bucket.simps)
next
  case (Cons u vs)
  have "dll (greedy_step g u) (Some u) (vx_fLink (deref (greedy_step g u) u)) vs"
    using Cons.prems greedy_step_links [of g u] dll_cong [of vs "greedy_step g u" g] by (simp add: same_links_def)
  moreover have "greedy_bucket g p = greedy_bucket (greedy_step g u) (vx_fLink (deref (greedy_step g u) u))"
    using Cons.prems by (subst greedy_bucket.simps) (simp add: greedy_step_def Let_def)
  ultimately show ?case
    using Cons.IH by simp
qed

lemma greedy_steps_links: "same_links g (foldl greedy_step g vs)"
proof (induction vs rule: rev_induct)
  case (snoc u vs)
  then show ?case
    using greedy_step_links [of "foldl greedy_step g vs" u] by (simp add: same_links_def)
qed (simp add: same_links_def)

lemma greedy_steps_ok:
  assumes "lh_ok g" and "set vs \<subseteq> LV ` clients g"
  shows "lh_ok (foldl greedy_step g vs)" "same_edges g (foldl greedy_step g vs)"
    "matched_set (foldl greedy_step g vs) = {i. LV i \<in> set vs} \<union> matched_set g"
proof -
  have "lh_ok (foldl greedy_step g vs) \<and> same_edges g (foldl greedy_step g vs) \<and>
    matched_set (foldl greedy_step g vs) = {i. LV i \<in> set vs} \<union> matched_set g"
    using assms(2)
  proof (induction vs rule: rev_induct)
    case (snoc u vs)
    let ?g = "foldl greedy_step g vs"
    from snoc obtain i where u: "u = LV i" "i \<in> clients g" by auto
    with snoc have IH: "lh_ok ?g" "same_edges g ?g" "matched_set ?g = {i. LV i \<in> set vs} \<union> matched_set g"
      by auto
    then have "i \<in> clients ?g"
      using u same_edges_problem by simp
    from greedy_step_ok [OF IH(1) this] show ?case
      using IH u(1) same_edges_trans [OF IH(2)] by auto
  qed (use assms in simp)
  then show "lh_ok (foldl greedy_step g vs)" "same_edges g (foldl greedy_step g vs)"
    "matched_set (foldl greedy_step g vs) = {i. LV i \<in> set vs} \<union> matched_set g"
    by auto
qed

lemma greedy_all_buckets:
  assumes "buckets_hold g B" and "\<forall>b\<in>set bs. b < length (g_Buckets g)"
  shows "fold_opt (\<lambda>b g. greedy_bucket g (g_Buckets g ! b)) bs g = Some (foldl greedy_step g (concat (map B bs)))"
  using assms
proof (induction bs arbitrary: g)
  case (Cons b bs)
  let ?g = "foldl greedy_step g (B b)"
  have "dll g None (g_Buckets g ! b) (B b)"
    using Cons.prems by (simp add: buckets_hold_def)
  then have "greedy_bucket g (g_Buckets g ! b) = Some ?g"
    by (rule greedy_bucket_steps)
  moreover have "buckets_hold ?g B" "g_Buckets ?g = g_Buckets g"
    using Cons.prems(1) greedy_steps_links [of g "B b"] same_links_hold by (auto simp: same_links_def)
  ultimately show ?case
    using Cons.IH [of ?g] Cons.prems(2) by simp
qed simp

theorem OrderedGreedyAssignment_ok:
  assumes ok: "lh_ok g"
  shows "\<exists>g'. OrderedGreedyAssignment g = Some g' \<and> lh_ok g' \<and> same_edges g g' \<and> matched_set g' = clients g"
proof -
  obtain n g1 where init: "InitializeLHSBuckets g = (n, g1)"
    by fastforce
  note spec = InitializeLHSBuckets_spec [OF init]
  let ?g = "g\<lparr>g_Buckets := replicate (n + 1) None\<rparr>"
  obtain B where B: "filled g1 (LV ` clients g) (\<lambda>v. vx_degree (deref g v)) B"
    using spec(1) by blast
  have same: "same_edges g g1"
    using same_edges_trans [OF buckets_update(1) bucket_links_only_edges [OF spec(3)]] .
  have ok1: "lh_ok g1" and m1: "matched_set g1 = matched_set g"
    using bucket_links_only_ok [OF spec(3)] buckets_update ok by auto
  let ?vs = "concat (map B [1..<n + 1])"
  have vs: "set ?vs = LV ` clients g"
  proof -
    have "set (B b) = {v \<in> LV ` clients g. vx_degree (deref g v) = b}" if "b < n + 1" for b
      using B spec(2) that by (simp add: filled_def)
    then have "set ?vs = {v \<in> LV ` clients g. vx_degree (deref g v) \<in> {1..<n + 1}}"
      by auto
    also have "\<dots> = LV ` clients g"
      using spec(4) by (force simp: clients_def less_Suc_eq_le)
    finally show ?thesis .
  qed
  have "set ?vs \<subseteq> LV ` clients g1"
    using vs same_edges_problem(1) [OF same] by simp
  note steps = greedy_steps_ok [OF ok1 this]
  have run: "fold_opt (\<lambda>b g. greedy_bucket g (g_Buckets g ! b)) [1..<n + 1] g1 = Some (foldl greedy_step g1 ?vs)"
    using B spec(2) by (intro greedy_all_buckets) (auto simp: filled_def)
  have "{i. LV i \<in> set ?vs} = clients g"
    unfolding vs by auto
  moreover have "matched_set g \<subseteq> clients g"
    using ok matched_set_clients by (simp add: lh_ok_def)
  ultimately have "matched_set (foldl greedy_step g1 ?vs) = clients g"
    using steps(3) m1 by auto
  moreover have "same_edges g (DestroyBuckets (foldl greedy_step g1 ?vs))"
    unfolding DestroyBuckets_def
    by (rule same_edges_trans [OF same_edges_trans [OF same steps(2)] buckets_update(1)])
  ultimately show ?thesis
    using run init steps(1) buckets_update(2,3)
    by (intro exI [of _ "DestroyBuckets (foldl greedy_step g1 ?vs)"])
      (simp add: OrderedGreedyAssignment_def DestroyBuckets_def del: upt_Suc)
qed

end
