(* ===== verification/LH_Search.thy ===== *)
theory LH_Search
  imports LH_Buckets
begin

text \<open>
  What both algorithms of \<^verbatim>\<open>lhmatch\<close> share: the queue of \<^verbatim>\<open>lhmain.c\<close>, the parent pointers that mark a vertex as visited, and
  paths along parent pointers on which the matching can be switched.
\<close>

section \<open>Queue and marks\<close>

definition InitializeQueue :: "Graph \<Rightarrow> Graph" where
  "InitializeQueue g = g\<lparr>g_Qsize := 0, g_Queue := replicate (g_numLHSVtx g + g_numRHSVtx g) None\<rparr>"

definition DestroyQueue :: "Graph \<Rightarrow> Graph" where
  "DestroyQueue g = g\<lparr>g_Queue := [], g_Qsize := 0\<rparr>"

definition ClearVertex :: "Vertex \<Rightarrow> Vertex" where
  "ClearVertex v = v\<lparr>vx_parent := None, vx_fLink := None, vx_bLink := None\<rparr>"

definition ClearAlgState :: "Graph \<Rightarrow> Graph" where
  "ClearAlgState g =
     (let g = g\<lparr>g_maxRHSLoad := 0, g_minRHSLoad := 0, g_Qsize := 0\<rparr>;
          g = foldl (\<lambda>g i. store (LV i) ClearVertex g) g [0..<g_numLHSVtx g]
      in foldl (\<lambda>g i. store (RV i) ClearVertex g) g [0..<g_numRHSVtx g])"

text \<open>\<^verbatim>\<open>g->Queue[g->Qsize++] = v\<close>, and the loop that takes the marks off the vertices in the queue.\<close>

definition enqueue :: "vref \<Rightarrow> Graph \<Rightarrow> Graph" where
  "enqueue v g = g\<lparr>g_Queue := (g_Queue g)[g_Qsize g := Some v], g_Qsize := g_Qsize g + 1\<rparr>"

definition set_parent :: "vref \<Rightarrow> vref option \<Rightarrow> Graph \<Rightarrow> Graph" where
  "set_parent v p g = store v (\<lambda>x. x\<lparr>vx_parent := p\<rparr>) g"

definition unmark_queue :: "Graph \<Rightarrow> Graph" where
  "unmark_queue g = foldl (\<lambda>g j. set_parent (the (g_Queue g ! j)) None g) g [0..<g_Qsize g]"

section \<open>Visited vertices\<close>

definition visited :: "Graph \<Rightarrow> vref \<Rightarrow> bool" where
  "visited g p \<longleftrightarrow> vref_ok g p \<and> vx_parent (deref g p) \<noteq> None"

lemma visited_vref: "visited g p \<Longrightarrow> vref_ok g p"
  by (simp add: visited_def)

definition queue_of :: "Graph \<Rightarrow> vref list" where
  "queue_of g = map the (take (g_Qsize g) (g_Queue g))"

definition queue_ok :: "Graph \<Rightarrow> bool" where
  "queue_ok g \<longleftrightarrow> length (g_Queue g) = g_numLHSVtx g + g_numRHSVtx g \<and> g_Qsize g \<le> length (g_Queue g) \<and>
     distinct (queue_of g) \<and> set (queue_of g) = {p. visited g p}"

text \<open>States that differ in marks and queue only.\<close>

definition same_but_tree :: "Graph \<Rightarrow> Graph \<Rightarrow> bool" where
  "same_but_tree g g' \<longleftrightarrow> (\<forall>p. (deref g' p)\<lparr>vx_parent := None\<rparr> = (deref g p)\<lparr>vx_parent := None\<rparr>) \<and>
     g'\<lparr>g_Vtx := deref g, g_Queue := g_Queue g, g_Qsize := g_Qsize g\<rparr> = g"

lemma same_but_tree_refl [simp]: "same_but_tree g g"
  by (simp add: same_but_tree_def)

lemma same_but_tree_trans: "same_but_tree g g' \<Longrightarrow> same_but_tree g' g'' \<Longrightarrow> same_but_tree g g''"
  unfolding same_but_tree_def by (cases g; cases g'; cases g'') simp

lemma same_but_tree_vertex:
  assumes "same_but_tree g g'"
  shows "vx_degree (deref g' p) = vx_degree (deref g p)" "vx_adjList (deref g' p) = vx_adjList (deref g p)"
    "vx_adjListSize (deref g' p) = vx_adjListSize (deref g p)" "vx_id (deref g' p) = vx_id (deref g p)"
    "vx_matchedWith (deref g' p) = vx_matchedWith (deref g p)" "vx_numMatched (deref g' p) = vx_numMatched (deref g p)"
    "vx_fLink (deref g' p) = vx_fLink (deref g p)" "vx_bLink (deref g' p) = vx_bLink (deref g p)"
proof -
  have "(deref g' p)\<lparr>vx_parent := None\<rparr> = (deref g p)\<lparr>vx_parent := None\<rparr>"
    using assms by (simp add: same_but_tree_def)
  then show "vx_degree (deref g' p) = vx_degree (deref g p)" "vx_adjList (deref g' p) = vx_adjList (deref g p)"
    "vx_adjListSize (deref g' p) = vx_adjListSize (deref g p)" "vx_id (deref g' p) = vx_id (deref g p)"
    "vx_matchedWith (deref g' p) = vx_matchedWith (deref g p)" "vx_numMatched (deref g' p) = vx_numMatched (deref g p)"
    "vx_fLink (deref g' p) = vx_fLink (deref g p)" "vx_bLink (deref g' p) = vx_bLink (deref g p)"
    by (cases "deref g' p"; cases "deref g p"; simp)+
qed

lemma same_but_tree_fields:
  assumes "same_but_tree g g'"
  shows "g_magic1 g' = g_magic1 g" "g_magic2 g' = g_magic2 g" "g_numLHSVtx g' = g_numLHSVtx g"
    "g_numRHSVtx g' = g_numRHSVtx g" "g_maxRHSLoad g' = g_maxRHSLoad g" "g_minRHSLoad g' = g_minRHSLoad g"
    "g_Buckets g' = g_Buckets g"
  using assms unfolding same_but_tree_def by (cases g; cases g'; simp)+

lemma same_but_tree_edges: "same_but_tree g g' \<Longrightarrow> same_edges g g'"
  using same_but_tree_vertex [of g g'] same_but_tree_fields [of g g'] by (simp add: same_edges_def)

lemma same_but_tree_ok:
  assumes "same_but_tree g g'"
  shows "lh_ok g' = lh_ok g" "matched_set g' = matched_set g" "match_of g' = match_of g"
  using same_matching [OF same_but_tree_edges [OF assms] same_but_tree_vertex(5,6) [OF assms]] by auto

lemma same_but_tree_links: "same_but_tree g g' \<Longrightarrow> same_links g g'"
  using same_but_tree_vertex(7,8) [of g g'] same_but_tree_fields(7) [of g g'] by (simp add: same_links_def)

lemma card_vref_ok: "card {p. vref_ok g p} = g_numLHSVtx g + g_numRHSVtx g" and finite_vref_ok: "finite {p. vref_ok g p}"
proof -
  have eq: "{p. vref_ok g p} = LV ` {..<g_numLHSVtx g} \<union> RV ` {..<g_numRHSVtx g}"
  proof (rule set_eqI)
    show "p \<in> {p. vref_ok g p} \<longleftrightarrow> p \<in> LV ` {..<g_numLHSVtx g} \<union> RV ` {..<g_numRHSVtx g}" for p
      by (cases p) auto
  qed
  show "finite {p. vref_ok g p}"
    unfolding eq by simp
  show "card {p. vref_ok g p} = g_numLHSVtx g + g_numRHSVtx g"
    unfolding eq by (subst card_Un_disjoint) (auto simp: card_image inj_on_def)
qed

lemma queue_room:
  assumes ok: "queue_ok g" and v: "vref_ok g v" "\<not> visited g v"
  shows "g_Qsize g < length (g_Queue g)"
proof -
  have "set (queue_of g) \<subset> {p. vref_ok g p}"
    using ok v visited_vref unfolding queue_ok_def by blast
  then have "card (set (queue_of g)) < g_numLHSVtx g + g_numRHSVtx g"
    using psubset_card_mono [OF finite_vref_ok] card_vref_ok by metis
  moreover have "card (set (queue_of g)) = g_Qsize g"
    using ok distinct_card [of "queue_of g"] by (auto simp: queue_ok_def queue_of_def)
  ultimately show ?thesis
    using ok by (simp add: queue_ok_def)
qed

text \<open>A vertex that was not visited gets a parent and enters the queue.\<close>

definition add_to_tree :: "vref \<Rightarrow> vref \<Rightarrow> Graph \<Rightarrow> Graph" where
  "add_to_tree v p g = enqueue v (set_parent v (Some p) g)"

lemma add_to_tree_parent:
  "vx_parent (deref (add_to_tree v p g) x) = (if x = v then Some p else vx_parent (deref g x))"
  by (simp add: add_to_tree_def enqueue_def set_parent_def)

lemma add_to_tree_same: "same_but_tree g (add_to_tree v p g)"
  by (simp add: same_but_tree_def add_to_tree_def enqueue_def set_parent_def store_def)

lemma add_to_tree_visited: "vref_ok g v \<Longrightarrow> visited (add_to_tree v p g) x \<longleftrightarrow> x = v \<or> visited g x"
  using same_edges_vref_ok [OF same_but_tree_edges [OF add_to_tree_same]] by (auto simp: visited_def add_to_tree_parent)

lemma add_to_tree_queue:
  assumes ok: "queue_ok g" and v: "vref_ok g v" "\<not> visited g v"
  shows "queue_ok (add_to_tree v p g)" and "queue_of (add_to_tree v p g) = queue_of g @ [v]"
    and "g_Qsize (add_to_tree v p g) = g_Qsize g + 1"
proof -
  let ?g = "add_to_tree v p g"
  have room: "g_Qsize g < length (g_Queue g)"
    by (rule queue_room [OF ok v])
  then show q: "queue_of ?g = queue_of g @ [v]"
    by (simp add: queue_of_def add_to_tree_def enqueue_def set_parent_def take_Suc_conv_app_nth)
  show "g_Qsize ?g = g_Qsize g + 1"
    by (simp add: add_to_tree_def enqueue_def set_parent_def)
  have "g_Queue ?g = (g_Queue g)[g_Qsize g := Some v]" "g_Qsize ?g = g_Qsize g + 1" "g_numLHSVtx ?g = g_numLHSVtx g"
      "g_numRHSVtx ?g = g_numRHSVtx g"
    by (simp_all add: add_to_tree_def enqueue_def set_parent_def)
  moreover have "set (queue_of ?g) = {p. visited ?g p}" "distinct (queue_of ?g)"
    using ok v(2) unfolding q add_to_tree_visited [OF v(1)] by (auto simp: queue_ok_def)
  ultimately show "queue_ok ?g"
    using ok room by (simp add: queue_ok_def)
qed

lemma queue_nth: "queue_ok g \<Longrightarrow> q < g_Qsize g \<Longrightarrow> the (g_Queue g ! q) = queue_of g ! q"
  by (simp add: queue_ok_def queue_of_def)

lemma length_queue_of: "queue_ok g \<Longrightarrow> length (queue_of g) = g_Qsize g"
  by (simp add: queue_ok_def queue_of_def)

text \<open>Taking the marks off leaves no vertex visited.\<close>

lemma unmark_loop:
  assumes "n \<le> length (g_Queue g)"
  shows "vx_parent (deref (foldl (\<lambda>g j. set_parent (the (g_Queue g ! j)) None g) g [0..<n]) p) =
      (if p \<in> set (map the (take n (g_Queue g))) then None else vx_parent (deref g p))"
    and "same_but_tree g (foldl (\<lambda>g j. set_parent (the (g_Queue g ! j)) None g) g [0..<n])"
    and "g_Queue (foldl (\<lambda>g j. set_parent (the (g_Queue g ! j)) None g) g [0..<n]) = g_Queue g"
  using assms
proof (induction n arbitrary: p)
  case (Suc n)
  let ?g = "foldl (\<lambda>g j. set_parent (the (g_Queue g ! j)) None g) g [0..<n]"
  {
    case 1
    then show ?case
      using Suc.IH(1) [of p] Suc.IH(3) by (auto simp: set_parent_def take_Suc_conv_app_nth)
  next
    case 2
    then have "same_but_tree g ?g" "same_but_tree ?g (set_parent (the (g_Queue g ! n)) None ?g)"
      using Suc.IH(2) by (simp_all add: same_but_tree_def set_parent_def store_def)
    then show ?case
      using same_but_tree_trans Suc.IH(3) 2 by auto
  next
    case 3
    then show ?case
      using Suc.IH(3) by (simp add: set_parent_def)
  }
qed simp_all

lemma unmark_spec:
  assumes ok: "queue_ok g"
  defines "g' \<equiv> (unmark_queue g)\<lparr>g_Qsize := 0\<rparr>"
  shows "same_but_tree g g'" "queue_ok g'" "\<not> visited g' p"
proof -
  have n: "g_Qsize g \<le> length (g_Queue g)"
    using ok by (simp add: queue_ok_def)
  note u = unmark_loop [OF n, folded unmark_queue_def]
  show same: "same_but_tree g g'"
    using u(2) unfolding g'_def same_but_tree_def by (cases "unmark_queue g"; cases g) simp
  have vr: "vref_ok g' x = vref_ok g x" for x
    using same_edges_vref_ok [OF same_but_tree_edges [OF same]] .
  show none: "\<not> visited g' p" for p
  proof
    assume p: "visited g' p"
    then have "p \<in> set (queue_of g)"
      using ok u(1) [of p] vr by (auto simp: visited_def g'_def queue_ok_def split: if_splits)
    then show False
      using p u(1) [of p] by (simp add: visited_def g'_def queue_of_def)
  qed
  show "queue_ok g'"
    using ok u(3) none same_but_tree_fields(3,4) [OF same] unfolding queue_ok_def by (simp add: queue_of_def g'_def)
qed

section \<open>Alternating paths\<close>

text \<open>
  A path from \<open>w\<close> back to \<open>u\<close> along parent pointers, as the list of left-hand vertices on it: each is matched with the
  right-hand vertex it is the parent of, and has its own parent as a neighbour.
\<close>

fun alt_path :: "Graph \<Rightarrow> nat \<Rightarrow> nat \<Rightarrow> nat list \<Rightarrow> bool" where
  "alt_path g u w [] \<longleftrightarrow> w = u"
| "alt_path g u w (n # ns) \<longleftrightarrow> w \<noteq> u \<and> w < g_numRHSVtx g \<and> vx_parent (deref g (RV w)) = Some (LV n) \<and> n < g_numLHSVtx g \<and>
     vx_matchedWith (deref g (LV n)) = Some (RV w) \<and>
     (\<exists>v. vx_parent (deref g (LV n)) = Some (RV v) \<and> v < g_numRHSVtx g \<and> RV v \<in> set (nbrs g (LV n)) \<and> alt_path g u v ns)"

lemma alt_path_mono:
  assumes "alt_path g u w ns" and same: "same_but_tree g g'"
    and parents: "\<And>p. visited g p \<Longrightarrow> vx_parent (deref g' p) = vx_parent (deref g p)"
  shows "alt_path g' u w ns"
  using assms(1)
proof (induction ns arbitrary: w)
  case (Cons n ns)
  then obtain v where v: "vx_parent (deref g (RV w)) = Some (LV n)" "vx_parent (deref g (LV n)) = Some (RV v)"
      "alt_path g u v ns" "w < g_numRHSVtx g" "n < g_numLHSVtx g"
    by auto
  have "vx_parent (deref g' (RV w)) = Some (LV n)" "vx_parent (deref g' (LV n)) = Some (RV v)"
    using parents [of "RV w"] parents [of "LV n"] v by (simp_all add: visited_def)
  with Cons.prems Cons.IH [OF v(3)] v show ?case
    using same_but_tree_vertex(5) [OF same] same_but_tree_fields(3,4) [OF same]
      same_edges_nbrs [OF same_but_tree_edges [OF same]] by simp
qed simp

text \<open>States that differ in the partners of the left-hand vertices only.\<close>

definition same_but_match :: "Graph \<Rightarrow> Graph \<Rightarrow> bool" where
  "same_but_match g g' \<longleftrightarrow> (\<forall>p. (deref g' p)\<lparr>vx_matchedWith := None\<rparr> = (deref g p)\<lparr>vx_matchedWith := None\<rparr>) \<and>
     g'\<lparr>g_Vtx := deref g\<rparr> = g"

lemma same_but_match_refl [simp]: "same_but_match g g"
  by (simp add: same_but_match_def)

lemma same_but_match_trans: "same_but_match g g' \<Longrightarrow> same_but_match g' g'' \<Longrightarrow> same_but_match g g''"
  unfolding same_but_match_def by (cases g; cases g'; cases g'') simp

lemma same_but_match_store: "same_but_match g (store p (\<lambda>x. x\<lparr>vx_matchedWith := m\<rparr>) g)"
  by (simp add: same_but_match_def store_def)

lemma same_but_match_vertex:
  assumes "same_but_match g g'"
  shows "vx_degree (deref g' p) = vx_degree (deref g p)" "vx_adjList (deref g' p) = vx_adjList (deref g p)"
    "vx_adjListSize (deref g' p) = vx_adjListSize (deref g p)" "vx_id (deref g' p) = vx_id (deref g p)"
    "vx_parent (deref g' p) = vx_parent (deref g p)" "vx_numMatched (deref g' p) = vx_numMatched (deref g p)"
    "vx_fLink (deref g' p) = vx_fLink (deref g p)" "vx_bLink (deref g' p) = vx_bLink (deref g p)"
proof -
  have "(deref g' p)\<lparr>vx_matchedWith := None\<rparr> = (deref g p)\<lparr>vx_matchedWith := None\<rparr>"
    using assms by (simp add: same_but_match_def)
  then show "vx_degree (deref g' p) = vx_degree (deref g p)" "vx_adjList (deref g' p) = vx_adjList (deref g p)"
    "vx_adjListSize (deref g' p) = vx_adjListSize (deref g p)" "vx_id (deref g' p) = vx_id (deref g p)"
    "vx_parent (deref g' p) = vx_parent (deref g p)" "vx_numMatched (deref g' p) = vx_numMatched (deref g p)"
    "vx_fLink (deref g' p) = vx_fLink (deref g p)" "vx_bLink (deref g' p) = vx_bLink (deref g p)"
    by (cases "deref g' p"; cases "deref g p"; simp)+
qed

lemma same_but_match_fields:
  assumes "same_but_match g g'"
  shows "g_magic1 g' = g_magic1 g" "g_magic2 g' = g_magic2 g" "g_numLHSVtx g' = g_numLHSVtx g"
    "g_numRHSVtx g' = g_numRHSVtx g" "g_maxRHSLoad g' = g_maxRHSLoad g" "g_minRHSLoad g' = g_minRHSLoad g"
    "g_Buckets g' = g_Buckets g" "g_Queue g' = g_Queue g" "g_Qsize g' = g_Qsize g"
  using assms unfolding same_but_match_def by (cases g; cases g'; simp)+

lemma same_but_match_edges: "same_but_match g g' \<Longrightarrow> same_edges g g'"
  using same_but_match_vertex [of g g'] same_but_match_fields [of g g'] by (simp add: same_edges_def)

lemma same_but_match_links: "same_but_match g g' \<Longrightarrow> same_links g g'"
  using same_but_match_vertex(7,8) [of g g'] same_but_match_fields(7) [of g g'] by (simp add: same_links_def)

lemma same_but_match_queue: "same_but_match g g' \<Longrightarrow> queue_ok g' = queue_ok g \<and> visited g' = visited g"
  using same_but_match_vertex(5) [of g g'] same_but_match_fields [of g g'] same_edges_vref_ok [of g g']
    same_but_match_edges [of g g'] by (simp add: queue_ok_def queue_of_def visited_def fun_eq_iff)

end
