(* ===== verification/LH_BFS.thy ===== *)
theory LH_BFS
  imports LH_Search
begin

text \<open>
  The algorithm of \<^verbatim>\<open>lhbfs.c\<close>: from a greedy assignment, breadth-first searches from right-hand vertices of low load
  look for a vertex whose load is larger by two or more, and switch the matching along the path found, until a scan
  over all right-hand vertices finds nothing.
\<close>

section \<open>The code\<close>

definition InitializeBFS :: "Graph \<Rightarrow> Graph" where
  "InitializeBFS g =
     (let g = foldl (\<lambda>g i. store (LV i) (\<lambda>x. x\<lparr>vx_parent := None\<rparr>) g) g [0..<g_numLHSVtx g];
          g = foldl (\<lambda>g i. store (RV i) (\<lambda>x. x\<lparr>vx_parent := None\<rparr>) g) g [0..<g_numRHSVtx g]
      in InitializeQueue g)"

definition AddVtxToTree :: "Graph \<Rightarrow> vref \<Rightarrow> vref \<Rightarrow> Graph" where
  "AddVtxToTree g v p = add_to_tree v p g"

partial_function (option) switch_path :: "Graph \<Rightarrow> vref \<Rightarrow> vref \<Rightarrow> Graph option" where
  "switch_path g u w =
     (let p = the (vx_parent (deref g w));
          w = the (vx_parent (deref g p));
          g = store p (\<lambda>x. x\<lparr>vx_matchedWith := Some w\<rparr>) g
      in if w \<noteq> u then switch_path g u w else Some g)"

declare switch_path.simps [code]

definition move_up :: "vref \<Rightarrow> Graph \<Rightarrow> Graph" where
  "move_up u g =
     (let g = RemoveVtxFromBucket g u (vx_numMatched (deref g u));
          g = store u (\<lambda>x. x\<lparr>vx_numMatched := vx_numMatched x + 1\<rparr>) g
      in AddVtxToBucket g u (vx_numMatched (deref g u)))"

definition move_down :: "vref \<Rightarrow> Graph \<Rightarrow> Graph" where
  "move_down v g =
     (let g = RemoveVtxFromBucket g v (vx_numMatched (deref g v));
          g = store v (\<lambda>x. x\<lparr>vx_numMatched := vx_numMatched x - 1\<rparr>) g
      in AddVtxToBucket g v (vx_numMatched (deref g v)))"

definition UpdateNegPath :: "Graph \<Rightarrow> vref \<Rightarrow> vref \<Rightarrow> Graph option" where
  "UpdateNegPath g u v = map_option (\<lambda>g. move_down v (move_up u g)) (switch_path g u v)"

text \<open>The neighbours of \<open>v\<close> in the order of its adjacency list, which the loop does not change.\<close>

fun bfs_nbrs :: "Graph \<Rightarrow> vref \<Rightarrow> vref \<Rightarrow> vref list \<Rightarrow> Graph \<times> vref option" where
  "bfs_nbrs g u v [] = (g, None)"
| "bfs_nbrs g u v (n # ns) =
     (if vx_matchedWith (deref g n) = Some v then bfs_nbrs g u v ns
      else if vx_parent (deref g n) \<noteq> None then bfs_nbrs g u v ns
      else
        let g = AddVtxToTree g n v;
            m = the (vx_matchedWith (deref g n))
        in if vx_parent (deref g m) \<noteq> None then bfs_nbrs g u v ns
           else
             let g = AddVtxToTree g m n
             in if vx_numMatched (deref g m) \<ge> vx_numMatched (deref g u) + 2 then (g, Some m)
                else bfs_nbrs g u v ns)"

partial_function (option) bfs_loop :: "Graph \<Rightarrow> vref \<Rightarrow> nat \<Rightarrow> (Graph \<times> vref option) option" where
  "bfs_loop g u q =
     (if q < g_Qsize g
      then
        let v = the (g_Queue g ! q)
        in if IS_LHS_VTX g v then bfs_loop g u (q + 1)
           else case bfs_nbrs g u v (vnbrs (deref g v)) of
                  (g, Some m) \<Rightarrow> Some (g, Some m)
                | (g, None) \<Rightarrow> bfs_loop g u (q + 1)
      else Some (g, None))"

declare bfs_loop.simps [code]

definition DoBFS :: "Graph \<Rightarrow> vref \<Rightarrow> (Graph \<times> vref option) option" where
  "DoBFS g u =
     (let g = set_parent u (Some u) g;
          q = g_Qsize g;
          g = enqueue u g
      in bfs_loop g u q)"

partial_function (option) scan_bucket :: "Graph \<Rightarrow> vref option \<Rightarrow> bool \<Rightarrow> (Graph \<times> bool) option" where
  "scan_bucket g u fAugmentedSinceStart =
     (case u of
        None \<Rightarrow> Some (g, fAugmentedSinceStart)
      | Some u \<Rightarrow>
          let nextU = vx_fLink (deref g u)
          in if vx_parent (deref g u) \<noteq> None then scan_bucket g nextU fAugmentedSinceStart
             else Option.bind (DoBFS g u) (\<lambda>(g, m).
               case m of
                 None \<Rightarrow> scan_bucket g nextU fAugmentedSinceStart
               | Some m \<Rightarrow> Option.bind (UpdateNegPath g u m) (\<lambda>g. scan_bucket g nextU True)))"

declare scan_bucket.simps [code]

text \<open>
  \<^verbatim>\<open>while(!g->Buckets[g->maxRHSLoad]) g->maxRHSLoad--\<close> has no other bound: when all buckets are empty it reads in front of the
  array.
\<close>

datatype lh_fault = BAD_READ

fun lower_max :: "vref option list \<Rightarrow> nat \<Rightarrow> lh_fault + nat" where
  "lower_max bs 0 = (if bs ! 0 \<noteq> None then Inr 0 else Inl BAD_READ)"
| "lower_max bs (Suc n) = (if bs ! Suc n \<noteq> None then Inr (Suc n) else lower_max bs n)"

definition DoFullScan :: "Graph \<Rightarrow> (lh_fault + Graph \<times> bool) option" where
  "DoFullScan g =
     map_option
       (\<lambda>(g, fAugmentedSinceStart).
          case lower_max (g_Buckets g) (g_maxRHSLoad g) of
            Inl ft \<Rightarrow> Inl ft
          | Inr n \<Rightarrow> Inr (g\<lparr>g_maxRHSLoad := n\<rparr>, fAugmentedSinceStart))
       (fold_opt (\<lambda>b (g, aug). scan_bucket g (g_Buckets g ! b) aug) [0..<g_maxRHSLoad g - 1] (g, False))"

partial_function (option) MainLoop :: "Graph \<Rightarrow> (lh_fault + Graph) option" where
  "MainLoop g =
     (let g = unmark_queue g;
          g = g\<lparr>g_Qsize := 0\<rparr>
      in case DoFullScan g of
           None \<Rightarrow> None
         | Some (Inl ft) \<Rightarrow> Some (Inl ft)
         | Some (Inr (g, fMadeImprovement)) \<Rightarrow> if fMadeImprovement then MainLoop g else Some (Inr g))"

declare MainLoop.simps [code]

definition LHAlgBFS :: "Graph \<Rightarrow> (lh_fault + int \<times> Graph) option" where
  "LHAlgBFS g =
     (case OrderedGreedyAssignment g of
        None \<Rightarrow> None
      | Some g \<Rightarrow>
          let g = InitializeBFS g;
              g = InitializeRHSBuckets g
          in case MainLoop g of
               None \<Rightarrow> None
             | Some (Inl ft) \<Rightarrow> Some (Inl ft)
             | Some (Inr g) \<Rightarrow> Some (Inr (LH_SUCCESS, DestroyBuckets (DestroyQueue g))))"

section \<open>One search\<close>

definition partners_visited :: "Graph \<Rightarrow> bool" where
  "partners_visited g \<longleftrightarrow> (\<forall>n m. visited g (LV n) \<longrightarrow> vx_matchedWith (deref g (LV n)) = Some m \<longrightarrow> visited g m)"

definition tree_shape :: "Graph \<Rightarrow> nat \<Rightarrow> Graph \<Rightarrow> bool" where
  "tree_shape g0 u g \<longleftrightarrow> same_but_tree g0 g \<and> queue_ok g \<and> visited g (RV u) \<and>
     (\<forall>p. visited g0 p \<longrightarrow> vx_parent (deref g p) = vx_parent (deref g0 p)) \<and>
     (\<exists>ts. queue_of g = queue_of g0 @ ts) \<and>
     (\<forall>w. visited g (RV w) \<longrightarrow> \<not> visited g0 (RV w) \<longrightarrow>
        (\<exists>ns. alt_path g u w ns \<and> distinct ns \<and> (\<forall>n\<in>set ns. visited g (LV n))))"

definition bfs_tree :: "Graph \<Rightarrow> nat \<Rightarrow> Graph \<Rightarrow> bool" where
  "bfs_tree g0 u g \<longleftrightarrow> tree_shape g0 u g \<and> partners_visited g"

lemma tree_shape_mono: "tree_shape g0 u g \<Longrightarrow> visited g0 p \<Longrightarrow> visited g p"
  using same_edges_vref_ok [OF same_but_tree_edges, of g0 g p] unfolding tree_shape_def by (metis visited_def)

lemma tree_shape_add:
  fixes p :: vref
  assumes tree: "tree_shape g0 u g" and x: "vref_ok g x" "\<not> visited g x"
  defines "g' \<equiv> add_to_tree x p g"
  assumes new: "\<And>w. x = RV w \<Longrightarrow> \<exists>ns. alt_path g' u w ns \<and> distinct ns \<and> (\<forall>n\<in>set ns. visited g' (LV n))"
  shows "tree_shape g0 u g'"
    and "visited g (RV w) \<Longrightarrow> \<not> visited g0 (RV w) \<Longrightarrow>
      \<exists>ns. alt_path g' u w ns \<and> distinct ns \<and> (\<forall>n\<in>set ns. visited g (LV n))"
proof -
  have T: "same_but_tree g0 g" "queue_ok g" "visited g (RV u)"
      "\<And>p. visited g0 p \<Longrightarrow> vx_parent (deref g p) = vx_parent (deref g0 p)" "\<exists>ts. queue_of g = queue_of g0 @ ts"
      "\<And>w. visited g (RV w) \<Longrightarrow> \<not> visited g0 (RV w) \<Longrightarrow>
        \<exists>ns. alt_path g u w ns \<and> distinct ns \<and> (\<forall>n\<in>set ns. visited g (LV n))"
    using tree by (auto simp: tree_shape_def)
  note q = add_to_tree_queue [OF T(2) x, of p, folded g'_def]
  have s: "same_but_tree g g'" and v: "\<And>y. visited g' y \<longleftrightarrow> y = x \<or> visited g y"
    unfolding g'_def by (fact add_to_tree_same add_to_tree_visited [OF x(1)])+
  have par: "vx_parent (deref g' y) = vx_parent (deref g y)" if "visited g y" for y
    using that x(2) by (auto simp: g'_def add_to_tree_parent)
  show paths: "\<exists>ns. alt_path g' u w ns \<and> distinct ns \<and> (\<forall>n\<in>set ns. visited g (LV n))"
    if "visited g (RV w)" "\<not> visited g0 (RV w)" for w
    using T(6) [OF that] alt_path_mono [OF _ s par] by blast
  show "tree_shape g0 u g'"
    unfolding tree_shape_def
  proof (intro conjI allI impI)
    show "same_but_tree g0 g'" "queue_ok g'" "visited g' (RV u)"
      using same_but_tree_trans [OF T(1) s] q(1) T(3) v by auto
    show "vx_parent (deref g' y) = vx_parent (deref g0 y)" if "visited g0 y" for y
      using T(4) [OF that] par [OF tree_shape_mono [OF tree that]] by simp
    show "\<exists>ts. queue_of g' = queue_of g0 @ ts"
      using T(5) q(2) by auto
    show "\<exists>ns. alt_path g' u w ns \<and> distinct ns \<and> (\<forall>n\<in>set ns. visited g' (LV n))"
      if "visited g' (RV w)" "\<not> visited g0 (RV w)" for w
      using that new [of w] paths [of w] v by metis
  qed
qed

lemma nbr_partner:
  assumes ok: "lh_ok g" and all: "matched_set g = clients g" and v: "v < g_numRHSVtx g" and n: "LV n \<in> set (nbrs g (RV v))"
  shows "n < g_numLHSVtx g" and "RV v \<in> set (nbrs g (LV n))"
    and "vx_matchedWith (deref g (LV n)) = Some (RV (match_of g n))" and "match_of g n < g_numRHSVtx g"
proof -
  have wf: "graph_wf g" and mwf: "match_wf g"
    using ok by (simp_all add: lh_ok_def)
  show nL: "n < g_numLHSVtx g" and nv: "RV v \<in> set (nbrs g (LV n))"
    using rhs_nbr [OF wf v n] by auto
  have "n \<in> matched_set g"
    unfolding all clients_def using nL vnbrs_degree [OF nv] by simp
  from matched_mem [OF mwf wf this]
  show "vx_matchedWith (deref g (LV n)) = Some (RV (match_of g n))" and "match_of g n < g_numRHSVtx g"
    by (simp_all add: adj_of_def)
qed

text \<open>A neighbour \<open>n\<close> of \<open>v\<close> enters the tree, and its partner unless it was visited before.\<close>

lemma bfs_tree_add:
  assumes tree: "bfs_tree g0 u g" and ok: "lh_ok g" and all: "matched_set g = clients g"
    and v: "visited g (RV v)" "\<not> visited g0 (RV v)" "v < g_numRHSVtx g"
    and n: "LV n \<in> set (nbrs g (RV v))" "\<not> visited g (LV n)"
  defines "m \<equiv> match_of g n" and "g1 \<equiv> add_to_tree (LV n) (RV v) g"
  shows "visited g (RV m) \<Longrightarrow> bfs_tree g0 u g1"
    and "\<not> visited g (RV m) \<Longrightarrow> bfs_tree g0 u (add_to_tree (RV m) (LV n) g1)"
proof -
  let ?g2 = "add_to_tree (RV m) (LV n) g1"
  note part = nbr_partner [OF ok all v(3) n(1), folded m_def]
  have shape: "tree_shape g0 u g" and pv: "partners_visited g"
    using tree by (simp_all add: bfs_tree_def)
  have nr: "vref_ok g (LV n)"
    using part(1) by simp
  have s1: "same_but_tree g g1" and v1: "\<And>x. visited g1 x \<longleftrightarrow> x = LV n \<or> visited g x"
    unfolding g1_def by (fact add_to_tree_same add_to_tree_visited [OF nr])+
  have shape1: "tree_shape g0 u g1"
    unfolding g1_def by (rule tree_shape_add [OF shape nr n(2)]) simp
  obtain ns where ns: "alt_path g1 u v ns" "distinct ns" "\<forall>n\<in>set ns. visited g (LV n)"
    using tree_shape_add(2) [OF shape nr n(2) _ v(1,2), of "RV v"] unfolding g1_def by blast
  show "bfs_tree g0 u g1" if "visited g (RV m)"
    using shape1 pv that part(3) same_but_tree_vertex(5) [OF s1] by (auto simp: bfs_tree_def partners_visited_def v1)
  show "bfs_tree g0 u ?g2" if nm: "\<not> visited g (RV m)"
  proof -
    have mr: "vref_ok g1 (RV m)" "\<not> visited g1 (RV m)"
      using part(4) nm v1 same_but_tree_fields(4) [OF s1] by auto
    have s2: "same_but_tree g1 ?g2" and v2: "\<And>x. visited ?g2 x \<longleftrightarrow> x = RV m \<or> visited g1 x"
      by (fact add_to_tree_same add_to_tree_visited [OF mr(1)])+
    note s02 = same_but_tree_trans [OF s1 s2]
    have par2: "vx_parent (deref ?g2 x) = vx_parent (deref g1 x)" if "visited g1 x" for x
      using that mr(2) by (auto simp: add_to_tree_parent)
    have "m \<noteq> u"
      using nm shape by (auto simp: tree_shape_def)
    moreover have "vx_parent (deref ?g2 (RV m)) = Some (LV n)" "vx_parent (deref ?g2 (LV n)) = Some (RV v)"
      by (simp_all add: add_to_tree_parent g1_def)
    ultimately have "alt_path ?g2 u m (n # ns)"
      using alt_path_mono [OF ns(1) s2 par2] part v(3) same_but_tree_vertex(5) [OF s02] same_but_tree_fields(3,4) [OF s02]
        same_edges_nbrs [OF same_but_tree_edges [OF s02]] by simp
    moreover have "distinct (n # ns)" "\<forall>k\<in>set (n # ns). visited ?g2 (LV k)"
      using ns n(2) v1 v2 by auto
    ultimately have "tree_shape g0 u ?g2"
      by (intro tree_shape_add(1) [OF shape1 mr]) blast
    then show ?thesis
      using pv part(3) same_but_tree_vertex(5) [OF s02] by (auto simp: bfs_tree_def partners_visited_def v1 v2)
  qed
qed

text \<open>What a part of the search did: it visited more vertices, and stopped if it visited one of a load larger by two.\<close>

definition bfs_result :: "Graph \<Rightarrow> nat \<Rightarrow> Graph \<Rightarrow> vref option \<Rightarrow> bool" where
  "bfs_result g u g' r \<longleftrightarrow> same_but_tree g g' \<and> (\<forall>p. visited g p \<longrightarrow> visited g' p) \<and>
     (\<exists>ts. queue_of g' = queue_of g @ ts) \<and>
     (\<forall>w. visited g' (RV w) \<longrightarrow> \<not> visited g (RV w) \<longrightarrow>
        vx_numMatched (deref g (RV w)) \<le> vx_numMatched (deref g (RV u)) + 1 \<or> r = Some (RV w)) \<and>
     (\<forall>m. r = Some m \<longrightarrow> (\<exists>w. m = RV w) \<and> visited g' m \<and> \<not> visited g m \<and>
        vx_numMatched (deref g (RV u)) + 2 \<le> vx_numMatched (deref g m))"

lemma bfs_result_refl: "bfs_result g u g None"
  by (simp add: bfs_result_def)

lemma bfs_result_trans:
  assumes "bfs_result g u g1 None" and "bfs_result g1 u g2 r"
  shows "bfs_result g u g2 r"
proof -
  have same: "same_but_tree g g1" and n: "\<And>p. vx_numMatched (deref g1 p) = vx_numMatched (deref g p)"
    using assms(1) same_but_tree_vertex(6) by (auto simp: bfs_result_def)
  show ?thesis
    using assms same_but_tree_trans [OF same] unfolding bfs_result_def n by (metis append.assoc option.distinct(1))
qed

lemma bfs_nbrs_step:
  assumes tree: "bfs_tree g0 u g" and ok: "lh_ok g" and all: "matched_set g = clients g"
    and v: "visited g (RV v)" "\<not> visited g0 (RV v)" "v < g_numRHSVtx g" and n: "LV n \<in> set (nbrs g (RV v))"
  shows "\<exists>g' r. bfs_tree g0 u g' \<and> bfs_result g u g' r \<and> visited g' (RV (match_of g n)) \<and>
    bfs_nbrs g (RV u) (RV v) (LV n # ns) = (case r of None \<Rightarrow> bfs_nbrs g' (RV u) (RV v) ns | Some m \<Rightarrow> (g', Some m))"
proof -
  note part = nbr_partner [OF ok all v(3) n]
  let ?m = "RV (match_of g n)" and ?g1 = "add_to_tree (LV n) (RV v) g"
  let ?g2 = "add_to_tree ?m (LV n) ?g1"
  have pn: "visited g (LV n) \<longleftrightarrow> vx_parent (deref g (LV n)) \<noteq> None" and pm: "visited g ?m \<longleftrightarrow> vx_parent (deref g ?m) \<noteq> None"
    and nr: "vref_ok g (LV n)"
    using part by (simp_all add: visited_def)
  have pv: "visited g ?m" if "visited g (LV n)"
    using tree that part(3) by (auto simp: bfs_tree_def partners_visited_def)
  consider "match_of g n = v" | "match_of g n \<noteq> v" "visited g (LV n)"
    | "\<not> visited g (LV n)" "match_of g n \<noteq> v" "visited g ?m" | "\<not> visited g (LV n)" "match_of g n \<noteq> v" "\<not> visited g ?m"
    by blast
  then show ?thesis
  proof cases
    case 1
    then show ?thesis
      using tree v bfs_result_refl part(3) by (intro exI [of _ g] exI [of _ None]) simp
  next
    case 2
    then show ?thesis
      using tree bfs_result_refl part(3) pv by (intro exI [of _ g] exI [of _ None]) (auto simp: pn)
  next
    case 3
    have tree1: "bfs_tree g0 u ?g1"
      by (rule bfs_tree_add(1) [OF tree ok all v n 3(1,3)])
    have "bfs_result g u ?g1 None" "visited ?g1 ?m"
      using 3 tree part(1) add_to_tree_queue(2) [of g "LV n"]
      by (auto simp: bfs_result_def add_to_tree_same add_to_tree_visited [OF nr] bfs_tree_def tree_shape_def)
    then show ?thesis
      using tree1 3 part(3) same_but_tree_vertex(5) [OF add_to_tree_same, of "LV n" "RV v" g]
      by (intro exI [of _ ?g1] exI [of _ None]) (auto simp: AddVtxToTree_def pn pm Let_def add_to_tree_parent)
  next
    case 4
    have tree2: "bfs_tree g0 u ?g2"
      by (rule bfs_tree_add(2) [OF tree ok all v n 4(1,3)])
    have q: "queue_ok g" "vref_ok g (LV n)" "vref_ok ?g1 ?m" "\<not> visited ?g1 ?m"
      using tree part 4 same_but_tree_fields(4) [OF add_to_tree_same, of "LV n" "RV v" g]
      by (auto simp: bfs_tree_def tree_shape_def add_to_tree_visited [OF nr])
    note q2 = add_to_tree_queue(2) [OF add_to_tree_queue(1) [OF q(1,2) 4(1)] q(3,4)] add_to_tree_queue(2) [OF q(1,2) 4(1)]
    let ?r = "if vx_numMatched (deref g ?m) \<ge> vx_numMatched (deref g (RV u)) + 2 then Some ?m else None"
    have s2: "same_but_tree g ?g2"
      by (rule same_but_tree_trans [OF add_to_tree_same add_to_tree_same])
    have "bfs_result g u ?g2 ?r" "visited ?g2 ?m"
      using 4 q2 s2 by (auto simp: bfs_result_def add_to_tree_visited [OF nr] add_to_tree_visited [OF q(3)])
    then show ?thesis
      using tree2 4 part(3) same_but_tree_vertex(5) [OF add_to_tree_same, of "LV n" "RV v" g] same_but_tree_vertex(6) [OF s2]
      by (intro exI [of _ ?g2] exI [of _ ?r]) (auto simp: AddVtxToTree_def Let_def pn pm add_to_tree_parent)
  qed
qed

lemma bfs_nbrs_spec:
  assumes "bfs_tree g0 u g" and "lh_ok g" and "matched_set g = clients g"
    and "visited g (RV v)" "\<not> visited g0 (RV v)" "v < g_numRHSVtx g" and "set ns \<subseteq> set (nbrs g (RV v))"
  shows "\<exists>g' r. bfs_nbrs g (RV u) (RV v) ns = (g', r) \<and> bfs_tree g0 u g' \<and> bfs_result g u g' r \<and>
    (r = None \<longrightarrow> (\<forall>n. LV n \<in> set ns \<longrightarrow> visited g' (RV (match_of g n))))"
  using assms
proof (induction ns arbitrary: g)
  case Nil
  then show ?case
    by (intro exI [of _ g] exI [of _ None]) (simp add: bfs_result_refl)
next
  case (Cons x ns)
  have wf: "graph_wf g"
    using Cons.prems(2) by (simp add: lh_ok_def)
  obtain n where x: "x = LV n"
    using Cons.prems(6,7) rhs_nbr [OF wf] by (metis list.set_intros(1) subsetD)
  then have n: "LV n \<in> set (nbrs g (RV v))"
    using Cons.prems(7) by simp
  from bfs_nbrs_step [OF Cons.prems(1-6) n, of ns]
  obtain g1 r1 where step: "bfs_tree g0 u g1" "bfs_result g u g1 r1" "visited g1 (RV (match_of g n))"
      "bfs_nbrs g (RV u) (RV v) (x # ns) = (case r1 of None \<Rightarrow> bfs_nbrs g1 (RV u) (RV v) ns | Some m \<Rightarrow> (g1, Some m))"
    unfolding x by blast
  show ?case
  proof (cases r1)
    case (Some m)
    then show ?thesis
      using step by auto
  next
    case None
    have same: "same_but_tree g g1" and mono: "\<And>p. visited g p \<Longrightarrow> visited g1 p"
      using step(2) by (auto simp: bfs_result_def)
    have "lh_ok g1" "matched_set g1 = clients g1" "visited g1 (RV v)" "v < g_numRHSVtx g1"
        "set ns \<subseteq> set (nbrs g1 (RV v))" and mo: "match_of g1 = match_of g"
      using Cons.prems same_but_tree_ok [OF same] same_edges_problem(1) [OF same_but_tree_edges [OF same]] mono
        same_but_tree_fields(4) [OF same] same_edges_nbrs [OF same_but_tree_edges [OF same]] by auto
    with Cons.IH [OF step(1)] Cons.prems(5)
    obtain g' r where IH: "bfs_nbrs g1 (RV u) (RV v) ns = (g', r)" "bfs_tree g0 u g'" "bfs_result g1 u g' r"
        "r = None \<longrightarrow> (\<forall>n. LV n \<in> set ns \<longrightarrow> visited g' (RV (match_of g n)))"
      by auto
    moreover have "visited g' (RV (match_of g n))"
      using IH(3) step(3) by (simp add: bfs_result_def)
    ultimately show ?thesis
      using step(2,4) None bfs_result_trans [of g u g1 g' r] x by (intro exI [of _ g'] exI [of _ r]) auto
  qed
qed

definition expanded :: "Graph \<Rightarrow> nat \<Rightarrow> bool" where
  "expanded g j \<longleftrightarrow> (\<forall>n. LV n \<in> set (nbrs g (RV j)) \<longrightarrow> visited g (RV (match_of g n)))"

lemma expanded_mono:
  assumes "expanded g j" and "same_but_tree g g'" and "\<And>p. visited g p \<Longrightarrow> visited g' p"
  shows "expanded g' j"
  using assms same_but_tree_ok(3) [OF assms(2)] same_edges_nbrs [OF same_but_tree_edges [OF assms(2)]]
  by (simp add: expanded_def)

lemma tree_queue_nth:
  assumes tree: "tree_shape g0 u g" and q0: "queue_ok g0" and q: "g_Qsize g0 \<le> q" "q < g_Qsize g"
  shows "visited g (queue_of g ! q)" "\<not> visited g0 (queue_of g ! q)" "vref_ok g (queue_of g ! q)"
proof -
  obtain ts where ts: "queue_of g = queue_of g0 @ ts" and ok: "queue_ok g"
    using tree by (auto simp: tree_shape_def)
  have lens: "length (queue_of g0) \<le> q" "q < length (queue_of g)"
    using q length_queue_of [OF q0] length_queue_of [OF ok] by auto
  then have "queue_of g ! q \<in> set ts"
    using ts by (auto simp: nth_append)
  then show "\<not> visited g0 (queue_of g ! q)"
    using ok q0 ts by (auto simp: queue_ok_def)
  show "visited g (queue_of g ! q)"
    using ok lens nth_mem [of q "queue_of g"] by (auto simp: queue_ok_def)
  then show "vref_ok g (queue_of g ! q)"
    by (rule visited_vref)
qed

lemma bfs_loop_spec:
  assumes "bfs_tree g0 u g" and "queue_ok g0" and "lh_ok g" and "matched_set g = clients g"
    and "g_Qsize g0 \<le> q" and "q \<le> g_Qsize g"
    and "\<And>j. RV j \<in> set (take q (queue_of g)) \<Longrightarrow> \<not> visited g0 (RV j) \<Longrightarrow> expanded g j"
  shows "\<exists>g' r. bfs_loop g (RV u) q = Some (g', r) \<and> bfs_tree g0 u g' \<and> bfs_result g u g' r \<and>
    (r = None \<longrightarrow> (\<forall>j. visited g' (RV j) \<longrightarrow> \<not> visited g0 (RV j) \<longrightarrow> expanded g' j))"
  using assms
proof (induction "g_numLHSVtx g0 + g_numRHSVtx g0 - q" arbitrary: g q rule: less_induct)
  case less
  have ok: "queue_ok g" and shape: "tree_shape g0 u g" and same0: "same_but_tree g0 g"
    using less.prems(1) by (simp_all add: bfs_tree_def tree_shape_def)
  have bound: "g_Qsize g \<le> g_numLHSVtx g0 + g_numRHSVtx g0"
    using ok same_but_tree_fields(3,4) [OF same0] by (simp add: queue_ok_def)
  show ?case
  proof (cases "q < g_Qsize g")
    case False
    then have "take q (queue_of g) = queue_of g"
      using less.prems(6) length_queue_of [OF ok] by simp
    moreover have "set (queue_of g) = {p. visited g p}"
      using ok by (simp add: queue_ok_def)
    ultimately have "\<forall>j. visited g (RV j) \<longrightarrow> \<not> visited g0 (RV j) \<longrightarrow> expanded g j"
      using less.prems(7) by auto
    then show ?thesis
      using False less.prems(1) by (intro exI [of _ g] exI [of _ None]) (simp add: bfs_loop.simps bfs_result_refl)
  next
    case True
    let ?v = "queue_of g ! q"
    have m: "g_numLHSVtx g0 + g_numRHSVtx g0 - (q + 1) < g_numLHSVtx g0 + g_numRHSVtx g0 - q"
      using True bound by simp
    have take: "take (q + 1) (queue_of g) = take q (queue_of g) @ [?v]"
      using True length_queue_of [OF ok] by (simp add: take_Suc_conv_app_nth)
    note v = tree_queue_nth [OF shape less.prems(2,5) True]
    have wf: "graph_wf g"
      using less.prems(3) by (simp add: lh_ok_def)
    show ?thesis
    proof (cases ?v)
      case (LV i)
      then have run: "bfs_loop g (RV u) q = bfs_loop g (RV u) (q + 1)"
        using True v queue_nth [OF ok True] IS_LHS_VTX_iff [OF wf] by (simp add: bfs_loop.simps [of g "RV u" q])
      have "expanded g j" if "RV j \<in> set (take (q + 1) (queue_of g))" "\<not> visited g0 (RV j)" for j
        using that less.prems(7) [of j] take LV by auto
      then show ?thesis
        unfolding run using less.hyps [OF m, of g] less.prems True by auto
    next
      case (RV j)
      have j: "visited g (RV j)" "\<not> visited g0 (RV j)" "j < g_numRHSVtx g"
        using v RV by auto
      from bfs_nbrs_spec [OF less.prems(1,3,4) j subset_refl]
      obtain g1 r where nb: "bfs_nbrs g (RV u) (RV j) (nbrs g (RV j)) = (g1, r)" "bfs_tree g0 u g1" "bfs_result g u g1 r"
          "r = None \<longrightarrow> (\<forall>n. LV n \<in> set (nbrs g (RV j)) \<longrightarrow> visited g1 (RV (match_of g n)))"
        by blast
      have run: "bfs_loop g (RV u) q = (case r of Some m \<Rightarrow> Some (g1, Some m) | None \<Rightarrow> bfs_loop g1 (RV u) (q + 1))"
        using True RV v(3) queue_nth [OF ok True] IS_LHS_VTX_iff [OF wf] nb(1)
        by (subst bfs_loop.simps) (simp split: option.splits)
      show ?thesis
      proof (cases r)
        case (Some m)
        then show ?thesis
          using run nb by simp
      next
        case None
        obtain ts where same: "same_but_tree g g1" and mono: "\<And>p. visited g p \<Longrightarrow> visited g1 p"
            and ts: "queue_of g1 = queue_of g @ ts"
          using nb(3) by (auto simp: bfs_result_def)
        have edges: "nbrs g1 x = nbrs g x" for x
          using same_edges_nbrs [OF same_but_tree_edges [OF same]] .
        have "expanded g1 k" if "RV k \<in> set (take (q + 1) (queue_of g1))" "\<not> visited g0 (RV k)" for k
        proof (cases "k = j")
          case True
          then show ?thesis
            using nb(4) None same_but_tree_ok(3) [OF same] by (simp add: expanded_def edges)
        next
          case False
          have "take (q + 1) (queue_of g1) = take q (queue_of g) @ [?v]"
            using take ts True length_queue_of [OF ok] by simp
          with False that RV have "expanded g k"
            using less.prems(7) [of k] by auto
          then show ?thesis
            by (rule expanded_mono [OF _ same mono])
        qed
        moreover have "lh_ok g1" "matched_set g1 = clients g1" "q + 1 \<le> g_Qsize g1"
          using less.prems(3,4) same_but_tree_ok [OF same] same_edges_problem(1) [OF same_but_tree_edges [OF same]]
            True ts length_queue_of [OF ok] length_queue_of [of g1] nb(2) by (auto simp: bfs_tree_def tree_shape_def)
        ultimately show ?thesis
          using less.hyps [OF m nb(2) less.prems(2)] less.prems(5) run None bfs_result_trans [of g u g1] nb(3) by fastforce
      qed
    qed
  qed
qed

lemma DoBFS_spec:
  assumes q0: "queue_ok g0" and pv: "partners_visited g0" and ok: "lh_ok g0" and all: "matched_set g0 = clients g0"
    and u: "u < g_numRHSVtx g0" "\<not> visited g0 (RV u)"
  shows "\<exists>g r. DoBFS g0 (RV u) = Some (g, r) \<and> bfs_tree g0 u g \<and> bfs_result g0 u g r \<and>
    (r = None \<longrightarrow> (\<forall>j. visited g (RV j) \<longrightarrow> \<not> visited g0 (RV j) \<longrightarrow> expanded g j))"
proof -
  let ?g = "add_to_tree (RV u) (RV u) g0"
  have ur: "vref_ok g0 (RV u)"
    using u by simp
  note q = add_to_tree_queue [OF q0 ur u(2), of "RV u"]
  have same: "same_but_tree g0 ?g"
    by (rule add_to_tree_same)
  have tree: "bfs_tree g0 u ?g"
    using q same pv same_but_tree_vertex(5) [OF same] u(2)
    by (auto simp: bfs_tree_def tree_shape_def partners_visited_def add_to_tree_visited [OF ur] add_to_tree_parent
        intro: exI [of _ "[]"])
  have start: "bfs_result g0 u ?g None"
    using q same by (auto simp: bfs_result_def add_to_tree_visited [OF ur])
  have run: "DoBFS g0 (RV u) = bfs_loop ?g (RV u) (g_Qsize g0)"
    by (simp add: DoBFS_def add_to_tree_def set_parent_def)
  have "expanded ?g j" if "RV j \<in> set (take (g_Qsize g0) (queue_of ?g))" "\<not> visited g0 (RV j)" for j
    using that q(2) q0 length_queue_of [OF q0] by (auto simp: queue_ok_def)
  moreover have "lh_ok ?g" "matched_set ?g = clients ?g"
    using ok all same_but_tree_ok [OF same] same_edges_problem(1) [OF same_but_tree_edges [OF same]] by auto
  ultimately show ?thesis
    using bfs_loop_spec [OF tree q0, of "g_Qsize g0"] q(3) run bfs_result_trans [OF start] by fastforce
qed

section \<open>Switching along a path\<close>

definition partners_ok :: "Graph \<Rightarrow> bool" where
  "partners_ok g \<longleftrightarrow> match_wf g \<and> partners_visited g"

lemma rematch_partner:
  assumes wf: "graph_wf g" and m: "partners_ok g" and n: "n < g_numLHSVtx g" "vx_matchedWith (deref g (LV n)) = Some (RV w)"
    and v: "RV v \<in> set (nbrs g (LV n))" "visited g (RV v)"
  defines "g' \<equiv> store (LV n) (\<lambda>x. x\<lparr>vx_matchedWith := Some (RV v)\<rparr>) g"
  shows "partners_ok g'" "matched_set g' = matched_set g"
    "load_of (matched_set g) (match_of g') x + (if x = w then 1 else 0) =
      load_of (matched_set g) (match_of g) x + (if x = v then 1 else 0)"
proof -
  have same: "same_but_match g g'"
    unfolding g'_def by (rule same_but_match_store)
  have nb: "nbrs g' p = nbrs g p" and vis: "visited g' = visited g" for p
    using same_edges_nbrs [OF same_but_match_edges [OF same]] same_but_match_queue [OF same] by auto
  show "partners_ok g'"
    using m v unfolding partners_ok_def match_wf_def partners_visited_def vis nb by (auto simp: g'_def)
  show "matched_set g' = matched_set g"
    using n by (auto simp: matched_set_def g'_def)
  have mo: "match_of g' = (match_of g)(n := v)" and nM: "n \<in> matched_set g" and w: "match_of g n = w"
    using n by (auto simp: match_of_def g'_def matched_set_def fun_eq_iff)
  show "load_of (matched_set g) (match_of g') x + (if x = w then 1 else 0) =
      load_of (matched_set g) (match_of g) x + (if x = v then 1 else 0)"
  proof (cases "v = w")
    case True
    with w have "match_of g' = match_of g"
      by (auto simp: mo)
    with True show ?thesis by simp
  next
    case False
    then show ?thesis
      using load_of_move [OF finite_matched_set nM, of "match_of g" v x] w nM
        load_of_pos [OF finite_matched_set nM, of "match_of g"] by (auto simp: mo)
  qed
qed

lemma alt_path_rematch:
  assumes "alt_path g u w ns" and "n \<notin> set ns"
  shows "alt_path (store (LV n) (\<lambda>x. x\<lparr>vx_matchedWith := m\<rparr>) g) u w ns"
  using assms
proof (induction ns arbitrary: w)
  case (Cons k ns)
  then show ?case
    using same_edges_nbrs [OF same_but_match_edges [OF same_but_match_store]] by (fastforce simp: vnbrs_def)
qed simp

lemma switch_path_spec:
  assumes "alt_path g u w ns" and "distinct ns" and "w \<noteq> u" and "graph_wf g" and "partners_ok g" and "visited g (RV u)"
  shows "\<exists>g'. switch_path g (RV u) (RV w) = Some g' \<and> same_but_match g g' \<and> partners_ok g' \<and>
    matched_set g' = matched_set g \<and>
    (\<forall>x. load_of (matched_set g) (match_of g') x + (if x = w then 1 else 0) =
      load_of (matched_set g) (match_of g) x + (if x = u then 1 else 0))"
  using assms
proof (induction ns arbitrary: g w)
  case (Cons n ns)
  then obtain v where v: "vx_parent (deref g (RV w)) = Some (LV n)" "n < g_numLHSVtx g"
      "vx_matchedWith (deref g (LV n)) = Some (RV w)" "vx_parent (deref g (LV n)) = Some (RV v)"
      "RV v \<in> set (nbrs g (LV n))" "alt_path g u v ns"
    by auto
  let ?g = "store (LV n) (\<lambda>x. x\<lparr>vx_matchedWith := Some (RV v)\<rparr>) g"
  have vis: "visited g (RV v)"
    using v(6) Cons.prems(6) by (cases ns) (auto simp: visited_def)
  note r = rematch_partner [OF Cons.prems(4,5) v(2,3,5) vis]
  have same: "same_but_match g ?g"
    by (rule same_but_match_store)
  have run: "switch_path g (RV u) (RV w) = (if v \<noteq> u then switch_path ?g (RV u) (RV v) else Some ?g)"
    using v by (subst switch_path.simps) (simp add: Let_def)
  show ?case
  proof (cases "v = u")
    case True
    then show ?thesis
      using run same r by auto
  next
    case False
    have "alt_path ?g u v ns"
      using alt_path_rematch [OF v(6)] Cons.prems(2) by simp
    moreover have "graph_wf ?g" "visited ?g (RV u)"
      using Cons.prems(4,6) same_edges_wf [OF same_but_match_edges [OF same]] same_but_match_queue [OF same] by auto
    ultimately obtain g' where g': "switch_path ?g (RV u) (RV v) = Some g'" "same_but_match ?g g'" "partners_ok g'"
        "matched_set g' = matched_set g"
        "\<forall>x. load_of (matched_set g) (match_of g') x + (if x = v then 1 else 0) =
          load_of (matched_set g) (match_of ?g) x + (if x = u then 1 else 0)"
      using Cons.IH [of ?g v] Cons.prems(2) False r(1,2) by auto
    have "load_of (matched_set g) (match_of g') x + (if x = w then 1 else 0) =
        load_of (matched_set g) (match_of g) x + (if x = u then 1 else 0)" for x
      using g'(5) [rule_format, of x] r(3) [of x] by linarith
    then show ?thesis
      using run False g' same_but_match_trans [OF same g'(2)] by auto
  qed
qed simp

section \<open>Moving a vertex to another bucket\<close>

definition rebucket :: "vref \<Rightarrow> nat \<Rightarrow> Graph \<Rightarrow> Graph" where
  "rebucket v k g =
     AddVtxToBucket (store v (\<lambda>x. x\<lparr>vx_numMatched := k\<rparr>) (RemoveVtxFromBucket g v (vx_numMatched (deref g v)))) v k"

lemma move_rebucket:
  "move_up v g = rebucket v (vx_numMatched (deref g v) + 1) g"
  "move_down v g = rebucket v (vx_numMatched (deref g v) - 1) g"
  using bucket_links_only_vertex(6) [OF RemoveVtxFromBucket_same, of g v "vx_numMatched (deref g v)" v]
  by (simp_all add: move_up_def move_down_def rebucket_def Let_def store_def)

lemma rebucket_vertex:
  "vx_matchedWith (deref (rebucket v k g) p) = vx_matchedWith (deref g p)"
  "vx_parent (deref (rebucket v k g) p) = vx_parent (deref g p)"
  "vx_numMatched (deref (rebucket v k g) p) = (if p = v then k else vx_numMatched (deref g p))"
  by (simp_all add: rebucket_def bucket_links_only_vertex [OF AddVtxToBucket_same] bucket_links_only_vertex [OF RemoveVtxFromBucket_same])

lemma rebucket_fields:
  "g_maxRHSLoad (rebucket v k g) = g_maxRHSLoad g" "g_Queue (rebucket v k g) = g_Queue g"
  "g_Qsize (rebucket v k g) = g_Qsize g" "length (g_Buckets (rebucket v k g)) = length (g_Buckets g)"
  by (simp_all add: rebucket_def bucket_links_only_fields [OF AddVtxToBucket_same] bucket_links_only_fields [OF RemoveVtxFromBucket_same])

lemma rebucket_edges: "same_edges g (rebucket v k g)"
proof -
  let ?h = "RemoveVtxFromBucket g v (vx_numMatched (deref g v))"
  have "same_edges ?h (store v (\<lambda>x. x\<lparr>vx_numMatched := k\<rparr>) ?h)"
    by (auto simp: same_edges_def)
  then show ?thesis
    unfolding rebucket_def
    using bucket_links_only_edges [OF RemoveVtxFromBucket_same] bucket_links_only_edges [OF AddVtxToBucket_same] same_edges_trans
    by metis
qed

lemma rebucket_queue: "queue_ok (rebucket v k g) = queue_ok g \<and> visited (rebucket v k g) = visited g"
  using same_edges_nums [OF rebucket_edges, of v k g] same_edges_vref_ok [OF rebucket_edges, of v k g]
  by (simp add: queue_ok_def queue_of_def visited_def rebucket_vertex rebucket_fields fun_eq_iff)

abbreviation by_load :: "Graph \<Rightarrow> vref \<Rightarrow> nat" where
  "by_load g p \<equiv> vx_numMatched (deref g p)"

lemma rebucket_filled:
  assumes fill: "filled g S (by_load g) B" and b: "by_load g v < length (g_Buckets g)" and k: "k < length (g_Buckets g)" "k \<noteq> by_load g v"
    and B: "B (by_load g v) = as @ v # bs"
  shows "filled (rebucket v k g) S (by_load (rebucket v k g)) (B(by_load g v := as @ bs, k := v # B k))"
proof -
  let ?b = "by_load g v"
  let ?h = "RemoveVtxFromBucket g v ?b"
  let ?h' = "store v (\<lambda>x. x\<lparr>vx_numMatched := k\<rparr>) ?h"
  have hold: "buckets_hold g B" and keys: "\<And>c. c < length (g_Buckets g) \<Longrightarrow> set (B c) = {p \<in> S. by_load g p = c}"
    using fill by (auto simp: filled_def)
  have vS: "v \<in> S"
    using keys [OF b] B by auto
  have d: "distinct (as @ v # bs)"
    using hold b unfolding buckets_hold_def by (metis B)
  have "buckets_hold ?h (B(?b := as @ bs))"
    by (rule RemoveVtxFromBucket_hold [OF hold b B])
  moreover have "same_links ?h ?h'"
    by (simp add: same_links_def)
  ultimately have hold': "buckets_hold ?h' (B(?b := as @ bs))"
    using same_links_hold by blast
  have len: "length (g_Buckets ?h') = length (g_Buckets g)"
    using bucket_links_only_fields(9) [OF RemoveVtxFromBucket_same] by simp
  have "v \<notin> set ((B(?b := as @ bs)) c)" if "c < length (g_Buckets ?h')" for c
    using that len keys [of c] d by (auto split: if_splits)
  then have "buckets_hold (rebucket v k g) (B(?b := as @ bs, k := v # B k))"
    using AddVtxToBucket_hold [OF hold', of k v] k len by (simp add: rebucket_def)
  moreover have "set ((B(?b := as @ bs, k := v # B k)) c) = {p \<in> S. by_load (rebucket v k g) p = c}"
    if "c < length (g_Buckets g)" for c
    using that keys [of c] keys [OF b] d B vS k(2) by (auto simp: rebucket_vertex split: if_splits)
  ultimately show ?thesis
    by (simp add: filled_def rebucket_fields)
qed

section \<open>One improvement\<close>

definition scan_inv :: "Graph \<Rightarrow> (nat \<Rightarrow> vref list) \<Rightarrow> bool" where
  "scan_inv g B \<longleftrightarrow> lh_ok g \<and> matched_set g = clients g \<and> queue_ok g \<and> partners_visited g \<and>
     filled g (RV ` {j. j < g_numRHSVtx g \<and> 0 < vx_degree (deref g (RV j))}) (by_load g) B \<and>
     g_maxRHSLoad g < length (g_Buckets g) \<and> (\<forall>j<g_numRHSVtx g. by_load g (RV j) \<le> g_maxRHSLoad g)"

abbreviation graph_cost :: "Graph \<Rightarrow> nat" where
  "graph_cost g \<equiv> cost_of (clients g) (servers g) (match_of g)"

lemma scan_inv_tree:
  assumes inv: "scan_inv g0 B" and tree: "bfs_tree g0 u g"
  shows "scan_inv g B"
proof -
  have same: "same_but_tree g0 g" and q: "queue_ok g" "partners_visited g"
    using tree by (auto simp: bfs_tree_def tree_shape_def)
  note v = same_but_tree_vertex [OF same] and f = same_but_tree_fields [OF same] and ok = same_but_tree_ok [OF same]
    and prob = same_edges_problem [OF same_but_tree_edges [OF same]]
  show ?thesis
    using inv q same_links_hold [OF same_but_tree_links [OF same]]
    by (simp add: scan_inv_def filled_def v f ok prob)
qed

lemma scan_inv_bucket:
  assumes inv: "scan_inv g B" and j: "j < g_numRHSVtx g" "0 < vx_degree (deref g (RV j))"
  shows "RV j \<in> set (B (by_load g (RV j)))" and "by_load g (RV j) < length (g_Buckets g)"
proof -
  show "by_load g (RV j) < length (g_Buckets g)"
    using inv j by (fastforce simp: scan_inv_def)
  then show "RV j \<in> set (B (by_load g (RV j)))"
    using inv j by (auto simp: scan_inv_def filled_def)
qed

lemma loaded_degree:
  assumes ok: "lh_ok g" and j: "j < g_numRHSVtx g" "0 < by_load g (RV j)"
  shows "0 < vx_degree (deref g (RV j))"
proof -
  have wf: "graph_wf g" and m: "match_wf g"
    using ok by (simp_all add: lh_ok_def)
  have "load_of (matched_set g) (match_of g) j > 0"
    using ok j by (simp add: lh_ok_def loads_exact_def)
  then obtain i where i: "i \<in> matched_set g" "match_of g i = j"
    by (auto simp: load_of_def card_gt_0_iff)
  with matched_mem [OF m wf i(1)] have "RV j \<in> set (nbrs g (LV i))" "i < g_numLHSVtx g"
    by (auto simp: adj_of_def matched_set_def)
  with wf j have "LV i \<in> set (nbrs g (RV j))"
    by (simp add: graph_wf_def)
  then show ?thesis
    by (rule vnbrs_degree)
qed

lemma filled_cong:
  assumes "same_links g g'" and "\<And>p. by_load g' p = by_load g p"
  shows "filled g' S (by_load g') B = filled g S (by_load g) B"
  using assms same_links_hold [OF assms(1)] by (simp add: filled_def same_links_def)

text \<open>The end of an improvement: the counts of both ends are brought up to date.\<close>

lemma update_ends:
  assumes inv: "scan_inv g B" and ends: "u < g_numRHSVtx g" "m < g_numRHSVtx g" "by_load g (RV u) + 2 \<le> by_load g (RV m)"
    and B: "B (by_load g (RV u)) = as @ RV u # bs" and same: "same_but_match g g1" and part: "partners_ok g1"
    and ms: "matched_set g1 = matched_set g"
    and loads: "\<And>x. load_of (matched_set g) (match_of g1) x + (if x = m then 1 else 0) =
      load_of (matched_set g) (match_of g) x + (if x = u then 1 else 0)"
  defines "g' \<equiv> move_down (RV m) (move_up (RV u) g1)"
  shows "\<exists>B'. scan_inv g' B' \<and> B' (by_load g (RV u)) = as @ bs"
    and "same_edges g g'" and "g_maxRHSLoad g' = g_maxRHSLoad g" and "visited g' = visited g"
    and "match_of g' = match_of g1" and "length (g_Buckets g') = length (g_Buckets g)"
proof -
  let ?g2 = "rebucket (RV u) (by_load g (RV u) + 1) g1"
  have L: "by_load g1 p = by_load g p" for p
    using same_but_match_vertex(6) [OF same] .
  have um: "RV u \<noteq> RV m" "u \<noteq> m"
    using ends(3) by auto
  have g': "g' = rebucket (RV m) (by_load g (RV m) - 1) ?g2"
    using um by (simp add: g'_def move_rebucket rebucket_vertex L)
  note f1 = same_but_match_fields [OF same]
  have e1: "same_edges g g1"
    by (rule same_but_match_edges [OF same])
  show e: "same_edges g g'"
    unfolding g' by (rule same_edges_trans [OF same_edges_trans [OF e1 rebucket_edges] rebucket_edges])
  show mx: "g_maxRHSLoad g' = g_maxRHSLoad g"
    by (simp add: g' rebucket_fields f1)
  show vis: "visited g' = visited g"
    using rebucket_queue same_but_match_queue [OF same] by (simp add: g')
  show mo: "match_of g' = match_of g1"
    by (simp add: g' match_of_def rebucket_vertex fun_eq_iff)
  show len: "length (g_Buckets g') = length (g_Buckets g)"
    by (simp add: g' rebucket_fields f1)
  have inv': "lh_ok g" "matched_set g = clients g" "queue_ok g" "g_maxRHSLoad g < length (g_Buckets g)"
      "\<And>j. j < g_numRHSVtx g \<Longrightarrow> by_load g (RV j) \<le> g_maxRHSLoad g"
    and fill: "filled g (RV ` {j. j < g_numRHSVtx g \<and> 0 < vx_degree (deref g (RV j))}) (by_load g) B"
      (is "filled g ?S _ _")
    using inv by (simp_all add: scan_inv_def)
  have load': "by_load g' (RV j) = (if j = u then by_load g (RV j) + 1 else if j = m then by_load g (RV j) - 1 else by_load g (RV j))"
    for j using um by (simp add: g' rebucket_vertex L)
  have ms': "matched_set g' = matched_set g"
    using ms same_edges_nums [OF e] f1(3) by (simp add: matched_set_def g' rebucket_vertex)
  have "by_load g' (RV j) = load_of (matched_set g) (match_of g1) j" if "j < g_numRHSVtx g" for j
    using inv'(1) that loads [of j] um ends(3) by (auto simp: lh_ok_def loads_exact_def load' split: if_splits)
  then have "loads_exact g'"
    using same_edges_nums [OF e] by (simp add: loads_exact_def ms' mo)
  moreover have "match_wf g'" "partners_visited g'"
    using part same_edges_nbrs [OF e] same_edges_nbrs [OF e1] same_edges_nums [OF e] f1(3) vis same_but_match_queue [OF same]
    by (auto simp: partners_ok_def match_wf_def partners_visited_def g' rebucket_vertex)
  moreover have "graph_wf g'" "queue_ok g'"
    using inv'(1,3) same_edges_wf [OF e] rebucket_queue same_but_match_queue [OF same] by (auto simp: lh_ok_def g')
  moreover have "matched_set g' = clients g'"
    using ms' inv'(2) same_edges_problem(1) [OF e] by simp
  moreover have "\<forall>j<g_numRHSVtx g'. by_load g' (RV j) \<le> g_maxRHSLoad g'"
  proof (intro allI impI)
    fix j assume "j < g_numRHSVtx g'"
    then show "by_load g' (RV j) \<le> g_maxRHSLoad g'"
      using inv'(5) [of j] inv'(5) [OF ends(2)] ends(3) same_edges_nums [OF e] unfolding load' mx
      by (cases "j = u"; cases "j = m") simp_all
  qed
  moreover have "\<exists>B'. filled g' ?S (by_load g') B' \<and> B' (by_load g (RV u)) = as @ bs"
  proof -
    let ?l = "by_load g (RV u)" and ?k = "by_load g (RV m)"
    let ?B2 = "B(?l := as @ bs, ?l + 1 := RV u # B (?l + 1))"
    have room: "?k < length (g_Buckets g)"
      using inv'(4,5) ends(2) by (meson le_less_trans)
    have "filled g1 ?S (by_load g1) B"
      using fill filled_cong [OF same_but_match_links [OF same] L] by simp
    then have "filled ?g2 ?S (by_load ?g2) ?B2"
      using rebucket_filled [of g1 ?S B "RV u" "?l + 1"] room ends(3) B by (simp add: L f1)
    moreover obtain cs ds where "B ?k = cs @ RV m # ds"
      using scan_inv_bucket(1) [OF inv ends(2)] loaded_degree [OF inv'(1) ends(2)] ends(3) by (metis add_2_eq_Suc' less_le_trans split_list zero_less_Suc)
    then have "?B2 ?k = cs @ RV m # ds"
      using ends(3) by simp
    ultimately have "filled g' ?S (by_load g') (?B2(?k := cs @ ds, ?k - 1 := RV m # ?B2 (?k - 1)))"
      using rebucket_filled [of ?g2 ?S ?B2 "RV m" "?k - 1"] room um ends(3) unfolding g'
      by (simp add: rebucket_vertex rebucket_fields L f1)
    moreover have "(?B2(?k := cs @ ds, ?k - 1 := RV m # ?B2 (?k - 1))) ?l = as @ bs"
      using ends(3) by simp
    ultimately show ?thesis
      by blast
  qed
  ultimately show "\<exists>B'. scan_inv g' B' \<and> B' (by_load g (RV u)) = as @ bs"
    using inv'(4) mx len same_edges_nums [OF e] same_edges_problem(1) [OF e] e
    by (auto simp: scan_inv_def lh_ok_def same_edges_def)
qed

lemma UpdateNegPath_spec:
  assumes inv: "scan_inv g B" and ends: "u < g_numRHSVtx g" "m < g_numRHSVtx g" "by_load g (RV u) + 2 \<le> by_load g (RV m)"
    and B: "B (by_load g (RV u)) = as @ RV u # bs" and path: "alt_path g u m ns" "distinct ns" "visited g (RV u)"
  shows "\<exists>g' B'. UpdateNegPath g (RV u) (RV m) = Some g' \<and> scan_inv g' B' \<and> B' (by_load g (RV u)) = as @ bs \<and>
    same_edges g g' \<and> g_maxRHSLoad g' = g_maxRHSLoad g \<and> visited g' = visited g \<and>
    length (g_Buckets g') = length (g_Buckets g) \<and> graph_cost g' < graph_cost g"
proof -
  have um: "m \<noteq> u"
    using ends(3) by auto
  have ok: "lh_ok g" "matched_set g = clients g" "partners_visited g"
    using inv by (simp_all add: scan_inv_def)
  then have "graph_wf g" "partners_ok g"
    by (simp_all add: lh_ok_def partners_ok_def)
  from switch_path_spec [OF path(1,2) um this path(3)]
  obtain g1 where g1: "switch_path g (RV u) (RV m) = Some g1" "same_but_match g g1" "partners_ok g1"
      "matched_set g1 = matched_set g"
      "\<And>x. load_of (matched_set g) (match_of g1) x + (if x = m then 1 else 0) =
        load_of (matched_set g) (match_of g) x + (if x = u then 1 else 0)"
    by blast
  let ?g = "move_down (RV m) (move_up (RV u) g1)"
  note upd = update_ends [OF inv ends B g1(2-5)]
  have load: "by_load g (RV j) = load_of (clients g) (match_of g) j" if "j < g_numRHSVtx g" for j
    using ok that by (simp add: lh_ok_def loads_exact_def)
  have "cost_of (clients g) (servers g) (match_of g1) + load_of (clients g) (match_of g) m =
      graph_cost g + load_of (clients g) (match_of g) u + 1"
  proof (rule cost_shift)
    show "finite (servers g)" "u \<in> servers g" "m \<in> servers g" "u \<noteq> m"
      using ends um by (auto simp: servers_def)
    show "load_of (clients g) (match_of g1) u = load_of (clients g) (match_of g) u + 1"
      "load_of (clients g) (match_of g) m = load_of (clients g) (match_of g1) m + 1"
      using g1(5) [of u] g1(5) [of m] um ok(2) by auto
    show "load_of (clients g) (match_of g1) v = load_of (clients g) (match_of g) v" if "v \<noteq> u" "v \<noteq> m" for v
      using g1(5) [of v] that ok(2) by simp
  qed
  then have "graph_cost ?g < graph_cost g"
    using ends load [OF ends(1)] load [OF ends(2)] same_edges_problem [OF upd(2)] upd(5) by simp
  then show ?thesis
    using upd g1(1) by (auto simp: UpdateNegPath_def)
qed

section \<open>A scan over the buckets\<close>

text \<open>Searches that found nothing: all they visited has a load of at most \<open>b + 1\<close> and is expanded.\<close>

definition quiet :: "Graph \<Rightarrow> nat \<Rightarrow> Graph \<Rightarrow> bool" where
  "quiet g b g' \<longleftrightarrow> same_but_tree g g' \<and> (\<forall>p. visited g p \<longrightarrow> visited g' p) \<and>
     (\<forall>j. visited g' (RV j) \<longrightarrow> \<not> visited g (RV j) \<longrightarrow> by_load g (RV j) \<le> b + 1 \<and> expanded g' j)"

lemma quiet_refl: "quiet g b g"
  by (simp add: quiet_def)

lemma quiet_trans:
  assumes "quiet g b g1" and "quiet g1 b g2"
  shows "quiet g b g2"
proof -
  have same: "same_but_tree g g1" "same_but_tree g1 g2" and mono: "\<And>p. visited g1 p \<Longrightarrow> visited g2 p"
    using assms by (auto simp: quiet_def)
  have "by_load g (RV j) \<le> b + 1 \<and> expanded g2 j" if "visited g2 (RV j)" "\<not> visited g (RV j)" for j
  proof (cases "visited g1 (RV j)")
    case True
    then have "by_load g (RV j) \<le> b + 1" "expanded g1 j"
      using assms(1) that by (auto simp: quiet_def)
    with expanded_mono [OF _ same(2) mono] show ?thesis
      by blast
  next
    case False
    then show ?thesis
      using assms(2) that same_but_tree_vertex(6) [OF same(1)] by (simp add: quiet_def)
  qed
  then show ?thesis
    using assms same_but_tree_trans [OF same] by (simp add: quiet_def)
qed

lemma same_but_tree_cost: "same_but_tree g g' \<Longrightarrow> graph_cost g' = graph_cost g"
  using same_edges_problem [OF same_but_tree_edges] same_but_tree_ok(3) by metis

definition scan_step :: "Graph \<Rightarrow> nat \<Rightarrow> vref list \<Rightarrow> bool \<Rightarrow> Graph \<Rightarrow> bool \<Rightarrow> bool" where
  "scan_step g b rs aug g' aug' \<longleftrightarrow> same_edges g g' \<and> g_maxRHSLoad g' = g_maxRHSLoad g \<and>
     length (g_Buckets g') = length (g_Buckets g) \<and>
     (aug' = aug \<and> quiet g b g' \<and> (\<forall>v\<in>set rs. visited g' v) \<or> aug' \<and> graph_cost g' < graph_cost g)"

lemma scan_step_trans:
  assumes "scan_step g b rs aug g1 aug1" and "scan_step g1 b rs' aug1 g2 aug2"
  shows "scan_step g b (rs @ rs') aug g2 aug2"
proof -
  have same: "same_edges g g2" "g_maxRHSLoad g2 = g_maxRHSLoad g" "length (g_Buckets g2) = length (g_Buckets g)"
    using assms same_edges_trans by (auto simp: scan_step_def)
  have cost: "graph_cost g1 = graph_cost g" if "quiet g b g1"
    using that same_but_tree_cost by (simp add: quiet_def)
  have cost': "graph_cost g2 = graph_cost g1" if "quiet g1 b g2"
    using that same_but_tree_cost by (simp add: quiet_def)
  have mono: "visited g2 v" if "quiet g1 b g2" "visited g1 v" for v
    using that by (simp add: quiet_def)
  show ?thesis
    using assms same cost cost' mono quiet_trans [of g b g1 g2] unfolding scan_step_def by fastforce
qed

lemma scan_vertex:
  assumes inv: "scan_inv g B" and b: "b < length (g_Buckets g)" "B b = as @ u # rs" and new: "\<not> visited g u"
  shows "\<exists>g' B' as' aug'. scan_inv g' B' \<and> B' b = as' @ rs \<and> scan_step g b [u] aug g' aug' \<and>
    Option.bind (DoBFS g u) (\<lambda>(g, m). case m of None \<Rightarrow> scan_bucket g p aug
      | Some m \<Rightarrow> Option.bind (UpdateNegPath g u m) (\<lambda>g. scan_bucket g p True)) = scan_bucket g' p aug'"
proof -
  have keys: "set (B b) = {v \<in> RV ` {j. j < g_numRHSVtx g \<and> 0 < vx_degree (deref g (RV j))}. by_load g v = b}"
    using inv b(1) by (simp add: scan_inv_def filled_def)
  have "u \<in> set (B b)"
    using b(2) by simp
  then obtain j where u: "u = RV j" "j < g_numRHSVtx g" "by_load g (RV j) = b"
    unfolding keys by blast
  have ok: "queue_ok g" "partners_visited g" "lh_ok g" "matched_set g = clients g"
    using inv by (simp_all add: scan_inv_def)
  from DoBFS_spec [OF ok u(2)] new
  obtain g1 r where bfs: "DoBFS g u = Some (g1, r)" "bfs_tree g j g1" "bfs_result g j g1 r"
      "r = None \<longrightarrow> (\<forall>k. visited g1 (RV k) \<longrightarrow> \<not> visited g (RV k) \<longrightarrow> expanded g1 k)"
    by (auto simp: u)
  have same: "same_but_tree g g1" and vu: "visited g1 u" and q1: "queue_ok g1"
    using bfs(2) by (auto simp: bfs_tree_def tree_shape_def u)
  have inv1: "scan_inv g1 B"
    by (rule scan_inv_tree [OF inv bfs(2)])
  note L = same_but_tree_vertex(6) [OF same]
  show ?thesis
  proof (cases r)
    case None
    have "quiet g b g1"
      using bfs(3,4) None u(3) by (auto simp: quiet_def bfs_result_def)
    then have "scan_step g b [u] aug g1 aug"
      using same_but_tree_edges [OF same] same_but_tree_fields(5,7) [OF same] vu by (simp add: scan_step_def)
    then show ?thesis
      using inv1 b(2) bfs(1) None by (intro exI [of _ g1] exI [of _ B] exI [of _ "as @ [u]"] exI [of _ aug]) simp
  next
    case (Some m)
    then obtain w where w: "m = RV w" "visited g1 (RV w)" "\<not> visited g (RV w)" "b + 2 \<le> by_load g (RV w)"
      using bfs(3) u(3) by (auto simp: bfs_result_def)
    then obtain ns where ns: "alt_path g1 j w ns" "distinct ns"
      using bfs(2) by (auto simp: bfs_tree_def tree_shape_def)
    have "w < g_numRHSVtx g1"
      using visited_vref [OF w(2)] by simp
    moreover have "j < g_numRHSVtx g1"
      using u(2) same_but_tree_fields(4) [OF same] by simp
    moreover have "B (by_load g1 (RV j)) = as @ RV j # rs"
      using b(2) u L by simp
    ultimately obtain g2 B2 where upd: "UpdateNegPath g1 u m = Some g2" "scan_inv g2 B2" "B2 b = as @ rs"
        "same_edges g1 g2" "g_maxRHSLoad g2 = g_maxRHSLoad g1" "length (g_Buckets g2) = length (g_Buckets g1)"
        "graph_cost g2 < graph_cost g1"
      using UpdateNegPath_spec [OF inv1, of j w as rs ns] w ns vu u L by auto
    have "scan_step g b [u] aug g2 True"
      using upd same_edges_trans [OF same_but_tree_edges [OF same] upd(4)] same_but_tree_fields(5,7) [OF same]
        same_but_tree_cost [OF same] by (simp add: scan_step_def)
    then show ?thesis
      using upd bfs(1) Some by (intro exI [of _ g2] exI [of _ B2] exI [of _ as] exI [of _ True]) simp
  qed
qed

lemma scan_bucket_spec:
  assumes "scan_inv g B" and "b < length (g_Buckets g)" and "B b = as @ rs"
  shows "\<exists>g' B' aug'. scan_bucket g (if rs = [] then None else Some (hd rs)) aug = Some (g', aug') \<and>
    scan_inv g' B' \<and> scan_step g b rs aug g' aug'"
  using assms
proof (induction rs arbitrary: g B as aug)
  case Nil
  then show ?case
    by (auto simp: scan_bucket.simps scan_step_def quiet_refl)
next
  case (Cons u rs)
  let ?p = "if rs = [] then None else Some (hd rs)"
  have "dll g None (g_Buckets g ! b) (as @ u # rs)"
    using Cons.prems by (auto simp: scan_inv_def filled_def buckets_hold_def)
  then have link: "vx_fLink (deref g u) = ?p"
    by (rule dll_at(2))
  have "u \<in> set (B b)"
    using Cons.prems(3) by simp
  then have "vref_ok g u"
    using Cons.prems(1,2) by (auto simp: scan_inv_def filled_def)
  then have vis: "visited g u \<longleftrightarrow> vx_parent (deref g u) \<noteq> None"
    by (simp add: visited_def)
  obtain g1 B1 as1 aug1 where step: "scan_inv g1 B1" "B1 b = as1 @ rs" "scan_step g b [u] aug g1 aug1"
      "scan_bucket g (Some u) aug = scan_bucket g1 ?p aug1"
  proof (cases "visited g u")
    case True
    then have "scan_bucket g (Some u) aug = scan_bucket g ?p aug"
      by (simp add: scan_bucket.simps [of g "Some u"] vis link)
    moreover have "scan_step g b [u] aug g aug"
      using True by (simp add: scan_step_def quiet_refl)
    ultimately show thesis
      using that [of g B "as @ [u]" aug] Cons.prems by simp
  next
    case False
    then have "scan_bucket g (Some u) aug = Option.bind (DoBFS g u) (\<lambda>(g, m). case m of None \<Rightarrow> scan_bucket g ?p aug
        | Some m \<Rightarrow> Option.bind (UpdateNegPath g u m) (\<lambda>g. scan_bucket g ?p True))"
      by (simp add: scan_bucket.simps [of g "Some u"] vis link Let_def)
    with scan_vertex [OF Cons.prems False, of aug ?p] show thesis
      using that by auto
  qed
  have "b < length (g_Buckets g1)"
    using step(3) Cons.prems(2) by (simp add: scan_step_def)
  from Cons.IH [OF step(1) this step(2), of aug1]
  obtain g' B' aug' where "scan_bucket g1 ?p aug1 = Some (g', aug')" "scan_inv g' B'" "scan_step g1 b rs aug1 g' aug'"
    by blast
  then show ?case
    using step(4) scan_step_trans [OF step(3)] by fastforce
qed

end
