(* ===== verification/LH_BFS_Correct.thy ===== *)
theory LH_BFS_Correct
  imports LH_BFS
begin

text \<open>
  The scans of \<^verbatim>\<open>lhbfs.c\<close> as a whole: a scan that improves nothing leaves, for every load, a set of visited vertices whose
  complement is a level set, so that the assignment is balanced; a scan that improves something lowers the
  cost. So the main loop ends, with an optimal assignment.
\<close>

section \<open>A full scan\<close>

lemma fold_opt_append: "fold_opt f (xs @ ys) s = Option.bind (fold_opt f xs s) (fold_opt f ys)"
proof (induction xs arbitrary: s)
  case (Cons x xs)
  then show ?case
    by (cases "f x s") simp_all
qed simp

text \<open>The visited part of the graph after the buckets below \<open>n\<close>.\<close>

definition scanned :: "Graph \<Rightarrow> nat \<Rightarrow> bool" where
  "scanned g n \<longleftrightarrow> (\<forall>j. visited g (RV j) \<longrightarrow> by_load g (RV j) \<le> n \<and> expanded g j) \<and>
     (\<forall>j<g_numRHSVtx g. 0 < vx_degree (deref g (RV j)) \<longrightarrow> by_load g (RV j) < n \<longrightarrow> visited g (RV j))"

abbreviation graph_level :: "Graph \<Rightarrow> nat \<Rightarrow> nat set \<Rightarrow> bool" where
  "graph_level g \<equiv> level_set (clients g) (servers g) (adj_of g) (match_of g)"

lemma scanned_level:
  assumes ok: "lh_ok g" and all: "matched_set g = clients g" and scan: "scanned g n"
  shows "\<exists>S. graph_level g n S"
proof -
  let ?S = "{j. j < g_numRHSVtx g \<and> \<not> visited g (RV j) \<and> 0 < vx_degree (deref g (RV j))}"
  have wf: "graph_wf g"
    using ok by (simp add: lh_ok_def)
  have load: "load_of (clients g) (match_of g) j = by_load g (RV j)" if "j < g_numRHSVtx g" for j
    using ok all that by (simp add: lh_ok_def loads_exact_def)
  have closed: "v \<in> ?S" if u: "u \<in> clients g" "match_of g u \<in> ?S" and v: "v \<in> adj_of g u" for u v
  proof -
    have vr: "v < g_numRHSVtx g" and "RV v \<in> set (nbrs g (LV u))" and "u < g_numLHSVtx g"
      using u v by (auto simp: adj_of_def clients_def)
    then have nb: "LV u \<in> set (nbrs g (RV v))"
      using wf by (simp add: graph_wf_def)
    moreover have "\<not> visited g (RV v)"
      using scan nb u(2) by (auto simp: scanned_def expanded_def)
    ultimately show ?thesis
      using vr vnbrs_degree by blast
  qed
  have above: "n \<le> load_of (clients g) (match_of g) v" if "v \<in> ?S" for v
    using that scan load by (auto simp: scanned_def not_less)
  have below: "load_of (clients g) (match_of g) v \<le> n" if v: "v \<in> servers g - ?S" for v
  proof (cases "visited g (RV v)")
    case False
    then have "by_load g (RV v) = 0"
      using v loaded_degree [OF ok, of v] by (auto simp: servers_def)
    then show ?thesis
      using v load by (simp add: servers_def)
  qed (use v scan load in \<open>auto simp: scanned_def servers_def\<close>)
  have "?S \<subseteq> servers g"
    by (auto simp: servers_def)
  with closed above below have "graph_level g n ?S"
    unfolding level_set_def by blast
  then show ?thesis ..
qed

lemma scanned_step:
  assumes scan: "scanned g n" and quiet: "quiet g n g'" and B: "\<And>j. j < g_numRHSVtx g \<Longrightarrow> 0 < vx_degree (deref g (RV j)) \<Longrightarrow>
      by_load g (RV j) = n \<Longrightarrow> visited g' (RV j)"
  shows "scanned g' (n + 1)"
proof -
  have same: "same_but_tree g g'" and mono: "\<And>p. visited g p \<Longrightarrow> visited g' p"
    using quiet by (auto simp: quiet_def)
  note v = same_but_tree_vertex [OF same] and f = same_but_tree_fields [OF same]
  have "by_load g (RV j) \<le> n + 1 \<and> expanded g' j" if "visited g' (RV j)" for j
  proof (cases "visited g (RV j)")
    case True
    then show ?thesis
      using scan expanded_mono [OF _ same mono] by (auto simp: scanned_def)
  next
    case False
    then show ?thesis
      using quiet that by (simp add: quiet_def)
  qed
  moreover have "visited g' (RV j)" if "j < g_numRHSVtx g" "0 < vx_degree (deref g (RV j))" "by_load g (RV j) < n + 1" for j
    using that scan mono [of "RV j"] B [of j] by (cases "by_load g (RV j) < n") (auto simp: scanned_def)
  ultimately show ?thesis
    by (simp add: scanned_def v f)
qed

text \<open>The state after the buckets below \<open>n\<close>, from a state \<open>g\<close> in which nothing is visited.\<close>

definition scan_all :: "Graph \<Rightarrow> nat \<Rightarrow> Graph \<Rightarrow> bool \<Rightarrow> bool" where
  "scan_all g n g' aug \<longleftrightarrow> same_edges g g' \<and> g_maxRHSLoad g' = g_maxRHSLoad g \<and>
     length (g_Buckets g') = length (g_Buckets g) \<and>
     (if aug then graph_cost g' < graph_cost g
      else same_but_tree g g' \<and> scanned g' n \<and> (\<forall>b<n. \<exists>S. graph_level g (b + 1) S))"

lemma scan_all_step:
  assumes all: "scan_all g n g1 aug1" and inv: "scan_inv g1 B" and n: "n < length (g_Buckets g)"
    and step: "scan_step g1 n (B n) aug1 g2 aug2" and inv2: "scan_inv g2 B2"
  shows "scan_all g (n + 1) g2 aug2"
proof -
  have same: "same_edges g g2" "g_maxRHSLoad g2 = g_maxRHSLoad g" "length (g_Buckets g2) = length (g_Buckets g)"
    using all step same_edges_trans by (auto simp: scan_all_def scan_step_def)
  have cost: "graph_cost g2 = graph_cost g1" if "quiet g1 n g2"
    using that same_but_tree_cost by (simp add: quiet_def)
  show ?thesis
  proof (cases "\<not> aug1 \<and> \<not> aug2")
    case False
    then show ?thesis
      using all step same cost same_but_tree_cost [of g g1] by (auto simp: scan_all_def scan_step_def split: if_splits)
  next
    case True
    then have q: "quiet g1 n g2" "\<forall>v\<in>set (B n). visited g2 v" and t: "same_but_tree g g1" "scanned g1 n"
        and lev: "\<forall>b<n. \<exists>S. graph_level g (b + 1) S" and len: "length (g_Buckets g1) = length (g_Buckets g)"
      using all step by (auto simp: scan_all_def scan_step_def)
    have t2: "same_but_tree g g2"
      using q(1) same_but_tree_trans [OF t(1)] by (simp add: quiet_def)
    have "visited g2 (RV j)" if "j < g_numRHSVtx g1" "0 < vx_degree (deref g1 (RV j))" "by_load g1 (RV j) = n" for j
      using scan_inv_bucket(1) [OF inv that(1,2)] that(3) q(2) by auto
    from scanned_step [OF t(2) q(1) this] have scan2: "scanned g2 (n + 1)" .
    moreover have "lh_ok g2" "matched_set g2 = clients g2"
      using inv2 by (simp_all add: scan_inv_def)
    ultimately have "\<exists>S. graph_level g2 (n + 1) S"
      using scanned_level by blast
    then have "\<exists>S. graph_level g (n + 1) S"
      using same_edges_problem [OF same(1)] same_but_tree_ok(3) [OF t2] by simp
    then show ?thesis
      using True same t2 scan2 lev by (auto simp: scan_all_def less_Suc_eq)
  qed
qed

lemma scan_buckets_spec:
  assumes inv: "scan_inv g B" and new: "\<And>p. \<not> visited g p" and n: "n \<le> length (g_Buckets g)"
  shows "\<exists>g' B' aug. fold_opt (\<lambda>b (g, aug). scan_bucket g (g_Buckets g ! b) aug) [0..<n] (g, False) = Some (g', aug) \<and>
    scan_inv g' B' \<and> scan_all g n g' aug"
  using n
proof (induction n)
  case 0
  then show ?case
    using inv new by (auto simp: scan_all_def scanned_def)
next
  case (Suc n)
  then obtain g1 B1 aug1 where IH: "fold_opt (\<lambda>b (g, aug). scan_bucket g (g_Buckets g ! b) aug) [0..<n] (g, False) = Some (g1, aug1)"
      "scan_inv g1 B1" "scan_all g n g1 aug1"
    by auto
  have n1: "n < length (g_Buckets g1)"
    using IH(3) Suc.prems by (simp add: scan_all_def)
  have "dll g1 None (g_Buckets g1 ! n) (B1 n)"
    using IH(2) n1 by (auto simp: scan_inv_def filled_def buckets_hold_def)
  then have head: "g_Buckets g1 ! n = (if B1 n = [] then None else Some (hd (B1 n)))"
    by (cases "B1 n") auto
  obtain g2 B2 aug2 where step: "scan_bucket g1 (g_Buckets g1 ! n) aug1 = Some (g2, aug2)" "scan_inv g2 B2"
      "scan_step g1 n (B1 n) aug1 g2 aug2"
    using scan_bucket_spec [OF IH(2) n1, of "[]" "B1 n" aug1] head by auto
  then show ?case
    using IH(1) scan_all_step [OF IH(3,2) _ step(3,2)] Suc.prems by (auto simp: fold_opt_append)
qed

section \<open>The main loop\<close>

lemma lower_max_spec:
  assumes "\<exists>b\<le>n. bs ! b \<noteq> None"
  shows "\<exists>m. lower_max bs n = Inr m \<and> m \<le> n \<and> (\<forall>b. m < b \<longrightarrow> b \<le> n \<longrightarrow> bs ! b = None)"
  using assms
proof (induction n)
  case (Suc n)
  then show ?case
    by (cases "bs ! Suc n") (auto simp: le_Suc_eq)
qed auto

lemma bucket_nonempty:
  assumes inv: "scan_inv g B" and j: "j < g_numRHSVtx g" "0 < vx_degree (deref g (RV j))"
  shows "g_Buckets g ! by_load g (RV j) \<noteq> None"
proof -
  note b = scan_inv_bucket [OF inv j]
  have "dll g None (g_Buckets g ! by_load g (RV j)) (B (by_load g (RV j)))"
    using inv b(2) by (auto simp: scan_inv_def filled_def buckets_hold_def)
  with b(1) show ?thesis
    by (cases "B (by_load g (RV j))") auto
qed

lemma max_update:
  fixes m :: nat
  shows "same_edges g (g\<lparr>g_maxRHSLoad := m\<rparr>)" "lh_ok (g\<lparr>g_maxRHSLoad := m\<rparr>) = lh_ok g"
    "matched_set (g\<lparr>g_maxRHSLoad := m\<rparr>) = matched_set g" "match_of (g\<lparr>g_maxRHSLoad := m\<rparr>) = match_of g"
    "same_links g (g\<lparr>g_maxRHSLoad := m\<rparr>)"
proof -
  show same: "same_edges g (g\<lparr>g_maxRHSLoad := m\<rparr>)"
    by (simp add: same_edges_def)
  show "lh_ok (g\<lparr>g_maxRHSLoad := m\<rparr>) = lh_ok g" "matched_set (g\<lparr>g_maxRHSLoad := m\<rparr>) = matched_set g"
    "match_of (g\<lparr>g_maxRHSLoad := m\<rparr>) = match_of g"
    by (rule same_matching [OF same]; simp)+
  show "same_links g (g\<lparr>g_maxRHSLoad := m\<rparr>)"
    by (simp add: same_links_def)
qed

lemma scan_inv_max:
  assumes inv: "scan_inv g B" and m: "m \<le> g_maxRHSLoad g" "\<And>j. j < g_numRHSVtx g \<Longrightarrow> by_load g (RV j) \<le> m"
  shows "scan_inv (g\<lparr>g_maxRHSLoad := m\<rparr>) B"
proof -
  let ?g = "g\<lparr>g_maxRHSLoad := m\<rparr>"
  have "vref_ok ?g p = vref_ok g p" for p
    using same_edges_vref_ok [OF max_update(1)] .
  then have "queue_ok ?g = queue_ok g" "visited ?g = visited g"
    by (simp_all add: queue_ok_def queue_of_def visited_def fun_eq_iff)
  moreover have "buckets_hold ?g B = buckets_hold g B"
    by (rule same_links_hold [OF max_update(5)])
  ultimately show ?thesis
    using inv m same_edges_problem(1) [OF max_update(1), of m g]
    by (auto simp: scan_inv_def filled_def partners_visited_def max_update)
qed

lemma DoFullScan_spec:
  assumes inv: "scan_inv g B" and new: "\<And>p. \<not> visited g p" and edge: "\<exists>j<g_numRHSVtx g. 0 < vx_degree (deref g (RV j))"
  shows "\<exists>g' B' aug. DoFullScan g = Some (Inr (g', aug)) \<and> scan_inv g' B' \<and> same_edges g g' \<and>
    (if aug then graph_cost g' < graph_cost g else balanced (clients g') (servers g') (adj_of g') (match_of g'))"
proof -
  have "g_maxRHSLoad g - 1 \<le> length (g_Buckets g)"
    using inv by (auto simp: scan_inv_def)
  from scan_buckets_spec [OF inv new this]
  obtain g1 B1 aug where run: "fold_opt (\<lambda>b (g, aug). scan_bucket g (g_Buckets g ! b) aug) [0..<g_maxRHSLoad g - 1] (g, False) = Some (g1, aug)"
      and inv1: "scan_inv g1 B1" and all: "scan_all g (g_maxRHSLoad g - 1) g1 aug"
    by blast
  have same: "same_edges g g1" and mx: "g_maxRHSLoad g1 = g_maxRHSLoad g"
    using all by (auto simp: scan_all_def)
  have le: "by_load g1 (RV j) \<le> g_maxRHSLoad g1" if "j < g_numRHSVtx g1" for j
    using inv1 that by (simp add: scan_inv_def)
  obtain j where "j < g_numRHSVtx g1" "0 < vx_degree (deref g1 (RV j))"
    using edge same by (auto simp: same_edges_def)
  then have "\<exists>b\<le>g_maxRHSLoad g1. g_Buckets g1 ! b \<noteq> None"
    using bucket_nonempty [OF inv1] le by blast
  from lower_max_spec [OF this] obtain m where m: "lower_max (g_Buckets g1) (g_maxRHSLoad g1) = Inr m" "m \<le> g_maxRHSLoad g1"
      "\<And>b. m < b \<Longrightarrow> b \<le> g_maxRHSLoad g1 \<Longrightarrow> g_Buckets g1 ! b = None"
    by blast
  let ?g = "g1\<lparr>g_maxRHSLoad := m\<rparr>"
  have ok1: "lh_ok g1"
    using inv1 by (simp add: scan_inv_def)
  have "by_load g1 (RV k) \<le> m" if k: "k < g_numRHSVtx g1" for k
    using bucket_nonempty [OF inv1 k] loaded_degree [OF ok1 k] m(3) [of "by_load g1 (RV k)"] le [OF k] by (metis not_le zero_le gr_zeroI)
  then have "scan_inv ?g B1"
    by (intro scan_inv_max [OF inv1 m(2)])
  moreover have "same_edges g ?g"
    using same_edges_trans [OF same max_update(1)] .
  moreover have cost: "graph_cost ?g = graph_cost g1"
    using same_edges_problem [OF max_update(1), of m g1] max_update(4) by simp
  moreover have "balanced (clients ?g) (servers ?g) (adj_of ?g) (match_of ?g)" if "\<not> aug"
  proof -
    have t: "same_but_tree g g1" and lev: "\<And>b. b < g_maxRHSLoad g - 1 \<Longrightarrow> \<exists>S. graph_level g (b + 1) S"
      using all that by (auto simp: scan_all_def)
    have ok: "lh_ok g" "matched_set g = clients g" and ml: "\<And>j. j < g_numRHSVtx g \<Longrightarrow> by_load g (RV j) \<le> g_maxRHSLoad g"
      using inv by (auto simp: scan_inv_def)
    then have load: "load_of (clients g) (match_of g) j \<le> g_maxRHSLoad g" if "j \<in> servers g" for j
      using that by (simp add: lh_ok_def loads_exact_def servers_def)
    have "\<exists>S. graph_level g k S" for k
    proof -
      consider "k = 0" | "1 \<le> k" "k - 1 < g_maxRHSLoad g - 1" | "g_maxRHSLoad g \<le> k" by linarith
      then show ?thesis
      proof cases
        case 1
        then show ?thesis
          using lh.adj_V [of _ g] by (intro exI [of _ "servers g"]) (auto simp: level_set_def)
      next
        case 2
        then show ?thesis
          using lev [of "k - 1"] by simp
      next
        case 3
        then show ?thesis
          using load by (intro exI [of _ "{}"]) (auto simp: level_set_def intro: order.trans)
      qed
    qed
    then show ?thesis
      using same_edges_problem [OF same] same_edges_problem [OF max_update(1), of m g1] same_but_tree_ok(3) [OF t] max_update(4)
      by (simp add: balanced_def)
  qed
  ultimately show ?thesis
    using run m(1) all same_but_tree_cost
    by (intro exI [of _ ?g] exI [of _ B1] exI [of _ aug]) (auto simp: DoFullScan_def scan_all_def)
qed

lemma scan_inv_unmark:
  assumes inv: "scan_inv g B"
  shows "scan_inv ((unmark_queue g)\<lparr>g_Qsize := 0\<rparr>) B"
proof -
  let ?g = "(unmark_queue g)\<lparr>g_Qsize := 0\<rparr>"
  have "queue_ok g"
    using inv by (simp add: scan_inv_def)
  note u = unmark_spec [OF this]
  note v = same_but_tree_vertex [OF u(1)] and f = same_but_tree_fields [OF u(1)] and ok = same_but_tree_ok [OF u(1)]
  show ?thesis
    using inv u(2,3) same_links_hold [OF same_but_tree_links [OF u(1)]] same_edges_problem(1) [OF same_but_tree_edges [OF u(1)]]
    unfolding scan_inv_def partners_visited_def filled_def v f ok by simp
qed

lemma MainLoop_spec:
  assumes "scan_inv g B" and "\<exists>j<g_numRHSVtx g. 0 < vx_degree (deref g (RV j))"
  shows "\<exists>g' B'. MainLoop g = Some (Inr g') \<and> scan_inv g' B' \<and> same_edges g g' \<and>
    balanced (clients g') (servers g') (adj_of g') (match_of g')"
  using assms
proof (induction "graph_cost g" arbitrary: g B rule: less_induct)
  case less
  let ?g = "(unmark_queue g)\<lparr>g_Qsize := 0\<rparr>"
  have "queue_ok g"
    using less.prems(1) by (simp add: scan_inv_def)
  note u = unmark_spec [OF this]
  have edges: "same_edges g ?g"
    by (rule same_but_tree_edges [OF u(1)])
  have "\<exists>j<g_numRHSVtx ?g. 0 < vx_degree (deref ?g (RV j))"
    using less.prems(2) edges unfolding same_edges_def by metis
  from DoFullScan_spec [OF scan_inv_unmark [OF less.prems(1)] u(3) this]
  obtain g1 B1 aug where scan: "DoFullScan ?g = Some (Inr (g1, aug))" "scan_inv g1 B1" "same_edges ?g g1"
      "if aug then graph_cost g1 < graph_cost ?g else balanced (clients g1) (servers g1) (adj_of g1) (match_of g1)"
    by blast
  have run: "MainLoop g = (if aug then MainLoop g1 else Some (Inr g1))"
    using scan(1) by (subst MainLoop.simps) (simp add: Let_def)
  have same: "same_edges g g1"
    by (rule same_edges_trans [OF edges scan(3)])
  show ?case
  proof (cases aug)
    case True
    then have "graph_cost g1 < graph_cost g"
      using scan(4) same_but_tree_cost [OF u(1)] by simp
    moreover have "\<exists>j<g_numRHSVtx g1. 0 < vx_degree (deref g1 (RV j))"
      using less.prems(2) same unfolding same_edges_def by metis
    ultimately show ?thesis
      using less.hyps [OF _ scan(2)] run True same_edges_trans [OF same] by fastforce
  next
    case False
    then show ?thesis
      using run scan same by auto
  qed
qed

section \<open>The algorithm\<close>

lemma InitializeBFS_spec:
  shows "same_but_tree g (InitializeBFS g)" "queue_ok (InitializeBFS g)" "\<not> visited (InitializeBFS g) p"
proof -
  let ?g = "InitializeBFS g"
  have par: "vx_parent (deref ?g p) = (if vref_ok g p then None else vx_parent (deref g p))" for p
    by (cases p) (auto simp: InitializeBFS_def InitializeQueue_def Let_def foldl_store)
  show same: "same_but_tree g ?g"
    by (auto simp: same_but_tree_def InitializeBFS_def InitializeQueue_def Let_def foldl_store fun_eq_iff intro!: Graph.equality)
  show none: "\<not> visited ?g p" for p
    using par same_edges_vref_ok [OF same_but_tree_edges [OF same]] by (simp add: visited_def)
  show "queue_ok ?g"
    using none unfolding queue_ok_def by (simp add: queue_of_def InitializeBFS_def InitializeQueue_def)
qed

lemma InitializeRHSBuckets_spec:
  shows "\<exists>B. filled (InitializeRHSBuckets g) (RV ` {j. j < g_numRHSVtx g \<and> 0 < vx_degree (deref g (RV j))}) (by_load g) B"
    and "bucket_links_only (g\<lparr>g_maxRHSLoad := g_maxRHSLoad (InitializeRHSBuckets g),
        g_Buckets := replicate (g_maxRHSLoad (InitializeRHSBuckets g) + 1) None\<rparr>) (InitializeRHSBuckets g)"
    and "j < g_numRHSVtx g \<Longrightarrow> by_load g (RV j) \<le> g_maxRHSLoad (InitializeRHSBuckets g)"
proof -
  let ?n = "foldl (\<lambda>m i. max m (vx_numMatched (deref g (RV i)))) 0 [0..<g_numRHSVtx g]"
  let ?g = "g\<lparr>g_maxRHSLoad := ?n, g_Buckets := replicate (?n + 1) None\<rparr>"
  have eq: "InitializeRHSBuckets g = foldl (\<lambda>g i. if 0 < vx_degree (deref g (RV i))
      then AddVtxToBucket g (RV i) (by_load g (RV i)) else g) ?g [0..<g_numRHSVtx g]"
    by (simp add: InitializeRHSBuckets_def Let_def)
  have le: "by_load g (RV i) \<le> ?n" if "i < g_numRHSVtx g" for i
    using foldl_max [of "[0..<g_numRHSVtx g]" "\<lambda>i. by_load g (RV i)" 0] that by simp
  have empty: "filled ?g {} (by_load g) (\<lambda>_. [])"
    using filled_empty [where g = "g\<lparr>g_maxRHSLoad := ?n\<rparr>" and n = "?n + 1" and key = "by_load g"] by simp
  have val: "by_load h (RV i) = by_load g (RV i)" if "bucket_links_only ?g h" for h i
    using bucket_links_only_vertex(6) [OF that] by simp
  have deg: "0 < vx_degree (deref h (RV i)) \<longleftrightarrow> 0 < vx_degree (deref g (RV i))" if "bucket_links_only ?g h" for h i
    using bucket_links_only_vertex(1) [OF that] by simp
  have room: "by_load g (RV i) < length (g_Buckets ?g)" if "i < g_numRHSVtx g" for i
    using le [OF that] by simp
  have loop: "\<exists>B. filled (InitializeRHSBuckets g) (RV ` {j. j < g_numRHSVtx g \<and> 0 < vx_degree (deref g (RV j))}) (by_load g) B \<and>
      bucket_links_only ?g (InitializeRHSBuckets g)"
    unfolding eq
    by (rule fill_loop [where val = by_load and deg = "\<lambda>h v. 0 < vx_degree (deref h v)" and D = "\<lambda>v. 0 < vx_degree (deref g v)",
          OF inj_vref(2) room empty val deg])
  then have mx: "g_maxRHSLoad (InitializeRHSBuckets g) = ?n"
    using bucket_links_only_fields(5) [of ?g] by auto
  show "\<exists>B. filled (InitializeRHSBuckets g) (RV ` {j. j < g_numRHSVtx g \<and> 0 < vx_degree (deref g (RV j))}) (by_load g) B"
    "bucket_links_only (g\<lparr>g_maxRHSLoad := g_maxRHSLoad (InitializeRHSBuckets g),
        g_Buckets := replicate (g_maxRHSLoad (InitializeRHSBuckets g) + 1) None\<rparr>) (InitializeRHSBuckets g)"
    using loop by (auto simp: mx)
  show "by_load g (RV j) \<le> g_maxRHSLoad (InitializeRHSBuckets g)" if "j < g_numRHSVtx g"
    using le [OF that] mx by simp
qed

lemma InitializeRHSBuckets_inv:
  assumes ok: "lh_ok g" "matched_set g = clients g" and q: "queue_ok g" "\<And>p. \<not> visited g p"
  shows "\<exists>B. scan_inv (InitializeRHSBuckets g) B" "same_edges g (InitializeRHSBuckets g)"
proof -
  let ?g = "InitializeRHSBuckets g"
  let ?h = "g\<lparr>g_maxRHSLoad := g_maxRHSLoad ?g, g_Buckets := replicate (g_maxRHSLoad ?g + 1) None\<rparr>"
  note spec = InitializeRHSBuckets_spec [where g = g]
  have hs: "same_edges g ?h"
    by (simp add: same_edges_def)
  show same: "same_edges g ?g"
    by (rule same_edges_trans [OF hs bucket_links_only_edges [OF spec(2)]])
  have v: "vx_parent (deref ?g p) = vx_parent (deref g p)" "by_load ?g p = by_load g p"
      "vx_matchedWith (deref ?g p) = vx_matchedWith (deref g p)" "vx_degree (deref ?g p) = vx_degree (deref g p)" for p
    using bucket_links_only_vertex [OF spec(2)] by simp_all
  note f = bucket_links_only_fields [OF spec(2)]
  have ok': "lh_ok ?g" "matched_set ?g = clients ?g"
    using same_matching [OF same v(3,2)] ok same_edges_problem(1) [OF same] by auto
  have none: "\<not> visited ?g p" for p
    using q(2) [of p] same_edges_vref_ok [OF same] v(1) by (simp add: visited_def)
  have "visited ?g = visited g"
    using none q(2) by auto
  then have "queue_ok ?g"
    using q(1) f unfolding queue_ok_def by (simp add: queue_of_def)
  moreover have "g_numRHSVtx ?g = g_numRHSVtx g"
    using same_edges_nums [OF same] by simp
  moreover have "length (g_Buckets ?g) = g_maxRHSLoad ?g + 1"
    using f(9) by simp
  ultimately show "\<exists>B. scan_inv ?g B"
    using spec(1,3) ok' none by (auto simp: scan_inv_def partners_visited_def v)
qed

lemma LHAlgBFS_spec:
  assumes ok: "lh_ok g" and edge: "\<exists>j<g_numRHSVtx g. 0 < vx_degree (deref g (RV j))"
  shows "\<exists>g'. LHAlgBFS g = Some (Inr (LH_SUCCESS, g')) \<and> lh_ok g' \<and> same_edges g g' \<and> matched_set g' = clients g \<and>
    balanced (clients g) (servers g) (adj_of g) (match_of g')"
proof -
  obtain g1 where greedy: "OrderedGreedyAssignment g = Some g1" "lh_ok g1" "same_edges g g1" "matched_set g1 = clients g"
    using OrderedGreedyAssignment_ok [OF ok] by blast
  let ?g2 = "InitializeBFS g1"
  note i = InitializeBFS_spec [of g1]
  have s2: "same_edges g ?g2"
    by (rule same_edges_trans [OF greedy(3) same_but_tree_edges [OF i(1)]])
  have "lh_ok ?g2" "matched_set ?g2 = clients ?g2"
    using greedy same_but_tree_ok [OF i(1)] same_edges_problem(1) [OF s2] by auto
  from InitializeRHSBuckets_inv [OF this i(2,3)] obtain B where
    inv: "scan_inv (InitializeRHSBuckets ?g2) B" and s3: "same_edges g (InitializeRHSBuckets ?g2)"
    using same_edges_trans [OF s2] by blast
  have "\<exists>j<g_numRHSVtx (InitializeRHSBuckets ?g2). 0 < vx_degree (deref (InitializeRHSBuckets ?g2) (RV j))"
    using edge s3 unfolding same_edges_def by metis
  from MainLoop_spec [OF inv this] obtain g4 B4 where
    loop: "MainLoop (InitializeRHSBuckets ?g2) = Some (Inr g4)" "scan_inv g4 B4" "same_edges (InitializeRHSBuckets ?g2) g4"
      "balanced (clients g4) (servers g4) (adj_of g4) (match_of g4)"
    by blast
  let ?g = "DestroyBuckets (DestroyQueue g4)"
  have s4: "same_edges g g4"
    by (rule same_edges_trans [OF s3 loop(3)])
  have d: "same_edges g4 ?g"
    by (simp add: same_edges_def DestroyBuckets_def DestroyQueue_def)
  have m: "lh_ok ?g = lh_ok g4" "matched_set ?g = matched_set g4" "match_of ?g = match_of g4"
    by (rule same_matching [OF d]; simp add: DestroyBuckets_def DestroyQueue_def)+
  show ?thesis
    using greedy(1) loop same_edges_trans [OF s4 d] m same_edges_problem [OF s4]
    by (intro exI [of _ ?g]) (auto simp: LHAlgBFS_def scan_inv_def Let_def)
qed

end
