(* ===== verification/LH_Online.thy ===== *)
theory LH_Online
  imports LH_Search
begin

text \<open>
  The algorithm of \<^verbatim>\<open>lhonline.c\<close>: the left-hand vertices are matched one after the other, each along an alternating path to
  a right-hand vertex of least load among those it can reach. The matching is optimal for the vertices matched so far
  after every step.
\<close>

section \<open>The code\<close>

definition EnqueueNbr :: "Graph \<Rightarrow> vref \<Rightarrow> bool \<Rightarrow> Graph" where
  "EnqueueNbr g v matchedOnly =
     foldl (\<lambda>g i.
       let n = the (vx_adjList (deref g v) ! i)
       in if \<not> matchedOnly \<or> vx_matchedWith (deref g n) = Some v
          then if vx_parent (deref g n) = None then set_parent n (Some v) (enqueue n g) else g
          else g)
     g [0..<vx_degree (deref g v)]"

definition UpdateMinRHSLoad :: "Graph \<Rightarrow> Graph" where
  "UpdateMinRHSLoad g =
     foldl (\<lambda>g i. g\<lparr>g_minRHSLoad := min (g_minRHSLoad g) (vx_numMatched (deref g (RV i)))\<rparr>)
       (g\<lparr>g_minRHSLoad := g_numLHSVtx g\<rparr>) [0..<g_numRHSVtx g]"

partial_function (option) augment_loop :: "Graph \<Rightarrow> vref \<Rightarrow> vref \<Rightarrow> Graph option" where
  "augment_loop g u w =
     (let p = the (vx_parent (deref g w));
          g = store p (\<lambda>x. x\<lparr>vx_matchedWith := Some w\<rparr>) g;
          w = the (vx_parent (deref g p))
      in if p \<noteq> u then augment_loop g u w else Some g)"

declare augment_loop.simps [code]

definition AugmentPath :: "Graph \<Rightarrow> vref \<Rightarrow> vref \<Rightarrow> Graph option" where
  "AugmentPath g u v =
     map_option
       (\<lambda>g. if vx_numMatched (deref g v) = g_minRHSLoad g + 1 then UpdateMinRHSLoad g else g)
       (augment_loop (store v (\<lambda>x. x\<lparr>vx_numMatched := vx_numMatched x + 1\<rparr>) g) u v)"

partial_function (option) online_loop :: "Graph \<Rightarrow> vref option \<Rightarrow> nat \<Rightarrow> (Graph \<times> vref option) option" where
  "online_loop g bestV q =
     (if q < g_Qsize g
      then
        let v = the (g_Queue g ! q)
        in if IS_LHS_VTX g v then online_loop (EnqueueNbr g v False) bestV (q + 1)
           else
             let g = EnqueueNbr g v True
             in if bestV = None \<or> vx_numMatched (deref g v) < vx_numMatched (deref g (the bestV))
                then if vx_numMatched (deref g v) = g_minRHSLoad g then Some (g, Some v)
                     else online_loop g (Some v) (q + 1)
                else online_loop g bestV (q + 1)
      else Some (g, bestV))"

declare online_loop.simps [code]

definition online_BFS :: "Graph \<Rightarrow> vref \<Rightarrow> (Graph \<times> vref option) option" where
  "online_BFS g u =
     (let g = set_parent u (Some u) g;
          g = g\<lparr>g_Queue := (g_Queue g)[0 := Some u], g_Qsize := 1\<rparr>
      in online_loop g None 0)"

definition online_step :: "nat \<Rightarrow> Graph \<Rightarrow> Graph option" where
  "online_step i g =
     (case online_BFS g (LV i) of
        None \<Rightarrow> None
      | Some (g, bestV) \<Rightarrow>
          (case (case bestV of None \<Rightarrow> Some g | Some v \<Rightarrow> AugmentPath g (LV i) v) of
             None \<Rightarrow> None
           | Some g \<Rightarrow> Some (unmark_queue g)))"

definition LHAlgOnline :: "Graph \<Rightarrow> (int \<times> Graph) option" where
  "LHAlgOnline g =
     (let g = g\<lparr>g_minRHSLoad := 0\<rparr>;
          g = InitializeQueue g;
          g = UpdateMinRHSLoad g
      in map_option (\<lambda>g. (LH_SUCCESS, DestroyQueue g)) (fold_opt online_step [0..<g_numLHSVtx g] g))"

section \<open>The search tree\<close>

lemma set_parent_enqueue: "set_parent n (Some v) (enqueue n g) = add_to_tree n v g"
  by (simp add: add_to_tree_def set_parent_def enqueue_def store_def)

definition visit_nbr :: "vref \<Rightarrow> vref \<Rightarrow> Graph \<Rightarrow> Graph" where
  "visit_nbr v n g = (if vx_parent (deref g n) = None then add_to_tree n v g else g)"

lemma visit_nbr_same: "same_but_tree g (visit_nbr v n g)"
  by (simp add: visit_nbr_def add_to_tree_same)

lemma visits_same: "same_but_tree g (foldl (\<lambda>g n. visit_nbr v n g) g ns)"
proof (induction ns arbitrary: g)
  case (Cons n ns)
  then show ?case
    using same_but_tree_trans [OF visit_nbr_same [of g v n] Cons.IH] by simp
qed simp

lemma foldl_upt_Suc: "foldl f s [0..<Suc k] = f (foldl f s [0..<k]) k"
  by simp

lemma EnqueueNbr_eq:
  assumes "adj_ok (deref g v)"
  shows "EnqueueNbr g v matchedOnly =
    foldl (\<lambda>g n. visit_nbr v n g) g (filter (\<lambda>n. \<not> matchedOnly \<or> vx_matchedWith (deref g n) = Some v) (nbrs g v))"
proof -
  let ?P = "\<lambda>n. \<not> matchedOnly \<or> vx_matchedWith (deref g n) = Some v"
  let ?f = "\<lambda>g i. let n = the (vx_adjList (deref g v) ! i)
       in if \<not> matchedOnly \<or> vx_matchedWith (deref g n) = Some v
          then if vx_parent (deref g n) = None then set_parent n (Some v) (enqueue n g) else g
          else g"
  have "foldl ?f g [0..<k] = foldl (\<lambda>g n. visit_nbr v n g) g (filter ?P (map the (take k (vx_adjList (deref g v)))))"
    if "k \<le> length (vx_adjList (deref g v))" for k
    using that
  proof (induction k)
    case (Suc k)
    define h where "h = foldl (\<lambda>g n. visit_nbr v n g) g (filter ?P (map the (take k (vx_adjList (deref g v)))))"
    have same: "vx_adjList (deref h p) = vx_adjList (deref g p)" "vx_matchedWith (deref h p) = vx_matchedWith (deref g p)" for p
      using same_but_tree_vertex(2,5) [OF visits_same] by (auto simp only: h_def)
    have "foldl ?f g [0..<k] = h"
      unfolding h_def using Suc by (intro Suc.IH) simp
    then have "foldl ?f g [0..<Suc k] = ?f h k"
      by (simp only: foldl_upt_Suc)
    also have "\<dots> = (if ?P (the (vx_adjList (deref g v) ! k)) then visit_nbr v (the (vx_adjList (deref g v) ! k)) h else h)"
      by (simp only: Let_def same visit_nbr_def set_parent_enqueue)
    also have "\<dots> = foldl (\<lambda>g n. visit_nbr v n g) h (filter ?P [the (vx_adjList (deref g v) ! k)])"
      by simp
    also have "\<dots> = foldl (\<lambda>g n. visit_nbr v n g) g (filter ?P (map the (take (Suc k) (vx_adjList (deref g v)))))"
      using Suc.prems unfolding h_def by (simp only: take_Suc_conv_app_nth Suc_le_eq map_append filter_append foldl_append list.map)
    finally show ?case .
  qed simp
  then show ?thesis
    using assms by (simp add: EnqueueNbr_def vnbrs_def adj_ok_def)
qed

text \<open>
  A path from \<open>x\<close> to the right-hand vertex \<open>w\<close> along parent pointers, as the list of the left-hand vertices between them:
  each is matched with its parent, and is itself the parent of its neighbour on the path.
\<close>

fun aug_path :: "Graph \<Rightarrow> nat \<Rightarrow> nat \<Rightarrow> nat list \<Rightarrow> bool" where
  "aug_path g x w [] \<longleftrightarrow> w < g_numRHSVtx g \<and> vx_parent (deref g (RV w)) = Some (LV x) \<and> RV w \<in> set (nbrs g (LV x))"
| "aug_path g x w (n # ns) \<longleftrightarrow> w < g_numRHSVtx g \<and> vx_parent (deref g (RV w)) = Some (LV n) \<and> n < g_numLHSVtx g \<and>
     RV w \<in> set (nbrs g (LV n)) \<and>
     (\<exists>v. vx_matchedWith (deref g (LV n)) = Some (RV v) \<and> vx_parent (deref g (LV n)) = Some (RV v) \<and> aug_path g x v ns)"

lemma aug_path_mono:
  assumes "aug_path g x w ns" and same: "same_but_tree g g'"
    and parents: "\<And>p. visited g p \<Longrightarrow> vx_parent (deref g' p) = vx_parent (deref g p)"
  shows "aug_path g' x w ns"
  using assms(1)
proof (induction ns arbitrary: w)
  case Nil
  then show ?case
    using parents [of "RV w"] same_but_tree_fields(4) [OF same] same_edges_nbrs [OF same_but_tree_edges [OF same]]
    by (simp add: visited_def)
next
  case (Cons n ns)
  then obtain v where v: "vx_parent (deref g (RV w)) = Some (LV n)" "vx_parent (deref g (LV n)) = Some (RV v)"
      "aug_path g x v ns" "w < g_numRHSVtx g" "n < g_numLHSVtx g"
    by auto
  have "vx_parent (deref g' (RV w)) = Some (LV n)" "vx_parent (deref g' (LV n)) = Some (RV v)"
    using parents [of "RV w"] parents [of "LV n"] v by (simp_all add: visited_def)
  with Cons.prems Cons.IH [OF v(3)] v show ?case
    using same_but_tree_vertex(5) [OF same] same_but_tree_fields(3,4) [OF same]
      same_edges_nbrs [OF same_but_tree_edges [OF same]] by simp
qed

text \<open>How a vertex of the tree hangs on it.\<close>

definition lhs_node :: "Graph \<Rightarrow> nat \<Rightarrow> nat \<Rightarrow> bool" where
  "lhs_node g x n \<longleftrightarrow> n = x \<or>
     (\<exists>v ns. vx_matchedWith (deref g (LV n)) = Some (RV v) \<and> vx_parent (deref g (LV n)) = Some (RV v) \<and> aug_path g x v ns \<and>
        distinct (x # n # ns) \<and> (\<forall>k\<in>set ns. visited g (LV k)))"

definition rhs_node :: "Graph \<Rightarrow> nat \<Rightarrow> nat \<Rightarrow> bool" where
  "rhs_node g x w \<longleftrightarrow> (\<exists>ns. aug_path g x w ns \<and> distinct (x # ns) \<and> (\<forall>k\<in>set ns. visited g (LV k)))"

definition online_tree :: "Graph \<Rightarrow> nat \<Rightarrow> Graph \<Rightarrow> bool" where
  "online_tree g0 x g \<longleftrightarrow> same_but_tree g0 g \<and> queue_ok g \<and> visited g (LV x) \<and>
     (\<forall>n. visited g (LV n) \<longrightarrow> lhs_node g x n) \<and> (\<forall>w. visited g (RV w) \<longrightarrow> rhs_node g x w)"

lemma node_mono:
  assumes "same_but_tree g g'" and "\<And>p. visited g p \<Longrightarrow> visited g' p \<and> vx_parent (deref g' p) = vx_parent (deref g p)"
  shows "visited g (LV n) \<Longrightarrow> lhs_node g x n \<Longrightarrow> lhs_node g' x n" and "rhs_node g x w \<Longrightarrow> rhs_node g' x w"
proof -
  have mono: "aug_path g x w ns \<Longrightarrow> aug_path g' x w ns" for w ns
    using aug_path_mono [OF _ assms(1)] assms(2) by blast
  show "rhs_node g x w \<Longrightarrow> rhs_node g' x w"
    using mono assms(2) unfolding rhs_node_def by blast
  show "visited g (LV n) \<Longrightarrow> lhs_node g x n \<Longrightarrow> lhs_node g' x n"
    using mono assms(2) same_but_tree_vertex(5) [OF assms(1)] unfolding lhs_node_def by metis
qed

text \<open>A vertex that was not visited enters the tree.\<close>

lemma online_tree_add:
  assumes tree: "online_tree g0 x g" and p: "vref_ok g p" "\<not> visited g p"
    and l: "\<And>n. p = LV n \<Longrightarrow> lhs_node (add_to_tree p q g) x n"
    and r: "\<And>w. p = RV w \<Longrightarrow> rhs_node (add_to_tree p q g) x w"
  shows "online_tree g0 x (add_to_tree p q g)"
proof -
  let ?g = "add_to_tree p q g"
  have same: "same_but_tree g ?g" and vis: "\<And>y. visited ?g y \<longleftrightarrow> y = p \<or> visited g y"
    by (fact add_to_tree_same add_to_tree_visited [OF p(1)])+
  have par: "visited ?g y \<and> vx_parent (deref ?g y) = vx_parent (deref g y)" if "visited g y" for y
    using that p(2) vis by (auto simp: add_to_tree_parent)
  note mono = node_mono [OF same par]
  show ?thesis
    using tree l r mono same_but_tree_trans [OF _ same] add_to_tree_queue(1) [OF _ p]
    unfolding online_tree_def vis by metis
qed

lemma online_add_rhs:
  assumes tree: "online_tree g0 x g" and n: "visited g (LV n)" and w: "RV w \<in> set (nbrs g (LV n))" "w < g_numRHSVtx g"
    "\<not> visited g (RV w)"
  shows "online_tree g0 x (add_to_tree (RV w) (LV n) g)"
proof (rule online_tree_add [OF tree _ w(3)])
  let ?g = "add_to_tree (RV w) (LV n) g"
  have wr: "vref_ok g (RV w)"
    using w by simp
  then show "vref_ok g (RV w)" .
  have same: "same_but_tree g ?g" and vis: "\<And>y. visited ?g y \<longleftrightarrow> y = RV w \<or> visited g y"
    by (fact add_to_tree_same add_to_tree_visited [OF wr])+
  have par: "visited ?g y \<and> vx_parent (deref ?g y) = vx_parent (deref g y)" if "visited g y" for y
    using that w(3) vis by (auto simp: add_to_tree_parent)
  have pw: "vx_parent (deref ?g (RV w)) = Some (LV n)" "w < g_numRHSVtx ?g" "RV w \<in> set (nbrs ?g (LV n))"
    using w same_but_tree_fields(4) [OF same] same_edges_nbrs [OF same_but_tree_edges [OF same]]
    by (simp_all add: add_to_tree_parent)
  have "lhs_node g x n"
    using tree n by (simp add: online_tree_def)
  then have "lhs_node ?g x n"
    using node_mono(1) [OF same par n] by blast
  moreover have "n < g_numLHSVtx ?g" "visited ?g (LV n)"
    using visited_vref [OF n] par [OF n] same_but_tree_fields(3) [OF same] by auto
  ultimately have "rhs_node ?g x w"
    unfolding lhs_node_def
  proof (elim disjE exE conjE)
    assume "n = x"
    then show ?thesis
      using pw unfolding rhs_node_def by (intro exI [of _ "[]"]) simp
  next
    fix v ns
    assume "n < g_numLHSVtx ?g" "visited ?g (LV n)" "vx_matchedWith (deref ?g (LV n)) = Some (RV v)"
      "vx_parent (deref ?g (LV n)) = Some (RV v)" "aug_path ?g x v ns" "distinct (x # n # ns)"
      "\<forall>k\<in>set ns. visited ?g (LV k)"
    then show ?thesis
      using pw unfolding rhs_node_def by (intro exI [of _ "n # ns"]) auto
  qed
  then show "\<And>w'. RV w = RV w' \<Longrightarrow> rhs_node ?g x w'"
    by simp
qed simp

lemma online_add_lhs:
  assumes tree: "online_tree g0 x g" and v: "visited g (RV v)" and n: "vx_matchedWith (deref g (LV n)) = Some (RV v)"
    "n < g_numLHSVtx g" "\<not> visited g (LV n)"
  shows "online_tree g0 x (add_to_tree (LV n) (RV v) g)"
proof (rule online_tree_add [OF tree _ n(3)])
  let ?g = "add_to_tree (LV n) (RV v) g"
  have nr: "vref_ok g (LV n)"
    using n by simp
  then show "vref_ok g (LV n)" .
  have same: "same_but_tree g ?g" and vis: "\<And>y. visited ?g y \<longleftrightarrow> y = LV n \<or> visited g y"
    by (fact add_to_tree_same add_to_tree_visited [OF nr])+
  have par: "vx_parent (deref ?g y) = vx_parent (deref g y)" if "visited g y" for y
    using that n(3) vis by (auto simp: add_to_tree_parent)
  obtain ns where ns: "aug_path g x v ns" "distinct (x # ns)" "\<forall>k\<in>set ns. visited g (LV k)"
    using tree v by (auto simp: online_tree_def rhs_node_def)
  have "aug_path ?g x v ns"
    by (rule aug_path_mono [OF ns(1) same par])
  moreover have "distinct (x # n # ns)"
    using ns n(3) tree by (auto simp: online_tree_def)
  moreover have "vx_matchedWith (deref ?g (LV n)) = Some (RV v)" "vx_parent (deref ?g (LV n)) = Some (RV v)"
    using n(1) same_but_tree_vertex(5) [OF same] by (simp_all add: add_to_tree_parent)
  ultimately have "lhs_node ?g x n"
    using ns(3) vis unfolding lhs_node_def by blast
  then show "\<And>n'. LV n = LV n' \<Longrightarrow> lhs_node ?g x n'"
    by simp
qed simp

text \<open>A vertex is settled when the vertices an alternating path can go to from it are in the tree.\<close>

definition settled :: "Graph \<Rightarrow> vref \<Rightarrow> bool" where
  "settled g p \<longleftrightarrow>
     (case p of
        LV n \<Rightarrow> \<forall>y\<in>set (nbrs g (LV n)). visited g y
      | RV w \<Rightarrow> \<forall>n<g_numLHSVtx g. vx_matchedWith (deref g (LV n)) = Some (RV w) \<longrightarrow> visited g (LV n))"

definition tree_grown :: "Graph \<Rightarrow> Graph \<Rightarrow> bool" where
  "tree_grown g g' \<longleftrightarrow> same_but_tree g g' \<and> (\<forall>p. visited g p \<longrightarrow> visited g' p) \<and> (\<exists>ts. queue_of g' = queue_of g @ ts)"

lemma tree_grown_refl [simp]: "tree_grown g g"
  by (simp add: tree_grown_def)

lemma tree_grown_trans: "tree_grown g g' \<Longrightarrow> tree_grown g' g'' \<Longrightarrow> tree_grown g g''"
  unfolding tree_grown_def using same_but_tree_trans by (metis append.assoc)

lemma tree_grown_settled:
  assumes "tree_grown g g'" and "settled g p"
  shows "settled g' p"
proof -
  have same: "same_but_tree g g'"
    using assms(1) by (simp add: tree_grown_def)
  show ?thesis
    using assms same_but_tree_vertex(5) [OF same] same_but_tree_fields(3) [OF same]
      same_edges_nbrs [OF same_but_tree_edges [OF same]]
    by (cases p) (auto simp: settled_def tree_grown_def)
qed

lemma visit_nbr_spec:
  assumes tree: "online_tree g0 x g" and n: "vref_ok g n" and add: "\<not> visited g n \<Longrightarrow> online_tree g0 x (add_to_tree n v g)"
  shows "online_tree g0 x (visit_nbr v n g) \<and> tree_grown g (visit_nbr v n g) \<and> visited (visit_nbr v n g) n"
proof (cases "visited g n")
  case True
  then show ?thesis
    using tree by (auto simp: visit_nbr_def visited_def)
next
  case False
  then have "visit_nbr v n g = add_to_tree n v g"
    using n by (simp add: visit_nbr_def visited_def)
  then show ?thesis
    using add [OF False] add_to_tree_same [of g n v] add_to_tree_visited [OF n] add_to_tree_queue(2) [OF _ n False] tree
    by (simp add: tree_grown_def online_tree_def)
qed

lemma visits_spec:
  assumes "online_tree g0 x g" and "visited g v"
    and "\<And>g n. n \<in> set ns \<Longrightarrow> online_tree g0 x g \<Longrightarrow> visited g v \<Longrightarrow>
      vref_ok g n \<and> (\<not> visited g n \<longrightarrow> online_tree g0 x (add_to_tree n v g))"
  shows "online_tree g0 x (foldl (\<lambda>g n. visit_nbr v n g) g ns) \<and> tree_grown g (foldl (\<lambda>g n. visit_nbr v n g) g ns) \<and>
    (\<forall>n\<in>set ns. visited (foldl (\<lambda>g n. visit_nbr v n g) g ns) n)"
  using assms
proof (induction ns arbitrary: g)
  case (Cons n ns)
  let ?g = "visit_nbr v n g"
  let ?h = "foldl (\<lambda>g n. visit_nbr v n g) ?g ns"
  have v: "online_tree g0 x ?g \<and> tree_grown g ?g \<and> visited ?g n"
    using visit_nbr_spec [OF Cons.prems(1)] Cons.prems by simp
  then have "visited ?g v"
    using Cons.prems(2) by (simp add: tree_grown_def)
  then have "online_tree g0 x ?h \<and> tree_grown ?g ?h \<and> (\<forall>n\<in>set ns. visited ?h n)"
    using v Cons.prems(3) by (intro Cons.IH) auto
  then show ?case
    using v tree_grown_trans [of g ?g ?h] by (simp add: tree_grown_def)
qed simp

lemma EnqueueNbr_spec:
  assumes tree: "online_tree g0 x g" and wf: "graph_wf g0" "match_wf g0" and p: "visited g p"
  shows "online_tree g0 x (EnqueueNbr g p (\<not> (\<exists>n. p = LV n))) \<and> tree_grown g (EnqueueNbr g p (\<not> (\<exists>n. p = LV n))) \<and>
    settled (EnqueueNbr g p (\<not> (\<exists>n. p = LV n))) p"
proof -
  let ?ns = "filter (\<lambda>n. (\<exists>n. p = LV n) \<or> vx_matchedWith (deref g n) = Some p) (nbrs g p)"
  let ?g = "foldl (\<lambda>g n. visit_nbr p n g) g ?ns"
  have s0: "same_but_tree g0 g"
    using tree by (simp add: online_tree_def)
  have wf': "graph_wf g" "match_wf g"
    using wf same_edges_wf [OF same_but_tree_edges [OF s0]] same_edges_nbrs [OF same_but_tree_edges [OF s0]]
      same_but_tree_fields(3) [OF s0] same_but_tree_vertex(5) [OF s0] by (simp_all add: match_wf_def)
  have add: "vref_ok h n \<and> (\<not> visited h n \<longrightarrow> online_tree g0 x (add_to_tree n p h))"
    if "n \<in> set ?ns" "online_tree g0 x h" "visited h p" for h n
  proof -
    have nb_p: "n \<in> set (nbrs g p)"
      using that(1) by simp
    have s1: "same_but_tree g0 h"
      using that(2) by (simp add: online_tree_def)
    have nums: "g_numLHSVtx h = g_numLHSVtx g" "g_numRHSVtx h = g_numRHSVtx g" and nb: "nbrs h = nbrs g"
      and m: "vx_matchedWith (deref h y) = vx_matchedWith (deref g y)" for y
      using same_but_tree_fields(3,4) [OF s0] same_but_tree_fields(3,4) [OF s1] same_but_tree_vertex(5) [OF s0]
        same_but_tree_vertex(5) [OF s1] same_edges_nbrs [OF same_but_tree_edges [OF s0]]
        same_edges_nbrs [OF same_but_tree_edges [OF s1]] by auto
    show ?thesis
    proof (cases p)
      case (LV k)
      then obtain w where "n = RV w" "w < g_numRHSVtx g"
        using nb_p lhs_nbr [OF wf'(1), of k n] visited_vref [OF p] by auto
      then show ?thesis
        using that LV online_add_rhs [OF that(2), of k w] nums fun_cong [OF nb] by auto
    next
      case (RV w)
      then obtain k where "n = LV k" "k < g_numLHSVtx g"
        using nb_p rhs_nbr [OF wf'(1), of w n] visited_vref [OF p] by auto
      then show ?thesis
        using that RV online_add_lhs [OF that(2), of w k] nums m by auto
    qed
  qed
  have "online_tree g0 x ?g \<and> tree_grown g ?g \<and> (\<forall>n\<in>set ?ns. visited ?g n)"
    by (rule visits_spec [OF tree p]) (rule add)
  then have spec: "online_tree g0 x ?g" "tree_grown g ?g" "\<forall>n\<in>set ?ns. visited ?g n"
    by blast+
  have "settled ?g p"
  proof (cases p)
    case (LV n)
    then show ?thesis
      using spec(3) same_edges_nbrs [OF same_but_tree_edges [OF visits_same]] by (simp add: settled_def)
  next
    case (RV w)
    have "LV n \<in> set (nbrs g p)" if "n < g_numLHSVtx g" "vx_matchedWith (deref g (LV n)) = Some (RV w)" for n
      using lhs_nbr [OF wf'(1) that(1), of "RV w"] wf'(2) that RV by (auto simp: match_wf_def)
    then show ?thesis
      using spec(3) same_but_tree_vertex(5) [OF visits_same] same_but_tree_fields(3) [OF visits_same] RV
      by (simp add: settled_def)
  qed
  moreover have "EnqueueNbr g p (\<not> (\<exists>n. p = LV n)) = ?g"
    using EnqueueNbr_eq [OF graph_wf_adj [OF wf'(1) visited_vref [OF p]], of "\<not> (\<exists>n. p = LV n)"] by (simp only: not_not)
  ultimately show ?thesis
    using spec(1,2) by simp
qed

section \<open>The search\<close>

definition best_ok :: "Graph \<Rightarrow> vref set \<Rightarrow> vref option \<Rightarrow> bool" where
  "best_ok g S b \<longleftrightarrow>
     (case b of
        None \<Rightarrow> \<forall>k. RV k \<notin> S
      | Some p \<Rightarrow> (\<exists>j. p = RV j) \<and> visited g p \<and>
          (\<forall>k. RV k \<in> S \<longrightarrow> vx_numMatched (deref g p) \<le> vx_numMatched (deref g (RV k))))"

definition online_found :: "Graph \<Rightarrow> vref option \<Rightarrow> bool" where
  "online_found g b \<longleftrightarrow>
     (\<forall>p. visited g p \<longrightarrow> settled g p) \<and> best_ok g {p. visited g p} b \<or>
     (\<exists>j. b = Some (RV j) \<and> visited g (RV j) \<and> vx_numMatched (deref g (RV j)) = g_minRHSLoad g)"

lemma tree_grown_best:
  assumes "tree_grown g g'" and "best_ok g S b"
  shows "best_ok g' S b"
proof -
  have same: "same_but_tree g g'"
    using assms(1) by (simp add: tree_grown_def)
  show ?thesis
    using assms same_but_tree_vertex(6) [OF same] by (auto simp: best_ok_def tree_grown_def split: option.splits)
qed

lemma online_loop_spec:
  assumes "online_tree g0 x g" and "graph_wf g0" and "match_wf g0" and "q \<le> g_Qsize g"
    and "\<forall>p\<in>set (take q (queue_of g)). settled g p" and "best_ok g (set (take q (queue_of g))) b"
  shows "\<exists>g' b'. online_loop g b q = Some (g', b') \<and> online_tree g0 x g' \<and> online_found g' b'"
  using assms(1,4-6)
proof (induction "g_numLHSVtx g0 + g_numRHSVtx g0 - q" arbitrary: g q b rule: less_induct)
  case less
  have ok: "queue_ok g" and s0: "same_but_tree g0 g"
    using less.prems(1) by (simp_all add: online_tree_def)
  have bound: "g_Qsize g \<le> g_numLHSVtx g0 + g_numRHSVtx g0"
    using ok same_but_tree_fields(3,4) [OF s0] by (simp add: queue_ok_def)
  have wf: "graph_wf g"
    using assms(2) same_edges_wf [OF same_but_tree_edges [OF s0]] by simp
  show ?case
  proof (cases "q < g_Qsize g")
    case False
    then have "set (take q (queue_of g)) = {p. visited g p}"
      using length_queue_of [OF ok] ok by (simp add: queue_ok_def)
    then have "online_found g b"
      using less.prems(3,4) by (simp add: online_found_def)
    then show ?thesis
      using False less.prems(1) by (simp add: online_loop.simps)
  next
    case True
    let ?v = "queue_of g ! q"
    let ?g = "EnqueueNbr g ?v (\<not> (\<exists>n. ?v = LV n))"
    have vis: "visited g ?v"
      using True length_queue_of [OF ok] ok nth_mem [of q "queue_of g"] by (auto simp: queue_ok_def)
    have e: "online_tree g0 x ?g" "tree_grown g ?g" "settled ?g ?v"
      using EnqueueNbr_spec [OF less.prems(1) assms(2,3) vis] by blast+
    obtain ts where "queue_of ?g = queue_of g @ ts"
      using e(2) by (auto simp: tree_grown_def)
    then have take: "take (q + 1) (queue_of ?g) = take q (queue_of g) @ [?v]" and size: "q + 1 \<le> g_Qsize ?g"
      using True length_queue_of [OF ok] length_queue_of [of ?g] e(1) by (auto simp: take_Suc_conv_app_nth online_tree_def)
    have set: "\<forall>p\<in>set (take (q + 1) (queue_of ?g)). settled ?g p"
      unfolding take using less.prems(3) tree_grown_settled [OF e(2)] e(3) by auto
    have m: "g_numLHSVtx g0 + g_numRHSVtx g0 - (q + 1) < g_numLHSVtx g0 + g_numRHSVtx g0 - q"
      using True bound by simp
    have IH: "\<exists>g' b'. online_loop ?g c (q + 1) = Some (g', b') \<and> online_tree g0 x g' \<and> online_found g' b'"
      if "best_ok ?g (insert ?v (set (take q (queue_of g)))) c" for c
      using less.hyps [OF m e(1) size set, of c] that unfolding take by simp
    note old = tree_grown_best [OF e(2) less.prems(4)]
    have vg: "visited ?g ?v"
      using vis e(2) by (simp add: tree_grown_def)
    show ?thesis
    proof (cases ?v)
      case (LV n)
      then have "online_loop g b q = online_loop ?g b (q + 1)"
        using True vis queue_nth [OF ok True] IS_LHS_VTX_iff [OF wf visited_vref [OF vis]]
        by (subst online_loop.simps) (simp add: Let_def)
      moreover have "best_ok ?g (insert ?v (set (take q (queue_of g)))) b"
        using old LV by (auto simp: best_ok_def split: option.splits)
      ultimately show ?thesis
        using IH by simp
    next
      case (RV j)
      let ?n = "\<lambda>p. vx_numMatched (deref ?g p)"
      have run: "online_loop g b q =
          (if b = None \<or> ?n ?v < ?n (the b) then if ?n ?v = g_minRHSLoad ?g then Some (?g, Some ?v)
             else online_loop ?g (Some ?v) (q + 1) else online_loop ?g b (q + 1))"
        using True vis queue_nth [OF ok True] IS_LHS_VTX_iff [OF wf visited_vref [OF vis]] RV
        by (subst online_loop.simps) (simp add: Let_def)
      have new: "best_ok ?g (insert ?v (set (take q (queue_of g)))) (Some ?v)" if "b = None \<or> ?n ?v < ?n (the b)"
        using that old vg RV by (fastforce simp: best_ok_def split: option.splits)
      have keep: "best_ok ?g (insert ?v (set (take q (queue_of g)))) b" if "\<not> (b = None \<or> ?n ?v < ?n (the b))"
        using that old RV by (auto simp: best_ok_def split: option.splits)
      have stop: "online_found ?g (Some ?v)" if "?n ?v = g_minRHSLoad ?g"
        using that vg RV by (simp add: online_found_def)
      show ?thesis
        unfolding run using IH [OF new] IH [OF keep] stop e(1) by auto
    qed
  qed
qed

lemma online_BFS_Qsize: "online_BFS (g\<lparr>g_Qsize := n\<rparr>) u = online_BFS g u"
  by (simp add: online_BFS_def set_parent_def store_def)

lemma online_BFS_spec:
  assumes q: "queue_ok g" "g_Qsize g = 0" and wf: "graph_wf g" "match_wf g" and x: "x < g_numLHSVtx g"
    and none: "\<And>p. \<not> visited g p"
  shows "\<exists>g' b. online_BFS g (LV x) = Some (g', b) \<and> online_tree g x g' \<and> online_found g' b"
proof -
  let ?g = "add_to_tree (LV x) (LV x) g"
  have x0: "vref_ok g (LV x)" "\<not> visited g (LV x)"
    using x none by simp_all
  have vis: "visited ?g p \<longleftrightarrow> p = LV x" for p
    using none [of p] unfolding add_to_tree_visited [OF x0(1)] by simp
  have tree: "online_tree g x ?g"
    using add_to_tree_same add_to_tree_queue(1) [OF q(1) x0] by (simp add: online_tree_def vis lhs_node_def)
  have "online_BFS g (LV x) = online_loop ?g None 0"
    using q(2) by (simp add: online_BFS_def add_to_tree_def enqueue_def set_parent_def store_def)
  then show ?thesis
    using online_loop_spec [OF tree wf, of 0 None] by (simp add: best_ok_def)
qed

section \<open>The augmentation\<close>

lemma aug_path_store:
  assumes "aug_path g x w ns" and "\<And>v. vx_parent (f v) = vx_parent v \<and> vx_degree (f v) = vx_degree v \<and>
      vx_adjList (f v) = vx_adjList v"
    and "p \<notin> LV ` set ns \<or> (\<forall>v. vx_matchedWith (f v) = vx_matchedWith v)"
  shows "aug_path (store p f g) x w ns"
  using assms(1,3)
proof (induction ns arbitrary: w)
  case Nil
  then show ?case
    using assms(2) by (auto simp: vnbrs_def)
next
  case (Cons n ns)
  then obtain v where "vx_matchedWith (deref g (LV n)) = Some (RV v)" "vx_parent (deref g (LV n)) = Some (RV v)"
      "aug_path (store p f g) x v ns"
    by auto
  with Cons.prems show ?case
    using assms(2) by (auto simp: vnbrs_def)
qed

lemma augment_loop_spec:
  assumes "aug_path g x w ns" and "distinct (x # ns)"
  shows "\<exists>g'. augment_loop g (LV x) (RV w) = Some g' \<and> same_but_match g g' \<and> match_of g' = shift (match_of g) x w ns \<and>
    (\<forall>i. vx_matchedWith (deref g' (LV i)) =
       (if i \<in> set (x # ns) then Some (RV (match_of g' i)) else vx_matchedWith (deref g (LV i))))"
  using assms
proof (induction ns arbitrary: g w)
  case Nil
  let ?g = "store (LV x) (\<lambda>v. v\<lparr>vx_matchedWith := Some (RV w)\<rparr>) g"
  have "augment_loop g (LV x) (RV w) = Some ?g"
    using Nil by (subst augment_loop.simps) (simp add: Let_def)
  moreover have "match_of ?g = (match_of g)(x := w)"
    by (simp add: match_of_def fun_eq_iff)
  ultimately show ?case
    using same_but_match_store [of g "LV x" "Some (RV w)"] by auto
next
  case (Cons n ns)
  let ?g = "store (LV n) (\<lambda>v. v\<lparr>vx_matchedWith := Some (RV w)\<rparr>) g"
  obtain v where v: "vx_parent (deref g (RV w)) = Some (LV n)" "vx_matchedWith (deref g (LV n)) = Some (RV v)"
      "vx_parent (deref g (LV n)) = Some (RV v)" "aug_path g x v ns"
    using Cons.prems(1) by auto
  have mo: "match_of ?g = (match_of g)(n := w)" and n: "match_of g n = v"
    using v(2) by (simp_all add: match_of_def fun_eq_iff)
  have run: "augment_loop g (LV x) (RV w) = augment_loop ?g (LV x) (RV v)"
    using v Cons.prems(2) by (subst augment_loop.simps) (simp add: Let_def)
  have "aug_path ?g x v ns"
    using Cons.prems(2) by (intro aug_path_store [OF v(4)]) auto
  then obtain g' where g': "augment_loop ?g (LV x) (RV v) = Some g'" "same_but_match ?g g'"
      "match_of g' = shift (match_of ?g) x v ns"
      "\<forall>i. vx_matchedWith (deref g' (LV i)) =
        (if i \<in> set (x # ns) then Some (RV (match_of g' i)) else vx_matchedWith (deref ?g (LV i)))"
    using Cons.IH [of ?g v] Cons.prems(2) by auto
  have shift: "match_of g' = shift (match_of g) x w (n # ns)"
    using g'(3) Cons.prems(2) shift_upd [of n x ns "match_of g" w v] by (simp add: mo n)
  then have "vx_matchedWith (deref g' (LV i)) =
      (if i \<in> set (x # n # ns) then Some (RV (match_of g' i)) else vx_matchedWith (deref g (LV i)))" for i
    using g'(4) Cons.prems(2) by auto
  then show ?case
    using run g'(1) shift same_but_match_trans [OF same_but_match_store g'(2)] by (intro exI [of _ g']) simp
qed

lemma apath_of:
  assumes "aug_path g x w ns"
  shows "apath (matched_set g) (adj_of g) (match_of g) x w ns"
  using assms
proof (induction ns arbitrary: w)
  case (Cons n ns)
  then obtain v where "vx_matchedWith (deref g (LV n)) = Some (RV v)" "aug_path g x v ns" "n < g_numLHSVtx g"
    by auto
  moreover from this have "match_of g n = v" "n \<in> matched_set g"
    by (simp_all add: match_of_def matched_set_def)
  ultimately show ?case
    using Cons by (simp add: adj_of_def)
qed (simp add: adj_of_def)

lemma UpdateMinRHSLoad_spec:
  "\<exists>m. UpdateMinRHSLoad g = g\<lparr>g_minRHSLoad := m\<rparr> \<and> (\<forall>j<g_numRHSVtx g. m \<le> vx_numMatched (deref g (RV j)))"
proof -
  let ?f = "\<lambda>g i. g\<lparr>g_minRHSLoad := min (g_minRHSLoad g) (vx_numMatched (deref g (RV i)))\<rparr>"
  have "\<exists>m. foldl ?f (g\<lparr>g_minRHSLoad := g_numLHSVtx g\<rparr>) [0..<k] = g\<lparr>g_minRHSLoad := m\<rparr> \<and>
      (\<forall>j<k. m \<le> vx_numMatched (deref g (RV j)))" for k
  proof (induction k)
    case (Suc k)
    then obtain m where "foldl ?f (g\<lparr>g_minRHSLoad := g_numLHSVtx g\<rparr>) [0..<k] = g\<lparr>g_minRHSLoad := m\<rparr>"
        "\<forall>j<k. m \<le> vx_numMatched (deref g (RV j))"
      by blast
    then show ?case
      by (intro exI [of _ "min m (vx_numMatched (deref g (RV k)))"]) (auto simp: less_Suc_eq min_le_iff_disj)
  qed (auto intro: exI [of _ "g_numLHSVtx g"])
  then show ?thesis
    by (simp add: UpdateMinRHSLoad_def)
qed

text \<open>Matching \<open>x\<close> along the path: the partners shift, and only the load of \<open>w\<close> grows.\<close>

lemma augment_ok:
  assumes ok: "lh_ok g" and x: "x < g_numLHSVtx g" "x \<notin> matched_set g" and path: "aug_path g x w ns" "distinct (x # ns)"
  defines "g1 \<equiv> store (RV w) (\<lambda>v. v\<lparr>vx_numMatched := vx_numMatched v + 1\<rparr>) g"
  shows "\<exists>g'. augment_loop g1 (LV x) (RV w) = Some g' \<and> same_but_match g1 g' \<and> lh_ok g' \<and> same_edges g g' \<and>
    matched_set g' = insert x (matched_set g) \<and> match_of g' = shift (match_of g) x w ns"
proof -
  have wf: "graph_wf g" and m: "match_wf g" and l: "loads_exact g"
    using ok by (simp_all add: lh_ok_def)
  have "aug_path g1 x w ns"
    unfolding g1_def by (rule aug_path_store [OF path(1)]) simp_all
  from augment_loop_spec [OF this path(2)] obtain g' where run: "augment_loop g1 (LV x) (RV w) = Some g'" and
    same1: "same_but_match g1 g'" and mo1: "match_of g' = shift (match_of g1) x w ns" and
    mw1: "\<And>i. vx_matchedWith (deref g' (LV i)) =
      (if i \<in> set (x # ns) then Some (RV (match_of g' i)) else vx_matchedWith (deref g1 (LV i)))"
    by blast
  have mo: "match_of g' = shift (match_of g) x w ns"
    using mo1 by (simp add: match_of_def [abs_def] g1_def)
  have mw: "vx_matchedWith (deref g' (LV i)) =
      (if i \<in> set (x # ns) then Some (RV (match_of g' i)) else vx_matchedWith (deref g (LV i)))" for i
    unfolding mw1 by (simp add: g1_def)
  have same: "same_edges g g'"
    by (rule same_edges_trans [OF _ same_but_match_edges [OF same1]]) (simp add: g1_def same_edges_def)
  note nums = same_edges_nums [OF same] and nb = same_edges_nbrs [OF same]
  have ap: "apath (matched_set g) (adj_of g) (match_of g) x w ns"
    by (rule apath_of [OF path(1)])
  have ns: "set ns \<subseteq> matched_set g"
    using ap by (induction ns arbitrary: w) auto
  then have ms: "matched_set g' = insert x (matched_set g)"
    using x(1) nums by (auto simp: matched_set_def mw)
  have "assigns (matched_set g) (adj_of g) (match_of g)"
    using matched_mem [OF m wf] by (simp add: assigns_def)
  then have as: "assigns (insert x (matched_set g)) (adj_of g) (match_of g')"
    unfolding mo by (rule shift_assigns [OF ap])
  have "match_wf g'"
  proof (unfold match_wf_def, intro allI impI)
    fix i p
    assume i: "i < g_numLHSVtx g'" and p: "vx_matchedWith (deref g' (LV i)) = Some p"
    show "p \<in> set (nbrs g' (LV i))"
    proof (cases "i \<in> set (x # ns)")
      case True
      then have "match_of g' i \<in> adj_of g i"
        using as ns by (auto simp: assigns_def)
      then show ?thesis
        using True p by (auto simp: mw nb adj_of_def)
    next
      case False
      then show ?thesis
        using m i p nums by (simp add: mw nb match_wf_def)
    qed
  qed
  moreover have "loads_exact g'"
    using l same_but_match_vertex(6) [OF same1] nums load_shift [OF finite_matched_set x(2) ap] path(2)
    by (simp add: loads_exact_def ms mo g1_def)
  ultimately have "lh_ok g'"
    using wf same_edges_wf [OF same] by (simp add: lh_ok_def)
  then show ?thesis
    using run same1 same ms mo by blast
qed

section \<open>The algorithm\<close>

text \<open>
  The state before vertex \<open>x\<close> is treated: the matching covers the vertices before it and is balanced on them, no vertex is
  marked, and the bound \<^verbatim>\<open>minRHSLoad\<close> is below every load.
\<close>

definition below_loads :: "Graph \<Rightarrow> bool" where
  "below_loads g \<longleftrightarrow> (\<forall>j<g_numRHSVtx g. g_minRHSLoad g \<le> vx_numMatched (deref g (RV j)))"

definition online_inv :: "nat \<Rightarrow> Graph \<Rightarrow> bool" where
  "online_inv x g \<longleftrightarrow> lh_ok g \<and> matched_set g = {k \<in> clients g. k < x} \<and>
     balanced (matched_set g) (servers g) (adj_of g) (match_of g) \<and> queue_ok g \<and> g_Qsize g = 0 \<and> (\<forall>p. \<not> visited g p) \<and>
     below_loads g"

lemma queue_ok_min: "queue_ok (g\<lparr>g_minRHSLoad := k\<rparr>) = queue_ok g"
proof -
  have "vref_ok (g\<lparr>g_minRHSLoad := k\<rparr>) p = vref_ok g p" for p
    by (cases p) simp_all
  then show ?thesis
    by (simp add: queue_ok_def queue_of_def visited_def)
qed

lemma AugmentPath_spec:
  assumes ok: "lh_ok g" and x: "x < g_numLHSVtx g" "x \<notin> matched_set g" and path: "aug_path g x w ns" "distinct (x # ns)"
    and q: "queue_ok g" and low: "below_loads g"
  shows "\<exists>g'. AugmentPath g (LV x) (RV w) = Some g' \<and> lh_ok g' \<and> same_edges g g' \<and> queue_ok g' \<and> below_loads g' \<and>
    matched_set g' = insert x (matched_set g) \<and> match_of g' = shift (match_of g) x w ns"
proof -
  let ?g = "store (RV w) (\<lambda>v. v\<lparr>vx_numMatched := vx_numMatched v + 1\<rparr>) g"
  obtain g2 where run: "augment_loop ?g (LV x) (RV w) = Some g2" and same: "same_but_match ?g g2" and
    g2: "lh_ok g2" "same_edges g g2" "matched_set g2 = insert x (matched_set g)" "match_of g2 = shift (match_of g) x w ns"
    using augment_ok [OF ok x path] by blast
  obtain m where m: "UpdateMinRHSLoad g2 = g2\<lparr>g_minRHSLoad := m\<rparr>" "\<forall>j<g_numRHSVtx g2. m \<le> vx_numMatched (deref g2 (RV j))"
    using UpdateMinRHSLoad_spec by blast
  let ?k = "if vx_numMatched (deref g2 (RV w)) = g_minRHSLoad g2 + 1 then m else g_minRHSLoad g2"
  let ?h = "g2\<lparr>g_minRHSLoad := ?k\<rparr>"
  have "AugmentPath g (LV x) (RV w) = Some ?h"
    using run m(1) by (simp add: AugmentPath_def)
  moreover have "below_loads ?h"
    using low m(2) same_but_match_fields(4,6) [OF same] same_but_match_vertex(6) [OF same]
    by (auto simp: below_loads_def intro: le_SucI)
  moreover have "visited ?g = visited g"
    using same_edges_vref_ok [of g ?g] by (auto simp: visited_def same_edges_def fun_eq_iff)
  then have "queue_ok ?g"
    using q by (simp add: queue_ok_def queue_of_def)
  then have "queue_ok g2"
    using same_but_match_queue [OF same] by simp
  then have "queue_ok ?h"
    by (simp only: queue_ok_min)
  moreover have h: "same_edges g2 ?h"
    by (simp add: same_edges_def)
  moreover have "lh_ok ?h = lh_ok g2" "matched_set ?h = matched_set g2" "match_of ?h = match_of g2"
    by (rule same_matching [OF h]; simp)+
  ultimately show ?thesis
    using g2 same_edges_trans [OF g2(2) h] by (intro exI [of _ ?h]) simp
qed

lemma online_unmark:
  assumes "queue_ok g" and "lh_ok g" and "below_loads g" and "matched_set g = {k \<in> clients g. k < x}"
    and "balanced (matched_set g) (servers g) (adj_of g) (match_of g)"
  shows "online_inv x ((unmark_queue g)\<lparr>g_Qsize := 0\<rparr>)" and "same_edges g ((unmark_queue g)\<lparr>g_Qsize := 0\<rparr>)"
proof -
  let ?g = "(unmark_queue g)\<lparr>g_Qsize := 0\<rparr>"
  note u = unmark_spec [OF assms(1)]
  show "same_edges g ?g"
    by (rule same_but_tree_edges [OF u(1)])
  have "below_loads ?g"
    using assms(3) same_but_tree_fields(4,6) [OF u(1)] same_but_tree_vertex(6) [OF u(1)] unfolding below_loads_def by simp
  then show "online_inv x ?g"
    using assms u(2,3) same_but_tree_ok [OF u(1)] same_edges_problem [OF \<open>same_edges g ?g\<close>] unfolding online_inv_def by simp
qed

text \<open>
  A set of right-hand vertices that is closed under alternating paths from \<open>x\<close>, in which \<open>w\<close> has the least load: all of
  them, if \<open>w\<close> has the least load there is, and otherwise those that the search reached.
\<close>

definition target_set :: "Graph \<Rightarrow> nat \<Rightarrow> nat \<Rightarrow> nat set \<Rightarrow> bool" where
  "target_set g x w R \<longleftrightarrow> R \<subseteq> servers g \<and> (\<forall>u\<in>matched_set g. match_of g u \<in> R \<longrightarrow> adj_of g u \<subseteq> R) \<and> adj_of g x \<subseteq> R \<and>
     w \<in> R \<and> (\<forall>v\<in>R. load_of (matched_set g) (match_of g) w \<le> load_of (matched_set g) (match_of g) v)"

lemma target_all:
  assumes "loads_exact g" and "below_loads g" and "w < g_numRHSVtx g" and "vx_numMatched (deref g (RV w)) = g_minRHSLoad g"
  shows "target_set g x w (servers g)"
  using assms by (auto simp: target_set_def loads_exact_def below_loads_def servers_def adj_of_def)

lemma target_reached:
  assumes ok: "lh_ok g" and vis: "visited g (LV x)" "visited g (RV w)" and set: "\<And>p. visited g p \<Longrightarrow> settled g p"
    and best: "\<And>k. visited g (RV k) \<Longrightarrow> vx_numMatched (deref g (RV w)) \<le> vx_numMatched (deref g (RV k))"
  shows "target_set g x w {j. visited g (RV j)}"
proof -
  have wf: "graph_wf g" and m: "match_wf g" and l: "loads_exact g"
    using ok by (simp_all add: lh_ok_def)
  have num: "j < g_numRHSVtx g" if "visited g (RV j)" for j
    using visited_vref [OF that] by simp
  have adj: "adj_of g n \<subseteq> {j. visited g (RV j)}" if "visited g (LV n)" for n
    using set [OF that] by (auto simp: settled_def adj_of_def)
  have "visited g (LV u)" if "u \<in> matched_set g" "visited g (RV (match_of g u))" for u
    using set [OF that(2)] matched_mem [OF m wf that(1)] that(1) by (simp add: settled_def matched_set_def)
  then have "\<forall>u\<in>matched_set g. match_of g u \<in> {j. visited g (RV j)} \<longrightarrow> adj_of g u \<subseteq> {j. visited g (RV j)}"
    using adj by simp
  moreover have "load_of (matched_set g) (match_of g) w \<le> load_of (matched_set g) (match_of g) j" if "visited g (RV j)" for j
    using best [OF that] l num [OF that] num [OF vis(2)] by (simp add: loads_exact_def)
  ultimately show ?thesis
    using adj [OF vis(1)] vis(2) num by (simp add: target_set_def servers_def subset_iff)
qed

lemma aug_path_partners: "aug_path g x w ns \<Longrightarrow> \<forall>n\<in>set ns. visited g (RV (match_of g n))"
proof (induction ns arbitrary: w)
  case (Cons n ns)
  then obtain v where "vx_matchedWith (deref g (LV n)) = Some (RV v)" "aug_path g x v ns"
    by auto
  moreover from this have "visited g (RV v)"
    by (cases ns) (auto simp: visited_def)
  ultimately show ?case
    using Cons.IH [of v] by (simp add: match_of_def)
qed simp

lemma online_found_balanced:
  assumes ok: "lh_ok g" and low: "below_loads g" and x: "x \<notin> matched_set g"
    and tree: "online_tree g0 x g" and found: "online_found g (Some p)"
    and bal: "balanced (matched_set g) (servers g) (adj_of g) (match_of g)"
  shows "\<exists>w ns. p = RV w \<and> aug_path g x w ns \<and> distinct (x # ns) \<and>
    balanced (insert x (matched_set g)) (servers g) (adj_of g) (shift (match_of g) x w ns)"
proof -
  have vx: "visited g (LV x)"
    using tree by (simp add: online_tree_def)
  obtain w where w: "p = RV w" "visited g (RV w)"
    using found by (auto simp: online_found_def best_ok_def)
  with tree obtain ns where ns: "aug_path g x w ns" "distinct (x # ns)"
    by (auto simp: online_tree_def rhs_node_def)
  have "\<exists>R. target_set g x w R \<and> {j. visited g (RV j)} \<subseteq> R"
  proof (cases "vx_numMatched (deref g (RV w)) = g_minRHSLoad g")
    case True
    moreover have "{j. visited g (RV j)} \<subseteq> servers g"
      using visited_vref [of g] by (fastforce simp: servers_def)
    ultimately show ?thesis
      using target_all [of g w x] ok low visited_vref [OF w(2)] by (auto simp: lh_ok_def)
  next
    case False
    then show ?thesis
      using found w(1) target_reached [OF ok vx w(2)] by (auto simp: online_found_def best_ok_def)
  qed
  then obtain R where R: "target_set g x w R" "{j. visited g (RV j)} \<subseteq> R"
    by blast
  have "balanced (insert x (matched_set g)) (servers g) (adj_of g) (shift (match_of g) x w ns)"
  proof (rule augment_balanced [OF finite_matched_set x bal apath_of [OF ns(1)]])
    show "\<forall>n\<in>set ns. match_of g n \<in> R"
      using aug_path_partners [OF ns(1)] R(2) by auto
  qed (use ns(2) R(1) in \<open>simp_all add: target_set_def\<close>)
  then show ?thesis
    using w(1) ns by blast
qed

lemma online_found_None:
  assumes wf: "graph_wf g" and tree: "online_tree g0 x g" and found: "online_found g None"
  shows "x \<notin> clients g"
proof -
  have x: "visited g (LV x)"
    using tree by (simp add: online_tree_def)
  then have xL: "x < g_numLHSVtx g"
    using visited_vref [OF x] by simp
  have "settled g (LV x)" and none: "\<And>k. \<not> visited g (RV k)"
    using found x by (auto simp: online_found_def best_ok_def)
  then have vis: "\<forall>y\<in>set (nbrs g (LV x)). visited g y"
    by (simp add: settled_def)
  have "set (nbrs g (LV x)) = {}"
  proof (rule equals0I)
    fix y
    assume y: "y \<in> set (nbrs g (LV x))"
    obtain j where "y = RV j"
      by (rule lhs_nbr [OF wf xL y])
    then show False
      using vis y none by blast
  qed
  then show ?thesis
    using degree_pos_iff [OF wf, of "LV x"] xL by (simp add: clients_def)
qed

lemma aug_path_client: "aug_path g x w ns \<Longrightarrow> x < g_numLHSVtx g \<Longrightarrow> x \<in> clients g"
  by (induction ns arbitrary: w) (auto simp: clients_def dest: vnbrs_degree)

lemma online_step_spec:
  assumes inv: "online_inv x g" and x: "x < g_numLHSVtx g"
  shows "\<exists>g'. online_step x g = Some g' \<and> online_inv (x + 1) (g'\<lparr>g_Qsize := 0\<rparr>) \<and> same_edges g (g'\<lparr>g_Qsize := 0\<rparr>)"
proof -
  have ok: "lh_ok g" "queue_ok g" "g_Qsize g = 0" "below_loads g" and ms: "matched_set g = {k \<in> clients g. k < x}"
    and bal: "balanced (matched_set g) (servers g) (adj_of g) (match_of g)" and none: "\<And>p. \<not> visited g p"
    using inv by (auto simp: online_inv_def)
  have wf: "graph_wf g" "match_wf g"
    using ok(1) by (simp_all add: lh_ok_def)
  obtain g1 b where bfs: "online_BFS g (LV x) = Some (g1, b)" "online_tree g x g1" "online_found g1 b"
    using online_BFS_spec [OF ok(2,3) wf x none] by blast
  have s1: "same_but_tree g g1" and q1: "queue_ok g1"
    using bfs(2) by (simp_all add: online_tree_def)
  note e1 = same_but_tree_edges [OF s1]
  have ok1: "lh_ok g1" "below_loads g1" "x \<notin> matched_set g1" "x < g_numLHSVtx g1"
      "balanced (matched_set g1) (servers g1) (adj_of g1) (match_of g1)"
    using ok(1,4) ms x bal same_but_tree_ok [OF s1] same_but_tree_fields [OF s1] same_but_tree_vertex(6) [OF s1]
      same_edges_problem [OF e1] by (simp_all add: below_loads_def)
  have ms1: "matched_set g1 = {k \<in> clients g1. k < x}"
    using ms same_but_tree_ok(2) [OF s1] same_edges_problem(1) [OF e1] by simp
  have next_vtx: "{k \<in> clients g1. k < x + 1} = (if x \<in> clients g1 then insert x (matched_set g1) else matched_set g1)"
    unfolding ms1 by (auto simp: less_Suc_eq)
  have "\<exists>g2. (case b of None \<Rightarrow> Some g1 | Some v \<Rightarrow> AugmentPath g1 (LV x) v) = Some g2 \<and> lh_ok g2 \<and> same_edges g1 g2 \<and>
      queue_ok g2 \<and> below_loads g2 \<and> matched_set g2 = {k \<in> clients g1. k < x + 1} \<and>
      balanced (matched_set g2) (servers g1) (adj_of g1) (match_of g2)"
  proof (cases b)
    case None
    then have "x \<notin> clients g1"
      using online_found_None bfs ok1(1) by (simp add: lh_ok_def)
    then show ?thesis
      using None ok1 q1 next_vtx by auto
  next
    case (Some p)
    from online_found_balanced [OF ok1(1,2,3) bfs(2) _ ok1(5)] bfs(3) Some
    obtain w ns where w: "p = RV w" "aug_path g1 x w ns" "distinct (x # ns)"
        "balanced (insert x (matched_set g1)) (servers g1) (adj_of g1) (shift (match_of g1) x w ns)"
      by blast
    show ?thesis
      using AugmentPath_spec [OF ok1(1,4,3) w(2,3) q1 ok1(2)] aug_path_client [OF w(2) ok1(4)] w(1,4) Some next_vtx
      by auto
  qed
  then obtain g2 where g2: "(case b of None \<Rightarrow> Some g1 | Some v \<Rightarrow> AugmentPath g1 (LV x) v) = Some g2" "lh_ok g2"
      "same_edges g1 g2" "queue_ok g2" "below_loads g2" "matched_set g2 = {k \<in> clients g1. k < x + 1}"
      "balanced (matched_set g2) (servers g1) (adj_of g1) (match_of g2)"
    by blast
  have "online_step x g = Some (unmark_queue g2)"
    using bfs(1) g2(1) by (simp add: online_step_def)
  moreover have "online_inv (x + 1) ((unmark_queue g2)\<lparr>g_Qsize := 0\<rparr>)" "same_edges g2 ((unmark_queue g2)\<lparr>g_Qsize := 0\<rparr>)"
    using online_unmark [OF g2(4,2,5), of "x + 1"] g2(6,7) same_edges_problem [OF g2(3)] by simp_all
  ultimately show ?thesis
    using same_edges_trans [OF same_edges_trans [OF e1 g2(3)]] by blast
qed

lemma online_step_Qsize: "online_step x (g\<lparr>g_Qsize := n\<rparr>) = online_step x g"
  by (simp add: online_step_def online_BFS_Qsize)

lemma online_steps:
  assumes "online_inv x (g\<lparr>g_Qsize := 0\<rparr>)" and "x + n = g_numLHSVtx g"
  shows "\<exists>g'. fold_opt online_step [x..<x + n] g = Some g' \<and> online_inv (x + n) (g'\<lparr>g_Qsize := 0\<rparr>) \<and>
    same_edges (g\<lparr>g_Qsize := 0\<rparr>) (g'\<lparr>g_Qsize := 0\<rparr>)"
  using assms
proof (induction n arbitrary: x g)
  case (Suc n)
  let ?h = "\<lambda>g. g\<lparr>g_Qsize := 0\<rparr>"
  have "x < g_numLHSVtx (?h g)"
    using Suc.prems(2) by simp
  from online_step_spec [OF Suc.prems(1) this] obtain g1 where
    g1: "online_step x g = Some g1" "online_inv (x + 1) (?h g1)" "same_edges (?h g) (?h g1)"
    by (auto simp: online_step_Qsize)
  have "g_numLHSVtx g1 = g_numLHSVtx g"
    using same_edges_nums [OF g1(3)] by simp
  then obtain g' where g': "fold_opt online_step [x + 1..<x + 1 + n] g1 = Some g'" "online_inv (x + 1 + n) (?h g')"
      "same_edges (?h g1) (?h g')"
    using Suc.IH [OF g1(2)] Suc.prems(2) by auto
  have "[x..<x + Suc n] = x # [x + 1..<x + 1 + n]"
    by (simp add: upt_conv_Cons)
  then show ?case
    using g1(1) g' same_edges_trans [OF g1(3) g'(3)] by simp
qed simp

lemma balanced_empty: "balanced {} V adj f"
  unfolding balanced_def by (auto simp: level_set_def load_of_def intro: exI [of _ "{}"])

lemma LHAlgOnline_spec:
  assumes ok: "lh_ok g" and empty: "matched_set g = {}" and none: "\<And>p. \<not> visited g p"
  shows "\<exists>g'. LHAlgOnline g = Some (LH_SUCCESS, g') \<and> lh_ok g' \<and> same_edges g g' \<and> matched_set g' = clients g \<and>
    balanced (clients g) (servers g) (adj_of g) (match_of g')"
proof -
  let ?h = "\<lambda>g. g\<lparr>g_Qsize := 0\<rparr>"
  let ?q = "InitializeQueue (g\<lparr>g_minRHSLoad := 0\<rparr>)"
  obtain m where m: "UpdateMinRHSLoad ?q = ?q\<lparr>g_minRHSLoad := m\<rparr>" "\<forall>j<g_numRHSVtx ?q. m \<le> vx_numMatched (deref ?q (RV j))"
    using UpdateMinRHSLoad_spec by blast
  let ?g = "?q\<lparr>g_minRHSLoad := m\<rparr>"
  have e: "same_edges g ?g" and num: "g_numLHSVtx ?g = g_numLHSVtx g"
    by (simp_all add: same_edges_def InitializeQueue_def)
  have mt: "lh_ok ?g = lh_ok g" "matched_set ?g = matched_set g" "match_of ?g = match_of g"
    by (rule same_matching [OF e]; simp add: InitializeQueue_def)+
  have vis: "\<not> visited ?g p" for p
    using none [of p] same_edges_vref_ok [OF e] by (simp add: visited_def InitializeQueue_def)
  then have "queue_ok ?g"
    unfolding queue_ok_def by (simp add: queue_of_def InitializeQueue_def)
  moreover have "below_loads ?g" and h: "?h ?g = ?g"
    using m(2) by (simp_all add: below_loads_def InitializeQueue_def)
  ultimately have "online_inv 0 (?h ?g)"
    using ok empty vis mt balanced_empty unfolding h by (simp add: online_inv_def InitializeQueue_def)
  from online_steps [OF this, of "g_numLHSVtx g"] obtain g1 where
    g1: "fold_opt online_step [0..<g_numLHSVtx g] ?g = Some g1" "online_inv (g_numLHSVtx g) (?h g1)" "same_edges (?h ?g) (?h g1)"
    using num by auto
  have run: "LHAlgOnline g = Some (LH_SUCCESS, DestroyQueue g1)"
    using g1(1) m(1) num by (simp add: LHAlgOnline_def Let_def)
  have s1: "same_edges g (?h g1)"
    using same_edges_trans [OF e] g1(3) unfolding h .
  have d: "same_edges (?h g1) (DestroyQueue g1)"
    by (simp add: same_edges_def DestroyQueue_def)
  have mt1: "lh_ok (DestroyQueue g1) = lh_ok (?h g1)" "matched_set (DestroyQueue g1) = matched_set (?h g1)"
      "match_of (DestroyQueue g1) = match_of (?h g1)"
    by (rule same_matching [OF d]; simp add: DestroyQueue_def)+
  have all: "{k \<in> clients g. k < g_numLHSVtx g} = clients g"
    by (auto simp: clients_def)
  show ?thesis
    using g1(2) run mt1 same_edges_trans [OF s1 d] same_edges_problem [OF s1] all
    by (intro exI [of _ "DestroyQueue g1"]) (auto simp: online_inv_def)
qed

end
