(* ===== verification/LH_Match.thy ===== *)
theory LH_Match
  imports LH_BFS_Correct LH_Online
begin

text \<open>
  The entry point \<^verbatim>\<open>LHFindLHMatching\<close> of \<^verbatim>\<open>lhmain.c\<close> over both algorithms, the states a client of the library can reach, and
  what the library promises: the matching found is optimal.
\<close>

section \<open>The code\<close>

definition LH_ALG_ONLINE :: int where
  "LH_ALG_ONLINE = 0"

definition LH_ALG_BFS :: int where
  "LH_ALG_BFS = 1"

definition LHFindLHMatching :: "Graph option \<Rightarrow> int \<Rightarrow> (lh_fault + int \<times> Graph option) option" where
  "LHFindLHMatching graph alg =
     (case CheckGraph graph of
        None \<Rightarrow> Some (Inr (LH_PARAM_ERR, graph))
      | Some g \<Rightarrow>
          let g = ClearAlgState g
          in if alg = LH_ALG_ONLINE then map_option (\<lambda>(err, g). Inr (err, Some g)) (LHAlgOnline g)
             else if alg = LH_ALG_BFS
             then map_option (\<lambda>r. case r of Inl ft \<Rightarrow> Inl ft | Inr (err, g) \<Rightarrow> Inr (err, Some g)) (LHAlgBFS g)
             else Some (Inr (LH_PARAM_ERR, Some g)))"

text \<open>
  \<^verbatim>\<open>GreedyAssignment\<close>, which nothing calls: it takes the first neighbour of a vertex without a test, so that a vertex
  without edges makes it follow a null pointer.
\<close>

fun greedy_all :: "nat list \<Rightarrow> Graph \<Rightarrow> lh_fault + Graph" where
  "greedy_all [] g = Inr g"
| "greedy_all (i # is) g =
     (if vx_adjList (deref g (LV i)) = [] \<or> vx_adjList (deref g (LV i)) ! 0 = None then Inl BAD_READ
      else greedy_all is (assign_to (LV i) (best_nbr g (LV i)) g))"

definition GreedyAssignment :: "Graph \<Rightarrow> lh_fault + Graph" where
  "GreedyAssignment g = greedy_all [0..<g_numLHSVtx g] g"

section \<open>Clearing the algorithms' state\<close>

lemma ClearAlgState_spec:
  shows "same_edges g (ClearAlgState g)" and "lh_ok (ClearAlgState g) = lh_ok g"
    and "matched_set (ClearAlgState g) = matched_set g" and "match_of (ClearAlgState g) = match_of g"
    and "\<not> visited (ClearAlgState g) p"
proof -
  let ?g = "ClearAlgState g"
  show same: "same_edges g ?g"
    by (auto simp: same_edges_def ClearAlgState_def foldl_store ClearVertex_def)
  show "lh_ok ?g = lh_ok g" "matched_set ?g = matched_set g" "match_of ?g = match_of g"
    by (rule same_matching [OF same]; simp add: ClearAlgState_def foldl_store ClearVertex_def)+
  show "\<not> visited ?g p"
    by (cases p) (auto simp: visited_def ClearAlgState_def foldl_store ClearVertex_def)
qed

section \<open>Optimal matchings\<close>

text \<open>
  No assignment of the vertices that have neighbours has a smaller cost, uses more right-hand vertices or has a smaller
  largest load.
\<close>

definition lh_optimal :: "Graph \<Rightarrow> (nat \<Rightarrow> nat) \<Rightarrow> bool" where
  "lh_optimal g f \<longleftrightarrow> assigns (clients g) (adj_of g) f \<and>
     (\<forall>h. assigns (clients g) (adj_of g) h \<longrightarrow>
        cost_of (clients g) (servers g) f \<le> cost_of (clients g) (servers g) h \<and>
        used_of (clients g) (servers g) h \<le> used_of (clients g) (servers g) f \<and>
        (\<forall>k. (\<forall>v\<in>servers g. load_of (clients g) h v \<le> k) \<longrightarrow> (\<forall>v\<in>servers g. load_of (clients g) f v \<le> k)))"

lemma balanced_optimal:
  assumes "balanced (clients g) (servers g) (adj_of g) f" and "assigns (clients g) (adj_of g) f"
  shows "lh_optimal g f"
  using assms lh.balanced_cost [OF assms(1)] lh.balanced_used [OF assms] lh.balanced_max_load [OF assms(1)]
  unfolding lh_optimal_def by blast

lemma match_assigns: "lh_ok g \<Longrightarrow> assigns (matched_set g) (adj_of g) (match_of g)"
  using matched_mem [of g] by (simp add: assigns_def lh_ok_def)

lemma found_optimal:
  assumes "lh_ok g'" and "same_edges g g'" and "matched_set g' = clients g"
    and "balanced (clients g) (servers g) (adj_of g) (match_of g')"
  shows "lh_optimal g (match_of g')"
  using balanced_optimal [OF assms(4)] match_assigns [OF assms(1)] same_edges_problem [OF assms(2)] assms(3) by simp

lemma edge_iff:
  assumes "graph_wf g"
  shows "clients g \<noteq> {} \<longleftrightarrow> (\<exists>j<g_numRHSVtx g. 0 < vx_degree (deref g (RV j)))"
proof
  assume "clients g \<noteq> {}"
  then obtain i where i: "i < g_numLHSVtx g" "nbrs g (LV i) \<noteq> []"
    using degree_pos_iff [OF assms] by (auto simp: clients_def)
  then obtain j where "j < g_numRHSVtx g" "LV i \<in> set (nbrs g (RV j))"
    using lhs_nbr [OF assms i(1), of "hd (nbrs g (LV i))"] by (metis hd_in_set)
  then show "\<exists>j<g_numRHSVtx g. 0 < vx_degree (deref g (RV j))"
    using vnbrs_degree by blast
next
  assume "\<exists>j<g_numRHSVtx g. 0 < vx_degree (deref g (RV j))"
  then obtain j where j: "j < g_numRHSVtx g" "nbrs g (RV j) \<noteq> []"
    using degree_pos_iff [OF assms] by auto
  then obtain i where "i < g_numLHSVtx g" "RV j \<in> set (nbrs g (LV i))"
    using rhs_nbr [OF assms j(1), of "hd (nbrs g (RV j))"] by (metis hd_in_set)
  then show "clients g \<noteq> {}"
    using vnbrs_degree by (auto simp: clients_def)
qed

lemma find_bfs:
  assumes ok: "lh_ok g" and edge: "clients g \<noteq> {}"
  shows "\<exists>g'. LHFindLHMatching (Some g) LH_ALG_BFS = Some (Inr (LH_SUCCESS, Some g')) \<and> lh_ok g' \<and> same_edges g g' \<and>
    matched_set g' = clients g \<and> lh_optimal g (match_of g')"
proof -
  have wf: "graph_wf g"
    using ok by (simp add: lh_ok_def)
  note c = ClearAlgState_spec [of g]
  note p = same_edges_problem [OF c(1)]
  have "\<exists>j<g_numRHSVtx (ClearAlgState g). 0 < vx_degree (deref (ClearAlgState g) (RV j))"
    using edge_iff [of "ClearAlgState g"] wf same_edges_wf [OF c(1)] p edge by simp
  then obtain g' where g': "LHAlgBFS (ClearAlgState g) = Some (Inr (LH_SUCCESS, g'))" "lh_ok g'" "same_edges (ClearAlgState g) g'"
      "matched_set g' = clients g" "balanced (clients g) (servers g) (adj_of g) (match_of g')"
    using LHAlgBFS_spec [of "ClearAlgState g"] ok c p by auto
  have s: "same_edges g g'"
    by (rule same_edges_trans [OF c(1) g'(3)])
  show ?thesis
    using g' s found_optimal [OF g'(2) s g'(4,5)]
    by (simp add: LHFindLHMatching_def CheckGraph_wf [OF wf] LH_ALG_ONLINE_def LH_ALG_BFS_def)
qed

lemma find_online:
  assumes ok: "lh_ok g" and empty: "matched_set g = {}"
  shows "\<exists>g'. LHFindLHMatching (Some g) LH_ALG_ONLINE = Some (Inr (LH_SUCCESS, Some g')) \<and> lh_ok g' \<and> same_edges g g' \<and>
    matched_set g' = clients g \<and> lh_optimal g (match_of g')"
proof -
  have wf: "graph_wf g"
    using ok by (simp add: lh_ok_def)
  note c = ClearAlgState_spec [of g]
  obtain g' where g': "LHAlgOnline (ClearAlgState g) = Some (LH_SUCCESS, g')" "lh_ok g'" "same_edges (ClearAlgState g) g'"
      "matched_set g' = clients g" "balanced (clients g) (servers g) (adj_of g) (match_of g')"
    using LHAlgOnline_spec [of "ClearAlgState g"] ok empty c same_edges_problem [OF c(1)] by auto
  have s: "same_edges g g'"
    by (rule same_edges_trans [OF c(1) g'(3)])
  show ?thesis
    using g' s found_optimal [OF g'(2) s g'(4,5)] by (simp add: LHFindLHMatching_def CheckGraph_wf [OF wf])
qed

lemma foldl_max_0: "\<forall>i\<in>set is. f i = (0::nat) \<Longrightarrow> foldl (\<lambda>m i. max m (f i)) 0 is = 0"
  by (induction "is") auto

lemma foldl_skip: "\<forall>i\<in>set is. \<not> P i \<Longrightarrow> (\<And>i. i \<in> set is \<Longrightarrow> \<not> P i \<Longrightarrow> f s i = s) \<Longrightarrow> foldl f s is = s"
  by (induction "is") auto

text \<open>Without an edge, the search for the largest load runs past the first bucket.\<close>

lemma LHAlgBFS_no_edges:
  assumes ok: "lh_ok g" and edge: "clients g = {}"
  shows "LHAlgBFS g = Some (Inl BAD_READ)"
proof -
  obtain g1 where g1: "OrderedGreedyAssignment g = Some g1" "lh_ok g1" "same_edges g g1" "matched_set g1 = {}"
    using OrderedGreedyAssignment_ok [OF ok] edge by auto
  let ?g2 = "InitializeBFS g1"
  note i = InitializeBFS_spec [of g1]
  have s: "same_edges g ?g2"
    by (rule same_edges_trans [OF g1(3) same_but_tree_edges [OF i(1)]])
  have deg: "vx_degree (deref ?g2 (RV j)) = 0" if "j < g_numRHSVtx ?g2" for j
    using that edge edge_iff [of ?g2] ok same_edges_wf [OF s] same_edges_problem(1) [OF s] by (auto simp: lh_ok_def)
  have num: "vx_numMatched (deref ?g2 (RV j)) = 0" if "j < g_numRHSVtx ?g2" for j
    using g1(2,4) same_but_tree_ok [OF i(1)] that by (simp add: lh_ok_def loads_exact_def load_of_def)
  have max: "foldl (\<lambda>m i. max m (vx_numMatched (deref ?g2 (RV i)))) 0 [0..<g_numRHSVtx ?g2] = 0"
    using num by (intro foldl_max_0) simp
  have "InitializeRHSBuckets ?g2 = ?g2\<lparr>g_maxRHSLoad := 0, g_Buckets := [None]\<rparr>"
    unfolding InitializeRHSBuckets_def Let_def max
    by (subst foldl_skip [where P = "\<lambda>_. False"]) (simp_all add: deg)
  moreover have "g_Qsize ?g2 = 0"
    by (simp add: InitializeBFS_def InitializeQueue_def)
  ultimately have "MainLoop (InitializeRHSBuckets ?g2) = Some (Inl BAD_READ)"
    by (subst MainLoop.simps) (simp add: unmark_queue_def DoFullScan_def)
  then show ?thesis
    using g1(1) by (simp add: LHAlgBFS_def)
qed

section \<open>The simple greedy assignment\<close>

lemma greedy_all_step:
  assumes ok: "lh_ok g" and i: "i \<in> clients g" "i \<notin> matched_set g"
  shows "greedy_all (i # is) g = greedy_all is (greedy_step g (LV i))"
proof -
  have iL: "i < g_numLHSVtx g" "0 < vx_degree (deref g (LV i))"
    using i by (simp_all add: clients_def)
  then have adj: "adj_ok (deref g (LV i))"
    using ok graph_wf_adj [of g "LV i"] by (simp add: lh_ok_def)
  let ?as = "vx_adjList (deref g (LV i))"
  have len: "0 < length (take (vx_degree (deref g (LV i))) ?as)"
    using adj iL(2) by (auto simp: adj_ok_def)
  then have "?as ! 0 \<in> set (take (vx_degree (deref g (LV i))) ?as)"
    using nth_mem [OF len] iL(2) by simp
  then have "?as ! 0 \<noteq> None"
    using adj unfolding adj_ok_def by metis
  moreover have "?as \<noteq> []"
    using len by auto
  moreover have "vx_matchedWith (deref g (LV i)) = None"
    using i(2) iL(1) by (simp add: matched_set_def)
  ultimately show ?thesis
    by (auto simp: greedy_step_def)
qed

lemma greedy_all_ok:
  assumes "lh_ok g" and "distinct is" and "set is \<subseteq> clients g" and "set is \<inter> matched_set g = {}"
  shows "\<exists>g'. greedy_all is g = Inr g' \<and> lh_ok g' \<and> same_edges g g' \<and> matched_set g' = set is \<union> matched_set g"
  using assms
proof (induction "is" arbitrary: g)
  case (Cons i "is")
  let ?g = "greedy_step g (LV i)"
  have i: "i \<in> clients g" "i \<notin> matched_set g"
    using Cons.prems by auto
  note st = greedy_step_ok [OF Cons.prems(1) i(1)]
  have "\<exists>g'. greedy_all is ?g = Inr g' \<and> lh_ok g' \<and> same_edges ?g g' \<and> matched_set g' = set is \<union> matched_set ?g"
    using Cons.prems st same_edges_problem(1) [OF st(2)] by (intro Cons.IH) auto
  then show ?case
    using st(3) same_edges_trans [OF st(2)] unfolding greedy_all_step [OF Cons.prems(1) i] by fastforce
qed simp

text \<open>It matches all left-hand vertices if each has a neighbour.\<close>

lemma GreedyAssignment_ok:
  assumes "lh_ok g" and "matched_set g = {}" and "clients g = {..<g_numLHSVtx g}"
  shows "\<exists>g'. GreedyAssignment g = Inr g' \<and> lh_ok g' \<and> same_edges g g' \<and> matched_set g' = clients g"
  using greedy_all_ok [OF assms(1), of "[0..<g_numLHSVtx g]"] assms(2,3) by (simp add: GreedyAssignment_def atLeast0LessThan)

section \<open>States a client can reach\<close>

text \<open>
  The graphs a client can reach that starts the algorithm of \<^verbatim>\<open>lhonline.c\<close> only on a graph without a matching; all other calls are
  allowed at any time, with any arguments. The library accepts \<^verbatim>\<open>LH_ALG_ONLINE\<close> on a graph with a matching too, and \<^verbatim>\<open>lhmatch.h\<close> says that it
  then starts from scratch. It does not: it adds to the counts of the matching it finds, see \<open>online_twice_overcounts\<close> below, and the default
  algorithm, which goes by the counts, need not find an optimal matching afterwards.
\<close>

inductive lh_reach :: "Graph \<Rightarrow> bool" where
  reach_create: "LHCreateGraph m n has_pGraph = (err, Some g) \<Longrightarrow> lh_reach g"
| reach_edge: "lh_reach g \<Longrightarrow> LHAddEdge (Some g) l r = (err, Some g') \<Longrightarrow> lh_reach g'"
| reach_match: "lh_reach g \<Longrightarrow> LHSetMatchingEdge (Some g) l r = (err, Some g') \<Longrightarrow> lh_reach g'"
| reach_clear: "lh_reach g \<Longrightarrow> LHClearMatching (Some g) = (err, Some g') \<Longrightarrow> lh_reach g'"
| reach_find: "lh_reach g \<Longrightarrow> alg = LH_ALG_ONLINE \<longrightarrow> matched_set g = {} \<Longrightarrow>
    LHFindLHMatching (Some g) alg = Some (Inr (err, Some g')) \<Longrightarrow> lh_reach g'"

lemma LHAddEdge_keeps:
  assumes ok: "lh_ok g" and run: "LHAddEdge (Some g) l r = (err, Some g')"
  shows "lh_ok g'"
proof (cases "0 \<le> l \<and> nat l < g_numLHSVtx g \<and> 0 \<le> r \<and> nat r < g_numRHSVtx g")
  case True
  have wf: "graph_wf g"
    using ok by (simp add: lh_ok_def)
  show ?thesis
    using run ok True LHAddEdge_eq [OF wf, of "nat l" "nat r"] add_edge_ok(1) [OF ok, of "nat l" "nat r"]
    by (auto split: if_splits)
next
  case False
  then show ?thesis
    using run ok by (auto simp: LHAddEdge_def CheckGraph_wf lh_ok_def Let_def split: if_splits)
qed

lemma LHSetMatchingEdge_keeps:
  assumes ok: "lh_ok g" and run: "LHSetMatchingEdge (Some g) l r = (err, Some g')"
  shows "lh_ok g'"
proof (cases "err = LH_SUCCESS")
  case True
  then show ?thesis
    using LHSetMatchingEdge_ok(1) [OF ok] run by simp
next
  case False
  then show ?thesis
    using run ok by (auto simp: LHSetMatchingEdge_def CheckGraph_wf lh_ok_def Let_def split: if_splits)
qed

lemma LHFindLHMatching_keeps:
  assumes ok: "lh_ok g" and online: "alg = LH_ALG_ONLINE \<longrightarrow> matched_set g = {}"
    and run: "LHFindLHMatching (Some g) alg = Some (Inr (err, Some g'))"
  shows "lh_ok g'"
proof -
  note c = ClearAlgState_spec [of g]
  consider "alg = LH_ALG_ONLINE" | "alg = LH_ALG_BFS" "clients g \<noteq> {}" | "alg = LH_ALG_BFS" "clients g = {}"
    | "alg \<noteq> LH_ALG_ONLINE" "alg \<noteq> LH_ALG_BFS"
    by blast
  then show ?thesis
  proof cases
    case 1
    then show ?thesis
      using find_online [OF ok] online run by auto
  next
    case 2
    then show ?thesis
      using find_bfs [OF ok] run by auto
  next
    case 3
    then have "LHAlgBFS (ClearAlgState g) = Some (Inl BAD_READ)"
      using LHAlgBFS_no_edges [of "ClearAlgState g"] ok c same_edges_problem(1) [OF c(1)] by simp
    then show ?thesis
      using run 3 ok by (simp add: LHFindLHMatching_def CheckGraph_wf lh_ok_def LH_ALG_ONLINE_def LH_ALG_BFS_def)
  next
    case 4
    then show ?thesis
      using run ok c(2) by (auto simp: LHFindLHMatching_def CheckGraph_wf lh_ok_def Let_def)
  qed
qed

lemma lh_reach_lh_ok: "lh_reach g \<Longrightarrow> lh_ok g"
proof (induction rule: lh_reach.induct)
  case (reach_create m n has_pGraph err g)
  then have "0 < m" "0 < n" "has_pGraph"
    by (auto simp: LHCreateGraph_def split: if_splits)
  with reach_create show ?case
    using LHCreateGraph_ok [of m n] by auto
next
  case (reach_clear g err g')
  then show ?case
    using LHClearMatching_ok [of g] by (auto simp: lh_ok_def)
qed (auto intro: LHAddEdge_keeps LHSetMatchingEdge_keeps LHFindLHMatching_keeps)

section \<open>Statistics\<close>

lemma degree_sum:
  assumes wf: "graph_wf g"
  shows "(\<Sum>j<g_numRHSVtx g. vx_degree (deref g (RV j))) = card {(i, j). i < g_numLHSVtx g \<and> j \<in> adj_of g i}"
proof -
  have "vx_degree (deref g (RV j)) = card {i. i < g_numLHSVtx g \<and> j \<in> adj_of g i}" if j: "j < g_numRHSVtx g" for j
  proof -
    have adj: "adj_ok (deref g (RV j))"
      using graph_wf_adj [OF wf] j by simp
    have sub: "set (nbrs g (RV j)) \<subseteq> LV ` {..<g_numLHSVtx g}"
      and iff: "\<And>i. i < g_numLHSVtx g \<Longrightarrow> RV j \<in> set (nbrs g (LV i)) \<longleftrightarrow> LV i \<in> set (nbrs g (RV j))"
      using wf j by (simp_all add: graph_wf_def)
    have "set (nbrs g (RV j)) = LV ` {i. i < g_numLHSVtx g \<and> LV i \<in> set (nbrs g (RV j))}"
      using sub by blast
    also have "{i. i < g_numLHSVtx g \<and> LV i \<in> set (nbrs g (RV j))} = {i. i < g_numLHSVtx g \<and> j \<in> adj_of g i}"
      using iff j by (auto simp: adj_of_def)
    finally have "set (nbrs g (RV j)) = LV ` {i. i < g_numLHSVtx g \<and> j \<in> adj_of g i}" .
    then have "card {i. i < g_numLHSVtx g \<and> j \<in> adj_of g i} = card (set (nbrs g (RV j)))"
      by (simp add: card_image inj_on_def)
    then show ?thesis
      using length_vnbrs [OF adj] adj distinct_card by (metis adj_ok_def)
  qed
  then have "(\<Sum>j<g_numRHSVtx g. vx_degree (deref g (RV j))) =
      (\<Sum>j<g_numRHSVtx g. card {i. i < g_numLHSVtx g \<and> j \<in> adj_of g i})"
    by simp
  also have "\<dots> = card (SIGMA j:{..<g_numRHSVtx g}. {i. i < g_numLHSVtx g \<and> j \<in> adj_of g i})"
    by (simp add: card_SigmaI)
  also have "\<dots> = card (prod.swap ` (SIGMA j:{..<g_numRHSVtx g}. {i. i < g_numLHSVtx g \<and> j \<in> adj_of g i}))"
    by (simp add: card_image)
  also have "prod.swap ` (SIGMA j:{..<g_numRHSVtx g}. {i. i < g_numLHSVtx g \<and> j \<in> adj_of g i}) =
      {(i, j). i < g_numLHSVtx g \<and> j \<in> adj_of g i}"
    by (force simp: adj_of_def)
  finally show ?thesis .
qed

lemma int32_add: "int32 (int32 a + b) = int32 (a + b)"
  unfolding int32_def by (metis signed_take_bit_add signed_take_bit_signed_take_bit min.idem)

lemma int32_id: "0 \<le> a \<Longrightarrow> a < 2 ^ 31 \<Longrightarrow> int32 a = a"
  unfolding int32_def by (rule signed_take_bit_int_eq_self) simp_all

lemma stats_fold:
  "foldl (stat_step g) (0, 0, 0, 0) [0..<n] =
    (int32 (\<Sum>j<n. int (vx_degree (deref g (RV j)))), int (card {j. j < n \<and> 0 < vx_numMatched (deref g (RV j))}),
     int32 (\<Sum>j<n. int (vx_numMatched (deref g (RV j)))),
     int32 (\<Sum>j<n. int32 (int (vx_numMatched (deref g (RV j))) * int32 (int (vx_numMatched (deref g (RV j))) + 1)) div 2))"
proof (induction n)
  case (Suc n)
  have "{j. j < Suc n \<and> 0 < vx_numMatched (deref g (RV j))} =
      (if 0 < vx_numMatched (deref g (RV n)) then insert n {j. j < n \<and> 0 < vx_numMatched (deref g (RV j))}
       else {j. j < n \<and> 0 < vx_numMatched (deref g (RV j))})"
    by (auto simp: less_Suc_eq)
  with Suc show ?case
    by (simp add: stat_step_def Let_def int32_add)
qed (simp add: int32_def)

text \<open>A load up to 46340 has a cost that fits, and so has the sum.\<close>

lemma int32_cost:
  assumes "n \<le> 46340"
  shows "int32 (int n * int32 (int n + 1)) div 2 = int (n * (n + 1) div 2)"
proof -
  have "n * (n + 1) \<le> 46340 * 46341"
    using assms by (intro mult_le_mono) simp_all
  then have "int (n * (n + 1)) \<le> int (46340 * 46341)"
    by (simp only: of_nat_le_iff)
  then have "int32 (int (n * (n + 1))) = int (n * (n + 1))"
    by (intro int32_id) simp_all
  moreover have "int32 (int n + 1) = int n + 1"
    using assms by (intro int32_id) simp_all
  moreover have "int (n * (n + 1)) = int n * (int n + 1)"
    by (simp add: algebra_simps)
  ultimately show ?thesis
    by (metis of_nat_numeral zdiv_int)
qed

text \<open>A larger one does not: the cost becomes negative.\<close>

lemma stat_step_overflow:
  "vx_numMatched (deref g (RV j)) = 46341 \<Longrightarrow> snd (snd (snd (stat_step g (0, 0, 0, 0) j))) = - 1073716337"
  by (simp add: stat_step_def Let_def int32_def)

lemma triangle_super: "(\<Sum>j\<in>A. c j * (c j + 1) div 2) \<le> (\<Sum>j\<in>A. c j) * ((\<Sum>j\<in>A. c j) + 1) div (2::nat)" if "finite A"
  using that
proof (induction A rule: finite_induct)
  case (insert x A)
  let ?s = "\<Sum>j\<in>A. c j"
  have "c x * (c x + 1) div 2 + ?s * (?s + 1) div 2 = (c x * (c x + 1) + ?s * (?s + 1)) div 2"
    by (rule div_plus_div_distrib_dvd_left [symmetric]) simp
  also have "\<dots> \<le> (c x + ?s) * (c x + ?s + 1) div 2"
    by (intro div_le_mono) (simp add: algebra_simps)
  finally show ?case
    using insert by simp
qed simp

interpretation lhm: assignment_problem "matched_set g" "servers g" "adj_of g" for g
  by unfold_locales (auto simp: servers_def adj_of_def)

lemma cost_bound:
  assumes ok: "lh_ok g"
  shows "cost_of (matched_set g) (servers g) (match_of g) \<le> g_numLHSVtx g * (g_numLHSVtx g + 1) div 2"
    and "card (matched_set g) \<le> g_numLHSVtx g"
proof -
  have "card (matched_set g) \<le> card {..<g_numLHSVtx g}"
    by (rule card_mono) (auto simp: matched_set_def)
  then show n: "card (matched_set g) \<le> g_numLHSVtx g"
    by simp
  have "cost_of (matched_set g) (servers g) (match_of g) \<le> card (matched_set g) * (card (matched_set g) + 1) div 2"
    using triangle_super [of "servers g" "load_of (matched_set g) (match_of g)"] lhm.load_total [OF match_assigns [OF ok]]
    by (simp add: cost_of_def servers_def)
  also have "\<dots> \<le> g_numLHSVtx g * (g_numLHSVtx g + 1) div 2"
    using n by (intro div_le_mono mult_le_mono) simp_all
  finally show "cost_of (matched_set g) (servers g) (match_of g) \<le> g_numLHSVtx g * (g_numLHSVtx g + 1) div 2" .
qed

lemma edge_bound: "card {(i, j). i < g_numLHSVtx g \<and> j \<in> adj_of g i} \<le> g_numLHSVtx g * g_numRHSVtx g"
proof -
  have "card {(i, j). i < g_numLHSVtx g \<and> j \<in> adj_of g i} \<le> card ({..<g_numLHSVtx g} \<times> {..<g_numRHSVtx g})"
    by (rule card_mono) (auto simp: adj_of_def)
  then show ?thesis
    by (simp add: card_cartesian_product)
qed

lemma stats_ok:
  assumes ok: "lh_ok g" and small: "g_numLHSVtx g \<le> 46340" "g_numLHSVtx g * g_numRHSVtx g < 2 ^ 31"
  shows "LHGetStatistics (Some g) (Some s) = (LH_SUCCESS, Some
    \<lparr>st_numEdges = int (card {(i, j). i < g_numLHSVtx g \<and> j \<in> adj_of g i}),
     st_numMatchingEdges = int (card (matched_set g)),
     st_matchingCost = int (cost_of (matched_set g) (servers g) (match_of g)),
     st_bipMatchingSize = int (used_of (matched_set g) (servers g) (match_of g))\<rparr>)"
proof -
  have wf: "graph_wf g"
    using ok by (simp add: lh_ok_def)
  let ?l = "load_of (matched_set g) (match_of g)"
  let ?n = "\<lambda>j. vx_numMatched (deref g (RV j))"
  have num: "?n j = ?l j" if "j < g_numRHSVtx g" for j
    using ok that by (simp add: lh_ok_def loads_exact_def)
  have "?l j \<le> g_numLHSVtx g" for j
    using load_of_le [OF finite_matched_set, of g "match_of g" j] cost_bound(2) [OF ok] by linarith
  then have "?n j \<le> 46340" if "j < g_numRHSVtx g" for j
    using num [OF that] small(1) order.trans by metis
  then have c: "(\<Sum>j<g_numRHSVtx g. int32 (int (?n j) * int32 (int (?n j) + 1)) div 2) =
      int (cost_of (matched_set g) (servers g) (match_of g))"
    using num by (simp add: int32_cost cost_of_def servers_def)
  have m: "(\<Sum>j<g_numRHSVtx g. int (?n j)) = int (card (matched_set g))"
    using lhm.load_total [OF match_assigns [OF ok]] num by (simp add: servers_def flip: of_nat_sum)
  have u: "{j. j < g_numRHSVtx g \<and> 0 < ?n j} = {v \<in> servers g. 0 < ?l v}"
    using num by (auto simp: servers_def)
  have "g_numLHSVtx g * (g_numLHSVtx g + 1) div 2 \<le> 46340 * 46341 div 2"
    using small(1) by (intro div_le_mono mult_le_mono) simp_all
  then have "int32 (int (cost_of (matched_set g) (servers g) (match_of g))) = int (cost_of (matched_set g) (servers g) (match_of g))"
    using cost_bound(1) [OF ok] by (intro int32_id) simp_all
  moreover have "int32 (int (card (matched_set g))) = int (card (matched_set g))"
    using cost_bound(2) [OF ok] small(1) by (intro int32_id) simp_all
  moreover have "(\<Sum>j<g_numRHSVtx g. int (vx_degree (deref g (RV j)))) = int (card {(i, j). i < g_numLHSVtx g \<and> j \<in> adj_of g i})"
    using degree_sum [OF wf] by (simp flip: of_nat_sum)
  moreover have "int32 (int (card {(i, j). i < g_numLHSVtx g \<and> j \<in> adj_of g i})) = int (card {(i, j). i < g_numLHSVtx g \<and> j \<in> adj_of g i})"
    using edge_bound [of g] small(2) by (intro int32_id) simp_all
  ultimately show ?thesis
    by (simp add: LHGetStatistics_def CheckGraph_wf [OF wf] stats_fold used_of_def c m u)
qed

lemma matched_read:
  assumes ok: "lh_ok g" and i: "i \<in> matched_set g"
  shows "LHGetMatchedVtx (Some g) (int i) = int (match_of g i)"
proof -
  have wf: "graph_wf g" and il: "i < g_numLHSVtx g"
    using ok i by (simp_all add: lh_ok_def matched_set_def)
  obtain p where p: "vx_matchedWith (deref g (LV i)) = Some p"
    using i by (auto simp: matched_set_def)
  then have "p \<in> set (nbrs g (LV i))"
    using ok il by (simp add: lh_ok_def match_wf_def)
  moreover have "set (nbrs g (LV i)) \<subseteq> RV ` {..<g_numRHSVtx g}"
    using wf il by (simp add: graph_wf_def)
  ultimately obtain j where j: "p = RV j" "j < g_numRHSVtx g"
    by auto
  then have "vx_id (deref g p) = j + g_numLHSVtx g"
    using wf by (simp add: graph_wf_def)
  then show ?thesis
    using p il j by (simp add: LHGetMatchedVtx_def CheckGraph_wf [OF wf] match_of_def)
qed

section \<open>Reading neighbours\<close>

lemma get_nbr_left:
  assumes wf: "graph_wf g" and i: "i < g_numLHSVtx g" and k: "k < length (nbrs g (LV i))" and j: "nbrs g (LV i) ! k = RV j"
  shows "LHGetNeighbour (Some g) (int i) True (int k) = int j"
proof -
  have adj: "adj_ok (deref g (LV i))"
    using graph_wf_adj [OF wf] i by simp
  have "j < g_numRHSVtx g"
    using lhs_nbr [OF wf i, of "RV j"] nth_mem [OF k] j by auto
  moreover have "the (vx_adjList (deref g (LV i)) ! k) = RV j"
    using k j by (simp add: vnbrs_def)
  ultimately show ?thesis
    using wf i k length_vnbrs [OF adj]
    by (simp add: LHGetNeighbour_def LHGetDegree_def CheckGraph_wf [OF wf] Let_def graph_wf_def)
qed

lemma get_nbr_right:
  assumes wf: "graph_wf g" and j: "j < g_numRHSVtx g" and k: "k < length (nbrs g (RV j))" and i: "nbrs g (RV j) ! k = LV i"
  shows "LHGetNeighbour (Some g) (int j) False (int k) = int i"
proof -
  have adj: "adj_ok (deref g (RV j))"
    using graph_wf_adj [OF wf] j by simp
  have "i < g_numLHSVtx g"
    using rhs_nbr [OF wf j, of "LV i"] nth_mem [OF k] i by auto
  moreover have "the (vx_adjList (deref g (RV j)) ! k) = LV i"
    using k i by (simp add: vnbrs_def)
  ultimately show ?thesis
    using wf j k length_vnbrs [OF adj]
    by (simp add: LHGetNeighbour_def LHGetDegree_def CheckGraph_wf [OF wf] Let_def graph_wf_def)
qed

lemma get_degree:
  assumes wf: "graph_wf g"
  shows "i < g_numLHSVtx g \<Longrightarrow> LHGetDegree (Some g) (int i) True = int (length (nbrs g (LV i)))"
    and "j < g_numRHSVtx g \<Longrightarrow> LHGetDegree (Some g) (int j) False = int (length (nbrs g (RV j)))"
  using length_vnbrs [OF graph_wf_adj [OF wf]] by (simp_all add: LHGetDegree_def CheckGraph_wf [OF wf])

lemma edge_read_back:
  assumes ok: "lh_ok g" and i: "i < g_numLHSVtx g" and j: "j < g_numRHSVtx g" and new: "RV j \<notin> set (nbrs g (LV i))"
  defines "g' \<equiv> store (RV j) (with_nbr (LV i)) (store (LV i) (with_nbr (RV j)) g)"
  shows "LHGetNeighbour (Some g') (int i) True (LHGetDegree (Some g) (int i) True) = int j"
    and "LHGetNeighbour (Some g') (int j) False (LHGetDegree (Some g) (int j) False) = int i"
    and "LHAddEdge (Some g') (int i) (int j) = (LH_EDGE_EXISTS, Some g')"
proof -
  have wf: "graph_wf g" and wf': "graph_wf g'"
    using ok add_edge_ok(1) [OF ok i j new] by (simp_all add: lh_ok_def g'_def)
  note nb = add_edge_nbrs(1) [OF wf i j new, folded g'_def]
  have nums: "i < g_numLHSVtx g'" "j < g_numRHSVtx g'"
    using i j by (simp_all add: g'_def)
  show "LHGetNeighbour (Some g') (int i) True (LHGetDegree (Some g) (int i) True) = int j"
    unfolding get_degree(1) [OF wf i] by (rule get_nbr_left [OF wf' nums(1)]) (simp_all add: nb)
  show "LHGetNeighbour (Some g') (int j) False (LHGetDegree (Some g) (int j) False) = int i"
    unfolding get_degree(2) [OF wf j] by (rule get_nbr_right [OF wf' nums(2)]) (simp_all add: nb)
  show "LHAddEdge (Some g') (int i) (int j) = (LH_EDGE_EXISTS, Some g')"
    using LHAddEdge_eq [OF wf' nums] by (simp add: nb)
qed

section \<open>Properties\<close>

text \<open>A small graph built through the interface, for the examples below: two vertices on each side, two edges.\<close>

definition lh_small :: Graph where
  "lh_small = the (snd (LHAddEdge (snd (LHAddEdge (snd (LHCreateGraph 2 2 True)) 0 0)) 1 0))"

lemma LHAddEdge_Some: "\<exists>g'. snd (LHAddEdge (Some g) l r) = Some g'"
  by (simp add: LHAddEdge_def Let_def split: option.split)

lemma lh_small_reach: "lh_reach lh_small"
proof -
  obtain g where "LHCreateGraph 2 2 True = (LH_SUCCESS, Some g)"
    using LHCreateGraph_ok [of 2 2] by auto
  moreover obtain g1 where "snd (LHAddEdge (Some g) 0 0) = Some g1"
    using LHAddEdge_Some by blast
  moreover obtain g2 where "snd (LHAddEdge (Some g1) 1 0) = Some g2"
    using LHAddEdge_Some by blast
  ultimately show ?thesis
    unfolding lh_small_def by (metis option.sel prod.collapse snd_conv reach_create reach_edge)
qed

lemma lh_small_vertices:
  "g_numLHSVtx lh_small = 2 \<and> vx_degree (deref lh_small (LV 0)) = 1 \<and> vx_matchedWith (deref lh_small (LV 0)) = None \<and>
    vx_matchedWith (deref lh_small (LV 1)) = None"
  by code_simp

lemma lh_small_nums: "g_numLHSVtx lh_small = 2" "g_numRHSVtx lh_small = 2"
  by code_simp+

lemma lh_small_clients: "clients lh_small \<noteq> {}"
  using lh_small_vertices by (auto simp: clients_def intro: exI [of _ 0])

lemma lh_small_unmatched: "matched_set lh_small = {}"
proof -
  have "vx_matchedWith (deref lh_small (LV i)) = None" if "i < 2" for i
    using lh_small_vertices that by (cases "i = 0") (auto simp: less_2_cases_iff)
  then show ?thesis
    using lh_small_vertices by (simp add: matched_set_def)
qed

text \<open>C3. For every graph with an edge that a client can build which runs \<^verbatim>\<open>LHOnline\<close> only on graphs without a matching
  (\<open>lh_reach\<close>), and whatever matching such a graph has, the default
  algorithm ends, changes nothing but the matching, matches exactly the left-hand vertices that have a neighbour, keeps the
  loads exact, and its matching is optimal: no assignment has a smaller cost, uses more
  right-hand vertices or has a smaller largest load. \<^verbatim>\<open>LHOnline\<close> on a graph with a matching leaves wrong counts, on which the default
  algorithm relies, see \<open>online_twice_overcounts\<close>.\<close>

theorem find_bfs_optimal:
  assumes "lh_reach g" and "clients g \<noteq> {}"
  shows "\<exists>g'. LHFindLHMatching (Some g) LH_ALG_BFS = Some (Inr (LH_SUCCESS, Some g')) \<and> lh_ok g' \<and> same_edges g g' \<and>
    matched_set g' = clients g \<and> lh_optimal g (match_of g')"
  by (rule find_bfs [OF lh_reach_lh_ok [OF assms(1)] assms(2)])

theorem find_bfs_optimal_witness:
  "\<exists>g'. LHFindLHMatching (Some lh_small) LH_ALG_BFS = Some (Inr (LH_SUCCESS, Some g')) \<and> lh_optimal lh_small (match_of g')"
  using find_bfs_optimal [OF lh_small_reach lh_small_clients] by blast

text \<open>C7. On a graph without a matching, with or without edges, the algorithm of \<^verbatim>\<open>lhonline.c\<close> ends with an optimal
  matching of the left-hand vertices that have a neighbour.\<close>

theorem find_online_optimal:
  assumes "lh_reach g" and "matched_set g = {}"
  shows "\<exists>g'. LHFindLHMatching (Some g) LH_ALG_ONLINE = Some (Inr (LH_SUCCESS, Some g')) \<and> lh_ok g' \<and> same_edges g g' \<and>
    matched_set g' = clients g \<and> lh_optimal g (match_of g')"
  by (rule find_online [OF lh_reach_lh_ok [OF assms(1)] assms(2)])

theorem find_online_optimal_witness:
  "\<exists>g'. LHFindLHMatching (Some lh_small) LH_ALG_ONLINE = Some (Inr (LH_SUCCESS, Some g')) \<and> lh_optimal lh_small (match_of g')"
  using find_online_optimal [OF lh_small_reach lh_small_unmatched] by blast

text \<open>C27. Every graph reached by calls of the library, of which \<^verbatim>\<open>LHOnline\<close> is only run on graphs without a matching (\<open>lh_reach\<close>), is
  well formed: the adjacency lists of both sides agree and hold no edge twice,
  the matching uses edges only, and \<^verbatim>\<open>numMatched\<close> of a right-hand vertex is the number of vertices matched with it. \<^verbatim>\<open>LHOnline\<close> on a graph
  with a matching makes the counts wrong, see \<open>online_twice_overcounts\<close>.\<close>

theorem lh_reach_ok: "lh_reach g \<Longrightarrow> lh_ok g"
  by (rule lh_reach_lh_ok)

theorem lh_reach_ok_witness: "lh_ok lh_small"
  by (rule lh_reach_ok [OF lh_small_reach])

text \<open>C28. The statistics after the default algorithm, on graphs with at most 46340 left-hand vertices and fewer than \<open>2 ^ 31\<close> pairs of
  a left-hand and a right-hand vertex, for a client as in C3: the number of edges, the number of left-hand vertices that have a neighbour
  (all are matched), the cost of the matching found, and the number of right-hand vertices it uses. That matching can be read with
  \<^verbatim>\<open>LHGetMatchedVtx\<close> and is optimal, so the cost is the least and the number of vertices used the largest of all assignments.\<close>

theorem statistics_after_bfs:
  assumes "lh_reach g" and "clients g \<noteq> {}" and "g_numLHSVtx g \<le> 46340" and "g_numLHSVtx g * g_numRHSVtx g < 2 ^ 31"
  shows "\<exists>g'. LHFindLHMatching (Some g) LH_ALG_BFS = Some (Inr (LH_SUCCESS, Some g')) \<and>
    LHGetStatistics (Some g') (Some s) = (LH_SUCCESS, Some
      \<lparr>st_numEdges = int (card {(i, j). i < g_numLHSVtx g \<and> j \<in> adj_of g i}),
       st_numMatchingEdges = int (card (clients g)),
       st_matchingCost = (\<Sum>j<g_numRHSVtx g. let n = int (card {i \<in> clients g. match_of g' i = j}) in n * (n + 1) div 2),
       st_bipMatchingSize = int (card {j. j < g_numRHSVtx g \<and> (\<exists>i\<in>clients g. match_of g' i = j)})\<rparr>) \<and>
    (\<forall>i\<in>clients g. LHGetMatchedVtx (Some g') (int i) = int (match_of g' i)) \<and> lh_optimal g (match_of g')"
proof -
  obtain g' where g': "LHFindLHMatching (Some g) LH_ALG_BFS = Some (Inr (LH_SUCCESS, Some g'))" "lh_ok g'" "same_edges g g'"
      "matched_set g' = clients g" "lh_optimal g (match_of g')"
    using find_bfs [OF lh_reach_lh_ok [OF assms(1)] assms(2)] by blast
  note nums = same_edges_nums [OF g'(3)] and prob = same_edges_problem [OF g'(3)]
  have read: "LHGetMatchedVtx (Some g') (int i) = int (match_of g' i)" if "i \<in> clients g" for i
    using matched_read [OF g'(2)] that g'(4) by simp
  have cost: "int (cost_of (clients g) (servers g) f) =
      (\<Sum>j<g_numRHSVtx g. let n = int (card {i \<in> clients g. f i = j}) in n * (n + 1) div 2)" for f
    by (simp add: cost_of_def load_of_def servers_def Let_def zdiv_int algebra_simps)
  have fin: "finite (clients g)"
    by (simp add: clients_def)
  have used: "used_of (clients g) (servers g) f = card {j. j < g_numRHSVtx g \<and> (\<exists>i\<in>clients g. f i = j)}" for f
    unfolding used_of_def servers_def load_of_def using fin by (intro arg_cong [where f = card]) (auto simp: card_gt_0_iff)
  have "LHGetStatistics (Some g') (Some s) = (LH_SUCCESS, Some
      \<lparr>st_numEdges = int (card {(i, j). i < g_numLHSVtx g \<and> j \<in> adj_of g i}),
       st_numMatchingEdges = int (card (clients g)),
       st_matchingCost = int (cost_of (clients g) (servers g) (match_of g')),
       st_bipMatchingSize = int (used_of (clients g) (servers g) (match_of g'))\<rparr>)"
    using stats_ok [OF g'(2), of s] assms(3,4) g'(4) nums prob by simp
  then show ?thesis
    using g'(1,5) read unfolding cost used by blast
qed

theorem statistics_after_bfs_witness:
  "\<exists>g' st. LHFindLHMatching (Some lh_small) LH_ALG_BFS = Some (Inr (LH_SUCCESS, Some g')) \<and>
    LHGetStatistics (Some g') (Some \<lparr>st_numEdges = 0, st_numMatchingEdges = 0, st_matchingCost = 0, st_bipMatchingSize = 0\<rparr>) =
      (LH_SUCCESS, Some st) \<and> st_numMatchingEdges st = int (card (clients lh_small)) \<and>
    st_bipMatchingSize st = int (card {j. j < 2 \<and> (\<exists>i\<in>clients lh_small. match_of g' i = j)})"
  using statistics_after_bfs [OF lh_small_reach lh_small_clients, unfolded lh_small_nums, simplified,
      of "\<lparr>st_numEdges = 0, st_numMatchingEdges = 0, st_matchingCost = 0, st_bipMatchingSize = 0\<rparr>"] by auto

text \<open>C29. On a graph without edges the default algorithm reads in front of the array of buckets: all buckets are
  empty, and the loop that lowers the largest load has no other bound.\<close>

theorem find_bfs_without_edges:
  assumes "lh_reach g" and "clients g = {}"
  shows "LHFindLHMatching (Some g) LH_ALG_BFS = Some (Inl BAD_READ)"
proof -
  have ok: "lh_ok g"
    by (rule lh_reach_lh_ok [OF assms(1)])
  note c = ClearAlgState_spec [of g]
  have "LHAlgBFS (ClearAlgState g) = Some (Inl BAD_READ)"
    using LHAlgBFS_no_edges [of "ClearAlgState g"] ok c same_edges_problem(1) [OF c(1)] assms(2) by simp
  then show ?thesis
    using ok by (simp add: LHFindLHMatching_def CheckGraph_wf lh_ok_def LH_ALG_ONLINE_def LH_ALG_BFS_def)
qed

theorem find_bfs_without_edges_witness:
  "\<exists>g. LHCreateGraph 1 1 True = (LH_SUCCESS, Some g) \<and> LHFindLHMatching (Some g) LH_ALG_BFS = Some (Inl BAD_READ)"
proof -
  obtain g where g: "LHCreateGraph 1 1 True = (LH_SUCCESS, Some g)" "lh_ok g" "adj_of g = (\<lambda>_. {})"
    using LHCreateGraph_ok [of 1 1] by auto
  then have "clients g = {}"
    by (auto simp: LHCreateGraph_def clients_def zero_Vertex_def)
  then show ?thesis
    using g(1) find_bfs_without_edges [OF reach_create [OF g(1)]] by blast
qed

definition online_twice :: "(int \<times> int) option" where
  "online_twice =
     (case LHFindLHMatching (snd (LHAddEdge (snd (LHCreateGraph 1 1 True)) 0 0)) LH_ALG_ONLINE of
        Some (Inr (_, graph)) \<Rightarrow>
          (case LHFindLHMatching graph LH_ALG_ONLINE of
             Some (Inr (err, graph)) \<Rightarrow> Some (err, LHGetMatchedDegree graph 0)
           | _ \<Rightarrow> None)
      | _ \<Rightarrow> None)"

text \<open>The algorithm of \<^verbatim>\<open>lhonline.c\<close> does not start from scratch: run twice on a graph of one edge, it reports two
  left-hand vertices matched with the only right-hand vertex.\<close>

theorem online_twice_overcounts: "online_twice = Some (LH_SUCCESS, 2)"
  by code_simp

text \<open>C30. A new edge can be read back on both sides at the position after the old neighbours, and adding it again is
  refused and changes nothing.\<close>

theorem add_edge_read_back:
  assumes "lh_reach g" and "LHAddEdge (Some g) l r = (LH_SUCCESS, Some g')"
  shows "LHGetNeighbour (Some g') l True (LHGetDegree (Some g) l True) = r \<and>
    LHGetNeighbour (Some g') r False (LHGetDegree (Some g) r False) = l \<and>
    LHAddEdge (Some g') l r = (LH_EDGE_EXISTS, Some g')"
proof -
  have ok: "lh_ok g" and wf: "graph_wf g"
    using lh_reach_lh_ok [OF assms(1)] by (simp_all add: lh_ok_def)
  have lr: "0 \<le> l" "nat l < g_numLHSVtx g" "0 \<le> r" "nat r < g_numRHSVtx g"
    using assms(2) by (auto simp: LHAddEdge_def CheckGraph_wf [OF wf] LH_codes split: if_splits)
  have new: "RV (nat r) \<notin> set (nbrs g (LV (nat l)))"
    and g': "g' = store (RV (nat r)) (with_nbr (LV (nat l))) (store (LV (nat l)) (with_nbr (RV (nat r))) g)"
    using assms(2) lr LHAddEdge_eq [OF wf lr(2,4)] by (auto simp: LH_codes split: if_splits)
  show ?thesis
    using edge_read_back [OF ok lr(2,4) new] lr(1,3) unfolding g' by simp
qed

theorem add_edge_read_back_witness:
  "\<exists>g'. LHAddEdge (Some lh_small) 1 1 = (LH_SUCCESS, Some g') \<and>
    LHGetNeighbour (Some g') 1 True (LHGetDegree (Some lh_small) 1 True) = 1"
proof -
  have "fst (LHAddEdge (Some lh_small) 1 1) = LH_SUCCESS"
    by code_simp
  then obtain g' where "LHAddEdge (Some lh_small) 1 1 = (LH_SUCCESS, Some g')"
    using LHAddEdge_Some [of lh_small 1 1] by (metis prod.collapse)
  then show ?thesis
    using add_edge_read_back [OF lh_small_reach] by blast
qed

text \<open>An edge put into the matching can be read back, the graph keeps its edges, and the loads stay exact.\<close>

theorem set_matching_edge_read_back:
  assumes "lh_reach g" and "LHSetMatchingEdge (Some g) l r = (LH_SUCCESS, Some g')"
  shows "LHGetMatchedVtx (Some g') l = r \<and> same_edges g g' \<and> lh_ok g'"
proof -
  have ok: "lh_ok g" and wf: "graph_wf g"
    using lh_reach_lh_ok [OF assms(1)] by (simp_all add: lh_ok_def)
  note s = LHSetMatchingEdge_ok [OF ok assms(2)]
  have wf': "graph_wf g'" and nums: "g_numLHSVtx g' = g_numLHSVtx g" "g_numRHSVtx g' = g_numRHSVtx g"
    using s(1) same_edges_nums [OF s(2)] by (simp_all add: lh_ok_def)
  have r: "0 \<le> r" "nat r < g_numRHSVtx g"
    using assms(2) by (auto simp: LHSetMatchingEdge_def CheckGraph_wf [OF wf] LH_codes split: if_splits)
  then have "vx_id (deref g' (RV (nat r))) = nat r + g_numLHSVtx g"
    using wf' nums by (simp add: graph_wf_def)
  moreover have "l < int (g_numLHSVtx g)"
    using s(3,4) by linarith
  ultimately show ?thesis
    using s r nums by (simp add: LHGetMatchedVtx_def CheckGraph_wf [OF wf'])
qed

theorem set_matching_edge_read_back_witness:
  "\<exists>g'. LHSetMatchingEdge (Some lh_small) 1 0 = (LH_SUCCESS, Some g') \<and> LHGetMatchedVtx (Some g') 1 = 0"
proof -
  have "fst (LHSetMatchingEdge (Some lh_small) 1 0) = LH_SUCCESS" "snd (LHSetMatchingEdge (Some lh_small) 1 0) \<noteq> None"
    by code_simp+
  then obtain g' where "LHSetMatchingEdge (Some lh_small) 1 0 = (LH_SUCCESS, Some g')"
    by (metis option.collapse prod.collapse)
  then show ?thesis
    using set_matching_edge_read_back [OF lh_small_reach] by blast
qed

end
