(* ===== verification/DN_Chars.thy ===== *)
theory DN_Chars
  imports Topl_Prelude
begin

text \<open>
  Characters, keys and separators of string names: the first part of \<^verbatim>\<open>ntdsa/src/parsedn.c\<close>, in the build with
  \<^verbatim>\<open>CLIENT_SIDE_DN_PARSING\<close> (the library \<^verbatim>\<open>util/parsedn\<close>). A wide character is a number below \<open>2 ^ 16\<close>. A pointer into a name is
  an index into the memory that starts at the name; the memory goes on behind the name and its terminator.
  What the code calls from Windows is a parameter, the record \<open>dn_env\<close>.
\<close>

section \<open>Characters\<close>

type_synonym WCHAR = nat

type_synonym wstring = "WCHAR list"

type_synonym GUID = "128 word"

record dn_env =
  e_MAX_RDN_SIZE :: nat
  e_CompareStringW :: "wstring \<Rightarrow> wstring \<Rightarrow> bool"
  e_Utf8ToWide :: "nat list \<Rightarrow> nat \<Rightarrow> wstring"
  e_UuidToStringW :: "GUID \<Rightarrow> wstring option"
  e_UuidFromStringW :: "wstring \<Rightarrow> GUID option"

datatype direrr = DIRERR_NAME_UNPARSEABLE | DIRERR_NAME_TYPE_UNKNOWN

abbreviation (input) ch_nl :: WCHAR where "ch_nl \<equiv> 10"
abbreviation (input) ch_cr :: WCHAR where "ch_cr \<equiv> 13"
abbreviation (input) ch_space :: WCHAR where "ch_space \<equiv> 32"
abbreviation (input) ch_quote :: WCHAR where "ch_quote \<equiv> 34"
abbreviation (input) ch_hash :: WCHAR where "ch_hash \<equiv> 35"
abbreviation (input) ch_comma :: WCHAR where "ch_comma \<equiv> 44"
abbreviation (input) ch_semi :: WCHAR where "ch_semi \<equiv> 59"
abbreviation (input) ch_eq :: WCHAR where "ch_eq \<equiv> 61"
abbreviation (input) ch_bs :: WCHAR where "ch_bs \<equiv> 92"

definition wch :: "wstring \<Rightarrow> nat \<Rightarrow> WCHAR" where
  "wch s p = (if p < length s then s ! p else 0)"

definition wstr :: "string \<Rightarrow> wstring" where
  "wstr cs = map of_char cs"

text \<open>The table of special characters, as the source writes it.\<close>

definition isspecial :: "nat list" where
  "isspecial =
   [ 0, 0, 0, 0, 0, 0, 0, 0, 0, 0,
     1, 0, 0, 1, 0, 0, 0, 0, 0, 0,
     0, 0, 0, 0, 0, 0, 0, 0, 0, 0,
     0, 0, 0, 0, 1, 1, 0, 0, 0, 0,
     0, 0, 0, 1, 1, 0, 0, 0, 0, 0,
     0, 0, 0, 0, 0, 0, 0, 0, 0, 1,
     1, 1, 1, 0, 0, 0, 0, 0, 0, 0,
     0, 0, 0, 0, 0, 0, 0, 0, 0, 0,
     0, 0, 0, 0, 0, 0, 0, 0, 0, 0,
     0, 0, 1, 0, 0, 0, 0, 0, 0, 0,
     0, 0, 0, 0, 0, 0, 0, 0, 0, 0,
     0, 0, 0, 0, 0, 0, 0, 0, 0, 0,
     0, 0, 0, 0, 0, 0, 0, 0 ]"

definition ISSPECIAL :: "WCHAR \<Rightarrow> bool" where
  "ISSPECIAL cc = (if cc \<ge> 128 then False else isspecial ! cc \<noteq> 0)"

definition IsDNSepChar :: "WCHAR \<Rightarrow> bool" where
  "IsDNSepChar x \<longleftrightarrow> x = ch_comma \<or> x = ch_semi"

text \<open>The characters the comment of the table lists are those of the table.\<close>

lemma special_table: "list_all (\<lambda>c. (isspecial ! c \<noteq> 0) = (c \<in> {10, 13, 34, 35, 43, 44, 59, 60, 61, 62, 92})) [0..<128]"
  by code_simp

lemma ISSPECIAL_iff: "ISSPECIAL c \<longleftrightarrow> c \<in> {10, 13, 34, 35, 43, 44, 59, 60, 61, 62, 92}"
proof (cases "c < 128")
  case True
  then have "c \<in> set [0..<128]"
    by simp
  then show ?thesis
    using special_table True unfolding list_all_iff ISSPECIAL_def by auto
next
  case False
  then show ?thesis
    by (auto simp: ISSPECIAL_def)
qed

section \<open>Escaped characters\<close>

text \<open>
  The number of escape characters directly in front of a position, counted back; \<open>None\<close> if they reach the start of the
  string.
\<close>

fun count_escapes :: "wstring \<Rightarrow> nat \<Rightarrow> nat \<Rightarrow> nat option" where
  "count_escapes s pBase 0 = None"
| "count_escapes s pBase (Suc p) =
     (if Suc p \<le> pBase then None
      else if wch s p = ch_bs then map_option Suc (count_escapes s pBase p) else Some 0)"

definition unescaped_at :: "wstring \<Rightarrow> nat \<Rightarrow> nat \<Rightarrow> bool" where
  "unescaped_at s pBase p = (case count_escapes s pBase p of None \<Rightarrow> False | Some numEscapes \<Rightarrow> even numEscapes)"

definition IsUnescapedDNSepChar :: "wstring \<Rightarrow> nat \<Rightarrow> nat \<Rightarrow> bool" where
  "IsUnescapedDNSepChar s pBase pCurrent = (IsDNSepChar (wch s pCurrent) \<and> unescaped_at s pBase pCurrent)"

definition IsUnescapedChar :: "wstring \<Rightarrow> nat \<Rightarrow> nat \<Rightarrow> WCHAR \<Rightarrow> bool" where
  "IsUnescapedChar s pBase pCurrent CharToCheck = (wch s pCurrent = CharToCheck \<and> unescaped_at s pBase pCurrent)"

section \<open>The next separator\<close>

text \<open>Reading stops at the end of the memory at the latest, which reads as a null character.\<close>

function skip_spaces :: "wstring \<Rightarrow> nat \<Rightarrow> nat" where
  "skip_spaces s p = (if wch s p = ch_space \<or> wch s p = ch_nl then skip_spaces s (p + 1) else p)"
  by pat_completeness auto

termination
  by (relation "measure (\<lambda>(s, p). length s - p)") (auto simp: wch_def split: if_splits)

declare skip_spaces.simps [simp del]

text \<open>\<open>pEnd\<close> is one behind \<^verbatim>\<open>pLastChar\<close>.\<close>

function step_loop :: "wstring \<Rightarrow> nat \<Rightarrow> nat \<Rightarrow> bool \<Rightarrow> nat option \<Rightarrow> direrr + nat \<times> nat option" where
  "step_loop s pEnd p inQuote pEqualSign =
     (if p < pEnd
      then
        if wch s p = ch_quote then step_loop s pEnd (p + 1) (\<not> inQuote) pEqualSign
        else if wch s p = ch_bs
        then if p + 1 \<ge> pEnd then Inl DIRERR_NAME_UNPARSEABLE else step_loop s pEnd (p + 2) inQuote pEqualSign
        else if wch s p = ch_comma \<or> wch s p = ch_semi
        then if inQuote then step_loop s pEnd (p + 1) inQuote pEqualSign else Inr (p, pEqualSign)
        else if wch s p = ch_eq
        then step_loop s pEnd (p + 1) inQuote (if inQuote then pEqualSign else Some p)
        else if wch s p = 0
        then if inQuote then step_loop s pEnd (p + 1) inQuote pEqualSign else Inl DIRERR_NAME_UNPARSEABLE
        else step_loop s pEnd (p + 1) inQuote pEqualSign
      else if inQuote then Inl DIRERR_NAME_UNPARSEABLE else Inr (p, pEqualSign))"
  by pat_completeness auto

termination
  by (relation "measure (\<lambda>(s, pEnd, p, inQuote, pEqualSign). pEnd - p)") auto

declare step_loop.simps [simp del]

definition StepToNextDNSep :: "wstring \<Rightarrow> nat \<Rightarrow> nat \<Rightarrow> direrr + nat \<times> nat \<times> nat option" where
  "StepToNextDNSep s pString pEnd =
     (let p = (if wch s pString = ch_comma \<or> wch s pString = ch_semi then pString + 1 else pString);
          p = skip_spaces s p
      in case step_loop s pEnd p False None of
           Inl err \<Rightarrow> Inl err
         | Inr (pNextSep, pEqualSign) \<Rightarrow> Inr (pNextSep, p, pEqualSign))"

section \<open>Keys\<close>

definition ATT_COMMON_NAME :: nat where "ATT_COMMON_NAME = 0x3"
definition ATT_COUNTRY_NAME :: nat where "ATT_COUNTRY_NAME = 0x6"
definition ATT_LOCALITY_NAME :: nat where "ATT_LOCALITY_NAME = 0x7"
definition ATT_STATE_OR_PROVINCE_NAME :: nat where "ATT_STATE_OR_PROVINCE_NAME = 0x8"
definition ATT_STREET_ADDRESS :: nat where "ATT_STREET_ADDRESS = 0x9"
definition ATT_ORGANIZATION_NAME :: nat where "ATT_ORGANIZATION_NAME = 0xa"
definition ATT_ORGANIZATIONAL_UNIT_NAME :: nat where "ATT_ORGANIZATIONAL_UNIT_NAME = 0xb"
definition ATT_DOMAIN_COMPONENT :: nat where "ATT_DOMAIN_COMPONENT = 0x150019"

lemmas ATT_defs = ATT_COMMON_NAME_def ATT_COUNTRY_NAME_def ATT_LOCALITY_NAME_def ATT_STATE_OR_PROVINCE_NAME_def
  ATT_STREET_ADDRESS_def ATT_ORGANIZATION_NAME_def ATT_ORGANIZATIONAL_UNIT_NAME_def ATT_DOMAIN_COMPONENT_def

text \<open>The key that is copied to the output; the empty key stands for the return value 0.\<close>

definition AttrTypeToKeyLame :: "nat \<Rightarrow> wstring" where
  "AttrTypeToKeyLame attrtyp =
     (if attrtyp = ATT_COMMON_NAME then wstr ''CN''
      else if attrtyp = ATT_LOCALITY_NAME then wstr ''L''
      else if attrtyp = ATT_STATE_OR_PROVINCE_NAME then wstr ''ST''
      else if attrtyp = ATT_STREET_ADDRESS then wstr ''STREET''
      else if attrtyp = ATT_ORGANIZATION_NAME then wstr ''O''
      else if attrtyp = ATT_ORGANIZATIONAL_UNIT_NAME then wstr ''OU''
      else if attrtyp = ATT_COUNTRY_NAME then wstr ''C''
      else if attrtyp = ATT_DOMAIN_COMPONENT then wstr ''DC''
      else [])"

definition AttrTypeToKey :: "nat \<Rightarrow> wstring" where
  "AttrTypeToKey attrtyp = AttrTypeToKeyLame attrtyp"

definition KeyToAttrTypeLame :: "dn_env \<Rightarrow> wstring \<Rightarrow> nat" where
  "KeyToAttrTypeLame env pKey =
     (if pKey = [] then 0
      else
        let cc = length (dropWhile (\<lambda>c. c = ch_space) (rev pKey)); c = pKey ! 0
        in if c = of_char CHR ''C'' \<or> c = of_char CHR ''c''
           then if cc = 2 \<and> (pKey ! 1 = of_char CHR ''N'' \<or> pKey ! 1 = of_char CHR ''n'') then ATT_COMMON_NAME
                else if cc = 1 then ATT_COUNTRY_NAME else 0
           else if c = of_char CHR ''D'' \<or> c = of_char CHR ''d''
           then if cc = 2 \<and> (pKey ! 1 = of_char CHR ''C'' \<or> pKey ! 1 = of_char CHR ''c'') then ATT_DOMAIN_COMPONENT
                else 0
           else if c = of_char CHR ''O'' \<or> c = of_char CHR ''o''
           then if cc = 2 \<and> (pKey ! 1 = of_char CHR ''U'' \<or> pKey ! 1 = of_char CHR ''u'') then ATT_ORGANIZATIONAL_UNIT_NAME
                else if cc = 1 then ATT_ORGANIZATION_NAME else 0
           else if c = of_char CHR ''S'' \<or> c = of_char CHR ''s''
           then if cc = 2 \<and> (pKey ! 1 = of_char CHR ''T'' \<or> pKey ! 1 = of_char CHR ''t'') then ATT_STATE_OR_PROVINCE_NAME
                else if cc = 6 \<and> e_CompareStringW env (take cc pKey) (wstr ''STREET'') then ATT_STREET_ADDRESS else 0
           else if c = of_char CHR ''L'' \<or> c = of_char CHR ''l''
           then if cc = 1 then ATT_LOCALITY_NAME else 0
           else 0)"

text \<open>The attribute types with a well-known key.\<close>

definition known_types :: "nat set" where
  "known_types = {ATT_COMMON_NAME, ATT_COUNTRY_NAME, ATT_LOCALITY_NAME, ATT_STATE_OR_PROVINCE_NAME, ATT_STREET_ADDRESS,
     ATT_ORGANIZATION_NAME, ATT_ORGANIZATIONAL_UNIT_NAME, ATT_DOMAIN_COMPONENT}"

definition key_char :: "WCHAR \<Rightarrow> bool" where
  "key_char c \<longleftrightarrow> \<not> ISSPECIAL c \<and> c \<noteq> 0 \<and> c \<noteq> ch_space"

lemma AttrTypeToKey_nonempty: "AttrTypeToKey t \<noteq> [] \<longleftrightarrow> t \<in> known_types"
  by (simp add: AttrTypeToKey_def AttrTypeToKeyLame_def known_types_def wstr_def)

lemma AttrTypeToKey_chars: "\<forall>c\<in>set (AttrTypeToKey t). key_char c"
  by (auto simp: AttrTypeToKey_def AttrTypeToKeyLame_def wstr_def key_char_def ISSPECIAL_iff)

lemma key_roundtrip:
  assumes "t \<in> known_types" and "e_CompareStringW env (wstr ''STREET'') (wstr ''STREET'')"
  shows "KeyToAttrTypeLame env (AttrTypeToKey t) = t"
  using assms unfolding known_types_def
  by (auto simp: AttrTypeToKey_def AttrTypeToKeyLame_def KeyToAttrTypeLame_def wstr_def ATT_defs)

end
