(* ===== verification/DN_Quote.thy ===== *)
theory DN_Quote
  imports DN_Chars
begin

text \<open>
  Quoting of values in string names, \<^verbatim>\<open>QuoteRDNValue\<close> and \<^verbatim>\<open>UnquoteRDNValue\<close> of \<^verbatim>\<open>ntdsa/src/parsedn.c\<close>: special characters are
  escaped with a backslash, line ends as hexadecimal pairs, a space at either end with a backslash. Unquoting
  also accepts values in quotation marks and hexadecimal BER strings.
\<close>

section \<open>Quoting\<close>

text \<open>The output buffer, the position of the next character and \<^verbatim>\<open>iBufLeft\<close>. Positions behind the buffer are counted but not written.\<close>

type_synonym qstate = "wstring \<times> nat \<times> int"

definition put :: "WCHAR \<Rightarrow> qstate \<Rightarrow> qstate" where
  "put c = (\<lambda>(buf, q, left). if left > 0 then (buf[q := c], q, left - 1) else (buf, q, left))"

definition next_pos :: "qstate \<Rightarrow> qstate" where
  "next_pos = (\<lambda>(buf, q, left). (buf, q + 1, left))"

fun copy_plain :: "wstring \<Rightarrow> qstate \<Rightarrow> qstate option" where
  "copy_plain [] st = Some st"
| "copy_plain (c # cs) st = (if c = 0 \<or> ISSPECIAL c then None else copy_plain cs (next_pos (put c st)))"

definition quote_char :: "qstate \<Rightarrow> WCHAR \<Rightarrow> qstate" where
  "quote_char st c =
     (let st = (if ISSPECIAL c then next_pos (put ch_bs st) else st);
          st = (if c = ch_nl \<or> c = ch_cr
                then
                  let st = (if snd (snd st) > 0 then next_pos (put (of_char CHR ''0'') st) else st)
                  in put (if c = ch_nl then of_char CHR ''A'' else of_char CHR ''D'') st
                else put c st)
      in next_pos st)"

definition end_string :: "qstate \<Rightarrow> nat \<times> wstring" where
  "end_string = (\<lambda>(buf, q, left). (q, if left > 0 then buf[q := 0] else buf))"

definition full_quote :: "wstring \<Rightarrow> wstring \<Rightarrow> nat \<times> wstring" where
  "full_quote pVal pQuote =
     (let left = int (length pQuote);
          (cs, st) = (if pVal ! 0 = ch_space \<and> left > 1 \<and> length pVal > 1
                      then (tl pVal, (pQuote[0 := ch_bs, 1 := ch_space], 2, left - 2))
                      else (pVal, (pQuote, 0, left)));
          (buf, q, left) = foldl quote_char st cs;
          st = (if last cs = ch_space
                then (if left > 0 then (buf[q - 1 := ch_bs, q := ch_space], q + 1, left - 1) else (buf, q + 1, left))
                else (buf, q, left))
      in end_string st)"

definition QuoteRDNValue :: "wstring \<Rightarrow> wstring \<Rightarrow> nat \<times> wstring" where
  "QuoteRDNValue pVal pQuote =
     (if pVal = [] then (0, pQuote)
      else if pVal ! 0 = ch_space \<or> last pVal = ch_space then full_quote pVal pQuote
      else case copy_plain pVal (pQuote, 0, int (length pQuote)) of
             None \<Rightarrow> full_quote pVal pQuote
           | Some st \<Rightarrow> (length pVal, snd (end_string st)))"

section \<open>Unquoting\<close>

definition iswxdigit :: "WCHAR \<Rightarrow> bool" where
  "iswxdigit c \<longleftrightarrow> 48 \<le> c \<and> c \<le> 57 \<or> 65 \<le> c \<and> c \<le> 70 \<or> 97 \<le> c \<and> c \<le> 102"

definition hex_value :: "WCHAR \<Rightarrow> nat" where
  "hex_value c = (if c \<le> 57 then c - 48 else if c \<le> 70 then c - 55 else c - 87)"

definition is_blank :: "WCHAR \<Rightarrow> bool" where
  "is_blank c \<longleftrightarrow> c = ch_space \<or> c = ch_nl \<or> c = ch_cr"

text \<open>
  The position in the quoted value is \<open>u\<close>, which \<^verbatim>\<open>pQCur\<close> follows; the value read so far is \<open>val\<close>. \<open>None\<close> is the return value 0.
\<close>

function lead_blanks :: "wstring \<Rightarrow> nat \<Rightarrow> nat \<Rightarrow> nat \<Rightarrow> nat option" where
  "lead_blanks s pQuote ccQuote u =
     (if is_blank (wch s (pQuote + u))
      then if u + 1 > ccQuote then None else lead_blanks s pQuote ccQuote (u + 1)
      else Some u)"
  by pat_completeness auto

termination
  by (relation "measure (\<lambda>(s, pQuote, ccQuote, u). ccQuote - u)") auto

declare lead_blanks.simps [simp del]

function unquote_quoted :: "dn_env \<Rightarrow> wstring \<Rightarrow> nat \<Rightarrow> nat \<Rightarrow> nat \<Rightarrow> wstring \<Rightarrow> (nat \<times> wstring) option" where
  "unquote_quoted env s pQuote ccQuote u val =
     (let esc = (wch s (pQuote + u) = ch_bs); u' = (if esc then u + 1 else u)
      in if esc \<and> u' > ccQuote then None
         else if length val = e_MAX_RDN_SIZE env then None
         else if u' + 1 > ccQuote then None
         else
           let val = val @ [wch s (pQuote + u')]
           in if wch s (pQuote + (u' + 1)) \<noteq> ch_quote then unquote_quoted env s pQuote ccQuote (u' + 1) val
              else Some (u' + 1, val))"
  by pat_completeness auto

termination
  by (relation "measure (\<lambda>(env, s, pQuote, ccQuote, u, val). ccQuote - u)") (auto split: if_splits)

declare unquote_quoted.simps [simp del]

function hex_bytes :: "wstring \<Rightarrow> nat \<Rightarrow> nat \<Rightarrow> nat \<Rightarrow> nat list \<Rightarrow> nat list option" where
  "hex_bytes s pQuote ccQuote u bs =
     (if u < ccQuote
      then
        if u = ccQuote - 1 then None
        else
          let a = wch s (pQuote + u); b = wch s (pQuote + (u + 1))
          in if iswxdigit a \<and> iswxdigit b then hex_bytes s pQuote ccQuote (u + 2) (bs @ [hex_value a * 16 + hex_value b])
             else None
      else Some bs)"
  by pat_completeness auto

termination
  by (relation "measure (\<lambda>(s, pQuote, ccQuote, u, bs). ccQuote - u)") auto

declare hex_bytes.simps [simp del]

text \<open>The BER string in the bytes: the tag 4, a length in one or up to five bytes, and the UTF-8 characters.\<close>

definition ber_string :: "dn_env \<Rightarrow> nat list \<Rightarrow> wstring" where
  "ber_string env bs =
     (if length bs < 3 then []
      else if bs ! 0 \<noteq> 4 then []
      else
        let bs = tl bs
        in if hd bs \<ge> 128
           then
             let bytesInLen = hd bs mod 128; bs = tl bs
             in if bytesInLen = 0 \<or> bytesInLen > length bs \<or> bytesInLen > 4 then []
                else
                  let unencodedLen = foldl (\<lambda>n b. n * 256 + b) 0 (take bytesInLen bs); bs = drop bytesInLen bs
                  in if bs = [] \<or> length bs \<noteq> unencodedLen then [] else e_Utf8ToWide env bs (e_MAX_RDN_SIZE env)
           else
             let unencodedLen = hd bs; bs = tl bs
             in if bs = [] \<or> length bs \<noteq> unencodedLen then [] else e_Utf8ToWide env bs (e_MAX_RDN_SIZE env))"

function unquote_normal :: "dn_env \<Rightarrow> wstring \<Rightarrow> nat \<Rightarrow> nat \<Rightarrow> nat \<Rightarrow> wstring \<Rightarrow> wstring option" where
  "unquote_normal env s pQuote ccQuote u val =
     (let c = wch s (pQuote + u); d = wch s (pQuote + (u + 1)); e = wch s (pQuote + (u + 2));
          r = (if c = ch_bs
               then
                 if u + 1 < ccQuote \<and> (ISSPECIAL d \<or> d = ch_space \<and> (u + 1 = 1 \<or> u + 1 = ccQuote - 1))
                 then if length val = e_MAX_RDN_SIZE env then None else Some (u + 2, d)
                 else if u + 2 < ccQuote \<and> iswxdigit d \<and> iswxdigit e
                 then if length val = e_MAX_RDN_SIZE env then None else Some (u + 3, hex_value d * 16 + hex_value e)
                 else None
               else if length val = e_MAX_RDN_SIZE env \<or> ISSPECIAL c \<and> c \<noteq> ch_hash then None
               else Some (u + 1, c))
      in case r of
           None \<Rightarrow> None
         | Some (u', c) \<Rightarrow> if u' < ccQuote then unquote_normal env s pQuote ccQuote u' (val @ [c]) else Some (val @ [c]))"
  by pat_completeness auto

termination
  by (relation "measure (\<lambda>(env, s, pQuote, ccQuote, u, val). ccQuote - u)") (auto split: if_splits)

declare unquote_normal.simps [simp del]

text \<open>The value copied to the output; the empty value stands for the return value 0.\<close>

definition UnquoteRDNValue :: "dn_env \<Rightarrow> wstring \<Rightarrow> nat \<Rightarrow> nat \<Rightarrow> wstring" where
  "UnquoteRDNValue env s pQuote ccQuote =
     (if ccQuote = 0 then []
      else case lead_blanks s pQuote ccQuote 0 of
        None \<Rightarrow> []
      | Some u \<Rightarrow>
          if wch s (pQuote + u) = ch_quote
          then
            if u + 1 > ccQuote then []
            else (case unquote_quoted env s pQuote ccQuote (u + 1) [] of
                    None \<Rightarrow> []
                  | Some (u, val) \<Rightarrow> if list_all (\<lambda>i. is_blank (wch s (pQuote + i))) [u + 1..<ccQuote] then val else [])
          else if wch s (pQuote + u) = ch_hash
          then (case hex_bytes s pQuote ccQuote (u + 1) [] of None \<Rightarrow> [] | Some bs \<Rightarrow> ber_string env bs)
          else (case unquote_normal env s pQuote ccQuote u [] of None \<Rightarrow> [] | Some val \<Rightarrow> val))"

section \<open>The quoted form of a value\<close>

definition esc :: "WCHAR \<Rightarrow> wstring" where
  "esc c = (if c = ch_nl then [ch_bs, 48, 65] else if c = ch_cr then [ch_bs, 48, 68]
     else if ISSPECIAL c then [ch_bs, c] else [c])"

definition esc_last :: "wstring \<Rightarrow> wstring" where
  "esc_last v = (if last v = ch_space then concat (map esc (butlast v)) @ [ch_bs, ch_space] else concat (map esc v))"

definition plain :: "wstring \<Rightarrow> bool" where
  "plain v \<longleftrightarrow> hd v \<noteq> ch_space \<and> last v \<noteq> ch_space \<and> (\<forall>c\<in>set v. c \<noteq> 0 \<and> \<not> ISSPECIAL c)"

definition quoted :: "wstring \<Rightarrow> wstring" where
  "quoted v =
     (if plain v then v
      else if hd v = ch_space \<and> length v > 1 then [ch_bs, ch_space] @ esc_last (tl v)
      else esc_last v)"

lemma esc_length: "0 < length (esc c)" "length (esc c) \<le> 3"
  by (simp_all add: esc_def)

text \<open>A state in which everything fitted so far: \<open>w\<close> is written and \<open>r\<close> is left.\<close>

definition fits :: "wstring \<Rightarrow> wstring \<Rightarrow> qstate" where
  "fits w r = (w @ r, length w, int (length r))"

lemma put_fits: "next_pos (put c (fits w (x # r))) = fits (w @ [c]) r"
  by (simp add: fits_def put_def next_pos_def)

lemma fits_left: "snd (snd (fits w (x # r))) > 0"
  by (simp add: fits_def)

lemma ISSPECIAL_nl [simp]: "ISSPECIAL ch_nl" "ISSPECIAL ch_cr"
  by (simp_all add: ISSPECIAL_iff)

lemma quote_char_fits:
  assumes "length (esc c) \<le> length r"
  shows "quote_char (fits w r) c = fits (w @ esc c) (drop (length (esc c)) r)"
proof -
  have nl: "ISSPECIAL ch_nl" "ISSPECIAL ch_cr"
    by (simp_all add: ISSPECIAL_iff)
  consider "c = ch_nl" | "c = ch_cr" | "c \<noteq> ch_nl" "c \<noteq> ch_cr" "ISSPECIAL c" | "\<not> ISSPECIAL c"
    by blast
  then show ?thesis
  proof cases
    case 1
    then obtain x y z t where "r = x # y # z # t"
      using assms by (auto simp: esc_def Suc_le_length_iff numeral_3_eq_3)
    then show ?thesis
      using 1 nl by (simp add: quote_char_def esc_def Let_def put_fits fits_left)
  next
    case 2
    then obtain x y z t where "r = x # y # z # t"
      using assms by (auto simp: esc_def Suc_le_length_iff numeral_3_eq_3)
    then show ?thesis
      using 2 nl by (simp add: quote_char_def esc_def Let_def put_fits fits_left)
  next
    case 3
    then obtain x y t where "r = x # y # t"
      using assms by (auto simp: esc_def Suc_le_length_iff numeral_2_eq_2)
    then show ?thesis
      using 3 by (simp add: quote_char_def esc_def Let_def put_fits)
  next
    case 4
    then have "c \<noteq> ch_nl" "c \<noteq> ch_cr"
      using nl by auto
    then obtain x t where "r = x # t"
      using assms 4 by (cases r) (auto simp: esc_def)
    then show ?thesis
      using 4 \<open>c \<noteq> ch_nl\<close> \<open>c \<noteq> ch_cr\<close> by (simp add: quote_char_def esc_def Let_def put_fits)
  qed
qed

lemma quote_chars_fit:
  assumes "length (concat (map esc cs)) \<le> length r"
  shows "foldl quote_char (fits w r) cs = fits (w @ concat (map esc cs)) (drop (length (concat (map esc cs))) r)"
  using assms
proof (induction cs arbitrary: w r)
  case (Cons c cs)
  then have "length (esc c) \<le> length r"
    by simp
  from quote_char_fits [OF this, of w] Cons.IH [of "drop (length (esc c)) r" "w @ esc c"] Cons.prems show ?case
    by (simp add: add.commute)
qed simp

text \<open>A state in which something did not fit: nothing is left, and the count is larger than the buffer.\<close>

definition overflown :: "nat \<Rightarrow> qstate \<Rightarrow> bool" where
  "overflown n st \<longleftrightarrow> length (fst st) = n \<and> snd (snd st) = 0 \<and> n < fst (snd st)"

lemma quote_char_overflow:
  assumes "length (esc c) > length r"
  shows "overflown (length w + length r) (quote_char (fits w r) c)"
proof -
  consider "r = []" | x where "r = [x]" "ISSPECIAL c" | x y where "r = [x, y]" "c = ch_nl \<or> c = ch_cr"
  proof (cases r)
    case (Cons x t)
    then show thesis
      using assms that(2,3) by (cases t) (auto simp: esc_def split: if_splits)
  qed simp
  then show ?thesis
  proof cases
    case 1
    then show ?thesis
      by (auto simp: quote_char_def Let_def fits_def put_def next_pos_def overflown_def)
  next
    case 2
    then show ?thesis
      by (auto simp: quote_char_def Let_def fits_def put_def next_pos_def overflown_def)
  next
    case 3
    then have "ISSPECIAL c"
      by (auto simp: ISSPECIAL_iff)
    with 3 show ?thesis
      by (auto simp: quote_char_def Let_def fits_def put_def next_pos_def overflown_def)
  qed
qed

lemma quote_char_overflown: "overflown n st \<Longrightarrow> overflown n (quote_char st c)"
  by (cases st) (auto simp: quote_char_def Let_def put_def next_pos_def overflown_def)

lemma quote_chars_overflow:
  assumes "length (concat (map esc cs)) > length r"
  shows "overflown (length w + length r) (foldl quote_char (fits w r) cs)"
  using assms
proof (induction cs arbitrary: w r)
  case (Cons c cs)
  show ?case
  proof (cases "length (esc c) \<le> length r")
    case True
    then have "length (w @ esc c) + length (drop (length (esc c)) r) = length w + length r"
      by simp
    then show ?thesis
      using Cons.IH [of "drop (length (esc c)) r" "w @ esc c"] Cons.prems quote_char_fits [OF True, of w] True
      by (metis append_assoc concat.simps(2) foldl.simps(2) length_append length_drop less_diff_conv2 list.simps(9) add.commute)
  next
    case False
    then have "overflown (length w + length r) (quote_char (fits w r) c)"
      by (intro quote_char_overflow) simp
    then have "overflown (length w + length r) (foldl quote_char (quote_char (fits w r) c) cs)" for cs
      by (induction cs rule: rev_induct) (auto intro: quote_char_overflown)
    then show ?thesis
      by simp
  qed
qed simp

text \<open>The code after the loop: the trailing space and the terminator.\<close>

definition trail :: "bool \<Rightarrow> qstate \<Rightarrow> qstate" where
  "trail sp = (\<lambda>(buf, q, left). if sp then (if left > 0 then (buf[q - 1 := ch_bs, q := ch_space], q + 1, left - 1)
     else (buf, q + 1, left)) else (buf, q, left))"

lemma full_quote_eq:
  "full_quote v buf =
    (if v ! 0 = ch_space \<and> length buf > 1 \<and> length v > 1
     then end_string (trail (last (tl v) = ch_space) (foldl quote_char (buf[0 := ch_bs, 1 := ch_space], 2, int (length buf) - 2) (tl v)))
     else end_string (trail (last v = ch_space) (foldl quote_char (buf, 0, int (length buf)) v)))"
  by (simp add: full_quote_def trail_def Let_def split: prod.split)

lemma esc_concat_length: "length v \<le> length (concat (map esc v))"
proof (induction v)
  case (Cons c v)
  then show ?case
    using esc_length(1) [of c] by (simp only: list.map concat.simps length_append list.size)
qed simp

lemma concat_esc_last: "cs \<noteq> [] \<Longrightarrow> concat (map esc cs) = concat (map esc (butlast cs)) @ esc (last cs)"
  by (cases cs rule: rev_cases) simp_all

lemma esc_space: "esc ch_space = [ch_space]"
  by (simp add: esc_def ISSPECIAL_iff)

lemma esc_last_length:
  "cs \<noteq> [] \<Longrightarrow> length (esc_last cs) = length (concat (map esc cs)) + (if last cs = ch_space then 1 else 0)"
  by (simp add: esc_last_def concat_esc_last esc_space)

lemma tail_fits:
  assumes cs: "cs \<noteq> []" and r: "length (esc_last cs) \<le> length r"
  shows "trail (last cs = ch_space) (foldl quote_char (fits w r) cs) = fits (w @ esc_last cs) (drop (length (esc_last cs)) r)"
proof -
  let ?E = "concat (map esc cs)"
  have fold: "foldl quote_char (fits w r) cs = fits (w @ ?E) (drop (length ?E) r)"
    using r esc_last_length [OF cs] by (intro quote_chars_fit) simp
  show ?thesis
  proof (cases "last cs = ch_space")
    case False
    then show ?thesis
      unfolding fold by (simp add: trail_def esc_last_def fits_def)
  next
    case True
    have E: "?E = concat (map esc (butlast cs)) @ [ch_space]"
      using concat_esc_last [OF cs] True esc_space by simp
    obtain x t where xt: "drop (length ?E) r = x # t"
      using r esc_last_length [OF cs] True by (cases "drop (length ?E) r") simp_all
    moreover have "drop (length ?E + 1) r = tl (drop (length ?E) r)"
      by (simp add: drop_Suc tl_drop)
    ultimately have "drop (length (esc_last cs)) r = t"
      using esc_last_length [OF cs] True by simp
    then show ?thesis
      unfolding fold xt using True by (simp add: trail_def esc_last_def fits_def E list_update_append)
  qed
qed

lemma tail_overflow:
  assumes cs: "cs \<noteq> []" and r: "length (esc_last cs) > length r"
  shows "fst (end_string (trail (last cs = ch_space) (foldl quote_char (fits w r) cs))) > length w + length r"
proof (cases "length (concat (map esc cs)) > length r")
  case True
  from quote_chars_overflow [OF this, of w] show ?thesis
    by (cases "foldl quote_char (fits w r) cs") (auto simp: trail_def end_string_def overflown_def)
next
  case False
  then have "length (concat (map esc cs)) = length r" "last cs = ch_space"
    using r esc_last_length [OF cs] by (auto split: if_splits)
  moreover from this have "foldl quote_char (fits w r) cs = fits (w @ concat (map esc cs)) []"
    using quote_chars_fit [of cs r w] by simp
  ultimately show ?thesis
    by (simp add: trail_def end_string_def fits_def)
qed

definition terminated :: "wstring \<Rightarrow> wstring \<Rightarrow> wstring" where
  "terminated w r = w @ (if r = [] then [] else 0 # tl r)"

lemma end_string_fits: "end_string (fits w r) = (length w, terminated w r)"
  by (cases r) (simp_all add: end_string_def fits_def terminated_def)

lemma fits_start: "(buf, 0, int (length buf)) = fits [] buf"
  by (simp add: fits_def)

lemma copy_plain_fits:
  assumes "\<forall>c\<in>set cs. c \<noteq> 0 \<and> \<not> ISSPECIAL c" and "length cs \<le> length r"
  shows "copy_plain cs (fits w r) = Some (fits (w @ cs) (drop (length cs) r))"
  using assms
proof (induction cs arbitrary: w r)
  case (Cons c cs)
  then obtain x t where "r = x # t"
    by (cases r) auto
  with Cons show ?case
    by (simp add: put_fits)
qed simp

lemma copy_plain_iff: "copy_plain cs st = None \<longleftrightarrow> \<not> (\<forall>c\<in>set cs. c \<noteq> 0 \<and> \<not> ISSPECIAL c)"
  by (induction cs arbitrary: st) auto

lemma full_quote_fits:
  assumes v: "v \<noteq> []" "\<not> plain v" and fit: "length (quoted v) \<le> length buf"
  shows "full_quote v buf = (length (quoted v), terminated (quoted v) (drop (length (quoted v)) buf))"
proof (cases "hd v = ch_space \<and> length v > 1")
  case True
  have q: "quoted v = [ch_bs, ch_space] @ esc_last (tl v)"
    using v True by (simp add: quoted_def)
  then obtain x y r where buf: "buf = x # y # r"
    using fit by (auto simp: Suc_le_length_iff numeral_2_eq_2)
  have "full_quote v buf = end_string (trail (last (tl v) = ch_space) (foldl quote_char (fits [ch_bs, ch_space] r) (tl v)))"
    using True v(1) by (simp add: full_quote_eq fits_def buf hd_conv_nth numeral_2_eq_2)
  moreover have "tl v \<noteq> []" "length (esc_last (tl v)) \<le> length r"
    using True fit q buf by (cases v; auto)+
  ultimately show ?thesis
    using q buf by (simp add: tail_fits end_string_fits)
next
  case False
  then have q: "quoted v = esc_last v"
    using v by (auto simp: quoted_def)
  have "full_quote v buf = end_string (trail (last v = ch_space) (foldl quote_char (fits [] buf) v))"
    using False v(1) by (auto simp: full_quote_eq fits_def hd_conv_nth)
  then show ?thesis
    using fit q v(1) by (simp add: tail_fits end_string_fits)
qed

lemma quote_fits:
  assumes v: "v \<noteq> []" and fit: "length (quoted v) \<le> length buf"
  shows "QuoteRDNValue v buf = (length (quoted v), terminated (quoted v) (drop (length (quoted v)) buf))"
proof (cases "plain v")
  case True
  then have "quoted v = v"
    by (simp add: quoted_def)
  moreover from this have "copy_plain v (fits [] buf) = Some (fits ([] @ v) (drop (length v) buf))"
    using fit True unfolding plain_def by (intro copy_plain_fits) simp_all
  moreover have "v ! 0 \<noteq> ch_space" "last v \<noteq> ch_space"
    using True v by (auto simp: plain_def hd_conv_nth)
  ultimately show ?thesis
    using v by (simp add: QuoteRDNValue_def fits_start end_string_fits)
next
  case False
  have "copy_plain v st = None" if "v ! 0 \<noteq> ch_space" "last v \<noteq> ch_space" for st
    using False v that by (auto simp: copy_plain_iff plain_def hd_conv_nth)
  then show ?thesis
    using full_quote_fits [OF v False fit] v by (auto simp: QuoteRDNValue_def)
qed

text \<open>The count tells a caller whether the buffer was large enough.\<close>

lemma quote_overflow:
  assumes v: "v \<noteq> []" and fit: "length (quoted v) > length buf"
  shows "fst (QuoteRDNValue v buf) > length buf"
proof (cases "plain v")
  case True
  then have q: "quoted v = v" and nsp: "v ! 0 \<noteq> ch_space" "last v \<noteq> ch_space" and "copy_plain v (buf, 0, int (length buf)) \<noteq> None"
    using v by (auto simp: quoted_def plain_def hd_conv_nth copy_plain_iff)
  then show ?thesis
    using v fit by (auto simp: QuoteRDNValue_def)
next
  case False
  have "copy_plain v st = None" if "v ! 0 \<noteq> ch_space" "last v \<noteq> ch_space" for st
    using False v that by (auto simp: copy_plain_iff plain_def hd_conv_nth)
  then have "QuoteRDNValue v buf = full_quote v buf"
    using v by (auto simp: QuoteRDNValue_def)
  also have "length buf < fst (full_quote v buf)"
  proof (cases "hd v = ch_space \<and> length v > 1")
    case True
    then have q: "quoted v = [ch_bs, ch_space] @ esc_last (tl v)" and tl: "tl v \<noteq> []"
      using v False by (cases v; auto simp: quoted_def)+
    show ?thesis
    proof (cases "length buf > 1")
      case large: True
      then obtain x y r where buf: "buf = x # y # r"
        by (cases buf; cases "tl buf") auto
      have "full_quote v buf = end_string (trail (last (tl v) = ch_space) (foldl quote_char (fits [ch_bs, ch_space] r) (tl v)))"
        using True v(1) by (simp add: full_quote_eq fits_def buf hd_conv_nth numeral_2_eq_2)
      then show ?thesis
        using tail_overflow [OF tl, of r "[ch_bs, ch_space]"] fit q buf by simp
    next
      case small: False
      have "length (esc_last v) > length buf"
        using esc_last_length [OF v] esc_concat_length [of v] small True by simp
      then show ?thesis
        using tail_overflow [OF v, of buf "[]"] small by (simp add: full_quote_eq fits_start)
    qed
  next
    case nlead: False
    then have "full_quote v buf = end_string (trail (last v = ch_space) (foldl quote_char (fits [] buf) v))"
      using v by (auto simp: full_quote_eq fits_def hd_conv_nth)
    then show ?thesis
      using tail_overflow [OF v, of buf "[]"] fit nlead False by (auto simp: quoted_def split: if_splits)
  qed
  finally show ?thesis .
qed

section \<open>Unquoting a quoted value\<close>

lemma wch_append [simp]:
  "wch (xs @ ys) (length xs + n) = wch ys n" "n < length xs \<Longrightarrow> wch (xs @ ys) n = wch xs n" "wch (c # ys) 0 = c"
  "wch (c # ys) (Suc n) = wch ys n"
  by (simp_all add: wch_def nth_append)

lemma unquote_normal_esc:
  assumes s: "s = pre @ esc c @ rest" and p: "length pre = q + u" and cc: "u + length (esc c) \<le> cc"
    and max: "length val < e_MAX_RDN_SIZE env"
  shows "unquote_normal env s q cc u val =
    (if u + length (esc c) < cc then unquote_normal env s q cc (u + length (esc c)) (val @ [c]) else Some (val @ [c]))"
proof -
  have w: "wch s (q + u) = wch (esc c @ rest) 0" "wch s (q + (u + 1)) = wch (esc c @ rest) 1" "wch s (q + (u + 2)) = wch (esc c @ rest) 2"
    using wch_append(1) [of pre "esc c @ rest" 0] wch_append(1) [of pre "esc c @ rest" 1]
      wch_append(1) [of pre "esc c @ rest" 2] by (simp_all add: s p)
  note run = unquote_normal.simps [of env s q cc u val, unfolded Let_def w]
  consider "c = ch_nl" | "c = ch_cr" | "c \<noteq> ch_nl" "c \<noteq> ch_cr" "ISSPECIAL c" | "\<not> ISSPECIAL c"
    by blast
  then show ?thesis
  proof cases
    case 1
    then have "esc c = [ch_bs, 48, 65]"
      by (simp add: esc_def)
    then show ?thesis
      unfolding run using cc max 1
      by (simp add: ISSPECIAL_iff iswxdigit_def hex_value_def numeral_2_eq_2 numeral_3_eq_3)
  next
    case 2
    then have "esc c = [ch_bs, 48, 68]"
      by (simp add: esc_def)
    then show ?thesis
      unfolding run using cc max 2
      by (simp add: ISSPECIAL_iff iswxdigit_def hex_value_def numeral_2_eq_2 numeral_3_eq_3)
  next
    case 3
    then have "esc c = [ch_bs, c]"
      by (simp add: esc_def)
    then show ?thesis
      unfolding run using cc max 3 by simp
  next
    case 4
    then have "esc c = [c]" "c \<noteq> ch_bs"
      by (auto simp: esc_def ISSPECIAL_iff)
    then show ?thesis
      unfolding run using cc max 4 by simp
  qed
qed

lemma unquote_escs:
  assumes "s = pre @ concat (map esc cs) @ rest" and "length pre = q + u" and "u + length (concat (map esc cs)) < cc"
    and "length val + length cs \<le> e_MAX_RDN_SIZE env"
  shows "unquote_normal env s q cc u val = unquote_normal env s q cc (u + length (concat (map esc cs))) (val @ cs)"
  using assms
proof (induction cs arbitrary: pre u val)
  case (Cons c cs)
  have "unquote_normal env s q cc u val = unquote_normal env s q cc (u + length (esc c)) (val @ [c])"
    using Cons.prems by (subst unquote_normal_esc [where pre = pre and c = c and rest = "concat (map esc cs) @ rest"]) auto
  also have "\<dots> = unquote_normal env s q cc (u + length (esc c) + length (concat (map esc cs))) ((val @ [c]) @ cs)"
    using Cons.prems by (intro Cons.IH [where pre = "pre @ esc c"]) auto
  finally show ?case
    by (simp add: add.assoc)
qed simp

lemma unquote_esc_last:
  assumes v: "v \<noteq> []" and s: "s = pre @ esc_last v @ rest" and p: "length pre = q + u"
    and cc: "cc = u + length (esc_last v)" and max: "length val + length v \<le> e_MAX_RDN_SIZE env"
  shows "unquote_normal env s q cc u val = Some (val @ v)"
proof -
  let ?E = "concat (map esc (butlast v))" and ?t = "if last v = ch_space then [ch_bs, ch_space] else esc (last v)"
  have split: "esc_last v = ?E @ ?t"
    using concat_esc_last [OF v] by (simp add: esc_last_def)
  have len: "length val + length (butlast v) < e_MAX_RDN_SIZE env" and vb: "butlast v @ [last v] = v"
    using max v by (cases v; simp)+
  have cc': "cc = u + length ?E + length ?t" and pos: "0 < length ?t"
    using cc esc_length(1) [of "last v"] by (simp_all add: split)
  have "unquote_normal env s q cc u val = unquote_normal env s q cc (u + length ?E) (val @ butlast v)"
    by (rule unquote_escs [where pre = pre and rest = "?t @ rest"]) (use len cc' pos in \<open>simp_all add: s split p\<close>)
  also have "\<dots> = Some ((val @ butlast v) @ [last v])"
  proof (cases "last v = ch_space")
    case False
    then show ?thesis
      using len cc' by (subst unquote_normal_esc [where pre = "pre @ ?E" and rest = rest and c = "last v"]) (simp_all add: s split p)
  next
    case True
    let ?u = "u + length ?E"
    have s': "s = (pre @ ?E) @ ch_bs # ch_space # rest" and l: "length (pre @ ?E) = q + ?u"
      using s split True p by simp_all
    have "wch s (q + ?u) = ch_bs" "wch s (q + (?u + 1)) = ch_space"
      using wch_append(1) [of "pre @ ?E" "ch_bs # ch_space # rest" 0] wch_append(1) [of "pre @ ?E" "ch_bs # ch_space # rest" 1]
      unfolding s' [symmetric] l by simp_all
    moreover have "?u + 2 = cc"
      using cc' True by simp
    moreover have "cc - 1 = ?u + 1"
      using cc' True by simp
    ultimately show ?thesis
      using len by (subst unquote_normal.simps) (simp add: Let_def True ISSPECIAL_iff)
  qed
  finally show ?thesis
    using vb by (metis append_assoc)
qed

lemma esc_hd: "esc c \<noteq> [] \<and> (hd (esc c) = ch_space \<longrightarrow> c = ch_space) \<and> hd (esc c) \<notin> {ch_nl, ch_cr, ch_quote, ch_hash}"
  by (auto simp: esc_def ISSPECIAL_iff)

lemma esc_last_hd: "v \<noteq> [] \<Longrightarrow> esc_last v \<noteq> [] \<and> (hd (esc_last v) = ch_space \<longrightarrow> hd v = ch_space \<and> length v > 1)
  \<and> hd (esc_last v) \<notin> {ch_nl, ch_cr, ch_quote, ch_hash}"
proof (cases v)
  case (Cons c w)
  then show ?thesis
    using esc_hd [of c] by (cases w) (auto simp: esc_last_def hd_append)
qed simp

lemma quoted_hd:
  assumes "v \<noteq> []"
  shows "quoted v \<noteq> []" "\<not> is_blank (hd (quoted v))" "hd (quoted v) \<noteq> ch_quote" "hd (quoted v) \<noteq> ch_hash"
proof -
  have "plain v \<Longrightarrow> \<not> ISSPECIAL (hd v) \<and> hd v \<noteq> ch_space"
    using assms by (simp add: plain_def)
  then have "quoted v \<noteq> [] \<and> hd (quoted v) \<notin> {ch_space, ch_nl, ch_cr, ch_quote, ch_hash}"
    using esc_last_hd [OF assms] assms by (auto simp: quoted_def ISSPECIAL_iff)
  then show "quoted v \<noteq> []" "\<not> is_blank (hd (quoted v))" "hd (quoted v) \<noteq> ch_quote" "hd (quoted v) \<noteq> ch_hash"
    by (auto simp: is_blank_def)
qed

lemma plain_esc_last: "plain v \<Longrightarrow> esc_last v = v"
proof -
  assume p: "plain v"
  have "\<forall>c\<in>set w. \<not> ISSPECIAL c \<Longrightarrow> concat (map esc w) = w" for w
    by (induction w) (auto simp: esc_def ISSPECIAL_iff)
  then show ?thesis
    using p by (simp add: plain_def esc_last_def)
qed

lemma unquote_normal_quoted:
  assumes v: "v \<noteq> []" and max: "length v \<le> e_MAX_RDN_SIZE env" and s: "s = pre @ quoted v @ rest"
  shows "unquote_normal env s (length pre) (length (quoted v)) 0 [] = Some v"
proof (cases "\<not> plain v \<and> hd v = ch_space \<and> length v > 1")
  case True
  then have q: "quoted v = [ch_bs, ch_space] @ esc_last (tl v)" and tl: "tl v \<noteq> []" and hd: "v = ch_space # tl v"
    using v by (cases v; auto simp: quoted_def)+
  have w: "wch s (length pre + 0) = ch_bs" "wch s (length pre + (0 + 1)) = ch_space"
    using wch_append(1) [of pre "quoted v @ rest" 0] wch_append(1) [of pre "quoted v @ rest" 1] by (simp_all add: s q)
  have pos: "0 < length (esc_last (tl v))" and max': "0 < e_MAX_RDN_SIZE env"
    using esc_last_hd [OF tl] max v by (simp, cases v, simp_all)
  have "unquote_normal env s (length pre) (length (quoted v)) 0 [] =
      unquote_normal env s (length pre) (length (quoted v)) 2 [ch_space]"
    unfolding unquote_normal.simps [of env s "length pre" "length (quoted v)" 0 "[]", unfolded Let_def w]
    using max' pos by (simp add: q ISSPECIAL_iff numeral_2_eq_2)
  also have "\<dots> = Some ([ch_space] @ tl v)"
    using max v by (intro unquote_esc_last [where pre = "pre @ [ch_bs, ch_space]" and rest = rest]) (simp_all add: s q tl)
  finally show ?thesis
    using hd by simp
next
  case False
  then have "quoted v = esc_last v"
    using plain_esc_last [of v] by (auto simp: quoted_def)
  then show ?thesis
    using unquote_esc_last [OF v, of s pre rest "length pre" 0 "length (quoted v)" "[]" env] s max by simp
qed

lemma unquote_quoted_value:
  assumes v: "v \<noteq> []" and max: "length v \<le> e_MAX_RDN_SIZE env" and s: "s = pre @ quoted v @ rest"
  shows "UnquoteRDNValue env s (length pre) (length (quoted v)) = v"
proof -
  have c: "wch s (length pre + 0) = hd (quoted v)"
    using wch_append(1) [of pre "quoted v @ rest" 0] quoted_hd(1) [OF v] by (simp add: s wch_def hd_conv_nth nth_append)
  have "lead_blanks s (length pre) (length (quoted v)) 0 = Some 0"
    by (subst lead_blanks.simps) (use c quoted_hd(2) [OF v] in simp)
  then show ?thesis
    using c quoted_hd [OF v] unquote_normal_quoted [OF assms] by (simp add: UnquoteRDNValue_def)
qed

section \<open>The characters around a value\<close>

text \<open>A value that is not in quotation marks is read without a look at the characters around it.\<close>

lemma hex_bytes_local:
  assumes eq: "\<forall>i<cc. wch s (p + i) = wch s' (p' + i)"
  shows "hex_bytes s p cc u bs = hex_bytes s' p' cc u bs"
proof (induction "cc - u" arbitrary: u bs rule: less_induct)
  case less
  show ?case
  proof (cases "u + 1 < cc")
    case True
    then have w: "wch s (p + u) = wch s' (p' + u)" "wch s (p + (u + 1)) = wch s' (p' + (u + 1))"
      using eq by (simp, blast)
    show ?thesis
      unfolding hex_bytes.simps [of s p cc u bs] hex_bytes.simps [of s' p' cc u bs] Let_def w using True by (simp add: less)
  next
    case False
    then show ?thesis
      unfolding hex_bytes.simps [of s p cc u bs] hex_bytes.simps [of s' p' cc u bs] by auto
  qed
qed

lemma unquote_normal_local:
  assumes eq: "\<forall>i<cc. wch s (p + i) = wch s' (p' + i)" and "u < cc"
  shows "unquote_normal env s p cc u val = unquote_normal env s' p' cc u val"
  using assms(2)
proof (induction "cc - u" arbitrary: u val rule: less_induct)
  case less
  define r where "r t q = (if wch t (q + u) = ch_bs
    then
      if u + 1 < cc \<and> (ISSPECIAL (wch t (q + (u + 1))) \<or> wch t (q + (u + 1)) = ch_space \<and> (u + 1 = 1 \<or> u + 1 = cc - 1))
      then if length val = e_MAX_RDN_SIZE env then None else Some (u + 2, wch t (q + (u + 1)))
      else if u + 2 < cc \<and> iswxdigit (wch t (q + (u + 1))) \<and> iswxdigit (wch t (q + (u + 2)))
      then if length val = e_MAX_RDN_SIZE env then None
        else Some (u + 3, hex_value (wch t (q + (u + 1))) * 16 + hex_value (wch t (q + (u + 2))))
      else None
    else if length val = e_MAX_RDN_SIZE env \<or> ISSPECIAL (wch t (q + u)) \<and> wch t (q + u) \<noteq> ch_hash then None
    else Some (u + 1, wch t (q + u)))" for t q
  have run: "unquote_normal env t q cc u val = (case r t q of None \<Rightarrow> None
      | Some (u', c) \<Rightarrow> if u' < cc then unquote_normal env t q cc u' (val @ [c]) else Some (val @ [c]))" for t q
    unfolding unquote_normal.simps [of env t q cc u val] Let_def r_def ..
  have w: "wch s (p + u) = wch s' (p' + u)" "u + 1 < cc \<Longrightarrow> wch s (p + (u + 1)) = wch s' (p' + (u + 1))"
    "u + 2 < cc \<Longrightarrow> wch s (p + (u + 2)) = wch s' (p' + (u + 2))"
    using eq less.prems by blast+
  then have rr: "r s p = r s' p'"
    unfolding r_def w(1) by (cases "u + 1 < cc"; cases "u + 2 < cc") auto
  have "u < u'" if "r s' p' = Some (u', c)" for u' c
    using that by (auto simp: r_def split: if_splits)
  then show ?case
    unfolding run rr by (auto split: option.split intro!: less.hyps)
qed

lemma unquote_local:
  assumes eq: "\<forall>i<cc. wch s (p + i) = wch s' (p' + i)" and cc: "0 < cc" and c: "\<not> is_blank (wch s p)" "wch s p \<noteq> ch_quote"
  shows "UnquoteRDNValue env s p cc = UnquoteRDNValue env s' p' cc"
proof -
  have w: "wch s' p' = wch s p"
    using eq cc by force
  have lead: "lead_blanks s p cc 0 = Some 0" "lead_blanks s' p' cc 0 = Some 0"
    using c w by (subst lead_blanks.simps, simp)+
  show ?thesis
    unfolding UnquoteRDNValue_def lead using cc c w hex_bytes_local [OF eq, of 1 "[]"] unquote_normal_local [OF eq cc, of env "[]"]
    by simp
qed

end
