(* ===== verification/DN_Parse.thy ===== *)
theory DN_Parse
  imports DN_Quote
begin

text \<open>
  Names as strings: the structure \<^verbatim>\<open>DSNAME\<close> (\<^verbatim>\<open>inc/ntdsa.h\<close>) and the routines of \<^verbatim>\<open>ntdsa/src/parsedn.c\<close> that walk over a string name,
  forwards from separator to separator (\<^verbatim>\<open>CountNameParts\<close>, \<^verbatim>\<open>TrimDSNameBy\<close>) and backwards from its end (\<^verbatim>\<open>GetTopNameComponent\<close>).
  A list of types and values is the abstract name; the routines are shown to compute its length, its tail, its last
  component.
\<close>

section \<open>Names\<close>

record DSNAME =
  structLen :: nat
  SidLen :: nat
  Guid :: GUID
  Sid :: "nat list"
  NameLen :: nat
  StringName :: wstring

definition DSNameSizeFromLen :: "nat \<Rightarrow> nat" where
  "DSNameSizeFromLen x = 16 + 3 * 4 + 2 + 28 + x * 2"

text \<open>Subtraction of unsigned numbers.\<close>

definition sub32 :: "nat \<Rightarrow> nat \<Rightarrow> nat" where
  "sub32 a b = nat ((int a - int b) mod 2 ^ 32)"

lemma sub32_le: "b \<le> a \<Longrightarrow> a < 2 ^ 32 \<Longrightarrow> sub32 a b = a - b"
  by (simp add: sub32_def nat_eq_iff2 of_nat_diff)

text \<open>Writing characters into a buffer.\<close>

definition blit :: "nat \<Rightarrow> wstring \<Rightarrow> wstring \<Rightarrow> wstring" where
  "blit i w buf = take i buf @ w @ drop (i + length w) buf"

text \<open>\<^verbatim>\<open>memset\<close> of the size of the structure, which is 60 bytes: it clears two characters of the name.\<close>

definition memset_name :: "DSNAME \<Rightarrow> DSNAME" where
  "memset_name d = \<lparr>structLen = 0, SidLen = 0, Guid = 0, Sid = replicate 28 0, NameLen = 0, StringName = blit 0 [0, 0] (StringName d)\<rparr>"

definition IsRoot :: "DSNAME \<Rightarrow> bool" where
  "IsRoot pName \<longleftrightarrow>
     (NameLen pName = 0 \<or> NameLen pName = 1 \<and> wch (StringName pName) 0 = 0) \<and> Guid pName = 0 \<and> SidLen pName = 0"

section \<open>Forwards\<close>

lemma skip_spaces_ge: "p \<le> skip_spaces s p"
  by (induction s p rule: skip_spaces.induct) (subst skip_spaces.simps, auto)

lemma step_loop_bounds: "step_loop s pEnd p inQuote e = Inr (q, e') \<Longrightarrow> p \<le> q \<and> (p \<le> pEnd \<longrightarrow> q \<le> pEnd) \<and> (pEnd \<le> p \<longrightarrow> q = p)"
proof (induction "pEnd - p" arbitrary: p inQuote e rule: less_induct)
  case less
  have step: "p \<le> q \<and> q \<le> pEnd" if "p < p'" "p' \<le> pEnd" "step_loop s pEnd p' b e1 = Inr (q, e')" for p' b e1
  proof -
    have "pEnd - p' < pEnd - p"
      using that by arith
    from less.hyps [OF this that(3)] that(1,2) show ?thesis
      by auto
  qed
  show ?case
  proof (cases "p < pEnd")
    case True
    then have "p \<le> q \<and> q \<le> pEnd"
      using less.prems by (subst (asm) step_loop.simps) (auto split: if_splits intro: step [of "p + 1", THEN conjunct1]
        step [of "p + 1", THEN conjunct2] step [of "p + 2", THEN conjunct1] step [of "p + 2", THEN conjunct2])
    with True show ?thesis
      by simp
  next
    case False
    then show ?thesis
      using less.prems by (subst (asm) step_loop.simps) (auto split: if_splits)
  qed
qed

lemma StepToNextDNSep_progress:
  assumes "StepToNextDNSep s p pEnd = Inr (q, t, e)" and "t \<noteq> q"
  shows "p < q" and "q \<le> pEnd"
  using assms skip_spaces_ge [of "p + 1" s] skip_spaces_ge [of p s]
  by (auto simp: StepToNextDNSep_def Let_def split: sum.splits prod.splits if_splits dest!: step_loop_bounds)

function count_loop :: "wstring \<Rightarrow> nat \<Rightarrow> nat \<Rightarrow> nat \<Rightarrow> direrr + nat" where
  "count_loop s pEnd p c =
     (case StepToNextDNSep s p pEnd of
        Inl err \<Rightarrow> Inl err
      | Inr (q, tokenStart, e) \<Rightarrow>
          if tokenStart = q then Inl DIRERR_NAME_UNPARSEABLE
          else if wch s q \<noteq> 0 then count_loop s pEnd q (c + 1) else Inr (c + 1))"
  by pat_completeness auto

termination
proof (relation "measure (\<lambda>(s, pEnd, p, c). pEnd - p)")
  fix s pEnd p c b x y xa ya
  assume "StepToNextDNSep s p pEnd = Inr b" "(x, y) = b" "(xa, ya) = y" "xa \<noteq> x" "wch s x \<noteq> 0"
  then have "p < x" "x \<le> pEnd"
    using StepToNextDNSep_progress [of s p pEnd x xa ya] by auto
  then show "((s, pEnd, x, c + 1), s, pEnd, p, c) \<in> measure (\<lambda>(s, pEnd, p, c). pEnd - p)"
    by auto
qed simp

declare count_loop.simps [simp del]

definition CountNameParts :: "DSNAME \<Rightarrow> direrr + nat" where
  "CountNameParts pName = (if IsRoot pName then Inr 0 else count_loop (StringName pName) (NameLen pName) 0 0)"

text \<open>
  The loop of \<^verbatim>\<open>TrimDSNameBy\<close> returns the count left and the position reached, or only the count on an error. The count is
  decremented before it is tested.
\<close>

function trim_loop :: "wstring \<Rightarrow> nat \<Rightarrow> nat \<Rightarrow> 32 word \<Rightarrow> 32 word + 32 word \<times> nat" where
  "trim_loop s pEnd pTmp cava =
     (case StepToNextDNSep s pTmp pEnd of
        Inl err \<Rightarrow> Inl cava
      | Inr (pSep, t, e) \<Rightarrow>
          if cava - 1 \<noteq> 0 \<and> wch s pSep \<noteq> 0 then trim_loop s pEnd pSep (cava - 1) else Inr (cava - 1, pSep))"
  by pat_completeness auto

termination
proof (relation "measure (\<lambda>(s, pEnd, p, cava). unat (cava - 1))")
  fix s :: wstring and pEnd pTmp x :: nat and cava :: "32 word"
  assume "cava - 1 \<noteq> 0 \<and> wch s x \<noteq> 0"
  then have "unat (cava - 1 - 1) < unat (cava - 1)"
    by (metis diff_add_cancel measure_unat)
  then show "((s, pEnd, x, cava - 1), s, pEnd, pTmp, cava) \<in> measure (\<lambda>(s, pEnd, p, cava). unat (cava - 1))"
    by simp
qed simp

declare trim_loop.simps [simp del]

definition TrimDSNameBy :: "DSNAME \<Rightarrow> 32 word \<Rightarrow> DSNAME \<Rightarrow> 32 word \<times> DSNAME" where
  "TrimDSNameBy pDNSrc cava pDNDst =
     (if NameLen pDNSrc = 0 then (cava, pDNDst)
      else
        let pDNDst = memset_name pDNDst; s = StringName pDNSrc
        in case trim_loop s (NameLen pDNSrc) 0 cava of
             Inl cava \<Rightarrow> (cava, pDNDst)
           | Inr (cava, pTmp) \<Rightarrow>
               if cava \<noteq> 0 then (cava, pDNDst)
               else
                 let pDNDst =
                       (if wch s pTmp = 0 then pDNDst\<lparr>NameLen := 0\<rparr>
                        else
                          let len = skip_spaces s (pTmp + 1); n = sub32 (NameLen pDNSrc) len
                          in pDNDst\<lparr>NameLen := n, StringName := blit 0 (take n (drop len s) @ [0]) (StringName pDNDst)\<rparr>)
                 in (0, pDNDst\<lparr>structLen := DSNameSizeFromLen (NameLen pDNDst)\<rparr>))"

section \<open>Backwards\<close>

text \<open>\<^verbatim>\<open>pTmp\<close> is at \<open>pName + ccName - 1\<close> while blanks are skipped.\<close>

fun skip_back :: "wstring \<Rightarrow> nat \<Rightarrow> nat \<Rightarrow> nat" where
  "skip_back s pName 0 = 0"
| "skip_back s pName (Suc cc) =
     (if IsUnescapedChar s pName (pName + cc) ch_space \<or> IsUnescapedChar s pName (pName + cc) ch_nl
      then skip_back s pName cc else Suc cc)"

function back_quote :: "wstring \<Rightarrow> nat \<Rightarrow> nat \<Rightarrow> 32 word \<Rightarrow> (nat \<times> 32 word) option" where
  "back_quote s pName p len =
     (let p' = p - 1; len' = len + 1
      in if p' \<le> pName then None
         else if IsUnescapedChar s pName p' ch_quote then Some (p', len') else back_quote s pName p' len')"
  by pat_completeness auto

termination
  by (relation "measure (\<lambda>(s, pName, p, len). p)") auto

declare back_quote.simps [simp del]

lemma back_quote_less: "back_quote s pName p len = Some (q, len') \<Longrightarrow> pName < q \<and> q < p"
proof (induction s pName p len arbitrary: q len' rule: back_quote.induct)
  case (1 s pName p len)
  show ?case
    using 1(2) 1(1) [of "p - 1" "len + 1" q len'] by (subst (asm) back_quote.simps) (auto simp: Let_def split: if_splits)
qed

definition over_quote :: "wstring \<Rightarrow> nat \<Rightarrow> nat \<Rightarrow> 32 word \<Rightarrow> (nat \<times> 32 word) option" where
  "over_quote s pName p len = (if IsUnescapedChar s pName p ch_quote then back_quote s pName p len else Some (p, len))"

function back_sep :: "wstring \<Rightarrow> nat \<Rightarrow> nat \<Rightarrow> 32 word \<Rightarrow> direrr + nat \<times> 32 word" where
  "back_sep s pName p len =
     (case over_quote s pName p len of
        None \<Rightarrow> Inl DIRERR_NAME_UNPARSEABLE
      | Some (q, len1) \<Rightarrow>
          let p' = q - 1; len' = len1 + 1
          in if IsUnescapedDNSepChar s pName p'
             then if p' \<le> pName then Inl DIRERR_NAME_UNPARSEABLE else Inr (p' + 1, len' - 1)
             else if p' > pName then back_sep s pName p' len' else Inr (p', len'))"
  by pat_completeness auto

termination
  by (relation "measure (\<lambda>(s, pName, p, len). p)") (auto simp: over_quote_def split: if_splits dest!: back_quote_less)

declare back_sep.simps [simp del]

function key_loop :: "wstring \<Rightarrow> nat \<Rightarrow> 32 word \<Rightarrow> nat \<Rightarrow> nat \<times> 32 word \<times> nat" where
  "key_loop s p len lTmp =
     (if \<not> ISSPECIAL (wch s p) \<and> len \<noteq> 0 then key_loop s (p + 1) (len - 1) (lTmp + 1) else (p, len, lTmp))"
  by pat_completeness auto

termination
  by (relation "measure (\<lambda>(s, p, len, lTmp). unat len)") (auto simp: measure_unat)

declare key_loop.simps [simp del]

text \<open>
  Key and value as a position and a count. \<open>None\<close> is the root, where all outputs are 0. The counters \<^verbatim>\<open>len\<close> and \<^verbatim>\<open>*pccVal\<close> wrap
  around.
\<close>

definition split_ava :: "wstring \<Rightarrow> nat \<Rightarrow> 32 word \<Rightarrow> direrr + (nat \<times> nat \<times> nat \<times> 32 word) option" where
  "split_ava s p len =
     (let pKey = skip_spaces s p; len = len - of_nat (pKey - p); (pTmp, len, lTmp) = key_loop s pKey len 0
      in if len = 0 \<or> lTmp = 0 \<or> wch s pTmp \<noteq> ch_eq then Inl DIRERR_NAME_UNPARSEABLE
         else
           let pTmp = pTmp + 1; len = len - 1; pVal = skip_spaces s pTmp; len = len - of_nat (pVal - pTmp)
           in if len = 0 then Inl DIRERR_NAME_UNPARSEABLE else Inr (Some (pKey, lTmp, pVal, len)))"

definition GetTopNameComponent :: "wstring \<Rightarrow> nat \<Rightarrow> nat \<Rightarrow> direrr + (nat \<times> nat \<times> nat \<times> 32 word) option" where
  "GetTopNameComponent s pName ccName =
     (if ccName = 0 then Inr None
      else
        let cc = skip_back s pName ccName
        in if cc = 0 then Inr None
           else if wch s (pName + cc - 1) = 0 then Inl DIRERR_NAME_UNPARSEABLE
           else
             let sep = IsUnescapedDNSepChar s pName (pName + cc - 1); cc = (if sep then skip_back s pName (cc - 1) else cc)
             in if sep \<and> cc = 0 then Inr None
                else if pName + cc - 1 = pName then Inl DIRERR_NAME_UNPARSEABLE
                else case back_sep s pName (pName + cc - 1) 1 of
                       Inl err \<Rightarrow> Inl err
                     | Inr (p, len) \<Rightarrow> split_ava s p len)"

end
