(* ===== verification/DN_Names.thy ===== *)
theory DN_Names
  imports DN_Parse
begin

text \<open>
  Abstract names: a list of types and values, from the object to the root, and its string, in the form that \<^verbatim>\<open>AppendRDN\<close> writes. A name
  can be written in many other ways; a spelling is a list of components as they stand in a string, with keys in either case, blanks, either
  separator, and values with any escapes. \<^verbatim>\<open>StepToNextDNSep\<close> finds the
  separators of a spelling and no others; \<^verbatim>\<open>CountNameParts\<close> returns its length, and \<^verbatim>\<open>TrimDSNameBy\<close> drops from the list of the name.
\<close>

section \<open>Abstract names\<close>

type_synonym rdn = "nat \<times> wstring"

definition rdn_string :: "rdn \<Rightarrow> wstring" where
  "rdn_string r = AttrTypeToKey (fst r) @ ch_eq # quoted (snd r)"

fun dn_string :: "rdn list \<Rightarrow> wstring" where
  "dn_string [] = []"
| "dn_string [r] = rdn_string r"
| "dn_string (r # ns) = rdn_string r @ ch_comma # dn_string ns"

definition wf_rdn :: "rdn \<Rightarrow> bool" where
  "wf_rdn r \<longleftrightarrow> AttrTypeToKey (fst r) \<noteq> [] \<and> snd r \<noteq> [] \<and> 0 \<notin> set (snd r)"

definition wf_dn :: "rdn list \<Rightarrow> bool" where
  "wf_dn ns \<longleftrightarrow> list_all wf_rdn ns"

text \<open>The structure holds the string of the name, with its terminator.\<close>

definition denotes :: "DSNAME \<Rightarrow> rdn list \<Rightarrow> bool" where
  "denotes d ns \<longleftrightarrow> NameLen d = length (dn_string ns) \<and> take (NameLen d + 1) (StringName d) = dn_string ns @ [0] \<and> NameLen d < 2 ^ 32"

lemma dn_string_Cons: "ns \<noteq> [] \<Longrightarrow> dn_string (r # ns) = rdn_string r @ ch_comma # dn_string ns"
  by (cases ns) simp_all

lemma dn_string_append:
  "ms \<noteq> [] \<Longrightarrow> ns \<noteq> [] \<Longrightarrow> dn_string (ms @ ns) = dn_string ms @ ch_comma # dn_string ns"
  by (induction ms rule: dn_string.induct) (simp_all add: dn_string_Cons)

lemma dn_string_length: "length ns \<le> length (dn_string ns)"
  by (induction ns rule: dn_string.induct) (simp_all add: rdn_string_def)

lemma wf_dn_drop: "wf_dn ns \<Longrightarrow> wf_dn (drop n ns)"
  by (auto simp: wf_dn_def list_all_iff dest: in_set_dropD)

lemma denotesE:
  assumes "denotes d ns"
  obtains rest where "StringName d = dn_string ns @ 0 # rest" "NameLen d = length (dn_string ns)" "NameLen d < 2 ^ 32"
proof -
  have "StringName d = dn_string ns @ 0 # drop (NameLen d + 1) (StringName d)"
  proof -
    have t: "take (NameLen d + 1) (StringName d) = dn_string ns @ [0]"
      using assms unfolding denotes_def by blast
    show ?thesis
      using append_take_drop_id [of "NameLen d + 1" "StringName d", unfolded t] by simp
  qed
  then show ?thesis
    using that assms by (simp add: denotes_def)
qed

lemma denotesI:
  "StringName d = dn_string ns @ 0 # rest \<Longrightarrow> NameLen d = length (dn_string ns) \<Longrightarrow> NameLen d < 2 ^ 32 \<Longrightarrow> denotes d ns"
  by (simp add: denotes_def)

section \<open>Text without separators\<close>

text \<open>Every quotation mark, separator, equal sign and null character is escaped, and so is whatever follows a backslash.\<close>

fun safe :: "wstring \<Rightarrow> bool" where
  "safe [] = True"
| "safe (c # w) =
     (if c = ch_bs then (case w of [] \<Rightarrow> False | d # w' \<Rightarrow> safe w')
      else c \<notin> {ch_quote, ch_comma, ch_semi, ch_eq, 0} \<and> safe w)"

lemma safe_append: "safe a \<Longrightarrow> safe b \<Longrightarrow> safe (a @ b)"
  by (induction a rule: safe.induct) (auto split: list.splits if_splits)

lemma safe_esc: "c \<noteq> 0 \<Longrightarrow> safe (esc c)"
  by (auto simp: esc_def ISSPECIAL_iff)

lemma safe_concat: "0 \<notin> set v \<Longrightarrow> safe (concat (map esc v))"
  by (induction v) (auto intro!: safe_append safe_esc)

lemma safe_esc_last:
  assumes "0 \<notin> set v"
  shows "safe (esc_last v)"
proof -
  have "0 \<notin> set (butlast v)"
    using assms by (auto dest: in_set_butlastD)
  then show ?thesis
    unfolding esc_last_def using assms by (auto intro!: safe_append safe_concat)
qed

lemma safe_quoted: "0 \<notin> set v \<Longrightarrow> safe (quoted v)"
proof -
  assume nz: "0 \<notin> set v"
  then have "0 \<notin> set (tl v)"
    by (cases v) auto
  then show ?thesis
    using nz plain_esc_last [of v] safe_esc_last [of v] safe_esc_last [of "tl v"] by (auto simp: quoted_def)
qed

lemma safe_key: "safe (AttrTypeToKey t)"
proof -
  have "safe w" if "\<forall>c\<in>set w. key_char c" for w
    using that by (induction w) (auto simp: key_char_def ISSPECIAL_iff)
  then show ?thesis
    using AttrTypeToKey_chars by blast
qed

lemma wch_at [simp]: "wch (pre @ c # r) (length pre) = c" "wch (pre @ c # d # r) (Suc (length pre)) = d"
  by (simp_all add: wch_def nth_append)

lemma step_safe:
  assumes "safe w" and "s = pre @ w @ rest" and "length pre + length w \<le> pEnd"
  shows "step_loop s pEnd (length pre) False e = step_loop s pEnd (length pre + length w) False e"
  using assms
proof (induction w arbitrary: pre rule: safe.induct)
  case (2 c w)
  show ?case
  proof (cases "c = ch_bs")
    case True
    then obtain d w' where w: "w = d # w'" "safe w'"
      using "2.prems" by (auto split: list.splits)
    have "step_loop s pEnd (length pre) False e = step_loop s pEnd (length (pre @ [c, d])) False e"
      using "2.prems" True w by (subst step_loop.simps) simp
    also have "\<dots> = step_loop s pEnd (length (pre @ [c, d]) + length w') False e"
      using "2.prems" True w by (intro "2.IH"(1)) simp_all
    finally show ?thesis
      using w by simp
  next
    case False
    have "step_loop s pEnd (length pre) False e = step_loop s pEnd (length (pre @ [c])) False e"
      using "2.prems" False by (subst step_loop.simps) simp
    also have "\<dots> = step_loop s pEnd (length (pre @ [c]) + length w) False e"
      using "2.prems" False by (intro "2.IH"(2)) simp_all
    finally show ?thesis
      by simp
  qed
qed simp

section \<open>Backslashes counted backwards\<close>

definition tb :: "wstring \<Rightarrow> nat" where
  "tb w = length (takeWhile (\<lambda>c. c = ch_bs) (rev w))"

lemma tb_Nil [simp]: "tb [] = 0"
  by (simp add: tb_def)

lemma tb_snoc: "tb (w @ [c]) = (if c = ch_bs then Suc (tb w) else 0)"
  by (simp add: tb_def)

lemma tb_Cons: "tb (c # u) = (if set u \<subseteq> {ch_bs} then length u + (if c = ch_bs then 1 else 0) else tb u)"
  by (auto simp: tb_def takeWhile_append)

lemma tb_all: "set u \<subseteq> {ch_bs} \<Longrightarrow> tb u = length u"
  by (cases u) (auto simp: tb_Cons)

lemma tb_escaped: "even (tb (ch_bs # d # u)) = even (tb u)"
  by (auto simp: tb_Cons tb_all)

lemma tb_normal: "c \<noteq> ch_bs \<Longrightarrow> tb (c # u) = tb u"
  by (simp add: tb_Cons tb_all)

lemma safe_tb: "safe w \<Longrightarrow> even (tb w)"
  by (induction w rule: safe.induct) (auto simp: tb_escaped tb_normal split: if_splits list.splits)

lemma safe_nth:
  assumes "safe w" and "i < length w" and "even (tb (take i w))"
  shows "w ! i \<notin> {ch_quote, ch_comma, ch_semi}"
  using assms
proof (induction w arbitrary: i rule: safe.induct)
  case (2 c w)
  show ?case
  proof (cases "c = ch_bs")
    case True
    then obtain d w' where w: "w = d # w'" "safe w'"
      using "2.prems" by (auto split: list.splits)
    consider "i = 0" | "i = 1" | j where "i = Suc (Suc j)"
      by (metis One_nat_def not0_implies_Suc)
    then show ?thesis
    proof cases
      case 2
      then show ?thesis
        using "2.prems" True w by (simp add: tb_Cons)
    next
      case 3
      then show ?thesis
        using "2.prems" True w "2.IH"(1) [OF True w(1), of j] by (simp add: tb_escaped)
    qed (use True in simp)
  next
    case False
    then show ?thesis
      using "2.prems" "2.IH"(2) [OF False, of "i - 1"] by (cases i) (auto simp: tb_normal)
  qed
qed simp

section \<open>The end of a quoted value\<close>

lemma esc_last_end:
  assumes v: "v \<noteq> []" "0 \<notin> set v"
  shows "last (esc_last v) \<noteq> ch_nl" and "last (esc_last v) = ch_space \<longrightarrow> odd (tb (butlast (esc_last v)))"
proof -
  have "0 \<notin> set (butlast v)"
    using v by (auto dest: in_set_butlastD)
  then have E: "even (tb (concat (map esc (butlast v))))"
    by (intro safe_tb safe_concat)
  show "last (esc_last v) \<noteq> ch_nl"
    using concat_esc_last [OF v(1)] esc_hd [of "last v"] by (auto simp: esc_last_def esc_def)
  have "last (esc_last v) = last (esc (last v))" if "last v \<noteq> ch_space"
    using that concat_esc_last [OF v(1)] esc_hd [of "last v"] by (simp add: esc_last_def)
  moreover have "butlast (esc_last v) = concat (map esc (butlast v)) @ [ch_bs]" if "last v = ch_space"
    using that by (simp add: esc_last_def butlast_append)
  ultimately show "last (esc_last v) = ch_space \<longrightarrow> odd (tb (butlast (esc_last v)))"
    using E by (cases "last v = ch_space") (auto simp: tb_snoc esc_def split: if_splits)
qed

lemma quoted_end:
  assumes v: "v \<noteq> []" "0 \<notin> set v"
  shows "last (quoted v) \<noteq> ch_nl" and "last (quoted v) = ch_space \<longrightarrow> odd (tb (butlast (quoted v)))"
proof -
  have "quoted v = esc_last v \<or> quoted v = [ch_bs, ch_space] @ esc_last (tl v) \<and> tl v \<noteq> [] \<and> 0 \<notin> set (tl v)"
    using v plain_esc_last [of v] by (cases v) (auto simp: quoted_def)
  then consider "quoted v = esc_last v" | "quoted v = [ch_bs, ch_space] @ esc_last (tl v)" "tl v \<noteq> []" "0 \<notin> set (tl v)"
    by blast
  then show "last (quoted v) \<noteq> ch_nl" "last (quoted v) = ch_space \<longrightarrow> odd (tb (butlast (quoted v)))"
  proof (atomize (full), cases)
    case 1
    then show "last (quoted v) \<noteq> ch_nl \<and> (last (quoted v) = ch_space \<longrightarrow> odd (tb (butlast (quoted v))))"
      using esc_last_end [OF v] by simp
  next
    case 2
    then show "last (quoted v) \<noteq> ch_nl \<and> (last (quoted v) = ch_space \<longrightarrow> odd (tb (butlast (quoted v))))"
      using esc_last_end [of "tl v"] esc_last_hd [of "tl v"] by (simp add: butlast_append tb_escaped)
  qed
qed

lemma quoted_not_null: "0 \<notin> set v \<Longrightarrow> 0 \<notin> set (quoted v)"
proof -
  have esc0: "0 \<notin> set w \<Longrightarrow> 0 \<notin> set (concat (map esc w))" for w
    by (induction w) (auto simp: esc_def)
  have "0 \<notin> set w \<Longrightarrow> 0 \<notin> set (esc_last w)" for w
    using esc0 [of w] esc0 [of "butlast w"] by (auto simp: esc_last_def dest: in_set_butlastD)
  moreover assume "0 \<notin> set v"
  moreover from this have "0 \<notin> set (tl v)"
    by (cases v) auto
  ultimately show ?thesis
    by (simp add: quoted_def)
qed

section \<open>Spellings\<close>

text \<open>
  A component as it stands in a string: key, blanks behind the equal sign, value, blanks behind the value. The key may end with spaces.
  The value holds no quotation mark, separator or equal sign that is not escaped; if its last character is a blank, this is escaped.
\<close>

record ava =
  av_key :: wstring
  av_gap :: wstring
  av_val :: wstring
  av_end :: wstring

definition ava_string :: "ava \<Rightarrow> wstring" where
  "ava_string a = av_key a @ ch_eq # av_gap a @ av_val a @ av_end a"

definition blanks :: "wstring \<Rightarrow> bool" where
  "blanks w \<longleftrightarrow> list_all (\<lambda>c. c = ch_space \<or> c = ch_nl) w"

definition key_ok :: "wstring \<Rightarrow> bool" where
  "key_ok k \<longleftrightarrow> k \<noteq> [] \<and> hd k \<noteq> ch_space \<and> list_all (\<lambda>c. \<not> ISSPECIAL c \<and> c \<noteq> 0) k"

definition val_ok :: "wstring \<Rightarrow> bool" where
  "val_ok q \<longleftrightarrow> q \<noteq> [] \<and> safe q \<and> \<not> is_blank (hd q) \<and> last q \<noteq> 0 \<and>
     (last q = ch_space \<or> last q = ch_nl \<longrightarrow> odd (tb (butlast q)))"

definition ava_ok :: "ava \<Rightarrow> bool" where
  "ava_ok a \<longleftrightarrow> key_ok (av_key a) \<and> blanks (av_gap a) \<and> val_ok (av_val a) \<and> blanks (av_end a)"

text \<open>A separator is followed by blanks; in front of the first component there may be blanks only.\<close>

definition is_sep :: "wstring \<Rightarrow> bool" where
  "is_sep w \<longleftrightarrow> w \<noteq> [] \<and> IsDNSepChar (hd w) \<and> blanks (tl w)"

type_synonym items = "(wstring \<times> ava) list"

definition spelled :: "items \<Rightarrow> wstring" where
  "spelled ts = concat (map (\<lambda>(sep, a). sep @ ava_string a) ts)"

definition items_ok :: "items \<Rightarrow> bool" where
  "items_ok ts \<longleftrightarrow> ts \<noteq> [] \<and> blanks (fst (hd ts)) \<and> list_all (\<lambda>t. ava_ok (snd t)) ts \<and> list_all (\<lambda>t. is_sep (fst t)) (tl ts)"

text \<open>The structure holds the spelling, with a terminator.\<close>

definition spells :: "DSNAME \<Rightarrow> items \<Rightarrow> bool" where
  "spells d ts \<longleftrightarrow> NameLen d = length (spelled ts) \<and> take (NameLen d + 1) (StringName d) = spelled ts @ [0] \<and> NameLen d < 2 ^ 32"

lemma spelled_simps [simp]: "spelled [] = []" "spelled ((sep, a) # ts) = sep @ ava_string a @ spelled ts"
  "spelled (ts @ us) = spelled ts @ spelled us"
  by (simp_all add: spelled_def)

lemma spellsE:
  assumes "spells d ts"
  obtains rest where "StringName d = spelled ts @ 0 # rest" "NameLen d = length (spelled ts)" "NameLen d < 2 ^ 32"
proof -
  have t: "take (NameLen d + 1) (StringName d) = spelled ts @ [0]"
    using assms unfolding spells_def by blast
  have "StringName d = spelled ts @ 0 # drop (NameLen d + 1) (StringName d)"
    using append_take_drop_id [of "NameLen d + 1" "StringName d", unfolded t] by simp
  then show ?thesis
    using that assms by (simp add: spells_def)
qed

text \<open>The form that \<^verbatim>\<open>AppendRDN\<close> writes is one of the spellings.\<close>

definition ava_of :: "rdn \<Rightarrow> ava" where
  "ava_of r = \<lparr>av_key = AttrTypeToKey (fst r), av_gap = [], av_val = quoted (snd r), av_end = []\<rparr>"

definition dn_items :: "rdn list \<Rightarrow> items" where
  "dn_items ns = (case ns of [] \<Rightarrow> [] | r # ns \<Rightarrow> ([], ava_of r) # map (\<lambda>r. ([ch_comma], ava_of r)) ns)"

lemma rdn_string_ava: "rdn_string r = ava_string (ava_of r)"
  by (simp add: rdn_string_def ava_string_def ava_of_def)

lemma spelled_tail: "ns \<noteq> [] \<Longrightarrow> spelled (map (\<lambda>r. ([ch_comma], ava_of r)) ns) = ch_comma # dn_string ns"
  by (induction ns rule: dn_string.induct) (simp_all add: rdn_string_ava)

lemma spelled_dn_items: "spelled (dn_items ns) = dn_string ns"
proof (cases ns)
  case (Cons r ms)
  then show ?thesis
    using spelled_tail [of ms] dn_string_Cons [of ms r] by (cases "ms = []") (simp_all add: dn_items_def rdn_string_ava)
qed (simp add: dn_items_def)

lemma dn_items_length: "length (dn_items ns) = length ns"
  by (simp add: dn_items_def split: list.split)

lemma key_ok_AttrTypeToKey: "AttrTypeToKey t \<noteq> [] \<Longrightarrow> key_ok (AttrTypeToKey t)"
  using AttrTypeToKey_chars [of t] by (auto simp: key_ok_def key_char_def list_all_iff)

lemma wf_rdn_ava_ok: "wf_rdn r \<Longrightarrow> ava_ok (ava_of r)"
proof -
  assume r: "wf_rdn r"
  then have v: "snd r \<noteq> []" "0 \<notin> set (snd r)"
    by (simp_all add: wf_rdn_def)
  have "last (quoted (snd r)) \<noteq> 0"
    using quoted_not_null [OF v(2)] quoted_hd(1) [OF v(1)] last_in_set by metis
  then have "val_ok (quoted (snd r))"
    using quoted_hd [OF v(1)] safe_quoted [OF v(2)] quoted_end [OF v] by (simp add: val_ok_def)
  then show ?thesis
    using r by (simp add: ava_ok_def ava_of_def blanks_def key_ok_AttrTypeToKey wf_rdn_def)
qed

lemma is_sep_comma [simp]: "is_sep [ch_comma]"
  by (simp add: is_sep_def IsDNSepChar_def blanks_def)

lemma items_ok_dn_items: "wf_dn ns \<Longrightarrow> ns \<noteq> [] \<Longrightarrow> items_ok (dn_items ns)"
  by (cases ns) (auto simp: items_ok_def dn_items_def wf_dn_def wf_rdn_ava_ok list_all_iff blanks_def)

lemma denotes_spells: "denotes d ns \<longleftrightarrow> spells d (dn_items ns)"
  by (simp add: denotes_def spells_def spelled_dn_items)

section \<open>Steps over components\<close>

lemma skip_spaces_stop: "wch s p \<noteq> ch_space \<Longrightarrow> wch s p \<noteq> ch_nl \<Longrightarrow> skip_spaces s p = p"
  by (subst skip_spaces.simps) simp

lemma rdn_string_first:
  assumes "wf_rdn r"
  obtains c w where "rdn_string r = c # w" "key_char c"
  using assms AttrTypeToKey_chars [of "fst r"] by (cases "AttrTypeToKey (fst r)") (auto simp: wf_rdn_def rdn_string_def)



lemma wch_skip_blanks:
  assumes "blanks g" and "s = pre @ g @ c # rest" and "c \<noteq> ch_space" and "c \<noteq> ch_nl"
  shows "skip_spaces s (length pre) = length pre + length g"
  using assms
proof (induction g arbitrary: pre)
  case (Cons x g)
  have "skip_spaces s (length pre) = skip_spaces s (length (pre @ [x]))"
    using Cons.prems by (subst skip_spaces.simps) (auto simp: blanks_def)
  also have "\<dots> = length (pre @ [x]) + length g"
    using Cons.prems by (intro Cons.IH) (simp_all add: blanks_def)
  finally show ?case
    by simp
qed (subst skip_spaces.simps, simp)

lemma safe_blanks: "blanks w \<Longrightarrow> safe w"
  by (induction w) (auto simp: blanks_def)

lemma safe_key_ok: "key_ok k \<Longrightarrow> safe k"
proof -
  have "safe w" if "list_all (\<lambda>c. \<not> ISSPECIAL c \<and> c \<noteq> 0) w" for w
    using that by (induction w) (auto simp: ISSPECIAL_iff)
  then show "key_ok k \<Longrightarrow> safe k"
    by (simp add: key_ok_def)
qed

lemma key_first:
  assumes "key_ok k"
  obtains c w where "k = c # w" "c \<noteq> ch_space" "c \<noteq> ch_nl" "c \<noteq> ch_comma" "c \<noteq> ch_semi"
  using assms by (cases k) (auto simp: key_ok_def ISSPECIAL_iff)

text \<open>From a separator, or from the start, to the separator behind the next component or to the end.\<close>

lemma step_ava:
  assumes a: "ava_ok a" and s: "s = pre @ sep @ ava_string a @ rest" and sep: "blanks sep \<or> is_sep sep"
    and q: "q = length (pre @ sep @ ava_string a)"
    and stop: "pEnd = q \<or> q < pEnd \<and> IsDNSepChar (wch s q)"
  shows "StepToNextDNSep s (length pre) pEnd = Inr (q, length (pre @ sep), Some (length (pre @ sep @ av_key a)))"
proof -
  let ?k = "av_key a" and ?v = "av_gap a @ av_val a @ av_end a"
  let ?a = "length (pre @ sep)" and ?b = "length (pre @ sep @ ?k)"
  have k: "key_ok ?k" and v: "safe ?v"
    using a safe_blanks [of "av_gap a"] safe_blanks [of "av_end a"] by (simp_all add: ava_ok_def val_ok_def safe_append)
  obtain c w where cw: "?k = c # w" "c \<noteq> ch_space" "c \<noteq> ch_nl" "c \<noteq> ch_comma" "c \<noteq> ch_semi"
    using k by (rule key_first)
  then have sc: "s = pre @ sep @ c # w @ ch_eq # ?v @ rest"
    using s by (simp add: ava_string_def)
  let ?p = "if wch s (length pre) = ch_comma \<or> wch s (length pre) = ch_semi then length pre + 1 else length pre"
  have skip: "skip_spaces s ?p = ?a"
    using sep
  proof
    assume b: "blanks sep"
    have "wch s (length pre) \<noteq> ch_comma \<and> wch s (length pre) \<noteq> ch_semi"
      using b cw sc by (cases sep) (auto simp: blanks_def)
    then show ?thesis
      using wch_skip_blanks [OF b sc cw(2,3)] by auto
  next
    assume "is_sep sep"
    then obtain d g where d: "sep = d # g" "d = ch_comma \<or> d = ch_semi" "blanks g"
      by (cases sep) (auto simp: is_sep_def IsDNSepChar_def)
    have "s = (pre @ [d]) @ g @ c # w @ ch_eq # ?v @ rest"
      using sc d by simp
    from wch_skip_blanks [OF d(3) this cw(2,3)] show ?thesis
      using sc d by auto
  qed
  have s1: "s = (pre @ sep) @ ?k @ ch_eq # ?v @ rest" and s2: "s = (pre @ sep @ ?k) @ ch_eq # ?v @ rest"
    and s3: "s = (pre @ sep @ ?k @ [ch_eq]) @ ?v @ rest" and qq: "q = length (pre @ sep @ ?k @ [ch_eq]) + length ?v"
    using s q by (simp_all add: ava_string_def)
  have eq: "wch s ?b = ch_eq"
    unfolding s2 by (rule wch_at)
  have "step_loop s pEnd ?a False None = step_loop s pEnd (?a + length ?k) False None"
    using stop qq by (intro step_safe [OF safe_key_ok [OF k] s1]) auto
  also have "\<dots> = step_loop s pEnd ?b False None"
    by (simp add: add.assoc)
  also have "\<dots> = step_loop s pEnd (length (pre @ sep @ ?k @ [ch_eq])) False (Some ?b)"
    using stop qq eq by (subst step_loop.simps) auto
  also have "\<dots> = step_loop s pEnd q False (Some ?b)"
    unfolding qq using stop qq by (intro step_safe [OF v s3]) auto
  also have "\<dots> = Inr (q, Some ?b)"
    using stop by (subst step_loop.simps) (auto simp: IsDNSepChar_def)
  finally show ?thesis
    unfolding StepToNextDNSep_def Let_def skip by simp
qed

text \<open>The first component of a spelling, and what follows it.\<close>

lemma step_items:
  assumes ts: "list_all (\<lambda>t. ava_ok (snd t)) ((sep, a) # ts)" "blanks sep \<or> is_sep sep" "list_all (\<lambda>t. is_sep (fst t)) ts"
    and s: "s = pre @ spelled ((sep, a) # ts) @ 0 # rest" and pEnd: "pEnd = length (pre @ spelled ((sep, a) # ts))"
    and q: "q = length (pre @ sep @ ava_string a)"
  shows "StepToNextDNSep s (length pre) pEnd = Inr (q, length (pre @ sep), Some (length (pre @ sep @ av_key a)))"
    and "wch s q = 0 \<longleftrightarrow> ts = []"
proof -
  have s': "s = (pre @ sep @ ava_string a) @ spelled ts @ 0 # rest"
    using s by simp
  have w: "(ts = [] \<longrightarrow> wch s q = 0) \<and> (ts \<noteq> [] \<longrightarrow> q < pEnd \<and> IsDNSepChar (wch s q))"
  proof (cases ts)
    case Nil
    then show ?thesis
      using s' q wch_at(1) [of "pre @ sep @ ava_string a" 0 rest] by simp
  next
    case (Cons t us)
    then obtain c g b where t: "t = (c # g, b)" "IsDNSepChar c"
      using ts(3) by (cases t; cases "fst t") (auto simp: is_sep_def)
    then have "s = (pre @ sep @ ava_string a) @ c # g @ ava_string b @ spelled us @ 0 # rest"
      using s' Cons by simp
    then have "wch s q = c"
      unfolding q by (simp only: wch_at)
    then show ?thesis
      using t Cons pEnd q by simp
  qed
  then show "wch s q = 0 \<longleftrightarrow> ts = []"
    by (auto simp: IsDNSepChar_def)
  show "StepToNextDNSep s (length pre) pEnd = Inr (q, length (pre @ sep), Some (length (pre @ sep @ av_key a)))"
    using ts s' w pEnd q by (intro step_ava [where rest = "spelled ts @ 0 # rest"]) auto
qed

section \<open>Counting and trimming\<close>

lemma ava_string_nonempty: "ava_string a \<noteq> []"
  by (simp add: ava_string_def)

lemma count_items:
  assumes "list_all (\<lambda>t. ava_ok (snd t)) ((sep, a) # ts)" and "blanks sep \<or> is_sep sep" and "list_all (\<lambda>t. is_sep (fst t)) ts"
    and "s = pre @ spelled ((sep, a) # ts) @ 0 # rest" and "pEnd = length (pre @ spelled ((sep, a) # ts))"
  shows "count_loop s pEnd (length pre) c = Inr (c + 1 + length ts)"
  using assms
proof (induction ts arbitrary: pre sep a c)
  case Nil
  note step = step_items [OF Nil.prems refl]
  show ?case
    using step ava_string_nonempty [of a] by (subst count_loop.simps) simp
next
  case (Cons t ts)
  obtain sep' b where t: "t = (sep', b)"
    by fastforce
  note step = step_items [OF Cons.prems refl]
  have "count_loop s pEnd (length (pre @ sep @ ava_string a)) (c + 1) = Inr (c + 1 + 1 + length ts)"
    using Cons.prems t by (intro Cons.IH [where sep = sep' and a = b]) simp_all
  then show ?case
    using step ava_string_nonempty [of a] by (subst count_loop.simps) simp
qed

text \<open>The first component of a string name, and what follows it.\<close>

lemma rdn_ava_ok_key: "wf_rdn r \<Longrightarrow> key_ok (av_key (ava_of r))"
  by (simp add: ava_of_def wf_rdn_def key_ok_AttrTypeToKey)

lemma step_dn:
  assumes ns: "wf_dn (r # ns)" and s: "s = pre @ sep @ dn_string (r # ns) @ 0 # rest" and sep: "sep = [] \<or> sep = [ch_comma]"
    and pEnd: "pEnd = length (pre @ sep @ dn_string (r # ns))" and q: "q = length (pre @ sep @ rdn_string r)"
  shows "StepToNextDNSep s (length pre) pEnd = Inr (q, length (pre @ sep), Some (length (pre @ sep @ AttrTypeToKey (fst r))))"
    and "wch s q = (if ns = [] then 0 else ch_comma)"
proof -
  let ?rest = "if ns = [] then 0 # rest else ch_comma # dn_string ns @ 0 # rest"
  have s': "s = (pre @ sep @ rdn_string r) @ ?rest"
    using s dn_string_Cons [of ns r] by (cases "ns = []") simp_all
  then show w: "wch s q = (if ns = [] then 0 else ch_comma)"
    unfolding q by simp
  have "ava_ok (ava_of r)"
    using ns by (simp add: wf_dn_def wf_rdn_ava_ok)
  moreover have "blanks sep \<or> is_sep sep"
    using sep by (auto simp: blanks_def is_sep_def IsDNSepChar_def)
  ultimately show "StepToNextDNSep s (length pre) pEnd = Inr (q, length (pre @ sep), Some (length (pre @ sep @ AttrTypeToKey (fst r))))"
    using step_ava [of "ava_of r" s pre sep ?rest q pEnd] s' q w pEnd dn_string_Cons [of ns r]
    by (cases "ns = []") (auto simp: rdn_string_ava ava_of_def IsDNSepChar_def)
qed

lemma of_nat_nz: "0 < n \<Longrightarrow> n < 2 ^ 32 \<Longrightarrow> (of_nat n :: 32 word) \<noteq> 0"
  using unat_of_nat [of n, where 'a = 32] by (auto simp del: unat_of_nat)

lemma trim_names:
  assumes "0 < n" and "n \<le> length ns" and "wf_dn ns" and "s = pre @ sep @ dn_string ns @ 0 # rest"
    and "sep = [] \<or> sep = [ch_comma]" and "pEnd = length (pre @ sep @ dn_string ns)" and "n < 2 ^ 32"
  shows "trim_loop s pEnd (length pre) (of_nat n) = Inr (0, length (pre @ sep @ dn_string (take n ns)))"
  using assms
proof (induction n arbitrary: ns pre sep)
  case (Suc n)
  then obtain r ms where ns: "ns = r # ms"
    by (cases ns) auto
  let ?q = "length (pre @ sep @ rdn_string r)"
  note step = step_dn [of r ms s pre sep rest pEnd ?q, OF _ _ _ _ refl]
  show ?case
  proof (cases "n = 0")
    case True
    then show ?thesis
      using Suc.prems step by (subst trim_loop.simps) (simp add: ns)
  next
    case False
    then have ms: "ms \<noteq> []" and nz: "(of_nat n :: 32 word) \<noteq> 0"
      using Suc.prems ns by (auto simp: of_nat_nz)
    have "trim_loop s pEnd ?q (of_nat n) = Inr (0, length ((pre @ sep @ rdn_string r) @ [ch_comma] @ dn_string (take n ms)))"
      using Suc.prems False ns ms by (intro Suc.IH) (simp_all add: wf_dn_def dn_string_Cons)
    then show ?thesis
      using Suc.prems step ms nz False by (subst trim_loop.simps) (simp add: ns dn_string_Cons)
  qed
qed simp

lemma trim_all:
  assumes "ns \<noteq> []" and "wf_dn ns" and "s = pre @ sep @ dn_string ns @ 0 # rest"
    and "sep = [] \<or> sep = [ch_comma]" and "pEnd = length (pre @ sep @ dn_string ns)"
    and "\<forall>k\<in>{0<..<length ns}. cava \<noteq> of_nat k"
  shows "trim_loop s pEnd (length pre) cava = Inr (cava - of_nat (length ns), pEnd)"
  using assms
proof (induction ns arbitrary: pre sep cava)
  case (Cons r ms)
  let ?q = "length (pre @ sep @ rdn_string r)"
  note step = step_dn [OF Cons.prems(2-5), of ?q, OF refl]
  show ?case
  proof (cases "ms = []")
    case True
    then show ?thesis
      using Cons.prems step by (subst trim_loop.simps) simp
  next
    case False
    have k: "\<forall>k\<in>{0<..<length ms}. cava - 1 \<noteq> of_nat k"
    proof
      fix k
      assume "k \<in> {0<..<length ms}"
      then have "cava \<noteq> of_nat (Suc k)"
        using Cons.prems(6) by (metis Suc_less_eq greaterThanLessThan_iff length_Cons zero_less_Suc)
      then show "cava - 1 \<noteq> of_nat k"
        by (simp add: diff_eq_eq add.commute)
    qed
    have "cava \<noteq> of_nat 1"
      using Cons.prems(6) False by (metis One_nat_def Suc_less_eq greaterThanLessThan_iff length_Cons length_greater_0_conv zero_less_one)
    moreover have "trim_loop s pEnd ?q (cava - 1) = Inr (cava - 1 - of_nat (length ms), pEnd)"
      using Cons.prems False k
      by (intro Cons.IH [where pre = "pre @ sep @ rdn_string r" and sep = "[ch_comma]"]) (simp_all add: wf_dn_def dn_string_Cons)
    ultimately show ?thesis
      using step False by (subst trim_loop.simps) (simp add: diff_diff_eq)
  qed
qed simp

section \<open>The routines on names\<close>

lemma not_root:
  assumes "denotes d ns" and "wf_dn ns" and "ns \<noteq> []"
  shows "\<not> IsRoot d" and "NameLen d \<noteq> 0"
proof -
  obtain r ms where ns: "ns = r # ms" and r: "wf_rdn r"
    using assms by (cases ns) (auto simp: wf_dn_def)
  have "1 < length (rdn_string r)"
    using r by (auto simp: wf_rdn_def rdn_string_def)
  then have "1 < NameLen d"
    using assms(1) ns by (cases ms) (auto simp: denotes_def)
  then show "\<not> IsRoot d" "NameLen d \<noteq> 0"
    by (auto simp: IsRoot_def)
qed

lemma spells_not_root:
  assumes "spells d ts" and "items_ok ts"
  shows "\<not> IsRoot d" and "NameLen d \<noteq> 0"
proof -
  obtain sep a us where ts: "ts = (sep, a) # us" and a: "ava_ok a"
    using assms(2) by (cases ts) (auto simp: items_ok_def)
  have "1 < length (ava_string a)"
    using a by (auto simp: ava_ok_def val_ok_def ava_string_def)
  then have "1 < NameLen d"
    using assms(1) ts by (simp add: spells_def)
  then show "\<not> IsRoot d" "NameLen d \<noteq> 0"
    by (auto simp: IsRoot_def)
qed

lemma count_spells:
  assumes d: "spells d ts" and ok: "items_ok ts"
  shows "CountNameParts d = Inr (length ts)"
proof -
  obtain rest where "StringName d = spelled ts @ 0 # rest" "NameLen d = length (spelled ts)"
    using d by (rule spellsE)
  moreover obtain sep a us where "ts = (sep, a) # us"
    using ok by (cases ts) (auto simp: items_ok_def)
  ultimately show ?thesis
    using count_items [of sep a us "StringName d" "[]" rest "NameLen d" 0] spells_not_root [OF d ok] ok
    by (simp add: CountNameParts_def items_ok_def)
qed

lemma count_denotes:
  "denotes d ns \<Longrightarrow> wf_dn ns \<Longrightarrow> ns \<noteq> [] \<Longrightarrow> CountNameParts d = Inr (length ns)"
  using count_spells [of d "dn_items ns"] items_ok_dn_items [of ns] by (simp add: denotes_spells dn_items_length)

lemma blit_0: "blit 0 w buf = w @ drop (length w) buf"
  by (simp add: blit_def)

lemma trim_denotes:
  assumes d: "denotes d ns" and wf: "wf_dn ns" and n: "0 < n" "n \<le> length ns"
  shows "\<exists>d'. TrimDSNameBy d (of_nat n) dst = (0, d') \<and> denotes d' (drop n ns) \<and> structLen d' = DSNameSizeFromLen (NameLen d')
    \<and> Guid d' = 0 \<and> SidLen d' = 0"
proof -
  obtain rest where s: "StringName d = dn_string ns @ 0 # rest" and len: "NameLen d = length (dn_string ns)" "NameLen d < 2 ^ 32"
    using d by (rule denotesE)
  have n32: "n < 2 ^ 32" and ns: "ns \<noteq> []"
    using n len dn_string_length [of ns] by auto
  let ?p = "length (dn_string (take n ns))"
  have loop: "trim_loop (StringName d) (NameLen d) 0 (of_nat n) = Inr (0, ?p)"
    using trim_names [of n ns "StringName d" "[]" "[]" rest "NameLen d"] n n32 wf s len by simp
  note run = TrimDSNameBy_def [of d "of_nat n" dst, unfolded Let_def loop]
  show ?thesis
  proof (cases "n = length ns")
    case True
    then have "wch (StringName d) ?p = 0" "drop n ns = []"
      using s by simp_all
    then show ?thesis
      using not_root [OF d wf ns] by (simp add: run memset_name_def denotes_def blit_0)
  next
    case False
    then have dr: "drop n ns \<noteq> []" and tk: "take n ns \<noteq> []"
      using n by auto
    then have sp: "dn_string ns = dn_string (take n ns) @ ch_comma # dn_string (drop n ns)"
      using dn_string_append [OF tk dr] by simp
    obtain r ms where rm: "drop n ns = r # ms" "wf_rdn r"
      using dr wf_dn_drop [OF wf, of n] by (cases "drop n ns") (auto simp: wf_dn_def)
    obtain c u where cu: "rdn_string r = c # u" "key_char c"
      using rm(2) by (rule rdn_string_first)
    then obtain w where c: "dn_string (drop n ns) = c # w" "key_char c"
      unfolding rm(1) by (cases "ms = []") (auto simp: dn_string_Cons)
    have comma: "wch (StringName d) ?p = ch_comma"
      unfolding s sp by simp
    have "skip_spaces (StringName d) (?p + 1) = ?p + 1"
    proof (rule skip_spaces_stop)
      have "wch (StringName d) (?p + 1) = c"
        unfolding s sp c(1) by simp
      then show "wch (StringName d) (?p + 1) \<noteq> ch_space" "wch (StringName d) (?p + 1) \<noteq> ch_nl"
        using c(2) by (auto simp: key_char_def ISSPECIAL_iff)
    qed
    moreover have "sub32 (NameLen d) (?p + 1) = length (dn_string (drop n ns))"
      using len sp by (subst sub32_le) simp_all
    moreover have "take (length (dn_string (drop n ns))) (drop (?p + 1) (StringName d)) = dn_string (drop n ns)"
      unfolding s sp by simp
    ultimately show ?thesis
      using not_root [OF d wf ns] comma len sp by (simp add: run memset_name_def denotes_def blit_0)
  qed
qed

lemma trim_too_many:
  assumes d: "denotes d ns" and wf: "wf_dn ns" and ns: "ns \<noteq> []" and n: "n = 0 \<or> length ns < n" "n < 2 ^ 32"
  shows "fst (TrimDSNameBy d (of_nat n) dst) = of_nat n - of_nat (length ns)"
proof -
  obtain rest where s: "StringName d = dn_string ns @ 0 # rest" and len: "NameLen d = length (dn_string ns)" "NameLen d < 2 ^ 32"
    using d by (rule denotesE)
  have l32: "length ns < 2 ^ 32"
    using len dn_string_length [of ns] by simp
  have "\<forall>k\<in>{0<..length ns}. (of_nat n :: 32 word) \<noteq> of_nat k"
    using n l32 by (auto simp: word_of_nat_eq_iff take_bit_eq_mod)
  then have "of_nat n - of_nat (length ns) \<noteq> (0 :: 32 word)"
    and loop: "trim_loop (StringName d) (NameLen d) 0 (of_nat n) = Inr (of_nat n - of_nat (length ns), NameLen d)"
    using trim_all [of ns "StringName d" "[]" "[]" rest "NameLen d" "of_nat n"] wf s len ns by auto
  then show ?thesis
    using not_root [OF d wf ns] by (simp add: TrimDSNameBy_def Let_def)
qed

end
