(* ===== verification/DN_Top.thy ===== *)
theory DN_Top
  imports DN_Names
begin

text \<open>
  Parsing a string name from its end. \<^verbatim>\<open>GetTopNameComponent\<close> decides by counting backslashes backwards what
  \<^verbatim>\<open>StepToNextDNSep\<close> decides by reading forwards; on the string of a name both see the same components.
\<close>

section \<open>Escaped positions\<close>

lemma count_escapes_tb:
  assumes "s = pre @ c0 # w @ rest" and "c0 \<noteq> ch_bs" and "base \<le> length pre" and "i \<le> length w"
  shows "count_escapes s base (length pre + 1 + i) = Some (tb (take i w))"
  using assms(4)
proof (induction i)
  case 0
  then show ?case
    using assms by simp
next
  case (Suc i)
  have "wch s (length pre + 1 + i) = w ! i"
    using Suc.prems wch_append(1) [of "pre @ [c0]" "w @ rest" i] by (simp add: assms(1) wch_def nth_append)
  then show ?case
    using Suc assms(3) by (simp add: take_Suc_conv_app_nth tb_snoc)
qed

lemma unescaped_at_tb:
  assumes "s = pre @ c0 # w @ rest" and "c0 \<noteq> ch_bs" and "base \<le> length pre" and "i \<le> length w"
  shows "unescaped_at s base (length pre + 1 + i) = even (tb (take i w))"
  unfolding unescaped_at_def count_escapes_tb [OF assms] by simp

section \<open>The loops\<close>

lemma skip_back_stop:
  assumes "0 < cc" and "\<not> IsUnescapedChar s pName (pName + cc - 1) ch_space" and "\<not> IsUnescapedChar s pName (pName + cc - 1) ch_nl"
  shows "skip_back s pName cc = cc"
  using assms by (cases cc) simp_all

lemma back_sep_stop:
  assumes inside: "\<forall>p\<in>{a..<e}. \<not> IsUnescapedChar s pName p ch_quote \<and> \<not> IsUnescapedDNSepChar s pName p"
    and start: "a = pName \<or> pName < a - 1 \<and> IsUnescapedDNSepChar s pName (a - 1)"
    and p: "a \<le> p" "p < e" "pName < p"
  shows "back_sep s pName p len = Inr (a, len + of_nat (p - a))"
  using p
proof (induction "p - a" arbitrary: p len)
  case 0
  then show ?case
    using inside start by (subst back_sep.simps) (auto simp: over_quote_def Let_def)
next
  case (Suc n)
  then have "a \<le> p - 1" "p - 1 < e" "p - a = Suc (p - 1 - a)"
    by auto
  moreover have "pName < p - 1 \<Longrightarrow> back_sep s pName (p - 1) (len + 1) = Inr (a, len + 1 + of_nat (p - 1 - a))"
    using Suc by (intro Suc.hyps(1)) auto
  moreover have "\<not> pName < p - 1 \<Longrightarrow> a = p - 1"
    using start Suc by auto
  ultimately show ?case
    using inside Suc.prems by (subst back_sep.simps) (auto simp: over_quote_def Let_def add.assoc)
qed

lemma key_loop_key:
  assumes "\<forall>c\<in>set k. \<not> ISSPECIAL c" and "s = pre @ k @ ch_eq # t" and "length k < n" and "n < 2 ^ 32"
  shows "key_loop s (length pre) (of_nat n) l = (length pre + length k, of_nat (n - length k), l + length k)"
  using assms
proof (induction k arbitrary: pre n l)
  case Nil
  then show ?case
    by (subst key_loop.simps) (simp add: ISSPECIAL_iff)
next
  case (Cons c k)
  then obtain m where n: "n = Suc m"
    by (cases n) auto
  have "key_loop s (length pre) (of_nat n) l = key_loop s (length (pre @ [c])) (of_nat m) (l + 1)"
    using Cons.prems of_nat_nz [of n] by (subst key_loop.simps) (simp add: n)
  also have "\<dots> = (length (pre @ [c]) + length k, of_nat (m - length k), l + 1 + length k)"
    using Cons.prems n by (intro Cons.IH) simp_all
  finally show ?case
    using n by simp
qed

lemma skip_back_blanks:
  assumes "\<forall>i<n. (wch s (base + m + i) = ch_space \<or> wch s (base + m + i) = ch_nl) \<and> unescaped_at s base (base + m + i)"
  shows "skip_back s base (m + n) = skip_back s base m"
  using assms by (induction n) (simp_all add: IsUnescapedChar_def add.assoc)

lemma blanks_nth: "blanks w \<Longrightarrow> i < length w \<Longrightarrow> w ! i = ch_space \<or> w ! i = ch_nl"
  by (simp add: blanks_def list_all_length)

lemma blanks_tb: "blanks h \<Longrightarrow> tb (h @ u) = tb u"
  by (induction h) (auto simp: blanks_def tb_normal)

text \<open>Key and value of a component with blanks in front of it.\<close>

lemma split_component:
  assumes a: "ava_ok a" and g: "blanks g" and s: "s = pre @ g @ ava_string a @ rest"
    and n: "n = length (g @ av_key a @ ch_eq # av_gap a @ av_val a)" "n < 2 ^ 32"
  shows "split_ava s (length pre) (of_nat n) = Inr (Some (length (pre @ g), length (av_key a),
    length (pre @ g @ av_key a @ ch_eq # av_gap a), of_nat (length (av_val a))))"
proof -
  let ?k = "av_key a" and ?h = "av_gap a" and ?v = "av_val a"
  have k: "key_ok ?k" and h: "blanks ?h" and v: "?v \<noteq> []" "\<not> is_blank (hd ?v)"
    using a by (simp_all add: ava_ok_def val_ok_def)
  obtain c w where cw: "?k = c # w" "c \<noteq> ch_space" "c \<noteq> ch_nl" "c \<noteq> ch_comma" "c \<noteq> ch_semi"
    using k by (rule key_first)
  obtain d u where du: "?v = d # u" "d \<noteq> ch_space" "d \<noteq> ch_nl"
    using v by (cases ?v) (auto simp: is_blank_def)
  have s1: "s = pre @ g @ c # w @ ch_eq # ?h @ ?v @ av_end a @ rest" and s2: "s = (pre @ g) @ ?k @ ch_eq # ?h @ ?v @ av_end a @ rest"
    and s3: "s = (pre @ g @ ?k) @ ch_eq # ?h @ ?v @ av_end a @ rest"
    and s4: "s = (pre @ g @ ?k @ [ch_eq]) @ ?h @ d # u @ av_end a @ rest"
    using s cw(1) du(1) by (simp_all add: ava_string_def)
  have skip: "skip_spaces s (length pre) = length (pre @ g)"
    using wch_skip_blanks [OF g s1 cw(2,3)] by simp
  have skip2: "skip_spaces s (length (pre @ g @ ?k @ [ch_eq])) = length (pre @ g @ ?k @ ch_eq # ?h)"
    using wch_skip_blanks [OF h s4 du(2,3)] by simp
  have sub: "(of_nat (x + y) :: 32 word) - of_nat x = of_nat y" for x y
    by simp
  have key: "key_loop s (length (pre @ g)) (of_nat (length ?k + 1 + length ?h + length ?v)) 0 =
      (length (pre @ g @ ?k), of_nat (Suc (length ?h + length ?v)), length ?k)"
    using key_loop_key [OF _ s2, of "length ?k + 1 + length ?h + length ?v" 0] k n by (simp add: key_ok_def list_all_iff)
  have eq: "wch s (length (pre @ g @ ?k)) = ch_eq"
    unfolding s3 by (rule wch_at)
  have nz: "(of_nat (Suc (length ?h + length ?v)) :: 32 word) \<noteq> 0" "(of_nat (length ?v) :: 32 word) \<noteq> 0" "length ?k \<noteq> 0"
    using n du(1) cw(1) by (intro of_nat_nz; simp)+ (simp add: cw(1))
  have "length (pre @ g) - length pre = length g" "length (pre @ g @ ?k @ ch_eq # ?h) - length (pre @ g @ ?k @ [ch_eq]) = length ?h"
    "length (pre @ g @ ?k) + 1 = length (pre @ g @ ?k @ [ch_eq])" "(of_nat (Suc (length ?h + length ?v)) :: 32 word) - 1 = of_nat (length ?h + length ?v)"
    by simp_all
  moreover have "n = length g + (length ?k + 1 + length ?h + length ?v)"
    using n by simp
  ultimately show ?thesis
    unfolding split_ava_def Let_def skip by (simp only: sub key eq nz skip2 prod.case simp_thms if_False)
qed

section \<open>The last component\<close>

text \<open>What stands in front of a component: nothing, or something that ends with a component and a separator.\<close>

definition ava_front :: "wstring \<Rightarrow> bool" where
  "ava_front w \<longleftrightarrow> w = [] \<or> (\<exists>f a c. ava_ok a \<and> IsDNSepChar c \<and> w = f @ ava_string a @ [c])"

lemma wch_mid: "i < length w \<Longrightarrow> wch (pre @ w @ rest) (length pre + i) = w ! i"
  by (simp add: wch_def nth_append)

definition ava_text :: "ava \<Rightarrow> wstring" where
  "ava_text a = av_gap a @ av_val a @ av_end a"

lemma ava_string_text: "ava_string a = av_key a @ ch_eq # ava_text a"
  by (simp add: ava_string_def ava_text_def)

lemma safe_text: "ava_ok a \<Longrightarrow> safe (ava_text a)"
  using safe_blanks [of "av_gap a"] safe_blanks [of "av_end a"] by (simp add: ava_text_def ava_ok_def val_ok_def safe_append)

lemma text_unescaped:
  assumes s: "s = pre @ ava_string a @ rest" and b: "base \<le> length pre" and i: "i \<le> length (ava_text a)"
  shows "unescaped_at s base (length pre + length (av_key a) + 1 + i) = even (tb (take i (ava_text a)))"
  using unescaped_at_tb [of s "pre @ av_key a" ch_eq "ava_text a" rest base i] assms by (simp add: ava_string_text)

lemma end_unescaped:
  assumes a: "ava_ok a" and s: "s = pre @ ava_string a @ rest" and b: "base \<le> length pre"
  shows "unescaped_at s base (length (pre @ ava_string a))"
  using text_unescaped [OF s b le_refl] safe_tb [OF safe_text [OF a]] by (simp add: ava_string_text add.assoc)

lemma ava_inside:
  assumes a: "ava_ok a" and s: "s = pre @ ava_string a @ rest" and b: "base \<le> length pre"
    and p: "length pre \<le> p" "p < length (pre @ ava_string a)"
  shows "\<not> IsUnescapedChar s base p ch_quote \<and> \<not> IsUnescapedDNSepChar s base p"
proof -
  let ?k = "av_key a" and ?v = "ava_text a"
  define j where "j = p - length pre"
  have pj: "p = length pre + j" "j < length (ava_string a)" and w: "wch s p = ava_string a ! j"
    using p wch_mid [of j "ava_string a" pre rest] by (simp_all add: j_def s)
  consider "j < length ?k" | "j = length ?k" | i where "j = length ?k + 1 + i" "i < length ?v"
  proof -
    assume 1: "j < length ?k \<Longrightarrow> thesis" and 2: "j = length ?k \<Longrightarrow> thesis"
      and 3: "\<And>i. j = length ?k + 1 + i \<Longrightarrow> i < length ?v \<Longrightarrow> thesis"
    have "j < length ?k + 1 + length ?v"
      using pj(2) by (simp add: ava_string_text)
    then show thesis
      using 1 2 3 [of "j - length ?k - 1"] by linarith
  qed
  then show ?thesis
  proof cases
    case 1
    then have "\<not> ISSPECIAL (wch s p)"
      using w a by (simp add: ava_string_text nth_append ava_ok_def key_ok_def list_all_length)
    then show ?thesis
      by (auto simp: IsUnescapedChar_def IsUnescapedDNSepChar_def IsDNSepChar_def ISSPECIAL_iff)
  next
    case 2
    then have "wch s p = ch_eq"
      using w by (simp add: ava_string_text nth_append)
    then show ?thesis
      by (simp add: IsUnescapedChar_def IsUnescapedDNSepChar_def IsDNSepChar_def)
  next
    case 3
    then have "wch s p = ?v ! i" and "unescaped_at s base p = even (tb (take i ?v))"
      using w text_unescaped [OF s b, of i] pj(1) by (simp_all add: ava_string_text nth_append add.assoc)
    then show ?thesis
      using safe_nth [OF safe_text [OF a] 3(2)] by (auto simp: IsUnescapedChar_def IsUnescapedDNSepChar_def IsDNSepChar_def)
  qed
qed

text \<open>The last character of the value is not skipped, the blanks behind it are.\<close>

lemma value_end:
  assumes a: "ava_ok a" and s: "s = pre @ ava_string a @ rest" and b: "base \<le> length pre"
    and p: "p = length (pre @ av_key a @ ch_eq # av_gap a @ av_val a) - 1"
  shows "\<not> IsUnescapedChar s base p ch_space" and "\<not> IsUnescapedChar s base p ch_nl" and "wch s p \<noteq> 0"
proof -
  let ?v = "av_val a"
  let ?i = "length (av_gap a) + (length ?v - 1)"
  have v: "?v \<noteq> []" "last ?v \<noteq> 0" "last ?v = ch_space \<or> last ?v = ch_nl \<longrightarrow> odd (tb (butlast ?v))" and h: "blanks (av_gap a)"
    using a by (auto simp: ava_ok_def val_ok_def)
  then obtain m where m: "length ?v = Suc m"
    by (cases ?v) auto
  have pi: "p = length pre + length (av_key a) + 1 + ?i" and i: "?i \<le> length (ava_text a)"
    and take: "take ?i (ava_text a) = av_gap a @ butlast ?v"
    using p m by (simp_all add: ava_text_def butlast_conv_take)
  have "wch s p = ?v ! (length ?v - 1)"
    using wch_mid [of "length ?v - 1" ?v "pre @ av_key a @ ch_eq # av_gap a" "av_end a @ rest"] v(1) pi by (simp add: s ava_string_def add.assoc)
  then have w: "wch s p = last ?v" and u: "unescaped_at s base p = even (tb (butlast ?v))"
    using v(1) text_unescaped [OF s b i] pi take blanks_tb [OF h] by (simp_all add: last_conv_nth)
  show "\<not> IsUnescapedChar s base p ch_space" "\<not> IsUnescapedChar s base p ch_nl" "wch s p \<noteq> 0"
    using v w u by (auto simp: IsUnescapedChar_def)
qed

lemma skip_to_value:
  assumes a: "ava_ok a" and s: "s = pre @ f @ ava_string a @ rest"
  shows "skip_back s (length pre) (length (f @ ava_string a)) = length (f @ av_key a @ ch_eq # av_gap a @ av_val a)"
proof -
  let ?m = "length (f @ av_key a @ ch_eq # av_gap a @ av_val a)"
  have s': "s = (pre @ f) @ ava_string a @ rest" and b: "length pre \<le> length (pre @ f)"
    using s by simp_all
  have e: "blanks (av_end a)" "safe (av_gap a @ av_val a)" and v: "av_val a \<noteq> []"
    using a safe_blanks [of "av_gap a"] by (simp_all add: ava_ok_def val_ok_def safe_append)
  have "(wch s (length pre + ?m + i) = ch_space \<or> wch s (length pre + ?m + i) = ch_nl) \<and> unescaped_at s (length pre) (length pre + ?m + i)"
    if i: "i < length (av_end a)" for i
  proof
    let ?j = "length (av_gap a) + length (av_val a) + i"
    have "wch s (length pre + ?m + i) = av_end a ! i"
      using wch_mid [OF i, of "pre @ f @ av_key a @ ch_eq # av_gap a @ av_val a" rest] by (simp add: s ava_string_def add.assoc)
    then show "wch s (length pre + ?m + i) = ch_space \<or> wch s (length pre + ?m + i) = ch_nl"
      using blanks_nth [OF e(1) i] by simp
    have t: "take ?j (ava_text a) = (av_gap a @ av_val a) @ take i (av_end a)" and j: "?j \<le> length (ava_text a)"
      using i by (simp_all add: ava_text_def)
    have "blanks (take i (av_end a))"
      using e(1) by (auto simp: blanks_def list_all_iff dest: in_set_takeD)
    then have "even (tb (take ?j (ava_text a)))"
      unfolding t by (intro safe_tb safe_append e(2) safe_blanks)
    then show "unescaped_at s (length pre) (length pre + ?m + i)"
      using text_unescaped [OF s' b j] by (simp add: add.assoc)
  qed
  then have "skip_back s (length pre) (?m + length (av_end a)) = skip_back s (length pre) ?m"
    by (intro skip_back_blanks) blast
  also have "\<dots> = ?m"
  proof (rule skip_back_stop)
    have p: "length pre + ?m - 1 = length ((pre @ f) @ av_key a @ ch_eq # av_gap a @ av_val a) - 1"
      by simp
    show "\<not> IsUnescapedChar s (length pre) (length pre + ?m - 1) ch_space" "\<not> IsUnescapedChar s (length pre) (length pre + ?m - 1) ch_nl"
      using value_end(1,2) [OF a s' b p] .
  qed simp
  finally show ?thesis
    by (simp add: ava_string_def add.assoc)
qed

text \<open>A separator behind the component, with its blanks.\<close>

lemma skip_to_sep:
  assumes a: "ava_ok a" and s: "s = pre @ f @ ava_string a @ sep @ rest" and sep: "is_sep sep"
  shows "skip_back s (length pre) (length (f @ ava_string a @ sep)) = length (f @ ava_string a) + 1"
    and "IsUnescapedDNSepChar s (length pre) (length (pre @ f @ ava_string a))"
proof -
  obtain c g where c: "sep = c # g" "IsDNSepChar c" "blanks g"
    using sep by (cases sep) (auto simp: is_sep_def)
  let ?m = "length (f @ ava_string a) + 1"
  have s1: "s = (pre @ f) @ ava_string a @ sep @ rest" and s2: "s = (pre @ f @ ava_string a) @ c # g @ rest"
    using s c by simp_all
  have w: "wch s (length (pre @ f @ ava_string a)) = c"
    unfolding s2 by (rule wch_at)
  then show "IsUnescapedDNSepChar s (length pre) (length (pre @ f @ ava_string a))"
    using end_unescaped [OF a s1, of "length pre"] c(2) by (simp add: IsUnescapedDNSepChar_def)
  have "(wch s (length pre + ?m + i) = ch_space \<or> wch s (length pre + ?m + i) = ch_nl) \<and> unescaped_at s (length pre) (length pre + ?m + i)"
    if i: "i < length g" for i
  proof
    have "wch s (length pre + ?m + i) = g ! i"
      using wch_mid [OF i, of "pre @ f @ ava_string a @ [c]" rest] by (simp add: s2 add.assoc)
    then show "wch s (length pre + ?m + i) = ch_space \<or> wch s (length pre + ?m + i) = ch_nl"
      using blanks_nth [OF c(3) i] by simp
    have "blanks (take i g)"
      using c(3) by (auto simp: blanks_def list_all_iff dest: in_set_takeD)
    then show "unescaped_at s (length pre) (length pre + ?m + i)"
      using unescaped_at_tb [OF s2, of "length pre" i] c(2) i safe_tb [OF safe_blanks] by (auto simp: IsDNSepChar_def add.assoc)
  qed
  then have "skip_back s (length pre) (?m + length g) = skip_back s (length pre) ?m"
    by (intro skip_back_blanks) blast
  also have "\<dots> = ?m"
    using w c(2) by (intro skip_back_stop) (auto simp: IsUnescapedChar_def IsDNSepChar_def add.assoc)
  finally show "skip_back s (length pre) (length (f @ ava_string a @ sep)) = ?m"
    using c by (simp add: add.assoc)
qed

lemma front_sep:
  assumes "ava_front front" and "s = pre @ front @ t"
  shows "length (pre @ front) = length pre
    \<or> length pre < length (pre @ front) - 1 \<and> IsUnescapedDNSepChar s (length pre) (length (pre @ front) - 1)"
proof (cases "front = []")
  case False
  then obtain f a c where a: "ava_ok a" "IsDNSepChar c" and f: "front = f @ ava_string a @ [c]"
    using assms(1) by (auto simp: ava_front_def)
  have s: "s = pre @ f @ ava_string a @ [c] @ t"
    using assms(2) f by simp
  have "is_sep [c]"
    using a(2) by (simp add: is_sep_def blanks_def)
  from skip_to_sep(2) [OF a(1) s this] show ?thesis
    using f ava_string_nonempty [of a] by (auto simp: add.assoc)
qed simp

lemma blanks_inside:
  assumes g: "blanks g" and s: "s = pre @ g @ rest" and p: "length pre \<le> p" "p < length (pre @ g)"
  shows "\<not> IsUnescapedChar s base p ch_quote \<and> \<not> IsUnescapedDNSepChar s base p"
proof -
  have "wch s p = g ! (p - length pre)" "p - length pre < length g"
    using wch_mid [of "p - length pre" g pre rest] p s by simp_all
  then have "wch s p = ch_space \<or> wch s p = ch_nl"
    using blanks_nth [OF g] by simp
  then show ?thesis
    by (auto simp: IsUnescapedChar_def IsUnescapedDNSepChar_def IsDNSepChar_def)
qed

text \<open>From the last character of the value back to the separator in front of the component.\<close>

lemma back_to_front:
  assumes a: "ava_ok a" and g: "blanks g" and s: "s = pre @ front @ g @ ava_string a @ rest" and front: "ava_front front"
    and n: "n = length (g @ av_key a @ ch_eq # av_gap a @ av_val a)"
  shows "back_sep s (length pre) (length (pre @ front) + n - 1) 1 = Inr (length (pre @ front), of_nat n)"
proof -
  let ?a = "length (pre @ front)"
  have s1: "s = (pre @ front) @ g @ ava_string a @ rest" and s2: "s = (pre @ front @ g) @ ava_string a @ rest"
    using s by simp_all
  have n2: "1 < n" "?a + n \<le> length (pre @ front @ g @ ava_string a)"
    using n a by (auto simp: ava_string_def ava_ok_def key_ok_def)
  have "\<not> IsUnescapedChar s (length pre) p ch_quote \<and> \<not> IsUnescapedDNSepChar s (length pre) p" if p: "p \<in> {?a..<?a + n}" for p
    using p n2 blanks_inside [OF g s1, of p "length pre"] ava_inside [OF a s2, of "length pre" p]
    by (cases "p < length ((pre @ front) @ g)") auto
  then have "back_sep s (length pre) (?a + n - 1) 1 = Inr (?a, 1 + of_nat (?a + n - 1 - ?a))"
    using front_sep [OF front s] n2 by (intro back_sep_stop [where e = "?a + n"]) auto
  moreover have "(1 + of_nat (?a + n - 1 - ?a) :: 32 word) = of_nat (Suc (?a + n - 1 - ?a))"
    by simp
  moreover have "Suc (?a + n - 1 - ?a) = n"
    using n2 by simp
  ultimately show ?thesis
    by simp
qed

lemma top_component:
  assumes a: "ava_ok a" and g: "blanks g" and s: "s = pre @ front @ g @ ava_string a @ rest" and front: "ava_front front"
    and cc: "cc = length (front @ g @ ava_string a) \<or> (\<exists>sep t. rest = sep @ t \<and> is_sep sep \<and> cc = length (front @ g @ ava_string a @ sep))"
    and len: "length (g @ ava_string a) < 2 ^ 32"
  shows "GetTopNameComponent s (length pre) cc = Inr (Some (length (pre @ front @ g), length (av_key a),
    length (pre @ front @ g @ av_key a @ ch_eq # av_gap a), of_nat (length (av_val a))))"
proof -
  let ?P = "length pre" and ?m = "length ((front @ g) @ av_key a @ ch_eq # av_gap a @ av_val a)"
  let ?n = "length (g @ av_key a @ ch_eq # av_gap a @ av_val a)" and ?out = "Inr (Some (length (pre @ front @ g), length (av_key a),
    length (pre @ front @ g @ av_key a @ ch_eq # av_gap a), of_nat (length (av_val a) :: nat) :: 32 word))"
  have s1: "s = pre @ (front @ g) @ ava_string a @ rest" and s2: "s = (pre @ front @ g) @ ava_string a @ rest"
    and s3: "s = (pre @ front) @ g @ ava_string a @ rest" and b: "?P \<le> length (pre @ front @ g)"
    using s by simp_all
  have k: "av_key a \<noteq> []"
    using a by (simp add: ava_ok_def key_ok_def)
  have p: "?P + ?m - 1 = length ((pre @ front @ g) @ av_key a @ ch_eq # av_gap a @ av_val a) - 1"
    by simp
  have w: "wch s (?P + ?m - 1) \<noteq> 0"
    using value_end(3) [OF a s2 b p] .
  have inside: "\<not> IsUnescapedDNSepChar s ?P (?P + ?m - 1)"
    using ava_inside [OF a s2 b, of "?P + ?m - 1"] by (simp add: ava_string_def)
  note skip = skip_to_value [OF a s1]
  have "length (pre @ front) + ?n - 1 = ?P + ?m - 1" "?n < 2 ^ 32"
    using len by (simp_all add: ava_string_def)
  then have out: "(case back_sep s ?P (?P + ?m - 1) 1 of Inl err \<Rightarrow> Inl err | Inr (p, len) \<Rightarrow> split_ava s p len) = ?out"
    using back_to_front [OF a g s front refl] split_component [OF a g s3 refl] by (simp add: add.assoc)
  have m: "?m \<noteq> 0" "?P + ?m - 1 \<noteq> ?P"
    using k by auto
  show ?thesis
    using cc
  proof
    assume "cc = length (front @ g @ ava_string a)"
    then have "cc \<noteq> 0" and cc: "skip_back s ?P cc = ?m"
      using skip ava_string_nonempty [of a] by simp_all
    then show ?thesis
      unfolding GetTopNameComponent_def Let_def cc using m w inside out by (simp only: simp_thms if_False if_True)
  next
    assume "\<exists>sep t. rest = sep @ t \<and> is_sep sep \<and> cc = length (front @ g @ ava_string a @ sep)"
    then obtain sep t where rest: "rest = sep @ t" "is_sep sep" and cc: "cc = length ((front @ g) @ ava_string a @ sep)"
      by auto
    let ?l = "length ((front @ g) @ ava_string a)"
    have s4: "s = pre @ (front @ g) @ ava_string a @ sep @ t"
      using s rest(1) by simp
    note sep = skip_to_sep [OF a s4 rest(2)]
    have l: "?P + (?l + 1) - 1 = length (pre @ (front @ g) @ ava_string a)" "?l + 1 - 1 = ?l" "cc \<noteq> 0" "?l + 1 \<noteq> 0"
      using cc ava_string_nonempty [of a] by simp_all
    have "wch s (length (pre @ (front @ g) @ ava_string a)) \<noteq> 0"
      using sep(2) by (auto simp: IsUnescapedDNSepChar_def IsDNSepChar_def)
    then show ?thesis
      unfolding GetTopNameComponent_def Let_def cc sep(1) using l m out sep(2) skip by (simp only: simp_thms if_False if_True l cc)
  qed
qed

end
