(* ===== verification/DN_Append.thy ===== *)
theory DN_Append
  imports DN_Top
begin

text \<open>
  The first component of a name (\<^verbatim>\<open>GetRDN\<close>, \<^verbatim>\<open>GetRDNInfoLame\<close>, \<^verbatim>\<open>GetRDNInfoExternal\<close>) and the name of a child (\<^verbatim>\<open>AppendRDN\<close>).
\<close>

section \<open>The first component\<close>

text \<open>Type and value are returned if the caller asks for them.\<close>

definition GetRDNInfoLame :: "dn_env \<Rightarrow> DSNAME \<Rightarrow> bool \<Rightarrow> bool \<Rightarrow> direrr + wstring option \<times> nat option" where
  "GetRDNInfoLame env pDN wantVal wantType =
     (let s = StringName pDN
      in case StepToNextDNSep s 0 (NameLen pDN) of
           Inl err \<Rightarrow> Inl err
         | Inr (i, t, e) \<Rightarrow>
             (case GetTopNameComponent s 0 i of
                Inl err \<Rightarrow> Inl err
              | Inr None \<Rightarrow> Inl DIRERR_NAME_UNPARSEABLE
              | Inr (Some (pKey, ccKey, pVal, ccVal)) \<Rightarrow>
                  if ccKey = 0 then Inl DIRERR_NAME_UNPARSEABLE
                  else
                    let RDNtype = (if wantType then Some (KeyToAttrTypeLame env (take ccKey (drop pKey s))) else None)
                    in if RDNtype = Some 0 then Inl DIRERR_NAME_TYPE_UNKNOWN
                       else if ccVal = 0 then Inl DIRERR_NAME_UNPARSEABLE
                       else if wantVal
                       then
                         let v = UnquoteRDNValue env s pVal (unat ccVal)
                         in if v = [] then Inl DIRERR_NAME_UNPARSEABLE else Inr (Some v, RDNtype)
                       else Inr (None, RDNtype)))"

definition GetRDNInfoExternal :: "dn_env \<Rightarrow> DSNAME \<Rightarrow> bool \<Rightarrow> bool \<Rightarrow> direrr + wstring option \<times> nat option" where
  "GetRDNInfoExternal = GetRDNInfoLame"

text \<open>The rest of the name, as a position and a count, and key and value of the first component.\<close>

definition GetRDN :: "wstring \<Rightarrow> nat \<Rightarrow> nat \<Rightarrow> direrr + nat \<times> nat \<times> (nat \<times> nat \<times> nat \<times> 32 word) option" where
  "GetRDN s pDN ccDN =
     (if ccDN = 0 then Inr (pDN, ccDN, None)
      else case StepToNextDNSep s pDN (pDN + ccDN) of
             Inl err \<Rightarrow> Inl err
           | Inr (pNext, pToken, e) \<Rightarrow>
               (case GetTopNameComponent s pToken (pNext - pToken) of
                  Inl err \<Rightarrow> Inl err
                | Inr out \<Rightarrow> Inr (pNext, pDN + ccDN - pNext, out)))"

section \<open>The name of a child\<close>

text \<open>
  The result is 0, or the size of the buffer the caller is asked for, or -1. \<open>RDNlen\<close> may be 0 for a value that is terminated.
  The buffer has \<open>ulBufSize\<close> bytes. Sizes are unsigned numbers.
\<close>

definition append_base :: "DSNAME \<Rightarrow> DSNAME \<Rightarrow> nat \<Rightarrow> nat \<Rightarrow> nat \<times> DSNAME" where
  "append_base pDNBase pDNNew ulBufSize i =
     (if IsRoot pDNBase
      then (0, pDNNew\<lparr>StringName := blit i [0] (StringName pDNNew), NameLen := i, structLen := DSNameSizeFromLen i\<rparr>)
      else
        let pDNNew = (if NameLen pDNBase \<noteq> 0 then pDNNew\<lparr>StringName := blit i [ch_comma] (StringName pDNNew)\<rparr> else pDNNew);
            i = (if NameLen pDNBase \<noteq> 0 then i + 1 else i);
            ulBufNeeded = DSNameSizeFromLen (i + NameLen pDNBase)
        in if ulBufSize < ulBufNeeded then (ulBufNeeded, pDNNew)
           else
             let n = i + NameLen pDNBase
             in (0, pDNNew\<lparr>StringName := blit i (take (NameLen pDNBase + 1) (StringName pDNBase)) (StringName pDNNew),
                  NameLen := n, structLen := DSNameSizeFromLen n\<rparr>))"

definition append_value :: "DSNAME \<Rightarrow> DSNAME \<Rightarrow> nat \<Rightarrow> wstring \<Rightarrow> nat \<Rightarrow> nat \<times> DSNAME" where
  "append_value pDNBase pDNNew ulBufSize v i =
     (let ccRemaining = sub32 ulBufSize (DSNameSizeFromLen i) div 2;
          (quotesize, quote) = QuoteRDNValue v (take ccRemaining (drop i (StringName pDNNew)));
          pDNNew = pDNNew\<lparr>StringName := blit i quote (StringName pDNNew)\<rparr>
      in if quotesize \<le> ccRemaining then append_base pDNBase pDNNew ulBufSize (i + quotesize)
         else (DSNameSizeFromLen (NameLen pDNBase + quotesize + 2), pDNNew))"

definition AppendRDN :: "DSNAME \<Rightarrow> DSNAME \<Rightarrow> nat \<Rightarrow> wstring \<Rightarrow> nat \<Rightarrow> nat \<Rightarrow> nat \<times> DSNAME" where
  "AppendRDN pDNBase pDNNew ulBufSize pRDNVal RDNlen AttId =
     (let RDNlen = (if RDNlen = 0 then length (takeWhile (\<lambda>c. c \<noteq> 0) pRDNVal) else RDNlen);
          ulBufNeeded = (structLen pDNBase + (RDNlen + 4) * 2) mod 2 ^ 32
      in if ulBufSize < ulBufNeeded then (ulBufNeeded, pDNNew)
         else
           let pDNNew = memset_name pDNNew; key = AttrTypeToKey AttId; i = length key;
               pDNNew = pDNNew\<lparr>StringName := blit 0 key (StringName pDNNew)\<rparr>;
               ulBufNeeded = nat ((int ulBufNeeded + (int i - 2) * 2) mod 2 ^ 32)
           in if i = 0 then (2 ^ 32 - 1, pDNNew)
              else if i \<noteq> 2 \<and> ulBufSize < ulBufNeeded then (ulBufNeeded, pDNNew)
              else
                let pDNNew = pDNNew\<lparr>StringName := blit i [ch_eq] (StringName pDNNew)\<rparr>
                in append_value pDNBase pDNNew ulBufSize (take RDNlen pRDNVal) (i + 1))"

section \<open>Components of names\<close>

definition front_string :: "rdn list \<Rightarrow> wstring" where
  "front_string ms = (if ms = [] then [] else dn_string ms @ [ch_comma])"

lemma dn_string_snoc: "dn_string (ms @ [r]) = front_string ms @ rdn_string r"
  by (cases "ms = []") (simp_all add: front_string_def dn_string_append)

text \<open>The last of some components of a spelling; behind it may stand the separator in front of the next one.\<close>

lemma items_front:
  assumes ok: "items_ok (ts @ [(sep, a)])"
  obtains f g where "sep = f @ g" "blanks g" "ava_front (spelled ts @ f)"
proof (cases ts rule: rev_cases)
  case Nil
  then show ?thesis
    using ok that [of "[]" sep] by (simp add: items_ok_def ava_front_def)
next
  case (snoc us u)
  obtain sep' b where u: "u = (sep', b)"
    by fastforce
  have "is_sep sep" "ava_ok b"
    using ok snoc u by (cases us; simp add: items_ok_def)+
  then obtain c g where sep: "sep = c # g" "IsDNSepChar c" "blanks g"
    by (cases sep) (auto simp: is_sep_def)
  have "spelled ts @ [c] = (spelled us @ sep') @ ava_string b @ [c]"
    using snoc u by simp
  then have "ava_front (spelled ts @ [c])"
    unfolding ava_front_def using \<open>ava_ok b\<close> sep(2) by blast
  then show ?thesis
    using that [of "[c]" g] sep by simp
qed

lemma top_of_items:
  assumes ok: "items_ok (ts @ [(sep, a)])" and s: "s = spelled (ts @ [(sep, a)]) @ rest" and len: "length (spelled (ts @ [(sep, a)])) < 2 ^ 32"
    and cc: "cc = length (spelled (ts @ [(sep, a)]))
      \<or> (\<exists>sep' t. rest = sep' @ t \<and> is_sep sep' \<and> cc = length (spelled (ts @ [(sep, a)]) @ sep'))"
  shows "GetTopNameComponent s 0 cc = Inr (Some (length (spelled ts @ sep), length (av_key a),
    length (spelled ts @ sep @ av_key a @ ch_eq # av_gap a), of_nat (length (av_val a))))"
proof -
  obtain f g where sep: "sep = f @ g" "blanks g" "ava_front (spelled ts @ f)"
    using ok by (rule items_front)
  have a: "ava_ok a" and s': "s = [] @ (spelled ts @ f) @ g @ ava_string a @ rest"
    using ok s sep(1) by (simp_all add: items_ok_def)
  have "cc = length ((spelled ts @ f) @ g @ ava_string a)
      \<or> (\<exists>sep' t. rest = sep' @ t \<and> is_sep sep' \<and> cc = length ((spelled ts @ f) @ g @ ava_string a @ sep'))"
    using cc sep(1) by simp
  moreover have "length (g @ ava_string a) < 2 ^ 32"
    using len sep(1) by simp
  ultimately show ?thesis
    using top_component [OF a sep(2) s' sep(3)] sep(1) by (simp add: add.assoc)
qed

text \<open>Type and value of a component, as the code reads them; 0 for an unknown key, the empty value for one that cannot be parsed.\<close>

definition ava_value :: "dn_env \<Rightarrow> ava \<Rightarrow> nat \<times> wstring" where
  "ava_value env a = (KeyToAttrTypeLame env (av_key a), UnquoteRDNValue env (av_val a) 0 (length (av_val a)))"

lemma ava_read:
  assumes a: "ava_ok a" and s: "s = pre @ ava_string a @ rest"
  shows "KeyToAttrTypeLame env (take (length (av_key a)) (drop (length pre) s)) = fst (ava_value env a)"
    and "UnquoteRDNValue env s (length (pre @ av_key a @ ch_eq # av_gap a)) (length (av_val a)) = snd (ava_value env a)"
proof -
  let ?p = "pre @ av_key a @ ch_eq # av_gap a" and ?v = "av_val a"
  show "KeyToAttrTypeLame env (take (length (av_key a)) (drop (length pre) s)) = fst (ava_value env a)"
    using s by (simp add: ava_string_def ava_value_def)
  have s': "s = ?p @ ?v @ av_end a @ rest"
    using s by (simp add: ava_string_def)
  have v: "?v \<noteq> []" "\<not> is_blank (hd ?v)" "safe ?v"
    using a by (simp_all add: ava_ok_def val_ok_def)
  then obtain c w where c: "?v = c # w" "c \<noteq> ch_quote" "\<not> is_blank c"
    by (cases ?v) (auto split: if_splits)
  have "\<forall>i<length ?v. wch s (length ?p + i) = wch ?v (0 + i)"
    using wch_mid [of _ ?v ?p "av_end a @ rest"] unfolding s' by (simp add: wch_def [of ?v])
  moreover from this have "wch s (length ?p) = c"
    using c(1) by (metis add_0_right add_0_left length_greater_0_conv list.distinct(1) wch_append(3))
  ultimately show "UnquoteRDNValue env s (length ?p) (length ?v) = snd (ava_value env a)"
    using unquote_local [of "length ?v" s "length ?p" ?v 0 env] c v(1) by (simp only: ava_value_def snd_conv length_greater_0_conv simp_thms)
qed

text \<open>The last component of the components \<open>ms\<close> and \<open>r\<close> of a longer name.\<close>

lemma dn_items_snoc: "dn_items (ms @ [r]) = dn_items ms @ [(if ms = [] then [] else [ch_comma], ava_of r)]"
  by (cases ms) (simp_all add: dn_items_def)

lemma front_string_items: "front_string ms = spelled (dn_items ms) @ (if ms = [] then [] else [ch_comma])"
  by (simp add: front_string_def spelled_dn_items)

lemma top_of_name:
  assumes wf: "wf_dn (ms @ [r])" and s: "s = dn_string (ms @ [r]) @ rest" and len: "length (dn_string (ms @ [r])) < 2 ^ 32"
    and cc: "cc = length (dn_string (ms @ [r])) \<or> cc = length (dn_string (ms @ [r])) + 1 \<and> rest \<noteq> [] \<and> hd rest = ch_comma"
  shows "GetTopNameComponent s 0 cc = Inr (Some (length (front_string ms), length (AttrTypeToKey (fst r)),
    length (front_string ms) + length (AttrTypeToKey (fst r)) + 1, of_nat (length (quoted (snd r)))))"
proof -
  let ?sep = "if ms = [] then [] else [ch_comma]"
  have sp: "spelled (dn_items ms @ [(?sep, ava_of r)]) = dn_string (ms @ [r])"
    using spelled_dn_items [of "ms @ [r]"] by (simp add: dn_items_snoc)
  have ok: "items_ok (dn_items ms @ [(?sep, ava_of r)])"
    using items_ok_dn_items [OF wf] by (simp add: dn_items_snoc)
  have "cc = length (dn_string (ms @ [r])) \<or> (\<exists>sep' t. rest = sep' @ t \<and> is_sep sep' \<and> cc = length (dn_string (ms @ [r]) @ sep'))"
    using cc
  proof
    assume "cc = length (dn_string (ms @ [r])) + 1 \<and> rest \<noteq> [] \<and> hd rest = ch_comma"
    then have "rest = [ch_comma] @ tl rest \<and> is_sep [ch_comma] \<and> cc = length (dn_string (ms @ [r]) @ [ch_comma])"
      by (cases rest) simp_all
    then show ?thesis
      by blast
  qed simp
  then show ?thesis
    using top_of_items [OF ok, unfolded sp, OF s len] by (simp add: front_string_items ava_of_def add.assoc)
qed

lemma ava_value_of:
  assumes r: "wf_rdn r" and max: "length (snd r) \<le> e_MAX_RDN_SIZE env" and street: "e_CompareStringW env (wstr ''STREET'') (wstr ''STREET'')"
  shows "ava_value env (ava_of r) = r"
  using unquote_quoted_value [of "snd r" env "quoted (snd r)" "[]" "[]"] AttrTypeToKey_nonempty [of "fst r"] key_roundtrip [OF _ street] r max
  by (simp add: ava_value_def ava_of_def wf_rdn_def)

lemma key_and_value:
  assumes r: "wf_rdn r" and s: "s = pre @ rdn_string r @ rest" and max: "length (snd r) \<le> e_MAX_RDN_SIZE env"
  shows "take (length (AttrTypeToKey (fst r))) (drop (length pre) s) = AttrTypeToKey (fst r)"
    and "UnquoteRDNValue env s (length pre + length (AttrTypeToKey (fst r)) + 1) (length (quoted (snd r))) = snd r"
  using unquote_quoted_value [of "snd r" env s "pre @ AttrTypeToKey (fst r) @ [ch_eq]" rest] assms
  by (simp_all add: rdn_string_def wf_rdn_def)

lemma known_type_nz: "AttrTypeToKey t \<noteq> [] \<Longrightarrow> t \<in> known_types \<and> t \<noteq> 0"
  using AttrTypeToKey_nonempty [of t] by (auto simp: known_types_def ATT_defs)

text \<open>The first component of a string name, wherever the string stands.\<close>

lemma first_component:
  assumes wf: "wf_dn (r # ns)" and s: "s = pre @ sep @ dn_string (r # ns) @ 0 # rest" and sep: "sep = [] \<or> sep = [ch_comma]"
    and len: "length (dn_string (r # ns)) < 2 ^ 32"
  shows "GetTopNameComponent s (length (pre @ sep)) (length (rdn_string r)) =
    Inr (Some (length (pre @ sep), length (AttrTypeToKey (fst r)), length (pre @ sep) + length (AttrTypeToKey (fst r)) + 1,
      of_nat (length (quoted (snd r)))))"
proof -
  let ?rest = "if ns = [] then 0 # rest else ch_comma # dn_string ns @ 0 # rest"
  have "s = (pre @ sep) @ [] @ rdn_string r @ ?rest" "length (rdn_string r) < 2 ^ 32" "wf_rdn r"
    using s len wf dn_string_Cons [of ns r] by (cases "ns = []"; simp add: wf_dn_def)+
  then show ?thesis
    using top_component [of "ava_of r" "[]" s "pre @ sep" "[]" ?rest "length (rdn_string r)"] wf_rdn_ava_ok [of r]
    by (simp add: ava_front_def blanks_def rdn_string_ava ava_of_def)
qed

lemma get_rdn:
  assumes wf: "wf_dn (r # ns)" and s: "s = pre @ sep @ dn_string (r # ns) @ 0 # rest" and sep: "sep = [] \<or> sep = [ch_comma]"
    and len: "length (dn_string (r # ns)) < 2 ^ 32" and cc: "cc = length (sep @ dn_string (r # ns))"
  shows "GetRDN s (length pre) cc = Inr (length (pre @ sep @ rdn_string r), length (dn_string (r # ns)) - length (rdn_string r),
    Some (length (pre @ sep), length (AttrTypeToKey (fst r)), length (pre @ sep) + length (AttrTypeToKey (fst r)) + 1,
      of_nat (length (quoted (snd r)))))"
proof -
  have "cc \<noteq> 0"
    using cc by (cases ns) (auto simp: rdn_string_def)
  moreover have "StepToNextDNSep s (length pre) (length pre + cc) = Inr (length (pre @ sep @ rdn_string r), length (pre @ sep),
      Some (length (pre @ sep @ AttrTypeToKey (fst r))))"
    using cc by (intro step_dn [OF wf s sep]) simp_all
  ultimately show ?thesis
    using first_component [OF wf s sep len] cc by (simp add: GetRDN_def)
qed

text \<open>Type and value of the first component of a spelling.\<close>

lemma get_info_items:
  assumes d: "spells d ts" and ok: "items_ok ts" and v: "ava_value env (snd (hd ts)) = (t, v)"
  shows "GetRDNInfoExternal env d wantVal wantType =
    (if wantType \<and> t = 0 then Inl DIRERR_NAME_TYPE_UNKNOWN else if wantVal \<and> v = [] then Inl DIRERR_NAME_UNPARSEABLE
     else Inr (if wantVal then Some v else None, if wantType then Some t else None))"
proof -
  obtain rest where s: "StringName d = spelled ts @ 0 # rest" and len: "NameLen d = length (spelled ts)" "NameLen d < 2 ^ 32"
    using d by (rule spellsE)
  let ?s = "StringName d"
  obtain sep a us where ts: "ts = (sep, a) # us"
    using ok by (cases ts) (auto simp: items_ok_def)
  then have a: "ava_ok a" "blanks sep" "list_all (\<lambda>t. ava_ok (snd t)) ((sep, a) # us)" "list_all (\<lambda>t. is_sep (fst t)) us"
    and va: "ava_value env a = (t, v)"
    using ok v by (simp_all add: items_ok_def)
  have s0: "?s = [] @ spelled ((sep, a) # us) @ 0 # rest" and s1: "?s = [] @ [] @ sep @ ava_string a @ spelled us @ 0 # rest"
    and s2: "?s = sep @ ava_string a @ spelled us @ 0 # rest"
    using s ts by simp_all
  have step: "StepToNextDNSep ?s 0 (NameLen d) = Inr (length (sep @ ava_string a), length sep, Some (length (sep @ av_key a)))"
    using step_items(1) [OF a(3) _ a(4) s0, of "NameLen d"] a(2) len ts by simp
  have top: "GetTopNameComponent ?s 0 (length (sep @ ava_string a)) = Inr (Some (length sep, length (av_key a),
      length (sep @ av_key a @ ch_eq # av_gap a), of_nat (length (av_val a))))"
    using top_component [OF a(1,2) s1, of "length (sep @ ava_string a)"] len ts by (simp add: ava_front_def)
  have k: "av_key a \<noteq> []" "av_val a \<noteq> []" and "length (av_val a) \<le> length (spelled ts)"
    using a(1) ts by (simp_all add: ava_ok_def key_ok_def val_ok_def ava_string_def)
  then have "length (av_val a) < 2 ^ 32"
    using len by linarith
  then have uv: "unat (of_nat (length (av_val a)) :: 32 word) = length (av_val a)" and nz: "(of_nat (length (av_val a)) :: 32 word) \<noteq> 0"
    using k(2) by (simp_all add: unat_of_nat of_nat_nz)
  note read = ava_read [OF a(1) s2, of env, unfolded va fst_conv snd_conv]
  show ?thesis
    using step top k uv nz read by (simp add: GetRDNInfoExternal_def GetRDNInfoLame_def)
qed

lemma get_rdn_info:
  assumes d: "denotes d (r # ns)" and wf: "wf_dn (r # ns)" and max: "length (snd r) \<le> e_MAX_RDN_SIZE env"
    and street: "e_CompareStringW env (wstr ''STREET'') (wstr ''STREET'')"
  shows "GetRDNInfoExternal env d wantVal wantType = Inr (if wantVal then Some (snd r) else None, if wantType then Some (fst r) else None)"
proof -
  have r: "wf_rdn r" and sp: "spells d (dn_items (r # ns))" "items_ok (dn_items (r # ns))"
    using d wf items_ok_dn_items [OF wf] by (simp_all add: wf_dn_def denotes_spells)
  have "ava_value env (snd (hd (dn_items (r # ns)))) = (fst r, snd r)"
    using ava_value_of [OF r max street] by (simp add: dn_items_def)
  from get_info_items [OF sp this] show ?thesis
    using r known_type_nz [of "fst r"] by (simp add: wf_rdn_def)
qed

section \<open>Appending\<close>

lemma blit_append: "length a = i \<Longrightarrow> blit i w (a @ b) = a @ w @ drop (length w) b"
  by (simp add: blit_def)

text \<open>The key, the equal sign and the quoted value in the buffer of the new name.\<close>

lemma quote_into:
  assumes v: "v \<noteq> []" and fit: "length (quoted v) \<le> cc" "length (quoted v) \<le> length t"
  obtains u t' where "QuoteRDNValue v (take cc t) = (length (quoted v), quoted v @ u)"
    and "blit (length a) (quoted v @ u) (a @ t) = a @ quoted v @ t'" and "length t' = length t - length (quoted v)"
proof -
  have "length (quoted v) \<le> length (take cc t)"
    using fit by simp
  note q = quote_fits [OF v this]
  define u where "u = (let r = drop (length (quoted v)) (take cc t) in if r = [] then [] else 0 # tl r)"
  have t: "terminated (quoted v) (drop (length (quoted v)) (take cc t)) = quoted v @ u"
    by (simp add: terminated_def u_def Let_def)
  have "length u = min cc (length t) - length (quoted v)"
    by (auto simp: u_def Let_def)
  then show ?thesis
    using that [of u "u @ drop (length (quoted v @ u)) t"] q t fit by (simp add: blit_append)
qed

lemma append_base_denotes:
  assumes d: "denotes base ns" "wf_dn ns" and root: "ns = [] \<Longrightarrow> IsRoot base"
    and new: "StringName new = rdn_string r @ t" "Guid new = 0" "SidLen new = 0"
    and cb: "DSNameSizeFromLen (NameLen base + length (rdn_string r) + 1) \<le> cb" "cb < 2 ^ 32"
  shows "\<exists>d'. append_base base new cb (length (rdn_string r)) = (0, d') \<and> denotes d' (r # ns)
    \<and> structLen d' = DSNameSizeFromLen (NameLen d') \<and> Guid d' = 0 \<and> SidLen d' = 0"
proof (cases "ns = []")
  case True
  then show ?thesis
    using root cb new by (simp add: append_base_def denotes_def blit_append DSNameSizeFromLen_def)
next
  case False
  have tk: "take (Suc (NameLen base)) (StringName base) = dn_string ns @ [0]" and len: "NameLen base = length (dn_string ns)"
    using d(1) unfolding denotes_def Suc_eq_plus1 by blast+
  have S: "blit (Suc (length (rdn_string r))) (dn_string ns @ [0]) (blit (length (rdn_string r)) [ch_comma] (rdn_string r @ t)) =
      (rdn_string r @ ch_comma # dn_string ns) @ 0 # drop (Suc (length (dn_string ns))) (drop 1 t)"
    using blit_append [of "rdn_string r @ [ch_comma]" "Suc (length (rdn_string r))" "dn_string ns @ [0]" "drop 1 t"]
    by (simp add: blit_append)
  show ?thesis
    using not_root [OF d False] cb new(2,3) tk len False
    by (simp add: append_base_def Let_def denotes_def new(1) S dn_string_Cons DSNameSizeFromLen_def)
qed

lemma append_value_denotes:
  assumes d: "denotes base ns" "wf_dn ns" and root: "ns = [] \<Longrightarrow> IsRoot base"
    and v: "v \<noteq> []" and i: "i = length (AttrTypeToKey t) + 1"
    and new: "StringName new = (AttrTypeToKey t @ [ch_eq]) @ T" "Guid new = 0" "SidLen new = 0" and T: "length (quoted v) \<le> length T"
    and cb: "DSNameSizeFromLen (NameLen base + length (rdn_string (t, v)) + 1) \<le> cb" "cb < 2 ^ 32"
  shows "\<exists>d'. append_value base new cb v i = (0, d') \<and> denotes d' ((t, v) # ns)
    \<and> structLen d' = DSNameSizeFromLen (NameLen d') \<and> Guid d' = 0 \<and> SidLen d' = 0"
proof -
  let ?k = "AttrTypeToKey t" and ?q = "quoted v"
  define cc where "cc = sub32 cb (DSNameSizeFromLen i) div 2"
  have "DSNameSizeFromLen i + 2 * length ?q \<le> cb"
    using cb(1) i by (simp add: DSNameSizeFromLen_def rdn_string_def)
  then have cc: "length ?q \<le> cc"
    using cb(2) by (simp add: cc_def sub32_le)
  obtain u T' where q: "QuoteRDNValue v (take cc T) = (length ?q, ?q @ u)"
    and S: "blit (length (?k @ [ch_eq])) (?q @ u) ((?k @ [ch_eq]) @ T) = (?k @ [ch_eq]) @ ?q @ T'"
    by (rule quote_into [OF v cc T, of "?k @ [ch_eq]"])
  let ?new = "new\<lparr>StringName := blit i (?q @ u) (StringName new)\<rparr>"
  have new': "StringName ?new = rdn_string (t, v) @ T'" and i': "i + length ?q = length (rdn_string (t, v))"
    using S i by (simp_all add: new(1) rdn_string_def)
  have "drop i (StringName new) = T"
    by (simp add: new(1) i)
  then have "append_value base new cb v i = append_base base ?new cb (i + length ?q)"
    using q cc unfolding append_value_def Let_def cc_def [symmetric] by simp
  then show ?thesis
    using append_base_denotes [OF d root new' _ _ cb] new(2,3) i' by simp
qed

lemma quoted_longer: "v \<noteq> [] \<Longrightarrow> length v \<le> length (quoted v)"
  using esc_concat_length [of v] esc_concat_length [of "tl v"] esc_last_length [of v] esc_last_length [of "tl v"]
  by (cases v) (auto simp: quoted_def)

lemma append_denotes:
  assumes d: "denotes base ns" "wf_dn ns" "structLen base = DSNameSizeFromLen (NameLen base)" and root: "ns = [] \<Longrightarrow> IsRoot base"
    and v: "AttrTypeToKey t \<noteq> []" "v \<noteq> []"
    and val: "take n val = v" "n = length v"
    and cb: "DSNameSizeFromLen (NameLen base + length (rdn_string (t, v)) + 2) \<le> cb" "cb < 2 ^ 32"
    and buf: "cb \<le> 56 + 2 * length (StringName new)"
  shows "\<exists>d'. AppendRDN base new cb val n t = (0, d') \<and> denotes d' ((t, v) # ns) \<and> structLen d' = DSNameSizeFromLen (NameLen d')
    \<and> Guid d' = 0 \<and> SidLen d' = 0"
proof -
  let ?k = "AttrTypeToKey t" and ?q = "quoted v"
  have sz: "62 + 2 * (NameLen base + length ?k + 1 + length ?q) \<le> cb"
    using cb(1) by (simp add: DSNameSizeFromLen_def rdn_string_def)
  have k1: "1 \<le> length ?k" and n0: "n \<noteq> 0" and vq: "n \<le> length ?q"
    using v val quoted_longer [OF v(2)] by (cases ?k; simp)+
  define need where "need = DSNameSizeFromLen (NameLen base) + (n + 4) * 2"
  have need: "need \<le> cb" "need < 2 ^ 32"
    using sz cb(2) vq k1 by (simp_all add: need_def DSNameSizeFromLen_def)
  have "(int need + (int (length ?k) - 2) * 2) mod 2 ^ 32 = int need + (int (length ?k) - 2) * 2"
    using sz cb(2) vq k1 by (intro mod_pos_pos_trivial) (simp_all add: need_def DSNameSizeFromLen_def)
  then have needk: "nat ((int need + (int (length ?k) - 2) * 2) mod 2 ^ 32) \<le> cb"
    using sz vq by (simp add: need_def DSNameSizeFromLen_def)
  define S where "S = blit 0 [0, 0] (StringName new)"
  let ?new = "(memset_name new)\<lparr>StringName := (?k @ [ch_eq]) @ drop (length ?k + 1) S\<rparr>"
  have S1: "blit (length ?k) [ch_eq] (blit 0 ?k S) = (?k @ [ch_eq]) @ drop (length ?k + 1) S"
    using blit_append [of ?k "length ?k" "[ch_eq]" "drop (length ?k) S"] by (simp add: blit_0)
  have "length ?k + 1 + length ?q \<le> length S"
    using buf sz by (simp add: S_def blit_def)
  then have T: "length ?q \<le> length (drop (length ?k + 1) S)"
    by simp
  have nn: "(if n = 0 then length (takeWhile (\<lambda>c. c \<noteq> 0) val) else n) = n" and nm: "need mod 2 ^ 32 = need"
    and k0: "length ?k \<noteq> 0" and cl: "StringName (memset_name new) = S"
    using n0 need v(1) by (simp_all add: memset_name_def S_def)
  have "AppendRDN base new cb val n t = append_value base ?new cb v (length ?k + 1)"
    unfolding AppendRDN_def Let_def nn d(3) need_def [symmetric] nm val(1)
    using need(1) needk k0 by (simp only: not_less if_False cl not_le [symmetric] simp_thms) (simp add: S1)
  moreover have "DSNameSizeFromLen (NameLen base + length (rdn_string (t, v)) + 1) \<le> cb"
    using cb(1) by (simp add: DSNameSizeFromLen_def)
  ultimately show ?thesis
    using append_value_denotes [OF d(1,2) root v(2) refl, where t = t and new = ?new and T = "drop (length ?k + 1) S" and cb = cb] T cb(2) by (simp add: memset_name_def)
qed

end
