(* ===== verification/DN_Match.thy ===== *)
theory DN_Match
  imports DN_Append
begin

text \<open>
  Comparison of names, \<^verbatim>\<open>NameMatched\<close> and \<^verbatim>\<open>NameMatchedStringNameOnly\<close> of \<^verbatim>\<open>ntdsa/src/parsedn.c\<close>: by GUID, by SID or component by
  component. On string names the result is the comparison of the abstract names.
\<close>

section \<open>The code\<close>

text \<open>
  From the top down, \<open>i\<close> components. \<open>None\<close>: \<^verbatim>\<open>GetTopNameComponent\<close> reported the root, and the code goes on with a length computed from
  a null pointer.
\<close>

fun match_loop :: "dn_env \<Rightarrow> wstring \<Rightarrow> wstring \<Rightarrow> nat \<Rightarrow> nat \<Rightarrow> nat \<Rightarrow> bool option" where
  "match_loop env s1 s2 len1 len2 0 = Some True"
| "match_loop env s1 s2 len1 len2 (Suc i) =
     (case GetTopNameComponent s1 0 len1 of
        Inl err \<Rightarrow> Some False
      | Inr None \<Rightarrow> None
      | Inr (Some (pKey1, ccKey1, pVal1, ccVal1)) \<Rightarrow>
          (case GetTopNameComponent s2 0 len2 of
             Inl err \<Rightarrow> Some False
           | Inr None \<Rightarrow> None
           | Inr (Some (pKey2, ccKey2, pVal2, ccVal2)) \<Rightarrow>
               if KeyToAttrTypeLame env (take ccKey1 (drop pKey1 s1)) \<noteq> KeyToAttrTypeLame env (take ccKey2 (drop pKey2 s2))
                 \<or> \<not> e_CompareStringW env (UnquoteRDNValue env s1 pVal1 (unat ccVal1)) (UnquoteRDNValue env s2 pVal2 (unat ccVal2))
               then Some False
               else match_loop env s1 s2 pKey1 pKey2 i))"

definition NameMatchedStringNameOnly :: "dn_env \<Rightarrow> DSNAME \<Rightarrow> DSNAME \<Rightarrow> bool option" where
  "NameMatchedStringNameOnly env pDN1 pDN2 =
     (if NameLen pDN1 = NameLen pDN2 \<and> take (NameLen pDN1) (StringName pDN1) = take (NameLen pDN1) (StringName pDN2) then Some True
      else if NameLen pDN1 = 0 \<or> NameLen pDN2 = 0 then Some False
      else case (CountNameParts pDN1, CountNameParts pDN2) of
        (Inr count1, Inr count2) \<Rightarrow>
          if count1 \<noteq> count2 then Some False
          else if count1 = 0 then Some True
          else (case (GetRDNInfoExternal env pDN1 True True, GetRDNInfoExternal env pDN2 True True) of
                  (Inr (Some rdn1, type1), Inr (Some rdn2, type2)) \<Rightarrow>
                    if type1 \<noteq> type2 \<or> \<not> e_CompareStringW env rdn1 rdn2 then Some False
                    else match_loop env (StringName pDN1) (StringName pDN2) (NameLen pDN1) (NameLen pDN2) (count1 - 1)
                | _ \<Rightarrow> Some False)
      | _ \<Rightarrow> Some False)"

definition NameMatched :: "dn_env \<Rightarrow> DSNAME \<Rightarrow> DSNAME \<Rightarrow> bool option" where
  "NameMatched env pDN1 pDN2 =
     (if Guid pDN1 \<noteq> 0 \<and> Guid pDN2 \<noteq> 0 then Some (Guid pDN1 = Guid pDN2)
      else if SidLen pDN1 \<noteq> 0 \<and> SidLen pDN2 \<noteq> 0 \<and> (NameLen pDN1 = 0 \<or> NameLen pDN2 = 0)
      then Some (SidLen pDN1 = SidLen pDN2 \<and> take (SidLen pDN1) (Sid pDN1) = take (SidLen pDN1) (Sid pDN2))
      else NameMatchedStringNameOnly env pDN1 pDN2)"

section \<open>Matching names\<close>

definition rdn_match :: "dn_env \<Rightarrow> rdn \<Rightarrow> rdn \<Rightarrow> bool" where
  "rdn_match env r q \<longleftrightarrow> fst r = fst q \<and> e_CompareStringW env (snd r) (snd q)"

definition values_fit :: "dn_env \<Rightarrow> rdn list \<Rightarrow> bool" where
  "values_fit env ns \<longleftrightarrow> list_all (\<lambda>r. length (snd r) \<le> e_MAX_RDN_SIZE env) ns"

text \<open>For spellings. The first component can be read if its key is known and its value can be parsed.\<close>

definition ava_match :: "dn_env \<Rightarrow> ava \<Rightarrow> ava \<Rightarrow> bool" where
  "ava_match env a b \<longleftrightarrow> fst (ava_value env a) = fst (ava_value env b) \<and> e_CompareStringW env (snd (ava_value env a)) (snd (ava_value env b))"

definition readable :: "dn_env \<Rightarrow> ava \<Rightarrow> bool" where
  "readable env a \<longleftrightarrow> fst (ava_value env a) \<noteq> 0 \<and> snd (ava_value env a) \<noteq> []"

definition named :: "dn_env \<Rightarrow> items \<Rightarrow> bool" where
  "named env ts \<longleftrightarrow> ts = [] \<or> items_ok ts \<and> readable env (snd (hd ts))"

text \<open>What the code reads of the last of some components of a name.\<close>

lemma top_read:
  assumes wf: "wf_dn (ms @ [r])" and s: "s = dn_string (ms @ [r]) @ rest" and len: "length (dn_string (ms @ [r])) < 2 ^ 32"
    and cc: "cc = length (dn_string (ms @ [r])) \<or> cc = length (dn_string (ms @ [r])) + 1 \<and> rest \<noteq> [] \<and> hd rest = ch_comma"
    and max: "length (snd r) \<le> e_MAX_RDN_SIZE env" and street: "e_CompareStringW env (wstr ''STREET'') (wstr ''STREET'')"
  obtains ccKey pVal ccVal where "GetTopNameComponent s 0 cc = Inr (Some (length (front_string ms), ccKey, pVal, ccVal))"
    and "KeyToAttrTypeLame env (take ccKey (drop (length (front_string ms)) s)) = fst r" and "UnquoteRDNValue env s pVal (unat ccVal) = snd r"
    and "ccKey \<noteq> 0"
proof -
  have r: "wf_rdn r" and s': "s = front_string ms @ rdn_string r @ rest"
    using wf s by (simp_all add: wf_dn_def dn_string_snoc)
  have "length (quoted (snd r)) < 2 ^ 32"
    using len by (simp add: dn_string_snoc rdn_string_def)
  then have "unat (of_nat (length (quoted (snd r))) :: 32 word) = length (quoted (snd r))"
    by (simp add: unat_of_nat)
  moreover have "KeyToAttrTypeLame env (AttrTypeToKey (fst r)) = fst r" "AttrTypeToKey (fst r) \<noteq> []"
    using r known_type_nz [of "fst r"] key_roundtrip [OF _ street] by (auto simp: wf_rdn_def)
  ultimately show ?thesis
    using that [OF top_of_name [OF wf s len cc]] key_and_value [OF r s' max] by simp
qed

section \<open>Matching spellings\<close>

lemma items_read:
  assumes ok: "items_ok (ts @ [(sep, a)])" and s: "s = spelled (ts @ [(sep, a)]) @ rest" and len: "length (spelled (ts @ [(sep, a)])) < 2 ^ 32"
    and cc: "cc = length (spelled (ts @ [(sep, a)]))
      \<or> (\<exists>sep' t. rest = sep' @ t \<and> is_sep sep' \<and> cc = length (spelled (ts @ [(sep, a)]) @ sep'))"
  obtains ccKey pVal ccVal where "GetTopNameComponent s 0 cc = Inr (Some (length (spelled ts @ sep), ccKey, pVal, ccVal))"
    and "KeyToAttrTypeLame env (take ccKey (drop (length (spelled ts @ sep)) s)) = fst (ava_value env a)"
    and "UnquoteRDNValue env s pVal (unat ccVal) = snd (ava_value env a)"
proof -
  have a: "ava_ok a" and s': "s = (spelled ts @ sep) @ ava_string a @ rest"
    using ok s by (simp_all add: items_ok_def)
  have "length (av_val a) < 2 ^ 32"
    using len by (simp add: ava_string_def)
  then have "unat (of_nat (length (av_val a)) :: 32 word) = length (av_val a)"
    by (simp add: unat_of_nat)
  then show ?thesis
    using that [OF top_of_items [OF ok s len cc]] ava_read [OF a s', of env] by simp
qed

lemma items_ok_butlast: "items_ok (ts @ [t]) \<Longrightarrow> ts \<noteq> [] \<Longrightarrow> items_ok ts \<and> is_sep (fst t)"
  by (cases ts) (simp_all add: items_ok_def)

lemma match_items:
  assumes "length ts = length us" and "ts \<noteq> []" and "items_ok ts" and "items_ok us"
    and "s1 = spelled ts @ rest1" and "s2 = spelled us @ rest2" and "length (spelled ts) < 2 ^ 32" and "length (spelled us) < 2 ^ 32"
    and "len1 = length (spelled ts) \<or> (\<exists>sep t. rest1 = sep @ t \<and> is_sep sep \<and> len1 = length (spelled ts @ sep))"
    and "len2 = length (spelled us) \<or> (\<exists>sep t. rest2 = sep @ t \<and> is_sep sep \<and> len2 = length (spelled us @ sep))"
  shows "match_loop env s1 s2 len1 len2 (length ts - 1) = Some (list_all2 (ava_match env) (map snd (tl ts)) (map snd (tl us)))"
  using assms
proof (induction ts arbitrary: us rest1 rest2 len1 len2 rule: rev_induct)
  case (snoc x ts)
  obtain sep1 a where x: "x = (sep1, a)"
    by fastforce
  obtain vs sep2 b where us: "us = vs @ [(sep2, b)]" and l: "length vs = length ts"
    using snoc.prems(1) by (cases us rule: rev_cases) auto
  note prems = snoc.prems [unfolded us x]
  show ?case
  proof (cases "ts = []")
    case True
    then show ?thesis
      using us l by simp
  next
    case False
    then have vs: "vs \<noteq> []"
      using l by auto
    obtain k1 p1 c1 where 1: "GetTopNameComponent s1 0 len1 = Inr (Some (length (spelled ts @ sep1), k1, p1, c1))"
      "KeyToAttrTypeLame env (take k1 (drop (length (spelled ts @ sep1)) s1)) = fst (ava_value env a)"
      "UnquoteRDNValue env s1 p1 (unat c1) = snd (ava_value env a)"
      by (rule items_read [OF prems(3,5,7,9)])
    obtain k2 p2 c2 where 2: "GetTopNameComponent s2 0 len2 = Inr (Some (length (spelled vs @ sep2), k2, p2, c2))"
      "KeyToAttrTypeLame env (take k2 (drop (length (spelled vs @ sep2)) s2)) = fst (ava_value env b)"
      "UnquoteRDNValue env s2 p2 (unat c2) = snd (ava_value env b)"
      by (rule items_read [OF prems(4,6,8,10)])
    obtain m where m: "length ts = Suc m"
      using False by (cases ts) auto
    then have i: "length (ts @ [x]) - 1 = Suc m" "length ts - 1 = m"
      by simp_all
    have "match_loop env s1 s2 (length (spelled ts @ sep1)) (length (spelled vs @ sep2)) (length ts - 1) =
        Some (list_all2 (ava_match env) (map snd (tl ts)) (map snd (tl vs)))"
      using prems False l items_ok_butlast [OF prems(3) False] items_ok_butlast [OF prems(4) vs]
      by (intro snoc.IH [where ?rest1.0 = "sep1 @ ava_string a @ rest1" and ?rest2.0 = "sep2 @ ava_string b @ rest2"]) auto
    moreover have "list_all2 (ava_match env) (map snd (tl (ts @ [x]))) (map snd (tl us)) =
        (ava_match env a b \<and> list_all2 (ava_match env) (map snd (tl ts)) (map snd (tl vs)))"
      using False vs us x l by (auto simp: list_all2_append)
    ultimately show ?thesis
      unfolding i using 1 2 by (auto simp: ava_match_def [of env a b])
  qed
qed simp

text \<open>The string of the name, or the count, the first component and the others.\<close>

lemma matched_items:
  assumes d1: "spells d1 ts" "items_ok ts" and d2: "spells d2 us" "items_ok us"
  shows "NameMatchedStringNameOnly env d1 d2 = Some (spelled ts = spelled us \<or> readable env (snd (hd ts)) \<and> readable env (snd (hd us))
    \<and> list_all2 (ava_match env) (map snd ts) (map snd us))"
proof -
  obtain rest1 where 1: "StringName d1 = spelled ts @ 0 # rest1" "NameLen d1 = length (spelled ts)" "NameLen d1 < 2 ^ 32"
    using d1(1) by (rule spellsE)
  obtain rest2 where 2: "StringName d2 = spelled us @ 0 # rest2" "NameLen d2 = length (spelled us)" "NameLen d2 < 2 ^ 32"
    using d2(1) by (rule spellsE)
  have same: "NameLen d1 = NameLen d2 \<and> take (NameLen d1) (StringName d1) = take (NameLen d1) (StringName d2) \<longleftrightarrow> spelled ts = spelled us"
    using 1 2 by auto
  show ?thesis
  proof (cases "spelled ts = spelled us")
    case True
    then show ?thesis
      unfolding NameMatchedStringNameOnly_def same by simp
  next
    case False
    obtain sep1 a ts' where ts: "ts = (sep1, a) # ts'"
      using d1(2) by (cases ts) (auto simp: items_ok_def)
    obtain sep2 b us' where us: "us = (sep2, b) # us'"
      using d2(2) by (cases us) (auto simp: items_ok_def)
    obtain t v t' v' where v: "ava_value env a = (t, v)" "ava_value env b = (t', v')"
      by fastforce
    have info: "GetRDNInfoExternal env d1 True True = (if t = 0 then Inl DIRERR_NAME_TYPE_UNKNOWN else if v = [] then Inl DIRERR_NAME_UNPARSEABLE
        else Inr (Some v, Some t))"
      "GetRDNInfoExternal env d2 True True = (if t' = 0 then Inl DIRERR_NAME_TYPE_UNKNOWN else if v' = [] then Inl DIRERR_NAME_UNPARSEABLE
        else Inr (Some v', Some t'))"
      using get_info_items [OF d1, of env t v True True] get_info_items [OF d2, of env t' v' True True] v ts us by simp_all
    have loop: "match_loop env (StringName d1) (StringName d2) (NameLen d1) (NameLen d2) (length ts - 1) =
        Some (list_all2 (ava_match env) (map snd ts') (map snd us'))" if "length ts = length us"
      using match_items [OF that _ d1(2) d2(2) 1(1) 2(1), of "NameLen d1" "NameLen d2" env] 1 2 ts us by simp
    note run = NameMatchedStringNameOnly_def [of env d1 d2, unfolded same count_spells [OF d1] count_spells [OF d2] info]
    have nz: "NameLen d1 \<noteq> 0" "NameLen d2 \<noteq> 0" "length ts \<noteq> 0"
      using spells_not_root(2) [OF d1] spells_not_root(2) [OF d2] ts by simp_all
    show ?thesis
    proof (cases "length ts = length us")
      case True
      then show ?thesis
        unfolding run using False nz loop [OF True] v ts us by (auto simp: readable_def ava_match_def)
    next
      case count: False
      then have "\<not> list_all2 (ava_match env) (map snd ts) (map snd us)"
        by (auto dest: list_all2_lengthD)
      then show ?thesis
        unfolding run using False nz count by simp
    qed
  qed
qed

text \<open>The same string, read as two spellings: the components have the same types and values.\<close>

lemma same_spelling:
  assumes ok: "items_ok ts" "items_ok us" and eq: "spelled ts = spelled us" and len: "length (spelled ts) < 2 ^ 32"
    and read: "readable env (snd (hd ts))" "readable env (snd (hd us))" and cmp: "\<forall>v. e_CompareStringW env v v"
  shows "list_all2 (ava_match env) (map snd ts) (map snd us)"
proof -
  let ?s = "spelled ts @ [0]" and ?l = "length (spelled ts)"
  define d where "d = \<lparr>structLen = 0, SidLen = 0, Guid = 0, Sid = [], NameLen = ?l, StringName = ?s\<rparr>"
  have d: "spells d ts" "spells d us"
    using len eq by (simp_all add: spells_def d_def)
  have n: "length ts = length us"
    using count_spells [OF d(1) ok(1)] count_spells [OF d(2) ok(2)] by simp
  have ne: "ts \<noteq> []" "us \<noteq> []"
    using ok by (simp_all add: items_ok_def)
  have "Some (list_all2 (ava_match env) (map snd (tl ts)) (map snd (tl us))) = match_loop env ?s ?s ?l ?l (length ts - 1)"
    using match_items [OF n ne(1) ok, of ?s "[0]" ?s "[0]" ?l ?l env] eq len by simp
  also have "\<dots> = Some (list_all2 (ava_match env) (map snd (tl ts)) (map snd (tl ts)))"
    using match_items [OF refl ne(1) ok(1,1), of ?s "[0]" ?s "[0]" ?l ?l env] len by simp
  also have "list_all2 (ava_match env) (map snd (tl ts)) (map snd (tl ts)) = True"
    using cmp by (simp add: list.rel_refl ava_match_def)
  finally have tail: "list_all2 (ava_match env) (map snd (tl ts)) (map snd (tl us))"
    by simp
  obtain t v t' v' where v: "ava_value env (snd (hd ts)) = (t, v)" "ava_value env (snd (hd us)) = (t', v')"
    by fastforce
  then have "t = t' \<and> v = v'"
    using get_info_items [OF d(1) ok(1) v(1), of True True] get_info_items [OF d(2) ok(2) v(2), of True True] read
    by (simp add: readable_def)
  then have "ava_match env (snd (hd ts)) (snd (hd us))"
    using v cmp by (simp add: ava_match_def)
  then show ?thesis
    using tail ne by (cases ts; cases us) auto
qed

text \<open>Names whose first components can be read.\<close>

lemma matched_named:
  assumes d1: "spells d1 ts" "named env ts" and d2: "spells d2 us" "named env us" and refl: "\<forall>v. e_CompareStringW env v v"
  shows "NameMatchedStringNameOnly env d1 d2 = Some (list_all2 (ava_match env) (map snd ts) (map snd us))"
proof -
  consider "items_ok ts" "items_ok us" | "ts = []" | "us = []"
    using d1(2) d2(2) by (auto simp: named_def)
  then show ?thesis
  proof cases
    case 1
    then have "readable env (snd (hd ts))" "readable env (snd (hd us))"
      using d1(2) d2(2) by (auto simp: named_def items_ok_def)
    then show ?thesis
      using matched_items [OF d1(1) 1(1) d2(1) 1(2)] same_spelling [OF 1 _ _ _ _ refl] d1(1) by (auto simp: spells_def)
  next
    case 2
    then show ?thesis
      using d1(1) d2 spells_not_root(2) [OF d2(1)] by (auto simp: NameMatchedStringNameOnly_def spells_def named_def)
  next
    case 3
    then show ?thesis
      using d2(1) d1 spells_not_root(2) [OF d1(1)] by (auto simp: NameMatchedStringNameOnly_def spells_def named_def)
  qed
qed

section \<open>Names as AppendRDN writes them\<close>

lemma rdn_match_refl: "\<forall>v. e_CompareStringW env v v \<Longrightarrow> list_all2 (rdn_match env) ns ns"
  by (simp add: list.rel_refl rdn_match_def)

lemma dn_items_avas: "map snd (dn_items ns) = map ava_of ns"
  by (cases ns) (simp_all add: dn_items_def)

lemma named_dn_items:
  assumes "wf_dn ns" and "values_fit env ns" and "e_CompareStringW env (wstr ''STREET'') (wstr ''STREET'')"
  shows "named env (dn_items ns)" and "map (ava_value env) (map snd (dn_items ns)) = ns"
proof -
  have v: "\<forall>r\<in>set ns. ava_value env (ava_of r) = r"
    using assms by (auto simp: wf_dn_def values_fit_def list_all_iff intro: ava_value_of)
  then show "map (ava_value env) (map snd (dn_items ns)) = ns"
    unfolding dn_items_avas by (simp add: map_idI)
  show "named env (dn_items ns)"
    using v assms(1) items_ok_dn_items [of ns] known_type_nz
    by (cases ns) (auto simp: named_def readable_def dn_items_def wf_dn_def wf_rdn_def)
qed

lemma matched_names:
  assumes d1: "denotes d1 ms" "wf_dn ms" "values_fit env ms" and d2: "denotes d2 ns" "wf_dn ns" "values_fit env ns"
    and refl: "\<forall>v. e_CompareStringW env v v"
  shows "NameMatchedStringNameOnly env d1 d2 = Some (list_all2 (rdn_match env) ms ns)"
proof -
  have street: "e_CompareStringW env (wstr ''STREET'') (wstr ''STREET'')"
    using refl by blast
  note m = named_dn_items [OF d1(2,3) street] and n = named_dn_items [OF d2(2,3) street]
  have "list_all2 (ava_match env) as bs = list_all2 (rdn_match env) (map (ava_value env) as) (map (ava_value env) bs)" for as bs
    by (simp add: list_all2_map1 list_all2_map2 ava_match_def [abs_def] rdn_match_def)
  then show ?thesis
    using matched_named [of d1 "dn_items ms" env d2 "dn_items ns"] d1(1) d2(1) refl m n by (simp only: denotes_spells simp_thms)
qed

end
