(* ===== verification/DN_Mangle.thy ===== *)
theory DN_Mangle
  imports DN_Match
begin

text \<open>
  Mangled names, \<^verbatim>\<open>MangleRDNWithStatus\<close>, \<^verbatim>\<open>IsMangledRDN\<close>, \<^verbatim>\<open>IsMangledRDNExternal\<close> and \<^verbatim>\<open>IsMangledDSNAME\<close> of \<^verbatim>\<open>ntdsa/src/parsedn.c\<close>: a
  line feed, a tag and a GUID behind the value make the names of deleted and of conflicting objects unique. The string forms
  of GUIDs are a parameter.
\<close>

section \<open>The code\<close>

datatype MANGLE_FOR =
  MANGLE_OBJECT_RDN_FOR_DELETION
| MANGLE_OBJECT_RDN_FOR_NAME_CONFLICT
| MANGLE_PHANTOM_RDN_FOR_NAME_CONFLICT
| MANGLE_PHANTOM_RDN_FOR_DELETION

definition BAD_NAME_CHAR :: WCHAR where
  "BAD_NAME_CHAR = 0x0A"

definition MANGLE_TAG_LEN :: nat where
  "MANGLE_TAG_LEN = 3"

definition MANGLE_APPEND_LEN :: nat where
  "MANGLE_APPEND_LEN = 1 + MANGLE_TAG_LEN + 1 + 36"

definition MAX_MANGLE_RDN_BASE :: nat where
  "MAX_MANGLE_RDN_BASE = 75"

definition SZGUIDLEN :: nat where
  "SZGUIDLEN = 36"

lemmas mangle_consts = BAD_NAME_CHAR_def MANGLE_TAG_LEN_def MANGLE_APPEND_LEN_def MAX_MANGLE_RDN_BASE_def SZGUIDLEN_def

text \<open>
  The tag is compared by three bytes, that is by its first character and by half of the second. \<open>None\<close> is the return value
  \<^verbatim>\<open>FALSE\<close>.
\<close>

definition tag_is_CNF :: "wstring \<Rightarrow> nat \<Rightarrow> bool" where
  "tag_is_CNF s p \<longleftrightarrow> wch s p = of_char CHR ''C'' \<and> wch s (p + 1) mod 256 = of_char CHR ''N''"

definition IsMangledRDN :: "dn_env \<Rightarrow> wstring \<Rightarrow> nat \<Rightarrow> (GUID \<times> MANGLE_FOR) option" where
  "IsMangledRDN env pszRDN cchRDN =
     (if cchRDN > MANGLE_APPEND_LEN \<and> wch pszRDN (cchRDN - MANGLE_APPEND_LEN) = BAD_NAME_CHAR
      then
        let pszGuid = cchRDN - MANGLE_APPEND_LEN + 1 + MANGLE_TAG_LEN + 1
        in case e_UuidFromStringW env (take SZGUIDLEN (drop pszGuid pszRDN)) of
             None \<Rightarrow> None
           | Some guid \<Rightarrow>
               Some (guid, if tag_is_CNF pszRDN (cchRDN - MANGLE_APPEND_LEN + 1) then MANGLE_PHANTOM_RDN_FOR_NAME_CONFLICT
                           else MANGLE_OBJECT_RDN_FOR_DELETION)
      else None)"

definition mangle_tag :: "MANGLE_FOR \<Rightarrow> wstring" where
  "mangle_tag eMangleFor =
     (if eMangleFor = MANGLE_OBJECT_RDN_FOR_DELETION \<or> eMangleFor = MANGLE_PHANTOM_RDN_FOR_DELETION then wstr ''DEL'' else wstr ''CNF'')"

text \<open>\<^verbatim>\<open>_snwprintf\<close> writes at most \<open>n\<close> characters and a terminator if there is room for it.\<close>

definition snwprintf :: "nat \<Rightarrow> wstring \<Rightarrow> wstring" where
  "snwprintf n w = (if length w < n then w @ [0] else take n w)"

text \<open>The buffer and the count on return; \<open>None\<close> is an error of \<^verbatim>\<open>UuidToStringW\<close>, which leaves both alone.\<close>

definition MangleRDNWithStatus :: "dn_env \<Rightarrow> MANGLE_FOR \<Rightarrow> GUID \<Rightarrow> wstring \<Rightarrow> nat \<Rightarrow> (wstring \<times> nat) option" where
  "MangleRDNWithStatus env eMangleFor pGuid pszRDN cchRDN =
     (case e_UuidToStringW env pGuid of
        None \<Rightarrow> None
      | Some pszGuid \<Rightarrow>
          let cchRDN = (if IsMangledRDN env pszRDN cchRDN \<noteq> None then cchRDN - MANGLE_APPEND_LEN else cchRDN);
              pszAppend = min MAX_MANGLE_RDN_BASE cchRDN
          in Some (blit pszAppend (snwprintf MANGLE_APPEND_LEN ([BAD_NAME_CHAR] @ mangle_tag eMangleFor @ wstr '':'' @ pszGuid)) pszRDN,
               pszAppend + MANGLE_APPEND_LEN))"

text \<open>The count without the mangling is returned as well.\<close>

definition IsMangledRDNExternal :: "dn_env \<Rightarrow> wstring \<Rightarrow> nat \<Rightarrow> bool \<times> nat" where
  "IsMangledRDNExternal env pszRDN cchRDN =
     (let IsMangled = IsMangledRDN env pszRDN cchRDN \<noteq> None
      in (IsMangled, if IsMangled then cchRDN - MANGLE_APPEND_LEN else cchRDN))"

text \<open>The type of the first mangling found; \<open>None\<close> is the return value \<^verbatim>\<open>FALSE\<close>.\<close>

fun mangled_loop :: "dn_env \<Rightarrow> wstring \<Rightarrow> nat \<Rightarrow> nat \<Rightarrow> MANGLE_FOR option" where
  "mangled_loop env s curlen 0 = None"
| "mangled_loop env s curlen (Suc n) =
     (case GetTopNameComponent s 0 curlen of
        Inl err \<Rightarrow> None
      | Inr None \<Rightarrow> None
      | Inr (Some (pKey, ccKey, pQVal, ccQVal)) \<Rightarrow>
          let rdnbuf = UnquoteRDNValue env s pQVal (unat ccQVal)
          in if length rdnbuf = 0 \<or> length rdnbuf > e_MAX_RDN_SIZE env then None
             else case IsMangledRDN env rdnbuf (length rdnbuf) of
                    Some (EmbeddedGuid, eMangleFor) \<Rightarrow> Some eMangleFor
                  | None \<Rightarrow> mangled_loop env s pKey n)"

definition IsMangledDSNAME :: "dn_env \<Rightarrow> DSNAME \<Rightarrow> MANGLE_FOR option" where
  "IsMangledDSNAME env pDSName =
     (case CountNameParts pDSName of
        Inl err \<Rightarrow> None
      | Inr cAVA \<Rightarrow> if cAVA = 0 then None else mangled_loop env (StringName pDSName) (NameLen pDSName) cAVA)"

section \<open>Mangling a value\<close>

text \<open>What the code relies on of the Windows routines.\<close>

definition uuid_strings :: "dn_env \<Rightarrow> GUID \<Rightarrow> wstring \<Rightarrow> bool" where
  "uuid_strings env g w \<longleftrightarrow> e_UuidToStringW env g = Some w \<and> length w = 36 \<and> e_UuidFromStringW env w = Some g"

definition mangled :: "MANGLE_FOR \<Rightarrow> wstring \<Rightarrow> wstring \<Rightarrow> wstring" where
  "mangled e w v = take 75 v @ [BAD_NAME_CHAR] @ mangle_tag e @ wstr '':'' @ w"

definition mangle_kind :: "MANGLE_FOR \<Rightarrow> MANGLE_FOR" where
  "mangle_kind e = (if e = MANGLE_OBJECT_RDN_FOR_DELETION \<or> e = MANGLE_PHANTOM_RDN_FOR_DELETION then MANGLE_OBJECT_RDN_FOR_DELETION
     else MANGLE_PHANTOM_RDN_FOR_NAME_CONFLICT)"

lemma mangle_tag_length: "length (mangle_tag e) = 3"
  by (simp add: mangle_tag_def wstr_def)

lemma mangled_length: "length w = 36 \<Longrightarrow> length (mangled e w v) = min 75 (length v) + 41"
  by (simp add: mangled_def mangle_tag_length wstr_def)

lemma tag_at: "tag_is_CNF (b @ c # mangle_tag e @ y) (length b + 1) \<longleftrightarrow> mangle_tag e = wstr ''CNF''"
  using wch_append(1) [of b "c # mangle_tag e @ y" 1] wch_append(1) [of b "c # mangle_tag e @ y" 2]
  by (simp add: tag_is_CNF_def mangle_tag_def wstr_def wch_def)

lemma mangled_found:
  assumes w: "length w = 36" "e_UuidFromStringW env w = Some g" and v: "v \<noteq> []"
  shows "IsMangledRDN env (mangled e w v @ x) (length (mangled e w v)) = Some (g, mangle_kind e)"
proof -
  let ?b = "take 75 v" and ?t = "mangle_tag e"
  have len: "length (mangled e w v) = length ?b + 41" "0 < length ?b"
    using mangled_length [OF w(1)] v by (simp_all add: min.commute)
  have m: "mangled e w v @ x = ?b @ BAD_NAME_CHAR # ?t @ wstr '':'' @ w @ x"
    by (simp add: mangled_def)
  have "wch (mangled e w v @ x) (length ?b) = BAD_NAME_CHAR"
    unfolding m by (rule wch_at)
  moreover have "drop (5 + length ?b) (mangled e w v @ x) = w @ x"
    unfolding m by (simp add: mangle_tag_def wstr_def)
  moreover have "tag_is_CNF (mangled e w v @ x) (length ?b + 1) = (?t = wstr ''CNF'')"
    unfolding m by (rule tag_at)
  moreover have "(?t = wstr ''CNF'') = (mangle_kind e = MANGLE_PHANTOM_RDN_FOR_NAME_CONFLICT)" "mangle_kind e = MANGLE_PHANTOM_RDN_FOR_NAME_CONFLICT \<or> mangle_kind e = MANGLE_OBJECT_RDN_FOR_DELETION"
    by (simp_all add: mangle_tag_def mangle_kind_def wstr_def)
  ultimately show ?thesis
    using len w by (auto simp: IsMangledRDN_def mangle_consts Let_def)
qed

lemma mangle_value:
  assumes u: "uuid_strings env g w" and cch: "cch \<le> length buf"
  shows "MangleRDNWithStatus env e g buf cch =
    (let v = take (snd (IsMangledRDNExternal env buf cch)) buf
     in Some (mangled e w v @ drop (length (mangled e w v)) buf, length (mangled e w v)))"
proof -
  let ?n = "snd (IsMangledRDNExternal env buf cch)"
  have n: "(if IsMangledRDN env buf cch \<noteq> None then cch - MANGLE_APPEND_LEN else cch) = ?n" "?n \<le> length buf"
    using cch by (auto simp: IsMangledRDNExternal_def Let_def)
  let ?s = "[BAD_NAME_CHAR] @ mangle_tag e @ wstr '':'' @ w"
  have "snwprintf MANGLE_APPEND_LEN ?s = ?s"
    using u by (simp add: snwprintf_def mangle_consts uuid_strings_def mangle_tag_length wstr_def)
  then show ?thesis
    using u n unfolding MangleRDNWithStatus_def n(1)
    by (simp add: uuid_strings_def mangle_consts mangled_def blit_def Let_def mangle_tag_length wstr_def min_def)
qed

section \<open>Mangled names\<close>

fun first_some :: "'a option list \<Rightarrow> 'a option" where
  "first_some [] = None"
| "first_some (x # xs) = (case x of Some y \<Rightarrow> Some y | None \<Rightarrow> first_some xs)"

definition rdn_mangled :: "dn_env \<Rightarrow> rdn \<Rightarrow> MANGLE_FOR option" where
  "rdn_mangled env r = map_option snd (IsMangledRDN env (snd r) (length (snd r)))"

lemma mangled_components:
  assumes "wf_dn ms" and "values_fit env ms" and "s = dn_string ms @ rest" and "length (dn_string ms) < 2 ^ 32"
    and "cc = length (dn_string ms) \<or> cc = length (dn_string ms) + 1 \<and> rest \<noteq> [] \<and> hd rest = ch_comma"
    and street: "e_CompareStringW env (wstr ''STREET'') (wstr ''STREET'')"
  shows "mangled_loop env s cc (length ms) = first_some (map (rdn_mangled env) (rev ms))"
  using assms(1-5)
proof (induction ms arbitrary: rest cc rule: rev_induct)
  case (snoc r ms)
  have m: "length (snd r) \<le> e_MAX_RDN_SIZE env" and r: "snd r \<noteq> []"
    using snoc.prems(1,2) by (simp_all add: values_fit_def wf_dn_def wf_rdn_def)
  obtain k p c where top: "GetTopNameComponent s 0 cc = Inr (Some (length (front_string ms), k, p, c))"
    "UnquoteRDNValue env s p (unat c) = snd r"
    by (rule top_read [OF snoc.prems(1,3-5) m street])
  have "mangled_loop env s (length (front_string ms)) (length ms) = first_some (map (rdn_mangled env) (rev ms))"
  proof (cases "ms = []")
    case False
    then show ?thesis
      using snoc.prems by (intro snoc.IH [where rest = "ch_comma # rdn_string r @ rest"])
        (simp_all add: wf_dn_def values_fit_def dn_string_append front_string_def)
  qed simp
  then show ?case
    using top m r by (auto simp: rdn_mangled_def [of env r] split: option.split)
qed simp

lemma mangled_names:
  assumes d: "denotes d ns" and wf: "wf_dn ns" and max: "values_fit env ns" and ns: "ns \<noteq> []"
    and street: "e_CompareStringW env (wstr ''STREET'') (wstr ''STREET'')"
  shows "IsMangledDSNAME env d = first_some (map (rdn_mangled env) (rev ns))"
proof -
  obtain rest where "StringName d = dn_string ns @ 0 # rest" "NameLen d = length (dn_string ns)" "NameLen d < 2 ^ 32"
    using d by (rule denotesE)
  then have "mangled_loop env (StringName d) (NameLen d) (length ns) = first_some (map (rdn_mangled env) (rev ns))"
    using mangled_components [OF wf max _ _ _ street] by simp
  then show ?thesis
    using count_denotes [OF d wf ns] ns by (simp add: IsMangledDSNAME_def)
qed

end
