(* ===== verification/DN_View.thy ===== *)
theory DN_View
  imports DN_Mangle
begin

text \<open>
  The contract of string names, as a client of the parsing library sees it: names form a tree, and the routines move in
  this tree. The locale states the contract and what follows from it, the interpretation shows that the routines of
  \<^verbatim>\<open>ntdsa/src/parsedn.c\<close> keep it. The properties of the library stand at the end.
\<close>

section \<open>The contract\<close>

locale name_view =
  fixes rep :: "'d \<Rightarrow> 'r list \<Rightarrow> bool"
    and room :: "'d \<Rightarrow> 'r \<Rightarrow> bool"
    and ancestor :: "'d \<Rightarrow> nat \<Rightarrow> 'd option"
    and child :: "'d \<Rightarrow> 'r \<Rightarrow> 'd option"
    and leaf :: "'d \<Rightarrow> 'r option"
    and depth :: "'d \<Rightarrow> nat option"
    and same :: "'d \<Rightarrow> 'd \<Rightarrow> bool"
  assumes ancestor_rep: "rep d ns \<Longrightarrow> 0 < n \<Longrightarrow> n \<le> length ns \<Longrightarrow> \<exists>d'. ancestor d n = Some d' \<and> rep d' (drop n ns)"
    and child_rep: "rep d ns \<Longrightarrow> room d r \<Longrightarrow> \<exists>d'. child d r = Some d' \<and> rep d' (r # ns)"
    and leaf_rep: "rep d (r # ns) \<Longrightarrow> leaf d = Some r"
    and depth_rep: "rep d ns \<Longrightarrow> depth d = Some (length ns)"
    and same_refl: "rep d ns \<Longrightarrow> rep e ns \<Longrightarrow> same d e"
begin

lemma parent_of_child:
  assumes "rep d ns" and "room d r"
  shows "\<exists>c p. child d r = Some c \<and> ancestor c 1 = Some p \<and> same p d \<and> leaf c = Some r"
proof -
  obtain c where c: "child d r = Some c" "rep c (r # ns)"
    using child_rep [OF assms] by auto
  obtain p where p: "ancestor c 1 = Some p" "rep p ns"
    using ancestor_rep [OF c(2), of 1] by auto
  show ?thesis
    using c p leaf_rep [OF c(2)] same_refl [OF p(2) assms(1)] by blast
qed

lemma depth_of_child:
  assumes "rep d ns" and "room d r" and "child d r = Some c"
  shows "depth c = Some (Suc (length ns))"
  using child_rep [OF assms(1,2)] assms(3) depth_rep [of c "r # ns"] by auto

lemma ancestor_of_ancestor:
  assumes "rep d ns" and "0 < m" and "0 < n" and "m + n \<le> length ns"
  shows "\<exists>p q q'. ancestor d m = Some p \<and> ancestor p n = Some q \<and> ancestor d (m + n) = Some q' \<and> same q q'"
proof -
  obtain p where p: "ancestor d m = Some p" "rep p (drop m ns)"
    using ancestor_rep [of d ns m] assms by auto
  obtain q where q: "ancestor p n = Some q" "rep q (drop n (drop m ns))"
    using ancestor_rep [OF p(2) assms(3)] assms(4) by (auto simp: le_diff_conv2)
  obtain q' where q': "ancestor d (m + n) = Some q'" "rep q' (drop (m + n) ns)"
    using ancestor_rep [of d ns "m + n"] assms by auto
  have "same q q'"
    using same_refl [of q "drop (m + n) ns" q'] q q' by (simp add: add.commute)
  then show ?thesis
    using p q q' by blast
qed

end

section \<open>The routines keep the contract\<close>

definition blank_name :: "nat \<Rightarrow> DSNAME" where
  "blank_name n = \<lparr>structLen = 0, SidLen = 0, Guid = 0, Sid = [], NameLen = 0, StringName = replicate n 0\<rparr>"

definition dn_rep :: "dn_env \<Rightarrow> DSNAME \<Rightarrow> rdn list \<Rightarrow> bool" where
  "dn_rep env d ns \<longleftrightarrow> denotes d ns \<and> wf_dn ns \<and> values_fit env ns \<and> structLen d = DSNameSizeFromLen (NameLen d) \<and> Guid d = 0
     \<and> SidLen d = 0 \<and> (\<forall>v. e_CompareStringW env v v)"

definition child_size :: "DSNAME \<Rightarrow> rdn \<Rightarrow> nat" where
  "child_size d r = DSNameSizeFromLen (NameLen d + length (rdn_string r) + 2)"

definition dn_room :: "dn_env \<Rightarrow> DSNAME \<Rightarrow> rdn \<Rightarrow> bool" where
  "dn_room env d r \<longleftrightarrow> wf_rdn r \<and> length (snd r) \<le> e_MAX_RDN_SIZE env \<and> child_size d r < 2 ^ 32"

definition dn_ancestor :: "DSNAME \<Rightarrow> nat \<Rightarrow> DSNAME option" where
  "dn_ancestor d n = (case TrimDSNameBy d (of_nat n) (blank_name (NameLen d + 1)) of (c, d') \<Rightarrow> if c = 0 then Some d' else None)"

definition dn_child :: "DSNAME \<Rightarrow> rdn \<Rightarrow> DSNAME option" where
  "dn_child d r =
     (case AppendRDN d (blank_name (child_size d r)) (child_size d r) (snd r @ [0]) (length (snd r)) (fst r) of
        (c, d') \<Rightarrow> if c = 0 then Some d' else None)"

definition dn_leaf :: "dn_env \<Rightarrow> DSNAME \<Rightarrow> rdn option" where
  "dn_leaf env d = (case GetRDNInfoExternal env d True True of Inr (Some v, Some t) \<Rightarrow> Some (t, v) | _ \<Rightarrow> None)"

definition dn_depth :: "DSNAME \<Rightarrow> nat option" where
  "dn_depth d = (case CountNameParts d of Inr n \<Rightarrow> Some n | Inl e \<Rightarrow> None)"

definition dn_same :: "dn_env \<Rightarrow> DSNAME \<Rightarrow> DSNAME \<Rightarrow> bool" where
  "dn_same env d e \<longleftrightarrow> NameMatched env d e = Some True"

lemma dn_root: "dn_rep env d [] \<Longrightarrow> IsRoot d"
  by (simp add: dn_rep_def denotes_def IsRoot_def)

lemma values_fit_drop: "values_fit env ns \<Longrightarrow> values_fit env (drop n ns)"
  unfolding values_fit_def list_all_iff using in_set_dropD by fast

interpretation dn: name_view "dn_rep env" "dn_room env" dn_ancestor dn_child "dn_leaf env" dn_depth "dn_same env"
proof
  fix d ns and n :: nat
  assume "dn_rep env d ns" "0 < n" "n \<le> length ns"
  then show "\<exists>d'. dn_ancestor d n = Some d' \<and> dn_rep env d' (drop n ns)"
    using trim_denotes [of d ns n "blank_name (NameLen d + 1)"] wf_dn_drop [of ns n] values_fit_drop [of env ns n]
    by (auto simp: dn_rep_def dn_ancestor_def)
next
  fix d ns r
  assume d: "dn_rep env d ns" and r: "dn_room env d r"
  then have "\<exists>d'. AppendRDN d (blank_name (child_size d r)) (child_size d r) (snd r @ [0]) (length (snd r)) (fst r) = (0, d')
      \<and> denotes d' (r # ns) \<and> structLen d' = DSNameSizeFromLen (NameLen d') \<and> Guid d' = 0 \<and> SidLen d' = 0"
    using append_denotes [of d ns "fst r" "snd r" "length (snd r)" "snd r @ [0]" "child_size d r" "blank_name (child_size d r)"]
      dn_root [of env d] by (auto simp: dn_rep_def dn_room_def wf_rdn_def child_size_def blank_name_def)
  then show "\<exists>d'. dn_child d r = Some d' \<and> dn_rep env d' (r # ns)"
    using d r by (auto simp: dn_rep_def dn_room_def dn_child_def wf_dn_def values_fit_def)
next
  fix d r ns
  assume "dn_rep env d (r # ns)"
  then show "dn_leaf env d = Some r"
    using get_rdn_info [of d r ns env True True] by (simp add: dn_rep_def dn_leaf_def values_fit_def)
next
  fix d ns
  assume d: "dn_rep env d ns"
  show "dn_depth d = Some (length ns)"
  proof (cases "ns = []")
    case True
    then show ?thesis
      using d dn_root by (auto simp: dn_depth_def CountNameParts_def)
  next
    case False
    then show ?thesis
      using d count_denotes by (auto simp: dn_depth_def dn_rep_def)
  qed
next
  fix d ns e
  assume "dn_rep env d ns" "dn_rep env e ns"
  then show "dn_same env d e"
    using matched_names [of d ns env e ns] rdn_match_refl [of env ns] by (simp add: dn_rep_def dn_same_def NameMatched_def)
qed

section \<open>Sizes\<close>

lemma append_base_bounds:
  assumes "append_base base new cb i = (0, d')" and "DSNameSizeFromLen i \<le> cb"
  shows "DSNameSizeFromLen (NameLen d') \<le> cb \<and> structLen d' = DSNameSizeFromLen (NameLen d')"
  using assms by (auto simp: append_base_def Let_def split: if_splits)

lemma append_value_bounds:
  assumes a: "append_value base new cb v i = (0, d')" and i: "DSNameSizeFromLen i \<le> cb" and cb: "cb < 2 ^ 32"
  shows "DSNameSizeFromLen (NameLen d') \<le> cb \<and> structLen d' = DSNameSizeFromLen (NameLen d')"
proof -
  define cc where "cc = sub32 cb (DSNameSizeFromLen i) div 2"
  obtain qs q where q: "QuoteRDNValue v (take cc (drop i (StringName new))) = (qs, q)"
    by (cases "QuoteRDNValue v (take cc (drop i (StringName new)))")
  have fit: "qs \<le> cc" and app: "append_base base (new\<lparr>StringName := blit i q (StringName new)\<rparr>) cb (i + qs) = (0, d')"
    using a unfolding append_value_def Let_def cc_def [symmetric] q by (auto simp: DSNameSizeFromLen_def split: if_splits)
  have "DSNameSizeFromLen i + 2 * cc \<le> cb"
    using i cb by (simp add: cc_def sub32_le)
  then have "DSNameSizeFromLen (i + qs) \<le> cb"
    using fit by (simp add: DSNameSizeFromLen_def)
  from append_base_bounds [OF app this] show ?thesis .
qed

lemma append_bounds:
  assumes a: "AppendRDN base new cb val n t = (0, d')" and cb: "cb < 2 ^ 32" and base: "58 \<le> structLen base"
    and small: "structLen base + 2 * (max n (length val) + 8) < 2 ^ 32"
  shows "DSNameSizeFromLen (NameLen d') \<le> cb \<and> structLen d' = DSNameSizeFromLen (NameLen d')"
proof -
  let ?k = "length (AttrTypeToKey t)"
  define R where "R = (if n = 0 then length (takeWhile (\<lambda>c. c \<noteq> 0) val) else n)"
  define need where "need = (structLen base + (R + 4) * 2) mod 2 ^ 32"
  define needk where "needk = nat ((int need + (int ?k - 2) * 2) mod 2 ^ 32)"
  have "length (takeWhile (\<lambda>c. c \<noteq> 0) val) \<le> length val"
    by (rule length_takeWhile_le)
  then have need: "need = structLen base + (R + 4) * 2"
    using small unfolding need_def R_def by (intro mod_less) (auto simp: max_def split: if_splits)
  have k6: "?k \<le> 6"
    by (simp add: AttrTypeToKey_def AttrTypeToKeyLame_def wstr_def)
  have rk: "need + 2 * ?k < 2 ^ 32 + 4"
    using need small k6 \<open>length (takeWhile (\<lambda>c. c \<noteq> 0) val) \<le> length val\<close> by (auto simp: R_def max_def split: if_splits)
  have "needk = nat (int need + (int ?k - 2) * 2)"
    unfolding needk_def using rk need base by (subst mod_pos_pos_trivial) auto
  then have nk: "int needk = int need + (int ?k - 2) * 2"
    using need base by simp
  obtain new' where app: "append_value base new' cb (take R val) (?k + 1) = (0, d')" and ok: "need \<le> cb" "?k = 2 \<or> needk \<le> cb"
    using a base need unfolding AppendRDN_def Let_def R_def [symmetric] need_def [symmetric] needk_def [symmetric]
    by (auto split: if_splits)
  have "DSNameSizeFromLen (?k + 1) \<le> cb"
    using ok nk need base by (auto simp: DSNameSizeFromLen_def)
  from append_value_bounds [OF app this cb] show ?thesis .
qed

section \<open>Properties\<close>

text \<open>
  A name that \<open>denotes\<close> a list of components is in the form \<^verbatim>\<open>AppendRDN\<close> writes: well-known keys in capitals, values as \<^verbatim>\<open>QuoteRDNValue\<close>
  quotes them, commas without blanks. Where other spellings are meant, the property says \<open>spells\<close>.
\<close>

definition demo_uuid :: wstring where
  "demo_uuid = wstr ''a746b716-0ac0-11d2-b376-0000f87a46c8''"

definition demo_env :: dn_env where
  "demo_env = \<lparr>e_MAX_RDN_SIZE = 255, e_CompareStringW = (\<lambda>v w. v = w), e_Utf8ToWide = (\<lambda>bs n. take n bs),
     e_UuidToStringW = (\<lambda>g. if g = 0xa746b7160ac011d2b3760000f87a46c8 then Some demo_uuid else None),
     e_UuidFromStringW = (\<lambda>w. if w = demo_uuid then Some 0xa746b7160ac011d2b3760000f87a46c8 else None)\<rparr>"

definition string_name :: "wstring \<Rightarrow> DSNAME" where
  "string_name w = \<lparr>structLen = DSNameSizeFromLen (length w), SidLen = 0, Guid = 0, Sid = [], NameLen = length w, StringName = w @ [0]\<rparr>"

definition demo_dn :: "rdn list" where
  "demo_dn = [(ATT_COMMON_NAME, wstr '' a,b''), (ATT_ORGANIZATION_NAME, wstr ''c+''), (ATT_DOMAIN_COMPONENT, wstr ''d'')]"

definition demo_name :: DSNAME where
  "demo_name = \<lparr>structLen = 98, SidLen = 0, Guid = 0, Sid = [], NameLen = 20, StringName = wstr ''CN='' @ [92, 32, 97, 92, 44, 98]
     @ wstr '',O=c'' @ [92, 43] @ wstr '',DC=d'' @ [0]\<rparr>"

definition deleted_dn :: "rdn list" where
  "deleted_dn = [(ATT_COMMON_NAME, wstr ''x''), (ATT_ORGANIZATION_NAME, mangled MANGLE_PHANTOM_RDN_FOR_DELETION demo_uuid (wstr ''y'')),
     (ATT_DOMAIN_COMPONENT, wstr ''z'')]"

lemmas dn_string_eval = rdn_string_def AttrTypeToKey_def AttrTypeToKeyLame_def ATT_defs wstr_def quoted_def plain_def esc_last_def esc_def
  ISSPECIAL_iff

lemma demo_rep: "dn_rep demo_env demo_name demo_dn"
proof -
  have str: "dn_string demo_dn = wstr ''CN='' @ [92, 32, 97, 92, 44, 98] @ wstr '',O=c'' @ [92, 43] @ wstr '',DC=d''"
    and wf: "wf_dn demo_dn"
    by (simp_all add: demo_dn_def dn_string_eval wf_dn_def wf_rdn_def)
  have "denotes demo_name demo_dn"
    unfolding denotes_def str by (simp add: demo_name_def wstr_def)
  moreover have "values_fit demo_env demo_dn"
    by (simp add: values_fit_def demo_env_def demo_dn_def wstr_def)
  ultimately show ?thesis
    using wf by (simp add: dn_rep_def demo_name_def demo_env_def DSNameSizeFromLen_def)
qed

text \<open>C10. Quoting and unquoting are inverse: what \<^verbatim>\<open>QuoteRDNValue\<close> writes, with a count that does not exceed the buffer, is read
  back by \<^verbatim>\<open>UnquoteRDNValue\<close> as the same value, wherever the text stands in a name.
\<close>

theorem quote_unquote:
  assumes v: "v \<noteq> []" and max: "length v \<le> e_MAX_RDN_SIZE env" and q: "QuoteRDNValue v buf = (n, out)" and n: "n \<le> length buf"
  shows "UnquoteRDNValue env (pre @ take n out @ rest) (length pre) n = v"
proof -
  have fit: "length (quoted v) \<le> length buf"
    using quote_overflow [OF v, of buf] q n by (cases "length (quoted v) \<le> length buf") auto
  have "n = length (quoted v)" "take n out = quoted v"
    using quote_fits [OF v fit] q by (auto simp: terminated_def)
  then show ?thesis
    using unquote_quoted_value [OF v max, of "pre @ quoted v @ rest" pre rest] by simp
qed

theorem quote_unquote_witness:
  "UnquoteRDNValue demo_env (wstr ''CN='' @ take 8 (snd (QuoteRDNValue (wstr '' a,b '') (replicate 10 7))) @ [0]) (length (wstr ''CN='')) 8 = wstr '' a,b ''"
proof -
  have "QuoteRDNValue (wstr '' a,b '') (replicate 10 7) = (8, snd (QuoteRDNValue (wstr '' a,b '') (replicate 10 7)))"
    by code_simp
  from quote_unquote [OF _ _ this, of demo_env "wstr ''CN=''" "[0]"] show ?thesis
    by (simp add: wstr_def demo_env_def)
qed

text \<open>C24. The count \<^verbatim>\<open>QuoteRDNValue\<close> returns tells the caller whether the buffer was large enough: it exceeds the buffer exactly when
  the quoted form of the value does.
\<close>

theorem quote_count:
  assumes "v \<noteq> []"
  shows "fst (QuoteRDNValue v buf) \<le> length buf \<longleftrightarrow> length (quoted v) \<le> length buf"
  using quote_fits [OF assms, of buf] quote_overflow [OF assms, of buf] by (cases "length (quoted v) \<le> length buf") auto

theorem quote_count_witness: "\<not> fst (QuoteRDNValue (wstr '' a'') [7, 7]) \<le> 2"
  using quote_count [of "wstr '' a''" "[7, 7]"] by (simp add: wstr_def quoted_def plain_def esc_last_def esc_def ISSPECIAL_iff)

text \<open>C20. \<^verbatim>\<open>TrimDSNameBy\<close> removes the first components: the destination holds the rest of the name, with its terminator and its size,
  and no GUID or SID.
\<close>

theorem trim_drops:
  assumes "denotes d ns" and "wf_dn ns" and "0 < n" and "n \<le> length ns"
  shows "\<exists>d'. TrimDSNameBy d (of_nat n) dst = (0, d') \<and> denotes d' (drop n ns) \<and> structLen d' = DSNameSizeFromLen (NameLen d')
    \<and> Guid d' = 0 \<and> SidLen d' = 0"
  by (rule trim_denotes [OF assms])

theorem trim_drops_witness:
  "\<exists>d'. TrimDSNameBy demo_name (of_nat 2) (blank_name 21) = (0, d') \<and> denotes d' [(ATT_DOMAIN_COMPONENT, wstr ''d'')]"
  using trim_drops [of demo_name demo_dn 2 "blank_name 21"] demo_rep by (auto simp: dn_rep_def demo_dn_def)

text \<open>C25. When there are too few components, \<^verbatim>\<open>TrimDSNameBy\<close> returns how many could not be removed. Asked to remove none, it does not
  return 0: the count wraps around, and the whole name is read.
\<close>

theorem trim_count_left:
  assumes "denotes d ns" and "wf_dn ns" and "ns \<noteq> []" and "n = 0 \<or> length ns < n" and "n < 2 ^ 32"
  shows "fst (TrimDSNameBy d (of_nat n) dst) = of_nat n - of_nat (length ns)"
  by (rule trim_too_many [OF assms])

theorem trim_count_left_witness:
  "fst (TrimDSNameBy demo_name 0 (blank_name 21)) = 2 ^ 32 - 3 \<and> fst (TrimDSNameBy demo_name 5 (blank_name 21)) = 2"
  using trim_count_left [of demo_name demo_dn 0 "blank_name 21"] trim_count_left [of demo_name demo_dn 5 "blank_name 21"] demo_rep
  by (simp add: dn_rep_def demo_dn_def)

text \<open>C19. \<^verbatim>\<open>AppendRDN\<close> makes the name of a child: with a buffer that is large enough it succeeds, and the new name is the component,
  quoted, in front of the base name.
\<close>

theorem append_conses:
  assumes "denotes base ns" and "wf_dn ns" and "structLen base = DSNameSizeFromLen (NameLen base)" and "ns = [] \<Longrightarrow> IsRoot base"
    and "AttrTypeToKey t \<noteq> []" and "v \<noteq> []" and "take n val = v" and "n = length v"
    and "DSNameSizeFromLen (NameLen base + length (rdn_string (t, v)) + 2) \<le> cb" and "cb < 2 ^ 32"
    and "cb \<le> 56 + 2 * length (StringName new)"
  shows "\<exists>d'. AppendRDN base new cb val n t = (0, d') \<and> denotes d' ((t, v) # ns) \<and> structLen d' = DSNameSizeFromLen (NameLen d')"
  using append_denotes [OF assms] by blast

theorem append_conses_witness:
  "\<exists>d'. AppendRDN demo_name (blank_name 50) 150 (wstr ''x=y'') 3 ATT_COMMON_NAME = (0, d') \<and> denotes d' ((ATT_COMMON_NAME, wstr ''x=y'') # demo_dn)"
proof -
  let ?v = "wstr ''x=y''"
  have d: "denotes demo_name demo_dn" "wf_dn demo_dn" "structLen demo_name = DSNameSizeFromLen (NameLen demo_name)"
    using demo_rep by (simp_all add: dn_rep_def)
  have len: "length (rdn_string (ATT_COMMON_NAME, ?v)) = 7" and key: "AttrTypeToKey ATT_COMMON_NAME \<noteq> []"
    and v: "?v \<noteq> []" "take 3 ?v = ?v" "3 = length ?v"
    by (simp_all add: dn_string_eval)
  have "demo_dn \<noteq> []" "DSNameSizeFromLen (NameLen demo_name + length (rdn_string (ATT_COMMON_NAME, ?v)) + 2) \<le> 150"
    "150 \<le> 56 + 2 * length (StringName (blank_name 50))"
    unfolding len by (simp_all add: demo_dn_def demo_name_def blank_name_def DSNameSizeFromLen_def)
  then show ?thesis
    using append_conses [OF d _ key v, of 150 "blank_name 50"] by auto
qed

text \<open>C11. The parent of a child is the name one started from, and the first component of the child is the one that was appended:
  \<^verbatim>\<open>AppendRDN\<close>, then \<^verbatim>\<open>TrimDSNameBy\<close> by one, gives a name that \<^verbatim>\<open>NameMatched\<close> accepts, and \<^verbatim>\<open>GetRDNInfoExternal\<close> returns type and value.
\<close>

theorem child_and_parent:
  assumes "dn_rep env d ns" and "dn_room env d r"
  shows "\<exists>c p. dn_child d r = Some c \<and> dn_ancestor c 1 = Some p \<and> dn_same env p d \<and> dn_leaf env c = Some r"
  by (rule dn.parent_of_child [OF assms])

theorem child_and_parent_witness:
  "\<exists>c p. dn_child demo_name (ATT_COMMON_NAME, wstr '' ; '') = Some c \<and> dn_ancestor c 1 = Some p \<and> dn_same demo_env p demo_name
    \<and> dn_leaf demo_env c = Some (ATT_COMMON_NAME, wstr '' ; '')"
proof -
  have "dn_room demo_env demo_name (ATT_COMMON_NAME, wstr '' ; '')"
    by (simp add: dn_room_def wf_rdn_def child_size_def demo_name_def demo_env_def dn_string_eval DSNameSizeFromLen_def)
  from child_and_parent [OF demo_rep this] show ?thesis .
qed

text \<open>C13. Reading backwards agrees with reading forwards: \<^verbatim>\<open>GetTopNameComponent\<close> finds the key and the quoted value of the last component of a
  name, and with the rest of the name in front of the key as the next name it finds the components one by one.
\<close>

theorem top_is_last:
  assumes "wf_dn (ms @ [r])" and "s = dn_string (ms @ [r]) @ rest" and "length (dn_string (ms @ [r])) < 2 ^ 32"
    and "cc = length (dn_string (ms @ [r])) \<or> cc = length (dn_string (ms @ [r])) + 1 \<and> rest \<noteq> [] \<and> hd rest = ch_comma"
    and "length (snd r) \<le> e_MAX_RDN_SIZE env" and "e_CompareStringW env (wstr ''STREET'') (wstr ''STREET'')"
  shows "\<exists>pKey ccKey pVal ccVal. GetTopNameComponent s 0 cc = Inr (Some (pKey, ccKey, pVal, ccVal))
    \<and> KeyToAttrTypeLame env (take ccKey (drop pKey s)) = fst r \<and> UnquoteRDNValue env s pVal (unat ccVal) = snd r
    \<and> pKey = (if ms = [] then 0 else length (dn_string ms) + 1)"
proof -
  obtain ccKey pVal ccVal where "GetTopNameComponent s 0 cc = Inr (Some (length (front_string ms), ccKey, pVal, ccVal))"
    and "KeyToAttrTypeLame env (take ccKey (drop (length (front_string ms)) s)) = fst r" and "UnquoteRDNValue env s pVal (unat ccVal) = snd r"
    by (rule top_read [OF assms])
  then show ?thesis
    by (auto simp: front_string_def)
qed

theorem top_is_last_witness:
  "\<exists>ccKey pVal ccVal. GetTopNameComponent (StringName demo_name) 0 20 = Inr (Some (16, ccKey, pVal, ccVal))
    \<and> UnquoteRDNValue demo_env (StringName demo_name) pVal (unat ccVal) = wstr ''d''"
  using top_is_last [of "butlast demo_dn" "last demo_dn" "StringName demo_name" "[0]" 20 demo_env]
  by (auto simp: demo_dn_def demo_name_def demo_env_def wf_dn_def wf_rdn_def dn_string_eval)

text \<open>C12. \<^verbatim>\<open>NameMatchedStringNameOnly\<close> compares names, not strings. Take two strings written as \<open>items_ok\<close> allows: components separated by
  a comma or a semicolon, blanks around separators and values, keys that may end with spaces, values that are not empty, with any escapes or in hexadecimal
  form, but without quotation marks and equal signs that are not escaped. If the first component of each has a well-known key and a value that can be parsed (or the string is empty), they match exactly when they
  have as many components and, one by one, \<^verbatim>\<open>KeyToAttrTypeLame\<close> returns the same type for the keys and \<^verbatim>\<open>CompareStringW\<close> takes the unquoted values for equal.
  Above the first component an unknown key counts as type 0 and a value that cannot be parsed as the empty value, so all unknown keys match
  each other there (\<open>unknown_keys_match\<close>), and all such values (\<open>unparseable_match\<close>).
\<close>

theorem matched_iff:
  assumes "spells d1 ts" and "named env ts" and "spells d2 us" and "named env us" and "\<forall>v. e_CompareStringW env v v"
  shows "NameMatchedStringNameOnly env d1 d2 =
    Some (list_all2 (\<lambda>a b. KeyToAttrTypeLame env (av_key a) = KeyToAttrTypeLame env (av_key b)
      \<and> e_CompareStringW env (UnquoteRDNValue env (av_val a) 0 (length (av_val a))) (UnquoteRDNValue env (av_val b) 0 (length (av_val b))))
      (map snd ts) (map snd us))"
  using matched_named [OF assms] unfolding ava_match_def [abs_def] ava_value_def fst_conv snd_conv .

theorem matched_iff_witness:
  "NameMatchedStringNameOnly demo_env (string_name (wstr ''CN=a'' @ [92] @ wstr '',b;dc=c''))
      (string_name (wstr ''cn = '' @ [92] @ wstr ''61'' @ [92] @ wstr ''2Cb , DC=c'')) = Some True
    \<and> NameMatchedStringNameOnly demo_env (string_name (wstr ''CN=a'' @ [92] @ wstr '',b;dc=c'')) (string_name (wstr ''CN=a,DC=c'')) = Some False"
proof -
  let ?read = "\<lambda>w. UnquoteRDNValue demo_env w 0 (length w)"
  have u: "?read (wstr ''a'' @ [92] @ wstr '',b'') = wstr ''a,b''" "?read (wstr ''a'') = wstr ''a''"
    "?read ([92] @ wstr ''61'' @ [92] @ wstr ''2Cb'') = wstr ''a,b''" "?read (wstr ''c'') = wstr ''c''"
    by code_simp+
  define ts :: items where "ts = [([], \<lparr>av_key = wstr ''CN'', av_gap = [], av_val = wstr ''a'' @ [92] @ wstr '',b'', av_end = []\<rparr>),
    (wstr '';'', \<lparr>av_key = wstr ''dc'', av_gap = [], av_val = wstr ''c'', av_end = []\<rparr>)]"
  define us :: items where "us = [([], \<lparr>av_key = wstr ''cn '', av_gap = wstr '' '', av_val = [92] @ wstr ''61'' @ [92] @ wstr ''2Cb'', av_end = wstr '' ''\<rparr>),
    (wstr '', '', \<lparr>av_key = wstr ''DC'', av_gap = [], av_val = wstr ''c'', av_end = []\<rparr>)]"
  define vs :: items where "vs = [([], \<lparr>av_key = wstr ''CN'', av_gap = [], av_val = wstr ''a'', av_end = []\<rparr>),
    (wstr '','', \<lparr>av_key = wstr ''DC'', av_gap = [], av_val = wstr ''c'', av_end = []\<rparr>)]"
  have s: "spells (string_name (wstr ''CN=a'' @ [92] @ wstr '',b;dc=c'')) ts"
    "spells (string_name (wstr ''cn = '' @ [92] @ wstr ''61'' @ [92] @ wstr ''2Cb , DC=c'')) us" "spells (string_name (wstr ''CN=a,DC=c'')) vs"
    by (simp_all add: spells_def string_name_def ts_def us_def vs_def ava_string_def wstr_def)
  have k: "KeyToAttrTypeLame demo_env (wstr ''CN'') = ATT_COMMON_NAME" "KeyToAttrTypeLame demo_env (wstr ''cn '') = ATT_COMMON_NAME"
    "KeyToAttrTypeLame demo_env (wstr ''dc'') = ATT_DOMAIN_COMPONENT" "KeyToAttrTypeLame demo_env (wstr ''DC'') = ATT_DOMAIN_COMPONENT"
    by (simp_all add: KeyToAttrTypeLame_def wstr_def)
  have "items_ok ts" "items_ok us" "items_ok vs"
    by (simp_all add: ts_def us_def vs_def items_ok_def ava_ok_def key_ok_def val_ok_def blanks_def is_sep_def IsDNSepChar_def is_blank_def ISSPECIAL_iff
      wstr_def)
  then have n: "named demo_env ts" "named demo_env us" "named demo_env vs"
    using u k by (simp_all add: named_def readable_def ava_value_def ts_def us_def vs_def wstr_def ATT_defs)
  have c: "\<forall>v. e_CompareStringW demo_env v v"
    by (simp add: demo_env_def)
  show ?thesis
    using matched_iff [OF s(1) n(1) s(2) n(2) c] matched_iff [OF s(1) n(1) s(3) n(3) c] u k
    by (simp add: ts_def us_def vs_def wstr_def demo_env_def)
qed

text \<open>C21. A mangled value is recognised, with its GUID and the kind of its tag, and mangling a value again replaces the tag instead of
  adding another one: the result is the one of mangling the value itself.
\<close>

theorem mangle_again:
  assumes u: "uuid_strings env g w" and v: "v \<noteq> []" "IsMangledRDN env v (length v) = None" and m: "MangleRDNWithStatus env e g v (length v) = Some (buf, n)"
  shows "IsMangledRDN env buf n = Some (g, mangle_kind e) \<and> take (snd (IsMangledRDNExternal env buf n)) buf = take 75 v
    \<and> map_option (\<lambda>(b, k). take k b) (MangleRDNWithStatus env e' g buf n) =
        map_option (\<lambda>(b, k). take k b) (MangleRDNWithStatus env e' g v (length v))"
proof -
  have w: "length w = 36" "e_UuidFromStringW env w = Some g"
    using u by (simp_all add: uuid_strings_def)
  have first: "MangleRDNWithStatus env k g v (length v) = Some (mangled k w v @ drop (length (mangled k w v)) v, length (mangled k w v))" for k
    using mangle_value [OF u, of "length v" v k] v(2) by (simp add: IsMangledRDNExternal_def Let_def)
  have buf: "buf = mangled e w v @ drop (length (mangled e w v)) v" and n: "n = length (mangled e w v)"
    using first [of e] m by simp_all
  have is_m: "IsMangledRDN env buf n = Some (g, mangle_kind e)"
    unfolding buf n by (rule mangled_found [OF w v(1)])
  have n41: "n = length (take 75 v) + 41"
    using mangled_length [OF w(1), of e v] n by simp
  have base: "snd (IsMangledRDNExternal env buf n) = length (take 75 v)"
    using is_m n41 by (simp add: IsMangledRDNExternal_def mangle_consts)
  have front: "take (length (take 75 v)) buf = take 75 v"
    unfolding buf mangled_def by (simp only: append_assoc take_append take_all order_refl diff_self_eq_0 take0 append_Nil2 take_0)
  have "n \<le> length buf"
    by (simp add: buf n)
  from mangle_value [OF u this, of e'] have "MangleRDNWithStatus env e' g buf n =
      Some (mangled e' w (take 75 v) @ drop (length (mangled e' w (take 75 v))) buf, length (mangled e' w (take 75 v)))"
    unfolding base front Let_def .
  moreover have "mangled e' w (take 75 v) = mangled e' w v"
    by (simp add: mangled_def)
  ultimately show ?thesis
    using is_m base front first [of e'] by simp
qed

theorem mangle_again_witness:
  "IsMangledRDN demo_env (wstr ''x'' @ [10] @ wstr ''DEL:'' @ demo_uuid) 42 =
    Some (0xa746b7160ac011d2b3760000f87a46c8, MANGLE_OBJECT_RDN_FOR_DELETION)"
proof -
  have u: "uuid_strings demo_env 0xa746b7160ac011d2b3760000f87a46c8 demo_uuid"
    by (simp add: uuid_strings_def demo_env_def demo_uuid_def wstr_def)
  have v: "wstr ''x'' \<noteq> []" "IsMangledRDN demo_env (wstr ''x'') (length (wstr ''x'')) = None"
    by (simp_all add: wstr_def IsMangledRDN_def mangle_consts)
  have len: "length demo_uuid = 36"
    by (simp add: demo_uuid_def wstr_def)
  have "MangleRDNWithStatus demo_env MANGLE_PHANTOM_RDN_FOR_DELETION 0xa746b7160ac011d2b3760000f87a46c8 (wstr ''x'') (length (wstr ''x'')) =
      Some (wstr ''x'' @ [10] @ wstr ''DEL:'' @ demo_uuid, 42)"
    using v(2) len
    by (simp add: MangleRDNWithStatus_def demo_env_def mangle_consts snwprintf_def mangle_tag_def blit_def wstr_def)
  from mangle_again [OF u v this] show ?thesis
    by (simp add: mangle_kind_def)
qed

text \<open>C22. \<^verbatim>\<open>IsMangledDSNAME\<close> finds a mangled component anywhere in a name, and reports the kind of the one nearest to the root.
\<close>

theorem mangled_anywhere:
  assumes "denotes d ns" and "wf_dn ns" and "values_fit env ns" and "ns \<noteq> []"
    and "e_CompareStringW env (wstr ''STREET'') (wstr ''STREET'')"
  shows "IsMangledDSNAME env d = first_some (map (rdn_mangled env) (rev ns))"
  by (rule mangled_names [OF assms])

theorem mangled_anywhere_witness:
  "IsMangledDSNAME demo_env demo_name = None
    \<and> IsMangledDSNAME demo_env (string_name (dn_string deleted_dn)) = Some MANGLE_OBJECT_RDN_FOR_DELETION"
proof
  show "IsMangledDSNAME demo_env demo_name = None"
    using mangled_anywhere [of demo_name demo_dn demo_env] demo_rep
    by (simp add: dn_rep_def demo_dn_def rdn_mangled_def IsMangledRDN_def mangle_consts wstr_def)
  let ?m = "mangled MANGLE_PHANTOM_RDN_FOR_DELETION demo_uuid (wstr ''y'')"
  have m: "?m = wstr ''y'' @ [10] @ wstr ''DEL:a746b716-0ac0-11d2-b376-0000f87a46c8''"
    by (simp add: mangled_def mangle_consts mangle_tag_def demo_uuid_def wstr_def)
  have wf: "wf_dn deleted_dn" and len: "length (dn_string deleted_dn) < 2 ^ 32" and fit: "values_fit demo_env deleted_dn"
    unfolding deleted_dn_def m by (simp_all add: wf_dn_def wf_rdn_def values_fit_def demo_env_def dn_string_eval)
  have "IsMangledRDN demo_env ?m (length ?m) = Some (0xa746b7160ac011d2b3760000f87a46c8, MANGLE_OBJECT_RDN_FOR_DELETION)"
    using mangled_found [of demo_uuid demo_env "0xa746b7160ac011d2b3760000f87a46c8" "wstr ''y''" MANGLE_PHANTOM_RDN_FOR_DELETION "[]"]
    by (simp add: demo_env_def demo_uuid_def mangle_kind_def wstr_def)
  moreover have "IsMangledRDN demo_env (wstr ''z'') (length (wstr ''z'')) = None"
    by (simp add: IsMangledRDN_def mangle_consts wstr_def)
  moreover have "denotes (string_name (dn_string deleted_dn)) deleted_dn"
    using len by (simp add: denotes_def string_name_def)
  ultimately show "IsMangledDSNAME demo_env (string_name (dn_string deleted_dn)) = Some MANGLE_OBJECT_RDN_FOR_DELETION"
    using mangled_anywhere [OF _ wf fit] by (simp add: deleted_dn_def rdn_mangled_def demo_env_def)
qed

text \<open>C23. When \<^verbatim>\<open>AppendRDN\<close> reports success, the new name lies in the buffer of the caller, terminator included, whatever the base name is,
  as long as the sizes fit into 32 bits.
\<close>

theorem append_within_buffer:
  assumes a: "AppendRDN base new cb val n t = (0, d')" and cb: "cb < 2 ^ 32" and base: "58 \<le> structLen base"
    and small: "structLen base + 2 * (max n (length val) + 8) < 2 ^ 32"
  shows "DSNameSizeFromLen (NameLen d') \<le> cb \<and> structLen d' = DSNameSizeFromLen (NameLen d')"
  using append_bounds [OF a cb base small] .

theorem append_within_buffer_witness:
  "\<exists>d'. AppendRDN demo_name (blank_name 50) 150 (wstr ''xy'') 2 ATT_COMMON_NAME = (0, d') \<and> DSNameSizeFromLen (NameLen d') \<le> 150"
proof -
  let ?v = "wstr ''xy''"
  have d: "denotes demo_name demo_dn" "wf_dn demo_dn" "structLen demo_name = DSNameSizeFromLen (NameLen demo_name)"
    using demo_rep by (simp_all add: dn_rep_def)
  have len: "length (rdn_string (ATT_COMMON_NAME, ?v)) = 5" and key: "AttrTypeToKey ATT_COMMON_NAME \<noteq> []"
    and v: "?v \<noteq> []" "take 2 ?v = ?v" "2 = length ?v"
    by (simp_all add: dn_string_eval)
  have "demo_dn \<noteq> []" "DSNameSizeFromLen (NameLen demo_name + length (rdn_string (ATT_COMMON_NAME, ?v)) + 2) \<le> 150"
    "150 \<le> 56 + 2 * length (StringName (blank_name 50))"
    unfolding len by (simp_all add: demo_dn_def demo_name_def blank_name_def DSNameSizeFromLen_def)
  then obtain d' where a: "AppendRDN demo_name (blank_name 50) 150 ?v 2 ATT_COMMON_NAME = (0, d')"
    using append_denotes [OF d _ key v, of 150 "blank_name 50"] by auto
  from append_within_buffer [OF a] have "DSNameSizeFromLen (NameLen d') \<le> 150"
    by (simp add: demo_name_def wstr_def)
  with a show ?thesis
    by blast
qed

section \<open>Corner cases\<close>

text \<open>
  An RDN whose value consists of blanks only: the blanks are skipped at the end of the name and again behind the equal sign, so
  the count of the value wraps around.
\<close>

lemma top_of_blank_value: "GetTopNameComponent (wstr ''CN=   '' @ [0]) 0 6 = Inr (Some (0, 2, 6, - 3))"
  by code_simp

text \<open>A name of blanks only is not reported as the root, although the comment says so.\<close>

lemma top_of_blanks: "GetTopNameComponent (wstr ''   '' @ [0]) 0 3 = Inl DIRERR_NAME_UNPARSEABLE"
  by code_simp

text \<open>\<^verbatim>\<open>AppendRDN\<close> asks for a buffer of the size it was given.\<close>

lemma append_asks_again: "fst (AppendRDN (blank_name 1\<lparr>structLen := 58\<rparr>) (blank_name 9) 74 (wstr '',,,'') 3 ATT_COMMON_NAME) = 74"
proof -
  define S where "S = [67, 78, 61, 0, 0, 0, 0, 0, 0 :: WCHAR]"
  have key: "AttrTypeToKey ATT_COMMON_NAME = [67, 78]" and v: "take 3 (wstr '',,,'') = [44, 44, 44]"
    by (simp_all add: dn_string_eval)
  have S: "blit 2 [61] (blit 0 [67, 78] (StringName (memset_name (blank_name 9)))) = S"
    unfolding S_def by code_simp
  have "take 5 (drop 3 S) = [0, 0, 0, 0, 0]"
    by (simp add: S_def)
  moreover have q: "fst (QuoteRDNValue [44, 44, 44] [0, 0, 0, 0, 0]) = 6"
    by code_simp
  ultimately have "fst (append_value (blank_name 1\<lparr>structLen := 58\<rparr>) ((memset_name (blank_name 9))\<lparr>StringName := S\<rparr>) 74 [44, 44, 44] 3) = 74"
    by (simp add: append_value_def DSNameSizeFromLen_def sub32_def blank_name_def case_prod_unfold)
  moreover have n: "length [67, 78 :: WCHAR] = 2" "(if (3 :: nat) = 0 then length (takeWhile (\<lambda>c. c \<noteq> 0) (wstr '',,,'')) else 3) = 3"
    "structLen (blank_name 1\<lparr>structLen := 58\<rparr>) = 58"
    by simp_all
  ultimately show ?thesis
    unfolding AppendRDN_def Let_def key n v using S by simp
qed

text \<open>
  Components above the first one whose values cannot be parsed: \<^verbatim>\<open>NameMatchedStringNameOnly\<close> does not look at the error and compares
  empty values, so two different names match.
\<close>

lemma unparseable_match: "NameMatchedStringNameOnly demo_env (string_name (wstr ''CN=a,O=b+c'')) (string_name (wstr ''CN=a,O=b+d'')) = Some True"
  by code_simp

text \<open>Unknown keys above the first component are all alike; in the first component they match nothing but the same string.\<close>

lemma unknown_keys_match: "NameMatchedStringNameOnly demo_env (string_name (wstr ''CN=a,FOO=b'')) (string_name (wstr ''CN=a,BAR=b'')) = Some True"
  by code_simp

lemma unknown_first_key: "NameMatchedStringNameOnly demo_env (string_name (wstr ''FOO=a,O=b'')) (string_name (wstr ''FOO=a, O=b'')) = Some False"
  by code_simp

end
