(* ===== verification/Spec2Isabelle.thy ===== *)
theory Spec2Isabelle
  imports Topl_Prelude Topl_Util Topl_DynArray Topl_Schedule Topl_ReplSchedule Topl_STHeap Topl_Graph Topl_Dijkstra
    Topl_Kruskal Topl_Output Topl_DistToRed Topl_Components Topl_IntEdges Topl_Phases Topl_SpanTree
    Topl_Heap Topl_Lists Topl_Objects Topl_Wrappers Topl_Ring Topl_Prim
    LH_Optimal LH_Graph LH_Buckets LH_Search LH_BFS LH_BFS_Correct LH_Online LH_Match
    DN_Chars DN_Quote DN_Parse DN_Names DN_Top DN_Append DN_Match DN_Mangle DN_View
begin

text \<open>
  A model of three libraries of the directory service: the replication-topology library, the C code under
  \<^verbatim>\<open>src/ds/src/common/w32topl\<close> with its public headers \<^verbatim>\<open>w32topl.h\<close>, \<^verbatim>\<open>w32toplsched.h\<close> and
  \<^verbatim>\<open>w32toplspantree.h\<close> under \<^verbatim>\<open>src/ds/src/inc\<close>. The knowledge consistency checker, which decides which
  directory servers replicate with which, describes sites and site links to this library as a graph,
  gives it schedules and costs, and gets back the edges of a spanning forest. The second library,
  \<^verbatim>\<open>src/lhmatch\<close> with its public header \<^verbatim>\<open>src/inc/lhmatch.h\<close>, assigns the left-hand vertices of a bipartite graph to
  neighbours on the right-hand side so that the loads are as even as possible; it is used to spread
  connections over servers. The third one is the parser of string names, \<^verbatim>\<open>src/ds/src/ntdsa/src/parsedn.c\<close>, which the directory
  service contains and which \<^verbatim>\<open>src/ds/src/util/parsedn\<close> builds for its clients; the build for clients is the one modelled.

  \<^bold>\<open>Parts and how they interact.\<close> The schedule manager (\<^verbatim>\<open>schedman.c\<close>) keeps weekly schedules in a cache
  that stores every schedule once, so that handles can be compared; it merges schedules and derives
  replication schedules from availability schedules. The spanning-tree code (\<^verbatim>\<open>stalg.c\<close>) keeps a graph
  state: vertices, edges that may have more than two vertices, and edge sets, over which replication is
  transitive. A call of \<^verbatim>\<open>ToplGetSpanningTreeEdgesForVtx\<close> colors the vertices, runs for every edge set a
  shortest-path search from all colored vertices at once (with the heap of \<^verbatim>\<open>stheap.c\<close>; path schedules are
  merged in the schedule manager), collects internal edges between colored vertices in a generic
  table, picks a forest from them with Kruskal's algorithm and components kept in up-trees, and builds the
  output: distances to red vertices, components, and the edges, possibly directed. An older interface works on
  objects: vertices, edges, lists and graphs the caller creates and links (\<^verbatim>\<open>topllist.c\<close>, \<^verbatim>\<open>toplgrph.c\<close>,
  behind the argument checks of \<^verbatim>\<open>w32topl.c\<close>), from which it makes a ring of the vertices ordered by id
  (\<^verbatim>\<open>toplring.c\<close>, for the servers of a site) or a spanning forest with Prim's algorithm and a second heap
  (\<^verbatim>\<open>toplmst.c\<close>, \<^verbatim>\<open>toplheap.c\<close>). Both growable arrays of the library (\<^verbatim>\<open>dynarray.c\<close>,
  \<^verbatim>\<open>stda.c\<close>) hold pointers and values for these parts.
  The second library builds a graph edge by edge (\<^verbatim>\<open>lhmain.c\<close>) and computes a matching in it with one of two algorithms: one
  starts from a greedy assignment and evens out loads along alternating paths, with the right-hand vertices kept in
  buckets by load (\<^verbatim>\<open>lhbfs.c\<close>), the other adds the vertices one by one (\<^verbatim>\<open>lhonline.c\<close>).
  The third library works on the structure \<^verbatim>\<open>DSNAME\<close> of \<^verbatim>\<open>ntdsa.h\<close>, which holds a name as a string of keys and
  quoted values: it quotes and unquotes values, steps from separator to separator, splits off the component at either end,
  makes the names of parents and children, compares names, and marks (\<^emph>\<open>mangles\<close>) the names of deleted and conflicting objects.

  \<^bold>\<open>Theories and the code they model.\<close>
  \<^item> \<open>Topl_Prelude\<close>: exceptions as values of \<open>topl\<close> (\<open>Inl\<close> the exception) with \<open>bindE\<close> and \<open>foldE\<close>, the exception
    filter of \<^verbatim>\<open>w32topl.c\<close>, the C library's \<^verbatim>\<open>qsort\<close> and \<^verbatim>\<open>bsearch\<close> with the locale \<open>c_compare\<close>, and the NT generic
    table as a parameter, with its documented behaviour as the locale \<open>rtl_generic_table\<close> and an
    instance that shows the behaviour can be met.
  \<^item> \<open>Topl_Util\<close>: \<^verbatim>\<open>toplutil.c\<close>, the allocation routines every thread may set; the other theories take allocation as given.
  \<^item> \<open>Topl_DynArray\<close>: \<^verbatim>\<open>dynarray.c\<close> and \<^verbatim>\<open>stda.c\<close>, both instances of the locale \<open>growable_array\<close>.
  \<^item> \<open>Topl_Schedule\<close>, \<open>Topl_ReplSchedule\<close>: \<^verbatim>\<open>schedman.c\<close>. The cache is a record with the table; a handle is a table entry
    or the always schedule; the meaning of a handle is the set \<open>avail\<close> of its open quarter-hours.
  \<^item> \<open>Topl_STHeap\<close>: \<^verbatim>\<open>stheap.c\<close> over the caller's compare and location functions (locale \<open>heap_client\<close>).
  \<^item> \<open>Topl_Graph\<close>: data and construction part of \<^verbatim>\<open>stalg.c\<close>. Vertices and edges live in lists and pointers to them are
    indices; the invariant is \<open>graph_ok\<close>. The vertices are a client of the heap.
  \<^item> \<open>Topl_Dijkstra\<close>: the shortest-path phase, \<^verbatim>\<open>SetupDijkstra\<close> to \<^verbatim>\<open>Dijkstra\<close>.
  \<^item> \<open>Topl_Kruskal\<close>: internal edges, components (locale \<open>disjoint_classes\<close>) and \<^verbatim>\<open>Kruskal\<close>.
  \<^item> \<open>Topl_Output\<close>: the third phase and the entry points, definitions only.
  \<^item> \<open>Topl_DistToRed\<close>, \<open>Topl_Components\<close>: the depth-first search and the component report.
  \<^item> \<open>Topl_IntEdges\<close>, \<open>Topl_Phases\<close>: the first phase as a whole (locale \<open>edge_tables\<close>, which extends the locale of the
    schedule cache with the table of internal edges).
  \<^item> \<open>Topl_SpanTree\<close>: the entry point from end to end.
  \<^item> \<open>Topl_Heap\<close>: \<^verbatim>\<open>toplheap.c\<close>, a heap whose keys are read from a memory that changes between the calls (locale
    \<open>memory_queue\<close>).
  \<^item> \<open>Topl_Lists\<close>: \<^verbatim>\<open>topllist.c\<close>. Vertices and edges are list elements in an explicit memory \<open>topl_mem\<close>, addressed by
    pointers; lists and iterators hold pointers into it. The locales \<open>cell_routine\<close> and \<open>walk_body\<close> say what a routine
    that frees the elements of a list, and the body of an iterator loop, may do to the links.
  \<^item> \<open>Topl_Objects\<close>: \<^verbatim>\<open>toplgrph.c\<close>, the fields of vertices and edges and the association of an edge with its
    vertices.
  \<^item> \<open>Topl_Wrappers\<close>: the public routines of \<^verbatim>\<open>w32topl.c\<close>, and as \<open>object_reach\<close> the states a client can reach with them:
    the creation, field, association and vertex-list calls that \<open>object_reach\<close> lists, made under the conditions its rules state.
  \<^item> \<open>Topl_Ring\<close>: \<^verbatim>\<open>toplring.c\<close>; its edge array is another \<open>growable_array\<close>.
  \<^item> \<open>Topl_Prim\<close>: \<^verbatim>\<open>toplmst.c\<close>.
  \<^item> \<open>LH_Optimal\<close>: the specification of the second library without code: loads, cost, and level sets that certify an
    optimal assignment (locale \<open>assignment_problem\<close>, interpreted on the graphs of the library).
  \<^item> \<open>LH_Graph\<close>: data and interface of \<^verbatim>\<open>lhmain.c\<close>. The two vertex arrays are a store from pointers \<open>vref\<close> to vertices; the
    invariant is \<open>lh_ok\<close>.
  \<^item> \<open>LH_Buckets\<close>, \<open>LH_Search\<close>: the buckets as doubly linked lists, the greedy assignment, and the queue, marks and paths both
    algorithms use.
  \<^item> \<open>LH_BFS\<close>, \<open>LH_BFS_Correct\<close>: \<^verbatim>\<open>lhbfs.c\<close>. \<open>LH_Online\<close>: \<^verbatim>\<open>lhonline.c\<close>.
  \<^item> \<open>LH_Match\<close>: \<^verbatim>\<open>LHFindLHMatching\<close>, the states a client can reach (\<open>lh_reach\<close>; a call of \<^verbatim>\<open>LHOnline\<close> on a
    graph that already has a matching is not among the steps), and the properties of the library.
  \<^item> \<open>DN_Chars\<close>: characters, separators and keys of string names, \<^verbatim>\<open>AttrTypeToKeyLame\<close> to \<^verbatim>\<open>StepToNextDNSep\<close>; what the parser calls
    from Windows is the record \<open>dn_env\<close>. A pointer into a name is an index into its memory.
  \<^item> \<open>DN_Quote\<close>: \<^verbatim>\<open>QuoteRDNValue\<close> and \<^verbatim>\<open>UnquoteRDNValue\<close>, and the quoted form of a value.
  \<^item> \<open>DN_Parse\<close>: \<^verbatim>\<open>DSNAME\<close>, \<^verbatim>\<open>CountNameParts\<close>, \<^verbatim>\<open>TrimDSNameBy\<close>, \<^verbatim>\<open>GetTopNameComponent\<close>.
  \<^item> \<open>DN_Names\<close>, \<open>DN_Top\<close>: abstract names as lists of types and values, their string as \<^verbatim>\<open>AppendRDN\<close> writes it (\<open>denotes\<close>:
    well-known keys in capitals, the escapes of \<^verbatim>\<open>QuoteRDNValue\<close>, commas, no blanks), the other ways to spell a name (\<open>spells\<close>, \<open>items_ok\<close>),
    and what the routines do on them, forwards and backwards.
  \<^item> \<open>DN_Append\<close>: \<^verbatim>\<open>GetRDN\<close>, \<^verbatim>\<open>GetRDNInfoLame\<close>, \<^verbatim>\<open>AppendRDN\<close>. \<open>DN_Match\<close>: \<^verbatim>\<open>NameMatched\<close>. \<open>DN_Mangle\<close>: \<^verbatim>\<open>MangleRDNWithStatus\<close> to
    \<^verbatim>\<open>IsMangledDSNAME\<close>.
  \<^item> \<open>DN_View\<close>: the contract of names as a tree (locale \<open>name_view\<close>, interpreted on the routines) and the properties of the
    parser.

  \<^bold>\<open>What the lemmas show.\<close> The arrays refine lists; sorting and searching a value array find what is
  there. The cache is canonical: equal handles are schedules with the same open quarter-hours; merging
  intersects; the replication schedule has one open chunk per segment and agrees with the older routine; every reachable
  cache satisfies the invariant. The heap operations keep the heap order and the locations and return a
  least element. Every graph the interface can build is well formed. \<^verbatim>\<open>Dijkstra\<close> ends and computes
  shortest paths, with costs that saturate instead of wrapping. The internal edges are sound (each is
  a path between two colored vertices that accept it) and complete (they connect what accepted paths connect).
  \<^verbatim>\<open>Kruskal\<close> refines the greedy forest, which is acyclic, spanning and minimal for the order of
  the table. The distances, the components and the output edges are those of that forest, and the
  entry point composes them without an exception; its error paths are listed one by one. The linked lists
  of the older interface refine abstract lists; its objects stay well formed under every legal sequence of
  calls; associating and disassociating an edge is a round trip; the ring consists of the edges kept and the edges
  created, none superfluous; Prim's algorithm ends and grows a forest by lightest edges, and the edges
  reported for a vertex are the tree edges that enter it. Both algorithms of the second library end, match exactly the
  left-hand vertices that have a neighbour, and their matching has the least cost, uses the most right-hand
  vertices and has the least maximal load of all assignments; every graph its interface can build without a
  run of the second algorithm on a matching is well formed and counts its loads exactly; edges and matching edges can be read back; the statistics are those of the optimal
  matching. Two limits are proved as well: without an edge the first algorithm reads in front of the bucket array,
  and the second one, started on a matching it found itself, counts vertices twice. In the third library, unquoting inverts
  quoting; on names in the form \<^verbatim>\<open>AppendRDN\<close> writes, counting, trimming and appending are counting, dropping and prepending
  components, and parsing from the end finds the same components as parsing from the start; names in any spelling that
  \<open>items_ok\<close> allows are compared component by component, by types and values; a mangled value is recognised and not mangled twice; a name that is reported as built lies in its buffer. Corner cases in
  which the code does not do what its comments say are proved on examples at the end of \<open>DN_View\<close>.

  \<^bold>\<open>Conventions and bounds.\<close> Allocation never fails, except in \<open>Topl_Util\<close>. Assertions of the checked build are left out. A
  routine that raises returns only the exception. Loops whose end is not obvious from their text are
  \<open>partial_function (option)\<close> definitions in which \<open>None\<close> means that the loop does not end, and the theorems
  state that they return \<open>Some\<close>. Two loops of the schedule manager have fuel instead: \<open>destroy_loop\<close> takes it as an argument, and any
  number above the number of entries is enough; \<open>unavail_loop\<close> is started with a number that is shown to be
  enough. The C library's \<^verbatim>\<open>qsort\<close> is a fixed stable sort (\<open>c_qsort\<close>), while elements that compare equal may come
  in any order in C. \<^verbatim>\<open>DWORD\<close> costs, types and masks are 32-bit words;
  array indices and counters that are bounded by the size of an array are natural numbers. The local variable of
  \<^verbatim>\<open>TryNewPath\<close> that is read before it is written and the reaction of the caller's exception handler are parameters
  (\<open>topl_env\<close>). In the second library the counters, which are bounded by the number of vertices, are natural numbers; the
  sums of \<^verbatim>\<open>LHGetStatistics\<close> wrap around at 32 bits, and fit for up to 46340 left-hand vertices and fewer than
  \<open>2 ^ 31\<close> pairs of vertices.
  In string names a position or a count is a natural number, except for the counters of \<^verbatim>\<open>GetTopNameComponent\<close> and \<^verbatim>\<open>TrimDSNameBy\<close> and
  the sizes of \<^verbatim>\<open>AppendRDN\<close>, which wrap around at 32 bits; memory behind the characters of a structure reads as null
  characters. \<^verbatim>\<open>MAX_RDN_SIZE\<close>, \<^verbatim>\<open>CompareStringW\<close>, the conversion from UTF-8 and the string forms of GUIDs are parameters; the theorems
  assume of them that a string equals itself and that a GUID has a string of 36 characters that is read back.
  The correctness theorems of the search assume that all schedules on edges share an open
  quarter-hour, which excludes the exception for schedules that do not intersect.

  \<^bold>\<open>Not modelled.\<close> The effect of freeing on memory blocks other
  than vertices and edges; the clean-up code of \<^verbatim>\<open>__finally\<close> blocks after an exception; the entry point of the DLL. The
  printing routines and performance counters of the second library. The
  schema lookups of the server's build of the name parser (\<^verbatim>\<open>AttrTypeToKey\<close> and \<^verbatim>\<open>GetRDNInfo\<close> for attributes without a well-known
  key). The
  rest of the repository (the directory service agent, SAM, the database engine, name services, security) is database,
  network and user-interface code that only calls, or is independent of, these libraries.
\<close>

end
